(* ===== verification/Prelude.thy ===== *)
theory Prelude
  imports Main "HOL-Library.Word" "HOL-Library.Multiset"
begin

text \<open>
  The shared vocabulary of the development: the machine integers of the Rust
  sources, the iterator and vector operations of the standard library that the
  sources use, and the generic lemmas about them.  Panics of the sources are
  \<open>None\<close> of an option type throughout, and a \<open>Result\<close> is a sum with the
  error on the left.
\<close>

unbundle bit_operations_syntax

type_synonym u8 = "8 word"
type_synonym u16 = "16 word"
type_synonym u32 = "32 word"
type_synonym u64 = "64 word"
type_synonym bytes = "u8 list"

named_theorems mset_keep \<open>operations that keep a multiset of identifiers\<close>
named_theorems inv_keep \<open>operations that keep the invariant of their component\<close>

text \<open>The value an \<open>i32\<close> holds after wrapping to its width.\<close>

definition wrap_i32 :: "int \<Rightarrow> int" where
  "wrap_i32 x = sint (word_of_int x :: 32 word)"

lemma wrap_i32_id: "- (2 ^ 31) \<le> x \<Longrightarrow> x < 2 ^ 31 \<Longrightarrow> wrap_i32 x = x"
  by (simp add: wrap_i32_def sint_sbintrunc' signed_take_bit_int_eq_self)

subsection \<open>Iterator and vector operations\<close>

text \<open>\<open>Iterator::position\<close>: the index of the first element satisfying the predicate.\<close>

fun position :: "('a \<Rightarrow> bool) \<Rightarrow> 'a list \<Rightarrow> nat option" where
  "position P [] = None"
| "position P (x # xs) = (if P x then Some 0 else map_option Suc (position P xs))"

text \<open>\<open>Iterator::rposition\<close>: the index of the last element satisfying it.\<close>

fun rposition :: "('a \<Rightarrow> bool) \<Rightarrow> 'a list \<Rightarrow> nat option" where
  "rposition P [] = None"
| "rposition P (x # xs) =
     (case rposition P xs of Some i \<Rightarrow> Some (Suc i) | None \<Rightarrow> if P x then Some 0 else None)"

text \<open>\<open>Vec::remove\<close> for an index in range.\<close>

definition remove_at :: "nat \<Rightarrow> 'a list \<Rightarrow> 'a list" where
  "remove_at i xs = take i xs @ drop (Suc i) xs"

text \<open>\<open>slice::get\<close>, \<open>slice::first\<close> and \<open>slice::last\<close>.\<close>

definition get :: "'a list \<Rightarrow> nat \<Rightarrow> 'a option" where
  "get xs i = (if i < length xs then Some (xs ! i) else None)"

definition first_of :: "'a list \<Rightarrow> 'a option" where
  "first_of xs = (case xs of [] \<Rightarrow> None | x # _ \<Rightarrow> Some x)"

definition last_of :: "'a list \<Rightarrow> 'a option" where
  "last_of xs = (if xs = [] then None else Some (last xs))"

text \<open>\<open>Option::or_else\<close>, with the alternative as a value.\<close>

fun or_else :: "'a option \<Rightarrow> 'a option \<Rightarrow> 'a option" where
  "or_else (Some x) _ = Some x"
| "or_else None y = y"

text \<open>The exchange of two values, and the multiset of a distinct list under it.\<close>

definition exchange :: "'a \<Rightarrow> 'a \<Rightarrow> 'a \<Rightarrow> 'a" where
  "exchange a b x = (if x = a then b else if x = b then a else x)"

lemma mset_map_exchange:
  assumes "distinct xs" "a \<in> set xs" "b \<in> set xs"
  shows "image_mset (exchange a b) (mset xs) = mset xs"
  unfolding mset_map [symmetric]
proof (rule set_eq_iff_mset_eq_distinct [THEN iffD1])
  show "distinct (map (exchange a b) xs)"
    using assms by (auto simp: distinct_map inj_on_def exchange_def split: if_splits)
  show "set (map (exchange a b) xs) = set xs"
    using assms by (force simp: exchange_def image_iff)
qed (rule assms)

lemma position_None_iff: "position P xs = None \<longleftrightarrow> (\<forall>x\<in>set xs. \<not> P x)"
  by (induction xs) auto

lemma position_SomeD:
  "position P xs = Some i \<Longrightarrow> i < length xs \<and> P (xs ! i) \<and> (\<forall>j<i. \<not> P (xs ! j))"
proof (induction xs arbitrary: i)
  case Nil
  then show ?case by simp
next
  case (Cons x xs)
  show ?case
  proof (cases "P x")
    case True
    with Cons.prems show ?thesis by simp
  next
    case False
    with Cons.prems obtain k where k: "position P xs = Some k" "i = Suc k"
      by auto
    with Cons.IH [OF k(1)] False show ?thesis
      by (auto simp: less_Suc_eq_0_disj nth_Cons')
  qed
qed

lemma position_map [simp]: "position P (map f xs) = position (\<lambda>x. P (f x)) xs"
  by (induction xs) auto

lemma position_distinct:
  "distinct xs \<Longrightarrow> i < length xs \<Longrightarrow> position (\<lambda>y. y = xs ! i) xs = Some i"
proof (induction xs arbitrary: i)
  case (Cons x xs)
  then show ?case
    by (cases i) auto
qed simp

lemma set_remove_at_subset: "set (remove_at i xs) \<subseteq> set xs"
  by (auto simp: remove_at_def dest: in_set_takeD in_set_dropD)

lemma length_remove_at: "i < length xs \<Longrightarrow> length (remove_at i xs) = length xs - 1"
  by (simp add: remove_at_def)

lemma mset_remove_at:
  assumes "i < length xs"
  shows "mset (remove_at i xs) = mset xs - {#xs ! i#}"
proof -
  have "mset xs = mset (take i xs @ xs ! i # drop (Suc i) xs)"
    using assms by (simp flip: id_take_nth_drop)
  then show ?thesis by (simp add: remove_at_def)
qed

lemma set_remove_at_distinct:
  assumes "distinct xs" "i < length xs"
  shows "set (remove_at i xs) = set xs - {xs ! i}"
proof -
  have xs: "xs = take i xs @ xs ! i # drop (i + 1) xs" using assms(2) by (simp add: id_take_nth_drop)
  then have "distinct (take i xs @ xs ! i # drop (i + 1) xs)" using assms(1) by simp
  moreover have "set xs = insert (xs ! i) (set (take i xs) \<union> set (drop (i + 1) xs))"
    by (subst xs) auto
  ultimately show ?thesis by (auto simp: remove_at_def)
qed

lemma get_eq_Some_iff: "get xs i = Some x \<longleftrightarrow> i < length xs \<and> xs ! i = x"
  by (auto simp: get_def)

lemma get_in_set: "get xs i = Some x \<Longrightarrow> x \<in> set xs"
  by (auto simp: get_def split: if_splits)

lemma last_of_in_set: "last_of xs = Some x \<Longrightarrow> x \<in> set xs"
  by (auto simp: last_of_def split: if_splits)

lemma first_of_in_set: "first_of xs = Some x \<Longrightarrow> x \<in> set xs"
  by (auto simp: first_of_def split: list.splits)

lemma or_else_eq_Some_iff: "or_else a b = Some x \<longleftrightarrow> a = Some x \<or> a = None \<and> b = Some x"
  by (cases a) auto

lemma or_else_eq_None_iff: "or_else a b = None \<longleftrightarrow> a = None \<and> b = None"
  by (cases a) auto

lemma find_append: "find P (xs @ ys) = or_else (find P xs) (find P ys)"
  by (induction xs) auto

lemma find_in_set: "find P xs = Some x \<Longrightarrow> x \<in> set xs \<and> P x"
  by (auto simp: find_Some_iff)

lemma position_eq_in_set: "position (\<lambda>x. x = j) xs = Some k \<Longrightarrow> j \<in> set xs"
  by (induction xs arbitrary: k) (auto split: if_splits)

lemma get_eq_None_iff: "get xs k = None \<longleftrightarrow> length xs \<le> k"
  by (simp add: get_def not_less)

end
