(* ===== verification/Floats.thy ===== *)
theory Floats
  imports Prelude Complex_Main "HOL-Library.Log_Nat"
begin

text \<open>
  The \<open>f32\<close> and \<open>f64\<close> arithmetic the layout code computes areas and regions
  with.  A finite value is the rational it denotes, every operation rounds its
  exact result to the format's precision, ties to even, as IEEE 754 does; the
  two infinities and NaN are separate constructors.  The sign of zero is not
  kept: no source line modelled here can observe it.

  The layout functions take the arithmetic as a record, so that one definition
  serves the code's own format and exact rational arithmetic, in which the
  geometric theorems are stated.
\<close>

datatype flt = Fin rat | PInf | NInf | NaN

record fmt =
  prec :: nat
  emin :: int
  emax :: int

definition f32_fmt :: fmt where
  "f32_fmt = \<lparr>prec = 24, emin = - 149, emax = 127\<rparr>"

definition f64_fmt :: fmt where
  "f64_fmt = \<lparr>prec = 53, emin = - 1074, emax = 1023\<rparr>"

definition pow2 :: "int \<Rightarrow> rat" where
  "pow2 e = (if 0 \<le> e then 2 ^ nat e else 1 / 2 ^ nat (- e))"

text \<open>The exponent of a positive rational: \<open>pow2 e \<le> x < pow2 (e + 1)\<close>.\<close>

definition rat_exp :: "rat \<Rightarrow> int" where
  "rat_exp x =
     (let (n, d) = quotient_of x;
          e = int (floorlog 2 (nat n)) - int (floorlog 2 (nat d))
      in if pow2 e \<le> x then e else e - 1)"

definition round_half_even :: "rat \<Rightarrow> int" where
  "round_half_even x =
     (let f = \<lfloor>x\<rfloor>; d = x - of_int f
      in if d < 1 / 2 then f else if 1 / 2 < d then f + 1 else if even f then f else f + 1)"

definition fround :: "fmt \<Rightarrow> rat \<Rightarrow> flt" where
  "fround m x =
     (if x = 0 then Fin 0
      else let q = max (rat_exp \<bar>x\<bar> - int (prec m) + 1) (emin m);
               r = of_int (round_half_even (x / pow2 q)) * pow2 q
           in if pow2 (emax m + 1) \<le> \<bar>r\<bar> then (if 0 < r then PInf else NInf) else Fin r)"

fun fsgn :: "flt \<Rightarrow> rat" where
  "fsgn (Fin x) = sgn x"
| "fsgn PInf = 1"
| "fsgn NInf = - 1"
| "fsgn NaN = 0"

definition signed_inf :: "rat \<Rightarrow> flt" where
  "signed_inf s = (if 0 < s then PInf else if s < 0 then NInf else NaN)"

fun flt_add :: "fmt \<Rightarrow> flt \<Rightarrow> flt \<Rightarrow> flt" where
  "flt_add m (Fin x) (Fin y) = fround m (x + y)"
| "flt_add m NaN _ = NaN"
| "flt_add m _ NaN = NaN"
| "flt_add m (Fin _) b = b"
| "flt_add m a (Fin _) = a"
| "flt_add m a b = (if a = b then a else NaN)"

fun flt_neg :: "flt \<Rightarrow> flt" where
  "flt_neg (Fin x) = Fin (- x)"
| "flt_neg PInf = NInf"
| "flt_neg NInf = PInf"
| "flt_neg NaN = NaN"

definition flt_sub :: "fmt \<Rightarrow> flt \<Rightarrow> flt \<Rightarrow> flt" where
  "flt_sub m a b = flt_add m a (flt_neg b)"

fun flt_mul :: "fmt \<Rightarrow> flt \<Rightarrow> flt \<Rightarrow> flt" where
  "flt_mul m (Fin x) (Fin y) = fround m (x * y)"
| "flt_mul m NaN _ = NaN"
| "flt_mul m _ NaN = NaN"
| "flt_mul m a b = signed_inf (fsgn a * fsgn b)"

fun flt_div :: "fmt \<Rightarrow> flt \<Rightarrow> flt \<Rightarrow> flt" where
  "flt_div m NaN _ = NaN"
| "flt_div m _ NaN = NaN"
| "flt_div m (Fin x) (Fin y) = (if y = 0 then signed_inf (sgn x) else fround m (x / y))"
| "flt_div m (Fin _) _ = Fin 0"
| "flt_div m a (Fin y) = signed_inf (fsgn a * (if y < 0 then - 1 else 1))"
| "flt_div m _ _ = NaN"

fun flt_abs :: "flt \<Rightarrow> flt" where
  "flt_abs (Fin x) = Fin \<bar>x\<bar>"
| "flt_abs NaN = NaN"
| "flt_abs _ = PInf"

fun flt_lt :: "flt \<Rightarrow> flt \<Rightarrow> bool" where
  "flt_lt (Fin x) (Fin y) \<longleftrightarrow> x < y"
| "flt_lt NaN _ \<longleftrightarrow> False"
| "flt_lt _ NaN \<longleftrightarrow> False"
| "flt_lt NInf b \<longleftrightarrow> b \<noteq> NInf"
| "flt_lt a PInf \<longleftrightarrow> a \<noteq> PInf"
| "flt_lt _ _ \<longleftrightarrow> False"

definition flt_le :: "flt \<Rightarrow> flt \<Rightarrow> bool" where
  "flt_le a b \<longleftrightarrow> flt_lt a b \<or> a = b \<and> a \<noteq> NaN"

text \<open>\<open>f32::total_cmp\<close>: NaN above everything.\<close>

definition flt_total_lt :: "flt \<Rightarrow> flt \<Rightarrow> bool" where
  "flt_total_lt a b \<longleftrightarrow> flt_lt a b \<or> a \<noteq> NaN \<and> b = NaN"

text \<open>The operations the layout code uses, as one value.\<close>

record 'f arith =
  a_add :: "'f \<Rightarrow> 'f \<Rightarrow> 'f"
  a_sub :: "'f \<Rightarrow> 'f \<Rightarrow> 'f"
  a_mul :: "'f \<Rightarrow> 'f \<Rightarrow> 'f"
  a_div :: "'f \<Rightarrow> 'f \<Rightarrow> 'f"
  a_abs :: "'f \<Rightarrow> 'f"
  a_lt :: "'f \<Rightarrow> 'f \<Rightarrow> bool"
  a_le :: "'f \<Rightarrow> 'f \<Rightarrow> bool"
  a_total_lt :: "'f \<Rightarrow> 'f \<Rightarrow> bool"
  a_lit :: "rat \<Rightarrow> 'f"

definition flt_arith :: "fmt \<Rightarrow> flt arith" where
  "flt_arith m = \<lparr>a_add = flt_add m, a_sub = flt_sub m, a_mul = flt_mul m, a_div = flt_div m,
     a_abs = flt_abs, a_lt = flt_lt, a_le = flt_le, a_total_lt = flt_total_lt, a_lit = fround m\<rparr>"

definition f32 :: "flt arith" where
  "f32 = flt_arith f32_fmt"

definition f64 :: "flt arith" where
  "f64 = flt_arith f64_fmt"

definition exact :: "rat arith" where
  "exact = \<lparr>a_add = (+), a_sub = (-), a_mul = (*), a_div = (/), a_abs = abs, a_lt = (<),
     a_le = (\<le>), a_total_lt = (<), a_lit = (\<lambda>x. x)\<rparr>"

lemma exact_sel [simp]:
  "a_add exact = (+)" "a_sub exact = (-)" "a_mul exact = (*)" "a_div exact = (/)"
  "a_abs exact = abs" "a_lt exact = (<)" "a_le exact = (\<le>)" "a_total_lt exact = (<)" "a_lit exact = (\<lambda>x. x)"
  by (simp_all add: exact_def)

text \<open>\<open>x.round() as i32\<close>: half away from zero, then the saturating cast, NaN to 0.\<close>

definition round_half_away :: "rat \<Rightarrow> int" where
  "round_half_away x = (if x < 0 then - \<lfloor>1 / 2 - x\<rfloor> else \<lfloor>x + 1 / 2\<rfloor>)"

fun round_to_i32 :: "flt \<Rightarrow> int" where
  "round_to_i32 (Fin x) = max (- (2 ^ 31)) (min (2 ^ 31 - 1) (round_half_away x))"
| "round_to_i32 PInf = 2 ^ 31 - 1"
| "round_to_i32 NInf = - (2 ^ 31)"
| "round_to_i32 NaN = 0"

lemma round_half_even_of_int [simp]: "round_half_even (of_int k) = k"
  by (simp add: round_half_even_def)

lemma round_half_away_neg: "round_half_away (- x) = - round_half_away x"
proof -
  have "\<lfloor>1 / 2 :: rat\<rfloor> = 0" by (simp add: floor_eq_iff)
  moreover have "x = 0 \<or> x < 0 \<or> 0 < x" by linarith
  ultimately show ?thesis by (auto simp: round_half_away_def algebra_simps)
qed

lemma round_to_i32_bounds: "- (2 ^ 31) \<le> round_to_i32 x \<and> round_to_i32 x \<le> 2 ^ 31 - 1"
  by (cases x) auto

lemma pow2_pos [simp]: "0 < pow2 e"
  by (simp add: pow2_def)

lemma pow2_not_le_0 [simp]: "\<not> pow2 e \<le> 0"
  using pow2_pos [of e] by linarith

lemma round_half_even_nonneg: "0 \<le> x \<Longrightarrow> 0 \<le> round_half_even x"
  by (simp add: round_half_even_def Let_def)

lemma fround_0 [simp]: "fround m 0 = Fin 0"
  by (simp add: fround_def)

lemma flt_lt_NaN [simp]: "\<not> flt_lt a NaN"
  by (cases a) auto

lemma fround_nonneg: "0 \<le> x \<Longrightarrow> \<not> flt_lt (fround m x) (Fin 0)"
proof -
  assume x: "0 \<le> x"
  let ?q = "max (rat_exp \<bar>x\<bar> - int (prec m) + 1) (emin m)"
  have "0 \<le> x / pow2 ?q" by (rule divide_nonneg_pos [OF x pow2_pos])
  then have "0 \<le> of_int (round_half_even (x / pow2 ?q)) * pow2 ?q"
    by (intro mult_nonneg_nonneg less_imp_le [OF pow2_pos]) (simp add: round_half_even_nonneg)
  then show ?thesis
    by (auto simp: fround_def Let_def not_less)
qed

text \<open>Some literals that \<open>f32\<close> represents exactly.\<close>

lemma f32_literals:
  "fround f32_fmt 1 = Fin 1" "fround f32_fmt 2 = Fin 2" "fround f32_fmt 500 = Fin 500"
  "fround f32_fmt 1000 = Fin 1000" "fround f32_fmt (1 / 2) = Fin (1 / 2)"
  "fround f32_fmt (1 / 4) = Fin (1 / 4)" "fround f32_fmt (3 / 2) = Fin (3 / 2)"
  "fround f32_fmt (3 / 4) = Fin (3 / 4)"
  by code_simp+

lemma f32_sel:
  "a_add f32 = flt_add f32_fmt" "a_sub f32 = flt_sub f32_fmt" "a_mul f32 = flt_mul f32_fmt"
  "a_div f32 = flt_div f32_fmt" "a_abs f32 = flt_abs" "a_lt f32 = flt_lt" "a_le f32 = flt_le"
  "a_total_lt f32 = flt_total_lt" "a_lit f32 = fround f32_fmt"
  by (simp_all add: f32_def flt_arith_def)

end
