(* ===== verification/Pane_Layout.thy ===== *)
theory Pane_Layout
  imports Floats
begin

text \<open>
  The pane layout tree of \<open>src/pane/layout.rs\<close>: the split tree of a tab, every
  operation that reshapes it and the regions it divides the tab into.  A method
  taking \<open>&mut self\<close> returns the new tree beside its result.
\<close>

datatype split_axis = Horizontal | Vertical

datatype split_position = Before | After

datatype pane_direction = LeftDir | RightDir | UpDir | DownDir

datatype pane_rotation_direction = Clockwise | CounterClockwise

record 'f pane_region =
  region_id :: u64
  left :: 'f
  right :: 'f
  top :: 'f
  bottom :: 'f

record 'f pane_resize_boundary =
  parent_fraction :: 'f
  active_is_first :: bool
  sibling_panes :: "u64 list"

datatype pane_layout =
    Pane u64
  | Split split_axis u16 pane_layout pane_layout

definition PANE_SPLIT_RATIO_SCALE :: u16 where
  "PANE_SPLIT_RATIO_SCALE = 1000"

definition DEFAULT_PANE_SPLIT_RATIO :: u16 where
  "DEFAULT_PANE_SPLIT_RATIO = PANE_SPLIT_RATIO_SCALE div 2"

definition PANE_ROTATION_AREA_EPSILON :: rat where
  "PANE_ROTATION_AREA_EPSILON = 1 / 10 ^ 9"

definition ADJACENT_PANE_TIE_EPSILON :: rat where
  "ADJACENT_PANE_TIE_EPSILON = 1 / 10 ^ 4"

text \<open>\<open>f64::from(ratio)\<close> and \<open>f32::from(ratio)\<close>: exact in both formats.\<close>

definition from_u16 :: "'f arith \<Rightarrow> u16 \<Rightarrow> 'f" where
  "from_u16 A r = a_lit A (of_nat (unat r))"

definition other_axis :: "split_axis \<Rightarrow> split_axis" where
  "other_axis a = (case a of Horizontal \<Rightarrow> Vertical | Vertical \<Rightarrow> Horizontal)"

subsection \<open>Queries\<close>

fun contains_pane :: "pane_layout \<Rightarrow> u64 \<Rightarrow> bool" where
  "contains_pane (Pane i) p = (i = p)"
| "contains_pane (Split _ _ f s) p = (contains_pane f p \<or> contains_pane s p)"

fun collect_pane_ids :: "pane_layout \<Rightarrow> u64 list \<Rightarrow> u64 list" where
  "collect_pane_ids (Pane i) ids = ids @ [i]"
| "collect_pane_ids (Split _ _ f s) ids = collect_pane_ids s (collect_pane_ids f ids)"

definition pane_ids :: "pane_layout \<Rightarrow> u64 list" where
  "pane_ids l = collect_pane_ids l []"

fun first_pane :: "pane_layout \<Rightarrow> u64" where
  "first_pane (Pane i) = i"
| "first_pane (Split _ _ f _) = first_pane f"

subsection \<open>Rotation\<close>

fun pane_area :: "'f arith \<Rightarrow> pane_layout \<Rightarrow> u64 \<Rightarrow> 'f \<Rightarrow> 'f option" where
  "pane_area A (Pane i) p area = (if i = p then Some area else None)"
| "pane_area A (Split _ r f s) p area =
     (let first_area = a_div A (a_mul A area (from_u16 A r)) (from_u16 A PANE_SPLIT_RATIO_SCALE)
      in or_else (pane_area A f p first_area) (pane_area A s p (a_sub A area first_area)))"

fun collect_leaf_areas :: "'f arith \<Rightarrow> pane_layout \<Rightarrow> 'f \<Rightarrow> 'f list \<Rightarrow> 'f list" where
  "collect_leaf_areas A (Pane _) area areas = areas @ [area]"
| "collect_leaf_areas A (Split _ r f s) area areas =
     (let first_area = a_div A (a_mul A area (from_u16 A r)) (from_u16 A PANE_SPLIT_RATIO_SCALE)
      in collect_leaf_areas A s (a_sub A area first_area) (collect_leaf_areas A f first_area areas))"

definition has_four_equal_panes :: "'f arith \<Rightarrow> pane_layout \<Rightarrow> 'f \<Rightarrow> bool" where
  "has_four_equal_panes A l area =
     (let areas = collect_leaf_areas A l area []
      in length areas = 4 \<and>
         list_all (\<lambda>c. a_le A (a_abs A (a_sub A c (areas ! 0)))
                         (a_lit A PANE_ROTATION_AREA_EPSILON)) areas)"

fun is_two_pane_split :: "pane_layout \<Rightarrow> bool" where
  "is_two_pane_split (Split _ _ (Pane _) (Pane _)) = True"
| "is_two_pane_split _ = False"

fun rotation_target :: "'f arith \<Rightarrow> pane_layout \<Rightarrow> u64 \<Rightarrow> 'f \<Rightarrow> 'f \<Rightarrow> bool list option" where
  "rotation_target A (Pane i) p active_area area =
     (if has_four_equal_panes A (Pane i) area \<or> is_two_pane_split (Pane i) then Some [] else None)"
| "rotation_target A (Split ax r f s) p active_area area =
     (if has_four_equal_panes A (Split ax r f s) area \<or> is_two_pane_split (Split ax r f s)
      then Some []
      else
        let first_area = a_div A (a_mul A area (from_u16 A r)) (from_u16 A PANE_SPLIT_RATIO_SCALE);
            second_area = a_sub A area first_area;
            dominates = (\<lambda>sibling_area.
              if a_le A sibling_area (a_add A active_area (a_lit A PANE_ROTATION_AREA_EPSILON))
              then Some [] else None)
        in if contains_pane f p then
             (case rotation_target A f p active_area first_area of
                Some path \<Rightarrow> Some (True # path)
              | None \<Rightarrow> dominates second_area)
           else if contains_pane s p then
             (case rotation_target A s p active_area second_area of
                Some path \<Rightarrow> Some (False # path)
              | None \<Rightarrow> dominates first_area)
           else None)"

fun rotate_geometry :: "pane_layout \<Rightarrow> pane_rotation_direction \<Rightarrow> pane_layout" where
  "rotate_geometry (Pane i) d = Pane i"
| "rotate_geometry (Split ax r f s) d =
     (let f' = rotate_geometry f d; s' = rotate_geometry s d;
          reverse_children = (d = Clockwise \<and> ax = Horizontal \<or> d = CounterClockwise \<and> ax = Vertical);
          ax' = (case ax of Horizontal \<Rightarrow> Vertical | Vertical \<Rightarrow> Horizontal)
      in if reverse_children then Split ax' (PANE_SPLIT_RATIO_SCALE - r) s' f'
         else Split ax' r f' s')"

fun rotate_at_path :: "pane_layout \<Rightarrow> bool list \<Rightarrow> pane_rotation_direction \<Rightarrow> pane_layout" where
  "rotate_at_path l [] d = rotate_geometry l d"
| "rotate_at_path (Split ax r f s) (b # path) d =
     (if b then Split ax r (rotate_at_path f path d) s else Split ax r f (rotate_at_path s path d))"
| "rotate_at_path (Pane i) (b # path) d = Pane i"

definition rotate_pane ::
  "pane_layout \<Rightarrow> u64 \<Rightarrow> pane_rotation_direction \<Rightarrow> bool \<times> pane_layout" where
  "rotate_pane l active d =
     (case pane_area f64 l active (a_lit f64 1) of
        None \<Rightarrow> (False, l)
      | Some active_area \<Rightarrow>
          (case rotation_target f64 l active active_area (a_lit f64 1) of
             None \<Rightarrow> (False, l)
           | Some path \<Rightarrow> (True, rotate_at_path l path d)))"

subsection \<open>Building, splitting, replacing, removing\<close>

text \<open>\<open>pane_ids[pane_id]\<close> panics on a missing key: \<open>None\<close>.\<close>

fun remap_pane_ids :: "pane_layout \<Rightarrow> (u64 \<rightharpoonup> u64) \<Rightarrow> pane_layout option" where
  "remap_pane_ids (Pane i) m = map_option Pane (m i)"
| "remap_pane_ids (Split ax r f s) m =
     (case remap_pane_ids f m of
        None \<Rightarrow> None
      | Some f' \<Rightarrow> (case remap_pane_ids s m of None \<Rightarrow> None | Some s' \<Rightarrow> Some (Split ax r f' s')))"

text \<open>The inner \<open>build\<close> of \<open>tiled\<close>; it recurses forever on no panes, which is \<open>None\<close>.\<close>

function (sequential) tiled_build :: "u64 list \<Rightarrow> split_axis \<Rightarrow> pane_layout option" where
  "tiled_build [] ax = None"
| "tiled_build [i] ax = Some (Pane i)"
| "tiled_build ids ax =
     (let midpoint = (if length ids = 3 then 1 else (length ids + 1) div 2);
          next_axis = (case ax of Horizontal \<Rightarrow> Vertical | Vertical \<Rightarrow> Horizontal)
      in case tiled_build (take midpoint ids) next_axis of
           None \<Rightarrow> None
         | Some f \<Rightarrow> (case tiled_build (drop midpoint ids) next_axis of
             None \<Rightarrow> None
           | Some s \<Rightarrow> Some (Split ax DEFAULT_PANE_SPLIT_RATIO f s)))"
  by pat_completeness auto
termination
  by (relation "measure (length \<circ> fst)") auto

definition tiled :: "u64 list \<Rightarrow> pane_layout option" where
  "tiled ids = (if ids = [] then None else tiled_build ids Vertical)"

fun split_layout ::
  "pane_layout \<Rightarrow> u64 \<Rightarrow> split_axis \<Rightarrow> u64 \<Rightarrow> split_position \<Rightarrow> bool \<times> pane_layout" where
  "split_layout (Pane i) target ax new_pane pos =
     (if i = target then
        let (a, b) = (case pos of Before \<Rightarrow> (new_pane, target) | After \<Rightarrow> (target, new_pane))
        in (True, Split ax DEFAULT_PANE_SPLIT_RATIO (Pane a) (Pane b))
      else (False, Pane i))"
| "split_layout (Split ax' r f s) target ax new_pane pos =
     (case split_layout f target ax new_pane pos of
        (True, f') \<Rightarrow> (True, Split ax' r f' s)
      | (False, f') \<Rightarrow>
          (case split_layout s target ax new_pane pos of (b, s') \<Rightarrow> (b, Split ax' r f' s')))"

text \<open>\<open>replacement.take().expect(..)\<close>: the replacement is consumed, a second use panics.\<close>

fun replace_inner ::
  "pane_layout \<Rightarrow> u64 \<Rightarrow> pane_layout option \<Rightarrow> (bool \<times> pane_layout \<times> pane_layout option) option"
where
  "replace_inner (Pane i) target rep =
     (if i = target then
        (case rep of None \<Rightarrow> None | Some l \<Rightarrow> Some (True, l, None))
      else Some (False, Pane i, rep))"
| "replace_inner (Split ax r f s) target rep =
     (case replace_inner f target rep of
        None \<Rightarrow> None
      | Some (True, f', rep') \<Rightarrow> Some (True, Split ax r f' s, rep')
      | Some (False, f', rep') \<Rightarrow>
          (case replace_inner s target rep' of
             None \<Rightarrow> None
           | Some (b, s', rep'') \<Rightarrow> Some (b, Split ax r f' s', rep'')))"

definition replace_layout :: "pane_layout \<Rightarrow> u64 \<Rightarrow> pane_layout \<Rightarrow> (bool \<times> pane_layout) option" where
  "replace_layout l target replacement =
     map_option (\<lambda>(b, l', _). (b, l')) (replace_inner l target (Some replacement))"

text \<open>A configured pane template; the content of its leaves does not matter to the layout.\<close>

datatype 'c pane_split_template =
    TPane 'c
  | TSplit split_axis "'c pane_split_template" "'c pane_split_template"

fun from_template :: "'c pane_split_template \<Rightarrow> u64 list \<Rightarrow> (pane_layout \<times> u64 list) option" where
  "from_template (TPane _) ids = (case ids of [] \<Rightarrow> None | i # rest \<Rightarrow> Some (Pane i, rest))"
| "from_template (TSplit ax f s) ids =
     (case from_template f ids of
        None \<Rightarrow> None
      | Some (f', ids') \<Rightarrow>
          (case from_template s ids' of
             None \<Rightarrow> None
           | Some (s', ids'') \<Rightarrow> Some (Split ax DEFAULT_PANE_SPLIT_RATIO f' s', ids'')))"

fun without :: "pane_layout \<Rightarrow> u64 \<Rightarrow> pane_layout option" where
  "without (Pane i) target = (if i \<noteq> target then Some (Pane i) else None)"
| "without (Split ax r f s) target =
     (case (without f target, without s target) of
        (Some f', Some s') \<Rightarrow> Some (Split ax r f' s')
      | (Some l, None) \<Rightarrow> Some l
      | (None, Some l) \<Rightarrow> Some l
      | (None, None) \<Rightarrow> None)"

fun without_all :: "pane_layout \<Rightarrow> u64 set \<Rightarrow> pane_layout option" where
  "without_all (Pane i) targets = (if i \<notin> targets then Some (Pane i) else None)"
| "without_all (Split ax r f s) targets =
     (case (without_all f targets, without_all s targets) of
        (Some f', Some s') \<Rightarrow> Some (Split ax r f' s')
      | (Some l, None) \<Rightarrow> Some l
      | (None, Some l) \<Rightarrow> Some l
      | (None, None) \<Rightarrow> None)"

subsection \<open>Regions\<close>

definition ratio_fraction :: "'f arith \<Rightarrow> u16 \<Rightarrow> 'f" where
  "ratio_fraction A r = a_div A (from_u16 A r) (from_u16 A PANE_SPLIT_RATIO_SCALE)"

fun collect_regions ::
  "'f arith \<Rightarrow> pane_layout \<Rightarrow> 'f \<Rightarrow> 'f \<Rightarrow> 'f \<Rightarrow> 'f \<Rightarrow> 'f pane_region list \<Rightarrow> 'f pane_region list"
where
  "collect_regions A (Pane i) l t w h regions =
     regions @ [\<lparr>region_id = i, left = l, right = a_add A l w, top = t, bottom = a_add A t h\<rparr>]"
| "collect_regions A (Split Horizontal r f s) l t w h regions =
     (let first_height = a_mul A h (ratio_fraction A r)
      in collect_regions A s l (a_add A t first_height) w (a_sub A h first_height)
           (collect_regions A f l t w first_height regions))"
| "collect_regions A (Split Vertical r f s) l t w h regions =
     (let first_width = a_mul A w (ratio_fraction A r)
      in collect_regions A s (a_add A l first_width) t (a_sub A w first_width) h
           (collect_regions A f l t first_width h regions))"

definition regions :: "'f arith \<Rightarrow> pane_layout \<Rightarrow> 'f pane_region list" where
  "regions A l = collect_regions A l (a_lit A 0) (a_lit A 0) (a_lit A 1) (a_lit A 1) []"

subsection \<open>Resizing\<close>

fun resize_boundary_inner ::
  "pane_layout \<Rightarrow> u64 \<Rightarrow> split_axis \<Rightarrow> flt \<Rightarrow> flt pane_resize_boundary option" where
  "resize_boundary_inner (Pane _) p ax share = None"
| "resize_boundary_inner (Split sax r f s) p ax share =
     (let first_fraction = ratio_fraction f32 r
      in if contains_pane f p then
           or_else (resize_boundary_inner f p ax (a_mul f32 share first_fraction))
             (if sax = ax then Some \<lparr>parent_fraction = share, active_is_first = True,
                                    sibling_panes = pane_ids s\<rparr> else None)
         else if contains_pane s p then
           or_else (resize_boundary_inner s p ax
                      (a_mul f32 share (a_sub f32 (a_lit f32 1) first_fraction)))
             (if sax = ax then Some \<lparr>parent_fraction = share, active_is_first = False,
                                    sibling_panes = pane_ids f\<rparr> else None)
         else None)"

definition resize_boundary :: "pane_layout \<Rightarrow> u64 \<Rightarrow> split_axis \<Rightarrow> flt pane_resize_boundary option" where
  "resize_boundary l p ax = resize_boundary_inner l p ax (a_lit f32 1)"

text \<open>
  \<open>ratio + delta\<close> is an \<open>i32\<close> addition, which wraps in the release build; the
  clamp then keeps the ratio strictly between zero and the scale.
\<close>

definition adjust_first_ratio :: "u16 \<Rightarrow> flt \<Rightarrow> bool \<times> u16" where
  "adjust_first_ratio first_ratio delta =
     (let d = round_to_i32 (a_mul f32 delta (from_u16 f32 PANE_SPLIT_RATIO_SCALE))
      in if d = 0 then (False, first_ratio)
         else let ratio = uint first_ratio;
                  clamped = max 1 (min (uint (PANE_SPLIT_RATIO_SCALE - 1)) (wrap_i32 (ratio + d)))
              in if clamped = ratio then (False, first_ratio) else (True, word_of_int clamped))"

fun adjust_resize_boundary_inner ::
  "pane_layout \<Rightarrow> u64 \<Rightarrow> split_axis \<Rightarrow> flt \<Rightarrow> bool option \<times> pane_layout" where
  "adjust_resize_boundary_inner (Pane i) p ax delta = (None, Pane i)"
| "adjust_resize_boundary_inner (Split sax r f s) p ax delta =
     (if contains_pane f p then
        (case adjust_resize_boundary_inner f p ax delta of
           (Some result, f') \<Rightarrow> (Some result, Split sax r f' s)
         | (None, f') \<Rightarrow>
             if sax = ax then
               (case adjust_first_ratio r delta of (b, r') \<Rightarrow> (Some b, Split sax r' f' s))
             else (None, Split sax r f' s))
      else if contains_pane s p then
        (case adjust_resize_boundary_inner s p ax delta of
           (Some result, s') \<Rightarrow> (Some result, Split sax r f s')
         | (None, s') \<Rightarrow>
             if sax = ax then
               (case adjust_first_ratio r (flt_neg delta) of (b, r') \<Rightarrow> (Some b, Split sax r' f s'))
             else (None, Split sax r f s'))
      else (None, Split sax r f s))"

definition adjust_resize_boundary :: "pane_layout \<Rightarrow> u64 \<Rightarrow> split_axis \<Rightarrow> flt \<Rightarrow> bool \<times> pane_layout" where
  "adjust_resize_boundary l p ax delta =
     (case adjust_resize_boundary_inner l p ax delta of
        (Some b, l') \<Rightarrow> (b, l') | (None, l') \<Rightarrow> (False, l'))"

fun split_panes :: "pane_layout \<Rightarrow> u64 \<Rightarrow> u64 \<Rightarrow> split_axis \<Rightarrow> (u64 list \<times> u64 list) option" where
  "split_panes (Pane _) a b ax = None"
| "split_panes (Split sax r f s) a b ax =
     (if sax = ax \<and> first_pane f = a \<and> first_pane s = b then Some (pane_ids f, pane_ids s)
      else or_else (split_panes f a b ax) (split_panes s a b ax))"

fun split_ratio :: "pane_layout \<Rightarrow> u64 \<Rightarrow> u64 \<Rightarrow> split_axis \<Rightarrow> flt option" where
  "split_ratio (Pane _) a b ax = None"
| "split_ratio (Split sax r f s) a b ax =
     (if sax = ax \<and> first_pane f = a \<and> first_pane s = b then Some (ratio_fraction f32 r)
      else or_else (split_ratio f a b ax) (split_ratio s a b ax))"

fun adjust_split_ratio ::
  "pane_layout \<Rightarrow> u64 \<Rightarrow> u64 \<Rightarrow> split_axis \<Rightarrow> flt \<Rightarrow> bool \<times> pane_layout" where
  "adjust_split_ratio (Pane i) a b ax delta = (False, Pane i)"
| "adjust_split_ratio (Split sax r f s) a b ax delta =
     (if sax = ax \<and> first_pane f = a \<and> first_pane s = b then
        (case adjust_first_ratio r delta of (res, r') \<Rightarrow> (res, Split sax r' f s))
      else
        (case adjust_split_ratio f a b ax delta of
           (True, f') \<Rightarrow> (True, Split sax r f' s)
         | (False, f') \<Rightarrow>
             (case adjust_split_ratio s a b ax delta of (res, s') \<Rightarrow> (res, Split sax r f' s'))))"

subsection \<open>Moving and swapping\<close>

fun move_pane_inner :: "pane_layout \<Rightarrow> u64 \<Rightarrow> split_axis \<Rightarrow> bool \<Rightarrow> bool option \<times> pane_layout" where
  "move_pane_inner (Pane i) p ax toward_first = (None, Pane i)"
| "move_pane_inner (Split sax r f s) p ax toward_first =
     (if contains_pane f p then
        (case move_pane_inner f p ax toward_first of
           (Some handled, f') \<Rightarrow> (Some handled, Split sax r f' s)
         | (None, f') \<Rightarrow>
             if sax = ax \<and> \<not> toward_first
             then (Some True, Split sax (PANE_SPLIT_RATIO_SCALE - r) s f')
             else (None, Split sax r f' s))
      else if contains_pane s p then
        (case move_pane_inner s p ax toward_first of
           (Some handled, s') \<Rightarrow> (Some handled, Split sax r f s')
         | (None, s') \<Rightarrow>
             if sax = ax \<and> toward_first
             then (Some True, Split sax (PANE_SPLIT_RATIO_SCALE - r) s' f)
             else (None, Split sax r f s'))
      else (None, Split sax r f s))"

definition move_pane :: "pane_layout \<Rightarrow> u64 \<Rightarrow> pane_direction \<Rightarrow> bool \<times> pane_layout" where
  "move_pane l active d =
     (let (ax, toward_first) =
        (case d of LeftDir \<Rightarrow> (Vertical, True) | RightDir \<Rightarrow> (Vertical, False)
         | UpDir \<Rightarrow> (Horizontal, True) | DownDir \<Rightarrow> (Horizontal, False))
      in case move_pane_inner l active ax toward_first of
           (Some b, l') \<Rightarrow> (b, l') | (None, l') \<Rightarrow> (False, l'))"

fun swap_panes_inner :: "pane_layout \<Rightarrow> u64 \<Rightarrow> u64 \<Rightarrow> pane_layout" where
  "swap_panes_inner (Pane i) a b = (if i = a then Pane b else if i = b then Pane a else Pane i)"
| "swap_panes_inner (Split ax r f s) a b = Split ax r (swap_panes_inner f a b) (swap_panes_inner s a b)"

definition swap_panes :: "pane_layout \<Rightarrow> u64 \<Rightarrow> u64 \<Rightarrow> bool \<times> pane_layout" where
  "swap_panes l a b =
     (if a = b \<or> \<not> contains_pane l a \<or> \<not> contains_pane l b then (False, l)
      else (True, swap_panes_inner l a b))"

subsection \<open>Directional focus\<close>

definition center_x :: "'f arith \<Rightarrow> 'f pane_region \<Rightarrow> 'f" where
  "center_x A g = a_div A (a_add A (left g) (right g)) (a_lit A 2)"

definition center_y :: "'f arith \<Rightarrow> 'f pane_region \<Rightarrow> 'f" where
  "center_y A g = a_div A (a_add A (top g) (bottom g)) (a_lit A 2)"

definition direction_score ::
  "'f arith \<Rightarrow> pane_direction \<Rightarrow> 'f pane_region \<Rightarrow> 'f pane_region \<Rightarrow> 'f option" where
  "direction_score A d source candidate =
     (let sx = center_x A source; sy = center_y A source;
          cx = center_x A candidate; cy = center_y A candidate;
          total = (\<lambda>primary perpendicular. a_add A primary (a_mul A perpendicular (a_lit A 2)))
      in case d of
           LeftDir \<Rightarrow> if a_lt A cx sx then Some (total (a_sub A sx cx) (a_abs A (a_sub A sy cy))) else None
         | RightDir \<Rightarrow> if a_lt A sx cx then Some (total (a_sub A cx sx) (a_abs A (a_sub A sy cy))) else None
         | UpDir \<Rightarrow> if a_lt A cy sy then Some (total (a_sub A sy cy) (a_abs A (a_sub A sx cx))) else None
         | DownDir \<Rightarrow> if a_lt A sy cy then Some (total (a_sub A cy sy) (a_abs A (a_sub A sx cx))) else None)"

text \<open>\<open>Iterator::min_by\<close> keeps the first of equal minima.\<close>

fun min_by :: "('f \<Rightarrow> 'f \<Rightarrow> bool) \<Rightarrow> 'f list \<Rightarrow> 'f option" where
  "min_by lt [] = None"
| "min_by lt (x # xs) =
     Some (fold (\<lambda>y best. if lt y best then y else best) xs x)"

definition adjacent_candidates ::
  "'f arith \<Rightarrow> 'f pane_region list \<Rightarrow> 'f pane_region \<Rightarrow> u64 \<Rightarrow> pane_direction \<Rightarrow> ('f \<times> u64) list" where
  "adjacent_candidates A gs source active d =
     List.map_filter (\<lambda>c. map_option (\<lambda>score. (score, region_id c)) (direction_score A d source c))
       (filter (\<lambda>c. region_id c \<noteq> active) gs)"

fun pick_most_recent ::
  "'f arith \<Rightarrow> 'f \<Rightarrow> u64 list \<Rightarrow> ('f \<times> u64) list \<Rightarrow> (int \<times> u64) option \<Rightarrow> (int \<times> u64) option" where
  "pick_most_recent A best_score recent [] best = best"
| "pick_most_recent A best_score recent ((score, i) # cs) best =
     (if a_lt A (a_lit A ADJACENT_PANE_TIE_EPSILON) (a_abs A (a_sub A score best_score))
      then pick_most_recent A best_score recent cs best
      else let recency = (case rposition (\<lambda>r. r = i) recent of None \<Rightarrow> - 1 | Some k \<Rightarrow> int k)
           in pick_most_recent A best_score recent cs
                (case best of
                   None \<Rightarrow> Some (recency, i)
                 | Some (best_recency, _) \<Rightarrow> if best_recency < recency then Some (recency, i) else best))"

definition adjacent_pane_in ::
  "'f arith \<Rightarrow> pane_layout \<Rightarrow> u64 \<Rightarrow> pane_direction \<Rightarrow> u64 list \<Rightarrow> u64 option" where
  "adjacent_pane_in A l active d recent =
     (case find (\<lambda>g. region_id g = active) (regions A l) of
        None \<Rightarrow> None
      | Some source \<Rightarrow>
          (let candidates = adjacent_candidates A (regions A l) source active d
           in case min_by (a_total_lt A) (map fst candidates) of
                None \<Rightarrow> None
              | Some best_score \<Rightarrow>
                  map_option snd (pick_most_recent A best_score recent candidates None)))"

definition adjacent_pane :: "pane_layout \<Rightarrow> u64 \<Rightarrow> pane_direction \<Rightarrow> u64 list \<Rightarrow> u64 option" where
  "adjacent_pane = adjacent_pane_in f32"

section \<open>Facts about the queries\<close>

lemma collect_pane_ids_append: "collect_pane_ids l ids = ids @ collect_pane_ids l []"
proof (induction l arbitrary: ids)
  case (Split ax r f s)
  show ?case
    using Split.IH(2) [of "collect_pane_ids f ids"] Split.IH(2) [of "collect_pane_ids f []"]
      Split.IH(1) [of ids] by simp
qed simp

lemma pane_ids_simps [simp]:
  "pane_ids (Pane i) = [i]"
  "pane_ids (Split ax r f s) = pane_ids f @ pane_ids s"
  by (simp_all add: pane_ids_def collect_pane_ids_append [of s "collect_pane_ids f []"])

lemma contains_pane_iff [simp]: "contains_pane l p \<longleftrightarrow> p \<in> set (pane_ids l)"
  by (induction l) auto

lemma pane_ids_not_Nil [simp]: "pane_ids l \<noteq> []"
  by (induction l) auto

lemma first_pane_hd: "first_pane l = hd (pane_ids l)"
  by (induction l) auto

lemma first_pane_in [simp]: "first_pane l \<in> set (pane_ids l)"
  by (simp add: first_pane_hd)

text \<open>
  Well-formed layouts: every ratio lies strictly between zero and the scale,
  and no pane is placed twice.
\<close>

fun ratios_ok :: "pane_layout \<Rightarrow> bool" where
  "ratios_ok (Pane _) = True"
| "ratios_ok (Split _ r f s) = (0 < unat r \<and> unat r < 1000 \<and> ratios_ok f \<and> ratios_ok s)"

definition wf_layout :: "pane_layout \<Rightarrow> bool" where
  "wf_layout l \<longleftrightarrow> ratios_ok l \<and> distinct (pane_ids l)"

lemma unat_scale_minus:
  "unat r \<le> 1000 \<Longrightarrow> unat (PANE_SPLIT_RATIO_SCALE - r) = 1000 - unat r"
  by (simp add: PANE_SPLIT_RATIO_SCALE_def unat_sub word_le_nat_alt)

lemma ratio_flip_ok:
  "0 < unat r \<Longrightarrow> unat r < 1000 \<Longrightarrow>
   0 < unat (PANE_SPLIT_RATIO_SCALE - r) \<and> unat (PANE_SPLIT_RATIO_SCALE - r) < 1000"
  by (simp add: unat_scale_minus)

lemma scale_minus_twice [simp]: "PANE_SPLIT_RATIO_SCALE - (PANE_SPLIT_RATIO_SCALE - r) = r"
  by simp

lemma default_ratio_ok [simp]: "unat DEFAULT_PANE_SPLIT_RATIO = 500"
  by (simp add: DEFAULT_PANE_SPLIT_RATIO_def PANE_SPLIT_RATIO_SCALE_def unat_div)

section \<open>Operations that only rearrange a layout\<close>

text \<open>
  Rotating, moving, swapping and resizing share one contract: they keep the
  panes of the layout, each as often as before, and valid ratios stay valid.
\<close>

locale layout_rearrangement =
  fixes rearrange :: "pane_layout \<Rightarrow> bool \<times> pane_layout"
  assumes panes_kept: "distinct (pane_ids l) \<Longrightarrow> mset (pane_ids (snd (rearrange l))) = mset (pane_ids l)"
    and ratios_kept: "ratios_ok l \<Longrightarrow> ratios_ok (snd (rearrange l))"
begin

lemma pane_set_kept: "distinct (pane_ids l) \<Longrightarrow> set (pane_ids (snd (rearrange l))) = set (pane_ids l)"
  by (metis panes_kept mset_eq_setD)

lemma pane_count_kept:
  "distinct (pane_ids l) \<Longrightarrow> length (pane_ids (snd (rearrange l))) = length (pane_ids l)"
  by (metis panes_kept size_mset)

lemma distinct_kept: "distinct (pane_ids l) \<Longrightarrow> distinct (pane_ids (snd (rearrange l)))"
  using mset_eq_imp_distinct_iff panes_kept by blast

lemma wf_kept: "wf_layout l \<Longrightarrow> wf_layout (snd (rearrange l))"
  by (simp add: wf_layout_def distinct_kept ratios_kept)

end

subsection \<open>Rotation\<close>

lemma rotate_geometry_panes [mset_keep]: "mset (pane_ids (rotate_geometry l d)) = mset (pane_ids l)"
  by (induction l) (auto simp: Let_def)

lemma rotate_geometry_ratios: "ratios_ok l \<Longrightarrow> ratios_ok (rotate_geometry l d)"
  by (induction l) (auto simp: Let_def ratio_flip_ok)

lemma rotate_at_path_panes [mset_keep]: "mset (pane_ids (rotate_at_path l path d)) = mset (pane_ids l)"
  by (induction l path d rule: rotate_at_path.induct) (auto simp: mset_keep)

lemma rotate_at_path_ratios: "ratios_ok l \<Longrightarrow> ratios_ok (rotate_at_path l path d)"
  by (induction l path d rule: rotate_at_path.induct) (auto simp: rotate_geometry_ratios)

interpretation rotation: layout_rearrangement "\<lambda>l. rotate_pane l p d" for p d
  by unfold_locales (auto simp: rotate_pane_def mset_keep rotate_at_path_ratios split: option.splits)

lemma rotate_geometry_inverse:
  "rotate_geometry (rotate_geometry l Clockwise) CounterClockwise = l"
  "rotate_geometry (rotate_geometry l CounterClockwise) Clockwise = l"
  by (induction l) (auto simp: Let_def split: split_axis.splits)

subsection \<open>Moving and swapping\<close>

lemma move_pane_inner_panes [mset_keep]:
  "mset (pane_ids (snd (move_pane_inner l p ax tf))) = mset (pane_ids l)"
  by (induction l) (auto split: prod.splits option.splits)

lemma move_pane_inner_ratios: "ratios_ok l \<Longrightarrow> ratios_ok (snd (move_pane_inner l p ax tf))"
  by (induction l) (auto simp: ratio_flip_ok split: prod.splits option.splits)

lemma move_pane_inner_None: "fst (move_pane_inner l p ax tf) = None \<Longrightarrow> snd (move_pane_inner l p ax tf) = l"
  by (induction l) (auto split: prod.splits option.splits if_splits)

lemma move_pane_snd:
  "\<exists>ax tf. snd (move_pane l p d) = snd (move_pane_inner l p ax tf)"
  by (cases d; auto simp: move_pane_def split: prod.splits option.splits; metis snd_conv)

interpretation moving: layout_rearrangement "\<lambda>l. move_pane l p d" for p d
proof unfold_locales
  fix l
  obtain ax tf where eq: "snd (move_pane l p d) = snd (move_pane_inner l p ax tf)"
    using move_pane_snd by blast
  show "mset (pane_ids (snd (move_pane l p d))) = mset (pane_ids l)"
    by (simp add: eq mset_keep)
  show "ratios_ok l \<Longrightarrow> ratios_ok (snd (move_pane l p d))"
    by (simp add: eq move_pane_inner_ratios)
qed

lemma swap_panes_inner_ids: "pane_ids (swap_panes_inner l a b) = map (exchange a b) (pane_ids l)"
  by (induction l) (auto simp: exchange_def)

lemma swap_panes_inner_ratios: "ratios_ok (swap_panes_inner l a b) = ratios_ok l"
  by (induction l) auto

lemma swap_panes_inner_twice: "swap_panes_inner (swap_panes_inner l a b) a b = l"
  by (induction l) auto

interpretation swapping: layout_rearrangement "\<lambda>l. swap_panes l a b" for a b
  by unfold_locales
    (auto simp: swap_panes_def swap_panes_inner_ids mset_map_exchange swap_panes_inner_ratios)

subsection \<open>Resizing\<close>

lemma adjust_first_ratio_range:
  assumes "0 < unat r \<and> unat r < 1000"
  shows "0 < unat (snd (adjust_first_ratio r delta)) \<and> unat (snd (adjust_first_ratio r delta)) < 1000"
proof -
  have b: "uint (PANE_SPLIT_RATIO_SCALE - 1) = 999"
    by (simp add: PANE_SPLIT_RATIO_SCALE_def)
  have c: "0 < unat (word_of_int k :: u16) \<and> unat (word_of_int k :: u16) < 1000"
    if "1 \<le> k" "k \<le> 999" for k :: int
    using that by (auto simp: unat_eq_nat_uint uint_word_of_int)
  show ?thesis
    using assms c by (auto simp: adjust_first_ratio_def Let_def b)
qed

lemma adjust_first_ratio_changed:
  "fst (adjust_first_ratio r delta) \<longleftrightarrow> snd (adjust_first_ratio r delta) \<noteq> r"
proof -
  have b: "uint (PANE_SPLIT_RATIO_SCALE - 1) = 999"
    by (simp add: PANE_SPLIT_RATIO_SCALE_def)
  have c: "(word_of_int k :: u16) \<noteq> r" if "1 \<le> k" "k \<le> 999" "k \<noteq> uint r" for k :: int
  proof
    assume "word_of_int k = r"
    then have "uint (word_of_int k :: u16) = uint r" by simp
    with that show False by (simp add: uint_word_of_int)
  qed
  show ?thesis
    by (simp add: adjust_first_ratio_def Let_def b c)
qed

lemma adjust_inner_panes [mset_keep]:
  "pane_ids (snd (adjust_resize_boundary_inner l p ax delta)) = pane_ids l"
  by (induction l) (auto split: prod.splits option.splits if_splits)

lemma adjust_inner_ratios:
  "ratios_ok l \<Longrightarrow> ratios_ok (snd (adjust_resize_boundary_inner l p ax delta))"
proof (induction l)
  case (Split sax r f s)
  have "0 < unat (snd (adjust_first_ratio r e)) \<and> unat (snd (adjust_first_ratio r e)) < 1000" for e
    using Split.prems by (intro adjust_first_ratio_range) simp
  with Split show ?case
    by (auto split: prod.splits option.splits if_splits; metis snd_conv)
qed simp

lemma adjust_resize_boundary_snd [simp]:
  "snd (adjust_resize_boundary l p ax delta) = snd (adjust_resize_boundary_inner l p ax delta)"
  by (simp add: adjust_resize_boundary_def split: prod.splits option.splits)

interpretation resizing: layout_rearrangement "\<lambda>l. adjust_resize_boundary l p ax delta" for p ax delta
  by unfold_locales (auto simp: mset_keep adjust_inner_ratios)

lemma adjust_split_ratio_panes [mset_keep]:
  "pane_ids (snd (adjust_split_ratio l a b ax delta)) = pane_ids l"
  by (induction l) (auto split: prod.splits bool.splits if_splits)

lemma adjust_split_ratio_ratios: "ratios_ok l \<Longrightarrow> ratios_ok (snd (adjust_split_ratio l a b ax delta))"
proof (induction l)
  case (Split sax r f s)
  have "0 < unat (snd (adjust_first_ratio r delta)) \<and> unat (snd (adjust_first_ratio r delta)) < 1000"
    using Split.prems by (intro adjust_first_ratio_range) simp
  with Split show ?case
    by (auto split: prod.splits bool.splits if_splits)
qed simp

interpretation gutter: layout_rearrangement "\<lambda>l. adjust_split_ratio l a b ax delta" for a b ax delta
  by unfold_locales (auto simp: mset_keep adjust_split_ratio_ratios)

text \<open>A resize reports a change exactly when it made one.\<close>

lemma adjust_inner_None: "fst (adjust_resize_boundary_inner l p ax delta) = None \<Longrightarrow>
   snd (adjust_resize_boundary_inner l p ax delta) = l"
  by (induction l) (auto split: prod.splits option.splits if_splits)

lemma adjust_inner_changed:
  "fst (adjust_resize_boundary_inner l p ax delta) = Some b \<Longrightarrow>
   b \<longleftrightarrow> snd (adjust_resize_boundary_inner l p ax delta) \<noteq> l"
proof (induction l)
  case (Split sax r f s)
  have c: "fst (adjust_first_ratio r e) \<longleftrightarrow> snd (adjust_first_ratio r e) \<noteq> r" for e
    by (rule adjust_first_ratio_changed)
  have nf: "f' = f" if "adjust_resize_boundary_inner f p ax delta = (None, f')" for f'
    using adjust_inner_None [of f p ax delta] that by simp
  have ns: "s' = s" if "adjust_resize_boundary_inner s p ax delta = (None, s')" for s'
    using adjust_inner_None [of s p ax delta] that by simp
  show ?case
    using Split c [of delta] c [of "flt_neg delta"]
    by (auto split: prod.splits option.splits if_splits dest!: nf ns)
qed simp

lemma adjust_inner_boundary:
  "fst (adjust_resize_boundary_inner l p ax delta) = None \<longleftrightarrow> resize_boundary_inner l p ax share = None"
proof (induction l arbitrary: share)
  case (Split sax r f s)
  show ?case
    using Split.IH(1) [of "a_mul f32 share (ratio_fraction f32 r)"]
      Split.IH(2) [of "a_mul f32 share (a_sub f32 (a_lit f32 1) (ratio_fraction f32 r))"]
    by (auto simp: Let_def or_else_eq_None_iff split: prod.splits option.splits if_splits)
qed simp

subsection \<open>Tiling and templates\<close>

lemma tiled_build_total: "ids \<noteq> [] \<Longrightarrow> \<exists>l. tiled_build ids ax = Some l \<and> pane_ids l = ids \<and> ratios_ok l"
proof (induction ids ax rule: tiled_build.induct)
  case (3 i j ids ax)
  define m where "m = (if length (i # j # ids) = 3 then 1 else (length (i # j # ids) + 1) div 2)"
  let ?ax = "case ax of Horizontal \<Rightarrow> Vertical | Vertical \<Rightarrow> Horizontal"
  have m: "0 < m" "m < length (i # j # ids)" by (auto simp: m_def)
  obtain f where f: "tiled_build (take m (i # j # ids)) ?ax = Some f"
      "pane_ids f = take m (i # j # ids)" "ratios_ok f"
    using "3.IH"(1) [OF m_def refl] m by auto
  obtain s where s: "tiled_build (drop m (i # j # ids)) ?ax = Some s"
      "pane_ids s = drop m (i # j # ids)" "ratios_ok s"
    using "3.IH"(2) [OF m_def refl f(1)] m by auto
  have "tiled_build (i # j # ids) ax = Some (Split ax DEFAULT_PANE_SPLIT_RATIO f s)"
    using f(1) s(1) by (simp only: tiled_build.simps Let_def m_def option.case)
  then show ?case using f s by (auto simp del: take_Cons' drop_Cons')
qed auto

lemma from_template_ids:
  "from_template t ids = Some (l, rest) \<Longrightarrow> ids = pane_ids l @ rest \<and> ratios_ok l"
  by (induction t arbitrary: ids l rest) (fastforce split: list.splits option.splits prod.splits)+

fun template_panes :: "'c pane_split_template \<Rightarrow> nat" where
  "template_panes (TPane _) = 1"
| "template_panes (TSplit _ f s) = template_panes f + template_panes s"

lemma from_template_total:
  "template_panes t \<le> length ids \<Longrightarrow>
   \<exists>l. from_template t ids = Some (l, drop (template_panes t) ids) \<and>
       pane_ids l = take (template_panes t) ids"
proof (induction t arbitrary: ids)
  case (TPane c)
  then show ?case by (cases ids) auto
next
  case (TSplit ax f s)
  obtain l1 where l1: "from_template f ids = Some (l1, drop (template_panes f) ids)"
      "pane_ids l1 = take (template_panes f) ids"
    using TSplit.IH(1) [of ids] TSplit.prems by auto
  obtain l2 where "from_template s (drop (template_panes f) ids) =
        Some (l2, drop (template_panes s) (drop (template_panes f) ids))"
      "pane_ids l2 = take (template_panes s) (drop (template_panes f) ids)"
    using TSplit.IH(2) [of "drop (template_panes f) ids"] TSplit.prems
    by (auto simp del: drop_drop simp: le_diff_conv2)
  with l1 show ?case by (simp add: take_add add.commute)
qed

lemma from_template_len:
  "from_template t ids = Some (l, rest) \<Longrightarrow> length (pane_ids l) = template_panes t"
  by (induction t arbitrary: ids l rest) (fastforce split: list.splits option.splits prod.splits)+

subsection \<open>Splitting, replacing and removing\<close>

lemma split_layout_False: "fst (split_layout l t ax n pos) = False \<Longrightarrow> snd (split_layout l t ax n pos) = l"
  by (induction l) (auto split: prod.splits bool.splits if_splits)

lemma split_layout_fst: "fst (split_layout l t ax n pos) \<longleftrightarrow> t \<in> set (pane_ids l)"
  by (induction l) (auto simp: Let_def split: prod.splits bool.splits)

lemma split_layout_ratios: "ratios_ok l \<Longrightarrow> ratios_ok (snd (split_layout l t ax n pos))"
  by (induction l) (auto simp: Let_def split: prod.splits bool.splits split_position.splits)

lemma split_layout_panes:
  "t \<in> set (pane_ids l) \<Longrightarrow> mset (pane_ids (snd (split_layout l t ax n pos))) = add_mset n (mset (pane_ids l))"
proof (induction l)
  case (Split sax r f s)
  then show ?case
    using split_layout_fst [of f t ax n pos] split_layout_False [of f t ax n pos]
    by (auto split: prod.splits bool.splits)
qed (auto simp: Let_def split: split_position.splits)

lemma without_absent: "t \<notin> set (pane_ids l) \<Longrightarrow> without l t = Some l"
  by (induction l) auto

lemma without_all_None_iff: "without_all l T = None \<longleftrightarrow> set (pane_ids l) \<subseteq> T"
  by (induction l) (auto split: option.splits)

lemma without_all_panes: "without_all l T = Some l' \<Longrightarrow> pane_ids l' = filter (\<lambda>i. i \<notin> T) (pane_ids l)"
proof (induction l arbitrary: l')
  case (Split ax r f s)
  have e: "filter (\<lambda>i. i \<notin> T) (pane_ids k) = []" if "without_all k T = None" for k
    using that by (auto simp: without_all_None_iff filter_empty_conv)
  show ?case using Split by (auto simp: e split: option.splits)
qed (auto split: if_splits)

lemma without_as_without_all: "without l t = without_all l {t}"
  by (induction l) auto

lemma without_None_iff: "without l t = None \<longleftrightarrow> set (pane_ids l) = {t}"
  using first_pane_in [of l]
  by (auto simp: without_as_without_all without_all_None_iff subset_singleton_iff simp del: first_pane_in)

lemma without_all_ratios: "ratios_ok l \<Longrightarrow> pred_option ratios_ok (without_all l T)"
proof (induction l)
  case (Split ax r f s)
  then show ?case by (cases "without_all f T"; cases "without_all s T"; simp)
qed simp

lemma without_all_insert:
  "without_all l (insert t T) = Option.bind (without_all l T) (\<lambda>l'. without l' t)"
proof (induction l)
  case (Split ax r f s)
  then show ?case
    by (cases "without_all f T"; cases "without_all s T"; simp; cases "without_all f (insert t T)";
        cases "without_all s (insert t T)"; auto split: option.splits)
qed auto

lemma split_then_without:
  "t \<in> set (pane_ids l) \<Longrightarrow> n \<notin> set (pane_ids l) \<Longrightarrow>
   without (snd (split_layout l t ax n pos)) n = Some l"
proof (induction l)
  case (Split sax r f s)
  then show ?case
    using split_layout_fst [of f t ax n pos] split_layout_False [of f t ax n pos]
    by (auto simp: without_absent split: prod.splits bool.splits)
qed (auto simp: Let_def split: split_position.splits)

lemma replace_inner_total:
  "\<exists>l'. replace_inner l t (Some r) =
      Some (t \<in> set (pane_ids l), l', if t \<in> set (pane_ids l) then None else Some r) \<and>
    (t \<notin> set (pane_ids l) \<longrightarrow> l' = l) \<and>
    (t \<in> set (pane_ids l) \<longrightarrow>
       add_mset t (mset (pane_ids l')) = mset (pane_ids l) + mset (pane_ids r))"
proof (induction l)
  case (Split ax q f s)
  obtain f' where f': "replace_inner f t (Some r) =
        Some (t \<in> set (pane_ids f), f', if t \<in> set (pane_ids f) then None else Some r)"
      "t \<notin> set (pane_ids f) \<Longrightarrow> f' = f"
      "t \<in> set (pane_ids f) \<Longrightarrow> add_mset t (mset (pane_ids f')) = mset (pane_ids f) + mset (pane_ids r)"
    using Split.IH(1) by blast
  obtain s' where s': "replace_inner s t (Some r) =
        Some (t \<in> set (pane_ids s), s', if t \<in> set (pane_ids s) then None else Some r)"
      "t \<notin> set (pane_ids s) \<Longrightarrow> s' = s"
      "t \<in> set (pane_ids s) \<Longrightarrow> add_mset t (mset (pane_ids s')) = mset (pane_ids s) + mset (pane_ids r)"
    using Split.IH(2) by blast
  show ?case
  proof (cases "t \<in> set (pane_ids f)")
    case True
    with f' show ?thesis by (simp flip: union_mset_add_mset_left)
  next
    case False
    with f' s' show ?thesis
      by (cases "t \<in> set (pane_ids s)") (simp_all flip: union_mset_add_mset_right)
  qed
qed simp

lemma remap_pane_ids_map: "remap_pane_ids l m = Some l' \<Longrightarrow> map Some (pane_ids l') = map m (pane_ids l)"
  by (induction l arbitrary: l') (auto split: option.splits)

lemma remap_pane_ids_total: "set (pane_ids l) \<subseteq> dom m \<Longrightarrow> \<exists>l'. remap_pane_ids l m = Some l'"
  by (induction l) auto

lemma remap_pane_ids_ratios: "remap_pane_ids l m = Some l' \<Longrightarrow> ratios_ok l' = ratios_ok l"
  by (induction l arbitrary: l') (auto split: option.splits)

section \<open>Properties of the layout\<close>

text \<open>
  Every operation that rearranges a layout, rotating, moving, swapping,
  resizing at a pane and dragging a gutter, keeps the layout well formed and
  keeps exactly its panes, whatever the panes, directions and deltas.
\<close>

theorem rearranging_keeps_layout:
  assumes "wf_layout l" "op \<in> {\<lambda>l. rotate_pane l p rd, \<lambda>l. move_pane l p d, \<lambda>l. swap_panes l p q,
    \<lambda>l. adjust_resize_boundary l p ax delta, \<lambda>l. adjust_split_ratio l p q ax delta}"
  shows "wf_layout (snd (op l)) \<and> set (pane_ids (snd (op l))) = set (pane_ids l)
    \<and> length (pane_ids (snd (op l))) = length (pane_ids l)"
proof -
  have "distinct (pane_ids l)" using assms(1) by (simp add: wf_layout_def)
  with assms show ?thesis
    by (auto simp: rotation.wf_kept moving.wf_kept swapping.wf_kept resizing.wf_kept gutter.wf_kept
        rotation.pane_set_kept moving.pane_set_kept swapping.pane_set_kept resizing.pane_set_kept
        gutter.pane_set_kept rotation.pane_count_kept moving.pane_count_kept
        swapping.pane_count_kept resizing.pane_count_kept gutter.pane_count_kept
        simp del: adjust_resize_boundary_snd)
qed

theorem rearranging_keeps_layout_witness:
  "wf_layout (snd (move_pane (Split Vertical 400 (Pane 1) (Pane 2)) 1 RightDir))"
  using rearranging_keeps_layout [of "Split Vertical 400 (Pane 1) (Pane 2)"
      "\<lambda>l. move_pane l 1 RightDir" 1 Clockwise RightDir 1 Vertical "Fin 0"]
  by (simp add: wf_layout_def)

text \<open>
  Splitting a pane that is there adds exactly the new pane and keeps the
  layout well formed, splitting one that is not there changes nothing, and
  removing the new pane again restores the layout as it was.
\<close>

theorem split_adds_one_pane:
  assumes "wf_layout l" "n \<notin> set (pane_ids l)"
  shows "case split_layout l t ax n pos of (done, l') \<Rightarrow>
    wf_layout l' \<and> (done \<longleftrightarrow> t \<in> set (pane_ids l)) \<and>
    mset (pane_ids l') = (if done then {#n#} else {#}) + mset (pane_ids l) \<and>
    (done \<longrightarrow> without l' n = Some l) \<and> (\<not> done \<longrightarrow> l' = l)"
proof (cases "t \<in> set (pane_ids l)")
  case True
  let ?l = "snd (split_layout l t ax n pos)"
  have m: "mset (pane_ids ?l) = mset (n # pane_ids l)" using True by (simp add: split_layout_panes)
  then have "distinct (pane_ids ?l)"
    using assms mset_eq_imp_distinct_iff [OF m] by (simp add: wf_layout_def)
  then have "wf_layout ?l" using assms by (simp add: wf_layout_def split_layout_ratios)
  with m True assms show ?thesis
    using split_layout_fst [of l t ax n pos] by (auto simp: split_then_without case_prod_unfold)
next
  case False
  then have "split_layout l t ax n pos = (False, l)"
    by (metis split_layout_fst split_layout_False prod.collapse)
  with False assms show ?thesis by simp
qed

theorem split_adds_one_pane_witness:
  "without (snd (split_layout (Split Vertical 400 (Pane 1) (Pane 2)) 2 Horizontal 3 Before)) 3
    = Some (Split Vertical 400 (Pane 1) (Pane 2))"
  using split_adds_one_pane [of "Split Vertical 400 (Pane 1) (Pane 2)" 3 2 Horizontal Before]
  by (simp add: wf_layout_def)

text \<open>
  Hiding a set of panes keeps the others in their order, gives no layout
  exactly when every pane is hidden, keeps ratios valid, and hiding one more is
  removing that pane from what is left.
\<close>

theorem without_all_filters:
  "(without_all l T = None \<longleftrightarrow> set (pane_ids l) \<subseteq> T) \<and>
   map_option pane_ids (without_all l T) =
     (if set (pane_ids l) \<subseteq> T then None else Some (filter (\<lambda>i. i \<notin> T) (pane_ids l))) \<and>
   without_all l (insert t T) = Option.bind (without_all l T) (\<lambda>l'. without l' t)"
proof -
  have n: "without_all l T = None \<longleftrightarrow> set (pane_ids l) \<subseteq> T" by (rule without_all_None_iff)
  then show ?thesis
    by (cases "without_all l T") (simp_all add: without_all_insert without_all_panes)
qed

text \<open>
  Tiling a non-empty list of panes always gives a layout of exactly those
  panes in that order, with valid ratios; only the empty list has none.
\<close>

theorem tiled_lays_out_every_pane:
  "case tiled ids of None \<Rightarrow> ids = [] | Some l \<Rightarrow> pane_ids l = ids \<and> ratios_ok l"
proof (cases "ids = []")
  case False
  from tiled_build_total [OF False, of Vertical] show ?thesis by (auto simp: tiled_def)
qed (simp add: tiled_def)

text \<open>
  A resize reports that it changed the layout exactly when it did, and it
  finds a boundary to move exactly when the boundary query finds one.
\<close>

theorem resize_reports_change:
  "(fst (adjust_resize_boundary l p ax delta) \<longleftrightarrow> snd (adjust_resize_boundary l p ax delta) \<noteq> l) \<and>
   (resize_boundary l p ax = None \<longrightarrow> \<not> fst (adjust_resize_boundary l p ax delta))"
proof (cases "adjust_resize_boundary_inner l p ax delta")
  case (Pair found l')
  show ?thesis
  proof (cases found)
    case None
    then show ?thesis using Pair adjust_inner_None [of l p ax delta]
      by (simp add: adjust_resize_boundary_def)
  next
    case (Some b)
    then show ?thesis
      using Pair adjust_inner_changed [of l p ax delta b]
        adjust_inner_boundary [of l p ax delta "a_lit f32 1"]
      by (auto simp: adjust_resize_boundary_def resize_boundary_def)
  qed
qed

theorem resize_reports_change_witness: "\<not> fst (adjust_resize_boundary (Pane 1) 1 Vertical (Fin 1))"
  using resize_reports_change [of "Pane 1" 1 Vertical "Fin 1"] by (simp add: resize_boundary_def)

text \<open>
  Instantiating a saved split template takes one identifier per pane of the
  template, in order, leaves the rest, and fails only when there are too few.
\<close>

theorem from_template_takes_ids:
  "case from_template t ids of
     None \<Rightarrow> length ids < template_panes t
   | Some (l, rest) \<Rightarrow> ids = pane_ids l @ rest \<and> length (pane_ids l) = template_panes t \<and> ratios_ok l"
proof (cases "template_panes t \<le> length ids")
  case True
  then obtain l where l: "from_template t ids = Some (l, drop (template_panes t) ids)"
      "pane_ids l = take (template_panes t) ids"
    using from_template_total by blast
  with from_template_ids [OF l(1)] True show ?thesis by (simp add: min_absorb2)
next
  case False
  then show ?thesis
    using from_template_ids [of t ids] from_template_len [of t ids]
    by (auto split: option.splits)
qed

text \<open>
  Replacing a pane by a whole layout never reaches the code's
  \<open>expect\<close>: it reports whether the pane was there, and then the layout has the
  panes of both, less the replaced one.
\<close>

theorem replace_never_panics:
  "\<exists>l'. replace_layout l t r = Some (t \<in> set (pane_ids l), l') \<and>
     (if t \<in> set (pane_ids l)
      then add_mset t (mset (pane_ids l')) = mset (pane_ids l) + mset (pane_ids r)
      else l' = l)"
  using replace_inner_total [of l t r] by (auto simp: replace_layout_def)

end
