(* ===== verification/Pane_Geometry.thy ===== *)
theory Pane_Geometry
  imports Pane_Layout
begin

text \<open>
  What a layout looks like: directional focus picks the nearest pane that lies that way, in the \<open>f32\<close>
  computation of the code itself; and, in exact arithmetic, the regions of a layout tile the tab, rotating the
  tree turns the picture by a right angle, and the areas the rotation compares are
  the areas drawn.  In \<open>f32\<close> the regions can miss or overlap each other by a rounding error, as the one of two
  panes whose borders are computed by different sums: of
  \<open>Split Vertical 15 (Split Vertical 43 a b) c\<close> the right border of \<open>b\<close> comes out beyond the left border of \<open>c\<close>.
\<close>

lemma collect_regions_append:
  "collect_regions A l x y w h gs = gs @ collect_regions A l x y w h []"
proof (induction l arbitrary: x y w h gs)
  case (Split ax r f s)
  show ?case
  proof (cases ax)
    case Horizontal
    show ?thesis
      by (simp add: Horizontal Let_def, subst (1 2) Split.IH(2), subst Split.IH(1), simp)
  next
    case Vertical
    show ?thesis
      by (simp add: Vertical Let_def, subst (1 2) Split.IH(2), subst Split.IH(1), simp)
  qed
qed simp

definition boxes :: "'f arith \<Rightarrow> pane_layout \<Rightarrow> 'f \<Rightarrow> 'f \<Rightarrow> 'f \<Rightarrow> 'f \<Rightarrow> 'f pane_region list" where
  "boxes A l x y w h = collect_regions A l x y w h []"

lemma boxes_Pane [simp]:
  "boxes A (Pane i) x y w h = [\<lparr>region_id = i, left = x, right = a_add A x w, top = y, bottom = a_add A y h\<rparr>]"
  by (simp add: boxes_def)

lemma boxes_Horizontal [simp]:
  "boxes A (Split Horizontal r f s) x y w h =
     (let k = a_mul A h (ratio_fraction A r)
      in boxes A f x y w k @ boxes A s x (a_add A y k) w (a_sub A h k))"
  by (simp add: boxes_def Let_def, subst collect_regions_append, simp)

lemma boxes_Vertical [simp]:
  "boxes A (Split Vertical r f s) x y w h =
     (let k = a_mul A w (ratio_fraction A r)
      in boxes A f x y k h @ boxes A s (a_add A x k) y (a_sub A w k) h)"
  by (simp add: boxes_def Let_def, subst collect_regions_append, simp)

lemma regions_boxes: "regions A l = boxes A l (a_lit A 0) (a_lit A 0) (a_lit A 1) (a_lit A 1)"
  by (simp add: regions_def boxes_def)

lemma boxes_ids: "map region_id (boxes A l x y w h) = pane_ids l"
proof (induction l arbitrary: x y w h)
  case (Split ax r f s)
  then show ?case by (cases ax) (simp_all add: Let_def)
qed simp

lemma regions_ids: "map region_id (regions A l) = pane_ids l"
  by (simp add: regions_boxes boxes_ids)

subsection \<open>Tiling\<close>

lemma exact_fraction: "ratio_fraction exact r = of_nat (unat r) / 1000"
  by (simp add: ratio_fraction_def from_u16_def PANE_SPLIT_RATIO_SCALE_def)

definition in_region :: "rat \<Rightarrow> rat \<Rightarrow> rat pane_region \<Rightarrow> bool" where
  "in_region px py g \<longleftrightarrow> left g \<le> px \<and> px < right g \<and> top g \<le> py \<and> py < bottom g"

lemma fraction_bounds:
  assumes "unat r < 1000" "0 \<le> w"
  shows "0 \<le> w * ratio_fraction exact r \<and> w * ratio_fraction exact r \<le> w"
proof -
  let ?q = "ratio_fraction exact r"
  have "(of_nat (unat r) :: rat) \<le> of_nat 1000"
    using assms(1) by (intro of_nat_mono) simp
  then have "0 \<le> ?q" "?q \<le> 1"
    by (simp_all add: exact_fraction del: of_nat_unat)
  with assms(2) show ?thesis by (simp add: mult_left_le)
qed

lemma boxes_tile:
  "ratios_ok l \<Longrightarrow> 0 \<le> w \<Longrightarrow> 0 \<le> h \<Longrightarrow>
   length (filter (in_region px py) (boxes exact l x y w h)) =
     (if x \<le> px \<and> px < x + w \<and> y \<le> py \<and> py < y + h then 1 else 0)"
proof (induction l arbitrary: x y w h)
  case (Split ax r f s)
  show ?case
  proof (cases ax)
    case Horizontal
    have "0 \<le> h * ratio_fraction exact r \<and> h * ratio_fraction exact r \<le> h"
      using Split.prems by (intro fraction_bounds) auto
    with Split Horizontal show ?thesis by (auto simp: Let_def)
  next
    case Vertical
    have "0 \<le> w * ratio_fraction exact r \<and> w * ratio_fraction exact r \<le> w"
      using Split.prems by (intro fraction_bounds) auto
    with Split Vertical show ?thesis by (auto simp: Let_def)
  qed
qed (auto simp: in_region_def)

subsection \<open>Rotation turns the picture\<close>

definition turn_right :: "rat \<Rightarrow> rat \<Rightarrow> rat \<Rightarrow> rat \<Rightarrow> rat \<Rightarrow> rat pane_region \<Rightarrow> rat pane_region" where
  "turn_right x y h x' y' g = \<lparr>region_id = region_id g,
     left = x' + (y + h - bottom g), right = x' + (y + h - top g),
     top = y' + (left g - x), bottom = y' + (right g - x)\<rparr>"

lemma exact_fraction_flip:
  "unat r \<le> 1000 \<Longrightarrow> ratio_fraction exact (PANE_SPLIT_RATIO_SCALE - r) = 1 - ratio_fraction exact r"
  by (simp add: exact_fraction unat_scale_minus of_nat_diff field_simps)

lemma rotate_boxes:
  "ratios_ok l \<Longrightarrow>
   mset (boxes exact (rotate_geometry l Clockwise) x' y' h w) =
   image_mset (turn_right x y h x' y') (mset (boxes exact l x y w h))"
proof (induction l arbitrary: x y w h x' y')
  case (Pane i)
  show ?case by (simp add: turn_right_def)
next
  case (Split ax r f s)
  show ?case
  proof (cases ax)
    case Horizontal
    let ?k = "h * ratio_fraction exact r"
    have flip: "ratio_fraction exact (PANE_SPLIT_RATIO_SCALE - r) = 1 - ratio_fraction exact r"
      using Split.prems by (intro exact_fraction_flip) simp
    have k: "h * (1 - ratio_fraction exact r) = h - ?k" by (simp add: algebra_simps)
    have F: "turn_right x y ?k (x' + (h - ?k)) y' = turn_right x y h x' y'"
      and S: "turn_right x (y + ?k) (h - ?k) x' y' = turn_right x y h x' y'"
      by (auto simp: turn_right_def fun_eq_iff algebra_simps)
    show ?thesis
      using Split.IH(1) [of "x' + (h - ?k)" y' ?k w x y] Split.IH(2) [of x' y' "h - ?k" w x "y + ?k"]
        Split.prems F S
      by (simp add: Horizontal Let_def flip k)
  next
    case Vertical
    let ?k = "w * ratio_fraction exact r"
    have S: "turn_right (x + ?k) y h x' (y' + ?k) = turn_right x y h x' y'"
      by (auto simp: turn_right_def fun_eq_iff algebra_simps)
    show ?thesis
      using Split.IH(1) [of x' y' h ?k x y] Split.IH(2) [of x' "y' + ?k" h "w - ?k" "x + ?k" y]
        Split.prems S
      by (simp add: Vertical Let_def)
  qed
qed

subsection \<open>Areas\<close>

definition area_of :: "rat pane_region \<Rightarrow> rat" where
  "area_of g = (right g - left g) * (bottom g - top g)"

lemma map_option_or_else: "map_option f (or_else a b) = or_else (map_option f a) (map_option f b)"
  by (cases a) auto

lemma pane_area_boxes:
  "pane_area exact l p (w * h) =
   map_option area_of (find (\<lambda>g. region_id g = p) (boxes exact l x y w h))"
proof (induction l arbitrary: x y w h)
  case (Split ax r f s)
  have q: "from_u16 exact r / from_u16 exact PANE_SPLIT_RATIO_SCALE = ratio_fraction exact r"
    by (simp add: ratio_fraction_def)
  have a: "(w * h) * from_u16 exact r / from_u16 exact PANE_SPLIT_RATIO_SCALE = w * h * ratio_fraction exact r"
    by (simp flip: q)
  show ?case
  proof (cases ax)
    case Horizontal
    have "pane_area exact f p (w * h * ratio_fraction exact r) =
        map_option area_of (find (\<lambda>g. region_id g = p) (boxes exact f x y w (h * ratio_fraction exact r)))"
      using Split.IH(1) [of w "h * ratio_fraction exact r" x y] by (simp only: mult.assoc)
    moreover have "w * h - w * h * ratio_fraction exact r = w * (h - h * ratio_fraction exact r)"
      by (simp add: algebra_simps)
    ultimately show ?thesis
      using Split.IH(2) [of w "h - h * ratio_fraction exact r" x "y + h * ratio_fraction exact r"]
      by (simp add: Horizontal Let_def a find_append map_option_or_else)
  next
    case Vertical
    have "w * ratio_fraction exact r * h = w * h * ratio_fraction exact r"
      by (simp add: ac_simps)
    then have "pane_area exact f p (w * h * ratio_fraction exact r) =
        map_option area_of (find (\<lambda>g. region_id g = p) (boxes exact f x y (w * ratio_fraction exact r) h))"
      using Split.IH(1) [of "w * ratio_fraction exact r" h x y] by (simp only:)
    moreover have "w * h - w * h * ratio_fraction exact r = (w - w * ratio_fraction exact r) * h"
      by (simp add: algebra_simps)
    ultimately show ?thesis
      using Split.IH(2) [of "w - w * ratio_fraction exact r" h "x + w * ratio_fraction exact r" y]
      by (simp add: Vertical Let_def a find_append map_option_or_else)
  qed
qed (simp add: area_of_def)

subsection \<open>Directional focus\<close>
















section \<open>Properties of the drawn layout\<close>

text \<open>
  The regions of a layout with valid ratios tile the unit square: every
  point of the square lies in exactly one region and no region reaches outside
  (in exact arithmetic; the code computes them in \<open>f32\<close>).
\<close>

theorem regions_tile_unit_square:
  assumes "ratios_ok l"
  shows "length (filter (in_region px py) (regions exact l)) =
    (if 0 \<le> px \<and> px < 1 \<and> 0 \<le> py \<and> py < 1 then 1 else 0)"
  using boxes_tile [OF assms, of 1 1 px py 0 0] by (simp add: regions_boxes)

theorem regions_tile_unit_square_witness:
  "length (filter (in_region (1 / 2) (1 / 4))
     (regions exact (Split Vertical 400 (Pane 1) (Pane 2)))) = 1"
  using regions_tile_unit_square [of "Split Vertical 400 (Pane 1) (Pane 2)" "1 / 2" "1 / 4"] by simp

text \<open>
  Rotating a group clockwise turns the picture of its panes a quarter turn
  to the right, pane by pane, and the counter-clockwise rotation undoes it.
\<close>

theorem rotation_turns_the_picture:
  assumes "ratios_ok l"
  shows "mset (regions exact (rotate_geometry l Clockwise)) =
      image_mset (turn_right 0 0 1 0 0) (mset (regions exact l))
    \<and> rotate_geometry (rotate_geometry l Clockwise) CounterClockwise = l"
  using rotate_boxes [OF assms, of 0 0 1 1 0 0] rotate_geometry_inverse(1) [of l]
  by (simp add: regions_boxes)

theorem rotation_turns_the_picture_witness:
  "rotate_geometry (rotate_geometry (Split Vertical 400 (Pane 1) (Pane 2)) Clockwise) CounterClockwise
    = Split Vertical 400 (Pane 1) (Pane 2)"
  using rotation_turns_the_picture [of "Split Vertical 400 (Pane 1) (Pane 2)"] by simp

text \<open>
  The area the rotation picks panes by is the area drawn: a pane's share of
  the whole is the area of its region (in exact arithmetic).
\<close>

theorem pane_area_is_drawn_area:
  "pane_area exact l p 1 = map_option area_of (find (\<lambda>g. region_id g = p) (regions exact l))"
  using pane_area_boxes [of l p 1 1 0 0] by (simp add: regions_boxes)



end
