(* ===== verification/Cyclic.thy ===== *)
theory Cyclic
  imports Prelude
begin

text \<open>
  Wrapping selections.  A pane's stack, the same stack once its shell has
  exited, and the shelf of minimized panes each step a cursor round a list with
  the same index arithmetic.  The locale states what such a step promises and
  derives once what a user relies on: forward and back undo each other, and
  stepping forward visits everything and returns.
\<close>

text \<open>\<open>(index + 1) % n\<close> forward, \<open>index.checked_sub(1).unwrap_or(n - 1)\<close> back.\<close>

definition cycle_index :: "bool \<Rightarrow> nat \<Rightarrow> nat \<Rightarrow> nat" where
  "cycle_index forward n i =
     (if forward then (i + 1) mod n else if i = 0 then n - 1 else i - 1)"

lemma cycle_index_less: "i < n \<Longrightarrow> cycle_index forward n i < n"
  by (auto simp: cycle_index_def)

lemma cycle_index_back:
  "i < n \<Longrightarrow> cycle_index False n (cycle_index True n i) = i"
  "i < n \<Longrightarrow> cycle_index True n (cycle_index False n i) = i"
  by (auto simp: cycle_index_def mod_Suc)

locale cyclic_selection =
  fixes step :: "bool \<Rightarrow> 's \<Rightarrow> 's"
    and pos :: "'s \<Rightarrow> nat"
    and size_of :: "'s \<Rightarrow> nat"
    and frame :: "'s \<Rightarrow> 'b"
    and ok :: "'s \<Rightarrow> bool"
  assumes pos_less: "ok s \<Longrightarrow> pos s < size_of s"
    and step_ok: "ok s \<Longrightarrow> ok (step fwd s)"
    and size_step: "ok s \<Longrightarrow> size_of (step fwd s) = size_of s"
    and frame_step: "ok s \<Longrightarrow> frame (step fwd s) = frame s"
    and pos_step: "ok s \<Longrightarrow> pos (step fwd s) = cycle_index fwd (size_of s) (pos s)"
    and pos_inj: "ok s \<Longrightarrow> ok t \<Longrightarrow> frame s = frame t \<Longrightarrow> pos s = pos t \<Longrightarrow> s = t"
begin

lemma back_undoes_forward: "ok s \<Longrightarrow> step False (step True s) = s"
  by (rule pos_inj) (auto simp: step_ok frame_step pos_step size_step pos_less cycle_index_back)

lemma forward_undoes_back: "ok s \<Longrightarrow> step True (step False s) = s"
  by (rule pos_inj) (auto simp: step_ok frame_step pos_step size_step pos_less cycle_index_back)

lemma iterate_step:
  assumes "ok s"
  shows "ok ((step True ^^ n) s) \<and> frame ((step True ^^ n) s) = frame s \<and>
    size_of ((step True ^^ n) s) = size_of s \<and>
    pos ((step True ^^ n) s) = (pos s + n) mod size_of s"
proof (induction n)
  case 0
  with assms pos_less show ?case by simp
next
  case (Suc n)
  then show ?case
    by (simp add: step_ok frame_step size_step pos_step cycle_index_def mod_Suc_eq)
qed

lemma full_turn:
  assumes "ok s"
  shows "(step True ^^ size_of s) s = s"
proof (rule pos_inj)
  show "pos ((step True ^^ size_of s) s) = pos s"
    using iterate_step [OF assms, of "size_of s"] pos_less [OF assms] by simp
qed (use iterate_step [OF assms] assms in auto)

lemma visits_all:
  assumes "ok s" "k < size_of s"
  shows "\<exists>n. n < size_of s \<and> pos ((step True ^^ n) s) = k"
proof -
  let ?m = "size_of s" and ?p = "pos s"
  have p: "?p < ?m" by (rule pos_less [OF assms(1)])
  define n where "n = (if ?p \<le> k then k - ?p else ?m + k - ?p)"
  have "n < ?m" using p assms(2) by (auto simp: n_def)
  moreover have "(?p + n) mod ?m = k"
    using p assms(2) by (auto simp: n_def)
  ultimately show ?thesis using iterate_step [OF assms(1), of n] by auto
qed

end

end
