(* ===== verification/Pane_Stack.thy ===== *)
theory Pane_Stack
  imports Cyclic
begin

text \<open>
  A pane's stack of command terminals, from \<open>src/pane/stack.rs\<close>: the entries
  that share one layout region, and the selection that has to stay valid as
  entries are pushed, removed and exit.  The type parameters are the values the
  code only carries: the profile, the terminal and the view of an entry.
\<close>

datatype pane_stack_selection = Base | Stacked u64

datatype stacked_pane_state = Starting | Running | Completed | Failed

record ('p, 't, 'v) stacked_pane =
  sp_id :: u64
  sp_routing_id :: u64
  sp_command :: string
  sp_profile :: 'p
  sp_theme_override :: "string option"
  sp_terminal :: "'t option"
  sp_view :: "'v option"
  sp_state :: stacked_pane_state
  sp_exit_code :: "int option"
  sp_error :: "string option"
  sp_working_directory :: "string option"
  sp_wsl_directory :: "string option"

record ('p, 't, 'v) pane_stack =
  entries :: "('p, 't, 'v) stacked_pane list"
  selected :: pane_stack_selection

definition MAX_PANES_PER_TAB :: nat where
  "MAX_PANES_PER_TAB = 64"

definition stacked_pane_new ::
  "u64 \<Rightarrow> string \<Rightarrow> 'p \<Rightarrow> string option \<Rightarrow> string option \<Rightarrow> ('p, 't, 'v) stacked_pane" where
  "stacked_pane_new i command profile working_directory wsl_directory =
     \<lparr>sp_id = i, sp_routing_id = i, sp_command = command, sp_profile = profile,
      sp_theme_override = None, sp_terminal = None, sp_view = None, sp_state = Starting,
      sp_exit_code = None, sp_error = None, sp_working_directory = working_directory,
      sp_wsl_directory = wsl_directory\<rparr>"

definition pane_stack_default :: "('p, 't, 'v) pane_stack" where
  "pane_stack_default = \<lparr>entries = [], selected = Base\<rparr>"

definition stack_is_empty :: "('p, 't, 'v) pane_stack \<Rightarrow> bool" where
  "stack_is_empty s = (entries s = [])"

definition selected_is_base :: "('p, 't, 'v) pane_stack \<Rightarrow> bool" where
  "selected_is_base s = (selected s = Base)"

definition has_entry :: "('p, 't, 'v) pane_stack \<Rightarrow> u64 \<Rightarrow> bool" where
  "has_entry s i = list_ex (\<lambda>e. sp_id e = i) (entries s)"

definition select_after_base_exit :: "('p, 't, 'v) pane_stack \<Rightarrow> ('p, 't, 'v) pane_stack" where
  "select_after_base_exit s =
     (let selected_is_valid = (case selected s of Base \<Rightarrow> False | Stacked i \<Rightarrow> has_entry s i)
      in if \<not> selected_is_valid
         then s\<lparr>selected := (case first_of (entries s) of None \<Rightarrow> Base | Some e \<Rightarrow> Stacked (sp_id e))\<rparr>
         else s)"

definition selected_entry :: "('p, 't, 'v) pane_stack \<Rightarrow> ('p, 't, 'v) stacked_pane option" where
  "selected_entry s =
     (case selected s of Base \<Rightarrow> None | Stacked i \<Rightarrow> find (\<lambda>e. sp_id e = i) (entries s))"

definition selected_view :: "('p, 't, 'v) pane_stack \<Rightarrow> 'v option \<Rightarrow> 'v option" where
  "selected_view s base =
     or_else (Option.bind (selected_entry s) sp_view) (if selected_is_base s then base else None)"

definition selected_terminal :: "('p, 't, 'v) pane_stack \<Rightarrow> 't option \<Rightarrow> 't option" where
  "selected_terminal s base =
     or_else (Option.bind (selected_entry s) sp_terminal) (if selected_is_base s then base else None)"

definition select_entry ::
  "('p, 't, 'v) pane_stack \<Rightarrow> pane_stack_selection \<Rightarrow> bool \<times> ('p, 't, 'v) pane_stack" where
  "select_entry s sel =
     (let valid = (case sel of Base \<Rightarrow> True | Stacked i \<Rightarrow> has_entry s i)
      in (valid, if valid then s\<lparr>selected := sel\<rparr> else s))"

text \<open>Cycling indexes the entries; \<open>None\<close> is an index out of range, which panics.\<close>

definition cycle ::
  "('p, 't, 'v) pane_stack \<Rightarrow> bool
   \<Rightarrow> (pane_stack_selection option \<times> ('p, 't, 'v) pane_stack) option" where
  "cycle s forward =
     (if entries s = [] then Some (None, s\<lparr>selected := Base\<rparr>)
      else let current = (case selected s of
                 Base \<Rightarrow> 0
               | Stacked i \<Rightarrow> (case position (\<lambda>e. sp_id e = i) (entries s) of
                   None \<Rightarrow> 0 | Some k \<Rightarrow> k + 1));
               count = length (entries s) + 1;
               nxt = cycle_index forward count current;
               sel = (if nxt = 0 then Some Base
                      else map_option (\<lambda>e. Stacked (sp_id e)) (get (entries s) (nxt - 1)))
           in map_option (\<lambda>sel. (Some sel, s\<lparr>selected := sel\<rparr>)) sel)"

definition cycle_without_base ::
  "('p, 't, 'v) pane_stack \<Rightarrow> bool
   \<Rightarrow> (pane_stack_selection option \<times> ('p, 't, 'v) pane_stack) option" where
  "cycle_without_base s forward =
     (if entries s = [] then Some (None, s\<lparr>selected := Base\<rparr>)
      else let current = (case selected s of
                 Stacked i \<Rightarrow> position (\<lambda>e. sp_id e = i) (entries s)
               | Base \<Rightarrow> None);
               nxt = (case current of
                 Some k \<Rightarrow> cycle_index forward (length (entries s)) k
               | None \<Rightarrow> if forward then 0 else length (entries s) - 1)
           in map_option (\<lambda>e. (Some (Stacked (sp_id e)), s\<lparr>selected := Stacked (sp_id e)\<rparr>))
                (get (entries s) nxt))"

definition push_entry ::
  "('p, 't, 'v) pane_stack \<Rightarrow> ('p, 't, 'v) stacked_pane \<Rightarrow> bool \<times> ('p, 't, 'v) pane_stack" where
  "push_entry s e =
     (if length (entries s) \<ge> MAX_PANES_PER_TAB - 1 then (False, s)
      else (True, s\<lparr>entries := entries s @ [e], selected := Stacked (sp_id e)\<rparr>))"

definition remove_entry ::
  "('p, 't, 'v) pane_stack \<Rightarrow> u64 \<Rightarrow> ('p, 't, 'v) stacked_pane option \<times> ('p, 't, 'v) pane_stack" where
  "remove_entry s i =
     (case position (\<lambda>e. sp_id e = i) (entries s) of
        None \<Rightarrow> (None, s)
      | Some index \<Rightarrow>
          (let was_selected = (selected s = Stacked i);
               entry = entries s ! index;
               rest = remove_at index (entries s);
               sel = (if was_selected then
                        (case get rest index of
                           Some e \<Rightarrow> Stacked (sp_id e)
                         | None \<Rightarrow> (case get rest (index - 1) of
                             Some e \<Rightarrow> Stacked (sp_id e)
                           | None \<Rightarrow> Base))
                      else (case selected s of
                              Base \<Rightarrow> Base
                            | Stacked j \<Rightarrow> if list_ex (\<lambda>e. sp_id e = j) rest then Stacked j else Base))
           in (Some entry, s\<lparr>entries := rest, selected := sel\<rparr>)))"

definition repair_selection :: "('p, 't, 'v) pane_stack \<Rightarrow> ('p, 't, 'v) pane_stack" where
  "repair_selection s =
     (case selected s of
        Base \<Rightarrow> s
      | Stacked i \<Rightarrow>
          if has_entry s i then s
          else s\<lparr>selected := (case last_of (entries s) of None \<Rightarrow> Base | Some e \<Rightarrow> Stacked (sp_id e))\<rparr>)"

section \<open>The selection stays valid\<close>

definition entry_ids :: "('p, 't, 'v) pane_stack \<Rightarrow> u64 list" where
  "entry_ids s = map sp_id (entries s)"

definition selection_valid :: "('p, 't, 'v) pane_stack \<Rightarrow> bool" where
  "selection_valid s = (case selected s of Base \<Rightarrow> True | Stacked i \<Rightarrow> i \<in> set (entry_ids s))"

definition stack_ok :: "('p, 't, 'v) pane_stack \<Rightarrow> bool" where
  "stack_ok s \<longleftrightarrow> selection_valid s \<and> distinct (entry_ids s) \<and> length (entries s) < MAX_PANES_PER_TAB"

lemma has_entry_iff [simp]: "has_entry s i \<longleftrightarrow> i \<in> set (entry_ids s)"
  by (auto simp: has_entry_def entry_ids_def list_ex_iff)

lemma selection_valid_upd [simp]:
  "selection_valid (s\<lparr>selected := Base\<rparr>)"
  "selection_valid (s\<lparr>selected := Stacked i\<rparr>) \<longleftrightarrow> i \<in> set (entry_ids s)"
  by (simp_all add: selection_valid_def entry_ids_def)

lemma entry_ids_upd [simp]: "entry_ids (s\<lparr>selected := x\<rparr>) = entry_ids s"
  by (simp add: entry_ids_def)

lemma first_entry_id: "first_of (entries s) = Some e \<Longrightarrow> sp_id e \<in> set (entry_ids s)"
  by (auto simp: entry_ids_def dest: first_of_in_set)

lemma last_entry_id: "last_of (entries s) = Some e \<Longrightarrow> sp_id e \<in> set (entry_ids s)"
  by (auto simp: entry_ids_def dest: last_of_in_set)

lemma nth_entry_id: "k < length (entries s) \<Longrightarrow> sp_id (entries s ! k) \<in> set (entry_ids s)"
  by (auto simp: entry_ids_def)

text \<open>Each operation repairs or keeps the selection, whatever it was before.\<close>

lemma select_after_base_exit_valid: "selection_valid (select_after_base_exit s)"
  by (auto simp: select_after_base_exit_def Let_def selection_valid_def entry_ids_def
      split: pane_stack_selection.splits option.splits dest: first_of_in_set)

lemma repair_selection_valid: "selection_valid (repair_selection s)"
  by (auto simp: repair_selection_def selection_valid_def entry_ids_def
      split: pane_stack_selection.splits option.splits dest: last_of_in_set)

lemma select_entry_valid: "selection_valid s \<Longrightarrow> selection_valid (snd (select_entry s sel))"
  by (auto simp: select_entry_def Let_def split: pane_stack_selection.splits)

text \<open>The indices are in range.\<close>

lemma cycle_eq:
  "cycle s forward = Some
     (if entries s = [] then (None, s\<lparr>selected := Base\<rparr>)
      else let current = (case selected s of
                 Base \<Rightarrow> 0
               | Stacked i \<Rightarrow> (case position (\<lambda>e. sp_id e = i) (entries s) of
                   None \<Rightarrow> 0 | Some k \<Rightarrow> k + 1));
               nxt = cycle_index forward (length (entries s) + 1) current;
               sel = (if nxt = 0 then Base else Stacked (sp_id (entries s ! (nxt - 1))))
           in (Some sel, s\<lparr>selected := sel\<rparr>))"
proof -
  define current where "current = (case selected s of Base \<Rightarrow> 0
     | Stacked i \<Rightarrow> (case position (\<lambda>e. sp_id e = i) (entries s) of None \<Rightarrow> 0 | Some k \<Rightarrow> k + 1))"
  have "current < length (entries s) + 1"
    by (auto simp: current_def split: pane_stack_selection.splits option.splits dest: position_SomeD)
  then have "cycle_index forward (length (entries s) + 1) current < length (entries s) + 1"
    by (rule cycle_index_less)
  then show ?thesis by (auto simp: cycle_def Let_def current_def [symmetric] get_def)
qed

lemma cycle_without_base_eq:
  "cycle_without_base s forward = Some
     (if entries s = [] then (None, s\<lparr>selected := Base\<rparr>)
      else let current = (case selected s of
                 Stacked i \<Rightarrow> position (\<lambda>e. sp_id e = i) (entries s)
               | Base \<Rightarrow> None);
               nxt = (case current of
                 Some k \<Rightarrow> cycle_index forward (length (entries s)) k
               | None \<Rightarrow> if forward then 0 else length (entries s) - 1);
               sel = Stacked (sp_id (entries s ! nxt))
           in (Some sel, s\<lparr>selected := sel\<rparr>))"
proof -
  define current where "current = (case selected s of
       Stacked i \<Rightarrow> position (\<lambda>e. sp_id e = i) (entries s) | Base \<Rightarrow> None)"
  have "k < length (entries s)" if "current = Some k" for k
    using that by (auto simp: current_def split: pane_stack_selection.splits dest: position_SomeD)
  then show ?thesis
    by (cases "entries s") (auto simp: cycle_without_base_def Let_def current_def [symmetric] get_def
        cycle_index_less split: option.splits)
qed

lemma cycle_valid: "selection_valid (snd (the (cycle s forward)))"
proof (cases "entries s = []")
  case False
  define current where "current = (case selected s of Base \<Rightarrow> 0
     | Stacked i \<Rightarrow> (case position (\<lambda>e. sp_id e = i) (entries s) of None \<Rightarrow> 0 | Some k \<Rightarrow> k + 1))"
  have "current < length (entries s) + 1"
    by (auto simp: current_def split: pane_stack_selection.splits option.splits dest: position_SomeD)
  then have "cycle_index forward (length (entries s) + 1) current < length (entries s) + 1"
    by (rule cycle_index_less)
  with False show ?thesis
    by (auto simp: cycle_eq Let_def current_def [symmetric] intro: nth_entry_id)
qed (simp add: cycle_eq)

lemma cycle_without_base_valid: "selection_valid (snd (the (cycle_without_base s forward)))"
proof (cases "entries s = []")
  case False
  define current where "current = (case selected s of
       Stacked i \<Rightarrow> position (\<lambda>e. sp_id e = i) (entries s) | Base \<Rightarrow> None)"
  have "k < length (entries s)" if "current = Some k" for k
    using that by (auto simp: current_def split: pane_stack_selection.splits dest: position_SomeD)
  with False show ?thesis
    by (auto simp: cycle_without_base_eq Let_def current_def [symmetric] cycle_index_less
        split: option.splits intro!: nth_entry_id)
qed (simp add: cycle_without_base_eq)

lemma push_entry_valid: "selection_valid s \<Longrightarrow> selection_valid (snd (push_entry s e))"
  by (cases "MAX_PANES_PER_TAB - 1 \<le> length (entries s)")
    (auto simp: push_entry_def selection_valid_def entry_ids_def)

lemma remove_entry_valid: "selection_valid (snd (remove_entry s i))" if "selection_valid s"
proof (cases "position (\<lambda>e. sp_id e = i) (entries s)")
  case (Some index)
  let ?rest = "remove_at index (entries s)"
  have "sp_id e \<in> sp_id ` set ?rest" if "get ?rest k = Some e" for k e
    using get_in_set [OF that] by blast
  with Some show ?thesis
    by (auto simp: remove_entry_def Let_def selection_valid_def entry_ids_def list_ex_iff
        split: pane_stack_selection.splits option.splits)
next
  case None
  with that show ?thesis by (simp add: remove_entry_def)
qed

text \<open>The entries themselves stay distinct and bounded.\<close>

lemma entry_ids_ops:
  "entry_ids (select_after_base_exit s) = entry_ids s"
  "entry_ids (repair_selection s) = entry_ids s"
  "entry_ids (snd (select_entry s sel)) = entry_ids s"
  "entry_ids (snd (the (cycle s forward))) = entry_ids s"
  "entry_ids (snd (the (cycle_without_base s forward))) = entry_ids s"
  by (simp_all add: select_after_base_exit_def repair_selection_def select_entry_def cycle_eq
      cycle_without_base_eq Let_def split: pane_stack_selection.splits)

lemma stack_ok_iff:
  "stack_ok s \<longleftrightarrow> selection_valid s \<and> distinct (entry_ids s) \<and> length (entry_ids s) < MAX_PANES_PER_TAB"
  by (simp add: stack_ok_def entry_ids_def)

lemmas stack_selection_valid =
  select_after_base_exit_valid repair_selection_valid select_entry_valid cycle_valid
  cycle_without_base_valid push_entry_valid remove_entry_valid

lemma remove_entry_ids:
  "entry_ids (snd (remove_entry s i)) =
     (case position (\<lambda>j. j = i) (entry_ids s) of None \<Rightarrow> entry_ids s | Some k \<Rightarrow> remove_at k (entry_ids s))"
  by (auto simp: remove_entry_def Let_def entry_ids_def remove_at_def
      take_map drop_map split: option.splits)

lemma stack_ok_push:
  assumes "stack_ok s" "sp_id e \<notin> set (entry_ids s)"
  shows "stack_ok (snd (push_entry s e))"
  using assms push_entry_valid [of s e]
  by (cases "MAX_PANES_PER_TAB - 1 \<le> length (entries s)")
    (auto simp: stack_ok_def push_entry_def entry_ids_def)

lemma stack_ok_remove:
  assumes "stack_ok s"
  shows "stack_ok (snd (remove_entry s i))"
proof -
  have "distinct (remove_at k (entry_ids s)) \<and> length (remove_at k (entry_ids s)) \<le> length (entry_ids s)" for k
    using assms by (auto simp: stack_ok_iff remove_at_def set_take_disj_set_drop_if_distinct)
  moreover have "selection_valid (snd (remove_entry s i))"
    using assms by (simp add: stack_ok_def remove_entry_valid)
  ultimately show ?thesis
    using assms by (auto simp: stack_ok_iff remove_entry_ids split: option.splits intro: le_less_trans)
qed

lemma remove_entry_set:
  assumes "stack_ok s"
  shows "set (entry_ids (snd (remove_entry s i))) = set (entry_ids s) - {i}"
proof (cases "position (\<lambda>j. j = i) (entry_ids s)")
  case None
  then have "i \<notin> set (entry_ids s)" by (auto simp: position_None_iff)
  with None show ?thesis by (simp add: remove_entry_ids)
next
  case (Some k)
  then have k: "k < length (entry_ids s)" "entry_ids s ! k = i" by (auto dest: position_SomeD)
  then show ?thesis using Some assms set_remove_at_distinct [of "entry_ids s" k]
    by (simp add: remove_entry_ids stack_ok_iff)
qed

section \<open>Cycling\<close>

definition stack_pos :: "('p, 't, 'v) pane_stack \<Rightarrow> nat" where
  "stack_pos s = (case selected s of Base \<Rightarrow> 0
     | Stacked i \<Rightarrow> (case position (\<lambda>j. j = i) (entry_ids s) of None \<Rightarrow> 0 | Some k \<Rightarrow> k + 1))"

definition stack_sel :: "('p, 't, 'v) pane_stack \<Rightarrow> nat \<Rightarrow> pane_stack_selection" where
  "stack_sel s k = (if k = 0 then Base else Stacked (entry_ids s ! (k - 1)))"

lemma cycle_pos: "snd (the (cycle s forward)) =
    s\<lparr>selected := stack_sel s (cycle_index forward (length (entry_ids s) + 1) (stack_pos s))\<rparr>"
  if "selection_valid s"
proof (cases "entries s = []")
  case True
  with that have "selected s = Base"
    by (auto simp: selection_valid_def entry_ids_def split: pane_stack_selection.splits)
  with True show ?thesis
    by (simp add: cycle_eq stack_sel_def stack_pos_def entry_ids_def cycle_index_def)
next
  case False
  have less: "stack_pos s < length (entry_ids s) + 1"
    by (auto simp: stack_pos_def split: pane_stack_selection.splits option.splits dest: position_SomeD)
  have "cycle_index forward (length (entry_ids s) + 1) (stack_pos s) < length (entry_ids s) + 1"
    by (rule cycle_index_less [OF less])
  moreover have "(case selected s of Base \<Rightarrow> 0 | Stacked i \<Rightarrow>
      (case position (\<lambda>e. sp_id e = i) (entries s) of None \<Rightarrow> 0 | Some k \<Rightarrow> k + 1)) = stack_pos s"
    by (cases "selected s") (simp_all add: stack_pos_def entry_ids_def)
  ultimately show ?thesis
    using False by (auto simp: cycle_eq Let_def stack_sel_def entry_ids_def)
qed

lemma stack_pos_sel:
  "distinct (entry_ids s) \<Longrightarrow> k < length (entry_ids s) + 1 \<Longrightarrow> stack_pos (s\<lparr>selected := stack_sel s k\<rparr>) = k"
  using position_distinct [of "entry_ids s" "k - 1"]
  by (cases k) (auto simp: stack_pos_def stack_sel_def)

lemma stack_pos_less: "stack_pos s < length (entry_ids s) + 1"
  by (auto simp: stack_pos_def split: pane_stack_selection.splits option.splits dest: position_SomeD)

lemma stack_sel_pos: "selection_valid s \<Longrightarrow> stack_sel s (stack_pos s) = selected s"
  by (auto simp: selection_valid_def stack_sel_def stack_pos_def position_None_iff
      split: pane_stack_selection.splits option.splits dest: position_SomeD)

lemma pane_stack_eqI:
  fixes s t :: "('p, 't, 'v) pane_stack"
  shows "entries s = entries t \<Longrightarrow> selected s = selected t \<Longrightarrow> s = t"
  by simp

interpretation stack_cycle: cyclic_selection
  "\<lambda>forward s. snd (the (cycle s forward))" stack_pos "\<lambda>s. length (entry_ids s) + 1"
  "entries :: ('p, 't, 'v) pane_stack \<Rightarrow> _" "\<lambda>s. selection_valid s \<and> distinct (entry_ids s)"
proof unfold_locales
  fix s t :: "('p, 't, 'v) pane_stack" and fwd
  assume s: "selection_valid s \<and> distinct (entry_ids s)"
  show "stack_pos s < length (entry_ids s) + 1" by (rule stack_pos_less)
  show "selection_valid (snd (the (cycle s fwd))) \<and> distinct (entry_ids (snd (the (cycle s fwd))))"
    using s by (simp add: cycle_valid entry_ids_ops)
  show "length (entry_ids (snd (the (cycle s fwd)))) + 1 = length (entry_ids s) + 1"
    by (simp add: entry_ids_ops)
  show "entries (snd (the (cycle s fwd))) = entries s"
    using s by (simp add: cycle_pos)
  show "stack_pos (snd (the (cycle s fwd))) = cycle_index fwd (length (entry_ids s) + 1) (stack_pos s)"
    using s by (simp add: cycle_pos stack_pos_sel cycle_index_less stack_pos_less [simplified])
  assume t: "selection_valid t \<and> distinct (entry_ids t)" and e: "entries s = entries t"
    and p: "stack_pos s = stack_pos t"
  have "stack_sel s (stack_pos s) = stack_sel t (stack_pos t)"
    using e p by (simp add: stack_sel_def entry_ids_def)
  then have "selected s = selected t" using s t by (simp add: stack_sel_pos)
  with e show "s = t" by (rule pane_stack_eqI)
qed

text \<open>Once the base shell has exited the cycle skips it.\<close>

definition on_entry :: "('p, 't, 'v) pane_stack \<Rightarrow> bool" where
  "on_entry s \<longleftrightarrow> selected s \<noteq> Base \<and> selection_valid s \<and> distinct (entry_ids s)"

lemma on_entry_pos:
  assumes "on_entry s"
  obtains i k where "selected s = Stacked i" "position (\<lambda>j. j = i) (entry_ids s) = Some k"
    "stack_pos s = k + 1" "k < length (entry_ids s)"
proof -
  obtain i where i: "selected s = Stacked i" "i \<in> set (entry_ids s)"
    using assms by (auto simp: on_entry_def selection_valid_def split: pane_stack_selection.splits)
  then obtain k where "position (\<lambda>j. j = i) (entry_ids s) = Some k"
    by (cases "position (\<lambda>j. j = i) (entry_ids s)") (auto simp: position_None_iff)
  with i that show thesis by (auto simp: stack_pos_def dest: position_SomeD)
qed

lemma cycle_without_base_pos:
  assumes "on_entry s"
  shows "snd (the (cycle_without_base s forward)) =
    s\<lparr>selected := stack_sel s (cycle_index forward (length (entry_ids s)) (stack_pos s - 1) + 1)\<rparr>"
proof -
  obtain i k where k: "selected s = Stacked i" "position (\<lambda>j. j = i) (entry_ids s) = Some k"
    "stack_pos s = k + 1" "k < length (entry_ids s)"
    using assms by (rule on_entry_pos)
  have "cycle_index forward (length (entry_ids s)) k < length (entry_ids s)"
    by (rule cycle_index_less [OF k(4)])
  moreover have "position (\<lambda>e. sp_id e = i) (entries s) = Some k" "entries s \<noteq> []"
    using k(2,4) by (auto simp: entry_ids_def)
  ultimately show ?thesis
    using k by (simp add: cycle_without_base_eq Let_def stack_sel_def entry_ids_def)
qed

interpretation entry_cycle: cyclic_selection
  "\<lambda>forward s. snd (the (cycle_without_base s forward))" "\<lambda>s. stack_pos s - 1" "\<lambda>s. length (entry_ids s)"
  "entries :: ('p, 't, 'v) pane_stack \<Rightarrow> _" on_entry
proof unfold_locales
  fix s t :: "('p, 't, 'v) pane_stack" and fwd
  assume s: "on_entry s"
  then obtain i k where k: "selected s = Stacked i" "stack_pos s = k + 1" "k < length (entry_ids s)"
    by (rule on_entry_pos)
  have less: "cycle_index fwd (length (entry_ids s)) k < length (entry_ids s)"
    by (rule cycle_index_less [OF k(3)])
  show "stack_pos s - 1 < length (entry_ids s)" using k by simp
  show "on_entry (snd (the (cycle_without_base s fwd)))"
    using s less k by (simp add: on_entry_def cycle_without_base_valid entry_ids_ops)
      (simp add: s cycle_without_base_pos stack_sel_def)
  show "length (entry_ids (snd (the (cycle_without_base s fwd)))) = length (entry_ids s)"
    by (simp add: entry_ids_ops)
  show "entries (snd (the (cycle_without_base s fwd))) = entries s"
    using s by (simp add: cycle_without_base_pos)
  show "stack_pos (snd (the (cycle_without_base s fwd))) - 1 =
      cycle_index fwd (length (entry_ids s)) (stack_pos s - 1)"
    using s less k stack_pos_sel [of s "cycle_index fwd (length (entry_ids s)) k + 1"]
    by (simp add: cycle_without_base_pos on_entry_def)
  assume t: "on_entry t" and e: "entries s = entries t" and p: "stack_pos s - 1 = stack_pos t - 1"
  obtain k' where "stack_pos t = k' + 1" using t by (rule on_entry_pos)
  then have "stack_pos s = stack_pos t" using k p by simp
  then have "stack_sel s (stack_pos s) = stack_sel t (stack_pos t)"
    using e by (simp add: stack_sel_def entry_ids_def)
  then have "selected s = selected t" using s t by (simp add: stack_sel_pos on_entry_def)
  with e show "s = t" by (rule pane_stack_eqI)
qed

section \<open>Properties of the stack\<close>

text \<open>
  Every operation on a pane's stack keeps it sound: the selection is the
  base or an entry that is there, entries are distinct and below the limit.
  Removing an entry leaves exactly the others.
\<close>

theorem stack_operations_keep_ok:
  assumes "stack_ok s" "sp_id e \<notin> set (entry_ids s)"
  shows "stack_ok (snd (push_entry s e)) \<and> stack_ok (snd (remove_entry s i)) \<and>
    stack_ok (snd (select_entry s sel)) \<and> stack_ok (snd (the (cycle s fwd))) \<and>
    stack_ok (snd (the (cycle_without_base s fwd))) \<and> stack_ok (select_after_base_exit s) \<and>
    stack_ok (repair_selection s) \<and>
    set (entry_ids (snd (remove_entry s i))) = set (entry_ids s) - {i}"
  using assms by (simp add: stack_ok_push stack_ok_remove remove_entry_set)
    (simp add: stack_ok_iff entry_ids_ops stack_selection_valid)

theorem stack_operations_keep_ok_witness:
  "stack_ok (snd (push_entry (pane_stack_default :: (unit, unit, unit) pane_stack)
     (stacked_pane_new 3 ''make'' () None None)))"
  using stack_operations_keep_ok [of "pane_stack_default :: (unit, unit, unit) pane_stack"
      "stacked_pane_new 3 ''make'' () None None"]
  by (simp add: pane_stack_default_def stack_ok_def selection_valid_def entry_ids_def MAX_PANES_PER_TAB_def)

text \<open>
  Stepping through a stack forward and back undo each other, and stepping
  forward as often as there are selections returns to the start: the base and
  all entries with the shell running, the entries alone once it has exited.
\<close>

theorem stack_cycles_return:
  assumes "stack_ok s"
  shows "snd (the (cycle (snd (the (cycle s True))) False)) = s \<and>
    ((\<lambda>s. snd (the (cycle s True))) ^^ (length (entries s) + 1)) s = s \<and>
    (selected s \<noteq> Base \<longrightarrow>
      snd (the (cycle_without_base (snd (the (cycle_without_base s True))) False)) = s \<and>
      ((\<lambda>s. snd (the (cycle_without_base s True))) ^^ length (entries s)) s = s)"
proof -
  have ok: "selection_valid s \<and> distinct (entry_ids s)" using assms by (simp add: stack_ok_def)
  have len: "length (entry_ids s) = length (entries s)" by (simp add: entry_ids_def)
  show ?thesis
    using stack_cycle.back_undoes_forward [OF ok] stack_cycle.full_turn [OF ok]
      entry_cycle.back_undoes_forward [of s] entry_cycle.full_turn [of s] ok
    by (simp only: len on_entry_def) blast
qed

theorem stack_cycles_return_witness:
  "\<exists>s :: (unit, unit, unit) pane_stack. length (entries s) = 1 \<and> selected s = Stacked 3 \<and>
    snd (the (cycle (snd (the (cycle s True))) False)) = s"
proof -
  let ?s = "\<lparr>entries = [stacked_pane_new 3 ''make'' () None None], selected = Stacked 3\<rparr>
    :: (unit, unit, unit) pane_stack"
  have "stack_ok ?s"
    by (simp add: stack_ok_def selection_valid_def entry_ids_def stacked_pane_new_def MAX_PANES_PER_TAB_def)
  then have "snd (the (cycle (snd (the (cycle ?s True))) False)) = ?s" using stack_cycles_return by blast
  then show ?thesis by (intro exI [of _ ?s]) simp
qed

end
