(* ===== verification/Utf8.thy ===== *)
theory Utf8
  imports Prelude
begin

text \<open>
  Rust strings.  A \<open>String\<close> is modelled by its sequence of Unicode scalar
  values; byte offsets into it are counted through \<open>len_utf8\<close>, and slicing at
  an offset that is not a character boundary panics (\<open>None\<close>).  Where bytes from
  the network become text, the UTF-8 decoder of the standard library is
  modelled, strict and lossy.
\<close>

type_synonym scalar = nat
type_synonym ustring = "scalar list"

definition is_scalar :: "scalar \<Rightarrow> bool" where
  "is_scalar c \<longleftrightarrow> c < 0xD800 \<or> 0xE000 \<le> c \<and> c < 0x110000"

text \<open>A string literal of the sources.\<close>

definition lit :: "string \<Rightarrow> ustring" where
  "lit s = map of_char s"

definition len_utf8 :: "scalar \<Rightarrow> nat" where
  "len_utf8 c = (if c < 0x80 then 1 else if c < 0x800 then 2 else if c < 0x10000 then 3 else 4)"

definition byte_len :: "ustring \<Rightarrow> nat" where
  "byte_len s = sum_list (map len_utf8 s)"

text \<open>\<open>(&s[..k], &s[k..])\<close>.\<close>

fun split_bytes :: "ustring \<Rightarrow> nat \<Rightarrow> (ustring \<times> ustring) option" where
  "split_bytes [] k = (if k = 0 then Some ([], []) else None)"
| "split_bytes (c # cs) k =
     (if k = 0 then Some ([], c # cs)
      else if len_utf8 c \<le> k
      then map_option (\<lambda>(a, b). (c # a, b)) (split_bytes cs (k - len_utf8 c))
      else None)"

definition to_ascii_lowercase :: "ustring \<Rightarrow> ustring" where
  "to_ascii_lowercase s = map (\<lambda>c. if 65 \<le> c \<and> c \<le> 90 then c + 32 else c) s"

subsection \<open>Encoding and decoding\<close>

definition encode_utf8 :: "scalar \<Rightarrow> bytes" where
  "encode_utf8 c =
     map of_nat
       (if c < 0x80 then [c]
        else if c < 0x800 then [0xC0 + c div 64, 0x80 + c mod 64]
        else if c < 0x10000 then [0xE0 + c div 4096, 0x80 + c div 64 mod 64, 0x80 + c mod 64]
        else [0xF0 + c div 262144, 0x80 + c div 4096 mod 64, 0x80 + c div 64 mod 64, 0x80 + c mod 64])"

definition as_bytes :: "ustring \<Rightarrow> bytes" where
  "as_bytes s = concat (map encode_utf8 s)"

definition cont :: "nat \<Rightarrow> nat \<Rightarrow> nat list \<Rightarrow> bool" where
  "cont lo hi bs = (case bs of [] \<Rightarrow> False | b # _ \<Rightarrow> lo \<le> b \<and> b \<le> hi)"

text \<open>
  One character off the front of a non-empty byte sequence: the scalar value
  and its length, or no value and the length of the maximal invalid prefix,
  which is what the lossy decoder replaces as one.
\<close>

definition decode_step :: "nat list \<Rightarrow> scalar option \<times> nat" where
  "decode_step bs =
     (case bs of [] \<Rightarrow> (None, 0) | b # r \<Rightarrow>
        if b < 0x80 then (Some b, 1)
        else if 0xC2 \<le> b \<and> b \<le> 0xDF then
          (if cont 0x80 0xBF r then (Some ((b - 0xC0) * 64 + (r ! 0 - 0x80)), 2) else (None, 1))
        else if 0xE0 \<le> b \<and> b \<le> 0xEF then
          (if cont (if b = 0xE0 then 0xA0 else 0x80) (if b = 0xED then 0x9F else 0xBF) r then
             (if cont 0x80 0xBF (tl r)
              then (Some ((b - 0xE0) * 4096 + (r ! 0 - 0x80) * 64 + (r ! 1 - 0x80)), 3)
              else (None, 2))
           else (None, 1))
        else if 0xF0 \<le> b \<and> b \<le> 0xF4 then
          (if cont (if b = 0xF0 then 0x90 else 0x80) (if b = 0xF4 then 0x8F else 0xBF) r then
             (if cont 0x80 0xBF (tl r) then
                (if cont 0x80 0xBF (tl (tl r))
                 then (Some ((b - 0xF0) * 262144 + (r ! 0 - 0x80) * 4096 + (r ! 1 - 0x80) * 64
                             + (r ! 2 - 0x80)), 4)
                 else (None, 3))
              else (None, 2))
           else (None, 1))
        else (None, 1))"

lemma decode_step_pos: "bs \<noteq> [] \<Longrightarrow> 0 < snd (decode_step bs)"
  by (simp add: decode_step_def split: list.splits)

function (sequential) decode_utf8 :: "nat list \<Rightarrow> scalar option list" where
  "decode_utf8 [] = []"
| "decode_utf8 (b # bs) =
     (case decode_step (b # bs) of (c, n) \<Rightarrow> c # decode_utf8 (drop n (b # bs)))"
  by pat_completeness auto
termination
proof (relation "measure length")
  fix b bs c n
  assume "(c, n) = decode_step (b # bs)"
  then have "0 < n" using decode_step_pos [of "b # bs"] by (metis list.discI snd_conv)
  then show "(drop n (b # bs), b # bs) \<in> measure length" by simp
qed simp

definition from_utf8 :: "bytes \<Rightarrow> ustring option" where
  "from_utf8 bs =
     (let cs = decode_utf8 (map unat bs)
      in if list_all (\<lambda>c. c \<noteq> None) cs then Some (map the cs) else None)"

definition from_utf8_lossy :: "bytes \<Rightarrow> ustring" where
  "from_utf8_lossy bs =
     map (\<lambda>c. case c of None \<Rightarrow> 0xFFFD | Some x \<Rightarrow> x) (decode_utf8 (map unat bs))"

subsection \<open>The decoder inverts the encoder\<close>

lemma unat_of_nat_u8 [simp]: "n < 256 \<Longrightarrow> unat (word_of_nat n :: u8) = n"
  by (simp add: unat_of_nat)

lemma length_encode_utf8: "length (encode_utf8 c) = len_utf8 c"
  by (simp add: encode_utf8_def len_utf8_def)

lemma unat_numeral_add [simp]:
  assumes "numeral k + n < 256"
  shows "unat (numeral k + word_of_nat n :: u8) = numeral k + n"
proof -
  have "numeral k + word_of_nat n = (word_of_nat (numeral k + n) :: u8)" by simp
  then show ?thesis using assms by (metis unat_of_nat_u8)
qed

lemma digits3: "(c::nat) = c div 4096 * 4096 + c div 64 mod 64 * 64 + c mod 64"
proof -
  have "c div 64 = c div 4096 * 64 + c div 64 mod 64"
    using div_mult_mod_eq [of "c div 64" 64] by (simp add: div_mult2_eq [symmetric])
  with div_mult_mod_eq [of c 64] show ?thesis by linarith
qed

lemma digits4:
  "(c::nat) = c div 262144 * 262144 + c div 4096 mod 64 * 4096 + c div 64 mod 64 * 64 + c mod 64"
proof -
  have "c div 4096 = c div 262144 * 64 + c div 4096 mod 64"
    using div_mult_mod_eq [of "c div 4096" 64] by (simp add: div_mult2_eq [symmetric])
  with digits3 [of c] show ?thesis by linarith
qed

lemma decode_step_2:
  assumes "0x80 \<le> c" "c < 0x800"
  shows "decode_step (map unat (encode_utf8 c) @ rest) = (Some c, 2)"
proof -
  have "c div 64 < 32" "2 \<le> c div 64" using assms by auto
  with assms show ?thesis by (simp add: encode_utf8_def decode_step_def cont_def)
qed

lemma decode_step_3:
  assumes "0x800 \<le> c" "c < 0x10000" "is_scalar c"
  shows "decode_step (map unat (encode_utf8 c) @ rest) = (Some c, 3)"
proof -
  define a b d where "a = c div 4096" and "b = c div 64 mod 64" and "d = c mod 64"
  have c: "c = a * 4096 + b * 64 + d" unfolding a_def b_def d_def by (rule digits3)
  have r: "a < 16" "b < 64" "d < 64" using assms by (auto simp: a_def b_def d_def)
  have lo: "32 \<le> b" if "a = 0" using that c r assms by linarith
  have hi: "b \<le> 31" if "a = 13" using that c r assms by (auto simp: is_scalar_def)
  have e: "map unat (encode_utf8 c) = [0xE0 + a, 0x80 + b, 0x80 + d]"
    using assms r by (simp add: encode_utf8_def a_def b_def d_def)
  show ?thesis unfolding e using lo hi r
    by (simp add: decode_step_def cont_def c)
qed

lemma decode_step_4:
  assumes "0x10000 \<le> c" "c < 0x110000"
  shows "decode_step (map unat (encode_utf8 c) @ rest) = (Some c, 4)"
proof -
  define a b d e where "a = c div 262144" and "b = c div 4096 mod 64"
    and "d = c div 64 mod 64" and "e = c mod 64"
  have c: "c = a * 262144 + b * 4096 + d * 64 + e"
    unfolding a_def b_def d_def e_def by (rule digits4)
  have r: "a < 5" "b < 64" "d < 64" "e < 64" using assms by (auto simp: a_def b_def d_def e_def)
  have lo: "16 \<le> b" if "a = 0" using that c r assms by linarith
  have hi: "b \<le> 15" if "a = 4" using that c r assms by linarith
  have e: "map unat (encode_utf8 c) = [0xF0 + a, 0x80 + b, 0x80 + d, 0x80 + e]"
    using assms r by (simp add: encode_utf8_def a_def b_def d_def e_def)
  show ?thesis unfolding e using lo hi r
    by (simp add: decode_step_def cont_def c)
qed

lemma decode_step_encode:
  assumes "is_scalar c"
  shows "decode_step (map unat (encode_utf8 c) @ rest) = (Some c, len_utf8 c)"
proof -
  consider (ascii) "c < 0x80" | (two) "0x80 \<le> c" "c < 0x800"
    | (three) "0x800 \<le> c" "c < 0x10000" | (four) "0x10000 \<le> c" "c < 0x110000"
    using assms by (force simp: is_scalar_def)
  then show ?thesis
  proof cases
    case ascii then show ?thesis
      by (simp add: encode_utf8_def decode_step_def len_utf8_def)
  qed (simp_all add: decode_step_2 decode_step_3 decode_step_4 assms len_utf8_def)
qed

lemma decode_utf8_as_bytes:
  "list_all is_scalar cs \<Longrightarrow> decode_utf8 (map unat (as_bytes cs)) = map Some cs"
proof (induction cs)
  case (Cons c cs)
  then have c: "is_scalar c" and cs: "list_all is_scalar cs" by simp_all
  let ?e = "map unat (encode_utf8 c)" and ?r = "map unat (as_bytes cs)"
  have len: "length ?e = len_utf8 c" by (simp add: length_encode_utf8)
  obtain b bs where b: "?e @ ?r = b # bs"
    by (cases "?e @ ?r") (use len in \<open>auto simp: len_utf8_def split: if_splits\<close>)
  have "decode_utf8 (?e @ ?r) = Some c # decode_utf8 (drop (len_utf8 c) (?e @ ?r))"
    using decode_step_encode [OF c, of ?r] by (simp add: b)
  then show ?case using Cons.IH [OF cs] len by (simp add: as_bytes_def)
qed (simp add: as_bytes_def)

theorem from_utf8_as_bytes: "list_all is_scalar cs \<Longrightarrow> from_utf8 (as_bytes cs) = Some cs"
  by (simp add: from_utf8_def decode_utf8_as_bytes list_all_iff)

lemma from_utf8_lossy_as_bytes: "list_all is_scalar cs \<Longrightarrow> from_utf8_lossy (as_bytes cs) = cs"
  by (simp add: from_utf8_lossy_def decode_utf8_as_bytes map_idI)

text \<open>ASCII text is its own encoding.\<close>

lemma as_bytes_ascii: "list_all (\<lambda>c. c < 0x80) cs \<Longrightarrow> as_bytes cs = map of_nat cs"
  by (induction cs) (simp_all add: as_bytes_def encode_utf8_def)

lemma ascii_scalar: "list_all (\<lambda>c. c < 0x80) cs \<Longrightarrow> list_all is_scalar cs"
  by (auto simp: list_all_iff is_scalar_def)

lemma len_utf8_pos [simp]: "0 < len_utf8 c"
  by (simp add: len_utf8_def)

subsection \<open>Byte offsets\<close>

lemma byte_len_simps [simp]:
  "byte_len [] = 0" "byte_len (c # cs) = len_utf8 c + byte_len cs"
  "byte_len (s @ t) = byte_len s + byte_len t"
  by (simp_all add: byte_len_def)

lemma byte_len_eq_0 [simp]: "byte_len s = 0 \<longleftrightarrow> s = []"
  by (cases s) (simp_all add: byte_len_def less_imp_neq [symmetric])

lemma length_as_bytes: "length (as_bytes s) = byte_len s"
  by (induction s) (simp_all add: as_bytes_def length_encode_utf8)

lemma split_bytes_at [simp]: "split_bytes (a @ b) (byte_len a) = Some (a, b)"
  by (induction a) (cases b, auto simp: less_imp_neq [symmetric])

lemma split_bytes_0 [simp]: "split_bytes s 0 = Some ([], s)"
  by (cases s) simp_all

lemma split_bytes_snoc [simp]:
  "split_bytes (a @ c # b) (byte_len a + len_utf8 c) = Some (a @ [c], b)"
  using split_bytes_at [of "a @ [c]" b] by simp

lemma split_bytes_Some: "split_bytes s k = Some (a, b) \<longleftrightarrow> s = a @ b \<and> k = byte_len a"
proof
  show "split_bytes s k = Some (a, b) \<Longrightarrow> s = a @ b \<and> k = byte_len a"
    by (induction s k arbitrary: a b rule: split_bytes.induct) (auto split: if_splits)
qed auto

definition char_boundary :: "ustring \<Rightarrow> nat \<Rightarrow> bool" where
  "char_boundary s k \<longleftrightarrow> split_bytes s k \<noteq> None"

lemma char_boundary_iff: "char_boundary s k \<longleftrightarrow> (\<exists>a b. s = a @ b \<and> k = byte_len a)"
  using split_bytes_Some [of s k] by (auto simp: char_boundary_def)

lemma char_boundary_0 [simp]: "char_boundary s 0"
  and char_boundary_end [simp]: "char_boundary s (byte_len s)"
  by (auto simp: char_boundary_iff)

lemma char_boundary_le: "char_boundary s k \<Longrightarrow> k \<le> byte_len s"
  by (auto simp: char_boundary_iff)

end
