(* ===== verification/Text_Field.thy ===== *)
theory Text_Field
  imports Utf8
begin

text \<open>
  The single-line text field (\<open>src/text_edit.rs\<close>) every overlay edits with: its
  text, the byte offset of the cursor and the all-or-nothing selection.  The
  field is refined from a zipper, the characters before and after the cursor:
  each operation on byte offsets computes the zipper operation, so it never
  slices inside a character, and the cursor stays a character boundary.
\<close>

subsection \<open>The field\<close>

record text_field =
  identity :: u64
  tf_text :: ustring
  tf_cursor :: nat
  tf_select_all :: bool

text \<open>\<open>NEXT_FIELD.fetch_add(1)\<close> hands out identities: the counter comes in and goes out.\<close>

definition new_field :: "ustring \<Rightarrow> u64 \<Rightarrow> text_field \<times> u64" where
  "new_field s next_field =
     (\<lparr>identity = next_field, tf_text = s, tf_cursor = byte_len s, tf_select_all = False\<rparr>,
      next_field + 1)"

definition selected_field :: "ustring \<Rightarrow> u64 \<Rightarrow> text_field \<times> u64" where
  "selected_field s next_field =
     (case new_field s next_field of (f, n) \<Rightarrow> (f\<lparr>tf_select_all := True\<rparr>, n))"

definition field_eq :: "text_field \<Rightarrow> text_field \<Rightarrow> bool" where
  "field_eq f g \<longleftrightarrow> tf_text f = tf_text g \<and> tf_cursor f = tf_cursor g
     \<and> tf_select_all f = tf_select_all g"

definition delete_selection :: "text_field \<Rightarrow> bool \<times> text_field" where
  "delete_selection f =
     (if \<not> tf_select_all f then (False, f)
      else (True, f\<lparr>tf_text := [], tf_cursor := 0, tf_select_all := False\<rparr>))"

definition previous_char_boundary :: "ustring \<Rightarrow> nat \<Rightarrow> nat option" where
  "previous_char_boundary s k =
     (case split_bytes s k of None \<Rightarrow> None
      | Some (a, _) \<Rightarrow> Some (if a = [] then 0 else byte_len (butlast a)))"

definition next_char_boundary :: "ustring \<Rightarrow> nat \<Rightarrow> nat option" where
  "next_char_boundary s k =
     (case split_bytes s k of None \<Rightarrow> None
      | Some (_, b) \<Rightarrow> Some (case b of [] \<Rightarrow> byte_len s | c # _ \<Rightarrow> k + len_utf8 c))"

text \<open>\<open>text.replace_range(a..b, "")\<close>.\<close>

definition remove_range :: "ustring \<Rightarrow> nat \<Rightarrow> nat \<Rightarrow> ustring option" where
  "remove_range s a b =
     (if b < a then None
      else case (split_bytes s a, split_bytes s b) of
             (Some (l, _), Some (_, r)) \<Rightarrow> Some (l @ r) | _ \<Rightarrow> None)"

definition insert_text :: "ustring \<Rightarrow> text_field \<Rightarrow> text_field option" where
  "insert_text s f =
     (let f = snd (delete_selection f);
          s = filter (\<lambda>c. c \<noteq> 13 \<and> c \<noteq> 10) s;
          cursor = min (tf_cursor f) (byte_len (tf_text f))
      in case split_bytes (tf_text f) cursor of None \<Rightarrow> None
         | Some (a, b) \<Rightarrow>
             Some (f\<lparr>tf_text := a @ s @ b, tf_cursor := cursor + byte_len s\<rparr>))"

definition backspace :: "text_field \<Rightarrow> text_field option" where
  "backspace f =
     (case delete_selection f of (True, f) \<Rightarrow> Some f
      | (False, f) \<Rightarrow>
          if 0 < tf_cursor f then
            case previous_char_boundary (tf_text f) (tf_cursor f) of None \<Rightarrow> None
            | Some previous \<Rightarrow>
                map_option (\<lambda>t. f\<lparr>tf_text := t, tf_cursor := previous\<rparr>)
                  (remove_range (tf_text f) previous (tf_cursor f))
          else Some f)"

definition delete_forward :: "text_field \<Rightarrow> text_field option" where
  "delete_forward f =
     (case delete_selection f of (True, f) \<Rightarrow> Some f
      | (False, f) \<Rightarrow>
          if tf_cursor f < byte_len (tf_text f) then
            case next_char_boundary (tf_text f) (tf_cursor f) of None \<Rightarrow> None
            | Some nxt \<Rightarrow>
                map_option (\<lambda>t. f\<lparr>tf_text := t\<rparr>) (remove_range (tf_text f) (tf_cursor f) nxt)
          else Some f)"

definition move_left :: "text_field \<Rightarrow> text_field option" where
  "move_left f =
     map_option (\<lambda>k. f\<lparr>tf_cursor := k, tf_select_all := False\<rparr>)
       (if tf_select_all f then Some 0 else previous_char_boundary (tf_text f) (tf_cursor f))"

definition move_right :: "text_field \<Rightarrow> text_field option" where
  "move_right f =
     map_option (\<lambda>k. f\<lparr>tf_cursor := k, tf_select_all := False\<rparr>)
       (if tf_select_all f then Some (byte_len (tf_text f))
        else next_char_boundary (tf_text f) (tf_cursor f))"

definition move_to_start :: "text_field \<Rightarrow> text_field" where
  "move_to_start f = f\<lparr>tf_cursor := 0, tf_select_all := False\<rparr>"

definition move_to_end :: "text_field \<Rightarrow> text_field" where
  "move_to_end f = f\<lparr>tf_cursor := byte_len (tf_text f), tf_select_all := False\<rparr>"

definition select_all :: "text_field \<Rightarrow> text_field" where
  "select_all f = f\<lparr>tf_select_all := (tf_text f \<noteq> [])\<rparr>"

definition selected_text :: "text_field \<Rightarrow> ustring option" where
  "selected_text f = (if tf_text f \<noteq> [] then Some (tf_text f) else None)"

definition split_at_cursor :: "text_field \<Rightarrow> (ustring \<times> ustring) option" where
  "split_at_cursor f = split_bytes (tf_text f) (min (tf_cursor f) (byte_len (tf_text f)))"

subsection \<open>Keys\<close>

record modifiers =
  m_control :: bool
  m_alt :: bool
  m_shift :: bool
  m_platform :: bool
  m_function :: bool

record keystroke =
  modifiers :: modifiers
  key :: ustring
  key_char :: "ustring option"

definition command :: "keystroke \<Rightarrow> bool" where
  "command k \<longleftrightarrow> m_control (modifiers k) \<or> m_platform (modifiers k)"

definition eq_ignore_ascii_case :: "ustring \<Rightarrow> ustring \<Rightarrow> bool" where
  "eq_ignore_ascii_case s t \<longleftrightarrow> to_ascii_lowercase s = to_ascii_lowercase t"

definition is_copy_chord :: "keystroke \<Rightarrow> bool" where
  "is_copy_chord k \<longleftrightarrow>
     command k \<and> (eq_ignore_ascii_case (key k) (lit ''c'') \<or> key k = lit ''insert'')"

definition is_cut_chord :: "keystroke \<Rightarrow> bool" where
  "is_cut_chord k \<longleftrightarrow>
     m_control (modifiers k) \<and> \<not> m_shift (modifiers k) \<and> eq_ignore_ascii_case (key k) (lit ''x'')
     \<or> m_shift (modifiers k) \<and> key k = lit ''delete''"

definition is_paste_chord :: "keystroke \<Rightarrow> bool" where
  "is_paste_chord k \<longleftrightarrow>
     command k \<and> eq_ignore_ascii_case (key k) (lit ''v'')
     \<or> m_shift (modifiers k) \<and> key k = lit ''insert''"

datatype clipboard_outcome = ClipIgnored | ClipUnchanged | ClipEdited

text \<open>
  The clipboard is outside the crate: \<open>paste\<close> is what \<open>resolved_text\<close> would
  return, and the second component of the result is the text written to the
  clipboard, if the shortcut writes one.
\<close>

definition apply_clipboard_shortcut ::
    "ustring option \<Rightarrow> text_field \<Rightarrow> keystroke
     \<Rightarrow> (text_field \<times> ustring option \<times> clipboard_outcome) option" where
  "apply_clipboard_shortcut paste f k =
     (if is_copy_chord k then
        (case selected_text f of None \<Rightarrow> Some (f, None, ClipUnchanged)
         | Some t \<Rightarrow> Some (f, Some t, ClipUnchanged))
      else if is_cut_chord k then
        (case selected_text f of None \<Rightarrow> Some (f, None, ClipUnchanged)
         | Some t \<Rightarrow> map_option (\<lambda>f. (f, Some t, ClipEdited)) (insert_text [] (select_all f)))
      else if is_paste_chord k then
        (case paste of None \<Rightarrow> Some (f, None, ClipUnchanged)
         | Some t \<Rightarrow>
             if t = [] then Some (f, None, ClipUnchanged)
             else map_option (\<lambda>f. (f, None, ClipEdited)) (insert_text t f))
      else Some (f, None, ClipIgnored))"

datatype text_field_edit = EditIgnored | CursorMoved | Edited

definition apply_text_field_key ::
    "text_field \<Rightarrow> keystroke \<Rightarrow> (text_field \<times> text_field_edit) option" where
  "apply_text_field_key f k =
     (if key k = lit ''backspace'' then map_option (\<lambda>f. (f, Edited)) (backspace f)
      else if key k = lit ''delete'' then map_option (\<lambda>f. (f, Edited)) (delete_forward f)
      else if key k = lit ''left'' then map_option (\<lambda>f. (f, CursorMoved)) (move_left f)
      else if key k = lit ''right'' then map_option (\<lambda>f. (f, CursorMoved)) (move_right f)
      else if key k = lit ''home'' then Some (move_to_start f, CursorMoved)
      else if key k = lit ''end'' then Some (move_to_end f, CursorMoved)
      else if command k \<and> eq_ignore_ascii_case (key k) (lit ''a'')
        then Some (select_all f, CursorMoved)
      else (let unmodified = \<not> command k \<and> \<not> m_alt (modifiers k)
            in case (if unmodified then key_char k else None) of
                 Some t \<Rightarrow> map_option (\<lambda>f. (f, Edited)) (insert_text t f)
               | None \<Rightarrow> Some (f, EditIgnored)))"

subsection \<open>The zipper it implements\<close>

type_synonym zipper = "ustring \<times> ustring \<times> bool"

definition conc :: "u64 \<Rightarrow> zipper \<Rightarrow> text_field" where
  "conc i z = (case z of (l, r, sel) \<Rightarrow>
     \<lparr>identity = i, tf_text = l @ r, tf_cursor = byte_len l, tf_select_all = sel\<rparr>)"

definition field_ok :: "text_field \<Rightarrow> bool" where
  "field_ok f \<longleftrightarrow> char_boundary (tf_text f) (tf_cursor f)"

fun z_insert :: "ustring \<Rightarrow> zipper \<Rightarrow> zipper" where
  "z_insert s (l, r, sel) =
     (let s = filter (\<lambda>c. c \<noteq> 13 \<and> c \<noteq> 10) s
      in if sel then (s, [], False) else (l @ s, r, False))"

fun z_backspace :: "zipper \<Rightarrow> zipper" where
  "z_backspace (l, r, sel) = (if sel then ([], [], False) else (butlast l, r, False))"

fun z_delete :: "zipper \<Rightarrow> zipper" where
  "z_delete (l, r, sel) = (if sel then ([], [], False) else (l, tl r, False))"

fun z_left :: "zipper \<Rightarrow> zipper" where
  "z_left (l, r, sel) =
     (if sel then ([], l @ r, False)
      else if l = [] then ([], r, False) else (butlast l, last l # r, False))"

fun z_right :: "zipper \<Rightarrow> zipper" where
  "z_right (l, r, sel) =
     (if sel then (l @ r, [], False)
      else case r of [] \<Rightarrow> (l, [], False) | c # cs \<Rightarrow> (l @ [c], cs, False))"

fun z_start :: "zipper \<Rightarrow> zipper" where "z_start (l, r, sel) = ([], l @ r, False)"
fun z_end :: "zipper \<Rightarrow> zipper" where "z_end (l, r, sel) = (l @ r, [], False)"
fun z_select :: "zipper \<Rightarrow> zipper" where "z_select (l, r, sel) = (l, r, l @ r \<noteq> [])"

lemma field_ok_conc: "field_ok (conc i z)"
  by (auto simp: field_ok_def conc_def char_boundary_iff split: prod.splits)

lemma identity_conc [simp]: "identity (conc i z) = i"
  by (simp add: conc_def split: prod.splits)

lemma field_ok_iff: "field_ok f \<longleftrightarrow> (\<exists>l r. f = conc (identity f) (l, r, tf_select_all f))"
  by (cases f) (auto simp: field_ok_def conc_def char_boundary_iff)

locale zipper_refinement =
  fixes step :: "text_field \<Rightarrow> text_field option"
    and z_step :: "zipper \<Rightarrow> zipper"
  assumes refines: "step (conc i z) = Some (conc i (z_step z))"
begin

lemma keeps_ok:
  assumes "field_ok f"
  shows "\<exists>f'. step f = Some f' \<and> field_ok f' \<and> identity f' = identity f"
proof -
  obtain l r where f: "f = conc (identity f) (l, r, tf_select_all f)"
    using assms by (auto simp: field_ok_iff)
  have "step f = Some (conc (identity f) (z_step (l, r, tf_select_all f)))"
    by (subst f) (simp add: refines)
  then show ?thesis by (simp add: field_ok_conc)
qed

end

lemma remove_left: "remove_range (a @ b @ c) (byte_len a) (byte_len a + byte_len b) = Some (a @ c)"
  using split_bytes_at [of "a @ b" c] by (simp add: remove_range_def)

lemmas field_defs = conc_def delete_selection_def previous_char_boundary_def
  next_char_boundary_def

interpretation inserting: zipper_refinement "insert_text s" "z_insert s"
  by unfold_locales (auto simp: insert_text_def field_defs Let_def split: prod.splits)

interpretation backspacing: zipper_refinement backspace z_backspace
proof
  fix i and z :: zipper
  obtain l r sel where z: "z = (l, r, sel)" by (cases z)
  show "backspace (conc i z) = Some (conc i (z_backspace z))"
  proof (cases "l = [] \<or> sel")
    case False
    then obtain l' c where "l = l' @ [c]" by (meson rev_exhaust)
    with False remove_left [of l' "[c]" r] show ?thesis
      by (simp add: z backspace_def field_defs)
  qed (auto simp: z backspace_def field_defs)
qed

interpretation deleting: zipper_refinement delete_forward z_delete
proof
  fix i and z :: zipper
  obtain l r sel where z: "z = (l, r, sel)" by (cases z)
  show "delete_forward (conc i z) = Some (conc i (z_delete z))"
  proof (cases r)
    case (Cons c cs)
    with remove_left [of l "[c]" cs] show ?thesis
      by (auto simp: z delete_forward_def field_defs)
  qed (auto simp: z delete_forward_def field_defs)
qed

interpretation moving_left: zipper_refinement move_left z_left
proof
  fix i and z :: zipper
  obtain l r sel where z: "z = (l, r, sel)" by (cases z)
  show "move_left (conc i z) = Some (conc i (z_left z))"
    by (cases l rule: rev_exhaust) (auto simp: z move_left_def field_defs)
qed

interpretation moving_right: zipper_refinement move_right z_right
  by unfold_locales
    (auto simp: move_right_def field_defs split: prod.splits list.splits)

interpretation moving_to_start: zipper_refinement "Some \<circ> move_to_start" z_start
  by unfold_locales (auto simp: move_to_start_def conc_def split: prod.splits)

interpretation moving_to_end: zipper_refinement "Some \<circ> move_to_end" z_end
  by unfold_locales (auto simp: move_to_end_def conc_def split: prod.splits)

interpretation selecting: zipper_refinement "Some \<circ> select_all" z_select
  by unfold_locales (auto simp: select_all_def conc_def split: prod.splits)

subsection \<open>Whole keystrokes\<close>

definition z_key :: "zipper \<Rightarrow> keystroke \<Rightarrow> zipper" where
  "z_key z k =
     (if key k = lit ''backspace'' then z_backspace z
      else if key k = lit ''delete'' then z_delete z
      else if key k = lit ''left'' then z_left z
      else if key k = lit ''right'' then z_right z
      else if key k = lit ''home'' then z_start z
      else if key k = lit ''end'' then z_end z
      else if command k \<and> eq_ignore_ascii_case (key k) (lit ''a'') then z_select z
      else if command k \<or> m_alt (modifiers k) then z
      else case key_char k of Some t \<Rightarrow> z_insert t z | None \<Rightarrow> z)"

lemmas total_ops [simp] = moving_to_start.refines [unfolded comp_apply option.inject]
  moving_to_end.refines [unfolded comp_apply option.inject]
  selecting.refines [unfolded comp_apply option.inject]

lemmas refines = inserting.refines backspacing.refines deleting.refines
  moving_left.refines moving_right.refines

lemma apply_key_refines:
  "\<exists>e. apply_text_field_key (conc i z) k = Some (conc i (z_key z k), e)"
  by (simp add: apply_text_field_key_def z_key_def refines Let_def split: option.splits)

text \<open>A run of keystrokes, each applied to the field the previous one left.\<close>

fun type_keys :: "text_field \<Rightarrow> keystroke list \<Rightarrow> text_field option" where
  "type_keys f [] = Some f"
| "type_keys f (k # ks) =
     (case apply_text_field_key f k of None \<Rightarrow> None | Some (f, _) \<Rightarrow> type_keys f ks)"

lemma type_keys_refines: "type_keys (conc i z) ks = Some (conc i (foldl z_key z ks))"
proof (induction ks arbitrary: z)
  case (Cons k ks)
  obtain e where "apply_text_field_key (conc i z) k = Some (conc i (z_key z k), e)"
    using apply_key_refines by blast
  then show ?case by (simp add: Cons.IH)
qed simp

text \<open>An outcome other than \<open>Edited\<close> leaves the text alone.\<close>

lemma apply_key_unedited:
  assumes "apply_text_field_key f k = Some (f', e)" "e \<noteq> Edited"
  shows "tf_text f' = tf_text f"
  using assms
  by (auto simp: apply_text_field_key_def move_left_def move_right_def move_to_start_def
      move_to_end_def select_all_def Let_def split: if_splits option.splits)

definition z_clipboard :: "ustring option \<Rightarrow> zipper \<Rightarrow> keystroke \<Rightarrow> zipper" where
  "z_clipboard paste z k =
     (if is_copy_chord k then z
      else if is_cut_chord k then (if fst z @ fst (snd z) = [] then z else ([], [], False))
      else if is_paste_chord k then
        (case paste of None \<Rightarrow> z | Some t \<Rightarrow> if t = [] then z else z_insert t z)
      else z)"

lemma selected_text_conc: "selected_text (conc i (l, r, sel)) = (if l @ r = [] then None else Some (l @ r))"
  by (simp add: selected_text_def conc_def)

text \<open>Cutting writes the whole text to the clipboard and leaves the field empty.\<close>

lemma cut_writes_text:
  assumes "is_cut_chord k" "\<not> is_copy_chord k" "l @ r \<noteq> []"
  shows "apply_clipboard_shortcut paste (conc i (l, r, sel)) k =
    Some (conc i ([], [], False), Some (l @ r), ClipEdited)"
  using assms
  by (simp add: apply_clipboard_shortcut_def refines selected_text_conc)

lemma clipboard_refines:
  "\<exists>w e. apply_clipboard_shortcut paste (conc i z) k = Some (conc i (z_clipboard paste z k), w, e)"
proof (cases "is_cut_chord k \<and> \<not> is_copy_chord k")
  case True
  obtain l r sel where z: "z = (l, r, sel)" by (cases z)
  from True show ?thesis
    by (cases "l @ r = []")
      (auto simp: z cut_writes_text z_clipboard_def apply_clipboard_shortcut_def selected_text_conc
        refines)
next
  case False
  then show ?thesis
    by (auto simp: apply_clipboard_shortcut_def z_clipboard_def refines
        split: option.split if_splits)
qed

lemma paste_inserts:
  assumes "is_paste_chord k" "\<not> is_copy_chord k" "\<not> is_cut_chord k" "t \<noteq> []"
  shows "apply_clipboard_shortcut (Some t) (conc i z) k = Some (conc i (z_insert t z), None, ClipEdited)"
  using assms by (simp add: apply_clipboard_shortcut_def refines)

section \<open>Properties of the text field\<close>

text \<open>
  C38.  Any run of keystrokes on a field is the same run on the zipper: the byte
  arithmetic never slices inside a character or past the end, so the editor
  does not panic, and the field's identity is kept.
\<close>

theorem typing_refines_zipper:
  "type_keys (conc i z) ks = Some (conc i (foldl z_key z ks))"
  by (rule type_keys_refines)

text \<open>
  On any field whose cursor is at a character boundary, every key and every
  clipboard shortcut returns a field with its cursor at a character boundary and
  the same identity, and a key that reports anything but an edit left the text
  unchanged.
\<close>

theorem keys_keep_cursor_on_boundary:
  assumes "field_ok f"
  shows "\<exists>f' e f'' w o'. apply_text_field_key f k = Some (f', e) \<and>
    field_ok f' \<and> identity f' = identity f \<and> (e = Edited \<or> tf_text f' = tf_text f) \<and>
    apply_clipboard_shortcut paste f k = Some (f'', w, o') \<and>
    field_ok f'' \<and> identity f'' = identity f"
proof -
  obtain l r where f: "f = conc (identity f) (l, r, tf_select_all f)"
    using assms by (auto simp: field_ok_iff)
  let ?z = "(l, r, tf_select_all f)"
  obtain e where e: "apply_text_field_key f k = Some (conc (identity f) (z_key ?z k), e)"
    using apply_key_refines [of "identity f" ?z k] f by auto
  obtain w o' where c: "apply_clipboard_shortcut paste f k =
      Some (conc (identity f) (z_clipboard paste ?z k), w, o')"
    using clipboard_refines [of paste "identity f" ?z k] f by auto
  show ?thesis using e c apply_key_unedited [OF e] by (metis field_ok_conc identity_conc)
qed

theorem keys_keep_cursor_on_boundary_witness:
  "\<exists>f' e. apply_text_field_key (fst (new_field [233, 97] 1))
      \<lparr>modifiers = \<lparr>m_control = False, m_alt = False, m_shift = False, m_platform = False,
         m_function = False\<rparr>, key = lit ''left'', key_char = None\<rparr> = Some (f', e) \<and> field_ok f'"
proof -
  have "field_ok (fst (new_field [233, 97] 1))"
    by (simp add: field_ok_def new_field_def char_boundary_def len_utf8_def)
  from keys_keep_cursor_on_boundary [OF this] show ?thesis by blast
qed

text \<open>
  Cutting and pasting back is the identity on the text: the cut writes the
  whole text, leaves the field empty, and pasting what it wrote gives the text
  again, with the cursor at its end, for text without line breaks.
\<close>

theorem cut_then_paste:
  assumes "is_cut_chord k" "\<not> is_copy_chord k" "l @ r \<noteq> []"
    and "is_paste_chord k'" "\<not> is_copy_chord k'" "\<not> is_cut_chord k'"
    and "10 \<notin> set (l @ r)" "13 \<notin> set (l @ r)"
  shows "\<exists>f. apply_clipboard_shortcut paste (conc i (l, r, sel)) k = Some (f, Some (l @ r), ClipEdited) \<and>
    tf_text f = [] \<and>
    apply_clipboard_shortcut (Some (l @ r)) f k' = Some (conc i (l @ r, [], False), None, ClipEdited)"
proof -
  have "filter (\<lambda>c. c \<noteq> 13 \<and> c \<noteq> 10) (l @ r) = l @ r"
    using assms(7,8) by (intro filter_True) auto
  then have "z_insert (l @ r) ([], [], False) = (l @ r, [], False)" by (simp add: Let_def)
  then have "apply_clipboard_shortcut (Some (l @ r)) (conc i ([], [], False)) k' =
      Some (conc i (l @ r, [], False), None, ClipEdited)"
    using paste_inserts [OF assms(4-6,3), of i "([], [], False)"] by simp
  moreover have "tf_text (conc i ([], [], False)) = []" by (simp add: conc_def)
  ultimately show ?thesis using cut_writes_text [OF assms(1-3)] by blast
qed

theorem cut_then_paste_witness:
  "\<exists>k k' f. apply_clipboard_shortcut None (conc 7 ([97], [98], False)) k = Some (f, Some [97, 98], ClipEdited) \<and>
    apply_clipboard_shortcut (Some [97, 98]) f k' = Some (conc 7 ([97, 98], [], False), None, ClipEdited)"
proof -
  let ?k = "\<lambda>c. \<lparr>modifiers = \<lparr>m_control = True, m_alt = False, m_shift = False, m_platform = False,
         m_function = False\<rparr>, key = lit c, key_char = None\<rparr>"
  have "is_cut_chord (?k ''x'')" "\<not> is_copy_chord (?k ''x'')" "is_paste_chord (?k ''v'')"
    "\<not> is_copy_chord (?k ''v'')" "\<not> is_cut_chord (?k ''v'')" by code_simp+
  from cut_then_paste [OF this(1,2) _ this(3-5), of "[97]" "[98]" None 7 False]
  show ?thesis by auto
qed

end
