(* ===== verification/Fuzzy_Match.thy ===== *)
theory Fuzzy_Match
  imports Utf8 "HOL-Library.Sublist"
begin

text \<open>
  The fuzzy matcher of the palette and the dropdowns (\<open>src/fuzzy_match.rs\<close>).
  Its greedy walk finds a match exactly when the query is a subsequence of the
  candidate, and the ranges it reports spell the query.
\<close>

type_synonym range = "nat \<times> nat"

definition word_separator :: "scalar \<Rightarrow> bool" where
  "word_separator c \<longleftrightarrow> c \<in> {32, 58, 95, 45}"

text \<open>
  The loop over \<open>candidate.char_indices()\<close>: \<open>seen\<close> is \<open>candidate[..index]\<close>, the
  reported ranges come back in the order the callback sees them.  \<open>score\<close> is an
  \<open>i32\<close>, and the length is cast to one before it is divided.
\<close>

definition char_points :: "ustring \<Rightarrow> scalar \<Rightarrow> nat option \<Rightarrow> int" where
  "char_points seen c previous =
     (let index = byte_len seen
      in 10 + (if previous \<noteq> None \<and> the previous + len_utf8 c = index then 8 else 0)
            + (if index = 0 \<or> seen \<noteq> [] \<and> word_separator (last seen) then 5 else 0))"

definition i32_div8 :: "int \<Rightarrow> int" where
  "i32_div8 x = (if x < 0 then - (- x div 8) else x div 8)"

fun walk_loop :: "ustring \<Rightarrow> ustring \<Rightarrow> scalar \<Rightarrow> ustring \<Rightarrow> int \<Rightarrow> nat option
    \<Rightarrow> int option \<times> range list" where
  "walk_loop seen [] wanted more score previous = (None, [])"
| "walk_loop seen (c # rest) wanted more score previous =
     (if c \<noteq> wanted then walk_loop (seen @ [c]) rest wanted more score previous
      else
        let index = byte_len seen;
            score = wrap_i32 (score + char_points seen c previous);
            matched = (index, index + len_utf8 c)
        in case more of
             [] \<Rightarrow> (Some (wrap_i32 (score
                     - i32_div8 (wrap_i32 (int (byte_len (seen @ c # rest)))))), [matched])
           | nxt # more' \<Rightarrow>
               (case walk_loop (seen @ [c]) rest nxt more' score (Some index) of
                  (r, ranges) \<Rightarrow> (r, matched # ranges)))"

definition walk :: "ustring \<Rightarrow> ustring \<Rightarrow> int option \<times> range list" where
  "walk candidate query =
     (case query of [] \<Rightarrow> (Some 0, [])
      | wanted # more \<Rightarrow> walk_loop [] candidate wanted more 0 None)"

definition score :: "ustring \<Rightarrow> ustring \<Rightarrow> int option" where
  "score candidate query = fst (walk candidate query)"

text \<open>
  \<open>str::to_lowercase\<close> and \<open>str::trim\<close> follow the Unicode tables; both are
  parameters, \<open>lower\<close> and \<open>trim\<close>.
\<close>

definition score_ignoring_case :: "(ustring \<Rightarrow> ustring) \<Rightarrow> ustring \<Rightarrow> ustring \<Rightarrow> int option" where
  "score_ignoring_case lower candidate query = score (lower candidate) (lower query)"

fun merge_range :: "range list \<Rightarrow> range \<Rightarrow> range list" where
  "merge_range ranges (s, e) =
     (if ranges \<noteq> [] \<and> snd (last ranges) = s
      then butlast ranges @ [(fst (last ranges), e)] else ranges @ [(s, e)])"

definition matched_ranges ::
    "(ustring \<Rightarrow> ustring) \<Rightarrow> (ustring \<Rightarrow> ustring) \<Rightarrow> ustring \<Rightarrow> ustring \<Rightarrow> range list" where
  "matched_ranges lower trim candidate query =
     (let low = lower candidate; query = lower (trim query)
      in if query = [] \<or> byte_len low \<noteq> byte_len candidate then []
         else case walk low query of (matched, reported) \<Rightarrow>
           let ranges = foldl merge_range [] reported
           in if matched = None \<or> list_ex (\<lambda>r. \<not> char_boundary candidate (snd r)) ranges
              then [] else ranges)"

subsection \<open>A match is a subsequence\<close>

lemma walk_loop_None_iff:
  "fst (walk_loop seen rest wanted more sc prev) = None \<longleftrightarrow> \<not> subseq (wanted # more) rest"
proof (induction rest arbitrary: seen wanted more sc prev)
  case (Cons c rest)
  show ?case
  proof (cases more)
    case Nil
    then show ?thesis using Cons.IH by (simp add: Let_def)
  next
    case (Cons nxt more')
    then show ?thesis using Cons.IH
      by (simp add: Let_def case_prod_unfold)
  qed
qed simp

lemma score_None_iff: "score candidate query = None \<longleftrightarrow> \<not> subseq query candidate"
  by (cases query) (simp_all add: score_def walk_def walk_loop_None_iff)

subsection \<open>The ranges spell the query\<close>

text \<open>
  Ranges are in order and do not overlap; \<open>spells s rs q\<close>: every range slices \<open>s\<close>
  at character boundaries, and the slices in order give \<open>q\<close>.
\<close>

definition slice :: "ustring \<Rightarrow> range \<Rightarrow> ustring option" where
  "slice s r = (if fst r \<le> snd r then
     (case split_bytes s (snd r) of None \<Rightarrow> None
      | Some (a, _) \<Rightarrow> map_option snd (split_bytes a (fst r))) else None)"

definition in_order :: "range list \<Rightarrow> bool" where
  "in_order rs \<longleftrightarrow> sorted_wrt (\<lambda>r t. snd r \<le> fst t) rs \<and> (\<forall>r\<in>set rs. fst r < snd r)"

definition apart :: "range list \<Rightarrow> bool" where
  "apart rs \<longleftrightarrow> sorted_wrt (\<lambda>r t. snd r < fst t) rs \<and> (\<forall>r\<in>set rs. fst r < snd r)"

definition spells :: "ustring \<Rightarrow> range list \<Rightarrow> ustring \<Rightarrow> bool" where
  "spells s rs q \<longleftrightarrow> (\<forall>r\<in>set rs. slice s r \<noteq> None) \<and> concat (map (the \<circ> slice s) rs) = q"

lemma split_bytes_at2: "split_bytes (a @ m @ b) (byte_len a + byte_len m) = Some (a @ m, b)"
  using split_bytes_at [of "a @ m" b] by simp

lemma slice_Some: "slice s (i, j) = Some m \<longleftrightarrow>
    (\<exists>a b. s = a @ m @ b \<and> i = byte_len a \<and> j = byte_len a + byte_len m)"
proof
  assume "slice s (i, j) = Some m"
  then obtain a b a' where "split_bytes s j = Some (a, b)" "split_bytes a i = Some (a', m)"
    by (auto simp: slice_def split: option.splits if_splits)
  then show "\<exists>a b. s = a @ m @ b \<and> i = byte_len a \<and> j = byte_len a + byte_len m"
    by (auto simp: split_bytes_Some)
next
  assume "\<exists>a b. s = a @ m @ b \<and> i = byte_len a \<and> j = byte_len a + byte_len m"
  then show "slice s (i, j) = Some m" by (auto simp: slice_def split_bytes_at2)
qed

lemma slice_char: "slice (a @ c # b) (byte_len a, byte_len a + len_utf8 c) = Some [c]"
  unfolding slice_Some by (intro exI [of _ a] exI [of _ b]) simp

lemma slice_join:
  assumes "slice s (i, j) = Some m" "slice s (j, k) = Some n"
  shows "slice s (i, k) = Some (m @ n)"
proof -
  obtain a b where 1: "s = a @ m @ b" "i = byte_len a" "j = byte_len a + byte_len m"
    using assms(1) by (auto simp: slice_Some)
  obtain a' b' where 2: "s = a' @ n @ b'" "j = byte_len a'" "k = byte_len a' + byte_len n"
    using assms(2) by (auto simp: slice_Some)
  have "split_bytes s j = Some (a @ m, b)" unfolding 1 by (rule split_bytes_at2)
  moreover have "split_bytes s j = Some (a', n @ b')" unfolding 2 by simp
  ultimately have "a' = a @ m" by simp
  with 1 2 show ?thesis unfolding slice_Some by (intro exI [of _ a] exI [of _ b']) simp
qed

lemma walk_loop_ranges:
  assumes "walk_loop seen rest wanted more sc prev = (Some v, rs)"
  shows "in_order rs \<and> (\<forall>r\<in>set rs. byte_len seen \<le> fst r) \<and> spells (seen @ rest) rs (wanted # more)"
  using assms
proof (induction rest arbitrary: seen wanted more sc prev rs)
  case (Cons c rest)
  show ?case
  proof (cases "c = wanted")
    case False
    then have "walk_loop (seen @ [c]) rest wanted more sc prev = (Some v, rs)"
      using Cons.prems by simp
    from Cons.IH [OF this] show ?thesis by auto
  next
    case True
    show ?thesis
    proof (cases more)
      case Nil
      then show ?thesis using Cons.prems True
        by (auto simp: Let_def in_order_def spells_def slice_char)
    next
      case (Cons nxt more')
      with Cons.prems True obtain sc' rs' where
        "walk_loop (seen @ [c]) rest nxt more' sc' (Some (byte_len seen)) = (Some v, rs')"
        and rs: "rs = (byte_len seen, byte_len seen + len_utf8 c) # rs'"
        by (auto simp: Let_def split: prod.splits)
      from Cons.IH [OF this(1)] rs Cons True show ?thesis
        by (auto simp: in_order_def spells_def slice_char)
    qed
  qed
qed simp

text \<open>Merging adjacent ranges keeps what they spell and leaves them apart.\<close>

lemma merge_ranges:
  assumes "apart acc" "in_order rs" "\<forall>r\<in>set acc. \<forall>t\<in>set rs. snd r \<le> fst t"
    and "spells s acc p" "spells s rs q"
  shows "apart (foldl merge_range acc rs) \<and> spells s (foldl merge_range acc rs) (p @ q)"
  using assms
proof (induction rs arbitrary: acc p q)
  case Nil
  then show ?case by (simp add: spells_def)
next
  case (Cons t rs)
  obtain i j where t: "t = (i, j)" by (cases t)
  obtain m q' where m: "slice s (i, j) = Some m" "q = m @ q'" "spells s rs q'"
    using Cons.prems t by (auto simp: spells_def)
  have rest: "in_order rs" "i < j" "\<forall>r\<in>set rs. j \<le> fst r"
    using Cons.prems t by (auto simp: in_order_def)
  have "apart (merge_range acc t) \<and> spells s (merge_range acc t) (p @ m) \<and>
    (\<forall>r\<in>set (merge_range acc t). \<forall>u\<in>set rs. snd r \<le> fst u)"
  proof (cases "acc \<noteq> [] \<and> snd (last acc) = i")
    case True
    then obtain init a where acc: "acc = init @ [(a, i)]"
      by (metis append_butlast_last_id prod.collapse)
    obtain n where n: "slice s (a, i) = Some n" using Cons.prems acc by (auto simp: spells_def)
    show ?thesis using Cons.prems rest m acc t n slice_join [OF n m(1)]
      by (auto simp: apart_def spells_def sorted_wrt_append)
  next
    case False
    have "snd r < i" if "r \<in> set acc" for r
    proof (cases "r = last acc")
      case True
      then show ?thesis using False that Cons.prems(3) t by (cases acc) force+
    next
      case False': False
      then have "r \<in> set (butlast acc)" using that by (metis in_set_butlast_appendI
        append_butlast_last_id insert_iff list.set(2) empty_iff list.set(1) UnE set_append)
      then have "snd r < fst (last acc)" "fst (last acc) < snd (last acc)"
        using Cons.prems(1) that
        by (cases acc rule: rev_exhaust; auto simp: apart_def sorted_wrt_append)+
      then show ?thesis using Cons.prems(3) t that by (cases acc rule: rev_exhaust) force+
    qed
    then show ?thesis using False Cons.prems rest m t
      by (auto simp: apart_def spells_def sorted_wrt_append)
  qed
  then show ?case using Cons.IH [of "merge_range acc t" "p @ m" q'] rest m by simp
qed

lemma matched_ranges_spell:
  assumes "matched_ranges lower trim candidate query = rs" "rs \<noteq> []"
  shows "apart rs" "spells (lower candidate) rs (lower (trim query))"
proof -
  let ?q = "lower (trim query)" and ?low = "lower candidate"
  from assms obtain v reported where w: "walk ?low ?q = (Some v, reported)"
    and rs: "rs = foldl merge_range [] reported" and q: "?q \<noteq> []"
    by (auto simp: matched_ranges_def Let_def split: prod.splits if_splits)
  obtain w more where "?q = w # more" using q by (cases ?q) auto
  with walk_loop_ranges [of "[]" ?low w more 0 None v reported] w
  have "in_order reported" "spells ?low reported ?q" by (simp_all add: walk_def)
  with merge_ranges [of "[]" reported ?low "[]" ?q] rs
  show "apart rs" "spells ?low rs ?q" by (simp_all add: apart_def spells_def)
qed

section \<open>Properties of the matcher\<close>

text \<open>
  A candidate matches exactly when the query is a subsequence of it: taking
  the first occurrence of each wanted character never misses a match.
\<close>

theorem matches_iff_subsequence: "score candidate query = None \<longleftrightarrow> \<not> subseq query candidate"
  by (rule score_None_iff)

text \<open>
  The highlighted ranges never overlap or touch, are in order, and the text
  of the lowercased candidate under them spells the lowercased query.
\<close>

theorem highlights_spell_query:
  assumes "matched_ranges lower trim candidate query \<noteq> []"
  shows "apart (matched_ranges lower trim candidate query) \<and>
    spells (lower candidate) (matched_ranges lower trim candidate query) (lower (trim query))"
  using matched_ranges_spell [OF refl assms] by blast

theorem highlights_spell_query_witness:
  "matched_ranges to_ascii_lowercase id (lit ''New Tab'') (lit ''nt'') = [(0, 1), (4, 5)] \<and>
   spells (lit ''new tab'') [(0, 1), (4, 5)] (lit ''nt'')"
proof -
  have m: "matched_ranges to_ascii_lowercase id (lit ''New Tab'') (lit ''nt'') = [(0, 1), (4, 5)]"
    and "to_ascii_lowercase (lit ''New Tab'') = lit ''new tab''"
      "to_ascii_lowercase (id (lit ''nt'')) = lit ''nt''"
    by code_simp+
  with highlights_spell_query [of to_ascii_lowercase id "lit ''New Tab''" "lit ''nt''"]
  show ?thesis by simp
qed

text \<open>
  Only the end of a range is checked against the original text, so a range
  can start inside a character: the lowercase of \<open>U+0130 U+1E9E\<close> has the same
  five bytes differently divided, and the range 3..5 of its last character
  starts inside the three bytes of \<open>U+1E9E\<close>.
\<close>

definition lower_sample :: "ustring \<Rightarrow> ustring" where
  "lower_sample s = concat (map (\<lambda>c. if c = 0x130 then [0x69, 0x307]
     else if c = 0x1E9E then [0xDF] else [c]) s)"

theorem highlight_can_start_inside_character:
  "matched_ranges lower_sample id [0x130, 0x1E9E] [0xDF] = [(3, 5)] \<and>
   \<not> char_boundary [0x130, 0x1E9E] 3"
  by (simp add: matched_ranges_def lower_sample_def walk_def Let_def len_utf8_def char_boundary_def)

text \<open>
  The bonus for consecutive characters compares with the width of the
  current character instead of the previous one, so a run that mixes widths
  loses it: two consecutive matches score 33 in ASCII and 25 after \<open>U+00E9\<close>.
\<close>

theorem run_bonus_depends_on_width:
  "score (lit ''ea'') (lit ''ea'') = Some 33 \<and> score [0xE9, 97] [0xE9, 97] = Some 25"
  by code_simp

end
