(* ===== verification/Decimal.thy ===== *)
theory Decimal
  imports Utf8
begin

text \<open>
  Decimal numbers in text: \<open>format!("{n}")\<close> and \<open>str::parse\<close> for the unsigned
  types, which takes an optional plus sign and fails on an empty string, on any
  other character and on overflow.
\<close>

fun show_nat :: "nat \<Rightarrow> ustring" where
  "show_nat n = (if n < 10 then [48 + n] else show_nat (n div 10) @ [48 + n mod 10])"

declare show_nat.simps [simp del]

definition is_digit :: "scalar \<Rightarrow> bool" where
  "is_digit c \<longleftrightarrow> 48 \<le> c \<and> c \<le> 57"

definition digits_value :: "ustring \<Rightarrow> nat" where
  "digits_value ds = foldl (\<lambda>v c. 10 * v + (c - 48)) 0 ds"

text \<open>The bound is \<open>2 ^ w\<close> for the target type of width \<open>w\<close>.\<close>

definition parse_uint :: "nat \<Rightarrow> ustring \<Rightarrow> nat option" where
  "parse_uint bound s =
     (let ds = (case s of c # r \<Rightarrow> if c = 43 \<and> r \<noteq> [] then r else s | [] \<Rightarrow> s)
      in if ds = [] \<or> \<not> list_all is_digit ds then None
         else let v = digits_value ds in if v < bound then Some v else None)"

lemma show_nat_digits: "list_all is_digit (show_nat n)"
  by (induction n rule: show_nat.induct) (subst show_nat.simps, auto simp: is_digit_def [abs_def])

lemma show_nat_not_Nil [simp]: "show_nat n \<noteq> []"
  by (subst show_nat.simps) simp

lemma digits_value_snoc: "digits_value (ds @ [c]) = 10 * digits_value ds + (c - 48)"
  by (simp add: digits_value_def)

lemma digits_value_show: "digits_value (show_nat n) = n"
proof (induction n rule: show_nat.induct)
  case (1 n)
  show ?case
  proof (cases "n < 10")
    case True
    then show ?thesis by (subst show_nat.simps) (simp add: digits_value_def)
  next
    case False
    with 1 show ?thesis by (subst show_nat.simps) (simp add: digits_value_snoc)
  qed
qed

lemma parse_show [simp]: "parse_uint bound (show_nat n) = (if n < bound then Some n else None)"
proof -
  have "hd (show_nat n) \<noteq> 43"
    using show_nat_digits [of n] by (cases "show_nat n") (auto simp: is_digit_def)
  then have "(case show_nat n of c # r \<Rightarrow> if c = 43 \<and> r \<noteq> [] then r else show_nat n | [] \<Rightarrow> show_nat n) = show_nat n"
    by (cases "show_nat n") auto
  then show ?thesis
    unfolding parse_uint_def Let_def by (simp add: show_nat_digits digits_value_show)
qed

lemma show_nat_inj: "show_nat m = show_nat n \<Longrightarrow> m = n"
  by (metis digits_value_show)

lemma parse_uint_bound: "parse_uint bound s = Some v \<Longrightarrow> v < bound"
  by (auto simp: parse_uint_def Let_def split: if_splits)

lemma show_nat_ascii: "c \<in> set (show_nat n) \<Longrightarrow> 48 \<le> c \<and> c \<le> 57"
  using show_nat_digits [of n] by (auto simp: list_all_iff is_digit_def)

end
