(* ===== verification/Pane_Tab.thy ===== *)
theory Pane_Tab
  imports Pane_Geometry Pane_Stack Text_Field Decimal
begin

text \<open>
  A tab (\<open>src/pane/tab.rs\<close>): the panes it holds, their index, the layout, the
  focus and what is maximized or minimized.  The panes carry profiles, terminals
  and views the tab never looks into; they are type parameters, as are icons and
  the open overlay-style picker.  Fields of the source's structures that no
  operation here reads or writes are left out.
\<close>

section \<open>State\<close>

record ('p, 't, 'v) terminal_pane =
  tp_id :: u64
  tp_routing_id :: u64
  tp_label_number :: nat
  tp_generated_label :: "ustring option"
  tp_custom_label :: "ustring option"
  tp_overlay_text :: "ustring option"
  tp_profile :: 'p
  tp_theme_override :: "string option"
  tp_terminal :: "'t option"
  tp_view :: "'v option"
  tp_pending_command :: "string option"
  tp_stack :: "('p, 't, 'v) pane_stack"

datatype 'i tab_icon_override = NoOverride | Icon 'i | Hidden

record ('p, 't, 'v, 'i, 'o) tab =
  tab_id :: u64
  panes :: "('p, 't, 'v) terminal_pane list"
  pane_indices :: "u64 \<rightharpoonup> nat"
  next_pane_label :: nat
  layout :: pane_layout
  active_pane :: u64
  focus_history :: "u64 list"
  maximized_pane :: "u64 option"
  minimized_panes :: "u64 list"
  selected_minimized_pane :: "u64 option"
  tab_icon :: "'i option"
  icon_override :: "'i tab_icon_override"
  renaming_pane :: "u64 option"
  rename_buffer :: "text_field option"
  editing_overlay_pane :: "u64 option"
  overlay_buffer :: "text_field option"
  overlay_style_picker :: "'o option"

section \<open>Panes\<close>

definition can_add_panes :: "nat \<Rightarrow> nat \<Rightarrow> bool" where
  "can_add_panes current additional \<longleftrightarrow>
     current + additional < 2 ^ 64 \<and> current + additional \<le> MAX_PANES_PER_TAB"

definition terminal_pane_new :: "u64 \<Rightarrow> 'p \<Rightarrow> ('p, 't, 'v) terminal_pane" where
  "terminal_pane_new i profile =
     \<lparr>tp_id = i, tp_routing_id = i, tp_label_number = 0, tp_generated_label = None,
      tp_custom_label = None, tp_overlay_text = None, tp_profile = profile,
      tp_theme_override = None, tp_terminal = None, tp_view = None,
      tp_pending_command = None, tp_stack = pane_stack_default\<rparr>"

definition with_label_number :: "nat \<Rightarrow> ('p, 't, 'v) terminal_pane \<Rightarrow> ('p, 't, 'v) terminal_pane" where
  "with_label_number n p = p\<lparr>tp_label_number := n\<rparr>"

definition with_generated_label :: "ustring \<Rightarrow> ('p, 't, 'v) terminal_pane \<Rightarrow> ('p, 't, 'v) terminal_pane" where
  "with_generated_label l p = p\<lparr>tp_generated_label := Some l\<rparr>"

definition with_pending_command ::
  "string option \<Rightarrow> ('p, 't, 'v) terminal_pane \<Rightarrow> ('p, 't, 'v) terminal_pane" where
  "with_pending_command c p = p\<lparr>tp_pending_command := c\<rparr>"

definition pane_label :: "('p, 't, 'v) terminal_pane \<Rightarrow> ustring" where
  "pane_label p =
     (case or_else (tp_custom_label p) (tp_generated_label p) of
        Some l \<Rightarrow> l | None \<Rightarrow> lit ''Pane '' @ show_nat (tp_label_number p))"

definition pane_selected_view :: "('p, 't, 'v) terminal_pane \<Rightarrow> 'v option" where
  "pane_selected_view p = selected_view (tp_stack p) (tp_view p)"

definition pane_selected_terminal :: "('p, 't, 'v) terminal_pane \<Rightarrow> 't option" where
  "pane_selected_terminal p = selected_terminal (tp_stack p) (tp_terminal p)"

definition pane_theme_override ::
  "('p, 't, 'v) terminal_pane \<Rightarrow> pane_stack_selection \<Rightarrow> string option" where
  "pane_theme_override p sel =
     (case sel of Base \<Rightarrow> tp_theme_override p
      | Stacked i \<Rightarrow>
          Option.bind (find (\<lambda>e. sp_id e = i) (entries (tp_stack p))) sp_theme_override)"

section \<open>Looking up and changing panes\<close>

definition pane :: "('p, 't, 'v, 'i, 'o) tab \<Rightarrow> u64 \<Rightarrow> ('p, 't, 'v) terminal_pane option" where
  "pane t i = Option.bind (pane_indices t i) (get (panes t))"

text \<open>\<open>pane_mut\<close> hands out the place of a pane; the closure is what the caller does to it.\<close>

definition pane_mut ::
  "('p, 't, 'v, 'i, 'o) tab \<Rightarrow> u64 \<Rightarrow> (('p, 't, 'v) terminal_pane \<Rightarrow> ('p, 't, 'v) terminal_pane)
   \<Rightarrow> ('p, 't, 'v, 'i, 'o) tab option" where
  "pane_mut t i change =
     (case pane_indices t i of None \<Rightarrow> None
      | Some k \<Rightarrow> if k < length (panes t) then Some (t\<lparr>panes := (panes t)[k := change (panes t ! k)]\<rparr>) else None)"

definition tab_pane_ids :: "('p, 't, 'v, 'i, 'o) tab \<Rightarrow> u64 list" where
  "tab_pane_ids t = map tp_id (panes t)"

definition push_pane ::
  "('p, 't, 'v, 'i, 'o) tab \<Rightarrow> ('p, 't, 'v) terminal_pane \<Rightarrow> ('p, 't, 'v, 'i, 'o) tab" where
  "push_pane t p =
     (let p = (if tp_label_number p = 0 then p\<lparr>tp_label_number := next_pane_label t\<rparr> else p)
      in t\<lparr>next_pane_label := max (next_pane_label t) (tp_label_number p + 1),
           pane_indices := (pane_indices t)(tp_id p \<mapsto> length (panes t)),
           panes := panes t @ [p]\<rparr>)"

definition apply_generated_labels ::
  "('p, 't, 'v, 'i, 'o) tab \<Rightarrow> (u64 \<times> ustring option) list \<Rightarrow> ('p, 't, 'v, 'i, 'o) tab" where
  "apply_generated_labels t labels =
     fold (\<lambda>(i, l) t. case pane_mut t i (\<lambda>p. p\<lparr>tp_generated_label := l\<rparr>) of Some t' \<Rightarrow> t' | None \<Rightarrow> t) labels t"

definition reindex_from ::
  "nat \<Rightarrow> ('p, 't, 'v) terminal_pane list \<Rightarrow> (u64 \<rightharpoonup> nat) \<Rightarrow> (u64 \<rightharpoonup> nat)" where
  "reindex_from k ps m = fold (\<lambda>(i, p) m. m(tp_id p \<mapsto> i)) (drop k (enumerate 0 ps)) m"

text \<open>\<open>Vec::remove\<close> panics on an index out of range.\<close>

definition remove_pane ::
  "('p, 't, 'v, 'i, 'o) tab \<Rightarrow> u64
   \<Rightarrow> (('p, 't, 'v) terminal_pane option \<times> ('p, 't, 'v, 'i, 'o) tab) option" where
  "remove_pane t i =
     (case pane_indices t i of None \<Rightarrow> Some (None, t)
      | Some k \<Rightarrow>
          if k < length (panes t) then
            let ps = remove_at k (panes t)
            in Some (Some (panes t ! k),
                 t\<lparr>panes := ps, pane_indices := reindex_from k ps ((pane_indices t)(i := None))\<rparr>)
          else None)"

definition active_pane_of :: "('p, 't, 'v, 'i, 'o) tab \<Rightarrow> ('p, 't, 'v) terminal_pane option" where
  "active_pane_of t = pane t (active_pane t)"

definition active_profile :: "('p, 't, 'v, 'i, 'o) tab \<Rightarrow> 'p option" where
  "active_profile t = map_option tp_profile (active_pane_of t)"

definition active_view :: "('p, 't, 'v, 'i, 'o) tab \<Rightarrow> 'v option" where
  "active_view t = Option.bind (active_pane_of t) pane_selected_view"

definition active_terminal :: "('p, 't, 'v, 'i, 'o) tab \<Rightarrow> 't option" where
  "active_terminal t = Option.bind (active_pane_of t) pane_selected_terminal"

section \<open>Focus, maximizing and minimizing\<close>

definition activate_pane :: "('p, 't, 'v, 'i, 'o) tab \<Rightarrow> u64 \<Rightarrow> ('p, 't, 'v, 'i, 'o) tab" where
  "activate_pane t i =
     (if pane t i = None then t
      else t\<lparr>focus_history := filter (\<lambda>j. j \<noteq> i) (focus_history t) @ [i], active_pane := i\<rparr>)"

definition activate_stack_entry ::
  "('p, 't, 'v, 'i, 'o) tab \<Rightarrow> u64 \<Rightarrow> pane_stack_selection \<Rightarrow> ('p, 't, 'v, 'i, 'o) tab" where
  "activate_stack_entry t i entry =
     (case pane t i of None \<Rightarrow> t
      | Some p \<Rightarrow>
          (case select_entry (tp_stack p) entry of (found, stack) \<Rightarrow>
             (case pane_mut t i (\<lambda>p. p\<lparr>tp_stack := stack\<rparr>) of None \<Rightarrow> t
              | Some t' \<Rightarrow> if \<not> found then t' else activate_pane t' i)))"

definition visible_layout :: "('p, 't, 'v, 'i, 'o) tab \<Rightarrow> pane_layout option" where
  "visible_layout t =
     (case maximized_pane t of
        Some m \<Rightarrow> map_option (\<lambda>_. Pane m) (pane t m)
      | None \<Rightarrow>
          if minimized_panes t = [] then Some (layout t)
          else without_all (layout t) (set (minimized_panes t)))"

definition pane_is_visible :: "('p, 't, 'v, 'i, 'o) tab \<Rightarrow> u64 \<Rightarrow> bool" where
  "pane_is_visible t i \<longleftrightarrow>
     pane t i \<noteq> None \<and>
     (case maximized_pane t of None \<Rightarrow> i \<notin> set (minimized_panes t) | Some m \<Rightarrow> m = i)"

definition repair_minimized_selection :: "('p, 't, 'v, 'i, 'o) tab \<Rightarrow> ('p, 't, 'v, 'i, 'o) tab" where
  "repair_minimized_selection t =
     (if \<not> (case selected_minimized_pane t of None \<Rightarrow> False | Some i \<Rightarrow> i \<in> set (minimized_panes t))
      then t\<lparr>selected_minimized_pane := last_of (minimized_panes t)\<rparr> else t)"

definition toggle_maximize ::
  "('p, 't, 'v, 'i, 'o) tab \<Rightarrow> u64 \<Rightarrow> bool \<times> ('p, 't, 'v, 'i, 'o) tab" where
  "toggle_maximize t i =
     (if pane t i = None then (False, t)
      else
        let pane_was_minimized = (i \<in> set (minimized_panes t));
            visible_pane_count =
              (length (panes t) - length (minimized_panes t)) + (if pane_was_minimized then 1 else 0)
        in if maximized_pane t \<noteq> Some i \<and> visible_pane_count < 2 then (False, t)
           else
             let t = t\<lparr>minimized_panes := filter (\<lambda>j. j \<noteq> i) (minimized_panes t)\<rparr>;
                 t = repair_minimized_selection t;
                 t = t\<lparr>maximized_pane := (if maximized_pane t \<noteq> Some i then Some i else None)\<rparr>
             in (True, activate_pane t i))"

text \<open>\<open>None\<close> is the \<open>expect\<close> on the pane that takes the focus.\<close>

definition minimize ::
  "('p, 't, 'v, 'i, 'o) tab \<Rightarrow> u64 \<Rightarrow> (bool \<times> ('p, 't, 'v, 'i, 'o) tab) option" where
  "minimize t i =
     (if pane t i = None \<or> i \<in> set (minimized_panes t)
         \<or> length (panes t) - length (minimized_panes t) \<le> 1
      then Some (False, t)
      else
        let t = t\<lparr>maximized_pane := None, minimized_panes := minimized_panes t @ [i],
                   selected_minimized_pane := Some i\<rparr>;
            fallback = or_else
              (find (\<lambda>j. j \<noteq> i \<and> j \<notin> set (minimized_panes t)) (rev (focus_history t)))
              (find (\<lambda>j. j \<notin> set (minimized_panes t)) (map region_id (regions f32 (layout t))))
        in map_option (\<lambda>f. (True, activate_pane t f)) fallback)"

text \<open>Restoring and selecting index the shelf; \<open>None\<close> is an index out of range, which panics.\<close>

definition restore_minimized ::
  "('p, 't, 'v, 'i, 'o) tab \<Rightarrow> u64 \<Rightarrow> (bool \<times> ('p, 't, 'v, 'i, 'o) tab) option" where
  "restore_minimized t i =
     (case position (\<lambda>j. j = i) (minimized_panes t) of None \<Rightarrow> Some (False, t)
      | Some index \<Rightarrow>
          let t = t\<lparr>minimized_panes := remove_at index (minimized_panes t)\<rparr>;
              selected =
                (if selected_minimized_pane t = Some i then
                   if minimized_panes t = [] then Some (t\<lparr>selected_minimized_pane := None\<rparr>)
                   else map_option (\<lambda>j. t\<lparr>selected_minimized_pane := Some j\<rparr>)
                          (get (minimized_panes t) (index mod length (minimized_panes t)))
                 else Some (repair_minimized_selection t))
          in map_option (\<lambda>t. (True, activate_pane (t\<lparr>maximized_pane := None\<rparr>) i)) selected)"

definition restore_last_minimized ::
  "('p, 't, 'v, 'i, 'o) tab \<Rightarrow> (bool \<times> ('p, 't, 'v, 'i, 'o) tab) option" where
  "restore_last_minimized t =
     (case or_else
        (case selected_minimized_pane t of
           Some i \<Rightarrow> if i \<in> set (minimized_panes t) then Some i else None | None \<Rightarrow> None)
        (last_of (minimized_panes t)) of
        None \<Rightarrow> Some (False, t) | Some i \<Rightarrow> restore_minimized t i)"

definition select_adjacent_minimized ::
  "('p, 't, 'v, 'i, 'o) tab \<Rightarrow> bool \<Rightarrow> (bool \<times> ('p, 't, 'v, 'i, 'o) tab) option" where
  "select_adjacent_minimized t forward =
     (if minimized_panes t = [] then Some (False, t\<lparr>selected_minimized_pane := None\<rparr>)
      else
        let n = length (minimized_panes t);
            index = (case Option.bind (selected_minimized_pane t)
                       (\<lambda>i. position (\<lambda>j. j = i) (minimized_panes t)) of
                       None \<Rightarrow> if forward then 0 else n - 1
                     | Some k \<Rightarrow> cycle_index forward n k)
        in map_option (\<lambda>j. (True, t\<lparr>selected_minimized_pane := Some j\<rparr>)) (get (minimized_panes t) index))"

definition select_previous_minimized where
  "select_previous_minimized t = select_adjacent_minimized t False"

definition select_next_minimized where
  "select_next_minimized t = select_adjacent_minimized t True"

text \<open>
  \<open>restore_focus_after_close\<close> in its two halves: the closed pane leaves the shelf,
  and the last minimized pane comes back when nothing else would be shown (its
  \<open>expect\<close> is the \<open>None\<close>); then the selection is repaired and the focus moves on.
\<close>

definition off_shelf :: "u64 \<Rightarrow> ('p, 't, 'v, 'i, 'o) tab \<Rightarrow> ('p, 't, 'v, 'i, 'o) tab option" where
  "off_shelf gone t =
     (let t = (if renaming_pane t = Some gone
               then t\<lparr>renaming_pane := None, rename_buffer := None\<rparr> else t);
          t = (if maximized_pane t = Some gone then t\<lparr>maximized_pane := None\<rparr> else t);
          t = t\<lparr>minimized_panes := filter (\<lambda>j. j \<noteq> gone) (minimized_panes t)\<rparr>
      in if tab_pane_ids t \<noteq> [] \<and> length (tab_pane_ids t) = length (minimized_panes t)
         then map_option (\<lambda>r. activate_pane (t\<lparr>minimized_panes := butlast (minimized_panes t)\<rparr>) r)
                (last_of (minimized_panes t))
         else Some t)"

definition refocus :: "u64 \<Rightarrow> u64 \<Rightarrow> ('p, 't, 'v, 'i, 'o) tab \<Rightarrow> ('p, 't, 'v, 'i, 'o) tab" where
  "refocus gone fallback t =
     (let surviving = tab_pane_ids t;
          t = repair_minimized_selection t;
          t = (if length (panes t) = 1 then t\<lparr>maximized_pane := None\<rparr> else t);
          t = t\<lparr>focus_history := filter (\<lambda>j. j \<noteq> gone \<and> j \<in> set surviving) (focus_history t)\<rparr>
      in if active_pane t \<noteq> gone \<and> active_pane t \<in> set surviving
            \<and> active_pane t \<notin> set (minimized_panes t)
         then t
         else
           let nxt = or_else (find (\<lambda>j. j \<notin> set (minimized_panes t)) (rev (focus_history t)))
                      (or_else (map_option first_pane (visible_layout t))
                      (or_else (selected_minimized_pane t) (first_of surviving)))
           in activate_pane t (case nxt of Some i \<Rightarrow> i | None \<Rightarrow> fallback))"

definition restore_focus_after_close ::
  "('p, 't, 'v, 'i, 'o) tab \<Rightarrow> u64 \<Rightarrow> u64 \<Rightarrow> ('p, 't, 'v, 'i, 'o) tab option" where
  "restore_focus_after_close t gone fallback = map_option (refocus gone fallback) (off_shelf gone t)"

section \<open>Labels, overlays and icons\<close>

definition displayed_pane_label :: "('p, 't, 'v, 'i, 'o) tab \<Rightarrow> u64 \<Rightarrow> ustring option" where
  "displayed_pane_label t i =
     (case pane t i of None \<Rightarrow> None
      | Some p \<Rightarrow> if renaming_pane t \<noteq> Some i then Some (pane_label p)
                  else map_option tf_text (rename_buffer t))"

definition pane_rename_field :: "('p, 't, 'v, 'i, 'o) tab \<Rightarrow> u64 \<Rightarrow> text_field option" where
  "pane_rename_field t i = (if renaming_pane t = Some i then rename_buffer t else None)"

definition tab_rename_field :: "('p, 't, 'v, 'i, 'o) tab \<Rightarrow> text_field option" where
  "tab_rename_field t = (if renaming_pane t = None then rename_buffer t else None)"

definition rename_selected :: "('p, 't, 'v, 'i, 'o) tab \<Rightarrow> bool" where
  "rename_selected t = (case rename_buffer t of None \<Rightarrow> False | Some f \<Rightarrow> tf_select_all f)"

definition pane_rename_selected :: "('p, 't, 'v, 'i, 'o) tab \<Rightarrow> u64 \<Rightarrow> bool" where
  "pane_rename_selected t i \<longleftrightarrow> renaming_pane t = Some i \<and> rename_selected t"

definition displayed_pane_overlay :: "('p, 't, 'v, 'i, 'o) tab \<Rightarrow> u64 \<Rightarrow> ustring option" where
  "displayed_pane_overlay t i =
     (case pane t i of None \<Rightarrow> None
      | Some p \<Rightarrow> if editing_overlay_pane t \<noteq> Some i then tp_overlay_text p
                  else map_option tf_text (overlay_buffer t))"

definition pane_overlay_field :: "('p, 't, 'v, 'i, 'o) tab \<Rightarrow> u64 \<Rightarrow> text_field option" where
  "pane_overlay_field t i = (if editing_overlay_pane t = Some i then overlay_buffer t else None)"

definition from_icon :: "'i option \<Rightarrow> 'i tab_icon_override" where
  "from_icon icon = (case icon of Some i \<Rightarrow> Icon i | None \<Rightarrow> Hidden)"

definition set_icon_override ::
  "('p, 't, 'v, 'i, 'o) tab \<Rightarrow> 'i option \<Rightarrow> ('p, 't, 'v, 'i, 'o) tab" where
  "set_icon_override t icon = t\<lparr>tab_icon := icon, icon_override := from_icon icon\<rparr>"

section \<open>Moving a tab into another window\<close>

fun renumber_panes :: "u64 \<Rightarrow> ('p, 't, 'v) terminal_pane list
    \<Rightarrow> ('p, 't, 'v) terminal_pane list \<times> (u64 \<times> u64) list \<times> u64" where
  "renumber_panes nxt [] = ([], [], nxt)"
| "renumber_panes nxt (p # ps) =
     (case renumber_panes (nxt + 1) ps of (ps', ids, n) \<Rightarrow>
        (p\<lparr>tp_id := nxt\<rparr> # ps', (tp_id p, nxt) # ids, n))"

text \<open>The entries of one stack, with the selection as the loop leaves it after each entry.\<close>

fun renumber_entries :: "u64 \<Rightarrow> pane_stack_selection \<Rightarrow> ('p, 't, 'v) stacked_pane list
    \<Rightarrow> ('p, 't, 'v) stacked_pane list \<times> pane_stack_selection \<times> u64" where
  "renumber_entries nxt sel [] = ([], sel, nxt)"
| "renumber_entries nxt sel (e # es) =
     (case renumber_entries (nxt + 1) (if sel = Stacked (sp_id e) then Stacked nxt else sel) es of
        (es', sel', n) \<Rightarrow> (e\<lparr>sp_id := nxt\<rparr> # es', sel', n))"

fun renumber_stacks :: "u64 \<Rightarrow> ('p, 't, 'v) terminal_pane list
    \<Rightarrow> ('p, 't, 'v) terminal_pane list \<times> u64" where
  "renumber_stacks nxt [] = ([], nxt)"
| "renumber_stacks nxt (p # ps) =
     (case renumber_entries nxt (selected (tp_stack p)) (entries (tp_stack p)) of (es, sel, n) \<Rightarrow>
        (case renumber_stacks n ps of (ps', n') \<Rightarrow>
           (p\<lparr>tp_stack := repair_selection \<lparr>entries = es, selected = sel\<rparr>\<rparr> # ps', n')))"

text \<open>Collecting pairs into a \<open>HashMap\<close>: a later pair replaces an earlier one.\<close>

definition collect_map :: "('a \<times> 'b) list \<Rightarrow> 'a \<rightharpoonup> 'b" where
  "collect_map ps = map_of (rev ps)"

definition index_panes :: "('p, 't, 'v) terminal_pane list \<Rightarrow> u64 \<rightharpoonup> nat" where
  "index_panes ps = collect_map (map (\<lambda>(k, p). (tp_id p, k)) (enumerate 0 ps))"

definition reassign_ids ::
  "('p, 't, 'v, 'i, 'o) tab \<Rightarrow> u64 \<Rightarrow> u64
   \<Rightarrow> (('p, 't, 'v, 'i, 'o) tab \<times> (u64 \<rightharpoonup> u64) \<times> u64) option" where
  "reassign_ids t new_id next_pane_id =
     (case renumber_panes next_pane_id (panes t) of (ps, pairs, n) \<Rightarrow>
      case (if pairs \<noteq> [] then renumber_stacks n ps else (ps, n)) of (ps, n) \<Rightarrow>
      let ids = collect_map pairs
      in case remap_pane_ids (layout t) ids of None \<Rightarrow> None | Some l \<Rightarrow>
         case ids (active_pane t) of None \<Rightarrow> None | Some a \<Rightarrow>
           Some (t\<lparr>tab_id := new_id, panes := ps, pane_indices := index_panes ps, layout := l,
                    active_pane := a, focus_history := List.map_filter ids (focus_history t),
                    maximized_pane := Option.bind (maximized_pane t) ids,
                    minimized_panes := List.map_filter ids (minimized_panes t),
                    selected_minimized_pane := Option.bind (selected_minimized_pane t) ids,
                    renaming_pane := None, rename_buffer := None, editing_overlay_pane := None,
                    overlay_buffer := None, overlay_style_picker := None\<rparr>, ids, n))"

section \<open>Opening a tab, splitting and closing a pane\<close>

text \<open>The tab a window pushes for a new shell (\<open>src/app/tabs.rs\<close>).\<close>

definition new_tab ::
  "u64 \<Rightarrow> u64 \<Rightarrow> 'p \<Rightarrow> string option \<Rightarrow> 'i option \<Rightarrow> ('p, 't, 'v, 'i, 'o) tab" where
  "new_tab i pane_id profile pending_command default_icon =
     \<lparr>tab_id = i,
      panes = [with_pending_command pending_command (with_label_number 1 (terminal_pane_new pane_id profile))],
      pane_indices = [pane_id \<mapsto> 0], next_pane_label = 2, layout = Pane pane_id,
      active_pane = pane_id, focus_history = [pane_id], maximized_pane = None,
      minimized_panes = [], selected_minimized_pane = None, tab_icon = default_icon,
      icon_override = NoOverride, renaming_pane = None, rename_buffer = None,
      editing_overlay_pane = None, overlay_buffer = None, overlay_style_picker = None\<rparr>"

text \<open>
  What splitting a pane does to its tab (\<open>src/app/panes.rs\<close>,
  \<open>split_pane_with_pending_command\<close>): the refusals, then the layout, the pane and
  the focus.  The second component is the window's next pane identifier.
\<close>

definition split_tab_pane ::
  "('p, 't, 'v, 'i, 'o) tab \<Rightarrow> u64 \<Rightarrow> u64 \<Rightarrow> string option \<Rightarrow> split_axis \<Rightarrow> split_position
   \<Rightarrow> bool \<times> ('p, 't, 'v, 'i, 'o) tab \<times> u64" where
  "split_tab_pane t next_pane_id target pending_command axis pos =
     (if \<not> can_add_panes (length (panes t)) 1 then (False, t, next_pane_id)
      else case pane t target of None \<Rightarrow> (False, t, next_pane_id)
      | Some p \<Rightarrow>
          let pane_id = next_pane_id;
              t = t\<lparr>maximized_pane := None\<rparr>
          in (case split_layout (layout t) target axis pane_id pos of
                (False, l) \<Rightarrow> (False, t\<lparr>layout := l\<rparr>, next_pane_id + 1)
              | (True, l) \<Rightarrow>
                  (True, activate_pane (push_pane (t\<lparr>layout := l\<rparr>)
                     (with_pending_command pending_command (terminal_pane_new pane_id (tp_profile p)))) pane_id,
                   next_pane_id + 1)))"

datatype 'a close_result = TabStays 'a | TabCloses

text \<open>
  What closing a pane does to its tab (\<open>src/app/panes.rs\<close>,
  \<open>close_pane_with_policy\<close>); the last pane closes the tab.
\<close>

definition close_tab_pane ::
  "('p, 't, 'v, 'i, 'o) tab \<Rightarrow> u64 \<Rightarrow> ('p, 't, 'v, 'i, 'o) tab close_result option" where
  "close_tab_pane t i =
     (if i \<notin> tp_id ` set (panes t) then Some (TabStays t)
      else if length (panes t) = 1 then Some TabCloses
      else case remove_pane t i of None \<Rightarrow> None
      | Some (_, t) \<Rightarrow>
          (case without (layout t) i of None \<Rightarrow> Some TabCloses
           | Some l \<Rightarrow>
               map_option TabStays (restore_focus_after_close (t\<lparr>layout := l\<rparr>) i (first_pane l))))"

end
