(* ===== verification/Tab_Invariant.thy ===== *)
theory Tab_Invariant
  imports Pane_Tab
begin

text \<open>
  The invariant of a tab and its preservation.  The structure of a tab ties its
  panes, their index and its layout together; a tab is sound when history, shelf,
  maximized and active pane agree with the panes too, and in order when besides
  the active pane is one the user can see.  Giving the focus to a hidden pane
  leaves a tab sound, no more.
\<close>

definition structure_ok :: "('p, 't, 'v, 'i, 'o) tab \<Rightarrow> bool" where
  "structure_ok t \<longleftrightarrow>
     distinct (tab_pane_ids t) \<and>
     pane_indices t = (\<lambda>i. position (\<lambda>j. j = i) (tab_pane_ids t)) \<and>
     wf_layout (layout t) \<and> set (pane_ids (layout t)) = set (tab_pane_ids t) \<and>
     length (panes t) \<le> MAX_PANES_PER_TAB \<and>
     (\<forall>p\<in>set (panes t). stack_ok (tp_stack p))"

definition on_shelf :: "u64 list \<Rightarrow> u64 option \<Rightarrow> bool" where
  "on_shelf ms sel \<longleftrightarrow> (case sel of None \<Rightarrow> ms = [] | Some m \<Rightarrow> m \<in> set ms)"

definition shelf_ok :: "u64 set \<Rightarrow> ('p, 't, 'v, 'i, 'o) tab \<Rightarrow> bool" where
  "shelf_ok I t \<longleftrightarrow>
     distinct (focus_history t) \<and> set (focus_history t) \<subseteq> I \<and>
     distinct (minimized_panes t) \<and> set (minimized_panes t) \<subset> I \<and>
     on_shelf (minimized_panes t) (selected_minimized_pane t)"

text \<open>The pane is on screen: it is the maximized one, or there is none and it is not minimized.\<close>

definition on_screen :: "('p, 't, 'v, 'i, 'o) tab \<Rightarrow> u64 \<Rightarrow> bool" where
  "on_screen t i \<longleftrightarrow> i \<notin> set (minimized_panes t) \<and> (maximized_pane t = None \<or> maximized_pane t = Some i)"

definition focus_ok :: "u64 set \<Rightarrow> ('p, 't, 'v, 'i, 'o) tab \<Rightarrow> bool" where
  "focus_ok I t \<longleftrightarrow> shelf_ok I t \<and> active_pane t \<in> I \<and>
     (\<forall>m. maximized_pane t = Some m \<longrightarrow> m \<in> I - set (minimized_panes t))"

definition tab_sound :: "('p, 't, 'v, 'i, 'o) tab \<Rightarrow> bool" where
  "tab_sound t \<longleftrightarrow> structure_ok t \<and> focus_ok (set (tab_pane_ids t)) t"

definition tab_ok :: "('p, 't, 'v, 'i, 'o) tab \<Rightarrow> bool" where
  "tab_ok t \<longleftrightarrow> tab_sound t \<and> on_screen t (active_pane t)"

text \<open>A sound tab, whose active pane is on screen if it was before.\<close>

definition kept :: "('p, 't, 'v, 'i, 'o) tab \<Rightarrow> ('p, 't, 'v, 'i, 'o) tab \<Rightarrow> bool" where
  "kept t u \<longleftrightarrow> tab_sound u \<and> (on_screen t (active_pane t) \<longrightarrow> on_screen u (active_pane u))"

lemma tab_ok_sound: "tab_ok t \<Longrightarrow> tab_sound t"
  by (simp add: tab_ok_def)

lemma kept_refl: "tab_sound t \<Longrightarrow> kept t t"
  by (simp add: kept_def)

lemma kept_if_ok: "tab_ok u \<Longrightarrow> kept t u"
  by (simp add: kept_def tab_ok_def)

lemma kept_ok: "kept t u \<Longrightarrow> tab_ok t \<Longrightarrow> tab_ok u"
  by (simp add: kept_def tab_ok_def)

lemma kept_trans: "kept t u \<Longrightarrow> kept u v \<Longrightarrow> kept t v"
  by (simp add: kept_def)

lemma tab_soundD:
  assumes "tab_sound t"
  shows "structure_ok t" "shelf_ok (set (tab_pane_ids t)) t" "active_pane t \<in> set (tab_pane_ids t)"
    "distinct (tab_pane_ids t)" "wf_layout (layout t)" "set (pane_ids (layout t)) = set (tab_pane_ids t)"
    "\<And>m. maximized_pane t = Some m \<Longrightarrow> m \<in> set (tab_pane_ids t) - set (minimized_panes t)"
  using assms by (auto simp: tab_sound_def focus_ok_def structure_ok_def)

lemma tab_pane_ids_upd [simp]:
  "tab_pane_ids (t\<lparr>focus_history := a\<rparr>) = tab_pane_ids t"
  "tab_pane_ids (t\<lparr>active_pane := b\<rparr>) = tab_pane_ids t"
  "tab_pane_ids (t\<lparr>maximized_pane := c\<rparr>) = tab_pane_ids t"
  "tab_pane_ids (t\<lparr>minimized_panes := d\<rparr>) = tab_pane_ids t"
  "tab_pane_ids (t\<lparr>selected_minimized_pane := e\<rparr>) = tab_pane_ids t"
  "tab_pane_ids (t\<lparr>layout := f\<rparr>) = tab_pane_ids t"
  "tab_pane_ids (t\<lparr>renaming_pane := g\<rparr>) = tab_pane_ids t"
  "tab_pane_ids (t\<lparr>rename_buffer := h\<rparr>) = tab_pane_ids t"
  "tab_pane_ids (t\<lparr>tab_icon := x\<rparr>) = tab_pane_ids t"
  "tab_pane_ids (t\<lparr>icon_override := y\<rparr>) = tab_pane_ids t"
  by (simp_all add: tab_pane_ids_def)

lemma structure_ok_upd [simp]:
  "structure_ok (t\<lparr>focus_history := a\<rparr>) = structure_ok t"
  "structure_ok (t\<lparr>active_pane := b\<rparr>) = structure_ok t"
  "structure_ok (t\<lparr>maximized_pane := c\<rparr>) = structure_ok t"
  "structure_ok (t\<lparr>minimized_panes := d\<rparr>) = structure_ok t"
  "structure_ok (t\<lparr>selected_minimized_pane := e\<rparr>) = structure_ok t"
  "structure_ok (t\<lparr>renaming_pane := g\<rparr>) = structure_ok t"
  "structure_ok (t\<lparr>rename_buffer := h\<rparr>) = structure_ok t"
  "structure_ok (t\<lparr>tab_icon := x\<rparr>) = structure_ok t"
  "structure_ok (t\<lparr>icon_override := y\<rparr>) = structure_ok t"
  by (simp_all add: structure_ok_def)

lemma pane_upd [simp]:
  "pane (t\<lparr>focus_history := a\<rparr>) = pane t"
  "pane (t\<lparr>active_pane := b\<rparr>) = pane t"
  "pane (t\<lparr>maximized_pane := c\<rparr>) = pane t"
  "pane (t\<lparr>minimized_panes := d\<rparr>) = pane t"
  "pane (t\<lparr>selected_minimized_pane := e\<rparr>) = pane t"
  "pane (t\<lparr>layout := f\<rparr>) = pane t"
  "pane (t\<lparr>renaming_pane := g\<rparr>) = pane t"
  "pane (t\<lparr>rename_buffer := h\<rparr>) = pane t"
  by (simp_all add: pane_def fun_eq_iff)

subsection \<open>The index\<close>

lemma plus_Suc: "Suc \<circ> (+) n = (+) (Suc n)" "(+) n \<circ> Suc = (+) (Suc n)"
  by (auto simp: fun_eq_iff)


lemma pane_Some:
  assumes "structure_ok t" "pane t i = Some p"
  shows "tp_id p = i" "p \<in> set (panes t)" "i \<in> set (tab_pane_ids t)"
proof -
  obtain k where k: "position (\<lambda>j. j = i) (tab_pane_ids t) = Some k" "get (panes t) k = Some p"
    using assms by (auto simp: pane_def structure_ok_def bind_eq_Some_conv)
  then show "tp_id p = i" "p \<in> set (panes t)"
    by (auto simp: tab_pane_ids_def get_eq_Some_iff dest!: position_SomeD)
  then show "i \<in> set (tab_pane_ids t)" by (auto simp: tab_pane_ids_def)
qed

lemma pane_None_iff:
  assumes "structure_ok t"
  shows "pane t i = None \<longleftrightarrow> i \<notin> set (tab_pane_ids t)"
proof (cases "position (\<lambda>j. j = i) (tab_pane_ids t)")
  case None
  then have "i \<notin> set (tab_pane_ids t)" by (auto simp: position_None_iff)
  with None assms show ?thesis by (simp add: pane_def structure_ok_def)
next
  case (Some k)
  then have "k < length (panes t)" by (auto simp: tab_pane_ids_def dest: position_SomeD)
  moreover have "i \<in> set (tab_pane_ids t)" using Some by (rule position_eq_in_set)
  ultimately show ?thesis using Some assms
    by (simp add: pane_def structure_ok_def get_eq_None_iff)
qed

lemma or_else_None [simp]: "or_else x None = x"
  by (cases x) auto

lemma position_append:
  "position P (xs @ ys) = or_else (position P xs) (map_option ((+) (length xs)) (position P ys))"
  by (induction xs) (auto simp: map_option_or_else option.map_comp comp_def option.map_ident)

lemma fold_index:
  "distinct (map f ps) \<Longrightarrow>
   fold (\<lambda>(i, p) m. m(f p \<mapsto> i)) (enumerate n ps) m =
   (\<lambda>j. or_else (map_option ((+) n) (position (\<lambda>x. x = j) (map f ps))) (m j))"
proof (induction ps arbitrary: n m)
  case (Cons p ps)
  have IH: "fold (\<lambda>(i, p) m. m(f p \<mapsto> i)) (enumerate (Suc n) ps) (m(f p \<mapsto> n)) j =
      or_else (map_option ((+) (Suc n)) (position (\<lambda>x. x = j) (map f ps)))
        (if j = f p then Some n else m j)" for j
    using Cons.prems by (subst Cons.IH) simp_all
  have "f p \<notin> set (map f ps)" using Cons.prems by simp
  then have "position (\<lambda>x. x = f p) (map f ps) = None" unfolding position_None_iff by blast
  then show ?case
    by (intro ext) (simp add: IH option.map_comp plus_Suc del: position_map fun_upd_apply)
qed simp

lemma drop_enumerate: "drop k (enumerate n xs) = enumerate (n + k) (drop k xs)"
  by (induction xs arbitrary: n k) (auto simp: drop_Cons split: nat.split)

lemma reindex_removed:
  fixes ps :: "('p, 't, 'v) terminal_pane list"
  assumes "distinct (map tp_id ps)" "k < length ps" "tp_id (ps ! k) = i"
  shows "reindex_from k (remove_at k ps) ((\<lambda>j. position (\<lambda>x. x = j) (map tp_id ps))(i := None)) =
    (\<lambda>j. position (\<lambda>x. x = j) (map tp_id (remove_at k ps)))"
proof
  fix j
  let ?a = "map tp_id (take k ps)" and ?b = "map tp_id (drop (k + 1) ps)"
  have ids: "map tp_id ps = ?a @ i # ?b"
    using assms(2,3) by (metis id_take_nth_drop list.simps(9) map_append Suc_eq_plus1)
  have rest: "map tp_id (remove_at k ps) = ?a @ ?b" by (simp add: remove_at_def)
  have d: "distinct (?a @ i # ?b)" using assms(1) ids by metis
  have drop: "drop k (remove_at k ps) = drop (k + 1) ps" using assms(2) by (simp add: remove_at_def)
  have "reindex_from k (remove_at k ps) ((\<lambda>j. position (\<lambda>x. x = j) (map tp_id ps))(i := None)) j =
      or_else (map_option ((+) k) (position (\<lambda>x. x = j) ?b))
        (if j = i then None else position (\<lambda>x. x = j) (?a @ i # ?b))"
    using d by (simp add: reindex_from_def drop_enumerate drop fold_index ids del: position_map)
  also have "\<dots> = position (\<lambda>x. x = j) (?a @ ?b)"
  proof (cases "position (\<lambda>x. x = j) ?b")
    case None
    moreover have "position (\<lambda>x. x = i) ?a = None" using d by (auto simp: position_None_iff)
    ultimately show ?thesis by (auto simp: position_append simp del: position_map)
  next
    case (Some q)
    then have "j \<in> set ?b" by (rule position_eq_in_set)
    then have "position (\<lambda>x. x = j) ?a = None" using d by (auto simp: position_None_iff)
    with Some assms(2) show ?thesis by (simp add: position_append del: position_map)
  qed
  finally show "reindex_from k (remove_at k ps) ((\<lambda>j. position (\<lambda>x. x = j) (map tp_id ps))(i := None)) j =
    position (\<lambda>x. x = j) (map tp_id (remove_at k ps))"
    by (simp only: rest)
qed

subsection \<open>Focus operations\<close>

lemma structure_activate [simp]: "structure_ok (activate_pane t i) = structure_ok t"
  by (simp add: activate_pane_def)

lemma ids_activate [simp]: "tab_pane_ids (activate_pane t i) = tab_pane_ids t"
  by (simp add: activate_pane_def)

lemma structure_repair [simp]: "structure_ok (repair_minimized_selection t) = structure_ok t"
  by (simp add: repair_minimized_selection_def)

lemma ids_repair [simp]: "tab_pane_ids (repair_minimized_selection t) = tab_pane_ids t"
  by (simp add: repair_minimized_selection_def)

lemma pane_repair [simp]: "pane (repair_minimized_selection t) = pane t"
  by (simp add: repair_minimized_selection_def)

text \<open>Giving the focus to a pane that is on screen re-establishes the whole invariant.\<close>

lemma activate_focus:
  assumes "structure_ok t" "shelf_ok (set (tab_pane_ids t)) t" "i \<in> set (tab_pane_ids t)"
    and "on_screen t i"
  shows "tab_ok (activate_pane t i) \<and> active_pane (activate_pane t i) = i"
proof -
  have p: "pane t i \<noteq> None" using assms(1,3) by (simp add: pane_None_iff del: not_None_eq)
  have "focus_ok (set (tab_pane_ids t)) (activate_pane t i)" "on_screen (activate_pane t i) i"
    using assms(2-4) p by (auto simp: focus_ok_def shelf_ok_def on_screen_def activate_pane_def)
  moreover have "active_pane (activate_pane t i) = i" using p by (auto simp: activate_pane_def)
  ultimately show ?thesis using assms(1) by (simp add: tab_ok_def tab_sound_def)
qed

text \<open>Giving it to any pane keeps the tab sound.\<close>

lemma activate_sound:
  assumes "tab_sound t"
  shows "tab_sound (activate_pane t i)"
proof (cases "pane t i")
  case (Some p)
  then have "i \<in> set (tab_pane_ids t)" using pane_Some(3) tab_soundD(1) assms by blast
  then have "focus_ok (set (tab_pane_ids t)) (activate_pane t i)"
    using assms Some by (auto simp: tab_sound_def focus_ok_def shelf_ok_def activate_pane_def)
  then show ?thesis using assms by (simp add: tab_sound_def)
qed (use assms in \<open>simp add: activate_pane_def\<close>)

lemma repair_selected:
  "on_shelf (minimized_panes t) (selected_minimized_pane (repair_minimized_selection t))"
  by (auto simp: repair_minimized_selection_def last_of_def on_shelf_def split: option.splits)

lemma repair_fields [simp]:
  "focus_history (repair_minimized_selection t) = focus_history t"
  "minimized_panes (repair_minimized_selection t) = minimized_panes t"
  "maximized_pane (repair_minimized_selection t) = maximized_pane t"
  "active_pane (repair_minimized_selection t) = active_pane t"
  "panes (repair_minimized_selection t) = panes t"
  "layout (repair_minimized_selection t) = layout t"
  by (simp_all add: repair_minimized_selection_def)

lemma toggle_maximize_ok:
  assumes "tab_sound t"
  shows "if fst (toggle_maximize t i) then tab_ok (snd (toggle_maximize t i)) \<and>
      active_pane (snd (toggle_maximize t i)) = i
    else snd (toggle_maximize t i) = t"
proof (cases "fst (toggle_maximize t i)")
  case False
  then show ?thesis by (auto simp: toggle_maximize_def Let_def split: if_splits)
next
  case True
  define u where "u = repair_minimized_selection
    (t\<lparr>minimized_panes := filter (\<lambda>j. j \<noteq> i) (minimized_panes t)\<rparr>)"
  define v where "v = u\<lparr>maximized_pane := (if maximized_pane t \<noteq> Some i then Some i else None)\<rparr>"
  have e: "snd (toggle_maximize t i) = activate_pane v i"
    using True by (auto simp: toggle_maximize_def Let_def u_def v_def split: if_splits)
  note t = tab_soundD [OF assms]
  have i: "i \<in> set (tab_pane_ids t)"
    using True t(1) by (auto simp: toggle_maximize_def split: if_splits dest: pane_Some(3))
  have m: "minimized_panes v = filter (\<lambda>j. j \<noteq> i) (minimized_panes t)"
    and "focus_history v = focus_history t"
    and "maximized_pane v = (if maximized_pane t \<noteq> Some i then Some i else None)"
    and s: "structure_ok v" "tab_pane_ids v = tab_pane_ids t"
    using t(1) by (simp_all add: v_def u_def)
  moreover have "on_shelf (minimized_panes v) (selected_minimized_pane v)"
    using repair_selected [of "t\<lparr>minimized_panes := filter (\<lambda>j. j \<noteq> i) (minimized_panes t)\<rparr>"] m
    by (simp add: v_def u_def)
  ultimately have "shelf_ok (set (tab_pane_ids v)) v"
    using t(2) i by (auto simp: shelf_ok_def)
  with activate_focus [of v i] s i m True show ?thesis
    by (simp add: e v_def on_screen_def)
qed

lemma strict_subset_length:
  assumes "distinct xs" "distinct ys" "set xs \<subseteq> set ys" "length xs < length ys"
  shows "set xs \<subset> set ys"
  using assms by (metis distinct_card order_less_irrefl psubsetI)

lemma minimize_ok:
  assumes "tab_sound t"
  shows "\<exists>b u. minimize t i = Some (b, u) \<and> (if b then tab_ok u else u = t)"
proof (cases "pane t i = None \<or> i \<in> set (minimized_panes t)
    \<or> length (panes t) - length (minimized_panes t) \<le> 1")
  case True
  then show ?thesis by (intro exI [of _ False] exI [of _ t]) (simp add: minimize_def)
next
  case False
  let ?I = "set (tab_pane_ids t)"
  define u where "u = t\<lparr>maximized_pane := None, minimized_panes := minimized_panes t @ [i],
    selected_minimized_pane := Some i\<rparr>"
  let ?f = "or_else (find (\<lambda>j. j \<noteq> i \<and> j \<notin> set (minimized_panes u)) (rev (focus_history u)))
     (find (\<lambda>j. j \<notin> set (minimized_panes u)) (map region_id (regions f32 (layout u))))"
  have i: "i \<in> ?I" using False tab_soundD(1) [OF assms] by (auto dest: pane_Some(3))
  have s: "structure_ok u" "tab_pane_ids u = tab_pane_ids t"
    using assms by (simp_all add: tab_sound_def u_def)
  have min: "minimized_panes u = minimized_panes t @ [i]" "maximized_pane u = None"
    "selected_minimized_pane u = Some i" "focus_history u = focus_history t" "layout u = layout t"
    by (simp_all add: u_def)
  have t: "distinct (minimized_panes t)" "set (minimized_panes t) \<subseteq> ?I" "distinct (tab_pane_ids t)"
    "set (pane_ids (layout t)) = ?I" "distinct (focus_history t)" "set (focus_history t) \<subseteq> ?I"
    using assms by (auto simp: tab_sound_def focus_ok_def shelf_ok_def structure_ok_def)
  have sub: "set (minimized_panes u) \<subset> ?I"
    unfolding min using False i t by (intro strict_subset_length) (auto simp: tab_pane_ids_def)
  then obtain j where j: "j \<in> ?I" "j \<notin> set (minimized_panes u)" by blast
  have "?f \<noteq> None"
    using j t by (auto simp: min or_else_eq_None_iff find_None_iff regions_ids simp del: not_None_eq)
  then obtain f where f: "?f = Some f" by blast
  have "f \<in> ?I" "f \<notin> set (minimized_panes u)"
    using f t by (auto simp: or_else_eq_Some_iff regions_ids min dest!: find_in_set)
  moreover have "shelf_ok ?I u"
    using t i False sub by (auto simp: shelf_ok_def on_shelf_def min)
  ultimately have "tab_ok (activate_pane u f)"
    using activate_focus [of u f] s min by (simp add: on_screen_def)
  moreover have "minimize t i = Some (True, activate_pane u f)"
    using False f by (simp add: minimize_def u_def Let_def)
  ultimately show ?thesis by auto
qed

lemma remove_at_filter:
  assumes "distinct xs" "k < length xs"
  shows "remove_at k xs = filter (\<lambda>x. x \<noteq> xs ! k) xs"
proof -
  have xs: "xs = take k xs @ xs ! k # drop (Suc k) xs" by (rule id_take_nth_drop [OF assms(2)])
  have "distinct (take k xs @ xs ! k # drop (Suc k) xs)" using assms(1) xs by simp
  then have "filter (\<lambda>x. x \<noteq> xs ! k) (take k xs) = take k xs"
    "filter (\<lambda>x. x \<noteq> xs ! k) (drop (Suc k) xs) = drop (Suc k) xs"
    by (auto simp: filter_id_conv)
  moreover have "filter (\<lambda>x. x \<noteq> xs ! k) xs =
      filter (\<lambda>x. x \<noteq> xs ! k) (take k xs) @ filter (\<lambda>x. x \<noteq> xs ! k) (drop (Suc k) xs)"
    by (subst (2) xs) simp
  ultimately show ?thesis by (simp add: remove_at_def)
qed

lemma restore_minimized_ok:
  assumes "tab_sound t"
  shows "\<exists>b u. restore_minimized t i = Some (b, u) \<and>
    (if i \<in> set (minimized_panes t)
     then b \<and> tab_ok u \<and> active_pane u = i \<and> layout u = layout t \<and>
       minimized_panes u = filter (\<lambda>j. j \<noteq> i) (minimized_panes t)
     else \<not> b \<and> u = t)"
proof (cases "position (\<lambda>j. j = i) (minimized_panes t)")
  case None
  then have "i \<notin> set (minimized_panes t)" by (auto simp: position_None_iff)
  with None show ?thesis
    by (intro exI [of _ False] exI [of _ t]) (simp add: restore_minimized_def)
next
  case (Some k)
  define u where "u = t\<lparr>minimized_panes := remove_at k (minimized_panes t)\<rparr>"
  define v where "v = (if selected_minimized_pane u = Some i then
       u\<lparr>selected_minimized_pane :=
           (if minimized_panes u = [] then None
            else Some (minimized_panes u ! (k mod length (minimized_panes u))))\<rparr>
     else repair_minimized_selection u)\<lparr>maximized_pane := None\<rparr>"
  have e: "restore_minimized t i = Some (True, activate_pane v i)"
    using Some by (simp add: restore_minimized_def u_def v_def Let_def get_def)
  have i: "i \<in> set (minimized_panes t)" using Some by (rule position_eq_in_set)
  have k: "k < length (minimized_panes t)" "minimized_panes t ! k = i"
    using Some by (auto dest: position_SomeD)
  note t = tab_soundD [OF assms]
  have d: "distinct (minimized_panes t)" "set (minimized_panes t) \<subseteq> set (tab_pane_ids t)"
    using t(2) by (auto simp: shelf_ok_def)
  have m: "minimized_panes u = filter (\<lambda>j. j \<noteq> i) (minimized_panes t)"
    using remove_at_filter [OF d(1) k(1)] k(2) by (simp add: u_def)
  have v: "minimized_panes v = minimized_panes u" "focus_history v = focus_history t"
    "maximized_pane v = None" "structure_ok v" "tab_pane_ids v = tab_pane_ids t" "layout v = layout t"
    using t(1) by (simp_all add: v_def u_def)
  have "on_shelf (minimized_panes u) (selected_minimized_pane v)"
    using repair_selected [of u] by (simp add: v_def) (simp add: on_shelf_def)
  then have "shelf_ok (set (tab_pane_ids v)) v"
    using t(2) m v by (auto simp: shelf_ok_def)
  moreover have "on_screen v i" using v m by (simp add: on_screen_def)
  moreover have "minimized_panes (activate_pane v i) = minimized_panes v"
    "layout (activate_pane v i) = layout v"
    by (simp_all add: activate_pane_def)
  ultimately show ?thesis
    using activate_focus [of v i] v m i d by (auto simp: e)
qed

lemma restore_last_minimized_ok:
  assumes "tab_sound t"
  shows "\<exists>b u. restore_last_minimized t = Some (b, u) \<and> (if b then tab_ok u else u = t)"
proof (cases "or_else
        (case selected_minimized_pane t of
           Some i \<Rightarrow> if i \<in> set (minimized_panes t) then Some i else None | None \<Rightarrow> None)
        (last_of (minimized_panes t))")
  case (Some i)
  moreover obtain b u where "restore_minimized t i = Some (b, u)" "if b then tab_ok u else u = t"
    using restore_minimized_ok [OF assms, of i] by (cases "i \<in> set (minimized_panes t)") auto
  ultimately show ?thesis by (simp add: restore_last_minimized_def)
next
  case None
  then show ?thesis
    by (intro exI [of _ False] exI [of _ t]) (simp add: restore_last_minimized_def)
qed

lemma select_adjacent_minimized_ok:
  assumes "tab_sound t"
  shows "\<exists>b x. select_adjacent_minimized t fwd = Some (b, t\<lparr>selected_minimized_pane := x\<rparr>) \<and>
    kept t (t\<lparr>selected_minimized_pane := x\<rparr>)"
proof -
  have k: "kept t (t\<lparr>selected_minimized_pane := x\<rparr>)" if "on_shelf (minimized_panes t) x" for x
    using assms that
    by (auto simp: kept_def tab_sound_def focus_ok_def shelf_ok_def on_screen_def)
  show ?thesis
  proof (cases "minimized_panes t = []")
    case True
    then show ?thesis using k [of None]
      by (auto simp: select_adjacent_minimized_def on_shelf_def intro!: exI [of _ None])
  next
    case False
    let ?n = "length (minimized_panes t)"
    define j where "j = (case Option.bind (selected_minimized_pane t)
        (\<lambda>i. position (\<lambda>j. j = i) (minimized_panes t)) of
        None \<Rightarrow> if fwd then 0 else ?n - 1 | Some k \<Rightarrow> cycle_index fwd ?n k)"
    have "j < ?n"
      using False by (auto simp: j_def bind_eq_Some_conv split: option.split
          intro!: cycle_index_less dest: position_SomeD)
    moreover from this have "select_adjacent_minimized t fwd =
        Some (True, t\<lparr>selected_minimized_pane := Some (minimized_panes t ! j)\<rparr>)"
      using False by (simp add: select_adjacent_minimized_def j_def [symmetric] Let_def get_def)
    ultimately show ?thesis using k [of "Some (minimized_panes t ! j)"] by (auto simp: on_shelf_def)
  qed
qed

lemma visible_on_screen:
  assumes "tab_sound t"
  shows "pane_is_visible t i \<longleftrightarrow> i \<in> set (tab_pane_ids t) \<and> on_screen t i"
  using pane_None_iff [OF tab_soundD(1) [OF assms], of i] tab_soundD(7) [OF assms]
  by (auto simp: pane_is_visible_def on_screen_def split: option.splits)

lemma activate_visible_ok:
  assumes "tab_sound t" "pane_is_visible t i"
  shows "tab_ok (activate_pane t i) \<and> active_pane (activate_pane t i) = i"
  using activate_focus [of t i] tab_soundD(1,2) [OF assms(1)] assms(2) visible_on_screen [OF assms(1)]
  by simp

subsection \<open>Stacks inside a tab\<close>

lemma focus_ok_upd [simp]:
  "focus_ok I (t\<lparr>panes := a\<rparr>) = focus_ok I t"
  "focus_ok I (t\<lparr>layout := b\<rparr>) = focus_ok I t"
  "focus_ok I (t\<lparr>pane_indices := c\<rparr>) = focus_ok I t"
  "focus_ok I (t\<lparr>tab_icon := d\<rparr>) = focus_ok I t"
  "focus_ok I (t\<lparr>icon_override := e\<rparr>) = focus_ok I t"
  by (simp_all add: focus_ok_def shelf_ok_def on_screen_def)

lemma on_screen_upd [simp]:
  "on_screen (t\<lparr>panes := a\<rparr>) = on_screen t"
  "on_screen (t\<lparr>layout := b\<rparr>) = on_screen t"
  by (simp_all add: on_screen_def fun_eq_iff)

lemma pane_mut_ok:
  assumes "tab_sound t" "pane_mut t i f = Some u"
    and "\<And>p. p \<in> set (panes t) \<Longrightarrow> tp_id p = i \<Longrightarrow> tp_id (f p) = i \<and> stack_ok (tp_stack (f p))"
  shows "kept t u \<and> tab_pane_ids u = tab_pane_ids t \<and> pane_is_visible u = pane_is_visible t \<and>
    set (panes u) \<subseteq> set (panes t) \<union> f ` {p \<in> set (panes t). tp_id p = i}"
proof -
  obtain k where k: "pane_indices t i = Some k" "k < length (panes t)"
    and u: "u = t\<lparr>panes := (panes t)[k := f (panes t ! k)]\<rparr>"
    using assms(2) by (auto simp: pane_mut_def split: option.splits if_splits)
  have ks: "tp_id (panes t ! k) = i" "panes t ! k \<in> set (panes t)"
    using assms(1) k by (auto simp: tab_sound_def structure_ok_def tab_pane_ids_def dest: position_SomeD)
  then have ids: "tab_pane_ids u = tab_pane_ids t"
    using assms(3) by (simp add: u tab_pane_ids_def map_update) (simp add: k list_update_same_conv)
  have sub: "set (panes u) \<subseteq> set (panes t) \<union> f ` {p \<in> set (panes t). tp_id p = i}"
    using ks set_update_subset_insert [of "panes t" k "f (panes t ! k)"] by (auto simp: u)
  have "stack_ok (tp_stack p)" if "p \<in> set (panes u)" for p
    using that sub assms(1,3) by (auto simp: tab_sound_def structure_ok_def)
  then have "structure_ok u"
    using assms(1) ids unfolding structure_ok_def tab_sound_def by (simp add: u)
  then have s: "tab_sound u" using assms(1) ids by (simp add: tab_sound_def) (simp add: u)
  moreover have o: "on_screen u = on_screen t" "active_pane u = active_pane t" by (simp_all add: u)
  moreover have "pane_is_visible u = pane_is_visible t"
    by (rule ext) (simp add: visible_on_screen [OF s] visible_on_screen [OF assms(1)] ids o)
  ultimately show ?thesis using ids sub by (simp add: kept_def)
qed

lemma activate_stack_entry_sound:
  assumes "tab_sound t"
  shows "tab_sound (activate_stack_entry t i entry) \<and>
    tab_pane_ids (activate_stack_entry t i entry) = tab_pane_ids t \<and>
    entry_ids ` tp_stack ` set (panes (activate_stack_entry t i entry)) \<subseteq> entry_ids ` tp_stack ` set (panes t) \<and>
    (tab_ok t \<and> pane_is_visible t i \<longrightarrow> tab_ok (activate_stack_entry t i entry))"
proof (cases "pane t i")
  case None
  with assms show ?thesis by (simp add: activate_stack_entry_def)
next
  case (Some p)
  obtain found stack where sel: "select_entry (tp_stack p) entry = (found, stack)" by fastforce
  note t = tab_soundD [OF assms]
  have p: "tp_id p = i" "p \<in> set (panes t)" using pane_Some [OF t(1) Some] by simp_all
  have "stack_ok (tp_stack p)" using t(1) p by (simp add: structure_ok_def)
  moreover have e: "entry_ids stack = entry_ids (tp_stack p)"
    using entry_ids_ops(3) [of "tp_stack p" entry] sel by simp
  ultimately have st: "stack_ok stack"
    using select_entry_valid [of "tp_stack p" entry] sel by (simp add: stack_ok_iff)
  show ?thesis
  proof (cases "pane_mut t i (\<lambda>p. p\<lparr>tp_stack := stack\<rparr>)")
    case None
    with Some sel assms show ?thesis by (simp add: activate_stack_entry_def)
  next
    case (Some u)
    have u: "kept t u" "tab_pane_ids u = tab_pane_ids t" "pane_is_visible u i = pane_is_visible t i"
      "set (panes u) \<subseteq> set (panes t) \<union> (\<lambda>p. p\<lparr>tp_stack := stack\<rparr>) ` {p \<in> set (panes t). tp_id p = i}"
      using pane_mut_ok [OF assms Some] st by auto
    have en: "entry_ids ` tp_stack ` set (panes u) \<subseteq> entry_ids ` tp_stack ` set (panes t)"
      using u(4) e p(2) by fastforce
    have s: "tab_sound u" using u(1) by (simp add: kept_def)
    have a: "activate_stack_entry t i entry = (if \<not> found then u else activate_pane u i)"
      using Some sel \<open>pane t i = Some p\<close> by (simp add: activate_stack_entry_def)
    moreover have "panes (activate_pane u i) = panes u" by (simp add: activate_pane_def)
    ultimately show ?thesis
      using activate_sound [OF s, of i] activate_visible_ok [OF s, of i] u kept_ok [OF u(1)] s en by simp
  qed
qed

subsection \<open>Splitting\<close>

lemma split_layout_wf:
  assumes "wf_layout l" "n \<notin> set (pane_ids l)" "t \<in> set (pane_ids l)"
  shows "wf_layout (snd (split_layout l t ax n pos))"
    "set (pane_ids (snd (split_layout l t ax n pos))) = insert n (set (pane_ids l))"
proof -
  let ?l = "snd (split_layout l t ax n pos)"
  have m: "mset (pane_ids ?l) = mset (n # pane_ids l)" using assms(3) by (simp add: split_layout_panes)
  show "set (pane_ids ?l) = insert n (set (pane_ids l))" using mset_eq_setD [OF m] by simp
  show "wf_layout ?l"
    using assms mset_eq_imp_distinct_iff [OF m] by (simp add: wf_layout_def split_layout_ratios)
qed

lemma push_pane_structure:
  assumes "structure_ok t" "tp_id p \<notin> set (tab_pane_ids t)" "length (panes t) < MAX_PANES_PER_TAB"
    and "wf_layout l" "set (pane_ids l) = insert (tp_id p) (set (tab_pane_ids t))" "stack_ok (tp_stack p)"
  shows "structure_ok (push_pane (t\<lparr>layout := l\<rparr>) p)"
    "tab_pane_ids (push_pane (t\<lparr>layout := l\<rparr>) p) = tab_pane_ids t @ [tp_id p]"
proof -
  let ?u = "push_pane (t\<lparr>layout := l\<rparr>) p"
  show ids: "tab_pane_ids ?u = tab_pane_ids t @ [tp_id p]"
    by (simp add: push_pane_def tab_pane_ids_def Let_def)
  have none: "position (\<lambda>j. j = tp_id p) (tab_pane_ids t) = None"
    using assms(2) unfolding position_None_iff by blast
  have "length (tab_pane_ids t) = length (panes t)" by (simp add: tab_pane_ids_def)
  then have "pane_indices ?u = (\<lambda>i. position (\<lambda>j. j = i) (tab_pane_ids ?u))"
    using assms(1) none unfolding ids
    by (auto simp: push_pane_def Let_def fun_eq_iff structure_ok_def position_append or_else_None)
  with assms ids show "structure_ok ?u"
    unfolding structure_ok_def by (auto simp: push_pane_def Let_def)
qed

lemma push_pane_fields [simp]:
  "focus_history (push_pane t p) = focus_history t" "maximized_pane (push_pane t p) = maximized_pane t"
  "minimized_panes (push_pane t p) = minimized_panes t" "active_pane (push_pane t p) = active_pane t"
  "selected_minimized_pane (push_pane t p) = selected_minimized_pane t"
  by (simp_all add: push_pane_def Let_def)

lemma stack_default_ok [simp]: "stack_ok pane_stack_default"
  by (simp add: stack_ok_def pane_stack_default_def selection_valid_def MAX_PANES_PER_TAB_def entry_ids_def)

lemma split_tab_pane_ok:
  assumes "tab_sound t" "n \<notin> set (tab_pane_ids t)"
  shows "case split_tab_pane t n target cmd ax pos of (b, u, n') \<Rightarrow>
    if b then tab_ok u \<and> tab_pane_ids u = tab_pane_ids t @ [n] \<and> active_pane u = n \<and> n' = n + 1 \<and>
      (\<exists>p. tp_stack p = pane_stack_default \<and> panes u = panes t @ [p])
    else u = t \<and> n' = n"
proof (cases "can_add_panes (length (panes t)) 1 \<and> pane t target \<noteq> None")
  case False
  then show ?thesis using assms(1) by (auto simp: split_tab_pane_def split: option.splits)
next
  case True
  then obtain p where p: "pane t target = Some p" by blast
  define l where "l = snd (split_layout (layout t) target ax n pos)"
  define q :: "('a, 'b, 'c) terminal_pane" where
    "q = with_pending_command cmd (terminal_pane_new n (tp_profile p))"
  define u where "u = push_pane (t\<lparr>maximized_pane := None, layout := l\<rparr>) q"
  have t: "structure_ok t" "wf_layout (layout t)" "set (pane_ids (layout t)) = set (tab_pane_ids t)"
    "shelf_ok (set (tab_pane_ids t)) t"
    using assms(1) by (simp_all add: tab_sound_def structure_ok_def focus_ok_def)
  have tgt: "target \<in> set (pane_ids (layout t))" using pane_Some(3) [OF t(1) p] t(3) by simp
  have l: "wf_layout l" "set (pane_ids l) = insert n (set (tab_pane_ids t))"
    using split_layout_wf [OF t(2) _ tgt] assms(2) t(3) by (simp_all add: l_def)
  have q: "tp_id q = n" "stack_ok (tp_stack q)" "tp_stack q = pane_stack_default"
    by (simp_all add: q_def with_pending_command_def terminal_pane_new_def)
  have u: "structure_ok u" "tab_pane_ids u = tab_pane_ids t @ [n]"
    using push_pane_structure [of "t\<lparr>maximized_pane := None\<rparr>" q l] t(1) l q(1,2) assms(2) True
    by (auto simp: u_def can_add_panes_def)
  have "shelf_ok (set (tab_pane_ids u)) u"
    using t(4) u(2) by (auto simp: shelf_ok_def u_def)
  moreover have "on_screen u n"
    using t(4) assms(2) by (auto simp: shelf_ok_def on_screen_def u_def)
  ultimately have "tab_ok (activate_pane u n) \<and> active_pane (activate_pane u n) = n"
    using activate_focus [of u n] u by simp
  moreover have "split_layout (layout t) target ax n pos = (True, l)"
    using tgt split_layout_fst [of "layout t" target ax n pos] by (simp add: l_def prod_eq_iff)
  then have "split_tab_pane t n target cmd ax pos = (True, activate_pane u n, n + 1)"
    using True p by (simp add: split_tab_pane_def u_def q_def Let_def)
  moreover have "\<exists>p. tp_stack p = pane_stack_default \<and> panes (activate_pane u n) = panes t @ [p]"
    using q(3) by (auto simp: activate_pane_def u_def push_pane_def Let_def)
  ultimately show ?thesis using u by simp
qed

subsection \<open>Closing\<close>

text \<open>
  The state a close leaves before the focus is restored: the panes are those
  that survive, the rest of the tab may still name the pane that is gone.
\<close>

definition closing :: "u64 \<Rightarrow> ('p, 't, 'v, 'i, 'o) tab \<Rightarrow> bool" where
  "closing gone t \<longleftrightarrow> structure_ok t \<and> gone \<notin> set (tab_pane_ids t) \<and>
     distinct (focus_history t) \<and> set (focus_history t) \<subseteq> insert gone (set (tab_pane_ids t)) \<and>
     distinct (minimized_panes t) \<and> set (minimized_panes t) \<subseteq> insert gone (set (tab_pane_ids t)) \<and>
     active_pane t \<in> insert gone (set (tab_pane_ids t)) \<and>
     (\<forall>m. maximized_pane t = Some m \<longrightarrow> m \<in> insert gone (set (tab_pane_ids t)) - set (minimized_panes t))"

lemma ids_not_Nil: "structure_ok t \<Longrightarrow> tab_pane_ids t \<noteq> []"
  by (auto simp: structure_ok_def)

text \<open>After the closed pane is off the shelf and, if need be, the last pane on it was brought back.\<close>

definition unshelved :: "('p, 't, 'v, 'i, 'o) tab \<Rightarrow> bool" where
  "unshelved t \<longleftrightarrow> structure_ok t \<and> distinct (focus_history t) \<and>
     distinct (minimized_panes t) \<and> set (minimized_panes t) \<subset> set (tab_pane_ids t) \<and>
     (\<forall>m. maximized_pane t = Some m \<longrightarrow> m \<in> set (tab_pane_ids t) - set (minimized_panes t))"

lemma off_shelf_ok:
  assumes "closing gone t"
  shows "\<exists>u. off_shelf gone t = Some u \<and> unshelved u \<and> tab_pane_ids u = tab_pane_ids t \<and>
    panes u = panes t \<and> layout u = layout t \<and>
    (on_screen t (active_pane t) \<longrightarrow> maximized_pane u = None \<or> maximized_pane u = Some (active_pane u))"
proof -
  let ?I = "set (tab_pane_ids t)"
  define t1 where "t1 = (if renaming_pane t = Some gone
     then t\<lparr>renaming_pane := None, rename_buffer := None\<rparr> else t)"
  define t2 where "t2 = (if maximized_pane t1 = Some gone then t1\<lparr>maximized_pane := None\<rparr> else t1)"
  define u where "u = t2\<lparr>minimized_panes := filter (\<lambda>j. j \<noteq> gone) (minimized_panes t2)\<rparr>"
  have c: "structure_ok t" "gone \<notin> ?I" "distinct (focus_history t)"
    "distinct (minimized_panes t)" "set (minimized_panes t) \<subseteq> insert gone ?I"
    "active_pane t \<in> insert gone ?I"
    "\<And>m. maximized_pane t = Some m \<Longrightarrow> m \<in> insert gone ?I - set (minimized_panes t)"
    using assms by (auto simp: closing_def)
  have u: "structure_ok u" "tab_pane_ids u = tab_pane_ids t" "panes u = panes t" "layout u = layout t"
    "minimized_panes u = filter (\<lambda>j. j \<noteq> gone) (minimized_panes t)"
    "active_pane u = active_pane t" "focus_history u = focus_history t"
    "maximized_pane u = (if maximized_pane t = Some gone then None else maximized_pane t)"
    using c(1) by (simp_all add: u_def t2_def t1_def)
  have sub: "set (minimized_panes u) \<subseteq> ?I" "distinct (minimized_panes u)" "distinct (tab_pane_ids u)"
    using c u by (auto simp: structure_ok_def)
  have max: "m \<in> ?I - set (minimized_panes u)" if "maximized_pane u = Some m" for m
    using c(7) [of m] that by (auto simp: u(5,8) split: if_splits)
  have act: "maximized_pane u = None \<or> maximized_pane u = Some (active_pane u)"
    if "on_screen t (active_pane t)"
    using that by (auto simp: on_screen_def u(6,8))
  have off: "off_shelf gone t =
      (if tab_pane_ids u \<noteq> [] \<and> length (tab_pane_ids u) = length (minimized_panes u)
       then map_option (\<lambda>r. activate_pane (u\<lparr>minimized_panes := butlast (minimized_panes u)\<rparr>) r)
              (last_of (minimized_panes u)) else Some u)"
    by (simp only: off_shelf_def Let_def u_def t2_def t1_def)
  show ?thesis
  proof (cases "length (tab_pane_ids u) = length (minimized_panes u)")
    case False
    then have "length (minimized_panes u) < length (tab_pane_ids u)"
      using sub u(2) card_mono [of ?I "set (minimized_panes u)"]
      by (simp add: distinct_card [OF sub(2)] distinct_card [OF sub(3), simplified u(2)])
    then have "set (minimized_panes u) \<subset> ?I"
      using sub u(2) by (intro strict_subset_length) simp_all
    then have "unshelved u" using u(1,2,7) c(3) sub(2) max by (simp add: unshelved_def)
    moreover have "off_shelf gone t = Some u" using off False by simp
    ultimately show ?thesis using u(2-4) act by blast
  next
    case True
    have eq: "set (minimized_panes u) = ?I"
      using sub True u(2) by (metis card_subset_eq distinct_card List.finite_set)
    then have m: "maximized_pane u = None" using max by (cases "maximized_pane u") (auto simp: eq)
    have ne: "minimized_panes u \<noteq> []" using eq ids_not_Nil [OF c(1)] by auto
    then obtain init r where ir: "minimized_panes u = init @ [r]" by (meson rev_exhaust)
    define v where "v = activate_pane (u\<lparr>minimized_panes := init\<rparr>) r"
    have some: "off_shelf gone t = Some v"
      using off True ir ids_not_Nil [OF c(1)] u(2) by (simp add: last_of_def v_def)
    have "set init \<subset> ?I" using eq sub ir by auto
    moreover have "distinct init" using sub(2) ir by simp
    ultimately have "unshelved v"
      using m c u by (auto simp: unshelved_def v_def activate_pane_def)
    moreover have "tab_pane_ids v = tab_pane_ids t" "panes v = panes t" "layout v = layout t"
      "maximized_pane v = None"
      using u m by (simp_all add: v_def activate_pane_def)
    ultimately show ?thesis using some by blast
  qed
qed

lemma refocus_ok:
  assumes "unshelved t" "gone \<notin> set (tab_pane_ids t)"
  shows "tab_sound (refocus gone fallback t) \<and> tab_pane_ids (refocus gone fallback t) = tab_pane_ids t \<and>
    panes (refocus gone fallback t) = panes t \<and>
    (maximized_pane t = None \<or> maximized_pane t = Some (active_pane t) \<longrightarrow>
     on_screen (refocus gone fallback t) (active_pane (refocus gone fallback t)))"
proof -
  let ?I = "set (tab_pane_ids t)"
  define t1 where "t1 = repair_minimized_selection t"
  define t2 where "t2 = (if length (panes t1) = 1 then t1\<lparr>maximized_pane := None\<rparr> else t1)"
  define u where "u = t2\<lparr>focus_history := filter (\<lambda>j. j \<noteq> gone \<and> j \<in> ?I) (focus_history t2)\<rparr>"
  have ref: "refocus gone fallback t =
      (if active_pane u \<noteq> gone \<and> active_pane u \<in> ?I \<and> active_pane u \<notin> set (minimized_panes u) then u
       else activate_pane u (case or_else (find (\<lambda>j. j \<notin> set (minimized_panes u)) (rev (focus_history u)))
              (or_else (map_option first_pane (visible_layout u))
              (or_else (selected_minimized_pane u) (first_of (tab_pane_ids t)))) of
            Some i \<Rightarrow> i | None \<Rightarrow> fallback))"
    by (simp only: refocus_def Let_def u_def t2_def t1_def)
  have u: "structure_ok u" "tab_pane_ids u = tab_pane_ids t" "minimized_panes u = minimized_panes t"
    "active_pane u = active_pane t" "layout u = layout t"
    "focus_history u = filter (\<lambda>j. j \<noteq> gone \<and> j \<in> ?I) (focus_history t)"
    "selected_minimized_pane u = selected_minimized_pane t1"
    "maximized_pane u = None \<or> maximized_pane u = maximized_pane t" "panes u = panes t"
    using assms(1) by (simp_all add: u_def t2_def t1_def unshelved_def)
  have "on_shelf (minimized_panes t) (selected_minimized_pane t1)"
    unfolding t1_def by (rule repair_selected)
  then have shelf: "shelf_ok (set (tab_pane_ids u)) u"
    using assms(1) u by (auto simp: shelf_ok_def unshelved_def)
  have sub: "set (minimized_panes u) \<subset> ?I" using assms(1) u by (simp add: unshelved_def)
  have max: "m \<in> ?I - set (minimized_panes u)" if "maximized_pane u = Some m" for m
    using assms(1) u(3,8) that by (auto simp: unshelved_def)
  show ?thesis
  proof (cases "active_pane u \<noteq> gone \<and> active_pane u \<in> ?I \<and> active_pane u \<notin> set (minimized_panes u)")
    case True
    then have "focus_ok (set (tab_pane_ids u)) u" using shelf max u(2) by (auto simp: focus_ok_def)
    moreover have "on_screen u (active_pane u)"
      if "maximized_pane t = None \<or> maximized_pane t = Some (active_pane t)"
      using that True u(4,8) by (auto simp: on_screen_def)
    ultimately show ?thesis unfolding ref using True u by (auto simp: tab_sound_def)
  next
    case False
    have lay: "set (pane_ids (layout u)) = ?I" using u(1,2) by (simp add: structure_ok_def)
    have "\<exists>l. visible_layout u = Some l \<and> first_pane l \<in> ?I - set (minimized_panes u)"
    proof (cases "maximized_pane u")
      case (Some m)
      then have "m \<in> ?I - set (minimized_panes u)" by (rule max)
      moreover from this have "pane u m \<noteq> None" using pane_None_iff [OF u(1), of m] u(2) by simp
      ultimately show ?thesis using Some by (auto simp: visible_layout_def)
    next
      case m: None
      show ?thesis
      proof (cases "minimized_panes u = []")
        case True
        then show ?thesis using m lay first_pane_in [of "layout u"] by (simp add: visible_layout_def)
      next
        case False
        then obtain l where l: "without_all (layout u) (set (minimized_panes u)) = Some l"
          using sub lay without_all_None_iff [of "layout u" "set (minimized_panes u)"]
          by (cases "without_all (layout u) (set (minimized_panes u))") auto
        from without_all_panes [OF l] first_pane_in [of l] l False m lay show ?thesis
          by (auto simp: visible_layout_def)
      qed
    qed
    then obtain l where l: "visible_layout u = Some l" "first_pane l \<in> ?I - set (minimized_panes u)"
      by blast
    define nxt where "nxt = or_else (find (\<lambda>j. j \<notin> set (minimized_panes u)) (rev (focus_history u)))
              (or_else (map_option first_pane (visible_layout u))
              (or_else (selected_minimized_pane u) (first_of (tab_pane_ids t))))"
    obtain i where i: "nxt = Some i" "i \<in> ?I" "i \<notin> set (minimized_panes u)"
      using l u(6) unfolding nxt_def
      by (cases "find (\<lambda>j. j \<notin> set (minimized_panes u)) (rev (focus_history u))")
        (auto dest!: find_in_set)
    have r: "refocus gone fallback t = activate_pane u i"
      by (simp only: ref if_not_P [OF False] nxt_def [symmetric] i(1) option.case)
    have p: "pane u i \<noteq> None" using pane_None_iff [OF u(1), of i] u(2) i(2) by simp
    have f: "focus_ok (set (tab_pane_ids u)) (activate_pane u i)"
      using shelf max u(2) i(2) p by (auto simp: focus_ok_def shelf_ok_def activate_pane_def)
    have a: "active_pane (activate_pane u i) = i" "panes (activate_pane u i) = panes u"
      "maximized_pane (activate_pane u i) = maximized_pane u"
      "minimized_panes (activate_pane u i) = minimized_panes u"
      using p by (auto simp: activate_pane_def)
    have "maximized_pane u = None"
      if "maximized_pane t = None \<or> maximized_pane t = Some (active_pane t)"
      using that False max u(4,8) assms(2) by (cases "maximized_pane u") auto
    then show ?thesis using u f i(3) a unfolding r by (auto simp: tab_sound_def on_screen_def)
  qed
qed

lemma without_wf:
  assumes "wf_layout l" "without l i = Some l'"
  shows "wf_layout l'" "set (pane_ids l') = set (pane_ids l) - {i}"
proof -
  have p: "pane_ids l' = filter (\<lambda>j. j \<notin> {i}) (pane_ids l)"
    using assms(2) by (simp add: without_as_without_all without_all_panes)
  then show "set (pane_ids l') = set (pane_ids l) - {i}" by auto
  show "wf_layout l'"
    using assms p without_all_ratios [of l "{i}"] by (simp add: wf_layout_def without_as_without_all)
qed

lemma remove_pane_closing:
  assumes "tab_sound t" "i \<in> set (tab_pane_ids t)" "length (panes t) \<noteq> 1"
  shows "\<exists>p u l. remove_pane t i = Some (Some p, u) \<and> without (layout u) i = Some l \<and>
    closing i (u\<lparr>layout := l\<rparr>) \<and> set (tab_pane_ids u) = set (tab_pane_ids t) - {i} \<and>
    set (panes u) \<subseteq> set (panes t) \<and> on_screen u = on_screen t \<and> active_pane u = active_pane t"
proof -
  let ?I = "set (tab_pane_ids t)"
  have t: "structure_ok t" "distinct (tab_pane_ids t)" "wf_layout (layout t)"
    "set (pane_ids (layout t)) = ?I" "shelf_ok ?I t" "active_pane t \<in> ?I"
    "\<And>m. maximized_pane t = Some m \<Longrightarrow> m \<in> ?I - set (minimized_panes t)"
    "pane_indices t = (\<lambda>i. position (\<lambda>j. j = i) (tab_pane_ids t))"
    using assms(1) by (auto simp: tab_sound_def focus_ok_def structure_ok_def)
  obtain k where pos: "position (\<lambda>j. j = i) (tab_pane_ids t) = Some k"
    using assms(2) by (cases "position (\<lambda>j. j = i) (tab_pane_ids t)") (auto simp: position_None_iff)
  then have k: "k < length (panes t)" "tp_id (panes t ! k) = i"
    by (auto simp: tab_pane_ids_def dest: position_SomeD)
  define u where "u = t\<lparr>panes := remove_at k (panes t),
    pane_indices := reindex_from k (remove_at k (panes t)) ((pane_indices t)(i := None))\<rparr>"
  have r: "remove_pane t i = Some (Some (panes t ! k), u)"
    using t(8) pos k by (simp add: remove_pane_def u_def Let_def)
  have ids: "tab_pane_ids u = remove_at k (tab_pane_ids t)"
    by (simp add: u_def tab_pane_ids_def remove_at_def take_map drop_map)
  have kl: "k < length (tab_pane_ids t)" "tab_pane_ids t ! k = i" using k by (simp_all add: tab_pane_ids_def)
  have set_u: "set (tab_pane_ids u) = ?I - {i}" using set_remove_at_distinct [OF t(2) kl(1)] kl ids by simp
  have dist: "distinct (tab_pane_ids u)"
    using t(2) by (simp add: ids remove_at_def set_take_disj_set_drop_if_distinct)
  have "1 < length (tab_pane_ids t)" using assms(2,3) by (cases "tab_pane_ids t") (auto simp: tab_pane_ids_def)
  then have "?I \<noteq> {i}" using t(2) distinct_card [of "tab_pane_ids t"] by auto
  then obtain l where l: "without (layout t) i = Some l"
    using without_None_iff [of "layout t" i] t(4) by (cases "without (layout t) i") auto
  have "structure_ok (u\<lparr>layout := l\<rparr>)"
    unfolding structure_ok_def
  proof (intro conjI)
    show "pane_indices (u\<lparr>layout := l\<rparr>) = (\<lambda>i. position (\<lambda>j. j = i) (tab_pane_ids (u\<lparr>layout := l\<rparr>)))"
      using reindex_removed [of "panes t" k i] t(2,8) k
      by (simp add: u_def tab_pane_ids_def)
    show "length (panes (u\<lparr>layout := l\<rparr>)) \<le> MAX_PANES_PER_TAB"
      using t(1) k by (auto simp: u_def structure_ok_def remove_at_def)
    show "\<forall>p\<in>set (panes (u\<lparr>layout := l\<rparr>)). stack_ok (tp_stack p)"
      using t(1) set_remove_at_subset [of k "panes t"] by (auto simp: u_def structure_ok_def)
  qed (use dist without_wf [OF t(3) l] t(4) set_u in simp_all)
  moreover have "closing i (u\<lparr>layout := l\<rparr>)"
    if "structure_ok (u\<lparr>layout := l\<rparr>)"
    using that t set_u by (auto simp: closing_def shelf_ok_def u_def)
  moreover have "set (panes u) \<subseteq> set (panes t)" "on_screen u = on_screen t" "active_pane u = active_pane t"
    using set_remove_at_subset [of k "panes t"] by (simp_all add: u_def on_screen_def fun_eq_iff)
  ultimately show ?thesis using r l set_u by (auto simp: u_def)
qed

lemma close_tab_pane_ok:
  assumes "tab_sound t"
  shows "\<exists>r. close_tab_pane t i = Some r \<and>
    (case r of TabCloses \<Rightarrow> tab_pane_ids t = [i]
     | TabStays u \<Rightarrow> kept t u \<and> set (tab_pane_ids u) = set (tab_pane_ids t) - {i} \<and>
       set (panes u) \<subseteq> set (panes t))"
proof (cases "i \<in> set (tab_pane_ids t)")
  case False
  then show ?thesis using assms by (auto simp: close_tab_pane_def tab_pane_ids_def kept_refl)
next
  case i: True
  show ?thesis
  proof (cases "length (panes t) = 1")
    case True
    then have "tab_pane_ids t = [i]" using i by (cases "panes t") (auto simp: tab_pane_ids_def)
    moreover have "i \<in> tp_id ` set (panes t)" using i by (simp add: tab_pane_ids_def)
    ultimately show ?thesis using True by (simp add: close_tab_pane_def)
  next
    case False
    obtain p u l where u: "remove_pane t i = Some (Some p, u)" "without (layout u) i = Some l"
      "closing i (u\<lparr>layout := l\<rparr>)" "set (tab_pane_ids u) = set (tab_pane_ids t) - {i}"
      "set (panes u) \<subseteq> set (panes t)" "on_screen u = on_screen t" "active_pane u = active_pane t"
      using remove_pane_closing [OF assms i False] by blast
    obtain v where v: "off_shelf i (u\<lparr>layout := l\<rparr>) = Some v" "unshelved v"
      "tab_pane_ids v = tab_pane_ids (u\<lparr>layout := l\<rparr>)" "panes v = panes u"
      "on_screen t (active_pane t) \<longrightarrow> maximized_pane v = None \<or> maximized_pane v = Some (active_pane v)"
      using off_shelf_ok [OF u(3)] u(6,7) by auto
    have "i \<notin> set (tab_pane_ids v)" using v(3) u(4) by simp
    from refocus_ok [OF v(2) this, of "first_pane l"] v(5)
    have "kept t (refocus i (first_pane l) v)" "tab_pane_ids (refocus i (first_pane l) v) = tab_pane_ids v"
      "panes (refocus i (first_pane l) v) = panes v"
      unfolding kept_def by blast+
    moreover have "close_tab_pane t i = Some (TabStays (refocus i (first_pane l) v))"
      using i False u v by (simp add: close_tab_pane_def restore_focus_after_close_def tab_pane_ids_def)
    ultimately show ?thesis using v(3,4) u(4,5) by simp
  qed
qed

subsection \<open>Rearranging and opening\<close>

lemma rearrange_ok:
  assumes "tab_sound t" "wf_layout l" "set (pane_ids l) = set (pane_ids (layout t))"
  shows "kept t (t\<lparr>layout := l\<rparr>)"
  using assms by (simp add: kept_def tab_sound_def) (simp add: structure_ok_def)

lemma new_tab_ok: "tab_ok (new_tab i n profile cmd icon)"
  by (simp add: tab_ok_def tab_sound_def structure_ok_def focus_ok_def shelf_ok_def on_shelf_def
      on_screen_def new_tab_def tab_pane_ids_def with_pending_command_def with_label_number_def
      terminal_pane_new_def wf_layout_def MAX_PANES_PER_TAB_def fun_eq_iff psubset_eq)

lemma visible_layout_panes:
  assumes "tab_sound t"
  shows "\<exists>l. visible_layout t = Some l \<and> ratios_ok l \<and> set (pane_ids l) = {i. pane_is_visible t i}"
proof -
  let ?I = "set (tab_pane_ids t)"
  have t: "structure_ok t" "ratios_ok (layout t)" "set (pane_ids (layout t)) = ?I"
    "set (minimized_panes t) \<subset> ?I"
    using tab_soundD [OF assms] by (auto simp: shelf_ok_def wf_layout_def)
  note vis = visible_on_screen [OF assms] on_screen_def
  show ?thesis
  proof (cases "maximized_pane t")
    case (Some m)
    then have m: "m \<in> ?I" "m \<notin> set (minimized_panes t)" using tab_soundD(7) [OF assms] by auto
    then obtain p where "pane t m = Some p" using pane_None_iff [OF t(1), of m] by blast
    then show ?thesis using Some m by (auto simp: visible_layout_def vis)
  next
    case None
    show ?thesis
    proof (cases "minimized_panes t = []")
      case True
      then show ?thesis using None t by (auto simp: visible_layout_def vis)
    next
      case False
      then obtain l where l: "without_all (layout t) (set (minimized_panes t)) = Some l"
        using t(3,4) without_all_None_iff [of "layout t" "set (minimized_panes t)"]
        by (cases "without_all (layout t) (set (minimized_panes t))") auto
      have "ratios_ok l" using without_all_ratios [OF t(2), of "set (minimized_panes t)"] l by simp
      with without_all_panes [OF l] l None False t show ?thesis
        by (auto simp: visible_layout_def vis)
    qed
  qed
qed

end
