(* ===== verification/Tab_Renumber.thy ===== *)
theory Tab_Renumber
  imports Tab_Invariant
begin

text \<open>
  A tab that moves to another window is renumbered (\<open>reassign_ids\<close>).  The new
  identifiers are consecutive, the map from old to new is one to one, and every
  reference the tab holds is carried along it, so the invariant survives.  The
  selection inside a stack survives when the new identifiers cannot be mistaken
  for old ones, and only then.
\<close>

section \<open>Consecutive identifiers\<close>

definition fresh_ids :: "u64 \<Rightarrow> nat \<Rightarrow> u64 list" where
  "fresh_ids n k = map (\<lambda>i. n + of_nat i) [0..<k]"

lemma fresh_ids_simps [simp]:
  "fresh_ids n 0 = []" "fresh_ids n (Suc k) = n # fresh_ids (n + 1) k"
  "length (fresh_ids n k) = k"
  by (simp_all add: fresh_ids_def upt_conv_Cons map_Suc_upt [symmetric] algebra_simps del: upt_Suc)

lemma fresh_ids_append: "fresh_ids n (j + k) = fresh_ids n j @ fresh_ids (n + of_nat j) k"
  by (induction j arbitrary: n) (simp_all add: algebra_simps)

lemma distinct_fresh_ids: "k \<le> 2 ^ 64 \<Longrightarrow> distinct (fresh_ids n k)"
proof -
  assume k: "k \<le> 2 ^ 64"
  have "x = y" if "(word_of_nat x :: u64) = word_of_nat y" "x < k" "y < k" for x y
  proof -
    have "unat (word_of_nat x :: u64) = x" "unat (word_of_nat y :: u64) = y"
      using that(2,3) k by (simp_all add: unat_of_nat)
    with that(1) show ?thesis by metis
  qed
  then show ?thesis by (auto simp: fresh_ids_def distinct_map inj_on_def)
qed

lemma renumber_panes_spec:
  "renumber_panes n ps = (ps', pairs, m) \<Longrightarrow>
   map tp_id ps' = fresh_ids n (length ps) \<and> pairs = zip (map tp_id ps) (fresh_ids n (length ps)) \<and>
   map tp_stack ps' = map tp_stack ps \<and> m = n + of_nat (length ps)"
  by (induction n ps arbitrary: ps' pairs m rule: renumber_panes.induct)
    (fastforce split: prod.splits simp: algebra_simps)+

lemma renumber_entries_spec:
  "renumber_entries n sel es = (es', sel', m) \<Longrightarrow>
   map sp_id es' = fresh_ids n (length es) \<and> m = n + of_nat (length es)"
  by (induction n sel es arbitrary: es' sel' m rule: renumber_entries.induct)
    (fastforce split: prod.splits simp: algebra_simps)+

lemma renumber_stacks_spec:
  "renumber_stacks n ps = (ps', m) \<Longrightarrow> \<forall>p\<in>set ps. stack_ok (tp_stack p) \<Longrightarrow>
   map tp_id ps' = map tp_id ps \<and> (\<forall>p\<in>set ps'. stack_ok (tp_stack p)) \<and>
   concat (map (\<lambda>p. entry_ids (tp_stack p)) ps') = fresh_ids n (\<Sum>p\<leftarrow>ps. length (entries (tp_stack p))) \<and>
   m = n + of_nat (\<Sum>p\<leftarrow>ps. length (entries (tp_stack p)))"
proof (induction n ps arbitrary: ps' m rule: renumber_stacks.induct)
  case (2 n p ps)
  obtain es sel k where e: "renumber_entries n (selected (tp_stack p)) (entries (tp_stack p)) = (es, sel, k)"
    by (metis prod_cases3)
  obtain qs k' where q: "renumber_stacks k ps = (qs, k')" by fastforce
  let ?st = "repair_selection \<lparr>entries = es, selected = sel\<rparr>"
  have len: "length (entries (tp_stack p)) < 64"
    using "2.prems"(2) by (simp add: stack_ok_def MAX_PANES_PER_TAB_def)
  have es: "map sp_id es = fresh_ids n (length (entries (tp_stack p)))"
    "k = n + of_nat (length (entries (tp_stack p)))"
    using renumber_entries_spec [OF e] by simp_all
  then have "length es = length (entries (tp_stack p))" by (metis length_map fresh_ids_simps(3))
  moreover have "entry_ids ?st = map sp_id es"
    using entry_ids_ops(2) [of "\<lparr>entries = es, selected = sel\<rparr>"] by (simp add: entry_ids_def)
  ultimately have "stack_ok ?st"
    using len es distinct_fresh_ids [of "length (entries (tp_stack p))" n]
    by (simp add: stack_ok_iff repair_selection_valid MAX_PANES_PER_TAB_def)
  moreover have "map tp_id qs = map tp_id ps \<and> (\<forall>p\<in>set qs. stack_ok (tp_stack p)) \<and>
      concat (map (\<lambda>p. entry_ids (tp_stack p)) qs) = fresh_ids k (\<Sum>p\<leftarrow>ps. length (entries (tp_stack p))) \<and>
      k' = k + of_nat (\<Sum>p\<leftarrow>ps. length (entries (tp_stack p)))"
    using "2.IH" [OF e [symmetric] refl q] "2.prems"(2) by simp
  ultimately show ?case using "2.prems"(1) e q es \<open>entry_ids ?st = map sp_id es\<close>
    by (auto simp: algebra_simps fresh_ids_append)
qed simp

section \<open>The invariant survives\<close>

lemma collect_map_zip:
  assumes "distinct xs" "length xs = length ys"
  shows "collect_map (zip xs ys) = map_of (zip xs ys)"
proof -
  have "distinct (map fst (zip xs ys))" using assms by simp
  then show ?thesis unfolding collect_map_def by (intro map_of_inject_set [THEN iffD2]) (auto simp: rev_map [symmetric])
qed

lemma map_of_zip_bij:
  assumes "distinct xs" "distinct ys" "length xs = length ys"
  shows "dom (map_of (zip xs ys)) = set xs"
    and "inj_on (\<lambda>x. the (map_of (zip xs ys) x)) (set xs)"
    and "(\<lambda>x. the (map_of (zip xs ys) x)) ` set xs = set ys"
proof -
  show "dom (map_of (zip xs ys)) = set xs" using assms by simp
  have nth: "the (map_of (zip xs ys) (xs ! i)) = ys ! i" if "i < length xs" for i
    using that assms by (simp add: map_of_zip_nth)
  show "inj_on (\<lambda>x. the (map_of (zip xs ys) x)) (set xs)"
  proof (rule inj_onI)
    fix a b assume "a \<in> set xs" "b \<in> set xs" and eq: "the (map_of (zip xs ys) a) = the (map_of (zip xs ys) b)"
    then obtain i j where "a = xs ! i" "i < length xs" "b = xs ! j" "j < length xs"
      by (auto simp: in_set_conv_nth)
    with eq nth assms show "a = b" by (simp add: nth_eq_iff_index_eq)
  qed
  show "(\<lambda>x. the (map_of (zip xs ys) x)) ` set xs = set ys"
    using nth assms(3) by (force simp: in_set_conv_nth image_iff)
qed

lemma map_filter_total: "set xs \<subseteq> dom m \<Longrightarrow> List.map_filter m xs = map (\<lambda>x. the (m x)) xs"
  by (induction xs) (auto simp: List.map_filter_simps)

lemma index_panes_position:
  "distinct (map tp_id ps) \<Longrightarrow> index_panes ps = (\<lambda>i. position (\<lambda>j. j = i) (map tp_id ps))"
proof -
  assume d: "distinct (map tp_id ps)"
  have f: "map (\<lambda>(k, p). (tp_id p, k)) (enumerate n ps) = zip (map tp_id ps) [n..<n + length ps]" for n
    by (induction ps arbitrary: n) (simp_all add: upt_conv_Cons del: upt_Suc)
  have "index_panes ps i = position (\<lambda>j. j = i) (map tp_id ps)" for i
  proof (cases "position (\<lambda>j. j = i) (map tp_id ps)")
    case None
    then have "i \<notin> set (map tp_id ps)" by (auto simp: position_None_iff simp del: position_map)
    with None show ?thesis using d
      by (simp add: index_panes_def f collect_map_zip map_of_zip_is_None del: position_map)
  next
    case (Some k)
    then have "k < length (map tp_id ps)" "map tp_id ps ! k = i" by (auto dest: position_SomeD simp del: position_map)
    with Some show ?thesis using d map_of_zip_nth [of "map tp_id ps" "[0..<length ps]" k]
      by (simp add: index_panes_def f collect_map_zip del: position_map)
  qed
  then show ?thesis by blast
qed

text \<open>The focus of a tab carried along a one-to-one renaming of its panes.\<close>

lemma focus_ok_rename:
  assumes "focus_ok I t" "dom m = I" "inj_on (\<lambda>i. the (m i)) I"
    and "active_pane u = the (m (active_pane t))"
    and "focus_history u = map (\<lambda>i. the (m i)) (focus_history t)"
    and "minimized_panes u = map (\<lambda>i. the (m i)) (minimized_panes t)"
    and "maximized_pane u = Option.bind (maximized_pane t) m"
    and "selected_minimized_pane u = Option.bind (selected_minimized_pane t) m"
  shows "focus_ok ((\<lambda>i. the (m i)) ` I) u \<and>
    (on_screen t (active_pane t) \<longrightarrow> on_screen u (active_pane u))"
proof -
  let ?s = "\<lambda>i. the (m i)"
  have t: "distinct (focus_history t)" "set (focus_history t) \<subseteq> I" "distinct (minimized_panes t)"
    "set (minimized_panes t) \<subset> I" "on_shelf (minimized_panes t) (selected_minimized_pane t)"
    "active_pane t \<in> I" "\<And>m. maximized_pane t = Some m \<Longrightarrow> m \<in> I - set (minimized_panes t)"
    using assms(1) by (auto simp: focus_ok_def shelf_ok_def)
  have some: "m j = Some (?s j)" if "j \<in> I" for j using that assms(2) by (metis domD option.sel)
  have inj: "inj_on ?s (set (focus_history t))" "inj_on ?s (set (minimized_panes t))"
    using t(2,4) assms(3) by (auto intro: inj_on_subset)
  have "?s ` set (minimized_panes t) \<subset> ?s ` I"
    using t(4) assms(3) by (metis inj_on_image_eq_iff image_mono order_refl psubset_eq)
  moreover have "on_shelf (minimized_panes u) (selected_minimized_pane u)"
  proof (cases "selected_minimized_pane t")
    case (Some j)
    then have "j \<in> set (minimized_panes t)" using t(5) by (simp add: on_shelf_def)
    moreover from this obtain x where "m j = Some x" using some t(4) by blast
    ultimately show ?thesis
      using Some assms(6,8) by (auto simp: on_shelf_def image_iff intro!: bexI [of _ j])
  qed (use t(5) assms(6,8) in \<open>simp add: on_shelf_def\<close>)
  ultimately have "shelf_ok (?s ` I) u"
    using t inj assms(5,6) by (auto simp: shelf_ok_def distinct_map)
  moreover have off: "?s j \<notin> ?s ` set (minimized_panes t)" if "j \<in> I" "j \<notin> set (minimized_panes t)" for j
    using that t(4) assms(3) by (auto dest: inj_onD)
  have "on_screen u (active_pane u)" if "on_screen t (active_pane t)"
    using that off [OF t(6)] some [OF t(6)] assms(4,6,7) by (auto simp: on_screen_def)
  moreover have "j \<in> ?s ` I - set (minimized_panes u)" if "maximized_pane u = Some j" for j
  proof -
    have "Option.bind (maximized_pane t) m = Some j" using that assms(7) by simp
    then obtain x where x: "maximized_pane t = Some x" "m x = Some j"
      by (auto simp: bind_eq_Some_conv)
    then have "x \<in> I" "x \<notin> set (minimized_panes t)" "j = ?s x" using t(7) by auto
    then show ?thesis using off [of x] assms(6) by auto
  qed
  ultimately show ?thesis using t(6) assms(4) by (simp add: focus_ok_def)
qed

lemma reassign_ids_ok:
  assumes "tab_sound t"
  shows "\<exists>u ids m. reassign_ids t i n = Some (u, ids, m) \<and> kept t u \<and>
    tab_pane_ids u = fresh_ids n (length (panes t)) \<and>
    tab_pane_ids u = map (\<lambda>i. the (ids i)) (tab_pane_ids t) \<and>
    active_pane u = the (ids (active_pane t)) \<and>
    pane_ids (layout u) = map (\<lambda>i. the (ids i)) (pane_ids (layout t)) \<and>
    concat (map (\<lambda>p. entry_ids (tp_stack p)) (panes u)) = fresh_ids (n + of_nat (length (panes t)))
      (\<Sum>p\<leftarrow>panes t. length (entries (tp_stack p))) \<and>
    m = n + of_nat (length (panes t)) + of_nat (\<Sum>p\<leftarrow>panes t. length (entries (tp_stack p)))"
proof -
  let ?old = "tab_pane_ids t" and ?new = "fresh_ids n (length (panes t))"
  let ?I = "set ?old"
  have t: "structure_ok t" "distinct ?old" "wf_layout (layout t)" "set (pane_ids (layout t)) = ?I"
    "length (panes t) \<le> 64" "\<forall>p\<in>set (panes t). stack_ok (tp_stack p)"
    "shelf_ok ?I t" "active_pane t \<in> ?I"
    using assms by (simp_all add: tab_sound_def focus_ok_def structure_ok_def MAX_PANES_PER_TAB_def)
  have len: "length ?old = length ?new" by (simp add: tab_pane_ids_def)
  have dnew: "distinct ?new" using t(5) by (intro distinct_fresh_ids) simp
  obtain ps pairs k where ps: "renumber_panes n (panes t) = (ps, pairs, k)" by (metis prod_cases3)
  have p: "map tp_id ps = ?new" "pairs = zip ?old ?new" "map tp_stack ps = map tp_stack (panes t)"
    "k = n + of_nat (length (panes t))"
    using renumber_panes_spec [OF ps] by (simp_all add: tab_pane_ids_def)
  have stacks: "\<forall>p\<in>set ps. stack_ok (tp_stack p)"
    using t(6) p(3) by (metis (no_types, lifting) image_eqI image_iff list.set_map)
  obtain qs m where qs: "renumber_stacks k ps = (qs, m)" by fastforce
  have q: "map tp_id qs = ?new" "\<forall>p\<in>set qs. stack_ok (tp_stack p)"
    "m = k + of_nat (\<Sum>p\<leftarrow>ps. length (entries (tp_stack p)))"
    "concat (map (\<lambda>p. entry_ids (tp_stack p)) qs) = fresh_ids k (\<Sum>p\<leftarrow>ps. length (entries (tp_stack p)))"
    using renumber_stacks_spec [OF qs stacks] p(1) by simp_all
  have sum: "(\<Sum>p\<leftarrow>ps. length (entries (tp_stack p))) = (\<Sum>p\<leftarrow>panes t. length (entries (tp_stack p)))"
    using arg_cong [OF p(3), of "map (length \<circ> entries)"] by (simp add: comp_def)
  define ids where "ids = map_of (zip ?old ?new)"
  let ?s = "\<lambda>i. the (ids i)"
  have bij: "dom ids = ?I" "inj_on ?s ?I" "?s ` ?I = set ?new"
    using map_of_zip_bij [OF t(2) dnew len] by (simp_all add: ids_def)
  have coll: "collect_map pairs = ids" using t(2) len by (simp add: p(2) collect_map_zip ids_def)
  obtain l where l: "remap_pane_ids (layout t) ids = Some l"
    using remap_pane_ids_total [of "layout t" ids] bij(1) t(4) by auto
  have lp: "pane_ids l = map ?s (pane_ids (layout t))"
    using arg_cong [OF remap_pane_ids_map [OF l], of "map the"] by (simp add: comp_def)
  have ne: "pairs \<noteq> []" using ids_not_Nil [OF t(1)] len by (cases ?old; cases ?new) (auto simp: p(2))
  obtain a where a: "ids (active_pane t) = Some a" using t(8) bij(1) by blast
  define u where "u = t\<lparr>tab_id := i, panes := qs, pane_indices := index_panes qs, layout := l,
     active_pane := a, focus_history := List.map_filter ids (focus_history t),
     maximized_pane := Option.bind (maximized_pane t) ids,
     minimized_panes := List.map_filter ids (minimized_panes t),
     selected_minimized_pane := Option.bind (selected_minimized_pane t) ids,
     renaming_pane := None, rename_buffer := None, editing_overlay_pane := None,
     overlay_buffer := None, overlay_style_picker := None\<rparr>"
  have r: "reassign_ids t i n = Some (u, ids, m)"
    using ps qs ne coll l a by (simp add: reassign_ids_def u_def Let_def)
  have uids: "tab_pane_ids u = ?new" by (simp add: u_def tab_pane_ids_def q(1))
  have sub: "set (focus_history t) \<subseteq> ?I" "set (minimized_panes t) \<subset> ?I"
    using t(7) by (simp_all add: shelf_ok_def)
  have maps: "List.map_filter ids (focus_history t) = map ?s (focus_history t)"
    "List.map_filter ids (minimized_panes t) = map ?s (minimized_panes t)"
    using sub bij(1) by (auto intro!: map_filter_total)
  have "structure_ok u"
    unfolding structure_ok_def uids
  proof (intro conjI)
    show "pane_indices u = (\<lambda>i. position (\<lambda>j. j = i) ?new)"
      using index_panes_position [of qs] q(1) dnew by (simp add: u_def)
    show "wf_layout (layout u)"
      using t(3,4) bij(2) remap_pane_ids_ratios [OF l] lp by (simp add: u_def wf_layout_def distinct_map)
    show "set (pane_ids (layout u)) = set ?new" using lp t(4) bij(3) by (simp add: u_def)
    show "length (panes u) \<le> MAX_PANES_PER_TAB"
      using arg_cong [OF q(1), of length] t(5) by (simp add: u_def MAX_PANES_PER_TAB_def)
  qed (use dnew q(2) in \<open>simp_all add: u_def\<close>)
  moreover have "focus_ok (?s ` ?I) u \<and> (on_screen t (active_pane t) \<longrightarrow> on_screen u (active_pane u))"
    using assms by (intro focus_ok_rename [OF _ bij(1,2)])
      (simp_all add: tab_sound_def u_def maps a)
  ultimately have "kept t u" by (simp add: kept_def tab_sound_def uids bij(3))
  moreover have "?new = map ?s ?old"
    using t(2) len by (intro nth_equalityI) (simp_all add: ids_def map_of_zip_nth)
  ultimately show ?thesis using r uids a lp q(3,4) p(4) sum by (auto simp: u_def)
qed

section \<open>The selection inside a stack\<close>

text \<open>
  Renumbering carries the selection to the same entry as long as no new
  identifier equals an old one of the same stack.
\<close>

lemma renumber_entries_other:
  "renumber_entries n sel es = (es', sel', m) \<Longrightarrow> \<forall>e\<in>set es. sel \<noteq> Stacked (sp_id e) \<Longrightarrow> sel' = sel"
  by (induction n sel es arbitrary: es' sel' m rule: renumber_entries.induct)
    (auto split: prod.splits)

lemma renumber_entries_selection:
  assumes "renumber_entries n (Stacked i) es = (es', sel', m)"
    and "position (\<lambda>e. sp_id e = i) es = Some k"
    and "set (map sp_id es) \<inter> set (fresh_ids n (length es)) = {}"
  shows "sel' = Stacked (fresh_ids n (length es) ! k)"
  using assms
proof (induction es arbitrary: n es' sel' k m)
  case (Cons e es)
  show ?case
  proof (cases "sp_id e = i")
    case True
    obtain es2 s2 m2 where r: "renumber_entries (n + 1) (Stacked n) es = (es2, s2, m2)"
      by (metis prod_cases3)
    have "\<forall>e\<in>set es. Stacked n \<noteq> Stacked (sp_id e)" using Cons.prems(3) by auto
    then have "s2 = Stacked n" by (rule renumber_entries_other [OF r])
    with r True Cons.prems show ?thesis by auto
  next
    case False
    obtain es2 s2 m2 where r: "renumber_entries (n + 1) (Stacked i) es = (es2, s2, m2)"
      by (metis prod_cases3)
    obtain k' where k: "position (\<lambda>e. sp_id e = i) es = Some k'" "k = Suc k'"
      using Cons.prems(2) False by auto
    have "s2 = Stacked (fresh_ids (n + 1) (length es) ! k')"
      using Cons.IH [OF r k(1)] Cons.prems(3) by auto
    with r False Cons.prems(1) k show ?thesis by auto
  qed
qed simp

end
