(* ===== verification/Tab_Steps.thy ===== *)
theory Tab_Steps
  imports Tab_Renumber
begin

text \<open>
  What can happen to a tab, as a step relation over the tab and its window's
  counter of pane identifiers, with reachability from a new tab.  Any pane can be
  given the focus, as \<open>activate_pane\<close> allows; a run remembers whether every pane
  that was given it could be seen at that moment.
\<close>

section \<open>Selecting on the shelf\<close>

definition shelf_pos :: "('p, 't, 'v, 'i, 'o) tab \<Rightarrow> nat" where
  "shelf_pos t = (case Option.bind (selected_minimized_pane t)
     (\<lambda>i. position (\<lambda>j. j = i) (minimized_panes t)) of None \<Rightarrow> 0 | Some k \<Rightarrow> k)"

definition shelf_selected :: "('p, 't, 'v, 'i, 'o) tab \<Rightarrow> bool" where
  "shelf_selected t \<longleftrightarrow> minimized_panes t \<noteq> [] \<and> distinct (minimized_panes t) \<and>
     on_shelf (minimized_panes t) (selected_minimized_pane t)"

lemma shelf_selectedE:
  assumes "shelf_selected t"
  obtains i k where "selected_minimized_pane t = Some i" "position (\<lambda>j. j = i) (minimized_panes t) = Some k"
    "shelf_pos t = k" "k < length (minimized_panes t)" "minimized_panes t ! k = i"
proof -
  obtain i where i: "selected_minimized_pane t = Some i" "i \<in> set (minimized_panes t)"
    using assms by (auto simp: shelf_selected_def on_shelf_def split: option.splits)
  then obtain k where "position (\<lambda>j. j = i) (minimized_panes t) = Some k"
    by (cases "position (\<lambda>j. j = i) (minimized_panes t)") (auto simp: position_None_iff)
  with i that show thesis by (auto simp: shelf_pos_def dest: position_SomeD)
qed

abbreviation select_adjacent :: "bool \<Rightarrow> ('p, 't, 'v, 'i, 'o) tab \<Rightarrow> ('p, 't, 'v, 'i, 'o) tab" where
  "select_adjacent fwd t \<equiv> snd (the (select_adjacent_minimized t fwd))"

lemma select_adjacent_pos:
  assumes "shelf_selected t"
  shows "select_adjacent_minimized t fwd = Some (True, t\<lparr>selected_minimized_pane :=
    Some (minimized_panes t ! cycle_index fwd (length (minimized_panes t)) (shelf_pos t))\<rparr>)"
  using assms
  by (elim shelf_selectedE)
    (auto simp: select_adjacent_minimized_def shelf_selected_def Let_def get_def cycle_index_less)

interpretation shelf: cyclic_selection
  select_adjacent shelf_pos "\<lambda>t. length (minimized_panes t)"
  "\<lambda>t :: ('p, 't, 'v, 'i, 'o) tab. t\<lparr>selected_minimized_pane := None\<rparr>" shelf_selected
proof unfold_locales
  fix s t :: "('p, 't, 'v, 'i, 'o) tab" and fwd
  assume s: "shelf_selected s"
  obtain k where k: "shelf_pos s = k" "k < length (minimized_panes s)"
    using s by (rule shelf_selectedE)
  let ?n = "cycle_index fwd (length (minimized_panes s)) k"
  have n: "?n < length (minimized_panes s)" by (rule cycle_index_less [OF k(2)])
  show "shelf_pos s < length (minimized_panes s)" using k by simp
  show "shelf_selected (select_adjacent fwd s)"
    using s k n by (simp add: select_adjacent_pos) (simp add: shelf_selected_def on_shelf_def)
  show "length (minimized_panes (select_adjacent fwd s)) = length (minimized_panes s)"
    using s by (simp add: select_adjacent_pos)
  show "(select_adjacent fwd s)\<lparr>selected_minimized_pane := None\<rparr> =
      s\<lparr>selected_minimized_pane := None\<rparr>"
    using s by (simp add: select_adjacent_pos)
  show "shelf_pos (select_adjacent fwd s) =
      cycle_index fwd (length (minimized_panes s)) (shelf_pos s)"
    using s k n position_distinct [of "minimized_panes s" ?n]
    by (simp add: select_adjacent_pos) (simp add: shelf_pos_def shelf_selected_def)
  assume t: "shelf_selected t" and p: "shelf_pos s = shelf_pos t"
    and f: "s\<lparr>selected_minimized_pane := None\<rparr> = t\<lparr>selected_minimized_pane := None\<rparr>"
  have "minimized_panes s = minimized_panes t" using arg_cong [OF f, of minimized_panes] by simp
  moreover have "selected_minimized_pane s = Some (minimized_panes s ! shelf_pos s)"
    using s by (elim shelf_selectedE) auto
  moreover have "selected_minimized_pane t = Some (minimized_panes t ! shelf_pos t)"
    using t by (elim shelf_selectedE) auto
  ultimately have "selected_minimized_pane s = selected_minimized_pane t" using p by simp
  with f show "s = t" by (cases s; cases t) simp
qed

section \<open>Steps\<close>

definition on_stack ::
  "(('p, 't, 'v) pane_stack \<Rightarrow> ('p, 't, 'v) pane_stack) \<Rightarrow> ('p, 't, 'v) terminal_pane \<Rightarrow> ('p, 't, 'v) terminal_pane" where
  "on_stack f p = p\<lparr>tp_stack := f (tp_stack p)\<rparr>"

inductive tab_step ::
  "('p, 't, 'v, 'i, 'o) tab \<times> u64 \<Rightarrow> ('p, 't, 'v, 'i, 'o) tab \<times> u64 \<Rightarrow> bool" where
  maximize: "tab_step (t, n) (snd (toggle_maximize t i), n)"
| minimizing: "minimize t i = Some (b, u) \<Longrightarrow> tab_step (t, n) (u, n)"
| restoring: "restore_minimized t i = Some (b, u) \<Longrightarrow> tab_step (t, n) (u, n)"
| restoring_last: "restore_last_minimized t = Some (b, u) \<Longrightarrow> tab_step (t, n) (u, n)"
| shelf_previous: "select_previous_minimized t = Some (b, u) \<Longrightarrow> tab_step (t, n) (u, n)"
| shelf_next: "select_next_minimized t = Some (b, u) \<Longrightarrow> tab_step (t, n) (u, n)"
| splitting: "n \<noteq> - 1 \<Longrightarrow> split_tab_pane t n target cmd ax pos = (b, u, n') \<Longrightarrow> tab_step (t, n) (u, n')"
| closing_pane: "close_tab_pane t i = Some (TabStays u) \<Longrightarrow> tab_step (t, n) (u, n)"
| rotating: "tab_step (t, n) (t\<lparr>layout := snd (rotate_pane (layout t) i rd)\<rparr>, n)"
| moving_pane: "tab_step (t, n) (t\<lparr>layout := snd (move_pane (layout t) i d)\<rparr>, n)"
| swapping_panes: "tab_step (t, n) (t\<lparr>layout := snd (swap_panes (layout t) i j)\<rparr>, n)"
| resizing_pane: "tab_step (t, n) (t\<lparr>layout := snd (adjust_resize_boundary (layout t) i axis delta)\<rparr>, n)"
| labelling: "tab_step (t, n) (apply_generated_labels t labels, n)"
| choosing_icon: "tab_step (t, n) (set_icon_override t icon, n)"
| moving_window:
    "unat m + length (panes t) + (\<Sum>p\<leftarrow>panes t. length (entries (tp_stack p))) < 2 ^ 64 \<Longrightarrow>
     reassign_ids t i m = Some (u, ids, m') \<Longrightarrow> tab_step (t, n) (u, m')"
| pushing_entry:
    "n \<noteq> - 1 \<Longrightarrow>
     pane_mut t i (on_stack (\<lambda>s. snd (push_entry s (stacked_pane_new n cmd prof wd wsl)))) = Some u \<Longrightarrow>
     tab_step (t, n) (u, n + 1)"
| removing_entry:
    "pane_mut t i (on_stack (\<lambda>s. snd (remove_entry s e))) = Some u \<Longrightarrow> tab_step (t, n) (u, n)"
| shell_exiting:
    "pane_mut t i (\<lambda>p. on_stack select_after_base_exit
       (p\<lparr>tp_terminal := None, tp_view := None, tp_pending_command := None\<rparr>)) = Some u \<Longrightarrow>
     tab_step (t, n) (u, n)"
| cycling_entries:
    "pane t i = Some p \<Longrightarrow> cycle (tp_stack p) fwd = Some (r, st) \<Longrightarrow>
     pane_mut t i (on_stack (\<lambda>_. st)) = Some u \<Longrightarrow> tab_step (t, n) (u, n)"
| cycling_commands:
    "pane t i = Some p \<Longrightarrow> cycle_without_base (tp_stack p) fwd = Some (r, st) \<Longrightarrow>
     pane_mut t i (on_stack (\<lambda>_. st)) = Some u \<Longrightarrow> tab_step (t, n) (u, n)"

inductive_cases tab_stepE: "tab_step s s'"

text \<open>\<open>seen\<close>: every pane given the focus so far was visible then.\<close>

inductive tab_reachable :: "bool \<Rightarrow> ('p, 't, 'v, 'i, 'o) tab \<times> u64 \<Rightarrow> bool" where
  opened: "n \<noteq> - 1 \<Longrightarrow> tab_reachable True (new_tab i n profile cmd icon, n + 1)"
| stepped: "tab_reachable seen s \<Longrightarrow> tab_step s s' \<Longrightarrow> tab_reachable seen s'"
| focused: "tab_reachable seen (t, n) \<Longrightarrow>
    tab_reachable (seen \<and> pane_is_visible t i) (activate_pane t i, n)"
| entry_focused: "tab_reachable seen (t, n) \<Longrightarrow>
    tab_reachable (seen \<and> pane_is_visible t i) (activate_stack_entry t i entry, n)"

text \<open>Every identifier of a pane or an entry is below the window's counter.\<close>

definition used_ids :: "('p, 't, 'v, 'i, 'o) tab \<Rightarrow> u64 set" where
  "used_ids t = set (tab_pane_ids t) \<union> (\<Union>p\<in>set (panes t). set (entry_ids (tp_stack p)))"

definition ids_below :: "('p, 't, 'v, 'i, 'o) tab \<Rightarrow> u64 \<Rightarrow> bool" where
  "ids_below t n \<longleftrightarrow> (\<forall>i\<in>used_ids t. i < n)"

lemma ids_below_mono: "ids_below t n \<Longrightarrow> used_ids u \<subseteq> used_ids t \<Longrightarrow> ids_below u n"
  by (auto simp: ids_below_def)

lemma used_ids_panes: "panes u = panes t \<Longrightarrow> used_ids u = used_ids t"
  by (simp add: used_ids_def tab_pane_ids_def)

lemma unat_succ: "(n :: u64) \<noteq> - 1 \<Longrightarrow> unat (n + 1) = Suc (unat n)"
  by (metis add.commute add.left_inverse add_left_cancel unatSuc)

lemma fresh_ids_below:
  assumes "unat n + k + r < 2 ^ 64" "i \<in> set (fresh_ids n k)"
  shows "i < n + of_nat k + of_nat r"
proof -
  obtain j where j: "i = n + of_nat j" "j < k" using assms(2) by (auto simp: fresh_ids_def)
  have "n + of_nat k + of_nat r = word_of_nat (unat n + k + r)" "i = word_of_nat (unat n + j)"
    by (simp_all add: j)
  then have "unat (n + of_nat k + of_nat r) = unat n + k + r" "unat i = unat n + j"
    using assms(1) j(2) by (simp_all add: unat_of_nat del: of_nat_add)
  then show ?thesis using j(2) by (simp add: word_less_nat_alt)
qed

text \<open>A change to one pane that keeps its number and adds at most the entries of \<open>A\<close>.\<close>

lemma on_pane_ok:
  assumes "tab_sound t" "pane_mut t i f = Some u"
    and "\<And>p. p \<in> set (panes t) \<Longrightarrow> tp_id p = i \<Longrightarrow> tp_id (f p) = i \<and> stack_ok (tp_stack (f p)) \<and>
      set (entry_ids (tp_stack (f p))) \<subseteq> set (entry_ids (tp_stack p)) \<union> A"
  shows "kept t u \<and> used_ids u \<subseteq> used_ids t \<union> A"
proof -
  have u: "kept t u" "tab_pane_ids u = tab_pane_ids t"
    "set (panes u) \<subseteq> set (panes t) \<union> f ` {p \<in> set (panes t). tp_id p = i}"
    using pane_mut_ok [OF assms(1,2)] assms(3) by auto
  then show ?thesis using assms(3) by (fastforce simp: used_ids_def)
qed

lemma on_stack_ok:
  assumes "tab_sound t" "pane_mut t i (\<lambda>p. on_stack f (g p)) = Some u"
    and "\<And>p. tp_id (g p) = tp_id p \<and> tp_stack (g p) = tp_stack p"
    and "\<And>p. p \<in> set (panes t) \<Longrightarrow> tp_id p = i \<Longrightarrow> stack_ok (tp_stack p) \<Longrightarrow> stack_ok (f (tp_stack p)) \<and>
      set (entry_ids (f (tp_stack p))) \<subseteq> set (entry_ids (tp_stack p)) \<union> A"
  shows "kept t u \<and> used_ids u \<subseteq> used_ids t \<union> A"
proof (rule on_pane_ok [OF assms(1,2)])
  fix p assume "p \<in> set (panes t)" "tp_id p = i"
  moreover from this have "stack_ok (tp_stack p)"
    using tab_soundD(1) [OF assms(1)] by (simp add: structure_ok_def)
  ultimately show "tp_id (on_stack f (g p)) = i \<and> stack_ok (tp_stack (on_stack f (g p))) \<and>
      set (entry_ids (tp_stack (on_stack f (g p)))) \<subseteq> set (entry_ids (tp_stack p)) \<union> A"
    using assms(3,4) by (simp add: on_stack_def)
qed

text \<open>Another selection in the stack of a pane.\<close>

lemma reselected_ok:
  assumes "tab_sound t" "pane t i = Some p" "pane_mut t i (on_stack (\<lambda>_. st)) = Some u"
    and "selection_valid st" "entry_ids st = entry_ids (tp_stack p)"
  shows "kept t u \<and> used_ids u \<subseteq> used_ids t"
proof -
  have p: "p \<in> set (panes t)" "stack_ok (tp_stack p)"
    using pane_Some(2) [OF tab_soundD(1) [OF assms(1)] assms(2)] tab_soundD(1) [OF assms(1)]
    by (simp_all add: structure_ok_def)
  have "kept t u \<and> used_ids u \<subseteq> used_ids t \<union> set (entry_ids (tp_stack p))"
    using p(2) assms(4,5)
    by (intro on_stack_ok [OF assms(1), of i "\<lambda>_. st" "\<lambda>p. p"]) (simp_all add: assms(3) stack_ok_iff)
  then show ?thesis using p(1) by (auto simp: used_ids_def)
qed

lemma apply_generated_labels_ok:
  "tab_sound t \<Longrightarrow> kept t (apply_generated_labels t labels) \<and>
   used_ids (apply_generated_labels t labels) \<subseteq> used_ids t"
proof (induction labels arbitrary: t)
  case (Cons l ls)
  obtain i g where l: "l = (i, g)" by (cases l)
  show ?case
  proof (cases "pane_mut t i (\<lambda>p. p\<lparr>tp_generated_label := g\<rparr>)")
    case None
    with Cons l show ?thesis by (simp add: apply_generated_labels_def)
  next
    case (Some u)
    have "kept t u \<and> used_ids u \<subseteq> used_ids t \<union> {}"
      using tab_soundD(1) [OF Cons.prems]
      by (intro on_pane_ok [OF Cons.prems Some]) (simp add: structure_ok_def)
    moreover have "apply_generated_labels t (l # ls) = apply_generated_labels u ls"
      using Some l by (simp add: apply_generated_labels_def)
    ultimately show ?thesis using Cons.IH [of u] kept_trans [of t u] by (auto simp: kept_def)
  qed
qed (simp add: apply_generated_labels_def kept_refl)

lemma layout_step_ids:
  assumes "layout_rearrangement f" "tab_sound t" "ids_below t n"
  shows "kept t (t\<lparr>layout := snd (f (layout t))\<rparr>) \<and> ids_below (t\<lparr>layout := snd (f (layout t))\<rparr>) n"
proof
  have w: "wf_layout (layout t)" using tab_soundD(5) [OF assms(2)] .
  show "kept t (t\<lparr>layout := snd (f (layout t))\<rparr>)"
  proof (intro rearrange_ok [OF assms(2)])
    show "wf_layout (snd (f (layout t)))" using w by (rule layout_rearrangement.wf_kept [OF assms(1)])
    show "set (pane_ids (snd (f (layout t)))) = set (pane_ids (layout t))"
      using w by (intro layout_rearrangement.pane_set_kept [OF assms(1)]) (simp add: wf_layout_def)
  qed
qed (use assms(3) in \<open>simp add: ids_below_def used_ids_def\<close>)

lemma set_icon_ok: "tab_sound t \<Longrightarrow> kept t (set_icon_override t icon)"
  by (simp add: set_icon_override_def kept_def tab_sound_def on_screen_def)

lemma panes_kept:
  "panes (activate_pane t i) = panes t"
  "panes (snd (toggle_maximize t i)) = panes t"
  "minimize t i = Some (b, u) \<Longrightarrow> panes u = panes t"
  "restore_minimized t i = Some (b, u) \<Longrightarrow> panes u = panes t"
  "restore_last_minimized t = Some (b, u) \<Longrightarrow> panes u = panes t"
  "select_adjacent_minimized t fwd = Some (b, u) \<Longrightarrow> panes u = panes t"
  "panes (set_icon_override t icon) = panes t"
  by (auto simp: activate_pane_def toggle_maximize_def minimize_def restore_minimized_def
      restore_last_minimized_def select_adjacent_minimized_def set_icon_override_def Let_def
      split: option.splits if_splits)

lemma if_ok_kept: "tab_sound t \<Longrightarrow> if b then tab_ok u else u = t \<Longrightarrow> kept t u"
  by (cases b) (auto intro: kept_if_ok kept_refl)

lemma shelf_ops_kept:
  assumes "tab_sound t"
  shows "kept t (snd (toggle_maximize t i))"
    "minimize t i = Some (b, u) \<Longrightarrow> kept t u"
    "restore_minimized t i = Some (b, u) \<Longrightarrow> kept t u"
    "restore_last_minimized t = Some (b, u) \<Longrightarrow> kept t u"
    "select_adjacent_minimized t fwd = Some (b, u) \<Longrightarrow> kept t u"
proof -
  show "kept t (snd (toggle_maximize t i))"
    using toggle_maximize_ok [OF assms, of i] kept_refl [OF assms] by (auto intro: kept_if_ok split: if_splits)
  show "minimize t i = Some (b, u) \<Longrightarrow> kept t u"
    using minimize_ok [OF assms, of i] if_ok_kept [OF assms] by force
  show "restore_minimized t i = Some (b, u) \<Longrightarrow> kept t u"
    using restore_minimized_ok [OF assms, of i] kept_refl [OF assms]
    by (cases "i \<in> set (minimized_panes t)") (auto intro: kept_if_ok)
  show "restore_last_minimized t = Some (b, u) \<Longrightarrow> kept t u"
    using restore_last_minimized_ok [OF assms] if_ok_kept [OF assms] by force
  show "select_adjacent_minimized t fwd = Some (b, u) \<Longrightarrow> kept t u"
    using select_adjacent_minimized_ok [OF assms, of fwd] by force
qed

lemma tab_step_ok:
  assumes "tab_step s s'" "tab_sound (fst s)" "ids_below (fst s) (snd s)"
  shows "kept (fst s) (fst s') \<and> ids_below (fst s') (snd s')"
  using assms
proof (induction rule: tab_step.induct)
  case (splitting n t target cmd ax pos b u n')
  then have t: "tab_sound t" "ids_below t n" by simp_all
  then have "n \<notin> set (tab_pane_ids t)" by (auto simp: ids_below_def used_ids_def)
  with splitting(2) have u: "if b then tab_ok u \<and> tab_pane_ids u = tab_pane_ids t @ [n] \<and> n' = n + 1 \<and>
      (\<exists>p. tp_stack p = pane_stack_default \<and> panes u = panes t @ [p]) else u = t \<and> n' = n"
    using split_tab_pane_ok [OF t(1), of n target cmd ax pos] by (auto split: if_splits)
  show ?case
  proof (cases b)
    case True
    with u obtain p where p: "tp_stack p = pane_stack_default" "panes u = panes t @ [p]" by auto
    have "used_ids u \<subseteq> insert n (used_ids t)"
      using u p True by (auto simp: used_ids_def pane_stack_default_def entry_ids_def)
    with t(2) have "ids_below u (n + 1)"
      using unat_succ [OF splitting(1)] by (fastforce simp: ids_below_def word_less_nat_alt)
    then show ?thesis using u True by (simp add: kept_if_ok)
  qed (use u t in \<open>simp add: kept_refl\<close>)
next
  case (closing_pane t i u n)
  then have "kept t u" "set (tab_pane_ids u) \<subseteq> set (tab_pane_ids t)" "set (panes u) \<subseteq> set (panes t)"
    using close_tab_pane_ok [of t i] by auto
  then show ?case using closing_pane(3) ids_below_mono [of t n u] by (auto simp: used_ids_def)
next
  case (moving_window m t i u ids m' n)
  let ?k = "length (panes t)" and ?r = "\<Sum>p\<leftarrow>panes t. length (entries (tp_stack p))"
  have u: "kept t u" "tab_pane_ids u = fresh_ids m ?k"
    "concat (map (\<lambda>p. entry_ids (tp_stack p)) (panes u)) = fresh_ids (m + of_nat ?k) ?r"
    "m' = m + of_nat ?k + of_nat ?r"
    using reassign_ids_ok [of t i m] moving_window(2,3) by auto
  have "used_ids u = set (fresh_ids m (?k + ?r))"
    using arg_cong [OF u(3), of set] u(2) by (simp add: used_ids_def fresh_ids_append)
  moreover have "x < m'" if "x \<in> set (fresh_ids m (?k + ?r))" for x
    using fresh_ids_below [of m "?k + ?r" 0 x] that moving_window(1) u(4) by (simp add: add.assoc)
  ultimately show ?case using u(1) by (simp add: ids_below_def)
next
  case (pushing_entry n t i cmd prof wd wsl u)
  then have t: "tab_sound t" "ids_below t n" by simp_all
  let ?e = "stacked_pane_new n cmd prof wd wsl"
  have "kept t u \<and> used_ids u \<subseteq> used_ids t \<union> {n}"
  proof (rule on_stack_ok [OF t(1) pushing_entry(2)])
    fix p assume p: "p \<in> set (panes t)" "tp_id p = i" "stack_ok (tp_stack p)"
    have "n \<notin> set (entry_ids (tp_stack p))" using t(2) p(1) by (auto simp: ids_below_def used_ids_def)
    then have "stack_ok (snd (push_entry (tp_stack p) ?e))"
      using p(3) by (intro stack_ok_push) (simp_all add: stacked_pane_new_def)
    moreover have "set (entry_ids (snd (push_entry (tp_stack p) ?e))) \<subseteq> set (entry_ids (tp_stack p)) \<union> {n}"
      by (auto simp: push_entry_def entry_ids_def stacked_pane_new_def)
    ultimately show "stack_ok (snd (push_entry (tp_stack p) ?e)) \<and>
        set (entry_ids (snd (push_entry (tp_stack p) ?e))) \<subseteq> set (entry_ids (tp_stack p)) \<union> {n}" ..
  qed simp
  then show ?case
    using t(2) unat_succ [OF pushing_entry(1)] by (fastforce simp: ids_below_def word_less_nat_alt)
next
  case (removing_entry t i e u n)
  then have "kept t u \<and> used_ids u \<subseteq> used_ids t \<union> {}"
    by (intro on_stack_ok [of t i _ "\<lambda>p. p"]) (auto simp: stack_ok_remove remove_entry_set)
  then show ?case using removing_entry(3) ids_below_mono by auto
next
  case (shell_exiting t i u n)
  have "kept t u \<and> used_ids u \<subseteq> used_ids t \<union> {}"
    using shell_exiting(2) by (intro on_stack_ok [OF _ shell_exiting(1)])
      (auto simp: stack_ok_iff entry_ids_ops stack_selection_valid)
  then show ?case using shell_exiting(3) ids_below_mono by auto
next
  case (cycling_entries t i p fwd r st u n)
  have st: "st = snd (the (cycle (tp_stack p) fwd))" using cycling_entries(2) by simp
  have "kept t u \<and> used_ids u \<subseteq> used_ids t"
    using reselected_ok [OF _ cycling_entries(1,3)] cycling_entries(4)
    by (simp add: st cycle_valid entry_ids_ops)
  then show ?case using cycling_entries(5) ids_below_mono by auto
next
  case (cycling_commands t i p fwd r st u n)
  have st: "st = snd (the (cycle_without_base (tp_stack p) fwd))" using cycling_commands(2) by simp
  have "kept t u \<and> used_ids u \<subseteq> used_ids t"
    using reselected_ok [OF _ cycling_commands(1,3)] cycling_commands(4)
    by (simp add: st cycle_without_base_valid entry_ids_ops)
  then show ?case using cycling_commands(5) ids_below_mono by auto
next
  case (rotating t n i rd)
  then show ?case unfolding fst_conv snd_conv by (rule layout_step_ids [OF rotation.layout_rearrangement_axioms])
next
  case (moving_pane t n i d)
  then show ?case unfolding fst_conv snd_conv by (rule layout_step_ids [OF moving.layout_rearrangement_axioms])
next
  case (swapping_panes t n i j)
  then show ?case unfolding fst_conv snd_conv by (rule layout_step_ids [OF swapping.layout_rearrangement_axioms])
next
  case (resizing_pane t n i axis delta)
  then show ?case unfolding fst_conv snd_conv by (rule layout_step_ids [OF resizing.layout_rearrangement_axioms])
next
  case (labelling t n labels)
  then show ?case using apply_generated_labels_ok [of t labels] ids_below_mono by auto
qed (auto simp: shelf_ops_kept set_icon_ok ids_below_def select_previous_minimized_def
    select_next_minimized_def used_ids_panes [OF panes_kept(2)] used_ids_panes [OF panes_kept(3)]
    used_ids_panes [OF panes_kept(4)] used_ids_panes [OF panes_kept(5)] used_ids_panes [OF panes_kept(6)]
    used_ids_panes [OF panes_kept(7)])

lemma new_tab_ids: "used_ids (new_tab i n profile cmd icon) = {n}"
  by (simp add: used_ids_def new_tab_def tab_pane_ids_def with_pending_command_def
      with_label_number_def terminal_pane_new_def pane_stack_default_def entry_ids_def)

lemma tab_reachable_ok:
  assumes "tab_reachable seen s"
  shows "tab_sound (fst s) \<and> (seen \<longrightarrow> tab_ok (fst s)) \<and> ids_below (fst s) (snd s)"
  using assms
proof (induction rule: tab_reachable.induct)
  case (opened n i profile cmd icon)
  show ?case using unat_succ [OF opened]
    by (simp add: new_tab_ok tab_ok_sound new_tab_ids ids_below_def word_less_nat_alt)
next
  case (stepped seen s s')
  then have "kept (fst s) (fst s')" "ids_below (fst s') (snd s')" using tab_step_ok by blast+
  then show ?case using stepped.IH kept_ok by (auto simp: kept_def)
next
  case (focused seen t n i)
  then show ?case using activate_sound [of t i] activate_visible_ok [of t i] used_ids_panes [OF panes_kept(1)]
    by (auto simp: ids_below_def)
next
  case (entry_focused seen t n i entry)
  then have "used_ids (activate_stack_entry t i entry) \<subseteq> used_ids t"
    using activate_stack_entry_sound [of t i entry] by (fastforce simp: used_ids_def)
  then show ?case using activate_stack_entry_sound [of t i entry] entry_focused.IH ids_below_mono by auto
qed

text \<open>A tab with two panes, for the examples below.\<close>

definition sample_tab :: "(unit, unit, unit, unit, unit) tab" where
  "sample_tab = fst (snd (split_tab_pane (new_tab 1 1 () None None) 2 1 None Vertical After))"

lemma sample_tab_reachable: "tab_reachable True (sample_tab, 3)"
proof -
  have new: "tab_reachable True (new_tab 1 1 () None None :: (unit, unit, unit, unit, unit) tab, 2)"
    using tab_reachable.opened [of 1] by simp
  have "split_tab_pane (new_tab 1 1 () None None :: (unit, unit, unit, unit, unit) tab) 2 1 None Vertical After
      = (True, sample_tab, 3)"
    by (simp add: sample_tab_def split_tab_pane_def new_tab_def can_add_panes_def MAX_PANES_PER_TAB_def
        pane_def get_def with_pending_command_def with_label_number_def terminal_pane_new_def Let_def)
  then have "tab_step (new_tab 1 1 () None None :: (unit, unit, unit, unit, unit) tab, 2) (sample_tab, 3)"
    by (intro tab_step.splitting [where n = 2]) simp_all
  with new show ?thesis by (rule tab_reachable.stepped)
qed

lemma sample_tab_ok: "tab_ok sample_tab"
  using tab_reachable_ok [OF sample_tab_reachable] by simp

lemma sample_tab_minimize: "\<exists>u. minimize sample_tab 2 = Some (True, u) \<and> minimized_panes u = [2]"
  by (simp add: sample_tab_def split_tab_pane_def new_tab_def can_add_panes_def MAX_PANES_PER_TAB_def
      pane_def get_def with_pending_command_def with_label_number_def terminal_pane_new_def
      push_pane_def activate_pane_def minimize_def)

section \<open>Properties of a tab\<close>

text \<open>
  C6.  In every reachable tab the panes, their index and the layout agree, the
  stacks of the panes are sound, focus history, shelf and selection name existing
  panes, and what is drawn is exactly the set of visible panes.  The active pane
  is among them as long as every pane that was given the focus could be seen at
  that moment.
\<close>

theorem reachable_tab_ok:
  assumes "tab_reachable seen (t, n)"
  shows "tab_sound t \<and> (\<exists>l. visible_layout t = Some l \<and> ratios_ok l \<and>
    set (pane_ids l) = {i. pane_is_visible t i} \<and> (seen \<longrightarrow> active_pane t \<in> set (pane_ids l)))"
proof -
  have t: "tab_sound t" "seen \<longrightarrow> tab_ok t" using tab_reachable_ok [OF assms] by simp_all
  have "seen \<longrightarrow> pane_is_visible t (active_pane t)"
    using t visible_on_screen [OF t(1)] tab_soundD(3) [OF t(1)] by (auto simp: tab_ok_def)
  with t(1) visible_layout_panes [OF t(1)] show ?thesis by auto
qed

theorem reachable_tab_ok_witness:
  "\<exists>u l. minimize sample_tab 2 = Some (True, u) \<and> tab_sound (activate_pane u 2) \<and>
    visible_layout (activate_pane u 2) = Some l \<and> set (pane_ids l) = {i. pane_is_visible (activate_pane u 2) i}"
proof -
  obtain u where u: "minimize sample_tab 2 = Some (True, u)" using sample_tab_minimize by blast
  then have "tab_reachable True (u, 3)"
    using tab_reachable.stepped [OF sample_tab_reachable] tab_step.minimizing by blast
  then have "tab_reachable (True \<and> pane_is_visible u 2) (activate_pane u 2, 3)"
    by (rule tab_reachable.focused)
  from reachable_tab_ok [OF this] u show ?thesis by blast
qed

text \<open>
  C7.  No operation panics on a reachable tab: minimizing always finds a pane to
  focus, restoring and stepping along the shelf stay inside it, closing always
  finds the pane's place and a survivor, cycling a stack stays inside it, and
  moving the tab to another window finds every identifier in its map.
\<close>

theorem reachable_tab_no_panic:
  assumes "tab_reachable seen (t, n)"
  shows "minimize t i \<noteq> None \<and> restore_minimized t i \<noteq> None \<and> restore_last_minimized t \<noteq> None \<and>
    select_previous_minimized t \<noteq> None \<and> select_next_minimized t \<noteq> None \<and>
    close_tab_pane t i \<noteq> None \<and> reassign_ids t j m \<noteq> None \<and>
    list_all (\<lambda>p. cycle (tp_stack p) fwd \<noteq> None \<and> cycle_without_base (tp_stack p) fwd \<noteq> None) (panes t)"
proof -
  have t: "tab_sound t" using tab_reachable_ok [OF assms] by simp
  have "restore_minimized t i \<noteq> None" "restore_last_minimized t \<noteq> None"
    using restore_minimized_ok [OF t, of i] restore_last_minimized_ok [OF t] by auto
  moreover have "select_previous_minimized t \<noteq> None" "select_next_minimized t \<noteq> None"
    using select_adjacent_minimized_ok [OF t, of False] select_adjacent_minimized_ok [OF t, of True]
    by (auto simp: select_previous_minimized_def select_next_minimized_def)
  moreover have "minimize t i \<noteq> None" "close_tab_pane t i \<noteq> None" "reassign_ids t j m \<noteq> None"
    using minimize_ok [OF t, of i] close_tab_pane_ok [OF t, of i] reassign_ids_ok [OF t, of j m] by auto
  ultimately show ?thesis by (simp add: cycle_eq cycle_without_base_eq list_all_iff)
qed

theorem reachable_tab_no_panic_witness:
  "close_tab_pane sample_tab 2 \<noteq> None \<and> minimize sample_tab 1 \<noteq> None"
  using reachable_tab_no_panic [OF sample_tab_reachable, of 2] reachable_tab_no_panic [OF sample_tab_reachable, of 1]
  by simp

text \<open>
  Closing a pane of a sound tab removes exactly that pane and leaves a sound
  tab; it closes the tab exactly when the pane is the only one.
\<close>

theorem closing_removes_the_pane:
  assumes "tab_sound t"
  shows "\<exists>r. close_tab_pane t i = Some r \<and>
    (case r of TabCloses \<Rightarrow> tab_pane_ids t = [i]
     | TabStays u \<Rightarrow> kept t u \<and> set (tab_pane_ids u) = set (tab_pane_ids t) - {i} \<and>
       set (panes u) \<subseteq> set (panes t))"
  using close_tab_pane_ok [OF assms] .

theorem closing_removes_the_pane_witness: "\<exists>r. close_tab_pane sample_tab 1 = Some r"
  using closing_removes_the_pane [OF tab_ok_sound [OF sample_tab_ok], of 1] by blast

text \<open>
  Splitting a pane of a sound tab with an unused identifier leaves a sound
  tab; when it reports success the tab has exactly one more pane, which is
  active, and when it does not the tab is unchanged.
\<close>

theorem splitting_adds_active_pane:
  assumes "tab_sound t" "n \<notin> set (tab_pane_ids t)"
  shows "case split_tab_pane t n target cmd ax pos of (b, u, n') \<Rightarrow>
    if b then tab_ok u \<and> tab_pane_ids u = tab_pane_ids t @ [n] \<and> active_pane u = n \<and> n' = n + 1
    else u = t \<and> n' = n"
  using split_tab_pane_ok [OF assms, of target cmd ax pos] by (auto split: prod.splits if_splits)

theorem splitting_adds_active_pane_witness:
  "case split_tab_pane sample_tab 3 1 None Vertical After of (b, u, n') \<Rightarrow>
     if b then tab_ok u \<and> active_pane u = 3 else u = sample_tab"
proof -
  have "3 \<notin> set (tab_pane_ids sample_tab)"
    using tab_reachable_ok [OF sample_tab_reachable] by (auto simp: ids_below_def used_ids_def)
  from splitting_adds_active_pane [OF tab_ok_sound [OF sample_tab_ok] this, of 1 None Vertical After]
  show ?thesis by (auto split: prod.splits if_splits)
qed

text \<open>
  Minimizing a pane and restoring it brings the shelf and the layout back
  and leaves that pane focused.
\<close>

theorem minimize_then_restore:
  assumes "tab_sound t" "minimize t i = Some (True, u)"
  shows "\<exists>v. restore_minimized u i = Some (True, v) \<and> tab_ok v \<and>
    minimized_panes v = minimized_panes t \<and> layout v = layout t \<and> active_pane v = i"
proof -
  have i: "i \<notin> set (minimized_panes t)" and m: "minimized_panes u = minimized_panes t @ [i]" "layout u = layout t"
    using assms(2) by (auto simp: minimize_def Let_def activate_pane_def split: if_splits)
  have "tab_sound u" using minimize_ok [OF assms(1), of i] assms(2) by (auto simp: tab_ok_sound)
  from restore_minimized_ok [OF this, of i] i m show ?thesis by (auto simp: filter_id_conv)
qed

theorem minimize_then_restore_witness:
  "\<exists>u v. minimize sample_tab 2 = Some (True, u) \<and> restore_minimized u 2 = Some (True, v) \<and> active_pane v = 2"
proof -
  obtain u where u: "minimize sample_tab 2 = Some (True, u)" using sample_tab_minimize by blast
  from minimize_then_restore [OF tab_ok_sound [OF sample_tab_ok] u] u show ?thesis by blast
qed

text \<open>
  Stepping through the minimized panes forward and back undo each other and
  a full turn returns to the pane selected first.
\<close>

theorem shelf_cycle_returns:
  assumes "tab_sound t" "minimized_panes t \<noteq> []"
  shows "select_adjacent False (select_adjacent True t) = t \<and>
    (select_adjacent True ^^ length (minimized_panes t)) t = t"
proof -
  have ok: "shelf_selected t"
    using assms tab_soundD(2) [of t] by (simp add: shelf_selected_def shelf_ok_def)
  show ?thesis using shelf.back_undoes_forward [OF ok] shelf.full_turn [OF ok] by simp
qed

theorem shelf_cycle_returns_witness:
  "\<exists>u. minimize sample_tab 2 = Some (True, u) \<and> select_adjacent False (select_adjacent True u) = u"
proof -
  obtain u where u: "minimize sample_tab 2 = Some (True, u)" "minimized_panes u = [2]"
    using sample_tab_minimize by blast
  have "tab_sound u"
    using minimize_ok [OF tab_ok_sound [OF sample_tab_ok], of 2] u by (auto simp: tab_ok_sound)
  from shelf_cycle_returns [OF this] u show ?thesis by auto
qed

text \<open>
  Moving a tab to another window keeps it sound, numbers its panes
  consecutively from that window's counter, and renames the active pane and the
  layout along the same map it returns.
\<close>

theorem reassigning_keeps_tab:
  assumes "tab_sound t"
  shows "\<exists>u ids m. reassign_ids t i n = Some (u, ids, m) \<and> kept t u \<and> tab_id u = i \<and>
    tab_pane_ids u = fresh_ids n (length (panes t)) \<and>
    tab_pane_ids u = map (\<lambda>i. the (ids i)) (tab_pane_ids t) \<and>
    active_pane u = the (ids (active_pane t)) \<and>
    pane_ids (layout u) = map (\<lambda>i. the (ids i)) (pane_ids (layout t))"
proof -
  obtain u ids m where r: "reassign_ids t i n = Some (u, ids, m)" "kept t u"
    "tab_pane_ids u = fresh_ids n (length (panes t))" "tab_pane_ids u = map (\<lambda>i. the (ids i)) (tab_pane_ids t)"
    "active_pane u = the (ids (active_pane t))" "pane_ids (layout u) = map (\<lambda>i. the (ids i)) (pane_ids (layout t))"
    using reassign_ids_ok [OF assms, of i n] by blast
  moreover have "tab_id u = i"
    using r(1) by (auto simp: reassign_ids_def Let_def split: prod.splits option.splits)
  ultimately show ?thesis by blast
qed

theorem reassigning_keeps_tab_witness:
  "\<exists>u ids m. reassign_ids sample_tab 4 9 = Some (u, ids, m) \<and> tab_sound u \<and> tab_id u = 4"
  using reassigning_keeps_tab [OF tab_ok_sound [OF sample_tab_ok], of 4 9] by (auto simp: kept_def)

text \<open>
  Renumbering a stack carries the selection to the same entry when no new
  identifier equals an old one of the stack.
\<close>

theorem renumbering_keeps_selection:
  assumes "renumber_entries n (Stacked i) es = (es', sel', m)"
    and "position (\<lambda>e. sp_id e = i) es = Some k"
    and "set (map sp_id es) \<inter> set (fresh_ids n (length es)) = {}"
  shows "sel' = Stacked (sp_id (es' ! k))"
proof -
  have ids: "map sp_id es' = fresh_ids n (length es)" using renumber_entries_spec [OF assms(1)] by simp
  have "k < length es" using assms(2) by (auto dest: position_SomeD)
  moreover have "length es' = length es" using arg_cong [OF ids, of length] by simp
  ultimately have "fresh_ids n (length es) ! k = sp_id (es' ! k)" by (simp flip: ids)
  then show ?thesis using renumber_entries_selection [OF assms] by simp
qed

theorem renumbering_keeps_selection_witness:
  "\<exists>es' sel' m. renumber_entries 9 (Stacked 3) [stacked_pane_new 3 ''make'' () None None :: (unit, unit, unit) stacked_pane]
     = (es', sel', m) \<and> sel' = Stacked (sp_id (es' ! 0))"
proof -
  obtain es' sel' m where r: "renumber_entries 9 (Stacked 3)
      [stacked_pane_new 3 ''make'' () None None :: (unit, unit, unit) stacked_pane] = (es', sel', m)"
    by (metis prod_cases3)
  from renumbering_keeps_selection [OF r, of 0] r show ?thesis
    by (simp add: stacked_pane_new_def)
qed

text \<open>
  Without that condition the selection can jump: with entries 5 and 7, the
  first selected, and 7 the next identifier, entry 5 becomes 7, the loop then
  takes the selection for the old entry 7, and the second entry ends up selected.
\<close>

theorem renumbering_can_move_selection:
  "renumber_entries 7 (Stacked 5)
     [stacked_pane_new 5 ''make'' () None None, stacked_pane_new 7 ''test'' () None None :: (unit, unit, unit) stacked_pane]
   = ([(stacked_pane_new 5 ''make'' () None None)\<lparr>sp_id := 7\<rparr>,
       (stacked_pane_new 7 ''test'' () None None)\<lparr>sp_id := 8\<rparr>], Stacked 8, 9)"
  by (simp add: stacked_pane_new_def)

end
