(* ===== verification/Tftp_Packet.thy ===== *)
theory Tftp_Packet
  imports Decimal
begin

text \<open>
  The packets of the TFTP engine (\<open>crates/ztftp/src/lib.rs\<close>): building and
  reading them, the options a request negotiates, and the escaping of text that
  the other side chose and a terminal will show.
\<close>

section \<open>Constants and numbers on the wire\<close>

definition DEFAULT_BLOCK_SIZE :: nat where "DEFAULT_BLOCK_SIZE = 512"
definition REQUESTED_BLOCK_SIZE :: nat where "REQUESTED_BLOCK_SIZE = 1428"
definition MIN_BLOCK_SIZE :: nat where "MIN_BLOCK_SIZE = 8"
definition MAX_BLOCK_SIZE :: nat where "MAX_BLOCK_SIZE = 65464"
definition MAX_RETRIES :: nat where "MAX_RETRIES = 5"
definition MAX_UPLOAD_BYTES :: nat where "MAX_UPLOAD_BYTES = 4 * 1024 * 1024 * 1024"

definition OP_RRQ :: u16 where "OP_RRQ = 1"
definition OP_WRQ :: u16 where "OP_WRQ = 2"
definition OP_DATA :: u16 where "OP_DATA = 3"
definition OP_ACK :: u16 where "OP_ACK = 4"
definition OP_ERROR :: u16 where "OP_ERROR = 5"
definition OP_OACK :: u16 where "OP_OACK = 6"

lemmas opcode_defs = OP_RRQ_def OP_WRQ_def OP_DATA_def OP_ACK_def OP_ERROR_def OP_OACK_def

definition to_be_bytes :: "u16 \<Rightarrow> bytes" where
  "to_be_bytes w = [ucast (drop_bit 8 w), ucast w]"

definition from_be_bytes :: "u8 \<Rightarrow> u8 \<Rightarrow> u16" where
  "from_be_bytes a b = push_bit 8 (ucast a) OR ucast b"

lemma from_to_be_bytes [simp]: "from_be_bytes (ucast (drop_bit 8 w)) (ucast w) = w"
  by (rule bit_word_eqI) (auto simp: from_be_bytes_def bit_simps)

section \<open>Fields\<close>

datatype request_error = FieldNotTerminated | EmptyField | TooShort | NotARequest | MalformedFields
  | FilenameNotUtf8 | ModeNotUtf8 | OptionNameNotUtf8 | OptionValueNotUtf8

definition push_field :: "bytes \<Rightarrow> ustring \<Rightarrow> bytes" where
  "push_field packet value = packet @ as_bytes value @ [0]"

function zero_terminated_fields :: "bytes \<Rightarrow> request_error + bytes list" where
  "zero_terminated_fields bs =
     (if bs = [] then Inr []
      else case position (\<lambda>b. b = 0) bs of
        None \<Rightarrow> Inl FieldNotTerminated
      | Some e \<Rightarrow>
          if e = 0 then Inl EmptyField
          else case zero_terminated_fields (drop (e + 1) bs) of
                 Inl err \<Rightarrow> Inl err
               | Inr fs \<Rightarrow> Inr (take e bs # fs))"
  by pat_completeness auto
termination by (relation "measure length") auto

declare zero_terminated_fields.simps [simp del]

section \<open>Packets\<close>

definition request_packet :: "u16 \<Rightarrow> ustring \<Rightarrow> nat option \<Rightarrow> bytes" where
  "request_packet opcode filename tsize =
     (let packet = to_be_bytes opcode;
          packet = push_field packet filename;
          packet = push_field packet (lit ''octet'');
          packet = push_field packet (lit ''blksize'');
          packet = push_field packet (show_nat REQUESTED_BLOCK_SIZE);
          packet = push_field packet (lit ''tsize'')
      in push_field packet (show_nat (case tsize of Some n \<Rightarrow> n | None \<Rightarrow> 0)))"

definition option_ack_packet :: "(ustring \<times> ustring) list \<Rightarrow> bytes" where
  "option_ack_packet options =
     foldl (\<lambda>packet (name, value). push_field (push_field packet name) value) (to_be_bytes OP_OACK) options"

definition set_data_packet :: "u16 \<Rightarrow> bytes \<Rightarrow> bytes" where
  "set_data_packet block data = to_be_bytes OP_DATA @ to_be_bytes block @ data"

definition ack_packet :: "u16 \<Rightarrow> bytes" where
  "ack_packet block = [0, ucast OP_ACK] @ to_be_bytes block"

definition error_packet :: "u16 \<Rightarrow> ustring \<Rightarrow> bytes" where
  "error_packet code message = push_field (to_be_bytes OP_ERROR @ to_be_bytes code) message"

definition packet_opcode :: "bytes \<Rightarrow> u16 option" where
  "packet_opcode p = (case (get p 0, get p 1) of (Some a, Some b) \<Rightarrow> Some (from_be_bytes a b) | _ \<Rightarrow> None)"

definition packet_block :: "bytes \<Rightarrow> u16 option" where
  "packet_block p = (case (get p 2, get p 3) of (Some a, Some b) \<Rightarrow> Some (from_be_bytes a b) | _ \<Rightarrow> None)"

section \<open>Text from the other side\<close>

definition is_control :: "scalar \<Rightarrow> bool" where
  "is_control c \<longleftrightarrow> c < 32 \<or> 127 \<le> c \<and> c < 160"

fun show_hex :: "nat \<Rightarrow> ustring" where
  "show_hex n =
     (let digit = (\<lambda>d. if d < 10 then 48 + d else 87 + d)
      in if n < 16 then [digit n] else show_hex (n div 16) @ [digit (n mod 16)])"

declare show_hex.simps [simp del]

definition display_char :: "scalar \<Rightarrow> ustring" where
  "display_char c =
     (if c = 10 then [92, 110] else if c = 13 then [92, 114] else if c = 9 then [92, 116]
      else if is_control c then [92, 117, 123] @ show_hex c @ [125]
      else [c])"

definition display_text :: "ustring \<Rightarrow> ustring" where
  "display_text s = concat (map display_char s)"

definition error_message :: "bytes \<Rightarrow> ustring" where
  "error_message p =
     (let message = drop 4 p;
          e = (case position (\<lambda>b. b = 0) message of Some k \<Rightarrow> k | None \<Rightarrow> length message)
      in display_text (from_utf8_lossy (take e message)))"

definition check_error_packet :: "bytes \<Rightarrow> ustring option" where
  "check_error_packet p = (if packet_opcode p = Some OP_ERROR then Some (error_message p) else None)"

section \<open>Requests and options\<close>

record request =
  rq_write :: bool
  rq_filename :: ustring
  rq_mode :: ustring
  rq_options :: "(ustring \<times> ustring) list"

text \<open>\<open>as_chunks::<2>().0\<close>: the pairs, without a last odd field.\<close>

fun pairs_of :: "'a list \<Rightarrow> ('a \<times> 'a) list" where
  "pairs_of (a # b # rest) = (a, b) # pairs_of rest"
| "pairs_of _ = []"

fun parse_options :: "(bytes \<times> bytes) list \<Rightarrow> request_error + (ustring \<times> ustring) list" where
  "parse_options [] = Inr []"
| "parse_options ((n, v) # rest) =
     (case from_utf8 n of None \<Rightarrow> Inl OptionNameNotUtf8
      | Some name \<Rightarrow> (case from_utf8 v of None \<Rightarrow> Inl OptionValueNotUtf8
        | Some value \<Rightarrow> (case parse_options rest of Inl e \<Rightarrow> Inl e
          | Inr options \<Rightarrow> Inr ((to_ascii_lowercase name, value) # options))))"

definition parse_request :: "bytes \<Rightarrow> request_error + request" where
  "parse_request packet =
     (if length packet < 4 then Inl TooShort
      else let opcode = from_be_bytes (packet ! 0) (packet ! 1)
      in if opcode \<noteq> OP_RRQ \<and> opcode \<noteq> OP_WRQ then Inl NotARequest
      else case zero_terminated_fields (drop 2 packet) of Inl e \<Rightarrow> Inl e
      | Inr fs \<Rightarrow>
          if length fs < 2 \<or> length fs mod 2 \<noteq> 0 then Inl MalformedFields
          else case from_utf8 (fs ! 0) of None \<Rightarrow> Inl FilenameNotUtf8
          | Some filename \<Rightarrow> (case from_utf8 (fs ! 1) of None \<Rightarrow> Inl ModeNotUtf8
            | Some mode \<Rightarrow> (case parse_options (pairs_of (drop 2 fs)) of Inl e \<Rightarrow> Inl e
              | Inr options \<Rightarrow>
                  Inr \<lparr>rq_write = (opcode = OP_WRQ), rq_filename = filename,
                       rq_mode = to_ascii_lowercase mode, rq_options = options\<rparr>)))"

definition block_size_ok :: "nat \<Rightarrow> bool" where
  "block_size_ok n \<longleftrightarrow> MIN_BLOCK_SIZE \<le> n \<and> n \<le> MAX_BLOCK_SIZE"

text \<open>The loop over the options of a read request.\<close>

fun negotiate_read :: "nat \<Rightarrow> (ustring \<times> ustring) list \<Rightarrow> nat \<times> (ustring \<times> ustring) list
    \<Rightarrow> nat \<times> (ustring \<times> ustring) list" where
  "negotiate_read file_size [] acc = acc"
| "negotiate_read file_size ((name, value) # rest) (block_size, acknowledged) =
     negotiate_read file_size rest
       (if name = lit ''blksize'' then
          (case parse_uint (2 ^ 64) value of
             Some requested \<Rightarrow>
               if block_size_ok requested then (requested, acknowledged @ [(name, show_nat requested)])
               else (block_size, acknowledged)
           | None \<Rightarrow> (block_size, acknowledged))
        else if name = lit ''tsize'' then (block_size, acknowledged @ [(name, show_nat file_size)])
        else (block_size, acknowledged))"

definition negotiated_options ::
  "(ustring \<times> ustring) list \<Rightarrow> nat \<Rightarrow> nat \<times> (ustring \<times> ustring) list" where
  "negotiated_options options file_size = negotiate_read file_size options (DEFAULT_BLOCK_SIZE, [])"

fun negotiate_write :: "(ustring \<times> ustring) list \<Rightarrow> nat \<times> nat option \<times> (ustring \<times> ustring) list
    \<Rightarrow> nat \<times> nat option \<times> (ustring \<times> ustring) list" where
  "negotiate_write [] acc = acc"
| "negotiate_write ((name, value) # rest) (block_size, transfer_size, acknowledged) =
     negotiate_write rest
       (if name = lit ''blksize'' then
          (case parse_uint (2 ^ 64) value of
             Some requested \<Rightarrow>
               if block_size_ok requested
               then (requested, transfer_size, acknowledged @ [(name, show_nat requested)])
               else (block_size, transfer_size, acknowledged)
           | None \<Rightarrow> (block_size, transfer_size, acknowledged))
        else if name = lit ''tsize'' then
          (case parse_uint (2 ^ 64) value of
             Some n \<Rightarrow> (block_size, Some n, acknowledged @ [(name, show_nat n)])
           | None \<Rightarrow> (block_size, transfer_size, acknowledged))
        else (block_size, transfer_size, acknowledged))"

definition negotiated_write_options ::
  "(ustring \<times> ustring) list \<Rightarrow> nat \<times> nat option \<times> (ustring \<times> ustring) list" where
  "negotiated_write_options options = negotiate_write options (DEFAULT_BLOCK_SIZE, None, [])"

definition bytes_eq_ignore_case :: "bytes \<Rightarrow> bytes \<Rightarrow> bool" where
  "bytes_eq_ignore_case a b \<longleftrightarrow> to_ascii_lowercase (map unat a) = to_ascii_lowercase (map unat b)"

fun find_block_size :: "(bytes \<times> bytes) list \<Rightarrow> nat option" where
  "find_block_size [] = None"
| "find_block_size ((name, value) # rest) =
     (if bytes_eq_ignore_case name (as_bytes (lit ''blksize'')) then
        (case Option.bind (from_utf8 value) (parse_uint (2 ^ 64)) of
           None \<Rightarrow> None | Some n \<Rightarrow> if block_size_ok n then Some n else None)
      else find_block_size rest)"

definition parsed_block_size :: "bytes \<Rightarrow> nat option" where
  "parsed_block_size packet =
     (if packet_opcode packet \<noteq> Some OP_OACK then None
      else case zero_terminated_fields (drop 2 packet) of
             Inl _ \<Rightarrow> None | Inr fs \<Rightarrow> find_block_size (pairs_of fs))"

section \<open>Reading back what was built\<close>

lemma packet_opcode_built [simp]:
  "packet_opcode (set_data_packet b d) = Some OP_DATA" "packet_block (set_data_packet b d) = Some b"
  "packet_opcode (ack_packet b) = Some OP_ACK" "packet_block (ack_packet b) = Some b"
  "packet_opcode (error_packet c m) = Some OP_ERROR"
  "drop 4 (set_data_packet b d) = d" "length (set_data_packet b d) = length d + 4"
  "length (ack_packet b) = 4"
  by (simp_all add: packet_opcode_def packet_block_def set_data_packet_def ack_packet_def
      error_packet_def push_field_def to_be_bytes_def get_def)
    (simp add: from_be_bytes_def OP_ACK_def)

definition wire_field :: "bytes \<Rightarrow> bool" where
  "wire_field f \<longleftrightarrow> f \<noteq> [] \<and> 0 \<notin> set f"

lemma position_zero_field: "0 \<notin> set f \<Longrightarrow> position (\<lambda>b. b = 0) (f @ 0 # r) = Some (length f)"
  for f :: bytes
  by (induction f) auto

lemma fields_Cons:
  assumes "wire_field f"
  shows "zero_terminated_fields (f @ 0 # r) =
    (case zero_terminated_fields r of Inl e \<Rightarrow> Inl e | Inr fs \<Rightarrow> Inr (f # fs))"
  using assms
  by (subst zero_terminated_fields.simps) (simp add: wire_field_def position_zero_field split: sum.split)

lemma zero_terminated_fields_built:
  "list_all wire_field fs \<Longrightarrow> zero_terminated_fields (concat (map (\<lambda>f. f @ [0]) fs)) = Inr fs"
proof (induction fs)
  case Nil
  show ?case by (subst zero_terminated_fields.simps) simp
next
  case (Cons f fs)
  then show ?case by (simp add: fields_Cons)
qed

lemma encode_utf8_no_zero: "is_scalar c \<Longrightarrow> c \<noteq> 0 \<Longrightarrow> 0 \<notin> set (encode_utf8 c)"
proof -
  assume c: "is_scalar c" "c \<noteq> 0"
  have z: "(word_of_nat n :: u8) = 0 \<longleftrightarrow> n = 0" if "n < 256" for n
  proof
    assume "(word_of_nat n :: u8) = 0"
    then have "unat (word_of_nat n :: u8) = 0" by simp
    then show "n = 0" using unat_of_nat_u8 [OF that] by simp
  qed simp
  have "c < 1114112" using c(1) by (auto simp: is_scalar_def)
  then have d: "c div 64 < 32 \<or> 2048 \<le> c" "c div 4096 < 16 \<or> 65536 \<le> c" "c div 262144 < 5"
    by auto
  show ?thesis using c(2) d
    by (auto simp: encode_utf8_def z simp del: of_nat_add)
qed

lemma as_bytes_field_ok:
  "list_all is_scalar s \<Longrightarrow> s \<noteq> [] \<Longrightarrow> 0 \<notin> set s \<Longrightarrow> wire_field (as_bytes s)"
proof -
  assume s: "list_all is_scalar s" "s \<noteq> []" "0 \<notin> set s"
  have "as_bytes s \<noteq> []" using s(2) length_as_bytes [of s] by auto
  moreover have "0 \<notin> set (as_bytes s)"
    using s encode_utf8_no_zero by (fastforce simp: as_bytes_def list_all_iff)
  ultimately show ?thesis by (simp add: wire_field_def)
qed

text \<open>Text that can stand in a field: scalar values, not empty, no NUL.\<close>

definition text_ok :: "ustring \<Rightarrow> bool" where
  "text_ok s \<longleftrightarrow> list_all is_scalar s \<and> s \<noteq> [] \<and> 0 \<notin> set s"

lemma text_ok_field [simp]: "text_ok s \<Longrightarrow> wire_field (as_bytes s)"
  by (simp add: text_ok_def as_bytes_field_ok)

lemma text_ok_from_utf8 [simp]: "text_ok s \<Longrightarrow> from_utf8 (as_bytes s) = Some s"
  by (simp add: text_ok_def from_utf8_as_bytes)

lemma text_ok_show [simp]: "text_ok (show_nat n)"
  using show_nat_ascii [of _ n] by (auto simp: text_ok_def list_all_iff is_scalar_def) fastforce+

lemma lit_text_ok [simp]:
  "text_ok (lit ''octet'')" "text_ok (lit ''blksize'')" "text_ok (lit ''tsize'')"
  by (simp_all add: text_ok_def lit_def is_scalar_def)

lemma lower_lit [simp]:
  "to_ascii_lowercase (lit ''octet'') = lit ''octet''"
  "to_ascii_lowercase (lit ''blksize'') = lit ''blksize''"
  "to_ascii_lowercase (lit ''tsize'') = lit ''tsize''"
  "lit ''tsize'' \<noteq> lit ''blksize''"
  by (simp_all add: to_ascii_lowercase_def lit_def)

lemma request_packet_fields:
  "request_packet op f n = to_be_bytes op @ concat (map (\<lambda>f. f @ [0])
     [as_bytes f, as_bytes (lit ''octet''), as_bytes (lit ''blksize''),
      as_bytes (show_nat REQUESTED_BLOCK_SIZE), as_bytes (lit ''tsize''),
      as_bytes (show_nat (case n of Some k \<Rightarrow> k | None \<Rightarrow> 0))])"
  by (simp add: request_packet_def push_field_def)

lemma parse_request_built:
  assumes "op = OP_RRQ \<or> op = OP_WRQ" "text_ok f"
  shows "parse_request (request_packet op f n) =
    Inr \<lparr>rq_write = (op = OP_WRQ), rq_filename = f, rq_mode = lit ''octet'',
      rq_options = [(lit ''blksize'', show_nat REQUESTED_BLOCK_SIZE),
        (lit ''tsize'', show_nat (case n of Some k \<Rightarrow> k | None \<Rightarrow> 0))]\<rparr>"
proof -
  let ?fs = "[as_bytes f, as_bytes (lit ''octet''), as_bytes (lit ''blksize''),
      as_bytes (show_nat REQUESTED_BLOCK_SIZE), as_bytes (lit ''tsize''),
      as_bytes (show_nat (case n of Some k \<Rightarrow> k | None \<Rightarrow> 0))]"
  let ?p = "request_packet op f n"
  have d: "drop 2 ?p = concat (map (\<lambda>f. f @ [0]) ?fs)"
    unfolding request_packet_fields by (simp add: to_be_bytes_def)
  have fields: "zero_terminated_fields (drop 2 ?p) = Inr ?fs"
    unfolding d using assms(2) by (intro zero_terminated_fields_built) simp
  have op: "from_be_bytes (?p ! 0) (?p ! 1) = op" and len: "4 \<le> length ?p"
    unfolding request_packet_fields by (simp_all add: to_be_bytes_def)
  show ?thesis
    using assms op len fields by (auto simp: parse_request_def Let_def)
qed

section \<open>Escaping\<close>

lemma show_hex_printable: "c \<in> set (show_hex n) \<Longrightarrow> 48 \<le> c \<and> c < 103"
proof (induction n rule: show_hex.induct)
  case (1 n)
  have "n mod 16 < 16" by simp
  with 1 show ?case
    by (subst (asm) (2) show_hex.simps) (auto simp: Let_def split: if_splits)
qed

lemma display_char_printable: "d \<in> set (display_char c) \<Longrightarrow> \<not> is_control d"
  by (auto simp: display_char_def is_control_def split: if_splits dest!: show_hex_printable)

lemma display_text_printable: "d \<in> set (display_text s) \<Longrightarrow> \<not> is_control d"
  by (auto simp: display_text_def dest: display_char_printable)

lemma display_text_id: "list_all (\<lambda>c. \<not> is_control c) s \<Longrightarrow> display_text s = s"
  by (induction s) (auto simp: display_text_def display_char_def is_control_def)

section \<open>Negotiation\<close>

lemma option_ack_fields:
  "option_ack_packet os = to_be_bytes OP_OACK @
     concat (map (\<lambda>f. f @ [0]) (concat (map (\<lambda>(n, v). [as_bytes n, as_bytes v]) os)))"
proof -
  have "foldl (\<lambda>packet (name, value). push_field (push_field packet name) value) p os =
      p @ concat (map (\<lambda>f. f @ [0]) (concat (map (\<lambda>(n, v). [as_bytes n, as_bytes v]) os)))" for p
    by (induction os arbitrary: p) (auto simp: push_field_def)
  then show ?thesis by (simp add: option_ack_packet_def)
qed

text \<open>What a server may acknowledge: a block size in range, or a transfer size.\<close>

definition ack_ok :: "ustring \<times> ustring \<Rightarrow> bool" where
  "ack_ok o' \<longleftrightarrow> (\<exists>n. o' = (lit ''blksize'', show_nat n) \<and> block_size_ok n) \<or>
     (\<exists>n. o' = (lit ''tsize'', show_nat n))"

lemma pairs_of_concat: "pairs_of (concat (map (\<lambda>(n, v). [f n, f v]) os)) = map (\<lambda>(n, v). (f n, f v)) os"
  by (induction os) auto

lemma parsed_block_size_ack:
  assumes "list_all ack_ok os"
  shows "parsed_block_size (option_ack_packet os) =
    find_block_size (map (\<lambda>(n, v). (as_bytes n, as_bytes v)) os)"
proof -
  let ?fs = "concat (map (\<lambda>(n, v). [as_bytes n, as_bytes v]) os)"
  have "list_all wire_field ?fs"
    using assms by (induction os) (auto simp: ack_ok_def)
  then have "zero_terminated_fields (drop 2 (option_ack_packet os)) = Inr ?fs"
    unfolding option_ack_fields by (simp add: to_be_bytes_def zero_terminated_fields_built)
  moreover have "packet_opcode (option_ack_packet os) = Some OP_OACK"
    unfolding option_ack_fields by (simp add: packet_opcode_def to_be_bytes_def get_def)
  ultimately show ?thesis by (simp add: parsed_block_size_def pairs_of_concat)
qed

lemma blksize_names:
  "bytes_eq_ignore_case (as_bytes (lit ''blksize'')) (as_bytes (lit ''blksize''))"
  "\<not> bytes_eq_ignore_case (as_bytes (lit ''tsize'')) (as_bytes (lit ''blksize''))"
  by (simp_all add: bytes_eq_ignore_case_def lit_def as_bytes_ascii to_ascii_lowercase_def)

lemma find_block_size_ack:
  "find_block_size ((as_bytes (lit ''blksize''), as_bytes (show_nat n)) # rest) =
     (if n < 2 ^ 64 \<and> block_size_ok n then Some n else None)"
  "find_block_size ((as_bytes (lit ''tsize''), v) # rest) = find_block_size rest"
  by (simp_all add: blksize_names)

lemma block_size_ok_bound: "block_size_ok n \<Longrightarrow> n < 18446744073709551616"
  by (simp add: block_size_ok_def MAX_BLOCK_SIZE_def)

lemma block_size_default_ok [simp]: "block_size_ok DEFAULT_BLOCK_SIZE"
  by (simp add: block_size_ok_def DEFAULT_BLOCK_SIZE_def MIN_BLOCK_SIZE_def MAX_BLOCK_SIZE_def)

text \<open>
  The client reads the first block size acknowledged, the server uses the last
  one it accepted: with at most one such option they agree.
\<close>

definition client_block_size :: "(ustring \<times> ustring) list \<Rightarrow> nat" where
  "client_block_size os = (case parsed_block_size (option_ack_packet os) of
     Some n \<Rightarrow> n | None \<Rightarrow> DEFAULT_BLOCK_SIZE)"

definition acked_size :: "(ustring \<times> ustring) list \<Rightarrow> nat option" where
  "acked_size os = find_block_size (map (\<lambda>(n, v). (as_bytes n, as_bytes v)) os)"

lemma acked_size_append:
  assumes "list_all ack_ok os"
  shows "acked_size (os @ [(lit ''tsize'', v)]) = acked_size os"
    and "block_size_ok n \<Longrightarrow> acked_size (os @ [(lit ''blksize'', show_nat n)]) =
      (case acked_size os of Some k \<Rightarrow> Some k | None \<Rightarrow> Some n)"
  using assms
  by (induction os) (auto simp: acked_size_def ack_ok_def find_block_size_ack block_size_ok_bound
      split: option.splits simp del: find_block_size.simps(2))

lemma negotiate_read_agrees:
  assumes "list_all ack_ok acks" "length (filter (\<lambda>o'. fst o' = lit ''blksize'') os) \<le> 1"
    and "acked_size acks \<noteq> None \<Longrightarrow> filter (\<lambda>o'. fst o' = lit ''blksize'') os = []"
    and "bs = (case acked_size acks of Some n \<Rightarrow> n | None \<Rightarrow> DEFAULT_BLOCK_SIZE)" "block_size_ok bs"
  shows "case negotiate_read fs os (bs, acks) of (bs', acks') \<Rightarrow>
    list_all ack_ok acks' \<and> block_size_ok bs' \<and>
    bs' = (case acked_size acks' of Some n \<Rightarrow> n | None \<Rightarrow> DEFAULT_BLOCK_SIZE)"
  using assms
proof (induction fs os "(bs, acks)" arbitrary: bs acks rule: negotiate_read.induct)
  case (2 fs name v os bs acks)
  consider (size) n where "name = lit ''blksize''" "parse_uint (2 ^ 64) v = Some n" "block_size_ok n"
    | (other) "name = lit ''blksize''" "\<forall>n. parse_uint (2 ^ 64) v = Some n \<longrightarrow> \<not> block_size_ok n"
    | (tsize) "name = lit ''tsize''" | (none) "name \<noteq> lit ''blksize''" "name \<noteq> lit ''tsize''"
    by blast
  then show ?case
  proof cases
    case size
    have "acked_size acks = None"
      using "2.prems"(3) size(1) by (cases "acked_size acks") auto
    moreover have "filter (\<lambda>o'. fst o' = lit ''blksize'') os = []"
      using "2.prems"(2) size(1) by (simp add: filter_empty_conv)
    moreover have "ack_ok (lit ''blksize'', show_nat n)" using size by (auto simp: ack_ok_def)
    ultimately show ?thesis using "2.hyps" [of n "acks @ [(lit ''blksize'', show_nat n)]"] "2.prems" size
      by (simp add: acked_size_append)
  next
    case other
    then show ?thesis using "2.hyps" [of bs acks] "2.prems"
      by (cases "parse_uint (2 ^ 64) v") auto
  next
    case tsize
    have "ack_ok (lit ''tsize'', show_nat fs)" by (auto simp: ack_ok_def)
    then show ?thesis using "2.hyps" [of bs "acks @ [(lit ''tsize'', show_nat fs)]"] "2.prems" tsize
      by (simp add: acked_size_append)
  next
    case none
    then show ?thesis using "2.hyps" [of bs acks] "2.prems" by simp
  qed
qed simp

lemma negotiate_write_agrees:
  assumes "list_all ack_ok acks" "length (filter (\<lambda>o'. fst o' = lit ''blksize'') os) \<le> 1"
    and "acked_size acks \<noteq> None \<Longrightarrow> filter (\<lambda>o'. fst o' = lit ''blksize'') os = []"
    and "bs = (case acked_size acks of Some n \<Rightarrow> n | None \<Rightarrow> DEFAULT_BLOCK_SIZE)" "block_size_ok bs"
  shows "case negotiate_write os (bs, ts, acks) of (bs', ts', acks') \<Rightarrow>
    list_all ack_ok acks' \<and> block_size_ok bs' \<and>
    bs' = (case acked_size acks' of Some n \<Rightarrow> n | None \<Rightarrow> DEFAULT_BLOCK_SIZE)"
  using assms
proof (induction os "(bs, ts, acks)" arbitrary: bs ts acks rule: negotiate_write.induct)
  case (2 name v os bs ts acks)
  consider (size) n where "name = lit ''blksize''" "parse_uint (2 ^ 64) v = Some n" "block_size_ok n"
    | (other) "name = lit ''blksize''" "\<forall>n. parse_uint (2 ^ 64) v = Some n \<longrightarrow> \<not> block_size_ok n"
    | (tsize) n where "name = lit ''tsize''" "parse_uint (2 ^ 64) v = Some n"
    | (none) "name \<noteq> lit ''blksize''" "name = lit ''tsize'' \<longrightarrow> parse_uint (2 ^ 64) v = None"
    by (cases "parse_uint (2 ^ 64) v") blast+
  then show ?case
  proof cases
    case size
    have "acked_size acks = None"
      using "2.prems"(3) size(1) by (cases "acked_size acks") auto
    moreover have "filter (\<lambda>o'. fst o' = lit ''blksize'') os = []"
      using "2.prems"(2) size(1) by (simp add: filter_empty_conv)
    moreover have "ack_ok (lit ''blksize'', show_nat n)" using size by (auto simp: ack_ok_def)
    ultimately show ?thesis using "2.hyps" [of n ts "acks @ [(lit ''blksize'', show_nat n)]"] "2.prems" size
      by (simp add: acked_size_append)
  next
    case other
    then show ?thesis using "2.hyps" [of bs ts acks] "2.prems"
      by (cases "parse_uint (2 ^ 64) v") auto
  next
    case tsize
    have "ack_ok (lit ''tsize'', show_nat n)" by (auto simp: ack_ok_def)
    then show ?thesis using "2.hyps" [of bs "Some n" "acks @ [(lit ''tsize'', show_nat n)]"] "2.prems" tsize
      by (simp add: acked_size_append)
  next
    case none
    then show ?thesis using "2.hyps" [of bs ts acks] "2.prems" by (cases "name = lit ''tsize''") auto
  qed
qed simp

section \<open>Properties of the packets\<close>

text \<open>
  A server reads back exactly the request a client builds: the operation, the
  file name, octet mode and the two options, for any file name that is not empty
  and has no NUL.
\<close>

theorem request_round_trip:
  assumes "op = OP_RRQ \<or> op = OP_WRQ" "text_ok f"
  shows "parse_request (request_packet op f n) =
    Inr \<lparr>rq_write = (op = OP_WRQ), rq_filename = f, rq_mode = lit ''octet'',
      rq_options = [(lit ''blksize'', show_nat REQUESTED_BLOCK_SIZE),
        (lit ''tsize'', show_nat (case n of Some k \<Rightarrow> k | None \<Rightarrow> 0))]\<rparr>"
  using assms by (rule parse_request_built)

theorem request_round_trip_witness:
  "\<exists>r. parse_request (request_packet OP_RRQ [0xE9, 46, 98] None) = Inr r \<and> rq_filename r = [0xE9, 46, 98]"
  using request_round_trip [of OP_RRQ "[0xE9, 46, 98]" None] by (simp add: text_ok_def is_scalar_def)

text \<open>
  Client and server use the same block size: whatever options a request
  names, with at most one block size among them, the size the server transfers
  with, for reads and for writes, is the one the client takes from the
  acknowledgement, and it is within the bounds of the protocol.
\<close>

theorem block_sizes_agree:
  assumes "length (filter (\<lambda>o'. fst o' = lit ''blksize'') os) \<le> 1"
  shows "(case negotiated_options os file_size of (bs, acks) \<Rightarrow>
      bs = client_block_size acks \<and> MIN_BLOCK_SIZE \<le> bs \<and> bs \<le> MAX_BLOCK_SIZE) \<and>
    (case negotiated_write_options os of (bs, _, acks) \<Rightarrow>
      bs = client_block_size acks \<and> MIN_BLOCK_SIZE \<le> bs \<and> bs \<le> MAX_BLOCK_SIZE)"
proof -
  have start: "acked_size [] = None" by (simp add: acked_size_def)
  have client: "client_block_size acks = (case acked_size acks of Some n \<Rightarrow> n | None \<Rightarrow> DEFAULT_BLOCK_SIZE)"
    if "list_all ack_ok acks" for acks
    using parsed_block_size_ack [OF that] by (simp add: client_block_size_def acked_size_def)
  show ?thesis
    using negotiate_read_agrees [of "[]" os DEFAULT_BLOCK_SIZE file_size]
      negotiate_write_agrees [of "[]" os DEFAULT_BLOCK_SIZE None] assms client
    by (auto simp: start negotiated_options_def negotiated_write_options_def block_size_ok_def [symmetric]
        split: prod.splits)
qed

theorem block_sizes_agree_witness:
  "fst (negotiated_options [(lit ''blksize'', lit ''1428'')] 10) =
     client_block_size (snd (negotiated_options [(lit ''blksize'', lit ''1428'')] 10))"
  using block_sizes_agree [of "[(lit ''blksize'', lit ''1428'')]" 10] by (simp add: case_prod_unfold)

text \<open>
  The message of an error packet contains no control character, whatever
  bytes the other side sent, so it cannot write escape sequences to the terminal
  it is shown in; text without control characters is shown as it is.
\<close>

theorem error_message_is_printable:
  "list_all (\<lambda>c. \<not> is_control c) (error_message p) \<and>
   (list_all (\<lambda>c. \<not> is_control c) s \<longrightarrow> display_text s = s)"
  using display_text_printable display_text_id
  by (auto simp: list_all_iff error_message_def Let_def)

theorem error_message_is_printable_witness: "display_text (lit ''disk full'') = lit ''disk full''"
  using error_message_is_printable [of "[]" "lit ''disk full''"]
  by (simp add: lit_def is_control_def)

end
