(* ===== verification/Tftp_Net.thy ===== *)
theory Tftp_Net
  imports Tftp_Packet
begin

text \<open>
  The exchanges of the TFTP engine over a socket.  The network is a script of
  what each receive returns, and of the sends that do not succeed at once; when
  a receive has nothing left the call has not returned, which is \<open>None\<close>.  The
  four retry loops of the sources (two in \<open>server.rs\<close>, two in \<open>client.rs\<close>) share
  their shape and differ in how they judge a datagram.
\<close>

section \<open>Sockets\<close>

type_synonym socket_addr = "nat \<times> u16"

datatype recv_event = Datagram socket_addr bytes | RecvInterrupted | RecvTimedOut | RecvFailed

datatype send_event = Sent | SentPartial | SendInterrupted | SendFailed

record world =
  recvs :: "recv_event list"
  sends :: "send_event list"
  sent :: "(socket_addr \<times> bytes) list"
  active_for :: nat
  disk_free :: nat
  binds :: bool

datatype tftp_error = IoError | ServerStopped | PeerError ustring | TimedOutWaiting u16 | NoResponse
  | NotOctet | PathRefused | UploadTooLarge | SizeDiffers | Malformed | Unexpected u16 | OpenFailed

type_synonym 'a outcome = "((tftp_error + 'a) \<times> world) option"

text \<open>The scripted outcomes of \<open>send_to\<close>; after them every send succeeds.\<close>

fun send_loop :: "send_event list \<Rightarrow> bool \<times> send_event list" where
  "send_loop [] = (True, [])"
| "send_loop (SendInterrupted # r) = send_loop r"
| "send_loop (Sent # r) = (True, r)"
| "send_loop (SentPartial # r) = (False, r)"
| "send_loop (SendFailed # r) = (False, r)"

definition send_packet :: "world \<Rightarrow> bytes \<Rightarrow> socket_addr \<Rightarrow> (tftp_error + unit) \<times> world" where
  "send_packet w packet peer =
     (case send_loop (sends w) of
        (True, r) \<Rightarrow> (Inr (), w\<lparr>sends := r, sent := sent w @ [(peer, packet)]\<rparr>)
      | (False, r) \<Rightarrow> (Inl IoError, w\<lparr>sends := r\<rparr>))"

text \<open>\<open>let _ = send_packet(...)\<close>: errors are sent without looking at the result.\<close>

definition send_error :: "world \<Rightarrow> socket_addr \<Rightarrow> u16 \<Rightarrow> string \<Rightarrow> world" where
  "send_error w peer code message = snd (send_packet w (error_packet code (lit message)) peer)"

text \<open>
  The server's \<open>active\<close> flag is only ever cleared, so its history is the number
  of loads that still see it set.
\<close>

definition load_active :: "world \<Rightarrow> bool \<times> world" where
  "load_active w = (0 < active_for w, w\<lparr>active_for := active_for w - 1\<rparr>)"

section \<open>Waiting and retrying\<close>

datatype 'r verdict = Take 'r | Refuse tftp_error | Ignore | Resend

datatype 'r attempt = Accepted 'r | GiveUp tftp_error | Again

text \<open>The inner loop: receive into a buffer of the given size until something decides.\<close>

fun await :: "(socket_addr \<Rightarrow> bytes \<Rightarrow> 'r verdict) \<Rightarrow> nat \<Rightarrow> bytes \<Rightarrow> socket_addr
    \<Rightarrow> recv_event list \<Rightarrow> world \<Rightarrow> ('r attempt \<times> world) option" where
  "await judge buffer packet peer [] w = None"
| "await judge buffer packet peer (Datagram source p # r) w =
     (case judge source (take buffer p) of
        Take x \<Rightarrow> Some (Accepted x, w\<lparr>recvs := r\<rparr>)
      | Refuse e \<Rightarrow> Some (GiveUp e, w\<lparr>recvs := r\<rparr>)
      | Ignore \<Rightarrow> await judge buffer packet peer r w
      | Resend \<Rightarrow>
          (case send_packet w packet peer of
             (Inl e, w) \<Rightarrow> Some (GiveUp e, w\<lparr>recvs := r\<rparr>)
           | (Inr _, w) \<Rightarrow> await judge buffer packet peer r w))"
| "await judge buffer packet peer (RecvInterrupted # r) w = await judge buffer packet peer r w"
| "await judge buffer packet peer (RecvTimedOut # r) w = Some (Again, w\<lparr>recvs := r\<rparr>)"
| "await judge buffer packet peer (RecvFailed # r) w = Some (GiveUp IoError, w\<lparr>recvs := r\<rparr>)"

text \<open>The outer loop; \<open>guarded\<close> is the check of the server's flag before every attempt.\<close>

fun retry :: "bool \<Rightarrow> (socket_addr \<Rightarrow> bytes \<Rightarrow> 'r verdict) \<Rightarrow> nat \<Rightarrow> bytes \<Rightarrow> socket_addr \<Rightarrow> tftp_error
    \<Rightarrow> nat \<Rightarrow> world \<Rightarrow> 'r outcome" where
  "retry guarded judge buffer packet peer late 0 w = Some (Inl late, w)"
| "retry guarded judge buffer packet peer late (Suc n) w =
     (case (if guarded then load_active w else (True, w)) of
        (False, w) \<Rightarrow> Some (Inl ServerStopped, w)
      | (True, w) \<Rightarrow>
          (case send_packet w packet peer of
             (Inl e, w) \<Rightarrow> Some (Inl e, w)
           | (Inr _, w) \<Rightarrow>
               (case await judge buffer packet peer (recvs w) w of
                  None \<Rightarrow> None
                | Some (Accepted x, w) \<Rightarrow> Some (Inr x, w)
                | Some (GiveUp e, w) \<Rightarrow> Some (Inl e, w)
                | Some (Again, w) \<Rightarrow> retry guarded judge buffer packet peer late n w)))"

definition judge_ack :: "socket_addr \<Rightarrow> u16 \<Rightarrow> socket_addr \<Rightarrow> bytes \<Rightarrow> unit verdict" where
  "judge_ack peer expected source p =
     (if source = peer then
        if packet_opcode p = Some OP_ACK \<and> packet_block p = Some expected then Take ()
        else if packet_opcode p = Some OP_ERROR then Refuse (PeerError (error_message p))
        else Ignore
      else Ignore)"

definition send_with_ack :: "socket_addr \<Rightarrow> bytes \<Rightarrow> u16 \<Rightarrow> world \<Rightarrow> unit outcome" where
  "send_with_ack peer packet expected w =
     retry True (judge_ack peer expected) 516 packet peer (TimedOutWaiting expected) MAX_RETRIES w"

definition judge_data :: "socket_addr \<Rightarrow> u16 \<Rightarrow> socket_addr \<Rightarrow> bytes \<Rightarrow> bytes verdict" where
  "judge_data peer expected source p =
     (if source = peer then
        if packet_opcode p = Some OP_DATA \<and> packet_block p = Some expected then Take p
        else if packet_opcode p = Some OP_ERROR then Refuse (PeerError (error_message p))
        else Resend
      else Ignore)"

definition receive_data_after_response ::
  "socket_addr \<Rightarrow> bytes \<Rightarrow> u16 \<Rightarrow> nat \<Rightarrow> world \<Rightarrow> bytes outcome" where
  "receive_data_after_response peer response_packet expected buffer w =
     retry True (judge_data peer expected) buffer response_packet peer
       (TimedOutWaiting expected) MAX_RETRIES w"

definition judge_initial :: "socket_addr \<Rightarrow> socket_addr \<Rightarrow> bytes \<Rightarrow> (bytes \<times> socket_addr) verdict" where
  "judge_initial server source p = (if fst source = fst server then Take (p, source) else Ignore)"

definition initial_response :: "socket_addr \<Rightarrow> bytes \<Rightarrow> nat \<Rightarrow> world \<Rightarrow> (bytes \<times> socket_addr) outcome" where
  "initial_response server request buffer w =
     retry False (judge_initial server) buffer request server NoResponse MAX_RETRIES w"

definition judge_reply :: "socket_addr \<Rightarrow> u16 \<Rightarrow> u16 \<Rightarrow> socket_addr \<Rightarrow> bytes \<Rightarrow> bytes verdict" where
  "judge_reply peer opcode expected source p =
     (if source = peer then
        if packet_opcode p = Some OP_ERROR
           \<or> packet_opcode p = Some opcode \<and> packet_block p = Some expected then Take p
        else Resend
      else Ignore)"

definition receive_from_peer ::
  "socket_addr \<Rightarrow> bytes \<Rightarrow> u16 \<Rightarrow> u16 \<Rightarrow> nat \<Rightarrow> world \<Rightarrow> bytes outcome" where
  "receive_from_peer peer retry_packet opcode expected buffer w =
     retry False (judge_reply peer opcode expected) buffer retry_packet peer
       (TimedOutWaiting expected) MAX_RETRIES w"

text \<open>
  Re-acknowledging a repeated final block: \<open>rounds\<close> is how often the loop comes
  round before its deadline has passed.
\<close>

fun dally_after_final_ack :: "nat \<Rightarrow> socket_addr \<Rightarrow> u16 \<Rightarrow> bytes \<Rightarrow> recv_event list \<Rightarrow> world \<Rightarrow> world option" where
  "dally_after_final_ack 0 peer final_block ack r w = Some (w\<lparr>recvs := r\<rparr>)"
| "dally_after_final_ack (Suc n) peer final_block ack [] w = None"
| "dally_after_final_ack (Suc n) peer final_block ack (e # r) w =
     (case e of
        Datagram source p \<Rightarrow>
          let p = take (MAX_BLOCK_SIZE + 4) p
          in if source = peer \<and> packet_opcode p = Some OP_DATA \<and> packet_block p = Some final_block then
               (case send_packet w ack peer of
                  (Inl _, w) \<Rightarrow> Some (w\<lparr>recvs := r\<rparr>)
                | (Inr _, w) \<Rightarrow> dally_after_final_ack n peer final_block ack r w)
             else dally_after_final_ack n peer final_block ack r w
      | RecvInterrupted \<Rightarrow> dally_after_final_ack n peer final_block ack r w
      | RecvTimedOut \<Rightarrow> Some (w\<lparr>recvs := r\<rparr>)
      | RecvFailed \<Rightarrow> Some (w\<lparr>recvs := r\<rparr>))"

section \<open>What an exchange promises\<close>

lemma send_packet_cases:
  obtains (ok) r where "send_packet w p a = (Inr (), w\<lparr>sends := r, sent := sent w @ [(a, p)]\<rparr>)"
    | (failed) r where "send_packet w p a = (Inl IoError, w\<lparr>sends := r\<rparr>)"
proof (cases "send_loop (sends w)")
  case (Pair b r)
  with ok failed show thesis by (cases b) (auto simp: send_packet_def)
qed

lemma send_packet_recvs [simp]: "recvs (snd (send_packet w p a)) = recvs w"
  by (rule send_packet_cases [of w p a]) auto

text \<open>An event that ends a wait.\<close>

fun decides :: "recv_event \<Rightarrow> bool" where
  "decides RecvTimedOut = True"
| "decides RecvFailed = True"
| "decides _ = False"

text \<open>
  The wait consumes a prefix of the script; it accepts only a datagram of that
  prefix that its judge takes, and everything it sends is the packet to the peer.
\<close>

definition waited :: "(socket_addr \<Rightarrow> bytes \<Rightarrow> 'r verdict) \<Rightarrow> nat \<Rightarrow> bytes \<Rightarrow> socket_addr
    \<Rightarrow> recv_event list \<Rightarrow> world \<Rightarrow> 'r attempt \<Rightarrow> world \<Rightarrow> bool" where
  "waited judge buffer packet peer r w a w' \<longleftrightarrow>
     (\<exists>pre. r = pre @ recvs w' \<and> pre \<noteq> [] \<and>
        (a = Again \<longrightarrow> length (filter decides pre) = 1) \<and>
        (\<forall>x. a = Accepted x \<longrightarrow> (\<exists>s p. last pre = Datagram s p \<and> judge s (take buffer p) = Take x))) \<and>
     (\<exists>k. sent w' = sent w @ replicate k (peer, packet)) \<and>
     active_for w' = active_for w \<and> disk_free w' = disk_free w"

lemma waited_one:
  assumes "\<And>x. a = Accepted x \<Longrightarrow> \<exists>s p. e = Datagram s p \<and> judge s (take buffer p) = Take x"
    and "a = Again \<Longrightarrow> decides e" "sent w' = sent w" "recvs w' = r"
    and "active_for w' = active_for w" "disk_free w' = disk_free w"
  shows "waited judge buffer packet peer (e # r) w a w'"
  unfolding waited_def
  using assms by (auto intro!: exI [of _ "[e]"] exI [of _ 0])

lemma waited_skip:
  assumes "waited judge buffer packet peer r w a w'" "\<not> decides e"
  shows "waited judge buffer packet peer (e # r) w a w'"
proof -
  obtain pre where "r = pre @ recvs w'" "pre \<noteq> []" "a = Again \<longrightarrow> length (filter decides pre) = 1"
    "\<forall>x. a = Accepted x \<longrightarrow> (\<exists>s p. last pre = Datagram s p \<and> judge s (take buffer p) = Take x)"
    using assms(1) by (auto simp: waited_def)
  then show ?thesis
    using assms unfolding waited_def by (auto intro!: exI [of _ "e # pre"])
qed

lemma waited_sent:
  assumes "waited judge buffer packet peer r (w\<lparr>sends := s, sent := sent w @ [(peer, packet)]\<rparr>) a w'"
  shows "waited judge buffer packet peer r w a w'"
proof -
  obtain k where "sent w' = (sent w @ [(peer, packet)]) @ replicate k (peer, packet)"
    using assms by (auto simp: waited_def)
  then have "sent w' = sent w @ replicate (Suc k) (peer, packet)" by simp
  then show ?thesis using assms unfolding waited_def by (auto simp del: replicate_Suc)
qed

lemma await_spec:
  assumes "await judge buffer packet peer r w = Some (a, w')"
  shows "waited judge buffer packet peer r w a w'"
  using assms
proof (induction judge buffer packet peer r w rule: await.induct)
  case (2 judge buffer packet peer source p r w)
  show ?case
  proof (cases "judge source (take buffer p)")
    case Resend
    show ?thesis
    proof (rule send_packet_cases [of w packet peer])
      fix s assume "send_packet w packet peer = (Inl IoError, w\<lparr>sends := s\<rparr>)"
      then show ?thesis using "2.prems" Resend by (auto intro!: waited_one)
    next
      fix s assume s: "send_packet w packet peer = (Inr (), w\<lparr>sends := s, sent := sent w @ [(peer, packet)]\<rparr>)"
      with "2.IH"(2) [OF Resend s [symmetric] refl] "2.prems" Resend
      have "waited judge buffer packet peer r (w\<lparr>sends := s, sent := sent w @ [(peer, packet)]\<rparr>) a w'"
        by simp
      from waited_skip [OF waited_sent [OF this]] show ?thesis by simp
    qed
  next
    case Ignore
    with "2.prems" "2.IH"(1) show ?thesis by (auto intro: waited_skip)
  qed (use "2.prems" in \<open>auto intro!: waited_one\<close>)
next
  case (3 judge buffer packet peer r w)
  then show ?case by (auto intro: waited_skip)
qed (auto intro!: waited_one)

lemma await_returns: "\<exists>e\<in>set r. decides e \<Longrightarrow> await judge buffer packet peer r w \<noteq> None"
  by (induction judge buffer packet peer r w rule: await.induct)
    (auto split: verdict.splits prod.splits sum.splits)

lemma waitedE:
  assumes "waited judge buffer packet peer r w a w'"
  obtains pre k where "r = pre @ recvs w'" "pre \<noteq> []" "a = Again \<longrightarrow> length (filter decides pre) = 1"
    "\<forall>x. a = Accepted x \<longrightarrow> (\<exists>s p. last pre = Datagram s p \<and> judge s (take buffer p) = Take x)"
    "sent w' = sent w @ replicate k (peer, packet)" "active_for w' = active_for w"
    "disk_free w' = disk_free w"
  using assms unfolding waited_def by blast

text \<open>The same of a whole exchange, with the first send in front.\<close>

definition exchanged :: "(socket_addr \<Rightarrow> bytes \<Rightarrow> 'r verdict) \<Rightarrow> nat \<Rightarrow> bytes \<Rightarrow> socket_addr
    \<Rightarrow> world \<Rightarrow> (tftp_error + 'r) \<Rightarrow> world \<Rightarrow> bool" where
  "exchanged judge buffer packet peer w res w' \<longleftrightarrow>
     (\<exists>pre. recvs w = pre @ recvs w' \<and>
        (\<forall>x. res = Inr x \<longrightarrow> pre \<noteq> [] \<and>
           (\<exists>s p. last pre = Datagram s p \<and> judge s (take buffer p) = Take x))) \<and>
     (\<exists>k. sent w' = sent w @ replicate k (peer, packet) \<and> (\<forall>x. res = Inr x \<longrightarrow> 0 < k)) \<and>
     active_for w' \<le> active_for w \<and> disk_free w' = disk_free w"

lemma exchangedI:
  assumes "recvs w = pre @ recvs w'"
    and "\<And>x. res = Inr x \<Longrightarrow> pre \<noteq> [] \<and> (\<exists>s p. last pre = Datagram s p \<and> judge s (take buffer p) = Take x)"
    and "sent w' = sent w @ replicate k (peer, packet)" "\<And>x. res = Inr x \<Longrightarrow> 0 < k"
    and "active_for w' \<le> active_for w" "disk_free w' = disk_free w"
  shows "exchanged judge buffer packet peer w res w'"
  using assms unfolding exchanged_def by blast

lemma exchanged_later:
  assumes "exchanged judge buffer packet peer w1 res w'"
    and "recvs w = pre @ recvs w1" "sent w1 = sent w @ replicate k (peer, packet)"
    and "active_for w1 \<le> active_for w" "disk_free w1 = disk_free w"
  shows "exchanged judge buffer packet peer w res w'"
proof -
  obtain pre' k' where p: "recvs w1 = pre' @ recvs w'"
    "\<forall>x. res = Inr x \<longrightarrow> pre' \<noteq> [] \<and> (\<exists>s p. last pre' = Datagram s p \<and> judge s (take buffer p) = Take x)"
    "sent w' = sent w1 @ replicate k' (peer, packet)" "\<forall>x. res = Inr x \<longrightarrow> 0 < k'"
    "active_for w' \<le> active_for w1" "disk_free w' = disk_free w1"
    using assms(1) by (auto simp: exchanged_def)
  have "sent w' = sent w @ replicate (k + k') (peer, packet)"
    using p(3) assms(3) by (simp add: replicate_add)
  moreover have "recvs w = (pre @ pre') @ recvs w'" using p(1) assms(2) by simp
  ultimately show ?thesis
    using p assms(4,5) unfolding exchanged_def
    by (intro conjI exI [of _ "pre @ pre'"] exI [of _ "k + k'"]) auto
qed

lemma load_active_fields [simp]:
  "recvs (snd (load_active w)) = recvs w" "sends (snd (load_active w)) = sends w"
  "sent (snd (load_active w)) = sent w" "disk_free (snd (load_active w)) = disk_free w"
  "active_for (snd (load_active w)) \<le> active_for w"
  by (simp_all add: load_active_def)

lemma retry_spec:
  "retry guarded judge buffer packet peer late n w = Some (res, w') \<Longrightarrow>
   exchanged judge buffer packet peer w res w'"
proof (induction n arbitrary: w)
  case 0
  then show ?case by (auto simp: exchanged_def intro!: exI [of _ 0])
next
  case (Suc n)
  define u where "u = (if guarded then snd (load_active w) else w)"
  have u: "recvs u = recvs w" "sent u = sent w" "disk_free u = disk_free w" "active_for u \<le> active_for w"
    by (simp_all add: u_def)
  show ?case
  proof (cases "guarded \<and> \<not> fst (load_active w)")
    case True
    then have "res = Inl ServerStopped" "w' = u"
      using Suc.prems by (auto simp: u_def split: prod.splits bool.splits)
    then show ?thesis using u by (auto simp: exchanged_def intro!: exI [of _ 0])
  next
    case False
    then have go: "(if guarded then load_active w else (True, w)) = (True, u)"
      by (cases "load_active w") (auto simp: u_def)
    show ?thesis
    proof (rule send_packet_cases [of u packet peer])
      fix s assume "send_packet u packet peer = (Inl IoError, u\<lparr>sends := s\<rparr>)"
      then show ?thesis using Suc.prems go u
        by (auto simp: exchanged_def intro!: exI [of _ 0])
    next
      fix s assume s: "send_packet u packet peer = (Inr (), u\<lparr>sends := s, sent := sent u @ [(peer, packet)]\<rparr>)"
      let ?v = "u\<lparr>sends := s, sent := sent u @ [(peer, packet)]\<rparr>"
      obtain a v' where a: "await judge buffer packet peer (recvs ?v) ?v = Some (a, v')"
        using Suc.prems go s by (cases "await judge buffer packet peer (recvs ?v) ?v") auto
      obtain pre k where w: "recvs ?v = pre @ recvs v'" "pre \<noteq> []"
        "\<forall>x. a = Accepted x \<longrightarrow> (\<exists>s p. last pre = Datagram s p \<and> judge s (take buffer p) = Take x)"
        "sent v' = sent ?v @ replicate k (peer, packet)" "active_for v' = active_for ?v"
        "disk_free v' = disk_free ?v"
        using await_spec [OF a] by (rule waitedE)
      have sent: "sent v' = sent w @ replicate (Suc k) (peer, packet)" using w(4) u by simp
      show ?thesis
      proof (cases a)
        case (Accepted x)
        then have "res = Inr x" "w' = v'" using Suc.prems go s a by simp_all
        then show ?thesis using Accepted w u sent
          by (intro exchangedI [of _ pre _ _ _ _ "Suc k"]) simp_all
      next
        case (GiveUp e)
        then have "res = Inl e" "w' = v'" using Suc.prems go s a by simp_all
        then show ?thesis using w u sent
          by (intro exchangedI [of _ pre _ _ _ _ "Suc k"]) simp_all
      next
        case Again
        then have "retry guarded judge buffer packet peer late n v' = Some (res, w')"
          using Suc.prems go s a by simp
        from exchanged_later [OF Suc.IH [OF this], of w pre "Suc k"] show ?thesis
          using w u sent by simp
      qed
    qed
  qed
qed

text \<open>
  An exchange returns: as many deciding events as it has attempts are enough,
  whatever datagrams arrive between them.
\<close>

lemma retry_returns:
  "n \<le> length (filter decides (recvs w)) \<Longrightarrow> retry guarded judge buffer packet peer late n w \<noteq> None"
proof (induction n arbitrary: w)
  case (Suc n)
  define u where "u = (if guarded then snd (load_active w) else w)"
  have u: "recvs u = recvs w" by (simp add: u_def)
  show ?case
  proof (cases "guarded \<and> \<not> fst (load_active w)")
    case True
    then show ?thesis by (auto split: prod.splits bool.splits)
  next
    case False
    then have go: "(if guarded then load_active w else (True, w)) = (True, u)"
      by (cases "load_active w") (auto simp: u_def)
    show ?thesis
    proof (rule send_packet_cases [of u packet peer])
      fix s assume "send_packet u packet peer = (Inl IoError, u\<lparr>sends := s\<rparr>)"
      then show ?thesis using go by simp
    next
      fix s assume s: "send_packet u packet peer = (Inr (), u\<lparr>sends := s, sent := sent u @ [(peer, packet)]\<rparr>)"
      let ?v = "u\<lparr>sends := s, sent := sent u @ [(peer, packet)]\<rparr>"
      have "filter decides (recvs ?v) \<noteq> []" using Suc.prems u by auto
      then have "\<exists>e\<in>set (recvs ?v). decides e" by (auto simp: filter_empty_conv)
      then obtain a v' where a: "await judge buffer packet peer (recvs ?v) ?v = Some (a, v')"
        using await_returns [of "recvs ?v" judge buffer packet peer ?v] by auto
      show ?thesis
      proof (cases a)
        case Again
        obtain pre where "recvs ?v = pre @ recvs v'" "length (filter decides pre) = 1"
          using await_spec [OF a] Again by (auto elim!: waitedE)
        then have "n \<le> length (filter decides (recvs v'))" using Suc.prems u by simp
        from Suc.IH [OF this] show ?thesis using go s a Again by simp
      qed (use go s a in auto)
    qed
  qed
qed simp

end
