(* ===== verification/Tftp_Transfer.thy ===== *)
theory Tftp_Transfer
  imports Tftp_Net "HOL-Library.Sublist"
begin

text \<open>
  Whole transfers: the server's reads and writes (\<open>crates/ztftp/src/server.rs\<close>)
  and the client's downloads and uploads (\<open>client.rs\<close>).  The operating system's
  file system is a parameter; paths follow the Unix rules of \<open>Path::components\<close>.
\<close>

section \<open>Reading a file in blocks\<close>

datatype read_event = UpTo nat | ReadFails

text \<open>What is left of a file, and how the next reads behave: short, or failing.\<close>

record reader =
  rd_data :: bytes
  rd_script :: "read_event list"

definition read_once :: "nat \<Rightarrow> reader \<Rightarrow> (tftp_error + bytes \<times> reader)" where
  "read_once n r =
     (case rd_script r of
        [] \<Rightarrow> Inr (take n (rd_data r), r\<lparr>rd_data := drop n (rd_data r)\<rparr>)
      | UpTo k # s \<Rightarrow>
          let m = min n (max 1 k)
          in Inr (take m (rd_data r), r\<lparr>rd_data := drop m (rd_data r), rd_script := s\<rparr>)
      | ReadFails # s \<Rightarrow> Inl IoError)"

function read_block :: "nat \<Rightarrow> reader \<Rightarrow> (tftp_error + bytes \<times> reader)" where
  "read_block n r =
     (if n = 0 then Inr ([], r)
      else case read_once n r of
        Inl e \<Rightarrow> Inl e
      | Inr (d, r') \<Rightarrow>
          if d = [] then Inr ([], r')
          else case read_block (n - length d) r' of
                 Inl e \<Rightarrow> Inl e | Inr (d', r'') \<Rightarrow> Inr (d @ d', r''))"
  by pat_completeness auto
termination
  by (relation "measure fst") (auto simp: read_once_def Let_def split: list.splits read_event.splits)

declare read_block.simps [simp del]

text \<open>However short the reads are, a block is as long as the file still allows.\<close>

lemma read_block_spec:
  "read_block n r = Inr (d, r') \<Longrightarrow> d = take n (rd_data r) \<and> rd_data r' = drop n (rd_data r)"
proof (induction n r arbitrary: d r' rule: read_block.induct)
  case (1 n r)
  show ?case
  proof (cases "n = 0")
    case True
    then show ?thesis using "1.prems" by (simp add: read_block.simps)
  next
    case False
    obtain e s where once: "read_once n r = Inr (e, s)"
      using "1.prems" False by (subst (asm) read_block.simps) (auto split: sum.splits)
    obtain m where m: "e = take m (rd_data r)" "rd_data s = drop m (rd_data r)" "m \<le> n" "0 < m"
      using once False by (auto simp: read_once_def Let_def split: list.splits read_event.splits)
    show ?thesis
    proof (cases "e = []")
      case True
      then have "rd_data r = []" using m(1,4) by simp
      then show ?thesis using "1.prems" False once True m
        by (subst (asm) read_block.simps) simp
    next
      case ne: False
      obtain d' where d: "d = e @ d'" and rest: "read_block (n - length e) s = Inr (d', r')"
        using "1.prems" False once ne by (subst (asm) read_block.simps) (auto split: sum.splits)
      have ih: "d' = take (n - length e) (rd_data s) \<and> rd_data r' = drop (n - length e) (rd_data s)"
        using "1.IH" [OF False once refl ne rest] .
      have len: "length e = min m (length (rd_data r))" using m(1) by simp
      show ?thesis
      proof (cases "m \<le> length (rd_data r)")
        case True
        then have "take n (rd_data r) = take m (rd_data r) @ take (n - m) (drop m (rd_data r))"
          using m(3) by (metis le_add_diff_inverse take_add)
        then show ?thesis using ih d m len True by simp
      next
        case False
        then show ?thesis using ih d m len by simp
      qed
    qed
  qed
qed

section \<open>Paths\<close>

datatype component = RootDir | CurDir | ParentDir | Normal ustring

fun split_slash :: "ustring \<Rightarrow> ustring list" where
  "split_slash [] = [[]]"
| "split_slash (c # cs) =
     (if c = 47 then [] # split_slash cs
      else case split_slash cs of [] \<Rightarrow> [[c]] | p # ps \<Rightarrow> (c # p) # ps)"

definition component_of :: "ustring \<Rightarrow> component" where
  "component_of s = (if s = [46, 46] then ParentDir else Normal s)"

definition components :: "ustring \<Rightarrow> component list" where
  "components s =
     (let parts = filter (\<lambda>p. p \<noteq> []) (split_slash s);
          named = map component_of (filter (\<lambda>p. p \<noteq> [46]) parts)
      in if s \<noteq> [] \<and> hd s = 47 then RootDir # named
         else case parts of
                p # _ \<Rightarrow> if p = [46] then CurDir # named else named
              | [] \<Rightarrow> named)"

fun is_normal :: "component \<Rightarrow> bool" where
  "is_normal (Normal _) = True"
| "is_normal _ = False"

fun name_of :: "component \<Rightarrow> ustring" where
  "name_of (Normal s) = s"
| "name_of _ = []"

definition dot_prefixed :: "ustring \<Rightarrow> bool" where
  "dot_prefixed s \<longleftrightarrow> s \<noteq> [] \<and> hd s = 46"

definition has_dot_prefixed_component :: "component list \<Rightarrow> bool" where
  "has_dot_prefixed_component cs = list_ex (\<lambda>c. is_normal c \<and> dot_prefixed (name_of c)) cs"

text \<open>Canonical paths are their names from the root of the file system.\<close>

type_synonym path = "ustring list"

record file_system =
  fs_canonicalize :: "path \<Rightarrow> ustring list \<Rightarrow> path option"
  fs_is_file :: "path \<Rightarrow> bool"
  fs_open :: "path \<Rightarrow> reader option"
  fs_create_new :: "path \<Rightarrow> bool"

definition safe_server_path :: "file_system \<Rightarrow> path \<Rightarrow> ustring \<Rightarrow> tftp_error + path" where
  "safe_server_path fs root filename =
     (let relative = components filename
      in if RootDir \<in> set relative then Inl PathRefused
         else if \<not> list_all is_normal relative then Inl PathRefused
         else case fs_canonicalize fs root (map name_of relative) of
           None \<Rightarrow> Inl OpenFailed
         | Some path \<Rightarrow>
             if \<not> prefix root path then Inl PathRefused
             else if \<not> fs_is_file fs path then Inl PathRefused
             else Inr path)"

text \<open>The path of \<open>PendingUpload::create\<close>, once the file is created.\<close>

definition create_upload :: "file_system \<Rightarrow> path \<Rightarrow> ustring \<Rightarrow> tftp_error + path" where
  "create_upload fs root filename =
     (let relative = components filename
      in if RootDir \<in> set relative then Inl PathRefused
         else if \<not> list_all is_normal relative then Inl PathRefused
         else if has_dot_prefixed_component relative then Inl PathRefused
         else if relative = [] then Inl PathRefused
         else case fs_canonicalize fs root (map name_of (butlast relative)) of
           None \<Rightarrow> Inl OpenFailed
         | Some canonical_parent \<Rightarrow>
             if \<not> prefix root canonical_parent then Inl PathRefused
             else
               let path = canonical_parent @ [name_of (last relative)]
               in if list_ex dot_prefixed (drop (length root) path) then Inl PathRefused
                  else if \<not> fs_create_new fs path then Inl OpenFailed
                  else Inr path)"

lemma safe_server_path_spec:
  assumes "safe_server_path fs root filename = Inr path"
  shows "prefix root path" "fs_is_file fs path" "ParentDir \<notin> set (components filename)"
    "RootDir \<notin> set (components filename)"
    "fs_canonicalize fs root (map name_of (components filename)) = Some path"
  using assms by (auto simp: safe_server_path_def Let_def list_all_iff split: if_splits option.splits)

lemma create_upload_spec:
  assumes "create_upload fs root filename = Inr path"
  shows "\<exists>parent name. path = parent @ [name] \<and> prefix root parent \<and>
    fs_canonicalize fs root (map name_of (butlast (components filename))) = Some parent \<and>
    name = name_of (last (components filename)) \<and> fs_create_new fs path \<and>
    list_all (\<lambda>n. \<not> dot_prefixed n) (drop (length root) path) \<and>
    list_all is_normal (components filename) \<and> \<not> has_dot_prefixed_component (components filename)"
  using assms by (auto simp: create_upload_def Let_def list_ex_iff list_all_iff split: if_splits option.splits)

section \<open>Serving a file\<close>

lemma receive_consumes:
  assumes "receive_data_after_response peer resp b buf w = Some (Inr p, w')"
  shows "length (recvs w') < length (recvs w)"
  using retry_spec [OF assms [unfolded receive_data_after_response_def]]
  by (auto simp: exchanged_def)

lemma receive_from_peer_consumes:
  assumes "receive_from_peer peer resp opc b buf w = Some (Inr p, w')"
  shows "length (recvs w') < length (recvs w)"
  using retry_spec [OF assms [unfolded receive_from_peer_def]]
  by (auto simp: exchanged_def)

text \<open>
  The loop of \<open>serve_read_request\<close>.  Block sizes are at least eight, so the test
  for an empty block never decides by itself; it is what makes the loop's end
  evident for every block size.
\<close>

function serve_read_loop ::
  "socket_addr \<Rightarrow> nat \<Rightarrow> u16 \<Rightarrow> nat \<Rightarrow> reader \<Rightarrow> world \<Rightarrow> nat outcome" where
  "serve_read_loop peer block_size block served file w =
     (case read_block block_size file of
        Inl e \<Rightarrow> Some (Inl e, w)
      | Inr (data, file) \<Rightarrow>
          (case send_with_ack peer (set_data_packet block data) block w of
             None \<Rightarrow> None
           | Some (Inl e, w) \<Rightarrow> Some (Inl e, w)
           | Some (Inr _, w) \<Rightarrow>
               let served = served + length data
               in if length data < block_size \<or> data = [] then Some (Inr served, w)
                  else serve_read_loop peer block_size (block + 1) served file w))"
  by pat_completeness auto
termination
  by (relation "measure (\<lambda>(_, _, _, _, file, _). length (rd_data file))")
    (auto dest!: read_block_spec)

declare serve_read_loop.simps [simp del]

definition serve_read_request ::
  "file_system \<Rightarrow> path \<Rightarrow> socket_addr \<Rightarrow> request \<Rightarrow> world \<Rightarrow> nat outcome" where
  "serve_read_request fs root peer rq w =
     (if rq_mode rq \<noteq> lit ''octet'' then Some (Inl NotOctet, w)
      else case safe_server_path fs root (rq_filename rq) of
        Inl e \<Rightarrow> Some (Inl e, w)
      | Inr path \<Rightarrow>
          (case fs_open fs path of None \<Rightarrow> Some (Inl OpenFailed, w)
           | Some file \<Rightarrow>
               if \<not> binds w then Some (Inl IoError, w)
               else
                 let file_size = length (rd_data file);
                     (block_size, option_ack) = negotiated_options (rq_options rq) file_size
                 in case (if option_ack \<noteq> []
                          then send_with_ack peer (option_ack_packet option_ack) 0 w
                          else Some (Inr (), w)) of
                      None \<Rightarrow> None
                    | Some (Inl e, w) \<Rightarrow> Some (Inl e, w)
                    | Some (Inr _, w) \<Rightarrow> serve_read_loop peer block_size 1 0 file w))"

section \<open>Accepting an upload\<close>

text \<open>
  The loop of \<open>serve_write_request\<close>, with what has reached the file.  \<open>rounds\<close> is
  how long the final acknowledgement is repeated.
\<close>

function serve_write_loop ::
  "nat \<Rightarrow> socket_addr \<Rightarrow> nat \<Rightarrow> nat option \<Rightarrow> bytes \<Rightarrow> u16 \<Rightarrow> bytes \<Rightarrow> world \<Rightarrow> bytes outcome" where
  "serve_write_loop rounds peer block_size expected_size response_packet expected_block written w =
     (case receive_data_after_response peer response_packet expected_block (block_size + 4) w of
        None \<Rightarrow> None
      | Some (Inl e, w) \<Rightarrow> Some (Inl e, w)
      | Some (Inr p, w) \<Rightarrow>
          if length p < 4 then Some (Inl Malformed, w)
          else
            let data = drop 4 p;
                acknowledgement = ack_packet expected_block
            in if MAX_UPLOAD_BYTES < length written + length data
               then Some (Inl UploadTooLarge, send_error w peer 3 ''upload is larger than the server allows'')
               else if disk_free w < length data then Some (Inl IoError, w)
               else
                 let w = w\<lparr>disk_free := disk_free w - length data\<rparr>;
                     written = written @ data
                 in if length data < block_size then
                      if expected_size \<noteq> None \<and> expected_size \<noteq> Some (length written)
                      then Some (Inl SizeDiffers, send_error w peer 0
                             ''upload size differs from the negotiated transfer size'')
                      else (case send_packet w acknowledgement peer of
                              (Inl e, w) \<Rightarrow> Some (Inl e, w)
                            | (Inr _, w) \<Rightarrow>
                                map_option (\<lambda>w. (Inr written, w))
                                  (dally_after_final_ack rounds peer expected_block acknowledgement (recvs w) w))
                    else serve_write_loop rounds peer block_size expected_size acknowledgement
                           (expected_block + 1) written w)"
  by pat_completeness auto
termination
  by (relation "measure (\<lambda>(_, _, _, _, _, _, _, w). length (recvs w))")
    (auto dest: receive_consumes)

declare serve_write_loop.simps [simp del]

text \<open>
  The result, the file that is left (none when the upload did not complete: the
  guard removes it), and the world.
\<close>

definition serve_write_request ::
  "nat \<Rightarrow> file_system \<Rightarrow> path \<Rightarrow> socket_addr \<Rightarrow> request \<Rightarrow> world
   \<Rightarrow> ((tftp_error + nat) \<times> (path \<times> bytes) option \<times> world) option" where
  "serve_write_request rounds fs root peer rq w =
     (if rq_mode rq \<noteq> lit ''octet'' then Some (Inl NotOctet, None, w)
      else case create_upload fs root (rq_filename rq) of
        Inl e \<Rightarrow> Some (Inl e, None, w)
      | Inr path \<Rightarrow>
          if \<not> binds w then Some (Inl IoError, None, w)
          else
            let (block_size, expected_size, option_ack) = negotiated_write_options (rq_options rq)
            in if (case expected_size of None \<Rightarrow> False | Some n \<Rightarrow> MAX_UPLOAD_BYTES < n)
               then Some (Inl UploadTooLarge, None,
                          send_error w peer 3 ''upload is larger than the server allows'')
               else
                 let response_packet = (if option_ack = [] then ack_packet 0 else option_ack_packet option_ack)
                 in case serve_write_loop rounds peer block_size expected_size response_packet 1 [] w of
                      None \<Rightarrow> None
                    | Some (Inl e, w) \<Rightarrow> Some (Inl e, None, w)
                    | Some (Inr written, w) \<Rightarrow> Some (Inr (length written), Some (path, written), w))"

section \<open>The client\<close>

text \<open>The loop of \<open>download\<close>, with what has reached the local file.\<close>

function download_loop ::
  "socket_addr \<Rightarrow> nat \<Rightarrow> u16 \<Rightarrow> bytes \<Rightarrow> bytes \<Rightarrow> world \<Rightarrow> ((tftp_error + unit) \<times> bytes \<times> world) option" where
  "download_loop peer block_size expected packet written w =
     (if packet_opcode packet \<noteq> Some OP_DATA \<or> packet_block packet \<noteq> Some expected
      then Some (Inl (Unexpected expected), written, w)
      else if length packet < 4 then Some (Inl Malformed, written, w)
      else
        let data = drop 4 packet;
            ack = ack_packet expected
        in if disk_free w < length data
           then Some (Inl IoError, written @ take (disk_free w) data, w\<lparr>disk_free := 0\<rparr>)
           else
             let w = w\<lparr>disk_free := disk_free w - length data\<rparr>;
                 written = written @ data
             in if length data < block_size then
                  (case send_packet w ack peer of
                     (Inl e, w) \<Rightarrow> Some (Inl e, written, w)
                   | (Inr _, w) \<Rightarrow> Some (Inr (), written, w))
                else (case receive_from_peer peer ack OP_DATA (expected + 1) (MAX_BLOCK_SIZE + 4) w of
                        None \<Rightarrow> None
                      | Some (Inl e, w) \<Rightarrow> Some (Inl e, written, w)
                      | Some (Inr p, w) \<Rightarrow> download_loop peer block_size (expected + 1) p written w))"
  by pat_completeness auto
termination
  by (relation "measure (\<lambda>(_, _, _, _, _, w). length (recvs w))")
    (auto dest!: receive_from_peer_consumes)

declare download_loop.simps [simp del]

text \<open>
  \<open>server\<close> is what resolving the host gives, \<open>creatable\<close> whether the local file
  can be created; the second component of the result is the local file.
\<close>

definition download ::
  "socket_addr option \<Rightarrow> bool \<Rightarrow> ustring \<Rightarrow> world
   \<Rightarrow> ((tftp_error + unit) \<times> bytes option \<times> world) option" where
  "download server creatable remote w =
     (case server of None \<Rightarrow> Some (Inl NoResponse, None, w)
      | Some server \<Rightarrow>
          if \<not> binds w then Some (Inl IoError, None, w)
          else case initial_response server (request_packet OP_RRQ remote None) (MAX_BLOCK_SIZE + 4) w of
            None \<Rightarrow> None
          | Some (Inl e, w) \<Rightarrow> Some (Inl e, None, w)
          | Some (Inr (p, peer), w) \<Rightarrow>
              (case (if packet_opcode p = Some OP_OACK
                     then let block_size = (case parsed_block_size p of Some n \<Rightarrow> n | None \<Rightarrow> DEFAULT_BLOCK_SIZE)
                          in map_option (\<lambda>(r, w). (map_sum id (\<lambda>p. (block_size, p)) r, w))
                               (receive_from_peer peer (ack_packet 0) OP_DATA 1 (MAX_BLOCK_SIZE + 4) w)
                     else Some (Inr (DEFAULT_BLOCK_SIZE, p), w)) of
                 None \<Rightarrow> None
               | Some (Inl e, w) \<Rightarrow> Some (Inl e, None, w)
               | Some (Inr (block_size, p), w) \<Rightarrow>
                   (case check_error_packet p of
                      Some m \<Rightarrow> Some (Inl (PeerError m), None, w)
                    | None \<Rightarrow>
                        if \<not> creatable then Some (Inl OpenFailed, None, w)
                        else map_option (\<lambda>(r, written, w). (r, Some written, w))
                               (download_loop peer block_size 1 p [] w))))"

function upload_loop :: "socket_addr \<Rightarrow> nat \<Rightarrow> u16 \<Rightarrow> reader \<Rightarrow> world \<Rightarrow> unit outcome" where
  "upload_loop peer block_size block file w =
     (case read_block block_size file of
        Inl e \<Rightarrow> Some (Inl e, w)
      | Inr (data, file) \<Rightarrow>
          (case receive_from_peer peer (set_data_packet block data) OP_ACK block (MAX_BLOCK_SIZE + 4) w of
             None \<Rightarrow> None
           | Some (Inl e, w) \<Rightarrow> Some (Inl e, w)
           | Some (Inr p, w) \<Rightarrow>
               (case check_error_packet p of
                  Some m \<Rightarrow> Some (Inl (PeerError m), w)
                | None \<Rightarrow>
                    if packet_opcode p \<noteq> Some OP_ACK \<or> packet_block p \<noteq> Some block
                    then Some (Inl (Unexpected block), w)
                    else if length data < block_size \<or> data = [] then Some (Inr (), w)
                    else upload_loop peer block_size (block + 1) file w)))"
  by pat_completeness auto
termination
  by (relation "measure (\<lambda>(_, _, _, file, _). length (rd_data file))")
    (auto dest!: read_block_spec)

declare upload_loop.simps [simp del]

definition upload :: "reader option \<Rightarrow> socket_addr option \<Rightarrow> ustring \<Rightarrow> world \<Rightarrow> unit outcome" where
  "upload file server remote w =
     (case file of None \<Rightarrow> Some (Inl OpenFailed, w)
      | Some file \<Rightarrow>
      case server of None \<Rightarrow> Some (Inl NoResponse, w)
      | Some server \<Rightarrow>
          if \<not> binds w then Some (Inl IoError, w)
          else case initial_response server (request_packet OP_WRQ remote (Some (length (rd_data file))))
                      (MAX_BLOCK_SIZE + 4) w of
            None \<Rightarrow> None
          | Some (Inl e, w) \<Rightarrow> Some (Inl e, w)
          | Some (Inr (p, peer), w) \<Rightarrow>
              (case check_error_packet p of
                 Some m \<Rightarrow> Some (Inl (PeerError m), w)
               | None \<Rightarrow>
                   if packet_opcode p = Some OP_OACK
                   then upload_loop peer
                          (case parsed_block_size p of Some n \<Rightarrow> n | None \<Rightarrow> DEFAULT_BLOCK_SIZE) 1 file w
                   else if packet_opcode p \<noteq> Some OP_ACK \<or> packet_block p \<noteq> Some 0
                   then Some (Inl (Unexpected 0), w)
                   else upload_loop peer DEFAULT_BLOCK_SIZE 1 file w))"

end
