(* ===== verification/Tftp_Delivery.thy ===== *)
theory Tftp_Delivery
  imports Tftp_Transfer
begin

text \<open>
  What TFTP transfers deliver: the packets a sender sends are those of the file in
  order, a receiver that is handed them in any order and number stores the file,
  uploads stay within their bounds, and every transfer comes to an end.
\<close>

section \<open>A file as packets\<close>

function blocks_of :: "nat \<Rightarrow> bytes \<Rightarrow> bytes list" where
  "blocks_of bs d = (if bs = 0 \<or> length d < bs then [d] else take bs d # blocks_of bs (drop bs d))"
  by pat_completeness auto
termination by (relation "measure (\<lambda>(_, d). length d)") auto

declare blocks_of.simps [simp del]

fun number_blocks :: "u16 \<Rightarrow> bytes list \<Rightarrow> bytes list" where
  "number_blocks b [] = []"
| "number_blocks b (d # ds) = set_data_packet b d # number_blocks (b + 1) ds"

definition data_packets :: "u16 \<Rightarrow> nat \<Rightarrow> bytes \<Rightarrow> bytes list" where
  "data_packets b bs d = number_blocks b (blocks_of bs d)"

lemma blocks_of_short: "length d < bs \<Longrightarrow> blocks_of bs d = [d]"
  by (simp add: blocks_of.simps)

lemma blocks_of_long: "0 < bs \<Longrightarrow> \<not> length d < bs \<Longrightarrow> blocks_of bs d = take bs d # blocks_of bs (drop bs d)"
  by (subst blocks_of.simps) simp

lemma concat_blocks_of [simp]: "concat (blocks_of bs d) = d"
  by (induction bs d rule: blocks_of.induct) (subst blocks_of.simps, simp)

lemma blocks_of_ne [simp]: "blocks_of bs d \<noteq> []"
  by (subst blocks_of.simps) simp

lemma length_blocks_of: "0 < bs \<Longrightarrow> length (blocks_of bs d) = length d div bs + 1"
proof (induction bs d rule: blocks_of.induct)
  case (1 bs d)
  show ?case
  proof (cases "length d < bs")
    case False
    then have "length d div bs = (length d - bs) div bs + 1" using "1.prems" by (simp add: le_div_geq)
    then show ?thesis using 1 False by (simp add: blocks_of_long)
  qed (simp add: blocks_of_short)
qed

text \<open>Every block but the last is full, and the last one is short.\<close>

lemma length_block:
  "0 < bs \<Longrightarrow> i < length (blocks_of bs d) \<Longrightarrow> length (blocks_of bs d ! i) \<le> bs \<and>
     (length (blocks_of bs d ! i) < bs \<longleftrightarrow> Suc i = length (blocks_of bs d))"
proof (induction bs d arbitrary: i rule: blocks_of.induct)
  case (1 bs d)
  show ?case
  proof (cases "length d < bs")
    case True
    then show ?thesis using 1 by (simp add: blocks_of_short)
  next
    case False
    have "blocks_of bs (drop bs d) \<noteq> []" by simp
    then show ?thesis using 1 False
      by (cases i) (auto simp: blocks_of_long min_def)
  qed
qed

lemma length_number_blocks [simp]: "length (number_blocks b ds) = length ds"
  by (induction b ds rule: number_blocks.induct) auto

lemma nth_number_blocks:
  "i < length ds \<Longrightarrow> number_blocks b ds ! i = set_data_packet (b + of_nat i) (ds ! i)"
  by (induction b ds arbitrary: i rule: number_blocks.induct) (auto simp: nth_Cons' algebra_simps of_nat_diff)

lemma payloads_number_blocks [simp]: "map (drop 4) (number_blocks b ds) = ds"
  by (induction b ds rule: number_blocks.induct) auto

lemma number_blocks_distinct_adj [simp]: "distinct_adj (number_blocks b ds)"
proof (induction b ds rule: number_blocks.induct)
  case (2 b d ds)
  have "set_data_packet b d \<noteq> set_data_packet (b + 1) d'" for d'
  proof
    assume "set_data_packet b d = set_data_packet (b + 1) d'"
    then have "packet_block (set_data_packet b d) = packet_block (set_data_packet (b + 1) d')" by simp
    then show False by simp
  qed
  with 2 show ?case by (cases ds) auto
qed simp

section \<open>Sending a file\<close>

text \<open>The packets were sent in order, each of them at least once and to the peer.\<close>

fun sent_each :: "socket_addr \<Rightarrow> bytes list \<Rightarrow> (socket_addr \<times> bytes) list \<Rightarrow> bool" where
  "sent_each peer [] s \<longleftrightarrow> s = []"
| "sent_each peer (p # ps) s \<longleftrightarrow>
     (\<exists>k s'. 0 < k \<and> s = replicate k (peer, p) @ s' \<and> sent_each peer ps s')"

lemma sent_each_hd: "sent_each peer (p # ps) s \<Longrightarrow> \<exists>s'. s = (peer, p) # s'"
  by (auto simp: gr0_conv_Suc)

lemma remdups_adj_replicate_append:
  "0 < k \<Longrightarrow> s = [] \<or> hd s \<noteq> x \<Longrightarrow> remdups_adj (replicate k x @ s) = x # remdups_adj s"
proof (induction k)
  case (Suc k)
  then show ?case by (cases k; cases s) auto
qed simp

lemma sent_each_remdups:
  "sent_each peer ps s \<Longrightarrow> distinct_adj ps \<Longrightarrow> remdups_adj s = map (Pair peer) ps"
proof (induction ps arbitrary: s)
  case (Cons p ps)
  obtain k s' where s: "0 < k" "s = replicate k (peer, p) @ s'" "sent_each peer ps s'"
    using Cons.prems by auto
  have "s' = [] \<or> hd s' \<noteq> (peer, p)"
  proof (cases ps)
    case Nil
    then show ?thesis using s by simp
  next
    case (Cons q qs)
    then show ?thesis using sent_each_hd [of peer q qs s'] s(3) \<open>distinct_adj (p # ps)\<close> by auto
  qed
  moreover have "distinct_adj ps" using Cons.prems(2) by (cases ps) auto
  ultimately show ?case using Cons.IH [OF s(3)] s by (simp add: remdups_adj_replicate_append)
qed simp

lemma exchanged_sent:
  assumes "exchanged judge buffer packet peer w (Inr x) w'"
  obtains k where "0 < k" "sent w' = sent w @ replicate k (peer, packet)"
  using assms by (auto simp: exchanged_def)

lemma send_with_ack_sent:
  assumes "send_with_ack peer packet b w = Some (Inr u, w')"
  obtains k where "0 < k" "sent w' = sent w @ replicate k (peer, packet)"
  using exchanged_sent [OF retry_spec [OF assms [unfolded send_with_ack_def]]] .

lemma receive_from_peer_sent:
  assumes "receive_from_peer peer packet opc b buf w = Some (Inr u, w')"
  obtains k where "0 < k" "sent w' = sent w @ replicate k (peer, packet)"
  using exchanged_sent [OF retry_spec [OF assms [unfolded receive_from_peer_def]]] .

lemma serve_read_loop_sends:
  "serve_read_loop peer bs b served src w = Some (Inr n, w') \<Longrightarrow> 0 < bs \<Longrightarrow>
   n = served + length (rd_data src) \<and>
   (\<exists>s. sent w' = sent w @ s \<and> sent_each peer (data_packets b bs (rd_data src)) s)"
proof (induction peer bs b served src w arbitrary: n w' rule: serve_read_loop.induct)
  case (1 peer bs b served src w)
  obtain d src' where r: "read_block bs src = Inr (d, src')"
    using "1.prems"(1) by (subst (asm) serve_read_loop.simps) (auto split: sum.splits)
  have d: "d = take bs (rd_data src)" "rd_data src' = drop bs (rd_data src)"
    using read_block_spec [OF r] by simp_all
  obtain u w1 where a: "send_with_ack peer (set_data_packet b d) b w = Some (Inr u, w1)"
    using "1.prems"(1) r
    by (subst (asm) serve_read_loop.simps) (auto split: option.splits sum.splits)
  obtain k where k: "0 < k" "sent w1 = sent w @ replicate k (peer, set_data_packet b d)"
    using send_with_ack_sent [OF a] .
  have eq: "(if length d < bs \<or> d = [] then Some (Inr (served + length d), w1)
      else serve_read_loop peer bs (b + 1) (served + length d) src' w1) = Some (Inr n, w')"
    using "1.prems"(1) r a by (subst (asm) serve_read_loop.simps) (simp add: Let_def)
  show ?case
  proof (cases "length (rd_data src) < bs")
    case True
    then have "n = served + length (rd_data src)" "w' = w1" using eq d(1) by auto
    then show ?thesis using True k d(1)
      by (auto simp: data_packets_def blocks_of_short intro!: exI [of _ k])
  next
    case False
    then have len: "length d = bs" using d(1) by simp
    have rest: "\<not> (length d < bs \<or> d = [])" using len "1.prems"(2) by auto
    have go: "serve_read_loop peer bs (b + 1) (served + length d) src' w1 = Some (Inr n, w')"
      using eq rest by auto
    have "n = served + length d + length (rd_data src') \<and>
      (\<exists>s. sent w' = sent w1 @ s \<and> sent_each peer (data_packets (b + 1) bs (rd_data src')) s)"
      by (rule "1.IH" [OF r refl a refl refl refl rest go "1.prems"(2)])
    then obtain s where s: "n = served + length d + length (rd_data src')" "sent w' = sent w1 @ s"
      "sent_each peer (data_packets (b + 1) bs (rd_data src')) s"
      by blast
    have "data_packets b bs (rd_data src) =
        set_data_packet b d # data_packets (b + 1) bs (rd_data src')"
      using "1.prems"(2) False d by (simp add: data_packets_def blocks_of_long)
    then show ?thesis using s k d len False
      by (auto intro!: exI [of _ k] exI [of _ s])
  qed
qed

lemma upload_loop_sends:
  "upload_loop peer bs b src w = Some (Inr u, w') \<Longrightarrow> 0 < bs \<Longrightarrow>
   \<exists>s. sent w' = sent w @ s \<and> sent_each peer (data_packets b bs (rd_data src)) s"
proof (induction peer bs b src w arbitrary: u w' rule: upload_loop.induct)
  case (1 peer bs b src w)
  obtain d src' where r: "read_block bs src = Inr (d, src')"
    using "1.prems"(1) by (subst (asm) upload_loop.simps) (auto split: sum.splits)
  have d: "d = take bs (rd_data src)" "rd_data src' = drop bs (rd_data src)"
    using read_block_spec [OF r] by simp_all
  obtain p w1 where a: "receive_from_peer peer (set_data_packet b d) OP_ACK b (MAX_BLOCK_SIZE + 4) w = Some (Inr p, w1)"
    using "1.prems"(1) r
    by (subst (asm) upload_loop.simps) (auto split: option.splits sum.splits)
  obtain k where k: "0 < k" "sent w1 = sent w @ replicate k (peer, set_data_packet b d)"
    using receive_from_peer_sent [OF a] .
  have ok: "check_error_packet p = None" "\<not> (packet_opcode p \<noteq> Some OP_ACK \<or> packet_block p \<noteq> Some b)"
    using "1.prems"(1) r a by (subst (asm) upload_loop.simps, simp split: option.splits if_splits)+
  have eq: "(if length d < bs \<or> d = [] then Some (Inr (), w1)
      else upload_loop peer bs (b + 1) src' w1) = Some (Inr u, w')"
    using "1.prems"(1) r a ok by (subst (asm) upload_loop.simps) simp
  show ?case
  proof (cases "length (rd_data src) < bs")
    case True
    then have "w' = w1" using eq d(1) by auto
    then show ?thesis using True k d(1)
      by (auto simp: data_packets_def blocks_of_short intro!: exI [of _ k])
  next
    case False
    then have len: "length d = bs" using d(1) by simp
    have rest: "\<not> (length d < bs \<or> d = [])" using len "1.prems"(2) by auto
    have go: "upload_loop peer bs (b + 1) src' w1 = Some (Inr u, w')"
      using eq rest by auto
    obtain s where s: "sent w' = sent w1 @ s"
      "sent_each peer (data_packets (b + 1) bs (rd_data src')) s"
      using "1.IH" [OF r refl a refl refl ok rest go "1.prems"(2)] by blast
    have "data_packets b bs (rd_data src) =
        set_data_packet b d # data_packets (b + 1) bs (rd_data src')"
      using "1.prems"(2) False d by (simp add: data_packets_def blocks_of_long)
    then show ?thesis using s k
      by (auto intro!: exI [of _ k] exI [of _ s])
  qed
qed

section \<open>Receiving a file\<close>

lemma packet_opcode_take: "2 \<le> n \<Longrightarrow> packet_opcode (take n p) = packet_opcode p"
  by (auto simp: packet_opcode_def get_def split: option.splits)

text \<open>
  Among the packets of one file, the number of a block tells which block it is,
  as long as there are fewer than 2^16 of them.
\<close>

lemma numbered_block:
  assumes p: "p \<in> set (data_packets 1 bs f)" "packet_block p = Some (of_nat (Suc i))"
    and n: "length (blocks_of bs f) < 65536" "i \<le> length (blocks_of bs f)"
  shows "i < length (blocks_of bs f) \<and> p = set_data_packet (of_nat (Suc i)) (blocks_of bs f ! i)"
proof -
  obtain j where j: "j < length (blocks_of bs f)" "p = set_data_packet (1 + of_nat j) (blocks_of bs f ! j)"
    using p(1) nth_number_blocks [of _ "blocks_of bs f" 1]
    by (auto simp: data_packets_def in_set_conv_nth)
  have "(of_nat (Suc j) :: u16) = of_nat (Suc i)" using p(2) j(2) by simp
  then have "Suc j mod 65536 = Suc i mod 65536"
    using word_of_nat_eq_iff [where ?'a = 16, of "Suc j" "Suc i"] by (simp add: take_bit_eq_mod)
  then have "i = j" using n j(1) by (cases "Suc i = 65536") auto
  then show ?thesis using j by simp
qed

text \<open>A datagram that a transfer takes comes from its peer and is the next block.\<close>

lemma exchange_takes:
  assumes "exchanged judge buffer packet peer w (Inr x) w'"
  obtains s p where "Datagram s p \<in> set (recvs w)" "judge s (take buffer p) = Take x"
    "set (recvs w') \<subseteq> set (recvs w)"
proof -
  obtain pre s p where "recvs w = pre @ recvs w'" "pre \<noteq> []" "last pre = Datagram s p"
    "judge s (take buffer p) = Take x"
    using assms unfolding exchanged_def by blast
  moreover from this have "Datagram s p \<in> set (recvs w)" by (metis UnI1 last_in_set set_append)
  ultimately show thesis using that by auto
qed

text \<open>What may arrive from the peer: packets of the file, in any order and number, or no data.\<close>

definition only_packets_of :: "socket_addr \<Rightarrow> nat \<Rightarrow> bytes \<Rightarrow> recv_event list \<Rightarrow> bool" where
  "only_packets_of peer bs f r \<longleftrightarrow>
     (\<forall>p. Datagram peer p \<in> set r \<longrightarrow> packet_opcode p = Some OP_DATA \<longrightarrow> p \<in> set (data_packets 1 bs f))"

lemma only_packets_of_mono:
  "only_packets_of peer bs f r \<Longrightarrow> set r' \<subseteq> set r \<Longrightarrow> only_packets_of peer bs f r'"
  unfolding only_packets_of_def by blast

lemma data_packet_length:
  "0 < bs \<Longrightarrow> p \<in> set (data_packets b bs f) \<Longrightarrow> length p \<le> bs + 4"
  using length_block [of bs _ f]
  by (auto simp: data_packets_def in_set_conv_nth nth_number_blocks)

lemma receive_data_next:
  assumes "receive_data_after_response peer resp (of_nat (Suc i)) (bs + 4) w = Some (Inr p, w1)"
    and "only_packets_of peer bs f (recvs w)" "0 < bs"
    and "length (blocks_of bs f) < 65536" "i \<le> length (blocks_of bs f)"
  shows "i < length (blocks_of bs f)" "drop 4 p = blocks_of bs f ! i" "set (recvs w1) \<subseteq> set (recvs w)"
proof -
  obtain s q where q: "Datagram s q \<in> set (recvs w)"
    "judge_data peer (of_nat (Suc i)) s (take (bs + 4) q) = Take p" "set (recvs w1) \<subseteq> set (recvs w)"
    using exchange_takes [OF retry_spec [OF assms(1) [unfolded receive_data_after_response_def]]] .
  have s: "s = peer" "p = take (bs + 4) q" "packet_opcode p = Some OP_DATA"
    "packet_block p = Some (of_nat (Suc i))"
    using q(2) by (auto simp: judge_data_def split: if_splits)
  then have "packet_opcode q = Some OP_DATA" using packet_opcode_take [of "bs + 4" q] by simp
  then have mem: "q \<in> set (data_packets 1 bs f)" using assms(2) q(1) s(1) by (auto simp: only_packets_of_def)
  then have "p = q" using s(2) data_packet_length [OF assms(3) mem] by simp
  then have n: "i < length (blocks_of bs f) \<and> p = set_data_packet (of_nat (Suc i)) (blocks_of bs f ! i)"
    using numbered_block [OF mem _ assms(4,5)] s(4) by simp
  then show "i < length (blocks_of bs f)" "drop 4 p = blocks_of bs f ! i" by simp_all
  show "set (recvs w1) \<subseteq> set (recvs w)" by (fact q(3))
qed

text \<open>The step that a completed upload has taken last.\<close>

lemma serve_write_step:
  assumes "serve_write_loop rounds peer bs es resp b written w = Some (Inr out, w')"
  obtains p w1 where "receive_data_after_response peer resp b (bs + 4) w = Some (Inr p, w1)"
    "length written + length (drop 4 p) \<le> MAX_UPLOAD_BYTES" "4 \<le> length p"
    "length (drop 4 p) \<le> disk_free w1"
    "(length (drop 4 p) < bs \<and> out = written @ drop 4 p \<and> (es = None \<or> es = Some (length out))) \<or>
     (\<not> length (drop 4 p) < bs \<and>
      serve_write_loop rounds peer bs es (ack_packet b) (b + 1) (written @ drop 4 p)
        (w1\<lparr>disk_free := disk_free w1 - length (drop 4 p)\<rparr>) = Some (Inr out, w'))"
proof -
  obtain p w1 where r: "receive_data_after_response peer resp b (bs + 4) w = Some (Inr p, w1)"
    using assms by (subst (asm) serve_write_loop.simps) (auto split: option.splits sum.splits)
  show thesis
    using assms r
    by (subst (asm) serve_write_loop.simps, intro that [OF r])
      (auto simp: Let_def not_less split: if_splits prod.splits sum.splits option.splits)
qed

lemma serve_write_loop_intact:
  assumes "serve_write_loop rounds peer bs es resp (of_nat (Suc i)) (concat (take i (blocks_of bs f))) w
      = Some (Inr out, w')"
    and "only_packets_of peer bs f (recvs w)" "0 < bs"
    and "length (blocks_of bs f) < 65536" "i \<le> length (blocks_of bs f)"
  shows "out = f"
  using assms
proof (induction "length (recvs w)" arbitrary: i resp w rule: less_induct)
  case less
  let ?bl = "blocks_of bs f"
  obtain p w1 where r: "receive_data_after_response peer resp (of_nat (Suc i)) (bs + 4) w = Some (Inr p, w1)"
    and step: "(length (drop 4 p) < bs \<and> out = concat (take i ?bl) @ drop 4 p) \<or>
     (\<not> length (drop 4 p) < bs \<and>
      serve_write_loop rounds peer bs es (ack_packet (of_nat (Suc i))) (of_nat (Suc i) + 1)
        (concat (take i ?bl) @ drop 4 p)
        (w1\<lparr>disk_free := disk_free w1 - length (drop 4 p)\<rparr>) = Some (Inr out, w'))"
    using less.prems(1) by (rule serve_write_step) blast
  have b: "i < length ?bl" "drop 4 p = ?bl ! i" "set (recvs w1) \<subseteq> set (recvs w)"
    using receive_data_next [OF r less.prems(2-5)] by simp_all
  have written: "concat (take i ?bl) @ drop 4 p = concat (take (Suc i) ?bl)"
    using b by (simp add: take_Suc_conv_app_nth)
  show ?case
  proof (cases "length (?bl ! i) < bs")
    case True
    then have "Suc i = length ?bl" using length_block [OF less.prems(3) b(1)] by simp
    then have "concat (take (Suc i) ?bl) = f" by simp
    then show ?thesis using step True b(2) written by auto
  next
    case False
    then have "Suc i < length ?bl" using length_block [OF less.prems(3) b(1)] b(1) by auto
    moreover have "serve_write_loop rounds peer bs es (ack_packet (of_nat (Suc i))) (of_nat (Suc (Suc i)))
        (concat (take (Suc i) ?bl)) (w1\<lparr>disk_free := disk_free w1 - length (drop 4 p)\<rparr>) = Some (Inr out, w')"
      using step False b(2) written by (simp add: add.commute)
    moreover have "only_packets_of peer bs f (recvs w1)"
      using only_packets_of_mono [OF less.prems(2) b(3)] .
    ultimately show ?thesis
      using less.hyps [of "w1\<lparr>disk_free := disk_free w1 - length (drop 4 p)\<rparr>" _ "Suc i"] receive_consumes [OF r]
        less.prems(3,4)
      by simp
  qed
qed

lemma serve_write_loop_bounds:
  "serve_write_loop rounds peer bs es resp b written w = Some (Inr out, w') \<Longrightarrow>
   length out \<le> MAX_UPLOAD_BYTES \<and> (es = None \<or> es = Some (length out))"
proof (induction "length (recvs w)" arbitrary: resp b written w rule: less_induct)
  case less
  obtain p w1 where r: "receive_data_after_response peer resp b (bs + 4) w = Some (Inr p, w1)"
    "length written + length (drop 4 p) \<le> MAX_UPLOAD_BYTES"
    and step: "(length (drop 4 p) < bs \<and> out = written @ drop 4 p \<and> (es = None \<or> es = Some (length out))) \<or>
     (\<not> length (drop 4 p) < bs \<and>
      serve_write_loop rounds peer bs es (ack_packet b) (b + 1) (written @ drop 4 p)
        (w1\<lparr>disk_free := disk_free w1 - length (drop 4 p)\<rparr>) = Some (Inr out, w'))"
    using less.prems by (rule serve_write_step) blast
  from step show ?case
  proof
    assume "length (drop 4 p) < bs \<and> out = written @ drop 4 p \<and> (es = None \<or> es = Some (length out))"
    then show ?thesis using r(2) by auto
  next
    assume "\<not> length (drop 4 p) < bs \<and>
      serve_write_loop rounds peer bs es (ack_packet b) (b + 1) (written @ drop 4 p)
        (w1\<lparr>disk_free := disk_free w1 - length (drop 4 p)\<rparr>) = Some (Inr out, w')"
    then show ?thesis
      using less.hyps [of "w1\<lparr>disk_free := disk_free w1 - length (drop 4 p)\<rparr>"] receive_consumes [OF r(1)]
      by auto
  qed
qed

text \<open>The same of the client, whose first packet is already there.\<close>

lemma download_step:
  assumes "download_loop peer bs b p written w = Some (Inr u, out, w')"
  shows "packet_opcode p = Some OP_DATA" "packet_block p = Some b"
    "(length (drop 4 p) < bs \<and> out = written @ drop 4 p) \<or>
     (\<exists>p' w1. receive_from_peer peer (ack_packet b) OP_DATA (b + 1) (MAX_BLOCK_SIZE + 4)
          (w\<lparr>disk_free := disk_free w - length (drop 4 p)\<rparr>) = Some (Inr p', w1) \<and>
        \<not> length (drop 4 p) < bs \<and> download_loop peer bs (b + 1) p' (written @ drop 4 p) w1 = Some (Inr u, out, w'))"
proof -
  note unfolded = assms [unfolded download_loop.simps [of peer bs b p written w]]
  show "packet_opcode p = Some OP_DATA" "packet_block p = Some b"
    using unfolded by (simp_all split: if_splits)
  show "(length (drop 4 p) < bs \<and> out = written @ drop 4 p) \<or>
     (\<exists>p' w1. receive_from_peer peer (ack_packet b) OP_DATA (b + 1) (MAX_BLOCK_SIZE + 4)
          (w\<lparr>disk_free := disk_free w - length (drop 4 p)\<rparr>) = Some (Inr p', w1) \<and>
        \<not> length (drop 4 p) < bs \<and> download_loop peer bs (b + 1) p' (written @ drop 4 p) w1 = Some (Inr u, out, w'))"
    using unfolded
    by (auto simp: Let_def not_less split: if_splits prod.splits sum.splits option.splits)
qed

lemma receive_from_peer_packet:
  assumes "receive_from_peer peer resp opc b (MAX_BLOCK_SIZE + 4) w = Some (Inr p, w1)"
    and "packet_opcode p = Some OP_DATA" "only_packets_of peer bs f (recvs w)" "0 < bs" "bs \<le> MAX_BLOCK_SIZE"
  shows "p \<in> set (data_packets 1 bs f)" "set (recvs w1) \<subseteq> set (recvs w)"
proof -
  obtain s q where q: "Datagram s q \<in> set (recvs w)"
    "judge_reply peer opc b s (take (MAX_BLOCK_SIZE + 4) q) = Take p" "set (recvs w1) \<subseteq> set (recvs w)"
    using exchange_takes [OF retry_spec [OF assms(1) [unfolded receive_from_peer_def]]] .
  have s: "s = peer" "p = take (MAX_BLOCK_SIZE + 4) q"
    using q(2) by (auto simp: judge_reply_def split: if_splits)
  then have "packet_opcode q = Some OP_DATA" using assms(2) packet_opcode_take [of "MAX_BLOCK_SIZE + 4" q] by simp
  then have mem: "q \<in> set (data_packets 1 bs f)" using assms(3) q(1) s(1) by (auto simp: only_packets_of_def)
  then have "p = q" using s(2) data_packet_length [OF assms(4) mem] assms(5) by simp
  then show "p \<in> set (data_packets 1 bs f)" using mem by simp
  show "set (recvs w1) \<subseteq> set (recvs w)" by (fact q(3))
qed

lemma download_loop_intact:
  assumes "download_loop peer bs' (of_nat (Suc i)) p (concat (take i (blocks_of bs f))) w = Some (Inr u, out, w')"
    and "packet_opcode p = Some OP_DATA \<longrightarrow> p \<in> set (data_packets 1 bs f)"
    and "only_packets_of peer bs f (recvs w)" "0 < bs" "bs \<le> MAX_BLOCK_SIZE" "bs' \<le> bs"
    and "length (blocks_of bs f) < 65536" "i \<le> length (blocks_of bs f)"
  shows "out = f"
  using assms
proof (induction "length (recvs w)" arbitrary: i p w rule: less_induct)
  case less
  let ?bl = "blocks_of bs f" and ?w = "w\<lparr>disk_free := disk_free w - length (drop 4 p)\<rparr>"
  have p: "packet_opcode p = Some OP_DATA" "packet_block p = Some (of_nat (Suc i))"
    using download_step [OF less.prems(1)] by simp_all
  have b: "i < length ?bl" "drop 4 p = ?bl ! i"
    using numbered_block [OF less.prems(2) [rule_format, OF p(1)] p(2) less.prems(7,8)] by auto
  have written: "concat (take i ?bl) @ drop 4 p = concat (take (Suc i) ?bl)"
    using b by (simp add: take_Suc_conv_app_nth)
  consider (final) "length (drop 4 p) < bs'" "out = concat (take i ?bl) @ drop 4 p"
    | (more) p' w1 where "receive_from_peer peer (ack_packet (of_nat (Suc i))) OP_DATA (of_nat (Suc i) + 1)
        (MAX_BLOCK_SIZE + 4) ?w = Some (Inr p', w1)"
      "download_loop peer bs' (of_nat (Suc i) + 1) p' (concat (take i ?bl) @ drop 4 p) w1 = Some (Inr u, out, w')"
    using download_step(3) [OF less.prems(1)] by blast
  then show ?case
  proof cases
    case final
    then have "length (?bl ! i) < bs" using b(2) less.prems(6) by simp
    then have "Suc i = length ?bl" using length_block [OF less.prems(4) b(1)] by simp
    then have "concat (take (Suc i) ?bl) = f" by simp
    then show ?thesis using final(2) written by simp
  next
    case more
    have next': "download_loop peer bs' (of_nat (Suc (Suc i))) p' (concat (take (Suc i) ?bl)) w1 = Some (Inr u, out, w')"
      using more(2) written by (simp add: add.commute)
    have rest: "set (recvs w1) \<subseteq> set (recvs w)" and sh: "length (recvs w1) < length (recvs w)"
      using exchange_takes [OF retry_spec [OF more(1) [unfolded receive_from_peer_def]]]
        receive_from_peer_consumes [OF more(1)] by auto
    have "p' \<in> set (data_packets 1 bs f)" if "packet_opcode p' = Some OP_DATA"
      using receive_from_peer_packet [OF more(1) that _ less.prems(4,5), of f] less.prems(3) by simp
    then show ?thesis
      using less.hyps [OF sh next'] only_packets_of_mono [OF less.prems(3) rest] less.prems(4-7) b(1) by simp
  qed
qed

section \<open>Transfers end\<close>

text \<open>
  A wait uses at most one event that decides it, an exchange at most one per
  attempt: with enough of them in the script every transfer returns.  A socket with
  a read timeout provides one in every interval.
\<close>

lemma await_deciders:
  "await judge buffer packet peer r w = Some (a, w') \<Longrightarrow>
   length (filter decides r) \<le> length (filter decides (recvs w')) + 1"
  by (induction judge buffer packet peer r w rule: await.induct)
    (auto split: verdict.splits prod.splits sum.splits)

lemma retry_deciders:
  "retry guarded judge buffer packet peer late n w = Some (res, w') \<Longrightarrow>
   length (filter decides (recvs w)) \<le> length (filter decides (recvs w')) + n"
proof (induction n arbitrary: w)
  case (Suc n)
  define u where "u = (if guarded then snd (load_active w) else w)"
  have u: "recvs u = recvs w" by (simp add: u_def)
  show ?case
  proof (cases "guarded \<and> \<not> fst (load_active w)")
    case True
    then have "w' = u" using Suc.prems by (auto simp: u_def split: prod.splits bool.splits)
    then show ?thesis using u by simp
  next
    case False
    then have go: "(if guarded then load_active w else (True, w)) = (True, u)"
      by (cases "load_active w") (auto simp: u_def)
    show ?thesis
    proof (cases "send_packet u packet peer")
      case (Pair x v)
      then have v: "recvs v = recvs w" using send_packet_recvs [of u packet peer] u by simp
      show ?thesis
      proof (cases x)
        case (Inl e)
        then show ?thesis using Suc.prems go Pair v by simp
      next
        case (Inr y)
        obtain a v' where a: "await judge buffer packet peer (recvs v) v = Some (a, v')"
          using Suc.prems go Pair Inr by (cases "await judge buffer packet peer (recvs v) v") auto
        note n = await_deciders [OF a, unfolded v]
        show ?thesis
        proof (cases a)
          case Again
          then show ?thesis using Suc.prems go Pair Inr a n Suc.IH [of v'] by simp
        qed (use Suc.prems go Pair Inr a n in simp_all)
      qed
    qed
  qed
qed simp

lemma send_with_ack_ends:
  assumes "MAX_RETRIES \<le> length (filter decides (recvs w))"
  shows "\<exists>r w'. send_with_ack peer packet b w = Some (r, w') \<and>
    length (filter decides (recvs w)) \<le> length (filter decides (recvs w')) + MAX_RETRIES"
  using retry_returns [OF assms, of True "judge_ack peer b" 516 packet peer "TimedOutWaiting b"]
    retry_deciders [of True "judge_ack peer b" 516 packet peer "TimedOutWaiting b" MAX_RETRIES w]
  by (auto simp: send_with_ack_def)

lemma serve_read_loop_ends:
  "0 < bs \<Longrightarrow> MAX_RETRIES * length (blocks_of bs (rd_data src)) \<le> length (filter decides (recvs w)) \<Longrightarrow>
   serve_read_loop peer bs b served src w \<noteq> None"
proof (induction peer bs b served src w rule: serve_read_loop.induct)
  case (1 peer bs b served src w)
  let ?D = "\<lambda>w. length (filter decides (recvs w))"
  show ?case
  proof (cases "read_block bs src")
    case (Inl e)
    then show ?thesis by (subst serve_read_loop.simps) simp
  next
    case (Inr dr)
    obtain d src' where dr: "dr = (d, src')" by (cases dr)
    have d: "d = take bs (rd_data src)" "rd_data src' = drop bs (rd_data src)"
      using read_block_spec [of bs src d src'] Inr dr by simp_all
    have "MAX_RETRIES * 1 \<le> MAX_RETRIES * length (blocks_of bs (rd_data src))"
      by (rule mult_le_mono2) (simp add: Suc_leI)
    then have "MAX_RETRIES \<le> ?D w" using "1.prems"(2) by linarith
    then obtain r w1 where a: "send_with_ack peer (set_data_packet b d) b w = Some (r, w1)"
      "?D w \<le> ?D w1 + MAX_RETRIES"
      using send_with_ack_ends by blast
    show ?thesis
    proof (cases r)
      case (Inl e)
      then show ?thesis using Inr dr a by (subst serve_read_loop.simps) simp
    next
      case r: (Inr u)
      show ?thesis
      proof (cases "length d < bs \<or> d = []")
        case True
        then show ?thesis using Inr dr a r by (subst serve_read_loop.simps) simp
      next
        case False
        then have "\<not> length (rd_data src) < bs" using d(1) by auto
        then have "MAX_RETRIES * length (blocks_of bs (rd_data src')) \<le> ?D w1"
          using "1.prems" a(2) d(2) by (simp add: blocks_of_long)
        from "1.IH" [OF Inr dr [symmetric] a(1) refl r refl False "1.prems"(1) this]
        show ?thesis using Inr dr a r False by (subst serve_read_loop.simps) simp
      qed
    qed
  qed
qed

section \<open>What negotiation leaves\<close>

lemma negotiate_read_ok:
  "block_size_ok bs \<Longrightarrow> block_size_ok (fst (negotiate_read n os (bs, acks)))"
  by (induction n os "(bs, acks)" arbitrary: bs acks rule: negotiate_read.induct)
    (auto split: option.splits)

lemma negotiated_positive: "negotiated_options os n = (bs, acks) \<Longrightarrow> 0 < bs \<and> bs \<le> MAX_BLOCK_SIZE"
  using negotiate_read_ok [OF block_size_default_ok, of n os "[]"]
  by (auto simp: negotiated_options_def block_size_ok_def MIN_BLOCK_SIZE_def)

lemma negotiate_write_ok:
  "block_size_ok bs \<Longrightarrow> block_size_ok (fst (negotiate_write os (bs, ts, acks)))"
  by (induction os "(bs, ts, acks)" arbitrary: bs ts acks rule: negotiate_write.induct)
    (auto split: option.splits)

lemma negotiated_write_positive:
  "negotiated_write_options os = (bs, es, acks) \<Longrightarrow> 0 < bs \<and> bs \<le> MAX_BLOCK_SIZE"
  using negotiate_write_ok [OF block_size_default_ok, of os None "[]"]
  by (auto simp: negotiated_write_options_def block_size_ok_def MIN_BLOCK_SIZE_def)

lemma option_ack_opcode [simp]: "packet_opcode (option_ack_packet os) = Some OP_OACK"
  by (simp add: option_ack_fields packet_opcode_def to_be_bytes_def get_def)

lemma client_options_read:
  "negotiated_options [(lit ''blksize'', show_nat REQUESTED_BLOCK_SIZE), (lit ''tsize'', v)] n =
     (1428, [(lit ''blksize'', show_nat 1428), (lit ''tsize'', show_nat n)])"
  by (simp add: negotiated_options_def REQUESTED_BLOCK_SIZE_def block_size_ok_def MIN_BLOCK_SIZE_def
      MAX_BLOCK_SIZE_def)

lemma client_options_ack:
  "parsed_block_size (option_ack_packet [(lit ''blksize'', show_nat 1428), (lit ''tsize'', show_nat n)])
     = Some 1428"
proof -
  have "list_all ack_ok [(lit ''blksize'', show_nat 1428), (lit ''tsize'', show_nat n)]"
    by (auto simp: ack_ok_def block_size_ok_def MIN_BLOCK_SIZE_def MAX_BLOCK_SIZE_def)
  from parsed_block_size_ack [OF this] show ?thesis
    by (simp add: find_block_size_ack block_size_ok_def MIN_BLOCK_SIZE_def MAX_BLOCK_SIZE_def
        del: find_block_size.simps)
qed

text \<open>The packets with which a server answers a read request, in order.\<close>

definition reply_packets :: "request \<Rightarrow> bytes \<Rightarrow> bytes list" where
  "reply_packets rq f =
     (let (bs, acks) = negotiated_options (rq_options rq) (length f)
      in (if acks = [] then [] else [option_ack_packet acks]) @ data_packets 1 bs f)"

lemma reply_packets_distinct_adj: "distinct_adj (reply_packets rq f)"
proof -
  obtain bs acks where n: "negotiated_options (rq_options rq) (length f) = (bs, acks)"
    by (cases "negotiated_options (rq_options rq) (length f)")
  have "distinct_adj (option_ack_packet acks # data_packets 1 bs f)"
  proof (cases "blocks_of bs f")
    case (Cons d ds)
    have "option_ack_packet acks \<noteq> set_data_packet 1 d"
    proof
      assume "option_ack_packet acks = set_data_packet 1 d"
      then have "packet_opcode (option_ack_packet acks) = packet_opcode (set_data_packet 1 d)" by simp
      then show False by (simp add: opcode_defs)
    qed
    moreover have "distinct_adj (number_blocks 1 (d # ds))" by (rule number_blocks_distinct_adj)
    ultimately show ?thesis using Cons by (simp add: data_packets_def)
  qed simp
  then show ?thesis using n by (simp add: reply_packets_def data_packets_def)
qed

section \<open>Properties of transfers\<close>

lemma serve_read_request_sends:
  assumes "serve_read_request fs root peer rq w = Some (Inr n, w')"
  obtains path src s where "safe_server_path fs root (rq_filename rq) = Inr path"
    "fs_open fs path = Some src" "n = length (rd_data src)"
    "sent w' = sent w @ s" "sent_each peer (reply_packets rq (rd_data src)) s"
proof -
  obtain path src where p: "safe_server_path fs root (rq_filename rq) = Inr path"
    "fs_open fs path = Some src"
    using assms by (auto simp: serve_read_request_def split: if_splits sum.splits option.splits)
  obtain bs acks where o': "negotiated_options (rq_options rq) (length (rd_data src)) = (bs, acks)"
    by (cases "negotiated_options (rq_options rq) (length (rd_data src))")
  have bs: "0 < bs" using negotiated_positive [OF o'] by simp
  obtain u w1 where a: "(if acks \<noteq> [] then send_with_ack peer (option_ack_packet acks) 0 w
      else Some (Inr (), w)) = Some (Inr u, w1)"
    and l: "serve_read_loop peer bs 1 0 src w1 = Some (Inr n, w')"
    using assms p o'
    by (auto simp: serve_read_request_def Let_def split: if_splits sum.splits option.splits)
  obtain s where s: "n = length (rd_data src)" "sent w' = sent w1 @ s"
    "sent_each peer (data_packets 1 bs (rd_data src)) s"
    using serve_read_loop_sends [OF l bs] by auto
  show thesis
  proof (cases "acks = []")
    case True
    then show thesis using that [OF p s(1), of s] a s o' by (simp add: reply_packets_def)
  next
    case False
    then obtain k where "0 < k" "sent w1 = sent w @ replicate k (peer, option_ack_packet acks)"
      using a send_with_ack_sent [of peer "option_ack_packet acks" 0 w u w1] by auto
    then show thesis
      using that [OF p s(1), of "replicate k (peer, option_ack_packet acks) @ s"] s o' False
      by (auto simp: reply_packets_def)
  qed
qed

text \<open>
  C1.  A completed download is the whole file: when the server reports that it has
  served a read request, it has sent to its peer, each at least once and in order,
  the option acknowledgement it negotiated, if any, and then the packets of the
  file under the safe path of the request; it reports the length of that file, and
  the payloads of the packets, put together, are the file.
\<close>

theorem served_file_is_sent:
  assumes "serve_read_request fs root peer rq w = Some (Inr n, w')"
  shows "\<exists>path src. safe_server_path fs root (rq_filename rq) = Inr path \<and> fs_open fs path = Some src \<and>
    n = length (rd_data src) \<and> prefix (sent w) (sent w') \<and>
    remdups_adj (drop (length (sent w)) (sent w')) = map (Pair peer) (reply_packets rq (rd_data src)) \<and>
    concat (map (drop 4) (data_packets 1 (fst (negotiated_options (rq_options rq) n)) (rd_data src))) = rd_data src"
proof -
  obtain path src s where p: "safe_server_path fs root (rq_filename rq) = Inr path"
    "fs_open fs path = Some src" "n = length (rd_data src)"
    "sent w' = sent w @ s" "sent_each peer (reply_packets rq (rd_data src)) s"
    using serve_read_request_sends [OF assms] .
  have "remdups_adj s = map (Pair peer) (reply_packets rq (rd_data src))"
    using sent_each_remdups [OF p(5) reply_packets_distinct_adj] .
  then show ?thesis using p by (auto simp: data_packets_def)
qed

definition sample_fs :: "bytes \<Rightarrow> file_system" where
  "sample_fs f = \<lparr>fs_canonicalize = (\<lambda>root names. Some (root @ names)), fs_is_file = (\<lambda>_. True),
     fs_open = (\<lambda>_. Some \<lparr>rd_data = f, rd_script = [UpTo 2]\<rparr>), fs_create_new = (\<lambda>_. True)\<rparr>"

definition sample_world :: "recv_event list \<Rightarrow> world" where
  "sample_world r = \<lparr>recvs = r, sends = [], sent = [], active_for = 100, disk_free = 1000, binds = True\<rparr>"

definition sample_request :: "bool \<Rightarrow> request" where
  "sample_request wr = \<lparr>rq_write = wr, rq_filename = [97], rq_mode = lit ''octet'', rq_options = []\<rparr>"

lemma sample_options [simp]:
  "rq_options (sample_request wr) = []" "rq_mode (sample_request wr) = lit ''octet''"
  "rq_filename (sample_request wr) = [97]"
  "negotiated_options [] n = (512, [])" "negotiated_write_options [] = (512, None, [])"
  by (simp_all add: sample_request_def negotiated_options_def negotiated_write_options_def DEFAULT_BLOCK_SIZE_def)

lemma sample_path [simp]: "components [97] = [Normal [97]]"
  by (simp add: components_def component_of_def)

lemma sample_safe_path: "safe_server_path (sample_fs f) [] [97] = Inr [[97]]"
  by (simp add: safe_server_path_def sample_fs_def)

lemma sample_read_block: "read_block 512 \<lparr>rd_data = [1, 2, 3], rd_script = [UpTo 2]\<rparr> =
  Inr ([1, 2, 3], \<lparr>rd_data = [], rd_script = []\<rparr>)"
  by (subst read_block.simps, simp add: read_once_def)+

lemma retry_unfold:
  "0 < n \<Longrightarrow> retry guarded judge buffer packet peer late n w =
     (case (if guarded then load_active w else (True, w)) of
        (False, w) \<Rightarrow> Some (Inl ServerStopped, w)
      | (True, w) \<Rightarrow>
          (case send_packet w packet peer of
             (Inl e, w) \<Rightarrow> Some (Inl e, w)
           | (Inr _, w) \<Rightarrow>
               (case await judge buffer packet peer (recvs w) w of
                  None \<Rightarrow> None
                | Some (Accepted x, w) \<Rightarrow> Some (Inr x, w)
                | Some (GiveUp e, w) \<Rightarrow> Some (Inl e, w)
                | Some (Again, w) \<Rightarrow> retry guarded judge buffer packet peer late (n - 1) w)))"
  by (cases n) (simp, simp only: retry.simps diff_Suc_1)

lemma sample_ack:
  "\<exists>w'. send_with_ack (2, 5) p 1 (sample_world [RecvTimedOut, Datagram (2, 5) (ack_packet 1)]) = Some (Inr (), w') \<and>
     sent w' = [((2, 5), p), ((2, 5), p)]"
  by (simp add: send_with_ack_def MAX_RETRIES_def retry_unfold load_active_def sample_world_def
      send_packet_def judge_ack_def)

lemma sample_read:
  "\<exists>w'. serve_read_request (sample_fs [1, 2, 3]) [] (2, 5) (sample_request False)
     (sample_world [RecvTimedOut, Datagram (2, 5) (ack_packet 1)]) = Some (Inr 3, w') \<and>
     sent w' = [((2, 5), set_data_packet 1 [1, 2, 3]), ((2, 5), set_data_packet 1 [1, 2, 3])]"
proof -
  let ?w = "sample_world [RecvTimedOut, Datagram (2, 5) (ack_packet 1)]"
  obtain w' where w: "send_with_ack (2, 5) (set_data_packet 1 [1, 2, 3]) 1 ?w = Some (Inr (), w')"
    "sent w' = [((2, 5), set_data_packet 1 [1, 2, 3]), ((2, 5), set_data_packet 1 [1, 2, 3])]"
    using sample_ack by blast
  have op: "fs_open (sample_fs [1, 2, 3]) [[97]] = Some \<lparr>rd_data = [1, 2, 3], rd_script = [UpTo 2]\<rparr>"
    and b: "binds ?w" by (simp_all add: sample_fs_def sample_world_def)
  have "serve_read_loop (2, 5) 512 1 0 \<lparr>rd_data = [1, 2, 3], rd_script = [UpTo 2]\<rparr> ?w = Some (Inr 3, w')"
    by (subst serve_read_loop.simps) (simp add: sample_read_block w)
  then show ?thesis using op b w(2) by (simp add: serve_read_request_def sample_safe_path)
qed

theorem served_file_is_sent_witness:
  "\<exists>w' :: world. remdups_adj (sent w') = map (Pair (2, 5)) (reply_packets (sample_request False) [1, 2, 3]) \<and>
     length (sent w') = 2"
proof -
  obtain w' where w: "serve_read_request (sample_fs [1, 2, 3]) [] (2, 5) (sample_request False)
     (sample_world [RecvTimedOut, Datagram (2, 5) (ack_packet 1)]) = Some (Inr 3, w')"
    "length (sent w') = 2"
    using sample_read by auto
  have "sent (sample_world r) = []" for r by (simp add: sample_world_def)
  moreover have "rd_data src = [1, 2, 3]" if "fs_open (sample_fs [1, 2, 3]) path = Some src" for path src
    using that by (auto simp: sample_fs_def)
  ultimately have "remdups_adj (sent w') = map (Pair (2, 5)) (reply_packets (sample_request False) [1, 2, 3])"
    using served_file_is_sent [OF w(1)] by auto
  then show ?thesis using w(2) by blast
qed

text \<open>
  C5.  Serving a file always comes to an end: with five timeouts of the socket for
  every packet of the reply, whatever datagrams arrive in between and from whom,
  a read request is answered or fails.
\<close>

theorem serving_a_file_ends:
  assumes "\<And>path src. fs_open fs path = Some src \<Longrightarrow>
      MAX_RETRIES * length (reply_packets rq (rd_data src)) \<le> length (filter decides (recvs w))"
  shows "\<exists>r w'. serve_read_request fs root peer rq w = Some (r, w')"
proof -
  have "serve_read_request fs root peer rq w \<noteq> None"
  proof (cases "\<exists>path src. safe_server_path fs root (rq_filename rq) = Inr path \<and> fs_open fs path = Some src")
    case False
    then show ?thesis by (auto simp: serve_read_request_def split: sum.splits option.splits)
  next
    case True
    then obtain path src where p: "safe_server_path fs root (rq_filename rq) = Inr path"
      "fs_open fs path = Some src" by blast
    obtain bs acks where o': "negotiated_options (rq_options rq) (length (rd_data src)) = (bs, acks)"
      by (cases "negotiated_options (rq_options rq) (length (rd_data src))")
    have bs: "0 < bs" using negotiated_positive [OF o'] by simp
    let ?n = "length (blocks_of bs (rd_data src))"
    have enough: "MAX_RETRIES * ((if acks = [] then 0 else 1) + ?n) \<le> length (filter decides (recvs w))"
      using assms [OF p(2)] o' by (auto simp: reply_packets_def data_packets_def)
    show ?thesis
    proof (cases "acks = []")
      case True
      then show ?thesis using p o' enough serve_read_loop_ends [OF bs, of src w peer 1 0]
        by (auto simp: serve_read_request_def Let_def)
    next
      case False
      then have "MAX_RETRIES \<le> length (filter decides (recvs w))" using enough by simp
      then obtain r w1 where a: "send_with_ack peer (option_ack_packet acks) 0 w = Some (r, w1)"
        "length (filter decides (recvs w)) \<le> length (filter decides (recvs w1)) + MAX_RETRIES"
        using send_with_ack_ends by blast
      then have "MAX_RETRIES * ?n \<le> length (filter decides (recvs w1))" using enough False by simp
      then show ?thesis using p o' a False serve_read_loop_ends [OF bs, of src w1 peer 1 0]
        by (auto simp: serve_read_request_def Let_def split: sum.split)
    qed
  qed
  then show ?thesis by auto
qed

theorem serving_a_file_ends_witness:
  "\<exists>r w'. serve_read_request (sample_fs [1, 2, 3]) [] (2, 5) (sample_request False)
     (sample_world (replicate 5 RecvTimedOut)) = Some (r, w')"
  by (rule serving_a_file_ends)
    (auto simp: sample_fs_def sample_world_def reply_packets_def data_packets_def blocks_of_short MAX_RETRIES_def)

text \<open>The reply of a server to the request that a client builds.\<close>

lemma client_reply:
  assumes "parse_request (request_packet OP_RRQ remote None) = Inr rq" "text_ok remote"
  shows "reply_packets rq f = option_ack_packet [(lit ''blksize'', show_nat 1428), (lit ''tsize'', show_nat (length f))]
      # data_packets 1 1428 f"
  using assms(1) parse_request_built [of OP_RRQ remote None] assms(2)
  by (auto simp: reply_packets_def client_options_read)

lemma initial_response_from:
  assumes "initial_response server request buffer w = Some (Inr (p, peer), w')"
  obtains q where "Datagram peer q \<in> set (recvs w)" "fst peer = fst server" "p = take buffer q"
    "set (recvs w') \<subseteq> set (recvs w)"
proof -
  obtain s q where "Datagram s q \<in> set (recvs w)"
    "judge_initial server s (take buffer q) = Take (p, peer)" "set (recvs w') \<subseteq> set (recvs w)"
    using exchange_takes [OF retry_spec [OF assms [unfolded initial_response_def]]] .
  then show thesis using that [of q] by (auto simp: judge_initial_def split: if_splits)
qed

lemma length_show_nat: "n < 10 ^ k \<Longrightarrow> 0 < k \<Longrightarrow> length (show_nat n) \<le> k"
proof (induction n arbitrary: k rule: show_nat.induct)
  case (1 n)
  show ?case
  proof (cases "n < 10")
    case True
    then show ?thesis using "1.prems" by (subst show_nat.simps) simp
  next
    case False
    then obtain j where k: "k = Suc j" "0 < j" using "1.prems" by (cases k; cases "k - 1") auto
    then have "n div 10 < 10 ^ j" using "1.prems"(1) by (simp add: less_mult_imp_div_less)
    then show ?thesis using 1 False k by (subst show_nat.simps) simp
  qed
qed

lemma client_ack_short:
  assumes "n < 10 ^ 8"
  shows "take (MAX_BLOCK_SIZE + 4) (option_ack_packet [(lit ''blksize'', show_nat 1428), (lit ''tsize'', show_nat n)])
     = option_ack_packet [(lit ''blksize'', show_nat 1428), (lit ''tsize'', show_nat n)]"
proof -
  have len: "length (as_bytes s) = length s" if "list_all (\<lambda>c. c < 128) s" for s
    using that by (simp add: as_bytes_ascii)
  have digits: "list_all (\<lambda>c. c < 128) (show_nat m)" for m
    using show_nat_ascii [of _ m] by (fastforce simp: list_all_iff)
  have "length (show_nat n) \<le> 8" "length (show_nat 1428) \<le> 4"
    using assms length_show_nat [of n 8] length_show_nat [of 1428 4] by simp_all
  then show ?thesis
    using digits by (simp add: option_ack_fields to_be_bytes_def len MAX_BLOCK_SIZE_def) (simp add: lit_def as_bytes_ascii)
qed

text \<open>A download that succeeds: with the options the server acknowledged, or without any.\<close>

lemma download_steps:
  assumes "download (Some server) creatable remote w = Some (Inr (), local, w')"
    and "initial_response server (request_packet OP_RRQ remote None) (MAX_BLOCK_SIZE + 4) w = Some (Inr (p, peer), w1)"
    and "packet_opcode p = Some OP_OACK \<longrightarrow> parsed_block_size p = Some bs"
  obtains (negotiated) p' w2 written where
      "receive_from_peer peer (ack_packet 0) OP_DATA 1 (MAX_BLOCK_SIZE + 4) w1 = Some (Inr p', w2)"
      "download_loop peer bs 1 p' [] w2 = Some (Inr (), written, w')" "local = Some written"
    | (plain) written where "packet_opcode p \<noteq> Some OP_OACK"
      "download_loop peer DEFAULT_BLOCK_SIZE 1 p [] w1 = Some (Inr (), written, w')" "local = Some written"
proof -
  have inr: "map_sum id (Pair bs) x = Inr (b, q) \<longleftrightarrow> b = bs \<and> x = Inr q" for x :: "tftp_error + bytes" and b q
    by (cases x) auto
  show ?thesis
    using assms that by (cases "packet_opcode p = Some OP_OACK") (auto simp: download_def inr split: if_splits option.splits sum.splits)
qed

text \<open>The first packet a download is handed, when the server's packets are those of the reply.\<close>

lemma download_begins:
  assumes i: "initial_response server r (MAX_BLOCK_SIZE + 4) w = Some (Inr (p, peer), w1)"
    and reply: "\<And>s q. Datagram s q \<in> set (recvs w) \<Longrightarrow> fst s = fst server \<Longrightarrow>
      q \<in> set (option_ack_packet [(lit ''blksize'', show_nat 1428), (lit ''tsize'', show_nat (length f))] # data_packets 1 1428 f)"
    and f: "length f < 1428 * 65535"
  shows "only_packets_of peer 1428 f (recvs w1)" "packet_opcode p \<noteq> Some OP_OACK \<Longrightarrow> p \<in> set (data_packets 1 1428 f)"
    "packet_opcode p = Some OP_OACK \<longrightarrow> parsed_block_size p = Some 1428"
proof -
  let ?oack = "option_ack_packet [(lit ''blksize'', show_nat 1428), (lit ''tsize'', show_nat (length f))]"
  have max: "(1428::nat) \<le> MAX_BLOCK_SIZE" by (simp add: MAX_BLOCK_SIZE_def)
  obtain q where q: "Datagram peer q \<in> set (recvs w)" "fst peer = fst server" "p = take (MAX_BLOCK_SIZE + 4) q"
    "set (recvs w1) \<subseteq> set (recvs w)"
    using initial_response_from [OF i] .
  show "only_packets_of peer 1428 f (recvs w1)"
    using reply q(2,4) by (fastforce simp: only_packets_of_def opcode_defs)
  have short: "take (MAX_BLOCK_SIZE + 4) d = d" if "d \<in> set (data_packets 1 1428 f)" for d
    using data_packet_length [OF _ that] max by simp
  have p: "p = ?oack \<or> p \<in> set (data_packets 1 1428 f)"
    using reply [OF q(1,2)] q(3) client_ack_short [of "length f"] f short by auto
  then show "packet_opcode p \<noteq> Some OP_OACK \<Longrightarrow> p \<in> set (data_packets 1 1428 f)" by auto
  show "packet_opcode p = Some OP_OACK \<longrightarrow> parsed_block_size p = Some 1428"
    using p client_options_ack short data_packets_def by (auto simp: in_set_conv_nth nth_number_blocks opcode_defs)
qed

text \<open>
  C2.  A download stores the file or fails: when every datagram that comes from
  the server's address is a packet of the reply to the client's request, then,
  however they are lost, repeated, delayed and reordered, a download that reports
  success has written exactly the file.  The file is shorter than 65535 blocks of the
  1428 bytes the client asks for: block numbers have 16 bits, and beyond that a late
  packet can carry the number of another block.
\<close>

theorem download_stores_the_file:
  assumes "text_ok remote" "parse_request (request_packet OP_RRQ remote None) = Inr rq"
    and "\<And>s p. Datagram s p \<in> set (recvs w) \<Longrightarrow> fst s = fst server \<Longrightarrow> p \<in> set (reply_packets rq f)"
    and "length f < 1428 * 65535"
    and "download (Some server) creatable remote w = Some (Inr (), local, w')"
  shows "local = Some f"
proof -
  note reply = assms(3) [unfolded client_reply [OF assms(2,1)]]
  have blocks: "length (blocks_of 1428 f) < 65536" using assms(4) by (simp add: length_blocks_of less_mult_imp_div_less)
  have max: "(1428::nat) \<le> MAX_BLOCK_SIZE" by (simp add: MAX_BLOCK_SIZE_def)
  obtain p peer w1 where i: "initial_response server (request_packet OP_RRQ remote None) (MAX_BLOCK_SIZE + 4) w
      = Some (Inr (p, peer), w1)"
    using assms(5) by (auto simp: download_def split: if_splits option.splits sum.splits)
  note first = download_begins [OF i reply assms(4)]
  show ?thesis
  proof (rule download_steps [OF assms(5) i first(3)])
    fix p' w2 written
    assume negotiated: "receive_from_peer peer (ack_packet 0) OP_DATA 1 (MAX_BLOCK_SIZE + 4) w1 = Some (Inr p', w2)"
      "download_loop peer 1428 1 p' [] w2 = Some (Inr (), written, w')" "local = Some written"
    have less: "set (recvs w2) \<subseteq> set (recvs w1)"
      using exchange_takes [OF retry_spec [OF negotiated(1) [unfolded receive_from_peer_def]]] .
    have "packet_opcode p' = Some OP_DATA \<longrightarrow> p' \<in> set (data_packets 1 1428 f)"
      using receive_from_peer_packet(1) [OF negotiated(1) _ first(1) _ max] by simp
    then show "local = Some f"
      using download_loop_intact [of peer 1428 0 p' 1428 f w2 "()" written w'] negotiated(2,3) max blocks
        only_packets_of_mono [OF first(1) less] by simp
  next
    fix written
    assume "packet_opcode p \<noteq> Some OP_OACK" "download_loop peer DEFAULT_BLOCK_SIZE 1 p [] w1 = Some (Inr (), written, w')"
      "local = Some written"
    then show "local = Some f"
      using download_loop_intact [of peer DEFAULT_BLOCK_SIZE 0 p 1428 f w1 "()" written w'] first(1,2) max blocks
      by (simp add: DEFAULT_BLOCK_SIZE_def)
  qed
qed

theorem download_stores_the_file_witness:
  "\<exists>w'. download (Some (2, 69)) True [97] (sample_world [Datagram (2, 5) (set_data_packet 1 [1, 2, 3])])
     = Some (Inr (), Some [1, 2, 3], w')"
proof -
  let ?w = "sample_world [Datagram (2, 5) (set_data_packet 1 [1, 2, 3])]"
  have t: "text_ok [97]" by (simp add: text_ok_def is_scalar_def)
  obtain rq where rq: "parse_request (request_packet OP_RRQ [97] None) = Inr rq"
    using parse_request_built [OF _ t, of OP_RRQ None] by auto
  have i: "initial_response (2, 69) r (MAX_BLOCK_SIZE + 4) ?w =
      Some (Inr (set_data_packet 1 [1, 2, 3], (2, 5)), ?w\<lparr>recvs := [], sent := [((2, 69), r)]\<rparr>)" for r
    by (simp add: initial_response_def MAX_RETRIES_def retry_unfold sample_world_def send_packet_def
        judge_initial_def MAX_BLOCK_SIZE_def)
  have "\<exists>l w'. download (Some (2, 69)) True [97] ?w = Some (Inr (), l, w')"
  proof -
    have "\<exists>w'. download_loop (2, 5) DEFAULT_BLOCK_SIZE 1 (set_data_packet 1 [1, 2, 3]) []
        (?w\<lparr>recvs := [], sent := [((2, 69), r)]\<rparr>) = Some (Inr (), [1, 2, 3], w')" for r
      by (subst download_loop.simps)
        (simp add: sample_world_def DEFAULT_BLOCK_SIZE_def send_packet_def)
    moreover have "binds ?w" by (simp add: sample_world_def)
    ultimately show ?thesis
      by (simp add: download_def i check_error_packet_def opcode_defs) blast
  qed
  then obtain l w' where d: "download (Some (2, 69)) True [97] ?w = Some (Inr (), l, w')" by blast
  have "l = Some [1, 2, 3]"
    by (rule download_stores_the_file [OF t rq _ _ d])
      (auto simp: sample_world_def client_reply [OF rq t] data_packets_def blocks_of_short)
  then show ?thesis using d by simp
qed

lemma serve_write_accepts:
  assumes "serve_write_request rounds fs root peer rq w = Some (Inr n, stored, w')"
  obtains path data bs es acks resp where "create_upload fs root (rq_filename rq) = Inr path"
    "negotiated_write_options (rq_options rq) = (bs, es, acks)"
    "serve_write_loop rounds peer bs es resp 1 [] w = Some (Inr data, w')"
    "stored = Some (path, data)" "n = length data"
  using assms
  by (auto simp: serve_write_request_def Let_def split: if_splits sum.splits option.splits prod.splits)

text \<open>
  C3.  An upload stores the file or fails: when every DATA packet that comes from
  the peer is one of the file's, in any order and number, an upload that the
  server reports as received has left exactly the file.  The file is shorter than
  65535 blocks of the negotiated size, so that its 16-bit block numbers do not repeat.
\<close>

theorem upload_stores_the_file:
  assumes "serve_write_request rounds fs root peer rq w = Some (Inr n, stored, w')"
    and "only_packets_of peer (fst (negotiated_write_options (rq_options rq))) f (recvs w)"
    and "length f < fst (negotiated_write_options (rq_options rq)) * 65535"
  shows "n = length f \<and> (\<exists>path. create_upload fs root (rq_filename rq) = Inr path \<and> stored = Some (path, f))"
proof -
  obtain path data bs es acks resp where d: "create_upload fs root (rq_filename rq) = Inr path"
    "negotiated_write_options (rq_options rq) = (bs, es, acks)"
    "serve_write_loop rounds peer bs es resp 1 [] w = Some (Inr data, w')"
    "stored = Some (path, data)" "n = length data"
    using serve_write_accepts [OF assms(1)] .
  have bs: "0 < bs" using negotiated_write_positive [OF d(2)] by simp
  have "length (blocks_of bs f) < 65536"
    using assms(3) d(2) bs by (simp add: length_blocks_of less_mult_imp_div_less)
  then have "data = f"
    using serve_write_loop_intact [of rounds peer bs es resp 0 f w data w'] d(2,3) bs assms(2) by simp
  then show ?thesis using d by simp
qed

lemma sample_create: "create_upload (sample_fs f) [] [97] = Inr [[97]]"
  by (simp add: create_upload_def sample_fs_def has_dot_prefixed_component_def dot_prefixed_def)

lemma sample_write:
  "\<exists>w'. serve_write_request 0 (sample_fs []) [] (2, 5) (sample_request True)
     (sample_world [Datagram (2, 5) (set_data_packet 1 [1, 2, 3])]) = Some (Inr 3, Some ([[97]], [1, 2, 3]), w')"
proof -
  let ?w = "sample_world [Datagram (2, 5) (set_data_packet 1 [1, 2, 3])]"
  have r: "receive_data_after_response (2, 5) resp 1 (512 + 4) ?w =
      Some (Inr (set_data_packet 1 [1, 2, 3]), ?w\<lparr>recvs := [], sent := [((2, 5), resp)], active_for := 99\<rparr>)" for resp
    by (simp add: receive_data_after_response_def MAX_RETRIES_def retry_unfold sample_world_def send_packet_def
        judge_data_def load_active_def)
  have "\<exists>w'. serve_write_loop 0 (2, 5) 512 None resp 1 [] ?w = Some (Inr [1, 2, 3], w')" for resp
    by (subst serve_write_loop.simps, simp only: r option.case sum.case prod.case)
      (simp add: sample_world_def MAX_UPLOAD_BYTES_def send_packet_def)
  then obtain w' where "serve_write_loop 0 (2, 5) 512 None (ack_packet 0) 1 [] ?w = Some (Inr [1, 2, 3], w')"
    by blast
  moreover have "binds ?w" by (simp add: sample_world_def)
  ultimately show ?thesis by (simp add: serve_write_request_def sample_create)
qed

theorem upload_stores_the_file_witness:
  "\<exists>w' :: world. \<exists>n stored. serve_write_request 0 (sample_fs []) [] (2, 5) (sample_request True)
     (sample_world [Datagram (2, 5) (set_data_packet 1 [1, 2, 3])]) = Some (Inr n, stored, w') \<and>
     n = 3 \<and> stored = Some ([[97]], [1, 2, 3])"
proof -
  obtain w' where w: "serve_write_request 0 (sample_fs []) [] (2, 5) (sample_request True)
     (sample_world [Datagram (2, 5) (set_data_packet 1 [1, 2, 3])]) = Some (Inr 3, Some ([[97]], [1, 2, 3]), w')"
    using sample_write by blast
  have "only_packets_of (2, 5) 512 [1, 2, 3] (recvs (sample_world [Datagram (2, 5) (set_data_packet 1 [1, 2, 3])]))"
    by (auto simp: only_packets_of_def sample_world_def data_packets_def blocks_of_short)
  then show ?thesis using upload_stores_the_file [OF w, of "[1, 2, 3]"] w by auto
qed

text \<open>
  C4.  Uploads are confined and bounded: a received upload is a new file, stored in a
  directory inside the server's root, with no component below the root that begins
  with a dot; its size is reported, is at most MAX_UPLOAD_BYTES and is the size that
  was announced, if one was.  An upload that fails leaves no file.
\<close>

theorem uploads_are_confined:
  assumes "serve_write_request rounds fs root peer rq w = Some (r, stored, w')"
  shows "case r of
      Inl _ \<Rightarrow> stored = None
    | Inr n \<Rightarrow> \<exists>path data. stored = Some (path, data) \<and> n = length data \<and> n \<le> MAX_UPLOAD_BYTES \<and>
        fst (snd (negotiated_write_options (rq_options rq))) \<in> {None, Some n} \<and>
        fs_create_new fs path \<and> prefix root (butlast path) \<and>
        list_all (\<lambda>name. \<not> dot_prefixed name) (drop (length root) path)"
proof (cases r)
  case (Inl e)
  then show ?thesis using assms
    by (auto simp: serve_write_request_def Let_def split: if_splits sum.splits option.splits prod.splits)
next
  case (Inr n)
  obtain path data bs es acks resp where d: "create_upload fs root (rq_filename rq) = Inr path"
    "negotiated_write_options (rq_options rq) = (bs, es, acks)"
    "serve_write_loop rounds peer bs es resp 1 [] w = Some (Inr data, w')"
    "stored = Some (path, data)" "n = length data"
    using serve_write_accepts assms Inr by metis
  then show ?thesis
    using serve_write_loop_bounds [OF d(3)] create_upload_spec [OF d(1)] Inr by auto
qed

theorem uploads_are_confined_witness:
  "\<exists>w' :: world. \<exists>path data. serve_write_request 0 (sample_fs []) [] (2, 5) (sample_request True)
     (sample_world [Datagram (2, 5) (set_data_packet 1 [1, 2, 3])]) = Some (Inr 3, Some (path, data), w') \<and>
     length data = 3 \<and> prefix [] (butlast path)"
proof -
  obtain w' where w: "serve_write_request 0 (sample_fs []) [] (2, 5) (sample_request True)
     (sample_world [Datagram (2, 5) (set_data_packet 1 [1, 2, 3])]) = Some (Inr 3, Some ([[97]], [1, 2, 3]), w')"
    using sample_write by blast
  then show ?thesis using uploads_are_confined [OF w] by auto
qed

end
