(* ===== verification/Resource_Limits.thy ===== *)
theory Resource_Limits
  imports Prelude "HOL-Library.Sublist"
begin

text \<open>
  Counters with a ceiling.  A connection permit and the snapshot budget of the
  multiplexer (\<open>crates/zmux/src/server/ipc_limits.rs\<close>), the queue of terminal
  launches (\<open>src/pane.rs\<close>) and the transfer slots of the TFTP server share one
  contract, stated once as a locale and interpreted on each of them.
\<close>

section \<open>The contract\<close>

datatype budget_event = Reserve nat | GiveBack nat

text \<open>
  A run over a state and the reservations that are held.  A reservation that is
  refused changes nothing; giving one back that fails is a panic.
\<close>

fun run_budget :: "(nat \<Rightarrow> 's \<Rightarrow> 's option) \<Rightarrow> (nat \<Rightarrow> 's \<Rightarrow> 's option) \<Rightarrow> budget_event list
    \<Rightarrow> 's \<times> nat list \<Rightarrow> ('s \<times> nat list) option" where
  "run_budget reserve give [] sh = Some sh"
| "run_budget reserve give (Reserve n # es) (s, held) =
     run_budget reserve give es (case reserve n s of None \<Rightarrow> (s, held) | Some s' \<Rightarrow> (s', held @ [n]))"
| "run_budget reserve give (GiveBack i # es) (s, held) =
     (if i < length held then
        (case give (held ! i) s of None \<Rightarrow> None
         | Some s' \<Rightarrow> run_budget reserve give es (s', take i held @ drop (Suc i) held))
      else run_budget reserve give es (s, held))"

locale budget =
  fixes reserve :: "nat \<Rightarrow> 's \<Rightarrow> 's option"
    and give :: "nat \<Rightarrow> 's \<Rightarrow> 's option"
    and used :: "'s \<Rightarrow> nat"
    and capacity :: "'s \<Rightarrow> nat"
  assumes reserve_used: "reserve n s = Some s' \<Longrightarrow>
      used s' = used s + n \<and> used s' \<le> capacity s' \<and> capacity s' = capacity s"
    and give_used: "n \<le> used s \<Longrightarrow>
      \<exists>s'. give n s = Some s' \<and> used s' = used s - n \<and> capacity s' = capacity s"
begin

lemma sum_list_nth_le: "i < length xs \<Longrightarrow> xs ! i \<le> sum_list xs" for xs :: "nat list"
  by (simp add: member_le_sum_list)

lemma sum_list_without:
  "i < length xs \<Longrightarrow> sum_list (take i xs @ drop (Suc i) xs) = sum_list xs - xs ! i" for xs :: "nat list"
proof -
  assume i: "i < length xs"
  have "sum_list xs = sum_list (take i xs) + xs ! i + sum_list (drop (Suc i) xs)"
    using id_take_nth_drop [OF i] by (metis add.assoc sum_list.Cons sum_list_append)
  then show ?thesis by simp
qed

lemma run_accounts:
  assumes "used s = sum_list held" "used s \<le> capacity s"
  shows "\<exists>s' held'. run_budget reserve give es (s, held) = Some (s', held') \<and>
    used s' = sum_list held' \<and> used s' \<le> capacity s' \<and> capacity s' = capacity s"
  using assms
proof (induction es arbitrary: s held)
  case (Cons e es)
  show ?case
  proof (cases e)
    case (Reserve n)
    show ?thesis
    proof (cases "reserve n s")
      case None
      then show ?thesis using Cons Reserve by simp
    next
      case (Some s')
      have s': "used s' = used s + n" "used s' \<le> capacity s'" "capacity s' = capacity s"
        using reserve_used [OF Some] by simp_all
      then show ?thesis using Cons.IH [of s' "held @ [n]"] Cons.prems Reserve Some by auto
    qed
  next
    case (GiveBack i)
    show ?thesis
    proof (cases "i < length held")
      case False
      then show ?thesis using Cons GiveBack by simp
    next
      case True
      then have "held ! i \<le> used s" using Cons.prems(1) sum_list_nth_le by simp
      then obtain s' where s': "give (held ! i) s = Some s'" "used s' = used s - held ! i" "capacity s' = capacity s"
        using give_used by blast
      have "used s' = sum_list (take i held @ drop (Suc i) held)"
        using s'(2) Cons.prems(1) sum_list_without [OF True] by simp
      moreover have "used s' \<le> capacity s'" using s' Cons.prems(2) by simp
      ultimately show ?thesis using Cons.IH [of s'] GiveBack True s'(1,3) by simp
    qed
  qed
qed simp

end

text \<open>The same for counters that are taken one at a time.\<close>

datatype slot_event = Claim | GiveUpSlot

fun run_slots :: "('s \<Rightarrow> 's option) \<Rightarrow> ('s \<Rightarrow> 's option) \<Rightarrow> slot_event list \<Rightarrow> 's \<times> nat \<Rightarrow> ('s \<times> nat) option" where
  "run_slots claim give [] sh = Some sh"
| "run_slots claim give (Claim # es) (s, held) =
     run_slots claim give es (case claim s of None \<Rightarrow> (s, held) | Some s' \<Rightarrow> (s', held + 1))"
| "run_slots claim give (GiveUpSlot # es) (s, held) =
     (if 0 < held then
        (case give s of None \<Rightarrow> None | Some s' \<Rightarrow> run_slots claim give es (s', held - 1))
      else run_slots claim give es (s, held))"

locale slots =
  fixes claim :: "'s \<Rightarrow> 's option"
    and give :: "'s \<Rightarrow> 's option"
    and used :: "'s \<Rightarrow> nat"
    and capacity :: "'s \<Rightarrow> nat"
  assumes claim_used: "claim s = Some s' \<Longrightarrow>
      used s' = used s + 1 \<and> used s' \<le> capacity s' \<and> capacity s' = capacity s"
    and give_used: "0 < used s \<Longrightarrow>
      \<exists>s'. give s = Some s' \<and> used s' = used s - 1 \<and> capacity s' = capacity s"
begin

lemma run_accounts:
  assumes "used s = held" "used s \<le> capacity s"
  shows "\<exists>s' held'. run_slots claim give es (s, held) = Some (s', held') \<and>
    used s' = held' \<and> held' \<le> capacity s' \<and> capacity s' = capacity s"
  using assms
proof (induction es arbitrary: s held)
  case (Cons e es)
  show ?case
  proof (cases e)
    case Claim
    show ?thesis
    proof (cases "claim s")
      case None
      then show ?thesis using Cons.IH [of s held] Cons.prems Claim by simp
    next
      case (Some s')
      then show ?thesis using claim_used [OF Some] Cons.IH [of s' "held + 1"] Cons.prems Claim by simp
    qed
  next
    case GiveUpSlot
    show ?thesis
    proof (cases "0 < held")
      case False
      then show ?thesis using Cons.IH [of s held] Cons.prems GiveUpSlot by simp
    next
      case True
      then obtain s' where s': "give s = Some s'" "used s' = used s - 1" "capacity s' = capacity s"
        using give_used [of s] Cons.prems(1) by auto
      then show ?thesis using Cons.IH [of s' "held - 1"] Cons.prems GiveUpSlot True by auto
    qed
  qed
qed simp

end

text \<open>A budget whose reservations all have size one is a set of slots.\<close>

sublocale budget \<subseteq> one: slots "reserve 1" "give 1" used capacity
proof
  fix s s' assume "reserve 1 s = Some s'"
  then show "used s' = used s + 1 \<and> used s' \<le> capacity s' \<and> capacity s' = capacity s"
    by (rule reserve_used)
next
  fix s assume "0 < used s"
  then show "\<exists>s'. give 1 s = Some s' \<and> used s' = used s - 1 \<and> capacity s' = capacity s"
    by (intro give_used) simp
qed

section \<open>Connection permits\<close>

definition MAX_CONNECTIONS :: u64 where "MAX_CONNECTIONS = 1024"

definition permit_claim :: "u64 \<Rightarrow> u64 \<Rightarrow> u64 option" where
  "permit_claim capacity in_use = (if in_use < capacity then Some (in_use + 1) else None)"

text \<open>\<open>fetch_sub\<close> on the shared counter.\<close>

definition permit_drop :: "u64 \<Rightarrow> u64" where
  "permit_drop in_use = in_use - 1"

lemma unat_of_claimed: "s < cap \<Longrightarrow> unat (s + 1) = unat s + 1 \<and> unat (s + 1) \<le> unat cap" for s cap :: u64
proof -
  assume "s < cap"
  then have "unat s < unat cap" by (simp add: word_less_nat_alt)
  moreover have "unat cap < 2 ^ 64" using unsigned_less [of cap] by simp
  ultimately have "unat s + 1 < 2 ^ 64" by linarith
  then have "unat (s + 1) = unat s + 1" by (simp add: unat_word_ariths)
  then show ?thesis using \<open>unat s < unat cap\<close> by simp
qed

interpretation permits: slots "permit_claim cap" "\<lambda>n. Some (permit_drop n)" unat "\<lambda>_. unat cap"
proof
  fix s s' assume "permit_claim cap s = Some s'"
  then have "s < cap" "s' = s + 1" by (auto simp: permit_claim_def split: if_splits)
  then show "unat s' = unat s + 1 \<and> unat s' \<le> unat cap \<and> unat cap = unat cap"
    using unat_of_claimed [of s cap] by simp
next
  fix s :: u64 assume "0 < unat s"
  then show "\<exists>s'. Some (permit_drop s) = Some s' \<and> unat s' = unat s - 1 \<and> unat cap = unat cap"
    using unat_minus_one [of s] by (cases "s = 0") (auto simp: permit_drop_def)
qed

section \<open>The snapshot budget\<close>

definition MAX_SNAPSHOT_BYTES_IN_FLIGHT :: nat where "MAX_SNAPSHOT_BYTES_IN_FLIGHT = 256 * 1024 * 1024"
definition MAX_SNAPSHOTS_PER_REQUEST :: nat where "MAX_SNAPSHOTS_PER_REQUEST = 256"
definition MAX_SNAPSHOT_BYTES_PER_REQUEST :: nat where "MAX_SNAPSHOT_BYTES_PER_REQUEST = 128 * 1024 * 1024"
definition MAX_SNAPSHOT_BYTES :: nat where "MAX_SNAPSHOT_BYTES = 8 * 1024 * 1024"

record snapshot_budget =
  sb_capacity :: nat
  sb_reserved :: nat

definition with_capacity :: "nat \<Rightarrow> snapshot_budget" where
  "with_capacity capacity = \<lparr>sb_capacity = capacity, sb_reserved = 0\<rparr>"

datatype snapshot_error = ExceedsBudget | BudgetBusy | TooManySnapshots | SnapshotTooLarge | RequestTooLarge

text \<open>
  The wait of \<open>reserve\<close>: at each turn either the deadline has passed (\<open>None\<close>) or
  the wait ends with what is then reserved.  Running out of turns is still waiting.
\<close>

fun wait_for_room :: "nat \<Rightarrow> snapshot_budget \<Rightarrow> nat option list \<Rightarrow> (snapshot_error + snapshot_budget) option" where
  "wait_for_room n b turns =
     (if sb_capacity b < sb_reserved b + n then
        (case turns of
           [] \<Rightarrow> None
         | None # _ \<Rightarrow> Some (Inl BudgetBusy)
         | Some r # turns \<Rightarrow> wait_for_room n (b\<lparr>sb_reserved := r\<rparr>) turns)
      else Some (Inr (b\<lparr>sb_reserved := sb_reserved b + n\<rparr>)))"

declare wait_for_room.simps [simp del]

definition snapshot_reserve :: "nat \<Rightarrow> nat option list \<Rightarrow> snapshot_budget \<Rightarrow> (snapshot_error + snapshot_budget) option" where
  "snapshot_reserve n turns b =
     (if sb_capacity b < n then Some (Inl ExceedsBudget) else wait_for_room n b turns)"

text \<open>Dropping a reservation; taking back more than is reserved would panic.\<close>

definition snapshot_release :: "nat \<Rightarrow> snapshot_budget \<Rightarrow> snapshot_budget option" where
  "snapshot_release n b = (if n \<le> sb_reserved b then Some (b\<lparr>sb_reserved := sb_reserved b - n\<rparr>) else None)"

text \<open>A reservation that does not wait, as the budget sees it.\<close>

definition snapshot_take :: "nat \<Rightarrow> snapshot_budget \<Rightarrow> snapshot_budget option" where
  "snapshot_take n b = (case snapshot_reserve n [] b of Some (Inr b') \<Rightarrow> Some b' | _ \<Rightarrow> None)"

interpretation snapshots: budget snapshot_take snapshot_release sb_reserved sb_capacity
  by unfold_locales
    (auto simp: snapshot_take_def snapshot_reserve_def snapshot_release_def wait_for_room.simps [of _ _ "[]"]
      split: if_splits)

text \<open>The checks of \<open>read_snapshots\<close> on what a request declares, and the total it reserves.\<close>

fun sum_snapshots :: "nat \<Rightarrow> (nat \<times> nat) list \<Rightarrow> snapshot_error + nat" where
  "sum_snapshots n [] = Inr n"
| "sum_snapshots n ((_, len) # rest) =
     (if MAX_SNAPSHOT_BYTES < len then Inl SnapshotTooLarge
      else if 2 ^ 64 \<le> n + len \<or> MAX_SNAPSHOT_BYTES_PER_REQUEST < n + len then Inl RequestTooLarge
      else sum_snapshots (n + len) rest)"

definition declared_total :: "(nat \<times> nat) list \<Rightarrow> snapshot_error + nat" where
  "declared_total snapshots =
     (if MAX_SNAPSHOTS_PER_REQUEST < length snapshots then Inl TooManySnapshots else sum_snapshots 0 snapshots)"

lemma sum_snapshots_spec:
  "n \<le> MAX_SNAPSHOT_BYTES_PER_REQUEST \<Longrightarrow>
   sum_snapshots n ss = Inr t \<longleftrightarrow>
     t = n + sum_list (map snd ss) \<and> t \<le> MAX_SNAPSHOT_BYTES_PER_REQUEST \<and>
     (\<forall>(_, len) \<in> set ss. len \<le> MAX_SNAPSHOT_BYTES)"
proof (induction n ss rule: sum_snapshots.induct)
  case (2 n p len rest)
  have "n + len \<le> MAX_SNAPSHOT_BYTES_PER_REQUEST \<Longrightarrow> \<not> 2 ^ 64 \<le> n + len"
    by (simp add: MAX_SNAPSHOT_BYTES_PER_REQUEST_def)
  then show ?case using 2 by (auto simp: not_less)
qed auto

lemma declared_total_spec:
  "declared_total ss = Inr t \<longleftrightarrow>
     length ss \<le> MAX_SNAPSHOTS_PER_REQUEST \<and> t = sum_list (map snd ss) \<and>
     t \<le> MAX_SNAPSHOT_BYTES_PER_REQUEST \<and> (\<forall>(_, len) \<in> set ss. len \<le> MAX_SNAPSHOT_BYTES)"
  by (auto simp: declared_total_def sum_snapshots_spec)

section \<open>The launch queue\<close>

record 'a launch_queue =
  lq_pending :: "'a list"
  lq_in_flight :: nat
  lq_limit :: nat

text \<open>\<open>BoundedLaunchQueue::new\<close> panics without room for a launch.\<close>

definition queue_new :: "nat \<Rightarrow> 'a launch_queue option" where
  "queue_new limit =
     (if 0 < limit then Some \<lparr>lq_pending = [], lq_in_flight = 0, lq_limit = limit\<rparr> else None)"

definition queue_extend :: "'a list \<Rightarrow> 'a launch_queue \<Rightarrow> 'a launch_queue" where
  "queue_extend launches q = q\<lparr>lq_pending := lq_pending q @ launches\<rparr>"

definition pop_ready :: "'a launch_queue \<Rightarrow> 'a option \<times> 'a launch_queue" where
  "pop_ready q =
     (if lq_limit q \<le> lq_in_flight q then (None, q)
      else case lq_pending q of
        [] \<Rightarrow> (None, q)
      | launch # rest \<Rightarrow> (Some launch, q\<lparr>lq_pending := rest, lq_in_flight := lq_in_flight q + 1\<rparr>))"

text \<open>\<open>complete\<close> panics when nothing is in flight.\<close>

definition complete_launch :: "'a launch_queue \<Rightarrow> 'a launch_queue option" where
  "complete_launch q =
     (if lq_in_flight q = 0 then None else Some (q\<lparr>lq_in_flight := lq_in_flight q - 1\<rparr>))"

definition claim_launch :: "'a launch_queue \<Rightarrow> 'a launch_queue option" where
  "claim_launch q = (case pop_ready q of (Some _, q') \<Rightarrow> Some q' | (None, _) \<Rightarrow> None)"

interpretation launches: slots claim_launch complete_launch lq_in_flight lq_limit
  by unfold_locales
    (auto simp: claim_launch_def pop_ready_def complete_launch_def split: if_splits list.splits)

text \<open>A run of the queue, with the launches that have started.\<close>

datatype 'a queue_op = Extend "'a list" | PopReady | Complete

fun run_queue :: "'a queue_op list \<Rightarrow> 'a launch_queue \<times> 'a list \<Rightarrow> ('a launch_queue \<times> 'a list) option" where
  "run_queue [] s = Some s"
| "run_queue (Extend xs # ops) (q, started) = run_queue ops (queue_extend xs q, started)"
| "run_queue (PopReady # ops) (q, started) =
     (case pop_ready q of
        (Some x, q') \<Rightarrow> run_queue ops (q', started @ [x])
      | (None, q') \<Rightarrow> run_queue ops (q', started))"
| "run_queue (Complete # ops) (q, started) =
     (case complete_launch q of None \<Rightarrow> None | Some q' \<Rightarrow> run_queue ops (q', started))"

fun extended :: "'a queue_op list \<Rightarrow> 'a list" where
  "extended [] = []"
| "extended (Extend xs # ops) = xs @ extended ops"
| "extended (_ # ops) = extended ops"

lemma run_queue_spec:
  "run_queue ops (q, started) = Some (q', started') \<Longrightarrow> lq_in_flight q \<le> lq_limit q \<Longrightarrow>
   started' @ lq_pending q' = started @ lq_pending q @ extended ops \<and> prefix started started' \<and>
   lq_in_flight q' \<le> lq_limit q' \<and> lq_limit q' = lq_limit q \<and>
   lq_in_flight q' + length (filter (\<lambda>x. x = Complete) ops) + length started = lq_in_flight q + length started'"
proof (induction ops "(q, started)" arbitrary: q started rule: run_queue.induct)
  case (3 ops q started)
  then show ?case
    by (auto simp: pop_ready_def prefix_def split: if_splits list.splits prod.splits option.splits)
next
  case (4 ops q started)
  then show ?case
    by (cases "lq_in_flight q") (auto simp: complete_launch_def)
qed (auto simp: queue_extend_def)

section \<open>Properties of the limits\<close>

text \<open>
  The daemon never serves more connections than it allows: after any
  sequence of connections that arrive and end, the counter is exactly the number of
  permits held, which is at most the limit, and giving one back never wraps.
\<close>

theorem permits_are_counted:
  "\<exists>n held. run_slots (permit_claim MAX_CONNECTIONS) (\<lambda>n. Some (permit_drop n)) es (0, 0) = Some (n, held) \<and>
     unat n = held \<and> held \<le> 1024"
  using permits.run_accounts [of 0 0 MAX_CONNECTIONS es] by (auto simp: MAX_CONNECTIONS_def)

text \<open>
  The snapshot bytes being read never exceed the budget: after any sequence of
  reservations and releases what is reserved is exactly what is held, at most the
  capacity, and no release takes back more than was reserved.  A request is let
  through exactly when the number of its snapshots, the size of each and their sum
  are within the limits, and every such request fits an empty budget, so that it is
  never refused for its size.
\<close>

theorem snapshot_budget_is_kept:
  "(\<exists>b held. run_budget snapshot_take snapshot_release es (with_capacity cap, []) = Some (b, held) \<and>
      sb_reserved b = sum_list held \<and> sb_reserved b \<le> cap) \<and>
   (declared_total ss = Inr t \<longleftrightarrow>
      length ss \<le> MAX_SNAPSHOTS_PER_REQUEST \<and> t = sum_list (map snd ss) \<and>
      t \<le> MAX_SNAPSHOT_BYTES_PER_REQUEST \<and> (\<forall>(_, len) \<in> set ss. len \<le> MAX_SNAPSHOT_BYTES)) \<and>
   (declared_total ss = Inr t \<longrightarrow>
      (\<exists>b. snapshot_reserve t [] (with_capacity MAX_SNAPSHOT_BYTES_IN_FLIGHT) = Some (Inr b)))"
proof (intro conjI)
  show "\<exists>b held. run_budget snapshot_take snapshot_release es (with_capacity cap, []) = Some (b, held) \<and>
      sb_reserved b = sum_list held \<and> sb_reserved b \<le> cap"
    using snapshots.run_accounts [of "with_capacity cap" "[]" es] by (auto simp: with_capacity_def)
  show "declared_total ss = Inr t \<longrightarrow>
      (\<exists>b. snapshot_reserve t [] (with_capacity MAX_SNAPSHOT_BYTES_IN_FLIGHT) = Some (Inr b))"
    by (auto simp: declared_total_spec snapshot_reserve_def wait_for_room.simps [of _ _ "[]"] with_capacity_def
        MAX_SNAPSHOT_BYTES_PER_REQUEST_def MAX_SNAPSHOT_BYTES_IN_FLIGHT_def)
qed (rule declared_total_spec)

theorem snapshot_budget_is_kept_witness:
  "declared_total [(1, 100), (2, 200)] = Inr 300 \<and>
   (\<exists>b. snapshot_reserve 300 [] (with_capacity MAX_SNAPSHOT_BYTES_IN_FLIGHT) = Some (Inr b))"
  using snapshot_budget_is_kept [of "[]" 0 "[(1, 100), (2, 200)]" 300]
  by (simp add: MAX_SNAPSHOTS_PER_REQUEST_def MAX_SNAPSHOT_BYTES_PER_REQUEST_def MAX_SNAPSHOT_BYTES_def)

text \<open>
  Terminal launches are started once each, in the order they were queued, and
  never more at a time than the limit: in every run of a queue the launches that
  have started, followed by those still waiting, are those that were queued, and
  those in flight are the started ones that have not completed.
\<close>

theorem launches_start_in_order:
  assumes "queue_new limit = Some q" "run_queue ops (q, []) = Some (q', started)"
  shows "started @ lq_pending q' = extended ops \<and> lq_in_flight q' \<le> limit \<and>
    lq_in_flight q' + length (filter (\<lambda>x. x = Complete) ops) = length started"
  using run_queue_spec [OF assms(2)] assms(1) by (auto simp: queue_new_def split: if_splits)

theorem launches_start_in_order_witness:
  "\<exists>q' started. run_queue [Extend [10, 20, 30 :: nat], PopReady, PopReady, PopReady, Complete, PopReady]
      (\<lparr>lq_pending = [], lq_in_flight = 0, lq_limit = 2\<rparr>, []) = Some (q', started) \<and>
     started @ lq_pending q' = [10, 20, 30] \<and> lq_in_flight q' \<le> 2"
proof -
  let ?ops = "[Extend [10, 20, 30 :: nat], PopReady, PopReady, PopReady, Complete, PopReady]"
  let ?q = "\<lparr>lq_pending = [], lq_in_flight = 0, lq_limit = 2\<rparr> :: nat launch_queue"
  have q: "queue_new 2 = Some ?q" by (simp add: queue_new_def)
  have r: "run_queue ?ops (?q, []) =
      Some (\<lparr>lq_pending = [], lq_in_flight = 2, lq_limit = 2\<rparr>, [10, 20, 30])"
    by (simp add: queue_extend_def pop_ready_def complete_launch_def)
  show ?thesis using launches_start_in_order [OF q r] r by simp
qed

end
