(* ===== verification/Tftp_Server.thy ===== *)
theory Tftp_Server
  imports Tftp_Delivery Resource_Limits
begin

text \<open>
  The dispatcher of the TFTP server (\<open>server_loop\<close> in \<open>crates/ztftp/src/server.rs\<close>):
  which datagrams start a transfer, how transfers are counted and remembered, and
  what is answered otherwise.  A running transfer is the guard it holds; its own
  exchange is \<open>Tftp_Transfer\<close>.  Log lines are not part of the state.
\<close>

section \<open>State\<close>

definition MAX_CONCURRENT_TRANSFERS :: nat where "MAX_CONCURRENT_TRANSFERS = 32"

record request_key =
  rk_peer :: socket_addr
  rk_write :: bool
  rk_filename :: ustring

record tftp_server =
  active_transfers :: nat
  active_requests :: "request_key set"
  running :: "(request_key \<times> request) list"
  replies :: "(socket_addr \<times> bytes) list"

definition server_start :: tftp_server where
  "server_start = \<lparr>active_transfers = 0, active_requests = {}, running = [], replies = []\<rparr>"

definition reply_error :: "socket_addr \<Rightarrow> u16 \<Rightarrow> string \<Rightarrow> tftp_server \<Rightarrow> tftp_server" where
  "reply_error peer code message s = s\<lparr>replies := replies s @ [(peer, error_packet code (lit message))]\<rparr>"

definition register_active_request :: "request_key \<Rightarrow> tftp_server \<Rightarrow> bool \<times> tftp_server" where
  "register_active_request key s =
     (key \<notin> active_requests s, s\<lparr>active_requests := insert key (active_requests s)\<rparr>)"

definition remove_active_request :: "request_key \<Rightarrow> tftp_server \<Rightarrow> tftp_server" where
  "remove_active_request key s = s\<lparr>active_requests := active_requests s - {key}\<rparr>"

text \<open>The counter's \<open>try_update\<close> and \<open>fetch_sub\<close>.\<close>

definition claim_transfer :: "tftp_server \<Rightarrow> tftp_server option" where
  "claim_transfer s =
     (if active_transfers s < MAX_CONCURRENT_TRANSFERS
      then Some (s\<lparr>active_transfers := active_transfers s + 1\<rparr>) else None)"

definition release_transfer :: "tftp_server \<Rightarrow> tftp_server option" where
  "release_transfer s =
     (if active_transfers s = 0 then None else Some (s\<lparr>active_transfers := active_transfers s - 1\<rparr>))"

interpretation transfers: slots claim_transfer release_transfer active_transfers "\<lambda>_. MAX_CONCURRENT_TRANSFERS"
  by unfold_locales (auto simp: claim_transfer_def release_transfer_def split: if_splits)

section \<open>Handling a datagram\<close>

fun request_error_text :: "request_error \<Rightarrow> string" where
  "request_error_text TooShort = ''request is too short''"
| "request_error_text NotARequest = ''expected a read or write request''"
| "request_error_text MalformedFields = ''request has malformed fields''"
| "request_error_text FilenameNotUtf8 = ''filename is not UTF-8''"
| "request_error_text ModeNotUtf8 = ''transfer mode is not UTF-8''"
| "request_error_text OptionNameNotUtf8 = ''option name is not UTF-8''"
| "request_error_text OptionValueNotUtf8 = ''option value is not UTF-8''"
| "request_error_text FieldNotTerminated = ''request field is not terminated''"
| "request_error_text EmptyField = ''request contains an empty field''"

definition request_key_of :: "socket_addr \<Rightarrow> request \<Rightarrow> request_key" where
  "request_key_of peer rq = \<lparr>rk_peer = peer, rk_write = rq_write rq, rk_filename = rq_filename rq\<rparr>"

text \<open>\<open>spawns\<close> is whether the thread of a transfer can be started.\<close>

definition handle_datagram :: "bool \<Rightarrow> bool \<Rightarrow> socket_addr \<Rightarrow> bytes \<Rightarrow> tftp_server \<Rightarrow> tftp_server" where
  "handle_datagram writable spawns peer packet s =
     (case parse_request (take 65536 packet) of
        Inl e \<Rightarrow> reply_error peer 4 (request_error_text e) s
      | Inr rq \<Rightarrow>
          if rq_write rq \<and> \<not> writable then reply_error peer 2 ''uploads are disabled on this server'' s
          else
            let key = request_key_of peer rq;
                (new, s) = register_active_request key s
            in if \<not> new then s
               else case claim_transfer s of
                 None \<Rightarrow> reply_error peer 0 ''server is busy'' (remove_active_request key s)
               | Some s \<Rightarrow>
                   if spawns then s\<lparr>running := running s @ [(key, rq)]\<rparr>
                   else reply_error peer 0 ''could not start transfer''
                          (remove_active_request key (s\<lparr>active_transfers := active_transfers s - 1\<rparr>)))"

text \<open>
  The end of the i-th running transfer: an error is sent from a socket of its own,
  if there is one, and then the guard is dropped.
\<close>

definition drop_guard :: "request_key \<Rightarrow> tftp_server \<Rightarrow> tftp_server option" where
  "drop_guard key s = map_option (remove_active_request key) (release_transfer s)"

definition transfer_ends :: "nat \<Rightarrow> string option \<Rightarrow> bool \<Rightarrow> tftp_server \<Rightarrow> tftp_server option" where
  "transfer_ends i failure socket s =
     (let (key, rq) = running s ! i;
          s = s\<lparr>running := take i (running s) @ drop (Suc i) (running s)\<rparr>;
          s = (case failure of None \<Rightarrow> s
               | Some message \<Rightarrow>
                   if socket then reply_error (rk_peer key) (if rq_write rq then 2 else 1) message s else s)
      in drop_guard key s)"

text \<open>What the world can do to a server; an undefined result is a panic.\<close>

inductive server_step :: "bool \<Rightarrow> tftp_server \<Rightarrow> tftp_server option \<Rightarrow> bool" for writable where
  datagram: "server_step writable s (Some (handle_datagram writable spawns peer packet s))"
| ended: "i < length (running s) \<Longrightarrow> server_step writable s (transfer_ends i failure socket s)"

inductive server_reachable :: "bool \<Rightarrow> tftp_server option \<Rightarrow> bool" for writable where
  start: "server_reachable writable (Some server_start)"
| step: "server_reachable writable (Some s) \<Longrightarrow> server_step writable s s' \<Longrightarrow> server_reachable writable s'"

section \<open>The invariant\<close>

definition server_ok :: "bool \<Rightarrow> tftp_server \<Rightarrow> bool" where
  "server_ok writable s \<longleftrightarrow>
     active_transfers s = length (running s) \<and> active_requests s = set (map fst (running s)) \<and>
     distinct (map fst (running s)) \<and> length (running s) \<le> MAX_CONCURRENT_TRANSFERS \<and>
     (\<forall>(key, rq) \<in> set (running s). rk_write key = rq_write rq \<and> rk_filename key = rq_filename rq \<and>
        (rq_write rq \<longrightarrow> writable))"

lemma server_ok_start: "server_ok writable server_start"
  by (simp add: server_ok_def server_start_def)

lemma running_reply_error [simp]: "running (reply_error peer code m s) = running s"
  by (simp add: reply_error_def)

lemma reply_error_ok [simp]: "server_ok writable (reply_error peer code m s) = server_ok writable s"
  by (simp add: server_ok_def reply_error_def)

text \<open>What becomes of a request that may be served.\<close>

lemma handle_request:
  assumes "server_ok writable s" "parse_request (take 65536 packet) = Inr rq" "\<not> (rq_write rq \<and> \<not> writable)"
  shows "handle_datagram writable spawns peer packet s =
    (let key = request_key_of peer rq
     in if key \<in> set (map fst (running s)) then s
        else if length (running s) = MAX_CONCURRENT_TRANSFERS then reply_error peer 0 ''server is busy'' s
        else if \<not> spawns then reply_error peer 0 ''could not start transfer'' s
        else s\<lparr>active_transfers := active_transfers s + 1, active_requests := insert key (active_requests s),
               running := running s @ [(key, rq)]\<rparr>)"
proof -
  let ?key = "request_key_of peer rq"
  have same: "s\<lparr>active_requests := active_requests s\<rparr> = s" "s\<lparr>active_transfers := active_transfers s\<rparr> = s"
    by simp_all
  have "insert ?key (active_requests s) = active_requests s" if "?key \<in> active_requests s"
    using that by blast
  moreover have "insert ?key (active_requests s) - {?key} = active_requests s" if "?key \<notin> active_requests s"
    using that by blast
  ultimately show ?thesis
    using assms
    by (auto simp: handle_datagram_def register_active_request_def remove_active_request_def
        claim_transfer_def server_ok_def Let_def reply_error_def simp del: set_map)
qed

lemma handle_datagram_ok:
  assumes "server_ok writable s"
  shows "server_ok writable (handle_datagram writable spawns peer packet s)"
proof (cases "parse_request (take 65536 packet)")
  case (Inl e)
  then show ?thesis using assms by (simp add: handle_datagram_def)
next
  case (Inr rq)
  show ?thesis
  proof (cases "rq_write rq \<and> \<not> writable")
    case True
    then show ?thesis using assms Inr by (simp add: handle_datagram_def)
  next
    case False
    have "server_ok writable (s\<lparr>active_transfers := active_transfers s + 1,
        active_requests := insert (request_key_of peer rq) (active_requests s),
        running := running s @ [(request_key_of peer rq, rq)]\<rparr>)"
      if "request_key_of peer rq \<notin> set (map fst (running s))" "length (running s) \<noteq> MAX_CONCURRENT_TRANSFERS"
      using that assms False by (auto simp: server_ok_def request_key_of_def)
    then show ?thesis using assms handle_request [OF assms Inr False] by (simp add: Let_def del: set_map)
  qed
qed

lemma transfer_ends_ok:
  assumes "server_ok writable s" "i < length (running s)"
  shows "\<exists>s'. transfer_ends i failure socket s = Some s' \<and> server_ok writable s' \<and>
    running s' = take i (running s) @ drop (Suc i) (running s)"
proof -
  let ?rest = "take i (running s) @ drop (Suc i) (running s)"
  obtain key rq where k: "running s ! i = (key, rq)" by (cases "running s ! i")
  have eq: "running s = take i (running s) @ (key, rq) # drop (Suc i) (running s)"
    using id_take_nth_drop [OF assms(2)] k by simp
  have d: "distinct (map fst (take i (running s)) @ key # map fst (drop (Suc i) (running s)))"
  proof -
    have "distinct (map fst (running s))" using assms(1) by (simp add: server_ok_def)
    then show ?thesis by (subst (asm) eq) simp
  qed
  have keys: "set (map fst (running s)) - {key} = set (map fst ?rest)"
  proof -
    have "set (map fst (running s)) = insert key (set (map fst ?rest))"
      by (subst eq) (simp only: map_append list.map set_append list.set fst_conv Un_insert_right)
    moreover have "key \<notin> set (map fst ?rest)" using d by (simp only: map_append set_append distinct_append distinct.simps list.set) blast
    ultimately show ?thesis by simp
  qed
  have d': "distinct (map fst ?rest)" using d by simp
  have pos: "0 < active_transfers s" using assms by (auto simp: server_ok_def)
  have sub: "set ?rest \<subseteq> set (running s)" by (auto dest: in_set_takeD in_set_dropD)
  have len: "length ?rest = length (running s) - 1" using assms(2) by simp
  let ?s = "s\<lparr>running := ?rest, active_transfers := active_transfers s - 1,
      active_requests := active_requests s - {key}\<rparr>"
  have "server_ok writable ?s"
    using assms keys d' sub len by (auto simp: server_ok_def simp del: set_map map_append)
  moreover have "transfer_ends i failure socket s = Some ?s \<or>
      (\<exists>m code. transfer_ends i failure socket s = Some (reply_error (rk_peer key) code m ?s))"
    using k pos
    by (cases failure; cases socket; cases s)
      (auto simp: transfer_ends_def drop_guard_def release_transfer_def remove_active_request_def
        reply_error_def Let_def)
  ultimately show ?thesis by auto
qed

lemma reachable_server_ok: "server_reachable writable x \<Longrightarrow> \<exists>s. x = Some s \<and> server_ok writable s"
proof (induction rule: server_reachable.induct)
  case start
  then show ?case by (simp add: server_ok_start)
next
  case (step s s')
  from step.hyps(2) show ?case
  proof (cases rule: server_step.cases)
    case (datagram spawns peer packet)
    then show ?thesis using step.IH handle_datagram_ok by auto
  next
    case (ended i failure socket)
    then show ?thesis using step.IH transfer_ends_ok [of writable s i failure socket] by auto
  qed
qed

section \<open>Properties of the dispatcher\<close>

text \<open>
  C8.  Whatever datagrams arrive and however transfers end, the server does not
  panic, its counter is the number of transfers that are running, at most 32, its
  set of active requests is exactly theirs, no request runs twice, and a read-only
  server runs no upload.
\<close>

theorem server_counts_transfers:
  assumes "server_reachable writable x"
  shows "\<exists>s. x = Some s \<and> active_transfers s = length (running s) \<and>
    active_requests s = fst ` set (running s) \<and> distinct (map fst (running s)) \<and>
    length (running s) \<le> 32 \<and> (\<not> writable \<longrightarrow> (\<forall>(key, rq) \<in> set (running s). \<not> rq_write rq))"
  using reachable_server_ok [OF assms] by (fastforce simp: server_ok_def MAX_CONCURRENT_TRANSFERS_def)

text \<open>
  C9.  Every valid request that the server may serve is started, is being served
  already, or is answered: at 32 transfers it is told that the server is busy, and
  when no thread can be started that too, and in both cases the server is as it was
  before the request.
\<close>

theorem requests_start_or_are_answered:
  assumes "server_reachable writable (Some s)" "parse_request (take 65536 packet) = Inr rq"
    and "rq_write rq \<longrightarrow> writable"
  shows "handle_datagram writable spawns peer packet s =
    (let key = request_key_of peer rq
     in if key \<in> set (map fst (running s)) then s
        else if length (running s) = MAX_CONCURRENT_TRANSFERS then reply_error peer 0 ''server is busy'' s
        else if \<not> spawns then reply_error peer 0 ''could not start transfer'' s
        else s\<lparr>active_transfers := active_transfers s + 1, active_requests := insert key (active_requests s),
               running := running s @ [(key, rq)]\<rparr>)"
proof -
  have "server_ok writable s" using reachable_server_ok [OF assms(1)] by simp
  then show ?thesis using assms(2,3) by (intro handle_request) auto
qed

lemma sample_server_request:
  "\<exists>rq. parse_request (take 65536 (request_packet OP_RRQ [97] None)) = Inr rq \<and> \<not> rq_write rq"
proof -
  have t: "text_ok [97]" by (simp add: text_ok_def is_scalar_def)
  have "length (request_packet OP_RRQ [97] None) \<le> 65536"
    by (simp add: request_packet_def push_field_def to_be_bytes_def lit_def as_bytes_ascii
        REQUESTED_BLOCK_SIZE_def show_nat.simps)
  then show ?thesis using parse_request_built [OF _ t, of OP_RRQ None]
    by (auto simp: opcode_defs)
qed

theorem server_counts_transfers_witness:
  "\<exists>s. server_reachable False (Some s) \<and> length (running s) = 1 \<and> active_transfers s = 1"
proof -
  let ?p = "request_packet OP_RRQ [97] None"
  obtain rq where rq: "parse_request (take 65536 ?p) = Inr rq" "\<not> rq_write rq"
    using sample_server_request by blast
  let ?s = "handle_datagram False True (2, 5) ?p server_start"
  have r: "server_reachable False (Some ?s)"
    by (rule server_reachable.step [OF server_reachable.start server_step.datagram])
  have "length (running ?s) = 1"
    using handle_request [OF server_ok_start rq(1), of False True "(2, 5)"] rq(2)
    by (simp add: Let_def server_start_def MAX_CONCURRENT_TRANSFERS_def)
  then show ?thesis using server_counts_transfers [OF r] r by auto
qed

theorem requests_start_or_are_answered_witness:
  "handle_datagram False False (2, 5) (request_packet OP_RRQ [97] None) server_start =
     reply_error (2, 5) 0 ''could not start transfer'' server_start"
proof -
  obtain rq where rq: "parse_request (take 65536 (request_packet OP_RRQ [97] None)) = Inr rq" "\<not> rq_write rq"
    using sample_server_request by blast
  have "rq_write rq \<longrightarrow> False" using rq(2) by simp
  from requests_start_or_are_answered [OF server_reachable.start rq(1) this, of False "(2, 5)"] rq(2)
  show ?thesis by (auto simp: Let_def server_start_def MAX_CONCURRENT_TRANSFERS_def)
qed

end
