(* ===== verification/Console_Layout.thy ===== *)
theory Console_Layout
  imports Utf8
begin

text \<open>
  The text layer of the console line editor (\<open>crates/console-server/src/cooked.rs\<close>):
  clusters of UTF-16 units, the movement by grapheme and by word, and how a line is
  laid out in the columns of a row.  The column width of a character comes from the
  \<open>unicode_width\<close> crate and is the parameter \<open>width\<close>.  A panic, and a loop that
  does not end, is \<open>None\<close>.
\<close>

section \<open>UTF-16\<close>

text \<open>
  \<open>char::decode_utf16\<close>: every character with the units it takes; an unpaired
  surrogate is \<open>None\<close>.
\<close>

fun utf16_next :: "u16 list \<Rightarrow> scalar option \<times> nat" where
  "utf16_next [] = (None, 1)"
| "utf16_next (u # us) =
     (if u < 0xD800 \<or> 0xE000 \<le> u then (Some (unat u), 1)
      else if 0xDC00 \<le> u then (None, 1)
      else case us of [] \<Rightarrow> (None, 1)
      | v # _ \<Rightarrow>
          if 0xDC00 \<le> v \<and> v < 0xE000
          then (Some (0x10000 + (unat u - 0xD800) * 0x400 + (unat v - 0xDC00)), 2) else (None, 1))"

lemma utf16_next_units: "1 \<le> snd (utf16_next us) \<and> (us \<noteq> [] \<longrightarrow> snd (utf16_next us) \<le> length us)"
  by (induction us rule: utf16_next.induct) (auto split: list.split)

declare utf16_next.simps [simp del]

function utf16_chars :: "u16 list \<Rightarrow> (scalar option \<times> nat) list" where
  "utf16_chars [] = []"
| "utf16_chars (u # us) = utf16_next (u # us) # utf16_chars (drop (snd (utf16_next (u # us))) (u # us))"
  by pat_completeness auto
termination
proof (relation "measure length")
  fix u us
  show "(drop (snd (utf16_next (u # us))) (u # us), u # us) \<in> measure length"
    using utf16_next_units [of "u # us"] by (simp add: diff_less)
qed simp

definition replacement :: scalar where "replacement = 0xFFFD"

text \<open>\<open>String::from_utf16_lossy\<close>.\<close>

definition from_utf16_lossy :: "u16 list \<Rightarrow> ustring" where
  "from_utf16_lossy us = map (\<lambda>(c, _). case c of Some c \<Rightarrow> c | None \<Rightarrow> replacement) (utf16_chars us)"

lemma utf16_chars_units: "sum_list (map snd (utf16_chars us)) = length us"
proof (induction us rule: utf16_chars.induct)
  case (2 u us)
  then show ?case using utf16_next_units [of "u # us"] by simp
qed simp

lemma utf16_chars_pos: "\<forall>(c, n) \<in> set (utf16_chars us). 1 \<le> n"
proof (induction us rule: utf16_chars.induct)
  case (2 u us)
  then show ?case using utf16_next_units [of "u # us"] by auto
qed simp

section \<open>Clusters and words\<close>

text \<open>
  The units of the cluster that begins at the first unit, a character and the
  zero-width ones stacked onto it, and its width.
\<close>

definition zero_width :: "(scalar \<Rightarrow> nat option) \<Rightarrow> scalar option \<times> nat \<Rightarrow> bool" where
  "zero_width width c = (case fst c of None \<Rightarrow> False | Some d \<Rightarrow> width d = Some 0)"

definition cluster :: "(scalar \<Rightarrow> nat option) \<Rightarrow> u16 list \<Rightarrow> nat \<Rightarrow> nat \<times> int" where
  "cluster width units i =
     (case utf16_chars (drop i units) of [] \<Rightarrow> (0, 0)
      | (first, n) # chars \<Rightarrow>
          let first = (case first of Some c \<Rightarrow> c | None \<Rightarrow> replacement)
          in (n + sum_list (map snd (takeWhile (zero_width width) chars)),
              int (case width first of Some w \<Rightarrow> w | None \<Rightarrow> 1)))"

lemma sum_takeWhile_le: "sum_list (map f (takeWhile P xs)) \<le> (sum_list (map f xs) :: nat)"
  by (induction xs) auto

lemma cluster_units:
  assumes "i < length units"
  shows "1 \<le> fst (cluster width units i) \<and> i + fst (cluster width units i) \<le> length units"
proof -
  obtain u us where d: "drop i units = u # us" using assms by (cases "drop i units") auto
  let ?cs = "utf16_chars (u # us)"
  have s: "sum_list (map snd ?cs) = length units - i" using utf16_chars_units [of "u # us"] d by (metis length_drop)
  obtain c n cs where cs: "?cs = (c, n) # cs" by (cases "utf16_next (u # us)") auto
  then have "1 \<le> n" using utf16_chars_pos [of "u # us"] by auto
  moreover have "n + sum_list (map snd (takeWhile (zero_width width) cs)) \<le> length units - i"
    using s cs sum_takeWhile_le [of snd "zero_width width" cs] by (simp del: utf16_chars.simps)
  ultimately show ?thesis using d cs assms by (simp add: cluster_def del: utf16_chars.simps)
qed

definition grapheme_next :: "(scalar \<Rightarrow> nat option) \<Rightarrow> u16 list \<Rightarrow> nat \<Rightarrow> nat" where
  "grapheme_next width units i =
     (if length units \<le> i then length units else i + max (fst (cluster width units i)) 1)"

lemma grapheme_next_bounds:
  "grapheme_next width units i \<le> length units"
  "i < length units \<Longrightarrow> i < grapheme_next width units i"
  "i \<le> length units \<Longrightarrow> i \<le> grapheme_next width units i"
  using cluster_units [of i units width] by (auto simp: grapheme_next_def)

function prev_scan :: "(scalar \<Rightarrow> nat option) \<Rightarrow> u16 list \<Rightarrow> nat \<Rightarrow> nat \<Rightarrow> nat \<Rightarrow> nat" where
  "prev_scan width units i start previous =
     (if start < min i (length units)
      then prev_scan width units i (grapheme_next width units start) start else previous)"
  by pat_completeness auto
termination
  by (relation "measure (\<lambda>(_, units, _, start, _). length units - start)")
    (use grapheme_next_bounds(2) in \<open>auto simp: diff_less_mono2\<close>)

declare prev_scan.simps [simp del]

definition grapheme_prev :: "(scalar \<Rightarrow> nat option) \<Rightarrow> u16 list \<Rightarrow> nat \<Rightarrow> nat" where
  "grapheme_prev width units i = prev_scan width units i 0 0"

lemma prev_scan_spec:
  "previous \<le> start \<Longrightarrow> start = 0 \<or> previous < i \<and> grapheme_next width units previous = start \<Longrightarrow>
   let p = prev_scan width units i start previous
   in p \<le> i \<and> (0 < i \<longrightarrow> i \<le> length units \<longrightarrow> p < i \<and> i \<le> grapheme_next width units p)"
proof (induction width units i start previous rule: prev_scan.induct)
  case (1 width units i start previous)
  show ?case
  proof (cases "start < min i (length units)")
    case True
    then have "start \<le> grapheme_next width units start" by (intro grapheme_next_bounds) auto
    then show ?thesis using 1 True by (subst prev_scan.simps) auto
  next
    case False
    then show ?thesis using 1(2,3) by (subst prev_scan.simps) (auto simp: Let_def)
  qed
qed

lemma grapheme_prev_bounds:
  "grapheme_prev width units i \<le> i"
  "0 < i \<Longrightarrow> i \<le> length units \<Longrightarrow> grapheme_prev width units i < i"
  using prev_scan_spec [of 0 0 i width units] by (auto simp: grapheme_prev_def Let_def)

definition delimiter_class :: "u16 \<Rightarrow> bool" where
  "delimiter_class u \<longleftrightarrow> u = 32"

fun back_while :: "(nat \<Rightarrow> bool) \<Rightarrow> nat \<Rightarrow> nat" where
  "back_while P 0 = 0"
| "back_while P (Suc n) = (if P (Suc n) then back_while P n else Suc n)"

definition word_prev :: "u16 list \<Rightarrow> nat \<Rightarrow> nat option" where
  "word_prev units p =
     (if p = 0 then Some 0
      else if length units \<le> p - 1 then None
      else let p = back_while (\<lambda>q. units ! q = 32) (p - 1);
               kind = delimiter_class (units ! p)
           in Some (back_while (\<lambda>q. delimiter_class (units ! (q - 1)) = kind) p))"

definition skip_while :: "(u16 \<Rightarrow> bool) \<Rightarrow> u16 list \<Rightarrow> nat \<Rightarrow> nat" where
  "skip_while P units p = p + length (takeWhile P (drop p units))"

definition word_next :: "u16 list \<Rightarrow> nat \<Rightarrow> nat" where
  "word_next units p =
     (if p < length units then
        let p = p + 1;
            kind = delimiter_class (units ! (p - 1));
            p = skip_while (\<lambda>u. delimiter_class u = kind) units p
        in skip_while (\<lambda>u. u = 32) units p
      else p)"

lemma back_while_le: "back_while P n \<le> n"
  by (induction n) auto

lemma word_prev_bounds:
  assumes "p \<le> length units"
  obtains q where "word_prev units p = Some q" "q \<le> p" "0 < p \<longrightarrow> q < p"
proof (cases "p = 0")
  case False
  define a where "a = back_while (\<lambda>q. units ! q = 32) (p - 1)"
  define b where "b = back_while (\<lambda>q. delimiter_class (units ! (q - 1)) = delimiter_class (units ! a)) a"
  have "a \<le> p - 1" "b \<le> a" by (simp_all add: a_def b_def back_while_le)
  moreover have "word_prev units p = Some b" using False assms by (simp add: word_prev_def a_def b_def Let_def)
  ultimately show thesis using that False by auto
qed (use that in \<open>simp add: word_prev_def\<close>)

lemma skip_while_bounds: "p \<le> length units \<Longrightarrow> p \<le> skip_while P units p \<and> skip_while P units p \<le> length units"
  using length_takeWhile_le [of P "drop p units"] by (simp add: skip_while_def)

lemma word_next_bounds: "p < length units \<Longrightarrow> p < word_next units p \<and> word_next units p \<le> length units"
proof -
  assume p: "p < length units"
  let ?q = "skip_while (\<lambda>u. delimiter_class u = delimiter_class (units ! p)) units (p + 1)"
  have "p + 1 \<le> ?q" "?q \<le> length units" using skip_while_bounds [of "p + 1" units] p by auto
  moreover have "?q \<le> skip_while (\<lambda>u. u = 32) units ?q \<and> skip_while (\<lambda>u. u = 32) units ?q \<le> length units"
    by (rule skip_while_bounds) (rule \<open>?q \<le> length units\<close>)
  ultimately show ?thesis using p by (simp add: word_next_def)
qed

section \<open>Rows\<close>

text \<open>\<open>fit\<close>: how many units fit into so many columns, and the columns they take.\<close>

function fit_loop :: "(scalar \<Rightarrow> nat option) \<Rightarrow> u16 list \<Rightarrow> int \<Rightarrow> nat \<Rightarrow> int \<Rightarrow> nat \<times> int" where
  "fit_loop width units columns n used =
     (if n < length units then
        case cluster width units n of (k, w) \<Rightarrow>
          if columns < used + w then (n, used) else fit_loop width units columns (n + k) (used + w)
      else (n, used))"
  by pat_completeness auto
termination
proof (relation "measure (\<lambda>(_, units, _, n, _). length units - n)")
  fix width :: "scalar \<Rightarrow> nat option" and units :: "u16 list" and columns used w x y :: int and n k
  assume "n < length units" "(k, w) = cluster width units n"
  then show "((width, units, columns, n + k, used + w), width, units, columns, n, used)
      \<in> measure (\<lambda>(_, units, _, n, _). length units - n)"
    using cluster_units [of n units width] by (cases "cluster width units n") auto
qed simp

declare fit_loop.simps [simp del]

definition fit :: "(scalar \<Rightarrow> nat option) \<Rightarrow> u16 list \<Rightarrow> int \<Rightarrow> nat \<times> int" where
  "fit width units columns = fit_loop width units columns 0 0"

lemma fit_loop_bounds:
  "used \<le> columns \<Longrightarrow> n \<le> length units \<Longrightarrow>
   case fit_loop width units columns n used of (k, c) \<Rightarrow> n \<le> k \<and> k \<le> length units \<and> used \<le> c \<and> c \<le> columns"
proof (induction width units columns n used rule: fit_loop.induct)
  case (1 width units columns n used)
  show ?case
  proof (cases "n < length units")
    case False
    then show ?thesis using 1(2,3) by (subst fit_loop.simps) simp
  next
    case True
    obtain k w where c: "cluster width units n = (k, w)" by (cases "cluster width units n")
    have "0 \<le> w" using c by (auto simp: cluster_def Let_def split: list.splits)
    moreover have "n + k \<le> length units" using cluster_units [OF True, of width] c by simp
    ultimately show ?thesis
      using 1(1) [OF True c [symmetric]] 1(2,3) True c
      by (subst fit_loop.simps) (auto split: prod.splits)
  qed
qed

lemma fit_bounds:
  "0 \<le> columns \<Longrightarrow> fst (fit width units columns) \<le> length units \<and>
   0 \<le> snd (fit width units columns) \<and> snd (fit width units columns) \<le> columns"
  using fit_loop_bounds [of 0 columns 0 units width] by (auto simp: fit_def split: prod.splits)

text \<open>
  Laying out the control characters at the front: what is shown, the units taken, the
  column, and whether the row has ended.  A tab shows as spaces and another control
  character as \<open>^X\<close>.
\<close>

fun layout_controls :: "int \<Rightarrow> u16 list \<Rightarrow> int \<Rightarrow> ustring \<times> nat \<times> int \<times> bool" where
  "layout_controls limit [] column = ([], 0, column, False)"
| "layout_controls limit (u # us) column =
     (if 0x20 \<le> u then ([], 0, column, False)
      else
        let shown = (if u = 9 then replicate (nat (min (8 - (column AND 7)) (limit - column))) 32
                     else [94, unat u + 64]);
            n = int (length shown)
        in if limit < column + n then (replicate (nat (limit - column)) 32, 0, limit, True)
           else if limit \<le> column + n then (shown, 1, column + n, True)
           else case layout_controls limit us (column + n) of
             (out, k, c, stop) \<Rightarrow> (shown @ out, Suc k, c, stop))"

lemma layout_controls_bounds:
  "column < limit \<Longrightarrow> case layout_controls limit us column of (out, k, c, stop) \<Rightarrow>
     k \<le> length us \<and> column \<le> c \<and> c \<le> limit \<and> (\<not> stop \<longrightarrow> c < limit \<and> (us \<noteq> [] \<and> hd us < 0x20 \<longrightarrow> 0 < k)) \<and>
     (stop \<longrightarrow> c = limit)"
proof (induction limit us column rule: layout_controls.induct)
  case (2 limit u us column)
  show ?case
  proof (cases "0x20 \<le> u")
    case True
    then show ?thesis using 2(2) by (simp add: not_le)
  next
    case False
    define shown where "shown = (if u = 9 then replicate (nat (min (8 - (column AND 7)) (limit - column))) 32
                     else [94, unat u + 64])"
    have s: "0 \<le> int (length shown)" by simp
    show ?thesis
      using 2(1) [OF False shown_def refl] 2(2) False s
      unfolding layout_controls.simps Let_def shown_def [symmetric]
      by (auto split: prod.splits)
  qed
qed simp

text \<open>
  \<open>layout_line\<close> from an offset on: what is appended to the row, how many units it
  takes, and the column reached.
\<close>

function layout_run :: "(scalar \<Rightarrow> nat option) \<Rightarrow> int \<Rightarrow> u16 list \<Rightarrow> int \<Rightarrow> ustring \<times> nat \<times> int" where
  "layout_run width limit us column =
     (if us = [] \<or> limit \<le> column then ([], 0, column)
      else
        let plain = takeWhile (\<lambda>u. \<not> u < 0x20) us;
            (n, columns) = (if plain = [] then (0, 0) else fit width plain (limit - column))
        in if plain \<noteq> [] \<and> n = 0 then ([], grapheme_next width plain 0, column)
           else if n \<noteq> length plain then (from_utf16_lossy (take n plain), n, limit)
           else if limit \<le> column + columns then (from_utf16_lossy plain, n, column + columns)
           else
             (case layout_controls limit (drop n us) (column + columns) of (out, k, c, stop) \<Rightarrow>
                if stop then (from_utf16_lossy plain @ out, n + k, c)
                else case layout_run width limit (drop (n + k) us) c of
                  (out', k', c') \<Rightarrow> (from_utf16_lossy plain @ out @ out', n + k + k', c')))"
  by pat_completeness auto
termination
proof (relation "measure (\<lambda>(_, _, us, _). length us)", goal_cases)
  case (2 width limit us column plain p n columns out r k t c stop)
  have "0 < n + k"
  proof (cases "plain = []")
    case True
    then have "hd us < 0x20" using 2(1,2) by (cases us) (auto split: if_splits)
    moreover have "n = 0" "columns = 0" using 2(3,4) True by auto
    moreover have "layout_controls limit (drop n us) (column + columns) = (out, k, c, stop)" using 2 by simp
    ultimately show ?thesis
      using layout_controls_bounds [of "column + columns" limit "drop n us"] 2(1,7,11) by auto
  qed (use 2(5) in auto)
  then show ?case using 2(1) by (auto intro: diff_less)
qed simp

declare layout_run.simps [simp del]

definition layout_line :: "(scalar \<Rightarrow> nat option) \<Rightarrow> u16 list \<Rightarrow> nat \<Rightarrow> int \<Rightarrow> int \<Rightarrow> ustring \<times> nat \<times> int" where
  "layout_line width input offset column limit =
     (let i = min offset (length input)
      in case layout_run width limit (drop i input) (min column limit) of (out, k, c) \<Rightarrow> (out, i + k, c))"

lemma layout_run_bounds:
  "column \<le> limit \<Longrightarrow> case layout_run width limit us column of (out, k, c) \<Rightarrow>
     k \<le> length us \<and> column \<le> c \<and> c \<le> limit"
proof (induction width limit us column rule: layout_run.induct)
  case (1 width limit us column)
  show ?case
  proof (cases "us = [] \<or> limit \<le> column")
    case True
    then show ?thesis using 1(2) by (subst layout_run.simps) auto
  next
    case False
    define plain where "plain = takeWhile (\<lambda>u. \<not> u < 0x20) us"
    obtain n columns where f: "(if plain = [] then (0, 0) else fit width plain (limit - column)) = (n, columns)"
      by (cases "if plain = [] then (0, 0) else fit width plain (limit - column)")
    have fb: "n \<le> length plain" "0 \<le> columns" "column + columns \<le> limit"
      using fit_bounds [of "limit - column" width plain] f False by (auto split: if_splits)
    have pl: "length plain \<le> length us" by (simp add: plain_def length_takeWhile_le)
    obtain out k c stop where lc: "layout_controls limit (drop n us) (column + columns) = (out, k, c, stop)"
      by (cases "layout_controls limit (drop n us) (column + columns)")
    consider (skip) "plain \<noteq> [] \<and> n = 0" | (full) "\<not> (plain \<noteq> [] \<and> n = 0)" "n \<noteq> length plain \<or> limit \<le> column + columns"
      | (on) "\<not> (plain \<noteq> [] \<and> n = 0)" "n = length plain" "\<not> limit \<le> column + columns" by blast
    then show ?thesis
    proof cases
      case skip
      then have "grapheme_next width plain 0 \<le> length us" using grapheme_next_bounds(1) [of width plain 0] pl by linarith
      then show ?thesis using skip False f
        by (subst layout_run.simps) (simp add: plain_def [symmetric] Let_def)
    next
      case full
      then show ?thesis using False f fb pl
        by (subst layout_run.simps) (auto simp: plain_def [symmetric] Let_def)
    next
      case on
      have b: "k \<le> length (drop n us)" "column + columns \<le> c" "c \<le> limit"
        using layout_controls_bounds [of "column + columns" limit "drop n us"] on(3) lc by auto
      have "\<not> stop \<Longrightarrow> case layout_run width limit (drop (n + k) us) c of (out, k', c') \<Rightarrow>
          k' \<le> length (drop (n + k) us) \<and> c \<le> c' \<and> c' \<le> limit"
        using 1(1) [OF False plain_def f [symmetric] refl _ _ _ lc [symmetric] refl refl] on b(3) by simp
      moreover have "n \<le> length us" using fb(1) pl by simp
      ultimately show ?thesis using on(1,3) False f fb b lc unfolding on(2)
        by (subst layout_run.simps) (auto simp: plain_def [symmetric] Let_def split: prod.splits)
    qed
  qed
qed

lemma fit_takes: "us \<noteq> [] \<Longrightarrow> snd (cluster width us 0) \<le> columns \<Longrightarrow> 0 < fst (fit width us columns)"
proof -
  assume us: "us \<noteq> []" and w: "snd (cluster width us 0) \<le> columns"
  obtain k x where c: "cluster width us 0 = (k, x)" by (cases "cluster width us 0")
  have "0 < k" using cluster_units [of 0 us width] us c by simp
  moreover have "k \<le> length us" using cluster_units [of 0 us width] us c by simp
  moreover have "fit width us columns = fit_loop width us columns k x"
    using us c w by (simp add: fit_def fit_loop.simps [of _ _ _ 0])
  ultimately show ?thesis using fit_loop_bounds [of x columns k us width] c w by (auto split: prod.splits)
qed

text \<open>A row that is not full takes something, or has ended.\<close>

lemma layout_run_progress:
  assumes "us \<noteq> []" "column < limit" "layout_run width limit us column = (out, k, c)"
  shows "0 < k \<or> c = limit" "column + 2 \<le> limit \<Longrightarrow> 0 < k"
proof -
  define plain where "plain = takeWhile (\<lambda>u. \<not> u < 0x20) us"
  have "(0 < k \<or> c = limit) \<and> (column + 2 \<le> limit \<longrightarrow> 0 < k)"
  proof (cases "plain = []")
    case False
    obtain n columns where f: "fit width plain (limit - column) = (n, columns)" by (cases "fit width plain (limit - column)")
    have "0 < grapheme_next width plain 0" using False grapheme_next_bounds(2) [of 0 plain width] by simp
    then have "0 < k" using assms False f unfolding layout_run.simps [of _ _ us]
      by (auto simp: plain_def [symmetric] Let_def split: if_splits prod.splits)
    then show ?thesis by simp
  next
    case True
    then obtain u vs where us: "us = u # vs" "u < 0x20" using assms(1) by (cases us) (auto simp: plain_def split: if_splits)
    obtain o2 k2 c2 stop where lc: "layout_controls limit us column = (o2, k2, c2, stop)"
      by (cases "layout_controls limit us column")
    have k: "k2 \<le> k" "stop \<Longrightarrow> c = c2"
      using assms True lc unfolding layout_run.simps [of _ _ us]
      by (auto simp: plain_def [symmetric] Let_def split: if_splits prod.splits)
    have "c2 = limit \<or> 0 < k2"
      using layout_controls_bounds [OF assms(2), of us] lc us by auto
    moreover have "0 < k2" if "column + 2 \<le> limit"
    proof -
      define shown where "shown = (if u = 9 then replicate (nat (min (8 - (column AND 7)) (limit - column))) 32
                     else [94, unat u + 64])"
      have "int (length shown) \<le> limit - column" using that by (auto simp: shown_def min_def)
      then show ?thesis using lc us unfolding us(1) layout_controls.simps Let_def shown_def [symmetric]
        by (auto split: if_splits prod.splits)
    qed
    ultimately show ?thesis
      using layout_controls_bounds [OF assms(2), of us] lc us k by (cases stop) auto
  qed
  then show "0 < k \<or> c = limit" "column + 2 \<le> limit \<Longrightarrow> 0 < k" by auto
qed

section \<open>The rows of a line\<close>

record row =
  row_text :: ustring
  row_dirty_offset :: nat
  row_dirty_column :: int
  row_columns :: int

definition empty_row :: row where
  "empty_row = \<lparr>row_text = [], row_dirty_offset = 0, row_dirty_column = 0, row_columns = 0\<rparr>"

definition set_last :: "'a list \<Rightarrow> 'a \<Rightarrow> 'a list" where
  "set_last xs x = butlast xs @ [x]"

text \<open>
  The loop of \<open>redisplay\<close> over one segment of the line: full rows are followed by
  empty ones, and what is not dirty moves the place a row is redrawn from.
\<close>

definition lay_row :: "(scalar \<Rightarrow> nat option) \<Rightarrow> int \<Rightarrow> bool \<Rightarrow> u16 list \<Rightarrow> nat \<Rightarrow> row list \<Rightarrow> int \<Rightarrow> nat \<times> row list \<times> int" where
  "lay_row width columns dirty segment start rows column =
     (let rows = (if columns \<le> column then rows @ [empty_row] else rows);
          row = last rows
      in case layout_line width segment start (row_columns row) columns of (out, offset, end_column) \<Rightarrow>
        let row = row\<lparr>row_text := row_text row @ out, row_columns := end_column\<rparr>;
            row = (if dirty then row
                   else row\<lparr>row_dirty_offset := byte_len (row_text row), row_dirty_column := end_column\<rparr>)
        in (offset, set_last rows row, end_column))"

partial_function (option) lay_segment ::
  "(scalar \<Rightarrow> nat option) \<Rightarrow> int \<Rightarrow> bool \<Rightarrow> u16 list \<Rightarrow> nat \<Rightarrow> row list \<Rightarrow> int \<Rightarrow> (row list \<times> int) option" where
  "lay_segment width columns dirty segment start rows column =
     (if length segment \<le> start then Some (rows, column)
      else case lay_row width columns dirty segment start rows column of (start, rows, column) \<Rightarrow>
        lay_segment width columns dirty segment start rows column)"

declare lay_segment.simps [code]

text \<open>What every row keeps holds of the result.\<close>

lemma lay_segment_result:
  assumes "lay_segment width columns dirty segment start rows column = Some (rows', column')" "Q rows column"
    and step: "\<And>start rows column start' rows' column'. Q rows column \<Longrightarrow>
      lay_row width columns dirty segment start rows column = (start', rows', column') \<Longrightarrow> Q rows' column'"
  shows "Q rows' column'"
proof -
  have "w = width \<and> c = columns \<and> d = dirty \<and> s = segment \<and> Q rows column \<longrightarrow> Q (fst y) (snd y)"
    if "lay_segment w c d s start rows column = Some y" for w c d s start rows column y
    using that
  proof (rule lay_segment.raw_induct [where P = "\<lambda>w c d s start rows column y.
      w = width \<and> c = columns \<and> d = dirty \<and> s = segment \<and> Q rows column \<longrightarrow> Q (fst y) (snd y)", rotated])
    fix loop w c d s start rows column y
    assume ih: "\<And>w c d s start rows column y. loop w c d s start rows column = Some y \<Longrightarrow>
        w = width \<and> c = columns \<and> d = dirty \<and> s = segment \<and> Q rows column \<longrightarrow> Q (fst y) (snd y)"
      and body: "(if length s \<le> start then Some (rows, column)
        else case lay_row w c d s start rows column of (start, rows, column) \<Rightarrow> loop w c d s start rows column) = Some y"
    show "w = width \<and> c = columns \<and> d = dirty \<and> s = segment \<and> Q rows column \<longrightarrow> Q (fst y) (snd y)"
      using body step ih by (auto split: if_splits prod.splits)
  qed
  from this [OF assms(1)] show ?thesis using assms(2) by simp
qed

text \<open>What \<open>place_initial\<close> makes of a text it did not write itself: the rows it fills.\<close>

partial_function (option) measure_rows ::
  "(scalar \<Rightarrow> nat option) \<Rightarrow> int \<Rightarrow> u16 list \<Rightarrow> nat \<Rightarrow> int \<Rightarrow> int \<Rightarrow> (int \<times> int) option" where
  "measure_rows width columns initial offset newlines column =
     (if length initial \<le> offset then Some (newlines, column)
      else case layout_line width initial offset column columns of (_, offset, column) \<Rightarrow>
        if columns \<le> column then measure_rows width columns initial offset (newlines + 1) 0
        else measure_rows width columns initial offset newlines column)"

declare measure_rows.simps [code]

lemma layout_line_bounds:
  assumes "offset < length us" "column < limit" "layout_line width us offset column limit = (out, n, c)"
  shows "offset \<le> n" "n \<le> length us" "column \<le> c" "c \<le> limit" "offset < n \<or> c = limit"
    "column + 2 \<le> limit \<Longrightarrow> offset < n"
proof -
  obtain k where r: "layout_run width limit (drop offset us) column = (out, k, c)" "n = offset + k"
    using assms by (auto simp: layout_line_def Let_def split: prod.splits)
  have ne: "drop offset us \<noteq> []" using assms(1) by simp
  show "offset \<le> n" "n \<le> length us" "column \<le> c" "c \<le> limit"
    using layout_run_bounds [of column limit "drop offset us" width] r assms(1,2) by auto
  show "offset < n \<or> c = limit" "column + 2 \<le> limit \<Longrightarrow> offset < n"
    using layout_run_progress [OF ne assms(2) r(1)] r(2) by auto
qed

text \<open>The state of the loop: the last row is as long as the column says.\<close>

definition rows_ok :: "int \<Rightarrow> row list \<Rightarrow> int \<Rightarrow> bool" where
  "rows_ok columns rows column \<longleftrightarrow> rows \<noteq> [] \<and> row_columns (last rows) = column \<and>
     (\<forall>r \<in> set rows. 0 \<le> row_columns r \<and> row_columns r \<le> columns)"

lemma set_last_simps [simp]: "set_last xs x \<noteq> []" "last (set_last xs x) = x"
  "length (set_last xs x) = length xs - 1 + 1"
  by (simp_all add: set_last_def)

lemma rows_ok_set_last:
  "rows_ok columns rows column \<Longrightarrow> row_columns r = c \<Longrightarrow> 0 \<le> c \<Longrightarrow> c \<le> columns \<Longrightarrow> rows_ok columns (set_last rows r) c"
  by (auto simp: rows_ok_def set_last_def dest: in_set_butlastD)

lemma rows_ok_push: "rows_ok columns rows column \<Longrightarrow> 0 \<le> columns \<Longrightarrow> rows_ok columns (rows @ [empty_row]) 0"
  by (auto simp: rows_ok_def empty_row_def)

lemma lay_row_ok:
  assumes "rows_ok columns rows column" "0 < columns" "start < length segment"
    and "lay_row width columns dirty segment start rows column = (start', rows', column')"
  shows "rows_ok columns rows' column'" "start \<le> start'" "start' \<le> length segment" "length rows \<le> length rows'"
    "2 \<le> columns \<Longrightarrow> start < start' \<or> column < columns \<and> columns \<le> column'"
proof -
  define rows1 where "rows1 = (if columns \<le> column then rows @ [empty_row] else rows)"
  define column1 where "column1 = (if columns \<le> column then 0 else column)"
  have ok: "rows_ok columns rows1 column1"
    using assms(1,2) rows_ok_push [OF assms(1)] by (simp add: rows1_def column1_def)
  then have c: "row_columns (last rows1) = column1" "0 \<le> column1" "rows1 \<noteq> []" by (auto simp: rows_ok_def)
  have lt: "column1 < columns" using assms(2) by (simp add: column1_def)
  obtain out n e where l: "layout_line width segment start column1 columns = (out, n, e)"
    by (cases "layout_line width segment start column1 columns")
  note b = layout_line_bounds [OF assms(3) lt l]
  obtain r where r: "start' = n" "column' = e" "rows' = set_last rows1 r" "row_columns r = e"
    using assms(4) l c(1) by (auto simp: lay_row_def rows1_def [symmetric] Let_def)
  show "rows_ok columns rows' column'"
    using rows_ok_set_last [OF ok r(4)] b(3,4) c(2) r by simp
  show "start \<le> start'" "start' \<le> length segment" using b(1,2) r(1) by auto
  show "length rows \<le> length rows'" using c(3) unfolding r(3) by (auto simp: rows1_def Suc_le_eq)
  show "start < start' \<or> column < columns \<and> columns \<le> column'" if "2 \<le> columns"
    using b(5,6) r(1,2) that by (cases "columns \<le> column") (auto simp: column1_def)
qed

text \<open>With two columns or more laying out ends; the measure counts the units left and the current row.\<close>

lemma lay_segment_ends:
  assumes "2 \<le> columns" "rows_ok columns rows column" "start \<le> length segment"
  shows "\<exists>rows' column'. lay_segment width columns dirty segment start rows column = Some (rows', column') \<and>
    rows_ok columns rows' column' \<and> length rows \<le> length rows'"
  using assms(2,3)
proof (induction "2 * (length segment - start) + (if column < columns then 1 else 0)"
    arbitrary: start rows column rule: less_induct)
  case less
  show ?case
  proof (cases "start < length segment")
    case False
    then show ?thesis using less.prems by (subst lay_segment.simps) simp
  next
    case True
    obtain start' rows' column' where l: "lay_row width columns dirty segment start rows column = (start', rows', column')"
      by (cases "lay_row width columns dirty segment start rows column")
    have "0 < columns" using assms(1) by simp
    note k = lay_row_ok [OF less.prems(1) this True l]
    have "2 * (length segment - start') + (if column' < columns then 1 else 0)
        < 2 * (length segment - start) + (if column < columns then 1 else (0 :: nat))"
    proof (cases "start < start'")
      case True
      then have "length segment - start' < length segment - start" using k(3) by linarith
      then show ?thesis by simp
    next
      case False
      then show ?thesis using k(2,5) assms(1) by simp
    qed
    from less.hyps [OF this k(1,3)] show ?thesis
      using True l k(4) by (subst lay_segment.simps) (auto intro: order_trans)
  qed
qed

lemma measure_rows_ends:
  assumes "2 \<le> columns" "column < columns" "0 \<le> column" "offset \<le> length initial"
  shows "\<exists>n c. measure_rows width columns initial offset newlines column = Some (n, c) \<and>
    newlines \<le> n \<and> 0 \<le> c \<and> c < columns"
  using assms(2-)
proof (induction "2 * (length initial - offset) + (if column = 0 then 0 else 1)"
    arbitrary: offset column newlines rule: less_induct)
  case less
  show ?case
  proof (cases "offset < length initial")
    case False
    then show ?thesis using less.prems by (subst measure_rows.simps) simp
  next
    case True
    obtain out k c where l: "layout_line width initial offset column columns = (out, k, c)"
      by (cases "layout_line width initial offset column columns")
    note b = layout_line_bounds [OF True less.prems(1) l]
    define c' where "c' = (if columns \<le> c then 0 else c)"
    define n' where "n' = (if columns \<le> c then newlines + 1 else newlines)"
    have "offset < k \<or> column \<noteq> 0 \<and> c' = 0 \<and> offset = k" using b assms(1) by (auto simp: c'_def)
    then have m: "2 * (length initial - k) + (if c' = 0 then 0 else 1)
        < 2 * (length initial - offset) + (if column = 0 then 0 else (1 :: nat))"
    proof
      assume "offset < k"
      then have "length initial - k < length initial - offset" using b(2) by linarith
      then show ?thesis by simp
    qed simp
    have c': "c' < columns" "0 \<le> c'" using b(3) less.prems(2) assms(1) by (auto simp: c'_def)
    have "measure_rows width columns initial offset newlines column = measure_rows width columns initial k n' c'"
      using True l by (subst measure_rows.simps) (simp add: c'_def n'_def)
    moreover have "newlines \<le> n'" by (simp add: n'_def)
    ultimately show ?thesis using less.hyps [OF m c' b(2), of n'] by auto
  qed
qed

text \<open>
  The three segments of a line, up to and from the places of the first change and of the
  cursor: the rows, where the cursor is, and where the text ends.
\<close>

definition NPOS :: nat where "NPOS = 2 ^ 64 - 1"

definition bounded_slice :: "u16 list \<Rightarrow> nat \<Rightarrow> nat \<Rightarrow> u16 list" where
  "bounded_slice buffer a b =
     (let from = min a (length buffer); to = min b (length buffer)
      in drop (min from to) (take to buffer))"

fun lay_segments ::
  "(scalar \<Rightarrow> nat option) \<Rightarrow> int \<Rightarrow> nat \<Rightarrow> nat \<Rightarrow> u16 list \<Rightarrow> nat list \<Rightarrow> row list \<Rightarrow> int \<Rightarrow> int \<times> int
   \<Rightarrow> (row list \<times> int \<times> (int \<times> int)) option" where
  "lay_segments width columns dirty_beg cursor buffer (a # b # offsets) rows column cursor_final =
     (let segment = bounded_slice buffer a b
      in if segment = [] then lay_segments width columns dirty_beg cursor buffer (b # offsets) rows column cursor_final
         else case lay_segment width columns (dirty_beg \<le> a) segment 0 rows column of
           None \<Rightarrow> None
         | Some (rows, column) \<Rightarrow>
             lay_segments width columns dirty_beg cursor buffer (b # offsets) rows column
               (if b = cursor then (column, int (length rows) - 1) else cursor_final))"
| "lay_segments width columns dirty_beg cursor buffer offsets rows column cursor_final =
     Some (rows, column, cursor_final)"

definition lay_line ::
  "(scalar \<Rightarrow> nat option) \<Rightarrow> int \<Rightarrow> nat \<Rightarrow> nat \<Rightarrow> u16 list \<Rightarrow> int \<Rightarrow> (row list \<times> (int \<times> int) \<times> (int \<times> int)) option" where
  "lay_line width columns dirty_beg cursor buffer x =
     map_option (\<lambda>(rows, column, cursor_final). (rows, cursor_final, (column, int (length rows) - 1)))
       (lay_segments width columns dirty_beg cursor buffer
          [0, min dirty_beg cursor, max dirty_beg cursor, NPOS]
          [empty_row\<lparr>row_dirty_column := x, row_columns := x\<rparr>] x (x, 0))"

definition point_in :: "int \<Rightarrow> row list \<Rightarrow> int \<times> int \<Rightarrow> bool" where
  "point_in columns rows p \<longleftrightarrow> 0 \<le> fst p \<and> fst p \<le> columns \<and> 0 \<le> snd p \<and> snd p < int (length rows)"

lemma lay_segments_ends:
  assumes "2 \<le> columns" "rows_ok columns rows column" "point_in columns rows p"
  shows "\<exists>rows' column' p'. lay_segments width columns dirty_beg cursor buffer offsets rows column p =
      Some (rows', column', p') \<and> rows_ok columns rows' column' \<and> point_in columns rows' p'"
  using assms(2,3)
proof (induction offsets arbitrary: rows column p)
  case (Cons a offsets)
  show ?case
  proof (cases offsets)
    case Nil
    then show ?thesis using Cons.prems by simp
  next
    case (Cons b rest)
    let ?seg = "bounded_slice buffer a b"
    obtain rows' column' where seg: "lay_segment width columns (dirty_beg \<le> a) ?seg 0 rows column = Some (rows', column')"
      "rows_ok columns rows' column'" "length rows \<le> length rows'"
      using lay_segment_ends [OF assms(1) Cons.prems(1), of 0 ?seg width "dirty_beg \<le> a"] by blast
    let ?p = "if b = cursor then (column', int (length rows') - 1) else p"
    have "last rows' \<in> set rows'" using seg(2) by (auto simp: rows_ok_def)
    then have "point_in columns rows' ?p"
      using seg(2,3) Cons.prems(2) by (auto simp: point_in_def rows_ok_def Suc_leI)
    with Cons.IH [OF seg(2)] Cons.IH [OF Cons.prems] seg(1) Cons show ?thesis
      by (cases "?seg = []") simp_all
  qed
qed simp

lemma lay_line_ends:
  assumes "2 \<le> columns" "0 \<le> x" "x \<le> columns"
  shows "\<exists>rows p q. lay_line width columns dirty_beg cursor buffer x = Some (rows, p, q) \<and> rows \<noteq> [] \<and>
    (\<forall>r \<in> set rows. row_columns r \<le> columns) \<and> point_in columns rows p \<and> point_in columns rows q"
proof -
  let ?rows = "[empty_row\<lparr>row_dirty_column := x, row_columns := x\<rparr>]"
  have "rows_ok columns ?rows x" "point_in columns ?rows (x, 0)"
    using assms(2,3) by (auto simp: rows_ok_def point_in_def)
  from lay_segments_ends [OF assms(1) this, of width dirty_beg cursor buffer
      "[0, min dirty_beg cursor, max dirty_beg cursor, NPOS]"]
  obtain rows c p where l: "lay_segments width columns dirty_beg cursor buffer
      [0, min dirty_beg cursor, max dirty_beg cursor, NPOS] ?rows x (x, 0) = Some (rows, c, p)"
    "rows_ok columns rows c" "point_in columns rows p" by blast
  have "last rows \<in> set rows" using l(2) by (auto simp: rows_ok_def)
  then show ?thesis using l by (auto simp: lay_line_def rows_ok_def point_in_def Suc_leI)
qed

text \<open>In one column a control character never fits, and the loop goes round for ever.\<close>

lemma lay_row_one_column:
  assumes "u < 0x20" "u \<noteq> 9" "rows_ok 1 rows column"
  shows "\<exists>rows'. lay_row width 1 dirty [u] 0 rows column = (0, rows', 1) \<and> rows_ok 1 rows' 1"
proof -
  define rows1 where "rows1 = (if 1 \<le> column then rows @ [empty_row] else rows)"
  define column1 where "column1 = (if 1 \<le> column then 0 else column)"
  have ok: "rows_ok 1 rows1 column1"
    using assms(3) rows_ok_push [OF assms(3)] by (simp add: rows1_def column1_def)
  then have c: "row_columns (last rows1) = column1" "0 \<le> column1" "rows1 \<noteq> []"
    by (auto simp: rows_ok_def)
  have "column1 = 0" using c(2) by (auto simp: column1_def split: if_splits)
  moreover have "layout_run width 1 [u] 0 = ([32], 0, 1)"
  proof -
    have "\<not> 0x20 \<le> u" using assms(1) by (simp add: not_le)
    then show ?thesis using assms(1,2) by (subst layout_run.simps) (simp add: from_utf16_lossy_def)
  qed
  ultimately have "layout_line width [u] 0 column1 1 = ([32], 0, 1)" by (simp add: layout_line_def)
  then obtain r where "lay_row width 1 dirty [u] 0 rows column = (0, set_last rows1 r, 1)" "row_columns r = 1"
    using c(1) by (auto simp: lay_row_def rows1_def [symmetric] Let_def)
  moreover have "rows_ok 1 (set_last rows1 r) 1" using rows_ok_set_last [OF ok \<open>row_columns r = 1\<close>] by simp
  ultimately show ?thesis by blast
qed

lemma lay_segment_hangs:
  assumes "u < 0x20" "u \<noteq> 9" "rows_ok 1 rows column"
  shows "lay_segment width 1 dirty [u] 0 rows column = None"
proof (rule ccontr)
  assume "lay_segment width 1 dirty [u] 0 rows column \<noteq> None"
  then obtain y where "lay_segment width 1 dirty [u] 0 rows column = Some y" by auto
  then have "(1 :: int) = 1 \<and> [u] = [u] \<and> (0 :: nat) = 0 \<longrightarrow> \<not> rows_ok 1 rows column"
  proof (rule lay_segment.raw_induct [where P = "\<lambda>w c d segment start rows column y.
      c = 1 \<and> segment = [u] \<and> start = 0 \<longrightarrow> \<not> rows_ok 1 rows column", rotated])
    fix loop width columns dirty segment start rows column y
    assume ih: "\<And>w c d segment start rows column y. loop w c d segment start rows column = Some y \<Longrightarrow>
        c = 1 \<and> segment = [u] \<and> start = 0 \<longrightarrow> \<not> rows_ok 1 rows column"
      and step: "(if length segment \<le> start then Some (rows, column)
        else case lay_row width columns dirty segment start rows column of
          (start, rows, column) \<Rightarrow> loop width columns dirty segment start rows column) = Some y"
    show "columns = 1 \<and> segment = [u] \<and> start = 0 \<longrightarrow> \<not> rows_ok 1 rows column"
    proof (intro impI notI)
      assume e: "columns = 1 \<and> segment = [u] \<and> start = 0" and ok: "rows_ok 1 rows column"
      obtain rows' where "lay_row width 1 dirty [u] 0 rows column = (0, rows', 1)" "rows_ok 1 rows' 1"
        using lay_row_one_column [OF assms(1,2) ok] by blast
      then show False using ih [of width 1 dirty "[u]" 0 rows' 1 y] step e by simp
    qed
  qed
  then show False using assms(3) by simp
qed

section \<open>Properties of the layout\<close>

text \<open>
  A wide character at the last column: the comment of \<open>layout_line\<close> has it moved to the
  next row, which is what happens when more text precedes it in the same segment.
\<close>

lemma layout_run_wide:
  assumes "0x20 \<le> u" "u < 0xD800 \<or> 0xE000 \<le> u" "width (unat u) = Some 2"
  shows "layout_run width limit [u] (limit - 1) = ([], 1, limit - 1)"
proof -
  have chars: "utf16_chars [u] = [(Some (unat u), 1)]" using assms(2) by (simp add: utf16_next.simps)
  then have c: "cluster width [u] 0 = (1, 2)" using assms(3) by (simp add: cluster_def del: utf16_chars.simps)
  then have "fit width [u] 1 = (0, 0)" by (simp add: fit_def fit_loop.simps [of _ _ _ 0])
  moreover have "grapheme_next width [u] 0 = 1" using c by (simp add: grapheme_next_def)
  moreover have "takeWhile (\<lambda>u. \<not> u < 0x20) [u] = [u]" using assms(1) by (simp add: not_less)
  ultimately show ?thesis by (subst layout_run.simps) (simp add: Let_def)
qed

text \<open>
  C34.  Laying out a line ends in every terminal of two columns or more: no row is longer
  than the terminal is wide, and the cursor and the end of the text are in the rows.
  In a terminal of one column a control character never fits, and the loop of
  \<open>redisplay\<close> does not end.
\<close>

theorem laying_out_ends:
  assumes "2 \<le> columns" "0 \<le> x" "x \<le> columns" "u < 0x20" "u \<noteq> 9"
  shows "(\<exists>rows p q. lay_line width columns dirty_beg cursor buffer x = Some (rows, p, q) \<and> rows \<noteq> [] \<and>
      (\<forall>r \<in> set rows. row_columns r \<le> columns) \<and> point_in columns rows p \<and> point_in columns rows q) \<and>
    lay_line width 1 0 1 [u] 0 = None"
proof -
  have "rows_ok 1 [empty_row\<lparr>row_dirty_column := 0, row_columns := 0\<rparr>] 0" by (simp add: rows_ok_def)
  from lay_segment_hangs [OF assms(4,5) this] have "lay_line width 1 0 1 [u] 0 = None"
    by (simp add: lay_line_def bounded_slice_def NPOS_def)
  then show ?thesis using lay_line_ends [OF assms(1-3), of width dirty_beg cursor buffer] by blast
qed

theorem laying_out_ends_witness:
  "(\<exists>rows p q. lay_line (\<lambda>_. Some 1) 80 0 2 [97, 3] 5 = Some (rows, p, q) \<and> point_in 80 rows p) \<and>
   lay_line (\<lambda>_. Some 1) 1 0 1 [3] 0 = None"
  using laying_out_ends [of 80 5 3 "\<lambda>_. Some 1" 0 2 "[97, 3]"] by auto

text \<open>
  A wide character typed when the line ends at the last column but one of a row is
  lost: it is skipped rather than moved to the next row, so the row shows nothing and
  the cursor does not move.  Skipping is meant for a terminal of one column only.
\<close>

theorem wide_character_is_lost:
  assumes "0x20 \<le> u" "u < 0xD800 \<or> 0xE000 \<le> u" "width (unat u) = Some 2" "2 \<le> columns"
  shows "\<exists>row. lay_line width columns 0 1 [u] (columns - 1) = Some ([row], (columns - 1, 0), (columns - 1, 0)) \<and>
    row_text row = []"
proof -
  have "layout_line width [u] 0 (columns - 1) columns = ([], 1, columns - 1)"
    using layout_run_wide [of u width columns] assms(1-3) by (simp add: layout_line_def)
  then show ?thesis
    by (simp add: lay_line_def bounded_slice_def NPOS_def lay_segment.simps lay_row_def set_last_def empty_row_def)
qed

theorem wide_character_is_lost_witness:
  "\<exists>row. lay_line (\<lambda>c. Some (if c < 0x1100 then 1 else 2)) 80 0 1 [0x6F22] 79 = Some ([row], (79, 0), (79, 0)) \<and>
     row_text row = []"
  using wide_character_is_lost [of "0x6F22" "\<lambda>c. Some (if c < 0x1100 then 1 else 2)" 80] by simp

end
