(* ===== verification/Console_History.thy ===== *)
theory Console_History
  imports Prelude
begin

text \<open>
  Command history of the console server (\<open>crates/console-server/src/history.rs\<close>):
  one list of commands per application, with the position and reset flag that the
  history keys, the popups and doskey share.  A panic is \<open>None\<close>.  Lowercasing of
  application names is the parameter \<open>lowered\<close>.
\<close>

section \<open>One list\<close>

type_synonym command = "u16 list"

record history =
  ch_commands :: "command list"
  ch_max :: int
  ch_application :: command
  ch_owner :: "nat option"
  ch_reset :: bool
  ch_last :: int

definition history_len :: "history \<Rightarrow> int" where
  "history_len h = int (length (ch_commands h))"

definition history_nth :: "int \<Rightarrow> history \<Rightarrow> command" where
  "history_nth i h = (if 0 \<le> i \<and> i < history_len h then ch_commands h ! nat i else [])"

definition reset_position :: "history \<Rightarrow> history" where
  "reset_position h = h\<lparr>ch_last := history_len h - 1, ch_reset := True\<rparr>"

definition history_remove :: "int \<Rightarrow> history \<Rightarrow> command \<times> history" where
  "history_remove i h =
     (if \<not> (0 \<le> i \<and> i < history_len h) then ([], h)
      else
        let command = ch_commands h ! nat i;
            h = h\<lparr>ch_commands := remove_at (nat i) (ch_commands h)\<rparr>
        in (command,
            if ch_last h = i then h\<lparr>ch_last := -1\<rparr>
            else if i < ch_last h
            then h\<lparr>ch_last := (if ch_last h \<le> 0 then ch_max h else ch_last h) - 1\<rparr>
            else h))"

definition previous_index :: "int \<Rightarrow> int \<Rightarrow> int" where
  "previous_index len i = (if i \<le> 0 then len else i) - 1"

definition command_matches :: "bool \<Rightarrow> command \<Rightarrow> command \<Rightarrow> bool" where
  "command_matches exact p stored \<longleftrightarrow>
     (if exact then length stored = length p else length p \<le> length stored) \<and>
     take (length p) stored = p"

text \<open>The search of \<open>find\<close>; an index outside the list panics.\<close>

fun find_loop :: "nat \<Rightarrow> command list \<Rightarrow> bool \<Rightarrow> command \<Rightarrow> int \<Rightarrow> int option option" where
  "find_loop 0 cs exact p i = Some None"
| "find_loop (Suc n) cs exact p i =
     (if \<not> (0 \<le> i \<and> i < int (length cs)) then None
      else if command_matches exact p (cs ! nat i) then Some (Some i)
      else find_loop n cs exact p (previous_index (int (length cs)) i))"

definition history_find :: "command \<Rightarrow> int \<Rightarrow> bool \<Rightarrow> bool \<Rightarrow> history \<Rightarrow> (int option \<times> history) option" where
  "history_find p start exact just_looking h =
     (if ch_commands h = [] then Some (None, h)
      else
        let (i, h) = (if \<not> just_looking \<and> ch_reset h then (start, h\<lparr>ch_reset := False\<rparr>)
                      else (previous_index (history_len h) start, h))
        in if p = [] then Some (Some i, h)
           else map_option (\<lambda>r. (r, h)) (find_loop (length (ch_commands h)) (ch_commands h) exact p i))"

text \<open>The copy of a command that is moved to the end rather than stored twice.\<close>

definition take_duplicate :: "command \<Rightarrow> bool \<Rightarrow> history \<Rightarrow> (command option \<times> history) option" where
  "take_duplicate command suppress_duplicates h =
     (if \<not> suppress_duplicates then Some (None, h)
      else case history_find command (ch_last h) True False h of
             None \<Rightarrow> None
           | Some (Some i, h) \<Rightarrow> (case history_remove i h of (c, h) \<Rightarrow> Some (Some c, h))
           | Some (None, h) \<Rightarrow> Some (None, h))"

definition push_command :: "command \<Rightarrow> command option \<Rightarrow> history \<Rightarrow> history" where
  "push_command command reuse h =
     (let h = (if history_len h = ch_max h
               then h\<lparr>ch_commands := remove_at 0 (ch_commands h), ch_last := ch_last h - 1\<rparr> else h);
          h = h\<lparr>ch_commands := ch_commands h @ [case reuse of Some c \<Rightarrow> c | None \<Rightarrow> command]\<rparr>
      in if ch_last h = -1 \<or> history_nth (ch_last h) h \<noteq> command then reset_position h else h)"

definition history_add :: "command \<Rightarrow> bool \<Rightarrow> history \<Rightarrow> history option" where
  "history_add command suppress_duplicates h =
     (if ch_max h = 0 \<or> command = [] then Some h
      else if ch_commands h \<noteq> [] \<and> last (ch_commands h) = command then Some (h\<lparr>ch_reset := True\<rparr>)
      else case take_duplicate command suppress_duplicates h of
             None \<Rightarrow> None
           | Some (reuse, h) \<Rightarrow> Some (push_command command reuse h\<lparr>ch_reset := True\<rparr>))"

definition retrieve_nth :: "int \<Rightarrow> history \<Rightarrow> command \<times> history" where
  "retrieve_nth i h =
     (if ch_commands h = [] then ([], h\<lparr>ch_last := 0\<rparr>)
      else let k = min (max i 0) (history_len h - 1)
           in (ch_commands h ! nat k, h\<lparr>ch_last := k\<rparr>))"

datatype retrieve_direction = Previous | Next

definition retrieve :: "retrieve_direction \<Rightarrow> history \<Rightarrow> command \<times> history" where
  "retrieve d h =
     (let h = (case d of
                 Previous \<Rightarrow> if ch_reset h then h\<lparr>ch_reset := False\<rparr> else h\<lparr>ch_last := ch_last h - 1\<rparr>
               | Next \<Rightarrow> h\<lparr>ch_last := ch_last h + 1\<rparr>)
      in retrieve_nth (ch_last h) h)"

definition last_command :: "history \<Rightarrow> command" where
  "last_command h = history_nth (ch_last h) h"

definition empty_history :: "history \<Rightarrow> history" where
  "empty_history h = h\<lparr>ch_commands := [], ch_last := -1, ch_reset := True\<rparr>"

definition at_first :: "history \<Rightarrow> bool" where
  "at_first h =
     (if ch_reset h then False
      else let i = ch_last h - 1; i = (if i = -1 then history_len h - 1 else i)
           in i = history_len h - 1)"

definition at_last :: "history \<Rightarrow> bool" where
  "at_last h \<longleftrightarrow> ch_last h = history_len h - 1"

definition history_realloc :: "int \<Rightarrow> history \<Rightarrow> history" where
  "history_realloc n h =
     (if ch_max h = n then h
      else let h = h\<lparr>ch_commands := take (nat (max n 0)) (ch_commands h), ch_reset := True\<rparr>
           in h\<lparr>ch_last := history_len h - 1, ch_max := n\<rparr>)"

definition swap_commands :: "int \<Rightarrow> int \<Rightarrow> history \<Rightarrow> history" where
  "swap_commands a b h =
     (let n = history_len h
      in if a \<noteq> b \<and> 0 \<le> a \<and> a < n \<and> 0 \<le> b \<and> b < n
         then h\<lparr>ch_commands := (ch_commands h)[nat a := ch_commands h ! nat b, nat b := ch_commands h ! nat a]\<rparr>
         else h)"

section \<open>The lists of a console\<close>

record histories =
  hs_lists :: "history list"
  hs_size :: u32
  hs_buffers :: u32
  hs_flags :: u32

definition NO_DUPLICATES :: u32 where "NO_DUPLICATES = 1"

definition histories_default :: histories where
  "histories_default = \<lparr>hs_lists = [], hs_size = 50, hs_buffers = 4, hs_flags = 0\<rparr>"

text \<open>\<open>as Index\<close>: a 32-bit number read as signed.\<close>

definition as_index :: "u32 \<Rightarrow> int" where
  "as_index n = sint n"

definition find_owner :: "nat \<Rightarrow> histories \<Rightarrow> nat option" where
  "find_owner owner hs = position (\<lambda>l. ch_owner l = Some owner) (hs_lists hs)"

text \<open>\<open>lowered\<close> is the lowercased text of a name.\<close>

definition same_name :: "(command \<Rightarrow> 'n) \<Rightarrow> command \<Rightarrow> command \<Rightarrow> bool" where
  "same_name lowered a b \<longleftrightarrow> lowered a = lowered b"

definition by_application :: "(command \<Rightarrow> 'n) \<Rightarrow> command \<Rightarrow> histories \<Rightarrow> nat option" where
  "by_application lowered application hs =
     position (\<lambda>l. ch_owner l \<noteq> None \<and> same_name lowered (ch_application l) application) (hs_lists hs)"

text \<open>The free list that is emptiest: the last empty one, or else the first.\<close>

definition better_free :: "history list \<Rightarrow> nat option \<Rightarrow> nat \<Rightarrow> nat option" where
  "better_free ls best i =
     (if ch_owner (ls ! i) = None \<and>
         (ch_commands (ls ! i) = [] \<or>
          (case best of None \<Rightarrow> True | Some b \<Rightarrow> ch_commands (ls ! b) \<noteq> []))
      then Some i else best)"

definition emptiest_free :: "history list \<Rightarrow> nat option" where
  "emptiest_free ls = foldl (better_free ls) None [0..<length ls]"

definition history_allocate :: "(command \<Rightarrow> 'n) \<Rightarrow> command \<Rightarrow> nat \<Rightarrow> histories \<Rightarrow> histories" where
  "history_allocate lowered application owner hs =
     (let ls = hs_lists hs;
          same = position (\<lambda>l. ch_owner l = None \<and> same_name lowered (ch_application l) application) ls
      in if same = None \<and> length ls < unat (hs_buffers hs) then
           hs\<lparr>hs_lists := \<lparr>ch_commands = [], ch_max = as_index (hs_size hs), ch_application = application,
                          ch_owner = Some owner, ch_reset = False, ch_last = -1\<rparr> # ls\<rparr>
         else case (case same of Some i \<Rightarrow> Some i | None \<Rightarrow> emptiest_free ls) of
           None \<Rightarrow> hs
         | Some i \<Rightarrow>
             let l = ls ! i;
                 l = (if same = None
                      then l\<lparr>ch_commands := [], ch_last := -1, ch_application := application\<rparr> else l)
             in hs\<lparr>hs_lists := l\<lparr>ch_owner := Some owner\<rparr> # remove_at i ls\<rparr>)"

definition history_free :: "nat \<Rightarrow> histories \<Rightarrow> histories" where
  "history_free owner hs =
     (case find_owner owner hs of None \<Rightarrow> hs
      | Some i \<Rightarrow> hs\<lparr>hs_lists := (hs_lists hs)[i := (hs_lists hs ! i)\<lparr>ch_owner := None\<rparr>]\<rparr>)"

definition resize_all :: "u32 \<Rightarrow> histories \<Rightarrow> histories" where
  "resize_all n hs = hs\<lparr>hs_size := n, hs_lists := map (history_realloc (as_index n)) (hs_lists hs)\<rparr>"

definition realloc_application :: "(command \<Rightarrow> 'n) \<Rightarrow> command \<Rightarrow> u32 \<Rightarrow> histories \<Rightarrow> histories" where
  "realloc_application lowered application n hs =
     (case by_application lowered application hs of None \<Rightarrow> hs
      | Some i \<Rightarrow> hs\<lparr>hs_lists := history_realloc (as_index n) (hs_lists hs ! i) # remove_at i (hs_lists hs)\<rparr>)"

text \<open>
  Two of the API calls that doskey makes: \<open>history_text\<close> of \<open>doskey.rs\<close>, and
  \<open>set_history\<close> of \<open>info.rs\<close>, where \<open>None\<close> is \<open>INVALID_PARAMETER\<close>.
\<close>

definition history_text :: "(command \<Rightarrow> 'n) \<Rightarrow> command \<Rightarrow> histories \<Rightarrow> u16 list" where
  "history_text lowered exe hs =
     (case by_application lowered exe hs of None \<Rightarrow> []
      | Some i \<Rightarrow> concat (map (\<lambda>c. c @ [0]) (ch_commands (hs_lists hs ! i))))"

definition set_history :: "u32 \<Rightarrow> u32 \<Rightarrow> u32 \<Rightarrow> histories \<Rightarrow> histories option" where
  "set_history n buffers flags hs =
     (if 32767 < n \<or> 32767 < buffers \<or> flags AND NOT NO_DUPLICATES \<noteq> 0 then None
      else Some ((resize_all n hs)\<lparr>hs_buffers := buffers, hs_flags := flags\<rparr>))"

section \<open>Searching\<close>

text \<open>The order of a search from \<open>i\<close>: down to the oldest command, then round to the newest.\<close>

definition search_order :: "int \<Rightarrow> int \<Rightarrow> int list" where
  "search_order len i = rev [0..i] @ rev [i + 1..len - 1]"

lemma find_loop_down:
  assumes "0 \<le> i" "i < int (length cs)" "n \<le> nat (i + 1)"
  shows "find_loop n cs exact p i = Some (find (\<lambda>k. command_matches exact p (cs ! nat k)) (rev [i + 1 - int n..i]))"
  using assms
proof (induction n arbitrary: i)
  case (Suc n)
  have order: "rev [i + 1 - int (Suc n)..i] = i # rev [i - int n..i - 1]"
    using Suc.prems(3) by (subst upto_rec2) auto
  show ?case
  proof (cases "n = 0")
    case True
    then show ?thesis using Suc.prems order by simp
  next
    case False
    then have i: "1 \<le> i" using Suc.prems(3) by auto
    then have "previous_index (int (length cs)) i = i - 1" by (simp add: previous_index_def)
    then show ?thesis using Suc.IH [of "i - 1"] Suc.prems i order
      by (simp del: upto.simps)
  qed
qed simp

lemma find_loop_wraps:
  assumes "0 \<le> i" "i < int (length cs)" "nat (i + 1) \<le> n"
  shows "find_loop n cs exact p i =
    (case find (\<lambda>k. command_matches exact p (cs ! nat k)) (rev [0..i]) of
       Some k \<Rightarrow> Some (Some k)
     | None \<Rightarrow> find_loop (n - nat (i + 1)) cs exact p (int (length cs) - 1))"
  using assms
proof (induction n arbitrary: i)
  case (Suc n)
  have order: "rev [0..i] = i # rev [0..i - 1]"
    using Suc.prems(1) by (subst upto_rec2) auto
  show ?case
  proof (cases "i = 0")
    case True
    then show ?thesis using Suc.prems by (simp add: previous_index_def)
  next
    case False
    then have "previous_index (int (length cs)) i = i - 1" using Suc.prems by (simp add: previous_index_def)
    moreover have "find_loop n cs exact p (i - 1) =
      (case find (\<lambda>k. command_matches exact p (cs ! nat k)) (rev [0..i - 1]) of
         Some k \<Rightarrow> Some (Some k)
       | None \<Rightarrow> find_loop (Suc n - nat (i + 1)) cs exact p (int (length cs) - 1))"
    proof -
      have e: "Suc n - nat (i + 1) = n - nat (i - 1 + 1)" using False Suc.prems by auto
      show ?thesis unfolding e by (rule Suc.IH) (use Suc.prems False in auto)
    qed
    ultimately show ?thesis using Suc.prems order
      by (simp del: upto.simps diff_Suc_Suc)
  qed
qed simp

lemma find_of_append: "find P (xs @ ys) = (case find P xs of Some x \<Rightarrow> Some x | None \<Rightarrow> find P ys)"
  by (induction xs) auto

lemma find_loop_searches:
  assumes "0 \<le> i" "i < int (length cs)"
  shows "find_loop (length cs) cs exact p i =
    Some (find (\<lambda>k. command_matches exact p (cs ! nat k)) (search_order (int (length cs)) i))"
proof -
  let ?n = "length cs - nat (i + 1)"
  have "find_loop ?n cs exact p (int (length cs) - 1) =
      Some (find (\<lambda>k. command_matches exact p (cs ! nat k)) (rev [i + 1..int (length cs) - 1]))"
  proof -
    have "cs \<noteq> []" using assms by auto
    then show ?thesis using find_loop_down [of "int (length cs) - 1" cs ?n exact p] assms
      by (simp del: upto.simps add: Suc_leI)
  qed
  then show ?thesis
    using find_loop_wraps [of i cs "length cs" exact p] assms
    by (auto simp: search_order_def find_of_append simp del: upto.simps split: option.split)
qed

section \<open>What every operation keeps\<close>

text \<open>
  A list holds no empty command and no more than its limit, and the displayed
  position is a position, or -1, or 0 in an empty list.
\<close>

definition history_ok :: "history \<Rightarrow> bool" where
  "history_ok h \<longleftrightarrow>
     [] \<notin> set (ch_commands h) \<and> (0 \<le> ch_max h \<longrightarrow> history_len h \<le> ch_max h) \<and>
     -1 \<le> ch_last h \<and> (ch_last h < history_len h \<or> history_len h = 0 \<and> ch_last h = 0)"

text \<open>Where a search finds its first index inside the list.\<close>

definition searchable :: "history \<Rightarrow> bool" where
  "searchable h \<longleftrightarrow> ch_commands h = [] \<or> \<not> ch_reset h \<or> 0 \<le> ch_last h"

lemma len_simps [simp]:
  "history_len (h\<lparr>ch_reset := r\<rparr>) = history_len h" "history_len (h\<lparr>ch_last := k\<rparr>) = history_len h"
  "history_len (h\<lparr>ch_max := m\<rparr>) = history_len h" "history_len (h\<lparr>ch_owner := w\<rparr>) = history_len h"
  "history_len (h\<lparr>ch_commands := cs\<rparr>) = int (length cs)" "0 \<le> history_len h"
  by (simp_all add: history_len_def)

lemma len_zero [simp]: "history_len h = 0 \<longleftrightarrow> ch_commands h = []"
  by (simp add: history_len_def)

lemma remove_ok: "history_ok h \<Longrightarrow> history_ok (snd (history_remove i h))"
proof -
  assume ok: "history_ok h"
  show ?thesis
  proof (cases "0 \<le> i \<and> i < history_len h")
    case False
    then show ?thesis using ok by (auto simp: history_remove_def)
  next
    case True
    then have n: "nat i < length (ch_commands h)" by (simp add: history_len_def nat_less_iff)
    then have l: "int (length (remove_at (nat i) (ch_commands h))) = history_len h - 1"
      by (auto simp: length_remove_at history_len_def)
    moreover have "[] \<notin> set (remove_at (nat i) (ch_commands h))"
      using ok set_remove_at_subset [of "nat i" "ch_commands h"] by (auto simp: history_ok_def)
    ultimately show ?thesis using ok True by (auto simp: history_remove_def Let_def history_ok_def)
  qed
qed

lemma retrieve_nth_ok: "history_ok h \<or> history_ok (h\<lparr>ch_last := 0\<rparr>) \<or> history_ok (h\<lparr>ch_last := -1\<rparr>)
    \<Longrightarrow> history_ok (snd (retrieve_nth i h))"
  by (auto simp: retrieve_nth_def Let_def history_ok_def)

lemma retrieve_ok: "history_ok h \<Longrightarrow> history_ok (snd (retrieve d h))"
  unfolding retrieve_def Let_def
  by (rule retrieve_nth_ok) (cases d; auto simp: history_ok_def)

lemma empty_ok: "history_ok h \<Longrightarrow> history_ok (empty_history h)"
  by (simp add: empty_history_def history_ok_def)

lemma realloc_ok: "history_ok h \<Longrightarrow> history_ok (history_realloc n h)"
  by (auto simp: history_realloc_def Let_def history_ok_def min_def dest: in_set_takeD)

lemma swap_ok: "history_ok h \<Longrightarrow> history_ok (swap_commands a b h)"
  by (auto simp: swap_commands_def Let_def history_ok_def history_len_def dest!: set_update_subset_insert [THEN subsetD])
    (metis nat_less_iff nth_mem of_nat_0_le_iff)+

text \<open>As long as no command is removed by hand, the position of a list that is not empty is inside it.\<close>

definition positioned :: "history \<Rightarrow> bool" where
  "positioned h \<longleftrightarrow> ch_commands h = [] \<or> 0 \<le> ch_last h"

lemma positioned_searchable: "positioned h \<Longrightarrow> searchable h"
  by (auto simp: positioned_def searchable_def)

text \<open>The index a search starts from.\<close>

definition search_start :: "bool \<Rightarrow> history \<Rightarrow> int" where
  "search_start just_looking h =
     (if \<not> just_looking \<and> ch_reset h then ch_last h else previous_index (history_len h) (ch_last h))"

lemma search_start_inside:
  assumes "history_ok h" "ch_commands h \<noteq> []" "just_looking \<or> searchable h"
  shows "0 \<le> search_start just_looking h \<and> search_start just_looking h < history_len h"
proof -
  have "1 \<le> history_len h" using assms(2) by (simp add: history_len_def Suc_leI)
  then show ?thesis using assms
    by (auto simp: search_start_def previous_index_def history_ok_def searchable_def)
qed

lemma history_find_searches:
  assumes "history_ok h" "ch_commands h \<noteq> []" "just_looking \<or> searchable h"
  shows "history_find p (ch_last h) exact just_looking h =
    Some (if p = [] then Some (search_start just_looking h)
          else find (\<lambda>k. command_matches exact p (ch_commands h ! nat k))
                 (search_order (history_len h) (search_start just_looking h)),
          if just_looking then h else h\<lparr>ch_reset := False\<rparr>)"
proof -
  have i: "0 \<le> search_start just_looking h" "search_start just_looking h < int (length (ch_commands h))"
    using search_start_inside [OF assms] by (simp_all add: history_len_def)
  have same: "h\<lparr>ch_reset := False\<rparr> = h" if "\<not> ch_reset h" using that by (cases h) simp
  show ?thesis
    using find_loop_searches [OF i, of exact p] assms(2) same
    by (auto simp: history_find_def search_start_def history_len_def split: if_splits)
qed

lemma set_search_order: "0 \<le> i \<Longrightarrow> i < n \<Longrightarrow> set (search_order n i) = {0..<n}"
  by (auto simp: search_order_def)

lemma history_find_hit:
  assumes "history_ok h" "ch_commands h \<noteq> []" "just_looking \<or> searchable h" "p \<noteq> []"
  shows "(\<exists>k h'. history_find p (ch_last h) exact just_looking h = Some (Some k, h') \<and>
      0 \<le> k \<and> k < history_len h \<and> command_matches exact p (ch_commands h ! nat k) \<and>
      h' = (if just_looking then h else h\<lparr>ch_reset := False\<rparr>)) \<or>
    history_find p (ch_last h) exact just_looking h = Some (None, if just_looking then h else h\<lparr>ch_reset := False\<rparr>) \<and>
      (\<forall>c \<in> set (ch_commands h). \<not> command_matches exact p c)"
proof -
  let ?o = "search_order (history_len h) (search_start just_looking h)"
  let ?P = "\<lambda>k. command_matches exact p (ch_commands h ! nat k)"
  have all: "set ?o = {0..<history_len h}"
    using set_search_order search_start_inside [OF assms(1-3)] by blast
  show ?thesis
  proof (cases "find ?P ?o")
    case None
    then have "\<forall>k \<in> {0..<history_len h}. \<not> ?P k" using all by (simp add: find_None_iff)
    then have "\<not> ?P (int j)" if "j < length (ch_commands h)" for j
      using that by (auto simp: history_len_def dest: bspec [of _ _ "int j"])
    then have "\<forall>c \<in> set (ch_commands h). \<not> command_matches exact p c"
      by (auto simp: in_set_conv_nth)
    then show ?thesis using history_find_searches [OF assms(1-3)] assms(4) None by simp
  next
    case (Some k)
    then have "k \<in> set ?o" "?P k" by (auto simp: find_Some_iff in_set_conv_nth)
    then show ?thesis using history_find_searches [OF assms(1-3)] assms(4) Some all by auto
  qed
qed

lemma exact_match: "command_matches True p c \<longleftrightarrow> c = p"
  by (auto simp: command_matches_def)

lemma distinct_remove_at: "distinct xs \<Longrightarrow> distinct (remove_at i xs)"
  by (auto simp: remove_at_def set_take_disj_set_drop_if_distinct)

lemma take_duplicate_cases:
  assumes "history_ok h" "searchable h" "command \<noteq> []"
  obtains (kept) h' where "take_duplicate command suppress h = Some (None, h')" "history_ok h'"
      "ch_commands h' = ch_commands h" "ch_max h' = ch_max h" "suppress \<longrightarrow> command \<notin> set (ch_commands h)"
    | (moved) j h' where "take_duplicate command suppress h = Some (Some command, h')" "history_ok h'"
      "j < length (ch_commands h)" "ch_commands h ! j = command"
      "ch_commands h' = remove_at j (ch_commands h)" "ch_max h' = ch_max h" "suppress"
proof (cases "suppress \<and> ch_commands h \<noteq> []")
  case False
  then show ?thesis using kept [of h] assms(1)
    by (auto simp: take_duplicate_def history_find_def)
next
  case True
  have ok: "history_ok (h\<lparr>ch_reset := False\<rparr>)" using assms(1) by (simp add: history_ok_def)
  consider (hit) k where "history_find command (ch_last h) True False h = Some (Some k, h\<lparr>ch_reset := False\<rparr>)"
      "0 \<le> k" "k < history_len h" "ch_commands h ! nat k = command"
    | (miss) "history_find command (ch_last h) True False h = Some (None, h\<lparr>ch_reset := False\<rparr>)"
      "command \<notin> set (ch_commands h)"
    using history_find_hit [OF assms(1), of False command True] True assms(2,3) by (auto simp: exact_match)
  then show ?thesis
  proof cases
    case miss
    then show ?thesis using kept [of "h\<lparr>ch_reset := False\<rparr>"] ok True by (simp add: take_duplicate_def)
  next
    case hit
    have j: "nat k < length (ch_commands h)" using hit(2,3) by (simp add: history_len_def nat_less_iff)
    let ?r = "history_remove k (h\<lparr>ch_reset := False\<rparr>)"
    have r: "fst ?r = command" "ch_commands (snd ?r) = remove_at (nat k) (ch_commands h)" "ch_max (snd ?r) = ch_max h"
      using hit by (auto simp: history_remove_def Let_def)
    have "take_duplicate command suppress h = Some (Some command, snd ?r)"
      using True hit(1) r(1) by (simp add: take_duplicate_def case_prod_unfold)
    then show ?thesis using moved [of "snd ?r" "nat k"] remove_ok [OF ok, of k] j hit(4) r True by simp
  qed
qed

lemma push_command_ok:
  assumes "history_ok h" "command \<noteq> []" "ch_max h \<noteq> 0" "reuse = None \<or> reuse = Some command"
    and "reuse = None \<or> history_len h < ch_max h \<or> ch_max h < 0"
  shows "history_ok (push_command command reuse h)" "positioned (push_command command reuse h)"
    "ch_commands (push_command command reuse h) =
       (if history_len h = ch_max h then tl (ch_commands h) else ch_commands h) @ [command]"
    "ch_max (push_command command reuse h) = ch_max h"
proof -
  have c: "(case reuse of Some c \<Rightarrow> c | None \<Rightarrow> command) = command" using assms(4) by auto
  define h1 where "h1 = (if history_len h = ch_max h
      then h\<lparr>ch_commands := tl (ch_commands h), ch_last := ch_last h - 1\<rparr> else h)"
  define h2 where "h2 = h1\<lparr>ch_commands := ch_commands h1 @ [command]\<rparr>"
  have rem: "remove_at 0 cs = tl cs" for cs :: "command list" by (simp add: remove_at_def drop_Suc)
  have push: "push_command command reuse h =
      (if ch_last h2 = -1 \<or> history_nth (ch_last h2) h2 \<noteq> command then reset_position h2 else h2)"
    by (simp add: push_command_def c h1_def h2_def rem)
  have cs: "ch_commands h2 = (if history_len h = ch_max h then tl (ch_commands h) else ch_commands h) @ [command]"
    "ch_max h2 = ch_max h"
    by (simp_all add: h1_def h2_def)
  have len: "history_len h2 = (if history_len h = ch_max h then history_len h else history_len h + 1)"
    using assms(3) by (auto simp: history_len_def cs)
  have members: "[] \<notin> set (ch_commands h2)"
    using assms(1,2) by (cases "ch_commands h") (auto simp: cs history_ok_def)
  have max: "0 \<le> ch_max h2 \<longrightarrow> history_len h2 \<le> ch_max h2"
    using assms(1) len cs(2) by (auto simp: history_ok_def)
  have inside: "0 \<le> ch_last h2 \<and> ch_last h2 < history_len h2" if "history_nth (ch_last h2) h2 = command"
    using that assms(2) by (auto simp: history_nth_def split: if_splits)
  have pos: "0 < history_len h2" by (simp add: history_len_def cs)
  show "history_ok (push_command command reuse h)" "positioned (push_command command reuse h)"
    using members max inside pos unfolding push
    by (auto simp: history_ok_def reset_position_def positioned_def)
  show "ch_commands (push_command command reuse h) =
       (if history_len h = ch_max h then tl (ch_commands h) else ch_commands h) @ [command]"
    "ch_max (push_command command reuse h) = ch_max h"
    unfolding push using cs by (auto simp: reset_position_def)
qed

lemma history_add_ok:
  assumes "history_ok h" "searchable h"
  obtains h' where "history_add command suppress h = Some h'" "history_ok h'" "ch_max h' = ch_max h"
    "positioned h \<Longrightarrow> positioned h'"
    "command \<noteq> [] \<Longrightarrow> ch_max h \<noteq> 0 \<Longrightarrow> ch_commands h' \<noteq> [] \<and> last (ch_commands h') = command \<and> ch_reset h'"
    "set (ch_commands h') \<subseteq> insert command (set (ch_commands h))"
    "suppress \<Longrightarrow> distinct (ch_commands h) \<Longrightarrow> distinct (ch_commands h')"
proof -
  note goal = that
  consider (none) "ch_max h = 0 \<or> command = []"
    | (same) "ch_max h \<noteq> 0" "command \<noteq> []" "ch_commands h \<noteq> []" "last (ch_commands h) = command"
    | (new) "ch_max h \<noteq> 0" "command \<noteq> []" "\<not> (ch_commands h \<noteq> [] \<and> last (ch_commands h) = command)"
    by blast
  then show thesis
  proof cases
    case none
    then show thesis using that [of h] assms(1) by (auto simp: history_add_def)
  next
    case same
    then show thesis using that [of "h\<lparr>ch_reset := True\<rparr>"] assms(1)
      by (auto simp: history_add_def history_ok_def positioned_def)
  next
    case new
    have fin: thesis
      if d: "take_duplicate command suppress h = Some (reuse, h1)" and ok1: "history_ok h1"
        and max1: "ch_max h1 = ch_max h" and r: "reuse = None \<or> reuse = Some command"
        and room: "reuse = None \<or> history_len h1 < ch_max h1 \<or> ch_max h1 < 0"
        and sub: "set (ch_commands h1) \<subseteq> set (ch_commands h)"
        and dist: "suppress \<Longrightarrow> distinct (ch_commands h) \<Longrightarrow> distinct (ch_commands h1) \<and> command \<notin> set (ch_commands h1)"
      for reuse h1
    proof -
      let ?h = "push_command command reuse h1"
      have m: "ch_max h1 \<noteq> 0" using max1 new(1) by simp
      note p = push_command_ok [OF ok1 new(2) m r room]
      have add: "history_add command suppress h = Some (?h\<lparr>ch_reset := True\<rparr>)"
        using new d by (auto simp: history_add_def)
      have tl: "set (tl cs) \<subseteq> set cs" "distinct cs \<Longrightarrow> distinct (tl cs)" for cs :: "command list"
        by (cases cs; auto)+
      show thesis
      proof (rule goal [OF add])
        show "history_ok (?h\<lparr>ch_reset := True\<rparr>)" "positioned h \<Longrightarrow> positioned (?h\<lparr>ch_reset := True\<rparr>)"
          using p(1,2) by (auto simp: history_ok_def positioned_def)
        show "set (ch_commands (?h\<lparr>ch_reset := True\<rparr>)) \<subseteq> insert command (set (ch_commands h))"
          using p(3) sub tl(1) [of "ch_commands h1"] by auto
        show "distinct (ch_commands (?h\<lparr>ch_reset := True\<rparr>))" if "suppress" "distinct (ch_commands h)"
          using p(3) dist [OF that] tl [of "ch_commands h1"] by auto
      qed (use p(3,4) max1 in auto)
    qed
    show thesis
    proof (rule take_duplicate_cases [OF assms new(2), of suppress])
      fix h' assume k: "take_duplicate command suppress h = Some (None, h')" "history_ok h'"
        "ch_commands h' = ch_commands h" "ch_max h' = ch_max h" "suppress \<longrightarrow> command \<notin> set (ch_commands h)"
      then show thesis by (intro fin [OF k(1,2)]) auto
    next
      fix j h' assume k: "take_duplicate command suppress h = Some (Some command, h')" "history_ok h'"
        "j < length (ch_commands h)" "ch_commands h ! j = command"
        "ch_commands h' = remove_at j (ch_commands h)" "ch_max h' = ch_max h" "suppress"
      have "history_len h' < history_len h" using k(3,5) by (auto simp: history_len_def length_remove_at)
      then have "history_len h' < ch_max h' \<or> ch_max h' < 0" using assms(1) k(6) by (auto simp: history_ok_def)
      moreover have "distinct (ch_commands h') \<and> command \<notin> set (ch_commands h')" if "distinct (ch_commands h)"
        using set_remove_at_distinct [OF that k(3)] distinct_remove_at [OF that, of j] k(4,5) by simp
      moreover have "set (ch_commands h') \<subseteq> set (ch_commands h)"
        using set_remove_at_subset k(5) by metis
      ultimately show thesis using k(6) by (intro fin [OF k(1,2)]) auto
    qed
  qed
qed

section \<open>Runs of a list\<close>

text \<open>
  What the history keys and the popups of a cooked read do with a list
  (\<open>cooked.rs\<close>); F8 searches from the displayed position and shows what it finds.
\<close>

definition search_prefix :: "command \<Rightarrow> history \<Rightarrow> history option" where
  "search_prefix p h =
     (case history_find p (ch_last h) False False h of
        None \<Rightarrow> None
      | Some (None, h) \<Rightarrow> Some h
      | Some (Some i, h) \<Rightarrow> Some (snd (retrieve_nth i h)))"

datatype history_op = Add command bool | Retrieve retrieve_direction | RetrieveNth int | Search command
  | Delete int | Swap int int | Clear | Resize int

fun history_step :: "history_op \<Rightarrow> history \<Rightarrow> history option" where
  "history_step (Add c suppress) h = history_add c suppress h"
| "history_step (Retrieve d) h = Some (snd (retrieve d h))"
| "history_step (RetrieveNth i) h = Some (snd (retrieve_nth i h))"
| "history_step (Search p) h = search_prefix p h"
| "history_step (Delete i) h = Some (snd (history_remove i h))"
| "history_step (Swap a b) h = Some (swap_commands a b h)"
| "history_step Clear h = Some (empty_history h)"
| "history_step (Resize n) h = Some (history_realloc n h)"

fun run_history :: "history_op list \<Rightarrow> history \<Rightarrow> history option" where
  "run_history [] h = Some h"
| "run_history (op # ops) h = (case history_step op h of None \<Rightarrow> None | Some h \<Rightarrow> run_history ops h)"

definition new_history :: "int \<Rightarrow> command \<Rightarrow> nat \<Rightarrow> history" where
  "new_history n application owner =
     \<lparr>ch_commands = [], ch_max = n, ch_application = application, ch_owner = Some owner,
      ch_reset = False, ch_last = -1\<rparr>"

fun deletes :: "history_op \<Rightarrow> bool" where
  "deletes (Delete _) = True"
| "deletes _ = False"

lemma new_history_ok [simp]: "history_ok (new_history n a w)" "positioned (new_history n a w)"
  by (simp_all add: new_history_def history_ok_def positioned_def history_len_def)

lemma retrieve_nth_positioned [simp]: "positioned (snd (retrieve_nth i h))"
  by (auto simp: retrieve_nth_def Let_def positioned_def history_len_def Suc_leI
      simp flip: of_nat_Suc dest: length_greater_0_conv [THEN iffD2])

text \<open>A search that panics starts in a list whose position a deletion has left.\<close>

lemma find_panics_unsearchable: "history_ok h \<Longrightarrow> history_find p (ch_last h) exact False h = None \<Longrightarrow> \<not> searchable h"
  using history_find_searches [of h False p exact] by (cases "ch_commands h = []") (auto simp: history_find_def)

lemma history_find_state: "history_find p i exact jl h = Some (r, h') \<Longrightarrow> h' = h \<or> h' = h\<lparr>ch_reset := False\<rparr>"
  by (auto simp: history_find_def Let_def split: if_splits)

lemma search_prefix_ok: "history_ok h \<Longrightarrow> search_prefix p h = Some h' \<Longrightarrow> history_ok h'"
proof -
  assume ok: "history_ok h" and s: "search_prefix p h = Some h'"
  obtain r h1 where f: "history_find p (ch_last h) False False h = Some (r, h1)"
    using s by (cases "history_find p (ch_last h) False False h") (auto simp: search_prefix_def)
  have "history_ok h1" using history_find_state [OF f] ok by (auto simp: history_ok_def)
  then show "history_ok h'"
    using s f by (cases r) (auto simp: search_prefix_def intro: retrieve_nth_ok)
qed

lemma search_prefix_positioned:
  assumes "history_ok h" "positioned h"
  shows "\<exists>h'. search_prefix p h = Some h' \<and> positioned h'"
proof -
  have "history_find p (ch_last h) False False h \<noteq> None"
    using find_panics_unsearchable [OF assms(1)] positioned_searchable [OF assms(2)] by blast
  then obtain r h1 where f: "history_find p (ch_last h) False False h = Some (r, h1)" by auto
  have "positioned h1" using history_find_state [OF f] assms(2) by (auto simp: positioned_def)
  then show ?thesis using f by (cases r) (simp_all add: search_prefix_def)
qed

lemma take_duplicate_ok:
  assumes "history_ok h" "take_duplicate command suppress h = Some (reuse, h')" "command \<noteq> []"
  shows "history_ok h' \<and> ch_max h' = ch_max h \<and> (reuse = None \<or> reuse = Some command) \<and>
    (reuse = None \<or> history_len h' < ch_max h' \<or> ch_max h' < 0)"
proof (cases "searchable h")
  case True
  then show ?thesis
  proof (rule take_duplicate_cases [OF assms(1) _ assms(3), of suppress])
    fix h1 assume "take_duplicate command suppress h = Some (None, h1)" "history_ok h1" "ch_max h1 = ch_max h"
    then show ?thesis using assms(2) by simp
  next
    fix j h1 assume k: "take_duplicate command suppress h = Some (Some command, h1)" "history_ok h1"
      "j < length (ch_commands h)" "ch_commands h1 = remove_at j (ch_commands h)" "ch_max h1 = ch_max h"
    have "history_len h1 < history_len h" using k(3,4) by (auto simp: history_len_def length_remove_at)
    then show ?thesis using assms(1,2) k by (auto simp: history_ok_def)
  qed
next
  case False
  then have u: "ch_commands h \<noteq> []" "ch_reset h" "ch_last h < 0" by (auto simp: searchable_def)
  then have "find_loop (length (ch_commands h)) (ch_commands h) True command (ch_last h) = None"
    by (cases "length (ch_commands h)") auto
  then have "\<not> suppress" using assms(2,3) u by (auto simp: take_duplicate_def history_find_def)
  then show ?thesis using assms(1,2) by (auto simp: take_duplicate_def)
qed

lemma history_add_keeps:
  assumes "history_ok h" "history_add c suppress h = Some h'"
  shows "history_ok h'"
proof (cases "ch_max h = 0 \<or> c = [] \<or> ch_commands h \<noteq> [] \<and> last (ch_commands h) = c")
  case True
  then show ?thesis using assms by (auto simp: history_add_def history_ok_def split: if_splits)
next
  case False
  then obtain reuse h1 where d: "take_duplicate c suppress h = Some (reuse, h1)"
      and h': "h' = push_command c reuse h1\<lparr>ch_reset := True\<rparr>"
    using assms(2) by (auto simp: history_add_def split: if_splits option.splits)
  have "history_ok (push_command c reuse h1)"
    using take_duplicate_ok [OF assms(1) d] False by (intro push_command_ok) auto
  then show ?thesis by (simp add: h' history_ok_def)
qed

lemma history_step_ok: "history_ok h \<Longrightarrow> history_step op h = Some h' \<Longrightarrow> history_ok h'"
  by (cases op) (auto intro: history_add_keeps search_prefix_ok retrieve_ok retrieve_nth_ok remove_ok
      swap_ok empty_ok realloc_ok)

lemma positioned_ops:
  "positioned (snd (retrieve d h))" "positioned (empty_history h)"
  "positioned h \<Longrightarrow> positioned (swap_commands a b h)" "positioned h \<Longrightarrow> positioned (history_realloc n h)"
  by (simp_all add: retrieve_def Let_def)
    (auto simp: empty_history_def swap_commands_def history_realloc_def Let_def positioned_def Suc_leI)

lemma history_step_positioned:
  assumes "history_ok h" "positioned h" "\<not> deletes op"
  shows "\<exists>h'. history_step op h = Some h' \<and> positioned h'"
proof (cases op)
  case (Add c suppress)
  then show ?thesis using history_add_ok [OF assms(1) positioned_searchable [OF assms(2)], of c suppress] assms(2)
    by (metis history_step.simps(1))
qed (use assms search_prefix_positioned positioned_ops in auto)

lemma run_history_ok: "history_ok h \<Longrightarrow> run_history ops h = Some h' \<Longrightarrow> history_ok h'"
  by (induction ops h rule: run_history.induct) (auto split: option.splits intro: history_step_ok)

lemma run_history_positioned:
  "history_ok h \<Longrightarrow> positioned h \<Longrightarrow> \<forall>op \<in> set ops. \<not> deletes op \<Longrightarrow>
   \<exists>h'. run_history ops h = Some h' \<and> positioned h'"
proof (induction ops h rule: run_history.induct)
  case (2 op ops h)
  then obtain h1 where h1: "history_step op h = Some h1" "positioned h1"
    using history_step_positioned [of h op] by auto
  then show ?case using 2 history_step_ok by auto
qed simp

section \<open>Allocation\<close>

lemma emptiest_free_spec:
  "(case emptiest_free ls of
      Some i \<Rightarrow> i < length ls \<and> ch_owner (ls ! i) = None
    | None \<Rightarrow> \<forall>l \<in> set ls. ch_owner l \<noteq> None)"
proof -
  have "(case foldl (better_free ls) None [0..<n] of
      Some i \<Rightarrow> i < n \<and> ch_owner (ls ! i) = None
    | None \<Rightarrow> \<forall>i < n. ch_owner (ls ! i) \<noteq> None)" for n
    by (induction n) (auto simp: better_free_def less_Suc_eq split: option.splits)
  from this [of "length ls"] show ?thesis
    by (auto simp: emptiest_free_def in_set_conv_nth split: option.splits)
qed

definition histories_ok :: "histories \<Rightarrow> bool" where
  "histories_ok hs \<longleftrightarrow> (\<forall>l \<in> set (hs_lists hs). history_ok l)"

lemma remove_at_keeps: "l \<in> set ls \<Longrightarrow> i < length ls \<Longrightarrow> l \<noteq> ls ! i \<Longrightarrow> l \<in> set (remove_at i ls)"
proof -
  assume l: "l \<in> set ls" and i: "i < length ls" and ne: "l \<noteq> ls ! i"
  have "set ls = insert (ls ! i) (set (take i ls) \<union> set (drop (Suc i) ls))"
    by (subst id_take_nth_drop [OF i]) auto
  then show ?thesis using l ne by (auto simp: remove_at_def)
qed

lemma history_allocate_cases:
  obtains (new) "history_allocate lowered application owner hs =
        hs\<lparr>hs_lists := new_history (as_index (hs_size hs)) application owner # hs_lists hs\<rparr>"
      "length (hs_lists hs) < unat (hs_buffers hs)"
    | (reused) i l where "history_allocate lowered application owner hs =
        hs\<lparr>hs_lists := l\<lparr>ch_owner := Some owner\<rparr> # remove_at i (hs_lists hs)\<rparr>"
      "i < length (hs_lists hs)" "ch_owner (hs_lists hs ! i) = None"
      "l = hs_lists hs ! i \<and> same_name lowered (ch_application l) application \<or>
       l = (hs_lists hs ! i)\<lparr>ch_commands := [], ch_last := -1, ch_application := application\<rparr>"
    | (full) "history_allocate lowered application owner hs = hs"
      "\<forall>l \<in> set (hs_lists hs). ch_owner l \<noteq> None" "unat (hs_buffers hs) \<le> length (hs_lists hs)"
proof -
  let ?same = "position (\<lambda>l. ch_owner l = None \<and> same_name lowered (ch_application l) application) (hs_lists hs)"
  show thesis
  proof (cases ?same)
    case (Some i)
    show thesis
    proof (rule reused [of "hs_lists hs ! i" i])
      show "history_allocate lowered application owner hs =
        hs\<lparr>hs_lists := (hs_lists hs ! i)\<lparr>ch_owner := Some owner\<rparr> # remove_at i (hs_lists hs)\<rparr>"
        using Some by (simp add: history_allocate_def Let_def)
    qed (use position_SomeD [OF Some] in auto)
  next
    case None
    show thesis
    proof (cases "length (hs_lists hs) < unat (hs_buffers hs)")
      case True
      then show thesis using new None by (simp add: history_allocate_def new_history_def)
    next
      case False
      show thesis
      proof (cases "emptiest_free (hs_lists hs)")
        case e: None
        then show thesis using full None False emptiest_free_spec [of "hs_lists hs"]
          by (simp add: history_allocate_def)
      next
        case (Some i)
        show thesis
        proof (rule reused [of
            "(hs_lists hs ! i)\<lparr>ch_commands := [], ch_last := -1, ch_application := application\<rparr>" i])
          show "history_allocate lowered application owner hs =
            hs\<lparr>hs_lists := (hs_lists hs ! i)\<lparr>ch_commands := [], ch_last := -1, ch_application := application\<rparr>
              \<lparr>ch_owner := Some owner\<rparr> # remove_at i (hs_lists hs)\<rparr>"
            using Some None False by (simp add: history_allocate_def Let_def)
        qed (use emptiest_free_spec [of "hs_lists hs"] Some in auto)
      qed
    qed
  qed
qed

section \<open>Properties of the history\<close>

text \<open>
  C35.  Whatever keys are pressed and commands entered, a list of commands stays well
  formed: it holds no empty command, no more commands than its limit, and its
  position is one of them; and as long as no command is deleted from the list of F7
  no operation panics.
\<close>

theorem history_stays_ok:
  "(run_history ops (new_history n application owner) = Some h \<longrightarrow>
      history_ok h \<and> (0 \<le> ch_max h \<longrightarrow> int (length (ch_commands h)) \<le> ch_max h)) \<and>
   ((\<forall>op \<in> set ops. \<not> deletes op) \<longrightarrow> run_history ops (new_history n application owner) \<noteq> None)"
  using run_history_ok [of "new_history n application owner" ops h]
    run_history_positioned [of "new_history n application owner" ops]
  by (auto simp: history_ok_def [of h] history_len_def)

theorem history_stays_ok_witness:
  "run_history [Add [97] True, Add [98] True, Search [97]] (new_history 50 [] 1) \<noteq> None"
  using history_stays_ok [of "[Add [97] True, Add [98] True, Search [97]]" 50 "[]" 1] by simp

text \<open>
  C36.  In a history of two commands or more that shows its newest command and has the reset flag
  set, as after that command was entered, deleting it in the list of F7 leaves the position at -1
  with the flag set.  Then the next F8 search for a prefix that is not empty panics, and so does entering
  another command than the one that is newest now when duplicates are suppressed: the search
  begins at that position.
\<close>

theorem search_after_delete_panics:
  assumes "history_ok h" "ch_reset h" "at_last h" "2 \<le> history_len h" "p \<noteq> []"
    and "c \<noteq> []" "ch_max h \<noteq> 0" "c \<noteq> last (butlast (ch_commands h))"
  shows "run_history [Delete (ch_last h), Search p] h = None \<and>
    run_history [Delete (ch_last h), Add c True] h = None"
proof -
  let ?cs = "butlast (ch_commands h)"
  let ?h = "h\<lparr>ch_commands := ?cs, ch_last := -1\<rparr>"
  have n: "2 \<le> length (ch_commands h)" and l: "ch_last h = int (length (ch_commands h)) - 1"
    using assms(3,4) by (simp_all add: history_len_def at_last_def)
  have "nat (int (length (ch_commands h)) - 1) = length (ch_commands h) - 1" by auto
  then have "remove_at (nat (ch_last h)) (ch_commands h) = ?cs"
    using n l by (simp add: remove_at_def butlast_conv_take)
  then have d: "snd (history_remove (ch_last h) h) = ?h"
    using n l by (simp add: history_remove_def history_len_def Let_def)
  have ne: "?cs \<noteq> []" using n by (cases "ch_commands h") auto
  have loop: "find_loop (length ?cs) ?cs e q (-1) = None" for e q
  proof -
    obtain m where "length ?cs = Suc m" using ne by (metis length_0_conv not0_implies_Suc)
    then show ?thesis by (simp only: find_loop.simps) simp
  qed
  have "search_prefix p ?h = None"
    using ne assms(2,5) loop [of False p] by (simp add: search_prefix_def history_find_def)
  moreover have "history_add c True ?h = None"
    using ne assms(2,6-8) loop [of True c] by (simp add: history_add_def take_duplicate_def history_find_def)
  ultimately show ?thesis using d by simp
qed

theorem search_after_delete_panics_witness:
  "run_history [Add [97] False, Add [98] False, Delete 1, Search [97]] (new_history 50 [] 1) = None"
proof -
  let ?h = "\<lparr>ch_commands = [[97], [98]], ch_max = 50, ch_application = [], ch_owner = Some 1,
    ch_reset = True, ch_last = 1\<rparr> :: history"
  have add: "run_history (Add [97] False # Add [98] False # ops) (new_history 50 [] 1) = run_history ops ?h" for ops
    by (simp add: new_history_def history_add_def take_duplicate_def push_command_def history_len_def
        history_nth_def reset_position_def)
  have "run_history [Delete (ch_last ?h), Search [97]] ?h = None"
    using search_after_delete_panics [of ?h "[97]" "[99]"]
    by (simp add: history_ok_def history_len_def at_last_def)
  then show ?thesis unfolding add by simp
qed

text \<open>
  A search goes backwards from the displayed command to the oldest one and then
  round from the newest: it gives the first command in that order that begins with
  the text (or equals it), nothing exactly when no command does, and changes only
  the reset flag.
\<close>

theorem search_finds_nearest:
  assumes "run_history ops (new_history n application owner) = Some h" "\<forall>op \<in> set ops. \<not> deletes op"
    and "ch_commands h \<noteq> []" "p \<noteq> []"
  shows "history_find p (ch_last h) exact just_looking h =
    Some (find (\<lambda>k. command_matches exact p (ch_commands h ! nat k))
            (search_order (history_len h) (search_start just_looking h)),
          if just_looking then h else h\<lparr>ch_reset := False\<rparr>) \<and>
    set (search_order (history_len h) (search_start just_looking h)) = {0..<history_len h}"
proof -
  have ok: "history_ok h" using run_history_ok [OF _ assms(1)] by simp
  have "searchable h"
    using run_history_positioned [of "new_history n application owner" ops] assms(1,2)
    by (auto intro: positioned_searchable)
  then show ?thesis
    using history_find_searches [OF ok assms(3), of just_looking p exact] assms(4)
      search_start_inside [OF ok assms(3), of just_looking]
    by (auto simp: set_search_order)
qed

theorem search_finds_nearest_witness:
  "\<exists>h. run_history [Add [97, 1] False, Add [98] False, Add [97, 2] False] (new_history 50 [] 1) = Some h \<and>
     history_find [97] 2 False False h = Some (Some 2, h\<lparr>ch_reset := False\<rparr>)"
proof -
  let ?ops = "[Add [97, 1] False, Add [98] False, Add [97, 2] False]"
  let ?h = "\<lparr>ch_commands = [[97, 1], [98], [97, 2]], ch_max = 50, ch_application = [], ch_owner = Some 1,
    ch_reset = True, ch_last = 2\<rparr> :: history"
  have r: "run_history ?ops (new_history 50 [] 1) = Some ?h"
    by (simp add: new_history_def history_add_def take_duplicate_def push_command_def history_len_def
        history_nth_def reset_position_def)
  have o: "search_order 3 2 = [2, 1, 0]" by (simp add: search_order_def upto.simps)
  show ?thesis
    using search_finds_nearest [OF r, of "[97]" False False] r o
    by (simp add: history_len_def search_start_def command_matches_def)
qed

text \<open>
  An entered command becomes the newest one; with duplicates suppressed a list
  without duplicates stays so, the earlier copy being moved rather than stored twice.
\<close>

theorem no_dup_keeps_history_distinct:
  assumes "history_ok h" "positioned h" "c \<noteq> []" "ch_max h \<noteq> 0"
  shows "\<exists>h'. history_add c suppress h = Some h' \<and> last (ch_commands h') = c \<and>
    set (ch_commands h') \<subseteq> insert c (set (ch_commands h)) \<and>
    (suppress \<longrightarrow> distinct (ch_commands h) \<longrightarrow> distinct (ch_commands h')) \<and> history_ok h' \<and> positioned h'"
  by (rule history_add_ok [OF assms(1) positioned_searchable [OF assms(2)], of c suppress])
    (use assms in auto)

theorem no_dup_keeps_history_distinct_witness:
  "\<exists>h'. history_add [97] True (new_history 50 [] 1) = Some h' \<and> last (ch_commands h') = [97]"
proof -
  have "ch_max (new_history 50 [] 1) \<noteq> 0" by (simp add: new_history_def)
  then show ?thesis
    using no_dup_keeps_history_distinct [of "new_history 50 [] 1" "[97]" True] new_history_ok by blast
qed

text \<open>
  Giving a process a list never takes one from a living process and never makes
  more lists than the limit: every list that has an owner stays as it is, lists stay
  well formed, and the process owns a list afterwards unless every list is owned and
  there are as many as the limit allows.
\<close>

theorem allocation_spares_owned_lists:
  assumes "histories_ok hs"
  shows "let hs' = history_allocate lowered application owner hs
    in {l \<in> set (hs_lists hs). ch_owner l \<noteq> None} \<subseteq> set (hs_lists hs') \<and> histories_ok hs' \<and>
       length (hs_lists hs') \<le> max (length (hs_lists hs)) (unat (hs_buffers hs)) \<and>
       (find_owner owner hs' \<noteq> None \<or>
        hs' = hs \<and> (\<forall>l \<in> set (hs_lists hs). ch_owner l \<noteq> None) \<and> unat (hs_buffers hs) \<le> length (hs_lists hs))"
proof (rule history_allocate_cases [of lowered application owner hs])
  assume "history_allocate lowered application owner hs =
      hs\<lparr>hs_lists := new_history (as_index (hs_size hs)) application owner # hs_lists hs\<rparr>"
    "length (hs_lists hs) < unat (hs_buffers hs)"
  moreover have "ch_owner (new_history n a w) = Some w" for n a w by (simp add: new_history_def)
  ultimately show ?thesis using assms by (auto simp: histories_ok_def find_owner_def)
next
  fix i l
  assume r: "history_allocate lowered application owner hs =
      hs\<lparr>hs_lists := l\<lparr>ch_owner := Some owner\<rparr> # remove_at i (hs_lists hs)\<rparr>"
    "i < length (hs_lists hs)" "ch_owner (hs_lists hs ! i) = None"
    "l = hs_lists hs ! i \<and> same_name lowered (ch_application l) application \<or>
     l = (hs_lists hs ! i)\<lparr>ch_commands := [], ch_last := -1, ch_application := application\<rparr>"
  have "history_ok (hs_lists hs ! i)" using assms r(2) by (auto simp: histories_ok_def)
  then have "history_ok (l\<lparr>ch_owner := Some owner\<rparr>)" using r(4) by (auto simp: history_ok_def history_len_def)
  moreover have "\<forall>l \<in> set (remove_at i (hs_lists hs)). history_ok l"
    using assms set_remove_at_subset by (fastforce simp: histories_ok_def)
  moreover have "length (l # remove_at i (hs_lists hs)) = length (hs_lists hs)"
    using r(2) by (simp add: length_remove_at)
  moreover have "{l \<in> set (hs_lists hs). ch_owner l \<noteq> None} \<subseteq> set (remove_at i (hs_lists hs))"
    using remove_at_keeps r(2,3) by fastforce
  ultimately show ?thesis using r(1) by (auto simp: histories_ok_def find_owner_def)
next
  assume "history_allocate lowered application owner hs = hs"
    "\<forall>l \<in> set (hs_lists hs). ch_owner l \<noteq> None" "unat (hs_buffers hs) \<le> length (hs_lists hs)"
  then show ?thesis using assms by auto
qed

theorem allocation_spares_owned_lists_witness:
  "find_owner 7 (history_allocate id [99] 7 histories_default) \<noteq> None"
  using allocation_spares_owned_lists [of histories_default id "[99]" 7]
  by (auto simp: histories_ok_def histories_default_def Let_def)

end
