(* ===== verification/Console_Editor.thy ===== *)
theory Console_Editor
  imports Console_Layout Console_History Decimal
begin

text \<open>
  The line editor of a cooked read (\<open>crates/console-server/src/cooked.rs\<close>): the
  editing keys, the history keys and the popups, over the history of
  \<open>Console_History\<close>.  A slice or a subtraction out of range is a panic
  (\<open>None\<close>); the selection of the command list is an \<open>i32\<close> that wraps, as in a
  release build.
\<close>

section \<open>State\<close>

datatype cooked_state = Accumulating | DoneWithWakeupMask | DoneWithCarriageReturn

datatype popup_kind = CopyToChar | CopyFromChar | CommandNumber | CommandList

record popup =
  pu_kind :: popup_kind
  pu_number :: "u16 list"
  pu_height :: int
  pu_top :: int
  pu_selected :: int

record cooked =
  cr_buffer :: "u16 list"
  cr_dirty_beg :: nat
  cr_cursor :: nat
  cr_state :: cooked_state
  cr_insert :: bool
  cr_dirty :: bool
  cr_clear_pending :: bool
  cr_origin :: "(int \<times> int) option"
  cr_prompt_end :: "int \<times> int"
  cr_content_top :: int
  cr_pager_height :: int
  cr_popups :: "popup list"
  cr_popup_opened :: bool
  cr_wakeup_mask :: u32
  cr_wakeup :: "u16 option"
  cr_control :: u32

text \<open>The context of a key; the flag asks for the aliases of cmd to be cleared.\<close>

record key_context =
  cx_history :: "history option"
  cx_processed :: bool
  cx_clear_cmd :: bool

definition COMMAND_NUMBER_MAX :: nat where "COMMAND_NUMBER_MAX = 5"
definition EXTKEY_ERASE_PREV_WORD :: u16 where "EXTKEY_ERASE_PREV_WORD = 0x7f"
definition BACKSPACE :: u16 where "BACKSPACE = 0x08"
definition CARRIAGE_RETURN :: u16 where "CARRIAGE_RETURN = 0x0d"
definition ALT :: u32 where "ALT = 3"
definition CTRL :: u32 where "CTRL = 0xC"
definition SHIFT :: u32 where "SHIFT = 0x10"

text \<open>The virtual keys of module \<open>vk\<close>.\<close>

definition VK_ESCAPE :: u16 where "VK_ESCAPE = 0x1b"
definition VK_PRIOR :: u16 where "VK_PRIOR = 0x21"
definition VK_NEXT :: u16 where "VK_NEXT = 0x22"
definition VK_END :: u16 where "VK_END = 0x23"
definition VK_HOME :: u16 where "VK_HOME = 0x24"
definition VK_LEFT :: u16 where "VK_LEFT = 0x25"
definition VK_UP :: u16 where "VK_UP = 0x26"
definition VK_RIGHT :: u16 where "VK_RIGHT = 0x27"
definition VK_DOWN :: u16 where "VK_DOWN = 0x28"
definition VK_INSERT :: u16 where "VK_INSERT = 0x2d"
definition VK_DELETE :: u16 where "VK_DELETE = 0x2e"
definition VK_F1 :: u16 where "VK_F1 = 0x70"
definition VK_F2 :: u16 where "VK_F2 = 0x71"
definition VK_F3 :: u16 where "VK_F3 = 0x72"
definition VK_F4 :: u16 where "VK_F4 = 0x73"
definition VK_F5 :: u16 where "VK_F5 = 0x74"
definition VK_F6 :: u16 where "VK_F6 = 0x75"
definition VK_F7 :: u16 where "VK_F7 = 0x76"
definition VK_F8 :: u16 where "VK_F8 = 0x77"
definition VK_F9 :: u16 where "VK_F9 = 0x78"
definition VK_F10 :: u16 where "VK_F10 = 0x79"

lemmas vk_defs = VK_ESCAPE_def VK_PRIOR_def VK_NEXT_def VK_END_def VK_HOME_def VK_LEFT_def VK_UP_def
  VK_RIGHT_def VK_DOWN_def VK_INSERT_def VK_DELETE_def VK_F1_def VK_F2_def VK_F3_def VK_F4_def VK_F5_def
  VK_F6_def VK_F7_def VK_F8_def VK_F9_def VK_F10_def

definition cooked_empty :: "u32 \<Rightarrow> bool \<Rightarrow> cooked" where
  "cooked_empty wakeup_mask ins =
     \<lparr>cr_buffer = [], cr_dirty_beg = NPOS, cr_cursor = 0, cr_state = Accumulating, cr_insert = ins,
      cr_dirty = False, cr_clear_pending = False, cr_origin = None, cr_prompt_end = (0, 0),
      cr_content_top = 0, cr_pager_height = 0, cr_popups = [], cr_popup_opened = False,
      cr_wakeup_mask = wakeup_mask, cr_wakeup = None, cr_control = 0\<rparr>"

subsection \<open>Text that is already on the screen\<close>

text \<open>
  The attempts of \<open>place_initial\<close>: the columns 0, 1, -1, 2, ... from the guess, the
  first that ends exactly at the cursor, or else the first that ends nearest.
\<close>

fun place_attempts :: "(scalar \<Rightarrow> nat option) \<Rightarrow> int \<Rightarrow> u16 list \<Rightarrow> int \<Rightarrow> int \<Rightarrow> int list \<Rightarrow> int \<times> int \<times> int \<Rightarrow> (int \<times> int \<times> int) option" where
  "place_attempts width columns initial guess x [] best = Some best"
| "place_attempts width columns initial guess x (attempt # attempts) best =
     (let offset = (if attempt mod 2 = 0 then - (attempt div 2) else attempt div 2 + 1);
          start = guess + offset
      in if start < 0 \<or> columns \<le> start then place_attempts width columns initial guess x attempts best
         else case measure_rows width columns initial 0 0 start of
           None \<Rightarrow> None
         | Some (newlines, column) \<Rightarrow>
             let distance = \<bar>column - x\<bar>;
                 best = (if distance < fst best then (distance, start, newlines) else best)
             in if distance = 0 then Some best
                else place_attempts width columns initial guess x attempts best)"

definition place_initial ::
  "(scalar \<Rightarrow> nat option) \<Rightarrow> u16 list \<Rightarrow> int \<times> int \<Rightarrow> int \<times> int \<Rightarrow> cooked \<Rightarrow> cooked option" where
  "place_initial width initial screen cursor c =
     (let columns = fst screen;
          remainder = int (length initial) mod columns;
          guess = (fst cursor - remainder + columns) mod columns
      in case place_attempts width columns initial guess (fst cursor) [0..2 * columns] (2 ^ 31 - 1, 0, 0) of
        None \<Rightarrow> None
      | Some (_, best_column, best_newlines) \<Rightarrow>
          let origin = (best_column, snd cursor - best_newlines);
              origin = (if snd origin < 0 then (0, 0) else origin)
          in Some (c\<lparr>cr_buffer := initial, cr_dirty_beg := length initial, cr_cursor := length initial,
                     cr_origin := Some origin, cr_prompt_end := cursor,
                     cr_pager_height := min (snd screen) (best_newlines + 1)\<rparr>))"

definition cooked_new ::
  "(scalar \<Rightarrow> nat option) \<Rightarrow> u16 list \<Rightarrow> u32 \<Rightarrow> bool \<Rightarrow> int \<times> int \<Rightarrow> int \<times> int \<Rightarrow> cooked option" where
  "cooked_new width initial wakeup_mask ins screen cursor =
     (let c = cooked_empty wakeup_mask ins
      in if initial \<noteq> [] \<and> 0 < fst screen then place_initial width initial screen cursor c else Some c)"

section \<open>Editing\<close>

definition is_done :: "cooked \<Rightarrow> bool" where
  "is_done c \<longleftrightarrow> cr_state c \<noteq> Accumulating"

definition complete_wakeup :: "cooked \<Rightarrow> cooked" where
  "complete_wakeup c =
     (case cr_wakeup c of None \<Rightarrow> c
      | Some ch \<Rightarrow>
          let cursor = min (cr_cursor c) (length (cr_buffer c))
          in c\<lparr>cr_wakeup := None, cr_buffer := take cursor (cr_buffer c) @ ch # drop cursor (cr_buffer c),
               cr_cursor := cursor + 1, cr_dirty := False\<rparr>)"

definition splice :: "nat \<Rightarrow> nat \<Rightarrow> u16 list \<Rightarrow> cooked \<Rightarrow> cooked" where
  "splice offset gone input c =
     (let n = length (cr_buffer c);
          offset = min offset n;
          gone = min gone (n - offset)
      in if gone = 0 \<and> input = [] then c
         else c\<lparr>cr_buffer := take offset (cr_buffer c) @ input @ drop (offset + gone) (cr_buffer c),
                cr_cursor := offset + length input, cr_dirty_beg := min (cr_dirty_beg c) offset, cr_dirty := True\<rparr>)"

definition replace_all :: "u16 list \<Rightarrow> cooked \<Rightarrow> cooked" where
  "replace_all text c = c\<lparr>cr_buffer := text, cr_cursor := length text, cr_dirty_beg := 0, cr_dirty := True\<rparr>"

definition set_cursor :: "nat \<Rightarrow> cooked \<Rightarrow> cooked" where
  "set_cursor p c = c\<lparr>cr_cursor := min p (length (cr_buffer c)), cr_dirty := True\<rparr>"

text \<open>\<open>a - b\<close> and \<open>&v[a..b]\<close>, with their panics.\<close>

definition minus_usize :: "nat \<Rightarrow> nat \<Rightarrow> nat option" where
  "minus_usize a b = (if b \<le> a then Some (a - b) else None)"

definition slice_of :: "'a list \<Rightarrow> nat \<Rightarrow> nat \<Rightarrow> 'a list option" where
  "slice_of xs a b = (if a \<le> b \<and> b \<le> length xs then Some (drop a (take b xs)) else None)"

text \<open>Removing what lies between two places of the line.\<close>

definition remove_between :: "nat \<Rightarrow> nat \<Rightarrow> cooked \<Rightarrow> cooked option" where
  "remove_between a b c = map_option (\<lambda>n. splice a n [] c) (minus_usize b a)"

definition handle_char :: "(scalar \<Rightarrow> nat option) \<Rightarrow> u16 \<Rightarrow> u32 \<Rightarrow> key_context \<Rightarrow> cooked \<Rightarrow> cooked option" where
  "handle_char width ch modifiers cx c =
     (if cr_wakeup_mask c \<noteq> 0 \<and> ch < 0x20 \<and> cr_wakeup_mask c AND push_bit (unat ch) 1 \<noteq> 0 then
        Some ((splice (cr_cursor c) NPOS [] c)
          \<lparr>cr_dirty := True, cr_wakeup := Some ch, cr_control := modifiers, cr_state := DoneWithWakeupMask\<rparr>)
      else if ch = CARRIAGE_RETURN then Some ((set_cursor NPOS c)\<lparr>cr_state := DoneWithCarriageReturn\<rparr>)
      else if (ch = EXTKEY_ERASE_PREV_WORD \<or> ch = BACKSPACE) \<and> cx_processed cx then
        (case if ch = EXTKEY_ERASE_PREV_WORD then word_prev (cr_buffer c) (cr_cursor c)
              else Some (grapheme_prev width (cr_buffer c) (cr_cursor c)) of
           None \<Rightarrow> None
         | Some p \<Rightarrow> remove_between p (cr_cursor c) c)
      else
        (case if cr_insert c then Some 0
              else minus_usize (grapheme_next width (cr_buffer c) (cr_cursor c)) (cr_cursor c) of
           None \<Rightarrow> None
         | Some n \<Rightarrow> Some (splice (cr_cursor c) n [ch] c)))"

definition popup_push :: "popup_kind \<Rightarrow> int option \<Rightarrow> cooked \<Rightarrow> cooked" where
  "popup_push kind selected c =
     c\<lparr>cr_popups := cr_popups c @ [\<lparr>pu_kind = kind, pu_number = [], pu_height = 10, pu_top = -1,
                                    pu_selected = (case selected of Some i \<Rightarrow> i | None \<Rightarrow> 0)\<rparr>],
       cr_dirty := True\<rparr>"

definition popups_done :: "cooked \<Rightarrow> cooked" where
  "popups_done c = c\<lparr>cr_popups := [], cr_dirty := True\<rparr>"

text \<open>
  At the end of the line the next character of the previous command is copied: the line
  and the command are walked side by side, character by character.
\<close>

function copy_next :: "(scalar \<Rightarrow> nat option) \<Rightarrow> u16 list \<Rightarrow> nat \<Rightarrow> nat \<Rightarrow> cooked \<Rightarrow> cooked option" where
  "copy_next width command buffer_index command_index c =
     (if command_index < length command then
        let stop = grapheme_next width command command_index
        in if length (cr_buffer c) \<le> buffer_index then
             map_option (\<lambda>text. splice NPOS 0 text c) (slice_of command command_index stop)
           else copy_next width command (grapheme_next width (cr_buffer c) buffer_index) stop c
      else Some c)"
  by pat_completeness auto
termination
  by (relation "measure (\<lambda>(_, command, _, i, _). length command - i)")
    (auto simp: diff_less_mono2 grapheme_next_bounds(2))

declare copy_next.simps [simp del]

definition move_right_key :: "(scalar \<Rightarrow> nat option) \<Rightarrow> u16 \<Rightarrow> bool \<Rightarrow> key_context \<Rightarrow> cooked \<Rightarrow> cooked option" where
  "move_right_key width vkey ctrl cx c =
     (if cr_cursor c \<noteq> length (cr_buffer c) then
        Some (set_cursor (if ctrl \<and> vkey = VK_RIGHT then word_next (cr_buffer c) (cr_cursor c)
                          else grapheme_next width (cr_buffer c) (cr_cursor c)) c)
      else case cx_history cx of None \<Rightarrow> Some c
      | Some h \<Rightarrow> copy_next width (last_command h) 0 0 c)"

text \<open>A history key: the command it retrieves becomes the line.\<close>

definition show_command :: "command \<times> history \<Rightarrow> key_context \<Rightarrow> cooked \<Rightarrow> cooked \<times> key_context" where
  "show_command r cx c = (replace_all (fst r) c, cx\<lparr>cx_history := Some (snd r)\<rparr>)"

definition retrieve_unless ::
  "(history \<Rightarrow> bool) \<Rightarrow> (history \<Rightarrow> command \<times> history) \<Rightarrow> key_context \<Rightarrow> cooked \<Rightarrow> cooked \<times> key_context" where
  "retrieve_unless at_end f cx c =
     (case cx_history cx of None \<Rightarrow> (c, cx)
      | Some h \<Rightarrow> if at_end h then (c, cx) else show_command (f h) cx c)"

definition search_key :: "key_context \<Rightarrow> cooked \<Rightarrow> (cooked \<times> key_context) option" where
  "search_key cx c =
     (case cx_history cx of None \<Rightarrow> Some (c, cx)
      | Some h \<Rightarrow>
          (case slice_of (cr_buffer c) 0 (cr_cursor c) of None \<Rightarrow> None
           | Some p \<Rightarrow>
               (case history_find p (ch_last h) False False h of None \<Rightarrow> None
                | Some (None, h) \<Rightarrow> Some (c, cx\<lparr>cx_history := Some h\<rparr>)
                | Some (Some i, h) \<Rightarrow>
                    (case show_command (retrieve_nth i h) cx c of (c', cx) \<Rightarrow>
                       Some (set_cursor (cr_cursor c) c', cx)))))"

text \<open>A key that touches the line only.\<close>

definition with_line :: "cooked option \<Rightarrow> key_context \<Rightarrow> (cooked \<times> key_context) option" where
  "with_line r cx = map_option (\<lambda>c. (c, cx)) r"

definition line_key :: "(scalar \<Rightarrow> nat option) \<Rightarrow> u16 \<Rightarrow> bool \<Rightarrow> cooked \<Rightarrow> cooked option" where
  "line_key width vkey ctrl c =
     (if vkey = VK_ESCAPE then Some (if cr_buffer c \<noteq> [] then splice 0 NPOS [] c else c)
      else if vkey = VK_HOME then
        Some (if 0 < cr_cursor c then set_cursor 0 (if ctrl then splice 0 (cr_cursor c) [] c else c) else c)
      else if vkey = VK_END then
        Some (if cr_cursor c < length (cr_buffer c)
              then set_cursor NPOS (if ctrl then splice (cr_cursor c) NPOS [] c else c) else c)
      else if vkey = VK_LEFT then
        (if cr_cursor c = 0 then Some c
         else map_option (\<lambda>p. set_cursor p c)
           (if ctrl then word_prev (cr_buffer c) (cr_cursor c)
            else Some (grapheme_prev width (cr_buffer c) (cr_cursor c))))
      else if vkey = VK_INSERT then Some (c\<lparr>cr_insert := \<not> cr_insert c\<rparr>)
      else if vkey = VK_DELETE then
        (if cr_cursor c < length (cr_buffer c)
         then remove_between (cr_cursor c) (grapheme_next width (cr_buffer c) (cr_cursor c)) c else Some c)
      else Some c)"

definition rest_of_last :: "key_context \<Rightarrow> cooked \<Rightarrow> cooked option" where
  "rest_of_last cx c =
     (case cx_history cx of None \<Rightarrow> Some c
      | Some h \<Rightarrow>
          let l = last_command h
          in if cr_cursor c < length l
             then map_option (\<lambda>text. splice (cr_cursor c) NPOS text c) (slice_of l (cr_cursor c) (length l))
             else Some c)"

definition INDEX_MAX :: int where "INDEX_MAX = 2 ^ 31 - 1"

definition handle_vkey ::
  "(scalar \<Rightarrow> nat option) \<Rightarrow> u16 \<Rightarrow> u32 \<Rightarrow> key_context \<Rightarrow> cooked \<Rightarrow> (cooked \<times> key_context) option" where
  "handle_vkey width vkey modifiers cx c =
     (let ctrl = (modifiers AND CTRL \<noteq> 0); alt = (modifiers AND ALT \<noteq> 0)
      in if vkey \<in> {VK_F1, VK_RIGHT} then with_line (move_right_key width vkey ctrl cx c) cx
         else if vkey \<in> {VK_UP, VK_F5} then Some (retrieve_unless at_first (retrieve Previous) cx c)
         else if vkey = VK_DOWN then Some (retrieve_unless at_last (retrieve Next) cx c)
         else if vkey = VK_PRIOR then Some (retrieve_unless at_first (retrieve_nth 0) cx c)
         else if vkey = VK_NEXT then Some (retrieve_unless at_last (retrieve_nth INDEX_MAX) cx c)
         else if vkey = VK_F2 then
           Some (if cx_history cx \<noteq> None then popup_push CopyToChar None c else c, cx)
         else if vkey = VK_F3 then with_line (rest_of_last cx c) cx
         else if vkey = VK_F4 then Some (popup_push CopyFromChar None c, cx)
         else if vkey = VK_F6 then with_line (handle_char width 0x1a modifiers cx c) cx
         else if vkey = VK_F7 then
           (case cx_history cx of None \<Rightarrow> Some (c, cx)
            | Some h \<Rightarrow>
                if \<not> ctrl \<and> \<not> alt then
                  Some (if 0 < history_len h then popup_push CommandList (Some (ch_last h)) c else c, cx)
                else if alt then Some (c, cx\<lparr>cx_history := Some (empty_history h)\<rparr>)
                else Some (c, cx))
         else if vkey = VK_F8 then search_key cx c
         else if vkey = VK_F9 then
           Some (case cx_history cx of Some h \<Rightarrow> if 0 < history_len h then popup_push CommandNumber None c else c
                 | None \<Rightarrow> c, cx)
         else if vkey = VK_F10 then Some (c, if alt then cx\<lparr>cx_clear_cmd := True\<rparr> else cx)
         else with_line (line_key width vkey ctrl c) cx)"

section \<open>Popups\<close>

text \<open>The keys of a popup: a character when \<open>vkey\<close> is zero, or else a key.\<close>

definition escapes :: "u16 \<Rightarrow> cooked \<Rightarrow> cooked" where
  "escapes vkey c = (if vkey = VK_ESCAPE then popups_done c else c)"

definition popup_copy_to :: "u16 \<Rightarrow> u16 \<Rightarrow> key_context \<Rightarrow> cooked \<Rightarrow> cooked option" where
  "popup_copy_to ch vkey cx c =
     (if vkey \<noteq> 0 then Some (escapes vkey c)
      else map_option popups_done
        (case cx_history cx of None \<Rightarrow> Some c
         | Some h \<Rightarrow>
             let command = last_command h
             in (case position (\<lambda>u. u = ch) (drop (cr_cursor c) command) of None \<Rightarrow> Some c
                 | Some n \<Rightarrow>
                     map_option (\<lambda>text. splice (cr_cursor c) n text c)
                       (slice_of command (cr_cursor c) (cr_cursor c + n)))))"

definition popup_copy_from :: "u16 \<Rightarrow> u16 \<Rightarrow> cooked \<Rightarrow> cooked option" where
  "popup_copy_from ch vkey c =
     (if vkey \<noteq> 0 then Some (escapes vkey c)
      else
        let stop = (case position (\<lambda>u. u = ch) (drop (min (cr_cursor c) (length (cr_buffer c))) (cr_buffer c)) of
                      None \<Rightarrow> length (cr_buffer c) | Some n \<Rightarrow> cr_cursor c + n)
        in map_option popups_done (remove_between (cr_cursor c) stop c))"

definition with_number :: "u16 list \<Rightarrow> cooked \<Rightarrow> cooked" where
  "with_number number c =
     c\<lparr>cr_popups := set_last (cr_popups c) ((last (cr_popups c))\<lparr>pu_number := number\<rparr>)\<rparr>"

text \<open>The number holds digits only, which \<open>parse::<i32>\<close> reads up to its limit.\<close>

definition popup_command_number :: "u16 \<Rightarrow> u16 \<Rightarrow> key_context \<Rightarrow> cooked \<Rightarrow> cooked \<times> key_context" where
  "popup_command_number ch vkey cx c =
     (if vkey \<noteq> 0 then (escapes vkey c, cx)
      else
        let number = pu_number (last (cr_popups c))
        in if ch = CARRIAGE_RETURN then
             (case (parse_uint (2 ^ 31) (from_utf16_lossy number), cx_history cx) of
                (Some n, Some h) \<Rightarrow> (case show_command (retrieve_nth (int n) h) cx c of (c, cx) \<Rightarrow> (popups_done c, cx))
              | _ \<Rightarrow> (popups_done c, cx))
           else if 48 \<le> ch \<and> ch \<le> 57 then
             (if length number < COMMAND_NUMBER_MAX
              then ((with_number (number @ [ch]) c)\<lparr>cr_dirty := True\<rparr>, cx) else (c, cx))
           else if ch = BACKSPACE \<and> number \<noteq> [] then ((with_number (butlast number) c)\<lparr>cr_dirty := True\<rparr>, cx)
           else (c, cx))"

definition select_row :: "int \<Rightarrow> cooked \<Rightarrow> cooked" where
  "select_row i c =
     c\<lparr>cr_popups := set_last (cr_popups c) ((last (cr_popups c))\<lparr>pu_selected := i\<rparr>), cr_dirty := True\<rparr>"

definition saturate_i32 :: "int \<Rightarrow> int" where
  "saturate_i32 i = max (- (2 ^ 31)) (min i (2 ^ 31 - 1))"

definition move_row :: "int \<Rightarrow> u32 \<Rightarrow> history \<Rightarrow> key_context \<Rightarrow> cooked \<Rightarrow> cooked \<times> key_context" where
  "move_row step modifiers h cx c =
     (let i = pu_selected (last (cr_popups c));
          j = wrap_i32 (i + step)
      in (select_row j c, if modifiers AND SHIFT \<noteq> 0 then cx\<lparr>cx_history := Some (swap_commands i j h)\<rparr> else cx))"

definition popup_command_list ::
  "(scalar \<Rightarrow> nat option) \<Rightarrow> u16 \<Rightarrow> u16 \<Rightarrow> u32 \<Rightarrow> key_context \<Rightarrow> cooked \<Rightarrow> (cooked \<times> key_context) option" where
  "popup_command_list width ch vkey modifiers cx c =
     (case cx_history cx of None \<Rightarrow> Some (popups_done c, cx)
      | Some h \<Rightarrow>
          let list = last (cr_popups c); i = pu_selected list
          in if ch = CARRIAGE_RETURN then
               (case show_command (retrieve_nth i h) cx c of (c, cx) \<Rightarrow>
                  with_line (handle_char width CARRIAGE_RETURN modifiers cx (popups_done c)) cx)
             else if vkey = VK_ESCAPE then Some (popups_done c, cx)
             else if vkey = VK_F9 then Some (popup_push CommandNumber None c, cx)
             else if vkey = VK_DELETE then
               let h = snd (history_remove i h)
               in Some (if history_len h \<le> 0 then popups_done c else c\<lparr>cr_dirty := True\<rparr>,
                        cx\<lparr>cx_history := Some h\<rparr>)
             else if vkey \<in> {VK_LEFT, VK_RIGHT} then
               (case show_command (retrieve_nth i h) cx c of (c, cx) \<Rightarrow> Some (popups_done c, cx))
             else if vkey = VK_UP then Some (move_row (-1) modifiers h cx c)
             else if vkey = VK_DOWN then Some (move_row 1 modifiers h cx c)
             else if vkey = VK_HOME then Some (select_row 0 c, cx)
             else if vkey = VK_END then Some (select_row INDEX_MAX c, cx)
             else if vkey = VK_PRIOR then Some (select_row (saturate_i32 (i - pu_height list)) c, cx)
             else if vkey = VK_NEXT then Some (select_row (saturate_i32 (i + pu_height list)) c, cx)
             else Some (c, cx))"

definition handle_popup ::
  "(scalar \<Rightarrow> nat option) \<Rightarrow> u16 \<Rightarrow> u16 \<Rightarrow> u32 \<Rightarrow> key_context \<Rightarrow> cooked \<Rightarrow> (cooked \<times> key_context) option" where
  "handle_popup width ch vkey modifiers cx c =
     (if cr_popups c = [] then Some (c, cx)
      else case pu_kind (last (cr_popups c)) of
        CopyToChar \<Rightarrow> with_line (popup_copy_to ch vkey cx c) cx
      | CopyFromChar \<Rightarrow> with_line (popup_copy_from ch vkey c) cx
      | CommandNumber \<Rightarrow> Some (popup_command_number ch vkey cx c)
      | CommandList \<Rightarrow> popup_command_list width ch vkey modifiers cx c)"

section \<open>Pressing keys\<close>

text \<open>
  How a cooked read feeds its keys to the editor (\<open>read.rs\<close>, the loop of
  \<open>read_cooked\<close>): an open popup takes them, and nothing does once the line is done.
\<close>

datatype key = Char u16 u32 | Vkey u16 u32

fun press_key :: "(scalar \<Rightarrow> nat option) \<Rightarrow> key \<Rightarrow> key_context \<Rightarrow> cooked \<Rightarrow> (cooked \<times> key_context) option" where
  "press_key width (Char ch modifiers) cx c =
     (if cr_popups c \<noteq> [] then handle_popup width ch 0 modifiers cx c
      else with_line (handle_char width ch modifiers cx c) cx)"
| "press_key width (Vkey vkey modifiers) cx c =
     (if cr_popups c \<noteq> [] then handle_popup width 0 vkey modifiers cx c
      else handle_vkey width vkey modifiers cx c)"

fun press_keys :: "(scalar \<Rightarrow> nat option) \<Rightarrow> key list \<Rightarrow> key_context \<Rightarrow> cooked \<Rightarrow> (cooked \<times> key_context) option" where
  "press_keys width [] cx c = Some (c, cx)"
| "press_keys width (k # ks) cx c =
     (if is_done c then Some (c, cx)
      else case press_key width k cx c of None \<Rightarrow> None | Some (c, cx) \<Rightarrow> press_keys width ks cx c)"

section \<open>The invariant of the editor\<close>

definition popups_ok :: "popup list \<Rightarrow> bool" where
  "popups_ok ps \<longleftrightarrow> length ps \<le> 2 \<and>
     (length ps = 2 \<longrightarrow> pu_kind (ps ! 0) = CommandList \<and> pu_kind (ps ! 1) = CommandNumber) \<and>
     (\<forall>p \<in> set ps. length (pu_number p) \<le> COMMAND_NUMBER_MAX \<and> (\<forall>u \<in> set (pu_number p). 48 \<le> u \<and> u \<le> 57))"

definition editor_ok :: "cooked \<Rightarrow> bool" where
  "editor_ok c \<longleftrightarrow> cr_cursor c \<le> length (cr_buffer c) \<and> popups_ok (cr_popups c) \<and>
     (cr_state c = DoneWithWakeupMask \<longleftrightarrow> cr_wakeup c \<noteq> None) \<and> (is_done c \<longrightarrow> cr_popups c = [])"

definition context_ok :: "key_context \<Rightarrow> bool" where
  "context_ok cx \<longleftrightarrow> (case cx_history cx of None \<Rightarrow> True | Some h \<Rightarrow> history_ok h)"

text \<open>The parts of the editor that only some operations change.\<close>

named_theorems line_simps

lemma splice_simps [line_simps]:
  "cr_popups (splice a n t c) = cr_popups c" "cr_state (splice a n t c) = cr_state c"
  "cr_wakeup (splice a n t c) = cr_wakeup c" "cr_wakeup_mask (splice a n t c) = cr_wakeup_mask c"
  "cr_insert (splice a n t c) = cr_insert c" "cr_control (splice a n t c) = cr_control c"
  by (simp_all add: splice_def Let_def)

lemma set_cursor_simps [line_simps]:
  "cr_popups (set_cursor p c) = cr_popups c" "cr_state (set_cursor p c) = cr_state c"
  "cr_wakeup (set_cursor p c) = cr_wakeup c" "cr_buffer (set_cursor p c) = cr_buffer c"
  "cr_cursor (set_cursor p c) = min p (length (cr_buffer c))" "cr_wakeup_mask (set_cursor p c) = cr_wakeup_mask c"
  "cr_insert (set_cursor p c) = cr_insert c"
  by (simp_all add: set_cursor_def)

lemma replace_all_simps [line_simps]:
  "cr_popups (replace_all t c) = cr_popups c" "cr_state (replace_all t c) = cr_state c"
  "cr_wakeup (replace_all t c) = cr_wakeup c" "cr_buffer (replace_all t c) = t"
  "cr_cursor (replace_all t c) = length t"
  by (simp_all add: replace_all_def)

lemma splice_cursor [line_simps]:
  "cr_cursor c \<le> length (cr_buffer c) \<Longrightarrow> cr_cursor (splice a n t c) \<le> length (cr_buffer (splice a n t c))"
  by (auto simp: splice_def Let_def)

text \<open>An operation on the line alone keeps the invariant when it keeps the cursor in the line.\<close>

definition line_op :: "cooked \<Rightarrow> cooked \<Rightarrow> bool" where
  "line_op c c' \<longleftrightarrow> cr_popups c' = cr_popups c \<and> cr_state c' = cr_state c \<and> cr_wakeup c' = cr_wakeup c \<and>
     cr_cursor c' \<le> length (cr_buffer c')"

lemma line_op_ok: "line_op c c' \<Longrightarrow> editor_ok c \<Longrightarrow> editor_ok c'"
  by (auto simp: line_op_def editor_ok_def is_done_def)

lemma line_op_splice: "cr_cursor c \<le> length (cr_buffer c) \<Longrightarrow> line_op c (splice a n t c)"
  by (simp add: line_op_def line_simps)

lemma line_op_set_cursor: "line_op c (set_cursor p c)"
  by (simp add: line_op_def line_simps)

lemma line_op_replace_all: "line_op c (replace_all t c)"
  by (simp add: line_op_def line_simps)

lemma line_op_trans: "line_op c c' \<Longrightarrow> line_op c' c'' \<Longrightarrow> line_op c c''"
  by (simp add: line_op_def)

lemma line_op_refl: "cr_cursor c \<le> length (cr_buffer c) \<Longrightarrow> line_op c c"
  by (simp add: line_op_def)

lemmas line_ops = line_op_splice line_op_set_cursor line_op_replace_all line_op_refl

lemma line_op_splice_move:
  "cr_cursor c \<le> length (cr_buffer c) \<Longrightarrow> line_op c (set_cursor p (splice a n t c))"
  by (rule line_op_trans [OF line_op_splice line_op_set_cursor])

lemma remove_between_line:
  "a \<le> b \<Longrightarrow> cr_cursor c \<le> length (cr_buffer c) \<Longrightarrow> \<exists>c'. remove_between a b c = Some c' \<and> line_op c c'"
  by (simp add: remove_between_def minus_usize_def line_op_splice)

lemma line_key_line:
  assumes "cr_cursor c \<le> length (cr_buffer c)"
  shows "\<exists>c'. line_key width vkey ctrl c = Some c' \<and> line_op c c'"
proof -
  obtain q where q: "word_prev (cr_buffer c) (cr_cursor c) = Some q" by (rule word_prev_bounds [OF assms])
  have "cr_cursor c \<le> grapheme_next width (cr_buffer c) (cr_cursor c)" by (rule grapheme_next_bounds(3) [OF assms])
  from remove_between_line [OF this assms] obtain d
    where d: "remove_between (cr_cursor c) (grapheme_next width (cr_buffer c) (cr_cursor c)) c = Some d" "line_op c d"
    by blast
  have "line_op c (c\<lparr>cr_insert := i\<rparr>)" for i using assms by (simp add: line_op_def)
  then show ?thesis
    using assms q d by (auto simp: line_key_def line_ops line_op_splice_move)
qed

lemma handle_char_ok:
  assumes "editor_ok c" "\<not> is_done c" "cr_popups c = []"
  shows "\<exists>c'. handle_char width ch modifiers cx c = Some c' \<and> editor_ok c'"
proof -
  have cur: "cr_cursor c \<le> length (cr_buffer c)" using assms(1) by (simp add: editor_ok_def)
  obtain q where q: "word_prev (cr_buffer c) (cr_cursor c) = Some q" "q \<le> cr_cursor c"
    by (rule word_prev_bounds [OF cur])
  have w: "cr_wakeup c = None" using assms(1,2) by (auto simp: editor_ok_def is_done_def)
  have p: "p \<le> cr_cursor c \<Longrightarrow> \<exists>c'. remove_between p (cr_cursor c) c = Some c' \<and> editor_ok c'" for p
    using remove_between_line [OF _ cur, of p "cr_cursor c"] line_op_ok [OF _ assms(1)] by blast
  have g: "grapheme_prev width (cr_buffer c) (cr_cursor c) \<le> cr_cursor c" by (rule grapheme_prev_bounds)
  have n: "cr_cursor c \<le> grapheme_next width (cr_buffer c) (cr_cursor c)" by (rule grapheme_next_bounds(3) [OF cur])
  have s: "editor_ok (splice a k t c)" for a k t by (rule line_op_ok [OF line_op_splice [OF cur] assms(1)])
  have wake: "editor_ok ((splice (cr_cursor c) NPOS [] c)
      \<lparr>cr_dirty := True, cr_wakeup := Some ch, cr_control := modifiers, cr_state := DoneWithWakeupMask\<rparr>)"
    using assms(3) splice_cursor [OF cur] by (simp add: editor_ok_def is_done_def line_simps popups_ok_def)
  have cr: "editor_ok ((set_cursor NPOS c)\<lparr>cr_state := DoneWithCarriageReturn\<rparr>)"
    using assms(3) w by (simp add: editor_ok_def is_done_def line_simps popups_ok_def)
  show ?thesis
    using q p [OF q(2)] p [OF g] n s wake cr by (auto simp: handle_char_def minus_usize_def)
qed

lemma copy_next_line:
  assumes "cr_cursor c \<le> length (cr_buffer c)" "ci \<le> length command"
  shows "\<exists>c'. copy_next width command bi ci c = Some c' \<and> line_op c c'"
  using assms
proof (induction width command bi ci c rule: copy_next.induct)
  case (1 width command bi ci c)
  show ?case
  proof (cases "ci < length command")
    case False
    then show ?thesis using 1(2) by (subst copy_next.simps) (simp add: line_op_refl)
  next
    case True
    let ?stop = "grapheme_next width command ci"
    have "ci \<le> ?stop" "?stop \<le> length command"
      using True grapheme_next_bounds(1) [of width command ci] grapheme_next_bounds(3) [of ci command width] by auto
    then show ?thesis using 1 True
      by (subst copy_next.simps) (auto simp: Let_def slice_of_def line_op_splice)
  qed
qed

text \<open>What a key leaves: a sound editor and a sound history; only a search may panic.\<close>

definition sound_result :: "(cooked \<times> key_context) option \<Rightarrow> bool" where
  "sound_result r \<longleftrightarrow> (case r of None \<Rightarrow> False | Some (c, cx) \<Rightarrow> editor_ok c \<and> context_ok cx)"

lemma sound_with_line:
  "\<exists>c'. r = Some c' \<and> editor_ok c' \<Longrightarrow> context_ok cx \<Longrightarrow> sound_result (with_line r cx)"
  by (auto simp: sound_result_def with_line_def)

lemma sound_line_op: "editor_ok c \<Longrightarrow> \<exists>c'. r = Some c' \<and> line_op c c' \<Longrightarrow> context_ok cx \<Longrightarrow> sound_result (with_line r cx)"
  by (auto intro!: sound_with_line line_op_ok)

lemma context_history: "context_ok cx \<Longrightarrow> cx_history cx = Some h \<Longrightarrow> history_ok h"
  by (simp add: context_ok_def)

lemma show_command_ok:
  "editor_ok c \<Longrightarrow> history_ok (snd r) \<Longrightarrow> editor_ok (fst (show_command r cx c)) \<and> context_ok (snd (show_command r cx c)) \<and>
     cr_popups (fst (show_command r cx c)) = cr_popups c \<and> cr_state (fst (show_command r cx c)) = cr_state c"
  using line_op_ok [OF line_op_replace_all, of c "fst r"]
  by (simp add: show_command_def context_ok_def line_simps)

lemma retrieve_unless_ok:
  assumes "editor_ok c" "context_ok cx" "\<And>h. history_ok h \<Longrightarrow> history_ok (snd (f h))"
  shows "sound_result (Some (retrieve_unless P f cx c))"
proof (cases "cx_history cx")
  case (Some h)
  have "history_ok (snd (f h))" using assms(3) context_history [OF assms(2) Some] by blast
  from show_command_ok [OF assms(1) this, of cx] show ?thesis
    using Some assms(1,2) by (cases "show_command (f h) cx c") (simp add: retrieve_unless_def sound_result_def)
qed (use assms in \<open>simp add: retrieve_unless_def sound_result_def\<close>)

lemma popup_push_ok: "editor_ok c \<Longrightarrow> cr_popups c = [] \<Longrightarrow> \<not> is_done c \<Longrightarrow> editor_ok (popup_push k i c)"
  by (simp add: editor_ok_def popup_push_def popups_ok_def is_done_def)

lemma popups_done_ok: "editor_ok c \<Longrightarrow> editor_ok (popups_done c)"
  by (simp add: editor_ok_def popups_done_def popups_ok_def is_done_def)

lemma popups_done_simps [simp]: "cr_popups (popups_done c) = []" "is_done (popups_done c) = is_done c"
  "cr_state (popups_done c) = cr_state c"
  by (simp_all add: popups_done_def is_done_def)

lemma search_key_ok:
  assumes "editor_ok c" "context_ok cx"
  shows "case search_key cx c of None \<Rightarrow> \<exists>h. cx_history cx = Some h \<and> \<not> searchable h | Some r \<Rightarrow> sound_result (Some r)"
proof (cases "cx_history cx")
  case None
  then show ?thesis using assms by (simp add: search_key_def sound_result_def)
next
  case (Some h)
  have ok: "history_ok h" using context_history [OF assms(2) Some] .
  have p: "slice_of (cr_buffer c) 0 (cr_cursor c) = Some (take (cr_cursor c) (cr_buffer c))"
    using assms(1) by (simp add: slice_of_def editor_ok_def)
  let ?f = "history_find (take (cr_cursor c) (cr_buffer c)) (ch_last h) False False h"
  show ?thesis
  proof (cases ?f)
    case None
    then show ?thesis using Some p find_panics_unsearchable [OF ok] by (auto simp: search_key_def)
  next
    case f: (Some r)
    obtain i h1 where r: "r = (i, h1)" by (cases r)
    have "h1 = h \<or> h1 = h\<lparr>ch_reset := False\<rparr>" using f unfolding r by (rule history_find_state)
    then have h1: "history_ok h1" using ok by (auto simp: history_ok_def)
    show ?thesis
    proof (cases i)
      case None
      then show ?thesis using Some p f r h1 assms(1) by (simp add: search_key_def sound_result_def context_ok_def)
    next
      case (Some j)
      let ?s = "show_command (retrieve_nth j h1) cx c"
      have "editor_ok (fst ?s) \<and> context_ok (snd ?s)"
        using show_command_ok [OF assms(1), of "retrieve_nth j h1"] retrieve_nth_ok [of h1] h1 by blast
      then show ?thesis using \<open>cx_history cx = Some h\<close> p f r Some line_op_ok [OF line_op_set_cursor]
        by (auto simp: search_key_def sound_result_def split: prod.splits)
    qed
  qed
qed

lemma rest_of_last_line:
  "cr_cursor c \<le> length (cr_buffer c) \<Longrightarrow> \<exists>c'. rest_of_last cx c = Some c' \<and> line_op c c'"
  by (auto simp: rest_of_last_def Let_def slice_of_def line_ops split: option.split)

lemma move_right_line:
  "cr_cursor c \<le> length (cr_buffer c) \<Longrightarrow> \<exists>c'. move_right_key width vkey ctrl cx c = Some c' \<and> line_op c c'"
  using copy_next_line [of c 0 _ width 0]
  by (auto simp: move_right_key_def line_ops split: option.split)

lemma handle_vkey_ok:
  assumes "editor_ok c" "context_ok cx" "\<not> is_done c" "cr_popups c = []"
  shows "case handle_vkey width vkey modifiers cx c of
      None \<Rightarrow> vkey = VK_F8 \<and> (\<exists>h. cx_history cx = Some h \<and> \<not> searchable h) | Some r \<Rightarrow> sound_result (Some r)"
proof (cases "vkey = VK_F8")
  case True
  then show ?thesis using search_key_ok [OF assms(1,2)]
    by (cases "search_key cx c") (simp_all add: handle_vkey_def vk_defs)
next
  case False
  have cur: "cr_cursor c \<le> length (cr_buffer c)" using assms(1) by (simp add: editor_ok_def)
  have same: "sound_result (Some (c, cx))" using assms(1,2) by (simp add: sound_result_def)
  have push: "sound_result (Some (popup_push k i c, cx))" for k i
    using popup_push_ok [OF assms(1,4,3)] assms(2) by (simp add: sound_result_def)
  have clear: "cx_history cx = Some h \<Longrightarrow> sound_result (Some (c, cx\<lparr>cx_history := Some (empty_history h)\<rparr>))" for h
    using assms(1) empty_ok [OF context_history [OF assms(2)]] by (simp add: sound_result_def context_ok_def)
  have flag: "sound_result (Some (c, cx\<lparr>cx_clear_cmd := True\<rparr>))"
    using assms(1,2) by (simp add: sound_result_def context_ok_def)
  note keys = sound_line_op [OF assms(1) move_right_line [OF cur] assms(2)]
    sound_line_op [OF assms(1) rest_of_last_line [OF cur] assms(2)]
    sound_line_op [OF assms(1) line_key_line [OF cur] assms(2)]
    sound_with_line [OF handle_char_ok [OF assms(1,3,4)] assms(2)]
  note retr = retrieve_unless_ok [OF assms(1,2) retrieve_ok] retrieve_unless_ok [OF assms(1,2) retrieve_nth_ok [OF disjI1]]
  have "sound_result (handle_vkey width vkey modifiers cx c)"
    unfolding handle_vkey_def Let_def
    using False same push clear flag keys retr by (auto split: option.split)
  then show ?thesis by (cases "handle_vkey width vkey modifiers cx c") (auto simp: sound_result_def)
qed

lemma sound_show_done:
  assumes "editor_ok c" "history_ok (snd r)"
  shows "sound_result (case show_command r cx c of (c, cx) \<Rightarrow> Some (popups_done c, cx))"
  using show_command_ok [OF assms, of cx] popups_done_ok
  by (cases "show_command r cx c") (simp add: sound_result_def)

lemma change_popup_ok:
  assumes "editor_ok c" "cr_popups c \<noteq> []" "pu_kind p = pu_kind (last (cr_popups c))"
    and "length (pu_number p) \<le> COMMAND_NUMBER_MAX" "\<forall>u \<in> set (pu_number p). 48 \<le> u \<and> u \<le> 57"
  shows "editor_ok (c\<lparr>cr_popups := set_last (cr_popups c) p, cr_dirty := True\<rparr>)"
proof -
  obtain a b where "cr_popups c = [a] \<or> cr_popups c = [a, b]"
    using assms(1,2) by (cases "cr_popups c"; cases "tl (cr_popups c)") (auto simp: editor_ok_def popups_ok_def)
  then show ?thesis using assms by (auto simp: editor_ok_def popups_ok_def set_last_def is_done_def)
qed

lemma last_popup_number:
  "editor_ok c \<Longrightarrow> cr_popups c \<noteq> [] \<Longrightarrow>
   length (pu_number (last (cr_popups c))) \<le> COMMAND_NUMBER_MAX \<and>
   (\<forall>u \<in> set (pu_number (last (cr_popups c))). 48 \<le> u \<and> u \<le> 57)"
proof -
  assume "editor_ok c" "cr_popups c \<noteq> []"
  then have "\<forall>p \<in> set (cr_popups c). length (pu_number p) \<le> COMMAND_NUMBER_MAX \<and> (\<forall>u \<in> set (pu_number p). 48 \<le> u \<and> u \<le> 57)"
    "last (cr_popups c) \<in> set (cr_popups c)"
    by (simp_all add: editor_ok_def popups_ok_def)
  then show ?thesis by blast
qed

lemma popup_number_ok:
  assumes "editor_ok c" "context_ok cx" "cr_popups c \<noteq> []"
  shows "sound_result (Some (popup_command_number ch vkey cx c))"
proof -
  let ?n = "pu_number (last (cr_popups c))"
  note l = last_popup_number [OF assms(1,3)]
  have e: "sound_result (Some (escapes vkey c, cx))" "sound_result (Some (popups_done c, cx))" "sound_result (Some (c, cx))"
    using assms(1,2) popups_done_ok by (simp_all add: sound_result_def escapes_def)
  have n: "sound_result (Some ((with_number number c)\<lparr>cr_dirty := True\<rparr>, cx))"
    if "length number \<le> COMMAND_NUMBER_MAX" "\<forall>u \<in> set number. 48 \<le> u \<and> u \<le> 57" for number
    using change_popup_ok [OF assms(1,3), of "(last (cr_popups c))\<lparr>pu_number := number\<rparr>"] that assms(2)
    by (simp add: sound_result_def with_number_def)
  have r: "sound_result (Some (case show_command (retrieve_nth i h) cx c of (c, cx) \<Rightarrow> (popups_done c, cx)))"
    if "cx_history cx = Some h" for i h
    using sound_show_done [OF assms(1) retrieve_nth_ok [OF disjI1 [OF context_history [OF assms(2) that]]], of i cx]
    by (simp add: case_prod_unfold)
  have b: "length (butlast ?n) \<le> COMMAND_NUMBER_MAX" "\<forall>u \<in> set (butlast ?n). 48 \<le> u \<and> u \<le> 57"
    using l in_set_butlastD [of _ ?n] by auto
  show ?thesis
    unfolding popup_command_number_def Let_def
    using e r n [OF b] n [of "?n @ [ch]"] l by (auto split: option.split)
qed

lemma popup_list_ok:
  assumes "editor_ok c" "context_ok cx" "cr_popups c \<noteq> []" "\<not> is_done c"
    and "pu_kind (last (cr_popups c)) = CommandList"
  shows "sound_result (popup_command_list width ch vkey modifiers cx c)"
proof (cases "cx_history cx")
  case None
  then show ?thesis using assms(1,2) popups_done_ok by (simp add: popup_command_list_def sound_result_def)
next
  case (Some h)
  have h: "history_ok h" using context_history [OF assms(2) Some] .
  let ?l = "last (cr_popups c)"
  have ctx: "context_ok (cx\<lparr>cx_history := Some h'\<rparr>)" if "history_ok h'" for h' using that by (simp add: context_ok_def)
  have d: "sound_result (Some (popups_done c, cx))" "sound_result (Some (c, cx))"
    using assms(1,2) popups_done_ok by (simp_all add: sound_result_def)
  have sel: "editor_ok (select_row i c)" for i
    using change_popup_ok [OF assms(1,3), of "?l\<lparr>pu_selected := i\<rparr>"] last_popup_number [OF assms(1,3)]
    by (simp add: select_row_def)
  have rows: "sound_result (Some (select_row i c, cx))" "sound_result (Some (move_row s modifiers h cx c))" for i s
    using sel assms(2) ctx [OF swap_ok [OF h]] by (simp_all add: sound_result_def move_row_def Let_def)
  have one: "cr_popups c = [?l]"
  proof -
    have "length (cr_popups c) \<le> 2" "length (cr_popups c) = 2 \<Longrightarrow> pu_kind (cr_popups c ! 1) = CommandNumber"
      using assms(1) by (auto simp: editor_ok_def popups_ok_def)
    then show ?thesis using assms(3,5) by (cases "cr_popups c"; cases "tl (cr_popups c)") auto
  qed
  then have "popups_ok (cr_popups c @ [\<lparr>pu_kind = CommandNumber, pu_number = [], pu_height = 10, pu_top = -1,
                                    pu_selected = 0\<rparr>])"
    using last_popup_number [OF assms(1,3)] assms(5) by (cases "cr_popups c") (auto simp: popups_ok_def)
  then have push: "sound_result (Some (popup_push CommandNumber None c, cx))"
    using assms(1,2,4) by (simp add: sound_result_def popup_push_def editor_ok_def is_done_def)
  have ret: "history_ok (snd (retrieve_nth i h))" for i using retrieve_nth_ok h by blast
  have del: "sound_result (Some (if history_len h' \<le> 0 then popups_done c else c\<lparr>cr_dirty := True\<rparr>,
                        cx\<lparr>cx_history := Some h'\<rparr>))" if "h' = snd (history_remove i h)" for h' i
    using ctx [OF remove_ok [OF h]] assms(1) popups_done_ok that
    by (simp add: sound_result_def editor_ok_def is_done_def)
  have enter: "sound_result (case show_command (retrieve_nth i h) cx c of (c, cx) \<Rightarrow>
                  with_line (handle_char width CARRIAGE_RETURN modifiers cx (popups_done c)) cx)" for i
  proof -
    obtain c1 cx1 where s: "show_command (retrieve_nth i h) cx c = (c1, cx1)" by (cases "show_command (retrieve_nth i h) cx c")
    have "editor_ok (popups_done c1)" "context_ok cx1" "\<not> is_done (popups_done c1)"
      using show_command_ok [OF assms(1) ret, where cx = cx and i1 = i] s assms(4) popups_done_ok by (simp_all add: is_done_def)
    then show ?thesis using s handle_char_ok by (auto intro!: sound_with_line)
  qed
  have left: "sound_result (case show_command (retrieve_nth i h) cx c of (c, cx) \<Rightarrow> Some (popups_done c, cx))" for i
    by (rule sound_show_done [OF assms(1) ret])
  show ?thesis
    unfolding popup_command_list_def Some option.case Let_def
    using d rows push enter left del [OF refl] by simp
qed

lemma handle_popup_ok:
  assumes "editor_ok c" "context_ok cx" "cr_popups c \<noteq> []" "\<not> is_done c"
  shows "sound_result (handle_popup width ch vkey modifiers cx c)"
proof -
  have cur: "cr_cursor c \<le> length (cr_buffer c)" using assms(1) by (simp add: editor_ok_def)
  have e: "editor_ok (escapes vkey c)" "editor_ok (popups_done c)"
    using assms(1) popups_done_ok by (simp_all add: escapes_def)
  have "\<exists>c'. popup_copy_to ch vkey cx c = Some c' \<and> editor_ok c'"
  proof (cases "cx_history cx")
    case (Some h)
    have "slice_of (last_command h) (cr_cursor c) (cr_cursor c + n) \<noteq> None"
      if "position (\<lambda>u. u = ch) (drop (cr_cursor c) (last_command h)) = Some n" for n
      using position_SomeD [OF that] by (auto simp: slice_of_def)
    then show ?thesis using e Some popups_done_ok line_op_ok [OF line_op_splice [OF cur] assms(1)]
      by (auto simp: popup_copy_to_def Let_def split: option.split)
  qed (use e in \<open>simp add: popup_copy_to_def\<close>)
  moreover have "\<exists>c'. popup_copy_from ch vkey c = Some c' \<and> editor_ok c'"
  proof -
    define stop where "stop = (case position (\<lambda>u. u = ch) (drop (min (cr_cursor c) (length (cr_buffer c))) (cr_buffer c)) of
                      None \<Rightarrow> length (cr_buffer c) | Some n \<Rightarrow> cr_cursor c + n)"
    have "cr_cursor c \<le> stop" using cur by (auto simp: stop_def split: option.split)
    then obtain c' where "remove_between (cr_cursor c) stop c = Some c'" "line_op c c'"
      using remove_between_line [OF _ cur] by blast
    then show ?thesis using e popups_done_ok line_op_ok [OF _ assms(1)]
      by (auto simp: popup_copy_from_def Let_def stop_def [symmetric])
  qed
  ultimately show ?thesis
    using popup_number_ok [OF assms(1-3)] popup_list_ok [OF assms] assms(2,3)
    by (auto simp: handle_popup_def intro!: sound_with_line split: popup_kind.split)
qed

lemma press_key_ok:
  assumes "editor_ok c" "context_ok cx" "\<not> is_done c"
  shows "case press_key width k cx c of
      None \<Rightarrow> (\<exists>m h. k = Vkey VK_F8 m \<and> cx_history cx = Some h \<and> \<not> searchable h) | Some r \<Rightarrow> sound_result (Some r)"
proof (cases "cr_popups c = []")
  case True
  show ?thesis
  proof (cases k)
    case (Char ch m)
    have "sound_result (press_key width k cx c)"
      using True sound_with_line [OF handle_char_ok [OF assms(1,3) True] assms(2)] by (simp add: Char)
    then show ?thesis by (cases "press_key width k cx c") (simp_all add: sound_result_def)
  next
    case (Vkey v m)
    then show ?thesis using True handle_vkey_ok [OF assms True, where width = width and vkey = v and modifiers = m] by (auto split: option.splits)
  qed
next
  case False
  then have "sound_result (press_key width k cx c)"
    using handle_popup_ok [OF assms(1,2) False assms(3)] by (cases k) simp_all
  then show ?thesis by (cases "press_key width k cx c") (simp_all add: sound_result_def)
qed

lemma press_keys_ok:
  "editor_ok c \<Longrightarrow> context_ok cx \<Longrightarrow> press_keys width ks cx c = Some (c', cx') \<Longrightarrow> editor_ok c' \<and> context_ok cx'"
proof (induction width ks cx c rule: press_keys.induct)
  case (2 width k ks cx c)
  then show ?case using press_key_ok [OF 2(2,3), where width = width and k = k]
    by (auto simp: sound_result_def split: if_splits option.splits prod.splits)
qed simp

text \<open>The position of the history, as long as no row of the command list is deleted.\<close>

definition context_positioned :: "key_context \<Rightarrow> bool" where
  "context_positioned cx \<longleftrightarrow> (case cx_history cx of None \<Rightarrow> True | Some h \<Rightarrow> positioned h)"

lemma context_positioned_clear [simp]: "context_positioned (cx\<lparr>cx_clear_cmd := b\<rparr>) = context_positioned cx"
  by (simp add: context_positioned_def)

fun presses :: "u16 \<Rightarrow> key \<Rightarrow> bool" where
  "presses v (Vkey v' _) = (v = v')"
| "presses v (Char _ _) = False"

lemma with_line_context: "with_line r cx = Some (c', cx') \<Longrightarrow> cx' = cx"
  by (auto simp: with_line_def)

lemma retrieve_unless_positioned:
  "context_positioned cx \<Longrightarrow> \<forall>h. positioned (snd (f h)) \<Longrightarrow> retrieve_unless P f cx c = (c', cx') \<Longrightarrow> context_positioned cx'"
  by (auto simp: retrieve_unless_def show_command_def context_positioned_def split: option.splits if_splits)

lemma search_key_positioned:
  assumes "context_ok cx" "context_positioned cx" "search_key cx c = Some (c', cx')"
  shows "context_positioned cx'"
proof (cases "cx_history cx")
  case None
  then show ?thesis using assms by (simp add: search_key_def)
next
  case (Some h)
  obtain p where p: "slice_of (cr_buffer c) 0 (cr_cursor c) = Some p" using assms(3) Some
    by (cases "slice_of (cr_buffer c) 0 (cr_cursor c)") (auto simp: search_key_def)
  obtain i h1 where f: "history_find p (ch_last h) False False h = Some (i, h1)" using assms(3) Some p
    by (cases "history_find p (ch_last h) False False h") (auto simp: search_key_def)
  have "positioned h1" using history_find_state [OF f] assms(2) Some by (auto simp: positioned_def context_positioned_def)
  then show ?thesis using assms(3) Some p f
    by (cases i) (auto simp: search_key_def show_command_def context_positioned_def)
qed

lemma press_key_positioned:
  assumes "context_ok cx" "context_positioned cx" "\<not> presses VK_DELETE k"
    and "press_key width k cx c = Some (c', cx')"
  shows "context_positioned cx'"
proof -
  have pos: "context_positioned (cx\<lparr>cx_history := Some h\<rparr>)" if "positioned h" for h
    using that by (simp add: context_positioned_def)
  have number: "popup_command_number ch v cx c = (c', cx') \<Longrightarrow> context_positioned cx'" for ch v
    using assms(2) pos by (auto simp: popup_command_number_def Let_def show_command_def split: if_splits option.splits)
  have popup: "handle_popup width ch v m cx c = Some (c', cx') \<Longrightarrow> context_positioned cx'" if "v \<noteq> VK_DELETE" for ch v m
  proof -
    have list: "popup_command_list width ch v m cx c = Some (c', cx') \<Longrightarrow> context_positioned cx'"
      using that assms(2) pos positioned_ops(3)
      by (auto simp: popup_command_list_def Let_def show_command_def move_row_def context_positioned_def
          dest!: with_line_context split: if_splits option.splits)
    then show "handle_popup width ch v m cx c = Some (c', cx') \<Longrightarrow> context_positioned cx'"
      using assms(2) number by (auto simp: handle_popup_def dest!: with_line_context split: if_splits popup_kind.splits)
  qed
  have retr: "retrieve_unless P (retrieve d) cx c = (c', cx') \<Longrightarrow> context_positioned cx'"
    "retrieve_unless P (retrieve_nth i) cx c = (c', cx') \<Longrightarrow> context_positioned cx'" for P d i
    using retrieve_unless_positioned [OF assms(2)] positioned_ops(1) retrieve_nth_positioned by blast+
  have vkey: "handle_vkey width v m cx c = Some (c', cx') \<Longrightarrow> context_positioned cx'" for v m
    using assms(2) pos positioned_ops(1,2) search_key_positioned [OF assms(1,2), of c c' cx'] retr
    by (auto simp: handle_vkey_def Let_def dest!: with_line_context split: if_splits option.splits)
  show ?thesis
  proof (cases k)
    case (Char ch m)
    then show ?thesis using assms popup [of 0 ch m] with_line_context by (auto simp: VK_DELETE_def split: if_splits)
  next
    case (Vkey v m)
    then show ?thesis using assms popup [of v 0 m] vkey by (auto split: if_splits)
  qed
qed

lemma press_keys_total:
  "editor_ok c \<Longrightarrow> context_ok cx \<Longrightarrow>
   (\<forall>k \<in> set ks. \<not> presses VK_F8 k) \<or> context_positioned cx \<and> (\<forall>k \<in> set ks. \<not> presses VK_DELETE k) \<Longrightarrow>
   press_keys width ks cx c \<noteq> None"
proof (induction width ks cx c rule: press_keys.induct)
  case (2 width k ks cx c)
  show ?case
  proof (cases "is_done c")
    case False
    have ok: "case press_key width k cx c of
      None \<Rightarrow> (\<exists>m h. k = Vkey VK_F8 m \<and> cx_history cx = Some h \<and> \<not> searchable h) | Some r \<Rightarrow> sound_result (Some r)"
      by (rule press_key_ok [OF 2(2,3) False])
    have "press_key width k cx c \<noteq> None"
    proof
      assume "press_key width k cx c = None"
      then obtain m h where "k = Vkey VK_F8 m" "cx_history cx = Some h" "\<not> searchable h" using ok by auto
      then show False using 2(4) positioned_searchable [of h] by (auto simp: context_positioned_def)
    qed
    then obtain c1 cx1 where r: "press_key width k cx c = Some (c1, cx1)" by auto
    then have "editor_ok c1" "context_ok cx1" using ok by (simp_all add: sound_result_def)
    moreover have "(\<forall>k \<in> set ks. \<not> presses VK_F8 k) \<or> context_positioned cx1 \<and> (\<forall>k \<in> set ks. \<not> presses VK_DELETE k)"
      using 2(4) press_key_positioned [OF 2(3) _ _ r] by auto
    ultimately show ?thesis using 2(1) [OF False r refl] False r by simp
  qed simp
qed simp

lemma cooked_empty_ok [simp]: "editor_ok (cooked_empty m i)"
  by (simp add: cooked_empty_def editor_ok_def popups_ok_def is_done_def)

lemma cooked_new_ok:
  assumes "cooked_new width initial m i screen cursor = Some c"
  shows "editor_ok c" "\<not> is_done c" "cr_popups c = []" "cr_buffer c = initial \<or> cr_buffer c = []"
proof -
  have "editor_ok c \<and> \<not> is_done c \<and> cr_popups c = [] \<and> (cr_buffer c = initial \<or> cr_buffer c = [])"
    using assms cooked_empty_ok [of m i]
    by (auto simp: cooked_new_def place_initial_def Let_def editor_ok_def is_done_def cooked_empty_def
        split: if_splits option.splits prod.splits)
  then show "editor_ok c" "\<not> is_done c" "cr_popups c = []" "cr_buffer c = initial \<or> cr_buffer c = []" by auto
qed

text \<open>In two columns or more, placing the initial text ends.\<close>

lemma place_attempts_ends:
  "2 \<le> columns \<Longrightarrow> place_attempts width columns initial guess x attempts best \<noteq> None"
proof (induction attempts arbitrary: best)
  case (Cons a attempts)
  let ?s = "guess + (if a mod 2 = 0 then - (a div 2) else a div 2 + 1)"
  show ?case
  proof (cases "?s < 0 \<or> columns \<le> ?s")
    case False
    then obtain n c where "measure_rows width columns initial 0 0 ?s = Some (n, c)"
      using measure_rows_ends [OF Cons.prems, of ?s 0 initial width 0] by auto
    then show ?thesis using False Cons by (cases best) (simp add: Let_def)
  qed (use Cons in \<open>simp add: Let_def\<close>)
qed simp

lemma cooked_new_ends: "2 \<le> fst screen \<Longrightarrow> cooked_new width initial m i screen cursor \<noteq> None"
proof -
  assume w: "2 \<le> fst screen"
  let ?p = "place_attempts width (fst screen) initial
    ((fst cursor - int (length initial) mod fst screen + fst screen) mod fst screen) (fst cursor)
    [0..2 * fst screen] (2 ^ 31 - 1, 0, 0)"
  obtain r where r: "?p = Some r" using place_attempts_ends [OF w] by blast
  show ?thesis
    unfolding cooked_new_def place_initial_def Let_def r option.case by (cases r) simp
qed

section \<open>A whole reading session\<close>

text \<open>
  C32. While the line is edited, from the first key of a read to the last, whatever is typed, the
  cursor stays in the line, at most two popups are open, a wakeup character is held exactly by a read
  that ended on one, and the history stays well-formed; the editor panics on no key but F8, and
  not on F8 either when the history was positioned and no row of the command list is
  deleted.  Entering the finished line into the history comes after the editor, and numbers wrap as in
  the release build, which has no overflow checks.
\<close>

theorem line_editor_stays_ok:
  assumes "cooked_new width initial wake ins screen cursor = Some c" "context_ok cx"
  shows "case press_keys width ks cx c of
      None \<Rightarrow> (\<exists>k \<in> set ks. presses VK_F8 k) \<and>
        (\<not> context_positioned cx \<or> (\<exists>k \<in> set ks. presses VK_DELETE k))
    | Some (c', cx') \<Rightarrow> editor_ok c' \<and> context_ok cx'"
proof (cases "press_keys width ks cx c")
  case None
  then have "\<not> ((\<forall>k \<in> set ks. \<not> presses VK_F8 k) \<or> context_positioned cx \<and> (\<forall>k \<in> set ks. \<not> presses VK_DELETE k))"
    using press_keys_total [OF cooked_new_ok(1) [OF assms(1)] assms(2), where width = width and ks = ks] by blast
  then show ?thesis using None by auto
next
  case (Some r)
  then show ?thesis
    using press_keys_ok [OF cooked_new_ok(1) [OF assms(1)] assms(2), where width = width and ks = ks] by (cases r) simp
qed

theorem line_editor_stays_ok_witness:
  "\<exists>c cx. press_keys (\<lambda>_. Some 1) [Char 97 0, Char 98 0, Vkey VK_LEFT 0, Vkey VK_F4 0, Vkey VK_ESCAPE 0]
       \<lparr>cx_history = Some (new_history 5 [] 7), cx_processed = True, cx_clear_cmd = False\<rparr>
       (cooked_empty 0 True) = Some (c, cx) \<and> editor_ok c \<and> context_ok cx"
proof -
  let ?cx = "\<lparr>cx_history = Some (new_history 5 [] 7), cx_processed = True, cx_clear_cmd = False\<rparr> :: key_context"
  let ?ks = "[Char 97 0, Char 98 0, Vkey VK_LEFT 0, Vkey VK_F4 0, Vkey VK_ESCAPE 0]"
  have "\<not> (\<exists>k \<in> set ?ks. presses VK_F8 k)" by (simp add: vk_defs)
  moreover have "cooked_new (\<lambda>_. Some 1) [] 0 True (80, 25) (0, 0) = Some (cooked_empty 0 True)"
    by (simp add: cooked_new_def)
  moreover have "context_ok ?cx" by (simp add: context_ok_def)
  ultimately have "\<exists>c cx. press_keys (\<lambda>_. Some 1) ?ks ?cx (cooked_empty 0 True) = Some (c, cx) \<and> editor_ok c \<and> context_ok cx"
    using line_editor_stays_ok [of "\<lambda>_. Some 1" "[]" 0 True "(80, 25)" "(0, 0)" "cooked_empty 0 True" ?cx ?ks]
    by (auto simp del: press_keys.simps split: option.splits)
  then show ?thesis .
qed

section \<open>Typing\<close>

text \<open>A character that the editor inserts.\<close>

definition inserted :: "cooked \<Rightarrow> key_context \<Rightarrow> u16 \<Rightarrow> bool" where
  "inserted c cx ch \<longleftrightarrow> ch \<noteq> CARRIAGE_RETURN \<and>
     \<not> (cr_wakeup_mask c \<noteq> 0 \<and> ch < 0x20 \<and> cr_wakeup_mask c AND push_bit (unat ch) 1 \<noteq> 0) \<and>
     \<not> ((ch = EXTKEY_ERASE_PREV_WORD \<or> ch = BACKSPACE) \<and> cx_processed cx)"

lemma type_char:
  assumes "inserted c cx ch" "cr_insert c" "cr_cursor c \<le> length (cr_buffer c)"
  obtains c' where "handle_char width ch m cx c = Some c'"
    "cr_buffer c' = take (cr_cursor c) (cr_buffer c) @ ch # drop (cr_cursor c) (cr_buffer c)"
    "cr_cursor c' = cr_cursor c + 1" "cr_popups c' = cr_popups c" "cr_state c' = cr_state c" "cr_insert c'"
    "cr_wakeup_mask c' = cr_wakeup_mask c" "cr_wakeup c' = cr_wakeup c"
proof -
  have "handle_char width ch m cx c = Some (splice (cr_cursor c) 0 [ch] c)"
    using assms by (auto simp: handle_char_def inserted_def)
  then show thesis using that assms by (simp add: line_simps) (simp add: splice_def Let_def)
qed

lemma type_text:
  assumes "\<forall>ch \<in> set typed. inserted c cx ch" "cr_insert c" "cr_cursor c \<le> length (cr_buffer c)"
    "cr_popups c = []" "\<not> is_done c"
  shows "\<exists>c'. (\<forall>ks. press_keys width (map (\<lambda>ch. Char ch m) typed @ ks) cx c = press_keys width ks cx c') \<and>
    cr_buffer c' = take (cr_cursor c) (cr_buffer c) @ typed @ drop (cr_cursor c) (cr_buffer c) \<and>
    cr_cursor c' = cr_cursor c + length typed \<and> cr_popups c' = [] \<and> cr_state c' = cr_state c \<and>
    cr_wakeup_mask c' = cr_wakeup_mask c \<and> cr_wakeup c' = cr_wakeup c"
  using assms
proof (induction typed arbitrary: c)
  case (Cons ch typed)
  obtain c1 where c1: "handle_char width ch m cx c = Some c1"
    "cr_buffer c1 = take (cr_cursor c) (cr_buffer c) @ ch # drop (cr_cursor c) (cr_buffer c)"
    "cr_cursor c1 = cr_cursor c + 1" "cr_popups c1 = cr_popups c" "cr_state c1 = cr_state c" "cr_insert c1"
    "cr_wakeup_mask c1 = cr_wakeup_mask c" "cr_wakeup c1 = cr_wakeup c"
    by (rule type_char [of c cx ch width m]) (use Cons.prems in auto)
  have "\<forall>ch \<in> set typed. inserted c1 cx ch" using Cons.prems(1) c1(7) by (simp add: inserted_def)
  moreover have "cr_cursor c1 \<le> length (cr_buffer c1)" using c1(2,3) Cons.prems(3) by simp
  moreover have "cr_popups c1 = []" "\<not> is_done c1" using c1 Cons.prems by (simp_all add: is_done_def)
  ultimately obtain c' where c': "\<And>ks. press_keys width (map (\<lambda>ch. Char ch m) typed @ ks) cx c1 = press_keys width ks cx c'"
    "cr_buffer c' = take (cr_cursor c1) (cr_buffer c1) @ typed @ drop (cr_cursor c1) (cr_buffer c1)"
    "cr_cursor c' = cr_cursor c1 + length typed" "cr_popups c' = []" "cr_state c' = cr_state c1"
    "cr_wakeup_mask c' = cr_wakeup_mask c1" "cr_wakeup c' = cr_wakeup c1"
    using Cons.IH [OF _ c1(6)] by blast
  have "press_keys width (map (\<lambda>ch. Char ch m) (ch # typed) @ ks) cx c = press_keys width ks cx c'" for ks
    using c1(1) Cons.prems(4,5) c'(1) by (simp add: with_line_def)
  then show ?case using c' c1 Cons.prems(3) by (intro exI [of _ c']) (simp add: min_def)
qed auto

end
