(* ===== verification/Console_Redisplay.thy ===== *)
theory Console_Redisplay
  imports Console_Editor
begin

text \<open>
  Drawing the line editor (\<open>crates/console-server/src/cooked.rs\<close>, \<open>redisplay\<close>
  onwards): the rows of the line and of its popups, the escape sequences that bring
  the screen up to date, and the cursor.  An index, a slice or a \<open>clamp\<close> out of range
  is a panic (\<open>None\<close>).  Screen coordinates are integers: the console reports them in
  sixteen bits.
\<close>

section \<open>Text\<close>

definition esc :: "string \<Rightarrow> ustring" where
  "esc s = 27 # lit s"

definition show_int :: "int \<Rightarrow> ustring" where
  "show_int i = (if i < 0 then 45 # show_nat (nat (- i)) else show_nat (nat i))"

definition spaces :: "int \<Rightarrow> ustring" where
  "spaces n = replicate (nat n) 32"

definition cup :: "int \<times> int \<Rightarrow> ustring" where
  "cup p = esc ''['' @ show_int (snd p + 1) @ lit '';'' @ show_int (fst p + 1) @ lit ''H''"

definition encode_utf16 :: "scalar \<Rightarrow> u16 list" where
  "encode_utf16 c =
     (if c < 0x10000 then [of_nat c]
      else [of_nat (0xD800 + (c - 0x10000) div 0x400), of_nat (0xDC00 + (c - 0x10000) mod 0x400)])"

definition wide_lit :: "string \<Rightarrow> u16 list" where
  "wide_lit s = concat (map encode_utf16 (lit s))"

section \<open>Popups\<close>

definition style_on :: ustring where "style_on = esc ''[#{'' @ esc ''[K''"
definition style_off :: ustring where "style_off = esc ''[m'' @ esc ''[#}''"

definition draw_prompt ::
  "(scalar \<Rightarrow> nat option) \<Rightarrow> int \<Rightarrow> ustring \<Rightarrow> u16 list \<Rightarrow> string \<Rightarrow> u16 list \<Rightarrow> row list \<Rightarrow> row list" where
  "draw_prompt width columns sgr before prompt suffix rows =
     (case layout_line width (before @ wide_lit prompt @ suffix) 0 0 columns of (out, _, column) \<Rightarrow>
        rows @ [empty_row\<lparr>row_text := style_on @ sgr @ out @ style_off, row_columns := column\<rparr>])"

text \<open>\<open>Vec::resize\<close> of the typed number to its five places.\<close>

definition number_text :: "popup \<Rightarrow> u16 list" where
  "number_text p = take COMMAND_NUMBER_MAX (pu_number p) @ replicate (COMMAND_NUMBER_MAX - length (pu_number p)) 32"

text \<open>Division of an \<open>i32\<close>, which rounds towards zero.\<close>

definition div_i32 :: "int \<Rightarrow> int \<Rightarrow> int" where
  "div_i32 a b = (if 0 \<le> a then a div b else - ((- a) div b))"

text \<open>The part of the history that the list shows: the selection in range, and the first row.\<close>

definition scroll_list :: "int \<Rightarrow> int \<Rightarrow> popup \<Rightarrow> popup" where
  "scroll_list len height p =
     (let selected = min (max (pu_selected p) 0) (len - 1);
          first = (if pu_top p < 0 then max (selected - height div 2) 0 else pu_top p);
          first = min first selected;
          first = max first (selected - height + 1);
          first = min (max first 0) (len - height)
      in p\<lparr>pu_selected := selected, pu_top := first, pu_height := height\<rparr>)"

definition list_bar :: "int \<Rightarrow> int \<Rightarrow> int \<Rightarrow> int \<Rightarrow> scalar" where
  "list_bar len height track i =
     (if height < len then
        if i = 0 then 0x25B4 else if i = height - 1 then 0x25BE else if i = track then 0x2588 else 0x2592
      else 32)"

definition list_row ::
  "(scalar \<Rightarrow> nat option) \<Rightarrow> int \<Rightarrow> ustring \<Rightarrow> history \<Rightarrow> popup \<Rightarrow> bool \<Rightarrow> int \<Rightarrow> int \<Rightarrow> row" where
  "list_row width columns sgr h p stacked track i =
     (let index_width = int (length (show_int (history_len h)));
          index = pu_top p + i;
          selected = (index = pu_selected p \<and> \<not> stacked);
          shown = show_int index
      in case layout_line width (history_nth index h) 0 (index_width + 4) columns of (out, _, _) \<Rightarrow>
        empty_row\<lparr>row_text := style_on @ sgr @ [list_bar (history_len h) (pu_height p) track i]
                     @ (if selected then [0x25B8] else style_off @ [32])
                     @ spaces (index_width - int (length shown)) @ shown @ lit '': '' @ out
                     @ (if selected then style_off else []) @ [13, 10],
                   row_columns := columns\<rparr>)"

definition draw_command_list ::
  "(scalar \<Rightarrow> nat option) \<Rightarrow> int \<times> int \<Rightarrow> ustring \<Rightarrow> history \<Rightarrow> row list \<Rightarrow> popup list \<Rightarrow> row list \<times> popup list" where
  "draw_command_list width screen sgr h rows ps =
     (let stacked = (length ps = 2 \<and> pu_kind (ps ! 1) = CommandNumber);
          len = history_len h;
          height = min len (min (div_i32 (snd screen) 2 - 1) 20)
      in if height < 1 then (rows, ps)
         else
           let p = scroll_list len height (ps ! 0);
               last_index = len - 1;
               track = (if last_index \<le> 0 then 0
                        else 1 + div_i32 ((height - 3) * pu_selected p + div_i32 last_index 2) last_index);
               rows = rows @ map (list_row width (fst screen) sgr h p stacked track) [0..height - 1];
               rows = (if stacked
                       then draw_prompt width (fst screen - 1) sgr [0x2570] ''Enter command number: ''
                              (number_text (ps ! 1)) rows
                       else set_last rows ((last rows)\<lparr>row_text := butlast (butlast (row_text (last rows)))\<rparr>))
           in (rows, ps[0 := p]))"

definition draw_popup ::
  "(scalar \<Rightarrow> nat option) \<Rightarrow> int \<times> int \<Rightarrow> ustring \<Rightarrow> history option \<Rightarrow> row list \<Rightarrow> popup list \<Rightarrow> row list \<times> popup list" where
  "draw_popup width screen sgr h rows ps =
     (let prompt = (\<lambda>t suffix. (draw_prompt width (fst screen) sgr [] t suffix rows, ps))
      in case pu_kind (ps ! 0) of
        CopyToChar \<Rightarrow> prompt ''Enter char to copy up to: '' []
      | CopyFromChar \<Rightarrow> prompt ''Enter char to delete up to: '' []
      | CommandNumber \<Rightarrow> prompt ''Enter command number: '' (number_text (ps ! 0))
      | CommandList \<Rightarrow> (case h of None \<Rightarrow> (rows, ps) | Some h \<Rightarrow> draw_command_list width screen sgr h rows ps))"

section \<open>The rows of a line and its popups\<close>

definition append_last :: "ustring \<Rightarrow> int \<Rightarrow> row list \<Rightarrow> row list" where
  "append_last t column rows =
     set_last rows ((last rows)\<lparr>row_text := row_text (last rows) @ t, row_columns := column\<rparr>)"

text \<open>What remains of a longer earlier line is blanked.\<close>

definition blank_rest :: "int \<Rightarrow> int \<times> int \<Rightarrow> int \<times> int \<Rightarrow> row list \<Rightarrow> row list" where
  "blank_rest columns old_end prompt_end rows =
     (if snd prompt_end \<le> snd old_end then
        let end_x = (if snd old_end = snd prompt_end then fst old_end else columns);
            remaining = end_x - fst prompt_end
        in if 0 < remaining then
             if remaining \<le> 16 then append_last (spaces remaining) (row_columns (last rows) + remaining) rows
             else append_last (esc ''[K'') (row_columns (last rows)) rows
           else rows
      else rows)"

text \<open>A cursor behind the last column goes to the next row, which may have to be made.\<close>

definition wrap_cursor :: "int \<Rightarrow> int \<times> int \<Rightarrow> int \<times> int \<Rightarrow> bool \<Rightarrow> int \<times> int \<Rightarrow> row list \<Rightarrow> row list \<times> (int \<times> int)" where
  "wrap_cursor columns old_end prompt_end at_end cursor rows =
     (if columns \<le> fst cursor then
        (if at_end then
           let remaining = max ((snd old_end - snd prompt_end) * columns + fst old_end - fst prompt_end) 1
           in rows @ [empty_row\<lparr>row_text :=
                (if remaining \<le> 16 then spaces remaining @ [13] else [32, 13] @ esc ''[K'')\<rparr>]
         else rows, (0, snd cursor + 1))
      else (rows, cursor))"

definition lay_out ::
  "(scalar \<Rightarrow> nat option) \<Rightarrow> int \<times> int \<Rightarrow> ustring \<Rightarrow> history option \<Rightarrow> int \<Rightarrow> cooked
   \<Rightarrow> (row list \<times> (int \<times> int) \<times> (int \<times> int) \<times> cooked) option" where
  "lay_out width screen sgr h x c =
     (case lay_line width (fst screen) (cr_dirty_beg c) (cr_cursor c) (cr_buffer c) x of
        None \<Rightarrow> None
      | Some (rows, cursor, prompt_end) \<Rightarrow>
          let rows = blank_rest (fst screen) (cr_prompt_end c) prompt_end rows
          in if cr_popups c \<noteq> [] then
               (case draw_popup width screen sgr h (append_last [13, 10] (fst screen) rows) (cr_popups c) of
                  (rows, ps) \<Rightarrow>
                    Some (rows, (row_columns (last rows), int (length rows) - 1), prompt_end, c\<lparr>cr_popups := ps\<rparr>))
             else
               (case wrap_cursor (fst screen) (cr_prompt_end c) prompt_end
                       (cr_cursor c = length (cr_buffer c)) cursor rows of
                  (rows, cursor) \<Rightarrow> Some (rows, cursor, prompt_end, c)))"

section \<open>Writing the rows\<close>

definition get_row :: "row list \<Rightarrow> int \<Rightarrow> row option" where
  "get_row rows i = (if 0 \<le> i \<and> i < int (length rows) then Some (rows ! nat i) else None)"

definition clamp_i32 :: "int \<Rightarrow> int \<Rightarrow> int \<Rightarrow> int option" where
  "clamp_i32 lo hi i = (if lo \<le> hi then Some (min (max i lo) hi) else None)"

text \<open>\<open>&text[offset.min(len)..]\<close>, in bytes.\<close>

definition text_from :: "nat \<Rightarrow> ustring \<Rightarrow> ustring option" where
  "text_from offset t = map_option snd (split_bytes t (min offset (byte_len t)))"

fun mark_dirty :: "row list \<Rightarrow> int list \<Rightarrow> row list option" where
  "mark_dirty rows [] = Some rows"
| "mark_dirty rows (i # is) =
     (case get_row rows i of None \<Rightarrow> None
      | Some r \<Rightarrow> mark_dirty (rows[nat i := r\<lparr>row_dirty_offset := 0, row_dirty_column := 0\<rparr>]) is)"

text \<open>Scrolling the pager: the sequence, and the rows with those to draw again marked.\<close>

definition scroll_pager :: "int \<times> int \<Rightarrow> int \<Rightarrow> int \<Rightarrow> int \<Rightarrow> int \<Rightarrow> row list \<Rightarrow> (ustring \<times> row list) option" where
  "scroll_pager screen pager_height old_height content_top delta rows =
     (let magnitude = \<bar>delta\<bar>
      in if magnitude < min old_height pager_height then
           let a = (if 0 \<le> delta then pager_height - magnitude else 0);
               b = (if 0 \<le> delta then pager_height else magnitude)
           in map_option (Pair (esc ''['' @ show_int magnitude @ lit (if 0 \<le> delta then ''S'' else ''T'')))
                (mark_dirty rows (map (\<lambda>i. i + content_top) [a..b - 1]))
         else
           (case get_row rows (pager_height - 1 + content_top) of None \<Rightarrow> None
            | Some r \<Rightarrow>
                let rows = (if row_columns r < fst screen
                            then rows[nat (pager_height - 1 + content_top) := r\<lparr>row_text := row_text r @ esc ''[K''\<rparr>]
                            else rows)
                in map_option (Pair []) (mark_dirty rows (map (\<lambda>i. i + content_top) [0..pager_height - 1]))))"

text \<open>The dirty part of every row of the pager; \<open>at\<close> is where the terminal writes next.\<close>

fun write_rows ::
  "int \<times> int \<Rightarrow> int \<Rightarrow> int \<Rightarrow> row list \<Rightarrow> int \<times> int \<Rightarrow> int list \<Rightarrow> ustring option" where
  "write_rows screen origin_y content_top rows at [] = Some []"
| "write_rows screen origin_y content_top rows at (i # is) =
     (let screen_row = min (origin_y + i) (snd screen - 1);
          at = (if fst screen \<le> fst at then (0, screen_row) else at)
      in case get_row rows (i + content_top) of None \<Rightarrow> None
      | Some r \<Rightarrow>
          if fst screen \<le> row_dirty_column r then write_rows screen origin_y content_top rows at is
          else
            let p = (row_dirty_column r, screen_row)
            in case text_from (row_dirty_offset r) (row_text r) of None \<Rightarrow> None
            | Some t \<Rightarrow>
                map_option (\<lambda>out. (if at \<noteq> p then cup p else []) @ t @ out)
                  (write_rows screen origin_y content_top rows (row_columns r, snd p) is))"

definition any_dirty :: "row list \<Rightarrow> int list \<Rightarrow> bool option" where
  "any_dirty rows is =
     foldr (\<lambda>i found. case get_row rows i of None \<Rightarrow> None
        | Some r \<Rightarrow> if row_dirty_offset r < byte_len (row_text r) then Some True else found) is (Some False)"

text \<open>Erasing the rows that the pager no longer needs.\<close>

definition erase_rows :: "int \<times> int \<Rightarrow> int \<Rightarrow> int \<Rightarrow> int \<Rightarrow> ustring" where
  "erase_rows screen origin_y pager_height old_height =
     (if pager_height < old_height then
        cup (0, min (origin_y + pager_height) (snd screen - 1)) @ esc ''[K''
        @ concat (replicate (nat (old_height - pager_height - 1)) (esc ''[E'' @ esc ''[K''))
      else [])"

definition emit ::
  "row list \<Rightarrow> int \<times> int \<Rightarrow> int \<times> int \<Rightarrow> int \<times> int \<Rightarrow> int \<times> int \<Rightarrow> int \<times> int \<Rightarrow> cooked \<Rightarrow> (ustring \<times> cooked) option" where
  "emit rows screen origin origin_final cursor prompt_end c =
     (let line_count = int (length rows);
          pager_height = min line_count (snd screen);
          origin_final = (fst origin_final, min (snd origin_final) (snd screen - pager_height));
          first = min (cr_content_top c) (snd cursor);
          first = max first (snd cursor - snd screen + 1)
      in case clamp_i32 0 (line_count - pager_height) first of None \<Rightarrow> None
      | Some content_top \<Rightarrow>
          let cursor = (fst cursor, snd cursor + (snd origin_final - content_top));
              opened = (cr_popups c \<noteq> []);
              start = (if cr_clear_pending c then cup origin @ esc ''[J'' else [])
                @ (if cr_popup_opened c = opened then []
                   else if opened then esc ''7'' @ esc ''[?25l'' @ esc ''[#{'' @ style_off
                   else esc ''8'' @ esc ''[?25h'');
              delta = content_top - cr_content_top c
          in case (if delta \<noteq> 0 \<and> origin = (0, 0)
                   then scroll_pager screen pager_height (cr_pager_height c) content_top delta rows
                   else Some ([], rows)) of None \<Rightarrow> None
          | Some (scrolled, rows) \<Rightarrow>
              (case any_dirty rows (map (\<lambda>i. i + content_top) [0..pager_height - 1]) of None \<Rightarrow> None
               | Some dirty \<Rightarrow>
                   (case (if dirty then write_rows screen (snd origin) content_top rows (-1, -1) [0..pager_height - 1]
                          else Some []) of None \<Rightarrow> None
                    | Some written \<Rightarrow>
                        Some (start @ scrolled @ written
                                @ erase_rows screen (snd origin) pager_height (min (cr_pager_height c) (snd screen))
                                @ cup cursor,
                              c\<lparr>cr_clear_pending := False, cr_popup_opened := opened, cr_origin := Some origin_final,
                                cr_prompt_end := prompt_end, cr_content_top := content_top,
                                cr_pager_height := pager_height, cr_dirty_beg := length (cr_buffer c),
                                cr_dirty := False\<rparr>))))"

section \<open>Redisplay\<close>

text \<open>
  A line that begins behind a prompt and has more rows than the screen is laid out once
  more from the top left; the second time it begins in the first column.  Nothing to
  draw leaves the editor as it is.
\<close>

definition redisplay ::
  "(scalar \<Rightarrow> nat option) \<Rightarrow> int \<times> int \<Rightarrow> int \<times> int \<Rightarrow> bool \<Rightarrow> ustring \<Rightarrow> history option \<Rightarrow> cooked
   \<Rightarrow> (ustring option \<times> cooked) option" where
  "redisplay width screen cursor echo sgr h c =
     (if \<not> cr_dirty c \<or> \<not> echo \<or> fst screen \<le> 0 \<or> snd screen \<le> 0 then Some (None, c)
      else
        let origin = (case cr_origin c of Some p \<Rightarrow> p | None \<Rightarrow> cursor);
            c = c\<lparr>cr_origin := Some origin\<rparr>
        in case lay_out width screen sgr h (fst origin) c of None \<Rightarrow> None
        | Some (rows, cursor_final, prompt_end, c) \<Rightarrow>
            if snd screen < int (length rows) \<and> fst origin \<noteq> 0 then
              (case lay_out width screen sgr h 0 (c\<lparr>cr_dirty_beg := 0\<rparr>) of None \<Rightarrow> None
               | Some (rows, cursor_final, prompt_end, c) \<Rightarrow>
                   map_option (map_prod Some id)
                     (emit rows screen (0, snd origin) (0, 0) cursor_final prompt_end c))
            else map_option (map_prod Some id) (emit rows screen origin origin cursor_final prompt_end c))"

section \<open>Rows can be sliced where they are dirty\<close>

definition row_ok :: "row \<Rightarrow> bool" where
  "row_ok r \<longleftrightarrow> (\<exists>a b. row_text r = a @ b \<and> row_dirty_offset r = byte_len a)"

lemma row_ok_start: "row_dirty_offset r = 0 \<Longrightarrow> row_ok r"
  by (auto simp: row_ok_def byte_len_def intro: exI [of _ "[]"])

lemma row_ok_empty [simp]: "row_ok empty_row" "row_ok (r\<lparr>row_dirty_offset := 0\<rparr>)"
  "row_ok (r\<lparr>row_dirty_offset := 0, row_dirty_column := k\<rparr>)"
  "row_ok \<lparr>row_text = t, row_dirty_offset = 0, row_dirty_column = k, row_columns = c\<rparr>"
  by (rule row_ok_start, simp add: empty_row_def)+

lemma row_ok_append:
  assumes "row_ok r"
  shows "row_ok (r\<lparr>row_text := row_text r @ t\<rparr>)" "row_ok (r\<lparr>row_text := row_text r @ t, row_columns := k\<rparr>)"
proof -
  obtain a b where "row_text r = a @ b" "row_dirty_offset r = byte_len a" using assms by (auto simp: row_ok_def)
  then have "row_text r @ t = a @ (b @ t)" "row_dirty_offset r = byte_len a" by simp_all
  then show "row_ok (r\<lparr>row_text := row_text r @ t\<rparr>)" "row_ok (r\<lparr>row_text := row_text r @ t, row_columns := k\<rparr>)"
    unfolding row_ok_def by auto
qed

lemma row_ok_clean: "row_ok (r\<lparr>row_dirty_offset := byte_len (row_text r), row_dirty_column := k\<rparr>)"
  by (auto simp: row_ok_def intro: exI [of _ "[]"])

abbreviation rows_sliced :: "row list \<Rightarrow> bool" where
  "rows_sliced rows \<equiv> \<forall>r \<in> set rows. row_ok r"

lemma set_last_sliced: "rows_sliced rows \<Longrightarrow> row_ok r \<Longrightarrow> rows_sliced (set_last rows r)"
  by (auto simp: set_last_def dest: in_set_butlastD)

lemma lay_row_sliced:
  assumes "rows_sliced rows" "rows \<noteq> []" "lay_row width columns dirty segment start rows column = (start', rows', column')"
  shows "rows_sliced rows'" "rows' \<noteq> []" "length rows' = (if columns \<le> column then length rows + 1 else length rows)"
proof -
  let ?rows = "if columns \<le> column then rows @ [empty_row] else rows"
  have r: "rows_sliced ?rows" "?rows \<noteq> []" using assms(1,2) by auto
  then have l: "row_ok (last ?rows)" using last_in_set [OF r(2)] by blast
  obtain out n e where "layout_line width segment start (row_columns (last ?rows)) columns = (out, n, e)"
    by (cases "layout_line width segment start (row_columns (last ?rows)) columns")
  then obtain r where rr: "row_ok r" "rows' = set_last ?rows r"
    using assms(3) row_ok_append(2) [OF l, where t = out and k = e]
      row_ok_clean [where r = "(last ?rows)\<lparr>row_text := row_text (last ?rows) @ out, row_columns := e\<rparr>" and k = e]
    by (auto simp: lay_row_def Let_def split: if_splits)
  then show "rows_sliced rows'" "rows' \<noteq> []" using set_last_sliced [OF r(1)] by auto
  show "length rows' = (if columns \<le> column then length rows + 1 else length rows)"
    using rr(2) assms(2) by (cases rows) auto
qed

lemma lay_segment_sliced:
  assumes "lay_segment width columns dirty segment start rows column = Some (rows', column')"
    and "rows_sliced rows" "rows \<noteq> []"
  shows "rows_sliced rows' \<and> rows' \<noteq> [] \<and> length rows \<le> length rows'"
proof (rule lay_segment_result [OF assms(1), of "\<lambda>r _. rows_sliced r \<and> r \<noteq> [] \<and> length rows \<le> length r"])
  fix start' start1 and r r1 :: "row list" and column' column1
  assume "rows_sliced r \<and> r \<noteq> [] \<and> length rows \<le> length r"
    "lay_row width columns dirty segment start' r column' = (start1, r1, column1)"
  then show "rows_sliced r1 \<and> r1 \<noteq> [] \<and> length rows \<le> length r1"
    using lay_row_sliced [of r width columns dirty segment start' column' start1 r1 column1] by auto
qed (use assms in simp)

text \<open>A segment that begins behind the last column makes a new row.\<close>

lemma lay_segment_grows:
  assumes "lay_segment width columns dirty segment 0 rows column = Some (rows', column')"
    and "rows_sliced rows" "rows \<noteq> []" "segment \<noteq> []" "columns \<le> column"
  shows "length rows < length rows'"
proof -
  obtain start1 rows1 column1 where l: "lay_row width columns dirty segment 0 rows column = (start1, rows1, column1)"
    by (cases "lay_row width columns dirty segment 0 rows column")
  then have "lay_segment width columns dirty segment start1 rows1 column1 = Some (rows', column')"
    using assms(1,4) by (subst (asm) lay_segment.simps) simp
  then show ?thesis
    using lay_row_sliced [OF assms(2,3) l] assms(5) lay_segment_sliced by fastforce
qed

lemma lay_segments_sliced:
  "lay_segments width columns dirty_beg cursor buffer offsets rows column p = Some (rows', column', p') \<Longrightarrow>
   rows_sliced rows \<Longrightarrow> rows \<noteq> [] \<Longrightarrow> rows_sliced rows' \<and> rows' \<noteq> [] \<and> length rows \<le> length rows'"
proof (induction width columns dirty_beg cursor buffer offsets rows column p rule: lay_segments.induct)
  case (1 width columns dirty_beg cursor buffer a b offsets rows column p)
  show ?case
  proof (cases "bounded_slice buffer a b = []")
    case True
    then show ?thesis using 1 by simp
  next
    case False
    then obtain rows1 column1 where l: "lay_segment width columns (dirty_beg \<le> a) (bounded_slice buffer a b) 0 rows column
        = Some (rows1, column1)"
      using 1(3) by (auto split: option.splits)
    have s: "rows_sliced rows1 \<and> rows1 \<noteq> [] \<and> length rows \<le> length rows1"
      by (rule lay_segment_sliced [OF l 1(4,5)])
    then show ?thesis using 1(2) [OF refl False l refl] 1(3) l False by simp
  qed
qed simp_all

text \<open>
  Where the cursor is behind the last column and text follows it, that text is on a
  further row.
\<close>

lemma bounded_slice_nonempty: "a < b \<Longrightarrow> a < length buffer \<Longrightarrow> bounded_slice buffer a b \<noteq> []"
  by (simp add: bounded_slice_def Let_def)

lemma bounded_slice_empty [simp]: "bounded_slice buffer a a = []"
  by (simp add: bounded_slice_def Let_def)

lemma lay_segments_step:
  assumes "lay_segments width columns dirty_beg cursor buffer (a # b # offsets) rows column p = Some R"
    and "rows_sliced rows" "rows \<noteq> []"
  obtains rows1 column1 where
    "lay_segments width columns dirty_beg cursor buffer (b # offsets) rows1 column1
       (if bounded_slice buffer a b \<noteq> [] \<and> b = cursor then (column1, int (length rows1) - 1) else p) = Some R"
    "rows_sliced rows1" "rows1 \<noteq> []" "bounded_slice buffer a b = [] \<longrightarrow> rows1 = rows \<and> column1 = column"
proof (cases "bounded_slice buffer a b = []")
  case True
  then show thesis using that [of rows column] assms by simp
next
  case False
  then obtain rows1 column1 where l: "lay_segment width columns (dirty_beg \<le> a) (bounded_slice buffer a b) 0 rows column
      = Some (rows1, column1)"
    using assms(1) by (auto split: option.splits)
  show thesis
    using that [of rows1 column1] lay_segment_sliced [OF l assms(2,3)] assms(1) l False by auto
qed

lemma lay_segments_cursor:
  "lay_segments width columns dirty_beg cursor buffer offsets rows column p = Some (rows', column', p') \<Longrightarrow>
   \<forall>b \<in> set (tl offsets). b \<noteq> cursor \<Longrightarrow> p' = p"
  by (induction width columns dirty_beg cursor buffer offsets rows column p rule: lay_segments.induct)
    (auto simp: Let_def split: if_splits option.splits)

lemma lay_line_cursor:
  assumes "lay_line width columns dirty_beg cursor buffer x = Some (rows, p, q)"
    and "cursor < length buffer" "length buffer \<le> NPOS" "columns \<le> fst p"
  shows "snd p + 1 < int (length rows)"
proof -
  let ?r0 = "[empty_row\<lparr>row_dirty_column := x, row_columns := x\<rparr>]"
  let ?a = "min dirty_beg cursor" and ?b = "max dirty_beg cursor"
  let ?L = "lay_segments width columns dirty_beg cursor buffer"
  have r0: "rows_sliced ?r0" "?r0 \<noteq> []" by (auto simp: empty_row_def)
  obtain c where L: "?L [0, ?a, ?b, NPOS] ?r0 x (x, 0) = Some (rows, c, p)"
    using assms(1) by (auto simp: lay_line_def)
  \<comment> \<open>the state when the segment that begins at the cursor is reached\<close>
  have reach: "\<exists>a' offsets rows1 column1. ?L (cursor # a' # offsets) rows1 column1 (column1, int (length rows1) - 1)
      = Some (rows, c, p) \<and> rows_sliced rows1 \<and> rows1 \<noteq> [] \<and> cursor < a' \<and> (\<forall>b \<in> set (a' # offsets). b \<noteq> cursor)"
  proof (cases "dirty_beg \<le> cursor")
    case False
    then have o: "[0, ?a, ?b, NPOS] = [0, cursor, dirty_beg, NPOS]" by simp
    obtain r1 c1 where s: "?L [cursor, dirty_beg, NPOS] r1 c1
        (if bounded_slice buffer 0 cursor \<noteq> [] \<and> cursor = cursor then (c1, int (length r1) - 1) else (x, 0)) = Some (rows, c, p)"
      "rows_sliced r1" "r1 \<noteq> []" "bounded_slice buffer 0 cursor = [] \<longrightarrow> r1 = ?r0 \<and> c1 = x"
      by (rule lay_segments_step [OF L [unfolded o] r0])
    have "?L [cursor, dirty_beg, NPOS] r1 c1 (c1, int (length r1) - 1) = Some (rows, c, p)"
      using s(1,4) by (cases "bounded_slice buffer 0 cursor = []") auto
    then show ?thesis using s(2,3) False assms(2,3)
      by (intro exI [of _ dirty_beg] exI [of _ "[NPOS]"] exI [of _ r1] exI [of _ c1]) (simp del: lay_segments.simps)
  next
    case True
    then have o: "[0, ?a, ?b, NPOS] = [0, dirty_beg, cursor, NPOS]" by simp
    obtain r1 c1 where s: "?L [dirty_beg, cursor, NPOS] r1 c1
        (if bounded_slice buffer 0 dirty_beg \<noteq> [] \<and> dirty_beg = cursor then (c1, int (length r1) - 1) else (x, 0))
          = Some (rows, c, p)"
      "rows_sliced r1" "r1 \<noteq> []" "bounded_slice buffer 0 dirty_beg = [] \<longrightarrow> r1 = ?r0 \<and> c1 = x"
      by (rule lay_segments_step [OF L [unfolded o] r0])
    obtain r2 c2 where t: "?L [cursor, NPOS] r2 c2
        (if bounded_slice buffer dirty_beg cursor \<noteq> [] \<and> cursor = cursor then (c2, int (length r2) - 1)
         else if bounded_slice buffer 0 dirty_beg \<noteq> [] \<and> dirty_beg = cursor then (c1, int (length r1) - 1) else (x, 0))
          = Some (rows, c, p)"
      "rows_sliced r2" "r2 \<noteq> []" "bounded_slice buffer dirty_beg cursor = [] \<longrightarrow> r2 = r1 \<and> c2 = c1"
      by (rule lay_segments_step [OF s(1-3)])
    have "bounded_slice buffer dirty_beg cursor \<noteq> [] \<or> dirty_beg = cursor"
      using True assms(2) bounded_slice_nonempty [of dirty_beg cursor buffer] by (cases "dirty_beg < cursor") auto
    then have "?L [cursor, NPOS] r2 c2 (c2, int (length r2) - 1) = Some (rows, c, p)"
      using s(4) t(1,4) by (cases "bounded_slice buffer 0 dirty_beg = []"; cases "bounded_slice buffer dirty_beg cursor = []") auto
    then show ?thesis using t(2,3) assms(2,3)
      by (intro exI [of _ NPOS] exI [of _ "[]"] exI [of _ r2] exI [of _ c2]) (simp del: lay_segments.simps)
  qed
  then obtain a' offsets rows1 column1 where r: "?L (cursor # a' # offsets) rows1 column1 (column1, int (length rows1) - 1)
      = Some (rows, c, p)" "rows_sliced rows1" "rows1 \<noteq> []" "cursor < a'" "\<forall>b \<in> set (a' # offsets). b \<noteq> cursor"
    by blast
  have seg: "bounded_slice buffer cursor a' \<noteq> []" by (rule bounded_slice_nonempty [OF r(4) assms(2)])
  then obtain rows2 column2 where l: "lay_segment width columns (dirty_beg \<le> cursor) (bounded_slice buffer cursor a') 0 rows1 column1
      = Some (rows2, column2)" "?L (a' # offsets) rows2 column2 (column1, int (length rows1) - 1) = Some (rows, c, p)"
    using r(1,5) by (auto split: option.splits)
  have p: "p = (column1, int (length rows1) - 1)" using lay_segments_cursor [OF l(2)] r(5) by simp
  then have "length rows1 < length rows2" using lay_segment_grows [OF l(1) r(2,3) seg] assms(4) by simp
  moreover have "length rows2 \<le> length rows"
    using lay_segments_sliced [OF l(2)] lay_segment_sliced [OF l(1) r(2,3)] by blast
  ultimately show ?thesis using p by simp
qed

section \<open>Redrawing never panics\<close>

definition row_within :: "int \<Rightarrow> row \<Rightarrow> bool" where
  "row_within columns r \<longleftrightarrow> 0 \<le> row_columns r \<and> row_columns r \<le> columns"

lemma lay_line_ok:
  assumes "2 \<le> columns" "0 \<le> x" "x \<le> columns"
  obtains rows p q where "lay_line width columns dirty_beg cursor buffer x = Some (rows, p, q)"
    "rows_sliced rows" "rows \<noteq> []" "point_in columns rows p" "point_in columns rows q"
proof -
  obtain rows p q where l: "lay_line width columns dirty_beg cursor buffer x = Some (rows, p, q)" "rows \<noteq> []"
    "point_in columns rows p" "point_in columns rows q"
    using lay_line_ends [OF assms] by blast
  have "rows_sliced rows"
    using l(1) lay_segments_sliced [of width columns dirty_beg cursor buffer _ "[empty_row\<lparr>row_dirty_column := x, row_columns := x\<rparr>]"]
    by (auto simp: lay_line_def empty_row_def simp del: lay_segments.simps)
  then show thesis using that l by blast
qed

lemma append_last_sliced:
  assumes "rows_sliced rows" "rows \<noteq> []"
  shows "rows_sliced (append_last t k rows)" "append_last t k rows \<noteq> []"
    "length (append_last t k rows) = length rows" "row_columns (last (append_last t k rows)) = k"
proof -
  have "row_ok (last rows)" using assms last_in_set by blast
  from row_ok_append(2) [OF this] show "rows_sliced (append_last t k rows)"
    unfolding append_last_def by (rule set_last_sliced [OF assms(1)])
  show "append_last t k rows \<noteq> []" "row_columns (last (append_last t k rows)) = k"
    by (simp_all add: append_last_def)
  show "length (append_last t k rows) = length rows" using assms(2) by (cases rows) (simp_all add: append_last_def)
qed

lemma blank_rest_sliced:
  "rows_sliced rows \<Longrightarrow> rows \<noteq> [] \<Longrightarrow> rows_sliced (blank_rest columns old_end q rows) \<and> blank_rest columns old_end q rows \<noteq> [] \<and>
     length (blank_rest columns old_end q rows) = length rows"
  using append_last_sliced [of rows] by (simp add: blank_rest_def Let_def)

lemma layout_line_columns:
  assumes "0 \<le> limit" "0 \<le> column" "layout_line width us n column limit = (out, k, c)"
  shows "0 \<le> c" "c \<le> limit"
proof -
  have "min column limit \<le> limit" by simp
  from layout_run_bounds [OF this, of "drop (min n (length us)) us" width] assms
  show "0 \<le> c" "c \<le> limit" by (auto simp: layout_line_def Let_def split: prod.splits)
qed

lemma draw_prompt_ok:
  assumes "0 \<le> columns"
  shows "\<exists>r. draw_prompt width columns sgr t s n rows = rows @ [r] \<and> row_ok r \<and> 0 \<le> row_columns r \<and> row_columns r \<le> columns"
proof -
  obtain out k c where l: "layout_line width (t @ wide_lit s @ n) 0 0 columns = (out, k, c)"
    by (cases "layout_line width (t @ wide_lit s @ n) 0 0 columns")
  show ?thesis using layout_line_columns [OF assms _ l] l
    by (simp add: draw_prompt_def empty_row_def)
qed

lemma list_row_ok: "row_ok (list_row width columns sgr h p stacked track i)"
  "row_columns (list_row width columns sgr h p stacked track i) = columns"
  "row_dirty_offset (list_row width columns sgr h p stacked track i) = 0"
proof -
  show o: "row_dirty_offset (list_row width columns sgr h p stacked track i) = 0"
    by (simp add: list_row_def Let_def empty_row_def case_prod_unfold)
  show "row_ok (list_row width columns sgr h p stacked track i)" by (rule row_ok_start [OF o])
  show "row_columns (list_row width columns sgr h p stacked track i) = columns"
    by (simp add: list_row_def Let_def case_prod_unfold)
qed

definition popup_like :: "popup \<Rightarrow> popup \<Rightarrow> bool" where
  "popup_like p q \<longleftrightarrow> pu_kind p = pu_kind q \<and> pu_number p = pu_number q"

lemma popup_like_update: "popup_like (p\<lparr>pu_selected := i, pu_top := j, pu_height := k\<rparr>) p"
  by (simp add: popup_like_def)

lemma scroll_list_like: "popup_like (scroll_list len height p) p"
  unfolding scroll_list_def Let_def by (rule popup_like_update)

text \<open>Drawing keeps the popups but for the part of the history that is shown.\<close>

lemma draw_command_list_ok:
  assumes "rows_sliced rows" "rows \<noteq> []" "2 \<le> fst screen" "ps \<noteq> []" "row_columns (last rows) = fst screen"
    and "draw_command_list width screen sgr h rows ps = (rows', ps')"
  shows "rows_sliced rows' \<and> length rows \<le> length rows' \<and> 0 \<le> row_columns (last rows') \<and>
    row_columns (last rows') \<le> fst screen \<and> list_all2 popup_like ps' ps"
proof -
  define height where "height = min (history_len h) (min (div_i32 (snd screen) 2 - 1) 20)"
  have same: "list_all2 popup_like ps ps" by (simp add: list_all2_same popup_like_def)
  show ?thesis
  proof (cases "height < 1")
    case True
    then show ?thesis using assms same by (simp add: draw_command_list_def Let_def height_def)
  next
    case False
    define p where "p = scroll_list (history_len h) height (ps ! 0)"
    define stacked where "stacked = (length ps = 2 \<and> pu_kind (ps ! 1) = CommandNumber)"
    define track where "track = (if history_len h - 1 \<le> 0 then 0
      else 1 + div_i32 ((height - 3) * pu_selected p + div_i32 (history_len h - 1) 2) (history_len h - 1))"
    have d: "popup_like p (ps ! 0)" "ps' = ps[0 := p]"
      "rows' = (let rows = rows @ map (list_row width (fst screen) sgr h p stacked track) [0..height - 1]
         in if stacked then draw_prompt width (fst screen - 1) sgr [0x2570] ''Enter command number: '' (number_text (ps ! 1)) rows
            else set_last rows ((last rows)\<lparr>row_text := butlast (butlast (row_text (last rows)))\<rparr>))"
      using assms(6) False scroll_list_like [of "history_len h" height "ps ! 0"]
      unfolding draw_command_list_def Let_def height_def [symmetric] p_def [symmetric] stacked_def [symmetric]
        track_def [symmetric]
      by (simp_all add: p_def)
    define drawn where "drawn = map (list_row width (fst screen) sgr h p stacked track) [0..height - 1]"
    have dr: "rows_sliced drawn" "\<forall>r \<in> set drawn. row_columns r = fst screen" "drawn \<noteq> []"
      using False by (auto simp: drawn_def list_row_ok)
    have off: "row_dirty_offset (last (rows @ drawn)) = 0"
      using dr(3) by (simp add: drawn_def last_map list_row_ok)
    have col: "row_columns (last (rows @ drawn)) = fst screen" using dr(2,3) by simp
    have rows': "rows' = (if stacked
        then draw_prompt width (fst screen - 1) sgr [0x2570] ''Enter command number: '' (number_text (ps ! 1)) (rows @ drawn)
        else set_last (rows @ drawn)
          ((last (rows @ drawn))\<lparr>row_text := butlast (butlast (row_text (last (rows @ drawn))))\<rparr>))"
      using d(3) by (simp only: Let_def drawn_def)
    have "list_all2 popup_like ps' ps"
      using d(1,2) same assms(4) by (cases ps) (auto simp: popup_like_def)
    moreover have "rows_sliced rows' \<and> length rows \<le> length rows' \<and> 0 \<le> row_columns (last rows') \<and>
        row_columns (last rows') \<le> fst screen"
    proof (cases stacked)
      case True
      obtain r where "draw_prompt width (fst screen - 1) sgr [0x2570] ''Enter command number: '' (number_text (ps ! 1))
          (rows @ drawn) = (rows @ drawn) @ [r]" "row_ok r" "0 \<le> row_columns r" "row_columns r \<le> fst screen - 1"
        using draw_prompt_ok [of "fst screen - 1"] assms(3) by fastforce
      then show ?thesis using rows' True dr(1) assms(1) by auto
    next
      case False
      have "row_ok ((last (rows @ drawn))\<lparr>row_text := t\<rparr>)" for t by (rule row_ok_start) (use off in \<open>simp del: last_append\<close>)
      moreover have e: "rows' = set_last (rows @ drawn)
          ((last (rows @ drawn))\<lparr>row_text := butlast (butlast (row_text (last (rows @ drawn))))\<rparr>)"
        using rows' False by simp
      moreover have "rows_sliced (rows @ drawn)" using assms(1) dr(1) by auto
      moreover have "length rows \<le> length rows'" using e dr(3) by (simp add: Suc_leI)
      moreover have "rows_sliced rows'" unfolding e by (rule set_last_sliced) fact+
      ultimately show ?thesis using col assms(3) by (simp del: last_append)
    qed
    ultimately show ?thesis by blast
  qed
qed

lemma draw_popup_ok:
  assumes "rows_sliced rows" "rows \<noteq> []" "2 \<le> fst screen" "ps \<noteq> []" "row_columns (last rows) = fst screen"
    and "draw_popup width screen sgr h rows ps = (rows', ps')"
  shows "rows_sliced rows' \<and> length rows \<le> length rows' \<and> 0 \<le> row_columns (last rows') \<and>
    row_columns (last rows') \<le> fst screen \<and> list_all2 popup_like ps' ps"
proof -
  have same: "list_all2 popup_like ps ps" by (simp add: list_all2_same popup_like_def)
  have prompt: ?thesis if r: "rows' = draw_prompt width (fst screen) sgr t s n rows" "ps' = ps" for t s n
  proof -
    have "0 \<le> fst screen" using assms(3) by simp
    from draw_prompt_ok [OF this, of width sgr t s n rows] show ?thesis using r assms(1) same by auto
  qed
  show ?thesis
  proof (cases "pu_kind (ps ! 0)")
    case CommandList
    then show ?thesis using assms draw_command_list_ok [OF assms(1-5)] same
      by (cases h) (auto simp: draw_popup_def Let_def)
  qed (use assms(6) prompt in \<open>auto simp: draw_popup_def Let_def\<close>)
qed

definition cursor_in :: "int \<Rightarrow> row list \<Rightarrow> int \<times> int \<Rightarrow> bool" where
  "cursor_in columns rows p \<longleftrightarrow> 0 \<le> fst p \<and> fst p \<le> columns \<and> 0 \<le> snd p \<and> snd p < int (length rows)"

lemma lay_out_ok:
  assumes "2 \<le> fst screen" "0 \<le> x" "x \<le> fst screen" "cr_cursor c \<le> length (cr_buffer c)"
    and "length (cr_buffer c) \<le> NPOS"
  obtains rows p q ps where "lay_out width screen sgr h x c = Some (rows, p, q, c\<lparr>cr_popups := ps\<rparr>)"
    "rows_sliced rows" "rows \<noteq> []" "cursor_in (fst screen) rows p" "list_all2 popup_like ps (cr_popups c)"
    "cr_popups c = [] \<longrightarrow> fst p < fst screen"
proof -
  obtain rows0 p0 q where l: "lay_line width (fst screen) (cr_dirty_beg c) (cr_cursor c) (cr_buffer c) x = Some (rows0, p0, q)"
    "rows_sliced rows0" "rows0 \<noteq> []" "point_in (fst screen) rows0 p0" "point_in (fst screen) rows0 q"
    by (rule lay_line_ok [OF assms(1-3)])
  let ?rows = "blank_rest (fst screen) (cr_prompt_end c) q rows0"
  have b: "rows_sliced ?rows" "?rows \<noteq> []" "length ?rows = length rows0"
    using blank_rest_sliced [OF l(2,3)] by auto
  show thesis
  proof (cases "cr_popups c = []")
    case False
    let ?r = "append_last [13, 10] (fst screen) ?rows"
    obtain rows ps where d: "draw_popup width screen sgr h ?r (cr_popups c) = (rows, ps)"
      by (cases "draw_popup width screen sgr h ?r (cr_popups c)")
    note o = draw_popup_ok [OF append_last_sliced(1,2) [OF b(1,2)] assms(1) False append_last_sliced(4) [OF b(1,2)] d]
    have "0 < length ?r" by (simp add: append_last_def)
    then have n: "0 < length rows" using o by linarith
    show thesis
    proof (rule that)
      show "lay_out width screen sgr h x c =
          Some (rows, (row_columns (last rows), int (length rows) - 1), q, c\<lparr>cr_popups := ps\<rparr>)"
        using l(1) d False by (simp add: lay_out_def Let_def)
    qed (use o n False in \<open>auto simp: cursor_in_def\<close>)
  next
    case True
    obtain rows p where w: "wrap_cursor (fst screen) (cr_prompt_end c) q (cr_cursor c = length (cr_buffer c)) p0 ?rows = (rows, p)"
      by (cases "wrap_cursor (fst screen) (cr_prompt_end c) q (cr_cursor c = length (cr_buffer c)) p0 ?rows")
    have "rows_sliced rows \<and> rows \<noteq> [] \<and> cursor_in (fst screen) rows p \<and> fst p < fst screen"
    proof (cases "fst screen \<le> fst p0")
      case False
      then show ?thesis using w b l(4) by (auto simp: wrap_cursor_def cursor_in_def point_in_def)
    next
      case wraps: True
      show ?thesis
      proof (cases "cr_cursor c = length (cr_buffer c)")
        case True
        define r where "r = empty_row\<lparr>row_text :=
          (if max ((snd (cr_prompt_end c) - snd q) * fst screen + fst (cr_prompt_end c) - fst q) 1 \<le> 16
           then spaces (max ((snd (cr_prompt_end c) - snd q) * fst screen + fst (cr_prompt_end c) - fst q) 1) @ [13]
           else [32, 13] @ esc ''[K'')\<rparr>"
        have "row_ok r" by (rule row_ok_start) (simp add: r_def empty_row_def)
        moreover have "rows = ?rows @ [r]" "p = (0, snd p0 + 1)"
          using w wraps True unfolding wrap_cursor_def Let_def r_def by auto
        ultimately show ?thesis using b l(4) assms(1) by (auto simp: cursor_in_def point_in_def)
      next
        case False
        then have "snd p0 + 1 < int (length rows0)"
          using lay_line_cursor [OF l(1)] assms(4,5) wraps by simp
        moreover have "rows = ?rows" "p = (0, snd p0 + 1)" using w wraps False by (auto simp: wrap_cursor_def)
        ultimately show ?thesis using b l(4) assms(1) by (auto simp: cursor_in_def point_in_def)
      qed
    qed
    moreover have "lay_out width screen sgr h x c = Some (rows, p, q, c\<lparr>cr_popups := []\<rparr>)"
      using l(1) w True by (simp add: lay_out_def Let_def)
    ultimately show thesis using that True by blast
  qed
qed

text \<open>Writing indexes the rows of the pager only.\<close>

lemma text_from_ok: "row_ok r \<Longrightarrow> text_from (row_dirty_offset r) (row_text r) \<noteq> None"
  by (auto simp: row_ok_def text_from_def min_def)

lemma mark_dirty_ok:
  "rows_sliced rows \<Longrightarrow> \<forall>i \<in> set is. 0 \<le> i \<and> i < int (length rows) \<Longrightarrow>
   \<exists>rows'. mark_dirty rows is = Some rows' \<and> rows_sliced rows' \<and> length rows' = length rows"
proof (induction "is" arbitrary: rows)
  case (Cons i "is")
  let ?r = "(rows ! nat i)\<lparr>row_dirty_offset := 0, row_dirty_column := 0\<rparr>"
  have "rows_sliced (rows[nat i := ?r])" using Cons.prems(1) set_update_subset_insert [of rows "nat i" ?r] by auto
  then show ?case using Cons.IH [of "rows[nat i := ?r]"] Cons.prems(2) by (simp add: get_row_def)
qed simp

lemma scroll_pager_ok:
  assumes "rows_sliced rows" "0 < pager_height" "0 \<le> first" "first + pager_height \<le> int (length rows)"
  shows "\<exists>t rows'. scroll_pager screen pager_height old first delta rows = Some (t, rows') \<and>
    rows_sliced rows' \<and> length rows' = length rows"
proof (cases "\<bar>delta\<bar> < min old pager_height")
  case True
  let ?a = "if 0 \<le> delta then pager_height - \<bar>delta\<bar> else 0"
  let ?b = "if 0 \<le> delta then pager_height else \<bar>delta\<bar>"
  have "\<forall>i \<in> set (map (\<lambda>i. i + first) [?a..?b - 1]). 0 \<le> i \<and> i < int (length rows)"
    using assms(3,4) True by auto
  from mark_dirty_ok [OF assms(1) this] show ?thesis using True by (auto simp: scroll_pager_def Let_def)
next
  case False
  let ?i = "pager_height - 1 + first"
  let ?rows = "if row_columns (rows ! nat ?i) < fst screen
    then rows[nat ?i := (rows ! nat ?i)\<lparr>row_text := row_text (rows ! nat ?i) @ esc ''[K''\<rparr>] else rows"
  have i: "0 \<le> ?i" "?i < int (length rows)" using assms by auto
  then have "row_ok (rows ! nat ?i)" using assms(1) by (simp add: nat_less_iff)
  then have "row_ok ((rows ! nat ?i)\<lparr>row_text := row_text (rows ! nat ?i) @ esc ''[K''\<rparr>)" by (rule row_ok_append)
  then have r: "rows_sliced ?rows" "length ?rows = length rows"
    using assms(1) by (auto dest!: set_update_subset_insert [THEN subsetD])
  have "\<forall>j \<in> set (map (\<lambda>i. i + first) [0..pager_height - 1]). 0 \<le> j \<and> j < int (length ?rows)"
    using assms(3,4) r(2) by auto
  from mark_dirty_ok [OF r(1) this] show ?thesis using False i r(2)
    by (auto simp: scroll_pager_def Let_def get_row_def)
qed

lemma any_dirty_ok: "\<forall>i \<in> set is. 0 \<le> i \<and> i < int (length rows) \<Longrightarrow> any_dirty rows is \<noteq> None"
  by (induction "is") (auto simp: any_dirty_def get_row_def)

lemma write_rows_ok:
  "rows_sliced rows \<Longrightarrow> \<forall>i \<in> set is. 0 \<le> i + first \<and> i + first < int (length rows) \<Longrightarrow>
   write_rows screen y first rows at is \<noteq> None"
proof (induction "is" arbitrary: at)
  case (Cons i "is")
  have r: "get_row rows (i + first) = Some (rows ! nat (i + first))" "row_ok (rows ! nat (i + first))"
    using Cons.prems by (simp_all add: get_row_def nat_less_iff)
  obtain t where t: "text_from (row_dirty_offset (rows ! nat (i + first))) (row_text (rows ! nat (i + first))) = Some t"
    using text_from_ok [OF r(2)] by blast
  have "write_rows screen y first rows at' is \<noteq> None" for at' using Cons by simp
  then show ?case using r(1) t by (simp add: Let_def)
qed simp

definition on_screen :: "int \<times> int \<Rightarrow> int \<times> int \<Rightarrow> bool" where
  "on_screen screen p \<longleftrightarrow> 0 \<le> fst p \<and> fst p \<le> fst screen \<and> 0 \<le> snd p \<and> snd p < snd screen"

text \<open>What drawing leaves of the editor.\<close>

definition same_line :: "cooked \<Rightarrow> cooked \<Rightarrow> bool" where
  "same_line c c' \<longleftrightarrow> cr_buffer c' = cr_buffer c \<and> cr_cursor c' = cr_cursor c \<and> cr_state c' = cr_state c \<and>
     cr_wakeup c' = cr_wakeup c \<and> cr_insert c' = cr_insert c \<and> cr_wakeup_mask c' = cr_wakeup_mask c \<and>
     cr_control c' = cr_control c \<and> list_all2 popup_like (cr_popups c') (cr_popups c)"

lemma emit_ok:
  assumes "rows_sliced rows" "rows \<noteq> []" "0 < snd screen" "cursor_in (fst screen) rows p"
    and "0 \<le> fst origin_final" "fst origin_final \<le> fst screen" "0 \<le> snd origin_final"
  shows "\<exists>out p' o' c'. emit rows screen origin origin_final p q c = Some (out @ cup p', c') \<and> on_screen screen p' \<and>
    fst p' = fst p \<and> cr_origin c' = Some o' \<and> on_screen screen o' \<and> cr_buffer c' = cr_buffer c \<and>
    cr_cursor c' = cr_cursor c \<and> cr_state c' = cr_state c \<and> cr_wakeup c' = cr_wakeup c \<and>
    cr_insert c' = cr_insert c \<and> cr_popups c' = cr_popups c \<and> cr_wakeup_mask c' = cr_wakeup_mask c \<and>
    cr_control c' = cr_control c"
proof -
  define n where "n = int (length rows)"
  define height where "height = min n (snd screen)"
  define oy where "oy = min (snd origin_final) (snd screen - height)"
  define t where "t = max (min (cr_content_top c) (snd p)) (snd p - snd screen + 1)"
  define first where "first = min (max t 0) (n - height)"
  have n: "1 \<le> n" using assms(2) by (simp add: n_def Suc_leI)
  then have h: "0 < height" "height \<le> n" "height \<le> snd screen" using assms(3) by (auto simp: height_def)
  have clamp: "clamp_i32 0 (n - height) t = Some first" using h by (simp add: clamp_i32_def first_def)
  have f: "0 \<le> first" "first + height \<le> n" using h by (auto simp: first_def)
  have y: "0 \<le> snd p - first" "snd p - first < height"
    using assms(4) h by (auto simp: cursor_in_def first_def t_def height_def n_def)
  have oy: "0 \<le> oy" "oy + height \<le> snd screen" using assms(7) h by (auto simp: oy_def)
  define delta where "delta = first - cr_content_top c"
  obtain scrolled rows' where sc: "(if delta \<noteq> 0 \<and> origin = (0, 0)
      then scroll_pager screen height (cr_pager_height c) first delta rows else Some ([], rows)) = Some (scrolled, rows')"
    "rows_sliced rows'" "length rows' = length rows"
    using scroll_pager_ok [OF assms(1) h(1) f(1), of screen "cr_pager_height c" delta] f(2) assms(1)
    by (cases "delta \<noteq> 0 \<and> origin = (0, 0)") (auto simp: n_def)
  have idx: "\<forall>i \<in> set (map (\<lambda>i. i + first) [0..height - 1]). 0 \<le> i \<and> i < int (length rows')"
    "\<forall>i \<in> set [0..height - 1]. 0 \<le> i + first \<and> i + first < int (length rows')"
    using f sc(3) by (auto simp: n_def)
  obtain dirty where d: "any_dirty rows' (map (\<lambda>i. i + first) [0..height - 1]) = Some dirty"
    using any_dirty_ok [OF idx(1)] by blast
  obtain written where w: "(if dirty then write_rows screen (snd origin) first rows' (-1, -1) [0..height - 1] else Some [])
      = Some written"
    using write_rows_ok [OF sc(2) idx(2), of screen "snd origin" "(-1, -1)"] by (cases dirty) auto
  define p' where "p' = (fst p, snd p + (oy - first))"
  obtain start where e: "emit rows screen origin origin_final p q c =
      Some ((start @ scrolled @ written @ erase_rows screen (snd origin) height (min (cr_pager_height c) (snd screen))) @ cup p',
        c\<lparr>cr_clear_pending := False, cr_popup_opened := (cr_popups c \<noteq> []), cr_origin := Some (fst origin_final, oy),
          cr_prompt_end := q, cr_content_top := first, cr_pager_height := height,
          cr_dirty_beg := length (cr_buffer c), cr_dirty := False\<rparr>)"
    unfolding emit_def Let_def n_def [symmetric] height_def [symmetric] oy_def [symmetric] t_def [symmetric]
      clamp option.case delta_def [symmetric] sc(1) prod.case d w p'_def [symmetric] snd_conv fst_conv
    by simp
  have "on_screen screen p'" using assms(4) y oy by (auto simp: on_screen_def p'_def cursor_in_def)
  moreover have "on_screen screen (fst origin_final, oy)" using assms(5,6) oy h by (auto simp: on_screen_def)
  moreover have "fst p' = fst p" by (simp add: p'_def)
  ultimately show ?thesis using e
    by (intro exI [of _ "start @ scrolled @ written
          @ erase_rows screen (snd origin) height (min (cr_pager_height c) (snd screen))"]
        exI [of _ p'] exI [of _ "(fst origin_final, oy)"]) auto
qed

lemma popup_like_trans: "popup_like p q \<Longrightarrow> popup_like q r \<Longrightarrow> popup_like p r"
  by (simp add: popup_like_def)

lemma same_line_ok:
  assumes "same_line c c'" "editor_ok c"
  shows "editor_ok c'"
proof -
  have l: "length (cr_popups c') = length (cr_popups c)"
    "\<And>i. i < length (cr_popups c) \<Longrightarrow> popup_like (cr_popups c' ! i) (cr_popups c ! i)"
    using assms(1) by (auto simp: same_line_def list_all2_conv_all_nth)
  have "popups_ok (cr_popups c')"
  proof -
    have num: "length (pu_number p) \<le> COMMAND_NUMBER_MAX \<and> (\<forall>u \<in> set (pu_number p). 48 \<le> u \<and> u \<le> 57)"
      if p: "p \<in> set (cr_popups c')" for p
    proof -
      obtain i where i: "i < length (cr_popups c)" "p = cr_popups c' ! i" using p l(1) by (auto simp: in_set_conv_nth)
      then have "pu_number p = pu_number (cr_popups c ! i)" "cr_popups c ! i \<in> set (cr_popups c)"
        using l(2) by (auto simp: popup_like_def)
      then show ?thesis using assms(2) by (simp add: editor_ok_def popups_ok_def)
    qed
    show ?thesis
      unfolding popups_ok_def using num assms(2) l by (auto simp: editor_ok_def popups_ok_def popup_like_def)
  qed
  then show ?thesis using assms l(1) by (auto simp: same_line_def editor_ok_def is_done_def)
qed

section \<open>Property of redrawing\<close>

lemma redisplay_ok:
  assumes "2 \<le> fst screen" "0 < snd screen" "editor_ok c" "length (cr_buffer c) \<le> NPOS"
    and "case cr_origin c of Some p \<Rightarrow> on_screen screen p | None \<Rightarrow> on_screen screen cursor"
  shows "\<exists>drawn c'. redisplay width screen cursor echo sgr h c = Some (drawn, c') \<and> editor_ok c' \<and> same_line c c' \<and>
    (drawn = None \<and> c' = c \<or>
     (\<exists>out p o'. drawn = Some (out @ cup p) \<and> on_screen screen p \<and> (cr_popups c = [] \<longrightarrow> fst p < fst screen) \<and>
        cr_origin c' = Some o' \<and> on_screen screen o'))"
proof (cases "cr_dirty c \<and> echo")
  case False
  have "same_line c c" by (simp add: same_line_def list_all2_same popup_like_def)
  then show ?thesis using False assms(3) by (auto simp: redisplay_def)
next
  case True
  define origin where "origin = (case cr_origin c of Some p \<Rightarrow> p | None \<Rightarrow> cursor)"
  have o: "on_screen screen origin" using assms(5) by (cases "cr_origin c") (simp_all add: origin_def)
  then have ob: "0 \<le> fst origin" "fst origin \<le> fst screen" "0 \<le> snd origin" by (auto simp: on_screen_def)
  have cur: "cr_cursor c \<le> length (cr_buffer c)" using assms(3) by (simp add: editor_ok_def)
  define c0 where "c0 = c\<lparr>cr_origin := Some origin\<rparr>"
  have cur0: "cr_cursor c0 \<le> length (cr_buffer c0)" "length (cr_buffer c0) \<le> NPOS"
    using cur assms(4) by (simp_all add: c0_def)
  obtain rows p q ps where l: "lay_out width screen sgr h (fst origin) c0 = Some (rows, p, q, c0\<lparr>cr_popups := ps\<rparr>)"
    "rows_sliced rows" "rows \<noteq> []" "cursor_in (fst screen) rows p" "list_all2 popup_like ps (cr_popups c0)"
    "cr_popups c0 = [] \<longrightarrow> fst p < fst screen"
    by (rule lay_out_ok [OF assms(1) ob(1,2) cur0])
  have l0: "cr_popups c0 = cr_popups c" by (simp add: c0_def)
  note l = l [unfolded l0]
  let ?again = "snd screen < int (length rows) \<and> fst origin \<noteq> 0"
  have red: "redisplay width screen cursor echo sgr h c =
      (if ?again then
         (case lay_out width screen sgr h 0 (c0\<lparr>cr_popups := ps, cr_dirty_beg := 0\<rparr>) of None \<Rightarrow> None
          | Some (rows, p, q, c) \<Rightarrow> map_option (map_prod Some id) (emit rows screen (0, snd origin) (0, 0) p q c))
       else map_option (map_prod Some id) (emit rows screen origin origin p q (c0\<lparr>cr_popups := ps\<rparr>)))"
    using True assms(1,2) l(1) by (simp add: redisplay_def origin_def [symmetric] c0_def [symmetric] Let_def)
  have finish: ?thesis
    if r: "redisplay width screen cursor echo sgr h c = map_option (map_prod Some id) (emit rows' screen o1 o2 p' q' c1)"
      and rows': "rows_sliced rows'" "rows' \<noteq> []" "cursor_in (fst screen) rows' p'" "0 \<le> fst o2" "fst o2 \<le> fst screen" "0 \<le> snd o2"
      and c1: "same_line c c1" "cr_popups c = [] \<longrightarrow> fst p' < fst screen"
    for rows' o1 o2 p' q' c1
  proof -
    obtain out pe o' c' where e: "emit rows' screen o1 o2 p' q' c1 = Some (out @ cup pe, c')" "on_screen screen pe"
      "fst pe = fst p'" "cr_origin c' = Some o'" "on_screen screen o'" "cr_buffer c' = cr_buffer c1"
      "cr_cursor c' = cr_cursor c1" "cr_state c' = cr_state c1" "cr_wakeup c' = cr_wakeup c1"
      "cr_insert c' = cr_insert c1" "cr_popups c' = cr_popups c1" "cr_wakeup_mask c' = cr_wakeup_mask c1"
      "cr_control c' = cr_control c1"
      using emit_ok [OF rows'(1,2) assms(2) rows'(3-6), of o1 q' c1] by blast
    have "same_line c c'" using c1(1) e by (simp add: same_line_def)
    moreover have "redisplay width screen cursor echo sgr h c = Some (Some (out @ cup pe), c')" using r e(1) by simp
    moreover have "cr_popups c = [] \<longrightarrow> fst pe < fst screen" using c1(2) e(3) by simp
    ultimately show ?thesis using e(2,4,5) same_line_ok [OF _ assms(3)] by blast
  qed
  show ?thesis
  proof (cases ?again)
    case False
    have "same_line c (c0\<lparr>cr_popups := ps\<rparr>)" using l(5) by (simp add: same_line_def c0_def)
    then show ?thesis using finish [OF _ l(2-4) ob] red False l(6) by simp
  next
    case again: True
    let ?c = "c0\<lparr>cr_popups := ps, cr_dirty_beg := 0\<rparr>"
    have e: "ps = [] \<longleftrightarrow> cr_popups c = []" using l(5) by auto
    have w: "(0 :: int) \<le> 0" "0 \<le> fst screen" using assms(1) by auto
    have cur2: "cr_cursor ?c \<le> length (cr_buffer ?c)" "length (cr_buffer ?c) \<le> NPOS" using cur0 by simp_all
    obtain rows2 p2 q2 ps2 where m: "lay_out width screen sgr h 0 ?c = Some (rows2, p2, q2, ?c\<lparr>cr_popups := ps2\<rparr>)"
      "rows_sliced rows2" "rows2 \<noteq> []" "cursor_in (fst screen) rows2 p2" "list_all2 popup_like ps2 (cr_popups ?c)"
      "cr_popups ?c = [] \<longrightarrow> fst p2 < fst screen"
      by (rule lay_out_ok [OF assms(1) w cur2])
    have m': "list_all2 popup_like ps2 ps" "ps = [] \<longrightarrow> fst p2 < fst screen" using m(5,6) by simp_all
    have "list_all2 popup_like ps2 (cr_popups c)"
      by (rule list_all2_trans [OF _ m'(1) l(5)]) (rule popup_like_trans)
    then have "same_line c (?c\<lparr>cr_popups := ps2\<rparr>)" by (simp add: same_line_def c0_def)
    moreover have "redisplay width screen cursor echo sgr h c =
        map_option (map_prod Some id) (emit rows2 screen (0, snd origin) (0, 0) p2 q2 (?c\<lparr>cr_popups := ps2\<rparr>))"
      unfolding red using again m(1) by simp
    ultimately show ?thesis using finish [OF _ m(2-4)] w m'(2) e by simp
  qed
qed

text \<open>
  C33.  Redrawing a line whose origin is on the screen never panics, in a terminal of two
  columns or more: it keeps the line and the invariant of the editor, and either there
  is nothing to draw or the output ends by parking the cursor on the screen, left of
  the right edge unless a popup is open, and the line's origin stays on the screen.
\<close>

theorem redisplay_parks_cursor:
  assumes "2 \<le> fst screen" "0 < snd screen" "editor_ok c" "length (cr_buffer c) \<le> NPOS"
    and "case cr_origin c of Some p \<Rightarrow> on_screen screen p | None \<Rightarrow> on_screen screen cursor"
  shows "\<exists>drawn c'. redisplay width screen cursor echo sgr h c = Some (drawn, c') \<and> editor_ok c' \<and> same_line c c' \<and>
    (drawn = None \<and> c' = c \<or>
     (\<exists>out p o'. drawn = Some (out @ cup p) \<and> on_screen screen p \<and> (cr_popups c = [] \<longrightarrow> fst p < fst screen) \<and>
        cr_origin c' = Some o' \<and> on_screen screen o'))"
  by (rule redisplay_ok [OF assms])

theorem redisplay_parks_cursor_witness:
  "\<exists>c. press_keys (\<lambda>_. Some 1) [Char 97 0, Char 98 0] \<lparr>cx_history = None, cx_processed = True, cx_clear_cmd = False\<rparr>
       (cooked_empty 0 True) = Some (c, \<lparr>cx_history = None, cx_processed = True, cx_clear_cmd = False\<rparr>) \<and>
     (\<exists>drawn c'. redisplay (\<lambda>_. Some 1) (80, 25) (4, 0) True [] None c = Some (drawn, c') \<and> same_line c c')"
proof -
  let ?cx = "\<lparr>cx_history = None, cx_processed = True, cx_clear_cmd = False\<rparr> :: key_context"
  obtain c where c: "press_keys (\<lambda>_. Some 1) [Char 97 0, Char 98 0] ?cx (cooked_empty 0 True) = Some (c, ?cx)"
    "cr_origin c = None" "cr_buffer c = [97, 98]"
    by (simp add: cooked_empty_def handle_char_def with_line_def splice_def is_done_def CARRIAGE_RETURN_def
        EXTKEY_ERASE_PREV_WORD_def BACKSPACE_def Let_def)
  have "editor_ok c" using press_keys_ok [OF _ _ c(1)] by (simp add: context_ok_def)
  then show ?thesis
    using redisplay_parks_cursor [of "(80, 25)" c "(4, 0)" "\<lambda>_. Some 1" True "[]" None] c
    by (auto simp: on_screen_def NPOS_def)
qed

end
