(* ===== verification/Console_Input.thy ===== *)
theory Console_Input
  imports Console_Redisplay
begin

text \<open>
  The input queue of the console server (\<open>crates/console-server/src/input.rs\<close>) and the
  reads that take whatever is queued (\<open>read.rs\<close>): the 20-byte key records, the
  characters and editing keys they stand for, control keys, the text owed to a handle,
  raw reads and record reads.  The code pages of Windows other than UTF-8, the VT text of
  a key (\<open>keys.rs\<close>) and the key that types NUL are fields of the environment.
\<close>

section \<open>Records\<close>

definition le16 :: "u16 \<Rightarrow> bytes" where
  "le16 u = [of_nat (unat u), of_nat (unat u div 256)]"

definition le32 :: "u32 \<Rightarrow> bytes" where
  "le32 u = [of_nat (unat u), of_nat (unat u div 256), of_nat (unat u div 65536), of_nat (unat u div 16777216)]"

definition u16_at :: "bytes \<Rightarrow> nat \<Rightarrow> u16" where
  "u16_at r i = of_nat (unat (r ! i) + 256 * unat (r ! (i + 1)))"

definition u32_at :: "bytes \<Rightarrow> nat \<Rightarrow> u32" where
  "u32_at r i = of_nat (unat (r ! i) + 256 * unat (r ! (i + 1)) + 65536 * unat (r ! (i + 2)) + 16777216 * unat (r ! (i + 3)))"

definition key_record :: "u16 \<Rightarrow> u16 \<Rightarrow> u16 \<Rightarrow> u32 \<Rightarrow> u32 \<Rightarrow> u16 \<Rightarrow> bytes" where
  "key_record vk scan ch down control repeat =
     le16 1 @ [0, 0] @ le32 down @ le16 repeat @ le16 vk @ le16 scan @ le16 ch @ le32 control"

definition record_char :: "u16 \<Rightarrow> bytes" where
  "record_char u = key_record 0 0 u 1 0 1"

text \<open>The repeat count of a record, and a record with another.\<close>

definition repeat_count :: "bytes \<Rightarrow> u16" where
  "repeat_count r = u16_at r 8"

definition with_repeat :: "u16 \<Rightarrow> bytes \<Rightarrow> bytes" where
  "with_repeat n r = take 8 r @ le16 n @ drop 10 r"

section \<open>The environment\<close>

record console_env =
  ce_width :: "scalar \<Rightarrow> nat option"
  ce_code_pages :: "u32 \<Rightarrow> u16 list \<Rightarrow> bytes"
  ce_nul_key :: u16
  ce_vt_text :: "bytes \<Rightarrow> ustring option"
  ce_mode :: u32
  ce_code_page :: u32

definition CP_UTF8 :: u32 where "CP_UTF8 = 65001"
definition ENABLE_LINE_INPUT :: u32 where "ENABLE_LINE_INPUT = 0x2"
definition VIRTUAL_TERMINAL_INPUT :: u32 where "VIRTUAL_TERMINAL_INPUT = 0x200"
definition INSERT_MODE :: u32 where "INSERT_MODE = 0x20"
definition VK_CANCEL :: u16 where "VK_CANCEL = 0x03"
definition VK_MENU :: u16 where "VK_MENU = 0x12"

definition vt_input :: "console_env \<Rightarrow> bool" where
  "vt_input e \<longleftrightarrow> ce_mode e AND VIRTUAL_TERMINAL_INPUT \<noteq> 0"

text \<open>UTF-16 as bytes of a code page (\<open>codepage.rs\<close>).\<close>

definition from_utf16 :: "console_env \<Rightarrow> u16 list \<Rightarrow> bytes" where
  "from_utf16 e us =
     (if us = [] then []
      else if ce_code_page e = CP_UTF8 then as_bytes (from_utf16_lossy us)
      else ce_code_pages e (ce_code_page e) us)"

section \<open>What a record types\<close>

datatype keys_wanted = PlainKeys | EditingKeys | PopupKeys

definition popup_key :: "u16 \<Rightarrow> bool" where
  "popup_key vk \<longleftrightarrow> vk \<in> {VK_ESCAPE, VK_PRIOR, VK_NEXT, VK_END, VK_HOME, VK_LEFT, VK_UP, VK_RIGHT, VK_DOWN,
     VK_F2, VK_F4, VK_F7, VK_F9, VK_DELETE}"

definition is_editing_key :: "u16 \<Rightarrow> u32 \<Rightarrow> keys_wanted \<Rightarrow> bool" where
  "is_editing_key vk modifiers keys =
     (let alt = (modifiers AND ALT \<noteq> 0); ctrl = (modifiers AND CTRL \<noteq> 0)
      in if \<not> alt \<and> \<not> ctrl then
           (case keys of
              PopupKeys \<Rightarrow> popup_key vk
            | EditingKeys \<Rightarrow> popup_key vk \<or> vk \<in> {VK_INSERT, VK_F1, VK_F3, VK_F5, VK_F6, VK_F8}
            | PlainKeys \<Rightarrow> False)
         else if keys \<noteq> EditingKeys then False
         else ctrl \<and> vk \<in> {VK_END, VK_HOME, VK_LEFT, VK_RIGHT} \<or> alt \<and> vk \<in> {VK_F7, VK_F10})"

definition types_nul :: "u16 \<Rightarrow> u16 \<Rightarrow> u32 \<Rightarrow> bool" where
  "types_nul zero vk modifiers \<longleftrightarrow> zero AND 0xff = vk \<and>
     (modifiers AND ALT \<noteq> 0 \<longleftrightarrow> zero AND 0x400 \<noteq> 0) \<and>
     (modifiers AND CTRL \<noteq> 0 \<longleftrightarrow> zero AND 0x200 \<noteq> 0) \<and>
     (modifiers AND SHIFT \<noteq> 0 \<longleftrightarrow> zero AND 0x100 \<noteq> 0)"

definition get_char :: "console_env \<Rightarrow> bytes \<Rightarrow> keys_wanted \<Rightarrow> key option" where
  "get_char e r keys =
     (if u16_at r 0 \<noteq> 1 then None
      else
        let down = (u32_at r 4 \<noteq> 0); vk = u16_at r 10; ch = u16_at r 14; modifiers = u32_at r 16;
            editing = is_editing_key vk modifiers keys
        in if ch \<noteq> 0 \<and> \<not> editing \<and> \<not> down \<and> vk = VK_MENU then Some (Char ch modifiers)
           else if ch \<noteq> 0 \<and> \<not> editing \<and> down \<and> (vt_input e \<or> vk \<noteq> VK_ESCAPE \<and> ch \<noteq> 10) then Some (Char ch modifiers)
           else if down \<and> editing then Some (Vkey vk modifiers)
           else if down \<and> types_nul (ce_nul_key e) vk modifiers then Some (Char ch modifiers)
           else None)"

section \<open>Text for a buffer\<close>

text \<open>
  As many whole characters as fit in \<open>capacity\<close> bytes: the bytes, and the units they
  stand for.
\<close>

fun encode_chars :: "console_env \<Rightarrow> nat \<Rightarrow> (scalar option \<times> nat) list \<Rightarrow> bytes \<Rightarrow> nat \<Rightarrow> bytes \<times> nat" where
  "encode_chars e capacity [] bs units = (bs, units)"
| "encode_chars e capacity ((c, n) # cs) bs units =
     (let wide = encode_utf16 (case c of Some c \<Rightarrow> c | None \<Rightarrow> replacement);
          encoded = from_utf16 e wide
      in if capacity < length bs + length encoded then (bs, units)
         else encode_chars e capacity cs (bs @ encoded) (units + length wide))"

definition encode_prefix :: "console_env \<Rightarrow> u16 list \<Rightarrow> nat \<Rightarrow> bool \<Rightarrow> bytes \<times> nat" where
  "encode_prefix e us capacity unicode =
     (if unicode then
        let count = min (capacity div 2) (length us) in (concat (map le16 (take count us)), count)
      else encode_chars e capacity (utf16_chars us) [] 0)"

section \<open>The state of the input\<close>

record pending =
  pe_text :: "u16 list"
  pe_multiline :: bool

record controls =
  co_ctrl_c :: bool
  co_ctrl_break :: bool

record input_state =
  in_records :: "bytes list"
  in_pending :: "nat \<rightharpoonup> pending"
  in_ignore_keyup :: bool
  in_first_event :: "nat option"
  in_alert :: controls
  in_cached :: "bytes list"

definition USIZE_MAX :: nat where "USIZE_MAX = 2 ^ 64 - 1"

text \<open>What a line break leaves for one read of a multi-line alias.\<close>

definition line_limit :: "bool \<Rightarrow> u16 list \<Rightarrow> nat" where
  "line_limit multiline us =
     (if multiline then (case position (\<lambda>u. u = 10) us of None \<Rightarrow> length us | Some i \<Rightarrow> i + 1) else length us)"

definition take_pending :: "console_env \<Rightarrow> pending \<Rightarrow> nat \<Rightarrow> bool \<Rightarrow> bytes \<times> pending" where
  "take_pending e p capacity unicode =
     (case encode_prefix e (take (line_limit (pe_multiline p) (pe_text p)) (pe_text p)) capacity unicode of
        (bs, used) \<Rightarrow> (bs, p\<lparr>pe_text := drop used (pe_text p)\<rparr>))"

definition read_owed :: "console_env \<Rightarrow> nat \<Rightarrow> nat \<Rightarrow> bool \<Rightarrow> input_state \<Rightarrow> (bytes \<times> input_state) option" where
  "read_owed e obj capacity unicode st =
     (case in_pending st obj of None \<Rightarrow> None
      | Some p \<Rightarrow>
          (case take_pending e p capacity unicode of (bs, p) \<Rightarrow>
             Some (bs, st\<lparr>in_pending := (in_pending st)(obj := if pe_text p = [] then None else Some p)\<rparr>)))"

definition control_z :: "bool \<Rightarrow> bytes \<Rightarrow> bytes" where
  "control_z flag bs = (if flag \<and> first_of bs = Some 0x1a then [] else bs)"

subsection \<open>Raw reads\<close>

definition raw_cost :: "console_env \<Rightarrow> bool \<Rightarrow> u16 \<Rightarrow> nat" where
  "raw_cost e unicode ch = (if unicode then 2 else max 1 (length (from_utf16 e [ch])))"

function raw_loop ::
  "console_env \<Rightarrow> bool \<Rightarrow> nat \<Rightarrow> nat \<Rightarrow> nat \<Rightarrow> nat \<Rightarrow> u16 list \<Rightarrow> bytes list \<Rightarrow> u16 list \<times> bytes list" where
  "raw_loop e unicode capacity limit taken used us records =
     (if taken < limit then
        (case records of [] \<Rightarrow> (us, [])
         | r # rs \<Rightarrow>
             (case get_char e r PlainKeys of
                Some (Char ch _) \<Rightarrow>
                  let cost = raw_cost e unicode ch
                  in if capacity < used + cost then (us, r # rs)
                     else raw_loop e unicode capacity limit (taken + 1) (used + cost) (us @ [ch])
                       (if 1 < repeat_count r then with_repeat (repeat_count r - 1) r # rs else rs)
              | _ \<Rightarrow> raw_loop e unicode capacity limit (taken + 1) used us rs))
      else (us, records))"
  by pat_completeness auto
termination by (relation "measure (\<lambda>(_, _, _, limit, taken, _). limit - taken)") auto

declare raw_loop.simps [simp del]

definition read_raw :: "console_env \<Rightarrow> bool \<Rightarrow> bool \<Rightarrow> bool \<Rightarrow> nat \<Rightarrow> input_state \<Rightarrow> bytes option \<times> input_state" where
  "read_raw e unicode waited eof capacity st =
     (let limit = (if waited then case in_first_event st of Some n \<Rightarrow> n | None \<Rightarrow> USIZE_MAX else USIZE_MAX)
      in case raw_loop e unicode capacity limit 0 0 [] (in_records st) of
        (us, records) \<Rightarrow>
          (if us = [] then None else Some (control_z eof (fst (encode_prefix e us capacity unicode))),
           st\<lparr>in_records := records, in_first_event := None\<rparr>))"

subsection \<open>Record reads\<close>

definition expand_record :: "console_env \<Rightarrow> bytes \<Rightarrow> bytes list" where
  "expand_record e r =
     (let ch = u16_at r 14
      in if u16_at r 0 \<noteq> 1 \<or> ch < 0x80 then [r]
         else let encoded = from_utf16 e [ch]; encoded = (if encoded = [] then [63] else encoded)
              in map (\<lambda>b. take 14 r @ le16 (of_nat (unat b)) @ drop 16 r) encoded)"

fun ansi_loop :: "console_env \<Rightarrow> nat \<Rightarrow> bytes list \<Rightarrow> bytes list \<Rightarrow> nat \<Rightarrow> bytes list \<times> nat" where
  "ansi_loop e capacity out [] consumed = (out, consumed)"
| "ansi_loop e capacity out (r # rs) consumed =
     (if capacity \<le> length out then (out, consumed)
      else ansi_loop e capacity (out @ expand_record e r) rs (consumed + 1))"

text \<open>The records of a read, how many queued ones they take, and the cache that is left.\<close>

definition ansi_records :: "console_env \<Rightarrow> bytes list \<Rightarrow> bytes list \<Rightarrow> nat \<Rightarrow> bool \<Rightarrow> (bytes list \<times> nat) \<times> bytes list" where
  "ansi_records e cached records capacity peek =
     (let out = take capacity cached;
          cached = (if peek then cached else drop (length out) cached)
      in case ansi_loop e capacity out records 0 of
        (out, consumed) \<Rightarrow>
          ((take capacity out, consumed), if peek then cached else cached @ drop capacity out))"

definition drop_keyup :: "input_state \<Rightarrow> input_state" where
  "drop_keyup st =
     (let up = (case in_records st of [] \<Rightarrow> False | r # _ \<Rightarrow> take 2 r = [1, 0] \<and> u32_at r 4 = 0)
      in st\<lparr>in_ignore_keyup := False,
            in_records := (if in_ignore_keyup st \<and> up then drop 1 (in_records st) else in_records st)\<rparr>)"

definition read_records ::
  "console_env \<Rightarrow> bool \<Rightarrow> bool \<Rightarrow> bool \<Rightarrow> nat \<Rightarrow> input_state \<Rightarrow> bytes list option \<times> input_state" where
  "read_records e unicode peek nowait capacity st =
     (let st = drop_keyup (st\<lparr>in_first_event := None\<rparr>);
          ((out, count), st) =
            (if unicode then
               let count = min (capacity div 20) (length (in_records st))
               in ((take count (in_records st), count), st\<lparr>in_cached := []\<rparr>)
             else case ansi_records e (in_cached st) (in_records st) (capacity div 20) peek of
               (r, cached) \<Rightarrow> (r, st\<lparr>in_cached := cached\<rparr>))
      in if out = [] \<and> \<not> nowait \<and> in_records st = [] then (None, st)
         else (Some out, if peek then st else st\<lparr>in_records := drop count (in_records st)\<rparr>))"

subsection \<open>Control keys\<close>

definition control_key :: "bytes \<Rightarrow> bool \<Rightarrow> controls" where
  "control_key r processed =
     (let vk = u16_at r 10; ch = u16_at r 14; modifiers = u32_at r 16;
          ctrl = (modifiers AND CTRL \<noteq> 0); alt = (modifiers AND ALT \<noteq> 0)
      in if u32_at r 4 = 0 then \<lparr>co_ctrl_c = False, co_ctrl_break = False\<rparr>
         else if ctrl \<and> vk = VK_CANCEL then \<lparr>co_ctrl_c = False, co_ctrl_break = True\<rparr>
         else \<lparr>co_ctrl_c = processed \<and> (ch = 3 \<or> ctrl \<and> \<not> alt \<and> vk = 67), co_ctrl_break = False\<rparr>)"

definition any_control :: "controls \<Rightarrow> bool" where
  "any_control c \<longleftrightarrow> co_ctrl_c c \<or> co_ctrl_break c"

definition apply_control :: "controls \<Rightarrow> input_state \<Rightarrow> input_state" where
  "apply_control c st =
     (if co_ctrl_break c then
        st\<lparr>in_records := [], in_first_event := None, in_alert := (in_alert st)\<lparr>co_ctrl_break := True\<rparr>\<rparr>
      else if co_ctrl_c c then st\<lparr>in_alert := (in_alert st)\<lparr>co_ctrl_c := True\<rparr>\<rparr>
      else st)"

datatype input_event = Records "bytes list" | Key bytes | Raw ustring

definition push_raw :: "ustring \<Rightarrow> input_state \<Rightarrow> input_state" where
  "push_raw s st = st\<lparr>in_records := in_records st @ map record_char (concat (map encode_utf16 s))\<rparr>"

definition apply_event :: "console_env \<Rightarrow> input_event \<Rightarrow> input_state \<Rightarrow> input_state \<times> controls" where
  "apply_event e ev st =
     (case ev of
        Records rs \<Rightarrow> (st\<lparr>in_records := in_records st @ rs\<rparr>, \<lparr>co_ctrl_c = False, co_ctrl_break = False\<rparr>)
      | Key r \<Rightarrow>
          (let found = control_key r (ce_mode e AND 1 \<noteq> 0)
           in if any_control found then (apply_control found st, found)
              else (if vt_input e then (case ce_vt_text e r of Some s \<Rightarrow> push_raw s st | None \<Rightarrow> st)
                    else st\<lparr>in_records := in_records st @ [r]\<rparr>, found))
      | Raw s \<Rightarrow> (push_raw s st, \<lparr>co_ctrl_c = False, co_ctrl_break = False\<rparr>))"

text \<open>The events of one write; the first to reach an empty queue is remembered.\<close>

definition mark_first :: "bool \<Rightarrow> input_state \<Rightarrow> input_state" where
  "mark_first was_empty st =
     (if was_empty \<and> in_first_event st = None \<and> in_records st \<noteq> []
      then st\<lparr>in_first_event := Some (length (in_records st))\<rparr> else st)"

fun apply_events :: "console_env \<Rightarrow> bool \<Rightarrow> input_event list \<Rightarrow> controls \<Rightarrow> input_state \<Rightarrow> input_state \<times> controls" where
  "apply_events e was_empty [] controls st = (mark_first was_empty st, controls)"
| "apply_events e was_empty (ev # evs) controls st =
     (case apply_event e ev (mark_first was_empty st) of
        (st, found) \<Rightarrow>
          apply_events e was_empty evs
            \<lparr>co_ctrl_c = co_ctrl_c controls \<or> co_ctrl_c found, co_ctrl_break = co_ctrl_break controls \<or> co_ctrl_break found\<rparr> st)"

definition decode_input :: "console_env \<Rightarrow> input_event list \<Rightarrow> input_state \<Rightarrow> input_state \<times> controls" where
  "decode_input e evs st =
     apply_events e (in_records st = []) evs \<lparr>co_ctrl_c = False, co_ctrl_break = False\<rparr> st"

section \<open>Laws\<close>

subsection \<open>Records\<close>

lemma unat_u8_mod: "unat (of_nat n :: u8) = n mod 256"
  by (simp add: unat_of_nat)

lemma digits_256: "n mod 256 + 256 * (n div 256 mod 256) + 65536 * (n div 65536 mod 256)
    + 16777216 * (n div 16777216 mod 256) = (n :: nat)" if "n < 2 ^ 32"
proof -
  define a where "a = n div 256"
  define b where "b = a div 256"
  define c where "c = b div 256"
  have e: "n div 65536 = b" "n div 16777216 = c"
    by (simp_all add: a_def b_def c_def div_mult2_eq [symmetric])
  have "c < 256" using that by (simp add: e(2) [symmetric] div_less_iff_less_mult)
  then have "c mod 256 = c" by simp
  moreover have "n = 256 * a + n mod 256" "a = 256 * b + a mod 256" "b = 256 * c + b mod 256"
    by (simp_all add: a_def b_def c_def)
  ultimately show ?thesis unfolding e a_def [symmetric] by linarith
qed

lemma u16_digits: "of_nat (unat (of_nat (unat u) :: u8) + 256 * unat (of_nat (unat u div 256) :: u8)) = (u :: u16)"
proof -
  have u: "unat u < 2 ^ 16" using unsigned_less [of u] by simp
  then have "unat u div 65536 = 0" "unat u div 16777216 = 0" "unat u < 2 ^ 32" by simp_all
  then have "unat u mod 256 + 256 * (unat u div 256 mod 256) = unat u" using digits_256 [of "unat u"] by simp
  then show ?thesis unfolding unat_u8_mod by (simp only: of_nat_unat ucast_id)
qed

lemma u32_digits:
  "of_nat (unat (of_nat (unat u) :: u8) + 256 * unat (of_nat (unat u div 256) :: u8)
     + 65536 * unat (of_nat (unat u div 65536) :: u8) + 16777216 * unat (of_nat (unat u div 16777216) :: u8)) = (u :: u32)"
proof -
  have "unat u < 2 ^ 32" using unsigned_less [of u] by simp
  from digits_256 [OF this] show ?thesis unfolding unat_u8_mod by (simp only: of_nat_unat ucast_id)
qed

lemma length_key_record [simp]: "length (key_record vk scan ch down control rep) = 20"
  by (simp add: key_record_def le16_def le32_def)

lemma key_record_fields [simp]:
  "u16_at (key_record vk scan ch down control rep) 0 = 1"
  "u32_at (key_record vk scan ch down control rep) 4 = down"
  "u16_at (key_record vk scan ch down control rep) 8 = rep"
  "u16_at (key_record vk scan ch down control rep) 10 = vk"
  "u16_at (key_record vk scan ch down control rep) 14 = ch"
  "u32_at (key_record vk scan ch down control rep) 16 = control"
  using u16_digits [of 1] u16_digits [of rep] u16_digits [of vk] u16_digits [of ch] u32_digits [of down] u32_digits [of control]
  by (simp_all add: key_record_def le16_def le32_def u16_at_def u32_at_def del: of_nat_add of_nat_mult)

lemma with_repeat_fields:
  assumes "length r = 20"
  shows "length (with_repeat n r) = 20" "repeat_count (with_repeat n r) = n" "get_char e (with_repeat n r) = get_char e r"
proof -
  have nth: "with_repeat n r ! i = (if i = 8 then of_nat (unat n) else if i = 9 then of_nat (unat n div 256) else r ! i)"
    if "i < 20" for i
    using that assms by (auto simp: with_repeat_def le16_def nth_append nth_Cons')
  show "length (with_repeat n r) = 20" using assms by (simp add: with_repeat_def le16_def)
  show "repeat_count (with_repeat n r) = n" unfolding repeat_count_def u16_at_def using nth [of 8] nth [of 9] u16_digits [of n] by (simp del: of_nat_add of_nat_mult of_nat_unat)
  have "u16_at (with_repeat n r) 0 = u16_at r 0" "u32_at (with_repeat n r) 4 = u32_at r 4"
    "u16_at (with_repeat n r) 10 = u16_at r 10" "u16_at (with_repeat n r) 14 = u16_at r 14"
    "u32_at (with_repeat n r) 16 = u32_at r 16"
    by (simp_all add: u16_at_def u32_at_def nth)
  then show "get_char e (with_repeat n r) = get_char e r" by (simp add: get_char_def fun_eq_iff)
qed

subsection \<open>Text for a buffer\<close>

lemma length_concat_le16 [simp]: "length (concat (map le16 us)) = 2 * length us"
  by (induction us) (simp_all add: le16_def)

lemma utf16_chars_append:
  "xs = [] \<or> last xs < 0xD800 \<or> 0xDC00 \<le> last xs \<Longrightarrow> utf16_chars (xs @ ys) = utf16_chars xs @ utf16_chars ys"
proof (induction xs rule: utf16_chars.induct)
  case (2 u us)
  have n: "utf16_next (u # us @ ys) = utf16_next (u # us)"
    using 2(2) by (cases us) (auto simp: utf16_next.simps not_less not_le split: list.split)
  let ?n = "snd (utf16_next (u # us))"
  have d: "drop ?n (u # us @ ys) = drop ?n (u # us) @ ys"
    using utf16_next_units [of "u # us"] drop_append [of ?n "u # us" ys] by simp
  have l: "drop ?n (u # us) = [] \<or> last (drop ?n (u # us)) < 0xD800 \<or> 0xDC00 \<le> last (drop ?n (u # us))"
    using 2(2) by (cases "drop ?n (u # us) = []") (simp_all add: last_drop)
  show ?case using 2(1) [OF l] n d by simp
qed simp

lemma utf16_chars_drop: "utf16_chars us = xs @ ys \<Longrightarrow> ys = utf16_chars (drop (sum_list (map snd xs)) us)"
proof (induction us arbitrary: xs rule: utf16_chars.induct)
  case (2 u us)
  show ?case
  proof (cases xs)
    case (Cons x xs')
    have x: "x = utf16_next (u # us) \<and> utf16_chars (drop (snd (utf16_next (u # us))) (u # us)) = xs' @ ys"
      using 2(2) unfolding Cons unfolding utf16_chars.simps append_Cons list.inject by metis
    then have "ys = utf16_chars (drop (sum_list (map snd xs')) (drop (snd (utf16_next (u # us))) (u # us)))"
      using 2(1) by blast
    then show ?thesis using Cons x by (simp add: add.commute)
  qed (use 2 in simp)
qed simp

lemma utf16_chars_take: "utf16_chars us = xs @ ys \<Longrightarrow> utf16_chars (take (sum_list (map snd xs)) us) = xs"
proof (induction us arbitrary: xs rule: utf16_chars.induct)
  case (2 u us)
  show ?case
  proof (cases xs)
    case (Cons x xs')
    let ?n = "snd (utf16_next (u # us))"
    have x: "x = utf16_next (u # us)" "utf16_chars (drop ?n (u # us)) = xs' @ ys"
      using 2(2) unfolding Cons unfolding utf16_chars.simps append_Cons list.inject by metis+
    have n: "1 \<le> ?n" using utf16_next_units [of "u # us"] by simp
    define m where "m = sum_list (map snd xs')"
    have t: "take (?n + m) (u # us) = u # take (?n + m - 1) us" using n by (cases "?n + m") simp_all
    have same: "utf16_next (u # take (?n + m - 1) us) = utf16_next (u # us)"
      using n by (cases us) (auto simp: utf16_next.simps take_Cons' split: list.split)
    have "drop ?n (take (?n + m) (u # us)) = take m (drop ?n (u # us))" by (simp add: drop_take)
    then have "drop ?n (u # take (?n + m - 1) us) = take m (drop ?n (u # us))" using t by simp
    then have "utf16_chars (take (?n + m) (u # us)) = x # xs'"
      unfolding t using 2(1) [OF x(2)] x(1) same by (simp add: m_def)
    then show ?thesis using Cons x(1) by (simp add: m_def)
  qed simp
qed simp

text \<open>The characters of UTF-16 text, as scalars, with the units they were.\<close>

definition scalar_of :: "scalar option \<times> nat \<Rightarrow> scalar" where
  "scalar_of x = (case fst x of Some c \<Rightarrow> c | None \<Rightarrow> replacement)"

lemma lossy_scalars: "from_utf16_lossy us = map scalar_of (utf16_chars us)"
  by (simp add: from_utf16_lossy_def scalar_of_def case_prod_unfold)

lemma utf16_next_scalar: "length (encode_utf16 (scalar_of (utf16_next (u # us)))) = snd (utf16_next (u # us))"
  using unsigned_less [of u]
  by (cases us) (auto simp: utf16_next.simps scalar_of_def encode_utf16_def replacement_def word_less_nat_alt word_le_nat_alt)

lemma utf16_chars_lengths: "x \<in> set (utf16_chars us) \<Longrightarrow> length (encode_utf16 (scalar_of x)) = snd x"
  by (induction us rule: utf16_chars.induct) (auto simp: utf16_next_scalar)

text \<open>The whole text as bytes.\<close>

definition text_bytes :: "console_env \<Rightarrow> bool \<Rightarrow> u16 list \<Rightarrow> bytes" where
  "text_bytes e unicode us =
     (if unicode then concat (map le16 us)
      else concat (map (\<lambda>x. from_utf16 e (encode_utf16 (scalar_of x))) (utf16_chars us)))"

lemma encode_chars_spec:
  "encode_chars e capacity cs bs units = (out, n) \<Longrightarrow> length bs \<le> capacity \<Longrightarrow>
   \<forall>x \<in> set cs. length (encode_utf16 (scalar_of x)) = snd x \<Longrightarrow>
   \<exists>xs ys. cs = xs @ ys \<and> n = units + sum_list (map snd xs) \<and> length out \<le> capacity \<and>
     out = bs @ concat (map (\<lambda>x. from_utf16 e (encode_utf16 (scalar_of x))) xs) \<and>
     (ys \<noteq> [] \<longrightarrow> capacity < length out + length (from_utf16 e (encode_utf16 (scalar_of (hd ys)))))"
proof (induction e capacity cs bs units rule: encode_chars.induct)
  case (2 e capacity c k cs bs units)
  let ?w = "encode_utf16 (scalar_of (c, k))"
  have w: "(case c of Some c \<Rightarrow> c | None \<Rightarrow> replacement) = scalar_of (c, k)" by (simp add: scalar_of_def)
  show ?case
  proof (cases "capacity < length bs + length (from_utf16 e ?w)")
    case True
    then show ?thesis using 2(2,3) by (intro exI [of _ "[]"] exI [of _ "(c, k) # cs"]) (simp add: w)
  next
    case False
    have "encode_chars e capacity cs (bs @ from_utf16 e ?w) (units + length ?w) = (out, n)"
      using 2(2) False by (simp add: w Let_def)
    then have "\<exists>xs ys. cs = xs @ ys \<and> n = units + length ?w + sum_list (map snd xs) \<and> length out \<le> capacity \<and>
      out = (bs @ from_utf16 e ?w) @ concat (map (\<lambda>x. from_utf16 e (encode_utf16 (scalar_of x))) xs) \<and>
      (ys \<noteq> [] \<longrightarrow> capacity < length out + length (from_utf16 e (encode_utf16 (scalar_of (hd ys)))))"
      using 2(1) [OF refl refl, unfolded w, OF False] False 2(4) by simp
    then obtain xs ys where
      "cs = xs @ ys" "n = units + length ?w + sum_list (map snd xs)" "length out \<le> capacity"
      "out = (bs @ from_utf16 e ?w) @ concat (map (\<lambda>x. from_utf16 e (encode_utf16 (scalar_of x))) xs)"
      "ys \<noteq> [] \<longrightarrow> capacity < length out + length (from_utf16 e (encode_utf16 (scalar_of (hd ys))))"
      by blast
    then show ?thesis using 2(4) by (intro exI [of _ "(c, k) # xs"] exI [of _ ys]) simp
  qed
qed simp

lemma encode_prefix_spec:
  assumes "encode_prefix e us capacity unicode = (out, n)"
  shows "n \<le> length us" "length out \<le> capacity" "text_bytes e unicode us = out @ text_bytes e unicode (drop n us)"
    "out = text_bytes e unicode (take n us)"
    "us \<noteq> [] \<Longrightarrow> unicode \<and> 2 \<le> capacity \<or> \<not> unicode \<and> (\<forall>x \<in> set (utf16_chars us). length (from_utf16 e (encode_utf16 (scalar_of x))) \<le> capacity)
       \<Longrightarrow> 0 < n"
proof -
  have all: "n \<le> length us \<and> length out \<le> capacity \<and> text_bytes e unicode us = out @ text_bytes e unicode (drop n us) \<and>
    out = text_bytes e unicode (take n us) \<and>
    (us \<noteq> [] \<longrightarrow> unicode \<and> 2 \<le> capacity \<or> \<not> unicode \<and> (\<forall>x \<in> set (utf16_chars us). length (from_utf16 e (encode_utf16 (scalar_of x))) \<le> capacity)
       \<longrightarrow> 0 < n)"
  proof (cases unicode)
    case True
    then have "n = min (capacity div 2) (length us)" "out = concat (map le16 (take n us))"
      using assms by (auto simp: encode_prefix_def Let_def)
    moreover have "concat (map le16 us) = concat (map le16 (take n us)) @ concat (map le16 (drop n us))"
      by (metis append_take_drop_id concat_append map_append)
    ultimately show ?thesis using True by (auto simp: text_bytes_def)
  next
    case False
    let ?enc = "\<lambda>x. from_utf16 e (encode_utf16 (scalar_of x))"
    have "encode_chars e capacity (utf16_chars us) [] 0 = (out, n)" using assms False by (simp add: encode_prefix_def)
    from encode_chars_spec [OF this] obtain xs ys where s: "utf16_chars us = xs @ ys" "n = sum_list (map snd xs)"
      "length out \<le> capacity" "out = concat (map ?enc xs)" "ys \<noteq> [] \<longrightarrow> capacity < length out + length (?enc (hd ys))"
      using utf16_chars_lengths by auto
    have ys: "ys = utf16_chars (drop n us)" unfolding s(2) by (rule utf16_chars_drop [OF s(1)])
    have n: "n \<le> length us" using utf16_chars_units [of us] s(1,2) by simp
    have "utf16_chars (take n us) = xs" using utf16_chars_take [OF s(1)] s(2) by simp
    then have "out = text_bytes e unicode (take n us)" using False s(4) by (simp add: text_bytes_def)
    moreover have "0 < n" if "us \<noteq> []" "\<forall>x \<in> set (utf16_chars us). length (?enc x) \<le> capacity"
    proof -
      have "utf16_chars us \<noteq> []" using that(1) by (cases us) simp_all
      moreover have "xs \<noteq> []"
      proof
        assume "xs = []"
        then show False using s calculation that(2) by (cases ys) auto
      qed
      then obtain x xs' where "xs = x # xs'" by (cases xs) auto
      moreover have "1 \<le> snd x" using utf16_chars_pos [of us] s(1) \<open>xs = x # xs'\<close> by auto
      ultimately show ?thesis using s(2) by simp
    qed
    ultimately show ?thesis using False s n ys by (auto simp: text_bytes_def)
  qed
  show "n \<le> length us" "length out \<le> capacity" "text_bytes e unicode us = out @ text_bytes e unicode (drop n us)"
    "out = text_bytes e unicode (take n us)"
    "us \<noteq> [] \<Longrightarrow> unicode \<and> 2 \<le> capacity \<or> \<not> unicode \<and> (\<forall>x \<in> set (utf16_chars us). length (from_utf16 e (encode_utf16 (scalar_of x))) \<le> capacity)
       \<Longrightarrow> 0 < n" using all by auto
qed

subsection \<open>UTF-8\<close>

lemma utf16_next_encode: "is_scalar c \<Longrightarrow> utf16_next (encode_utf16 c @ us) = (Some c, length (encode_utf16 c))"
proof -
  assume c: "is_scalar c"
  show ?thesis
  proof (cases "c < 0x10000")
    case True
    then have "unat (of_nat c :: u16) = c" by (simp add: unat_of_nat)
    then show ?thesis using True c
      by (auto simp: encode_utf16_def utf16_next.simps is_scalar_def word_less_nat_alt word_le_nat_alt)
  next
    case False
    define d m where "d = (c - 0x10000) div 0x400" and "m = (c - 0x10000) mod 0x400"
    have dm: "d < 0x400" "m < 0x400" "c = 0x10000 + d * 0x400 + m"
      using False c by (auto simp: d_def m_def is_scalar_def div_less_iff_less_mult)
    define hi lo :: u16 where "hi = of_nat (0xD800 + d)" and "lo = of_nat (0xDC00 + m)"
    have u: "unat hi = 0xD800 + d" "unat lo = 0xDC00 + m"
      using dm by (simp_all add: hi_def lo_def unat_of_nat del: of_nat_add)
    have "encode_utf16 c = [hi, lo]" using False by (simp add: encode_utf16_def hi_def lo_def d_def m_def)
    moreover have "utf16_next (hi # lo # us) = (Some c, 2)"
      using dm(1,2) u by (simp add: utf16_next.simps dm(3) word_less_nat_alt word_le_nat_alt)
    ultimately show ?thesis by simp
  qed
qed

lemma utf16_chars_encode: "is_scalar c \<Longrightarrow> utf16_chars (encode_utf16 c) = [(Some c, length (encode_utf16 c))]"
  using utf16_next_encode [of c "[]"] by (cases "encode_utf16 c") (auto simp: encode_utf16_def split: if_splits)

lemma lossy_encode: "is_scalar c \<Longrightarrow> from_utf16_lossy (encode_utf16 c) = [c]"
  by (simp add: lossy_scalars utf16_chars_encode scalar_of_def)

lemma utf16_next_is_scalar: "is_scalar (scalar_of (utf16_next (u # us)))"
proof (cases us)
  case Nil
  have "unat u < 65536" using unsigned_less [of u] by simp
  then show ?thesis
    using Nil by (auto simp: utf16_next.simps scalar_of_def is_scalar_def replacement_def word_less_nat_alt word_le_nat_alt)
next
  case (Cons v vs)
  have "unat u < 65536" "unat v < 65536" using unsigned_less [of u] unsigned_less [of v] by simp_all
  then show ?thesis
    using Cons by (auto simp: utf16_next.simps scalar_of_def is_scalar_def replacement_def word_less_nat_alt word_le_nat_alt)
qed

lemma utf16_chars_scalar: "x \<in> set (utf16_chars us) \<Longrightarrow> is_scalar (scalar_of x)"
  by (induction us rule: utf16_chars.induct) (auto simp: utf16_next_is_scalar)

lemma encode_utf16_not_empty [simp]: "encode_utf16 c \<noteq> []"
  by (simp add: encode_utf16_def)

lemma utf8_char:
  "ce_code_page e = CP_UTF8 \<Longrightarrow> x \<in> set (utf16_chars us) \<Longrightarrow> from_utf16 e (encode_utf16 (scalar_of x)) = encode_utf8 (scalar_of x)"
  by (simp add: from_utf16_def lossy_encode utf16_chars_scalar as_bytes_def)

lemma text_bytes_utf8: "ce_code_page e = CP_UTF8 \<Longrightarrow> text_bytes e False us = as_bytes (from_utf16_lossy us)"
  by (simp add: text_bytes_def as_bytes_def lossy_scalars utf8_char cong: map_cong)

subsection \<open>Text owed\<close>

text \<open>A capacity with room for any one character.\<close>

definition room :: "console_env \<Rightarrow> bool \<Rightarrow> nat \<Rightarrow> bool" where
  "room e unicode capacity \<longleftrightarrow> (if unicode then 2 \<le> capacity else ce_code_page e = CP_UTF8 \<and> 4 \<le> capacity)"

lemma room_prefix:
  "room e unicode capacity \<Longrightarrow> us \<noteq> [] \<Longrightarrow> encode_prefix e us capacity unicode = (out, n) \<Longrightarrow> 0 < n"
  using encode_prefix_spec(5) [of e us capacity unicode out n]
  by (auto simp: room_def utf8_char length_encode_utf8 len_utf8_def split: if_splits)

lemma line_limit_le: "line_limit m us \<le> length us"
  by (auto simp: line_limit_def dest!: position_SomeD split: option.split)

lemma text_bytes_at_line:
  assumes "n \<le> line_limit m us"
  shows "text_bytes e unicode (drop n us) =
    text_bytes e unicode (drop n (take (line_limit m us) us)) @ text_bytes e unicode (drop (line_limit m us) us)"
proof -
  let ?l = "line_limit m us"
  have d: "drop n us = drop n (take ?l us) @ drop ?l us"
    using assms by (metis append_take_drop_id drop_append length_take line_limit_le min.absorb2 drop_0 diff_is_0_eq)
  have "drop ?l us = [] \<or> drop n (take ?l us) = [] \<or> last (drop n (take ?l us)) = 10"
  proof (cases "m \<and> position (\<lambda>u. u = 10) us \<noteq> None")
    case True
    then obtain i where i: "position (\<lambda>u. u = 10) us = Some i" "?l = i + 1" by (auto simp: line_limit_def)
    then have "us ! i = 10" "i < length us" using position_SomeD [OF i(1)] by auto
    then have "last (take ?l us) = 10" "take ?l us \<noteq> []" using i(2) by (simp_all add: take_Suc_conv_app_nth)
    moreover have "last (drop n (take ?l us)) = last (take ?l us)" if "drop n (take ?l us) \<noteq> []"
      by (rule last_drop) (use that in \<open>simp add: not_le\<close>)
    ultimately show ?thesis by metis
  qed (auto simp: line_limit_def)
  then have "utf16_chars (drop n (take ?l us) @ drop ?l us) = utf16_chars (drop n (take ?l us)) @ utf16_chars (drop ?l us)"
    using utf16_chars_append [of "drop n (take ?l us)" "drop ?l us"] by auto
  then show ?thesis unfolding d by (simp add: text_bytes_def)
qed

lemma take_pending_spec:
  assumes "take_pending e p capacity unicode = (out, p')"
  obtains n where "p' = p\<lparr>pe_text := drop n (pe_text p)\<rparr>" "n \<le> length (pe_text p)" "length out \<le> capacity"
    "text_bytes e unicode (pe_text p) = out @ text_bytes e unicode (drop n (pe_text p))"
    "out = text_bytes e unicode (take n (pe_text p))"
    "room e unicode capacity \<longrightarrow> pe_text p \<noteq> [] \<longrightarrow> 0 < n"
    "pe_multiline p \<longrightarrow> 10 \<notin> set (butlast (take n (pe_text p)))"
proof -
  define l where "l = line_limit (pe_multiline p) (pe_text p)"
  obtain n where n: "encode_prefix e (take l (pe_text p)) capacity unicode = (out, n)" "p' = p\<lparr>pe_text := drop n (pe_text p)\<rparr>"
    using assms by (auto simp: take_pending_def l_def split: prod.splits)
  note spec = encode_prefix_spec [OF n(1)]
  have l: "l \<le> length (pe_text p)" unfolding l_def by (rule line_limit_le)
  then have nl: "n \<le> l" using spec(1) by simp
  have "text_bytes e unicode (pe_text p) = text_bytes e unicode (take l (pe_text p)) @ text_bytes e unicode (drop l (pe_text p))"
    using text_bytes_at_line [of 0 "pe_multiline p" "pe_text p"] by (simp add: l_def)
  then have "text_bytes e unicode (pe_text p) = out @ text_bytes e unicode (drop n (pe_text p))"
    using spec(3) text_bytes_at_line [OF nl [unfolded l_def]] by (simp add: l_def)
  moreover have "take l (pe_text p) \<noteq> []" if "pe_text p \<noteq> []"
    using that by (auto simp: l_def line_limit_def split: option.split)
  moreover have "10 \<notin> set (butlast (take n (pe_text p)))" if "pe_multiline p"
  proof
    assume "10 \<in> set (butlast (take n (pe_text p)))"
    then obtain j where j: "j < n - 1" "pe_text p ! j = 10"
      by (auto simp: in_set_conv_nth nth_butlast less_diff_conv)
    then obtain i where i: "position (\<lambda>u. u = 10) (pe_text p) = Some i"
      using nl l by (cases "position (\<lambda>u. u = 10) (pe_text p)") (auto simp: position_None_iff)
    then have "i \<le> j" using position_SomeD [OF i] j(2) by (meson not_le_imp_less)
    then show False using i that nl j(1) by (simp add: l_def line_limit_def)
  qed
  ultimately show thesis
    using that [OF n(2)] spec(1,2,4) l nl room_prefix [OF _ _ n(1)] by (auto simp: min_def)
qed

fun read_all_owed :: "console_env \<Rightarrow> nat \<Rightarrow> bool \<Rightarrow> nat list \<Rightarrow> input_state \<Rightarrow> bytes list \<times> input_state" where
  "read_all_owed e obj unicode [] st = ([], st)"
| "read_all_owed e obj unicode (capacity # caps) st =
     (case read_owed e obj capacity unicode st of None \<Rightarrow> ([], st)
      | Some (out, st) \<Rightarrow> (case read_all_owed e obj unicode caps st of (outs, st) \<Rightarrow> (out # outs, st)))"

lemma owed_delivered:
  assumes "in_pending st obj = Some p" "pe_text p \<noteq> []" "\<forall>capacity \<in> set caps. room e unicode capacity"
    and "length (pe_text p) \<le> length caps"
  shows "\<exists>chunks st'. read_all_owed e obj unicode caps st = (map (text_bytes e unicode) chunks, st') \<and>
    concat chunks = pe_text p \<and>
    concat (map (text_bytes e unicode) chunks) = text_bytes e unicode (pe_text p) \<and>
    list_all2 (\<lambda>chunk capacity. length (text_bytes e unicode chunk) \<le> capacity) chunks (take (length chunks) caps) \<and>
    (pe_multiline p \<longrightarrow> (\<forall>chunk \<in> set chunks. 10 \<notin> set (butlast chunk))) \<and>
    in_pending st' obj = None"
  using assms
proof (induction caps arbitrary: st p)
  case (Cons capacity caps)
  obtain out p' where t: "take_pending e p capacity unicode = (out, p')" by fastforce
  obtain n where n: "p' = p\<lparr>pe_text := drop n (pe_text p)\<rparr>" "n \<le> length (pe_text p)" "length out \<le> capacity"
    "text_bytes e unicode (pe_text p) = out @ text_bytes e unicode (drop n (pe_text p))"
    "out = text_bytes e unicode (take n (pe_text p))" "0 < n"
    "pe_multiline p \<longrightarrow> 10 \<notin> set (butlast (take n (pe_text p)))"
    by (rule take_pending_spec [OF t]) (use Cons.prems in auto)
  define st1 where "st1 = st\<lparr>in_pending := (in_pending st)(obj := if pe_text p' = [] then None else Some p')\<rparr>"
  have r: "read_owed e obj capacity unicode st = Some (out, st1)"
    using Cons.prems(1) t by (simp add: read_owed_def st1_def)
  show ?case
  proof (cases "pe_text p' = []")
    case True
    then have "n = length (pe_text p)" using n(1,2) by simp
    moreover have "read_all_owed e obj unicode caps st1 = ([], st1)"
      using True by (cases caps) (simp_all add: read_owed_def st1_def)
    ultimately have "read_all_owed e obj unicode (capacity # caps) st = ([out], st1)" "out = text_bytes e unicode (pe_text p)"
      using r n(5) by simp_all
    moreover have "in_pending st1 obj = None" using True by (simp add: st1_def)
    ultimately show ?thesis
      using n(3,7) \<open>n = length (pe_text p)\<close> by (intro exI [of _ "[pe_text p]"] exI [of _ st1]) simp
  next
    case False
    have "in_pending st1 obj = Some p'" using False by (simp add: st1_def)
    moreover have "length (pe_text p') \<le> length caps" using n(1,6) Cons.prems(2,4) by simp
    ultimately obtain chunks st' where c: "read_all_owed e obj unicode caps st1 = (map (text_bytes e unicode) chunks, st')"
      "concat chunks = pe_text p'" "concat (map (text_bytes e unicode) chunks) = text_bytes e unicode (pe_text p')"
      "list_all2 (\<lambda>chunk capacity. length (text_bytes e unicode chunk) \<le> capacity) chunks (take (length chunks) caps)"
      "pe_multiline p' \<longrightarrow> (\<forall>chunk \<in> set chunks. 10 \<notin> set (butlast chunk))" "in_pending st' obj = None"
      using Cons.IH [of st1 p'] False Cons.prems(3) by (auto simp del: read_all_owed.simps)
    have "read_all_owed e obj unicode (capacity # caps) st = (map (text_bytes e unicode) (take n (pe_text p) # chunks), st')"
      using r c(1) n(5) by simp
    moreover have "pe_text p = concat (take n (pe_text p) # chunks)" using c(2) n(1) by simp
    moreover have "text_bytes e unicode (pe_text p) = concat (map (text_bytes e unicode) (take n (pe_text p) # chunks))"
      using c(3) n(1,4,5) by simp
    moreover have "pe_multiline p \<longrightarrow> (\<forall>chunk \<in> set (take n (pe_text p) # chunks). 10 \<notin> set (butlast chunk))"
      using c(5) n(1,7) by simp
    moreover have "list_all2 (\<lambda>chunk capacity. length (text_bytes e unicode chunk) \<le> capacity) (take n (pe_text p) # chunks)
        (take (length (take n (pe_text p) # chunks)) (capacity # caps))"
      using c(4) n(3,5) by simp
    ultimately show ?thesis using c(6) by metis
  qed
qed simp

text \<open>
  Text owed to a handle, the rest of a line or the further lines of a multi-line alias, is
  delivered whole by the reads that follow: as UTF-16, or as UTF-8 with room for a character,
  the reads return consecutive pieces of it, each within its buffer, until nothing is owed;
  of a multi-line alias no read returns more than one line.
\<close>

theorem owed_text_is_delivered:
  assumes "in_pending st obj = Some p" "pe_text p \<noteq> []" "\<forall>capacity \<in> set caps. room e unicode capacity"
    and "length (pe_text p) \<le> length caps"
  shows "\<exists>chunks st'. read_all_owed e obj unicode caps st = (map (text_bytes e unicode) chunks, st') \<and>
    concat chunks = pe_text p \<and>
    concat (map (text_bytes e unicode) chunks) = text_bytes e unicode (pe_text p) \<and>
    list_all2 (\<lambda>chunk capacity. length (text_bytes e unicode chunk) \<le> capacity) chunks (take (length chunks) caps) \<and>
    (pe_multiline p \<longrightarrow> (\<forall>chunk \<in> set chunks. 10 \<notin> set (butlast chunk))) \<and>
    in_pending st' obj = None"
  by (rule owed_delivered [OF assms])

definition plain_env :: console_env where
  "plain_env = \<lparr>ce_width = \<lambda>_. Some 1, ce_code_pages = \<lambda>_ us. map (\<lambda>u. of_nat (unat u)) us, ce_nul_key = 0x332,
     ce_vt_text = \<lambda>_. None, ce_mode = 0x1f7, ce_code_page = CP_UTF8\<rparr>"

definition idle_input :: input_state where
  "idle_input = \<lparr>in_records = [], in_pending = Map.empty, in_ignore_keyup = False, in_first_event = None,
     in_alert = \<lparr>co_ctrl_c = False, co_ctrl_break = False\<rparr>, in_cached = []\<rparr>"

theorem owed_text_is_delivered_witness:
  "\<exists>chunks st'. read_all_owed plain_env 3 True [3, 8, 8]
      (idle_input\<lparr>in_pending := [3 \<mapsto> \<lparr>pe_text = [97, 10, 98], pe_multiline = True\<rparr>]\<rparr>) =
      (map (text_bytes plain_env True) chunks, st') \<and> concat chunks = [97, 10, 98] \<and> in_pending st' 3 = None"
  using owed_text_is_delivered [of "idle_input\<lparr>in_pending := [3 \<mapsto> \<lparr>pe_text = [97, 10, 98], pe_multiline = True\<rparr>]\<rparr>" 3
      "\<lparr>pe_text = [97, 10, 98], pe_multiline = True\<rparr>" "[3, 8, 8]" plain_env True]
  by (auto simp: room_def simp del: read_all_owed.simps)

subsection \<open>Raw reads\<close>

text \<open>What a record types in a raw read.\<close>

definition typed_units :: "console_env \<Rightarrow> bytes \<Rightarrow> u16 list" where
  "typed_units e r =
     (case get_char e r PlainKeys of Some (Char ch _) \<Rightarrow> replicate (max 1 (unat (repeat_count r))) ch | _ \<Rightarrow> [])"

definition queue_units :: "console_env \<Rightarrow> bytes list \<Rightarrow> u16 list" where
  "queue_units e rs = concat (map (typed_units e) rs)"

lemma typed_units_repeat:
  assumes "length r = 20" "get_char e r PlainKeys = Some (Char ch m)"
  shows "typed_units e r = ch # queue_units e (if 1 < repeat_count r then [with_repeat (repeat_count r - 1) r] else [])"
proof (cases "1 < repeat_count r")
  case True
  then have "1 < unat (repeat_count r)" "unat (repeat_count r - 1) = unat (repeat_count r) - 1"
    by (simp_all add: word_less_nat_alt unat_sub_if')
  then show ?thesis using True assms with_repeat_fields [OF assms(1)]
    by (cases "unat (repeat_count r)") (auto simp: typed_units_def queue_units_def max_def simp flip: replicate_Suc)
next
  case False
  then have "unat (repeat_count r) \<le> 1" by (simp add: word_less_nat_alt)
  then show ?thesis using False assms by (simp add: typed_units_def queue_units_def max_def)
qed

lemma get_char_plain: "get_char e r PlainKeys = Some k \<Longrightarrow> \<exists>ch m. k = Char ch m"
  by (auto simp: get_char_def is_editing_key_def Let_def split: if_splits)

definition records_ok :: "bytes list \<Rightarrow> bool" where
  "records_ok rs \<longleftrightarrow> (\<forall>r \<in> set rs. length r = 20)"

lemma raw_loop_keeps:
  "raw_loop e unicode capacity limit taken used us rs = (us', rs') \<Longrightarrow> records_ok rs \<Longrightarrow>
   used = sum_list (map (raw_cost e unicode) us) \<Longrightarrow> used \<le> capacity \<Longrightarrow>
   us' @ queue_units e rs' = us @ queue_units e rs \<and> records_ok rs' \<and> sum_list (map (raw_cost e unicode) us') \<le> capacity"
proof (induction e unicode capacity limit taken used us rs rule: raw_loop.induct)
  case (1 e unicode capacity limit taken used us rs)
  show ?case
  proof (cases "taken < limit \<and> rs \<noteq> []")
    case False
    then have "us' = us \<and> rs' = rs"
      using 1(4) by (cases rs) (auto simp: raw_loop.simps [of e unicode] split: if_splits)
    then show ?thesis using 1(5-7) by blast
  next
    case True
    then obtain r rest where rs: "rs = r # rest" by (cases rs) auto
    have r: "length r = 20" "records_ok rest" using 1(5) by (simp_all add: rs records_ok_def)
    show ?thesis
    proof (cases "get_char e r PlainKeys")
      case None
      then have "typed_units e r = []" by (simp add: typed_units_def)
      moreover have "raw_loop e unicode capacity limit (taken + 1) used us rest = (us', rs')"
        using 1(4) True None by (simp add: rs raw_loop.simps [of e unicode capacity limit taken])
      ultimately show ?thesis using 1(1) [OF _ rs None] True r(2) 1(6,7) by (simp add: rs queue_units_def)
    next
      case (Some k)
      then obtain ch m where k: "get_char e r PlainKeys = Some (Char ch m)" using get_char_plain by blast
      let ?cost = "raw_cost e unicode ch"
      let ?rest = "if 1 < repeat_count r then with_repeat (repeat_count r - 1) r # rest else rest"
      have q: "queue_units e rs = ch # queue_units e ?rest"
        using typed_units_repeat [OF r(1) k] by (simp add: rs queue_units_def)
      show ?thesis
      proof (cases "capacity < used + ?cost")
        case True
        then have "us' = us" "rs' = rs"
          using 1(4) k \<open>taken < limit \<and> rs \<noteq> []\<close> by (simp_all add: rs raw_loop.simps [of e unicode capacity limit taken] Let_def)
        then show ?thesis using 1(5-7) by simp
      next
        case False
        have "raw_loop e unicode capacity limit (taken + 1) (used + ?cost) (us @ [ch]) ?rest = (us', rs')"
          using 1(4) k False True by (simp add: rs raw_loop.simps [of e unicode capacity limit taken] Let_def)
        moreover have "records_ok ?rest" using r with_repeat_fields(1) [OF r(1)] by (simp add: records_ok_def)
        ultimately show ?thesis
          using 1(2) [OF _ rs k refl refl False] True 1(6) False q by simp
      qed
    qed
  qed
qed

lemma raw_loop_extends: "\<exists>more. fst (raw_loop e unicode capacity limit taken used us rs) = us @ more"
proof (induction e unicode capacity limit taken used us rs rule: raw_loop.induct)
  case (1 e unicode capacity limit taken used us rs)
  show ?case
  proof (cases "taken < limit \<and> rs \<noteq> []")
    case True
    then obtain r rest where rs: "rs = r # rest" by (cases rs) auto
    show ?thesis
    proof (cases "get_char e r PlainKeys")
      case None
      then show ?thesis using 1(1) [OF _ rs None] True by (simp add: rs raw_loop.simps [of e unicode capacity limit taken])
    next
      case (Some k)
      then obtain ch m where k: "get_char e r PlainKeys = Some (Char ch m)" using get_char_plain by blast
      show ?thesis
        using 1(2) [OF _ rs k refl refl] True k
        by (cases "capacity < used + raw_cost e unicode ch") (auto simp: rs raw_loop.simps [of e unicode capacity limit taken] Let_def)
    qed
  qed (cases rs; auto simp: raw_loop.simps [of e unicode])
qed

text \<open>A read that has room returns something as soon as something was typed.\<close>

lemma raw_loop_returns:
  "queue_units e rs \<noteq> [] \<Longrightarrow> taken + length rs \<le> limit \<Longrightarrow> 2 \<le> capacity \<Longrightarrow>
   fst (raw_loop e True capacity limit taken 0 [] rs) \<noteq> []"
proof (induction rs arbitrary: taken)
  case (Cons r rs)
  then have l: "taken < limit" by simp
  show ?case
  proof (cases "get_char e r PlainKeys")
    case None
    then have "queue_units e rs \<noteq> []" using Cons.prems(1) by (simp add: queue_units_def typed_units_def)
    then show ?thesis using Cons.IH [of "taken + 1"] Cons.prems None l by (simp add: raw_loop.simps [of e True capacity limit taken])
  next
    case (Some k)
    then obtain ch m where k: "get_char e r PlainKeys = Some (Char ch m)" using get_char_plain by blast
    have "fst (raw_loop e True capacity limit (Suc taken) (Suc (Suc 0)) [ch] rest) \<noteq> []" for rest
      using raw_loop_extends [of e True capacity limit "Suc taken" "Suc (Suc 0)" "[ch]" rest] by auto
    then show ?thesis
      using k l Cons.prems(3) by (simp add: raw_loop.simps [of e True capacity limit taken] raw_cost_def)
  qed
qed (simp add: queue_units_def)

lemma raw_read_keeps:
  assumes "records_ok (in_records st)" "read_raw e True waited False capacity st = (out, st')"
  shows "concat (map le16 (queue_units e (in_records st))) =
      (case out of None \<Rightarrow> [] | Some bs \<Rightarrow> bs) @ concat (map le16 (queue_units e (in_records st')))"
    and "case out of None \<Rightarrow> True | Some bs \<Rightarrow> length bs \<le> capacity"
    and "records_ok (in_records st')"
    and "\<not> waited \<Longrightarrow> 2 \<le> capacity \<Longrightarrow> length (in_records st) \<le> USIZE_MAX \<Longrightarrow>
      queue_units e (in_records st) \<noteq> [] \<Longrightarrow> out \<noteq> None"
proof -
  define limit where "limit = (if waited then case in_first_event st of Some n \<Rightarrow> n | None \<Rightarrow> USIZE_MAX else USIZE_MAX)"
  obtain us rs where loop: "raw_loop e True capacity limit 0 0 [] (in_records st) = (us, rs)" by fastforce
  have st': "st' = st\<lparr>in_records := rs, in_first_event := None\<rparr>"
    and out: "out = (if us = [] then None else Some (fst (encode_prefix e us capacity True)))"
    using assms(2) unfolding read_raw_def limit_def [symmetric] Let_def loop by (auto simp: control_z_def)
  have k: "us @ queue_units e rs = queue_units e (in_records st)" "records_ok rs" "sum_list (map (raw_cost e True) us) \<le> capacity"
    using raw_loop_keeps [OF loop assms(1)] by simp_all
  have "sum_list (map (raw_cost e True) us) = 2 * length us" by (induction us) (simp_all add: raw_cost_def)
  then have len: "2 * length us \<le> capacity" using k(3) by simp
  then have "length us \<le> capacity div 2" by simp
  then have bytes: "fst (encode_prefix e us capacity True) = concat (map le16 us)"
    by (simp add: encode_prefix_def Let_def min_absorb2)
  show "concat (map le16 (queue_units e (in_records st))) =
      (case out of None \<Rightarrow> [] | Some bs \<Rightarrow> bs) @ concat (map le16 (queue_units e (in_records st')))"
    using bytes by (simp add: k(1) [symmetric] out st')
  show "case out of None \<Rightarrow> True | Some bs \<Rightarrow> length bs \<le> capacity" using bytes len by (simp add: out)
  show "records_ok (in_records st')" using k(2) by (simp add: st')
  show "out \<noteq> None" if "\<not> waited" "2 \<le> capacity" "length (in_records st) \<le> USIZE_MAX" "queue_units e (in_records st) \<noteq> []"
    using raw_loop_returns [OF that(4), of 0 limit capacity] that(1-3) loop by (simp add: out limit_def)
qed

text \<open>
  A raw UTF-16 read loses nothing: what it returns, followed by what the queue still
  types, is what the queue typed before, repeat counts included; it fits the caller's
  buffer, and a read that has room and has not been told to wait for the first event alone
  returns something as soon as anything was typed.
\<close>

theorem raw_reads_lose_nothing:
  assumes "records_ok (in_records st)" "read_raw e True waited False capacity st = (out, st')"
  shows "concat (map le16 (queue_units e (in_records st))) =
      (case out of None \<Rightarrow> [] | Some bs \<Rightarrow> bs) @ concat (map le16 (queue_units e (in_records st'))) \<and>
    (case out of None \<Rightarrow> True | Some bs \<Rightarrow> length bs \<le> capacity) \<and> records_ok (in_records st') \<and>
    (\<not> waited \<and> 2 \<le> capacity \<and> length (in_records st) \<le> USIZE_MAX \<and> queue_units e (in_records st) \<noteq> [] \<longrightarrow> out \<noteq> None)"
  using raw_read_keeps [OF assms] by blast

lemma record_char_types: "ch \<noteq> 0 \<Longrightarrow> ch \<noteq> 10 \<Longrightarrow> get_char e (record_char ch) keys = Some (Char ch 0)"
  by (cases keys) (simp_all add: get_char_def record_char_def is_editing_key_def popup_key_def vk_defs VK_MENU_def Let_def)

lemma record_char_repeat [simp]: "repeat_count (record_char ch) = 1" "length (record_char ch) = 20"
  by (simp_all add: repeat_count_def record_char_def)

theorem raw_reads_lose_nothing_witness:
  "\<exists>bs st'. read_raw plain_env True False False 4 (idle_input\<lparr>in_records := map record_char [97, 98, 99]\<rparr>) = (Some bs, st') \<and>
     length bs \<le> 4 \<and> concat (map le16 [97, 98, 99]) = bs @ concat (map le16 (queue_units plain_env (in_records st')))"
proof -
  let ?st = "idle_input\<lparr>in_records := map record_char [97, 98, 99]\<rparr>"
  obtain out st' where r: "read_raw plain_env True False False 4 ?st = (out, st')" by fastforce
  have ok: "records_ok (in_records ?st)" by (simp add: records_ok_def)
  have q: "queue_units plain_env (in_records ?st) = [97, 98, 99]"
    by (simp add: queue_units_def typed_units_def record_char_types)
  have "out \<noteq> None" using raw_reads_lose_nothing [OF ok r] q by (simp add: USIZE_MAX_def)
  then show ?thesis using raw_reads_lose_nothing [OF ok r] q r by auto
qed

text \<open>
  A raw read in UTF-8 counts the units of its characters one by one, so a buffer with room
  for a character beyond the BMP (four or five bytes) splits its surrogate pair, and both reads
  return U+FFFD: the character that was typed is lost, although its encoding fits.
\<close>

theorem raw_read_splits_surrogates:
  assumes "ce_code_page e = CP_UTF8" "0xD800 \<le> hi" "hi < 0xDC00" "0xDC00 \<le> lo" "lo < 0xE000"
    and "4 \<le> capacity" "capacity < 6"
    and "in_records st = [record_char hi, record_char lo]"
  shows "\<exists>st1 st2. read_raw e False False eof capacity st = (Some (encode_utf8 replacement), st1) \<and>
    in_records st1 = [record_char lo] \<and>
    read_raw e False False eof capacity st1 = (Some (encode_utf8 replacement), st2) \<and> in_records st2 = [] \<and>
    length (text_bytes e False [hi, lo]) \<le> capacity"
proof -
  have next1: "utf16_next [hi] = (None, 1)" "utf16_next [lo] = (None, 1)"
    using assms(2-5) by (auto simp: utf16_next.simps)
  have lone: "from_utf16 e [u] = encode_utf8 replacement" "utf16_chars [u] = [(None, 1)]" if "u = hi \<or> u = lo" for u
    using that next1 assms(1) by (auto simp: from_utf16_def from_utf16_lossy_def as_bytes_def)
  have rep: "length (encode_utf8 replacement) = 3" "encode_utf8 replacement = [0xEF, 0xBF, 0xBD]"
    by (simp_all add: encode_utf8_def replacement_def)
  have enc: "from_utf16 e (encode_utf16 replacement) = encode_utf8 replacement"
    using assms(1) by (simp add: from_utf16_def lossy_encode is_scalar_def as_bytes_def replacement_def)
  have ch: "get_char e (record_char u) PlainKeys = Some (Char u 0)" if "u = hi \<or> u = lo" for u
    by (rule record_char_types) (use that assms(2,4) in auto)
  have nz: "hi \<noteq> 0" "lo \<noteq> 0" using assms(2,4) by auto
  have one: "encode_prefix e [u] capacity False = (encode_utf8 replacement, 1)" if "u = hi \<or> u = lo" for u
    using lone [OF that] rep(1) enc assms(6) by (simp add: encode_prefix_def Let_def) (simp add: encode_utf16_def replacement_def)
  have "raw_loop e False capacity limit 0 0 [] [record_char hi, record_char lo] = ([hi], [record_char lo])"
    "raw_loop e False capacity limit 0 0 [] [record_char lo] = ([lo], [])" if "2 \<le> limit" for limit
    using ch lone(1) rep(1) assms(6,7) that by (simp_all add: raw_loop.simps [of e False capacity limit] raw_cost_def)
  then have loops: "raw_loop e False capacity USIZE_MAX 0 0 [] [record_char hi, record_char lo] = ([hi], [record_char lo])"
    "raw_loop e False capacity USIZE_MAX 0 0 [] [record_char lo] = ([lo], [])"
    by (simp_all add: USIZE_MAX_def)
  let ?st1 = "st\<lparr>in_records := [record_char lo], in_first_event := None\<rparr>"
  have z: "control_z eof (encode_utf8 replacement) = encode_utf8 replacement"
    by (simp add: control_z_def rep(2) first_of_def)
  have "read_raw e False False eof capacity st = (Some (encode_utf8 replacement), ?st1)"
    using one z by (simp add: read_raw_def assms(8) loops)
  moreover have "read_raw e False False eof capacity ?st1 =
      (Some (encode_utf8 replacement), ?st1\<lparr>in_records := [], in_first_event := None\<rparr>)"
    using one z by (simp add: read_raw_def loops)
  moreover have "length (text_bytes e False [hi, lo]) \<le> capacity"
  proof -
    have "utf16_next [hi, lo] = (Some (0x10000 + (unat hi - 0xD800) * 0x400 + (unat lo - 0xDC00)), 2)"
      using assms(2-5) by (auto simp: utf16_next.simps)
    then show ?thesis using assms(6) text_bytes_utf8 [OF assms(1), of "[hi, lo]"]
      by (simp add: lossy_scalars scalar_of_def as_bytes_def length_encode_utf8 len_utf8_def)
  qed
  ultimately show ?thesis by auto
qed

theorem raw_read_splits_surrogates_witness:
  "\<exists>st1 st2. read_raw plain_env False False False 4 (idle_input\<lparr>in_records := map record_char [0xD83D, 0xDE42]\<rparr>) =
      (Some [0xEF, 0xBF, 0xBD], st1) \<and>
    read_raw plain_env False False False 4 st1 = (Some [0xEF, 0xBF, 0xBD], st2) \<and> in_records st2 = []"
  using raw_read_splits_surrogates [of plain_env "0xD83D" "0xDE42" 4 "idle_input\<lparr>in_records := map record_char [0xD83D, 0xDE42]\<rparr>" False]
  by (auto simp: plain_env_def encode_utf8_def replacement_def)

subsection \<open>Record reads\<close>

lemma ansi_loop_spec:
  "ansi_loop e capacity out rs n = (out', n') \<Longrightarrow>
   \<exists>k. n' = n + k \<and> k \<le> length rs \<and> out' = out @ concat (map (expand_record e) (take k rs)) \<and>
     (k < length rs \<longrightarrow> capacity \<le> length out')"
proof (induction e capacity out rs n rule: ansi_loop.induct)
  case (2 e capacity out r rs n)
  show ?case
  proof (cases "capacity \<le> length out")
    case False
    then obtain k where "n' = n + 1 + k" "k \<le> length rs" "out' = (out @ expand_record e r) @ concat (map (expand_record e) (take k rs))"
      "k < length rs \<longrightarrow> capacity \<le> length out'"
      using 2 by auto
    then show ?thesis by (intro exI [of _ "Suc k"]) simp
  qed (use 2 in \<open>auto intro: exI [of _ 0]\<close>)
qed simp

text \<open>
  ReadConsoleInputA, which turns a key's character into a record for each byte of it in the
  input code page, loses no record: what a read returns, the records it keeps for the next and
  the expansion of those still queued are what was kept and queued before; a read returns as
  many as fit, and peeking returns the same and changes nothing.
\<close>

theorem ansi_reads_lose_no_record:
  assumes "ansi_records e cached rs capacity peek = ((out, n), cached')"
  shows "out = take capacity (cached @ concat (map (expand_record e) rs)) \<and> n \<le> length rs \<and>
    (peek \<longrightarrow> cached' = cached) \<and>
    (\<not> peek \<longrightarrow> out @ cached' @ concat (map (expand_record e) (drop n rs)) = cached @ concat (map (expand_record e) rs))"
proof -
  obtain out1 n1 where l: "ansi_loop e capacity (take capacity cached) rs 0 = (out1, n1)" by fastforce
  obtain k where k: "n1 = k" "k \<le> length rs" "out1 = take capacity cached @ concat (map (expand_record e) (take k rs))"
    "k < length rs \<longrightarrow> capacity \<le> length out1"
    using ansi_loop_spec [OF l] by auto
  let ?x = "\<lambda>rs. concat (map (expand_record e) rs)"
  have out: "out = take capacity out1" "n = k"
    "cached' = (if peek then cached else drop (length (take capacity cached)) cached @ drop capacity out1)"
    using assms l k(1) by (auto simp: ansi_records_def Let_def)
  have split: "?x rs = ?x (take k rs) @ ?x (drop k rs)"
    by (metis append_take_drop_id concat_append map_append)
  have "take capacity (cached @ ?x rs) = take capacity out1"
  proof (cases "k < length rs")
    case True
    then show ?thesis using k(3,4) split by (cases "length cached \<le> capacity") simp_all
  next
    case False
    then show ?thesis using k(2,3) by (cases "length cached \<le> capacity") simp_all
  qed
  moreover have "out @ cached' @ ?x (drop n rs) = cached @ ?x rs" if "\<not> peek"
  proof (cases "length cached \<le> capacity")
    case True
    then have "out @ cached' = out1" "out1 = cached @ ?x (take k rs)" using that out k(3) by simp_all
    then show ?thesis using split out(2) by simp
  next
    case False
    then have "?x (take k rs) = []" 
      using l k by (cases rs) auto
    then show ?thesis using False that out k(3) split by simp
  qed
  ultimately show ?thesis using out k(2) by auto
qed

theorem ansi_reads_lose_no_record_witness:
  "\<exists>out n cached. ansi_records plain_env [] [record_char 0x3BB] 1 False = ((out, n), cached) \<and>
     out @ cached @ concat (map (expand_record plain_env) (drop n [record_char 0x3BB])) = expand_record plain_env (record_char 0x3BB)"
proof -
  obtain out n cached where r: "ansi_records plain_env [] [record_char 0x3BB] 1 False = ((out, n), cached)"
    by (metis surj_pair)
  then show ?thesis using ansi_reads_lose_no_record [OF r] by auto
qed

end
