(* ===== verification/Console_Alias.thy ===== *)
theory Console_Alias
  imports Prelude "HOL-Library.List_Lexorder" "HOL-Library.Char_ord"
begin

text \<open>
  The console aliases that doskey manages (\<open>crates/console-server/src/alias.rs\<close>):
  per executable a sorted map from lowercased sources to targets, and the expansion
  of a line that begins with one.  Unicode lowercasing is the parameter \<open>lower\<close>.
\<close>

section \<open>Sorted maps\<close>

type_synonym wide = "u16 list"
type_synonym alias_map = "(wide \<times> wide) list"

text \<open>\<open>BTreeMap\<close>: the entries in the order of their keys.\<close>

fun btree_insert :: "wide \<Rightarrow> wide \<Rightarrow> alias_map \<Rightarrow> alias_map" where
  "btree_insert k v [] = [(k, v)]"
| "btree_insert k v ((k', v') # m) =
     (if k < k' then (k, v) # (k', v') # m
      else if k = k' then (k, v) # m
      else (k', v') # btree_insert k v m)"

definition btree_remove :: "wide \<Rightarrow> alias_map \<Rightarrow> alias_map" where
  "btree_remove k m = filter (\<lambda>e. fst e \<noteq> k) m"

definition btree_ok :: "alias_map \<Rightarrow> bool" where
  "btree_ok m \<longleftrightarrow> sorted_wrt (<) (map fst m)"

section \<open>Aliases\<close>

type_synonym aliases = "(wide \<times> alias_map) list"

definition exe_map :: "(wide \<Rightarrow> wide) \<Rightarrow> wide \<Rightarrow> aliases \<Rightarrow> alias_map option" where
  "exe_map lower exe a = map_option snd (List.find (\<lambda>e. fst e = lower exe) a)"

text \<open>\<open>AddConsoleAlias\<close>: an empty target removes the alias.\<close>

definition alias_add :: "(wide \<Rightarrow> wide) \<Rightarrow> wide \<Rightarrow> wide \<Rightarrow> wide \<Rightarrow> aliases \<Rightarrow> bool \<times> aliases" where
  "alias_add lower src target exe a =
     (if src = [] then (False, a)
      else
        let e = lower exe; s = lower src; pos = position (\<lambda>x. fst x = e) a
        in if target = [] then
             (True, case pos of None \<Rightarrow> a | Some i \<Rightarrow> a[i := (fst (a ! i), btree_remove s (snd (a ! i)))])
           else
             let (i, a) = (case pos of Some i \<Rightarrow> (i, a) | None \<Rightarrow> (length a, a @ [(e, [])]))
             in (True, a[i := (fst (a ! i), btree_insert s target (snd (a ! i)))]))"

definition alias_get :: "(wide \<Rightarrow> wide) \<Rightarrow> wide \<Rightarrow> wide \<Rightarrow> aliases \<Rightarrow> wide option" where
  "alias_get lower src exe a =
     (case exe_map lower exe a of None \<Rightarrow> None
      | Some m \<Rightarrow> (case map_of m (lower src) of None \<Rightarrow> None
        | Some t \<Rightarrow> if t \<noteq> [] then Some t else None))"

definition alias_list :: "(wide \<Rightarrow> wide) \<Rightarrow> wide \<Rightarrow> aliases \<Rightarrow> wide" where
  "alias_list lower exe a =
     (case exe_map lower exe a of None \<Rightarrow> []
      | Some m \<Rightarrow> concat (map (\<lambda>(s, t). s @ [61] @ t @ [0]) m))"

definition alias_exes :: "aliases \<Rightarrow> wide" where
  "alias_exes a = concat (map (\<lambda>(e, _). e @ [0]) a)"

text \<open>Alt+F10 in cmd clears the aliases of \<open>cmd.exe\<close>.\<close>

definition cmd_exe :: wide where
  "cmd_exe = map (\<lambda>c. of_nat (of_char c)) ''cmd.exe''"

definition clear_cmd :: "(wide \<Rightarrow> wide) \<Rightarrow> aliases \<Rightarrow> aliases" where
  "clear_cmd lower a =
     (case position (\<lambda>x. fst x = lower cmd_exe) a of None \<Rightarrow> a | Some i \<Rightarrow> a[i := (fst (a ! i), [])])"

section \<open>Expansion\<close>

text \<open>
  The words of a line, with their offsets; at most as many as the first argument.
  The loop stops at a space where a word should begin.
\<close>

fun alias_args :: "nat \<Rightarrow> wide \<Rightarrow> nat \<Rightarrow> (nat \<times> wide) list" where
  "alias_args 0 line start = []"
| "alias_args (Suc n) line start =
     (if length line \<le> start then []
      else
        let stop = (case position (\<lambda>u. u = 32) (drop start line) of None \<Rightarrow> length line | Some k \<Rightarrow> start + k)
        in if stop = start then []
           else (start, take (stop - start) (drop start line)) #
             (case position (\<lambda>u. u \<noteq> 32) (drop stop line) of
                None \<Rightarrow> [] | Some k \<Rightarrow> alias_args n line (stop + k)))"

definition lower_unit :: "u16 \<Rightarrow> u16" where
  "lower_unit u = (if 65 \<le> u \<and> u \<le> 90 then u + 32 else u)"

text \<open>One macro escape: the text it stands for, and whether it breaks the line.\<close>

definition macro :: "wide \<Rightarrow> (nat \<times> wide) list \<Rightarrow> u16 \<Rightarrow> wide \<times> bool" where
  "macro line args u =
     (let l = lower_unit u
      in if 49 \<le> l \<and> l \<le> 57 then (case get args (unat l - 48) of Some (_, arg) \<Rightarrow> arg | None \<Rightarrow> [], False)
         else if l = 42 then (case get args 1 of Some (off, _) \<Rightarrow> drop off line | None \<Rightarrow> [], False)
         else if l = 108 then ([60], False)
         else if l = 103 then ([62], False)
         else if l = 98 then ([124], False)
         else if l = 116 then ([13, 10], True)
         else ([36, u], False))"

fun expand_target :: "wide \<Rightarrow> (nat \<times> wide) list \<Rightarrow> wide \<Rightarrow> wide \<times> nat" where
  "expand_target line args [] = ([], 0)"
| "expand_target line args [u] = ([u], 0)"
| "expand_target line args (u # u' # rest) =
     (if u \<noteq> 36 then (case expand_target line args (u' # rest) of (out, n) \<Rightarrow> (u # out, n))
      else case macro line args u' of (t, broken) \<Rightarrow>
        (case expand_target line args rest of (out, n) \<Rightarrow> (t @ out, if broken then n + 1 else n)))"

definition alias_expand :: "(wide \<Rightarrow> wide) \<Rightarrow> wide \<Rightarrow> wide \<Rightarrow> aliases \<Rightarrow> (wide \<times> nat) option" where
  "alias_expand lower line exe a =
     (case exe_map lower exe a of None \<Rightarrow> None
      | Some m \<Rightarrow>
          if m = [] then None
          else
            let args = alias_args 10 line 0
            in case args of [] \<Rightarrow> None
            | (_, name) # _ \<Rightarrow>
                (case map_of m (lower name) of None \<Rightarrow> None
                 | Some target \<Rightarrow>
                     if target = [] then None
                     else case expand_target line args target of (out, n) \<Rightarrow> Some (out @ [13, 10], n + 1)))"

section \<open>The map laws\<close>

lemma btree_insert_set: "fst ` set (btree_insert k v m) = insert k (fst ` set m)"
  by (induction k v m rule: btree_insert.induct) auto

lemma btree_insert_ok: "btree_ok m \<Longrightarrow> btree_ok (btree_insert k v m)"
proof (induction k v m rule: btree_insert.induct)
  case (2 k v k' v' m)
  have "\<forall>x \<in> fst ` set (btree_insert k v m). k' < x" if "k' < k"
    using 2(2) that by (auto simp: btree_insert_set btree_ok_def)
  then show ?case using 2 by (auto simp: btree_ok_def dest: order.strict_trans)
qed (simp add: btree_ok_def)

lemma btree_remove_ok: "btree_ok m \<Longrightarrow> btree_ok (btree_remove k m)"
  by (induction m) (auto simp: btree_ok_def btree_remove_def)

lemma map_of_btree_insert: "btree_ok m \<Longrightarrow> map_of (btree_insert k v m) = (map_of m)(k \<mapsto> v)"
proof (induction k v m rule: btree_insert.induct)
  case (2 k v k' v' m)
  then show ?case by (auto simp: btree_ok_def fun_eq_iff)
qed auto

lemma map_of_btree_remove: "map_of (btree_remove k m) = (map_of m)(k := None)"
  by (induction m) (auto simp: btree_remove_def fun_eq_iff)

text \<open>Executables are stored once, each with a sorted map.\<close>

definition aliases_ok :: "aliases \<Rightarrow> bool" where
  "aliases_ok a \<longleftrightarrow> distinct (map fst a) \<and> (\<forall>(e, m) \<in> set a. btree_ok m)"

lemma exe_map_eq: "exe_map lower exe a = map_of a (lower exe)"
  by (induction a) (auto simp: exe_map_def)

lemma map_of_list_update:
  assumes "distinct (map fst a)" "position (\<lambda>x. fst x = e) a = Some i"
  shows "map_of (a[i := (e, m)]) = (map_of a)(e \<mapsto> m)" "map_of a e = Some (snd (a ! i))"
    "fst (a ! i) = e" "i < length a" "map fst (a[i := (e, m)]) = map fst a"
proof -
  have i: "i < length a" "fst (a ! i) = e" using position_SomeD [OF assms(2)] by auto
  show "i < length a" "fst (a ! i) = e" by (fact i)+
  have dec: "a = take i a @ (e, snd (a ! i)) # drop (Suc i) a"
    using id_take_nth_drop [OF i(1)] i(2) by (metis prod.collapse)
  have "distinct (map fst (take i a) @ e # map fst (drop (Suc i) a))"
    using assms(1) by (subst (asm) dec) simp
  then have n: "e \<notin> fst ` set (take i a)" by auto
  then have none: "map_of (take i a) e = None" by (simp add: map_of_eq_None_iff)
  show "map_of a e = Some (snd (a ! i))" by (subst dec) (simp add: map_add_def none)
  have upd: "a[i := (e, m)] = take i a @ (e, m) # drop (Suc i) a" using i(1) by (simp add: upd_conv_take_nth_drop)
  show "map fst (a[i := (e, m)]) = map fst a" 
    using i list_update_id [of "map fst a" i] by (simp add: map_update)
  show "map_of (a[i := (e, m)]) = (map_of a)(e \<mapsto> m)"
    unfolding upd by (subst (3) dec) (use none in \<open>auto simp: map_add_def fun_eq_iff split: option.splits\<close>)
qed

lemma aliases_ok_update:
  assumes "aliases_ok a" "position (\<lambda>x. fst x = e) a = Some i" "btree_ok m"
  shows "aliases_ok (a[i := (e, m)])"
proof -
  have "map fst (a[i := (e, m)]) = map fst a" using map_of_list_update(5) assms(1,2) by (auto simp: aliases_ok_def)
  then show ?thesis using assms(1,3) set_update_subset_insert [of a i "(e, m)"]
    by (fastforce simp: aliases_ok_def)
qed

lemma aliases_ok_btree: "aliases_ok a \<Longrightarrow> i < length a \<Longrightarrow> btree_ok (snd (a ! i))"
proof -
  assume a: "aliases_ok a" "i < length a"
  then have "(fst (a ! i), snd (a ! i)) \<in> set a" by simp
  then show ?thesis using a(1) unfolding aliases_ok_def by blast
qed

lemma position_new: "position (\<lambda>x. fst x = e) a = None \<Longrightarrow>
    position (\<lambda>x. fst x = e) (a @ [(e, m)]) = Some (length a)"
  by (induction a) (auto split: if_splits option.splits)

definition stored :: "wide option \<Rightarrow> wide option" where
  "stored t = (case t of Some (u # us) \<Rightarrow> Some (u # us) | _ \<Rightarrow> None)"

lemma alias_get_eq:
  "alias_get lower src exe a =
     (case map_of a (lower exe) of None \<Rightarrow> None | Some m \<Rightarrow> stored (map_of m (lower src)))"
  by (auto simp: alias_get_def exe_map_eq stored_def split: option.split list.split)

lemma alias_add_ok:
  assumes "aliases_ok a"
  shows "aliases_ok (snd (alias_add lower src target exe a))"
proof (cases "src = []")
  case True
  then show ?thesis using assms by (simp add: alias_add_def)
next
  case False
  let ?pos = "position (\<lambda>x. fst x = lower exe) a"
  show ?thesis
  proof (cases ?pos)
    case None
    have "lower exe \<notin> fst ` set a" using None by (auto simp: position_None_iff)
    then have ok: "aliases_ok (a @ [(lower exe, [])])" using assms by (auto simp: aliases_ok_def btree_ok_def)
    show ?thesis
      using False None assms aliases_ok_update [OF ok position_new [OF None], of "btree_insert (lower src) target []"]
      by (simp add: alias_add_def Let_def btree_ok_def)
  next
    case (Some i)
    then have i: "i < length a" "fst (a ! i) = lower exe" using position_SomeD by blast+
    show ?thesis
      using False Some i assms aliases_ok_update [OF assms Some] btree_insert_ok btree_remove_ok aliases_ok_btree [OF assms i(1)]
      by (simp add: alias_add_def Let_def)
  qed
qed

text \<open>Adding an alias changes what its source means to its executable, and nothing else.\<close>

lemma alias_get_add:
  assumes "aliases_ok a" "src \<noteq> []"
  shows "alias_get lower src' exe' (snd (alias_add lower src target exe a)) =
    (if lower src' = lower src \<and> lower exe' = lower exe then stored (Some target)
     else alias_get lower src' exe' a)"
proof (cases "position (\<lambda>x. fst x = lower exe) a")
  case None
  have d: "distinct (map fst (a @ [(lower exe, [])]))"
    using assms(1) None by (auto simp: aliases_ok_def position_None_iff)
  have none: "map_of a (lower exe) = None" using None by (auto simp: position_None_iff map_of_eq_None_iff)
  note upd = map_of_list_update(1) [OF d position_new [OF None], of "[(lower src, target)]"]
  have "map_of (a @ [(lower exe, [])]) = (map_of a)(lower exe \<mapsto> [])"
    using none by (auto simp: map_add_def fun_eq_iff split: option.split)
  then show ?thesis using assms(2) None none upd
    by (cases target) (auto simp: alias_add_def Let_def alias_get_eq stored_def)
next
  case (Some i)
  have d: "distinct (map fst a)" using assms(1) by (simp add: aliases_ok_def)
  note u = map_of_list_update [OF d Some]
  note ok = aliases_ok_btree [OF assms(1) u(4)]
  show ?thesis using assms(2) Some u
    by (cases target)
      (auto simp: alias_add_def Let_def alias_get_eq stored_def map_of_btree_insert [OF ok] map_of_btree_remove)
qed

text \<open>A sequence of \<open>AddConsoleAlias\<close> calls.\<close>

fun add_all :: "(wide \<Rightarrow> wide) \<Rightarrow> (wide \<times> wide \<times> wide) list \<Rightarrow> aliases \<Rightarrow> aliases" where
  "add_all lower [] a = a"
| "add_all lower ((src, target, exe) # calls) a = add_all lower calls (snd (alias_add lower src target exe a))"

lemma add_all_spec:
  assumes "aliases_ok a"
  shows "aliases_ok (add_all lower calls a) \<and>
    alias_get lower src exe (add_all lower calls a) =
      (case List.find (\<lambda>(s, t, e). s \<noteq> [] \<and> lower s = lower src \<and> lower e = lower exe) (rev calls) of
         Some (_, t, _) \<Rightarrow> stored (Some t)
       | None \<Rightarrow> alias_get lower src exe a)"
  using assms
proof (induction calls arbitrary: a)
  case (Cons c calls)
  obtain s t e where c: "c = (s, t, e)" by (cases c) auto
  have app: "List.find P (xs @ [x]) = (case List.find P xs of Some y \<Rightarrow> Some y | None \<Rightarrow> if P x then Some x else None)"
    for P and xs :: "(wide \<times> wide \<times> wide) list" and x
    by (induction xs) auto
  have same: "snd (alias_add lower [] t e a) = a" by (simp add: alias_add_def)
  show ?case
    using Cons.IH [OF alias_add_ok [OF Cons.prems, of lower s t e]] same
      alias_get_add [OF Cons.prems, of s lower src exe t e]
    by (cases "s = []") (auto simp: c app split: option.split)
qed simp

section \<open>The words of a line\<close>

text \<open>The words between spaces, as a reference.\<close>

function line_words :: "wide \<Rightarrow> wide list" where
  "line_words line =
     (case dropWhile (\<lambda>u. u = 32) line of
        [] \<Rightarrow> []
      | u # us \<Rightarrow> (u # takeWhile (\<lambda>u. u \<noteq> 32) us) # line_words (dropWhile (\<lambda>u. u \<noteq> 32) us))"
  by pat_completeness auto
termination
proof (relation "measure length")
  fix line :: wide and u us
  assume "dropWhile (\<lambda>u. u = 32) line = u # us"
  then have "length us < length line" by (metis length_Cons length_dropWhile_le Suc_le_lessD)
  then show "(dropWhile (\<lambda>u. u \<noteq> 32) us, line) \<in> measure length"
    using length_dropWhile_le [of "\<lambda>u. u \<noteq> 32" us] by simp
qed simp

declare line_words.simps [simp del]

lemma position_takeWhile:
  "take (case position P xs of None \<Rightarrow> length xs | Some k \<Rightarrow> k) xs = takeWhile (\<lambda>x. \<not> P x) xs"
  "drop (case position P xs of None \<Rightarrow> length xs | Some k \<Rightarrow> k) xs = dropWhile (\<lambda>x. \<not> P x) xs"
  by (induction xs) (auto split: option.splits)

lemma line_words_spaces: "line_words (dropWhile (\<lambda>u. u = 32) line) = line_words line"
  by (subst (1 2) line_words.simps) simp

lemma alias_args_words:
  "drop start line = [] \<or> hd (drop start line) \<noteq> 32 \<Longrightarrow>
   map snd (alias_args n line start) = take n (line_words (drop start line)) \<and>
   (\<forall>(off, w) \<in> set (alias_args n line start). take (length w) (drop off line) = w)"
proof (induction n line start rule: alias_args.induct)
  case (2 n line start)
  show ?case
  proof (cases "length line \<le> start")
    case True
    then show ?thesis by (simp add: line_words.simps [of "[]"])
  next
    case False
    let ?s = "drop start line" and ?p = "position (\<lambda>u. u = 32) (drop start line)"
    obtain u us where us: "?s = u # us" using False by (cases ?s) auto
    have u: "u \<noteq> 32" using "2.prems" us by simp
    define stop where "stop = (case ?p of None \<Rightarrow> length line | Some k \<Rightarrow> start + k)"
    have stop: "stop = start + (case ?p of None \<Rightarrow> length ?s | Some k \<Rightarrow> k)"
      using False by (auto simp: stop_def split: option.split)
    have word: "take (stop - start) ?s = takeWhile (\<lambda>u. u \<noteq> 32) ?s"
      using position_takeWhile(1) [of ?s "\<lambda>u. u = 32"] by (simp add: stop)
    have "drop stop line = drop (case ?p of None \<Rightarrow> length ?s | Some k \<Rightarrow> k) ?s"
      unfolding stop by (simp only: drop_drop add.commute)
    then have rest: "drop stop line = dropWhile (\<lambda>u. u \<noteq> 32) ?s"
      using position_takeWhile(2) [of ?s "\<lambda>u. u = 32"] by simp
    have ne: "stop \<noteq> start" using word us u by auto
    have words: "line_words ?s = takeWhile (\<lambda>u. u \<noteq> 32) ?s # line_words (drop stop line)"
      unfolding rest by (subst line_words.simps) (use us u in simp)
    let ?q = "position (\<lambda>u. u \<noteq> 32) (drop stop line)"
    show ?thesis
    proof (cases ?q)
      case None
      then have "dropWhile (\<lambda>u. u = 32) (drop stop line) = []"
        by (auto simp: position_None_iff)
      then have "line_words (drop stop line) = []"
        unfolding line_words.simps [of "drop stop line"] by (simp only: list.case)
      then show ?thesis using False ne None words word
        by (simp add: stop_def [symmetric] Let_def takeWhile_eq_take [symmetric])
    next
      case (Some k)
      have next': "drop (stop + k) line = dropWhile (\<lambda>u. u = 32) (drop stop line)"
        using position_takeWhile(2) [of "drop stop line" "\<lambda>u. u \<noteq> 32"] Some
        by (simp add: add.commute)
      then have "drop (stop + k) line = [] \<or> hd (drop (stop + k) line) \<noteq> 32"
        using hd_dropWhile [of "\<lambda>u. u = 32" "drop stop line"] by metis
      then have "map snd (alias_args n line (stop + k)) = take n (line_words (drop (stop + k) line)) \<and>
          (\<forall>(off, w) \<in> set (alias_args n line (stop + k)). take (length w) (drop off line) = w)"
        using "2.IH" [OF False stop_def ne Some] by blast
      moreover have "line_words (drop (stop + k) line) = line_words (drop stop line)"
        unfolding next' by (rule line_words_spaces)
      ultimately show ?thesis using False ne Some words word
        by (simp add: stop_def [symmetric] Let_def takeWhile_eq_take [symmetric])
    qed
  qed
qed simp

lemma macro_lines:
  assumes "13 \<notin> set line" "\<forall>(off, w) \<in> set args. 13 \<notin> set w" "u \<noteq> 13"
  shows "count_list (fst (macro line args u)) 13 = (if snd (macro line args u) then 1 else 0)"
proof -
  have "13 \<notin> set w" if "get args i = Some (off, w)" for i off w
    using get_in_set [OF that] assms(2) by auto
  moreover have "13 \<notin> set w" if "Some (off, w) = get args i" for i off w
    using get_in_set [OF that [symmetric]] assms(2) by auto
  moreover have "13 \<notin> set (drop k line)" for k using assms(1) by (auto dest: in_set_dropD)
  ultimately show ?thesis using assms(3)
    by (auto simp: macro_def Let_def count_list_0_iff split: option.splits)
qed

text \<open>A target without carriage returns breaks the line once for each \<open>$T\<close>.\<close>

lemma expand_target_lines:
  assumes "13 \<notin> set line" "\<forall>(off, w) \<in> set args. 13 \<notin> set w"
  shows "13 \<notin> set target \<Longrightarrow> count_list (fst (expand_target line args target)) 13 = snd (expand_target line args target)"
  using assms
proof (induction line args target rule: expand_target.induct)
  case (3 line args u u' rest)
  show ?case
  proof (cases "u = 36")
    case False
    then show ?thesis using 3 by (auto simp: case_prod_unfold)
  next
    case True
    obtain t b where m: "macro line args u' = (t, b)" by (cases "macro line args u'")
    have "count_list (fst (expand_target line args rest)) 13 = snd (expand_target line args rest)"
      using "3.IH"(2) [of t b] True m "3.prems" by auto
    then show ?thesis using True m "3.prems" macro_lines [of line args u'] by (auto simp: case_prod_unfold)
  qed
qed auto

lemma alias_args_unfold:
  "0 < n \<Longrightarrow> alias_args n line start =
     (if length line \<le> start then []
      else
        let stop = (case position (\<lambda>u. u = 32) (drop start line) of None \<Rightarrow> length line | Some k \<Rightarrow> start + k)
        in if stop = start then []
           else (start, take (stop - start) (drop start line)) #
             (case position (\<lambda>u. u \<noteq> 32) (drop stop line) of
                None \<Rightarrow> [] | Some k \<Rightarrow> alias_args (n - 1) line (stop + k)))"
  by (cases n) (simp, simp only: alias_args.simps diff_Suc_1)

lemma alias_args_first: "alias_args 10 line 0 = (off, w) # rest \<Longrightarrow> off = 0 \<and> hd line \<noteq> 32 \<and> line \<noteq> []"
  by (cases line) (auto simp: numeral_eq_Suc Let_def split: if_splits)

section \<open>Properties of aliases\<close>

text \<open>
  An alias means what the last call that named it gave it: after any sequence of
  \<open>AddConsoleAlias\<close> calls, a source looks up the target of the last call with that
  source and executable, letter case aside, and nothing when that call's target was
  empty or there was none.
\<close>

theorem last_alias_wins:
  "alias_get lower src exe (add_all lower calls []) =
     (case List.find (\<lambda>(s, t, e). s \<noteq> [] \<and> lower s = lower src \<and> lower e = lower exe) (rev calls) of
        Some (_, t, _) \<Rightarrow> if t = [] then None else Some t
      | None \<Rightarrow> None)"
proof -
  have "aliases_ok []" by (simp add: aliases_ok_def)
  moreover have "stored (Some t) = (if t = [] then None else Some t)" for t
    by (cases t) (simp_all add: stored_def)
  ultimately show ?thesis using add_all_spec [of "[]" lower calls src exe]
    by (auto simp: alias_get_eq split: option.split)
qed

text \<open>
  A line is expanded by its first word, and only when it does not begin with a
  space: the target is that of the word, its macros stand for the first ten words
  of the line, and the result, when the line and the target hold no carriage
  return, has as many carriage returns as the lines it reports and ends with a line
  break.
\<close>

theorem expansion_counts_lines:
  assumes "alias_expand lower line exe a = Some (out, n)"
  shows "\<exists>target. alias_get lower (hd (line_words line)) exe a = Some target \<and>
    hd line \<noteq> 32 \<and> map snd (alias_args 10 line 0) = take 10 (line_words line) \<and>
    drop (length out - 2) out = [13, 10] \<and>
    (13 \<notin> set line \<longrightarrow> 13 \<notin> set target \<longrightarrow> count_list out 13 = n)"
proof -
  obtain m off name rest target out' k where e: "exe_map lower exe a = Some m"
    "alias_args 10 line 0 = (off, name) # rest" "map_of m (lower name) = Some target" "target \<noteq> []"
    "expand_target line ((off, name) # rest) target = (out', k)" "out = out' @ [13, 10]" "n = k + 1"
    using assms
    by (auto simp: alias_expand_def Let_def split: option.splits if_splits list.splits prod.splits)
  have first: "hd line \<noteq> 32" "line \<noteq> []" using alias_args_first [OF e(2)] by simp_all
  have words: "map snd (alias_args 10 line 0) = take 10 (line_words line)"
    and offs: "\<forall>(off, w) \<in> set (alias_args 10 line 0). take (length w) (drop off line) = w"
    using alias_args_words [of 0 line 10] first by simp_all
  have "hd (line_words line) = name"
    using words e(2) by (cases "line_words line") auto
  then have get: "alias_get lower (hd (line_words line)) exe a = Some target"
    using e(1,3,4) by (simp add: alias_get_def)
  have "count_list out 13 = n" if c: "13 \<notin> set line" "13 \<notin> set target"
  proof -
    have "\<forall>(off, w) \<in> set (alias_args 10 line 0). 13 \<notin> set w"
    proof clarify
      fix off w assume "(off, w) \<in> set (alias_args 10 line 0)" "13 \<in> set w"
      then have "13 \<in> set (take (length w) (drop off line))" using offs by fastforce
      then show False using c(1) by (auto dest: in_set_takeD in_set_dropD)
    qed
    then show ?thesis using expand_target_lines [OF c(1) _ c(2), of "(off, name) # rest"] e(2,5-7) by simp
  qed
  then show ?thesis using get first words e(6) by auto
qed

definition sample_aliases :: aliases where
  "sample_aliases = add_all id [([108], [100, 36, 116, 36, 42], [99])] []"

theorem expansion_counts_lines_witness:
  "\<exists>out n. alias_expand id [108, 32, 97] [99] sample_aliases = Some (out, n) \<and>
     count_list out 13 = n \<and> out = [100, 13, 10, 97, 13, 10]"
proof -
  have s: "sample_aliases = [([99], [([108], [100, 36, 116, 36, 42])])]"
    by (simp add: sample_aliases_def alias_add_def)
  have args: "alias_args 10 [108, 32, 97] 0 = [(0, [108]), (2, [97])]"
    by (simp add: alias_args_unfold [of 10] alias_args_unfold [of 9] Let_def)
  have e: "alias_expand id [108, 32, 97] [99] sample_aliases = Some ([100, 13, 10, 97, 13, 10], 2)"
    by (simp add: alias_expand_def s exe_map_def args macro_def lower_unit_def get_def)
  show ?thesis using expansion_counts_lines [OF e] e by auto
qed

end
