(* ===== verification/Console_Read.thy ===== *)
theory Console_Read
  imports Console_Input Console_Alias
begin

text \<open>
  Text reads of the console server (\<open>crates/console-server/src/read.rs\<close>): text owed to the
  handle first, then a raw read, or a cooked read through the line editor, whose finished
  line enters the history and the alias expansion.  The screen is a function of what was
  echoed (\<open>re_geometry\<close>); writing to it does not fail.  A panic is \<open>None\<close>.
\<close>

section \<open>State\<close>

record read_env =
  re_env :: console_env
  re_lower :: "wide \<Rightarrow> wide"
  re_geometry :: "ustring \<Rightarrow> (int \<times> int) \<times> (int \<times> int)"
  re_sgr :: ustring

record read_request =
  rq_process :: nat
  rq_object :: nat
  rq_output_size :: nat
  rq_body_len :: nat
  rq_unicode :: bool
  rq_waited :: bool
  rq_exe :: wide
  rq_initial :: "u16 list"
  rq_wakeup_mask :: u32
  rq_control_z :: bool
  rq_cooked :: "cooked option"
  rq_control :: u32

record console =
  cn_input :: input_state
  cn_histories :: histories
  cn_aliases :: aliases
  cn_written :: ustring

definition geometry :: "read_env \<Rightarrow> console \<Rightarrow> (int \<times> int) \<times> (int \<times> int)" where
  "geometry e s = (case re_geometry e (cn_written s) of (screen, (x, y)) \<Rightarrow> (screen, (max x 0, max y 0)))"

definition write_echo :: "ustring \<Rightarrow> console \<Rightarrow> console" where
  "write_echo u s = s\<lparr>cn_written := cn_written s @ u\<rparr>"

text \<open>The history of a process, and the table with it replaced.\<close>

definition history_of :: "nat \<Rightarrow> histories \<Rightarrow> history option" where
  "history_of process hs = map_option (\<lambda>i. hs_lists hs ! i) (find_owner process hs)"

definition put_history :: "nat \<Rightarrow> history option \<Rightarrow> histories \<Rightarrow> histories" where
  "put_history process h hs =
     (case (h, find_owner process hs) of
        (Some h, Some i) \<Rightarrow> hs\<lparr>hs_lists := (hs_lists hs)[i := h]\<rparr> | _ \<Rightarrow> hs)"

section \<open>Cooked reads\<close>

definition start_cooked :: "read_env \<Rightarrow> read_request \<Rightarrow> console \<Rightarrow> cooked option" where
  "start_cooked e q s =
     (case rq_cooked q of Some c \<Rightarrow> Some c
      | None \<Rightarrow>
          (case if rq_initial q = [] then ((0, 0), (0, 0)) else geometry e s of
             (screen, cursor) \<Rightarrow>
               cooked_new (ce_width (re_env e)) (rq_initial q) (rq_wakeup_mask q)
                 (ce_mode (re_env e) AND INSERT_MODE \<noteq> 0) screen cursor))"

text \<open>The records up to the first Enter, and the rest.\<close>

definition through_enter :: "bytes list \<Rightarrow> bytes list \<times> bytes list" where
  "through_enter rs =
     (let n = (case position (\<lambda>r. u32_at r 4 \<noteq> 0 \<and> u16_at r 14 = 13) rs of Some i \<Rightarrow> i + 1 | None \<Rightarrow> length rs)
      in (take n rs, drop n rs))"

fun repeat_key :: "console_env \<Rightarrow> nat \<Rightarrow> bytes \<Rightarrow> key_context \<Rightarrow> cooked \<Rightarrow> (cooked \<times> key_context) option" where
  "repeat_key e 0 r cx c = Some (c, cx)"
| "repeat_key e (Suc n) r cx c =
     (if is_done c then Some (c, cx)
      else case get_char e r (if cr_popups c \<noteq> [] then PopupKeys else EditingKeys) of
        None \<Rightarrow> repeat_key e n r cx c
      | Some k \<Rightarrow>
          (case press_key (ce_width e) k cx c of None \<Rightarrow> None
           | Some (c, cx) \<Rightarrow> repeat_key e n r cx c))"

text \<open>The loop over the records; what it does not use is put back.\<close>

fun feed_records ::
  "console_env \<Rightarrow> bytes list \<Rightarrow> key_context \<Rightarrow> cooked \<Rightarrow> (bytes list \<times> cooked \<times> key_context) option" where
  "feed_records e [] cx c = Some ([], c, cx)"
| "feed_records e (r # rs) cx c =
     (if is_done c then Some (r # rs, c, cx)
      else case repeat_key e (max 1 (unat (repeat_count r))) r cx c of None \<Rightarrow> None
      | Some (c, cx) \<Rightarrow> feed_records e rs cx c)"

definition expand_line :: "read_env \<Rightarrow> bool \<Rightarrow> bool \<Rightarrow> wide \<Rightarrow> wide \<Rightarrow> aliases \<Rightarrow> wide \<times> nat" where
  "expand_line e processed echo line exe a =
     (case if echo then alias_expand (re_lower e) line exe a else None of
        Some r \<Rightarrow> r | None \<Rightarrow> (line @ (if processed then [13, 10] else [13]), 1))"

definition enter_history :: "nat \<Rightarrow> wide \<Rightarrow> histories \<Rightarrow> histories option" where
  "enter_history process line hs =
     (case history_of process hs of None \<Rightarrow> Some hs
      | Some h \<Rightarrow>
          (case history_add line (hs_flags hs AND NO_DUPLICATES \<noteq> 0) h of None \<Rightarrow> None
           | Some h \<Rightarrow> Some (put_history process (Some h) hs)))"

definition deliver :: "read_env \<Rightarrow> read_request \<Rightarrow> nat \<Rightarrow> wide \<times> nat \<Rightarrow> console \<Rightarrow> bytes \<times> console" where
  "deliver e q capacity r s =
     (case r of (line, lines) \<Rightarrow>
        case encode_prefix (re_env e) (take (line_limit (1 < lines) line) line) capacity (rq_unicode q) of
          (bs, used) \<Rightarrow>
            let rest = drop used line; st = cn_input s
            in (control_z (rq_control_z q) bs,
                s\<lparr>cn_input := st\<lparr>in_pending :=
                      (if rest \<noteq> [] then (in_pending st)(rq_object q \<mapsto> \<lparr>pe_text = rest, pe_multiline = (1 < lines)\<rparr>)
                       else in_pending st),
                    in_ignore_keyup := True\<rparr>\<rparr>))"

definition finish_cooked ::
  "read_env \<Rightarrow> read_request \<Rightarrow> nat \<Rightarrow> bool \<Rightarrow> bool \<Rightarrow> cooked \<Rightarrow> console \<Rightarrow> (bytes \<times> read_request \<times> console) option" where
  "finish_cooked e q capacity processed echo c s =
     (let line = cr_buffer c;
          q = q\<lparr>rq_control := cr_control c, rq_cooked := Some (c\<lparr>cr_buffer := []\<rparr>)\<rparr>
      in if cr_state c = DoneWithCarriageReturn then
           let s = write_echo (if processed then [13, 10] else [13]) s
           in case if echo then enter_history (rq_process q) line (cn_histories s) else Some (cn_histories s) of
             None \<Rightarrow> None
           | Some hs \<Rightarrow>
               (case deliver e q capacity (expand_line e processed echo line (rq_exe q) (cn_aliases s)) (s\<lparr>cn_histories := hs\<rparr>) of
                  (bs, s) \<Rightarrow> Some (bs, q, s))
         else case deliver e q capacity (line, 1) s of (bs, s) \<Rightarrow> Some (bs, q, s))"

definition echo_line :: "read_env \<Rightarrow> bool \<Rightarrow> nat \<Rightarrow> cooked \<Rightarrow> console \<Rightarrow> (cooked \<times> console) option" where
  "echo_line e echo process c s =
     (if \<not> echo then Some (c, s)
      else case geometry e s of (screen, cursor) \<Rightarrow>
        (case redisplay (ce_width (re_env e)) screen cursor echo (re_sgr e) (history_of process (cn_histories s)) c of
           None \<Rightarrow> None
         | Some (drawn, c) \<Rightarrow> Some (c, case drawn of Some u \<Rightarrow> write_echo u s | None \<Rightarrow> s)))"

definition feed_queue ::
  "read_env \<Rightarrow> bool \<Rightarrow> nat \<Rightarrow> cooked \<Rightarrow> console \<Rightarrow> (cooked \<times> console) option" where
  "feed_queue e processed process c s =
     (case through_enter (in_records (cn_input s)) of (batch, later) \<Rightarrow>
        case feed_records (re_env e) batch
          \<lparr>cx_history = history_of process (cn_histories s), cx_processed = processed, cx_clear_cmd = False\<rparr> c of
          None \<Rightarrow> None
        | Some (rest, c, cx) \<Rightarrow>
            Some (c, s\<lparr>cn_input := (cn_input s)\<lparr>in_records := rest @ later, in_first_event := None\<rparr>,
                       cn_histories := put_history process (cx_history cx) (cn_histories s),
                       cn_aliases := (if cx_clear_cmd cx then clear_cmd (re_lower e) (cn_aliases s) else cn_aliases s)\<rparr>))"

definition read_cooked ::
  "read_env \<Rightarrow> read_request \<Rightarrow> nat \<Rightarrow> console \<Rightarrow> (bytes option \<times> read_request \<times> console) option" where
  "read_cooked e q capacity s =
     (let m = ce_mode (re_env e); processed = (m AND 1 \<noteq> 0); echo = (m AND 4 \<noteq> 0)
      in case start_cooked e q s of None \<Rightarrow> None
      | Some c \<Rightarrow>
          (case feed_queue e processed (rq_process q) c s of None \<Rightarrow> None
           | Some (c, s) \<Rightarrow>
               (case echo_line e echo (rq_process q) c s of None \<Rightarrow> None
                | Some (c, s) \<Rightarrow>
                    let c = (if cr_state c = DoneWithWakeupMask then complete_wakeup c else c)
                    in if \<not> is_done c then Some (None, q\<lparr>rq_cooked := Some c\<rparr>, s)
                       else map_option (map_prod Some id) (finish_cooked e q capacity processed echo c s))))"

definition read_text ::
  "read_env \<Rightarrow> read_request \<Rightarrow> console \<Rightarrow> (bytes option \<times> read_request \<times> console) option" where
  "read_text e q s =
     (case minus_usize (rq_output_size q) (rq_body_len q) of None \<Rightarrow> None
      | Some capacity \<Rightarrow>
          (case read_owed (re_env e) (rq_object q) capacity (rq_unicode q) (cn_input s) of
             Some (bs, st) \<Rightarrow> Some (Some bs, q, s\<lparr>cn_input := st\<rparr>)
           | None \<Rightarrow>
               if ce_mode (re_env e) AND ENABLE_LINE_INPUT = 0 then
                 (case read_raw (re_env e) (rq_unicode q) (rq_waited q) (rq_control_z q) capacity (cn_input s) of
                    (out, st) \<Rightarrow> Some (out, q, s\<lparr>cn_input := st\<rparr>))
               else read_cooked e q capacity s))"

text \<open>
  A read that waits: the input thread parks it and tries again when more records have
  arrived.
\<close>

fun read_batches ::
  "read_env \<Rightarrow> read_request \<Rightarrow> bytes list list \<Rightarrow> console \<Rightarrow> (bytes option \<times> read_request \<times> console) option" where
  "read_batches e q [] s = Some (None, q, s)"
| "read_batches e q (b # bs) s =
     (case read_text e q (s\<lparr>cn_input := (cn_input s)\<lparr>in_records := in_records (cn_input s) @ b\<rparr>\<rparr>) of
        None \<Rightarrow> None
      | Some (None, q, s) \<Rightarrow> read_batches e (q\<lparr>rq_waited := True\<rparr>) bs s
      | Some (Some out, q, s) \<Rightarrow> Some (Some out, q, s))"

section \<open>Typing a line\<close>

text \<open>A screen whose geometry the echo does not change.\<close>

definition screen_ok :: "read_env \<Rightarrow> int \<times> int \<Rightarrow> bool" where
  "screen_ok e screen \<longleftrightarrow> 2 \<le> fst screen \<and> 0 < snd screen \<and>
     (\<forall>w. fst (re_geometry e w) = screen \<and> on_screen screen (snd (re_geometry e w)))"

lemma geometry_ok: "screen_ok e screen \<Longrightarrow> \<exists>cursor. geometry e s = (screen, cursor) \<and> on_screen screen cursor"
  by (auto simp: screen_ok_def geometry_def on_screen_def case_prod_unfold)

text \<open>Line input, processed, echoed, in insert mode.\<close>

definition line_mode :: "read_env \<Rightarrow> bool" where
  "line_mode e \<longleftrightarrow> (let m = ce_mode (re_env e)
     in m AND ENABLE_LINE_INPUT \<noteq> 0 \<and> m AND INSERT_MODE \<noteq> 0 \<and> m AND 1 \<noteq> 0 \<and> m AND 4 \<noteq> 0)"

definition wakes :: "u32 \<Rightarrow> u16 \<Rightarrow> bool" where
  "wakes wake ch \<longleftrightarrow> wake \<noteq> 0 \<and> ch < 0x20 \<and> wake AND push_bit (unat ch) 1 \<noteq> 0"

text \<open>A unit that the editor inserts.\<close>

definition plain_unit :: "u32 \<Rightarrow> u16 \<Rightarrow> bool" where
  "plain_unit wake ch \<longleftrightarrow> ch \<notin> {0, 10, CARRIAGE_RETURN, EXTKEY_ERASE_PREV_WORD, BACKSPACE} \<and> \<not> wakes wake ch"

definition line_at :: "u32 \<Rightarrow> int \<times> int \<Rightarrow> cooked_state \<Rightarrow> u16 list \<Rightarrow> cooked \<Rightarrow> bool" where
  "line_at wake screen st t c \<longleftrightarrow> cr_buffer c = t \<and> cr_cursor c = length t \<and> cr_popups c = [] \<and> cr_state c = st \<and>
     cr_wakeup c = None \<and> cr_insert c \<and> cr_wakeup_mask c = wake \<and>
     (case cr_origin c of None \<Rightarrow> True | Some p \<Rightarrow> on_screen screen p)"

lemma line_at_ok: "line_at wake screen st t c \<Longrightarrow> st \<noteq> DoneWithWakeupMask \<Longrightarrow> editor_ok c"
  by (auto simp: line_at_def editor_ok_def popups_ok_def)

lemma type_unit:
  assumes "plain_unit wake ch" "line_at wake screen Accumulating t c"
  shows "\<exists>c'. handle_char width ch m cx c = Some c' \<and> line_at wake screen Accumulating (t @ [ch]) c'"
proof -
  have "handle_char width ch m cx c = Some (splice (cr_cursor c) 0 [ch] c)"
    using assms by (auto simp: handle_char_def plain_unit_def line_at_def wakes_def)
  moreover have "line_at wake screen Accumulating (t @ [ch]) (splice (cr_cursor c) 0 [ch] c)"
    using assms(2) by (simp add: line_at_def splice_def Let_def)
  ultimately show ?thesis by blast
qed

lemma feed_key:
  assumes "\<not> is_done c" "cr_popups c = []" "repeat_count r = 1" "get_char e r EditingKeys = Some k"
  shows "feed_records e (r # rs) cx c =
    (case press_key (ce_width e) k cx c of None \<Rightarrow> None | Some (c, cx) \<Rightarrow> feed_records e rs cx c)"
  using assms by (auto split: option.split)

lemma feed_typed:
  "\<forall>ch \<in> set us. plain_unit wake ch \<Longrightarrow> line_at wake screen Accumulating t c \<Longrightarrow>
   \<exists>c'. (\<forall>rs. feed_records e (map record_char us @ rs) cx c = feed_records e rs cx c') \<and>
     line_at wake screen Accumulating (t @ us) c'"
proof (induction us arbitrary: t c)
  case (Cons ch us)
  obtain c1 where c1: "handle_char (ce_width e) ch 0 cx c = Some c1" "line_at wake screen Accumulating (t @ [ch]) c1"
    using type_unit [of wake ch screen t c "ce_width e" 0 cx] Cons.prems by auto
  obtain c' where c': "\<And>rs. feed_records e (map record_char us @ rs) cx c1 = feed_records e rs cx c'"
    "line_at wake screen Accumulating (t @ ch # us) c'"
    using Cons.IH [OF _ c1(2)] Cons.prems(1) by auto
  have "get_char e (record_char ch) EditingKeys = Some (Char ch 0)"
    using Cons.prems(1) by (intro record_char_types) (auto simp: plain_unit_def)
  moreover have "\<not> is_done c" "cr_popups c = []" using Cons.prems(2) by (simp_all add: line_at_def is_done_def)
  ultimately have "feed_records e (map record_char (ch # us) @ rs) cx c = feed_records e rs cx c'" for rs
    using c1(1) c'(1) by (simp add: feed_key with_line_def del: feed_records.simps)
  then show ?case using c'(2) by auto
qed auto

lemma press_enter:
  assumes "line_at wake screen Accumulating t c" "\<not> wakes wake CARRIAGE_RETURN" "length t \<le> NPOS"
  shows "\<exists>c'. feed_records e (record_char CARRIAGE_RETURN # rs) cx c = Some (rs, c', cx) \<and>
    line_at wake screen DoneWithCarriageReturn t c'"
proof -
  let ?c = "(set_cursor NPOS c)\<lparr>cr_state := DoneWithCarriageReturn\<rparr>"
  have "handle_char (ce_width e) CARRIAGE_RETURN 0 cx c = Some ?c"
    using assms(1,2) by (auto simp: handle_char_def line_at_def wakes_def)
  moreover have l: "line_at wake screen DoneWithCarriageReturn t ?c"
    using assms(1,3) by (simp add: line_at_def set_cursor_def)
  moreover have "get_char e (record_char CARRIAGE_RETURN) EditingKeys = Some (Char CARRIAGE_RETURN 0)"
    by (rule record_char_types) (simp_all add: CARRIAGE_RETURN_def)
  moreover have "\<not> is_done c" "cr_popups c = []" using assms(1) by (simp_all add: line_at_def is_done_def)
  moreover have "is_done ?c" by (simp add: is_done_def)
  ultimately have "feed_records e (record_char CARRIAGE_RETURN # rs) cx c = feed_records e rs cx ?c"
    by (simp add: feed_key with_line_def del: feed_records.simps)
  moreover have "feed_records e rs cx ?c = Some (rs, ?c, cx)"
    by (cases rs) (simp_all add: is_done_def)
  ultimately show ?thesis using l by auto
qed

lemma echo_keeps:
  assumes "screen_ok e screen" "line_at wake screen st t c" "st \<noteq> DoneWithWakeupMask" "length t \<le> NPOS"
  obtains c' s' where "echo_line e echo process c s = Some (c', s')" "line_at wake screen st t c'"
    "cn_input s' = cn_input s" "cn_histories s' = cn_histories s" "cn_aliases s' = cn_aliases s"
proof -
  obtain cursor where g: "geometry e s = (screen, cursor)" "on_screen screen cursor" using geometry_ok [OF assms(1)] by blast
  have "case cr_origin c of Some p \<Rightarrow> on_screen screen p | None \<Rightarrow> on_screen screen cursor"
    using assms(2) g(2) by (auto simp: line_at_def split: option.splits)
  then obtain drawn c' where r: "redisplay (ce_width (re_env e)) screen cursor True (re_sgr e) (history_of process (cn_histories s)) c = Some (drawn, c')"
    "same_line c c'" "c' = c \<or> (\<exists>o'. cr_origin c' = Some o' \<and> on_screen screen o')"
    using redisplay_ok [of screen c cursor "ce_width (re_env e)" True "re_sgr e" "history_of process (cn_histories s)"]
      assms line_at_ok [OF assms(2,3)] by (auto simp: screen_ok_def line_at_def)
  have "line_at wake screen st t c'"
    using r(2,3) assms(2) by (auto simp: line_at_def same_line_def)
  then show thesis
    using that [of c s] that [of c' "case drawn of Some u \<Rightarrow> write_echo u s | None \<Rightarrow> s"] assms(2) r(1) g
    by (cases echo) (auto simp: echo_line_def write_echo_def split: option.splits)
qed

subsection \<open>One attempt of a read\<close>

text \<open>A read that has typed \<open>t\<close> so far.\<close>

definition typing :: "int \<times> int \<Rightarrow> read_request \<Rightarrow> u16 list \<Rightarrow> bool" where
  "typing screen q t \<longleftrightarrow> rq_initial q = [] \<and> rq_body_len q \<le> rq_output_size q \<and>
     (case rq_cooked q of None \<Rightarrow> t = [] | Some c \<Rightarrow> line_at (rq_wakeup_mask q) screen Accumulating t c)"

lemma typing_start:
  assumes "typing screen q t" "line_mode e"
  shows "\<exists>c. start_cooked e q s = Some c \<and> line_at (rq_wakeup_mask q) screen Accumulating t c"
proof (cases "rq_cooked q")
  case None
  then show ?thesis using assms
    by (auto simp: start_cooked_def typing_def cooked_new_def line_at_def cooked_empty_def line_mode_def Let_def)
qed (use assms in \<open>auto simp: start_cooked_def typing_def\<close>)

lemma put_history_same [simp]: "put_history process (history_of process hs) hs = hs"
  by (auto simp: put_history_def history_of_def split: option.split)

lemma typed_position:
  assumes "\<forall>ch \<in> set us. plain_unit wake ch"
  shows "through_enter (map record_char us) = (map record_char us, [])"
    "through_enter (map record_char us @ record_char CARRIAGE_RETURN # rs) = (map record_char us @ [record_char CARRIAGE_RETURN], rs)"
proof -
  let ?P = "\<lambda>r. u32_at r 4 \<noteq> 0 \<and> u16_at r 14 = 13"
  have none: "position ?P (map record_char us) = None"
    using assms by (auto simp: position_None_iff record_char_def plain_unit_def CARRIAGE_RETURN_def)
  then show "through_enter (map record_char us) = (map record_char us, [])" by (simp add: through_enter_def del: position_map)
  have "position ?P (map record_char us @ record_char CARRIAGE_RETURN # rs) = Some (length us)"
    using assms
  proof (induction us)
    case (Cons u us)
    then show ?case by (simp add: record_char_def plain_unit_def CARRIAGE_RETURN_def)
  qed (simp add: record_char_def CARRIAGE_RETURN_def)
  then show "through_enter (map record_char us @ record_char CARRIAGE_RETURN # rs) = (map record_char us @ [record_char CARRIAGE_RETURN], rs)"
    by (simp add: through_enter_def)
qed

lemma read_attempt:
  assumes "typing screen q t" "line_mode e" "in_pending (cn_input s) (rq_object q) = None"
    and "start_cooked e q s = Some c0" "feed_queue e True (rq_process q) c0 s = Some (c1, s1)"
    and "echo_line e True (rq_process q) c1 s1 = Some (c2, s2)" "cr_state c2 \<noteq> DoneWithWakeupMask"
  shows "read_text e q s =
    (if \<not> is_done c2 then Some (None, q\<lparr>rq_cooked := Some c2\<rparr>, s2)
     else map_option (map_prod Some id) (finish_cooked e q (rq_output_size q - rq_body_len q) True True c2 s2))"
proof -
  have "minus_usize (rq_output_size q) (rq_body_len q) = Some (rq_output_size q - rq_body_len q)"
    using assms(1) by (simp add: minus_usize_def typing_def)
  moreover have "(ce_mode (re_env e) AND 1 \<noteq> 0) = True" "(ce_mode (re_env e) AND 4 \<noteq> 0) = True"
    "(ce_mode (re_env e) AND ENABLE_LINE_INPUT = 0) = False"
    using assms(2) by (simp_all add: line_mode_def Let_def)
  moreover have "read_owed (re_env e) (rq_object q) capacity u (cn_input s) = None" for capacity u
    using assms(3) by (simp add: read_owed_def)
  ultimately show ?thesis
    unfolding read_text_def read_cooked_def Let_def using assms(4-7) by simp
qed

lemma read_waits:
  assumes "typing screen q t" "line_mode e" "screen_ok e screen" "in_pending (cn_input s) (rq_object q) = None"
    and "in_records (cn_input s) = map record_char us" "\<forall>ch \<in> set us. plain_unit (rq_wakeup_mask q) ch"
    and "length (t @ us) \<le> NPOS"
  obtains c s' where "read_text e q s = Some (None, q\<lparr>rq_cooked := Some c\<rparr>, s')"
    "line_at (rq_wakeup_mask q) screen Accumulating (t @ us) c" "in_records (cn_input s') = []"
    "in_pending (cn_input s') = in_pending (cn_input s)" "cn_histories s' = cn_histories s" "cn_aliases s' = cn_aliases s"
proof -
  let ?cx = "\<lparr>cx_history = history_of (rq_process q) (cn_histories s), cx_processed = True, cx_clear_cmd = False\<rparr>"
  obtain c0 where c0: "start_cooked e q s = Some c0" "line_at (rq_wakeup_mask q) screen Accumulating t c0"
    using typing_start [OF assms(1,2)] by blast
  obtain c1 where c1: "feed_records (re_env e) (map record_char us) ?cx c0 = Some ([], c1, ?cx)"
    "line_at (rq_wakeup_mask q) screen Accumulating (t @ us) c1"
    using feed_typed [OF assms(6) c0(2), of "re_env e" ?cx] by (auto dest!: spec [of _ "[]"])
  define s1 where "s1 = s\<lparr>cn_input := (cn_input s)\<lparr>in_records := [], in_first_event := None\<rparr>\<rparr>"
  have f: "feed_queue e True (rq_process q) c0 s = Some (c1, s1)"
    using c1(1) assms(5) typed_position(1) [OF assms(6)] by (simp add: feed_queue_def s1_def)
  obtain c2 s2 where e: "echo_line e True (rq_process q) c1 s1 = Some (c2, s2)"
    "line_at (rq_wakeup_mask q) screen Accumulating (t @ us) c2"
    "cn_input s2 = cn_input s1" "cn_histories s2 = cn_histories s1" "cn_aliases s2 = cn_aliases s1"
    by (rule echo_keeps [OF assms(3) c1(2) cooked_state.distinct(1) assms(7), where echo = True and process = "rq_process q" and s = s1])
  have "read_text e q s = Some (None, q\<lparr>rq_cooked := Some c2\<rparr>, s2)"
    using read_attempt [OF assms(1,2,4) c0(1) f e(1)] e(2) by (simp add: line_at_def is_done_def)
  then show thesis by (rule that [OF _ e(2)]) (simp_all add: e(3-5) s1_def)
qed

lemma finish_line:
  assumes "line_at wake screen DoneWithCarriageReturn line c"
    and "enter_history (rq_process q) line (cn_histories s) = Some hs"
  shows "\<exists>c'. finish_cooked e q capacity True True c s =
    (case deliver e q capacity (expand_line e True True line (rq_exe q) (cn_aliases s)) ((write_echo [13, 10] s)\<lparr>cn_histories := hs\<rparr>) of
       (bs, s) \<Rightarrow> Some (bs, q\<lparr>rq_control := cr_control c, rq_cooked := Some c'\<rparr>, s))"
proof -
  have "deliver e (q\<lparr>rq_control := a, rq_cooked := b\<rparr>) = deliver e q" for a b
    by (simp add: deliver_def fun_eq_iff Let_def split: prod.split)
  then show ?thesis using assms
    by (auto simp: finish_cooked_def Let_def line_at_def write_echo_def split: prod.splits)
qed

lemma read_completes:
  assumes "typing screen q t" "line_mode e" "screen_ok e screen" "in_pending (cn_input s) (rq_object q) = None"
    and "start_cooked e q s = Some c0" "feed_queue e True (rq_process q) c0 s = Some (c2, s1)"
    and "line_at wake screen DoneWithCarriageReturn line c2" "length line \<le> NPOS"
    and "enter_history (rq_process q) line (cn_histories s1) = Some hs"
  obtains q' s' where "cn_input s' = cn_input s1" "cn_histories s' = hs" "cn_aliases s' = cn_aliases s1"
    "read_text e q s = (case deliver e q (rq_output_size q - rq_body_len q)
        (expand_line e True True line (rq_exe q) (cn_aliases s1)) s' of (bs, s') \<Rightarrow> Some (Some bs, q', s'))"
proof -
  obtain c3 s2 where e: "echo_line e True (rq_process q) c2 s1 = Some (c3, s2)"
    "line_at wake screen DoneWithCarriageReturn line c3"
    "cn_input s2 = cn_input s1" "cn_histories s2 = cn_histories s1" "cn_aliases s2 = cn_aliases s1"
    by (rule echo_keeps [OF assms(3,7) cooked_state.distinct(6) assms(8), where echo = True and process = "rq_process q" and s = s1])
  have "enter_history (rq_process q) line (cn_histories s2) = Some hs" using assms(9) e(4) by simp
  from finish_line [OF e(2) this, of e "rq_output_size q - rq_body_len q"] obtain c' where
    fin: "finish_cooked e q (rq_output_size q - rq_body_len q) True True c3 s2 =
    (case deliver e q (rq_output_size q - rq_body_len q) (expand_line e True True line (rq_exe q) (cn_aliases s2))
       ((write_echo [13, 10] s2)\<lparr>cn_histories := hs\<rparr>) of
       (bs, s) \<Rightarrow> Some (bs, q\<lparr>rq_control := cr_control c3, rq_cooked := Some c'\<rparr>, s))"
    by blast
  have d: "is_done c3" "cr_state c3 \<noteq> DoneWithWakeupMask" using e(2) by (simp_all add: line_at_def is_done_def)
  let ?s = "(write_echo [13, 10] s2)\<lparr>cn_histories := hs\<rparr>"
  show thesis
  proof (rule that [of ?s "q\<lparr>rq_control := cr_control c3, rq_cooked := Some c'\<rparr>"])
    show "cn_input ?s = cn_input s1" "cn_histories ?s = hs" "cn_aliases ?s = cn_aliases s1"
      by (simp_all add: write_echo_def e(3-5))
    show "read_text e q s = (case deliver e q (rq_output_size q - rq_body_len q)
        (expand_line e True True line (rq_exe q) (cn_aliases s1)) ?s of
        (bs, s') \<Rightarrow> Some (Some bs, q\<lparr>rq_control := cr_control c3, rq_cooked := Some c'\<rparr>, s'))"
      unfolding read_attempt [OF assms(1,2,4-6) e(1) d(2)] fin
      using d(1) by (simp add: e(5) split: prod.split)
  qed
qed

lemma read_finishes:
  assumes "typing screen q t" "line_mode e" "screen_ok e screen" "in_pending (cn_input s) (rq_object q) = None"
    and "in_records (cn_input s) = map record_char us @ record_char CARRIAGE_RETURN # later"
    and "\<forall>ch \<in> set us. plain_unit (rq_wakeup_mask q) ch" "\<not> wakes (rq_wakeup_mask q) CARRIAGE_RETURN"
    and "length (t @ us) \<le> NPOS" "enter_history (rq_process q) (t @ us) (cn_histories s) = Some hs"
  obtains q' s1 where "in_records (cn_input s1) = later" "in_pending (cn_input s1) = in_pending (cn_input s)"
    "cn_histories s1 = hs" "cn_aliases s1 = cn_aliases s"
    "read_text e q s = (case deliver e q (rq_output_size q - rq_body_len q)
        (expand_line e True True (t @ us) (rq_exe q) (cn_aliases s)) s1 of (bs, s') \<Rightarrow> Some (Some bs, q', s'))"
proof -
  let ?cx = "\<lparr>cx_history = history_of (rq_process q) (cn_histories s), cx_processed = True, cx_clear_cmd = False\<rparr>"
  let ?w = "rq_wakeup_mask q"
  obtain c0 where c0: "start_cooked e q s = Some c0" "line_at ?w screen Accumulating t c0"
    using typing_start [OF assms(1,2)] by blast
  obtain c1 where c1: "\<And>rs. feed_records (re_env e) (map record_char us @ rs) ?cx c0 = feed_records (re_env e) rs ?cx c1"
    "line_at ?w screen Accumulating (t @ us) c1"
    using feed_typed [OF assms(6) c0(2), of "re_env e" ?cx] by blast
  obtain c2 where c2: "feed_records (re_env e) [record_char CARRIAGE_RETURN] ?cx c1 = Some ([], c2, ?cx)"
    "line_at ?w screen DoneWithCarriageReturn (t @ us) c2"
    using press_enter [OF c1(2) assms(7,8)] by blast
  define s1 where "s1 = s\<lparr>cn_input := (cn_input s)\<lparr>in_records := later, in_first_event := None\<rparr>\<rparr>"
  have f: "feed_queue e True (rq_process q) c0 s = Some (c2, s1)"
    using c1(1) c2(1) assms(5) typed_position(2) [OF assms(6)] by (simp add: feed_queue_def s1_def del: feed_records.simps)
  have h: "enter_history (rq_process q) (t @ us) (cn_histories s1) = Some hs" using assms(9) by (simp add: s1_def)
  obtain q' s' where r: "cn_input s' = cn_input s1" "cn_histories s' = hs" "cn_aliases s' = cn_aliases s1"
    "read_text e q s = (case deliver e q (rq_output_size q - rq_body_len q)
        (expand_line e True True (t @ us) (rq_exe q) (cn_aliases s1)) s' of (bs, s') \<Rightarrow> Some (Some bs, q', s'))"
    by (rule read_completes [OF assms(1-4) c0(1) f c2(2) assms(8) h])
  show thesis
  proof (rule that [of s' q'])
    show "in_records (cn_input s') = later" "in_pending (cn_input s') = in_pending (cn_input s)" "cn_aliases s' = cn_aliases s"
      by (simp_all add: r(1,3) s1_def)
    show "read_text e q s = (case deliver e q (rq_output_size q - rq_body_len q)
        (expand_line e True True (t @ us) (rq_exe q) (cn_aliases s)) s' of (bs, s') \<Rightarrow> Some (Some bs, q', s'))"
      using r(4) by (simp add: s1_def)
  qed (rule r(2))
qed

subsection \<open>What a read delivers\<close>

lemma deliver_all:
  assumes "2 * length line \<le> capacity" "rq_unicode q" "\<not> rq_control_z q" "in_pending (cn_input s) (rq_object q) = None"
  shows "\<exists>s'. deliver e q capacity (line, 1) s = (concat (map le16 line), s') \<and> in_pending (cn_input s') = in_pending (cn_input s) \<and>
    in_records (cn_input s') = in_records (cn_input s) \<and> cn_histories s' = cn_histories s \<and> cn_aliases s' = cn_aliases s"
proof -
  have "length line \<le> capacity div 2" using assms(1) by simp
  then have "encode_prefix (re_env e) line capacity True = (concat (map le16 line), length line)"
    by (simp add: encode_prefix_def Let_def min_absorb2)
  then show ?thesis using assms(2,3) by (simp add: deliver_def line_limit_def control_z_def Let_def)
qed

text \<open>The keys of a line, in whatever batches they arrive.\<close>

lemma batch_cases:
  assumes "concat (b # bs) = map record_char (us @ [CARRIAGE_RETURN])"
  obtains (more) ks rest where "b = map record_char ks" "us = ks @ rest" "concat bs = map record_char (rest @ [CARRIAGE_RETURN])"
    | (last) "b = map record_char (us @ [CARRIAGE_RETURN])" "concat bs = []"
proof (cases "length b \<le> length us")
  case True
  have "b = take (length b) (concat (b # bs))" "concat bs = drop (length b) (concat (b # bs))" by simp_all
  then have "b = map record_char (take (length b) us)" "concat bs = map record_char (drop (length b) us @ [CARRIAGE_RETURN])"
    using True unfolding assms by (simp_all add: take_map drop_map)
  then show thesis using more [of "take (length b) us" "drop (length b) us"] by simp
next
  case False
  have "length b + length (concat bs) = length us + 1" using arg_cong [OF assms, of length] by simp
  then have "length (concat bs) = 0" using False by linarith
  then have e: "concat bs = []" by (simp only: length_0_conv)
  then show thesis using last assms by (simp only: concat.simps append_Nil2)
qed

lemma typed_line_read:
  assumes "line_mode e" "screen_ok e screen" "typing screen q t" "in_records (cn_input s) = []"
    and "in_pending (cn_input s) (rq_object q) = None" "concat batches = map record_char (us @ [CARRIAGE_RETURN])"
    and "\<forall>ch \<in> set us. plain_unit (rq_wakeup_mask q) ch" "\<not> wakes (rq_wakeup_mask q) CARRIAGE_RETURN"
    and "alias_expand (re_lower e) (t @ us) (rq_exe q) (cn_aliases s) = None"
    and "rq_unicode q" "\<not> rq_control_z q" "rq_body_len q + 2 * (length (t @ us) + 2) \<le> rq_output_size q"
    and "length (t @ us) \<le> NPOS" "enter_history (rq_process q) (t @ us) (cn_histories s) = Some hs"
  shows "\<exists>q' s'. read_batches e q batches s = Some (Some (concat (map le16 (t @ us @ [13, 10]))), q', s') \<and>
    cn_histories s' = hs \<and> in_records (cn_input s') = [] \<and> in_pending (cn_input s') = in_pending (cn_input s) \<and> cn_aliases s' = cn_aliases s"
  using assms(3-14)
proof (induction batches arbitrary: q t s us)
  case (Cons b bs)
  let ?s = "s\<lparr>cn_input := (cn_input s)\<lparr>in_records := in_records (cn_input s) @ b\<rparr>\<rparr>"
  have p: "in_pending (cn_input ?s) (rq_object q) = None" using Cons.prems(3) by simp
  show ?case
  proof (cases rule: batch_cases [OF Cons.prems(4)])
    case (1 ks rest)
    note more = this
    have k: "\<forall>ch \<in> set ks. plain_unit (rq_wakeup_mask q) ch" "in_records (cn_input ?s) = map record_char ks"
      "length (t @ ks) \<le> NPOS"
      using Cons.prems(2,5,11) more by simp_all
    obtain c s1 where r: "read_text e q ?s = Some (None, q\<lparr>rq_cooked := Some c\<rparr>, s1)"
      "line_at (rq_wakeup_mask q) screen Accumulating (t @ ks) c" "in_records (cn_input s1) = []"
      "in_pending (cn_input s1) = in_pending (cn_input ?s)" "cn_histories s1 = cn_histories ?s" "cn_aliases s1 = cn_aliases ?s"
      by (rule read_waits [OF Cons.prems(1) assms(1,2) p k(2,1,3)])
    let ?q = "q\<lparr>rq_cooked := Some c, rq_waited := True\<rparr>"
    have "typing screen ?q (t @ ks)" using Cons.prems(1) r(2) by (simp add: typing_def)
    then have "\<exists>q' s'. read_batches e ?q bs s1 = Some (Some (concat (map le16 ((t @ ks) @ rest @ [13, 10]))), q', s') \<and>
      cn_histories s' = hs \<and> in_records (cn_input s') = [] \<and> in_pending (cn_input s') = in_pending (cn_input s1) \<and> cn_aliases s' = cn_aliases s1"
      by (rule Cons.IH) (use Cons.prems r more in simp_all)
    then show ?thesis using r more(2) by simp
  next
    case 2
    note last = this
    have k: "in_records (cn_input ?s) = map record_char us @ record_char CARRIAGE_RETURN # []"
      "enter_history (rq_process q) (t @ us) (cn_histories ?s) = Some hs"
      using Cons.prems(2,12) last by simp_all
    obtain q' s1 where r: "in_records (cn_input s1) = []" "in_pending (cn_input s1) = in_pending (cn_input ?s)"
      "cn_histories s1 = hs" "cn_aliases s1 = cn_aliases ?s"
      "read_text e q ?s = (case deliver e q (rq_output_size q - rq_body_len q)
        (expand_line e True True (t @ us) (rq_exe q) (cn_aliases ?s)) s1 of (bs, s') \<Rightarrow> Some (Some bs, q', s'))"
      by (rule read_finishes [OF Cons.prems(1) assms(1,2) p k(1) Cons.prems(5,6,11) k(2)])
    have x: "expand_line e True True (t @ us) (rq_exe q) (cn_aliases ?s) = (t @ us @ [13, 10], 1)"
      using Cons.prems(7) by (simp add: expand_line_def)
    have fits: "2 * length (t @ us @ [13, 10]) \<le> rq_output_size q - rq_body_len q" using Cons.prems(10) by simp
    have none: "in_pending (cn_input s1) (rq_object q) = None" using Cons.prems(3) r(2) by simp
    obtain s' where d: "deliver e q (rq_output_size q - rq_body_len q) (t @ us @ [13, 10], 1) s1 =
        (concat (map le16 (t @ us @ [13, 10])), s')" "in_pending (cn_input s') = in_pending (cn_input s1)"
      "in_records (cn_input s') = in_records (cn_input s1)" "cn_histories s' = cn_histories s1" "cn_aliases s' = cn_aliases s1"
      using deliver_all [OF fits Cons.prems(8,9) none, of e] by blast
    have "read_text e q ?s = Some (Some (concat (map le16 (t @ us @ [13, 10]))), q', s')"
      unfolding r(5) x d(1) by simp
    then show ?thesis using d(2-5) r(1-4) by simp
  qed
qed simp

section \<open>A console with one client\<close>

definition sample_env :: read_env where
  "sample_env = \<lparr>re_env = plain_env, re_lower = id, re_geometry = \<lambda>_. ((80, 25), (0, 0)), re_sgr = []\<rparr>"

definition sample_request :: read_request where
  "sample_request = \<lparr>rq_process = 7, rq_object = 3, rq_output_size = 100, rq_body_len = 20, rq_unicode = True, rq_waited = False,
     rq_exe = [], rq_initial = [], rq_wakeup_mask = 0, rq_control_z = False, rq_cooked = None, rq_control = 0\<rparr>"

definition sample_console :: console where
  "sample_console = \<lparr>cn_input = idle_input,
     cn_histories = \<lparr>hs_lists = [new_history 50 [] 7], hs_size = 50, hs_buffers = 4, hs_flags = 0\<rparr>, cn_aliases = [], cn_written = []\<rparr>"

lemma sample_console_ok:
  "line_mode sample_env" "screen_ok sample_env (80, 25)" "rq_cooked sample_request = None" "rq_initial sample_request = []"
  "in_records (cn_input sample_console) = []" "in_pending (cn_input sample_console) (rq_object sample_request) = None"
  "\<not> wakes (rq_wakeup_mask sample_request) CARRIAGE_RETURN" "rq_unicode sample_request" "\<not> rq_control_z sample_request"
  "alias_expand (re_lower sample_env) line (rq_exe sample_request) (cn_aliases sample_console) = None"
  "history_of (rq_process sample_request) (cn_histories sample_console) = Some (new_history 50 [] 7)"
  "rq_body_len sample_request = 20" "rq_output_size sample_request = 100" "rq_wakeup_mask sample_request = 0"
  by (simp_all add: line_mode_def sample_env_def plain_env_def ENABLE_LINE_INPUT_def INSERT_MODE_def screen_ok_def on_screen_def
      sample_request_def sample_console_def idle_input_def wakes_def alias_expand_def exe_map_def history_of_def find_owner_def
      new_history_def)

text \<open>
  C29. A line typed into a cooked \<open>ReadConsoleW\<close>, in whatever batches its keys reach the queue, is
  returned whole with its line break when Enter arrives: the program gets exactly what was typed, the
  line has entered the history, and nothing stays queued or owed.  The line consists of characters that are
  only inserted, no alias matches it, and the buffer of the read has room for it.
\<close>

theorem typed_line_is_read:
  assumes "line_mode e" "screen_ok e screen" "rq_cooked q = None" "rq_initial q = []"
    and "in_records (cn_input s) = []" "in_pending (cn_input s) (rq_object q) = None"
    and "concat batches = map record_char (line @ [CARRIAGE_RETURN])"
    and "\<forall>ch \<in> set line. plain_unit (rq_wakeup_mask q) ch" "\<not> wakes (rq_wakeup_mask q) CARRIAGE_RETURN"
    and "alias_expand (re_lower e) line (rq_exe q) (cn_aliases s) = None"
    and "rq_unicode q" "\<not> rq_control_z q" "rq_body_len q + 2 * (length line + 2) \<le> rq_output_size q"
    and "length line \<le> NPOS" "enter_history (rq_process q) line (cn_histories s) = Some hs"
  shows "\<exists>q' s'. read_batches e q batches s = Some (Some (concat (map le16 (line @ [13, 10]))), q', s') \<and>
    cn_histories s' = hs \<and> in_records (cn_input s') = [] \<and> in_pending (cn_input s') = in_pending (cn_input s)"
proof -
  have "typing screen q []" using assms(3,4,13) by (simp add: typing_def)
  then show ?thesis
    using typed_line_read [OF assms(1,2) _ assms(5-9), of "[]" hs] assms(10-15) by auto
qed

theorem typed_line_is_read_witness:
  "\<exists>q' s'. read_batches sample_env sample_request [[record_char 97], [], [record_char 98, record_char 13]] sample_console =
     Some (Some (concat (map le16 [97, 98, 13, 10])), q', s') \<and> in_records (cn_input s') = []"
proof -
  have "concat [[record_char 97], [], [record_char 98, record_char 13]] = map record_char ([97, 98] @ [CARRIAGE_RETURN])"
    by (simp add: CARRIAGE_RETURN_def)
  moreover have "\<forall>ch \<in> set [97, 98]. plain_unit (rq_wakeup_mask sample_request) ch"
    by (simp add: sample_console_ok plain_unit_def wakes_def CARRIAGE_RETURN_def EXTKEY_ERASE_PREV_WORD_def BACKSPACE_def)
  moreover obtain hs where "enter_history (rq_process sample_request) [97, 98] (cn_histories sample_console) = Some hs"
  proof -
    have "history_add [97, 98] nd (new_history 50 [] 7) \<noteq> None" for nd
      by (simp add: history_add_def new_history_def take_duplicate_def history_find_def)
    then have "enter_history (rq_process sample_request) [97, 98] (cn_histories sample_console) \<noteq> None"
      by (simp add: enter_history_def sample_console_ok split: option.split)
    then show thesis using that by blast
  qed
  ultimately have "\<exists>q' s'. read_batches sample_env sample_request [[record_char 97], [], [record_char 98, record_char 13]] sample_console =
     Some (Some (concat (map le16 ([97, 98] @ [13, 10]))), q', s') \<and> cn_histories s' = hs \<and>
     in_records (cn_input s') = [] \<and> in_pending (cn_input s') = in_pending (cn_input sample_console)"
    by (intro typed_line_is_read [OF sample_console_ok(1-6) _ _ sample_console_ok(7,10,8,9)]) (simp_all add: sample_console_ok NPOS_def)
  then show ?thesis by auto
qed

subsection \<open>Recalling a line\<close>

lemma history_add_recalled:
  assumes "history_ok h" "line \<noteq> []" "ch_max h \<noteq> 0" "ch_commands h = [] \<or> last (ch_commands h) \<noteq> line"
    and "history_add line nd h = Some h'"
  shows "ch_reset h'" "ch_commands h' \<noteq> []" "last (ch_commands h') = line" "fst (retrieve Previous h') = line"
proof -
  obtain reuse h1 where d: "take_duplicate line nd h = Some (reuse, h1)" and h': "h' = push_command line reuse h1\<lparr>ch_reset := True\<rparr>"
    using assms(2-5) by (auto simp: history_add_def split: option.splits if_splits)
  have ok: "history_ok h1" "ch_max h1 \<noteq> 0" "reuse = None \<or> reuse = Some line" "reuse = None \<or> history_len h1 < ch_max h1 \<or> ch_max h1 < 0"
    using take_duplicate_ok [OF assms(1) d assms(2)] assms(3) by auto
  note p = push_command_ok [OF ok(1) assms(2) ok(2-4)]
  let ?h = "push_command line reuse h1"
  show "ch_reset h'" by (simp add: h')
  show ne: "ch_commands h' \<noteq> []" and l: "last (ch_commands h') = line" using p(3) by (simp_all add: h')
  have "history_nth (ch_last ?h) ?h = line"
  proof -
    define h2 where "h2 = (if history_len h1 = ch_max h1
        then h1\<lparr>ch_commands := remove_at 0 (ch_commands h1), ch_last := ch_last h1 - 1\<rparr> else h1)"
    define h3 where "h3 = h2\<lparr>ch_commands := ch_commands h2 @ [case reuse of Some c \<Rightarrow> c | None \<Rightarrow> line]\<rparr>"
    have push: "?h = (if ch_last h3 = -1 \<or> history_nth (ch_last h3) h3 \<noteq> line then reset_position h3 else h3)"
      by (simp add: push_command_def h2_def h3_def)
    have "(case reuse of Some c \<Rightarrow> c | None \<Rightarrow> line) = line" using ok(3) by auto
    then have "history_nth (history_len h3 - 1) h3 = line"
      by (simp add: history_nth_def history_len_def h3_def nat_add_distrib)
    moreover have "history_nth i (reset_position h3) = history_nth i h3" "ch_last (reset_position h3) = history_len h3 - 1" for i
      by (simp_all add: reset_position_def history_nth_def history_len_def)
    ultimately show ?thesis unfolding push by auto
  qed
  then have "0 \<le> ch_last ?h" "ch_last ?h < history_len ?h" "ch_commands ?h ! nat (ch_last ?h) = line"
    using assms(2) by (auto simp: history_nth_def split: if_splits)
  then show "fst (retrieve Previous h') = line"
    using ne by (simp add: retrieve_def retrieve_nth_def h' history_len_def)
qed

text \<open>The Up arrow, as the terminal sends it.\<close>

definition up_key :: bytes where
  "up_key = key_record VK_UP 72 0 1 0x100 1"

lemma up_key_is_editing: "get_char e up_key EditingKeys = Some (Vkey VK_UP 0x100)" "repeat_count up_key = 1"
  by (simp_all add: get_char_def up_key_def is_editing_key_def popup_key_def ALT_def CTRL_def vk_defs repeat_count_def)

lemma press_up:
  assumes "line_at wake screen Accumulating t c" "cx_history cx = Some h" "ch_reset h" "retrieve Previous h = (line, h')"
  shows "\<exists>c'. feed_records e (up_key # rs) cx c = feed_records e rs (cx\<lparr>cx_history := Some h'\<rparr>) c' \<and>
    line_at wake screen Accumulating line c'"
proof -
  have "\<not> at_first h" using assms(3) by (simp add: at_first_def)
  then have "handle_vkey (ce_width e) VK_UP 0x100 cx c = Some (replace_all line c, cx\<lparr>cx_history := Some h'\<rparr>)"
    using assms(2,4) by (simp add: handle_vkey_def retrieve_unless_def show_command_def vk_defs Let_def)
  moreover have "line_at wake screen Accumulating line (replace_all line c)" using assms(1) by (simp add: line_at_def replace_all_def)
  moreover have "\<not> is_done c" "cr_popups c = []" using assms(1) by (simp_all add: line_at_def is_done_def)
  ultimately show ?thesis using up_key_is_editing by (auto simp: feed_key simp del: feed_records.simps)
qed

lemma position_update: "position P xs = Some i \<Longrightarrow> P x \<Longrightarrow> position P (xs[i := x]) = Some i"
  by (induction xs arbitrary: i) (auto split: if_splits nat.splits option.splits)

lemma position_less: "position P xs = Some i \<Longrightarrow> i < length xs"
  by (auto dest!: position_SomeD)

lemma find_owner_Some: "find_owner process hs = Some i \<Longrightarrow> i < length (hs_lists hs) \<and> ch_owner (hs_lists hs ! i) = Some process"
  unfolding find_owner_def by (auto dest!: position_SomeD)

lemma history_of_put:
  "history_of process hs = Some h \<Longrightarrow> ch_owner h' = Some process \<Longrightarrow>
   history_of process (put_history process (Some h') hs) = Some h' \<and> hs_flags (put_history process (Some h') hs) = hs_flags hs"
  by (auto simp: history_of_def put_history_def find_owner_def position_update position_less)

lemma history_of_owner: "history_of process hs = Some h \<Longrightarrow> ch_owner h = Some process"
  by (auto simp: history_of_def dest: find_owner_Some)

lemma history_add_owner: "history_add line nd h = Some h' \<Longrightarrow> ch_owner h' = ch_owner h"
proof -
  assume a: "history_add line nd h = Some h'"
  have dup: "ch_owner h1 = ch_owner h" if "take_duplicate line nd h = Some (r, h1)" for r h1
    using that by (auto simp: take_duplicate_def history_remove_def Let_def
        dest!: history_find_state split: if_splits option.splits prod.splits)
  have push: "ch_owner (push_command line r h1) = ch_owner h1" for r h1
    by (simp add: push_command_def reset_position_def Let_def)
  show ?thesis using a dup push by (auto simp: history_add_def split: if_splits option.splits)
qed

lemma retrieve_commands: "ch_commands (snd (retrieve d h)) = ch_commands h \<and> ch_owner (snd (retrieve d h)) = ch_owner h \<and> ch_max (snd (retrieve d h)) = ch_max h"
  by (auto simp: retrieve_def retrieve_nth_def Let_def split: retrieve_direction.split)

lemma read_up:
  assumes "line_mode e" "screen_ok e screen" "typing screen q []" "in_pending (cn_input s) (rq_object q) = None"
    and "in_records (cn_input s) = [up_key, record_char CARRIAGE_RETURN]" "\<not> wakes (rq_wakeup_mask q) CARRIAGE_RETURN"
    and "history_of (rq_process q) (cn_histories s) = Some h" "ch_reset h" "fst (retrieve Previous h) = line"
    and "ch_commands h \<noteq> []" "last (ch_commands h) = line" "length line \<le> NPOS"
    and "alias_expand (re_lower e) line (rq_exe q) (cn_aliases s) = None"
    and "rq_unicode q" "\<not> rq_control_z q" "rq_body_len q + 2 * (length line + 2) \<le> rq_output_size q"
  shows "\<exists>q' s'. read_text e q s = Some (Some (concat (map le16 (line @ [13, 10]))), q', s')"
proof -
  let ?cx = "\<lparr>cx_history = Some h, cx_processed = True, cx_clear_cmd = False\<rparr>"
  let ?w = "rq_wakeup_mask q"
  obtain h' where h': "retrieve Previous h = (line, h')" using assms(9) by (cases "retrieve Previous h") auto
  let ?cx' = "?cx\<lparr>cx_history := Some h'\<rparr>"
  obtain c0 where c0: "start_cooked e q s = Some c0" "line_at ?w screen Accumulating [] c0"
    using typing_start [OF assms(3,1)] by blast
  obtain c1 where c1: "feed_records (re_env e) [up_key, record_char CARRIAGE_RETURN] ?cx c0 = feed_records (re_env e) [record_char CARRIAGE_RETURN] ?cx' c1"
    "line_at ?w screen Accumulating line c1"
    using press_up [OF c0(2) _ assms(8) h', of ?cx "re_env e" "[record_char CARRIAGE_RETURN]"] by auto
  obtain c2 where c2: "feed_records (re_env e) [record_char CARRIAGE_RETURN] ?cx' c1 = Some ([], c2, ?cx')"
    "line_at ?w screen DoneWithCarriageReturn line c2"
    using press_enter [OF c1(2) assms(6,12)] by blast
  define s1 where "s1 = s\<lparr>cn_input := (cn_input s)\<lparr>in_records := [], in_first_event := None\<rparr>,
      cn_histories := put_history (rq_process q) (Some h') (cn_histories s)\<rparr>"
  have "through_enter [up_key, record_char CARRIAGE_RETURN] = ([up_key, record_char CARRIAGE_RETURN], [])"
    by (simp add: through_enter_def up_key_def record_char_def CARRIAGE_RETURN_def)
  then have f: "feed_queue e True (rq_process q) c0 s = Some (c2, s1)"
    using c1(1) c2(1) assms(5,7) by (simp add: feed_queue_def s1_def del: feed_records.simps)
  have "ch_owner h' = Some (rq_process q)" using history_of_owner [OF assms(7)] retrieve_commands [of Previous h] h' by simp
  then have "history_of (rq_process q) (cn_histories s1) = Some h'" using history_of_put [OF assms(7)] by (simp add: s1_def)
  moreover have "history_add line nd h' = Some h' \<or> history_add line nd h' = Some (h'\<lparr>ch_reset := True\<rparr>)" for nd
    using assms(10,11) retrieve_commands [of Previous h] h' by (auto simp: history_add_def)
  ultimately obtain hs where hs: "enter_history (rq_process q) line (cn_histories s1) = Some hs"
    unfolding enter_history_def by (metis option.simps(5))
  obtain q' s2 where r: "cn_input s2 = cn_input s1" "cn_histories s2 = hs" "cn_aliases s2 = cn_aliases s1"
    "read_text e q s = (case deliver e q (rq_output_size q - rq_body_len q)
        (expand_line e True True line (rq_exe q) (cn_aliases s1)) s2 of (bs, s') \<Rightarrow> Some (Some bs, q', s'))"
    by (rule read_completes [OF assms(3,1,2,4) c0(1) f c2(2) assms(12) hs])
  have x: "expand_line e True True line (rq_exe q) (cn_aliases s1) = (line @ [13, 10], 1)"
    using assms(13) by (simp add: expand_line_def s1_def)
  have "2 * length (line @ [13, 10]) \<le> rq_output_size q - rq_body_len q" "in_pending (cn_input s2) (rq_object q) = None"
    using assms(16,4) by (simp_all add: r(1) s1_def)
  then obtain s' where "deliver e q (rq_output_size q - rq_body_len q) (line @ [13, 10], 1) s2 = (concat (map le16 (line @ [13, 10])), s')"
    using deliver_all [OF _ assms(14,15)] by blast
  then show ?thesis unfolding r(4) x by auto
qed

text \<open>
  C30. A line that was entered is recalled by the Up arrow: in the next read, Up and Enter return
  the line again.  The line is not empty, does not repeat the newest command of the history (which would not be
  added and would leave the history where it was browsed to), matches no alias, and fits the buffer of
  a \<open>ReadConsoleW\<close>.
\<close>

theorem entered_line_is_recalled:
  assumes "line_mode e" "screen_ok e screen" "rq_cooked q = None" "rq_initial q = []"
    and "in_records (cn_input s) = []" "in_pending (cn_input s) (rq_object q) = None"
    and "concat batches = map record_char (line @ [CARRIAGE_RETURN])"
    and "\<forall>ch \<in> set line. plain_unit (rq_wakeup_mask q) ch" "\<not> wakes (rq_wakeup_mask q) CARRIAGE_RETURN"
    and "alias_expand (re_lower e) line (rq_exe q) (cn_aliases s) = None"
    and "rq_unicode q" "\<not> rq_control_z q" "rq_body_len q + 2 * (length line + 2) \<le> rq_output_size q"
    and "length line \<le> NPOS" "line \<noteq> []"
    and "history_of (rq_process q) (cn_histories s) = Some h" "history_ok h" "searchable h" "ch_max h \<noteq> 0"
    and "ch_commands h = [] \<or> last (ch_commands h) \<noteq> line"
  shows "\<exists>q1 s1 q2 s2. read_batches e q batches s = Some (Some (concat (map le16 (line @ [13, 10]))), q1, s1) \<and>
    read_batches e q [[up_key, record_char CARRIAGE_RETURN]] s1 = Some (Some (concat (map le16 (line @ [13, 10]))), q2, s2)"
proof -
  define nd where "nd = (hs_flags (cn_histories s) AND NO_DUPLICATES \<noteq> 0)"
  obtain h' where h': "history_add line nd h = Some h'" by (rule history_add_ok [OF assms(17,18), of line nd])
  note rec = history_add_recalled [OF assms(17,15,19,20) h']
  let ?hs = "put_history (rq_process q) (Some h') (cn_histories s)"
  have enter: "enter_history (rq_process q) line (cn_histories s) = Some ?hs"
    using assms(16) h' by (simp add: enter_history_def nd_def)
  have of': "history_of (rq_process q) ?hs = Some h'"
    using history_of_put [OF assms(16)] history_add_owner [OF h'] history_of_owner [OF assms(16)] by simp
  have t: "typing screen q []" using assms(3,4,13) by (simp add: typing_def)
  obtain q1 s1 where first: "read_batches e q batches s = Some (Some (concat (map le16 (line @ [13, 10]))), q1, s1)"
    "cn_histories s1 = ?hs" "in_records (cn_input s1) = []" "in_pending (cn_input s1) = in_pending (cn_input s)" "cn_aliases s1 = cn_aliases s"
    using typed_line_read [OF assms(1,2) t assms(5-9), of ?hs] assms(10-14) enter by auto
  let ?s = "s1\<lparr>cn_input := (cn_input s1)\<lparr>in_records := [up_key, record_char CARRIAGE_RETURN]\<rparr>\<rparr>"
  have "\<exists>q' s'. read_text e q ?s = Some (Some (concat (map le16 (line @ [13, 10]))), q', s')"
    by (rule read_up [OF assms(1,2) t _ _ assms(9) _ rec(1,4,2,3) assms(14) _ assms(11-13)])
      (use first of' assms(6,10) in simp_all)
  then show ?thesis using first by auto
qed

theorem entered_line_is_recalled_witness:
  "\<exists>q1 s1 q2 s2. read_batches sample_env sample_request [[record_char 97, record_char 13]] sample_console =
      Some (Some (concat (map le16 [97, 13, 10])), q1, s1) \<and>
    read_batches sample_env sample_request [[up_key, record_char 13]] s1 = Some (Some (concat (map le16 [97, 13, 10])), q2, s2)"
proof -
  have "concat [[record_char 97, record_char 13]] = map record_char ([97] @ [CARRIAGE_RETURN])"
    by (simp add: CARRIAGE_RETURN_def)
  moreover have "\<forall>ch \<in> set [97]. plain_unit (rq_wakeup_mask sample_request) ch"
    by (simp add: sample_console_ok plain_unit_def wakes_def CARRIAGE_RETURN_def EXTKEY_ERASE_PREV_WORD_def BACKSPACE_def)
  moreover have "searchable (new_history 50 [] 7)" "ch_max (new_history 50 [] 7) \<noteq> 0" "ch_commands (new_history 50 [] 7) = []"
    by (simp_all add: searchable_def new_history_def)
  ultimately have "\<exists>q1 s1 q2 s2. read_batches sample_env sample_request [[record_char 97, record_char 13]] sample_console =
      Some (Some (concat (map le16 ([97] @ [13, 10]))), q1, s1) \<and>
    read_batches sample_env sample_request [[up_key, record_char CARRIAGE_RETURN]] s1 = Some (Some (concat (map le16 ([97] @ [13, 10]))), q2, s2)"
    by (intro entered_line_is_recalled [OF sample_console_ok(1-6) _ _ sample_console_ok(7,10,8,9) _ _ _ sample_console_ok(11)])
      (simp_all add: sample_console_ok NPOS_def)
  then show ?thesis by (simp only: CARRIAGE_RETURN_def append.simps)
qed

subsection \<open>A line that does not fit\<close>

lemma take_prefix_spec:
  assumes "encode_prefix e (take (line_limit m line) line) capacity unicode = (bs, used)"
  shows "text_bytes e unicode line = bs @ text_bytes e unicode (drop used line)" "length bs \<le> capacity"
proof -
  let ?p = "\<lparr>pe_text = line, pe_multiline = m\<rparr>"
  have "take_pending e ?p capacity unicode = (bs, ?p\<lparr>pe_text := drop used line\<rparr>)"
    using assms by (simp add: take_pending_def)
  then obtain n where n: "?p\<lparr>pe_text := drop used line\<rparr> = ?p\<lparr>pe_text := drop n (pe_text ?p)\<rparr>" "length bs \<le> capacity"
    "text_bytes e unicode (pe_text ?p) = bs @ text_bytes e unicode (drop n (pe_text ?p))"
    by (rule take_pending_spec)
  then show "text_bytes e unicode line = bs @ text_bytes e unicode (drop used line)" "length bs \<le> capacity" by simp_all
qed

text \<open>
  C31. A line finished by Enter loses nothing to a small buffer: the first part, followed by what
  the next reads on the handle return, is the whole text of the line (or of its alias expansion),
  when that is read as UTF-16, or as UTF-8 with room for a character, each part within its buffer.  The read
  returns the first part, or nothing if it is a \<open>ReadFile\<close> (which sets \<open>rq_control_z\<close>) and the part
  begins with Ctrl-Z.
\<close>

theorem finished_line_is_delivered:
  assumes "finish_cooked e q capacity processed echo c s = Some (bs, q', s')"
    and "cr_state c = DoneWithCarriageReturn" "in_pending (cn_input s) (rq_object q) = None"
    and "\<forall>capacity \<in> set caps. room (re_env e) (rq_unicode q) capacity"
    and "length (fst (expand_line e processed echo (cr_buffer c) (rq_exe q) (cn_aliases s))) \<le> length caps"
  shows "\<exists>first outs st. bs = control_z (rq_control_z q) first \<and>
    read_all_owed (re_env e) (rq_object q) (rq_unicode q) caps (cn_input s') = (outs, st) \<and>
    first @ concat outs = text_bytes (re_env e) (rq_unicode q) (fst (expand_line e processed echo (cr_buffer c) (rq_exe q) (cn_aliases s))) \<and>
    length first \<le> capacity \<and> in_pending st (rq_object q) = None"
proof -
  obtain line lines where x: "expand_line e processed echo (cr_buffer c) (rq_exe q) (cn_aliases s) = (line, lines)" by fastforce
  obtain first used where enc: "encode_prefix (re_env e) (take (line_limit (1 < lines) line) line) capacity (rq_unicode q) = (first, used)"
    and z: "bs = control_z (rq_control_z q) first"
    and pend: "in_pending (cn_input s') = (if drop used line \<noteq> [] then (in_pending (cn_input s))
        (rq_object q \<mapsto> \<lparr>pe_text = drop used line, pe_multiline = (1 < lines)\<rparr>) else in_pending (cn_input s))"
    using assms(1,2) x
    by (auto simp: finish_cooked_def Let_def deliver_def write_echo_def split: option.splits if_splits prod.splits)
  have t: "text_bytes (re_env e) (rq_unicode q) line = first @ text_bytes (re_env e) (rq_unicode q) (drop used line)"
    and len: "length first \<le> capacity"
    using take_prefix_spec [OF enc] by simp_all
  show ?thesis
  proof (cases "drop used line = []")
    case True
    have p: "in_pending (cn_input s') (rq_object q) = None" using pend True assms(3) by simp
    then have r: "read_all_owed (re_env e) (rq_object q) (rq_unicode q) caps (cn_input s') = ([], cn_input s')"
      by (cases caps) (simp_all add: read_owed_def)
    have "text_bytes (re_env e) (rq_unicode q) [] = []" by (simp add: text_bytes_def)
    then show ?thesis using z p r t len True x by simp
  next
    case False
    let ?p = "\<lparr>pe_text = drop used line, pe_multiline = (1 < lines)\<rparr>"
    have "in_pending (cn_input s') (rq_object q) = Some ?p" "length (pe_text ?p) \<le> length caps"
      using pend False assms(5) x by simp_all
    from owed_delivered [OF this(1) _ assms(4) this(2)] obtain chunks st where
      "read_all_owed (re_env e) (rq_object q) (rq_unicode q) caps (cn_input s') = (map (text_bytes (re_env e) (rq_unicode q)) chunks, st)"
      "concat (map (text_bytes (re_env e) (rq_unicode q)) chunks) = text_bytes (re_env e) (rq_unicode q) (drop used line)"
      "in_pending st (rq_object q) = None"
      using False by auto
    then show ?thesis using z t len x by simp
  qed
qed

theorem finished_line_is_delivered_witness:
  "\<exists>bs q' s' outs st. finish_cooked sample_env sample_request 3 True False
      ((cooked_empty 0 True)\<lparr>cr_buffer := [97, 98], cr_state := DoneWithCarriageReturn\<rparr>) sample_console = Some (bs, q', s') \<and>
    read_all_owed plain_env 3 True [2, 2, 2, 2] (cn_input s') = (outs, st) \<and>
    bs @ concat outs = concat (map le16 [97, 98, 13, 10])"
proof -
  let ?c = "(cooked_empty 0 True)\<lparr>cr_buffer := [97, 98], cr_state := DoneWithCarriageReturn\<rparr>"
  obtain bs q' s' where f: "finish_cooked sample_env sample_request 3 True False ?c sample_console = Some (bs, q', s')"
  proof -
    have "finish_cooked sample_env sample_request 3 True False ?c sample_console \<noteq> None"
      by (simp add: finish_cooked_def Let_def split: prod.split)
    then show thesis using that by auto
  qed
  have x: "expand_line sample_env True False [97, 98] (rq_exe sample_request) (cn_aliases sample_console) = ([97, 98, 13, 10], 1)"
    by (simp add: expand_line_def)
  have "\<forall>capacity \<in> set [2, 2, 2, 2]. room (re_env sample_env) (rq_unicode sample_request) capacity"
    by (simp add: room_def sample_console_ok)
  then show ?thesis
    using finished_line_is_delivered [OF f _ sample_console_ok(6), of "[2, 2, 2, 2]"] f x
    by (auto simp: sample_request_def sample_env_def text_bytes_def control_z_def simp del: read_all_owed.simps)
qed

end
