(* ===== verification/Zosh_Escape.thy ===== *)
theory Zosh_Escape
  imports Prelude
begin

text \<open>
  The escape prefix of the Mosh endpoint (\<open>crates/zosh/src/escape.rs\<close>): a key of one
  byte arms the state, and the next byte quits, suspends, sends the key itself, or is
  sent after it.
\<close>

section \<open>The key\<close>

record escape_key =
  ek_key :: "u8 option"
  ek_pass :: u8
  ek_pass_alt :: u8

definition DEFAULT_KEY :: u8 where "DEFAULT_KEY = 0x1e"
definition DEFAULT_PASS :: u8 where "DEFAULT_PASS = 94"

definition escape_default :: escape_key where
  "escape_default = \<lparr>ek_key = Some DEFAULT_KEY, ek_pass = DEFAULT_PASS, ek_pass_alt = DEFAULT_PASS\<rparr>"

definition is_ascii_uppercase :: "u8 \<Rightarrow> bool" where
  "is_ascii_uppercase b \<longleftrightarrow> 65 \<le> b \<and> b \<le> 90"

definition from_byte :: "u8 \<Rightarrow> escape_key" where
  "from_byte key =
     (if key = 0 \<or> 128 \<le> key \<or> key \<in> {0x03, 0x04, 0x0a, 0x0c, 0x0d} then escape_default
      else
        let pass = (if key < 32 then key + 64 else key);
            pass_alt = (if is_ascii_uppercase pass then pass + 32 else pass)
        in \<lparr>ek_key = Some key, ek_pass = pass, ek_pass_alt = pass_alt\<rparr>)"

definition from_env :: "bytes option \<Rightarrow> escape_key" where
  "from_env v =
     (case v of
        None \<Rightarrow> escape_default
      | Some bs \<Rightarrow>
          if bs = [] then escape_default\<lparr>ek_key := None\<rparr>
          else if length bs \<noteq> 1 then escape_default
          else from_byte (hd bs))"

text \<open>The name for the status hint: after \<open>Ctrl-\<close>, or the key itself in quotes.\<close>

datatype key_name = Ctrl u8 | Quoted u8

definition escape_name :: "escape_key \<Rightarrow> key_name option" where
  "escape_name e = map_option (\<lambda>key. if key < 32 then Ctrl (ek_pass e) else Quoted key) (ek_key e)"

section \<open>The state\<close>

datatype escape_action = Send bytes | Quit | Suspend | Pending

record escape_state =
  es_escape :: escape_key
  es_armed :: bool

definition escape_new :: "escape_key \<Rightarrow> escape_state" where
  "escape_new e = \<lparr>es_escape = e, es_armed = False\<rparr>"

definition feed :: "u8 \<Rightarrow> escape_state \<Rightarrow> escape_action \<times> escape_state" where
  "feed byte s =
     (case ek_key (es_escape s) of
        None \<Rightarrow> (Send [byte], s)
      | Some key \<Rightarrow>
          if \<not> es_armed s then
            if byte = key then (Pending, s\<lparr>es_armed := True\<rparr>) else (Send [byte], s)
          else
            (if byte = 46 then Quit
             else if byte = 0x1a then Suspend
             else if byte = ek_pass (es_escape s) \<or> byte = ek_pass_alt (es_escape s) then Send [key]
             else Send [key, byte],
             s\<lparr>es_armed := False\<rparr>))"

text \<open>A read as one batch: what is sent, the action that ended it, and the state.\<close>

fun feed_all :: "bytes \<Rightarrow> escape_state \<Rightarrow> bytes \<times> escape_action option \<times> escape_state" where
  "feed_all [] s = ([], None, s)"
| "feed_all (byte # rest) s =
     (case feed byte s of
        (Send bs, s) \<Rightarrow> (case feed_all rest s of (sent, act, s) \<Rightarrow> (bs @ sent, act, s))
      | (Pending, s) \<Rightarrow> feed_all rest s
      | (act, s) \<Rightarrow> ([], Some act, s))"

section \<open>Lemmas\<close>

lemma feed_all_append:
  "feed_all (xs @ ys) s =
     (case feed_all xs s of
        (sent, Some act, s) \<Rightarrow> (sent, Some act, s)
      | (sent, None, s) \<Rightarrow> (case feed_all ys s of (sent', act, s) \<Rightarrow> (sent @ sent', act, s)))"
  by (induction xs s rule: feed_all.induct) (auto split: prod.splits escape_action.splits option.splits)

text \<open>Typing text with the key doubled by its pass character.\<close>

definition escaped :: "escape_key \<Rightarrow> bytes \<Rightarrow> bytes" where
  "escaped e bs = concat (map (\<lambda>b. if ek_key e = Some b then [b, ek_pass e] else [b]) bs)"

definition key_ok :: "escape_key \<Rightarrow> bool" where
  "key_ok e \<longleftrightarrow> ek_pass e \<noteq> 46 \<and> ek_pass e \<noteq> 0x1a"

lemma feed_all_escaped:
  "key_ok e \<Longrightarrow> feed_all (escaped e bs) (escape_new e) = (bs, None, escape_new e)"
  by (induction bs)
    (auto simp: escaped_def feed_def escape_new_def key_ok_def split: option.splits)

lemma from_byte_pass: "ek_pass (from_byte k) = 46 \<Longrightarrow> k = 46" "ek_pass (from_byte k) \<noteq> 0x1a"
  "ek_key (from_byte k) \<noteq> Some 0"
proof -
  have ctrl: "k + 64 \<noteq> 46" "k + 64 \<noteq> 0x1a" if "k < 32"
  proof -
    have "unat k < 32" using that by (simp add: word_less_nat_alt)
    then have n: "unat (k + 64) = unat k + 64" by (simp add: unat_word_ariths)
    show "k + 64 \<noteq> 46"
    proof
      assume "k + 64 = 46"
      from arg_cong [OF this, of unat] have "unat k + 64 = 46" using n by simp
      then show False by simp
    qed
    show "k + 64 \<noteq> 0x1a"
    proof
      assume "k + 64 = 0x1a"
      from arg_cong [OF this, of unat] have "unat k + 64 = 26" using n by simp
      then show False by simp
    qed
  qed
  have low: "(0x1a :: u8) < 32" by simp
  show "ek_pass (from_byte k) = 46 \<Longrightarrow> k = 46"
    using ctrl by (auto simp: from_byte_def Let_def escape_default_def DEFAULT_PASS_def split: if_splits)
  show "ek_pass (from_byte k) \<noteq> 0x1a"
    using ctrl low by (auto simp: from_byte_def Let_def escape_default_def DEFAULT_PASS_def split: if_splits)
  show "ek_key (from_byte k) \<noteq> Some 0"
    by (auto simp: from_byte_def Let_def escape_default_def DEFAULT_KEY_def)
qed

section \<open>Properties of the prefix\<close>

text \<open>
  How input is split into reads makes no difference: feeding a read and then,
  unless it quit or suspended, the next one sends the same bytes, ends with the
  same action and leaves the same state as feeding both at once.
\<close>

theorem feeding_splits:
  "feed_all (xs @ ys) s =
     (case feed_all xs s of
        (sent, Some act, s) \<Rightarrow> (sent, Some act, s)
      | (sent, None, s) \<Rightarrow> (case feed_all ys s of (sent', act, s) \<Rightarrow> (sent @ sent', act, s)))"
  by (rule feed_all_append)

text \<open>
  C39.  Every input can be sent: with any configured escape key but the full stop,
  typing the key's pass character after each key (doubling it is another input,
  which sends both) sends exactly the text, quits
  nothing and leaves the prefix unarmed; and with escapes turned off the text is
  sent as it is.
\<close>

theorem escaped_text_is_sent:
  "(v \<noteq> Some [46] \<longrightarrow>
      feed_all (escaped (from_env v) bs) (escape_new (from_env v)) = (bs, None, escape_new (from_env v))) \<and>
   feed_all bs (escape_new (from_env (Some []))) = (bs, None, escape_new (from_env (Some [])))"
proof
  have "key_ok (from_env v)" if "v \<noteq> Some [46]"
    using that from_byte_pass [of "hd (the v)"]
    by (cases v; cases "the v")
      (auto simp: from_env_def key_ok_def escape_default_def DEFAULT_PASS_def)
  then show "v \<noteq> Some [46] \<longrightarrow>
      feed_all (escaped (from_env v) bs) (escape_new (from_env v)) = (bs, None, escape_new (from_env v))"
    using feed_all_escaped by blast
  show "feed_all bs (escape_new (from_env (Some []))) = (bs, None, escape_new (from_env (Some [])))"
    by (induction bs) (auto simp: from_env_def feed_def escape_new_def escape_default_def)
qed

theorem escaped_text_is_sent_witness:
  "feed_all [97, 0x1e, 94, 98] (escape_new (from_env None)) = ([97, 0x1e, 98], None, escape_new (from_env None))"
  using escaped_text_is_sent [of None "[97, 0x1e, 98]"]
  by (simp add: escaped_def from_env_def escape_default_def DEFAULT_KEY_def DEFAULT_PASS_def)

end
