(* ===== verification/Mux_Layout.thy ===== *)
theory Mux_Layout
  imports Pane_Layout
begin

text \<open>
  The layout a shared session is described by: the catalog schema of
  \<open>crates/zmux/src/protocol.rs\<close>, the layout functions of
  \<open>crates/zmux/src/messages.rs\<close> that the daemon and every viewer run, and the
  way a viewer names a change of layout (\<open>shared_layout_operation\<close> of
  \<open>src/background_session_ui/collaboration.rs\<close>).  A function taking
  \<open>&mut\<close> returns the new layout; a failed \<open>ensure!\<close> is a value of
  \<open>shared_error\<close>.
\<close>

section \<open>The catalog schema\<close>

datatype bg_layout =
    BgPane u64
  | BgSplit (bg_axis: string) (bg_ratio: u16) bg_layout bg_layout

datatype bg_pane_state = BgStarting | BgRunning | BgExited | BgFailed

datatype bg_exit_source = FromChild | FromStatusUnavailable | FromWatcherDisconnected | FromBackendShutdown

datatype bg_exit_reason =
    StatusUnavailable | WatcherDisconnected | BackendShutdown | ExitedBeforeInput | ForegroundCommand

record bg_exit =
  exit_source :: bg_exit_source
  exit_reason :: bg_exit_reason
  exit_code :: "int option"

record bg_pane =
  bp_id :: u64
  bp_label :: string
  bp_profile :: string
  bp_configured_command :: string
  bp_application :: string
  bp_foreground_command :: "string list option"
  bp_terminal_title :: "string option"
  bp_working_directory :: "string option"
  bp_state :: bg_pane_state
  bp_exit :: "bg_exit option"

record bg_summary =
  bs_id :: u64
  bs_title :: string
  bs_authentication_required :: bool
  bs_active_pane :: u64
  bs_layout :: bg_layout
  bs_panes :: "bg_pane list"
  bs_held :: bool
  bs_scoped_to :: "u32 option"
  bs_key_envelope :: "string option"

definition BACKGROUND_PANE_SPLIT_RATIO_SCALE :: u16 where
  "BACKGROUND_PANE_SPLIT_RATIO_SCALE = 1000"

definition DEFAULT_BACKGROUND_PANE_SPLIT_RATIO :: u16 where
  "DEFAULT_BACKGROUND_PANE_SPLIT_RATIO = 500"

definition for_public_catalog :: "bg_summary \<Rightarrow> bg_summary" where
  "for_public_catalog s =
     (if bs_authentication_required s then
        s\<lparr>bs_title := ''Protected session'', bs_active_pane := 0, bs_layout := BgPane 0, bs_panes := []\<rparr>
      else s)"

section \<open>Validation\<close>

datatype shared_direction = DirLeft | DirRight | DirUp | DirDown

datatype shared_rotation = RotClockwise | RotCounterClockwise

datatype shared_error =
    WrongSession u64 u64
  | ZeroPaneId
  | DuplicatePaneId
  | LayoutNamesMissingPane u64
  | InvalidAxis string
  | InvalidLayoutRatio
  | LayoutNotAllPanes
  | TabChangesPanes
  | TargetsMissingPane u64
  | InvalidSplitRatio
  | DividerGone
  | SwapWithItself
  | CannotMove u64 shared_direction
  | SplitGone u64
  | LastPane
  | ActivePaneMissing u64
  | UnsupportedVersion u32

fun validate_layout_panes :: "bg_layout \<Rightarrow> (u64 \<Rightarrow> bool) \<Rightarrow> shared_error + unit" where
  "validate_layout_panes (BgPane i) contains =
     (if contains i then Inr () else Inl (LayoutNamesMissingPane i))"
| "validate_layout_panes (BgSplit ax r f s) contains =
     (if \<not> (ax = ''horizontal'' \<or> ax = ''vertical'') then Inl (InvalidAxis ax)
      else if \<not> (0 < r \<and> r < BACKGROUND_PANE_SPLIT_RATIO_SCALE) then Inl InvalidLayoutRatio
      else case validate_layout_panes f contains of
             Inl e \<Rightarrow> Inl e
           | Inr _ \<Rightarrow> validate_layout_panes s contains)"

fun collect_layout_pane_ids :: "bg_layout \<Rightarrow> u64 list \<Rightarrow> u64 list" where
  "collect_layout_pane_ids (BgPane i) ids = ids @ [i]"
| "collect_layout_pane_ids (BgSplit _ _ f s) ids = collect_layout_pane_ids s (collect_layout_pane_ids f ids)"

text \<open>\<open>windows(2).all(|pair| pair[0] != pair[1])\<close>.\<close>

fun neighbours_differ :: "u64 list \<Rightarrow> bool" where
  "neighbours_differ (x # y # rest) = (x \<noteq> y \<and> neighbours_differ (y # rest))"
| "neighbours_differ _ = True"

definition validate_summary_panes :: "bg_summary \<Rightarrow> shared_error + unit" where
  "validate_summary_panes s =
     (if \<not> list_all (\<lambda>p. bp_id p \<noteq> 0) (bs_panes s) then Inl ZeroPaneId
      else
        let pane_ids = sort (map bp_id (bs_panes s))
        in if \<not> neighbours_differ pane_ids then Inl DuplicatePaneId
           else case validate_layout_panes (bs_layout s) (\<lambda>i. list_ex (\<lambda>p. bp_id p = i) (bs_panes s)) of
                  Inl e \<Rightarrow> Inl e
                | Inr _ \<Rightarrow>
                    let layout_ids = sort (collect_layout_pane_ids (bs_layout s) [])
                    in if pane_ids \<noteq> layout_ids then Inl LayoutNotAllPanes else Inr ())"

section \<open>Layout operations\<close>

fun remove_pane_from_layout :: "bg_layout \<Rightarrow> u64 \<Rightarrow> bg_layout option" where
  "remove_pane_from_layout (BgPane i) p = (if i = p then None else Some (BgPane i))"
| "remove_pane_from_layout (BgSplit ax r f s) p =
     (case (remove_pane_from_layout f p, remove_pane_from_layout s p) of
        (Some f', Some s') \<Rightarrow> Some (BgSplit ax r f' s')
      | (Some remaining, None) \<Rightarrow> Some remaining
      | (None, Some remaining) \<Rightarrow> Some remaining
      | (None, None) \<Rightarrow> None)"

fun layout_contains :: "bg_layout \<Rightarrow> u64 \<Rightarrow> bool" where
  "layout_contains (BgPane i) p = (i = p)"
| "layout_contains (BgSplit _ _ f s) p = (layout_contains f p \<or> layout_contains s p)"

fun find_divider :: "bg_layout \<Rightarrow> u64 \<Rightarrow> u64 \<Rightarrow> u16 option" where
  "find_divider (BgPane _) a b = None"
| "find_divider (BgSplit _ r f s) a b =
     (if layout_contains f a \<and> layout_contains s b then Some r
      else or_else (find_divider f a b) (find_divider s a b))"

text \<open>
  \<open>find_divider_mut\<close> returns the place of a ratio, which the caller assigns:
  here the layout with the new ratio there.
\<close>

fun set_divider :: "bg_layout \<Rightarrow> u64 \<Rightarrow> u64 \<Rightarrow> u16 \<Rightarrow> bg_layout option" where
  "set_divider (BgPane _) a b v = None"
| "set_divider (BgSplit ax r f s) a b v =
     (if layout_contains f a \<and> layout_contains s b then Some (BgSplit ax v f s)
      else if layout_contains f a \<or> layout_contains f b then
        map_option (\<lambda>f'. BgSplit ax r f' s) (set_divider f a b v)
      else map_option (\<lambda>s'. BgSplit ax r f s') (set_divider s a b v))"

fun swap_layout_panes :: "bg_layout \<Rightarrow> u64 \<Rightarrow> u64 \<Rightarrow> bg_layout" where
  "swap_layout_panes (BgPane i) a b = (if i = a then BgPane b else if i = b then BgPane a else BgPane i)"
| "swap_layout_panes (BgSplit ax r f s) a b =
     BgSplit ax r (swap_layout_panes f a b) (swap_layout_panes s a b)"

fun move_layout_pane_inner :: "bg_layout \<Rightarrow> u64 \<Rightarrow> string \<Rightarrow> bool \<Rightarrow> bool option \<times> bg_layout" where
  "move_layout_pane_inner (BgPane i) p ax toward_first = (None, BgPane i)"
| "move_layout_pane_inner (BgSplit sax r f s) p ax toward_first =
     (if layout_contains f p then
        (case move_layout_pane_inner f p ax toward_first of
           (Some handled, f') \<Rightarrow> (Some handled, BgSplit sax r f' s)
         | (None, f') \<Rightarrow>
             if sax = ax \<and> \<not> toward_first
             then (Some True, BgSplit sax (BACKGROUND_PANE_SPLIT_RATIO_SCALE - r) s f')
             else (None, BgSplit sax r f' s))
      else if layout_contains s p then
        (case move_layout_pane_inner s p ax toward_first of
           (Some handled, s') \<Rightarrow> (Some handled, BgSplit sax r f s')
         | (None, s') \<Rightarrow>
             if sax = ax \<and> toward_first
             then (Some True, BgSplit sax (BACKGROUND_PANE_SPLIT_RATIO_SCALE - r) s' f)
             else (None, BgSplit sax r f s'))
      else (None, BgSplit sax r f s))"

definition move_layout_pane :: "bg_layout \<Rightarrow> u64 \<Rightarrow> shared_direction \<Rightarrow> bool \<times> bg_layout" where
  "move_layout_pane l p d =
     (let (ax, toward_first) =
        (case d of DirLeft \<Rightarrow> (''vertical'', True) | DirRight \<Rightarrow> (''vertical'', False)
         | DirUp \<Rightarrow> (''horizontal'', True) | DirDown \<Rightarrow> (''horizontal'', False))
      in case move_layout_pane_inner l p ax toward_first of
           (Some b, l') \<Rightarrow> (b, l') | (None, l') \<Rightarrow> (False, l'))"

definition can_move_layout_pane :: "bg_layout \<Rightarrow> u64 \<Rightarrow> shared_direction \<Rightarrow> bool" where
  "can_move_layout_pane l p d = fst (move_layout_pane l p d)"

subsection \<open>Rotation\<close>

fun layout_pane_area :: "'f arith \<Rightarrow> bg_layout \<Rightarrow> u64 \<Rightarrow> 'f \<Rightarrow> 'f option" where
  "layout_pane_area A (BgPane i) p area = (if i = p then Some area else None)"
| "layout_pane_area A (BgSplit _ r f s) p area =
     (let first_area = a_div A (a_mul A area (from_u16 A r)) (from_u16 A BACKGROUND_PANE_SPLIT_RATIO_SCALE)
      in or_else (layout_pane_area A f p first_area) (layout_pane_area A s p (a_sub A area first_area)))"

fun layout_leaf_areas :: "'f arith \<Rightarrow> bg_layout \<Rightarrow> 'f \<Rightarrow> 'f list \<Rightarrow> 'f list" where
  "layout_leaf_areas A (BgPane _) area areas = areas @ [area]"
| "layout_leaf_areas A (BgSplit _ r f s) area areas =
     (let first_area = a_div A (a_mul A area (from_u16 A r)) (from_u16 A BACKGROUND_PANE_SPLIT_RATIO_SCALE)
      in layout_leaf_areas A s (a_sub A area first_area) (layout_leaf_areas A f first_area areas))"

definition layout_has_four_equal_panes :: "'f arith \<Rightarrow> bg_layout \<Rightarrow> 'f \<Rightarrow> bool" where
  "layout_has_four_equal_panes A l area =
     (let areas = layout_leaf_areas A l area []
      in length areas = 4 \<and>
         list_all (\<lambda>c. a_le A (a_abs A (a_sub A c (areas ! 0))) (a_lit A (1 / 10 ^ 9))) areas)"

fun layout_is_two_pane_split :: "bg_layout \<Rightarrow> bool" where
  "layout_is_two_pane_split (BgSplit _ _ (BgPane _) (BgPane _)) = True"
| "layout_is_two_pane_split _ = False"

fun layout_rotation_target :: "'f arith \<Rightarrow> bg_layout \<Rightarrow> u64 \<Rightarrow> 'f \<Rightarrow> 'f \<Rightarrow> bool list option" where
  "layout_rotation_target A (BgPane i) p active_area area =
     (if layout_has_four_equal_panes A (BgPane i) area \<or> layout_is_two_pane_split (BgPane i)
      then Some [] else None)"
| "layout_rotation_target A (BgSplit ax r f s) p active_area area =
     (if layout_has_four_equal_panes A (BgSplit ax r f s) area \<or>
         layout_is_two_pane_split (BgSplit ax r f s)
      then Some []
      else
        let first_area = a_div A (a_mul A area (from_u16 A r)) (from_u16 A BACKGROUND_PANE_SPLIT_RATIO_SCALE);
            second_area = a_sub A area first_area;
            dominates = (\<lambda>sibling_area.
              if a_le A sibling_area (a_add A active_area (a_lit A (1 / 10 ^ 9)))
              then Some [] else None)
        in if layout_contains f p then
             (case layout_rotation_target A f p active_area first_area of
                Some path \<Rightarrow> Some (True # path)
              | None \<Rightarrow> dominates second_area)
           else if layout_contains s p then
             (case layout_rotation_target A s p active_area second_area of
                Some path \<Rightarrow> Some (False # path)
              | None \<Rightarrow> dominates first_area)
           else None)"

fun rotate_layout_geometry :: "bg_layout \<Rightarrow> shared_rotation \<Rightarrow> bg_layout" where
  "rotate_layout_geometry (BgPane i) d = BgPane i"
| "rotate_layout_geometry (BgSplit ax r f s) d =
     (let f' = rotate_layout_geometry f d; s' = rotate_layout_geometry s d;
          reverse_children = (d = RotClockwise \<and> ax = ''horizontal'' \<or>
                              d = RotCounterClockwise \<and> ax = ''vertical'');
          ax' = (if ax = ''horizontal'' then ''vertical'' else ''horizontal'')
      in if reverse_children then BgSplit ax' (BACKGROUND_PANE_SPLIT_RATIO_SCALE - r) s' f'
         else BgSplit ax' r f' s')"

fun rotate_layout_at_path :: "bg_layout \<Rightarrow> bool list \<Rightarrow> shared_rotation \<Rightarrow> bg_layout" where
  "rotate_layout_at_path l [] d = rotate_layout_geometry l d"
| "rotate_layout_at_path (BgSplit ax r f s) (b # path) d =
     (if b then BgSplit ax r (rotate_layout_at_path f path d) s
      else BgSplit ax r f (rotate_layout_at_path s path d))"
| "rotate_layout_at_path (BgPane i) (b # path) d = BgPane i"

definition rotate_layout_pane :: "bg_layout \<Rightarrow> u64 \<Rightarrow> shared_rotation \<Rightarrow> bool \<times> bg_layout" where
  "rotate_layout_pane l p d =
     (case layout_pane_area f64 l p (a_lit f64 1) of
        None \<Rightarrow> (False, l)
      | Some active_area \<Rightarrow>
          (case layout_rotation_target f64 l p active_area (a_lit f64 1) of
             None \<Rightarrow> (False, l)
           | Some path \<Rightarrow> (True, rotate_layout_at_path l path d)))"

definition can_rotate_layout_pane :: "bg_layout \<Rightarrow> u64 \<Rightarrow> shared_rotation \<Rightarrow> bool" where
  "can_rotate_layout_pane l p d = fst (rotate_layout_pane l p d)"

section \<open>Panes and validity\<close>

definition bg_ids :: "bg_layout \<Rightarrow> u64 list" where
  "bg_ids l = collect_layout_pane_ids l []"

lemma collect_layout_pane_ids_append: "collect_layout_pane_ids l ids = ids @ collect_layout_pane_ids l []"
proof (induction l arbitrary: ids)
  case (BgSplit ax r f s)
  then show ?case by (metis append.assoc collect_layout_pane_ids.simps(2))
qed simp

lemma bg_ids_simps [simp]:
  "bg_ids (BgPane i) = [i]"
  "bg_ids (BgSplit ax r f s) = bg_ids f @ bg_ids s"
  by (simp add: bg_ids_def, simp add: bg_ids_def, metis collect_layout_pane_ids_append)

lemma layout_contains_iff [simp]: "layout_contains l p \<longleftrightarrow> p \<in> set (bg_ids l)"
  by (induction l) auto

lemma bg_ids_not_Nil [simp]: "bg_ids l \<noteq> []"
  by (induction l) auto

lemma bg_ids_length [simp]: "0 < length (bg_ids l)"
  by simp

fun bg_ok :: "bg_layout \<Rightarrow> bool" where
  "bg_ok (BgPane _) = True"
| "bg_ok (BgSplit ax r f s) =
     ((ax = ''horizontal'' \<or> ax = ''vertical'') \<and> 0 < r \<and> r < BACKGROUND_PANE_SPLIT_RATIO_SCALE \<and>
      bg_ok f \<and> bg_ok s)"

lemma validate_layout_panes_ok:
  "validate_layout_panes l c = Inr u \<longleftrightarrow> bg_ok l \<and> (\<forall>i\<in>set (bg_ids l). c i)"
  by (induction l) (auto split: sum.splits)

lemma neighbours_differ_sorted: "sorted xs \<Longrightarrow> neighbours_differ xs \<longleftrightarrow> distinct xs"
  by (induction xs rule: neighbours_differ.induct) auto

lemma neighbours_differ_sort [simp]: "neighbours_differ (sort xs) \<longleftrightarrow> distinct xs"
  by (simp add: neighbours_differ_sorted)

lemma sort_eq_iff: "sort xs = sort ys \<longleftrightarrow> mset xs = mset ys"
  by (metis mset_sort properties_for_sort sorted_sort)

definition pane_id_list :: "bg_summary \<Rightarrow> u64 list" where
  "pane_id_list s = map bp_id (bs_panes s)"

text \<open>What a summary that passes \<open>validate_summary_panes\<close> satisfies.\<close>

definition summary_ok :: "bg_summary \<Rightarrow> bool" where
  "summary_ok s \<longleftrightarrow> 0 \<notin> set (pane_id_list s) \<and> distinct (pane_id_list s) \<and> bg_ok (bs_layout s) \<and>
     mset (bg_ids (bs_layout s)) = mset (pane_id_list s)"

lemma validate_summary_panes_ok: "validate_summary_panes s = Inr u \<longleftrightarrow> summary_ok s"
proof -
  have ex: "list_ex (\<lambda>p. bp_id p = i) (bs_panes s) \<longleftrightarrow> i \<in> set (pane_id_list s)" for i
    by (auto simp: list_ex_iff pane_id_list_def)
  have sub: "mset (pane_id_list s) = mset (bg_ids (bs_layout s)) \<Longrightarrow>
      \<forall>i\<in>set (bg_ids (bs_layout s)). i \<in> set (pane_id_list s)"
    by (metis mset_eq_setD)
  show ?thesis
    unfolding validate_summary_panes_def summary_ok_def Let_def ex
    using sub validate_layout_panes_ok [of "bs_layout s" "\<lambda>i. i \<in> set (pane_id_list s)"]
    by (auto simp: list_all_iff bg_ids_def [symmetric] sort_eq_iff pane_id_list_def [symmetric]
          image_iff split: sum.splits) (auto simp: pane_id_list_def)
qed

lemma scale_def: "BACKGROUND_PANE_SPLIT_RATIO_SCALE = PANE_SPLIT_RATIO_SCALE"
  by (simp add: BACKGROUND_PANE_SPLIT_RATIO_SCALE_def PANE_SPLIT_RATIO_SCALE_def)

lemma bg_ratio_iff:
  "0 < r \<and> r < BACKGROUND_PANE_SPLIT_RATIO_SCALE \<longleftrightarrow> 0 < unat r \<and> unat r < 1000"
  by (simp add: BACKGROUND_PANE_SPLIT_RATIO_SCALE_def word_less_nat_alt unat_gt_0)

lemma bg_ratio_flip:
  assumes "0 < r" "r < BACKGROUND_PANE_SPLIT_RATIO_SCALE"
  shows "0 < BACKGROUND_PANE_SPLIT_RATIO_SCALE - r \<and>
   BACKGROUND_PANE_SPLIT_RATIO_SCALE - r < BACKGROUND_PANE_SPLIT_RATIO_SCALE"
proof -
  have "0 < unat r" "unat r < 1000" using assms bg_ratio_iff [of r] by simp_all
  from ratio_flip_ok [OF this] show ?thesis by (simp add: bg_ratio_iff scale_def [symmetric])
qed

section \<open>What the operations keep\<close>

lemma swap_layout_panes_ids: "bg_ids (swap_layout_panes l a b) = map (exchange a b) (bg_ids l)"
  by (induction l) (auto simp: exchange_def)

lemma swap_layout_panes_ok [simp]: "bg_ok (swap_layout_panes l a b) = bg_ok l"
  by (induction l) auto

lemma move_inner_ids [mset_keep]:
  "mset (bg_ids (snd (move_layout_pane_inner l p ax tf))) = mset (bg_ids l)"
  by (induction l) (auto split: prod.splits option.splits)

lemma move_inner_ok: "bg_ok l \<Longrightarrow> bg_ok (snd (move_layout_pane_inner l p ax tf))"
  by (induction l) (auto split: prod.splits option.splits dest: bg_ratio_flip)

lemma move_layout_pane_snd:
  "\<exists>ax tf. snd (move_layout_pane l p d) = snd (move_layout_pane_inner l p ax tf)"
  by (cases d) (auto simp: move_layout_pane_def split: prod.splits option.splits, (metis snd_conv)+)

lemma move_layout_pane_ids [mset_keep]: "mset (bg_ids (snd (move_layout_pane l p d))) = mset (bg_ids l)"
  using move_layout_pane_snd [of l p d] move_inner_ids by metis

lemma move_layout_pane_ok: "bg_ok l \<Longrightarrow> bg_ok (snd (move_layout_pane l p d))"
  using move_layout_pane_snd [of l p d] move_inner_ok by metis

lemma rotate_layout_geometry_ids [mset_keep]:
  "mset (bg_ids (rotate_layout_geometry l d)) = mset (bg_ids l)"
  by (induction l) (auto simp: Let_def)

lemma rotate_layout_geometry_ok: "bg_ok l \<Longrightarrow> bg_ok (rotate_layout_geometry l d)"
  by (induction l) (auto simp: Let_def dest: bg_ratio_flip)

lemma rotate_layout_at_path_ids [mset_keep]:
  "mset (bg_ids (rotate_layout_at_path l path d)) = mset (bg_ids l)"
  by (induction l path d rule: rotate_layout_at_path.induct) (auto simp: mset_keep)

lemma rotate_layout_at_path_ok: "bg_ok l \<Longrightarrow> bg_ok (rotate_layout_at_path l path d)"
  by (induction l path d rule: rotate_layout_at_path.induct) (auto simp: rotate_layout_geometry_ok)

lemma rotate_layout_pane_snd:
  "snd (rotate_layout_pane l p d) = l \<or> (\<exists>path. snd (rotate_layout_pane l p d) = rotate_layout_at_path l path d)"
  by (auto simp: rotate_layout_pane_def split: option.splits)

lemma rotate_layout_pane_ids [mset_keep]:
  "mset (bg_ids (snd (rotate_layout_pane l p d))) = mset (bg_ids l)"
  using rotate_layout_pane_snd [of l p d] rotate_layout_at_path_ids by metis

lemma rotate_layout_pane_ok: "bg_ok l \<Longrightarrow> bg_ok (snd (rotate_layout_pane l p d))"
  using rotate_layout_pane_snd [of l p d] rotate_layout_at_path_ok by metis

subsection \<open>Removing a pane\<close>

lemma remove_pane_None_iff: "remove_pane_from_layout l p = None \<longleftrightarrow> set (bg_ids l) = {p}"
proof (induction l)
  case (BgSplit ax r f s)
  have "set (bg_ids f) \<noteq> {}" "set (bg_ids s) \<noteq> {}" by simp_all
  then have "set (bg_ids f) \<union> set (bg_ids s) = {p} \<longleftrightarrow> set (bg_ids f) = {p} \<and> set (bg_ids s) = {p}"
    by (simp add: Un_singleton_iff)
  then show ?case using BgSplit by (auto split: option.splits)
qed auto

lemma remove_pane_ids:
  "remove_pane_from_layout l p = Some l' \<Longrightarrow> bg_ids l' = filter (\<lambda>i. i \<noteq> p) (bg_ids l)"
proof (induction l arbitrary: l')
  case (BgSplit ax r f s)
  have gone: "remove_pane_from_layout l p = None \<Longrightarrow> filter (\<lambda>i. i \<noteq> p) (bg_ids l) = []" for l
    by (simp add: remove_pane_None_iff filter_empty_conv)
  show ?case using BgSplit gone [of f] gone [of s] by (auto split: option.splits)
qed (auto split: if_splits)

lemma remove_pane_ok: "remove_pane_from_layout l p = Some l' \<Longrightarrow> bg_ok l \<Longrightarrow> bg_ok l'"
  by (induction l arbitrary: l') (auto split: option.splits if_splits)

subsection \<open>Dividers\<close>

lemma find_divider_SomeD: "find_divider l a b = Some r \<Longrightarrow> a \<in> set (bg_ids l) \<and> b \<in> set (bg_ids l)"
  by (induction l) (auto simp: or_else_eq_Some_iff split: if_splits)

lemma set_divider_SomeD:
  "set_divider l a b v = Some l' \<Longrightarrow> a \<in> set (bg_ids l) \<and> b \<in> set (bg_ids l)"
  by (induction l arbitrary: l') (auto split: if_splits)

lemma set_divider_ids [mset_keep]: "set_divider l a b v = Some l' \<Longrightarrow> bg_ids l' = bg_ids l"
  by (induction l arbitrary: l') (auto split: if_splits)

lemma set_divider_ok:
  "set_divider l a b v = Some l' \<Longrightarrow> bg_ok l \<Longrightarrow> 0 < v \<Longrightarrow> v < BACKGROUND_PANE_SPLIT_RATIO_SCALE \<Longrightarrow> bg_ok l'"
  by (induction l arbitrary: l') (auto split: if_splits)

lemma find_divider_absent:
  "a \<notin> set (bg_ids l) \<or> b \<notin> set (bg_ids l) \<Longrightarrow> find_divider l a b = None"
  using find_divider_SomeD [of l a b] by (cases "find_divider l a b") auto

lemma set_divider_absent:
  "a \<notin> set (bg_ids l) \<or> b \<notin> set (bg_ids l) \<Longrightarrow> set_divider l a b v = None"
  using set_divider_SomeD [of l a b] by (cases "set_divider l a b v") auto

lemma divider_validated_is_found:
  "distinct (bg_ids l) \<Longrightarrow> set_divider l a b v = None \<longleftrightarrow> find_divider l a b = None"
proof (induction l)
  case (BgSplit ax r f s)
  then show ?case
    using find_divider_absent [of a s b] find_divider_absent [of a f b]
    by (auto simp: or_else_eq_None_iff)
qed simp

text \<open>The way to the divider between two panes: \<open>True\<close> is into the first child.\<close>

fun divider_path :: "bg_layout \<Rightarrow> u64 \<Rightarrow> u64 \<Rightarrow> bool list option" where
  "divider_path (BgPane _) a b = None"
| "divider_path (BgSplit _ _ f s) a b =
     (if layout_contains f a \<and> layout_contains s b then Some []
      else if layout_contains f a \<or> layout_contains f b then map_option ((#) True) (divider_path f a b)
      else map_option ((#) False) (divider_path s a b))"

fun set_ratio_at :: "bg_layout \<Rightarrow> bool list \<Rightarrow> u16 \<Rightarrow> bg_layout" where
  "set_ratio_at (BgPane i) path v = BgPane i"
| "set_ratio_at (BgSplit ax r f s) [] v = BgSplit ax v f s"
| "set_ratio_at (BgSplit ax r f s) (True # path) v = BgSplit ax r (set_ratio_at f path v) s"
| "set_ratio_at (BgSplit ax r f s) (False # path) v = BgSplit ax r f (set_ratio_at s path v)"

lemma set_ratio_at_ids [simp]: "bg_ids (set_ratio_at l path v) = bg_ids l"
  by (induction l path v rule: set_ratio_at.induct) auto

lemma set_ratio_at_path [simp]: "divider_path (set_ratio_at l path v) a b = divider_path l a b"
  by (induction l path v rule: set_ratio_at.induct) auto

lemma set_ratio_at_commute:
  "p \<noteq> q \<Longrightarrow> set_ratio_at (set_ratio_at l p v) q w = set_ratio_at (set_ratio_at l q w) p v"
proof (induction l p v arbitrary: q rule: set_ratio_at.induct)
  case (2 ax r f s v)
  then obtain b q' where "q = b # q'" by (cases q) auto
  then show ?case by (cases b) auto
next
  case (3 ax r f s path v)
  then show ?case
  proof (cases q)
    case (Cons b q')
    then show ?thesis using 3 by (cases b) auto
  qed auto
next
  case (4 ax r f s path v)
  then show ?case
  proof (cases q)
    case (Cons b q')
    then show ?thesis using 4 by (cases b) auto
  qed auto
qed simp

lemma set_divider_at_path: "set_divider l a b v = map_option (\<lambda>path. set_ratio_at l path v) (divider_path l a b)"
  by (induction l) (auto simp: option.map_comp comp_def)

lemma set_divider_lookup: "set_divider l a b v = Some l' \<Longrightarrow> find_divider l' a b = Some v"
proof (induction l arbitrary: l')
  case (BgSplit ax r f s)
  then show ?case
    by (auto split: if_splits simp: or_else_eq_Some_iff find_divider_absent dest: set_divider_ids set_divider_SomeD)
qed simp

lemma set_divider_commute:
  assumes "divider_path l a b \<noteq> divider_path l c d"
  shows "Option.bind (set_divider l a b v) (\<lambda>l'. set_divider l' c d w) =
         Option.bind (set_divider l c d w) (\<lambda>l'. set_divider l' a b v)"
  using assms
  by (cases "divider_path l a b"; cases "divider_path l c d")
     (auto simp: set_divider_at_path intro: set_ratio_at_commute)

section \<open>The viewer's own tree\<close>

text \<open>
  A window lays its panes out with its own tree (\<open>Pane_Layout\<close>) and describes
  it to the daemon with \<open>background_pane_layout\<close>.  Both sides rearrange their
  tree with their own copy of the algorithms.
\<close>

fun background_pane_layout :: "pane_layout \<Rightarrow> bg_layout" where
  "background_pane_layout (Pane i) = BgPane i"
| "background_pane_layout (Split ax r f s) =
     BgSplit (case ax of Horizontal \<Rightarrow> ''horizontal'' | Vertical \<Rightarrow> ''vertical'') r
       (background_pane_layout f) (background_pane_layout s)"

abbreviation "bpl \<equiv> background_pane_layout"

lemma bpl_ids [simp]: "bg_ids (bpl l) = pane_ids l"
  by (induction l) auto

lemma bpl_ok: "bg_ok (bpl l) \<longleftrightarrow> ratios_ok l"
proof (induction l)
  case (Split ax r f s)
  then show ?case using bg_ratio_iff [of r] by (cases ax) auto
qed simp

lemma bpl_inj: "bpl l = bpl l' \<Longrightarrow> l = l'"
proof (induction l arbitrary: l')
  case (Pane i)
  then show ?case by (cases l') auto
next
  case (Split ax r f s)
  then show ?case by (cases l') (auto split: split_axis.splits)
qed

lemma bpl_area: "layout_pane_area A (bpl l) p area = pane_area A l p area"
  by (induction l arbitrary: area) (auto simp: Let_def scale_def)

lemma bpl_leaf_areas: "layout_leaf_areas A (bpl l) area areas = collect_leaf_areas A l area areas"
  by (induction l arbitrary: area areas) (auto simp: Let_def scale_def)

lemma bpl_four_equal: "layout_has_four_equal_panes A (bpl l) area = has_four_equal_panes A l area"
  by (simp add: layout_has_four_equal_panes_def has_four_equal_panes_def bpl_leaf_areas
      PANE_ROTATION_AREA_EPSILON_def)

lemma bpl_two_pane: "layout_is_two_pane_split (bpl l) = is_two_pane_split l"
  by (cases l rule: is_two_pane_split.cases) auto

lemma bpl_rotation_target:
  "layout_rotation_target A (bpl l) p active area = rotation_target A l p active area"
proof (induction l arbitrary: area)
  case (Pane i)
  show ?case using bpl_four_equal [of A "Pane i" area] by simp
next
  case (Split ax r f s)
  show ?case
    unfolding background_pane_layout.simps layout_rotation_target.simps rotation_target.simps
    using bpl_four_equal [of A "Split ax r f s" area] bpl_two_pane [of "Split ax r f s"] Split
    by (simp add: Let_def scale_def PANE_ROTATION_AREA_EPSILON_def cong: if_cong)
qed

fun rotation_of :: "pane_rotation_direction \<Rightarrow> shared_rotation" where
  "rotation_of Clockwise = RotClockwise"
| "rotation_of CounterClockwise = RotCounterClockwise"

fun direction_of :: "pane_direction \<Rightarrow> shared_direction" where
  "direction_of LeftDir = DirLeft"
| "direction_of RightDir = DirRight"
| "direction_of UpDir = DirUp"
| "direction_of DownDir = DirDown"

lemma bpl_rotate_geometry: "rotate_layout_geometry (bpl l) (rotation_of d) = bpl (rotate_geometry l d)"
proof (induction l)
  case (Split ax r f s)
  then show ?case by (cases d; cases ax) (simp_all add: Let_def scale_def)
qed simp

lemma bpl_rotate_at_path: "rotate_layout_at_path (bpl l) path (rotation_of d) = bpl (rotate_at_path l path d)"
  by (induction l path d rule: rotate_at_path.induct) (auto simp: bpl_rotate_geometry)

lemma bpl_rotate: "rotate_layout_pane (bpl l) p (rotation_of d) = apsnd bpl (rotate_pane l p d)"
  by (simp add: rotate_layout_pane_def rotate_pane_def bpl_area bpl_rotation_target bpl_rotate_at_path
      split: option.splits)

lemma bpl_move_inner:
  "move_layout_pane_inner (bpl l) p (case ax of Horizontal \<Rightarrow> ''horizontal'' | Vertical \<Rightarrow> ''vertical'') tf =
   apsnd bpl (move_pane_inner l p ax tf)"
proof (induction l)
  case (Split sax r f s)
  let ?name = "\<lambda>ax. case ax of Horizontal \<Rightarrow> ''horizontal'' | Vertical \<Rightarrow> ''vertical''"
  obtain hf f' where f': "move_pane_inner f p ax tf = (hf, f')" by (cases "move_pane_inner f p ax tf")
  obtain hs s' where s': "move_pane_inner s p ax tf = (hs, s')" by (cases "move_pane_inner s p ax tf")
  have ih: "move_layout_pane_inner (bpl f) p (?name ax) tf = (hf, bpl f')"
    "move_layout_pane_inner (bpl s) p (?name ax) tf = (hs, bpl s')"
    using Split f' s' by simp_all
  have "?name sax = ?name ax \<longleftrightarrow> sax = ax" by (cases sax; cases ax) simp_all
  then show ?case
    by (cases hf; cases hs)
       (simp_all only: background_pane_layout.simps move_layout_pane_inner.simps move_pane_inner.simps ih f' s'
          layout_contains_iff contains_pane_iff bpl_ids scale_def if_distrib [of "apsnd bpl"] apsnd_conv
          prod.case option.case)
qed simp

lemma bpl_move: "move_layout_pane (bpl l) p (direction_of d) = apsnd bpl (move_pane l p d)"
proof -
  have "(case move_layout_pane_inner (bpl l) p (case ax of Horizontal \<Rightarrow> ''horizontal'' | Vertical \<Rightarrow> ''vertical'') tf of
          (Some b, l') \<Rightarrow> (b, l') | (None, l') \<Rightarrow> (False, l')) =
        apsnd bpl (case move_pane_inner l p ax tf of (Some b, l') \<Rightarrow> (b, l') | (None, l') \<Rightarrow> (False, l'))" for ax tf
    by (simp add: bpl_move_inner split: prod.splits option.splits)
  from this [of Vertical True] this [of Vertical False] this [of Horizontal True] this [of Horizontal False]
  show ?thesis by (cases d) (simp_all add: move_layout_pane_def move_pane_def)
qed

lemma bpl_swap: "swap_layout_panes (bpl l) a b = bpl (swap_panes_inner l a b)"
  by (induction l) auto

lemma bpl_remove: "remove_pane_from_layout (bpl l) p = map_option bpl (without l p)"
  by (induction l) (auto split: option.splits)

section \<open>Properties\<close>

text \<open>
  C27.  A window and the daemon rearrange one layout in the same way: rotating,
  moving, swapping and removing a pane in the window's tree and describing the
  result is describing the tree and letting the daemon do it, including
  whether anything moved.
\<close>

theorem viewer_and_daemon_layouts_agree:
  "rotate_layout_pane (background_pane_layout l) p (rotation_of d) =
     apsnd background_pane_layout (rotate_pane l p d) \<and>
   move_layout_pane (background_pane_layout l) p (direction_of e) =
     apsnd background_pane_layout (move_pane l p e) \<and>
   swap_layout_panes (background_pane_layout l) p q = background_pane_layout (swap_panes_inner l p q) \<and>
   remove_pane_from_layout (background_pane_layout l) p = map_option background_pane_layout (without l p)"
  by (intro conjI bpl_rotate bpl_move bpl_swap bpl_remove)

end
