(* ===== verification/Mux_State.thy ===== *)
theory Mux_State
  imports Mux_Layout
begin

text \<open>
  The canonical state of a shared session, \<open>SharedSessionState\<close> of
  \<open>crates/zmux/src/messages.rs\<close>: its operations, their validation and
  application, revisions, receipts and repair.  The opaque tab payload is a type
  parameter.  An operation that reaches an \<open>expect\<close> or an index out of range
  panics, which is \<open>None\<close>; a failed \<open>ensure!\<close> is \<open>Inl\<close>.
\<close>

section \<open>Definitions\<close>

record operation_id =
  oi_client :: string
  oi_sequence :: u64

record draft_mapping =
  dm_draft_id :: u64
  dm_pane_id :: u64

record receipt =
  re_operation_id :: operation_id
  re_mappings :: "draft_mapping list"

record presentation =
  pr_layout :: bg_layout
  pr_active_pane :: u64
  pr_maximized_pane :: "u64 option"
  pr_minimized_panes :: "u64 list"

record 'j shared_state =
  ss_version :: u32
  ss_session_id :: u64
  ss_revision :: u64
  ss_last_operation_id :: "operation_id option"
  ss_receipts :: "receipt list"
  ss_summary :: bg_summary
  ss_presentation :: presentation
  ss_state :: 'j

datatype 'j shared_operation =
    ReplaceTab bg_summary 'j
  | SetLayout bg_layout
  | SetFocus u64
  | SetMaximized "u64 option"
  | SetMinimized u64 bool
  | SetSplitRatio u64 u64 u16
  | MovePane u64 shared_direction
  | SwapPanes u64 u64
  | RotateSplit u64 shared_rotation
  | SetTabState 'j
  | SetPaneMetadata u64 bg_pane
  | ClosePane u64

definition SHARED_SESSION_STATE_VERSION :: u32 where
  "SHARED_SESSION_STATE_VERSION = 2"

definition next_revision :: "u64 \<Rightarrow> u64" where
  "next_revision r = (if r = - 1 then r else r + 1)"

definition new_shared_state :: "u64 \<Rightarrow> bg_summary \<Rightarrow> 'j \<Rightarrow> 'j shared_state" where
  "new_shared_state session_id summary state =
     \<lparr>ss_version = SHARED_SESSION_STATE_VERSION, ss_session_id = session_id, ss_revision = 0,
      ss_last_operation_id = None, ss_receipts = [], ss_summary = summary,
      ss_presentation = \<lparr>pr_layout = bs_layout summary, pr_active_pane = bs_active_pane summary,
        pr_maximized_pane = None, pr_minimized_panes = []\<rparr>,
      ss_state = state\<rparr>"

definition migrate :: "'j shared_state \<Rightarrow> shared_error + 'j shared_state" where
  "migrate st =
     (if ss_version st = SHARED_SESSION_STATE_VERSION then Inr st
      else if ss_version st = 1 then
        Inr (st\<lparr>ss_presentation := \<lparr>pr_layout = bs_layout (ss_summary st),
                pr_active_pane = bs_active_pane (ss_summary st), pr_maximized_pane = None,
                pr_minimized_panes = []\<rparr>,
              ss_version := SHARED_SESSION_STATE_VERSION\<rparr>)
      else Inl (UnsupportedVersion (ss_version st)))"

text \<open>\<open>normalize\<close>: the repaired state and whether a presentation field changed.\<close>

definition normalize_state :: "'j shared_state \<Rightarrow> shared_error + ('j shared_state \<times> bool)" where
  "normalize_state st =
     (let su = ss_summary st; pr = ss_presentation st
      in case validate_summary_panes su of
           Inl e \<Rightarrow> Inl e
         | Inr _ \<Rightarrow>
             if \<not> list_ex (\<lambda>p. bp_id p = bs_active_pane su) (bs_panes su)
             then Inl (ActivePaneMissing (bs_active_pane su))
             else
               let live_pane_ids = map bp_id (bs_panes su);
                   minimized = filter (\<lambda>i. i \<in> set live_pane_ids) (pr_minimized_panes pr);
                   dangling = (case pr_maximized_pane pr of
                                 Some i \<Rightarrow> i \<notin> set live_pane_ids | None \<Rightarrow> False);
                   changed = (pr_layout pr \<noteq> bs_layout su \<or> pr_active_pane pr \<noteq> bs_active_pane su \<or>
                              length minimized \<noteq> length (pr_minimized_panes pr) \<or> dangling)
               in Inr (st\<lparr>ss_presentation := \<lparr>pr_layout = bs_layout su, pr_active_pane = bs_active_pane su,
                         pr_maximized_pane = (if dangling then None else pr_maximized_pane pr),
                         pr_minimized_panes = minimized\<rparr>\<rparr>, changed))"

definition sync_summary_presentation :: "'j shared_state \<Rightarrow> 'j shared_state" where
  "sync_summary_presentation st =
     st\<lparr>ss_summary := (ss_summary st)\<lparr>bs_layout := pr_layout (ss_presentation st),
                                     bs_active_pane := pr_active_pane (ss_presentation st)\<rparr>\<rparr>"

definition state_contains_pane :: "'j shared_state \<Rightarrow> u64 \<Rightarrow> bool" where
  "state_contains_pane st i = list_ex (\<lambda>p. bp_id p = i) (bs_panes (ss_summary st))"

definition state_pane_ids :: "'j shared_state \<Rightarrow> u64 list" where
  "state_pane_ids st = map bp_id (bs_panes (ss_summary st))"

definition targets_pane :: "'j shared_state \<Rightarrow> u64 \<Rightarrow> shared_error + unit" where
  "targets_pane st i = (if state_contains_pane st i then Inr () else Inl (TargetsMissingPane i))"

fun validate_operation :: "'j shared_state \<Rightarrow> 'j shared_operation \<Rightarrow> shared_error + unit" where
  "validate_operation st (ReplaceTab summary state) =
     (if bs_id summary \<noteq> ss_session_id st then Inl (WrongSession (bs_id summary) (ss_session_id st))
      else case validate_summary_panes summary of
             Inl e \<Rightarrow> Inl e
           | Inr _ \<Rightarrow>
               if sort (state_pane_ids st) \<noteq> sort (map bp_id (bs_panes summary))
               then Inl TabChangesPanes else Inr ())"
| "validate_operation st (SetLayout layout) =
     (case validate_layout_panes layout (state_contains_pane st) of
        Inl e \<Rightarrow> Inl e
      | Inr _ \<Rightarrow>
          if sort (state_pane_ids st) \<noteq> sort (collect_layout_pane_ids layout [])
          then Inl LayoutNotAllPanes else Inr ())"
| "validate_operation st (SetFocus i) = targets_pane st i"
| "validate_operation st (SetMaximized (Some i)) = targets_pane st i"
| "validate_operation st (SetMinimized i minimized) = targets_pane st i"
| "validate_operation st (SetMaximized None) = Inr ()"
| "validate_operation st (SetSplitRatio a b r) =
     (if \<not> (0 < r \<and> r < BACKGROUND_PANE_SPLIT_RATIO_SCALE) then Inl InvalidSplitRatio
      else case find_divider (pr_layout (ss_presentation st)) a b of
             None \<Rightarrow> Inl DividerGone
           | Some _ \<Rightarrow> Inr ())"
| "validate_operation st (SwapPanes a b) =
     (if a = b then Inl SwapWithItself
      else if \<not> state_contains_pane st a then Inl (TargetsMissingPane a)
      else if \<not> state_contains_pane st b then Inl (TargetsMissingPane b)
      else Inr ())"
| "validate_operation st (MovePane i d) =
     (if \<not> state_contains_pane st i then Inl (TargetsMissingPane i)
      else if \<not> can_move_layout_pane (pr_layout (ss_presentation st)) i d then Inl (CannotMove i d)
      else Inr ())"
| "validate_operation st (RotateSplit i d) =
     (if \<not> can_rotate_layout_pane (pr_layout (ss_presentation st)) i d then Inl (SplitGone i) else Inr ())"
| "validate_operation st (SetTabState state) = Inr ()"
| "validate_operation st (SetPaneMetadata i metadata) = targets_pane st i"
| "validate_operation st (ClosePane i) =
     (if \<not> state_contains_pane st i then Inl (TargetsMissingPane i)
      else if \<not> 1 < length (bs_panes (ss_summary st)) then Inl LastPane
      else Inr ())"

definition with_metadata :: "bg_pane \<Rightarrow> bg_pane \<Rightarrow> bg_pane" where
  "with_metadata metadata p =
     p\<lparr>bp_label := bp_label metadata, bp_profile := bp_profile metadata,
       bp_configured_command := bp_configured_command metadata,
       bp_application := bp_application metadata,
       bp_foreground_command := bp_foreground_command metadata,
       bp_terminal_title := bp_terminal_title metadata,
       bp_working_directory := bp_working_directory metadata\<rparr>"

text \<open>\<open>iter_mut().find(..)\<close> followed by an update of what was found.\<close>

fun update_first :: "('a \<Rightarrow> bool) \<Rightarrow> ('a \<Rightarrow> 'a) \<Rightarrow> 'a list \<Rightarrow> 'a list option" where
  "update_first P g [] = None"
| "update_first P g (x # xs) = (if P x then Some (g x # xs) else map_option ((#) x) (update_first P g xs))"

abbreviation set_layout :: "'j shared_state \<Rightarrow> bg_layout \<Rightarrow> 'j shared_state" where
  "set_layout st l \<equiv> st\<lparr>ss_presentation := (ss_presentation st)\<lparr>pr_layout := l\<rparr>\<rparr>"

definition close_pane :: "'j shared_state \<Rightarrow> u64 \<Rightarrow> 'j shared_state option" where
  "close_pane st i =
     (let su = ss_summary st; pr = ss_presentation st;
          panes = filter (\<lambda>p. bp_id p \<noteq> i) (bs_panes su)
      in case remove_pane_from_layout (bs_layout su) i of
           None \<Rightarrow> None
         | Some summary_layout \<Rightarrow>
             case (if bs_active_pane su = i then map_option bp_id (first_of panes)
                   else Some (pr_active_pane pr)) of
               None \<Rightarrow> None
             | Some active \<Rightarrow>
                 case remove_pane_from_layout (pr_layout pr) i of
                   None \<Rightarrow> None
                 | Some layout \<Rightarrow>
                     Some (st\<lparr>ss_summary := su\<lparr>bs_panes := panes, bs_layout := summary_layout\<rparr>,
                       ss_presentation := \<lparr>pr_layout = layout, pr_active_pane = active,
                         pr_maximized_pane = (if pr_maximized_pane pr = Some i then None
                                              else pr_maximized_pane pr),
                         pr_minimized_panes = filter (\<lambda>j. j \<noteq> i) (pr_minimized_panes pr)\<rparr>\<rparr>))"

text \<open>The match of \<open>apply_operation\<close>: what the operation itself changes.\<close>

fun perform :: "'j shared_state \<Rightarrow> 'j shared_operation \<Rightarrow> 'j shared_state option" where
  "perform st (ReplaceTab summary state) = Some (st\<lparr>ss_summary := summary, ss_state := state\<rparr>)"
| "perform st (SetLayout layout) = Some (set_layout st layout)"
| "perform st (SetFocus i) =
     Some (st\<lparr>ss_presentation := (ss_presentation st)\<lparr>pr_active_pane := i\<rparr>\<rparr>)"
| "perform st (SetMaximized m) =
     Some (st\<lparr>ss_presentation := (ss_presentation st)\<lparr>pr_maximized_pane := m\<rparr>\<rparr>)"
| "perform st (SetMinimized i minimized) =
     (let kept = filter (\<lambda>j. j \<noteq> i) (pr_minimized_panes (ss_presentation st))
      in Some (st\<lparr>ss_presentation := (ss_presentation st)
           \<lparr>pr_minimized_panes := (if minimized then kept @ [i] else kept)\<rparr>\<rparr>))"
| "perform st (SetSplitRatio a b r) =
     map_option (set_layout st) (set_divider (pr_layout (ss_presentation st)) a b r)"
| "perform st (SwapPanes a b) =
     Some (set_layout st (swap_layout_panes (pr_layout (ss_presentation st)) a b))"
| "perform st (MovePane i d) =
     Some (set_layout st (snd (move_layout_pane (pr_layout (ss_presentation st)) i d)))"
| "perform st (RotateSplit i d) =
     Some (set_layout st (snd (rotate_layout_pane (pr_layout (ss_presentation st)) i d)))"
| "perform st (SetTabState state) = Some (st\<lparr>ss_state := state\<rparr>)"
| "perform st (SetPaneMetadata i metadata) =
     map_option (\<lambda>panes. st\<lparr>ss_summary := (ss_summary st)\<lparr>bs_panes := panes\<rparr>\<rparr>)
       (update_first (\<lambda>p. bp_id p = i) (with_metadata metadata) (bs_panes (ss_summary st)))"
| "perform st (ClosePane i) = close_pane st i"

definition find_receipt :: "'j shared_state \<Rightarrow> operation_id \<Rightarrow> receipt option" where
  "find_receipt st op = find (\<lambda>r. re_operation_id r = op) (ss_receipts st)"

definition record_receipt :: "'j shared_state \<Rightarrow> receipt \<Rightarrow> 'j shared_state" where
  "record_receipt st r =
     st\<lparr>ss_receipts := filter (\<lambda>e. oi_client (re_operation_id e) \<noteq> oi_client (re_operation_id r))
                       (ss_receipts st) @ [r]\<rparr>"

definition apply_operation ::
  "'j shared_state \<Rightarrow> operation_id \<Rightarrow> 'j shared_operation \<Rightarrow> (shared_error + 'j shared_state) option" where
  "apply_operation st op_id oper =
     (case validate_operation st oper of
        Inl e \<Rightarrow> Some (Inl e)
      | Inr _ \<Rightarrow>
          (case perform st oper of
             None \<Rightarrow> None
           | Some st' \<Rightarrow>
               let st'' = sync_summary_presentation st'
               in Some (Inr (record_receipt
                    (st''\<lparr>ss_revision := next_revision (ss_revision st''),
                          ss_last_operation_id := Some op_id\<rparr>)
                    \<lparr>re_operation_id = op_id, re_mappings = []\<rparr>))))"

section \<open>The invariant of a shared session\<close>

text \<open>
  The presentation describes the panes of the session: its layout places each
  exactly once, with valid axes and ratios, and focus and visibility name
  panes that exist.
\<close>

definition presents :: "presentation \<Rightarrow> u64 list \<Rightarrow> bool" where
  "presents pr ids \<longleftrightarrow>
     0 \<notin> set ids \<and> distinct ids \<and> bg_ok (pr_layout pr) \<and> mset (bg_ids (pr_layout pr)) = mset ids \<and>
     pr_active_pane pr \<in> set ids \<and> set (pr_minimized_panes pr) \<subseteq> set ids \<and>
     set_option (pr_maximized_pane pr) \<subseteq> set ids"

abbreviation presents_panes :: "'j shared_state \<Rightarrow> bool" where
  "presents_panes st \<equiv> presents (ss_presentation st) (state_pane_ids st)"

definition shared_ok :: "'j shared_state \<Rightarrow> bool" where
  "shared_ok st \<longleftrightarrow> presents_panes st \<and> bs_layout (ss_summary st) = pr_layout (ss_presentation st) \<and>
     bs_active_pane (ss_summary st) = pr_active_pane (ss_presentation st)"

lemma presents_same_panes: "mset ids = mset ids' \<Longrightarrow> presents pr ids \<Longrightarrow> presents pr ids'"
  unfolding presents_def by (metis mset_eq_imp_distinct_iff mset_eq_setD)

lemma state_pane_ids_simps [simp]:
  "state_pane_ids (st\<lparr>ss_presentation := pr\<rparr>) = state_pane_ids st"
  "state_pane_ids (st\<lparr>ss_state := j\<rparr>) = state_pane_ids st"
  "state_pane_ids (st\<lparr>ss_revision := r\<rparr>) = state_pane_ids st"
  "state_pane_ids (st\<lparr>ss_last_operation_id := op\<rparr>) = state_pane_ids st"
  "state_pane_ids (st\<lparr>ss_receipts := rs\<rparr>) = state_pane_ids st"
  "state_pane_ids (st\<lparr>ss_summary := su\<rparr>) = pane_id_list su"
  "pane_id_list (ss_summary st) = state_pane_ids st"
  "pane_id_list (su\<lparr>bs_layout := l\<rparr>) = pane_id_list su"
  "pane_id_list (su\<lparr>bs_active_pane := i\<rparr>) = pane_id_list su"
  "pane_id_list (su\<lparr>bs_panes := ps\<rparr>) = map bp_id ps"
  by (simp_all add: state_pane_ids_def pane_id_list_def)

lemma shared_ok_presents: "shared_ok st \<Longrightarrow> presents_panes st"
  by (simp add: shared_ok_def)

lemma shared_ok_summary: "shared_ok st \<Longrightarrow> summary_ok (ss_summary st)"
  by (simp add: shared_ok_def presents_def summary_ok_def)

lemma state_contains_pane_iff [simp]: "state_contains_pane st i \<longleftrightarrow> i \<in> set (state_pane_ids st)"
  by (auto simp: state_contains_pane_def state_pane_ids_def list_ex_iff)

lemma targets_pane_ok [simp]: "targets_pane st i = Inr u \<longleftrightarrow> i \<in> set (state_pane_ids st)"
  by (simp add: targets_pane_def)

lemma sync_presents: "presents_panes st \<Longrightarrow> shared_ok (sync_summary_presentation st)"
  by (simp add: shared_ok_def sync_summary_presentation_def)

lemma sync_shared_ok [simp]: "shared_ok st \<Longrightarrow> sync_summary_presentation st = st"
  by (simp add: shared_ok_def sync_summary_presentation_def)

text \<open>Replacing the layout by one that places the same panes.\<close>

lemma set_layout_presents:
  "presents_panes st \<Longrightarrow> bg_ok l \<Longrightarrow> mset (bg_ids l) = mset (bg_ids (pr_layout (ss_presentation st))) \<Longrightarrow>
   presents_panes (set_layout st l)"
  by (simp add: presents_def)

lemma presents_layout_distinct: "presents pr ids \<Longrightarrow> distinct (bg_ids (pr_layout pr))"
  unfolding presents_def by (metis mset_eq_imp_distinct_iff)

lemma presents_layout_set: "presents pr ids \<Longrightarrow> set (bg_ids (pr_layout pr)) = set ids"
  unfolding presents_def by (metis mset_eq_setD)

lemma update_first_Some:
  "update_first P g xs = None \<longleftrightarrow> (\<forall>x\<in>set xs. \<not> P x)"
  by (induction xs) auto

lemma update_first_map:
  "(\<And>x. h (g x) = h x) \<Longrightarrow> update_first P g xs = Some ys \<Longrightarrow> map h ys = map h xs"
  by (induction xs arbitrary: ys) (auto split: if_splits)

lemma with_metadata_id [simp]: "bp_id (with_metadata m p) = bp_id p"
  by (simp add: with_metadata_def)

lemma perform_metadata:
  assumes "presents_panes st" "i \<in> set (state_pane_ids st)"
  obtains st' where "perform st (SetPaneMetadata i m) = Some st'" "presents_panes st'"
proof -
  obtain panes where p: "update_first (\<lambda>p. bp_id p = i) (with_metadata m) (bs_panes (ss_summary st)) = Some panes"
    using assms(2) update_first_Some [of "\<lambda>p. bp_id p = i" "with_metadata m" "bs_panes (ss_summary st)"]
    by (auto simp: state_pane_ids_def)
  have "map bp_id panes = state_pane_ids st"
    unfolding state_pane_ids_def by (rule update_first_map [OF _ p]) simp
  then show thesis
    using that p assms(1) by simp
qed

lemma close_pane_presents:
  assumes ok: "shared_ok st" and i: "i \<in> set (state_pane_ids st)" and more: "1 < length (bs_panes (ss_summary st))"
  obtains st' where "close_pane st i = Some st'" "presents_panes st'"
    "state_pane_ids st' = filter (\<lambda>j. j \<noteq> i) (state_pane_ids st)"
proof -
  let ?su = "ss_summary st" let ?pr = "ss_presentation st" let ?ids = "state_pane_ids st"
  have P: "presents_panes st" by (rule shared_ok_presents [OF ok])
  have ids: "mset (bg_ids (pr_layout ?pr)) = mset ?ids" "distinct ?ids" "pr_active_pane ?pr \<in> set ?ids"
    using P by (simp_all add: presents_def)
  have lay: "bs_layout ?su = pr_layout ?pr" "bs_active_pane ?su = pr_active_pane ?pr"
    using ok by (simp_all add: shared_ok_def)
  have len: "1 < length ?ids" using more by (simp add: state_pane_ids_def)
  have "set (bg_ids (pr_layout ?pr)) \<noteq> {i}"
    using presents_layout_set [OF P] distinct_card [OF ids(2)] len by auto
  then obtain l where l: "remove_pane_from_layout (pr_layout ?pr) i = Some l"
    using remove_pane_None_iff [of "pr_layout ?pr" i] by auto
  let ?panes = "filter (\<lambda>p. bp_id p \<noteq> i) (bs_panes ?su)"
  have pids: "map bp_id ?panes = filter (\<lambda>j. j \<noteq> i) ?ids"
    by (simp add: state_pane_ids_def filter_map comp_def)
  have "length (filter (\<lambda>j. j \<noteq> i) ?ids) \<noteq> 0"
  proof
    assume "length (filter (\<lambda>j. j \<noteq> i) ?ids) = 0"
    then have "set ?ids \<subseteq> {i}" by (auto simp: filter_empty_conv)
    then show False using distinct_card [OF ids(2)] len card_mono [of "{i}" "set ?ids"] by simp
  qed
  then obtain q qs where q: "?panes = q # qs" using pids by (cases ?panes) auto
  have lm: "mset (bg_ids l) = mset (filter (\<lambda>j. j \<noteq> i) ?ids)"
    using remove_pane_ids [OF l] ids(1) by (metis mset_filter)
  have lok: "bg_ok l" by (rule remove_pane_ok [OF l]) (use P in \<open>simp add: presents_def\<close>)
  have qin: "bp_id q \<in> set (filter (\<lambda>j. j \<noteq> i) ?ids)"
    using pids q by (metis list.set_intros(1) list.simps(9))
  let ?pr' = "\<lparr>pr_layout = l, pr_active_pane = (if pr_active_pane ?pr = i then bp_id q else pr_active_pane ?pr),
     pr_maximized_pane = (if pr_maximized_pane ?pr = Some i then None else pr_maximized_pane ?pr),
     pr_minimized_panes = filter (\<lambda>j. j \<noteq> i) (pr_minimized_panes ?pr)\<rparr>"
  let ?st' = "st\<lparr>ss_summary := ?su\<lparr>bs_panes := ?panes, bs_layout := l\<rparr>, ss_presentation := ?pr'\<rparr>"
  have st': "close_pane st i = Some ?st'"
    using l lay q by (simp add: close_pane_def Let_def first_of_def)
  have ids': "state_pane_ids ?st' = filter (\<lambda>j. j \<noteq> i) ?ids" using pids by simp
  have "presents ?pr' (filter (\<lambda>j. j \<noteq> i) ?ids)"
    using P lm lok qin ids(3) by (auto simp: presents_def)
  then show thesis using that st' ids' by simp
qed

lemma perform_presents:
  assumes ok: "shared_ok st" and v: "validate_operation st oper = Inr u"
  shows "\<exists>st'. perform st oper = Some st' \<and> presents_panes st'"
proof -
  note P = shared_ok_presents [OF ok]
  let ?l = "pr_layout (ss_presentation st)"
  have lok: "bg_ok ?l" using P by (simp add: presents_def)
  show ?thesis
  proof (cases oper)
    case (ReplaceTab summary state)
    then have "mset (state_pane_ids st) = mset (pane_id_list summary)"
      using v by (auto simp: sort_eq_iff pane_id_list_def split: if_splits sum.splits)
    from presents_same_panes [OF this P] show ?thesis using ReplaceTab by simp
  next
    case (SetLayout layout)
    then have "bg_ok layout" "mset (bg_ids layout) = mset (state_pane_ids st)"
      using v by (auto simp: sort_eq_iff validate_layout_panes_ok bg_ids_def split: if_splits sum.splits)
    then show ?thesis using SetLayout P set_layout_presents [OF P, of layout] by (simp add: presents_def)
  next
    case (SetMaximized m)
    then show ?thesis using v P by (cases m) (auto simp: presents_def)
  next
    case (SetSplitRatio a b r)
    then have r: "0 < r" "r < BACKGROUND_PANE_SPLIT_RATIO_SCALE" and f: "find_divider ?l a b \<noteq> None"
      using v by (auto split: if_splits option.splits)
    from f divider_validated_is_found [OF presents_layout_distinct [OF P]]
    obtain l' where l': "set_divider ?l a b r = Some l'" by (metis not_None_eq)
    show ?thesis
      using SetSplitRatio l' set_layout_presents [OF P set_divider_ok [OF l' lok r]] set_divider_ids [OF l']
      by simp
  next
    case (MovePane i d)
    then show ?thesis
      using set_layout_presents [OF P move_layout_pane_ok [OF lok] move_layout_pane_ids] by simp
  next
    case (RotateSplit i d)
    then show ?thesis
      using set_layout_presents [OF P rotate_layout_pane_ok [OF lok] rotate_layout_pane_ids] by simp
  next
    case (SwapPanes a b)
    then have ab: "a \<in> set (bg_ids ?l)" "b \<in> set (bg_ids ?l)"
      using v presents_layout_set [OF P] by (auto split: if_splits)
    have "mset (bg_ids (swap_layout_panes ?l a b)) = mset (bg_ids ?l)"
      unfolding swap_layout_panes_ids mset_map
      by (rule mset_map_exchange) (use ab presents_layout_distinct [OF P] in auto)
    then show ?thesis using SwapPanes set_layout_presents [OF P, of "swap_layout_panes ?l a b"] lok by simp
  next
    case (SetPaneMetadata i m)
    then show ?thesis using v perform_metadata [OF P, of i m] by (metis targets_pane_ok validate_operation.simps(12))
  next
    case (ClosePane i)
    then have "i \<in> set (state_pane_ids st)" "1 < length (bs_panes (ss_summary st))"
      using v by (auto split: if_splits)
    from close_pane_presents [OF ok this] show ?thesis using ClosePane by (metis perform.simps(12))
  qed (use v P in \<open>auto simp: presents_def Let_def\<close>)
qed

text \<open>Which panes an operation leaves.\<close>

fun surviving :: "'j shared_operation \<Rightarrow> u64 list \<Rightarrow> u64 list" where
  "surviving (ClosePane i) ids = filter (\<lambda>j. j \<noteq> i) ids"
| "surviving _ ids = ids"

lemma perform_panes:
  assumes ok: "shared_ok st" and v: "validate_operation st oper = Inr u" and p: "perform st oper = Some st'"
  shows "mset (state_pane_ids st') = mset (surviving oper (state_pane_ids st))"
proof (cases oper)
  case (ReplaceTab summary state)
  then show ?thesis
    using v p by (auto simp: sort_eq_iff pane_id_list_def split: if_splits sum.splits)
next
  case (SetPaneMetadata i m)
  then obtain panes where u: "update_first (\<lambda>p. bp_id p = i) (with_metadata m) (bs_panes (ss_summary st)) = Some panes"
    and st': "st' = st\<lparr>ss_summary := (ss_summary st)\<lparr>bs_panes := panes\<rparr>\<rparr>"
    using p by auto
  have "map bp_id panes = state_pane_ids st"
    unfolding state_pane_ids_def by (rule update_first_map [OF _ u]) simp
  then show ?thesis using SetPaneMetadata st' by (simp del: mset_map)
next
  case (ClosePane i)
  then have "i \<in> set (state_pane_ids st)" "1 < length (bs_panes (ss_summary st))"
    using v by (auto split: if_splits)
  from close_pane_presents [OF ok this] obtain st2 where
    "close_pane st i = Some st2" "state_pane_ids st2 = filter (\<lambda>j. j \<noteq> i) (state_pane_ids st)" by metis
  then show ?thesis using ClosePane p by simp
qed (use p in \<open>auto simp: Let_def\<close>)

section \<open>Receipts\<close>

lemma find_receipt_record [simp]:
  "find_receipt (record_receipt st r) (re_operation_id r) = Some r"
proof -
  have "find P (xs @ [r]) = Some r" if "\<forall>x\<in>set xs. \<not> P x" "P r" for P :: "receipt \<Rightarrow> bool" and xs
    using that by (induction xs) auto
  moreover have "\<forall>x\<in>set (filter (\<lambda>e. oi_client (re_operation_id e) \<noteq> oi_client (re_operation_id r)) (ss_receipts st)).
      \<not> re_operation_id x = re_operation_id r"
    by auto
  ultimately show ?thesis
    by (cases st) (simp only: find_receipt_def record_receipt_def shared_state.simps)
qed

lemma find_receipt_other:
  "oi_client op \<noteq> oi_client (re_operation_id r) \<Longrightarrow> find_receipt (record_receipt st r) op = find_receipt st op"
proof -
  assume d: "oi_client op \<noteq> oi_client (re_operation_id r)"
  have "find (\<lambda>x. re_operation_id x = op)
      (filter (\<lambda>e. oi_client (re_operation_id e) \<noteq> oi_client (re_operation_id r)) xs @ [r]) =
    find (\<lambda>x. re_operation_id x = op) xs" for xs
    using d by (induction xs) auto
  then show ?thesis by (simp add: find_receipt_def record_receipt_def)
qed

lemma record_receipt_clients:
  "distinct (map (oi_client \<circ> re_operation_id) (ss_receipts st)) \<Longrightarrow>
   distinct (map (oi_client \<circ> re_operation_id) (ss_receipts (record_receipt st r)))"
  by (auto simp: record_receipt_def intro: distinct_map_filter)

lemma record_receipt_sel [simp]:
  "ss_summary (record_receipt st r) = ss_summary st"
  "ss_presentation (record_receipt st r) = ss_presentation st"
  "ss_revision (record_receipt st r) = ss_revision st"
  "ss_session_id (record_receipt st r) = ss_session_id st"
  "ss_state (record_receipt st r) = ss_state st"
  "ss_version (record_receipt st r) = ss_version st"
  "state_pane_ids (record_receipt st r) = state_pane_ids st"
  "shared_ok (record_receipt st r) = shared_ok st"
  by (simp_all add: record_receipt_def shared_ok_def)

lemma next_revision_mono: "unat r \<le> unat (next_revision r)"
proof (cases "r = - 1")
  case False
  then have "unat (r + 1) = unat r + 1" by (metis Suc_eq_plus1 add.commute unatSuc unat_eq_zero add_eq_0_iff minus_minus)
  then show ?thesis by (simp add: next_revision_def False)
qed (simp add: next_revision_def)

lemma apply_operation_Inr:
  assumes "apply_operation st op_id oper = Some (Inr st')"
  obtains st1 where "validate_operation st oper = Inr ()" "perform st oper = Some st1"
    "st' = record_receipt ((sync_summary_presentation st1)\<lparr>ss_revision := next_revision (ss_revision st1),
        ss_last_operation_id := Some op_id\<rparr>) \<lparr>re_operation_id = op_id, re_mappings = []\<rparr>"
  using assms
  by (auto simp: apply_operation_def Let_def sync_summary_presentation_def split: sum.splits option.splits)

lemma perform_keeps:
  "perform st oper = Some st1 \<Longrightarrow> ss_revision st1 = ss_revision st \<and> ss_session_id st1 = ss_session_id st \<and>
     ss_receipts st1 = ss_receipts st \<and> ss_version st1 = ss_version st"
  by (cases oper) (auto simp: Let_def close_pane_def split: option.splits if_splits)

lemma apply_operation_ok:
  assumes ok: "shared_ok st" and a: "apply_operation st op_id oper = Some (Inr st')"
  shows "shared_ok st' \<and> ss_revision st' = next_revision (ss_revision st) \<and>
     ss_session_id st' = ss_session_id st \<and>
     mset (state_pane_ids st') = mset (surviving oper (state_pane_ids st)) \<and>
     find_receipt st' op_id = Some \<lparr>re_operation_id = op_id, re_mappings = []\<rparr> \<and>
     (\<forall>op. oi_client op \<noteq> oi_client op_id \<longrightarrow> find_receipt st' op = find_receipt st op)"
proof -
  obtain st1 where v: "validate_operation st oper = Inr ()" and p: "perform st oper = Some st1"
    and st': "st' = record_receipt ((sync_summary_presentation st1)\<lparr>ss_revision := next_revision (ss_revision st1),
        ss_last_operation_id := Some op_id\<rparr>) \<lparr>re_operation_id = op_id, re_mappings = []\<rparr>"
    by (rule apply_operation_Inr [OF a])
  let ?r = "\<lparr>re_operation_id = op_id, re_mappings = []\<rparr>"
  have pres: "presents_panes st1" using perform_presents [OF ok v] p by auto
  have ids: "state_pane_ids st' = state_pane_ids st1"
    by (simp add: st' sync_summary_presentation_def)
  have "shared_ok st'"
    using sync_presents [OF pres] by (simp add: st' shared_ok_def)
  moreover have "find_receipt st' op_id = Some ?r"
    using find_receipt_record [of _ ?r] by (simp add: st')
  moreover have "find_receipt st' op = find_receipt st op" if "oi_client op \<noteq> oi_client op_id" for op
    using that perform_keeps [OF p]
    by (simp add: st' find_receipt_other) (simp add: find_receipt_def sync_summary_presentation_def)
  ultimately show ?thesis
    using perform_keeps [OF p] perform_panes [OF ok v p] ids
    by (simp add: st' sync_summary_presentation_def)
qed

lemma apply_operation_total:
  assumes ok: "shared_ok st"
  shows "\<exists>r. apply_operation st op_id oper = Some r \<and> (\<forall>e. r = Inl e \<longleftrightarrow> validate_operation st oper = Inl e)"
proof (cases "validate_operation st oper")
  case (Inr u)
  then show ?thesis
    using perform_presents [OF ok Inr] by (auto simp: apply_operation_def Let_def)
qed (simp add: apply_operation_def)

lemma apply_operation_step:
  assumes "shared_ok st" "validate_operation st oper = Inr ()" "perform st oper = Some st1"
  obtains st' where "apply_operation st op_id oper = Some (Inr st')" "shared_ok st'"
    "ss_presentation st' = ss_presentation st1" "state_pane_ids st' = state_pane_ids st1"
    "ss_state st' = ss_state st1"
proof -
  obtain st' where a: "apply_operation st op_id oper = Some (Inr st')"
    using assms by (simp add: apply_operation_def Let_def)
  then show thesis
    using that [OF a] apply_operation_ok [OF assms(1) a] assms
    by (auto simp: apply_operation_def Let_def sync_summary_presentation_def)
qed

text \<open>An operation on a divider, seen on the layout alone.\<close>

lemma apply_divider:
  assumes ok: "shared_ok st"
  shows "apply_operation st op_id (SetSplitRatio a b v) = Some (Inr st') \<longleftrightarrow>
    (\<exists>l. 0 < v \<and> v < BACKGROUND_PANE_SPLIT_RATIO_SCALE \<and>
      set_divider (pr_layout (ss_presentation st)) a b v = Some l \<and>
      st' = record_receipt (st\<lparr>ss_presentation := (ss_presentation st)\<lparr>pr_layout := l\<rparr>,
        ss_summary := (ss_summary st)\<lparr>bs_layout := l\<rparr>, ss_revision := next_revision (ss_revision st),
        ss_last_operation_id := Some op_id\<rparr>) \<lparr>re_operation_id = op_id, re_mappings = []\<rparr>)"
proof -
  let ?l = "pr_layout (ss_presentation st)"
  have act: "bs_active_pane (ss_summary st) = pr_active_pane (ss_presentation st)" using ok by (simp add: shared_ok_def)
  have v: "validate_operation st (SetSplitRatio a b v) = Inr () \<longleftrightarrow>
      0 < v \<and> v < BACKGROUND_PANE_SPLIT_RATIO_SCALE \<and> set_divider ?l a b v \<noteq> None"
    using divider_validated_is_found [OF presents_layout_distinct [OF shared_ok_presents [OF ok]], of a b v]
    by (auto split: option.splits)
  have su: "(ss_summary st)\<lparr>bs_layout := l, bs_active_pane := pr_active_pane (ss_presentation st)\<rparr> =
      (ss_summary st)\<lparr>bs_layout := l\<rparr>" for l
    using act by (cases "ss_summary st") simp
  show ?thesis
    using v unfolding apply_operation_def Let_def
    by (cases "validate_operation st (SetSplitRatio a b v)")
       (auto simp: sync_summary_presentation_def su simp del: validate_operation.simps split: option.splits)
qed

lemma apply_divider_effect:
  assumes "shared_ok st" "apply_operation st op_id (SetSplitRatio a b v) = Some (Inr st')"
  obtains l where "0 < v" "v < BACKGROUND_PANE_SPLIT_RATIO_SCALE" "shared_ok st'"
    "set_divider (pr_layout (ss_presentation st)) a b v = Some l"
    "ss_presentation st' = (ss_presentation st)\<lparr>pr_layout := l\<rparr>"
    "ss_summary st' = (ss_summary st)\<lparr>bs_layout := l\<rparr>" "ss_revision st' = next_revision (ss_revision st)"
proof -
  from assms(2) [unfolded apply_divider [OF assms(1)]] obtain l where
    l: "0 < v" "v < BACKGROUND_PANE_SPLIT_RATIO_SCALE" "set_divider (pr_layout (ss_presentation st)) a b v = Some l"
    "st' = record_receipt (st\<lparr>ss_presentation := (ss_presentation st)\<lparr>pr_layout := l\<rparr>,
        ss_summary := (ss_summary st)\<lparr>bs_layout := l\<rparr>, ss_revision := next_revision (ss_revision st),
        ss_last_operation_id := Some op_id\<rparr>) \<lparr>re_operation_id = op_id, re_mappings = []\<rparr>" by blast
  show thesis using apply_operation_ok [OF assms] by (intro that [OF l(1,2) _ l(3)]) (simp_all add: l(4))
qed

lemma divider_operations_commute:
  assumes ok: "shared_ok st"
    and 1: "apply_operation st i (SetSplitRatio a b v) = Some (Inr s1)"
    and 2: "apply_operation s1 j (SetSplitRatio c d w) = Some (Inr s2)"
    and apart: "divider_path (pr_layout (ss_presentation st)) a b \<noteq> divider_path (pr_layout (ss_presentation st)) c d"
  shows "\<exists>t1 t2. apply_operation st j (SetSplitRatio c d w) = Some (Inr t1) \<and>
    apply_operation t1 i (SetSplitRatio a b v) = Some (Inr t2) \<and>
    ss_presentation t2 = ss_presentation s2 \<and> ss_summary t2 = ss_summary s2 \<and> ss_revision t2 = ss_revision s2"
proof -
  let ?l = "pr_layout (ss_presentation st)"
  obtain l1 where l1: "0 < v" "v < BACKGROUND_PANE_SPLIT_RATIO_SCALE" "shared_ok s1" "set_divider ?l a b v = Some l1"
    "ss_presentation s1 = (ss_presentation st)\<lparr>pr_layout := l1\<rparr>"
    "ss_summary s1 = (ss_summary st)\<lparr>bs_layout := l1\<rparr>" "ss_revision s1 = next_revision (ss_revision st)"
    by (rule apply_divider_effect [OF ok 1])
  obtain l2 where l2: "0 < w" "w < BACKGROUND_PANE_SPLIT_RATIO_SCALE"
    "set_divider (pr_layout (ss_presentation s1)) c d w = Some l2"
    "ss_presentation s2 = (ss_presentation s1)\<lparr>pr_layout := l2\<rparr>"
    "ss_summary s2 = (ss_summary s1)\<lparr>bs_layout := l2\<rparr>" "ss_revision s2 = next_revision (ss_revision s1)"
    by (rule apply_divider_effect [OF l1(3) 2])
  from set_divider_commute [OF apart, of v w] l1(4,5) l2(3) obtain m1 where
    m1: "set_divider ?l c d w = Some m1" and m2: "set_divider m1 a b v = Some l2"
    by (cases "set_divider ?l c d w") auto
  obtain t1 where t1: "apply_operation st j (SetSplitRatio c d w) = Some (Inr t1)"
    using m1 l2(1,2) unfolding apply_divider [OF ok] by blast
  obtain m1' where t1l: "shared_ok t1" "set_divider ?l c d w = Some m1'"
    "ss_presentation t1 = (ss_presentation st)\<lparr>pr_layout := m1'\<rparr>"
    "ss_summary t1 = (ss_summary st)\<lparr>bs_layout := m1'\<rparr>" "ss_revision t1 = next_revision (ss_revision st)"
    by (rule apply_divider_effect [OF ok t1])
  obtain t2 where t2: "apply_operation t1 i (SetSplitRatio a b v) = Some (Inr t2)"
    using m1 m2 l1(1,2) t1l unfolding apply_divider [OF t1l(1)] by auto
  obtain m2' where "set_divider (pr_layout (ss_presentation t1)) a b v = Some m2'"
    "ss_presentation t2 = (ss_presentation t1)\<lparr>pr_layout := m2'\<rparr>"
    "ss_summary t2 = (ss_summary t1)\<lparr>bs_layout := m2'\<rparr>" "ss_revision t2 = next_revision (ss_revision t1)"
    by (rule apply_divider_effect [OF t1l(1) t2])
  then show ?thesis using t1 t2 m1 m2 l1 l2 t1l by (intro exI [of _ t1] exI [of _ t2]) simp
qed

section \<open>Repair\<close>

definition repaired :: "'j shared_state \<Rightarrow> presentation" where
  "repaired st =
     \<lparr>pr_layout = bs_layout (ss_summary st), pr_active_pane = bs_active_pane (ss_summary st),
      pr_maximized_pane = Option.bind (pr_maximized_pane (ss_presentation st))
        (\<lambda>i. if i \<in> set (state_pane_ids st) then Some i else None),
      pr_minimized_panes = filter (\<lambda>i. i \<in> set (state_pane_ids st)) (pr_minimized_panes (ss_presentation st))\<rparr>"

lemma normalize_eq:
  "normalize_state st =
     (case validate_summary_panes (ss_summary st) of
        Inl e \<Rightarrow> Inl e
      | Inr _ \<Rightarrow>
          if bs_active_pane (ss_summary st) \<notin> set (state_pane_ids st)
          then Inl (ActivePaneMissing (bs_active_pane (ss_summary st)))
          else Inr (st\<lparr>ss_presentation := repaired st\<rparr>, repaired st \<noteq> ss_presentation st))"
proof -
  have ids: "map bp_id (bs_panes (ss_summary st)) = state_pane_ids st" by (simp add: state_pane_ids_def)
  have ex: "list_ex (\<lambda>p. bp_id p = i) (bs_panes (ss_summary st)) \<longleftrightarrow> i \<in> set (state_pane_ids st)" for i
    using state_contains_pane_iff [of st i] unfolding state_contains_pane_def .
  have len: "length (filter P xs) = length xs \<longleftrightarrow> filter P xs = xs" for P and xs :: "u64 list"
    by (metis filter_id_conv length_filter_less order_less_irrefl)
  show ?thesis
    unfolding normalize_state_def Let_def ids ex len
    by (cases "ss_presentation st"; cases "pr_maximized_pane (ss_presentation st)")
       (auto simp: repaired_def split: sum.splits)
qed

lemma repaired_shared_ok:
  "summary_ok (ss_summary st) \<Longrightarrow> bs_active_pane (ss_summary st) \<in> set (state_pane_ids st) \<Longrightarrow>
   shared_ok (st\<lparr>ss_presentation := repaired st\<rparr>)"
  by (auto simp: shared_ok_def presents_def repaired_def summary_ok_def Option.bind_eq_Some_conv split: if_splits)

lemma repaired_ok: "shared_ok st \<Longrightarrow> repaired st = ss_presentation st"
proof -
  assume ok: "shared_ok st"
  then have "filter (\<lambda>i. i \<in> set (state_pane_ids st)) (pr_minimized_panes (ss_presentation st)) =
      pr_minimized_panes (ss_presentation st)"
    by (intro filter_True) (auto simp: shared_ok_def presents_def)
  then show ?thesis
    using ok by (cases "ss_presentation st"; cases "pr_maximized_pane (ss_presentation st)")
      (auto simp: repaired_def shared_ok_def presents_def)
qed

lemma normalize_total:
  "(\<exists>r. normalize_state st = Inr r) \<longleftrightarrow>
     summary_ok (ss_summary st) \<and> bs_active_pane (ss_summary st) \<in> set (state_pane_ids st)"
  unfolding normalize_eq validate_summary_panes_ok [of "ss_summary st" "()", symmetric]
  by (auto split: sum.splits)

lemma normalize_ok: "shared_ok st \<Longrightarrow> normalize_state st = Inr (st, False)"
proof -
  assume ok: "shared_ok st"
  have "\<exists>r. normalize_state st = Inr r"
    unfolding normalize_total using ok shared_ok_summary [OF ok] by (auto simp: shared_ok_def presents_def)
  then show ?thesis
    by (auto simp: normalize_eq repaired_ok [OF ok] split: sum.splits if_splits)
qed

lemma normalize_Inr:
  assumes "normalize_state st = Inr (st', changed)"
  shows "shared_ok st' \<and> st' = st\<lparr>ss_presentation := repaired st\<rparr> \<and> (changed \<longleftrightarrow> st' \<noteq> st)"
proof -
  have st': "st' = st\<lparr>ss_presentation := repaired st\<rparr>" and ch: "changed \<longleftrightarrow> repaired st \<noteq> ss_presentation st"
    using assms by (auto simp: normalize_eq split: sum.splits if_splits)
  moreover have "st\<lparr>ss_presentation := repaired st\<rparr> \<noteq> st \<longleftrightarrow> repaired st \<noteq> ss_presentation st"
    by (cases st) simp
  moreover have "shared_ok st'"
    unfolding st' using assms normalize_total [of st] by (intro repaired_shared_ok) auto
  ultimately show ?thesis by simp
qed

lemma new_shared_state_ok:
  "summary_ok summary \<Longrightarrow> bs_active_pane summary \<in> set (pane_id_list summary) \<Longrightarrow>
   shared_ok (new_shared_state i summary j)"
  by (auto simp: shared_ok_def presents_def new_shared_state_def summary_ok_def state_pane_ids_def pane_id_list_def)

section \<open>Properties\<close>

definition sample_bg_pane :: "u64 \<Rightarrow> bg_pane" where
  "sample_bg_pane i = \<lparr>bp_id = i, bp_label = ''sh'', bp_profile = [], bp_configured_command = [],
     bp_application = [], bp_foreground_command = None, bp_terminal_title = None,
     bp_working_directory = None, bp_state = BgRunning, bp_exit = None\<rparr>"

definition sample_summary :: bg_summary where
  "sample_summary = \<lparr>bs_id = 7, bs_title = ''work'', bs_authentication_required = False, bs_active_pane = 1,
     bs_layout = BgSplit ''vertical'' 500 (BgPane 1) (BgSplit ''horizontal'' 500 (BgPane 2) (BgPane 3)),
     bs_panes = map sample_bg_pane [1, 2, 3], bs_held = False, bs_scoped_to = None, bs_key_envelope = None\<rparr>"

definition sample_state :: "unit shared_state" where
  "sample_state = new_shared_state 7 sample_summary ()"

lemma sample_state_ok: "shared_ok sample_state"
  unfolding sample_state_def
  by (rule new_shared_state_ok) (simp_all add: summary_ok_def pane_id_list_def sample_summary_def sample_bg_pane_def
      BACKGROUND_PANE_SPLIT_RATIO_SCALE_def word_less_nat_alt)

text \<open>
  C24.  The canonical state of a shared session is an invariant: on a state
  that satisfies it no operation panics, an operation is refused exactly when its
  validation fails, and an operation that is applied leaves the invariant,
  the next revision, exactly the panes it should, and a receipt for itself
  beside the receipts of the other clients.
\<close>

theorem shared_operations_keep_state_ok:
  assumes "shared_ok st"
  shows "(\<exists>r. apply_operation st op_id oper = Some r \<and> (\<forall>e. r = Inl e \<longleftrightarrow> validate_operation st oper = Inl e)) \<and>
    (\<forall>st'. apply_operation st op_id oper = Some (Inr st') \<longrightarrow>
       shared_ok st' \<and> ss_revision st' = next_revision (ss_revision st) \<and> ss_session_id st' = ss_session_id st \<and>
       mset (state_pane_ids st') = mset (surviving oper (state_pane_ids st)) \<and>
       find_receipt st' op_id = Some \<lparr>re_operation_id = op_id, re_mappings = []\<rparr> \<and>
       (\<forall>op. oi_client op \<noteq> oi_client op_id \<longrightarrow> find_receipt st' op = find_receipt st op))"
  using apply_operation_total [OF assms, of op_id oper] apply_operation_ok [OF assms, of op_id oper] by blast

theorem shared_operations_keep_state_ok_witness:
  "shared_ok sample_state \<and>
   (\<exists>st'. apply_operation sample_state \<lparr>oi_client = ''a'', oi_sequence = 1\<rparr> (ClosePane 1) = Some (Inr st') \<and>
          shared_ok st' \<and> ss_revision st' = 1)"
proof -
  let ?op = "\<lparr>oi_client = ''a'', oi_sequence = 1\<rparr>"
  have v: "validate_operation sample_state (ClosePane 1) = Inr ()"
    by (simp add: sample_state_def new_shared_state_def sample_summary_def sample_bg_pane_def state_pane_ids_def)
  have r: "ss_revision sample_state = 0" by (simp add: sample_state_def new_shared_state_def)
  from shared_operations_keep_state_ok [OF sample_state_ok, of ?op "ClosePane 1"] v
  obtain st' where "apply_operation sample_state ?op (ClosePane 1) = Some (Inr st')" "shared_ok st'"
    "ss_revision st' = next_revision 0"
    unfolding r by (metis sum.distinct(1) sum.exhaust)
  then show ?thesis using sample_state_ok by (auto simp: next_revision_def)
qed

text \<open>
  Repairing a persisted state changes only its presentation, ends in a
  state that satisfies the invariant, reports a change exactly when there was one,
  and finds nothing to repair a second time; it succeeds exactly on a valid
  summary whose active pane exists.
\<close>

theorem normalizing_repairs_the_presentation:
  "((\<exists>r. normalize_state st = Inr r) \<longleftrightarrow>
      validate_summary_panes (ss_summary st) = Inr () \<and> bs_active_pane (ss_summary st) \<in> set (state_pane_ids st)) \<and>
   (\<forall>st' changed. normalize_state st = Inr (st', changed) \<longrightarrow>
      shared_ok st' \<and> ss_summary st' = ss_summary st \<and> ss_state st' = ss_state st \<and>
      (changed \<longleftrightarrow> st' \<noteq> st) \<and> normalize_state st' = Inr (st', False))"
  using normalize_total [of st] normalize_Inr [of st] by (auto simp: validate_summary_panes_ok normalize_ok)

theorem normalizing_repairs_the_presentation_witness:
  "\<exists>st'. normalize_state (sample_state\<lparr>ss_presentation := \<lparr>pr_layout = BgPane 9, pr_active_pane = 9,
      pr_maximized_pane = Some 9, pr_minimized_panes = [9, 2]\<rparr>\<rparr>) = Inr (st', True) \<and> shared_ok st'"
proof -
  let ?st = "sample_state\<lparr>ss_presentation := \<lparr>pr_layout = BgPane 9, pr_active_pane = 9,
      pr_maximized_pane = Some 9, pr_minimized_panes = [9, 2]\<rparr>\<rparr>"
  have su: "summary_ok (ss_summary ?st)" "bs_active_pane (ss_summary ?st) \<in> set (state_pane_ids ?st)"
    using sample_state_ok shared_ok_summary [OF sample_state_ok] by (auto simp: shared_ok_def presents_def)
  then obtain st' changed where n: "normalize_state ?st = Inr (st', changed)"
    using normalizing_repairs_the_presentation [of ?st] by (auto simp: validate_summary_panes_ok)
  moreover from this normalizing_repairs_the_presentation [of ?st]
  have ok: "shared_ok st'" "changed \<longleftrightarrow> st' \<noteq> ?st" by blast+
  moreover have "\<not> shared_ok ?st"
    by (simp add: shared_ok_def presents_def sample_state_def new_shared_state_def sample_summary_def)
  ultimately show ?thesis by (metis (full_types))
qed

text \<open>
  Two viewers that move different dividers do not undo one another: the
  two operations can be applied in either order and give the same presentation,
  summary and revision.
\<close>

theorem divider_moves_commute:
  assumes ok: "shared_ok st"
    and 1: "apply_operation st i (SetSplitRatio a b v) = Some (Inr s1)"
    and 2: "apply_operation s1 j (SetSplitRatio c d w) = Some (Inr s2)"
    and apart: "divider_path (pr_layout (ss_presentation st)) a b \<noteq> divider_path (pr_layout (ss_presentation st)) c d"
  shows "\<exists>t1 t2. apply_operation st j (SetSplitRatio c d w) = Some (Inr t1) \<and>
    apply_operation t1 i (SetSplitRatio a b v) = Some (Inr t2) \<and>
    ss_presentation t2 = ss_presentation s2 \<and> ss_summary t2 = ss_summary s2 \<and> ss_revision t2 = ss_revision s2"
  by (rule divider_operations_commute [OF assms])

theorem divider_moves_commute_witness:
  "\<exists>s1 s2 t1 t2. apply_operation sample_state \<lparr>oi_client = ''a'', oi_sequence = 1\<rparr> (SetSplitRatio 1 2 300) = Some (Inr s1) \<and>
     apply_operation s1 \<lparr>oi_client = ''b'', oi_sequence = 1\<rparr> (SetSplitRatio 2 3 700) = Some (Inr s2) \<and>
     apply_operation sample_state \<lparr>oi_client = ''b'', oi_sequence = 1\<rparr> (SetSplitRatio 2 3 700) = Some (Inr t1) \<and>
     apply_operation t1 \<lparr>oi_client = ''a'', oi_sequence = 1\<rparr> (SetSplitRatio 1 2 300) = Some (Inr t2) \<and>
     ss_presentation t2 = ss_presentation s2"
proof -
  let ?i = "\<lparr>oi_client = ''a'', oi_sequence = 1\<rparr>" and ?j = "\<lparr>oi_client = ''b'', oi_sequence = 1\<rparr>"
  obtain s1 where 1: "apply_operation sample_state ?i (SetSplitRatio 1 2 300) = Some (Inr s1)"
    "pr_layout (ss_presentation s1) =
       BgSplit ''vertical'' 300 (BgPane 1) (BgSplit ''horizontal'' 500 (BgPane 2) (BgPane 3))"
    by (auto simp: apply_operation_def sample_state_def new_shared_state_def sample_summary_def Let_def
        sync_summary_presentation_def BACKGROUND_PANE_SPLIT_RATIO_SCALE_def word_less_nat_alt)
  obtain s2 where 2: "apply_operation s1 ?j (SetSplitRatio 2 3 700) = Some (Inr s2)"
    using 1(2) by (auto simp: apply_operation_def Let_def BACKGROUND_PANE_SPLIT_RATIO_SCALE_def word_less_nat_alt)
  have "divider_path (pr_layout (ss_presentation sample_state)) 1 2 \<noteq>
      divider_path (pr_layout (ss_presentation sample_state)) 2 3"
    by (simp add: sample_state_def new_shared_state_def sample_summary_def)
  from divider_moves_commute [OF sample_state_ok 1(1) 2 this] 1(1) 2 show ?thesis by blast
qed

end
