(* ===== verification/Mux_Viewer.thy ===== *)
theory Mux_Viewer
  imports Mux_State
begin

text \<open>
  How a viewer's window publishes its geometry to the daemon
  (\<open>src/background_session_ui/collaboration.rs\<close>): it compares the canonical
  presentation with its own and names the one change that is owed, which the
  daemon validates and applies (\<open>Mux_State\<close>).
\<close>

section \<open>Definitions\<close>

fun first_layout_pane :: "bg_layout \<Rightarrow> u64" where
  "first_layout_pane (BgPane i) = i"
| "first_layout_pane (BgSplit _ _ f _) = first_layout_pane f"

fun layout_ids :: "bg_layout \<Rightarrow> u64 list" where
  "layout_ids (BgPane i) = [i]"
| "layout_ids (BgSplit _ _ f s) = layout_ids f @ layout_ids s"

fun same_layout_shape :: "bg_layout \<Rightarrow> bg_layout \<Rightarrow> bool" where
  "same_layout_shape (BgPane _) (BgPane _) = True"
| "same_layout_shape (BgSplit ax r f s) (BgSplit ax' r' f' s') =
     (ax = ax' \<and> r = r' \<and> same_layout_shape f f' \<and> same_layout_shape s s')"
| "same_layout_shape _ _ = False"

text \<open>The result and the \<open>&mut\<close> change, which is kept as it was left when the result is false.\<close>

fun find_single_ratio_change ::
  "bg_layout \<Rightarrow> bg_layout \<Rightarrow> (u64 \<times> u64 \<times> u16) option \<Rightarrow> bool \<times> (u64 \<times> u64 \<times> u16) option" where
  "find_single_ratio_change (BgPane i) (BgPane j) change = (i = j, change)"
| "find_single_ratio_change (BgSplit ax r f s) (BgSplit ax' r' f' s') change =
     (if ax \<noteq> ax' then (False, change)
      else if r \<noteq> r' \<and> change \<noteq> None then (False, change)
      else
        let change = (if r \<noteq> r' then Some (first_layout_pane f, first_layout_pane s, r') else change)
        in case find_single_ratio_change f f' change of
             (True, change) \<Rightarrow> find_single_ratio_change s s' change
           | (False, change) \<Rightarrow> (False, change))"
| "find_single_ratio_change _ _ change = (False, change)"

definition find_directional_move :: "bg_layout \<Rightarrow> bg_layout \<Rightarrow> u64 \<Rightarrow> 'j shared_operation option" where
  "find_directional_move current desired i =
     map_option (MovePane i)
       (find (\<lambda>d. move_layout_pane current i d = (True, desired)) [DirLeft, DirRight, DirUp, DirDown])"

definition find_rotation :: "bg_layout \<Rightarrow> bg_layout \<Rightarrow> u64 \<Rightarrow> 'j shared_operation option" where
  "find_rotation current desired i =
     map_option (RotateSplit i)
       (find (\<lambda>d. rotate_layout_pane current i d = (True, desired)) [RotClockwise, RotCounterClockwise])"

definition shared_layout_operation :: "bg_layout \<Rightarrow> bg_layout \<Rightarrow> u64 \<Rightarrow> 'j shared_operation option" where
  "shared_layout_operation current desired active =
     (case find_single_ratio_change current desired None of
        (True, change) \<Rightarrow> map_option (\<lambda>(a, b, r). SetSplitRatio a b r) change
      | (False, _) \<Rightarrow>
          (case find_directional_move current desired active of
             Some oper \<Rightarrow> Some oper
           | None \<Rightarrow>
               let different = filter (\<lambda>(c, d). c \<noteq> d) (zip (layout_ids current) (layout_ids desired))
               in if same_layout_shape current desired \<and> length different = 2 \<and>
                     different ! 0 = (snd (different ! 1), fst (different ! 1))
                  then Some (SwapPanes (fst (different ! 0)) (snd (different ! 0)))
                  else find_rotation current desired active))"

definition shared_geometry_operation ::
  "presentation \<Rightarrow> bg_summary \<Rightarrow> u64 option \<Rightarrow> u64 list \<Rightarrow> bool \<Rightarrow> 'j shared_operation option" where
  "shared_geometry_operation canonical summary maximized minimized explicit_focus_pending =
     (if bs_layout summary \<noteq> pr_layout canonical then
        Some (case shared_layout_operation (pr_layout canonical) (bs_layout summary) (bs_active_pane summary) of
                Some oper \<Rightarrow> oper
              | None \<Rightarrow> SetLayout (bs_layout summary))
      else if \<not> explicit_focus_pending \<and> bs_active_pane summary \<noteq> pr_active_pane canonical then
        Some (SetFocus (bs_active_pane summary))
      else if maximized \<noteq> pr_maximized_pane canonical then Some (SetMaximized maximized)
      else if minimized = pr_minimized_panes canonical then None
      else map_option (\<lambda>i. SetMinimized i (i \<in> set minimized))
             (find (\<lambda>i. (i \<in> set minimized) \<noteq> (i \<in> set (pr_minimized_panes canonical)))
                (minimized @ pr_minimized_panes canonical)))"

definition durable_state_operation :: "'j \<Rightarrow> bg_summary option \<Rightarrow> 'j shared_operation" where
  "durable_state_operation state summary =
     (case summary of Some su \<Rightarrow> ReplaceTab su state | None \<Rightarrow> SetTabState state)"

section \<open>The named change is the change\<close>

lemma layout_ids_eq [simp]: "layout_ids l = bg_ids l"
  by (induction l) auto

lemma first_layout_pane_in [simp]: "first_layout_pane l \<in> set (bg_ids l)"
  by (induction l) auto

lemma ratio_change_Split:
  assumes "find_single_ratio_change (BgSplit ax r f s) d ch = (True, ch')"
  obtains r' f' s' ch1 ch2 where "d = BgSplit ax r' f' s'" "r = r' \<or> ch = None"
    "ch1 = (if r \<noteq> r' then Some (first_layout_pane f, first_layout_pane s, r') else ch)"
    "find_single_ratio_change f f' ch1 = (True, ch2)" "find_single_ratio_change s s' ch2 = (True, ch')"
proof (cases d)
  case (BgSplit ax' r' f' s')
  let ?ch1 = "if r \<noteq> r' then Some (first_layout_pane f, first_layout_pane s, r') else ch"
  have ax: "ax' = ax" and r: "r = r' \<or> ch = None"
    using assms BgSplit by (cases ch; auto split: if_splits)+
  obtain b ch2 where f: "find_single_ratio_change f f' ?ch1 = (b, ch2)"
    by (cases "find_single_ratio_change f f' ?ch1")
  have "(case find_single_ratio_change f f' ?ch1 of
          (True, change) \<Rightarrow> find_single_ratio_change s s' change | (False, change) \<Rightarrow> (False, change)) = (True, ch')"
    using assms BgSplit ax r by (auto simp: Let_def split: if_splits)
  then have "b" "find_single_ratio_change s s' ch2 = (True, ch')"
    unfolding f by (cases b; simp)+
  then show thesis using that [of r' f' s' ?ch1 ch2] BgSplit ax r f by simp
qed (use assms in simp)

lemma ratio_change_after:
  "find_single_ratio_change c d (Some x) = (True, ch') \<Longrightarrow> d = c \<and> ch' = Some x"
proof (induction c arbitrary: d ch')
  case (BgPane i)
  then show ?case by (cases d) auto
next
  case (BgSplit ax r f s)
  from BgSplit.prems show ?case
    by (cases rule: ratio_change_Split) (use BgSplit.IH in fastforce)
qed

lemma ratio_change_is_divider:
  "find_single_ratio_change c d None = (True, ch') \<Longrightarrow> distinct (bg_ids c) \<Longrightarrow>
   (case ch' of None \<Rightarrow> d = c | Some (a, b, v) \<Rightarrow> set_divider c a b v = Some d)"
proof (induction c arbitrary: d ch')
  case (BgPane i)
  then show ?case by (cases d) auto
next
  case (BgSplit ax r f s)
  from BgSplit.prems(1) show ?case
  proof (cases rule: ratio_change_Split)
    case (1 r' f' s' ch1 ch2)
    show ?thesis
    proof (cases "r = r'")
      case False
      then have "f' = f" "ch2 = ch1" using 1 ratio_change_after [of f f'] by auto
      then have "s' = s" "ch' = ch1" using 1 False ratio_change_after [of s s'] by auto
      then show ?thesis using \<open>f' = f\<close> 1 False by simp
    next
      case True
      then have f: "case ch2 of None \<Rightarrow> f' = f | Some (a, b, v) \<Rightarrow> set_divider f a b v = Some f'"
        using BgSplit.IH(1) [of f' ch2] 1 BgSplit.prems(2) by simp
      show ?thesis
      proof (cases ch2)
        case None
        have s: "case ch' of None \<Rightarrow> s' = s | Some (a, b, v) \<Rightarrow> set_divider s a b v = Some s'"
          using BgSplit.IH(2) [of s' ch'] 1 None BgSplit.prems(2) by simp
        show ?thesis
          using s f None 1 True BgSplit.prems(2) set_divider_SomeD [of s]
          by (auto split: option.splits)
      next
        case (Some x)
        obtain a b v where x: "x = (a, b, v)" by (cases x) auto
        have "s' = s" "ch' = Some x" using ratio_change_after [of s s' x ch'] 1 Some by simp_all
        then show ?thesis
          using f Some x 1 True BgSplit.prems(2) set_divider_SomeD [of f a b v f'] by auto
      qed
    qed
  qed
qed

lemma ratio_change_valid:
  "find_single_ratio_change c d None = (True, Some (a, b, v)) \<Longrightarrow> bg_ok d \<Longrightarrow>
   0 < v \<and> v < BACKGROUND_PANE_SPLIT_RATIO_SCALE"
proof (induction c arbitrary: d)
  case (BgPane i)
  then show ?case by (cases d) auto
next
  case (BgSplit ax r f s)
  from BgSplit.prems(1) show ?case
  proof (cases rule: ratio_change_Split)
    case (1 r' f' s' ch1 ch2)
    show ?thesis
    proof (cases "r = r'")
      case False
      then have "ch2 = ch1" using 1 ratio_change_after [of f f'] by auto
      then have "Some (a, b, v) = ch1" using 1 False ratio_change_after [of s s'] by auto
      then show ?thesis using 1 False BgSplit.prems(2) by auto
    next
      case True
      show ?thesis
      proof (cases ch2)
        case None
        then show ?thesis using 1 BgSplit.IH(2) [of s'] BgSplit.prems(2) by simp
      next
        case (Some x)
        then have "x = (a, b, v)" using 1 ratio_change_after [of s s' x] by simp
        then show ?thesis using 1 True Some BgSplit.IH(1) [of f'] BgSplit.prems(2) by simp
      qed
    qed
  qed
qed

text \<open>Two layouts of one shape whose panes differ by one exchange.\<close>

lemma same_shape_map:
  "same_layout_shape c d \<Longrightarrow> bg_ids d = map g (bg_ids c) \<Longrightarrow>
   (\<And>i. g i = exchange a b i) \<Longrightarrow> d = swap_layout_panes c a b"
proof (induction c d rule: same_layout_shape.induct)
  case (2 ax r f s ax' r' f' s')
  have len: "same_layout_shape l l' \<Longrightarrow> length (bg_ids l) = length (bg_ids l')" for l l'
    by (induction l l' rule: same_layout_shape.induct) auto
  from 2 show ?case using len [of f f'] by auto
qed (auto simp: exchange_def)

lemma exchange_from_zip:
  assumes "length xs = length ys" "distinct xs" "filter (\<lambda>(c, d). c \<noteq> d) (zip xs ys) = [(a, b), (b, a)]"
  shows "ys = map (exchange a b) xs"
proof (rule nth_equalityI)
  show "length ys = length (map (exchange a b) xs)" using assms(1) by simp
  fix k assume k: "k < length ys"
  have pair: "xs ! j \<noteq> ys ! j \<longleftrightarrow> (xs ! j, ys ! j) \<in> {(a, b), (b, a)} \<and> xs ! j \<noteq> ys ! j" if "j < length xs" for j
  proof -
    have "(xs ! j, ys ! j) \<in> set (zip xs ys)" using that assms(1) by (auto simp: set_zip)
    then have "xs ! j \<noteq> ys ! j \<longleftrightarrow> (xs ! j, ys ! j) \<in> set (filter (\<lambda>(c, d). c \<noteq> d) (zip xs ys))" by auto
    then show ?thesis unfolding assms(3) by auto
  qed
  have "set (filter (\<lambda>(c, d). c \<noteq> d) (zip xs ys)) = {(a, b), (b, a)}" by (simp add: assms(3))
  then have "(a, b) \<in> set (zip xs ys)" "(b, a) \<in> set (zip xs ys)" "a \<noteq> b" by auto
  then obtain p q where pq: "p < length xs" "xs ! p = a" "ys ! p = b" "q < length xs" "xs ! q = b" "ys ! q = a"
    by (auto simp: set_zip)
  have kx: "k < length xs" using k assms(1) by simp
  have "ys ! k = exchange a b (xs ! k)"
  proof (cases "xs ! k \<in> {a, b}")
    case True
    then have "xs ! k = xs ! p \<or> xs ! k = xs ! q" using pq by auto
    then have "k = p \<or> k = q" using pq(1,4) kx nth_eq_iff_index_eq [OF assms(2)] by blast
    then show ?thesis using pq \<open>a \<noteq> b\<close> by (auto simp: exchange_def)
  next
    case False
    then show ?thesis using pair [OF kx] by (auto simp: exchange_def)
  qed
  then show "ys ! k = map (exchange a b) xs ! k" using kx by simp
qed

lemma find_single_exchange:
  assumes "same_layout_shape c d" "distinct (bg_ids c)"
    and "filter (\<lambda>(x, y). x \<noteq> y) (zip (bg_ids c) (bg_ids d)) = [(a, b), (b, a)]"
  shows "d = swap_layout_panes c a b" "a \<noteq> b" "a \<in> set (bg_ids c)" "b \<in> set (bg_ids c)"
proof -
  have len: "same_layout_shape l l' \<Longrightarrow> length (bg_ids l) = length (bg_ids l')" for l l'
    by (induction l l' rule: same_layout_shape.induct) auto
  have ids: "bg_ids d = map (exchange a b) (bg_ids c)"
    by (rule exchange_from_zip [OF len [OF assms(1)] assms(2,3)])
  show "d = swap_layout_panes c a b" by (rule same_shape_map [OF assms(1) ids]) simp
  have "set (filter (\<lambda>(x, y). x \<noteq> y) (zip (bg_ids c) (bg_ids d))) = {(a, b), (b, a)}" by (simp add: assms(3))
  then have "(a, b) \<in> set (zip (bg_ids c) (bg_ids d))" "(b, a) \<in> set (zip (bg_ids c) (bg_ids d))" and "a \<noteq> b"
    by auto
  then show "a \<noteq> b" "a \<in> set (bg_ids c)" "b \<in> set (bg_ids c)" by (auto dest: set_zip_leftD)
qed

lemma two_swapped:
  assumes "length xs = 2" "xs ! 0 = (snd (xs ! 1), fst (xs ! 1))"
  shows "xs = [(fst (xs ! 0), snd (xs ! 0)), (snd (xs ! 0), fst (xs ! 0))]"
  using assms by (cases xs; cases "tl xs") auto

lemma find_directional_moveD:
  "find_directional_move c d i = Some oper \<Longrightarrow> \<exists>dir. oper = MovePane i dir \<and> move_layout_pane c i dir = (True, d)"
  by (auto simp: find_directional_move_def split: if_splits)

lemma find_rotationD:
  "find_rotation c d i = Some oper \<Longrightarrow> \<exists>dir. oper = RotateSplit i dir \<and> rotate_layout_pane c i dir = (True, d)"
  by (auto simp: find_rotation_def split: if_splits)

lemma layout_operation_applies:
  fixes st :: "'j shared_state"
  assumes ok: "shared_ok st" and d: "bg_ok d" and act: "active \<in> set (state_pane_ids st)"
    and o: "shared_layout_operation (pr_layout (ss_presentation st)) d active = Some oper"
  shows "validate_operation st oper = Inr () \<and> perform st oper = Some (set_layout st d)"
proof -
  let ?c = "pr_layout (ss_presentation st)"
  have P: "presents_panes st" by (rule shared_ok_presents [OF ok])
  note dist = presents_layout_distinct [OF P] and ids = presents_layout_set [OF P]
  obtain b ch where ch: "find_single_ratio_change ?c d None = (b, ch)"
    by (cases "find_single_ratio_change ?c d None")
  show ?thesis
  proof (cases b)
    case True
    then obtain x y v where c: "ch = Some (x, y, v)" and oper: "oper = SetSplitRatio x y v"
      using o ch by (auto simp: shared_layout_operation_def)
    have set: "set_divider ?c x y v = Some d" using ratio_change_is_divider [OF _ dist] ch True c by fastforce
    then have "find_divider ?c x y \<noteq> None" using divider_validated_is_found [OF dist, of x y v] by simp
    then show ?thesis using set oper ratio_change_valid [of ?c d x y v] ch True c d by auto
  next
    case False
    let ?diff = "filter (\<lambda>(x, y). x \<noteq> y) (zip (bg_ids ?c) (bg_ids d))"
    consider (move) "find_directional_move ?c d active = Some oper"
      | (swap) "same_layout_shape ?c d" "length ?diff = 2" "?diff ! 0 = (snd (?diff ! 1), fst (?diff ! 1))"
          "oper = SwapPanes (fst (?diff ! 0)) (snd (?diff ! 0))"
      | (rotate) "find_rotation ?c d active = Some oper"
      using o ch False by (auto simp: shared_layout_operation_def Let_def split: option.splits if_splits)
    then show ?thesis
    proof cases
      case move
      then show ?thesis using act by (auto dest!: find_directional_moveD simp: can_move_layout_pane_def)
    next
      case swap
      from find_single_exchange [OF swap(1) dist two_swapped [OF swap(2,3)]]
      show ?thesis using swap(4) ids by simp
    next
      case rotate
      then show ?thesis by (auto dest!: find_rotationD simp: can_rotate_layout_pane_def)
    qed
  qed
qed

section \<open>Publishing until nothing differs\<close>

text \<open>What a window shows of a session, and whether it can describe it: the panes are the session's.\<close>

definition describes :: "bg_summary \<Rightarrow> u64 option \<Rightarrow> u64 list \<Rightarrow> u64 list \<Rightarrow> bool" where
  "describes summary maximized minimized ids \<longleftrightarrow>
     bg_ok (bs_layout summary) \<and> mset (bg_ids (bs_layout summary)) = mset ids \<and>
     bs_active_pane summary \<in> set ids \<and> set_option maximized \<subseteq> set ids \<and> set minimized \<subseteq> set ids"

text \<open>The differences that are left: layout, focus, the maximized pane, and every pane minimized on one side only.\<close>

definition geometry_distance :: "presentation \<Rightarrow> bg_summary \<Rightarrow> u64 option \<Rightarrow> u64 list \<Rightarrow> bool \<Rightarrow> nat" where
  "geometry_distance pr summary maximized minimized pending =
     of_bool (bs_layout summary \<noteq> pr_layout pr) +
     of_bool (\<not> pending \<and> bs_active_pane summary \<noteq> pr_active_pane pr) +
     of_bool (maximized \<noteq> pr_maximized_pane pr) +
     card (sym_diff (set minimized) (set (pr_minimized_panes pr)))"

text \<open>
  The one difference a request settles: the layout before the focus, the focus before the maximized pane, that
  before the minimized panes, of which it is one that only one side shows minimized.
\<close>

definition settles_one :: "presentation \<Rightarrow> bg_summary \<Rightarrow> u64 option \<Rightarrow> u64 list \<Rightarrow> bool \<Rightarrow> presentation \<Rightarrow> bool" where
  "settles_one pr summary maximized minimized pending pr' \<longleftrightarrow>
     (if bs_layout summary \<noteq> pr_layout pr then pr' = pr\<lparr>pr_layout := bs_layout summary\<rparr>
      else if \<not> pending \<and> bs_active_pane summary \<noteq> pr_active_pane pr then pr' = pr\<lparr>pr_active_pane := bs_active_pane summary\<rparr>
      else if maximized \<noteq> pr_maximized_pane pr then pr' = pr\<lparr>pr_maximized_pane := maximized\<rparr>
      else \<exists>i\<in>set minimized \<union> set (pr_minimized_panes pr). (i \<in> set minimized) \<noteq> (i \<in> set (pr_minimized_panes pr)) \<and>
        pr' = pr\<lparr>pr_minimized_panes := filter (\<lambda>j. j \<noteq> i) (pr_minimized_panes pr) @ (if i \<in> set minimized then [i] else [])\<rparr>)"

lemma geometry_operation_None:
  assumes "shared_geometry_operation pr summary maximized minimized pending = (None :: 'j shared_operation option)"
  shows "geometry_distance pr summary maximized minimized pending = 0"
proof -
  have "sym_diff (set minimized) (set (pr_minimized_panes pr)) = {}"
    using assms by (auto simp: shared_geometry_operation_def find_None_iff split: if_splits)
  then show ?thesis
    using assms unfolding geometry_distance_def
    by (auto simp: shared_geometry_operation_def split: if_splits)
qed

lemma sym_diff_toggle:
  fixes A B :: "'a set"
  assumes "finite A" "finite B" "(i \<in> A) \<noteq> (i \<in> B)" "B' = (if i \<in> A then insert i B else B - {i})"
  shows "card (sym_diff A B') < card (sym_diff A B)"
proof -
  have "sym_diff A B' = sym_diff A B - {i}" "i \<in> sym_diff A B" using assms(3,4) by auto
  then show ?thesis using assms(1,2) by (metis card_Diff1_less finite_Diff finite_UnI)
qed

lemma geometry_layout_step:
  fixes st :: "'j shared_state"
  assumes ok: "shared_ok st" and d: "describes summary maximized minimized (state_pane_ids st)"
    and o: "shared_geometry_operation (ss_presentation st) summary maximized minimized pending = Some oper"
    and lay: "bs_layout summary \<noteq> pr_layout (ss_presentation st)"
  shows "validate_operation st oper = Inr () \<and> perform st oper = Some (set_layout st (bs_layout summary))"
proof (cases "shared_layout_operation (pr_layout (ss_presentation st)) (bs_layout summary) (bs_active_pane summary) ::
    'j shared_operation option")
  case None
  have "\<forall>i\<in>set (bg_ids (bs_layout summary)). state_contains_pane st i"
    using d mset_eq_setD by (fastforce simp: describes_def)
  then have "validate_layout_panes (bs_layout summary) (state_contains_pane st) = Inr ()"
    using d validate_layout_panes_ok by (auto simp: describes_def)
  moreover have "sort (state_pane_ids st) = sort (bg_ids (bs_layout summary))"
    using d by (simp add: describes_def sort_eq_iff)
  ultimately have "validate_operation st (SetLayout (bs_layout summary)) = Inr ()" by (simp add: bg_ids_def)
  then show ?thesis using o lay None by (auto simp: shared_geometry_operation_def)
next
  case (Some oper')
  then have "oper = oper'" using o lay by (simp add: shared_geometry_operation_def)
  then show ?thesis
    using layout_operation_applies [OF ok _ _ Some] d by (simp add: describes_def)
qed

lemma geometry_minimized_step:
  fixes st :: "'j shared_state"
  assumes ok: "shared_ok st" and d: "describes summary maximized minimized (state_pane_ids st)"
    and o: "shared_geometry_operation (ss_presentation st) summary maximized minimized pending = Some oper"
    and same: "bs_layout summary = pr_layout (ss_presentation st)"
      "pending \<or> bs_active_pane summary = pr_active_pane (ss_presentation st)"
      "maximized = pr_maximized_pane (ss_presentation st)"
  obtains i where "oper = SetMinimized i (i \<in> set minimized)" "i \<in> set (state_pane_ids st)"
    "(i \<in> set minimized) \<noteq> (i \<in> set (pr_minimized_panes (ss_presentation st)))"
proof -
  let ?B = "set (pr_minimized_panes (ss_presentation st))"
  obtain i where i: "(i \<in> set minimized) \<noteq> (i \<in> ?B)" "oper = SetMinimized i (i \<in> set minimized)"
    using o same unfolding shared_geometry_operation_def by (auto simp: find_Some_iff split: if_splits)
  then have "i \<in> set minimized \<union> ?B" by auto
  then have "i \<in> set (state_pane_ids st)"
    using d ok by (auto simp: describes_def shared_ok_def presents_def)
  then show thesis using that i by blast
qed

lemma geometry_operation_step:
  fixes st :: "'j shared_state"
  assumes ok: "shared_ok st" and d: "describes summary maximized minimized (state_pane_ids st)"
    and o: "shared_geometry_operation (ss_presentation st) summary maximized minimized pending = Some oper"
  shows "\<exists>st1. validate_operation st oper = Inr () \<and> perform st oper = Some st1 \<and>
    state_pane_ids st1 = state_pane_ids st \<and> ss_state st1 = ss_state st \<and>
    settles_one (ss_presentation st) summary maximized minimized pending (ss_presentation st1) \<and>
    geometry_distance (ss_presentation st1) summary maximized minimized pending <
    geometry_distance (ss_presentation st) summary maximized minimized pending"
proof -
  let ?pr = "ss_presentation st"
  consider (layout) "bs_layout summary \<noteq> pr_layout ?pr"
    | (focus) "bs_layout summary = pr_layout ?pr" "\<not> pending" "bs_active_pane summary \<noteq> pr_active_pane ?pr"
    | (maximized) "bs_layout summary = pr_layout ?pr" "pending \<or> bs_active_pane summary = pr_active_pane ?pr"
        "maximized \<noteq> pr_maximized_pane ?pr"
    | (minimized) "bs_layout summary = pr_layout ?pr" "pending \<or> bs_active_pane summary = pr_active_pane ?pr"
        "maximized = pr_maximized_pane ?pr"
    by blast
  then show ?thesis
  proof cases
    case layout
    then show ?thesis using geometry_layout_step [OF ok d o layout] by (simp add: geometry_distance_def settles_one_def)
  next
    case focus
    then have "oper = SetFocus (bs_active_pane summary)" using o by (simp add: shared_geometry_operation_def)
    then show ?thesis using focus d by (simp add: geometry_distance_def describes_def settles_one_def)
  next
    case maximized
    then have "oper = SetMaximized maximized"
      using o by (auto simp: shared_geometry_operation_def split: if_splits)
    then show ?thesis using maximized d by (cases maximized) (auto simp: geometry_distance_def describes_def settles_one_def)
  next
    case minimized
    let ?B = "set (pr_minimized_panes ?pr)"
    obtain i where i: "oper = SetMinimized i (i \<in> set minimized)" "i \<in> set (state_pane_ids st)"
      "(i \<in> set minimized) \<noteq> (i \<in> ?B)"
      by (rule geometry_minimized_step [OF ok d o minimized])
    let ?kept = "filter (\<lambda>j. j \<noteq> i) (pr_minimized_panes ?pr)"
    let ?pr' = "?pr\<lparr>pr_minimized_panes := (if i \<in> set minimized then ?kept @ [i] else ?kept)\<rparr>"
    have "set (pr_minimized_panes ?pr') = (if i \<in> set minimized then insert i ?B else ?B - {i})" by auto
    from sym_diff_toggle [OF _ _ i(3) this]
    have "geometry_distance ?pr' summary maximized minimized pending <
        geometry_distance ?pr summary maximized minimized pending"
      by (simp add: geometry_distance_def)
    moreover have "settles_one ?pr summary maximized minimized pending ?pr'"
      using minimized i(3) by (auto simp: settles_one_def)
    ultimately show ?thesis using i by (simp add: Let_def)
  qed
qed

lemma geometry_agrees:
  "geometry_distance pr summary maximized minimized pending = 0 \<longleftrightarrow>
   pr_layout pr = bs_layout summary \<and> (pending \<or> pr_active_pane pr = bs_active_pane summary) \<and>
   pr_maximized_pane pr = maximized \<and> set (pr_minimized_panes pr) = set minimized"
  by (auto simp: geometry_distance_def split: if_splits)

section \<open>Properties\<close>

text \<open>
  C25.  The operation a window names for a change of layout is that change:
  the daemon accepts it and its layout becomes exactly the window's, with nothing else
  changed.
\<close>

theorem named_layout_change_is_exact:
  assumes "shared_ok st" "bg_ok desired" "active \<in> set (state_pane_ids st)"
    and "shared_layout_operation (pr_layout (ss_presentation st)) desired active = Some oper"
  shows "\<exists>st'. apply_operation st op_id oper = Some (Inr st') \<and> shared_ok st' \<and>
    ss_presentation st' = (ss_presentation st)\<lparr>pr_layout := desired\<rparr> \<and>
    state_pane_ids st' = state_pane_ids st \<and> ss_state st' = ss_state st"
proof -
  have "validate_operation st oper = Inr ()" "perform st oper = Some (set_layout st desired)"
    using layout_operation_applies [OF assms] by simp_all
  from apply_operation_step [OF assms(1) this, of op_id] show ?thesis by auto
qed

theorem named_layout_change_is_exact_witness:
  "\<exists>st'. apply_operation sample_state \<lparr>oi_client = ''a'', oi_sequence = 1\<rparr> (SetSplitRatio 2 3 700) = Some (Inr st') \<and>
     pr_layout (ss_presentation st') =
       BgSplit ''vertical'' 500 (BgPane 1) (BgSplit ''horizontal'' 700 (BgPane 2) (BgPane 3))"
proof -
  let ?d = "BgSplit ''vertical'' 500 (BgPane 1) (BgSplit ''horizontal'' 700 (BgPane 2) (BgPane 3))"
  have "bg_ok ?d" by (simp add: BACKGROUND_PANE_SPLIT_RATIO_SCALE_def word_less_nat_alt)
  moreover have "1 \<in> set (state_pane_ids sample_state)"
    by (simp add: sample_state_def new_shared_state_def sample_summary_def sample_bg_pane_def state_pane_ids_def)
  moreover have "shared_layout_operation (pr_layout (ss_presentation sample_state)) ?d 1 =
      (Some (SetSplitRatio 2 3 700) :: unit shared_operation option)"
    by (simp add: shared_layout_operation_def sample_state_def new_shared_state_def sample_summary_def Let_def)
  ultimately show ?thesis
    using named_layout_change_is_exact [OF sample_state_ok, of ?d 1 "SetSplitRatio 2 3 700" "\<lparr>oi_client = ''a'', oi_sequence = 1\<rparr>"]
    by auto
qed

text \<open>
  C26.  A window's next request is accepted and settles one difference.  When a window that describes the session's panes owes
  the daemon a change of geometry, the daemon accepts the operation the window names, and its presentation then differs from before in
  exactly one thing, which is now as the window shows it: the layout, else the focus (unless a keyboard focus is on its way), else the
  maximized pane, else one minimized pane.  So the differences become fewer.  When nothing is owed, all of them
  agree, the minimized panes as sets.
\<close>

theorem owed_geometry_is_accepted:
  fixes st :: "'j shared_state"
  assumes "shared_ok st" "describes summary maximized minimized (state_pane_ids st)"
  shows "case shared_geometry_operation (ss_presentation st) summary maximized minimized pending :: 'j shared_operation option of
      None \<Rightarrow> pr_layout (ss_presentation st) = bs_layout summary \<and>
        (pending \<or> pr_active_pane (ss_presentation st) = bs_active_pane summary) \<and>
        pr_maximized_pane (ss_presentation st) = maximized \<and> set (pr_minimized_panes (ss_presentation st)) = set minimized
    | Some oper \<Rightarrow> \<exists>st'. apply_operation st op_id oper = Some (Inr st') \<and> shared_ok st' \<and>
        state_pane_ids st' = state_pane_ids st \<and> ss_state st' = ss_state st \<and>
        settles_one (ss_presentation st) summary maximized minimized pending (ss_presentation st') \<and>
        geometry_distance (ss_presentation st') summary maximized minimized pending <
          geometry_distance (ss_presentation st) summary maximized minimized pending"
proof (cases "shared_geometry_operation (ss_presentation st) summary maximized minimized pending :: 'j shared_operation option")
  case None
  from geometry_operation_None [OF this] None show ?thesis unfolding geometry_agrees by simp
next
  case (Some oper)
  from geometry_operation_step [OF assms Some] obtain st1 where 1: "validate_operation st oper = Inr ()" "perform st oper = Some st1"
    and 2: "state_pane_ids st1 = state_pane_ids st" "ss_state st1 = ss_state st"
      "settles_one (ss_presentation st) summary maximized minimized pending (ss_presentation st1)"
      "geometry_distance (ss_presentation st1) summary maximized minimized pending <
         geometry_distance (ss_presentation st) summary maximized minimized pending" by blast
  obtain st2 where "apply_operation st op_id oper = Some (Inr st2)" "shared_ok st2"
    "ss_presentation st2 = ss_presentation st1" "state_pane_ids st2 = state_pane_ids st1" "ss_state st2 = ss_state st1"
    by (rule apply_operation_step [OF assms(1) 1, of op_id])
  then show ?thesis using 2 Some by simp
qed

theorem owed_geometry_is_accepted_witness:
  "\<exists>st'. apply_operation sample_state \<lparr>oi_client = ''a'', oi_sequence = 1\<rparr> (SetMinimized 2 True) = Some (Inr st') \<and>
     set (pr_minimized_panes (ss_presentation st')) = {2}"
proof -
  let ?pr = "ss_presentation sample_state"
  have pr: "pr_layout ?pr = bs_layout sample_summary" "pr_active_pane ?pr = bs_active_pane sample_summary"
    "pr_maximized_pane ?pr = None" "pr_minimized_panes ?pr = []"
    by (simp_all add: sample_state_def new_shared_state_def)
  have ids: "state_pane_ids sample_state = [1, 2, 3]"
    by (simp add: sample_state_def new_shared_state_def sample_summary_def sample_bg_pane_def state_pane_ids_def)
  have d: "describes sample_summary None [2] (state_pane_ids sample_state)"
    unfolding ids by (simp add: describes_def sample_summary_def BACKGROUND_PANE_SPLIT_RATIO_SCALE_def word_less_nat_alt)
  have o: "shared_geometry_operation ?pr sample_summary None [2] False = (Some (SetMinimized 2 True) :: unit shared_operation option)"
    by (simp add: shared_geometry_operation_def pr)
  have "settles_one ?pr sample_summary None [2] False pr' \<Longrightarrow> set (pr_minimized_panes pr') = {2}" for pr'
    by (auto simp: settles_one_def pr)
  with owed_geometry_is_accepted [OF sample_state_ok d, of False "\<lparr>oi_client = ''a'', oi_sequence = 1\<rparr>"] o show ?thesis by auto
qed

end
