(* ===== verification/Mux_Pane.thy ===== *)
theory Mux_Pane
  imports Mux_Viewer "HOL-Library.Sublist"
begin

text \<open>
  One pane of the multiplexer daemon: what is retained of it
  (\<open>crates/zmux/src/retention.rs\<close>), who holds its terminal, the queues its
  output is relayed on, the size it runs at (\<open>server/sizing.rs\<close>), the input
  waiting for it and the departure of viewers (\<open>server.rs\<close>,
  \<open>server/attachment.rs\<close>, \<open>server/workers.rs\<close>), for the Unix build without
  \<open>session-persistence\<close>.

  The off-screen terminal that retains a screen, the framing of a message and the
  answers of the operating system are parameters.  Times are milliseconds,
  and \<open>usize\<close> counters are natural numbers.  Logging is left out.
\<close>

section \<open>Retention\<close>

text \<open>The terminal emulator: a new grid, bytes read into it, a new size, the screen as escape sequences.\<close>

record 't emulator =
  em_new :: "nat \<Rightarrow> nat \<Rightarrow> nat \<Rightarrow> 't"
  em_advance :: "bytes \<Rightarrow> 't \<Rightarrow> 't"
  em_resize :: "nat \<Rightarrow> nat \<Rightarrow> 't \<Rightarrow> 't"
  em_columns :: "'t \<Rightarrow> nat"
  em_lines :: "'t \<Rightarrow> nat"
  em_snapshot :: "nat \<Rightarrow> 't \<Rightarrow> bytes"

datatype retention = RetainNone | RetainMemory nat | RetainDisk

datatype retention_error = NeedsPersistence | NoLongerSupported | UnknownRetention string | BadBudget

datatype 't retained = Discarded | Screen 't nat

definition DEFAULT_RING_BYTES :: nat where "DEFAULT_RING_BYTES = 256 * 1024"
definition MAX_RING_BYTES :: nat where "MAX_RING_BYTES = 64 * 1024 * 1024"
definition ASSUMED_LINE_BYTES :: nat where "ASSUMED_LINE_BYTES = 256"
definition SNAPSHOT_LINES :: nat where "SNAPSHOT_LINES = 2000"

definition parse_retention :: "string \<Rightarrow> retention_error + retention" where
  "parse_retention v =
     (if v = ''none'' then Inr RetainNone
      else if v = ''memory'' then Inr (RetainMemory DEFAULT_RING_BYTES)
      else if v = ''disk'' then Inl NeedsPersistence
      else if v = ''persist'' then Inl NoLongerSupported
      else Inl (UnknownRetention v))"

definition validate_retention :: "retention \<Rightarrow> retention_error + unit" where
  "validate_retention r =
     (case r of
        RetainMemory b \<Rightarrow> if 4 * 1024 \<le> b \<and> b \<le> MAX_RING_BYTES then Inr () else Inl BadBudget
      | RetainDisk \<Rightarrow> Inl NeedsPersistence
      | RetainNone \<Rightarrow> Inr ())"

definition grid_new :: "'t emulator \<Rightarrow> u16 \<Rightarrow> u16 \<Rightarrow> nat \<Rightarrow> 't" where
  "grid_new em columns lines history = em_new em (max (unat columns) 1) (max (unat lines) 1) history"

definition new_retained :: "'t emulator \<Rightarrow> retention \<Rightarrow> u16 \<Rightarrow> u16 \<Rightarrow> 't retained" where
  "new_retained em r columns lines =
     (case r of
        RetainNone \<Rightarrow> Discarded
      | RetainMemory b \<Rightarrow>
          let h = b div ASSUMED_LINE_BYTES in Screen (grid_new em columns lines h) h
      | RetainDisk \<Rightarrow>
          let h = DEFAULT_RING_BYTES div ASSUMED_LINE_BYTES in Screen (grid_new em columns lines h) h)"

text \<open>\<open>Screen::reset\<close>: a blank screen of the same size.\<close>

definition screen_reset :: "'t emulator \<Rightarrow> 't \<Rightarrow> nat \<Rightarrow> 't" where
  "screen_reset em t history = em_new em (em_columns em t) (em_lines em t) history"

definition retained_push :: "'t emulator \<Rightarrow> bytes \<Rightarrow> 't retained \<Rightarrow> 't retained" where
  "retained_push em chunk r = (case r of Discarded \<Rightarrow> Discarded | Screen t h \<Rightarrow> Screen (em_advance em chunk t) h)"

definition retained_seed :: "'t emulator \<Rightarrow> bytes \<Rightarrow> 't retained \<Rightarrow> 't retained" where
  "retained_seed em snap r =
     (case r of Discarded \<Rightarrow> Discarded | Screen t h \<Rightarrow> Screen (em_advance em snap (screen_reset em t h)) h)"

definition retained_snapshot :: "'t emulator \<Rightarrow> 't retained \<Rightarrow> bytes" where
  "retained_snapshot em r = (case r of Discarded \<Rightarrow> [] | Screen t h \<Rightarrow> em_snapshot em SNAPSHOT_LINES t)"

definition retained_clear :: "'t emulator \<Rightarrow> 't retained \<Rightarrow> 't retained" where
  "retained_clear em r = (case r of Discarded \<Rightarrow> Discarded | Screen t h \<Rightarrow> Screen (screen_reset em t h) h)"

definition retained_resize :: "'t emulator \<Rightarrow> u16 \<Rightarrow> u16 \<Rightarrow> 't retained \<Rightarrow> 't retained" where
  "retained_resize em columns lines r =
     (case r of
        Discarded \<Rightarrow> Discarded
      | Screen t h \<Rightarrow> Screen (em_resize em (max (unat columns) 1) (max (unat lines) 1) t) h)"

section \<open>Relays, viewers, attachments, panes\<close>

text \<open>
  A viewer's relay: the channel with its unsent frames, the frame its thread
  is writing, what it has written to the viewer's socket, whether the thread
  still receives, and the counters.
\<close>

record relay =
  rl_frames :: "bytes list"
  rl_writing :: "bytes option"
  rl_socket :: bytes
  rl_receiving :: bool
  rl_evicted :: bool
  rl_queued :: nat
  rl_written :: nat

type_synonym client_id = string

record shared_client =
  sc_process_id :: u32
  sc_peer_process_id :: "u32 option"
  sc_client_id :: client_id
  sc_attachment :: u64
  sc_stream_only :: bool
  sc_relaying_for :: "client_id option"
  sc_relay :: relay
  sc_written_seen :: nat
  sc_wrote_at :: nat
  sc_size :: "(u16 \<times> u16) option"
  sc_input_sent :: bool

datatype attachment =
    AttNone
  | AttExclusive u32
  | AttRevoking u32
  | AttShared "shared_client list"
  | AttGranting u32

record terminal_size =
  ts_columns :: u16
  ts_lines :: u16
  ts_cell_width :: u16
  ts_cell_height :: u16

record revoke_handover =
  rh_client_process_id :: u32
  rh_output :: bytes

text \<open>The terminal: the window size the kernel holds, the input it has accepted, its child.\<close>

record pty =
  pty_winsize :: "(u16 \<times> u16) option"
  pty_accepted :: bytes
  pty_child_pid :: u32

record 't mux_pane =
  pn_id :: u64
  pn_pty :: pty
  pn_attachment :: attachment
  pn_attachment_client_id :: "client_id option"
  pn_size :: terminal_size
  pn_retained :: "'t retained"
  pn_handed_over :: "revoke_handover option"
  pn_handover_waiters :: nat
  pn_exited :: bool
  pn_exit_status :: "int option"
  pn_pending_input :: bytes

definition HANDOVER_OUTPUT_LIMIT :: nat where
  "HANDOVER_OUTPUT_LIMIT = 1024 * 1024"

definition RELAY_BACKPRESSURE_BYTES :: nat where
  "RELAY_BACKPRESSURE_BYTES = 512 * 1024"

definition RELAY_STALL_TIMEOUT :: nat where
  "RELAY_STALL_TIMEOUT = 30000"

text \<open>The messages a viewer or a subscriber is sent, as far as they are sent from here.\<close>

datatype mux_event =
    EvSize u64 u64 u64 u16 u16
  | EvOutput u64 nat
  | EvRevoke u64 u64
  | EvGrant u64 u64

text \<open>\<open>transport::encode_message\<close>: the frame of a message, or an error.\<close>

type_synonym encoder = "mux_event \<Rightarrow> bytes option"

section \<open>Queueing for viewers\<close>

definition collapse_empty_shared :: "attachment \<Rightarrow> nat \<Rightarrow> attachment" where
  "collapse_empty_shared att waiters = (if waiters = 0 \<and> att = AttShared [] then AttNone else att)"

definition evict :: "relay \<Rightarrow> relay" where
  "evict r = r\<lparr>rl_evicted := True\<rparr>"

text \<open>
  The body of the loop for one viewer: whether the frame was queued, and the
  viewer after it.  The channel is unbounded, so a send fails only when the
  relay's thread has stopped receiving.
\<close>

definition try_queue :: "bytes \<Rightarrow> shared_client \<Rightarrow> bool \<times> shared_client" where
  "try_queue frame c =
     (let r = sc_relay c; r1 = r\<lparr>rl_queued := rl_queued r + length frame\<rparr>
      in if rl_receiving r then (True, c\<lparr>sc_relay := r1\<lparr>rl_frames := rl_frames r1 @ [frame]\<rparr>\<rparr>)
         else (False, c\<lparr>sc_relay := evict (r1\<lparr>rl_queued := rl_queued r1 - length frame\<rparr>)\<rparr>))"

definition queue_for_shared_clients :: "attachment \<Rightarrow> nat \<Rightarrow> bytes \<Rightarrow> bool \<times> attachment" where
  "queue_for_shared_clients att waiters frame =
     (case att of
        AttShared clients \<Rightarrow>
          let tried = map (try_queue frame) clients;
              failed = map (\<lambda>(_, c). sc_attachment c) (filter (\<lambda>(ok, _). \<not> ok) tried);
              clients' = map snd tried
          in if failed = [] then (False, AttShared clients')
             else (True, collapse_empty_shared
                     (AttShared (filter (\<lambda>c. sc_attachment c \<notin> set failed) clients')) waiters)
      | _ \<Rightarrow> (False, att))"

definition relay_output :: "encoder \<Rightarrow> 't mux_pane \<Rightarrow> bytes \<Rightarrow> bool \<times> 't mux_pane" where
  "relay_output enc p bs =
     (case pn_attachment p of
        AttShared _ \<Rightarrow>
          (case enc (EvOutput (pn_id p) (length bs)) of
             None \<Rightarrow> (False, p)
           | Some frame \<Rightarrow>
               (case queue_for_shared_clients (pn_attachment p) (pn_handover_waiters p) (frame @ bs) of
                  (dropped, att) \<Rightarrow> (dropped, p\<lparr>pn_attachment := att\<rparr>)))
      | _ \<Rightarrow> (False, p))"

subsection \<open>The relay thread\<close>

text \<open>
  \<open>recv_blocking\<close> takes a frame; the \<open>write_all\<close> that follows succeeds, or fails after some of the
  bytes of the frame have reached the socket.
\<close>

datatype relay_write = WroteAll | FailedAfter nat

definition relay_recv :: "relay \<Rightarrow> relay" where
  "relay_recv r =
     (if rl_receiving r \<and> rl_writing r = None then
        case rl_frames r of
          [] \<Rightarrow> r
        | f # fs \<Rightarrow> r\<lparr>rl_frames := fs, rl_writing := Some f\<rparr>
      else r)"

definition relay_wrote :: "relay_write \<Rightarrow> relay \<Rightarrow> bool \<times> relay" where
  "relay_wrote result r =
     (case rl_writing r of
        None \<Rightarrow> (False, r)
      | Some f \<Rightarrow>
          let before = rl_queued r; ok = (result = WroteAll);
              r0 = r\<lparr>rl_socket := rl_socket r @ (case result of WroteAll \<Rightarrow> f | FailedAfter k \<Rightarrow> take k f)\<rparr>;
              r1 = (if ok then r0\<lparr>rl_written := rl_written r0 + length f\<rparr> else r0);
              r2 = r1\<lparr>rl_queued := before - length f, rl_writing := None\<rparr>;
              wake = (RELAY_BACKPRESSURE_BYTES \<le> before \<and> before - length f < RELAY_BACKPRESSURE_BYTES)
          in (wake, if ok then r2 else r2\<lparr>rl_receiving := False, rl_frames := []\<rparr>))"

text \<open>How the stream of a relay that has ended is closed.\<close>

datatype relay_end = ShutdownBoth | ClosedThenShutdownWrite

definition relay_ending :: "bool \<Rightarrow> relay \<Rightarrow> relay_end" where
  "relay_ending failed r = (if failed \<or> rl_evicted r then ShutdownBoth else ClosedThenShutdownWrite)"

section \<open>Sizes\<close>

fun smallest_loop :: "(u16 \<times> u16) list \<Rightarrow> (u16 \<times> u16) option \<Rightarrow> (u16 \<times> u16) option" where
  "smallest_loop [] best = best"
| "smallest_loop ((columns, lines) # rest) best =
     smallest_loop rest
       (Some (case best of
          Some (best_columns, best_lines) \<Rightarrow> (min best_columns columns, min best_lines lines)
        | None \<Rightarrow> (columns, lines)))"

definition smallest_size :: "(u16 \<times> u16) list \<Rightarrow> terminal_size \<Rightarrow> u16 \<times> u16" where
  "smallest_size sizes fallback =
     (case smallest_loop sizes None of
        Some s \<Rightarrow> s | None \<Rightarrow> (ts_columns fallback, ts_lines fallback))"

definition effective_size :: "'t mux_pane \<Rightarrow> u16 \<times> u16" where
  "effective_size p =
     (case pn_attachment p of
        AttShared clients \<Rightarrow> smallest_size (List.map_filter sc_size clients) (pn_size p)
      | _ \<Rightarrow> (ts_columns (pn_size p), ts_lines (pn_size p)))"

definition should_broadcast_size :: "u16 \<times> u16 \<Rightarrow> u16 \<times> u16 \<Rightarrow> u16 \<times> u16 \<Rightarrow> bool" where
  "should_broadcast_size reported effective applied \<longleftrightarrow> effective \<noteq> applied \<or> reported \<noteq> effective"

definition apply_size :: "'t emulator \<Rightarrow> 't mux_pane \<Rightarrow> u16 \<Rightarrow> u16 \<Rightarrow> 't mux_pane" where
  "apply_size em p columns lines =
     p\<lparr>pn_pty := (pn_pty p)\<lparr>pty_winsize := Some (columns, lines)\<rparr>,
       pn_size := \<lparr>ts_columns = columns, ts_lines = lines, ts_cell_width = 0, ts_cell_height = 0\<rparr>,
       pn_retained := retained_resize em columns lines (pn_retained p)\<rparr>"

definition terminal_size_of :: "'t mux_pane \<Rightarrow> (u16 \<times> u16) option" where
  "terminal_size_of p =
     (case pty_winsize (pn_pty p) of
        Some (c, l) \<Rightarrow> if 0 < c \<and> 0 < l then Some (c, l) else None
      | None \<Rightarrow> None)"

definition seed_retained_screen_with_fallback :: "'t emulator \<Rightarrow> 't mux_pane \<Rightarrow> bytes \<Rightarrow> u16 \<times> u16 \<Rightarrow> 't mux_pane" where
  "seed_retained_screen_with_fallback em p snap fallback =
     (case (case terminal_size_of p of Some s \<Rightarrow> s | None \<Rightarrow> fallback) of
        (columns, lines) \<Rightarrow>
          p\<lparr>pn_size := (pn_size p)\<lparr>ts_columns := columns, ts_lines := lines\<rparr>,
            pn_retained := retained_seed em snap (retained_resize em columns lines (pn_retained p))\<rparr>)"

definition seed_retained_screen :: "'t emulator \<Rightarrow> 't mux_pane \<Rightarrow> bytes \<Rightarrow> 't mux_pane" where
  "seed_retained_screen em p snap =
     seed_retained_screen_with_fallback em p snap (ts_columns (pn_size p), ts_lines (pn_size p))"

definition snapshot_for_upgrade :: "'t emulator \<Rightarrow> 't mux_pane \<Rightarrow> (u16 \<times> u16 \<times> bytes) \<times> 't mux_pane" where
  "snapshot_for_upgrade em p =
     (case (case terminal_size_of p of Some s \<Rightarrow> s | None \<Rightarrow> (ts_columns (pn_size p), ts_lines (pn_size p))) of
        (columns, lines) \<Rightarrow>
          let p' = p\<lparr>pn_size := (pn_size p)\<lparr>ts_columns := columns, ts_lines := lines\<rparr>,
                     pn_retained := retained_resize em columns lines (pn_retained p)\<rparr>
          in ((columns, lines, retained_snapshot em (pn_retained p')), p'))"

definition record_handover_output :: "'t mux_pane \<Rightarrow> bytes \<Rightarrow> 't mux_pane" where
  "record_handover_output p chunk =
     (case pn_handed_over p of
        None \<Rightarrow> p
      | Some h \<Rightarrow>
          let out = rh_output h @ chunk;
              out' = (if HANDOVER_OUTPUT_LIMIT < length out
                      then drop (length out - HANDOVER_OUTPUT_LIMIT) out else out)
          in p\<lparr>pn_handed_over := Some (h\<lparr>rh_output := out'\<rparr>)\<rparr>)"

definition broadcast_size ::
  "encoder \<Rightarrow> u64 \<Rightarrow> u64 \<Rightarrow> u64 \<Rightarrow> attachment \<Rightarrow> nat \<Rightarrow> u16 \<Rightarrow> u16 \<Rightarrow> attachment" where
  "broadcast_size enc session_id pane_id revision att waiters columns lines =
     (case att of
        AttShared _ \<Rightarrow>
          (case enc (EvSize session_id pane_id revision columns lines) of
             Some frame \<Rightarrow> snd (queue_for_shared_clients att waiters frame)
           | None \<Rightarrow> att)
      | _ \<Rightarrow> att)"

definition exclusive_attachment :: "u32 \<Rightarrow> attachment" where
  "exclusive_attachment pid = (if pid = 0 then AttNone else AttExclusive pid)"

section \<open>Departures\<close>

text \<open>The client a lone viewer's grant is offered to.\<close>

definition offer_exclusive_if_alone :: "'t mux_pane \<Rightarrow> (client_id \<times> u32) option" where
  "offer_exclusive_if_alone p =
     (case pn_attachment p of
        AttShared [c] \<Rightarrow> if sc_stream_only c then None else Some (sc_client_id c, sc_process_id c)
      | _ \<Rightarrow> None)"

definition settle_shared_departure ::
  "'t emulator \<Rightarrow> encoder \<Rightarrow> u64 \<Rightarrow> u64 \<Rightarrow> 't mux_pane \<Rightarrow> bool \<Rightarrow> 't mux_pane \<times> (client_id \<times> u32) option" where
  "settle_shared_departure em enc session_id revision p removed =
     (case pn_attachment p of
        AttShared clients \<Rightarrow>
          if clients = [] \<and> pn_handover_waiters p = 0 then
            (p\<lparr>pn_attachment := AttNone, pn_attachment_client_id := None, pn_handed_over := None\<rparr>, None)
          else if removed then
            (case effective_size p of
               (columns, lines) \<Rightarrow>
                 let p1 = (if (columns, lines) \<noteq> (ts_columns (pn_size p), ts_lines (pn_size p)) then
                             let q = apply_size em p columns lines
                             in q\<lparr>pn_attachment := broadcast_size enc session_id (pn_id q) revision
                                    (pn_attachment q) (pn_handover_waiters q) columns lines\<rparr>
                           else p)
                 in (p1, offer_exclusive_if_alone p1))
          else (p, None)
      | _ \<Rightarrow> (p, None))"

definition finish_handover_waiter :: "'t mux_pane \<Rightarrow> bool \<Rightarrow> 't mux_pane" where
  "finish_handover_waiter p collapse =
     (let p1 = p\<lparr>pn_handover_waiters := pn_handover_waiters p - 1\<rparr>
      in if collapse \<and> pn_handover_waiters p1 = 0 \<and> pn_attachment p1 = AttShared [] then
           p1\<lparr>pn_attachment := AttNone, pn_attachment_client_id := None, pn_handed_over := None\<rparr>
         else p1)"

definition viewer_has_stalled :: "shared_client \<Rightarrow> nat \<Rightarrow> nat \<Rightarrow> bool \<times> shared_client" where
  "viewer_has_stalled c backlog now =
     (let written = rl_written (sc_relay c)
      in if written \<noteq> sc_written_seen c \<or> backlog = 0 then
           (False, c\<lparr>sc_written_seen := written, sc_wrote_at := now\<rparr>)
         else (RELAY_STALL_TIMEOUT \<le> now - sc_wrote_at c, c))"

text \<open>Whether the pane is held back, whether a viewer was evicted, and the pane.\<close>

definition relay_backpressure :: "nat \<Rightarrow> 't mux_pane \<Rightarrow> bool \<times> bool \<times> 't mux_pane" where
  "relay_backpressure now p =
     (case pn_attachment p of
        AttShared clients \<Rightarrow>
          let judged = map (\<lambda>c. viewer_has_stalled c (rl_queued (sc_relay c)) now) clients;
              stalled = map (\<lambda>(_, c). sc_attachment c) (filter fst judged);
              hold = list_ex (\<lambda>(s, c). \<not> s \<and> RELAY_BACKPRESSURE_BYTES \<le> rl_queued (sc_relay c)) judged;
              clients' = map snd judged
          in if stalled = [] then (hold, False, p\<lparr>pn_attachment := AttShared clients'\<rparr>)
             else (hold, True, p\<lparr>pn_attachment := collapse_empty_shared
                     (AttShared (filter (\<lambda>c. sc_attachment c \<notin> set stalled) clients'))
                     (pn_handover_waiters p)\<rparr>)
      | _ \<Rightarrow> (False, False, p))"

definition drain_reads :: "attachment \<Rightarrow> bool" where
  "drain_reads att = (case att of AttNone \<Rightarrow> True | AttShared _ \<Rightarrow> True | _ \<Rightarrow> False)"

definition exited_pane_is_unread :: "'t mux_pane \<Rightarrow> bool" where
  "exited_pane_is_unread p \<longleftrightarrow>
     pn_exited p \<and> (case pn_attachment p of AttNone \<Rightarrow> True | AttShared clients \<Rightarrow> clients = [] | _ \<Rightarrow> False)"

definition shared_viewer_count :: "attachment \<Rightarrow> nat" where
  "shared_viewer_count att = (case att of AttShared clients \<Rightarrow> length clients | _ \<Rightarrow> 0)"

definition pane_is_held_by :: "'t mux_pane \<Rightarrow> u32 \<Rightarrow> bool" where
  "pane_is_held_by p pid =
     (case pn_attachment p of
        AttExclusive h \<Rightarrow> h = pid
      | AttRevoking h \<Rightarrow> h = pid
      | AttGranting h \<Rightarrow> h = pid
      | AttShared clients \<Rightarrow> list_ex (\<lambda>c. sc_process_id c = pid) clients
      | AttNone \<Rightarrow> False)"

section \<open>Input\<close>

datatype write_result = Wrote nat | WriteInterrupted | WriteWouldBlock | WriteFailed

datatype input_flush = Progressed | Blocked

text \<open>
  The write loop: how much was written, or that the terminal is gone.  The
  answers to the writes come from a list; a list that ends first is \<open>None\<close>.
\<close>

fun flush_loop :: "write_result list \<Rightarrow> nat \<Rightarrow> nat \<Rightarrow> (bool \<times> nat) option" where
  "flush_loop [] written len = (if len \<le> written then Some (False, written) else None)"
| "flush_loop (answer # rest) written len =
     (if len \<le> written then Some (False, written)
      else case answer of
             Wrote n \<Rightarrow> if n = 0 then Some (False, written) else flush_loop rest (written + n) len
           | WriteInterrupted \<Rightarrow> flush_loop rest written len
           | WriteWouldBlock \<Rightarrow> Some (False, written)
           | WriteFailed \<Rightarrow> Some (True, written))"

definition flush_pending_input :: "write_result list \<Rightarrow> 't mux_pane \<Rightarrow> (input_flush \<times> 't mux_pane) option" where
  "flush_pending_input answers p =
     (let pending = pn_pending_input p
      in if pending = [] then Some (Progressed, p)
         else case flush_loop answers 0 (length pending) of
                None \<Rightarrow> None
              | Some (failed, written) \<Rightarrow>
                  let p1 = p\<lparr>pn_pty := (pn_pty p)\<lparr>pty_accepted := pty_accepted (pn_pty p) @ take written pending\<rparr>\<rparr>
                  in if failed then Some (Progressed, p1\<lparr>pn_pending_input := []\<rparr>)
                     else Some (if written = 0 then Blocked else Progressed,
                                p1\<lparr>pn_pending_input := drop written pending\<rparr>))"

section \<open>Exits\<close>

definition shared_input_sent :: "attachment \<Rightarrow> bool" where
  "shared_input_sent att = (case att of AttShared clients \<Rightarrow> list_ex sc_input_sent clients | _ \<Rightarrow> False)"

text \<open>
  \<open>pane_exit_status\<close> answers \<open>None\<close> while the child runs, and otherwise its
  status, which may be unavailable.
\<close>

definition observe_pane_exit ::
  "int option option \<Rightarrow> u64 \<Rightarrow> 't mux_pane \<Rightarrow> (u64 \<times> u64 \<times> int option \<times> bool) option \<times> 't mux_pane" where
  "observe_pane_exit status session_id p =
     (if pn_exited p then (None, p)
      else case status of
             None \<Rightarrow> (None, p)
           | Some raw_status \<Rightarrow>
               let p' = p\<lparr>pn_exited := True, pn_exit_status := raw_status\<rparr>
               in (Some (session_id, pn_id p', raw_status, shared_input_sent (pn_attachment p')), p'))"

section \<open>Lemmas on sizes\<close>

lemma smallest_loop_Some:
  "smallest_loop xs (Some (a, b)) =
   Some (Min (insert a (fst ` set xs)), Min (insert b (snd ` set xs)))"
proof (induction xs arbitrary: a b)
  case (Cons x xs)
  obtain c d where x: "x = (c, d)" by (cases x)
  have "Min (insert (min a c) F) = Min (insert a (insert c F))" if "finite F" for a c :: u16 and F
    using that by (cases "F = {}") (simp_all add: min.assoc)
  then show ?case using Cons.IH [of "min a c" "min b d"] by (simp add: x)
qed simp

lemma smallest_size_eq:
  "smallest_size xs fb =
     (if xs = [] then (ts_columns fb, ts_lines fb) else (Min (fst ` set xs), Min (snd ` set xs)))"
proof (cases xs)
  case (Cons x rest)
  then show ?thesis
    by (cases x) (simp add: smallest_size_def smallest_loop_Some)
qed (simp add: smallest_size_def)

lemma set_map_filter: "set (List.map_filter f xs) = {y. \<exists>x\<in>set xs. f x = Some y}"
  by (auto simp: List.map_filter_def image_iff) (metis option.sel)

lemma smallest_size_le:
  assumes "(c, l) \<in> set xs"
  shows "fst (smallest_size xs fb) \<le> c \<and> snd (smallest_size xs fb) \<le> l"
proof -
  have "xs \<noteq> []" "c \<in> fst ` set xs" "l \<in> snd ` set xs" using assms by force+
  then show ?thesis by (simp add: smallest_size_eq)
qed

lemma smallest_size_attained:
  assumes "xs \<noteq> []"
  shows "fst (smallest_size xs fb) \<in> fst ` set xs \<and> snd (smallest_size xs fb) \<in> snd ` set xs"
  using assms Min_in [of "fst ` set xs"] Min_in [of "snd ` set xs"] by (simp add: smallest_size_eq)

section \<open>Lemmas on relays\<close>

text \<open>
  What a viewer has been sent and will be sent, and the invariant of its
  counter while its thread receives.
\<close>

definition writing_bytes :: "relay \<Rightarrow> bytes" where
  "writing_bytes r = (case rl_writing r of Some f \<Rightarrow> f | None \<Rightarrow> [])"

definition relay_stream :: "relay \<Rightarrow> bytes" where
  "relay_stream r = rl_socket r @ writing_bytes r @ concat (rl_frames r)"

definition relay_ok :: "relay \<Rightarrow> bool" where
  "relay_ok r \<longleftrightarrow> (rl_receiving r \<longrightarrow> rl_queued r = length (writing_bytes r) + length (concat (rl_frames r)))"

lemma relay_flushed: "relay_ok r \<Longrightarrow> rl_receiving r \<Longrightarrow> rl_queued r = 0 \<Longrightarrow> relay_stream r = rl_socket r"
  by (auto simp: relay_ok_def relay_stream_def)

lemma try_queue_ok:
  "fst (try_queue f c) \<longleftrightarrow> rl_receiving (sc_relay c)"
  "rl_receiving (sc_relay c) \<Longrightarrow>
     relay_stream (sc_relay (snd (try_queue f c))) = relay_stream (sc_relay c) @ f \<and>
     (relay_ok (sc_relay c) \<longrightarrow> relay_ok (sc_relay (snd (try_queue f c)))) \<and>
     rl_receiving (sc_relay (snd (try_queue f c)))"
  by (auto simp: try_queue_def Let_def relay_stream_def relay_ok_def writing_bytes_def split: option.splits)

lemma try_queue_keeps [simp]:
  "sc_attachment (snd (try_queue f c)) = sc_attachment c"
  "sc_size (snd (try_queue f c)) = sc_size c"
  "sc_process_id (snd (try_queue f c)) = sc_process_id c"
  "sc_peer_process_id (snd (try_queue f c)) = sc_peer_process_id c"
  "sc_client_id (snd (try_queue f c)) = sc_client_id c"
  "sc_stream_only (snd (try_queue f c)) = sc_stream_only c"
  by (simp_all add: try_queue_def Let_def)

text \<open>With distinct attachments, exactly the viewers whose relay has ended are dropped.\<close>

lemma queue_for_shared_clients_eq:
  assumes "distinct (map sc_attachment clients)"
  shows "queue_for_shared_clients (AttShared clients) waiters frame =
    (let kept = map (snd \<circ> try_queue frame) (filter (rl_receiving \<circ> sc_relay) clients)
     in if \<forall>c\<in>set clients. rl_receiving (sc_relay c) then (False, AttShared kept)
        else (True, collapse_empty_shared (AttShared kept) waiters))"
proof -
  let ?tried = "map (try_queue frame) clients"
  let ?failed = "map (\<lambda>(_, c). sc_attachment c) (filter (\<lambda>(ok, _). \<not> ok) ?tried)"
  have failed: "set ?failed = sc_attachment ` {c \<in> set clients. \<not> rl_receiving (sc_relay c)}"
    by (auto simp: filter_map comp_def case_prod_unfold try_queue_ok(1))
  then have none: "?failed = [] \<longleftrightarrow> (\<forall>c\<in>set clients. rl_receiving (sc_relay c))"
    by (metis (mono_tags, lifting) Collect_empty_eq image_is_empty set_empty)
  have "sc_attachment c \<in> set ?failed \<longleftrightarrow> \<not> rl_receiving (sc_relay c)" if "c \<in> set clients" for c
    unfolding failed using that assms by (auto simp: distinct_map dest: inj_onD)
  then have "filter (\<lambda>c. sc_attachment c \<notin> set ?failed) (map snd ?tried) =
      map (snd \<circ> try_queue frame) (filter (rl_receiving \<circ> sc_relay) clients)"
    by (auto simp: filter_map comp_def cong: filter_cong)
  moreover have "map snd ?tried = map (snd \<circ> try_queue frame) (filter (rl_receiving \<circ> sc_relay) clients)"
    if "\<forall>c\<in>set clients. rl_receiving (sc_relay c)"
    using that by (simp add: comp_def)
  ultimately show ?thesis
    using none by (auto simp: queue_for_shared_clients_def Let_def)
qed

subsection \<open>Steps of a relay\<close>

datatype relay_act = QueueFrame bytes | RecvFrame | FrameWritten relay_write

fun relay_step :: "relay_act \<Rightarrow> relay \<Rightarrow> relay" where
  "relay_step (QueueFrame f) r =
     (if rl_receiving r then r\<lparr>rl_queued := rl_queued r + length f, rl_frames := rl_frames r @ [f]\<rparr> else r)"
| "relay_step RecvFrame r = relay_recv r"
| "relay_step (FrameWritten result) r = snd (relay_wrote result r)"

fun queued_bytes :: "relay_act list \<Rightarrow> bytes" where
  "queued_bytes [] = []"
| "queued_bytes (QueueFrame f # acts) = f @ queued_bytes acts"
| "queued_bytes (_ # acts) = queued_bytes acts"

lemma try_queue_relay_step:
  "rl_receiving (sc_relay c) \<Longrightarrow> sc_relay (snd (try_queue f c)) = relay_step (QueueFrame f) (sc_relay c)"
  by (simp add: try_queue_def Let_def)

lemma relay_step_ok: "relay_ok r \<Longrightarrow> relay_ok (relay_step a r)"
  by (cases a) (auto simp: relay_ok_def writing_bytes_def relay_recv_def relay_wrote_def Let_def
      split: option.splits list.splits)

lemma relay_step_written:
  "rl_receiving (relay_step a r) \<Longrightarrow>
   rl_written (relay_step a r) + length (rl_socket r) = rl_written r + length (rl_socket (relay_step a r))"
  by (cases a) (auto simp: relay_recv_def relay_wrote_def Let_def split: option.splits list.splits if_splits)

text \<open>What has reached the socket only grows, and never runs ahead of what was queued.\<close>

lemma relay_step_stream:
  "rl_receiving (relay_step a r) \<Longrightarrow>
   rl_receiving r \<and> relay_stream (relay_step a r) = relay_stream r @ queued_bytes [a]"
  by (cases a) (auto simp: relay_stream_def writing_bytes_def relay_recv_def relay_wrote_def Let_def
      split: option.splits list.splits if_splits)

text \<open>A relay whose thread has ended has no frame in hand.\<close>

definition relay_wf :: "relay \<Rightarrow> bool" where
  "relay_wf r \<longleftrightarrow> relay_ok r \<and> (rl_receiving r \<or> rl_writing r = None)"

lemma relay_step_wf: "relay_wf r \<Longrightarrow> relay_wf (relay_step a r)"
  unfolding relay_wf_def using relay_step_ok [of r a]
  by (cases a) (auto simp: relay_recv_def relay_wrote_def Let_def split: option.splits list.splits)

lemma relay_step_stopped:
  "\<not> rl_receiving r \<Longrightarrow> rl_writing r = None \<Longrightarrow> relay_step a r = r"
  by (cases a) (auto simp: relay_recv_def relay_wrote_def)

lemma relay_step_fails:
  "rl_receiving r \<Longrightarrow> \<not> rl_receiving (relay_step a r) \<Longrightarrow> prefix (rl_socket (relay_step a r)) (relay_stream r)"
  by (cases a) (auto simp: relay_recv_def relay_wrote_def relay_stream_def writing_bytes_def Let_def take_is_prefix
      prefix_append split: option.splits list.splits if_splits relay_write.splits)

definition relay_run :: "relay_act list \<Rightarrow> relay \<Rightarrow> relay" where
  "relay_run acts r = fold relay_step acts r"

lemma relay_run_Cons [simp]: "relay_run (a # acts) r = relay_run acts (relay_step a r)"
  by (simp add: relay_run_def)

lemma relay_run_Nil [simp]: "relay_run [] r = r"
  by (simp add: relay_run_def)

lemma relay_run_wf: "relay_wf r \<Longrightarrow> relay_wf (relay_run acts r)"
  by (induction acts arbitrary: r) (auto simp: relay_step_wf)

lemma relay_run_stopped:
  "\<not> rl_receiving r \<Longrightarrow> rl_writing r = None \<Longrightarrow> relay_run acts r = r"
  by (induction acts) (auto simp: relay_step_stopped)

lemma queued_bytes_Cons: "queued_bytes (a # acts) = queued_bytes [a] @ queued_bytes acts"
  by (cases a) auto

lemma relay_run_stream:
  "relay_wf r \<Longrightarrow> rl_receiving (relay_run acts r) \<Longrightarrow> relay_stream (relay_run acts r) = relay_stream r @ queued_bytes acts"
proof (induction acts arbitrary: r)
  case (Cons a acts)
  have wf: "relay_wf (relay_step a r)" by (rule relay_step_wf [OF Cons.prems(1)])
  have "rl_receiving (relay_step a r)"
    using Cons.prems(2) relay_run_stopped [of "relay_step a r" acts] wf
    by (cases "rl_receiving (relay_step a r)") (auto simp: relay_wf_def)
  then show ?case
    using Cons.IH [OF wf] Cons.prems(2) relay_step_stream [of a r] queued_bytes_Cons [of a acts] by simp
qed simp

lemma relay_run_written:
  "relay_wf r \<Longrightarrow> rl_receiving (relay_run acts r) \<Longrightarrow>
   rl_written (relay_run acts r) + length (rl_socket r) = rl_written r + length (rl_socket (relay_run acts r))"
proof (induction acts arbitrary: r)
  case (Cons a acts)
  have wf: "relay_wf (relay_step a r)" by (rule relay_step_wf [OF Cons.prems(1)])
  have "rl_receiving (relay_step a r)"
    using Cons.prems(2) relay_run_stopped [of "relay_step a r" acts] wf
    by (cases "rl_receiving (relay_step a r)") (auto simp: relay_wf_def)
  then show ?case using Cons.IH [OF wf] Cons.prems(2) relay_step_written [of a r] by simp
qed simp

lemma relay_run_prefix:
  "relay_wf r \<Longrightarrow> prefix (rl_socket (relay_run acts r)) (relay_stream r @ queued_bytes acts)"
proof (induction acts arbitrary: r)
  case Nil
  then show ?case by (simp add: relay_stream_def)
next
  case (Cons a acts)
  have wf: "relay_wf (relay_step a r)" by (rule relay_step_wf [OF Cons.prems])
  show ?case
  proof (cases "rl_receiving (relay_step a r)")
    case True
    then show ?thesis
      using Cons.IH [OF wf] relay_step_stream [of a r] queued_bytes_Cons [of a acts] by simp
  next
    case False
    then have "relay_run (a # acts) r = relay_step a r" using wf by (simp add: relay_run_stopped relay_wf_def)
    moreover have "prefix (rl_socket (relay_step a r)) (relay_stream r)"
      using False relay_step_fails [of r a] relay_step_stopped [of r a] Cons.prems
      by (cases "rl_receiving r") (auto simp: relay_wf_def relay_stream_def)
    ultimately show ?thesis by (simp add: prefix_append)
  qed
qed

section \<open>Lemmas on input\<close>

lemma flush_conserves:
  "flush_pending_input answers p = Some (res, p') \<Longrightarrow>
   (pty_accepted (pn_pty p') @ pn_pending_input p' = pty_accepted (pn_pty p) @ pn_pending_input p \<or>
    pn_pending_input p' = [] \<and> prefix (pty_accepted (pn_pty p')) (pty_accepted (pn_pty p) @ pn_pending_input p)) \<and>
   (res = Blocked \<longrightarrow> p' = p \<and> pn_pending_input p \<noteq> [])"
  by (auto simp: flush_pending_input_def Let_def take_is_prefix split: if_splits option.splits)

section \<open>Lemmas on departures\<close>

lemma apply_size_sel [simp]:
  "pn_attachment (apply_size em p c l) = pn_attachment p"
  "pn_id (apply_size em p c l) = pn_id p"
  "pn_handover_waiters (apply_size em p c l) = pn_handover_waiters p"
  "pn_size (apply_size em p c l) = \<lparr>ts_columns = c, ts_lines = l, ts_cell_width = 0, ts_cell_height = 0\<rparr>"
  "pty_winsize (pn_pty (apply_size em p c l)) = Some (c, l)"
  by (simp_all add: apply_size_def)

lemma map_filter_sizes [simp]:
  "List.map_filter sc_size (map (snd \<circ> try_queue f) cs) = List.map_filter sc_size cs"
  by (induction cs) (auto simp: List.map_filter_def)

lemma broadcast_all_receiving:
  assumes "distinct (map sc_attachment clients)" "\<forall>c\<in>set clients. rl_receiving (sc_relay c)"
    and "enc (EvSize sid pid rvn c l) = Some frame"
  shows "broadcast_size enc sid pid rvn (AttShared clients) waiters c l = AttShared (map (snd \<circ> try_queue frame) clients)"
  using assms by (simp add: broadcast_size_def queue_for_shared_clients_eq Let_def cong: filter_cong)

text \<open>The size a pane is applied at is the size arbitrated, once the sizes of its viewers are known.\<close>

definition sized :: "'t mux_pane \<Rightarrow> bool" where
  "sized p \<longleftrightarrow> (ts_columns (pn_size p), ts_lines (pn_size p)) = effective_size p"

lemma effective_after_apply:
  assumes "pn_attachment q = AttShared clients'" "List.map_filter sc_size clients' = List.map_filter sc_size clients"
    and "pn_attachment p = AttShared clients" "effective_size p = (c, l)"
    and "ts_columns (pn_size q) = c" "ts_lines (pn_size q) = l"
  shows "effective_size q = (c, l)"
  using assms by (cases "List.map_filter sc_size clients") (auto simp: effective_size_def smallest_size_eq)

lemma settle_removed:
  assumes att: "pn_attachment p = AttShared clients" "clients \<noteq> []" "distinct (map sc_attachment clients)"
    and receiving: "\<forall>c\<in>set clients. rl_receiving (sc_relay c)"
    and enc: "\<And>e. enc e \<noteq> None"
    and s: "settle_shared_departure em enc sid rvn p True = (p', offer)"
  shows "sized p' \<and> effective_size p' = effective_size p \<and>
    (\<exists>clients'. pn_attachment p' = AttShared clients' \<and> map sc_attachment clients' = map sc_attachment clients) \<and>
    offer = (case clients of [c] \<Rightarrow> if sc_stream_only c then None else Some (sc_client_id c, sc_process_id c) | _ \<Rightarrow> None)"
proof (cases "effective_size p = (ts_columns (pn_size p), ts_lines (pn_size p))")
  case True
  then show ?thesis
    using s att by (auto simp: settle_shared_departure_def sized_def offer_exclusive_if_alone_def split: list.splits)
next
  case False
  obtain c l where e: "effective_size p = (c, l)" by (cases "effective_size p")
  obtain frame where f: "enc (EvSize sid (pn_id p) rvn c l) = Some frame" using enc by blast
  let ?cs = "map (snd \<circ> try_queue frame) clients"
  let ?q = "(apply_size em p c l)\<lparr>pn_attachment := AttShared ?cs\<rparr>"
  have p': "p' = ?q" "offer = offer_exclusive_if_alone ?q"
    using s att False e broadcast_all_receiving [OF att(3) receiving, of enc sid "pn_id p" rvn c l frame] f
    by (auto simp: settle_shared_departure_def Let_def)
  have eff: "effective_size p' = (c, l)"
    by (rule effective_after_apply [OF _ _ att(1) e, of _ ?cs]) (simp_all add: p')
  have "map sc_attachment ?cs = map sc_attachment clients" by simp
  then show ?thesis
    using eff e att(2) by (auto simp: p' sized_def offer_exclusive_if_alone_def split: list.splits)
qed

subsection \<open>Handed-over output\<close>

definition last_bytes :: "nat \<Rightarrow> bytes \<Rightarrow> bytes" where
  "last_bytes n xs = drop (length xs - n) xs"

lemma last_bytes_append: "last_bytes n (last_bytes n xs @ ys) = last_bytes n (xs @ ys)"
proof (cases "length xs \<le> n")
  case False
  then have "length ys + (length xs - n) = length xs + length ys - n" by simp
  then show ?thesis using False by (simp add: last_bytes_def)
qed (simp add: last_bytes_def)

lemma record_handover_output_eq:
  "pn_handed_over p = Some h \<Longrightarrow>
   record_handover_output p chunk =
     p\<lparr>pn_handed_over := Some (h\<lparr>rh_output := last_bytes HANDOVER_OUTPUT_LIMIT (rh_output h @ chunk)\<rparr>)\<rparr>"
  by (auto simp: record_handover_output_def last_bytes_def Let_def)

lemma record_chunks:
  "pn_handed_over p = Some h \<Longrightarrow> length (rh_output h) \<le> HANDOVER_OUTPUT_LIMIT \<Longrightarrow>
   pn_handed_over (fold (\<lambda>c p. record_handover_output p c) chunks p) =
     Some (h\<lparr>rh_output := last_bytes HANDOVER_OUTPUT_LIMIT (rh_output h @ concat chunks)\<rparr>)"
proof (induction chunks arbitrary: p h)
  case Nil
  then show ?case by (simp add: last_bytes_def)
next
  case (Cons chunk chunks)
  let ?h = "h\<lparr>rh_output := last_bytes HANDOVER_OUTPUT_LIMIT (rh_output h @ chunk)\<rparr>"
  have "length (rh_output ?h) \<le> HANDOVER_OUTPUT_LIMIT" by (simp add: last_bytes_def)
  from Cons.IH [of "record_handover_output p chunk" ?h, OF _ this] Cons.prems(1)
  show ?case by (simp add: record_handover_output_eq last_bytes_append)
qed

subsection \<open>Stalls\<close>

text \<open>
  A viewer is not evicted while its relay wrote something since the last look, or
  has nothing to write, or has been behind for less than the timeout.
\<close>

definition keeps_up :: "nat \<Rightarrow> shared_client \<Rightarrow> bool" where
  "keeps_up now c \<longleftrightarrow> rl_written (sc_relay c) \<noteq> sc_written_seen c \<or> rl_queued (sc_relay c) = 0 \<or>
     now < sc_wrote_at c + RELAY_STALL_TIMEOUT"

lemma stalled_iff: "fst (viewer_has_stalled c (rl_queued (sc_relay c)) now) \<longleftrightarrow> \<not> keeps_up now c"
  by (auto simp: viewer_has_stalled_def keeps_up_def Let_def RELAY_STALL_TIMEOUT_def)

lemma viewer_has_stalled_sel [simp]:
  "sc_attachment (snd (viewer_has_stalled c b now)) = sc_attachment c"
  "sc_relay (snd (viewer_has_stalled c b now)) = sc_relay c"
  "sc_size (snd (viewer_has_stalled c b now)) = sc_size c"
  by (simp_all add: viewer_has_stalled_def Let_def)

lemma relay_backpressure_eq:
  assumes att: "pn_attachment p = AttShared clients" and d: "distinct (map sc_attachment clients)"
    and b: "relay_backpressure now p = (hold, evicted, p')"
  shows "(evicted \<longleftrightarrow> (\<exists>c\<in>set clients. \<not> keeps_up now c)) \<and>
    (hold \<longleftrightarrow> (\<exists>c\<in>set clients. keeps_up now c \<and> RELAY_BACKPRESSURE_BYTES \<le> rl_queued (sc_relay c))) \<and>
    (\<exists>clients'. map sc_attachment clients' = map sc_attachment (filter (keeps_up now) clients) \<and>
       pn_attachment p' = (if evicted then collapse_empty_shared (AttShared clients') (pn_handover_waiters p)
                           else AttShared clients')) \<and>
    pn_handed_over p' = pn_handed_over p"
proof -
  let ?judge = "\<lambda>c. viewer_has_stalled c (rl_queued (sc_relay c)) now"
  let ?judged = "map ?judge clients"
  let ?stalled = "map (\<lambda>(_, c). sc_attachment c) (filter fst ?judged)"
  have set: "set ?stalled = sc_attachment ` {c \<in> set clients. \<not> keeps_up now c}"
    by (auto simp: filter_map comp_def case_prod_unfold stalled_iff)
  have none: "?stalled = [] \<longleftrightarrow> (\<forall>c\<in>set clients. keeps_up now c)"
    using set by (metis (mono_tags, lifting) Collect_empty_eq image_is_empty set_empty)
  have "sc_attachment c \<in> set ?stalled \<longleftrightarrow> \<not> keeps_up now c" if "c \<in> set clients" for c
    unfolding set using that d by (auto simp: distinct_map dest: inj_onD)
  then have kept: "filter (\<lambda>c. sc_attachment c \<notin> set ?stalled) (map snd ?judged) =
      map (snd \<circ> ?judge) (filter (keeps_up now) clients)"
    by (auto simp: filter_map comp_def cong: filter_cong)
  have hold: "list_ex (\<lambda>(s, c). \<not> s \<and> RELAY_BACKPRESSURE_BYTES \<le> rl_queued (sc_relay c)) ?judged \<longleftrightarrow>
      (\<exists>c\<in>set clients. keeps_up now c \<and> RELAY_BACKPRESSURE_BYTES \<le> rl_queued (sc_relay c))"
    by (auto simp: list_ex_iff case_prod_unfold stalled_iff)
  let ?cs = "map (snd \<circ> ?judge) (filter (keeps_up now) clients)"
  have cs: "map sc_attachment ?cs = map sc_attachment (filter (keeps_up now) clients)" by simp
  have all: "map snd ?judged = ?cs" if "\<forall>c\<in>set clients. keeps_up now c" using that by (simp cong: filter_cong)
  let ?hold = "list_ex (\<lambda>(s, c). \<not> s \<and> RELAY_BACKPRESSURE_BYTES \<le> rl_queued (sc_relay c)) ?judged"
  have val: "relay_backpressure now p =
      (if ?stalled = [] then (?hold, False, p\<lparr>pn_attachment := AttShared (map snd ?judged)\<rparr>)
       else (?hold, True, p\<lparr>pn_attachment := collapse_empty_shared
          (AttShared (filter (\<lambda>c. sc_attachment c \<notin> set ?stalled) (map snd ?judged))) (pn_handover_waiters p)\<rparr>))"
    unfolding relay_backpressure_def att attachment.case Let_def by (rule refl)
  show ?thesis
  proof (cases "?stalled = []")
    case True
    have "(hold, evicted, p') = (?hold, False, p\<lparr>pn_attachment := AttShared ?cs\<rparr>)"
      using b unfolding val if_P [OF True] all [OF none [THEN iffD1, OF True]] by (rule sym)
    then show ?thesis using True none hold cs by auto
  next
    case False
    have "(hold, evicted, p') =
        (?hold, True, p\<lparr>pn_attachment := collapse_empty_shared (AttShared ?cs) (pn_handover_waiters p)\<rparr>)"
      using b unfolding val if_not_P [OF False] kept by (rule sym)
    then have "hold \<longleftrightarrow> ?hold" "evicted"
      and p': "p' = p\<lparr>pn_attachment := collapse_empty_shared (AttShared ?cs) (pn_handover_waiters p)\<rparr>"
      by simp_all
    then show ?thesis using False none hold by (intro conjI exI [of _ ?cs] cs) (auto simp: p')
  qed
qed

section \<open>Properties\<close>

definition sample_relay :: relay where
  "sample_relay = \<lparr>rl_frames = [], rl_writing = None, rl_socket = [], rl_receiving = True,
     rl_evicted = False, rl_queued = 0, rl_written = 0\<rparr>"

definition sample_client :: "u64 \<Rightarrow> (u16 \<times> u16) option \<Rightarrow> shared_client" where
  "sample_client i sz = \<lparr>sc_process_id = 10, sc_peer_process_id = Some 10, sc_client_id = ''c'',
     sc_attachment = i, sc_stream_only = False, sc_relaying_for = None, sc_relay = sample_relay,
     sc_written_seen = 0, sc_wrote_at = 0, sc_size = sz, sc_input_sent = False\<rparr>"

definition sample_pane :: "attachment \<Rightarrow> (u16 \<times> u16) \<Rightarrow> unit mux_pane" where
  "sample_pane att sz = \<lparr>pn_id = 1, pn_pty = \<lparr>pty_winsize = Some sz, pty_accepted = [], pty_child_pid = 100\<rparr>,
     pn_attachment = att, pn_attachment_client_id = None,
     pn_size = \<lparr>ts_columns = fst sz, ts_lines = snd sz, ts_cell_width = 0, ts_cell_height = 0\<rparr>,
     pn_retained = Discarded, pn_handed_over = None, pn_handover_waiters = 0, pn_exited = False,
     pn_exit_status = None, pn_pending_input = []\<rparr>"

definition sample_emulator :: "unit emulator" where
  "sample_emulator = \<lparr>em_new = \<lambda>_ _ _. (), em_advance = \<lambda>_ t. t, em_resize = \<lambda>_ _ t. t,
     em_columns = \<lambda>_. 80, em_lines = \<lambda>_. 24, em_snapshot = \<lambda>_ _. []\<rparr>"

text \<open>
  The size a shared pane is shown at fits every viewer that has been measured,
  on each axis it is some viewer's size, and while none has been measured it is the
  size the pane runs at.
\<close>

theorem effective_size_fits_every_viewer:
  assumes "pn_attachment p = AttShared clients" "effective_size p = (columns, lines)"
  shows "(\<forall>v\<in>set clients. \<forall>c l. sc_size v = Some (c, l) \<longrightarrow> columns \<le> c \<and> lines \<le> l) \<and>
    ((\<exists>v\<in>set clients. sc_size v \<noteq> None) \<longrightarrow>
       (\<exists>v\<in>set clients. \<exists>l. sc_size v = Some (columns, l)) \<and>
       (\<exists>v\<in>set clients. \<exists>c. sc_size v = Some (c, lines))) \<and>
    ((\<forall>v\<in>set clients. sc_size v = None) \<longrightarrow> (columns, lines) = (ts_columns (pn_size p), ts_lines (pn_size p)))"
proof -
  let ?sizes = "List.map_filter sc_size clients"
  have e: "smallest_size ?sizes (pn_size p) = (columns, lines)" using assms by (simp add: effective_size_def)
  have "columns \<le> c \<and> lines \<le> l" if "v \<in> set clients" "sc_size v = Some (c, l)" for v c l
    using smallest_size_le [of c l ?sizes "pn_size p"] that e by (auto simp: set_map_filter)
  moreover have "(\<exists>v\<in>set clients. \<exists>l. sc_size v = Some (columns, l)) \<and> (\<exists>v\<in>set clients. \<exists>c. sc_size v = Some (c, lines))"
    if "\<exists>v\<in>set clients. sc_size v \<noteq> None"
  proof -
    have "set ?sizes \<noteq> {}" using that unfolding set_map_filter by auto
    then have "?sizes \<noteq> []" by auto
    from smallest_size_attained [OF this, of "pn_size p"] e
    show ?thesis unfolding set_map_filter by fastforce
  qed
  moreover have "?sizes = []" if "\<forall>v\<in>set clients. sc_size v = None"
    using that set_map_filter [of sc_size clients] by auto
  ultimately show ?thesis using e by (auto simp: smallest_size_eq)
qed

theorem effective_size_fits_every_viewer_witness:
  "effective_size (sample_pane (AttShared [sample_client 1 (Some (120, 30)), sample_client 2 None,
      sample_client 3 (Some (90, 50))]) (80, 24)) = (90, 30) \<and> (90 :: u16) \<le> 120 \<and> (30 :: u16) \<le> 50"
proof -
  let ?p = "sample_pane (AttShared [sample_client 1 (Some (120, 30)), sample_client 2 None,
      sample_client 3 (Some (90, 50))]) (80, 24)"
  have e: "effective_size ?p = (90, 30)"
    by (simp add: effective_size_def sample_pane_def sample_client_def List.map_filter_def smallest_size_def min_def
        word_le_nat_alt)
  have "(90 :: u16) \<le> 120 \<and> (30 :: u16) \<le> 30"
    using effective_size_fits_every_viewer [OF _ e, of "[sample_client 1 (Some (120, 30)), sample_client 2 None,
      sample_client 3 (Some (90, 50))]"] by (simp add: sample_pane_def sample_client_def)
  then show ?thesis using e by (simp add: word_le_nat_alt)
qed

text \<open>
  C28.  A relay sends a viewer what was queued for it, in order, and its counters are exact.  What has
  reached its socket is always a prefix of it, also when a write fails half way.  While its thread receives, the bytes it counts as
  queued are exactly those that have not reached the socket yet, and the bytes it counts as written exactly those that have; so
  a counter of nothing queued, which the handing back of a pane waits for, means that all of it has been written.
\<close>

theorem relay_delivers_in_order:
  assumes "relay_wf r"
  shows "prefix (rl_socket (relay_run acts r)) (relay_stream r @ queued_bytes acts) \<and>
    (rl_receiving (relay_run acts r) \<longrightarrow>
       (\<exists>rest. rl_socket (relay_run acts r) @ rest = relay_stream r @ queued_bytes acts \<and>
          rl_queued (relay_run acts r) = length rest) \<and>
       rl_written (relay_run acts r) + length (rl_socket r) = rl_written r + length (rl_socket (relay_run acts r)))"
proof -
  let ?r = "relay_run acts r" and ?rest = "writing_bytes (relay_run acts r) @ concat (rl_frames (relay_run acts r))"
  have "rl_socket ?r @ ?rest = relay_stream r @ queued_bytes acts" "rl_queued ?r = length ?rest" if "rl_receiving ?r"
    using relay_run_stream [OF assms that] relay_run_wf [OF assms, of acts] that
    by (simp_all add: relay_stream_def relay_wf_def relay_ok_def)
  then show ?thesis using relay_run_prefix [OF assms, of acts] relay_run_written [OF assms, of acts] by blast
qed

theorem relay_delivers_in_order_witness:
  "rl_socket (relay_run [QueueFrame [1, 2], RecvFrame, QueueFrame [3, 4], FrameWritten WroteAll] sample_relay) = [1, 2] \<and>
   rl_queued (relay_run [QueueFrame [1, 2], RecvFrame, QueueFrame [3, 4], FrameWritten WroteAll] sample_relay) = 2 \<and>
   prefix (rl_socket (relay_run [QueueFrame [1, 2], RecvFrame, FrameWritten (FailedAfter 1)] sample_relay)) [1, 2]"
proof -
  let ?acts = "[QueueFrame [1, 2], RecvFrame, QueueFrame [3, 4], FrameWritten WroteAll]"
  have wf: "relay_wf sample_relay" by (simp add: relay_wf_def relay_ok_def sample_relay_def writing_bytes_def)
  have "rl_receiving (relay_run ?acts sample_relay)" "rl_socket (relay_run ?acts sample_relay) = [1, 2]"
    by (simp_all add: sample_relay_def relay_recv_def relay_wrote_def Let_def)
  moreover have "relay_stream sample_relay = []" by (simp add: relay_stream_def sample_relay_def writing_bytes_def)
  ultimately show ?thesis
    using relay_delivers_in_order [OF wf, of ?acts]
      relay_delivers_in_order [OF wf, of "[QueueFrame [1, 2], RecvFrame, FrameWritten (FailedAfter 1)]"] by auto
qed

text \<open>
  Output of a shared pane reaches every viewer: the viewers whose relay
  still receives stay, in their order, each with the frame and the output after everything
  it was sent before; exactly the others are dropped, the caller is told, and
  the pane is otherwise unchanged.
\<close>

theorem output_reaches_every_viewer:
  assumes att: "pn_attachment p = AttShared clients" and d: "distinct (map sc_attachment clients)"
    and enc: "enc (EvOutput (pn_id p) (length bs)) = Some frame"
  shows "\<exists>clients'. relay_output enc p bs =
      (\<exists>c\<in>set clients. \<not> rl_receiving (sc_relay c),
       p\<lparr>pn_attachment := (if \<forall>c\<in>set clients. rl_receiving (sc_relay c) then AttShared clients'
                           else collapse_empty_shared (AttShared clients') (pn_handover_waiters p))\<rparr>) \<and>
    map sc_attachment clients' = map sc_attachment (filter (rl_receiving \<circ> sc_relay) clients) \<and>
    map (relay_stream \<circ> sc_relay) clients' =
      map (\<lambda>c. relay_stream (sc_relay c) @ frame @ bs) (filter (rl_receiving \<circ> sc_relay) clients)"
proof -
  let ?cs = "map (snd \<circ> try_queue (frame @ bs)) (filter (rl_receiving \<circ> sc_relay) clients)"
  have "relay_output enc p bs =
      (\<exists>c\<in>set clients. \<not> rl_receiving (sc_relay c),
       p\<lparr>pn_attachment := (if \<forall>c\<in>set clients. rl_receiving (sc_relay c) then AttShared ?cs
                           else collapse_empty_shared (AttShared ?cs) (pn_handover_waiters p))\<rparr>)"
    by (simp add: relay_output_def att enc queue_for_shared_clients_eq [OF d] Let_def)
  then show ?thesis
    by (intro exI [of _ ?cs]) (auto simp: try_queue_ok(2))
qed

theorem output_reaches_every_viewer_witness:
  "\<exists>c1 c2. relay_output (\<lambda>e. Some [9]) (sample_pane (AttShared [sample_client 1 None, sample_client 2 None]) (80, 24)) [5] =
      (False, sample_pane (AttShared [c1, c2]) (80, 24)) \<and>
    relay_stream (sc_relay c1) = [9, 5] \<and> relay_stream (sc_relay c2) = [9, 5]"
proof -
  let ?cs = "[sample_client 1 None, sample_client 2 None]"
  let ?p = "sample_pane (AttShared ?cs) (80, 24)"
  have 1: "pn_attachment ?p = AttShared ?cs" "distinct (map sc_attachment ?cs)"
    "(\<lambda>e. Some [9]) (EvOutput (pn_id ?p) (length [5 :: u8])) = Some [9]"
    by (simp_all add: sample_pane_def sample_client_def)
  have rec: "filter (rl_receiving \<circ> sc_relay) ?cs = ?cs" "\<forall>c\<in>set ?cs. rl_receiving (sc_relay c)"
    "relay_stream sample_relay = []"
    by (simp_all add: sample_client_def sample_relay_def relay_stream_def writing_bytes_def)
  from output_reaches_every_viewer [of ?p ?cs "\<lambda>e. Some [9]" "[5]" "[9]", OF 1(1,2)] rec obtain cs where
    cs: "relay_output (\<lambda>e. Some [9]) ?p [5] = (False, ?p\<lparr>pn_attachment := AttShared cs\<rparr>)"
      "map (relay_stream \<circ> sc_relay) cs = map (\<lambda>c. relay_stream (sc_relay c) @ [9] @ [5]) ?cs"
    by auto
  then obtain c1 c2 where "cs = [c1, c2]" by (cases cs; cases "tl cs"; cases "tl (tl cs)") auto
  then show ?thesis using cs rec(3) by (auto simp: sample_pane_def sample_client_def)
qed

text \<open>
  What a client that is handing its pane over misses is kept, within a
  bound: after any output it is the last mebibyte of everything printed since.
\<close>

theorem handover_output_is_bounded_suffix:
  assumes "pn_handed_over p = Some h" "length (rh_output h) \<le> HANDOVER_OUTPUT_LIMIT"
  shows "\<exists>h'. pn_handed_over (fold (\<lambda>c p. record_handover_output p c) chunks p) = Some h' \<and>
    rh_client_process_id h' = rh_client_process_id h \<and>
    rh_output h' = drop (length (rh_output h @ concat chunks) - HANDOVER_OUTPUT_LIMIT) (rh_output h @ concat chunks) \<and>
    length (rh_output h') \<le> HANDOVER_OUTPUT_LIMIT"
  using record_chunks [OF assms, of chunks] by (simp add: last_bytes_def)

theorem handover_output_is_bounded_suffix_witness:
  "\<exists>h'. pn_handed_over (fold (\<lambda>c p. record_handover_output p c) [[1], [2, 3]]
      ((sample_pane AttNone (80, 24))\<lparr>pn_handed_over := Some \<lparr>rh_client_process_id = 4, rh_output = []\<rparr>\<rparr>)) = Some h' \<and>
    rh_output h' = [1, 2, 3]"
  using handover_output_is_bounded_suffix [of "(sample_pane AttNone (80, 24))\<lparr>pn_handed_over :=
      Some \<lparr>rh_client_process_id = 4, rh_output = []\<rparr>\<rparr>" "\<lparr>rh_client_process_id = 4, rh_output = []\<rparr>" "[[1], [2, 3]]"]
  by (auto simp: HANDOVER_OUTPUT_LIMIT_def)

text \<open>
  A departure is settled: when viewers remain and all of them still
  receive, the pane then runs at the size arbitrated among them, they stay, and the pane is
  offered to a viewer that is alone and not remote.
\<close>

theorem departure_is_settled:
  assumes "pn_attachment p = AttShared clients" "clients \<noteq> []" "distinct (map sc_attachment clients)"
    and "\<forall>c\<in>set clients. rl_receiving (sc_relay c)"
    and "\<And>e. enc e \<noteq> None"
    and "settle_shared_departure em enc session_id revision p True = (p', offer)"
  shows "(ts_columns (pn_size p'), ts_lines (pn_size p')) = effective_size p \<and>
    effective_size p' = effective_size p \<and>
    (\<exists>clients'. pn_attachment p' = AttShared clients' \<and> map sc_attachment clients' = map sc_attachment clients) \<and>
    offer = (case clients of [c] \<Rightarrow> if sc_stream_only c then None else Some (sc_client_id c, sc_process_id c) | _ \<Rightarrow> None)"
  using settle_removed [OF assms] by (simp add: sized_def)

theorem departure_is_settled_witness:
  "\<exists>p' offer. settle_shared_departure sample_emulator (\<lambda>e. Some []) 7 1
      (sample_pane (AttShared [sample_client 1 (Some (120, 30))]) (80, 24)) True = (p', offer) \<and>
    (ts_columns (pn_size p'), ts_lines (pn_size p')) = (120, 30) \<and> offer = Some (''c'', 10)"
proof -
  let ?cs = "[sample_client 1 (Some (120, 30))]"
  let ?p = "sample_pane (AttShared ?cs) (80, 24)"
  obtain p' offer where s: "settle_shared_departure sample_emulator (\<lambda>e. Some []) 7 1 ?p True = (p', offer)"
    by (cases "settle_shared_departure sample_emulator (\<lambda>e. Some []) 7 1 ?p True")
  have e: "effective_size ?p = (120, 30)"
    by (simp add: effective_size_def sample_pane_def sample_client_def List.map_filter_def smallest_size_def)
  have "pn_attachment ?p = AttShared ?cs" by (simp add: sample_pane_def)
  from departure_is_settled [OF this _ _ _ _ s] e show ?thesis
    using s by (simp add: sample_client_def sample_relay_def)
qed

text \<open>
  A viewer that is dropped while the new size is announced leaves the
  pane at a size nobody remaining asked for: the one viewer left asked for a
  larger pane, and settling the departure of the dropped one, when its own stream
  ends, finds nothing removed and changes nothing.
\<close>

theorem size_broadcast_keeps_departed_size:
  "\<exists>p p' q. pn_attachment p = AttShared [sample_client 1 (Some (100, 40)),
       (sample_client 2 (Some (80, 24)))\<lparr>sc_relay := sample_relay\<lparr>rl_receiving := False\<rparr>\<rparr>] \<and>
     settle_shared_departure sample_emulator (\<lambda>e. Some []) 7 1 p True = (p', Some (''c'', 10)) \<and>
     (ts_columns (pn_size p'), ts_lines (pn_size p')) = (80, 24) \<and> effective_size p' = (100, 40) \<and>
     settle_shared_departure sample_emulator (\<lambda>e. Some []) 7 1 p' False = (p', None)"
proof -
  let ?p = "sample_pane (AttShared [sample_client 1 (Some (100, 40)),
       (sample_client 2 (Some (80, 24)))\<lparr>sc_relay := sample_relay\<lparr>rl_receiving := False\<rparr>\<rparr>]) (60, 20)"
  let ?c = "(sample_client 1 (Some (100, 40)))\<lparr>sc_relay := sample_relay\<lparr>rl_frames := [[]]\<rparr>\<rparr>"
  let ?p' = "(apply_size sample_emulator ?p 80 24)\<lparr>pn_attachment := AttShared [?c]\<rparr>"
  have "settle_shared_departure sample_emulator (\<lambda>e. Some []) 7 1 ?p True = (?p', Some (''c'', 10))"
    by (simp add: settle_shared_departure_def effective_size_def sample_pane_def sample_client_def sample_relay_def
        List.map_filter_def smallest_size_def min_def word_le_nat_alt broadcast_size_def queue_for_shared_clients_def
        Let_def try_queue_def collapse_empty_shared_def apply_size_def offer_exclusive_if_alone_def evict_def
        retained_resize_def)
  moreover have "effective_size ?p' = (100, 40)"
    by (simp add: effective_size_def sample_client_def List.map_filter_def smallest_size_def)
  moreover have "settle_shared_departure sample_emulator (\<lambda>e. Some []) 7 1 ?p' False = (?p', None)"
    by (simp add: settle_shared_departure_def)
  moreover have "pn_attachment ?p = AttShared [sample_client 1 (Some (100, 40)),
       (sample_client 2 (Some (80, 24)))\<lparr>sc_relay := sample_relay\<lparr>rl_receiving := False\<rparr>\<rparr>]"
    by (simp add: sample_pane_def)
  ultimately show ?thesis by (intro exI [of _ ?p] exI [of _ ?p']) simp
qed

text \<open>
  A viewer that keeps up is never dropped by the drain, one that does not is
  always dropped, and the pane is held back exactly when a viewer that stays is
  behind by the threshold.
\<close>

theorem only_stalled_viewers_are_evicted:
  assumes "pn_attachment p = AttShared clients" "distinct (map sc_attachment clients)"
    and "relay_backpressure now p = (hold, evicted, p')"
  shows "(evicted \<longleftrightarrow> (\<exists>c\<in>set clients. \<not> keeps_up now c)) \<and>
    (hold \<longleftrightarrow> (\<exists>c\<in>set clients. keeps_up now c \<and> RELAY_BACKPRESSURE_BYTES \<le> rl_queued (sc_relay c))) \<and>
    (\<exists>clients'. map sc_attachment clients' = map sc_attachment (filter (keeps_up now) clients) \<and>
       pn_attachment p' = (if evicted then collapse_empty_shared (AttShared clients') (pn_handover_waiters p)
                           else AttShared clients'))"
  using relay_backpressure_eq [OF assms] by blast

theorem only_stalled_viewers_are_evicted_witness:
  "\<exists>hold p'. relay_backpressure 40000 (sample_pane (AttShared [sample_client 1 None]) (80, 24)) = (hold, False, p')"
proof -
  let ?p = "sample_pane (AttShared [sample_client 1 None]) (80, 24)"
  obtain hold evicted p' where b: "relay_backpressure 40000 ?p = (hold, evicted, p')"
    by (cases "relay_backpressure 40000 ?p")
  have "keeps_up 40000 (sample_client 1 None)" by (simp add: keeps_up_def sample_client_def sample_relay_def)
  with only_stalled_viewers_are_evicted [OF _ _ b, of "[sample_client 1 None]"]
  have "\<not> evicted" by (simp add: sample_pane_def)
  then show ?thesis using b by auto
qed

text \<open>
  Evicting the last viewer leaves the handover it belonged to behind: the pane
  is unheld, but the record of the client that handed it over, which every other way
  of emptying the shared set clears, stays, and settling the departure does
  not clear it.
\<close>

theorem eviction_keeps_stale_handover:
  assumes "pn_attachment p = AttShared [c]" "\<not> keeps_up now c" "pn_handover_waiters p = 0"
    and "pn_handed_over p = Some h"
    and "relay_backpressure now p = (hold, evicted, p')"
  shows "pn_attachment p' = AttNone \<and> pn_handed_over p' = Some h \<and>
    settle_shared_departure em enc session_id revision p' True = (p', None) \<and>
    pn_handed_over (fst (settle_shared_departure em enc session_id revision
      (p\<lparr>pn_attachment := AttShared []\<rparr>) True)) = None"
proof -
  have "distinct (map sc_attachment [c])" by simp
  from relay_backpressure_eq [OF assms(1) this assms(5)] assms
  have "evicted" "pn_attachment p' = AttNone" "pn_handed_over p' = Some h"
    by (auto simp: collapse_empty_shared_def)
  then show ?thesis using assms(3) by (simp add: settle_shared_departure_def)
qed

theorem eviction_keeps_stale_handover_witness:
  "\<exists>hold evicted p'. relay_backpressure 30000 ((sample_pane (AttShared [(sample_client 1 None)
        \<lparr>sc_relay := sample_relay\<lparr>rl_queued := 5\<rparr>\<rparr>]) (80, 24))\<lparr>pn_handed_over :=
        Some \<lparr>rh_client_process_id = 4, rh_output = []\<rparr>\<rparr>) = (hold, evicted, p') \<and>
    pn_attachment p' = AttNone \<and> pn_handed_over p' = Some \<lparr>rh_client_process_id = 4, rh_output = []\<rparr>"
proof -
  let ?c = "(sample_client 1 None)\<lparr>sc_relay := sample_relay\<lparr>rl_queued := 5\<rparr>\<rparr>"
  let ?p = "(sample_pane (AttShared [?c]) (80, 24))\<lparr>pn_handed_over := Some \<lparr>rh_client_process_id = 4, rh_output = []\<rparr>\<rparr>"
  obtain hold evicted p' where b: "relay_backpressure 30000 ?p = (hold, evicted, p')"
    by (cases "relay_backpressure 30000 ?p")
  have "\<not> keeps_up 30000 ?c"
    by (simp add: keeps_up_def sample_client_def sample_relay_def RELAY_STALL_TIMEOUT_def)
  from eviction_keeps_stale_handover [OF _ this _ _ b, of "\<lparr>rh_client_process_id = 4, rh_output = []\<rparr>"]
  show ?thesis using b by (auto simp: sample_pane_def)
qed

text \<open>
  Input queued for a pane is not lost: what the terminal has accepted and
  what is still queued are what was accepted and queued before, unless the
  terminal is gone, and a flush that reports no progress changed nothing.
\<close>

theorem queued_input_is_kept:
  assumes "flush_pending_input answers p = Some (res, p')"
  shows "(pty_accepted (pn_pty p') @ pn_pending_input p' = pty_accepted (pn_pty p) @ pn_pending_input p \<or>
      pn_pending_input p' = [] \<and> prefix (pty_accepted (pn_pty p')) (pty_accepted (pn_pty p) @ pn_pending_input p)) \<and>
    (res = Blocked \<longrightarrow> p' = p \<and> pn_pending_input p \<noteq> [])"
  by (rule flush_conserves [OF assms])

theorem queued_input_is_kept_witness:
  "\<exists>p'. flush_pending_input [Wrote 2, WriteWouldBlock] ((sample_pane AttNone (80, 24))\<lparr>pn_pending_input := [1, 2, 3]\<rparr>)
      = Some (Progressed, p') \<and> pty_accepted (pn_pty p') @ pn_pending_input p' = [1, 2, 3]"
proof -
  let ?p = "(sample_pane AttNone (80, 24))\<lparr>pn_pending_input := [1, 2, 3]\<rparr>"
  obtain p' where f: "flush_pending_input [Wrote 2, WriteWouldBlock] ?p = Some (Progressed, p')" "pn_pending_input p' = [3]"
    by (simp add: flush_pending_input_def sample_pane_def Let_def)
  from queued_input_is_kept [OF f(1)] f show ?thesis by (simp add: sample_pane_def)
qed

end
