(* ===== verification/Mux_Session.thy ===== *)
theory Mux_Session
  imports Mux_Pane Decimal
begin

text \<open>
  A session of the multiplexer daemon: its panes, who may see and control it,
  the summary the daemon rebuilds from its live panes, and the requests that
  edit a shared session (\<open>crates/zmux/src/server.rs\<close>,
  \<open>server/lifecycle.rs\<close>, \<open>server/sealing.rs\<close>).

  A handler runs under the sessions lock and returns its answer and the daemon
  after it; what it sends besides is a list of effects, oldest first.  An answer
  that is an error is \<open>Inl\<close>, whether it is returned or sent; a panic is
  \<open>None\<close>.
\<close>

section \<open>State\<close>

text \<open>A verifier is compared by identity (\<open>Arc::ptr_eq\<close>), so it carries one.\<close>

record authentication =
  au_identity :: nat
  au_verifier :: string

record ('t, 'j) session =
  se_id :: u64
  se_summary :: bg_summary
  se_state :: 'j
  se_shared_state :: "'j shared_state option"
  se_authentication :: "authentication option"
  se_key_envelope :: "string option"
  se_failed_authentications :: u32
  se_refuse_until :: "nat option"
  se_panes :: "'t mux_pane list"
  se_keep :: bool
  se_offered :: bool
  se_owner :: "u32 option"
  se_sealed_to :: "string list option"

datatype mux_error =
    NoSuchSession u64
  | NoSuchPane u64 u64
  | NoPanes u64
  | PaneEnded u64 u64
  | NotOffered u64
  | NotAuthorized u64
  | OutOfScope u64 u32
  | NotShownByClient u64
  | StillOpenIn nat
  | OnScreen u64
  | NoWindowToScopeTo u64
  | BadVerifier
  | NoLivePanes u64
  | SharedError shared_error
  | UnknownDraft u64
  | PaneTwice
  | DraftNotPlaced
  | PaneNotHeld
  | ActiveNotPlaced
  | TabNotDaemonPanes
  | NotAShare u64
  | NotThisViewer u64
  | NotSharedStream u64
  | HandoverTimedOut u64
  | NotAlone u64
  | NotConfirmed u32
  | StreamOnlyTake
  | NotDrained u64
  | NotHeldExclusively u64
  | HeldByAnother u64
  | NewerAttachment u64
  | NotShowingExclusively u64
  | StaleSizeReport u64
  | SendFailed
  | RelayNotStarted
  | NotShared u64
  | EmptyBatch
  | DuplicateDrafts
  | HeadlessExisting
  | HeadlessIncomplete
  | NoProgram
  | NoProfile string
  | NoSize
  | NotStarted u64

datatype 'j mux_response =
    RespOk
  | RespDetached
  | RespAuthenticationRequired
  | RespAuthenticationFailed
  | RespOperationApplied "'j shared_state"
  | RespConflict "'j shared_state"
  | RespSnapshot "'j shared_state"
  | RespBatch "'j shared_state" "draft_mapping list"
  | RespCreated u64 "'j shared_state"
  | RespAttached u64 bytes 'j bg_summary
  | RespSharedAttached u64 bytes 'j bg_summary u16 u16

datatype 'j effect =
    NotifyWaiters
  | PublishCatalog
  | WakeDrain
  | SendClient client_id u32 mux_event
  | SendProcess u32 mux_event
  | BroadcastUpdated "'j shared_state"
  | BroadcastPanes u64 "u64 list" "u64 list" "'j shared_state"
  | BroadcastPanesExcept client_id u64 "u64 list" "u64 list" "'j shared_state"
  | BroadcastExited u64 u64 "int option" bool

text \<open>The recipients each vouched-for client last configured.\<close>

record grants =
  gr_startup :: "string list option"
  gr_by_process :: "(u32 \<times> string list) list"

record ('t, 'j) daemon =
  dm_sessions :: "('t, 'j) session list"
  dm_effects :: "'j effect list"
  dm_grants :: grants
  dm_next_verifier :: nat
  dm_next_attachment :: u64

text \<open>What the daemon asks of the outside: the emulator, the framing, running processes, the verifier policy.\<close>

record 't mux_env =
  ev_emulator :: "'t emulator"
  ev_encode :: encoder
  ev_running :: "u32 \<Rightarrow> bool"
  ev_accepts :: "string \<Rightarrow> bool"
  ev_retention :: retention

fun replace_first :: "('a \<Rightarrow> bool) \<Rightarrow> 'a \<Rightarrow> 'a list \<Rightarrow> 'a list" where
  "replace_first P y [] = []"
| "replace_first P y (x # xs) = (if P x then y # xs else x # replace_first P y xs)"

definition find_session :: "('t, 'j) daemon \<Rightarrow> u64 \<Rightarrow> ('t, 'j) session option" where
  "find_session d i = find (\<lambda>s. se_id s = i) (dm_sessions d)"

definition find_pane :: "('t, 'j) session \<Rightarrow> u64 \<Rightarrow> 't mux_pane option" where
  "find_pane s i = find (\<lambda>p. pn_id p = i) (se_panes s)"

definition put_session :: "('t, 'j) daemon \<Rightarrow> ('t, 'j) session \<Rightarrow> ('t, 'j) daemon" where
  "put_session d s = d\<lparr>dm_sessions := replace_first (\<lambda>x. se_id x = se_id s) s (dm_sessions d)\<rparr>"

definition put_pane :: "('t, 'j) session \<Rightarrow> 't mux_pane \<Rightarrow> ('t, 'j) session" where
  "put_pane s p = s\<lparr>se_panes := replace_first (\<lambda>x. pn_id x = pn_id p) p (se_panes s)\<rparr>"

definition emit_effects :: "('t, 'j) daemon \<Rightarrow> 'j effect list \<Rightarrow> ('t, 'j) daemon" where
  "emit_effects d es = d\<lparr>dm_effects := dm_effects d @ es\<rparr>"

section \<open>Who may see and control a session\<close>

definition is_held :: "('t, 'j) session \<Rightarrow> bool" where
  "is_held s = list_ex (\<lambda>p. case pn_attachment p of AttExclusive _ \<Rightarrow> True | _ \<Rightarrow> False) (se_panes s)"

definition is_available :: "('t, 'j) session \<Rightarrow> bool" where
  "is_available s \<longleftrightarrow> (se_keep s \<or> se_offered s) \<and> list_ex (\<lambda>p. \<not> pn_exited p) (se_panes s) \<and>
     (se_offered s \<or> \<not> is_held s)"

definition is_in_scope_for :: "('t, 'j) session \<Rightarrow> u32 option \<Rightarrow> bool" where
  "is_in_scope_for s client \<longleftrightarrow>
     se_offered s \<or> (case se_owner s of None \<Rightarrow> True | Some owner \<Rightarrow> Some owner = client)"

definition session_is_held_by :: "('t, 'j) session \<Rightarrow> u32 \<Rightarrow> bool" where
  "session_is_held_by s pid = list_ex (\<lambda>p. pane_is_held_by p pid) (se_panes s)"

definition session_identity_authorized :: "('t, 'j) session \<Rightarrow> u32 option \<Rightarrow> bool" where
  "session_identity_authorized s peer =
     (case peer of None \<Rightarrow> False | Some pid \<Rightarrow> se_owner s = Some pid \<or> session_is_held_by s pid)"

text \<open>A secret proof is the identities of the verifiers a secret was checked against.\<close>

type_synonym secret_proof = "nat list"

definition proof_authorizes :: "secret_proof \<Rightarrow> authentication \<Rightarrow> bool" where
  "proof_authorizes proofs a \<longleftrightarrow> au_identity a \<in> set proofs"

definition session_control_authorized :: "('t, 'j) session \<Rightarrow> u32 option \<Rightarrow> secret_proof \<Rightarrow> bool" where
  "session_control_authorized s peer proofs =
     (case se_authentication s of
        None \<Rightarrow> True
      | Some a \<Rightarrow> session_identity_authorized s peer \<or> proof_authorizes proofs a)"

definition control_process_id :: "u32 \<Rightarrow> u32 option \<Rightarrow> u32" where
  "control_process_id claimed peer = (case peer of Some p \<Rightarrow> p | None \<Rightarrow> claimed)"

definition verified_process_id :: "u32 \<Rightarrow> u32 option \<Rightarrow> u32 option" where
  "verified_process_id claimed peer = Option.bind peer (\<lambda>p. if p = claimed then Some p else None)"

definition stranded_session_may_be_offered :: "(u32 \<Rightarrow> bool) \<Rightarrow> ('t, 'j) session \<Rightarrow> bool \<Rightarrow> bool \<Rightarrow> bool" where
  "stranded_session_may_be_offered running s shared replaces_verifier \<longleftrightarrow>
     shared \<and> \<not> replaces_verifier \<and> \<not> (case se_owner s of Some owner \<Rightarrow> running owner | None \<Rightarrow> False)"

subsection \<open>Seals\<close>

definition configured_by :: "grants \<Rightarrow> u32 \<Rightarrow> string list option" where
  "configured_by g pid = map_option snd (find (\<lambda>(p, _). p = pid) (gr_by_process g))"

definition seal_recipients :: "grants \<Rightarrow> u32 option \<Rightarrow> u32 option \<Rightarrow> string list option" where
  "seal_recipients g peer owner =
     (let configured = or_else (Option.bind peer (configured_by g)) (Option.bind owner (configured_by g));
          nonempty = Option.bind configured (\<lambda>r. if r = [] then None else Some r)
      in or_else nonempty (gr_startup g))"

definition pin_protected :: "(u32 \<Rightarrow> bool) \<Rightarrow> ('t, 'j) daemon \<Rightarrow> ('t, 'j) session \<Rightarrow> u32 option \<Rightarrow>
    ('t, 'j) daemon \<times> ('t, 'j) session" where
  "pin_protected running d s peer =
     (if se_authentication s = None then (d, s)
      else
        let g = (dm_grants d)\<lparr>gr_by_process := filter (\<lambda>(p, _). running p) (gr_by_process (dm_grants d))\<rparr>
        in (d\<lparr>dm_grants := g\<rparr>,
            case seal_recipients g peer (se_owner s) of
              Some r \<Rightarrow> s\<lparr>se_sealed_to := Some r\<rparr> | None \<Rightarrow> s))"

text \<open>Storing a verifier that came with a request: a new identity, no failures counted against it.\<close>

definition protect_session :: "'t mux_env \<Rightarrow> ('t, 'j) daemon \<Rightarrow> ('t, 'j) session \<Rightarrow> string \<Rightarrow> string option \<Rightarrow>
    u32 option \<Rightarrow> mux_error + (('t, 'j) daemon \<times> ('t, 'j) session)" where
  "protect_session ev d s verifier envelope peer =
     (if \<not> ev_accepts ev verifier then Inl BadVerifier
      else
        let a = \<lparr>au_identity = dm_next_verifier d, au_verifier = verifier\<rparr>;
            s1 = s\<lparr>se_authentication := Some a, se_key_envelope := envelope,
                   se_failed_authentications := 0, se_refuse_until := None\<rparr>
        in Inr (pin_protected (ev_running ev) (d\<lparr>dm_next_verifier := dm_next_verifier d + 1\<rparr>) s1 peer))"

section \<open>The summary of the live panes\<close>

text \<open>\<open>filter(|pane| live.contains(..) && included.insert(..))\<close>.\<close>

fun take_included :: "u64 set \<Rightarrow> bg_pane list \<Rightarrow> u64 set \<Rightarrow> bg_pane list \<times> u64 set" where
  "take_included live [] included = ([], included)"
| "take_included live (p # ps) included =
     (if bp_id p \<in> live \<and> bp_id p \<notin> included then
        case take_included live ps (insert (bp_id p) included) of (qs, inc) \<Rightarrow> (p # qs, inc)
      else take_included live ps included)"

definition unpublished_pane_summary :: "'t mux_pane \<Rightarrow> bg_pane" where
  "unpublished_pane_summary p =
     \<lparr>bp_id = pn_id p, bp_label = ''pane-'' @ map char_of (show_nat (unat (pn_id p))),
      bp_profile = [], bp_configured_command = [], bp_application = [],
      bp_foreground_command = None, bp_terminal_title = None, bp_working_directory = None,
      bp_state = (if pn_exited p then BgExited else BgRunning), bp_exit = None\<rparr>"

fun add_unpublished :: "'t mux_pane list \<Rightarrow> u64 set \<Rightarrow> bg_pane list" where
  "add_unpublished [] included = []"
| "add_unpublished (p # ps) included =
     (if pn_id p \<notin> included then
        unpublished_pane_summary p # add_unpublished ps (insert (pn_id p) included)
      else add_unpublished ps included)"

fun retain_daemon_panes_in_layout :: "bg_layout \<Rightarrow> u64 set \<Rightarrow> u64 set \<Rightarrow> bg_layout option \<times> u64 set" where
  "retain_daemon_panes_in_layout (BgPane i) live seen =
     (if i \<in> live \<and> i \<notin> seen then (Some (BgPane i), insert i seen) else (None, seen))"
| "retain_daemon_panes_in_layout (BgSplit ax r f s) live seen =
     (case retain_daemon_panes_in_layout f live seen of
        (f', seen1) \<Rightarrow>
          (case retain_daemon_panes_in_layout s live seen1 of
             (s', seen2) \<Rightarrow>
               (case (f', s') of
                  (Some a, Some b) \<Rightarrow> Some (BgSplit ax r a b)
                | (Some l, None) \<Rightarrow> Some l
                | (None, Some l) \<Rightarrow> Some l
                | (None, None) \<Rightarrow> None, seen2)))"

fun count_live_layout_panes :: "bg_layout \<Rightarrow> u64 set \<Rightarrow> u64 set \<Rightarrow> u64 set" where
  "count_live_layout_panes (BgPane i) live seen = (if i \<in> live then insert i seen else seen)"
| "count_live_layout_panes (BgSplit _ _ f s) live seen =
     count_live_layout_panes s live (count_live_layout_panes f live seen)"

definition live_layout_coverage :: "bg_layout \<Rightarrow> u64 set \<Rightarrow> nat" where
  "live_layout_coverage l live = card (count_live_layout_panes l live {})"

text \<open>The loop that places panes the layout has no leaf for.\<close>

fun place_missing :: "bg_pane list \<Rightarrow> u64 set \<Rightarrow> bg_layout option \<Rightarrow> bg_layout option" where
  "place_missing [] laid_out layout = layout"
| "place_missing (p # ps) laid_out layout =
     (if bp_id p \<in> laid_out then place_missing ps laid_out layout
      else place_missing ps (insert (bp_id p) laid_out)
             (Some (case layout of
                Some l \<Rightarrow> BgSplit ''horizontal'' DEFAULT_BACKGROUND_PANE_SPLIT_RATIO l (BgPane (bp_id p))
              | None \<Rightarrow> BgPane (bp_id p))))"

definition live_pane_ids :: "('t, 'j) session \<Rightarrow> u64 list" where
  "live_pane_ids s = map pn_id (filter (\<lambda>p. \<not> pn_exited p) (se_panes s))"

text \<open>\<open>None\<close> stands for the panic of \<open>expect\<close>.\<close>

definition summary_from_daemon_panes ::
  "('t, 'j) session \<Rightarrow> 'j shared_state \<Rightarrow> (mux_error + bg_summary) option" where
  "summary_from_daemon_panes s previous =
     (let live = set (live_pane_ids s); su = se_summary s; pr = ss_presentation previous
      in if live = {} then Some (Inl (NoLivePanes (se_id s)))
         else
           case take_included live (bs_panes su) {} of
             (panes1, included1) \<Rightarrow>
           case take_included live (bs_panes (ss_summary previous)) included1 of
             (panes2, included2) \<Rightarrow>
           let panes = panes1 @ panes2 @ add_unpublished (filter (\<lambda>p. \<not> pn_exited p) (se_panes s)) included2;
               source = (if live_layout_coverage (bs_layout su) live < live_layout_coverage (pr_layout pr) live
                         then pr_layout pr else bs_layout su)
           in case retain_daemon_panes_in_layout source live {} of
                (kept, laid_out) \<Rightarrow>
              case place_missing panes laid_out kept of
                None \<Rightarrow> None
              | Some layout \<Rightarrow>
                  let active = (if bs_active_pane su \<in> live then bs_active_pane su
                                else if pr_active_pane pr \<in> live then pr_active_pane pr
                                else first_layout_pane layout)
                  in Some (Inr (su\<lparr>bs_id := se_id s, bs_active_pane := active, bs_layout := layout,
                                   bs_panes := panes\<rparr>)))"

definition summary_matches_daemon_panes :: "bg_summary \<Rightarrow> ('t, 'j) session \<Rightarrow> bool" where
  "summary_matches_daemon_panes su s \<longleftrightarrow> sort (map bp_id (bs_panes su)) = sort (live_pane_ids s)"

definition shared_state_or_new :: "('t, 'j) session \<Rightarrow> 'j shared_state" where
  "shared_state_or_new s =
     (case se_shared_state s of
        Some st \<Rightarrow> st | None \<Rightarrow> new_shared_state (se_id s) (se_summary s) (se_state s))"

definition catalog_summary :: "('t, 'j) session \<Rightarrow> bg_summary option" where
  "catalog_summary s =
     map_option (\<lambda>r.
        (case r of Inl _ \<Rightarrow> se_summary s | Inr su \<Rightarrow> su)
        \<lparr>bs_held := is_held s, bs_key_envelope := se_key_envelope s,
         bs_scoped_to := (if se_offered s then None else se_owner s)\<rparr>)
       (summary_from_daemon_panes s (shared_state_or_new s))"

text \<open>
  The answer, the session and what is broadcast.  An error after the summary was
  rebuilt leaves the rebuilt summary in place.
\<close>

definition normalize_shared_state ::
  "('t, 'j) session \<Rightarrow> ((mux_error + 'j shared_state) \<times> ('t, 'j) session \<times> 'j effect list) option" where
  "normalize_shared_state s =
     (case migrate (shared_state_or_new s) of
        Inl e \<Rightarrow> Some (Inl (SharedError e), s, [])
      | Inr st \<Rightarrow>
          (case summary_from_daemon_panes s st of
             None \<Rightarrow> None
           | Some (Inl e) \<Rightarrow> Some (Inl e, s, [])
           | Some (Inr live) \<Rightarrow>
               let catalog_changed = (se_summary s \<noteq> live);
                   s1 = s\<lparr>se_summary := live\<rparr>;
                   summary_changed = (ss_summary st \<noteq> live)
               in case normalize_state (st\<lparr>ss_summary := live\<rparr>) of
                    Inl e \<Rightarrow> Some (Inl (SharedError e), s1, [])
                  | Inr (st1, presentation_changed) \<Rightarrow>
                      let repaired = (se_shared_state s \<noteq> None \<and>
                            (catalog_changed \<or> summary_changed \<or> presentation_changed));
                          st2 = (if repaired then st1\<lparr>ss_revision := next_revision (ss_revision st1)\<rparr> else st1)
                      in Some (Inr st2, s1\<lparr>se_shared_state := Some st2\<rparr>,
                               if repaired then [BroadcastUpdated st2] else [])))"

section \<open>What the rebuilt summary holds\<close>

lemma take_included_ids:
  "take_included live ps inc = (qs, inc') \<Longrightarrow>
     distinct (map bp_id qs) \<and> bp_id ` set qs = bp_id ` set ps \<inter> live - inc \<and> inc' = inc \<union> bp_id ` set qs"
proof (induction ps arbitrary: inc qs inc')
  case (Cons p ps)
  show ?case
  proof (cases "bp_id p \<in> live \<and> bp_id p \<notin> inc")
    case True
    then obtain qs0 where "take_included live ps (insert (bp_id p) inc) = (qs0, inc')" "qs = p # qs0"
      using Cons.prems by (auto split: prod.splits)
    with Cons.IH [OF this(1)] True show ?thesis by auto
  next
    case False
    with Cons.prems Cons.IH [of inc qs inc'] show ?thesis by auto
  qed
qed auto

lemma take_included_all:
  "distinct (map bp_id ps) \<Longrightarrow> bp_id ` set ps \<subseteq> live - inc \<Longrightarrow>
   take_included live ps inc = (ps, inc \<union> bp_id ` set ps)"
proof (induction ps arbitrary: inc)
  case (Cons p ps)
  have "bp_id p \<notin> bp_id ` set ps" using Cons.prems(1) by simp
  with Cons.prems have "take_included live ps (insert (bp_id p) inc) = (ps, insert (bp_id p) inc \<union> bp_id ` set ps)"
    by (intro Cons.IH) (simp_all, blast)
  with Cons.prems show ?case by auto
qed simp

lemma take_included_none: "live \<subseteq> inc \<Longrightarrow> take_included live ps inc = ([], inc)"
  by (induction ps) auto

lemma unpublished_id [simp]: "bp_id (unpublished_pane_summary p) = pn_id p"
  by (simp add: unpublished_pane_summary_def)

lemma add_unpublished_ids:
  "distinct (map bp_id (add_unpublished ps inc)) \<and>
   bp_id ` set (add_unpublished ps inc) = pn_id ` set ps - inc"
  by (induction ps inc rule: add_unpublished.induct) (auto 4 3 simp: image_iff)

lemma add_unpublished_none: "pn_id ` set ps \<subseteq> inc \<Longrightarrow> add_unpublished ps inc = []"
  by (induction ps) auto

definition kept_ids :: "bg_layout option \<Rightarrow> u64 list" where
  "kept_ids l = (case l of None \<Rightarrow> [] | Some l \<Rightarrow> bg_ids l)"

lemma kept_ids_simps [simp]: "kept_ids None = []" "kept_ids (Some l) = bg_ids l"
  by (simp_all add: kept_ids_def)

lemma kept_ids_Nil [simp]: "kept_ids l = [] \<longleftrightarrow> l = None"
  by (cases l) simp_all

lemma retain_ids:
  "retain_daemon_panes_in_layout l live seen = (r, seen') \<Longrightarrow>
     distinct (kept_ids r) \<and> set (kept_ids r) = set (bg_ids l) \<inter> live - seen \<and>
     seen' = seen \<union> set (kept_ids r)"
proof (induction l arbitrary: seen r seen')
  case (BgSplit ax w f s)
  obtain f' seen1 where f: "retain_daemon_panes_in_layout f live seen = (f', seen1)" by fastforce
  obtain s' seen2 where s: "retain_daemon_panes_in_layout s live seen1 = (s', seen2)" by fastforce
  have "kept_ids r = kept_ids f' @ kept_ids s'" "seen' = seen2"
    using BgSplit.prems f s by (auto split: option.splits)
  then show ?case using BgSplit.IH(1) [OF f] BgSplit.IH(2) [OF s] by auto
qed (auto split: if_splits)

lemma retain_ok:
  "retain_daemon_panes_in_layout l live seen = (Some r, seen') \<Longrightarrow> bg_ok l \<Longrightarrow> bg_ok r"
  by (induction l arbitrary: seen r seen') (auto split: prod.splits option.splits if_splits)

lemma retain_all:
  "distinct (bg_ids l) \<Longrightarrow> set (bg_ids l) \<subseteq> live - seen \<Longrightarrow>
   retain_daemon_panes_in_layout l live seen = (Some l, seen \<union> set (bg_ids l))"
proof (induction l arbitrary: seen)
  case (BgSplit ax w f s)
  have "retain_daemon_panes_in_layout f live seen = (Some f, seen \<union> set (bg_ids f))"
    using BgSplit.prems by (intro BgSplit.IH) auto
  moreover have "retain_daemon_panes_in_layout s live (seen \<union> set (bg_ids f)) =
      (Some s, seen \<union> set (bg_ids f) \<union> set (bg_ids s))"
    using BgSplit.prems by (intro BgSplit.IH) auto
  ultimately show ?case by (simp add: Un_assoc)
qed auto

lemma count_live_eq: "count_live_layout_panes l live seen = seen \<union> (set (bg_ids l) \<inter> live)"
  by (induction l arbitrary: seen) auto

lemma coverage_eq: "live_layout_coverage l live = card (set (bg_ids l) \<inter> live)"
  by (simp add: live_layout_coverage_def count_live_eq)

lemma coverage_le: "live_layout_coverage l (set xs) \<le> card (set xs)"
  unfolding coverage_eq by (simp add: card_mono)

lemma place_missing_ids:
  "distinct (map bp_id ps) \<Longrightarrow> laid = set (kept_ids l) \<Longrightarrow> distinct (kept_ids l) \<Longrightarrow>
   distinct (kept_ids (place_missing ps laid l)) \<and>
   set (kept_ids (place_missing ps laid l)) = set (kept_ids l) \<union> bp_id ` set ps"
proof (induction ps laid l rule: place_missing.induct)
  case (2 p ps laid l)
  show ?case
  proof (cases "bp_id p \<in> laid")
    case False
    let ?l = "Some (case l of Some l \<Rightarrow> BgSplit ''horizontal'' DEFAULT_BACKGROUND_PANE_SPLIT_RATIO l (BgPane (bp_id p))
              | None \<Rightarrow> BgPane (bp_id p))"
    have "kept_ids ?l = kept_ids l @ [bp_id p]" by (cases l) simp_all
    with 2(2) [OF False] 2(3-5) False show ?thesis by auto
  qed (use 2 in auto)
qed simp

lemma place_missing_ok:
  "(\<And>x. l = Some x \<Longrightarrow> bg_ok x) \<Longrightarrow> place_missing ps laid l = Some r \<Longrightarrow> bg_ok r"
  by (induction ps laid l rule: place_missing.induct)
     (auto simp: DEFAULT_BACKGROUND_PANE_SPLIT_RATIO_def BACKGROUND_PANE_SPLIT_RATIO_SCALE_def word_less_nat_alt
       split: if_splits option.splits)

lemma place_missing_none: "bp_id ` set ps \<subseteq> laid \<Longrightarrow> place_missing ps laid l = l"
  by (induction ps laid l rule: place_missing.induct) auto

text \<open>
  A session as the daemon keeps it: pane identifiers are positive and unique,
  and the layouts it holds are well formed.
\<close>

definition session_ok :: "('t, 'j) session \<Rightarrow> bool" where
  "session_ok s \<longleftrightarrow> distinct (map pn_id (se_panes s)) \<and> 0 \<notin> pn_id ` set (se_panes s) \<and>
     bg_ok (bs_layout (se_summary s)) \<and>
     (\<forall>st \<in> set_option (se_shared_state s).
        ss_version st \<in> {1, SHARED_SESSION_STATE_VERSION} \<and> ss_session_id st = se_id s \<and>
        bg_ok (pr_layout (ss_presentation st)) \<and> bg_ok (bs_layout (ss_summary st)))"

text \<open>
  What is left of it when a client has published a layout of its own: \<open>share\<close> and \<open>detach\<close>
  store the summary of a request as it is, so nothing is known of the layouts.
\<close>

definition session_sound :: "('t, 'j) session \<Rightarrow> bool" where
  "session_sound s \<longleftrightarrow> distinct (map pn_id (se_panes s)) \<and> 0 \<notin> pn_id ` set (se_panes s) \<and>
     (\<forall>st \<in> set_option (se_shared_state s).
        ss_version st \<in> {1, SHARED_SESSION_STATE_VERSION} \<and> ss_session_id st = se_id s)"

lemma session_ok_sound [simp, intro]: "session_ok s \<Longrightarrow> session_sound s"
  by (simp add: session_ok_def session_sound_def)

lemma live_ids_distinct: "session_sound s \<Longrightarrow> distinct (live_pane_ids s)"
  by (simp add: session_sound_def live_pane_ids_def distinct_map_filter)

lemma live_ids_nonzero: "session_sound s \<Longrightarrow> 0 \<notin> set (live_pane_ids s)"
  by (auto simp: session_sound_def live_pane_ids_def)

text \<open>A summary that shows exactly the live panes.\<close>

definition shows_live :: "('t, 'j) session \<Rightarrow> bg_summary \<Rightarrow> bool" where
  "shows_live s su \<longleftrightarrow> summary_ok su \<and> bs_id su = se_id s \<and> set (pane_id_list su) = set (live_pane_ids s) \<and>
     bs_active_pane su \<in> set (live_pane_ids s)"

lemma summary_panes_ids:
  assumes "take_included live ps {} = (panes1, inc1)" "take_included live qs inc1 = (panes2, inc2)"
    "live = pn_id ` set ds"
  shows "distinct (map bp_id (panes1 @ panes2 @ add_unpublished ds inc2)) \<and>
    bp_id ` set (panes1 @ panes2 @ add_unpublished ds inc2) = live"
  using take_included_ids [OF assms(1)] take_included_ids [OF assms(2)] add_unpublished_ids [of ds inc2] assms(3)
  by (auto simp: image_Un)

lemma summary_from_daemon_panes_total:
  assumes ok: "session_sound s" and live: "live_pane_ids s \<noteq> []"
  obtains su where "summary_from_daemon_panes s st = Some (Inr su)" "bs_title su = bs_title (se_summary s)"
    "bg_ok (bs_layout su) \<Longrightarrow> shows_live s su"
    "bg_ok (bs_layout (se_summary s)) \<Longrightarrow> bg_ok (pr_layout (ss_presentation st)) \<Longrightarrow> bg_ok (bs_layout su)"
proof -
  let ?live = "set (live_pane_ids s)" and ?su = "se_summary s" and ?pr = "ss_presentation st"
  let ?ds = "filter (\<lambda>p. \<not> pn_exited p) (se_panes s)"
  obtain panes1 inc1 where 1: "take_included ?live (bs_panes ?su) {} = (panes1, inc1)" by fastforce
  obtain panes2 inc2 where 2: "take_included ?live (bs_panes (ss_summary st)) inc1 = (panes2, inc2)" by fastforce
  define panes where "panes = panes1 @ panes2 @ add_unpublished ?ds inc2"
  have panes: "distinct (map bp_id panes)" "bp_id ` set panes = ?live"
    using summary_panes_ids [OF 1 2, of ?ds] unfolding panes_def by (simp_all add: live_pane_ids_def)
  define source where "source = (if live_layout_coverage (bs_layout ?su) ?live < live_layout_coverage (pr_layout ?pr) ?live
      then pr_layout ?pr else bs_layout ?su)"
  obtain kept laid where 3: "retain_daemon_panes_in_layout source ?live {} = (kept, laid)" by fastforce
  note kept = retain_ids [OF 3]
  have place: "distinct (kept_ids (place_missing panes laid kept))"
    "set (kept_ids (place_missing panes laid kept)) = ?live"
    using place_missing_ids [OF panes(1), of laid kept] kept panes(2) by auto
  then obtain layout where 4: "place_missing panes laid kept = Some layout"
    using live by (cases "place_missing panes laid kept") auto
  have lay: "distinct (bg_ids layout)" "set (bg_ids layout) = ?live" using place 4 by auto
  define su where "su = ?su\<lparr>bs_id := se_id s, bs_active_pane := (if bs_active_pane ?su \<in> ?live then bs_active_pane ?su
      else if pr_active_pane ?pr \<in> ?live then pr_active_pane ?pr else first_layout_pane layout),
      bs_layout := layout, bs_panes := panes\<rparr>"
  have "summary_from_daemon_panes s st = Some (Inr su)"
    using live 1 2 3 4
    by (simp add: summary_from_daemon_panes_def Let_def su_def panes_def [symmetric] source_def [symmetric])
  moreover have "mset (bg_ids layout) = mset (map bp_id panes)"
    using lay panes by (simp add: set_eq_iff_mset_eq_distinct [symmetric] del: mset_map)
  then have "bg_ok (bs_layout su) \<Longrightarrow> shows_live s su"
    using panes lay live_ids_nonzero [OF ok] first_layout_pane_in [of layout]
    by (simp add: shows_live_def summary_ok_def pane_id_list_def su_def del: mset_map)
  moreover have "bg_ok (bs_layout su)" if "bg_ok (bs_layout ?su)" "bg_ok (pr_layout ?pr)"
  proof -
    have "bg_ok source" using that by (simp add: source_def)
    then show ?thesis using place_missing_ok [OF _ 4] retain_ok [of source ?live "{}" _ laid] 3 by (auto simp: su_def)
  qed
  ultimately show ?thesis using that by (simp add: su_def)
qed

lemma summary_from_daemon_panes_shows_live:
  assumes ok: "session_ok s" and live: "live_pane_ids s \<noteq> []" and pl: "bg_ok (pr_layout (ss_presentation st))"
  obtains su where "summary_from_daemon_panes s st = Some (Inr su)" "shows_live s su"
    "bs_title su = bs_title (se_summary s)"
proof -
  obtain su where su: "summary_from_daemon_panes s st = Some (Inr su)" "bs_title su = bs_title (se_summary s)"
    "bg_ok (bs_layout su) \<Longrightarrow> shows_live s su"
    "bg_ok (bs_layout (se_summary s)) \<Longrightarrow> bg_ok (pr_layout (ss_presentation st)) \<Longrightarrow> bg_ok (bs_layout su)"
    using summary_from_daemon_panes_total [OF session_ok_sound [OF ok] live, of st] by blast
  then show ?thesis using that pl ok by (simp add: session_ok_def)
qed

lemma summary_from_daemon_panes_same:
  assumes ok: "shows_live s (se_summary s)"
  shows "summary_from_daemon_panes s st = Some (Inr (se_summary s))"
proof -
  let ?live = "set (live_pane_ids s)" and ?su = "se_summary s"
  have ids: "distinct (map bp_id (bs_panes ?su))" "bp_id ` set (bs_panes ?su) = ?live"
    and lay: "distinct (bg_ids (bs_layout ?su))" "set (bg_ids (bs_layout ?su)) = ?live"
    using ok mset_eq_setD [of "bg_ids (bs_layout ?su)" "pane_id_list ?su"]
      mset_eq_imp_distinct_iff [of "bg_ids (bs_layout ?su)" "pane_id_list ?su"]
    unfolding shows_live_def summary_ok_def by (simp_all add: pane_id_list_def)
  have live: "?live \<noteq> {}" using lay(2) bg_ids_not_Nil [of "bs_layout ?su"] by (metis set_empty)
  have 1: "take_included ?live (bs_panes ?su) {} = (bs_panes ?su, ?live)"
    using take_included_all [of "bs_panes ?su" ?live "{}"] ids by simp
  have ds: "add_unpublished (filter (\<lambda>p. \<not> pn_exited p) (se_panes s)) ?live = []"
    by (rule add_unpublished_none) (auto simp: live_pane_ids_def)
  have cov: "\<not> live_layout_coverage (bs_layout ?su) ?live < live_layout_coverage (pr_layout (ss_presentation st)) ?live"
    using coverage_le [of "pr_layout (ss_presentation st)" "live_pane_ids s"] lay(2) by (simp add: coverage_eq)
  have 3: "retain_daemon_panes_in_layout (bs_layout ?su) ?live {} = (Some (bs_layout ?su), ?live)"
    using retain_all [of "bs_layout ?su" ?live "{}"] lay by simp
  have 4: "place_missing (bs_panes ?su) ?live l = l" for l
    by (rule place_missing_none) (simp add: ids)
  have "?su\<lparr>bs_id := se_id s, bs_active_pane := bs_active_pane ?su, bs_layout := bs_layout ?su,
      bs_panes := bs_panes ?su\<rparr> = ?su"
    using ok by (cases ?su) (simp add: shows_live_def)
  then show ?thesis
    using live ok unfolding summary_from_daemon_panes_def Let_def
    by (simp add: 1 take_included_none ds cov 3 4 shows_live_def)
qed

lemma summary_matches_iff:
  "session_sound s \<Longrightarrow> summary_ok su \<Longrightarrow>
   summary_matches_daemon_panes su s \<longleftrightarrow> set (pane_id_list su) = set (live_pane_ids s)"
  using live_ids_distinct [of s]
  by (simp add: summary_matches_daemon_panes_def sort_eq_iff pane_id_list_def [symmetric] summary_ok_def
      set_eq_iff_mset_eq_distinct)

section \<open>Repairing the shared state\<close>

lemma migrate_ok:
  assumes "ss_version st \<in> {1, SHARED_SESSION_STATE_VERSION}"
    "bg_ok (pr_layout (ss_presentation st))" "bg_ok (bs_layout (ss_summary st))"
  obtains st' where "migrate st = Inr st'" "bg_ok (pr_layout (ss_presentation st'))"
    "ss_version st' = SHARED_SESSION_STATE_VERSION" "ss_session_id st' = ss_session_id st"
  using assms that by (auto simp: migrate_def SHARED_SESSION_STATE_VERSION_def)

lemma shared_state_or_new_ok:
  assumes "session_ok s"
  shows "ss_version (shared_state_or_new s) \<in> {1, SHARED_SESSION_STATE_VERSION} \<and>
    ss_session_id (shared_state_or_new s) = se_id s \<and>
    bg_ok (pr_layout (ss_presentation (shared_state_or_new s))) \<and> bg_ok (bs_layout (ss_summary (shared_state_or_new s)))"
  using assms by (auto simp: session_ok_def shared_state_or_new_def new_shared_state_def split: option.splits)

text \<open>
  A session in which nothing is left to repair: the canonical state satisfies
  its invariant, is the published one and shows exactly the live panes.
\<close>

definition settled :: "('t, 'j) session \<Rightarrow> 'j shared_state \<Rightarrow> bool" where
  "settled s st \<longleftrightarrow> session_ok s \<and> se_shared_state s = Some st \<and> shared_ok st \<and>
     ss_version st = SHARED_SESSION_STATE_VERSION \<and> ss_summary st = se_summary s \<and> shows_live s (se_summary s)"

text \<open>Sessions that differ at most in what the repair of the shared state writes.\<close>

definition repaired_from :: "('t, 'j) session \<Rightarrow> ('t, 'j) session \<Rightarrow> bool" where
  "repaired_from s s' \<longleftrightarrow> s' = s\<lparr>se_summary := se_summary s', se_shared_state := se_shared_state s'\<rparr>"

lemma repaired_from_live:
  assumes "repaired_from s s'"
  shows "live_pane_ids s' = live_pane_ids s \<and> se_panes s' = se_panes s \<and> se_id s' = se_id s \<and>
    se_offered s' = se_offered s \<and> se_state s' = se_state s \<and>
    session_control_authorized s' peer pf = session_control_authorized s peer pf"
proof -
  obtain su st where "s' = s\<lparr>se_summary := su, se_shared_state := st\<rparr>"
    using assms unfolding repaired_from_def by blast
  then show ?thesis
    by (simp add: live_pane_ids_def session_control_authorized_def session_identity_authorized_def
        session_is_held_by_def cong: option.case_cong)
qed

lemma normalize_settled:
  assumes "settled s st"
  shows "normalize_shared_state s = Some (Inr st, s, [])"
proof -
  have st: "se_shared_state s = Some st" "ss_version st = SHARED_SESSION_STATE_VERSION"
    "ss_summary st = se_summary s" "shows_live s (se_summary s)" "shared_ok st"
    using assms by (simp_all add: settled_def)
  have same: "st\<lparr>ss_summary := se_summary s\<rparr> = st" "s\<lparr>se_summary := se_summary s, se_shared_state := Some st\<rparr> = s"
    using st(1,3) by simp_all
  show ?thesis
    unfolding normalize_shared_state_def shared_state_or_new_def st(1) option.case migrate_def st(2)
    using st(3) summary_from_daemon_panes_same [OF st(4), of st] normalize_ok [OF st(5)] same(2)
    by (simp add: same(1))
qed

lemma shared_state_or_new_sound:
  assumes "session_sound s"
  shows "ss_version (shared_state_or_new s) \<in> {1, SHARED_SESSION_STATE_VERSION} \<and>
    ss_session_id (shared_state_or_new s) = se_id s"
  using assms by (auto simp: session_sound_def shared_state_or_new_def new_shared_state_def split: option.splits)

text \<open>
  A repair never panics.  It fails without a live pane, and where the layout it arrives at is not well formed; it
  settles the session otherwise.
\<close>

lemma normalize_sound:
  assumes ok: "session_sound s"
  obtains r s' es where "normalize_shared_state s = Some (r, s', es)" "session_sound s'" "repaired_from s s'"
    "\<And>st. r = Inr st \<Longrightarrow> settled s' st" "es = [] \<or> (\<exists>st. r = Inr st \<and> es = [BroadcastUpdated st])"
    "live_pane_ids s = [] \<Longrightarrow> isl r" "session_ok s \<Longrightarrow> session_ok s'"
    "session_ok s \<Longrightarrow> isl r \<Longrightarrow> live_pane_ids s = []"
proof -
  note new = shared_state_or_new_sound [OF ok]
  obtain st0 where m: "migrate (shared_state_or_new s) = Inr st0" "ss_version st0 = SHARED_SESSION_STATE_VERSION"
      "ss_session_id st0 = se_id s"
    using new by (auto simp: migrate_def SHARED_SESSION_STATE_VERSION_def)
  have lay: "bg_ok (pr_layout (ss_presentation st0))" if "session_ok s"
    using m(1) shared_state_or_new_ok [OF that] migrate_ok [of "shared_state_or_new s"] by (metis sum.inject(2))
  show ?thesis
  proof (cases "live_pane_ids s = []")
    case True
    then have "normalize_shared_state s = Some (Inl (NoLivePanes (se_id s)), s, [])"
      using m by (simp add: normalize_shared_state_def summary_from_daemon_panes_def Let_def)
    then show ?thesis using that ok True by (simp add: repaired_from_def)
  next
    case live: False
    obtain su where su: "summary_from_daemon_panes s st0 = Some (Inr su)" "bs_title su = bs_title (se_summary s)"
      "bg_ok (bs_layout su) \<Longrightarrow> shows_live s su"
      "bg_ok (bs_layout (se_summary s)) \<Longrightarrow> bg_ok (pr_layout (ss_presentation st0)) \<Longrightarrow> bg_ok (bs_layout su)"
      using summary_from_daemon_panes_total [OF ok live, of st0] by blast
    have n0: "(\<exists>r. normalize_state (st0\<lparr>ss_summary := su\<rparr>) = Inr r) \<longleftrightarrow> shows_live s su"
      unfolding normalize_total using su(3) by (auto simp: shows_live_def summary_ok_def)
    show ?thesis
    proof (cases "normalize_state (st0\<lparr>ss_summary := su\<rparr>)")
      case (Inl e)
      have "normalize_shared_state s = Some (Inl (SharedError e), s\<lparr>se_summary := su\<rparr>, [])"
        using m(1) su(1) Inl by (simp add: normalize_shared_state_def Let_def)
      moreover have "session_sound (s\<lparr>se_summary := su\<rparr>)" using ok by (simp add: session_sound_def)
      moreover have "\<not> session_ok s" using Inl n0 su(3,4) lay by (auto simp: session_ok_def)
      ultimately show ?thesis using that live by (simp add: repaired_from_def)
    next
      case (Inr r)
      then obtain st1 ch where n: "normalize_state (st0\<lparr>ss_summary := su\<rparr>) = Inr (st1, ch)" by (cases r) simp
      have sl: "shows_live s su" using n0 n by blast
      have st1: "shared_ok st1" "ss_summary st1 = su" "ss_version st1 = SHARED_SESSION_STATE_VERSION"
          "ss_session_id st1 = se_id s"
        using normalize_Inr [OF n] m by (metis, simp_all)
      define rep where "rep \<longleftrightarrow> se_shared_state s \<noteq> None \<and> (se_summary s \<noteq> su \<or> ss_summary st0 \<noteq> su \<or> ch)"
      define st2 where "st2 = (if rep then st1\<lparr>ss_revision := next_revision (ss_revision st1)\<rparr> else st1)"
      define s' where "s' = s\<lparr>se_summary := su, se_shared_state := Some st2\<rparr>"
      have st2: "shared_ok st2" "ss_summary st2 = su" "ss_version st2 = SHARED_SESSION_STATE_VERSION"
          "ss_session_id st2 = se_id s"
        using st1 by (simp_all add: st2_def shared_ok_def)
      have "normalize_shared_state s = Some (Inr st2, s', if rep then [BroadcastUpdated st2] else [])"
        using m(1) su(1) n by (simp add: normalize_shared_state_def st2_def s'_def rep_def Let_def)
      moreover have set: "settled s' st2"
        using ok sl st2 by (auto simp: settled_def s'_def session_ok_def session_sound_def shows_live_def live_pane_ids_def
            shared_ok_def presents_def summary_ok_def)
      moreover have "session_ok s'" using set by (simp add: settled_def)
      moreover have "repaired_from s s'" by (simp add: repaired_from_def s'_def)
      ultimately show ?thesis using that live by auto
    qed
  qed
qed

lemma normalize_shared_state_settles:
  assumes ok: "session_ok s" and live: "live_pane_ids s \<noteq> []"
  obtains st s' es where "normalize_shared_state s = Some (Inr st, s', es)" "settled s' st" "repaired_from s s'"
    "es = [] \<or> es = [BroadcastUpdated st]"
proof -
  obtain r s' es where n: "normalize_shared_state s = Some (r, s', es)" "repaired_from s s'"
    "\<And>st. r = Inr st \<Longrightarrow> settled s' st" "es = [] \<or> (\<exists>st. r = Inr st \<and> es = [BroadcastUpdated st])"
    "isl r \<Longrightarrow> live_pane_ids s = []" using normalize_sound [OF session_ok_sound [OF ok]] ok by metis
  then show ?thesis using that live by (cases r) auto
qed

end
