(* ===== verification/Mux_Share.thy ===== *)
theory Mux_Share
  imports Mux_Session
begin

text \<open>
  The requests that edit, offer and leave a session
  (\<open>crates/zmux/src/server/lifecycle.rs\<close>), the removal of exited panes
  (\<open>crates/zmux/src/server.rs\<close>) and of abandoned sessions
  (\<open>server/workers.rs\<close>), for the Unix build without \<open>session-persistence\<close>.

  Each handler looks its session up under the lock; what it then does is a
  function of the daemon and the session that gives the answer, the daemon, the
  session and the effects.  The secret a request carries has been checked
  before: it is the list of the verifiers it was proved against.
\<close>

section \<open>Handlers\<close>

type_synonym ('t, 'j) outcome =
  "((mux_error + 'j mux_response) \<times> ('t, 'j) daemon \<times> ('t, 'j) session \<times> 'j effect list) option"

definition on_session :: "('t, 'j) daemon \<Rightarrow> u64 \<Rightarrow> (('t, 'j) daemon \<Rightarrow> ('t, 'j) session \<Rightarrow> ('t, 'j) outcome) \<Rightarrow>
    ((mux_error + 'j mux_response) \<times> ('t, 'j) daemon) option" where
  "on_session d i handler =
     (case find_session d i of
        None \<Rightarrow> Some (Inl (NoSuchSession i), d)
      | Some s \<Rightarrow>
          map_option (\<lambda>(answer, d1, s1, es). (answer, emit_effects (put_session d1 s1) es)) (handler d s))"

subsection \<open>Shared operations\<close>

definition clear_shared_size_reports :: "('t, 'j) session \<Rightarrow> ('t, 'j) session" where
  "clear_shared_size_reports s =
     s\<lparr>se_panes := map (\<lambda>p.
        case pn_attachment p of
          AttShared clients \<Rightarrow> p\<lparr>pn_attachment := AttShared
            (map (\<lambda>c. if sc_relaying_for c = None then c\<lparr>sc_size := None\<rparr> else c) clients)\<rparr>
        | _ \<Rightarrow> p) (se_panes s)\<rparr>"

fun exact_revision :: "'j shared_operation \<Rightarrow> bool" where
  "exact_revision (ReplaceTab _ _) = True"
| "exact_revision (SetLayout _) = True"
| "exact_revision (SetTabState _) = True"
| "exact_revision _ = False"

fun describes_daemon_panes :: "'j shared_operation \<Rightarrow> ('t, 'j) session \<Rightarrow> bool" where
  "describes_daemon_panes (ReplaceTab summary _) s = summary_matches_daemon_panes summary s"
| "describes_daemon_panes _ s = True"

fun remove_first :: "('a \<Rightarrow> bool) \<Rightarrow> 'a list \<Rightarrow> 'a list option" where
  "remove_first P [] = None"
| "remove_first P (x # xs) = (if P x then Some xs else map_option ((#) x) (remove_first P xs))"

text \<open>The pane an operation closes is taken out of the session; a missing one is the panic of \<open>expect\<close>.\<close>

fun take_closed_pane :: "'j shared_operation \<Rightarrow> ('t, 'j) session \<Rightarrow> ('t, 'j) session option" where
  "take_closed_pane (ClosePane i) s =
     map_option (\<lambda>ps. s\<lparr>se_panes := ps\<rparr>) (remove_first (\<lambda>p. pn_id p = i) (se_panes s))"
| "take_closed_pane _ s = Some s"

fun operation_event :: "u64 \<Rightarrow> 'j shared_operation \<Rightarrow> 'j shared_state \<Rightarrow> 'j effect" where
  "operation_event session_id (ClosePane i) st = BroadcastPanes session_id [] [i] st"
| "operation_event session_id _ st = BroadcastUpdated st"

definition adopt_state :: "('t, 'j) session \<Rightarrow> 'j shared_state \<Rightarrow> ('t, 'j) session" where
  "adopt_state s st = s\<lparr>se_summary := (ss_summary st)\<lparr>bs_id := se_id s\<rparr>, se_state := ss_state st,
     se_shared_state := Some st\<rparr>"

record 'j shared_request =
  rq_session_id :: u64
  rq_base_revision :: u64
  rq_operation_id :: operation_id
  rq_operation :: "'j shared_operation"

text \<open>What follows the repair: a retry, a conflict, a refusal, or the operation.\<close>

definition apply_normalized :: "'j shared_request \<Rightarrow> ('t, 'j) daemon \<Rightarrow> ('t, 'j) session \<Rightarrow> 'j shared_state \<Rightarrow>
    'j effect list \<Rightarrow> ('t, 'j) outcome" where
  "apply_normalized rq d s st es =
     (if find_receipt st (rq_operation_id rq) \<noteq> None then Some (Inr (RespOperationApplied st), d, s, es)
      else if exact_revision (rq_operation rq) \<and> ss_revision st \<noteq> rq_base_revision rq
      then Some (Inr (RespConflict st), d, s, es)
      else if \<not> describes_daemon_panes (rq_operation rq) s then Some (Inl TabNotDaemonPanes, d, s, es)
      else if validate_operation st (rq_operation rq) \<noteq> Inr () then Some (Inr (RespConflict st), d, s, es)
      else case apply_operation st (rq_operation_id rq) (rq_operation rq) of
             None \<Rightarrow> None
           | Some (Inl e) \<Rightarrow> Some (Inl (SharedError e), d, s, es)
           | Some (Inr st') \<Rightarrow>
               map_option (\<lambda>s2. (Inr (RespOperationApplied st'), d, adopt_state s2 st',
                   es @ [operation_event (rq_session_id rq) (rq_operation rq) st', PublishCatalog, WakeDrain]))
                 (take_closed_pane (rq_operation rq) (clear_shared_size_reports s)))"

definition apply_to_session :: "'j shared_request \<Rightarrow> u32 option \<Rightarrow> secret_proof \<Rightarrow> ('t, 'j) daemon \<Rightarrow>
    ('t, 'j) session \<Rightarrow> ('t, 'j) outcome" where
  "apply_to_session rq peer proofs d s =
     (if \<not> se_offered s then Some (Inl (NotOffered (rq_session_id rq)), d, s, [])
      else if \<not> session_control_authorized s peer proofs then Some (Inl (NotAuthorized (rq_session_id rq)), d, s, [])
      else case normalize_shared_state s of
        None \<Rightarrow> None
      | Some (Inl e, s1, es) \<Rightarrow> Some (Inl e, d, s1, es)
      | Some (Inr st, s1, es) \<Rightarrow> apply_normalized rq d s1 st es)"

definition apply_shared :: "('t, 'j) daemon \<Rightarrow> 'j shared_request \<Rightarrow> u32 option \<Rightarrow> secret_proof \<Rightarrow>
    ((mux_error + 'j mux_response) \<times> ('t, 'j) daemon) option" where
  "apply_shared d rq peer proofs = on_session d (rq_session_id rq) (apply_to_session rq peer proofs)"

definition snapshot_in :: "u64 \<Rightarrow> u32 option \<Rightarrow> secret_proof \<Rightarrow> ('t, 'j) daemon \<Rightarrow> ('t, 'j) session \<Rightarrow> ('t, 'j) outcome" where
  "snapshot_in session_id peer proofs d s =
     (if \<not> se_offered s then Some (Inl (NotOffered session_id), d, s, [])
      else if \<not> session_control_authorized s peer proofs then Some (Inl (NotAuthorized session_id), d, s, [])
      else map_option (\<lambda>(answer, s1, es). (map_sum id RespSnapshot answer, d, s1, es)) (normalize_shared_state s))"

definition shared_snapshot :: "('t, 'j) daemon \<Rightarrow> u64 \<Rightarrow> u32 option \<Rightarrow> secret_proof \<Rightarrow>
    ((mux_error + 'j mux_response) \<times> ('t, 'j) daemon) option" where
  "shared_snapshot d session_id peer proofs =
     on_session d session_id (snapshot_in session_id peer proofs)"

subsection \<open>Exited panes and abandoned sessions\<close>

text \<open>The loop of \<open>remove_pruned_shared_panes\<close>: the state and whether a pane was closed.\<close>

fun close_pruned :: "u64 list \<Rightarrow> 'j shared_state \<Rightarrow> ('j shared_state \<times> bool) option" where
  "close_pruned [] st = Some (st, False)"
| "close_pruned (i # is) st =
     (if \<not> state_contains_pane st i then close_pruned is st
      else if length (bs_panes (ss_summary st)) = 1 then Some (st, False)
      else case apply_operation st \<lparr>oi_client = ''daemon-prune'', oi_sequence = next_revision (ss_revision st)\<rparr>
                  (ClosePane i) of
             Some (Inr st') \<Rightarrow> map_option (\<lambda>(st'', _). (st'', True)) (close_pruned is st')
           | _ \<Rightarrow> None)"

definition remove_pruned_shared_panes :: "('t, 'j) session \<Rightarrow> u64 list \<Rightarrow>
    ('j shared_state option \<times> ('t, 'j) session \<times> 'j effect list) option" where
  "remove_pruned_shared_panes s removed =
     (case (if se_shared_state s = None then Some (Inl (), s, [])
            else map_option (\<lambda>(r, s1, es). (map_sum (\<lambda>_. ()) (\<lambda>_. ()) r, s1, es)) (normalize_shared_state s)) of
        None \<Rightarrow> None
      | Some (Inl _, s1, es) \<Rightarrow> Some (None, s1, es)
      | Some (Inr _, s1, es) \<Rightarrow>
          (case se_shared_state s1 of
             None \<Rightarrow> Some (None, s1, es)
           | Some st \<Rightarrow>
               map_option (\<lambda>(st', changed).
                   if changed then (Some st', adopt_state s1 st', es)
                   else (None, s1\<lparr>se_shared_state := Some st'\<rparr>, es))
                 (close_pruned removed st)))"

definition prune_session :: "('t, 'j) session \<Rightarrow>
    ((u64 \<times> u64 list \<times> 'j shared_state) list \<times> ('t, 'j) session \<times> 'j effect list) option" where
  "prune_session s =
     (let removed = map pn_id (filter exited_pane_is_unread (se_panes s));
          s1 = s\<lparr>se_panes := filter (\<lambda>p. \<not> exited_pane_is_unread p) (se_panes s)\<rparr>
      in if removed \<noteq> [] \<and> se_panes s1 \<noteq> [] then
           map_option (\<lambda>(st, s2, es).
               (case st of Some st \<Rightarrow> [(se_id s2, removed, st)] | None \<Rightarrow> [], s2, es))
             (remove_pruned_shared_panes s1 removed)
         else Some ([], s1, []))"

fun prune_sessions :: "('t, 'j) session list \<Rightarrow>
    ((u64 \<times> u64 list \<times> 'j shared_state) list \<times> ('t, 'j) session list \<times> 'j effect list) option" where
  "prune_sessions [] = Some ([], [], [])"
| "prune_sessions (s # ss) =
     Option.bind (prune_session s) (\<lambda>(removals, s1, es).
       map_option (\<lambda>(removals', ss', es'). (removals @ removals', s1 # ss', es @ es')) (prune_sessions ss))"

definition prune_exited_panes :: "('t, 'j) daemon \<Rightarrow> (bool \<times> ('t, 'j) daemon) option" where
  "prune_exited_panes d =
     map_option (\<lambda>(removals, ss, es).
         (list_ex (\<lambda>s. list_ex exited_pane_is_unread (se_panes s) \<or> se_panes s = []) (dm_sessions d),
          emit_effects (d\<lparr>dm_sessions := filter (\<lambda>s. se_panes s \<noteq> []) ss\<rparr>)
            (es @ map (\<lambda>(session_id, removed, st). BroadcastPanes session_id [] removed st) removals)))
       (prune_sessions (dm_sessions d))"

definition abandoned :: "('t, 'j) session \<Rightarrow> bool" where
  "abandoned s \<longleftrightarrow> \<not> se_keep s \<and> list_all (\<lambda>p. pn_attachment p = AttNone) (se_panes s)"

definition take_abandoned_sessions :: "('t, 'j) daemon \<Rightarrow> ('t, 'j) session list \<times> ('t, 'j) daemon" where
  "take_abandoned_sessions d =
     (filter abandoned (dm_sessions d), d\<lparr>dm_sessions := filter (\<lambda>s. \<not> abandoned s) (dm_sessions d)\<rparr>)"

definition exclusive_holder :: "'t mux_pane \<Rightarrow> u32 option" where
  "exclusive_holder p =
     (case pn_attachment p of AttExclusive h \<Rightarrow> Some h | AttRevoking h \<Rightarrow> Some h | _ \<Rightarrow> None)"

definition release_pane :: "'t mux_pane \<Rightarrow> 't mux_pane" where
  "release_pane p = p\<lparr>pn_attachment := AttNone, pn_attachment_client_id := None\<rparr>"

text \<open>The holders are looked up, and asked for, under one lock and released under the next.\<close>

definition departed_holders :: "(u32 \<Rightarrow> bool) \<Rightarrow> ('t, 'j) daemon \<Rightarrow> u32 list" where
  "departed_holders running d =
     filter (\<lambda>pid. \<not> running pid)
       (concat (map (\<lambda>s. List.map_filter exclusive_holder (se_panes s)) (dm_sessions d)))"

definition reclaim_departed :: "u32 list \<Rightarrow> ('t, 'j) daemon \<Rightarrow> ('t, 'j) daemon option" where
  "reclaim_departed departed d =
     (let gone = (\<lambda>p. case exclusive_holder p of Some h \<Rightarrow> h \<in> set departed | None \<Rightarrow> False);
          reclaimed = list_ex (\<lambda>s. list_ex gone (se_panes s)) (dm_sessions d);
          d1 = d\<lparr>dm_sessions := map (\<lambda>s. s\<lparr>se_panes := map (\<lambda>p. if gone p then release_pane p else p) (se_panes s)\<rparr>)
                                (dm_sessions d)\<rparr>;
          d2 = snd (take_abandoned_sessions d1);
          d3 = (if reclaimed then emit_effects d2 [NotifyWaiters] else d2)
      in map_option (\<lambda>(_, d4). emit_effects d4 [PublishCatalog]) (prune_exited_panes d3))"

definition reclaim_panes_from_departed_clients :: "(u32 \<Rightarrow> bool) \<Rightarrow> ('t, 'j) daemon \<Rightarrow> ('t, 'j) daemon option" where
  "reclaim_panes_from_departed_clients running d =
     (let departed = departed_holders running d in if departed = [] then Some d else reclaim_departed departed d)"

subsection \<open>Leaving\<close>

definition session_revision :: "('t, 'j) session \<Rightarrow> u64" where
  "session_revision s = (case se_shared_state s of Some st \<Rightarrow> ss_revision st | None \<Rightarrow> 0)"

definition grant_effect :: "u64 \<Rightarrow> u64 \<Rightarrow> (client_id \<times> u32) option \<Rightarrow> 'j effect list" where
  "grant_effect session_id pane_id offer =
     (case offer of Some (c, pid) \<Rightarrow> [SendClient c pid (EvGrant session_id pane_id)] | None \<Rightarrow> [])"

text \<open>Viewers are taken out of one pane's set and the departure is settled.\<close>

definition drop_viewers :: "'t mux_env \<Rightarrow> u64 \<Rightarrow> u64 \<Rightarrow> (shared_client \<Rightarrow> bool) \<Rightarrow> 't mux_pane \<Rightarrow>
    't mux_pane \<times> 'j effect list" where
  "drop_viewers ev session_id revision leaves p =
     (case (case pn_attachment p of
              AttShared clients \<Rightarrow>
                let rest = filter (\<lambda>c. \<not> leaves c) clients
                in (p\<lparr>pn_attachment := AttShared rest\<rparr>, length rest \<noteq> length clients)
            | _ \<Rightarrow> (p, False)) of
        (p1, removed) \<Rightarrow>
          (case settle_shared_departure (ev_emulator ev) (ev_encode ev) session_id revision p1 removed of
             (p2, offer) \<Rightarrow> (p2, grant_effect session_id (pn_id p2) offer)))"

definition after_request :: "'j effect list \<Rightarrow> 'j effect list \<Rightarrow>
    ((mux_error + 'j mux_response) \<times> ('t, 'j) daemon) option \<Rightarrow> ((mux_error + 'j mux_response) \<times> ('t, 'j) daemon) option" where
  "after_request before after r =
     (case r of
        None \<Rightarrow> None
      | Some (Inl e, d) \<Rightarrow> Some (Inl e, d)
      | Some (Inr a, d) \<Rightarrow>
          map_option (\<lambda>(_, d1). (Inr a, emit_effects d1 after)) (prune_exited_panes (emit_effects d before)))"

definition leave_in :: "'t mux_env \<Rightarrow> u64 \<Rightarrow> client_id \<Rightarrow> u32 option \<Rightarrow> secret_proof \<Rightarrow> ('t, 'j) daemon \<Rightarrow>
    ('t, 'j) session \<Rightarrow> ('t, 'j) outcome" where
  "leave_in ev session_id client peer proofs d s =
     (if \<not> session_control_authorized s peer proofs then Some (Inl (NotAuthorized session_id), d, s, [])
      else
        let settled = map (drop_viewers ev session_id (session_revision s) (\<lambda>c. sc_client_id c = client)) (se_panes s)
        in Some (Inr RespOk, d, s\<lparr>se_panes := map fst settled\<rparr>, concat (map snd settled)))"

definition leave_shared :: "'t mux_env \<Rightarrow> ('t, 'j) daemon \<Rightarrow> u64 \<Rightarrow> client_id \<Rightarrow> u32 option \<Rightarrow> secret_proof \<Rightarrow>
    ((mux_error + 'j mux_response) \<times> ('t, 'j) daemon) option" where
  "leave_shared ev d session_id client peer proofs =
     after_request [NotifyWaiters] [PublishCatalog, WakeDrain]
       (on_session d session_id (leave_in ev session_id client peer proofs))"

definition remove_shared_attachment :: "'t mux_env \<Rightarrow> ('t, 'j) daemon \<Rightarrow> u64 \<Rightarrow> u64 \<Rightarrow> u64 \<Rightarrow> ('t, 'j) daemon option" where
  "remove_shared_attachment ev d session_id pane_id att =
     (case find_session d session_id of
        None \<Rightarrow> Some d
      | Some s \<Rightarrow>
          (case find_pane s pane_id of
             None \<Rightarrow> Some d
           | Some p \<Rightarrow>
               (case drop_viewers ev session_id (session_revision s) (\<lambda>c. sc_attachment c = att) p of
                  (p1, es) \<Rightarrow>
                    map_option (\<lambda>(_, d1). emit_effects d1 [PublishCatalog, WakeDrain])
                      (prune_exited_panes (emit_effects (put_session d (put_pane s p1)) es)))))"

subsection \<open>Offering, detaching, scoping\<close>

record 'j share_request =
  sr_summary :: bg_summary
  sr_state :: 'j
  sr_verifier :: "string option"
  sr_key_envelope :: "string option"
  sr_offered :: bool

record 'j detach_request =
  dr_summary :: bg_summary
  dr_state :: 'j
  dr_verifier :: "string option"
  dr_key_envelope :: "string option"

text \<open>What a request publishes of a session, whose identity stays the daemon's.\<close>

definition publish_in :: "('t, 'j) session \<Rightarrow> bg_summary \<Rightarrow> 'j \<Rightarrow> ('t, 'j) session" where
  "publish_in s summary state = s\<lparr>se_summary := summary\<lparr>bs_id := se_id s\<rparr>, se_state := state\<rparr>"

text \<open>\<open>if let Some(verifier)\<close>: the request fails where the verifier is refused.\<close>

definition protect_if_asked :: "'t mux_env \<Rightarrow> ('t, 'j) daemon \<Rightarrow> ('t, 'j) session \<Rightarrow> string option \<Rightarrow> string option \<Rightarrow>
    u32 option \<Rightarrow> mux_error + (('t, 'j) daemon \<times> ('t, 'j) session)" where
  "protect_if_asked ev d s verifier envelope peer =
     (case verifier of None \<Rightarrow> Inr (d, s) | Some v \<Rightarrow> protect_session ev d s v envelope peer)"

definition authentication_published :: "('t, 'j) session \<Rightarrow> ('t, 'j) session" where
  "authentication_published s =
     s\<lparr>se_summary := (se_summary s)\<lparr>bs_authentication_required := (se_authentication s \<noteq> None)\<rparr>\<rparr>"

definition share_state :: "('t, 'j) session \<Rightarrow> ('t, 'j) session" where
  "share_state s =
     s\<lparr>se_shared_state := Some ((shared_state_or_new s)
        \<lparr>ss_summary := (se_summary s)\<lparr>bs_id := se_id s\<rparr>, ss_state := se_state s\<rparr>)\<rparr>"

text \<open>The shared state is renewed and repaired; the request goes on with what follows.\<close>

definition reshare :: "('t, 'j) daemon \<Rightarrow> ('t, 'j) session \<Rightarrow> (('t, 'j) session \<Rightarrow> ('t, 'j) session \<times> 'j effect list) \<Rightarrow>
    'j mux_response \<Rightarrow> ('t, 'j) outcome" where
  "reshare d s continue answer =
     (case normalize_shared_state (share_state s) of
        None \<Rightarrow> None
      | Some (Inl e, s1, es) \<Rightarrow> Some (Inl e, d, s1, es)
      | Some (Inr _, s1, es) \<Rightarrow>
          (case continue s1 of (s2, es2) \<Rightarrow> Some (Inr answer, d, s2, es @ es2)))"

definition share_in :: "'t mux_env \<Rightarrow> u64 \<Rightarrow> 'j share_request \<Rightarrow> u32 \<Rightarrow> u32 option \<Rightarrow> secret_proof \<Rightarrow>
    ('t, 'j) daemon \<Rightarrow> ('t, 'j) session \<Rightarrow> ('t, 'j) outcome" where
  "share_in ev session_id rq client peer proofs d s =
     (let holder = (if se_authentication s \<noteq> None then peer else Some client);
          holder_authorized = (case holder of Some pid \<Rightarrow> session_is_held_by s pid | None \<Rightarrow> False);
          secret_authorized = (se_authentication s \<noteq> None \<and> session_control_authorized s peer proofs)
      in if \<not> holder_authorized \<and> \<not> secret_authorized then Some (Inl (NotShownByClient session_id), d, s, [])
         else case (if sr_offered rq then None
                    else find (\<lambda>p. 1 < shared_viewer_count (pn_attachment p)) (se_panes s)) of
           Some p \<Rightarrow> Some (Inl (StillOpenIn (shared_viewer_count (pn_attachment p))), d, s, [])
         | None \<Rightarrow>
             let s1 = (publish_in s (sr_summary rq) (sr_state rq))\<lparr>se_offered := sr_offered rq\<rparr>;
                 s2 = (if sr_offered rq then s1 else s1\<lparr>se_owner := Some client\<rparr>)
             in case protect_if_asked ev d s2 (sr_verifier rq) (sr_key_envelope rq) peer of
                  Inl e \<Rightarrow> Some (Inl e, d, s2, [])
                | Inr (d1, s3) \<Rightarrow>
                    let s4 = authentication_published s3
                    in if sr_offered rq then reshare d1 s4 (\<lambda>s. (s, [PublishCatalog, WakeDrain])) RespOk
                       else Some (Inr RespOk, d1, s4\<lparr>se_shared_state := None\<rparr>,
                              concat (map (\<lambda>p. grant_effect session_id (pn_id p) (offer_exclusive_if_alone p)) (se_panes s4))
                              @ [PublishCatalog, WakeDrain]))"

definition share :: "'t mux_env \<Rightarrow> ('t, 'j) daemon \<Rightarrow> u64 \<Rightarrow> 'j share_request \<Rightarrow> u32 \<Rightarrow> u32 option \<Rightarrow> secret_proof \<Rightarrow>
    ((mux_error + 'j mux_response) \<times> ('t, 'j) daemon) option" where
  "share ev d session_id rq client peer proofs = on_session d session_id (share_in ev session_id rq client peer proofs)"

text \<open>The panes of a detaching client: the ones it held are released and, with the free ones, take its screens.\<close>

fun release_panes :: "'t emulator \<Rightarrow> u32 \<Rightarrow> (u64 \<rightharpoonup> bytes) \<Rightarrow> 't mux_pane list \<Rightarrow> 't mux_pane list" where
  "release_panes em client snaps [] = []"
| "release_panes em client snaps (p # ps) =
     (case (case pn_attachment p of
              AttExclusive h \<Rightarrow> if h = client then Some (release_pane p) else None
            | AttRevoking h \<Rightarrow> if h = client then Some (release_pane p) else None
            | AttNone \<Rightarrow> Some p
            | _ \<Rightarrow> None) of
        None \<Rightarrow> p # release_panes em client snaps ps
      | Some p1 \<Rightarrow>
          (case snaps (pn_id p1) of
             Some bs \<Rightarrow> seed_retained_screen em p1 bs # release_panes em client (snaps(pn_id p1 := None)) ps
           | None \<Rightarrow> p1 # release_panes em client snaps ps))"

definition detach_in :: "'t mux_env \<Rightarrow> u64 \<Rightarrow> 'j detach_request \<Rightarrow> (u64 \<rightharpoonup> bytes) \<Rightarrow> u32 \<Rightarrow> u32 option \<Rightarrow>
    ('t, 'j) daemon \<Rightarrow> ('t, 'j) session \<Rightarrow> ('t, 'j) outcome" where
  "detach_in ev session_id rq snaps client peer d s =
     (if \<not> session_control_authorized s peer [] then Some (Inl (NotAuthorized session_id), d, s, [])
      else
        let s1 = (publish_in s (dr_summary rq) (dr_state rq))\<lparr>se_keep := True\<rparr>;
            s2 = (if se_offered s1 then s1 else s1\<lparr>se_owner := Some client\<rparr>);
            release = (\<lambda>s. s\<lparr>se_panes := release_panes (ev_emulator ev) client snaps (se_panes s)\<rparr>)
        in case protect_if_asked ev d s2 (dr_verifier rq) (dr_key_envelope rq) peer of
             Inl e \<Rightarrow> Some (Inl e, d, s2, [])
           | Inr (d1, s3) \<Rightarrow>
               let s4 = authentication_published s3
               in if se_offered s4 then reshare d1 s4 (\<lambda>s. (release s, [])) RespDetached
                  else Some (Inr RespDetached, d1, release s4, []))"

definition detach :: "'t mux_env \<Rightarrow> ('t, 'j) daemon \<Rightarrow> u64 \<Rightarrow> 'j detach_request \<Rightarrow> (u64 \<rightharpoonup> bytes) \<Rightarrow> u32 \<Rightarrow> u32 option \<Rightarrow>
    ((mux_error + 'j mux_response) \<times> ('t, 'j) daemon) option" where
  "detach ev d session_id rq snaps client peer =
     after_request [] [PublishCatalog, WakeDrain]
       (on_session d session_id (detach_in ev session_id rq snaps client peer))"

definition scope_in :: "'t mux_env \<Rightarrow> u64 \<Rightarrow> bool \<Rightarrow> string option \<Rightarrow> string option \<Rightarrow> u32 option \<Rightarrow> secret_proof \<Rightarrow> bool \<Rightarrow>
    ('t, 'j) daemon \<Rightarrow> ('t, 'j) session \<Rightarrow> ('t, 'j) outcome" where
  "scope_in ev session_id shared verifier envelope peer proofs stream_only d s =
     (if list_ex (\<lambda>p. pn_attachment p \<noteq> AttNone) (se_panes s) then Some (Inl (OnScreen session_id), d, s, [])
      else if \<not> (session_control_authorized s peer proofs \<or>
           \<not> stream_only \<and> stranded_session_may_be_offered (ev_running ev) s shared (verifier \<noteq> None))
      then Some (Inl (NotAuthorized session_id), d, s, [])
      else case protect_if_asked ev d s verifier envelope peer of
             Inl e \<Rightarrow> Some (Inl e, d, s, [])
           | Inr (d1, s1) \<Rightarrow>
               let s2 = (if verifier = None then s1
                         else s1\<lparr>se_summary := (se_summary s1)\<lparr>bs_authentication_required := True\<rparr>\<rparr>)
               in if shared then reshare d1 (s2\<lparr>se_offered := True\<rparr>) (\<lambda>s. (s, [PublishCatalog])) RespOk
                  else if \<not> (case se_owner s2 of Some owner \<Rightarrow> ev_running ev owner | None \<Rightarrow> False)
                  then Some (Inl (NoWindowToScopeTo session_id), d1, s2, [])
                  else Some (Inr RespOk, d1, s2\<lparr>se_offered := False, se_shared_state := None\<rparr>, [PublishCatalog]))"

definition set_session_scope :: "'t mux_env \<Rightarrow> ('t, 'j) daemon \<Rightarrow> u64 \<Rightarrow> bool \<Rightarrow> string option \<Rightarrow> string option \<Rightarrow>
    u32 option \<Rightarrow> secret_proof \<Rightarrow> bool \<Rightarrow> ((mux_error + 'j mux_response) \<times> ('t, 'j) daemon) option" where
  "set_session_scope ev d session_id shared verifier envelope peer proofs stream_only =
     on_session d session_id (scope_in ev session_id shared verifier envelope peer proofs stream_only)"

subsection \<open>Ending sessions and closing panes\<close>

text \<open>\<open>kill\<close>, and \<open>forget\<close> for a session that is running.\<close>

definition kill :: "('t, 'j) daemon \<Rightarrow> u64 \<Rightarrow> u32 option \<Rightarrow> secret_proof \<Rightarrow>
    (mux_error + unit) \<times> ('t, 'j) daemon" where
  "kill d session_id peer proofs =
     (case find_session d session_id of
        None \<Rightarrow> (Inl (NoSuchSession session_id), d)
      | Some s \<Rightarrow>
          if \<not> session_control_authorized s peer proofs then (Inl (NotAuthorized session_id), d)
          else (Inr (), d\<lparr>dm_sessions := filter (\<lambda>s. se_id s \<noteq> session_id) (dm_sessions d)\<rparr>))"

definition close_session_pane :: "('t, 'j) daemon \<Rightarrow> u64 \<Rightarrow> u64 \<Rightarrow> u32 \<Rightarrow> u32 option \<Rightarrow> secret_proof \<Rightarrow>
    ((mux_error + unit) \<times> ('t, 'j) daemon) option" where
  "close_session_pane d session_id pane_id claimed peer proofs =
     (let client = control_process_id claimed peer
      in case find_session d session_id of
           None \<Rightarrow> Some (Inl (NoSuchSession session_id), d)
         | Some s \<Rightarrow>
             if \<not> session_control_authorized s peer proofs then Some (Inl (NotAuthorized session_id), d)
             else case find_pane s pane_id of
                    None \<Rightarrow> Some (Inl (NoSuchPane session_id pane_id), d)
                  | Some p \<Rightarrow>
                      if exclusive_holder p \<noteq> Some client then Some (Inl (NotHeldExclusively pane_id), d)
                      else
                        let d1 = put_session d (put_pane s (release_pane p));
                            d2 = emit_effects (snd (take_abandoned_sessions d1)) [NotifyWaiters]
                        in map_option (\<lambda>(_, d3). (Inr (), emit_effects d3 [PublishCatalog, WakeDrain]))
                             (prune_exited_panes d2))"

definition protected_holder_authorized :: "('t, 'j) session \<Rightarrow> u32 option \<Rightarrow> bool" where
  "protected_holder_authorized s peer = (case peer of Some pid \<Rightarrow> session_is_held_by s pid | None \<Rightarrow> False)"

definition resize_pane :: "'t mux_env \<Rightarrow> ('t, 'j) daemon \<Rightarrow> u64 \<Rightarrow> u64 \<Rightarrow> u64 option \<Rightarrow> u16 \<Rightarrow> u16 \<Rightarrow> u32 option \<Rightarrow>
    secret_proof \<Rightarrow> (mux_error + unit) \<times> ('t, 'j) daemon" where
  "resize_pane ev d session_id pane_id revision columns lines peer proofs =
     (case find_session d session_id of
        None \<Rightarrow> (Inl (NoSuchSession session_id), d)
      | Some s \<Rightarrow>
          if revision \<noteq> None \<and> revision \<noteq> Some (session_revision s) then (Inl (StaleSizeReport (session_revision s)), d)
          else if se_authentication s \<noteq> None \<and> \<not> protected_holder_authorized s peer \<and>
               \<not> session_control_authorized s peer proofs then (Inl (NotAuthorized session_id), d)
          else case find_pane s pane_id of
                 None \<Rightarrow> (Inl (NoSuchPane session_id pane_id), d)
               | Some p \<Rightarrow> (Inr (), put_session d (put_pane s (apply_size (ev_emulator ev) p columns lines))))"

record pane_state_report =
  ps_pane_id :: u64
  ps_unknown :: bool
  ps_exited :: bool
  ps_raw_status :: "int option"
  ps_input_sent :: bool

definition unknown_pane :: "u64 \<Rightarrow> pane_state_report" where
  "unknown_pane i = \<lparr>ps_pane_id = i, ps_unknown = True, ps_exited = False, ps_raw_status = None, ps_input_sent = False\<rparr>"

definition pane_states :: "('t, 'j) daemon \<Rightarrow> u64 list \<Rightarrow> u32 option \<Rightarrow> secret_proof \<Rightarrow> pane_state_report list" where
  "pane_states d ids peer proofs =
     map (\<lambda>i. case find (\<lambda>s. list_ex (\<lambda>p. pn_id p = i) (se_panes s)) (dm_sessions d) of
                None \<Rightarrow> unknown_pane i
              | Some s \<Rightarrow>
                  if \<not> session_control_authorized s peer proofs then unknown_pane i
                  else case find_pane s i of
                         Some p \<Rightarrow> \<lparr>ps_pane_id = i, ps_unknown = False, ps_exited = pn_exited p,
                                    ps_raw_status = pn_exit_status p, ps_input_sent = shared_input_sent (pn_attachment p)\<rparr>
                       | None \<Rightarrow> unknown_pane i) ids"

section \<open>Editing a shared session\<close>

lemma apply_operation_keeps:
  assumes "apply_operation st op_id oper = Some (Inr st')" "bs_id (ss_summary st) = ss_session_id st"
  shows "ss_version st' = ss_version st \<and> ss_session_id st' = ss_session_id st \<and>
    bs_id (ss_summary st') = ss_session_id st"
proof -
  obtain st1 where v: "validate_operation st oper = Inr ()" and p: "perform st oper = Some st1"
    and st': "st' = record_receipt ((sync_summary_presentation st1)\<lparr>ss_revision := next_revision (ss_revision st1),
        ss_last_operation_id := Some op_id\<rparr>) \<lparr>re_operation_id = op_id, re_mappings = []\<rparr>"
    by (rule apply_operation_Inr [OF assms(1)])
  have "bs_id (ss_summary st1) = ss_session_id st"
    using v p assms(2) by (cases oper) (auto simp: Let_def close_pane_def split: option.splits if_splits sum.splits)
  then show ?thesis
    using perform_keeps [OF p] by (simp add: st' record_receipt_def sync_summary_presentation_def)
qed

lemma clear_reports_pane [simp]:
  "pn_id (case pn_attachment p of AttShared cs \<Rightarrow> p\<lparr>pn_attachment := f cs\<rparr> | _ \<Rightarrow> p) = pn_id p"
  "pn_exited (case pn_attachment p of AttShared cs \<Rightarrow> p\<lparr>pn_attachment := f cs\<rparr> | _ \<Rightarrow> p) = pn_exited p"
  by (simp_all split: attachment.split)

text \<open>Sessions with the same panes, as far as their identity and their end go.\<close>

definition same_panes :: "'t mux_pane list \<Rightarrow> 't mux_pane list \<Rightarrow> bool" where
  "same_panes ps qs \<longleftrightarrow> map (\<lambda>p. (pn_id p, pn_exited p)) ps = map (\<lambda>p. (pn_id p, pn_exited p)) qs"

lemma same_panes_ids:
  assumes "same_panes ps qs"
  shows "map pn_id ps = map pn_id qs \<and> pn_id ` set ps = pn_id ` set qs \<and>
    map pn_id (filter (\<lambda>p. \<not> pn_exited p) ps) = map pn_id (filter (\<lambda>p. \<not> pn_exited p) qs)"
proof -
  have ids: "map pn_id ps = map pn_id qs"
    using arg_cong [OF assms [unfolded same_panes_def], of "map fst"] by (simp add: comp_def)
  have "map pn_id (filter (\<lambda>p. \<not> pn_exited p) xs) =
      map fst (filter (\<lambda>y. \<not> snd y) (map (\<lambda>p. (pn_id p, pn_exited p)) xs))" for xs :: "'a mux_pane list"
    by (induction xs) simp_all
  then have "map pn_id (filter (\<lambda>p. \<not> pn_exited p) ps) = map pn_id (filter (\<lambda>p. \<not> pn_exited p) qs)"
    using assms by (simp only: same_panes_def)
  moreover have "pn_id ` set ps = pn_id ` set qs" using ids by (metis list.set_map)
  ultimately show ?thesis using ids by simp
qed

lemma same_panes_session_ok:
  "same_panes (se_panes s) ps \<Longrightarrow>
   session_ok (s\<lparr>se_panes := ps\<rparr>) = session_ok s \<and> live_pane_ids (s\<lparr>se_panes := ps\<rparr>) = live_pane_ids s"
  using same_panes_ids [of "se_panes s" ps] by (simp add: session_ok_def live_pane_ids_def)

lemma clear_reports_same: "same_panes (se_panes s) (se_panes (clear_shared_size_reports s))"
  by (simp add: same_panes_def clear_shared_size_reports_def comp_def)

lemma clear_reports_keeps:
  "session_ok (clear_shared_size_reports s) = session_ok s"
  "live_pane_ids (clear_shared_size_reports s) = live_pane_ids s"
  "se_id (clear_shared_size_reports s) = se_id s"
  "map pn_id (se_panes (clear_shared_size_reports s)) = map pn_id (se_panes s)"
  using same_panes_session_ok [OF clear_reports_same [of s]] same_panes_ids [OF clear_reports_same [of s]]
  by (simp_all add: clear_shared_size_reports_def)

lemma remove_first_Some:
  "(\<exists>x\<in>set xs. P x) \<Longrightarrow> \<exists>as x bs. xs = as @ x # bs \<and> P x \<and> (\<forall>a\<in>set as. \<not> P a) \<and> remove_first P xs = Some (as @ bs)"
proof (induction xs)
  case (Cons y ys)
  show ?case
  proof (cases "P y")
    case True
    then show ?thesis by (intro exI [of _ "[]"]) simp
  next
    case False
    with Cons obtain as x bs where "ys = as @ x # bs" "P x" "\<forall>a\<in>set as. \<not> P a" "remove_first P ys = Some (as @ bs)"
      by auto
    with False show ?thesis by (intro exI [of _ "y # as"] exI [of _ x] exI [of _ bs]) simp
  qed
qed simp

lemma take_closed_pane_ok:
  assumes ok: "session_ok s" and st: "\<And>i. oper = ClosePane i \<Longrightarrow> i \<in> set (live_pane_ids s)"
  obtains s' where "take_closed_pane oper s = Some s'" "session_ok s'" "se_id s' = se_id s"
    "set (live_pane_ids s') = set (surviving oper (live_pane_ids s))"
proof (cases "\<exists>i. oper = ClosePane i")
  case True
  then obtain i where i: "oper = ClosePane i" by blast
  with st have "\<exists>p\<in>set (se_panes s). pn_id p = i" by (auto simp: live_pane_ids_def)
  from remove_first_Some [OF this] obtain as p bs where ps: "se_panes s = as @ p # bs" "pn_id p = i"
    and r: "remove_first (\<lambda>p. pn_id p = i) (se_panes s) = Some (as @ bs)" by blast
  have "take_closed_pane oper s = Some (s\<lparr>se_panes := as @ bs\<rparr>)" using i r by simp
  moreover have "session_ok (s\<lparr>se_panes := as @ bs\<rparr>)" using ok ps(1) by (auto simp: session_ok_def)
  moreover have "pn_id ` set as \<inter> {i} = {} \<and> pn_id ` set bs \<inter> {i} = {}"
    using ok ps by (simp add: session_ok_def)
  then have "set (live_pane_ids (s\<lparr>se_panes := as @ bs\<rparr>)) = set (surviving oper (live_pane_ids s))"
    unfolding live_pane_ids_def i ps(1) by (auto simp: ps)
  ultimately show ?thesis using that by simp
next
  case False
  then have "take_closed_pane oper s = Some s" "surviving oper (live_pane_ids s) = live_pane_ids s"
    by (cases oper; simp)+
  then show ?thesis using that ok by simp
qed

lemma adopt_state_settled:
  assumes "session_ok s" "shared_ok st" "ss_version st = SHARED_SESSION_STATE_VERSION"
    "ss_session_id st = se_id s" "bs_id (ss_summary st) = se_id s" "set (state_pane_ids st) = set (live_pane_ids s)"
  shows "settled (adopt_state s st) st"
proof -
  have su: "(ss_summary st)\<lparr>bs_id := se_id s\<rparr> = ss_summary st" using assms(5) by simp
  have l: "live_pane_ids (adopt_state s st) = live_pane_ids s" by (simp add: live_pane_ids_def adopt_state_def)
  show ?thesis
    using assms shared_ok_summary [OF assms(2)]
    by (auto simp: settled_def adopt_state_def su session_ok_def shows_live_def l [unfolded adopt_state_def su]
        shared_ok_def presents_def summary_ok_def)
qed

lemma settled_ids:
  "settled s st \<Longrightarrow> set (state_pane_ids st) = set (live_pane_ids s) \<and> ss_session_id st = se_id s \<and>
     bs_id (ss_summary st) = se_id s"
  by (simp add: settled_def shows_live_def session_ok_def flip: state_pane_ids_simps(7))

lemma surviving_set: "set (surviving oper ids) = (case oper of ClosePane i \<Rightarrow> set ids - {i} | _ \<Rightarrow> set ids)"
  by (cases oper) auto

lemma apply_to_settled:
  assumes s: "settled s st" and v: "validate_operation st oper = Inr ()"
  obtains st' s2 where "apply_operation st op_id oper = Some (Inr st')"
    "take_closed_pane oper (clear_shared_size_reports s) = Some s2" "settled (adopt_state s2 st') st'"
    "find_receipt st' op_id = Some \<lparr>re_operation_id = op_id, re_mappings = []\<rparr>"
    "ss_revision st' = next_revision (ss_revision st)" "se_id s2 = se_id s"
proof -
  have sok: "shared_ok st" "session_ok s" and ver: "ss_version st = SHARED_SESSION_STATE_VERSION"
    using s by (simp_all add: settled_def)
  note ids = settled_ids [OF s]
  obtain st' where a: "apply_operation st op_id oper = Some (Inr st')"
    using apply_operation_total [OF sok(1), of op_id oper] v by (metis sum.distinct(1) sum.exhaust)
  note res = apply_operation_ok [OF sok(1) a]
  have "oper = ClosePane i \<Longrightarrow> i \<in> set (live_pane_ids (clear_shared_size_reports s))" for i
    using v ids by (auto simp: clear_reports_keeps split: if_splits)
  then obtain s2 where s2: "take_closed_pane oper (clear_shared_size_reports s) = Some s2" "session_ok s2"
      "se_id s2 = se_id s" "set (live_pane_ids s2) = set (surviving oper (live_pane_ids s))"
    using take_closed_pane_ok [of "clear_shared_size_reports s" oper] sok(2) by (metis clear_reports_keeps(1-3))
  have "set (state_pane_ids st') = set (surviving oper (state_pane_ids st))"
    using res mset_eq_setD by blast
  then have "set (state_pane_ids st') = set (live_pane_ids s2)"
    using s2(4) ids by (cases oper) (simp_all add: surviving_set)
  then have "settled (adopt_state s2 st') st'"
    using adopt_state_settled [of s2 st'] s2 res apply_operation_keeps [OF a] ids ver by simp
  then show ?thesis using that a s2 res by blast
qed

text \<open>A repair never panics; without a live pane it gives up and changes nothing.\<close>

lemma normalize_never_panics:
  assumes ok: "session_ok s"
  obtains r s' es where "normalize_shared_state s = Some (r, s', es)" "session_ok s'" "repaired_from s s'"
    "\<And>st. r = Inr st \<Longrightarrow> settled s' st" "es = [] \<or> (\<exists>st. es = [BroadcastUpdated st])"
    "isl r \<longleftrightarrow> live_pane_ids s = []"
proof -
  obtain r s' es where "normalize_shared_state s = Some (r, s', es)" "repaired_from s s'"
    "\<And>st. r = Inr st \<Longrightarrow> settled s' st" "es = [] \<or> (\<exists>st. r = Inr st \<and> es = [BroadcastUpdated st])"
    "live_pane_ids s = [] \<Longrightarrow> isl r" "session_ok s'" "isl r \<Longrightarrow> live_pane_ids s = []"
    using normalize_sound [OF session_ok_sound [OF ok]] ok by metis
  then show ?thesis using that by blast
qed

lemma take_closed_keeps:
  "take_closed_pane oper s = Some s' \<Longrightarrow> se_offered s' = se_offered s \<and> se_id s' = se_id s"
  by (cases oper) auto

text \<open>What a request answers on a session in which nothing is left to repair.\<close>

definition answered :: "'j shared_request \<Rightarrow> ('t, 'j) session \<Rightarrow> mux_error + 'j mux_response \<Rightarrow> bool" where
  "answered rq s answer \<longleftrightarrow> (\<forall>st. answer = Inr (RespOperationApplied st) \<longrightarrow>
     settled s st \<and> se_offered s \<and> find_receipt st (rq_operation_id rq) \<noteq> None)"

lemma answered_other: "(\<And>st. answer \<noteq> Inr (RespOperationApplied st)) \<Longrightarrow> answered rq s answer"
  by (simp add: answered_def)

lemma apply_normalized_result:
  assumes st: "settled s st" and off: "se_offered s"
  obtains answer s' es' where "apply_normalized rq d s st es = Some (answer, d, s', es')" "session_ok s'"
    "se_id s' = se_id s" "se_offered s'" "answered rq s' answer"
proof (cases "find_receipt st (rq_operation_id rq) = None \<and>
        \<not> (exact_revision (rq_operation rq) \<and> ss_revision st \<noteq> rq_base_revision rq) \<and>
        describes_daemon_panes (rq_operation rq) s \<and> validate_operation st (rq_operation rq) = Inr ()")
  case False
  have ok: "session_ok s" using st by (simp add: settled_def)
  have "\<exists>answer. apply_normalized rq d s st es = Some (answer, d, s, es) \<and> answered rq s answer"
    using False st off by (auto simp: apply_normalized_def answered_def)
  then show ?thesis using that ok off by blast
next
  case True
  obtain st' s2 where a: "apply_operation st (rq_operation_id rq) (rq_operation rq) = Some (Inr st')"
    "take_closed_pane (rq_operation rq) (clear_shared_size_reports s) = Some s2"
    "settled (adopt_state s2 st') st'" "find_receipt st' (rq_operation_id rq) \<noteq> None" "se_id s2 = se_id s"
    using apply_to_settled [OF st, of "rq_operation rq" "rq_operation_id rq"] True by (metis option.distinct(1))
  have "se_offered (adopt_state s2 st')" "se_id (adopt_state s2 st') = se_id s"
    using take_closed_keeps [OF a(2)] off by (simp_all add: adopt_state_def clear_shared_size_reports_def)
  moreover have "session_ok (adopt_state s2 st')" using a(3) by (simp add: settled_def)
  ultimately show ?thesis
    using that [of "Inr (RespOperationApplied st')" "adopt_state s2 st'"] True a
    by (simp add: apply_normalized_def answered_def)
qed

lemma apply_to_session_result:
  assumes ok: "session_sound s"
  obtains answer s' es where "apply_to_session rq peer pf d s = Some (answer, d, s', es)" "session_sound s'"
    "session_ok s \<Longrightarrow> session_ok s'" "se_id s' = se_id s" "se_offered s' = se_offered s" "answered rq s' answer"
proof (cases "se_offered s \<and> session_control_authorized s peer pf")
  case False
  have "\<exists>e. apply_to_session rq peer pf d s = Some (Inl e, d, s, [])"
    using False by (simp add: apply_to_session_def)
  then show ?thesis using that ok by (auto simp: answered_def)
next
  case True
  obtain r s1 es where n: "normalize_shared_state s = Some (r, s1, es)" "session_sound s1" "repaired_from s s1"
    "\<And>st. r = Inr st \<Longrightarrow> settled s1 st" "session_ok s \<Longrightarrow> session_ok s1" using normalize_sound [OF ok] by metis
  have s1: "se_id s1 = se_id s" "se_offered s1" using repaired_from_live [OF n(3)] True by auto
  show ?thesis
  proof (cases r)
    case (Inl e)
    with n s1 True show ?thesis
      using that [of "Inl e" s1 es] by (simp add: apply_to_session_def answered_def)
  next
    case (Inr st)
    from apply_normalized_result [OF n(4) [OF Inr] s1(2)] obtain answer s' es' where
      "apply_normalized rq d s1 st es = Some (answer, d, s', es')" "session_ok s'" "se_id s' = se_id s1"
      "se_offered s'" "answered rq s' answer" by metis
    then show ?thesis
      using that [of answer s' es'] n(1) Inr s1 True by (simp add: apply_to_session_def)
  qed
qed

subsection \<open>The daemon around a session\<close>

definition daemon_ok :: "('t, 'j) daemon \<Rightarrow> bool" where
  "daemon_ok d \<longleftrightarrow> distinct (map se_id (dm_sessions d)) \<and> list_all session_ok (dm_sessions d)"

text \<open>The daemon once clients have published layouts of their own.\<close>

definition daemon_sound :: "('t, 'j) daemon \<Rightarrow> bool" where
  "daemon_sound d \<longleftrightarrow> distinct (map se_id (dm_sessions d)) \<and> list_all session_sound (dm_sessions d)"

lemma daemon_ok_sound [intro]: "daemon_ok d \<Longrightarrow> daemon_sound d"
  by (auto simp: daemon_ok_def daemon_sound_def list_all_iff)

lemma find_id: "find (\<lambda>x. f x = i) xs = Some x \<Longrightarrow> x \<in> set xs \<and> f x = i"
  by (induction xs) (auto split: if_splits)

lemma find_sessionD: "find_session d i = Some s \<Longrightarrow> s \<in> set (dm_sessions d) \<and> se_id s = i"
  unfolding find_session_def by (rule find_id)

lemma find_session_ok: "daemon_ok d \<Longrightarrow> find_session d i = Some s \<Longrightarrow> session_ok s"
  by (auto simp: daemon_ok_def list_all_iff dest: find_sessionD)

lemma find_session_sound: "daemon_sound d \<Longrightarrow> find_session d i = Some s \<Longrightarrow> session_sound s"
  by (auto simp: daemon_sound_def list_all_iff dest: find_sessionD)

lemma replace_first_find:
  "find (\<lambda>x. f x = i) xs = Some x \<Longrightarrow> f y = i \<Longrightarrow>
   find (\<lambda>x. f x = i) (replace_first (\<lambda>x. f x = f y) y xs) = Some y"
  by (induction xs) (auto split: if_splits)

lemma replace_first_same:
  "find (\<lambda>x. f x = i) xs = Some x \<Longrightarrow> replace_first (\<lambda>y. f y = f x) x xs = xs"
  by (induction xs) (auto split: if_splits dest: find_id)

lemma replace_first_twice:
  "replace_first (\<lambda>x. f x = f y) y (replace_first (\<lambda>x. f x = f y) y xs) = replace_first (\<lambda>x. f x = f y) y xs"
  by (induction xs) auto

lemma replace_first_ids: "map f (replace_first (\<lambda>x. f x = f y) y xs) = map f xs"
  by (induction xs) auto

lemma replace_first_set: "set (replace_first P y xs) \<subseteq> insert y (set xs)"
  by (induction xs) auto

lemma put_session_same [simp]: "find_session d i = Some s \<Longrightarrow> put_session d s = d"
  unfolding find_session_def put_session_def by (simp add: replace_first_same)

lemma find_put_session [simp]:
  "find_session d i = Some s \<Longrightarrow> se_id s' = i \<Longrightarrow> find_session (put_session d s') i = Some s'"
  using replace_first_find [of se_id i "dm_sessions d" s s'] by (simp add: find_session_def put_session_def)

lemma put_session_ok: "daemon_ok d \<Longrightarrow> session_ok s \<Longrightarrow> daemon_ok (put_session d s)"
  using replace_first_set [of "\<lambda>x. se_id x = se_id s" s "dm_sessions d"]
  by (auto simp: daemon_ok_def put_session_def replace_first_ids list_all_iff)

lemma put_session_sound: "daemon_sound d \<Longrightarrow> session_sound s \<Longrightarrow> daemon_sound (put_session d s)"
  using replace_first_set [of "\<lambda>x. se_id x = se_id s" s "dm_sessions d"]
  by (auto simp: daemon_sound_def put_session_def replace_first_ids list_all_iff)

lemma emit_effects_simps [simp]:
  "emit_effects d [] = d" "dm_sessions (emit_effects d es) = dm_sessions d"
  "find_session (emit_effects d es) i = find_session d i" "daemon_ok (emit_effects d es) = daemon_ok d"
  "daemon_sound (emit_effects d es) = daemon_sound d"
  by (simp_all add: emit_effects_def find_session_def daemon_ok_def daemon_sound_def)

lemma on_session_Some:
  "find_session d i = Some s \<Longrightarrow> h d s = Some (a, d1, s1, es) \<Longrightarrow>
   on_session d i h = Some (a, emit_effects (put_session d1 s1) es)"
  by (simp add: on_session_def)

lemma on_session_nothing [simp]:
  "find_session d i = Some s \<Longrightarrow> h d s = Some (a, d, s, []) \<Longrightarrow> on_session d i h = Some (a, d)"
  by (simp add: on_session_def)

lemma apply_shared_result:
  assumes ok: "daemon_ok d" and f: "find_session d (rq_session_id rq) = Some s"
  obtains answer s' es where
    "apply_shared d rq peer pf = Some (answer, emit_effects (put_session d s') es)"
    "apply_to_session rq peer pf d s = Some (answer, d, s', es)"
    "session_ok s'" "se_id s' = rq_session_id rq" "answered rq s' answer"
proof -
  obtain answer s' es where a: "apply_to_session rq peer pf d s = Some (answer, d, s', es)" "session_ok s'"
    "se_id s' = se_id s" "answered rq s' answer"
    using apply_to_session_result [OF session_ok_sound [OF find_session_ok [OF ok f]]] find_session_ok [OF ok f] by metis
  then show ?thesis
    using that on_session_Some [of d _ s "apply_to_session rq peer pf", OF f a(1)] find_sessionD [OF f] by (simp add: apply_shared_def)
qed

lemma retry_is_answered:
  assumes ok: "daemon_ok d" and a: "apply_shared d rq peer pf = Some (Inr (RespOperationApplied st), d')"
    and auth: "\<And>s. find_session d' (rq_session_id rq) = Some s \<Longrightarrow> session_control_authorized s peer pf"
  shows "apply_shared d' rq peer pf = Some (Inr (RespOperationApplied st), d')"
proof -
  obtain s where f: "find_session d (rq_session_id rq) = Some s"
    using a by (cases "find_session d (rq_session_id rq)") (auto simp: apply_shared_def on_session_def)
  obtain s' es where d': "d' = emit_effects (put_session d s') es" and s': "se_id s' = rq_session_id rq"
    and ans: "answered rq s' (Inr (RespOperationApplied st) :: mux_error + 'b mux_response)"
    using apply_shared_result [OF ok f, of peer pf] a by (metis Pair_inject option.inject)
  have f': "find_session d' (rq_session_id rq) = Some s'" using f s' by (simp add: d')
  have set: "settled s' st" "se_offered s'" "find_receipt st (rq_operation_id rq) \<noteq> None"
    using ans by (simp_all add: answered_def)
  have "apply_to_session rq peer pf d' s' = Some (Inr (RespOperationApplied st), d', s', [])"
    using set auth [OF f'] by (simp add: apply_to_session_def normalize_settled [OF set(1)] apply_normalized_def)
  then show ?thesis using f' by (simp add: apply_shared_def)
qed

text \<open>A request that replaces the whole tab, its layout or its state is applied to the revision it was made for.\<close>

lemma stale_request_conflicts:
  assumes s: "settled s st" and off: "se_offered s" "session_control_authorized s peer pf"
    and rq: "exact_revision (rq_operation rq)" "find_receipt st (rq_operation_id rq) = None"
      "ss_revision st \<noteq> rq_base_revision rq"
  shows "apply_to_session rq peer pf d s = Some (Inr (RespConflict st), d, s, [])"
  using assms by (simp add: apply_to_session_def normalize_settled [OF s] apply_normalized_def)

lemma next_revision_moves: "r \<noteq> - 1 \<Longrightarrow> next_revision r \<noteq> r"
  by (simp add: next_revision_def)

lemma apply_normalized_applied:
  assumes st: "settled s st" and fresh: "find_receipt st (rq_operation_id rq) = None"
    and a: "apply_normalized rq d s st es = Some (Inr (RespOperationApplied st'), d', s', es')"
  shows "ss_revision st' = next_revision (ss_revision st) \<and>
    (\<forall>op. oi_client op \<noteq> oi_client (rq_operation_id rq) \<longrightarrow> find_receipt st' op = find_receipt st op)"
proof -
  have "apply_operation st (rq_operation_id rq) (rq_operation rq) = Some (Inr st')"
    using a fresh by (auto simp: apply_normalized_def split: if_splits option.splits sum.splits)
  then show ?thesis using apply_operation_ok [of st] st by (auto simp: settled_def)
qed

lemma second_replacement_conflicts:
  assumes ok: "daemon_ok d" and f: "find_session d i = Some s"
    and n: "normalize_shared_state s = Some (Inr st, s0, es0)"
    and 1: "rq_session_id rq1 = i" "exact_revision (rq_operation rq1)" "find_receipt st (rq_operation_id rq1) = None"
    and 2: "rq_session_id rq2 = i" "exact_revision (rq_operation rq2)" "find_receipt st (rq_operation_id rq2) = None"
      "oi_client (rq_operation_id rq1) \<noteq> oi_client (rq_operation_id rq2)"
    and base: "rq_base_revision rq1 = rq_base_revision rq2" "rq_base_revision rq1 \<noteq> - 1"
    and a: "apply_shared d rq1 peer1 pf1 = Some (Inr (RespOperationApplied st1), d1)"
    and auth: "\<And>s. find_session d1 i = Some s \<Longrightarrow> session_control_authorized s peer2 pf2"
  shows "apply_shared d1 rq2 peer2 pf2 = Some (Inr (RespConflict st1), d1)"
proof -
  obtain s1 es where d1: "d1 = emit_effects (put_session d s1) es" and s1: "se_id s1 = i"
    and a1: "apply_to_session rq1 peer1 pf1 d s = Some (Inr (RespOperationApplied st1), d, s1, es)"
    and ans: "answered rq1 s1 (Inr (RespOperationApplied st1) :: mux_error + 'b mux_response)"
    using apply_shared_result [OF ok, of rq1 s peer1 pf1] f 1(1) a by (metis Pair_inject option.inject)
  have st: "settled s0 st"
    using normalize_never_panics [OF find_session_ok [OF ok f]] n by (metis Pair_inject option.inject)
  have an: "apply_normalized rq1 d s0 st es0 = Some (Inr (RespOperationApplied st1), d, s1, es)"
    using a1 n by (auto simp: apply_to_session_def split: if_splits)
  have rev: "ss_revision st = rq_base_revision rq1"
    using an 1(2,3) by (auto simp: apply_normalized_def split: if_splits)
  note applied = apply_normalized_applied [OF st 1(3) an]
  have "ss_revision st1 \<noteq> rq_base_revision rq2"
    using applied rev base next_revision_moves by metis
  moreover have "find_receipt st1 (rq_operation_id rq2) = None" using applied 2(3,4) by metis
  moreover have set: "settled s1 st1" "se_offered s1" using ans by (simp_all add: answered_def)
  moreover have f1: "find_session d1 i = Some s1" using f s1 by (simp add: d1)
  ultimately show ?thesis
    using stale_request_conflicts [of s1 st1 peer2 pf2 rq2 d1] auth [OF f1] 2(1,2) f1
    by (simp add: apply_shared_def)
qed

section \<open>Pruning\<close>

lemma close_pruned_absent: "list_all (\<lambda>i. \<not> state_contains_pane st i) is \<Longrightarrow> close_pruned is st = Some (st, False)"
  by (induction "is") auto

lemma session_ok_filter: "session_ok s \<Longrightarrow> session_ok (s\<lparr>se_panes := filter P (se_panes s)\<rparr>)"
  by (auto simp: session_ok_def distinct_map_filter)

lemma session_sound_filter: "session_sound s \<Longrightarrow> session_sound (s\<lparr>se_panes := filter P (se_panes s)\<rparr>)"
  by (auto simp: session_sound_def distinct_map_filter)

lemma live_after_prune:
  "live_pane_ids (s\<lparr>se_panes := filter (\<lambda>p. \<not> exited_pane_is_unread p) (se_panes s)\<rparr>) = live_pane_ids s"
proof -
  have "filter (\<lambda>p. \<not> pn_exited p) (filter (\<lambda>p. \<not> exited_pane_is_unread p) ps) = filter (\<lambda>p. \<not> pn_exited p) ps"
    for ps :: "'a mux_pane list"
    by (induction ps) (auto simp: exited_pane_is_unread_def)
  then show ?thesis by (simp add: live_pane_ids_def)
qed

lemma unread_not_live:
  assumes ok: "session_sound s" and p: "p \<in> set (se_panes s)" "exited_pane_is_unread p"
  shows "pn_id p \<notin> set (live_pane_ids s)"
proof
  assume "pn_id p \<in> set (live_pane_ids s)"
  then obtain q where "q \<in> set (se_panes s)" "\<not> pn_exited q" "pn_id q = pn_id p"
    by (auto simp: live_pane_ids_def)
  moreover have "inj_on pn_id (set (se_panes s))" using ok by (simp add: session_sound_def distinct_map)
  ultimately have "q = p" using p(1) by (auto dest: inj_onD)
  with \<open>\<not> pn_exited q\<close> p(2) show False by (simp add: exited_pane_is_unread_def)
qed

text \<open>
  The repair that \<open>remove_pruned_shared_panes\<close> starts with has already taken the
  exited panes out of the shared state, so its loop closes nothing.
\<close>

lemma remove_pruned_nothing:
  assumes ok: "session_sound s" and gone: "set removed \<inter> set (live_pane_ids s) = {}"
  obtains s' es where "remove_pruned_shared_panes s removed = Some (None, s', es)" "session_sound s'"
    "session_ok s \<Longrightarrow> session_ok s'"
    "repaired_from s s'" "es = [] \<or> (\<exists>st. es = [BroadcastUpdated st])"
proof (cases "se_shared_state s = None")
  case True
  then show ?thesis using that ok by (simp add: remove_pruned_shared_panes_def repaired_from_def)
next
  case some: False
  obtain r s' es where n: "normalize_shared_state s = Some (r, s', es)" "session_sound s'" "repaired_from s s'"
    "\<And>st. r = Inr st \<Longrightarrow> settled s' st" "es = [] \<or> (\<exists>st. es = [BroadcastUpdated st])" "session_ok s \<Longrightarrow> session_ok s'"
    using normalize_sound [OF ok] by metis
  show ?thesis
  proof (cases r)
    case (Inl e)
    with n some show ?thesis using that [of s' es] by (auto simp: remove_pruned_shared_panes_def)
  next
    case (Inr st)
    note st = n(4) [OF Inr]
    have sh: "se_shared_state s' = Some st" using st by (simp add: settled_def)
    have "list_all (\<lambda>i. \<not> state_contains_pane st i) removed"
      using gone settled_ids [OF st] repaired_from_live [OF n(3)] by (auto simp: list_all_iff)
    then have "remove_pruned_shared_panes s removed = Some (None, s'\<lparr>se_shared_state := Some st\<rparr>, es)"
      using some n(1) Inr sh by (auto simp: remove_pruned_shared_panes_def close_pruned_absent)
    moreover have "s'\<lparr>se_shared_state := Some st\<rparr> = s'" using sh by simp
    ultimately show ?thesis using that n by simp
  qed
qed

definition prunes_to :: "('t, 'j) session \<Rightarrow> ('t, 'j) session \<Rightarrow> bool" where
  "prunes_to s s' \<longleftrightarrow> session_sound s' \<and> (session_ok s \<longrightarrow> session_ok s') \<and>
     repaired_from (s\<lparr>se_panes := filter (\<lambda>p. \<not> exited_pane_is_unread p) (se_panes s)\<rparr>) s'"

definition only_updates :: "'j effect list \<Rightarrow> bool" where
  "only_updates es \<longleftrightarrow> list_all (\<lambda>e. \<exists>st. e = BroadcastUpdated st) es"

lemma prune_session_result:
  assumes ok: "session_sound s"
  obtains s' es where "prune_session s = Some ([], s', es)" "prunes_to s s'" "only_updates es"
proof -
  let ?s = "s\<lparr>se_panes := filter (\<lambda>p. \<not> exited_pane_is_unread p) (se_panes s)\<rparr>"
  let ?removed = "map pn_id (filter exited_pane_is_unread (se_panes s))"
  have ok': "session_sound ?s" by (rule session_sound_filter [OF ok])
  have ok'': "session_ok s \<Longrightarrow> session_ok ?s" by (rule session_ok_filter)
  have "set ?removed \<inter> set (live_pane_ids ?s) = {}"
    unfolding live_after_prune using unread_not_live [OF ok] by auto
  from remove_pruned_nothing [OF ok' this] obtain s' es where
    "remove_pruned_shared_panes ?s ?removed = Some (None, s', es)" "session_sound s'" "session_ok ?s \<Longrightarrow> session_ok s'"
    "repaired_from ?s s'" "es = [] \<or> (\<exists>st. es = [BroadcastUpdated st])" by metis
  moreover have "repaired_from ?s ?s" by (simp add: repaired_from_def)
  ultimately show ?thesis
    using that [of s' es] that [of ?s "[]"] ok' ok''
    by (cases "?removed \<noteq> [] \<and> se_panes ?s \<noteq> []") (auto simp: prune_session_def Let_def prunes_to_def only_updates_def)
qed

lemma prune_sessions_result:
  "list_all session_sound ss \<Longrightarrow>
   \<exists>ss' es. prune_sessions ss = Some ([], ss', es) \<and> list_all2 prunes_to ss ss' \<and> only_updates es"
proof (induction ss)
  case (Cons s ss)
  from Cons.prems have "session_sound s" by simp
  from prune_session_result [OF this] obtain s' es where "prune_session s = Some ([], s', es)" "prunes_to s s'"
    "only_updates es" .
  with Cons show ?case by (fastforce simp: only_updates_def)
qed (simp add: only_updates_def)

lemma prunes_to_keeps:
  "prunes_to s s' \<Longrightarrow> se_id s' = se_id s \<and> session_sound s' \<and> (session_ok s \<longrightarrow> session_ok s') \<and> live_pane_ids s' = live_pane_ids s \<and>
     se_panes s' = filter (\<lambda>p. \<not> exited_pane_is_unread p) (se_panes s)"
  using repaired_from_live [of "s\<lparr>se_panes := filter (\<lambda>p. \<not> exited_pane_is_unread p) (se_panes s)\<rparr>" s']
  by (simp add: prunes_to_def live_after_prune)

lemma prunes_to_ids: "list_all2 prunes_to ss ss' \<Longrightarrow> map se_id ss' = map se_id ss \<and> list_all session_sound ss' \<and>
     (list_all session_ok ss \<longrightarrow> list_all session_ok ss')"
  by (induction rule: list_all2_induct) (auto simp: prunes_to_keeps)

lemma pruned_sessions:
  assumes "list_all2 prunes_to ss0 ss"
  shows "map (\<lambda>s. (se_id s, se_panes s)) (filter (\<lambda>s. se_panes s \<noteq> []) ss) =
      map (\<lambda>s. (se_id s, filter (\<lambda>p. \<not> exited_pane_is_unread p) (se_panes s)))
        (filter (\<lambda>s. \<exists>p\<in>set (se_panes s). \<not> exited_pane_is_unread p) ss0) \<and>
    map live_pane_ids (filter (\<lambda>s. se_panes s \<noteq> []) ss) =
      map live_pane_ids (filter (\<lambda>s. \<exists>p\<in>set (se_panes s). \<not> exited_pane_is_unread p) ss0)"
  using assms
proof (induction rule: list_all2_induct)
  case (Cons s ss s' ss')
  note k = prunes_to_keeps [OF Cons(1)]
  have "se_panes s' \<noteq> [] \<longleftrightarrow> (\<exists>p\<in>set (se_panes s). \<not> exited_pane_is_unread p)"
    using k by (simp add: filter_empty_conv)
  then show ?case using Cons(3) k by simp
qed simp

lemma prune_result:
  assumes ok: "daemon_sound d"
  obtains changed ss es where
    "prune_exited_panes d = Some (changed, emit_effects (d\<lparr>dm_sessions := filter (\<lambda>s. se_panes s \<noteq> []) ss\<rparr>) es)"
    "list_all2 prunes_to (dm_sessions d) ss" "only_updates es"
    "daemon_sound (d\<lparr>dm_sessions := filter (\<lambda>s. se_panes s \<noteq> []) ss\<rparr>)"
    "daemon_ok d \<longrightarrow> daemon_ok (d\<lparr>dm_sessions := filter (\<lambda>s. se_panes s \<noteq> []) ss\<rparr>)"
    "changed \<longleftrightarrow> list_ex (\<lambda>s. list_ex exited_pane_is_unread (se_panes s) \<or> se_panes s = []) (dm_sessions d)"
proof -
  obtain ss es where p: "prune_sessions (dm_sessions d) = Some ([], ss, es)" "list_all2 prunes_to (dm_sessions d) ss"
    "only_updates es" using prune_sessions_result [of "dm_sessions d"] ok by (auto simp: daemon_sound_def)
  have "daemon_sound (d\<lparr>dm_sessions := filter (\<lambda>s. se_panes s \<noteq> []) ss\<rparr>)"
    "daemon_ok d \<longrightarrow> daemon_ok (d\<lparr>dm_sessions := filter (\<lambda>s. se_panes s \<noteq> []) ss\<rparr>)"
    using prunes_to_ids [OF p(2)] ok by (simp_all add: daemon_ok_def daemon_sound_def distinct_map_filter list_all_iff)
  then show ?thesis using that p by (simp add: prune_exited_panes_def)
qed

section \<open>Protection\<close>

text \<open>A peer with no standing in a protected session: not its owner, not a holder, without its secret.\<close>

definition stranger :: "('t, 'j) session \<Rightarrow> u32 option \<Rightarrow> secret_proof \<Rightarrow> bool" where
  "stranger s peer pf \<longleftrightarrow> (\<exists>a. se_authentication s = Some a \<and> au_identity a \<notin> set pf) \<and>
     (\<forall>pid. peer = Some pid \<longrightarrow> se_owner s \<noteq> Some pid \<and> \<not> session_is_held_by s pid)"

lemma stranger_refused:
  assumes "stranger s peer pf"
  shows "\<not> session_control_authorized s peer pf" "\<not> session_control_authorized s peer []"
    "\<not> protected_holder_authorized s peer" "se_authentication s \<noteq> None"
    "\<not> (case peer of Some pid \<Rightarrow> session_is_held_by s pid | None \<Rightarrow> False)"
  using assms
  by (auto simp: stranger_def session_control_authorized_def session_identity_authorized_def proof_authorizes_def
      protected_holder_authorized_def split: option.splits)

lemma stranger_changes_nothing:
  assumes f: "find_session d i = Some s" and s: "stranger s peer pf"
  shows "rq_session_id rq = i \<Longrightarrow> \<exists>e. apply_shared d rq peer pf = Some (Inl e, d)"
    "\<exists>e. shared_snapshot d i peer pf = Some (Inl e, d)"
    "\<exists>e. leave_shared ev d i client peer pf = Some (Inl e, d)"
    "\<exists>e. share ev d i srq pid peer pf = Some (Inl e, d)"
    "\<exists>e. detach ev d i drq snaps pid peer = Some (Inl e, d)"
    "\<exists>e. close_session_pane d i pane pid peer pf = Some (Inl e, d)"
    "\<exists>e. kill d i peer pf = (Inl e, d)"
    "\<exists>e. resize_pane ev d i pane rvn columns lines peer pf = (Inl e, d)"
  using f stranger_refused [OF s]
  by (simp_all add: apply_shared_def shared_snapshot_def snapshot_in_def leave_shared_def leave_in_def share_def share_in_def detach_def detach_in_def close_session_pane_def
      kill_def resize_pane_def on_session_def apply_to_session_def after_request_def)

lemma stranger_scope:
  assumes f: "find_session d i = Some s" and s: "stranger s peer pf"
    and strand: "stream_only \<or> verifier \<noteq> None \<or> \<not> shared \<or> (\<exists>owner. se_owner s = Some owner \<and> ev_running ev owner)"
  shows "\<exists>e. set_session_scope ev d i shared verifier envelope peer pf stream_only = Some (Inl e, d)"
  using f stranger_refused [OF s] strand
  by (auto simp: set_session_scope_def scope_in_def on_session_def stranded_session_may_be_offered_def)

lemma pane_states_hidden:
  assumes "\<And>s. s \<in> set (dm_sessions d) \<Longrightarrow> list_ex (\<lambda>p. pn_id p = i) (se_panes s) \<Longrightarrow> stranger s peer pf"
  shows "pane_states d [i] peer pf = [unknown_pane i]"
proof (cases "find (\<lambda>s. list_ex (\<lambda>p. pn_id p = i) (se_panes s)) (dm_sessions d)")
  case (Some s)
  then have "stranger s peer pf" using assms [of s] by (auto simp: find_Some_iff)
  from stranger_refused(1) [OF this] Some show ?thesis by (simp add: pane_states_def)
qed (simp add: pane_states_def)

section \<open>Half-applied requests\<close>

lemma refused_verifier_leaves_offer:
  assumes f: "find_session d i = Some s" and held: "session_is_held_by s client" and open_: "se_authentication s = None"
    and rq: "sr_offered rq" "sr_verifier rq = Some v" and bad: "\<not> ev_accepts ev v"
  shows "\<exists>d' s'. share ev d i rq client peer pf = Some (Inl BadVerifier, d') \<and> find_session d' i = Some s' \<and>
    se_offered s' \<and> se_authentication s' = None \<and> se_panes s' = se_panes s"
  using find_sessionD [OF f] assms
  by (auto simp: share_def share_in_def on_session_def protect_if_asked_def protect_session_def publish_in_def)

section \<open>Properties\<close>

definition sample_session :: "attachment \<Rightarrow> authentication option \<Rightarrow> (unit, unit) session" where
  "sample_session att auth = \<lparr>se_id = 7, se_summary = sample_summary, se_state = (), se_shared_state = Some sample_state,
     se_authentication = auth, se_key_envelope = None, se_failed_authentications = 0, se_refuse_until = None,
     se_panes = [sample_pane att (80, 24), (sample_pane AttNone (80, 24))\<lparr>pn_id := 2\<rparr>,
       (sample_pane AttNone (80, 24))\<lparr>pn_id := 3\<rparr>],
     se_keep = True, se_offered = True, se_owner = None, se_sealed_to = None\<rparr>"

definition sample_daemon :: "(unit, unit) session \<Rightarrow> (unit, unit) daemon" where
  "sample_daemon s = \<lparr>dm_sessions = [s], dm_effects = [], dm_grants = \<lparr>gr_startup = None, gr_by_process = []\<rparr>,
     dm_next_verifier = 1, dm_next_attachment = 1\<rparr>"

definition sample_env :: "unit mux_env" where
  "sample_env = \<lparr>ev_emulator = sample_emulator, ev_encode = \<lambda>_. Some [], ev_running = \<lambda>_. True,
     ev_accepts = \<lambda>v. v \<noteq> [], ev_retention = RetainNone\<rparr>"

definition sample_shared_request :: "string \<Rightarrow> unit shared_operation \<Rightarrow> unit shared_request" where
  "sample_shared_request client oper = \<lparr>rq_session_id = 7, rq_base_revision = 0,
     rq_operation_id = \<lparr>oi_client = client, oi_sequence = 1\<rparr>, rq_operation = oper\<rparr>"

lemma sample_live: "live_pane_ids (sample_session att auth) = [1, 2, 3]"
  by (simp add: live_pane_ids_def sample_session_def sample_pane_def)

lemma sample_session_settled: "settled (sample_session att auth) sample_state"
proof -
  have "ss_version sample_state = SHARED_SESSION_STATE_VERSION" "ss_session_id sample_state = 7"
    "ss_summary sample_state = sample_summary" "bs_id sample_summary = 7" "bs_active_pane sample_summary = 1"
    "pane_id_list sample_summary = [1, 2, 3]"
    by (simp_all add: sample_state_def new_shared_state_def sample_summary_def pane_id_list_def sample_bg_pane_def)
  then show ?thesis
    using sample_state_ok shared_ok_summary [OF sample_state_ok]
    by (simp add: settled_def session_ok_def shows_live_def sample_live)
      (auto simp: sample_session_def sample_pane_def shared_ok_def presents_def summary_ok_def)
qed

lemma sample_daemon_ok: "daemon_ok (sample_daemon (sample_session att auth))"
  using sample_session_settled [of att auth] by (simp add: daemon_ok_def sample_daemon_def settled_def)

lemma sample_find: "find_session (sample_daemon (sample_session att auth)) 7 = Some (sample_session att auth)"
  by (simp add: find_session_def sample_daemon_def sample_session_def)

lemma sample_open: "session_control_authorized (sample_session att None) peer pf"
  by (simp add: session_control_authorized_def sample_session_def)

lemma sample_simps [simp]:
  "se_offered (sample_session att auth)" "se_authentication (sample_session att auth) = auth"
  "rq_session_id (sample_shared_request c oper) = 7" "rq_base_revision (sample_shared_request c oper) = 0"
  "rq_operation (sample_shared_request c oper) = oper"
  "rq_operation_id (sample_shared_request c oper) = \<lparr>oi_client = c, oi_sequence = 1\<rparr>"
  "ss_revision sample_state = 0" "find_receipt sample_state op_id = None"
  by (simp_all add: sample_session_def sample_shared_request_def sample_state_def new_shared_state_def find_receipt_def)

lemma sample_applies:
  assumes v: "validate_operation sample_state oper = Inr ()"
    and d: "describes_daemon_panes oper (sample_session att None)"
  obtains st d' where "apply_shared (sample_daemon (sample_session att None)) (sample_shared_request c oper) peer pf =
    Some (Inr (RespOperationApplied st), d')"
proof -
  let ?s = "sample_session att None" and ?rq = "sample_shared_request c oper"
  obtain st s2 where "apply_operation sample_state (rq_operation_id ?rq) oper = Some (Inr st)"
    "take_closed_pane oper (clear_shared_size_reports ?s) = Some s2"
    using apply_to_settled [OF sample_session_settled v] by metis
  then have "\<exists>s' es. apply_normalized ?rq (sample_daemon ?s) ?s sample_state [] =
      Some (Inr (RespOperationApplied st), sample_daemon ?s, s', es)"
    using v d by (simp add: apply_normalized_def)
  then show ?thesis
    using that sample_find [of att None]
    by (auto simp: apply_shared_def on_session_def apply_to_session_def sample_open normalize_settled [OF sample_session_settled])
qed

text \<open>
  C11.  An edit of a shared session leaves the daemon consistent: it never panics,
  every session stays well formed, and when the edit is answered as applied the
  session holds exactly the state that was answered, that state satisfies the
  invariant of shared states, shows exactly the live panes of the session and has a
  receipt for the request.
\<close>

theorem shared_edits_settle:
  assumes "daemon_ok d" "find_session d (rq_session_id rq) = Some s"
  shows "\<exists>answer d' s'. apply_shared d rq peer pf = Some (answer, d') \<and> daemon_ok d' \<and>
    find_session d' (rq_session_id rq) = Some s' \<and>
    (\<forall>st. answer = Inr (RespOperationApplied st) \<longrightarrow>
       se_shared_state s' = Some st \<and> shared_ok st \<and> set (state_pane_ids st) = set (live_pane_ids s') \<and>
       se_summary s' = ss_summary st \<and> find_receipt st (rq_operation_id rq) \<noteq> None)"
proof -
  obtain answer s' es where a: "apply_shared d rq peer pf = Some (answer, emit_effects (put_session d s') es)"
    "session_ok s'" "se_id s' = rq_session_id rq" "answered rq s' answer"
    using apply_shared_result [OF assms] by metis
  have "settled s' st \<Longrightarrow> se_shared_state s' = Some st \<and> shared_ok st \<and>
      set (state_pane_ids st) = set (live_pane_ids s') \<and> se_summary s' = ss_summary st" for st
    using settled_ids [of s' st] by (simp add: settled_def)
  with a show ?thesis
    using put_session_ok [OF assms(1) a(2)] assms(2) by (auto simp: answered_def intro!: exI [of _ s'])
qed

theorem shared_edits_settle_witness:
  "\<exists>st d' s'. apply_shared (sample_daemon (sample_session AttNone None)) (sample_shared_request ''a'' (ClosePane 2)) None [] =
      Some (Inr (RespOperationApplied st), d') \<and> find_session d' 7 = Some s' \<and> shared_ok st \<and>
      set (state_pane_ids st) = set (live_pane_ids s')"
proof -
  have "validate_operation sample_state (ClosePane 2) = Inr ()"
    by (simp add: sample_state_def new_shared_state_def sample_summary_def sample_bg_pane_def state_pane_ids_def)
  from sample_applies [OF this, of AttNone "''a''" None "[]"] obtain st d' where
    "apply_shared (sample_daemon (sample_session AttNone None)) (sample_shared_request ''a'' (ClosePane 2)) None [] =
      Some (Inr (RespOperationApplied st), d')" by auto
  then show ?thesis
    using shared_edits_settle [OF sample_daemon_ok [of AttNone None], of "sample_shared_request ''a'' (ClosePane 2)" _ None "[]"]
      sample_find [of AttNone None] by auto
qed

text \<open>
  A retry is harmless: a request that was answered as applied and is sent again,
  by a peer that still may, gets the same answer, and nothing changes and nothing
  is broadcast.
\<close>

theorem retried_edit_changes_nothing:
  assumes "daemon_ok d" "apply_shared d rq peer pf = Some (Inr (RespOperationApplied st), d')"
    "\<And>s. find_session d' (rq_session_id rq) = Some s \<Longrightarrow> session_control_authorized s peer pf"
  shows "apply_shared d' rq peer pf = Some (Inr (RespOperationApplied st), d')"
  by (rule retry_is_answered [OF assms])

lemma sample_after_open:
  assumes "apply_shared (sample_daemon (sample_session att None)) rq peer pf = Some (r, d')" "rq_session_id rq = 7"
    "find_session d' 7 = Some s"
  shows "session_control_authorized s peer' pf'"
proof -
  obtain s' es where "d' = emit_effects (put_session (sample_daemon (sample_session att None)) s') es" "se_id s' = 7"
    and a: "apply_to_session rq peer pf (sample_daemon (sample_session att None)) (sample_session att None) =
      Some (r, sample_daemon (sample_session att None), s', es)"
    using apply_shared_result [OF sample_daemon_ok [of att None], of rq "sample_session att None" peer pf]
      assms(1,2) sample_find [of att None] by (metis Pair_inject option.inject)
  then have s: "s = s'" using assms(3) sample_find [of att None] by simp
  have keep: "take_closed_pane oper x = Some y \<Longrightarrow> se_authentication y = se_authentication x" for oper and x y :: "(unit, unit) session"
    by (cases oper) auto
  have "se_authentication s' = None"
    using a keep [of "rq_operation rq" "clear_shared_size_reports (sample_session att None)"]
    by (auto simp: apply_to_session_def sample_open normalize_settled [OF sample_session_settled] apply_normalized_def
        adopt_state_def clear_shared_size_reports_def split: if_splits option.splits sum.splits)
  then show ?thesis by (simp add: s session_control_authorized_def)
qed

theorem retried_edit_changes_nothing_witness:
  "\<exists>st d'. apply_shared (sample_daemon (sample_session AttNone None)) (sample_shared_request ''a'' (SetFocus 3)) None [] =
      Some (Inr (RespOperationApplied st), d') \<and>
    apply_shared d' (sample_shared_request ''a'' (SetFocus 3)) None [] = Some (Inr (RespOperationApplied st), d')"
proof -
  have "validate_operation sample_state (SetFocus 3) = Inr ()"
    by (simp add: sample_state_def new_shared_state_def sample_summary_def sample_bg_pane_def state_pane_ids_def)
  from sample_applies [OF this, of AttNone "''a''" None "[]"] obtain st d' where
    a: "apply_shared (sample_daemon (sample_session AttNone None)) (sample_shared_request ''a'' (SetFocus 3)) None [] =
      Some (Inr (RespOperationApplied st), d')" by auto
  with retried_edit_changes_nothing [OF sample_daemon_ok a] sample_after_open [OF a] show ?thesis by auto
qed

text \<open>
  C15.  Two viewers cannot overwrite one another unseen: of two requests that replace the
  whole tab, its layout or its state, made by different clients for the same
  revision, the second is answered with the state the first one left, and
  changes nothing.
\<close>

theorem stale_replacement_conflicts:
  assumes "daemon_ok d" "find_session d i = Some s" "normalize_shared_state s = Some (Inr st, s0, es0)"
    "rq_session_id rq1 = i" "exact_revision (rq_operation rq1)" "find_receipt st (rq_operation_id rq1) = None"
    "rq_session_id rq2 = i" "exact_revision (rq_operation rq2)" "find_receipt st (rq_operation_id rq2) = None"
    "oi_client (rq_operation_id rq1) \<noteq> oi_client (rq_operation_id rq2)"
    "rq_base_revision rq1 = rq_base_revision rq2" "rq_base_revision rq1 \<noteq> - 1"
    "apply_shared d rq1 peer1 pf1 = Some (Inr (RespOperationApplied st1), d1)"
    "\<And>s. find_session d1 i = Some s \<Longrightarrow> session_control_authorized s peer2 pf2"
  shows "apply_shared d1 rq2 peer2 pf2 = Some (Inr (RespConflict st1), d1)"
  by (rule second_replacement_conflicts [OF assms])

theorem stale_replacement_conflicts_witness:
  "\<exists>st1 d1. apply_shared (sample_daemon (sample_session AttNone None)) (sample_shared_request ''a'' (SetTabState ())) None [] =
      Some (Inr (RespOperationApplied st1), d1) \<and>
    apply_shared d1 (sample_shared_request ''b'' (SetTabState ())) None [] = Some (Inr (RespConflict st1), d1)"
proof -
  have "validate_operation sample_state (SetTabState ()) = Inr ()" by simp
  from sample_applies [OF this, of AttNone "''a''" None "[]"] obtain st d' where
    a: "apply_shared (sample_daemon (sample_session AttNone None)) (sample_shared_request ''a'' (SetTabState ())) None [] =
      Some (Inr (RespOperationApplied st), d')" by auto
  have "apply_shared d' (sample_shared_request ''b'' (SetTabState ())) None [] = Some (Inr (RespConflict st), d')"
    using stale_replacement_conflicts [OF sample_daemon_ok sample_find normalize_settled [OF sample_session_settled]
        _ _ _ _ _ _ _ _ _ a] sample_after_open [OF a] by simp
  with a show ?thesis by blast
qed

text \<open>
  C17.  Pruning removes exactly the exited panes that nobody reads: every session keeps all its other panes,
  live or still being read, as they are and in their order, and a session goes exactly when none is left.  It
  never panics, keeps the sessions well formed and tells whether it changed anything.  What it announces is the repaired
  state of a session, never the panes it removed: the repair that comes first
  has already taken them out of the shared state.
\<close>

theorem pruning_keeps_live_panes:
  assumes "daemon_ok d"
  shows "\<exists>changed d' es. prune_exited_panes d = Some (changed, d') \<and> daemon_ok d' \<and> dm_effects d' = dm_effects d @ es \<and>
    (\<forall>session_id added removed st. BroadcastPanes session_id added removed st \<notin> set es) \<and>
    map (\<lambda>s. (se_id s, se_panes s)) (dm_sessions d') =
      map (\<lambda>s. (se_id s, filter (\<lambda>p. \<not> exited_pane_is_unread p) (se_panes s)))
        (filter (\<lambda>s. \<exists>p\<in>set (se_panes s). \<not> exited_pane_is_unread p) (dm_sessions d)) \<and>
    map live_pane_ids (dm_sessions d') =
      map live_pane_ids (filter (\<lambda>s. \<exists>p\<in>set (se_panes s). \<not> exited_pane_is_unread p) (dm_sessions d)) \<and>
    (changed \<longleftrightarrow> (\<exists>s\<in>set (dm_sessions d). se_panes s = [] \<or> (\<exists>p\<in>set (se_panes s). exited_pane_is_unread p)))"
proof -
  obtain changed ss es where p:
    "prune_exited_panes d = Some (changed, emit_effects (d\<lparr>dm_sessions := filter (\<lambda>s. se_panes s \<noteq> []) ss\<rparr>) es)"
    "list_all2 prunes_to (dm_sessions d) ss" "only_updates es"
    "daemon_sound (d\<lparr>dm_sessions := filter (\<lambda>s. se_panes s \<noteq> []) ss\<rparr>)"
    "daemon_ok d \<longrightarrow> daemon_ok (d\<lparr>dm_sessions := filter (\<lambda>s. se_panes s \<noteq> []) ss\<rparr>)"
    "changed \<longleftrightarrow> list_ex (\<lambda>s. list_ex exited_pane_is_unread (se_panes s) \<or> se_panes s = []) (dm_sessions d)"
    by (rule prune_result [OF daemon_ok_sound [OF assms]])
  let ?d = "emit_effects (d\<lparr>dm_sessions := filter (\<lambda>s. se_panes s \<noteq> []) ss\<rparr>) es"
  have d: "daemon_ok ?d" "dm_effects ?d = dm_effects d @ es" "dm_sessions ?d = filter (\<lambda>s. se_panes s \<noteq> []) ss"
    using p(5) assms by (simp, simp_all add: emit_effects_def)
  have silent: "\<forall>session_id added removed st. BroadcastPanes session_id added removed st \<notin> set es"
    using p(3) by (fastforce simp: only_updates_def list_all_iff)
  have changed: "changed \<longleftrightarrow> (\<exists>s\<in>set (dm_sessions d). se_panes s = [] \<or> (\<exists>p\<in>set (se_panes s). exited_pane_is_unread p))"
    unfolding p(6) by (auto simp: list_ex_iff)
  note kept = pruned_sessions [OF p(2)]
  show ?thesis
    by (rule exI [of _ changed], rule exI [of _ ?d], rule exI [of _ es], unfold d(2,3))
      (intro conjI p(1) d(1) refl silent changed kept [THEN conjunct1] kept [THEN conjunct2])
qed

theorem pruning_keeps_live_panes_witness:
  "\<exists>changed d'. prune_exited_panes (sample_daemon ((sample_session AttNone None)
      \<lparr>se_panes := [(sample_pane AttNone (80, 24))\<lparr>pn_exited := True\<rparr>, (sample_pane AttNone (80, 24))\<lparr>pn_id := 2\<rparr>]\<rparr>)) =
    Some (changed, d') \<and> map live_pane_ids (dm_sessions d') = [[2]]"
proof -
  let ?s = "(sample_session AttNone None)
      \<lparr>se_panes := [(sample_pane AttNone (80, 24))\<lparr>pn_exited := True\<rparr>, (sample_pane AttNone (80, 24))\<lparr>pn_id := 2\<rparr>]\<rparr>"
  have "session_ok ?s"
    using sample_session_settled [of AttNone None] by (simp add: settled_def session_ok_def sample_pane_def)
  then have ok: "daemon_ok (sample_daemon ?s)" by (simp add: daemon_ok_def sample_daemon_def)
  have "\<not> list_all exited_pane_is_unread (se_panes ?s)" "live_pane_ids ?s = [2]"
    by (simp_all add: exited_pane_is_unread_def sample_pane_def live_pane_ids_def)
  with pruning_keeps_live_panes [OF ok] show ?thesis by (auto simp: sample_daemon_def)
qed

text \<open>
  A share that is refused is half applied.  The window that shows an unprotected
  session asks to offer it under a secret whose verifier the daemon does not
  accept: the request fails, and the session has become offered without any
  protection.
\<close>

theorem refused_share_leaves_session_offered:
  assumes "find_session d i = Some s" "session_is_held_by s client" "se_authentication s = None"
    "sr_offered rq" "sr_verifier rq = Some v" "\<not> ev_accepts ev v"
  shows "\<exists>d' s'. share ev d i rq client peer pf = Some (Inl BadVerifier, d') \<and> find_session d' i = Some s' \<and>
    se_offered s' \<and> se_authentication s' = None \<and> (\<forall>anyone. is_in_scope_for s' anyone \<and> session_control_authorized s' anyone [])"
proof -
  obtain d' s' where "share ev d i rq client peer pf = Some (Inl BadVerifier, d')" "find_session d' i = Some s'"
    "se_offered s'" "se_authentication s' = None"
    using refused_verifier_leaves_offer [OF assms] by blast
  then show ?thesis by (auto simp: is_in_scope_for_def session_control_authorized_def)
qed

theorem refused_share_leaves_session_offered_witness:
  "\<exists>d' s'. share sample_env (sample_daemon ((sample_session (AttExclusive 10) None)\<lparr>se_offered := False\<rparr>)) 7
      \<lparr>sr_summary = sample_summary, sr_state = (), sr_verifier = Some [], sr_key_envelope = None, sr_offered = True\<rparr>
      10 (Some 10) [] = Some (Inl BadVerifier, d') \<and> find_session d' 7 = Some s' \<and> se_offered s' \<and> se_authentication s' = None"
proof -
  let ?s = "(sample_session (AttExclusive 10) None)\<lparr>se_offered := False\<rparr>"
  have "find_session (sample_daemon ?s) 7 = Some ?s" "session_is_held_by ?s 10" "se_authentication ?s = None"
    by (simp_all add: find_session_def sample_daemon_def sample_session_def session_is_held_by_def pane_is_held_by_def
        sample_pane_def)
  from refused_share_leaves_session_offered [OF this, of "\<lparr>sr_summary = sample_summary, sr_state = (),
      sr_verifier = Some [], sr_key_envelope = None, sr_offered = True\<rparr>" "[]" sample_env "Some 10" "[]"]
  show ?thesis by (auto simp: sample_env_def)
qed

end
