(* ===== verification/Mux_Drain.thy ===== *)
theory Mux_Drain
  imports Mux_Share
begin

text \<open>
  The thread that reads the panes nobody else reads
  (\<open>drain_loop\<close> in \<open>crates/zmux/src/server/workers.rs\<close>): what one pass does with a
  pane, with a session and with the daemon, and the sweep for exits that were missed.

  What a terminal gives is an input: the visible part of a read and the clipboard
  requests the scanner took out of it, with the answers to the writes they cause.
  The clock, the backlog of the encrypted store and the children's exits are inputs too.
\<close>

section \<open>Clipboard requests\<close>

text \<open>A request as it is relayed, and the encoded errors it may be answered with.\<close>

record clip_request =
  cr_frame :: bytes
  cr_no_viewer :: bytes
  cr_ambiguous :: bytes

record pane_read =
  rd_visible :: bytes
  rd_requests :: "(clip_request \<times> write_result list) list"

fun filter_clipboard_output :: "encoder \<Rightarrow> (clip_request \<times> write_result list) list \<Rightarrow> 't mux_pane \<Rightarrow>
    't mux_pane option" where
  "filter_clipboard_output enc [] p = Some p"
| "filter_clipboard_output enc ((rq, answers) # rest) p =
     (let viewers = shared_viewer_count (pn_attachment p)
      in if viewers = 1 then filter_clipboard_output enc rest (snd (relay_output enc p (cr_frame rq)))
         else
           let err = (if viewers = 0 then cr_no_viewer rq else cr_ambiguous rq)
           in case flush_pending_input answers (p\<lparr>pn_pending_input := pn_pending_input p @ err\<rparr>) of
                None \<Rightarrow> None
              | Some (_, p1) \<Rightarrow> filter_clipboard_output enc rest p1)"

section \<open>One pane\<close>

text \<open>Output that was read is retained, recorded for a handover and relayed; a viewer it could not reach has left.\<close>

definition take_output :: "'t mux_env \<Rightarrow> u64 \<Rightarrow> u64 \<Rightarrow> bytes \<Rightarrow> 't mux_pane \<Rightarrow> 't mux_pane \<times> 'j effect list" where
  "take_output ev session_id revision visible p =
     (let p1 = record_handover_output (p\<lparr>pn_retained := retained_push (ev_emulator ev) visible (pn_retained p)\<rparr>) visible
      in case relay_output (ev_encode ev) p1 visible of
           (dropped, p2) \<Rightarrow>
             if dropped then
               (case settle_shared_departure (ev_emulator ev) (ev_encode ev) session_id revision p2 True of
                  (p3, offer) \<Rightarrow> (p3, grant_effect session_id (pn_id p3) offer))
             else (p2, []))"

text \<open>A read of the terminal: filtered, and taken where anything visible is left.\<close>

definition take_read :: "'t mux_env \<Rightarrow> u64 \<Rightarrow> u64 \<Rightarrow> pane_read \<Rightarrow> 't mux_pane \<Rightarrow> ('t mux_pane \<times> 'j effect list) option" where
  "take_read ev session_id revision rd p =
     map_option (\<lambda>p1. if rd_visible rd = [] then (p1, []) else take_output ev session_id revision (rd_visible rd) p1)
       (filter_clipboard_output (ev_encode ev) (rd_requests rd) p)"

text \<open>The loop that reads out an exited pane.\<close>

fun drain_exited :: "'t mux_env \<Rightarrow> u64 \<Rightarrow> u64 \<Rightarrow> pane_read list \<Rightarrow> 't mux_pane \<Rightarrow> ('t mux_pane \<times> 'j effect list) option" where
  "drain_exited ev session_id revision [] p = Some (p, [])"
| "drain_exited ev session_id revision (rd # rest) p =
     Option.bind (take_read ev session_id revision rd p) (\<lambda>(p1, es).
       map_option (\<lambda>(p2, es'). (p2, es @ es')) (drain_exited ev session_id revision rest p1))"

record drain_io =
  dio_answers :: "write_result list"
  dio_reads :: "pane_read list"
  dio_backlogged :: bool
  dio_now :: nat

text \<open>
  Whether the pass found nothing to do, the pane, and what is sent.  A live pane is
  read out once, as far as the buffer goes: the first of the reads, if there is one.
\<close>

definition drain_pane :: "'t mux_env \<Rightarrow> drain_io \<Rightarrow> u64 \<Rightarrow> u64 \<Rightarrow> 't mux_pane \<Rightarrow>
    (bool \<times> 't mux_pane \<times> 'j effect list) option" where
  "drain_pane ev io session_id revision p =
     (if \<not> drain_reads (pn_attachment p) then Some (True, p, [])
      else case (if pn_pending_input p = [] then Some (Blocked, p) else flush_pending_input (dio_answers io) p) of
             None \<Rightarrow> None
           | Some (flushed, p1) \<Rightarrow>
               let idle = (flushed \<noteq> Progressed)
               in if pn_exited p1 then
                    map_option (\<lambda>(p2, es). (idle, p2, es)) (drain_exited ev session_id revision (dio_reads io) p1)
                  else
                    (case relay_backpressure (dio_now io) p1 of
                       (held_off, evicted, p2) \<Rightarrow>
                         (case (if evicted then settle_shared_departure (ev_emulator ev) (ev_encode ev) session_id revision p2 True
                                else (p2, None)) of
                            (p3, offer) \<Rightarrow>
                              let es = grant_effect session_id (pn_id p3) offer
                              in if held_off \<or> dio_backlogged io then Some (idle, p3, es)
                                 else case dio_reads io of
                                        [] \<Rightarrow> Some (idle, p3, es)
                                      | rd # _ \<Rightarrow> map_option (\<lambda>(p4, es'). (False, p4, es @ es'))
                                                     (take_read ev session_id revision rd p3))))"

section \<open>A pass over the sessions\<close>

fun drain_panes :: "('t mux_pane \<Rightarrow> (bool \<times> 't mux_pane \<times> 'j effect list) option) \<Rightarrow> 't mux_pane list \<Rightarrow>
    (bool \<times> 't mux_pane list \<times> 'j effect list) option" where
  "drain_panes f [] = Some (True, [], [])"
| "drain_panes f (p # ps) =
     Option.bind (f p) (\<lambda>(idle, p1, es).
       map_option (\<lambda>(idle', ps', es'). (idle \<and> idle', p1 # ps', es @ es')) (drain_panes f ps))"

definition drain_session :: "'t mux_env \<Rightarrow> (u64 \<Rightarrow> u64 \<Rightarrow> drain_io) \<Rightarrow> ('t, 'j) session \<Rightarrow>
    (bool \<times> ('t, 'j) session \<times> 'j effect list) option" where
  "drain_session ev io s =
     map_option (\<lambda>(idle, ps, es). (idle, s\<lparr>se_panes := ps\<rparr>, es))
       (drain_panes (\<lambda>p. drain_pane ev (io (se_id s) (pn_id p)) (se_id s) (session_revision s) p) (se_panes s))"

fun drain_sessions :: "'t mux_env \<Rightarrow> (u64 \<Rightarrow> u64 \<Rightarrow> drain_io) \<Rightarrow> ('t, 'j) session list \<Rightarrow>
    (bool \<times> ('t, 'j) session list \<times> 'j effect list) option" where
  "drain_sessions ev io [] = Some (True, [], [])"
| "drain_sessions ev io (s # ss) =
     Option.bind (drain_session ev io s) (\<lambda>(idle, s1, es).
       map_option (\<lambda>(idle', ss', es'). (idle \<and> idle', s1 # ss', es @ es')) (drain_sessions ev io ss))"

type_synonym exit_report = "u64 \<times> u64 \<times> int option \<times> bool"

text \<open>The sweep: every pane's child is asked for.\<close>

definition sweep_session :: "(u64 \<Rightarrow> int option option) \<Rightarrow> ('t, 'j) session \<Rightarrow> exit_report list \<times> ('t, 'j) session" where
  "sweep_session status s =
     (let seen = map (\<lambda>p. observe_pane_exit (status (pn_id p)) (se_id s) p) (se_panes s)
      in (List.map_filter fst seen, s\<lparr>se_panes := map snd seen\<rparr>))"

definition sweep_exits :: "(u64 \<Rightarrow> int option option) \<Rightarrow> ('t, 'j) daemon \<Rightarrow> exit_report list \<times> ('t, 'j) daemon" where
  "sweep_exits status d =
     (let seen = map (sweep_session status) (dm_sessions d)
      in (concat (map fst seen), d\<lparr>dm_sessions := map snd seen\<rparr>))"

text \<open>
  One iteration: the sweep where it is due, the pass over the panes, and the
  missed exits announced and pruned.  The answer is whether the thread then waits.
\<close>

definition drain_iteration :: "'t mux_env \<Rightarrow> bool \<Rightarrow> (u64 \<Rightarrow> int option option) \<Rightarrow> (u64 \<Rightarrow> u64 \<Rightarrow> drain_io) \<Rightarrow>
    ('t, 'j) daemon \<Rightarrow> (bool \<times> ('t, 'j) daemon) option" where
  "drain_iteration ev due status io d =
     Option.bind (if due then map_option (sweep_exits status) (reclaim_panes_from_departed_clients (ev_running ev) d)
                  else Some ([], d)) (\<lambda>(missed, d1).
       Option.bind (drain_sessions ev io (dm_sessions d1)) (\<lambda>(idle, ss, es).
         let d2 = emit_effects (d1\<lparr>dm_sessions := ss\<rparr>) es
         in if missed = [] then Some (idle, d2)
            else map_option (\<lambda>(_, d3). (False, emit_effects d3 [PublishCatalog]))
                   (prune_exited_panes (emit_effects d2
                      (map (\<lambda>(session_id, pane_id, raw, sent). BroadcastExited session_id pane_id raw sent) missed)))))"

section \<open>Output to viewers that keep up\<close>

definition watching :: "shared_client list \<Rightarrow> bool" where
  "watching cs \<longleftrightarrow> distinct (map sc_attachment cs) \<and> (\<forall>c\<in>set cs. rl_receiving (sc_relay c))"

lemma record_handover_sel [simp]:
  "pn_id (record_handover_output p v) = pn_id p" "pn_attachment (record_handover_output p v) = pn_attachment p"
  "pn_retained (record_handover_output p v) = pn_retained p" "pn_exited (record_handover_output p v) = pn_exited p"
  "pn_handover_waiters (record_handover_output p v) = pn_handover_waiters p"
  by (auto simp: record_handover_output_def Let_def split: option.splits)

lemma relay_output_watched:
  assumes "pn_attachment p = AttShared cs" "watching cs" "enc (EvOutput (pn_id p) (length v)) = Some frame"
  shows "relay_output enc p v = (False, p\<lparr>pn_attachment := AttShared (map (snd \<circ> try_queue (frame @ v)) cs)\<rparr>)"
  using assms queue_for_shared_clients_eq [of cs "pn_handover_waiters p" "frame @ v"]
  by (simp add: relay_output_def watching_def cong: filter_cong)

lemma watching_queued: "watching cs \<Longrightarrow> watching (map (snd \<circ> try_queue f) cs)"
  by (auto simp: watching_def try_queue_ok comp_def)

lemma take_output_watched:
  assumes "pn_attachment p = AttShared cs" "watching cs" "ev_encode ev (EvOutput (pn_id p) (length v)) = Some frame"
  shows "take_output ev i rvn v p =
    ((record_handover_output (p\<lparr>pn_retained := retained_push (ev_emulator ev) v (pn_retained p)\<rparr>) v)
       \<lparr>pn_attachment := AttShared (map (snd \<circ> try_queue (frame @ v)) cs)\<rparr>, [])"
  using assms by (simp add: take_output_def relay_output_watched [of _ cs _ v frame])

text \<open>A sequence of visible chunks, taken one after the other.\<close>

definition take_outputs :: "'t mux_env \<Rightarrow> u64 \<Rightarrow> u64 \<Rightarrow> bytes list \<Rightarrow> 't mux_pane \<Rightarrow> 't mux_pane" where
  "take_outputs ev session_id revision = fold (\<lambda>v p. fst (take_output ev session_id revision v p :: 't mux_pane \<times> unit effect list))"

definition frame_of :: "'t mux_env \<Rightarrow> u64 \<Rightarrow> bytes \<Rightarrow> bytes" where
  "frame_of ev i v = (case ev_encode ev (EvOutput i (length v)) of Some f \<Rightarrow> f @ v | None \<Rightarrow> [])"

text \<open>What the viewers and the daemon's own screen have been sent.\<close>

definition shown :: "'t mux_env \<Rightarrow> bytes list \<Rightarrow> 't mux_pane \<Rightarrow> 't mux_pane \<Rightarrow> bool" where
  "shown ev vs p p' \<longleftrightarrow>
     pn_id p' = pn_id p \<and> pn_exited p' = pn_exited p \<and>
     pn_retained p' = fold (retained_push (ev_emulator ev)) vs (pn_retained p) \<and>
     pn_handed_over p' = pn_handed_over (fold (\<lambda>v q. record_handover_output q v) vs p) \<and>
     (\<exists>cs cs'. pn_attachment p = AttShared cs \<and> pn_attachment p' = AttShared cs' \<and> watching cs' \<and>
        map sc_attachment cs' = map sc_attachment cs \<and>
        map (relay_stream \<circ> sc_relay) cs' = map (\<lambda>c. relay_stream (sc_relay c) @ concat (map (frame_of ev (pn_id p)) vs)) cs)"

lemma record_handover_cong:
  "pn_handed_over p = pn_handed_over q \<Longrightarrow>
   pn_handed_over (fold (\<lambda>v q. record_handover_output q v) vs p) = pn_handed_over (fold (\<lambda>v q. record_handover_output q v) vs q)"
proof (induction vs arbitrary: p q)
  case (Cons v vs)
  have "pn_handed_over (record_handover_output p v) = pn_handed_over (record_handover_output q v)"
    using Cons.prems by (auto simp: record_handover_output_def Let_def split: option.splits)
  then show ?case using Cons.IH by simp
qed simp

lemma take_outputs_shown:
  assumes "pn_attachment p = AttShared cs" "watching cs" "\<And>e. ev_encode ev e \<noteq> None"
  shows "shown ev vs p (take_outputs ev i rvn vs p)"
  using assms(1,2)
proof (induction vs arbitrary: p cs)
  case Nil
  then show ?case by (auto simp: shown_def take_outputs_def)
next
  case (Cons v vs)
  obtain f where f: "ev_encode ev (EvOutput (pn_id p) (length v)) = Some f" using assms(3) by blast
  define cs1 where "cs1 = map (snd \<circ> try_queue (f @ v)) cs"
  define p1 where "p1 = (record_handover_output (p\<lparr>pn_retained := retained_push (ev_emulator ev) v (pn_retained p)\<rparr>) v)
       \<lparr>pn_attachment := AttShared cs1\<rparr>"
  have step: "take_output ev i rvn v p = (p1, [] :: unit effect list)"
    using take_output_watched [OF Cons.prems f] by (simp add: p1_def cs1_def)
  have "watching cs1" "pn_attachment p1 = AttShared cs1"
    using watching_queued [OF Cons.prems(2)] by (simp_all add: cs1_def p1_def)
  note p1 = this
  let ?p = "take_outputs ev i rvn vs p1"
  have IH: "shown ev vs p1 ?p" by (rule Cons.IH [OF p1(2,1)])
  then obtain cs' where cs': "pn_attachment ?p = AttShared cs'" "watching cs'"
      "map sc_attachment cs' = map sc_attachment cs1"
      "map (relay_stream \<circ> sc_relay) cs' = map (\<lambda>c. relay_stream (sc_relay c) @ concat (map (frame_of ev (pn_id p1)) vs)) cs1"
    using p1(2) by (auto simp: shown_def)
  have sel: "pn_id p1 = pn_id p" "pn_exited p1 = pn_exited p" "map sc_attachment cs1 = map sc_attachment cs"
    "pn_retained p1 = retained_push (ev_emulator ev) v (pn_retained p)"
    "pn_handed_over p1 = pn_handed_over (record_handover_output p v)"
    by (auto simp: p1_def cs1_def record_handover_output_def Let_def split: option.splits)
  have "map (relay_stream \<circ> sc_relay) cs' =
      map (\<lambda>c. relay_stream (sc_relay c) @ concat (map (frame_of ev (pn_id p)) (v # vs))) cs"
    using cs'(4) Cons.prems(2) f sel(1) by (auto simp: cs1_def frame_of_def watching_def try_queue_ok)
  moreover have "take_outputs ev i rvn (v # vs) p = ?p" using step by (simp add: take_outputs_def)
  ultimately show ?case
    using IH cs' sel Cons.prems(1) record_handover_cong [of p1 "record_handover_output p v" vs, OF sel(5)]
    by (simp add: shown_def)
qed

lemma drain_exited_outputs:
  assumes "pn_attachment p = AttShared cs" "watching cs" "\<And>e. ev_encode ev e \<noteq> None"
    and "\<forall>rd\<in>set reads. rd_requests rd = []"
  shows "drain_exited ev i rvn reads p =
    Some (take_outputs ev i rvn (filter (\<lambda>v. v \<noteq> []) (map rd_visible reads)) p, [])"
  using assms(1,2,4)
proof (induction reads arbitrary: p cs)
  case Nil
  then show ?case by (simp add: take_outputs_def)
next
  case (Cons rd reads)
  let ?v = "rd_visible rd"
  show ?case
  proof (cases "?v = []")
    case True
    then show ?thesis using Cons.IH [OF Cons.prems(1,2)] Cons.prems(3) by (simp add: take_read_def)
  next
    case False
    obtain f where f: "ev_encode ev (EvOutput (pn_id p) (length ?v)) = Some f" using assms(3) by blast
    define q where "q = (record_handover_output (p\<lparr>pn_retained := retained_push (ev_emulator ev) ?v (pn_retained p)\<rparr>) ?v)
       \<lparr>pn_attachment := AttShared (map (snd \<circ> try_queue (f @ ?v)) cs)\<rparr>"
    note step = take_output_watched [OF Cons.prems(1,2) f, folded q_def]
    have q: "pn_attachment q = AttShared (map (snd \<circ> try_queue (f @ ?v)) cs)" by (simp add: q_def)
    show ?thesis
      using Cons.IH [OF q watching_queued [OF Cons.prems(2)]] False Cons.prems(3)
      by (simp add: take_read_def step take_outputs_def)
  qed
qed

section \<open>What a pass leaves alone\<close>

definition keeps_pane :: "'t mux_pane \<Rightarrow> 't mux_pane \<Rightarrow> bool" where
  "keeps_pane p q \<longleftrightarrow> pn_id q = pn_id p \<and> pn_exited q = pn_exited p \<and>
     pn_handover_waiters q = pn_handover_waiters p"

lemma keeps_refl [simp]: "keeps_pane p p"
  by (simp add: keeps_pane_def)

lemma keeps_trans: "keeps_pane p q \<Longrightarrow> keeps_pane q r \<Longrightarrow> keeps_pane p r"
  by (simp add: keeps_pane_def)

lemma keeps_update [simp]:
  "keeps_pane p (q\<lparr>pn_attachment := att\<rparr>) = keeps_pane p q" "keeps_pane p (q\<lparr>pn_retained := r\<rparr>) = keeps_pane p q"
  "keeps_pane p (q\<lparr>pn_pending_input := bs\<rparr>) = keeps_pane p q" "keeps_pane (p\<lparr>pn_pending_input := bs\<rparr>) q = keeps_pane p q"
  "keeps_pane p (q\<lparr>pn_handed_over := h\<rparr>) = keeps_pane p q" "keeps_pane p (q\<lparr>pn_attachment_client_id := c\<rparr>) = keeps_pane p q"
  "keeps_pane p (q\<lparr>pn_pty := t\<rparr>) = keeps_pane p q"
  by (simp_all add: keeps_pane_def)

lemma keeps_apply_size [simp]: "keeps_pane p (apply_size em q c l) = keeps_pane p q"
  by (simp add: keeps_pane_def apply_size_def Let_def split: option.splits)

lemma relay_output_keeps: "relay_output enc p v = (b, q) \<Longrightarrow> keeps_pane p q"
  by (auto simp: relay_output_def split: attachment.splits option.splits prod.splits)

lemma settle_keeps: "settle_shared_departure em enc i rvn p r = (q, offer) \<Longrightarrow> keeps_pane p q"
  by (auto simp: settle_shared_departure_def Let_def split: attachment.splits prod.splits if_splits)

lemma flush_keeps: "flush_pending_input answers p = Some (r, q) \<Longrightarrow> keeps_pane p q"
  by (auto simp: flush_pending_input_def Let_def split: if_splits option.splits)

lemma backpressure_keeps: "relay_backpressure now p = (h, e, q) \<Longrightarrow> keeps_pane p q"
  by (auto simp: relay_backpressure_def Let_def split: attachment.splits if_splits)

lemma filter_clipboard_keeps: "filter_clipboard_output enc rqs p = Some q \<Longrightarrow> keeps_pane p q"
proof (induction enc rqs p rule: filter_clipboard_output.induct)
  case (2 enc rq answers rest p)
  show ?case
  proof (cases "shared_viewer_count (pn_attachment p) = 1")
    case True
    then have "keeps_pane (snd (relay_output enc p (cr_frame rq))) q" using 2(1) [OF refl] 2(3) by simp
    then show ?thesis using relay_output_keeps keeps_trans by (metis surjective_pairing)
  next
    case False
    let ?q = "p\<lparr>pn_pending_input := pn_pending_input p @
         (if shared_viewer_count (pn_attachment p) = 0 then cr_no_viewer rq else cr_ambiguous rq)\<rparr>"
    obtain r p1 where fl: "flush_pending_input answers ?q = Some (r, p1)" "filter_clipboard_output enc rest p1 = Some q"
      using 2(3) False by (auto simp: Let_def split: option.splits)
    have "keeps_pane p1 q" by (rule 2(2) [OF refl False refl fl(1) refl fl(2)])
    then show ?thesis using flush_keeps [OF fl(1)] keeps_trans by fastforce
  qed
qed simp

lemma record_handover_keeps [simp]: "keeps_pane p (record_handover_output q v) = keeps_pane p q"
  by (simp add: keeps_pane_def)

lemma take_output_keeps:
  assumes "take_output ev i rvn v p = (q, es)"
  shows "keeps_pane p q"
proof -
  obtain b p2 where r: "relay_output (ev_encode ev)
      (record_handover_output (p\<lparr>pn_retained := retained_push (ev_emulator ev) v (pn_retained p)\<rparr>) v) v = (b, p2)"
    by fastforce
  have "keeps_pane p p2" using relay_output_keeps [OF r] by (simp add: keeps_pane_def)
  then show ?thesis
    using assms r by (auto simp: take_output_def dest!: settle_keeps intro: keeps_trans split: if_splits prod.splits)
qed

lemma take_read_keeps: "take_read ev i rvn rd p = Some (q, es) \<Longrightarrow> keeps_pane p q"
  by (auto simp: take_read_def dest!: filter_clipboard_keeps take_output_keeps intro: keeps_trans split: if_splits)

lemma drain_exited_keeps: "drain_exited ev i rvn reads p = Some (q, es) \<Longrightarrow> keeps_pane p q"
proof (induction reads arbitrary: p es)
  case (Cons rd reads)
  then show ?case by (auto dest!: take_read_keeps intro: keeps_trans split: bind_splits)
qed simp

lemma drain_pane_keeps:
  assumes "drain_pane ev io i rvn p = Some (idle, q, es)"
  shows "keeps_pane p q"
proof (cases "drain_reads (pn_attachment p)")
  case True
  then obtain fl p1 where fl: "(if pn_pending_input p = [] then Some (Blocked, p) else flush_pending_input (dio_answers io) p) =
      Some (fl, p1)"
    using assms by (auto simp: drain_pane_def split: option.splits)
  have p1: "keeps_pane p p1" using fl flush_keeps by (auto split: if_splits)
  obtain held ev' p2 where bp: "relay_backpressure (dio_now io) p1 = (held, ev', p2)" by (metis prod_cases3)
  obtain p3 offer where st: "(if ev' then settle_shared_departure (ev_emulator ev) (ev_encode ev) i rvn p2 True
      else (p2, None)) = (p3, offer)" by fastforce
  have "keeps_pane p2 p3" using st settle_keeps by (auto split: if_splits)
  then have p3: "keeps_pane p p3" using p1 backpressure_keeps [OF bp] keeps_trans by metis
  show ?thesis
    using assms True fl bp st p1 p3
    by (cases "dio_reads io")
      (auto simp: drain_pane_def Let_def simp del: drain_exited.simps dest!: drain_exited_keeps take_read_keeps
        intro: keeps_trans split: if_splits)
qed (use assms in \<open>simp add: drain_pane_def\<close>)

text \<open>
  A viewer that leaves while a clipboard request is relayed to it is dropped, and the
  departure is not settled: what the pane handed over stays.
\<close>

lemma clipboard_departure_unsettled:
  assumes "pn_attachment p = AttShared [c]" "\<not> rl_receiving (sc_relay c)" "pn_handover_waiters p = 0"
    and "enc (EvOutput (pn_id p) (length (cr_frame rq))) = Some f"
  shows "filter_clipboard_output enc [(rq, answers)] p = Some (p\<lparr>pn_attachment := AttNone\<rparr>)"
  using assms
  by (simp add: shared_viewer_count_def relay_output_def queue_for_shared_clients_eq Let_def collapse_empty_shared_def)

section \<open>Properties\<close>

text \<open>
  C23.  An exited pane is read out before anything else becomes of it: with every
  viewer's relay still receiving and no clipboard request in the output, a pass
  appends to every viewer's stream the frames of all that was left in the
  terminal, in the order it was read, pushes the same bytes into the retained
  screen, records them for a client that handed the pane over, keeps the viewers,
  and offers the pane to nobody.
\<close>

theorem last_output_is_relayed:
  assumes "pn_exited p" "pn_pending_input p = []" "pn_attachment p = AttShared cs" "watching cs"
    and "\<forall>e. ev_encode ev e \<noteq> None" "\<forall>rd\<in>set (dio_reads io). rd_requests rd = []"
  shows "\<exists>p'. drain_pane ev io i rvn p = Some (True, p', []) \<and>
    shown ev (filter (\<lambda>v. v \<noteq> []) (map rd_visible (dio_reads io))) p p'"
proof -
  let ?vs = "filter (\<lambda>v. v \<noteq> []) (map rd_visible (dio_reads io))"
  have "shown ev ?vs p (take_outputs ev i rvn ?vs p)"
    using take_outputs_shown [OF assms(3,4), of ev ?vs i rvn] assms(5) by blast
  moreover have "drain_pane ev io i rvn p = Some (True, take_outputs ev i rvn ?vs p, [])"
    using assms(1-3,6) drain_exited_outputs [OF assms(3,4), of ev "dio_reads io" i rvn] assms(5)
    by (simp add: drain_pane_def drain_reads_def)
  ultimately show ?thesis by blast
qed

theorem last_output_is_relayed_witness:
  "\<exists>c'. drain_pane (sample_env\<lparr>ev_encode := \<lambda>_. Some [9]\<rparr>)
      \<lparr>dio_answers = [], dio_reads = [\<lparr>rd_visible = [1, 2], rd_requests = []\<rparr>, \<lparr>rd_visible = [], rd_requests = []\<rparr>,
         \<lparr>rd_visible = [3], rd_requests = []\<rparr>], dio_backlogged = False, dio_now = 0\<rparr> 7 0
      ((sample_pane (AttShared [sample_client 1 None]) (80, 24))\<lparr>pn_exited := True\<rparr>) =
    Some (True, (sample_pane (AttShared [c']) (80, 24))\<lparr>pn_exited := True\<rparr>, [] :: unit effect list) \<and>
    relay_stream (sc_relay c') = [9, 1, 2, 9, 3]"
proof -
  let ?p = "(sample_pane (AttShared [sample_client 1 None]) (80, 24))\<lparr>pn_exited := True\<rparr>"
  let ?io = "\<lparr>dio_answers = [], dio_reads = [\<lparr>rd_visible = [1, 2], rd_requests = []\<rparr>, \<lparr>rd_visible = [], rd_requests = []\<rparr>,
         \<lparr>rd_visible = [3], rd_requests = []\<rparr>], dio_backlogged = False, dio_now = 0\<rparr>"
  let ?ev = "sample_env\<lparr>ev_encode := \<lambda>_. Some [9]\<rparr>"
  have "\<exists>p'. drain_pane ?ev ?io 7 0 ?p = Some (True, p', [] :: unit effect list) \<and>
    shown ?ev (filter (\<lambda>v. v \<noteq> []) (map rd_visible (dio_reads ?io))) ?p p'"
    by (rule last_output_is_relayed [of ?p "[sample_client 1 None]" ?ev ?io 7 0])
      (simp_all add: sample_pane_def watching_def sample_client_def sample_relay_def)
  then obtain p' where p': "drain_pane ?ev ?io 7 0 ?p = Some (True, p', [] :: unit effect list)" "shown ?ev [[1, 2], [3]] ?p p'"
    by auto
  then obtain c' where "pn_attachment p' = AttShared [c']" "relay_stream (sc_relay c') = [9, 1, 2, 9, 3]"
    by (auto simp: shown_def sample_pane_def sample_client_def sample_relay_def relay_stream_def writing_bytes_def frame_of_def)
  moreover have "\<exists>att. p' = ?p\<lparr>pn_attachment := att\<rparr>"
    using p'(1)
    by (auto simp: drain_pane_def sample_pane_def drain_reads_def take_read_def take_output_def relay_output_def
        record_handover_output_def sample_env_def retained_push_def grant_effect_def queue_for_shared_clients_def
        try_queue_def sample_client_def sample_relay_def)
  ultimately show ?thesis using p'(1) by (auto simp: sample_pane_def)
qed

end
