(* ===== verification/Mux_Attach.thy ===== *)
theory Mux_Attach
  imports Mux_Drain
begin

text \<open>
  Handing a pane to a client, exclusively or shared
  (\<open>crates/zmux/src/server/attachment.rs\<close>): who may attach, the handover by which
  a pane that one window holds becomes shared and is granted back, the
  snapshots that seed it, and the requests on a shared connection.

  A request that waits gives up the sessions lock, so it is modelled as the steps it
  makes under the lock; what the daemon is when a step begins is an argument.
  Whether a message could be sent is an input.  This is the Unix daemon: pausing a
  pane's reader and borrowing its descriptor cannot fail there.
\<close>

section \<open>Who attaches\<close>

record attacher =
  at_process_id :: u32
  at_peer_process_id :: "u32 option"
  at_client_id :: client_id
  at_stream_only :: bool
  at_relaying_for :: "client_id option"

definition attacher_verified :: "attacher \<Rightarrow> u32 option" where
  "attacher_verified a = verified_process_id (at_process_id a) (at_peer_process_id a)"

definition answers_handover :: "('t, 'j) session \<Rightarrow> u32 \<Rightarrow> bool" where
  "answers_handover s client =
     list_ex (\<lambda>p.
        (case pn_attachment p of
           AttRevoking h \<Rightarrow> h = client | AttGranting h \<Rightarrow> h = client | _ \<Rightarrow> False) \<or>
        (case pn_handed_over p of Some h \<Rightarrow> rh_client_process_id h = client | None \<Rightarrow> False)) (se_panes s)"

datatype secret_check = Verified nat | CheckFailed | CheckNotApplicable

datatype ('t, 'j) authorization =
    Refused "mux_error + 'j mux_response"
  | Granted "('t, 'j) daemon"
  | AsksSecret

text \<open>One pass of the loop, under the lock, with the proof obtained so far.\<close>

definition authorize_pass :: "('t, 'j) daemon \<Rightarrow> u64 \<Rightarrow> attacher \<Rightarrow> nat option \<Rightarrow> ('t, 'j) authorization" where
  "authorize_pass d session_id a proof_opt =
     (case find_session d session_id of
        None \<Rightarrow> Refused (Inl (NoSuchSession session_id))
      | Some s \<Rightarrow>
          if at_stream_only a \<and> \<not> se_offered s then Refused (Inl (NotOffered session_id))
          else if \<not> is_in_scope_for s (attacher_verified a)
          then Refused (Inl (OutOfScope session_id (case se_owner s of Some owner \<Rightarrow> owner | None \<Rightarrow> 0)))
          else
            let required = (if case attacher_verified a of Some pid \<Rightarrow> answers_handover s pid | None \<Rightarrow> False
                            then None else se_authentication s);
                authorized = (case required of
                                None \<Rightarrow> True
                              | Some au \<Rightarrow> proof_opt = Some (au_identity au))
            in if authorized then
                 Granted (put_session d (if se_offered s then s else s\<lparr>se_owner := Some (at_process_id a)\<rparr>))
               else AsksSecret)"

text \<open>
  The loop.  The secret is checked without the lock: every check is its outcome
  and the daemon the next pass finds.  A list that ends first is \<open>None\<close>.
\<close>

fun authorize_attach :: "('t, 'j) daemon \<Rightarrow> u64 \<Rightarrow> bool \<Rightarrow> attacher \<Rightarrow> nat option \<Rightarrow>
    (secret_check \<times> ('t, 'j) daemon) list \<Rightarrow> ((mux_error + 'j mux_response) + ('t, 'j) daemon) option" where
  "authorize_attach d session_id has_secret a proof_opt checks =
     (case authorize_pass d session_id a proof_opt of
        Refused r \<Rightarrow> Some (Inl r)
      | Granted d' \<Rightarrow> Some (Inr d')
      | AsksSecret \<Rightarrow>
          if \<not> has_secret then Some (Inl (Inr RespAuthenticationRequired))
          else (case checks of
                  [] \<Rightarrow> None
                | (Verified v, d1) # rest \<Rightarrow> authorize_attach d1 session_id has_secret a (Some v) rest
                | (CheckFailed, d1) # rest \<Rightarrow> Some (Inl (Inr RespAuthenticationFailed))
                | (CheckNotApplicable, d1) # rest \<Rightarrow> authorize_attach d1 session_id has_secret a proof_opt rest))"

section \<open>Attaching\<close>

record attach_io =
  ai_relay_started :: bool
  ai_sent :: bool
  ai_replayed :: bool
  ai_now :: nat

definition new_relay :: relay where
  "new_relay = \<lparr>rl_frames = [], rl_writing = None, rl_socket = [], rl_receiving = True, rl_evicted = False,
     rl_queued = 0, rl_written = 0\<rparr>"

text \<open>A pane of a session is looked up, and given back changed.\<close>

definition on_pane :: "('t, 'j) daemon \<Rightarrow> u64 \<Rightarrow> u64 \<Rightarrow>
    ('t mux_pane \<Rightarrow> (mux_error + 'j mux_response) \<times> ('t, 'j) daemon) \<Rightarrow> (mux_error + 'j mux_response) \<times> ('t, 'j) daemon" where
  "on_pane d session_id pane_id act =
     (case find_session d session_id of
        None \<Rightarrow> (Inl (NoSuchSession session_id), d)
      | Some s \<Rightarrow>
          (case find_pane s pane_id of
             None \<Rightarrow> (Inl (NoSuchPane session_id pane_id), d)
           | Some p \<Rightarrow> act p))"

definition store_pane :: "('t, 'j) daemon \<Rightarrow> u64 \<Rightarrow> 't mux_pane \<Rightarrow> ('t, 'j) daemon" where
  "store_pane d session_id p =
     (case find_session d session_id of None \<Rightarrow> d | Some s \<Rightarrow> put_session d (put_pane s p))"

definition release_failed_handover :: "('t, 'j) daemon \<Rightarrow> u64 \<Rightarrow> u64 \<Rightarrow> client_id \<Rightarrow> ('t, 'j) daemon" where
  "release_failed_handover d session_id pane_id client =
     emit_effects
       (case find_session d session_id of
          None \<Rightarrow> d
        | Some s \<Rightarrow>
            (case find_pane s pane_id of
               None \<Rightarrow> d
             | Some p \<Rightarrow>
                 if pn_attachment_client_id p = None \<or> pn_attachment_client_id p = Some client
                 then store_pane d session_id (release_pane p) else d))
       [NotifyWaiters, PublishCatalog, WakeDrain]"

definition attach_exclusive :: "'t mux_env \<Rightarrow> attach_io \<Rightarrow> ('t, 'j) daemon \<Rightarrow> u64 \<Rightarrow> u64 \<Rightarrow> u32 \<Rightarrow> client_id \<Rightarrow> 'j \<Rightarrow>
    bg_summary \<Rightarrow> (mux_error + 'j mux_response) \<times> ('t, 'j) daemon" where
  "attach_exclusive ev io d session_id pane_id client client_name state summary =
     on_pane d session_id pane_id (\<lambda>p.
       let replay = retained_snapshot (ev_emulator ev) (pn_retained p);
           p1 = p\<lparr>pn_attachment := exclusive_attachment client,
                  pn_attachment_client_id := (if client = 0 then None else Some client_name),
                  pn_retained := retained_clear (ev_emulator ev) (pn_retained p)\<rparr>;
           d1 = store_pane d session_id p1
       in if \<not> ai_sent io then (Inl SendFailed, release_failed_handover d1 session_id pane_id client_name)
          else if replay \<noteq> [] \<and> \<not> ai_replayed io then (Inl SendFailed, d1)
          else (Inr (RespAttached pane_id replay state summary), emit_effects d1 [PublishCatalog, WakeDrain]))"

text \<open>Joining the shared set: up to the point where the connection is served.\<close>

definition attach_shared :: "'t mux_env \<Rightarrow> attach_io \<Rightarrow> ('t, 'j) daemon \<Rightarrow> u64 \<Rightarrow> u64 \<Rightarrow> attacher \<Rightarrow> 'j \<Rightarrow> bg_summary \<Rightarrow>
    (mux_error + 'j mux_response) \<times> ('t, 'j) daemon" where
  "attach_shared ev io d session_id pane_id a state summary =
     on_pane d session_id pane_id (\<lambda>p.
       case pn_attachment p of
         AttShared clients \<Rightarrow>
           if \<not> ai_relay_started io then (Inl RelayNotStarted, d)
           else
             let client = \<lparr>sc_process_id = at_process_id a, sc_peer_process_id = at_peer_process_id a,
                   sc_client_id = at_client_id a, sc_attachment = dm_next_attachment d,
                   sc_stream_only = at_stream_only a, sc_relaying_for = at_relaying_for a, sc_relay = new_relay,
                   sc_written_seen = 0, sc_wrote_at = ai_now io, sc_size = None, sc_input_sent = False\<rparr>;
                 p1 = p\<lparr>pn_attachment := AttShared (clients @ [client])\<rparr>;
                 size = effective_size p1;
                 mine = (case pn_handed_over p1 of
                           Some h \<Rightarrow> Some (rh_client_process_id h) = attacher_verified a | None \<Rightarrow> False);
                 replay = (case pn_handed_over p1 of
                             Some h \<Rightarrow> if mine then rh_output h else retained_snapshot (ev_emulator ev) (pn_retained p1)
                           | None \<Rightarrow> retained_snapshot (ev_emulator ev) (pn_retained p1));
                 p2 = (if mine then p1\<lparr>pn_handed_over := None\<rparr> else p1);
                 d1 = store_pane (d\<lparr>dm_next_attachment := dm_next_attachment d + 1\<rparr>) session_id p2
             in if \<not> ai_sent io \<or> replay \<noteq> [] \<and> \<not> ai_replayed io then (Inl SendFailed, d1)
                else (Inr (RespSharedAttached pane_id replay state summary (fst size) (snd size)),
                      emit_effects d1 [PublishCatalog, WakeDrain])
       | _ \<Rightarrow> (Inl (NotShared pane_id), d))"

text \<open>An attach answers, or waits for a handover.\<close>

datatype ('t, 'j) attaching =
    Answers "mux_error + 'j mux_response" "('t, 'j) daemon"
  | Waits "('t, 'j) daemon"

definition answering :: "(mux_error + 'j mux_response) \<times> ('t, 'j) daemon \<Rightarrow> ('t, 'j) attaching" where
  "answering r = Answers (fst r) (snd r)"

definition make_shared :: "'t mux_pane \<Rightarrow> 't mux_pane" where
  "make_shared p = p\<lparr>pn_attachment := AttShared [], pn_attachment_client_id := None\<rparr>"

definition attach_pane :: "'t mux_env \<Rightarrow> attach_io \<Rightarrow> ('t, 'j) daemon \<Rightarrow> u64 \<Rightarrow> attacher \<Rightarrow> bool \<Rightarrow> 'j \<Rightarrow> bg_summary \<Rightarrow>
    't mux_pane \<Rightarrow> ('t, 'j) attaching" where
  "attach_pane ev io d session_id a force_shared state summary p0 =
     (let pane_id = pn_id p0;
          joins = (at_stream_only a \<or> force_shared);
          p = (if joins \<and> pn_attachment p0 = AttNone then make_shared p0 else p0);
          d1 = store_pane d session_id p;
          shared = (case pn_attachment p of AttShared _ \<Rightarrow> True | _ \<Rightarrow> False)
      in if joins \<and> shared then answering (attach_shared ev io d1 session_id pane_id a state summary)
         else if force_shared then Answers (Inl (NotSharedStream pane_id)) d1
         else if \<not> at_stream_only a \<and>
                 (pn_attachment p = AttNone \<or>
                  (case pn_attachment p of AttExclusive h \<Rightarrow> Some h = attacher_verified a | _ \<Rightarrow> False))
         then answering (attach_exclusive ev io d1 session_id pane_id (at_process_id a) (at_client_id a) state summary)
         else if shared then answering (attach_shared ev io d1 session_id pane_id a state summary)
         else
           (case pn_attachment p of
              AttExclusive h \<Rightarrow>
                Waits (emit_effects (store_pane d1 session_id
                    (p\<lparr>pn_attachment := AttRevoking h, pn_handover_waiters := pn_handover_waiters p + 1\<rparr>))
                  [SendProcess h (EvRevoke session_id pane_id)])
            | _ \<Rightarrow> Waits (store_pane d1 session_id (p\<lparr>pn_handover_waiters := pn_handover_waiters p + 1\<rparr>))))"

definition choose_pane :: "('t, 'j) session \<Rightarrow> u64 option \<Rightarrow> mux_error + u64" where
  "choose_pane s pane_opt =
     (case pane_opt of
        Some i \<Rightarrow> Inr i
      | None \<Rightarrow> (case find (\<lambda>p. \<not> pn_exited p) (se_panes s) of
                   Some p \<Rightarrow> Inr (pn_id p) | None \<Rightarrow> Inl (NoPanes (se_id s))))"

text \<open>\<open>attach\<close> after \<open>authorize_attach\<close> has returned the daemon it found the session in.\<close>

definition attach :: "'t mux_env \<Rightarrow> attach_io \<Rightarrow> ('t, 'j) daemon \<Rightarrow> u64 \<Rightarrow> u64 option \<Rightarrow> attacher \<Rightarrow> bool \<Rightarrow>
    ('t, 'j) attaching option" where
  "attach ev io d session_id pane_opt a force_shared =
     (case find_session d session_id of
        None \<Rightarrow> None
      | Some s0 \<Rightarrow>
          (case (if se_offered s0 then normalize_shared_state s0 else Some (Inr (shared_state_or_new s0), s0, [])) of
             None \<Rightarrow> None
           | Some (Inl e, s, es) \<Rightarrow> Some (Answers (Inl e) (emit_effects (put_session d s) es))
           | Some (Inr _, s, es) \<Rightarrow>
               (case catalog_summary s of
                  None \<Rightarrow> None
                | Some summary \<Rightarrow>
                    let d1 = emit_effects (put_session d s) es
                    in case choose_pane s pane_opt of
                         Inl e \<Rightarrow> Some (Answers (Inl e) d1)
                       | Inr pane_id \<Rightarrow>
                           (case find_pane s pane_id of
                              None \<Rightarrow> Some (Answers (Inl (NoSuchPane session_id pane_id)) d1)
                            | Some p \<Rightarrow>
                                if pn_exited p then Some (Answers (Inl (PaneEnded session_id pane_id)) d1)
                                else Some (attach_pane ev io d1 session_id a force_shared (se_state s) summary p)))))"

section \<open>Waiting for a handover\<close>

text \<open>The deadline has passed.\<close>

definition handover_times_out :: "('t, 'j) daemon \<Rightarrow> u64 \<Rightarrow> u64 \<Rightarrow> (mux_error + 'j mux_response) \<times> ('t, 'j) daemon" where
  "handover_times_out d session_id pane_id =
     (Inl (HandoverTimedOut pane_id),
      case find_session d session_id of
        None \<Rightarrow> d
      | Some s \<Rightarrow>
          (case find_pane s pane_id of
             None \<Rightarrow> d | Some p \<Rightarrow> store_pane d session_id (finish_handover_waiter p True)))"

text \<open>What a waiter does with the pane it finds when it is woken.\<close>

definition await_pane :: "'t mux_env \<Rightarrow> attach_io \<Rightarrow> ('t, 'j) daemon \<Rightarrow> u64 \<Rightarrow> attacher \<Rightarrow> 'j \<Rightarrow> bg_summary \<Rightarrow>
    't mux_pane \<Rightarrow> ('t, 'j) attaching" where
  "await_pane ev io d session_id a state summary p =
     (let pane_id = pn_id p;
          exclusive = (\<lambda>q. answering (attach_exclusive ev io (store_pane d session_id q) session_id pane_id
                             (at_process_id a) (at_client_id a) state summary));
          shared = (\<lambda>q. answering (attach_shared ev io (store_pane d session_id q) session_id pane_id a state summary));
          dead = (\<lambda>h. if \<not> ev_running ev h then exclusive (finish_handover_waiter (release_pane p) True) else Waits d)
      in case pn_attachment p of
           AttShared _ \<Rightarrow> shared (finish_handover_waiter p False)
         | AttNone \<Rightarrow>
             (let q = finish_handover_waiter p True
              in if at_stream_only a then shared (make_shared q) else exclusive q)
         | AttExclusive h \<Rightarrow>
             if \<not> at_stream_only a \<and> Some h = attacher_verified a then exclusive (finish_handover_waiter p True)
             else Waits (emit_effects (store_pane d session_id (p\<lparr>pn_attachment := AttRevoking h\<rparr>))
                    [SendProcess h (EvRevoke session_id pane_id)])
         | AttGranting h \<Rightarrow> dead h
         | AttRevoking h \<Rightarrow> dead h)"

definition await_handover :: "'t mux_env \<Rightarrow> attach_io \<Rightarrow> ('t, 'j) daemon \<Rightarrow> u64 \<Rightarrow> u64 \<Rightarrow> attacher \<Rightarrow>
    ('t, 'j) attaching option" where
  "await_handover ev io d session_id pane_id a =
     (case find_session d session_id of
        None \<Rightarrow> Some (Answers (Inl (NoSuchSession session_id)) d)
      | Some s \<Rightarrow>
          (case catalog_summary s of
             None \<Rightarrow> None
           | Some summary \<Rightarrow>
               (case find_pane s pane_id of
                  None \<Rightarrow> Some (Answers (Inl (NoSuchPane session_id pane_id)) d)
                | Some p \<Rightarrow>
                    if pn_exited p
                    then Some (Answers (Inl (PaneEnded session_id pane_id))
                           (store_pane d session_id (finish_handover_waiter p True)))
                    else Some (await_pane ev io d session_id a (se_state s) summary p))))"

section \<open>Snapshots and grants\<close>

definition caller_process_id :: "('t, 'j) session \<Rightarrow> u32 \<Rightarrow> u32 option \<Rightarrow> u32 option" where
  "caller_process_id s claimed peer =
     (if se_authentication s \<noteq> None then verified_process_id claimed peer
      else Some (control_process_id claimed peer))"

definition snapshot :: "'t mux_env \<Rightarrow> ('t, 'j) daemon \<Rightarrow> u64 \<Rightarrow> u64 \<Rightarrow> bytes \<Rightarrow> u16 \<Rightarrow> u16 \<Rightarrow> u32 \<Rightarrow> u32 option \<Rightarrow>
    (mux_error + 'j mux_response) \<times> ('t, 'j) daemon" where
  "snapshot ev d session_id pane_id bs columns lines claimed peer =
     (case find_session d session_id of
        None \<Rightarrow> (Inl (NoSuchSession session_id), d)
      | Some s \<Rightarrow>
          (case find_pane s pane_id of
             None \<Rightarrow> (Inl (NoSuchPane session_id pane_id), d)
           | Some p \<Rightarrow>
               (case pn_attachment p of
                  AttRevoking h \<Rightarrow>
                    if Some h \<noteq> caller_process_id s claimed peer then (Inl (HeldByAnother pane_id), d)
                    else
                      let p1 = p\<lparr>pn_handed_over := Some \<lparr>rh_client_process_id = h, rh_output = []\<rparr>\<rparr>;
                          p2 = seed_retained_screen_with_fallback (ev_emulator ev) p1 bs (columns, lines)
                      in (Inr RespOk, emit_effects (store_pane d session_id (make_shared p2))
                            [NotifyWaiters, PublishCatalog, WakeDrain])
                | AttExclusive h \<Rightarrow>
                    if Some h \<noteq> caller_process_id s claimed peer then (Inl (HeldByAnother pane_id), d)
                    else (Inr RespOk, store_pane d session_id
                            (seed_retained_screen_with_fallback (ev_emulator ev) p bs (columns, lines)))
                | _ \<Rightarrow> (Inl (NotShowingExclusively pane_id), d))))"

definition is_sole_viewer :: "shared_client list \<Rightarrow> u32 \<Rightarrow> bool" where
  "is_sole_viewer clients caller =
     (case clients of [c] \<Rightarrow> \<not> sc_stream_only c \<and> sc_peer_process_id c = Some caller | _ \<Rightarrow> False)"

text \<open>The first half of a grant: the pane is taken out of the relay; the answer is the relay to be drained.\<close>

definition take_exclusive_begin :: "('t, 'j) daemon \<Rightarrow> u64 \<Rightarrow> u64 \<Rightarrow> u32 \<Rightarrow> u32 option \<Rightarrow> client_id \<Rightarrow> bool \<Rightarrow>
    (mux_error + relay) \<times> ('t, 'j) daemon" where
  "take_exclusive_begin d session_id pane_id claimed peer client stream_only =
     (if stream_only then (Inl StreamOnlyTake, d)
      else case verified_process_id claimed peer of
        None \<Rightarrow> (Inl (NotConfirmed claimed), d)
      | Some caller \<Rightarrow>
          (case Option.bind (find_session d session_id) (\<lambda>s. find_pane s pane_id) of
             None \<Rightarrow> (Inl (NoSuchPane session_id pane_id), d)
           | Some p \<Rightarrow>
               (case pn_attachment p of
                  AttShared clients \<Rightarrow>
                    if is_sole_viewer clients caller then
                      (Inr (sc_relay (last clients)),
                       store_pane d session_id (p\<lparr>pn_attachment := AttGranting claimed, pn_attachment_client_id := Some client\<rparr>))
                    else (Inl (NotAlone pane_id), d)
                | _ \<Rightarrow> (Inl (NotAlone pane_id), d))))"

text \<open>The second half, once the relay has drained or the wait for it has ended.\<close>

definition take_exclusive_finish :: "'t mux_env \<Rightarrow> attach_io \<Rightarrow> ('t, 'j) daemon \<Rightarrow> u64 \<Rightarrow> u64 \<Rightarrow> u32 \<Rightarrow> client_id \<Rightarrow>
    'j \<Rightarrow> bool \<Rightarrow> (mux_error + 'j mux_response) \<times> ('t, 'j) daemon" where
  "take_exclusive_finish ev io d session_id pane_id claimed client null flushed =
     (case find_session d session_id of
        None \<Rightarrow> (Inl (NoSuchSession session_id), d)
      | Some s \<Rightarrow>
          (case find_pane s pane_id of
             None \<Rightarrow> (Inl (NoSuchPane session_id pane_id), d)
           | Some p \<Rightarrow>
               if \<not> flushed then
                 (Inl (NotDrained pane_id),
                  emit_effects (store_pane d session_id (release_pane p)) [NotifyWaiters, PublishCatalog, WakeDrain])
               else
                 let p1 = p\<lparr>pn_attachment := exclusive_attachment claimed, pn_attachment_client_id := Some client,
                            pn_retained := retained_clear (ev_emulator ev) (pn_retained p), pn_handed_over := None\<rparr>;
                     d1 = store_pane d session_id p1
                 in if \<not> ai_sent io then (Inl SendFailed, release_failed_handover d1 session_id pane_id client)
                    else (Inr (RespAttached pane_id [] null (se_summary s)),
                          emit_effects d1 [NotifyWaiters, PublishCatalog, WakeDrain])))"

definition release_exclusive :: "('t, 'j) daemon \<Rightarrow> u64 \<Rightarrow> u64 \<Rightarrow> u32 \<Rightarrow> client_id \<Rightarrow> u32 option \<Rightarrow>
    (mux_error + 'j mux_response) \<times> ('t, 'j) daemon" where
  "release_exclusive d session_id pane_id claimed client peer =
     (case find_session d session_id of
        None \<Rightarrow> (Inl (NoSuchPane session_id pane_id), d)
      | Some s \<Rightarrow>
          (case find_pane s pane_id of
             None \<Rightarrow> (Inl (NoSuchPane session_id pane_id), d)
           | Some p \<Rightarrow>
               (case (case pn_attachment p of
                        AttExclusive h \<Rightarrow> Some h | AttGranting h \<Rightarrow> Some h | AttRevoking h \<Rightarrow> Some h | _ \<Rightarrow> None) of
                  None \<Rightarrow> (Inl (NotHeldExclusively pane_id), d)
                | Some h \<Rightarrow>
                    if Some h \<noteq> caller_process_id s claimed peer then (Inl (HeldByAnother pane_id), d)
                    else if pn_attachment_client_id p \<noteq> None \<and> pn_attachment_client_id p \<noteq> Some client
                    then (Inl (NewerAttachment pane_id), d)
                    else (Inr RespOk, release_failed_handover d session_id pane_id client))))"

section \<open>A shared connection\<close>

definition serve_input :: "write_result list \<Rightarrow> ('t, 'j) daemon \<Rightarrow> u64 \<Rightarrow> u64 \<Rightarrow> u64 \<Rightarrow> bytes \<Rightarrow>
    ((mux_error + unit) \<times> ('t, 'j) daemon) option" where
  "serve_input answers d session_id pane_id att bs =
     (case Option.bind (find_session d session_id) (\<lambda>s. find_pane s pane_id) of
        None \<Rightarrow> Some (Inl (NoSuchPane session_id pane_id), d)
      | Some p \<Rightarrow>
          (case pn_attachment p of
             AttShared clients \<Rightarrow>
               (case update_first (\<lambda>c. sc_attachment c = att) (\<lambda>c. c\<lparr>sc_input_sent := True\<rparr>) clients of
                  None \<Rightarrow> Some (Inl (NotThisViewer pane_id), d)
                | Some clients' \<Rightarrow>
                    map_option (\<lambda>(_, p'). (Inr (), emit_effects (store_pane d session_id p') [WakeDrain]))
                      (flush_pending_input answers
                         (p\<lparr>pn_attachment := AttShared clients', pn_pending_input := pn_pending_input p @ bs\<rparr>)))
           | _ \<Rightarrow> Some (Inl (NotAShare pane_id), d)))"

definition serve_resize :: "'t mux_env \<Rightarrow> ('t, 'j) daemon \<Rightarrow> u64 \<Rightarrow> u64 \<Rightarrow> u64 \<Rightarrow> u64 option \<Rightarrow> u16 \<Rightarrow> u16 \<Rightarrow>
    (mux_error + unit) \<times> ('t, 'j) daemon" where
  "serve_resize ev d session_id pane_id att revision columns lines =
     (case find_session d session_id of
        None \<Rightarrow> (Inl (NoSuchSession session_id), d)
      | Some s \<Rightarrow>
          let current = session_revision s;
              viewer = (case find_pane s pane_id of
                          Some p \<Rightarrow> (case pn_attachment p of
                                      AttShared clients \<Rightarrow> find (\<lambda>c. sc_attachment c = att) clients | _ \<Rightarrow> None)
                        | None \<Rightarrow> None);
              relay = (case viewer of Some c \<Rightarrow> sc_relaying_for c \<noteq> None | None \<Rightarrow> False)
          in if revision \<noteq> Some current \<and> \<not> relay then (Inr (), d)
             else case find_pane s pane_id of
                    None \<Rightarrow> (Inl (NoSuchPane session_id pane_id), d)
                  | Some p \<Rightarrow>
                      (case (case pn_attachment p of
                               AttShared clients \<Rightarrow>
                                 update_first (\<lambda>c. sc_attachment c = att) (\<lambda>c. c\<lparr>sc_size := Some (columns, lines)\<rparr>) clients
                             | _ \<Rightarrow> None) of
                         None \<Rightarrow> (Inr (), d)
                       | Some clients' \<Rightarrow>
                           let p1 = p\<lparr>pn_attachment := AttShared clients'\<rparr>;
                               eff = effective_size p1;
                               applied = (ts_columns (pn_size p1), ts_lines (pn_size p1));
                               p2 = (if eff \<noteq> applied then apply_size (ev_emulator ev) p1 (fst eff) (snd eff) else p1);
                               p3 = (if should_broadcast_size (columns, lines) eff applied
                                     then p2\<lparr>pn_attachment := broadcast_size (ev_encode ev) session_id pane_id current
                                            (pn_attachment p2) (pn_handover_waiters p2) (fst eff) (snd eff)\<rparr>
                                     else p2)
                           in (Inr (), store_pane d session_id p3)))"

section \<open>Looking up a pane\<close>

definition pane_of :: "('t, 'j) daemon \<Rightarrow> u64 \<Rightarrow> u64 \<Rightarrow> 't mux_pane option" where
  "pane_of d i j = Option.bind (find_session d i) (\<lambda>s. find_pane s j)"

lemma pane_of_Some: "pane_of d i j = Some p \<longleftrightarrow> (\<exists>s. find_session d i = Some s \<and> find_pane s j = Some p)"
  by (simp add: pane_of_def bind_eq_Some_conv)

lemma find_paneD: "find_pane s j = Some p \<Longrightarrow> p \<in> set (se_panes s) \<and> pn_id p = j"
  unfolding find_pane_def by (rule find_id)

lemma pane_of_id: "pane_of d i j = Some p \<Longrightarrow> pn_id p = j"
  by (auto simp: pane_of_Some dest: find_paneD)

lemma on_pane_Some [simp]: "pane_of d i j = Some p \<Longrightarrow> on_pane d i j act = act p"
  by (auto simp: on_pane_def pane_of_Some)

lemma find_put_pane [simp]: "find_pane s j = Some p \<Longrightarrow> pn_id q = j \<Longrightarrow> find_pane (put_pane s q) j = Some q"
  using replace_first_find [of pn_id j "se_panes s" p q] by (simp add: find_pane_def put_pane_def)

lemma put_pane_sel [simp]:
  "se_id (put_pane s q) = se_id s" "se_offered (put_pane s q) = se_offered s" "se_owner (put_pane s q) = se_owner s"
  "se_authentication (put_pane s q) = se_authentication s" "se_state (put_pane s q) = se_state s"
  "se_summary (put_pane s q) = se_summary s"
  by (simp_all add: put_pane_def)

lemma find_store_pane:
  "find_session d i = Some s \<Longrightarrow> find_session (store_pane d i q) i = Some (put_pane s q)"
  using find_sessionD [of d i s] by (simp add: store_pane_def)

lemma pane_of_store [simp]: "pane_of d i j = Some p \<Longrightarrow> pn_id q = j \<Longrightarrow> pane_of (store_pane d i q) i j = Some q"
  by (auto simp: pane_of_Some find_store_pane)

lemma store_pane_same [simp]: "pane_of d i j = Some p \<Longrightarrow> store_pane d i p = d"
  using replace_first_same [of pn_id j _ p]
  by (auto simp: pane_of_Some store_pane_def put_pane_def find_pane_def)

lemma pane_of_emit [simp]: "pane_of (emit_effects d es) i j = pane_of d i j"
  by (simp add: pane_of_def)

lemma pane_of_next [simp]: "pane_of (d\<lparr>dm_next_attachment := n\<rparr>) i j = pane_of d i j"
  by (simp add: pane_of_def find_session_def)

lemma make_shared_sel [simp]:
  "pn_attachment (make_shared p) = AttShared []" "pn_id (make_shared p) = pn_id p"
  "pn_handover_waiters (make_shared p) = pn_handover_waiters p" "pn_retained (make_shared p) = pn_retained p"
  "pn_handed_over (make_shared p) = pn_handed_over p" "pn_exited (make_shared p) = pn_exited p"
  by (simp_all add: make_shared_def)

lemma release_pane_sel [simp]:
  "pn_attachment (release_pane p) = AttNone" "pn_id (release_pane p) = pn_id p"
  "pn_handover_waiters (release_pane p) = pn_handover_waiters p" "pn_retained (release_pane p) = pn_retained p"
  by (simp_all add: release_pane_def)

lemma finish_waiter_sel [simp]:
  "pn_id (finish_handover_waiter p b) = pn_id p" "pn_retained (finish_handover_waiter p b) = pn_retained p"
  "pn_handover_waiters (finish_handover_waiter p b) = pn_handover_waiters p - 1"
  "pn_exited (finish_handover_waiter p b) = pn_exited p"
  by (simp_all add: finish_handover_waiter_def Let_def)

lemma finish_waiter_attachment:
  "pn_attachment p \<noteq> AttShared [] \<or> \<not> b \<Longrightarrow> pn_attachment (finish_handover_waiter p b) = pn_attachment p \<and>
     pn_handed_over (finish_handover_waiter p b) = pn_handed_over p"
  by (auto simp: finish_handover_waiter_def Let_def)

lemma release_failed_pane:
  assumes "pane_of d i j = Some p"
  shows "pane_of (release_failed_handover d i j c) i j =
    Some (if pn_attachment_client_id p = None \<or> pn_attachment_client_id p = Some c then release_pane p else p)"
proof -
  obtain s where s: "find_session d i = Some s" "find_pane s j = Some p" using assms by (auto simp: pane_of_Some)
  then show ?thesis
    using assms pane_of_id [OF assms] by (simp add: release_failed_handover_def)
qed

section \<open>The answers of an attach\<close>

definition wins_exclusive :: "'t emulator \<Rightarrow> u32 \<Rightarrow> client_id \<Rightarrow> 't mux_pane \<Rightarrow> 't mux_pane" where
  "wins_exclusive em pid c p =
     p\<lparr>pn_attachment := exclusive_attachment pid, pn_attachment_client_id := (if pid = 0 then None else Some c),
       pn_retained := retained_clear em (pn_retained p)\<rparr>"

lemma attach_exclusive_eq:
  assumes "pane_of d i j = Some p"
  shows "attach_exclusive ev io d i j pid c state summary =
    (let replay = retained_snapshot (ev_emulator ev) (pn_retained p);
         d1 = store_pane d i (wins_exclusive (ev_emulator ev) pid c p)
     in if \<not> ai_sent io then (Inl SendFailed, release_failed_handover d1 i j c)
        else if replay \<noteq> [] \<and> \<not> ai_replayed io then (Inl SendFailed, d1)
        else (Inr (RespAttached j replay state summary), emit_effects d1 [PublishCatalog, WakeDrain]))"
  using assms by (simp add: attach_exclusive_def wins_exclusive_def Let_def)

definition joining :: "attach_io \<Rightarrow> attacher \<Rightarrow> u64 \<Rightarrow> shared_client" where
  "joining io a att = \<lparr>sc_process_id = at_process_id a, sc_peer_process_id = at_peer_process_id a,
     sc_client_id = at_client_id a, sc_attachment = att, sc_stream_only = at_stream_only a,
     sc_relaying_for = at_relaying_for a, sc_relay = new_relay, sc_written_seen = 0, sc_wrote_at = ai_now io,
     sc_size = None, sc_input_sent = False\<rparr>"

text \<open>What a viewer that joins is sent, and the pane it joins.\<close>

definition handed_over_by :: "'t mux_pane \<Rightarrow> u32 option \<Rightarrow> revoke_handover option" where
  "handed_over_by p verified =
     (case pn_handed_over p of
        Some h \<Rightarrow> if Some (rh_client_process_id h) = verified then Some h else None | None \<Rightarrow> None)"

definition join_replay :: "'t emulator \<Rightarrow> u32 option \<Rightarrow> 't mux_pane \<Rightarrow> bytes" where
  "join_replay em verified p =
     (case handed_over_by p verified of Some h \<Rightarrow> rh_output h | None \<Rightarrow> retained_snapshot em (pn_retained p))"

definition joined :: "attach_io \<Rightarrow> attacher \<Rightarrow> u64 \<Rightarrow> shared_client list \<Rightarrow> 't mux_pane \<Rightarrow> 't mux_pane" where
  "joined io a att cs p =
     p\<lparr>pn_attachment := AttShared (cs @ [joining io a att]),
       pn_handed_over := (if handed_over_by p (attacher_verified a) = None then pn_handed_over p else None)\<rparr>"

lemma attach_shared_eq:
  assumes "pane_of d i j = Some p" "pn_attachment p = AttShared cs"
  shows "attach_shared ev io d i j a state summary =
    (if \<not> ai_relay_started io then (Inl RelayNotStarted, d)
     else
       let q = joined io a (dm_next_attachment d) cs p;
           replay = join_replay (ev_emulator ev) (attacher_verified a) p;
           d1 = store_pane (d\<lparr>dm_next_attachment := dm_next_attachment d + 1\<rparr>) i q
       in if \<not> ai_sent io \<or> replay \<noteq> [] \<and> \<not> ai_replayed io then (Inl SendFailed, d1)
          else (Inr (RespSharedAttached j replay state summary (fst (effective_size q)) (snd (effective_size q))),
                emit_effects d1 [PublishCatalog, WakeDrain]))"
proof -
  have eff: "effective_size (q\<lparr>pn_handed_over := h\<rparr>) = effective_size q" for q :: "'a mux_pane" and h
    by (simp add: effective_size_def cong: attachment.case_cong)
  show ?thesis
    using assms
    by (auto simp: attach_shared_def joined_def joining_def join_replay_def handed_over_by_def Let_def eff
        cong: if_cong split: option.splits)
qed

section \<open>Authorization\<close>

text \<open>What entitles a client to a session it attaches to.\<close>

definition entitled :: "('t, 'j) session \<Rightarrow> attacher \<Rightarrow> nat set \<Rightarrow> bool" where
  "entitled s a verified \<longleftrightarrow>
     (at_stream_only a \<longrightarrow> se_offered s) \<and> is_in_scope_for s (attacher_verified a) \<and>
     (case se_authentication s of
        None \<Rightarrow> True
      | Some au \<Rightarrow> au_identity au \<in> verified \<or> (\<exists>pid. attacher_verified a = Some pid \<and> answers_handover s pid))"

definition claimed_by :: "('t, 'j) session \<Rightarrow> attacher \<Rightarrow> ('t, 'j) session" where
  "claimed_by s a = (if se_offered s then s else s\<lparr>se_owner := Some (at_process_id a)\<rparr>)"

lemma authorize_pass_grants:
  assumes "authorize_pass d i a pf = Granted d'"
  obtains s where "find_session d i = Some s" "entitled s a (set_option pf)" "d' = put_session d (claimed_by s a)"
proof -
  obtain s where s: "find_session d i = Some s" using assms by (auto simp: authorize_pass_def split: option.splits)
  with assms have "entitled s a (set_option pf)" "d' = put_session d (claimed_by s a)"
    by (auto simp: authorize_pass_def entitled_def claimed_by_def Let_def split: if_splits option.splits)
  with s that show ?thesis by blast
qed

lemma entitled_mono: "entitled s a V \<Longrightarrow> V \<subseteq> W \<Longrightarrow> entitled s a W"
  by (auto simp: entitled_def split: option.splits)

definition verified_in :: "(secret_check \<times> ('t, 'j) daemon) list \<Rightarrow> nat set" where
  "verified_in checks = {v. Verified v \<in> fst ` set checks}"

lemma authorize_attach_grants:
  assumes "authorize_attach d i has_secret a pf checks = Some (Inr d')"
  shows "\<exists>d0 s. d0 \<in> insert d (snd ` set checks) \<and> find_session d0 i = Some s \<and>
    entitled s a (set_option pf \<union> verified_in checks) \<and> d' = put_session d0 (claimed_by s a)"
  using assms
proof (induction d i has_secret a pf checks rule: authorize_attach.induct)
  case (1 d i has_secret a pf checks)
  show ?case
  proof (cases "authorize_pass d i a pf")
    case (Granted d1)
    then obtain s where "find_session d i = Some s" "entitled s a (set_option pf)" "d1 = put_session d (claimed_by s a)"
      by (rule authorize_pass_grants)
    then show ?thesis
      using 1(3) Granted entitled_mono [of s a "set_option pf" "set_option pf \<union> verified_in checks"]
      by (auto simp: authorize_attach.simps)
  next
    case AsksSecret
    with 1(3) obtain c d1 rest where c: "checks = (c, d1) # rest" "has_secret"
      by (auto simp: authorize_attach.simps split: if_splits list.splits)
    have mono: "entitled s a W" if "entitled s a V" "V \<subseteq> W" for s V W by (rule entitled_mono [OF that])
    show ?thesis
    proof (cases c)
      case (Verified v)
      have "authorize_attach d1 i has_secret a (Some v) rest = Some (Inr d')"
        using 1(3) c AsksSecret Verified by (simp add: authorize_attach.simps)
      from 1(1) [OF AsksSecret _ c(1) refl Verified this] c(2) obtain d0 s where
        "d0 \<in> insert d1 (snd ` set rest)" "find_session d0 i = Some s" "d' = put_session d0 (claimed_by s a)"
        and e: "entitled s a ({v} \<union> verified_in rest)" by auto
      moreover have "entitled s a (set_option pf \<union> verified_in checks)"
        by (rule mono [OF e]) (auto simp: verified_in_def c Verified)
      ultimately show ?thesis by (intro exI [of _ d0] exI [of _ s]) (auto simp: c)
    next
      case CheckNotApplicable
      have "authorize_attach d1 i has_secret a pf rest = Some (Inr d')"
        using 1(3) c AsksSecret CheckNotApplicable by (simp add: authorize_attach.simps)
      from 1(2) [OF AsksSecret _ c(1) refl CheckNotApplicable this] c(2) obtain d0 s where
        "d0 \<in> insert d1 (snd ` set rest)" "find_session d0 i = Some s" "d' = put_session d0 (claimed_by s a)"
        and e: "entitled s a (set_option pf \<union> verified_in rest)" by auto
      moreover have "entitled s a (set_option pf \<union> verified_in checks)"
        by (rule mono [OF e]) (auto simp: verified_in_def c)
      ultimately show ?thesis by (intro exI [of _ d0] exI [of _ s]) (auto simp: c)
    qed (use 1(3) c AsksSecret in \<open>simp add: authorize_attach.simps\<close>)
  qed (use 1(3) in \<open>simp add: authorize_attach.simps\<close>)
qed

text \<open>
  C18.  Whatever the session becomes while a secret is being checked, an attach that is
  let through is entitled to the session it then finds: a remote client only to
  one that is offered, any client only to one in scope for the process the transport
  confirmed, and to a protected one only with a secret checked against the verifier the session has
  at that moment, or as the confirmed process that answers a handover of one of its
  panes.  Only then does the session become that client's.
\<close>

theorem attach_is_authorized:
  assumes "authorize_attach d i has_secret a None checks = Some (Inr d')"
  shows "\<exists>d0 s. d0 \<in> insert d (snd ` set checks) \<and> find_session d0 i = Some s \<and>
    d' = put_session d0 (if se_offered s then s else s\<lparr>se_owner := Some (at_process_id a)\<rparr>) \<and>
    (at_stream_only a \<longrightarrow> se_offered s) \<and> is_in_scope_for s (attacher_verified a) \<and>
    (\<forall>au. se_authentication s = Some au \<longrightarrow>
       (\<exists>dv. (Verified (au_identity au), dv) \<in> set checks) \<or>
       (\<exists>pid. attacher_verified a = Some pid \<and> answers_handover s pid))"
proof -
  obtain d0 s where s: "d0 \<in> insert d (snd ` set checks)" "find_session d0 i = Some s"
    "entitled s a (verified_in checks)" "d' = put_session d0 (claimed_by s a)"
    using authorize_attach_grants [OF assms] by auto
  have "(\<exists>dv. (Verified (au_identity au), dv) \<in> set checks) \<or>
       (\<exists>pid. attacher_verified a = Some pid \<and> answers_handover s pid)" if "se_authentication s = Some au" for au
    using s(3) that by (auto simp: entitled_def verified_in_def image_iff)
  then show ?thesis
    using s by (intro exI [of _ d0] exI [of _ s]) (simp add: entitled_def claimed_by_def)
qed

definition sample_attacher :: "u32 \<Rightarrow> bool \<Rightarrow> attacher" where
  "sample_attacher pid stream_only = \<lparr>at_process_id = pid, at_peer_process_id = Some pid, at_client_id = ''w'',
     at_stream_only = stream_only, at_relaying_for = None\<rparr>"

definition sample_authentication :: "nat \<Rightarrow> authentication" where
  "sample_authentication v = \<lparr>au_identity = v, au_verifier = ''x''\<rparr>"

text \<open>The verifier is replaced while the secret is checked: it is asked for again.\<close>

theorem attach_is_authorized_witness:
  "let d = (\<lambda>v. sample_daemon (sample_session AttNone (Some (sample_authentication v))));
       checks = [(Verified 1, d 2), (Verified 2, d 2)]
   in authorize_attach (d 1) 7 True (sample_attacher 5 False) None checks = Some (Inr (d 2)) \<and>
      (\<exists>d0 s. d0 \<in> insert (d 1) (snd ` set checks) \<and> find_session d0 7 = Some s \<and>
         is_in_scope_for s (attacher_verified (sample_attacher 5 False)))"
proof -
  let ?d = "\<lambda>v. sample_daemon (sample_session AttNone (Some (sample_authentication v)))"
  have p: "authorize_pass (?d v) 7 (sample_attacher 5 False) pf = (if pf = Some v then Granted (?d v) else AsksSecret)" for v pf
    using sample_find [of AttNone "Some (sample_authentication v)"]
    by (auto simp: authorize_pass_def sample_attacher_def is_in_scope_for_def answers_handover_def Let_def
        sample_authentication_def attacher_verified_def verified_process_id_def)
      (auto simp: sample_session_def sample_pane_def)
  have run: "authorize_attach (?d 1) 7 True (sample_attacher 5 False) None [(Verified 1, ?d 2), (Verified 2, ?d 2)] = Some (Inr (?d 2))"
    by (simp add: p)
  from attach_is_authorized [OF run] show ?thesis unfolding Let_def using run by blast
qed

section \<open>Who gets the terminal\<close>

lemma normalize_repairs: "normalize_shared_state s = Some (r, s', es) \<Longrightarrow> repaired_from s s'"
  by (auto simp: normalize_shared_state_def repaired_from_def Let_def split: sum.splits option.splits)

lemma pane_of_put_session:
  "find_session d i = Some s \<Longrightarrow> se_id s' = i \<Longrightarrow> se_panes s' = se_panes s \<Longrightarrow>
   pane_of (put_session d s') i j = pane_of d i j"
  by (simp add: pane_of_def find_pane_def)

lemma attach_cases:
  assumes "attach ev io d i pane_opt a force = Some r"
  obtains e d1 where "r = Answers (Inl e) d1" "\<And>j. pane_of d1 i j = pane_of d i j"
  | d1 p state summary where "r = attach_pane ev io d1 i a force state summary p" "\<And>j. pane_of d1 i j = pane_of d i j"
      "pane_of d i (pn_id p) = Some p" "\<not> pn_exited p" "pane_opt = None \<or> pane_opt = Some (pn_id p)"
proof -
  obtain s0 where f: "find_session d i = Some s0" using assms by (auto simp: attach_def split: option.splits)
  let ?n = "if se_offered s0 then normalize_shared_state s0 else Some (Inr (shared_state_or_new s0), s0, [])"
  obtain rn s es where n: "?n = Some (rn, s, es)"
    using assms f by (auto simp: attach_def split: option.splits)
  have rep: "repaired_from s0 s"
    using n by (auto simp: repaired_from_def dest: normalize_repairs split: if_splits)
  let ?d = "emit_effects (put_session d s) es"
  have same: "se_panes s = se_panes s0" "se_id s = i"
    using repaired_from_live [OF rep] find_sessionD [OF f] by simp_all
  then have po: "pane_of ?d i j = pane_of d i j" for j using pane_of_put_session [OF f, of s] by simp
  show ?thesis
  proof (cases rn)
    case (Inl e)
    then show ?thesis using that(1) [of e ?d] assms f n po by (auto simp: attach_def)
  next
    case (Inr st)
    then obtain su where su: "catalog_summary s = Some su" using assms f n by (auto simp: attach_def split: option.splits)
    show ?thesis
    proof (cases "choose_pane s pane_opt")
      case (Inl e)
      then show ?thesis using that(1) [of e ?d] assms f n po su Inr by (auto simp: attach_def)
    next
      case (Inr j)
      show ?thesis
      proof (cases "find_pane s j")
        case None
        then show ?thesis using that(1) [of _ ?d] assms f n po su Inr \<open>rn = Inr st\<close> by (auto simp: attach_def)
      next
        case (Some p)
        have "pane_of d i j = Some p" using Some f same by (simp add: pane_of_def find_pane_def)
        moreover have "pane_opt = None \<or> pane_opt = Some j"
          using Inr by (auto simp: choose_pane_def split: option.splits)
        ultimately show ?thesis
          using that(1) [of _ ?d] that(2) [of ?d "se_state s" su p] Some assms f n po su Inr \<open>rn = Inr st\<close> find_paneD [OF Some]
          by (auto simp: attach_def Let_def split: if_splits)
      qed
    qed
  qed
qed

text \<open>Nobody but the client itself reads the pane: it is free, its own, or its reader has died handing it over.\<close>

definition free_for :: "'t mux_env \<Rightarrow> attacher \<Rightarrow> 't mux_pane \<Rightarrow> bool" where
  "free_for ev a p =
     (case pn_attachment p of
        AttNone \<Rightarrow> True
      | AttExclusive h \<Rightarrow> attacher_verified a = Some h
      | AttRevoking h \<Rightarrow> \<not> ev_running ev h
      | AttGranting h \<Rightarrow> \<not> ev_running ev h
      | AttShared _ \<Rightarrow> False)"

lemma attach_shared_never_hands_over:
  "attach_shared ev io d i j a state summary \<noteq> (Inr (RespAttached j' replay st su), d')"
  by (auto simp: attach_shared_def on_pane_def Let_def split: option.splits attachment.splits if_splits)

lemma attach_exclusive_hands_over:
  assumes "attach_exclusive ev io d i j pid c state summary = (Inr (RespAttached j' replay st su), d')" "pane_of d i j = Some p"
  shows "j' = j \<and> replay = retained_snapshot (ev_emulator ev) (pn_retained p) \<and>
    pane_of d' i j = Some (wins_exclusive (ev_emulator ev) pid c p)"
proof -
  have "pn_id (wins_exclusive (ev_emulator ev) pid c p) = j" using pane_of_id [OF assms(2)] by (simp add: wins_exclusive_def)
  with assms show ?thesis
    by (auto simp: attach_exclusive_eq Let_def split: if_splits)
qed

definition handed_over :: "'t mux_env \<Rightarrow> attacher \<Rightarrow> ('t, 'j) daemon \<Rightarrow> u64 \<Rightarrow> u64 \<Rightarrow> bytes \<Rightarrow> ('t, 'j) daemon \<Rightarrow> bool" where
  "handed_over ev a d i j replay d' \<longleftrightarrow>
     (\<exists>p q. pane_of d i j = Some p \<and> \<not> pn_exited p \<and> free_for ev a p \<and>
        replay = retained_snapshot (ev_emulator ev) (pn_retained p) \<and>
        pane_of d' i j = Some q \<and> pn_attachment q = exclusive_attachment (at_process_id a) \<and>
        pn_retained q = retained_clear (ev_emulator ev) (pn_retained p))"

lemma wins_sel:
  "pn_attachment (wins_exclusive em pid c p) = exclusive_attachment pid"
  "pn_retained (wins_exclusive em pid c p) = retained_clear em (pn_retained p)"
  "pn_handover_waiters (wins_exclusive em pid c p) = pn_handover_waiters p" "pn_id (wins_exclusive em pid c p) = pn_id p"
  by (simp_all add: wins_exclusive_def)

lemma attach_hands_over:
  assumes "attach ev io d i pane_opt a force = Some (Answers (Inr (RespAttached j replay st su)) d')"
  shows "handed_over ev a d i j replay d' \<and> \<not> at_stream_only a \<and> \<not> force"
proof -
  obtain d1 p state summary where r: "Answers (Inr (RespAttached j replay st su)) d' = attach_pane ev io d1 i a force state summary p"
    and d1: "\<And>j. pane_of d1 i j = pane_of d i j" "pane_of d i (pn_id p) = Some p" "\<not> pn_exited p"
    using attach_cases [OF assms] by (metis attaching.inject(1) sum.distinct(1))
  have c: "\<not> at_stream_only a" "\<not> force" "free_for ev a p"
    "attach_exclusive ev io (store_pane d1 i p) i (pn_id p) (at_process_id a) (at_client_id a) state summary =
       (Inr (RespAttached j replay st su), d')"
    using r attach_shared_never_hands_over [of ev io _ i "pn_id p" a state summary j replay st su d']
    by (auto simp: attach_pane_def answering_def Let_def free_for_def prod_eq_iff make_shared_def
        split: if_splits attachment.splits)
  have "pane_of (store_pane d1 i p) i (pn_id p) = Some p" using d1 by simp
  from attach_exclusive_hands_over [OF c(4) this] c(1-3) d1 show ?thesis
    by (auto simp: handed_over_def wins_sel)
qed

lemma await_cases:
  assumes "await_handover ev io d i j a = Some r"
  obtains e where "r = Answers (Inl e) d" "pane_of d i j = None"
  | e p where "r = Answers (Inl e) (store_pane d i (finish_handover_waiter p True))" "pane_of d i j = Some p" "pn_exited p"
  | p state summary where "r = await_pane ev io d i a state summary p" "pane_of d i j = Some p" "\<not> pn_exited p"
proof (cases "find_session d i")
  case None
  then show ?thesis using assms that(1) by (auto simp: await_handover_def pane_of_def)
next
  case (Some s)
  then show ?thesis
    using assms that by (cases "find_pane s j") (auto simp: await_handover_def pane_of_def split: option.splits if_splits)
qed

lemma await_hands_over:
  assumes "await_handover ev io d i j a = Some (Answers (Inr (RespAttached j' replay st su)) d')"
  shows "j' = j \<and> handed_over ev a d i j replay d'"
proof -
  obtain p state summary where r: "Answers (Inr (RespAttached j' replay st su)) d' = await_pane ev io d i a state summary p"
    and p: "pane_of d i j = Some p" "\<not> pn_exited p"
    using await_cases [OF assms] by (metis attaching.inject(1) sum.distinct(1))
  have id: "pn_id p = j" by (rule pane_of_id [OF p(1)])
  obtain q where q: "attach_exclusive ev io (store_pane d i q) i j (at_process_id a) (at_client_id a) state summary =
       (Inr (RespAttached j' replay st su), d')" "free_for ev a p" "pn_id q = j" "pn_retained q = pn_retained p"
    using r attach_shared_never_hands_over [of ev io _ i j a state summary j' replay st su d'] id
    by (auto simp: await_pane_def answering_def Let_def free_for_def prod_eq_iff
        split: if_splits attachment.splits)
  have "pane_of (store_pane d i q) i j = Some q" using p(1) q(3) by simp
  from attach_exclusive_hands_over [OF q(1) this] q p show ?thesis
    by (auto simp: handed_over_def wins_sel)
qed

text \<open>
  C20.  A terminal has one reader.  Whenever an attach, at once or after waiting for a
  handover, is answered with the terminal, the pane was running and nobody else was
  reading it: it was free, or held by the very process the transport
  confirmed, or its reader had died in a handover.  The client gets the daemon's
  screen with it, the pane is then that client's, and the daemon keeps nothing of the
  screen that a later attach could be shown.  An attach that is answered at once
  never gives the terminal to a remote client or on a request for a shared stream.
\<close>

theorem terminal_has_one_reader:
  assumes "attach ev io d i pane_opt a force = Some (Answers (Inr (RespAttached j replay st su)) d') \<or>
    await_handover ev io d i j a = Some (Answers (Inr (RespAttached j replay st su)) d')"
  shows "(\<exists>p q. pane_of d i j = Some p \<and> \<not> pn_exited p \<and> free_for ev a p \<and>
      replay = retained_snapshot (ev_emulator ev) (pn_retained p) \<and>
      pane_of d' i j = Some q \<and> pn_attachment q = exclusive_attachment (at_process_id a) \<and>
      pn_retained q = retained_clear (ev_emulator ev) (pn_retained p)) \<and>
    (attach ev io d i pane_opt a force = Some (Answers (Inr (RespAttached j replay st su)) d') \<longrightarrow>
      \<not> at_stream_only a \<and> \<not> force)"
  using assms attach_hands_over [of ev io d i pane_opt a force j replay st su d']
    await_hands_over [of ev io d i j a j replay st su d']
  unfolding handed_over_def by blast

definition sample_io :: attach_io where
  "sample_io = \<lparr>ai_relay_started = True, ai_sent = True, ai_replayed = True, ai_now = 0\<rparr>"

lemma sample_pane_of [simp]: "pane_of (sample_daemon (sample_session att auth)) 7 1 = Some (sample_pane att (80, 24))"
  by (simp add: pane_of_def sample_find find_pane_def) (simp add: sample_session_def sample_pane_def)

lemma sample_attaches_in:
  assumes "find_session d 7 = Some (sample_session att auth)"
  shows "attach ev io d 7 (Some 1) a force =
     map_option (\<lambda>su. attach_pane ev io d 7 a force () su (sample_pane att (80, 24)))
       (catalog_summary (sample_session att auth))"
proof -
  have "find_pane (sample_session att auth) 1 = Some (sample_pane att (80, 24))" "\<not> pn_exited (sample_pane att (80, 24))"
    using sample_pane_of [of att auth] sample_find [of att auth] by (simp_all add: pane_of_def sample_pane_def)
  then show ?thesis
    using normalize_settled [OF sample_session_settled [of att auth]] assms
    by (simp add: attach_def choose_pane_def split: option.splits)
qed

lemmas sample_attaches = sample_attaches_in [OF sample_find]

lemma sample_catalog: "\<exists>su. catalog_summary (sample_session att auth) = Some su"
  using summary_from_daemon_panes_same [of "sample_session att auth" sample_state] sample_session_settled [of att auth]
  by (auto simp: catalog_summary_def settled_def shared_state_or_new_def)

theorem terminal_has_one_reader_witness:
  "\<exists>su d'. attach sample_env sample_io (sample_daemon (sample_session AttNone None)) 7 (Some 1) (sample_attacher 5 False) False =
      Some (Answers (Inr (RespAttached 1 [] () su)) d') \<and>
    (\<exists>q. pane_of d' 7 1 = Some q \<and> pn_attachment q = AttExclusive 5)"
proof -
  let ?d = "sample_daemon (sample_session AttNone None)"
  obtain su where "catalog_summary (sample_session AttNone None) = Some su" using sample_catalog by blast
  then have "\<exists>d'. attach sample_env sample_io ?d 7 (Some 1) (sample_attacher 5 False) False =
      Some (Answers (Inr (RespAttached 1 [] () su)) d')"
    by (simp add: sample_attaches attach_pane_def Let_def answering_def sample_pane_def sample_attacher_def attach_exclusive_eq
        sample_io_def retained_snapshot_def)
  then obtain d' where at: "attach sample_env sample_io ?d 7 (Some 1) (sample_attacher 5 False) False =
      Some (Answers (Inr (RespAttached 1 [] () su)) d')" ..
  from terminal_has_one_reader [OF disjI1 [OF at]] at show ?thesis
    by (auto simp: exclusive_attachment_def sample_attacher_def)
qed

section \<open>Requests that wait for a handover\<close>

definition waiters_of :: "('t, 'j) daemon \<Rightarrow> u64 \<Rightarrow> u64 \<Rightarrow> nat option" where
  "waiters_of d i j = map_option pn_handover_waiters (pane_of d i j)"

lemma waiters_store [simp]:
  "pane_of d i j = Some p \<Longrightarrow> pn_id q = j \<Longrightarrow> waiters_of (store_pane d i q) i j = Some (pn_handover_waiters q)"
  by (simp add: waiters_of_def)

lemma waiters_emit [simp]: "waiters_of (emit_effects d es) i j = waiters_of d i j"
  by (simp add: waiters_of_def)

lemma waiters_failed_handover [simp]: "waiters_of (release_failed_handover d i j c) i j = waiters_of d i j"
proof (cases "pane_of d i j")
  case None
  then show ?thesis
    by (auto simp: waiters_of_def release_failed_handover_def pane_of_def split: option.splits)
qed (simp add: waiters_of_def release_failed_pane)

lemma joined_sel:
  "pn_handover_waiters (joined io a n cs p) = pn_handover_waiters p" "pn_id (joined io a n cs p) = pn_id p"
  by (simp_all add: joined_def)

lemma attach_shared_waiters:
  assumes "pane_of d i j = Some p" "pn_attachment p = AttShared cs"
  shows "waiters_of (snd (attach_shared ev io d i j a state summary)) i j = Some (pn_handover_waiters p)"
  using assms pane_of_id [OF assms(1)]
  by (auto simp: attach_shared_eq Let_def joined_sel) (simp_all add: waiters_of_def)

lemma attach_exclusive_waiters:
  assumes "pane_of d i j = Some p"
  shows "waiters_of (snd (attach_exclusive ev io d i j pid c state summary)) i j = Some (pn_handover_waiters p)"
  using assms pane_of_id [OF assms] by (auto simp: attach_exclusive_eq Let_def wins_sel)

lemma attach_pane_waiters:
  assumes "pane_of d i (pn_id p) = Some p"
  shows "attach_pane ev io d i a force state summary p = Waits d' \<Longrightarrow>
      waiters_of d' i (pn_id p) = Some (pn_handover_waiters p + 1)"
    and "attach_pane ev io d i a force state summary p = Answers r d' \<Longrightarrow>
      waiters_of d' i (pn_id p) = Some (pn_handover_waiters p)"
proof -
  let ?p = "if (at_stream_only a \<or> force) \<and> pn_attachment p = AttNone then make_shared p else p"
  let ?d = "store_pane d i ?p"
  have d: "pane_of ?d i (pn_id p) = Some ?p" "pn_handover_waiters ?p = pn_handover_waiters p" "pn_id ?p = pn_id p"
    using assms by simp_all
  show "waiters_of d' i (pn_id p) = Some (pn_handover_waiters p + 1)"
    if "attach_pane ev io d i a force state summary p = Waits d'"
    using that d assms by (auto simp: attach_pane_def Let_def answering_def split: if_splits attachment.splits)
  show "waiters_of d' i (pn_id p) = Some (pn_handover_waiters p)"
    if "attach_pane ev io d i a force state summary p = Answers r d'"
    using that d assms attach_shared_waiters [OF d(1), of _ ev io a state summary]
      attach_exclusive_waiters [OF d(1), of ev io "at_process_id a" "at_client_id a" state summary]
    by (auto simp: attach_pane_def Let_def answering_def split: if_splits attachment.splits) (simp_all add: waiters_of_def)
qed

lemma await_pane_waiters:
  assumes "pane_of d i (pn_id p) = Some p"
  shows "await_pane ev io d i a state summary p = Waits d' \<Longrightarrow> waiters_of d' i (pn_id p) = Some (pn_handover_waiters p)"
    and "await_pane ev io d i a state summary p = Answers r d' \<Longrightarrow>
      waiters_of d' i (pn_id p) = Some (pn_handover_waiters p - 1)"
proof -
  have st: "pane_of (store_pane d i q) i (pn_id p) = Some q" if "pn_id q = pn_id p" for q using assms that by simp
  show "waiters_of d' i (pn_id p) = Some (pn_handover_waiters p)"
    if "await_pane ev io d i a state summary p = Waits d'"
    using that assms by (auto simp: await_pane_def Let_def answering_def waiters_of_def split: if_splits attachment.splits)
  have shared: "waiters_of (snd (attach_shared ev io (store_pane d i q) i (pn_id p) a state summary)) i (pn_id p) =
      Some (pn_handover_waiters q)" if "pn_id q = pn_id p" "pn_attachment q = AttShared cs" for q cs
    using attach_shared_waiters [OF st [OF that(1)] that(2)] .
  have excl: "waiters_of (snd (attach_exclusive ev io (store_pane d i q) i (pn_id p) (at_process_id a) (at_client_id a)
      state summary)) i (pn_id p) = Some (pn_handover_waiters q)" if "pn_id q = pn_id p" for q
    using attach_exclusive_waiters [OF st [OF that(1)]] .
  show "waiters_of d' i (pn_id p) = Some (pn_handover_waiters p - 1)"
    if "await_pane ev io d i a state summary p = Answers r d'"
    using that assms finish_waiter_attachment [of p False]
    by (auto simp: await_pane_def Let_def answering_def shared excl split: if_splits attachment.splits)
qed

text \<open>
  One pane and the attach requests around it: the daemon, and how many requests wait
  for the pane.  Any of them may be woken or run out of time, its holder may answer,
  take or release it, and the pane may be read out, in any order.
\<close>

inductive handover_run :: "'t mux_env \<Rightarrow> u64 \<Rightarrow> u64 \<Rightarrow> ('t, 'j) daemon \<Rightarrow> nat \<Rightarrow> bool" for ev i j where
  Starts: "waiters_of d i j = Some 0 \<Longrightarrow> handover_run ev i j d 0"
| Attach_waits: "handover_run ev i j d n \<Longrightarrow> attach ev io d i (Some j) a force = Some (Waits d') \<Longrightarrow>
    handover_run ev i j d' (Suc n)"
| Attach_answers: "handover_run ev i j d n \<Longrightarrow> attach ev io d i (Some j) a force = Some (Answers r d') \<Longrightarrow>
    handover_run ev i j d' n"
| Wakes: "handover_run ev i j d (Suc n) \<Longrightarrow> await_handover ev io d i j a = Some (Answers r d') \<Longrightarrow>
    handover_run ev i j d' n"
| Still_waits: "handover_run ev i j d (Suc n) \<Longrightarrow> await_handover ev io d i j a = Some (Waits d') \<Longrightarrow>
    handover_run ev i j d' (Suc n)"
| Expires: "handover_run ev i j d (Suc n) \<Longrightarrow> handover_times_out d i j = (r, d') \<Longrightarrow> handover_run ev i j d' n"
| Answers_revoke: "handover_run ev i j d n \<Longrightarrow> snapshot ev d i j bs c l claimed peer = (r, d') \<Longrightarrow> handover_run ev i j d' n"
| Takes: "handover_run ev i j d n \<Longrightarrow> take_exclusive_begin d i j claimed peer client stream_only = (r', d') \<Longrightarrow>
    handover_run ev i j d' n"
| Finishes: "handover_run ev i j d n \<Longrightarrow> take_exclusive_finish ev io d i j claimed client null flushed = (r, d') \<Longrightarrow>
    handover_run ev i j d' n"
| Releases: "handover_run ev i j d n \<Longrightarrow> release_exclusive d i j claimed client peer = (r, d') \<Longrightarrow> handover_run ev i j d' n"
| Drains: "handover_run ev i j d n \<Longrightarrow> pane_of d i j = Some p \<Longrightarrow>
    drain_pane ev dio i rvn p = Some (idle, p', es) \<Longrightarrow> handover_run ev i j (emit_effects (store_pane d i p') es) n"

lemma attach_waiters:
  assumes "waiters_of d i j = Some n" "attach ev io d i (Some j) a force = Some r"
  shows "(\<forall>d'. r = Waits d' \<longrightarrow> waiters_of d' i j = Some (Suc n)) \<and>
    (\<forall>x d'. r = Answers x d' \<longrightarrow> waiters_of d' i j = Some n)"
  using assms(2)
proof (cases rule: attach_cases)
  case (1 e d1)
  then show ?thesis using assms(1) by (auto simp: waiters_of_def)
next
  case (2 d1 p state summary)
  then have "pn_id p = j" "pane_of d1 i (pn_id p) = Some p" "pn_handover_waiters p = n"
    using assms(1) by (auto simp: waiters_of_def)
  with attach_pane_waiters [of d1 i p ev io a force state summary] 2(1) show ?thesis by auto
qed

lemma await_waiters:
  assumes "waiters_of d i j = Some n" "await_handover ev io d i j a = Some r"
  shows "(\<forall>d'. r = Waits d' \<longrightarrow> waiters_of d' i j = Some n) \<and>
    (\<forall>x d'. r = Answers x d' \<longrightarrow> waiters_of d' i j = Some (n - 1))"
  using assms(2)
proof (cases rule: await_cases)
  case (1 e)
  then show ?thesis using assms(1) by (simp add: waiters_of_def)
next
  case (2 e p)
  then show ?thesis using assms(1) pane_of_id [OF 2(2)] by (simp add: waiters_of_def)
next
  case (3 p state summary)
  then show ?thesis
    using assms(1) pane_of_id [OF 3(2)] await_pane_waiters [of d i p ev io a state summary] by (auto simp: waiters_of_def)
qed

lemma seed_sel [simp]:
  "pn_id (seed_retained_screen_with_fallback em p bs fb) = pn_id p"
  "pn_handover_waiters (seed_retained_screen_with_fallback em p bs fb) = pn_handover_waiters p"
  "pn_handed_over (seed_retained_screen_with_fallback em p bs fb) = pn_handed_over p"
  by (simp_all add: seed_retained_screen_with_fallback_def split: prod.splits)

lemma times_out_waiters:
  "waiters_of d i j = Some n \<Longrightarrow> handover_times_out d i j = (r, d') \<Longrightarrow> waiters_of d' i j = Some (n - 1)"
  using pane_of_id [of d i j]
  by (auto simp: waiters_of_def handover_times_out_def pane_of_def split: option.splits bind_splits)
    (auto simp: find_store_pane)

lemma holder_waiters:
  assumes "waiters_of d i j = Some n"
  shows "snapshot ev d i j bs c l claimed peer = (r, d') \<Longrightarrow> waiters_of d' i j = Some n"
    and "take_exclusive_begin d i j claimed peer client stream_only = (r', d') \<Longrightarrow> waiters_of d' i j = Some n"
    and "take_exclusive_finish ev io d i j claimed client null flushed = (r, d') \<Longrightarrow> waiters_of d' i j = Some n"
    and "release_exclusive d i j claimed client peer = (r, d') \<Longrightarrow> waiters_of d' i j = Some n"
proof -
  obtain s p where s: "find_session d i = Some s" "find_pane s j = Some p" "pn_handover_waiters p = n"
    using assms by (auto simp: waiters_of_def pane_of_Some)
  then have p: "pane_of d i j = Some p" "pn_id p = j" by (auto simp: pane_of_Some dest: find_paneD)
  show "snapshot ev d i j bs c l claimed peer = (r, d') \<Longrightarrow> waiters_of d' i j = Some n"
    using s p assms by (auto simp: snapshot_def Let_def split: attachment.splits if_splits)
  show "take_exclusive_begin d i j claimed peer client stream_only = (r', d') \<Longrightarrow> waiters_of d' i j = Some n"
    using s p assms by (auto simp: take_exclusive_begin_def split: option.splits attachment.splits if_splits)
  show "take_exclusive_finish ev io d i j claimed client null flushed = (r, d') \<Longrightarrow> waiters_of d' i j = Some n"
    using s p assms by (auto simp: take_exclusive_finish_def Let_def split: if_splits)
  show "release_exclusive d i j claimed client peer = (r, d') \<Longrightarrow> waiters_of d' i j = Some n"
    using s p assms by (auto simp: release_exclusive_def split: attachment.splits option.splits if_splits)
qed

text \<open>
  C22.  The count of requests waiting for a pane is exact.  However attaches, wake-ups,
  time-outs, answers to revokes, grants, releases and reads interleave, the pane's
  \<open>handover_waiters\<close> is the number of requests still waiting; so every way out of the
  wait has given its count back, and none gives it back twice.
\<close>

theorem waiting_requests_are_counted:
  assumes "handover_run ev i j d n"
  shows "\<exists>p. pane_of d i j = Some p \<and> pn_handover_waiters p = n"
proof -
  have "waiters_of d i j = Some n" using assms
  proof (induction rule: handover_run.induct)
    case (Drains d n p dio rvn idle p' es)
    then show ?case
      using drain_pane_keeps [OF Drains.hyps(3)] pane_of_id [OF Drains.hyps(2)] by (auto simp: keeps_pane_def waiters_of_def)
  qed (auto dest: attach_waiters await_waiters times_out_waiters holder_waiters)
  then show ?thesis by (auto simp: waiters_of_def)
qed

theorem waiting_requests_are_counted_witness:
  "\<exists>d1 d2. attach sample_env sample_io (sample_daemon (sample_session (AttExclusive 4) None)) 7 (Some 1) (sample_attacher 5 False) False =
      Some (Waits d1) \<and> snapshot sample_env d1 7 1 [] 80 24 4 (Some 4) = (Inr RespOk, d2) \<and>
    (\<exists>p. pane_of d1 7 1 = Some p \<and> pn_handover_waiters p = 1) \<and> (\<exists>p. pane_of d2 7 1 = Some p \<and> pn_handover_waiters p = 1)"
proof -
  let ?s = "sample_session (AttExclusive 4) None"
  obtain su where "catalog_summary ?s = Some su" using sample_catalog by blast
  then obtain d1 where w: "attach sample_env sample_io (sample_daemon ?s) 7 (Some 1) (sample_attacher 5 False) False = Some (Waits d1)"
    and d1: "d1 = emit_effects (store_pane (sample_daemon ?s) 7 ((sample_pane (AttExclusive 4) (80, 24))
        \<lparr>pn_attachment := AttRevoking 4, pn_handover_waiters := 1\<rparr>)) [SendProcess 4 (EvRevoke 7 1)]"
    using store_pane_same [OF sample_pane_of [of "AttExclusive 4" None]]
    by (simp add: sample_attaches attach_pane_def Let_def sample_pane_def sample_attacher_def attacher_verified_def
        verified_process_id_def)
  have run0: "handover_run sample_env 7 1 (sample_daemon ?s) 0"
    by (rule Starts) (simp add: waiters_of_def, simp add: sample_pane_def)
  have run1: "handover_run sample_env 7 1 d1 (Suc 0)" by (rule Attach_waits [OF run0 w])
  obtain r d2 where sn: "snapshot sample_env d1 7 1 [] 80 24 4 (Some 4) = (r, d2)" by fastforce
  moreover have "r = Inr RespOk"
    using sn find_store_pane [OF sample_find [of "AttExclusive 4" None]]
    by (simp add: d1 snapshot_def find_pane_def put_pane_def sample_session_def sample_pane_def caller_process_id_def
        control_process_id_def)
  moreover note waiting_requests_are_counted [OF run1] waiting_requests_are_counted [OF Answers_revoke [OF run1 sn]]
  ultimately show ?thesis using w by auto
qed

section \<open>Handing over and back\<close>

lemma seed_retained_cong:
  "pn_retained (seed_retained_screen_with_fallback em (p\<lparr>pn_handed_over := h\<rparr>) bs fb) =
   pn_retained (seed_retained_screen_with_fallback em p bs fb)"
  by (simp add: seed_retained_screen_with_fallback_def terminal_size_of_def split: prod.splits)

lemma snapshot_commits:
  assumes "find_session d i = Some s" "find_pane s j = Some p" "pn_attachment p = AttRevoking h"
    and "caller_process_id s claimed peer = Some h"
  obtains q d1 where "snapshot ev d i j bs c l claimed peer = (Inr RespOk, d1)" "pane_of d1 i j = Some q"
    "pn_attachment q = AttShared []" "pn_handed_over q = Some \<lparr>rh_client_process_id = h, rh_output = []\<rparr>"
    "pn_retained q = pn_retained (seed_retained_screen_with_fallback (ev_emulator ev) p bs (c, l))" "pn_id q = j"
proof -
  let ?q = "make_shared (seed_retained_screen_with_fallback (ev_emulator ev)
      (p\<lparr>pn_handed_over := Some \<lparr>rh_client_process_id = h, rh_output = []\<rparr>\<rparr>) bs (c, l))"
  have p: "pane_of d i j = Some p" "pn_id p = j" using assms(1,2) by (auto simp: pane_of_Some dest: find_paneD)
  have "snapshot ev d i j bs c l claimed peer =
      (Inr RespOk, emit_effects (store_pane d i ?q) [NotifyWaiters, PublishCatalog, WakeDrain])"
    using assms by (simp add: snapshot_def)
  moreover have "pane_of (emit_effects (store_pane d i ?q) es) i j = Some ?q" for es using p by simp
  ultimately show ?thesis using that [of _ ?q] p(2) seed_retained_cong by fastforce
qed

text \<open>
  What happens to the pane after the answer: output while every viewer is reached, requests that join it, successful or
  not, and whatever else leaves it shared and touches neither its screen nor the handover (relays that write, sizes that are reported,
  viewers that go).  The output since the answer is kept, and whether the holder \<open>h\<close> has joined again.
\<close>

inductive after_answer :: "'t mux_env \<Rightarrow> u64 \<Rightarrow> u64 \<Rightarrow> u32 \<Rightarrow> ('t, 'j) daemon \<Rightarrow> ('t, 'j) daemon \<Rightarrow> bytes list \<Rightarrow> bool \<Rightarrow> bool"
  for ev i j h d1 where
  Answered: "after_answer ev i j h d1 d1 [] False"
| Output: "after_answer ev i j h d1 d vs rejoined \<Longrightarrow> pane_of d i j = Some p \<Longrightarrow> pn_attachment p = AttShared cs \<Longrightarrow> watching cs \<Longrightarrow>
    take_output ev i rvn v p = (q, es :: 'j effect list) \<Longrightarrow> pane_of d' i j = Some q \<Longrightarrow> after_answer ev i j h d1 d' (vs @ [v]) rejoined"
| Joins: "after_answer ev i j h d1 d vs rejoined \<Longrightarrow> attach_shared ev io d i j a st su = (r, d') \<Longrightarrow>
    after_answer ev i j h d1 d' vs (rejoined \<or> ai_relay_started io \<and> attacher_verified a = Some h)"
| Elsewhere: "after_answer ev i j h d1 d vs rejoined \<Longrightarrow> pane_of d i j = Some p \<Longrightarrow> pane_of d' i j = Some q \<Longrightarrow>
    pn_attachment q = AttShared cs \<Longrightarrow> pn_handed_over q = pn_handed_over p \<Longrightarrow> pn_retained q = pn_retained p \<Longrightarrow>
    after_answer ev i j h d1 d' vs rejoined"

text \<open>A shared pane that keeps the screen \<open>scr\<close> and, until the holder is back, its output.\<close>

definition carries :: "u32 \<Rightarrow> 't retained \<Rightarrow> bytes list \<Rightarrow> bool \<Rightarrow> 't mux_pane \<Rightarrow> bool" where
  "carries h scr vs rejoined p \<longleftrightarrow> (\<exists>cs. pn_attachment p = AttShared cs) \<and> pn_retained p = scr \<and>
     pn_handed_over p = (if rejoined then None
       else Some \<lparr>rh_client_process_id = h, rh_output = last_bytes HANDOVER_OUTPUT_LIMIT (concat vs)\<rparr>)"

lemma carries_output:
  assumes c: "carries h scr vs rejoined p" and cs: "pn_attachment p = AttShared cs" "watching cs" and enc: "\<forall>e. ev_encode ev e \<noteq> None"
    and t: "take_output ev i rvn v p = (q, es :: 'j effect list)"
  shows "carries h (retained_push (ev_emulator ev) v scr) (vs @ [v]) rejoined q"
proof -
  obtain frame where fr: "ev_encode ev (EvOutput (pn_id p) (length v)) = Some frame" using enc by blast
  have "(q, es) = ((record_handover_output (p\<lparr>pn_retained := retained_push (ev_emulator ev) v (pn_retained p)\<rparr>) v)
       \<lparr>pn_attachment := AttShared (map (snd \<circ> try_queue (frame @ v)) cs)\<rparr>, [])"
    unfolding t [symmetric] by (rule take_output_watched [OF cs fr])
  then have q: "q = (record_handover_output (p\<lparr>pn_retained := retained_push (ev_emulator ev) v (pn_retained p)\<rparr>) v)
       \<lparr>pn_attachment := AttShared (map (snd \<circ> try_queue (frame @ v)) cs)\<rparr>" by simp
  show ?thesis
  proof (cases rejoined)
    case True
    then show ?thesis using c by (simp add: q carries_def record_handover_output_def)
  next
    case False
    then show ?thesis using c by (simp add: q carries_def record_handover_output_eq last_bytes_append)
  qed
qed

lemma carries_joined:
  assumes c: "carries h scr vs rejoined p"
  shows "carries h scr vs (rejoined \<or> attacher_verified a = Some h) (joined io a att cs p)"
    "join_replay em (attacher_verified a) p =
       (if attacher_verified a = Some h \<and> \<not> rejoined then last_bytes HANDOVER_OUTPUT_LIMIT (concat vs) else retained_snapshot em scr)"
  using c by (auto simp: carries_def joined_def join_replay_def handed_over_by_def)

lemma after_answer_carries:
  assumes "after_answer ev i j h d1 d vs rejoined" and p1: "pane_of d1 i j = Some p1" "carries h scr [] False p1"
    and enc: "\<forall>e. ev_encode ev e \<noteq> None"
  shows "\<exists>p. pane_of d i j = Some p \<and> carries h (fold (retained_push (ev_emulator ev)) vs scr) vs rejoined p"
  using assms(1)
proof induction
  case Answered
  then show ?case using p1 by simp
next
  case (Output d vs rejoined p cs rvn v q es d')
  then show ?case using carries_output [OF _ Output(3,4) enc Output(5)] by auto
next
  case (Joins d vs rejoined io a st su r d')
  then obtain p where p: "pane_of d i j = Some p" "carries h (fold (retained_push (ev_emulator ev)) vs scr) vs rejoined p" by blast
  then obtain cs where cs: "pn_attachment p = AttShared cs" by (auto simp: carries_def)
  show ?case
  proof (cases "ai_relay_started io")
    case False
    then show ?thesis using p Joins(2) attach_shared_eq [OF p(1) cs, of ev io a st su] by auto
  next
    case True
    let ?q = "joined io a (dm_next_attachment d) cs p"
    have "pn_id p = j" using p(1) by (auto simp: pane_of_Some dest: find_paneD)
    then have "pane_of (store_pane (d\<lparr>dm_next_attachment := dm_next_attachment d + 1\<rparr>) i ?q) i j = Some ?q"
      using p(1) by (simp add: joined_def)
    then have "pane_of d' i j = Some ?q"
      using True Joins(2) attach_shared_eq [OF p(1) cs, of ev io a st su] by (auto simp: Let_def split: if_splits)
    then show ?thesis using carries_joined(1) [OF p(2)] True by auto
  qed
next
  case (Elsewhere d vs rejoined p d' q cs)
  then show ?case by (auto simp: carries_def)
qed

text \<open>
  C21.  A handover loses nothing.  When the holder of a pane that is being revoked answers
  with its screen, the handover is committed whatever else happens.  After any further output and any number of
  other joins, the holder, joining for the first time as the confirmed process it was,
  is sent exactly the output since its answer (at most the last mebibyte), because
  it still shows the screen it sent; everyone else, and the holder when it joins again, is sent the screen that
  answer seeded with all of that output applied.  The joins of others do not use up what is kept for the holder.
\<close>

theorem handover_carries_the_screen:
  assumes "find_session d i = Some s" "find_pane s j = Some p" "pn_attachment p = AttRevoking h"
    and "caller_process_id s claimed peer = Some h" "\<forall>e. ev_encode ev e \<noteq> None"
    and snap: "snapshot ev d i j bs c l claimed peer = (r, d1)"
    and run: "after_answer ev i j h d1 d2 vs rejoined"
    and io: "ai_relay_started io" "ai_sent io" "ai_replayed io"
  shows "r = Inr RespOk \<and>
    (\<exists>d3 columns lines. attach_shared ev io d2 i j a st su =
      (Inr (RespSharedAttached j
         (if attacher_verified a = Some h \<and> \<not> rejoined then last_bytes HANDOVER_OUTPUT_LIMIT (concat vs)
          else retained_snapshot (ev_emulator ev) (fold (retained_push (ev_emulator ev)) vs
                 (pn_retained (seed_retained_screen_with_fallback (ev_emulator ev) p bs (c, l)))))
         st su columns lines), d3))"
proof -
  obtain q where q: "r = Inr RespOk" "pane_of d1 i j = Some q" "pn_attachment q = AttShared []"
    "pn_handed_over q = Some \<lparr>rh_client_process_id = h, rh_output = []\<rparr>"
    "pn_retained q = pn_retained (seed_retained_screen_with_fallback (ev_emulator ev) p bs (c, l))"
    using snapshot_commits [OF assms(1-4), of ev bs c l] snap by (metis prod.inject)
  have "carries h (pn_retained q) [] False q" using q by (simp add: carries_def last_bytes_def)
  from after_answer_carries [OF run q(2) this assms(5)] obtain p2 where
    p2: "pane_of d2 i j = Some p2" "carries h (fold (retained_push (ev_emulator ev)) vs (pn_retained q)) vs rejoined p2" by blast
  then obtain cs where cs: "pn_attachment p2 = AttShared cs" by (auto simp: carries_def)
  show ?thesis
    using q(1,5) io attach_shared_eq [OF p2(1) cs, of ev io a st su] carries_joined(2) [OF p2(2), of "ev_emulator ev" a] by (simp add: Let_def)
qed

theorem handover_carries_the_screen_witness:
  "\<exists>d1 p1 d2 d3 d4 columns lines columns' lines'.
     snapshot sample_env (sample_daemon (sample_session (AttRevoking 4) None)) 7 1 [8] 80 24 4 (Some 4) = (Inr RespOk, d1) \<and>
     pane_of d1 7 1 = Some p1 \<and> d2 = store_pane d1 7 (fst (take_output sample_env 7 0 [1, 2, 3] p1 :: unit mux_pane \<times> unit effect list)) \<and>
     attach_shared sample_env sample_io d2 7 1 (sample_attacher 5 False) () sample_summary =
       (Inr (RespSharedAttached 1 [] () sample_summary columns lines), d3) \<and>
     attach_shared sample_env sample_io d3 7 1 (sample_attacher 4 False) () sample_summary =
       (Inr (RespSharedAttached 1 [1, 2, 3] () sample_summary columns' lines'), d4)"
proof -
  let ?d = "sample_daemon (sample_session (AttRevoking 4) None)" and ?p = "sample_pane (AttRevoking 4) (80, 24)"
  have f: "find_session ?d 7 = Some (sample_session (AttRevoking 4) None)" by (rule sample_find)
  have fp: "find_pane (sample_session (AttRevoking 4) None) 1 = Some ?p"
    using sample_pane_of [of "AttRevoking 4" None] f by (simp add: pane_of_def)
  have att: "pn_attachment ?p = AttRevoking 4" by (simp add: sample_pane_def)
  have caller: "caller_process_id (sample_session (AttRevoking 4) None) 4 (Some 4) = Some 4"
    by (simp add: caller_process_id_def control_process_id_def)
  obtain p1 d1 where sn: "snapshot sample_env ?d 7 1 [8] 80 24 4 (Some 4) = (Inr RespOk, d1)" "pane_of d1 7 1 = Some p1"
    "pn_attachment p1 = AttShared []" "pn_id p1 = 1"
    using snapshot_commits [OF f fp att caller] by metis
  obtain q es where t: "take_output sample_env 7 0 [1, 2, 3] p1 = (q, es :: unit effect list)" by fastforce
  define d2 where "d2 = store_pane d1 7 q"
  have d2: "pane_of d2 7 1 = Some q"
    using sn take_output_keeps [OF t] by (simp add: d2_def keeps_pane_def)
  have enc: "\<forall>e. ev_encode sample_env e \<noteq> None" by (simp add: sample_env_def)
  have run: "after_answer sample_env 7 1 4 d1 d2 [[1, 2, 3]] False"
    using Output [OF Answered sn(2,3) _ t d2] by (simp add: watching_def)
  note law = handover_carries_the_screen [OF f fp att caller enc sn(1) _ , of _ _ _ sample_io _ "()" sample_summary]
  have out: "last_bytes HANDOVER_OUTPUT_LIMIT [1, 2, 3 :: 8 word] = [1, 2, 3]" by (simp add: last_bytes_def HANDOVER_OUTPUT_LIMIT_def)
  have none: "retained_snapshot (ev_emulator sample_env) t = []" for t
    by (cases t) (simp_all add: retained_snapshot_def sample_env_def sample_emulator_def)
  have who: "attacher_verified (sample_attacher k False) = Some k" for k
    by (simp add: sample_attacher_def attacher_verified_def verified_process_id_def)
  obtain d3 columns lines where j3: "attach_shared sample_env sample_io d2 7 1 (sample_attacher 5 False) () sample_summary =
       (Inr (RespSharedAttached 1 [] () sample_summary columns lines), d3)"
    using law [OF run, of "sample_attacher 5 False"] by (auto simp: who none sample_io_def)
  have "after_answer sample_env 7 1 4 d1 d3 [[1, 2, 3]] False" using Joins [OF run j3] by (simp add: who)
  from law [OF this, of "sample_attacher 4 False"] show ?thesis
    using sn(1,2) t j3 out by (auto simp: who sample_io_def d2_def)
qed

text \<open>
  A waiting remote client can be given the terminal: when the holder of a pane that
  is being handed over dies, a waiter that may only have a stream is answered with
  the terminal like any other, although a client that finds the pane free is
  given a stream.
\<close>

theorem remote_waiter_is_given_the_terminal:
  assumes "find_session d i = Some s" "find_pane s j = Some p" "\<not> pn_exited p" "catalog_summary s = Some su"
    and "pn_attachment p = AttRevoking h \<or> pn_attachment p = AttGranting h" "\<not> ev_running ev h"
    and "at_stream_only a" "ai_sent io" "ai_replayed io"
  shows "\<exists>replay d'. await_handover ev io d i j a = Some (Answers (Inr (RespAttached j replay (se_state s) su)) d')"
proof -
  have p: "pane_of d i j = Some p" "pn_id p = j" using assms(1,2) by (auto simp: pane_of_Some dest: find_paneD)
  let ?q = "finish_handover_waiter (release_pane p) True"
  have "pane_of (store_pane d i ?q) i j = Some ?q" using p by simp
  note ex = attach_exclusive_eq [OF this, of ev io "at_process_id a" "at_client_id a" "se_state s" su]
  have "await_pane ev io d i a (se_state s) su p = answering (attach_exclusive ev io (store_pane d i ?q) i j (at_process_id a)
      (at_client_id a) (se_state s) su)"
    using assms(5,6) p(2) by (auto simp: await_pane_def Let_def)
  then show ?thesis
    using assms(1-4,8,9) by (simp add: await_handover_def ex answering_def Let_def)
qed

theorem remote_waiter_is_given_the_terminal_witness:
  "\<exists>replay su d'. await_handover (sample_env\<lparr>ev_running := \<lambda>_. False\<rparr>) sample_io
      (sample_daemon (sample_session (AttRevoking 4) None)) 7 1 (sample_attacher 5 True) =
    Some (Answers (Inr (RespAttached 1 replay () su)) d')"
proof -
  let ?s = "sample_session (AttRevoking 4) None" and ?p = "sample_pane (AttRevoking 4) (80, 24)"
  obtain su where su: "catalog_summary ?s = Some su" using sample_catalog by blast
  have f: "find_session (sample_daemon ?s) 7 = Some ?s" by (rule sample_find)
  have fp: "find_pane ?s 1 = Some ?p"
    using sample_pane_of [of "AttRevoking 4" None] f by (simp add: pane_of_def)
  have "\<exists>replay d'. await_handover (sample_env\<lparr>ev_running := \<lambda>_. False\<rparr>) sample_io (sample_daemon ?s) 7 1 (sample_attacher 5 True) =
      Some (Answers (Inr (RespAttached 1 replay (se_state ?s) su)) d')"
    by (rule remote_waiter_is_given_the_terminal [OF f fp _ su, of 4])
      (simp_all add: sample_pane_def sample_attacher_def sample_io_def)
  then show ?thesis by auto
qed

text \<open>
  C40.  A grant can give a terminal a second reader.  Its second half does not look at
  who holds the pane by then: when the pane was released while the relay drained and
  another client has been given the terminal since, the grant still answers with the
  terminal and records the first client as the holder, without a revoke to the other.
\<close>

theorem late_grant_takes_a_held_pane:
  assumes "take_exclusive_begin d i j claimed peer client False = (Inr rl, d1)"
    and "release_exclusive d1 i j claimed client peer = (Inr RespOk, d2)"
    and "attach ev io d2 i (Some j) b force = Some (Answers (Inr (RespAttached j replay st su)) d3)" "ai_sent io'"
  shows "\<exists>q su' d4 q'. pane_of d3 i j = Some q \<and> pn_attachment q = exclusive_attachment (at_process_id b) \<and>
    take_exclusive_finish ev io' d3 i j claimed client null True = (Inr (RespAttached j [] null su'), d4) \<and>
    pane_of d4 i j = Some q' \<and> pn_attachment q' = exclusive_attachment claimed \<and>
    dm_effects d4 = dm_effects d3 @ [NotifyWaiters, PublishCatalog, WakeDrain]"
proof -
  obtain q where q: "pane_of d3 i j = Some q" "pn_attachment q = exclusive_attachment (at_process_id b)"
    using attach_hands_over [OF assms(3)] by (auto simp: handed_over_def)
  then obtain s where s: "find_session d3 i = Some s" "find_pane s j = Some q" by (auto simp: pane_of_Some)
  let ?q = "q\<lparr>pn_attachment := exclusive_attachment claimed, pn_attachment_client_id := Some client,
      pn_retained := retained_clear (ev_emulator ev) (pn_retained q), pn_handed_over := None\<rparr>"
  have "take_exclusive_finish ev io' d3 i j claimed client null True =
      (Inr (RespAttached j [] null (se_summary s)), emit_effects (store_pane d3 i ?q) [NotifyWaiters, PublishCatalog, WakeDrain])"
    using s assms(4) by (simp add: take_exclusive_finish_def Let_def)
  moreover have "dm_effects (emit_effects (store_pane d3 i ?q) es) = dm_effects d3 @ es" for es
    by (simp add: emit_effects_def store_pane_def put_session_def split: option.splits)
  ultimately show ?thesis using q pane_of_id [OF q(1)] by auto
qed

theorem late_grant_takes_a_held_pane_witness:
  "\<exists>d1 d2 d3 d4 rl su su'.
     take_exclusive_begin (sample_daemon (sample_session (AttShared [sample_client 1 None]) None)) 7 1 10 (Some 10) ''c'' False =
       (Inr rl, d1) \<and>
     release_exclusive d1 7 1 10 ''c'' (Some 10) = (Inr RespOk, d2) \<and>
     attach sample_env sample_io d2 7 (Some 1) (sample_attacher 5 False) False = Some (Answers (Inr (RespAttached 1 [] () su)) d3) \<and>
     take_exclusive_finish sample_env sample_io d3 7 1 10 ''c'' () True = (Inr (RespAttached 1 [] () su'), d4) \<and>
     map_option pn_attachment (pane_of d3 7 1) = Some (AttExclusive 5) \<and>
     map_option pn_attachment (pane_of d4 7 1) = Some (AttExclusive 10)"
proof -
  let ?s = "\<lambda>att. sample_session att None" and ?cs = "AttShared [sample_client 1 None]"
  let ?p = "(sample_pane (AttGranting 10) (80, 24))\<lparr>pn_attachment_client_id := Some ''c''\<rparr>"
  define d1 where "d1 = store_pane (sample_daemon (?s ?cs)) 7 ?p"
  define d2 where "d2 = release_failed_handover d1 7 1 ''c''"
  have "pane_of (sample_daemon (?s ?cs)) 7 1 = Some (sample_pane ?cs (80, 24))" by simp
  then have "Option.bind (find_session (sample_daemon (?s ?cs)) 7) (\<lambda>s. find_pane s 1) = Some (sample_pane ?cs (80, 24))"
    by (simp add: pane_of_def)
  then have b: "take_exclusive_begin (sample_daemon (?s ?cs)) 7 1 10 (Some 10) ''c'' False = (Inr sample_relay, d1)"
    by (simp add: take_exclusive_begin_def verified_process_id_def d1_def)
      (simp add: sample_pane_def is_sole_viewer_def sample_client_def)
  have f1: "find_session d1 7 = Some (put_pane (?s ?cs) ?p)" "find_pane (put_pane (?s ?cs) ?p) 1 = Some ?p"
    "pane_of d1 7 1 = Some ?p"
    using find_store_pane [OF sample_find [of ?cs None], of ?p] by (simp_all add: d1_def find_pane_def put_pane_def)
      (simp_all add: sample_session_def sample_pane_def pane_of_def find_pane_def)
  moreover have "pn_attachment ?p = AttGranting 10" "pn_attachment_client_id ?p = Some ''c''" by (simp_all add: sample_pane_def)
  moreover have "caller_process_id (put_pane (?s ?cs) ?p) 10 (Some 10) = Some 10"
    by (simp add: caller_process_id_def control_process_id_def)
  ultimately have r: "release_exclusive d1 7 1 10 ''c'' (Some 10) = (Inr RespOk, d2)"
    by (simp add: release_exclusive_def d2_def)
  have "find_session d2 7 = Some (put_pane (put_pane (?s ?cs) ?p) (release_pane ?p))"
    using f1 find_store_pane [OF f1(1), of "release_pane ?p"] by (simp add: d2_def release_failed_handover_def)
  also have "put_pane (put_pane (?s ?cs) ?p) (release_pane ?p) = ?s AttNone"
    by (simp add: put_pane_def sample_session_def sample_pane_def release_pane_def)
  finally have f2: "find_session d2 7 = Some (?s AttNone)" .
  have p2: "pane_of d2 7 1 = Some (sample_pane AttNone (80, 24))"
    using f2 sample_pane_of [of AttNone None] sample_find [of AttNone None] by (simp add: pane_of_def)
  obtain su where "catalog_summary (?s AttNone) = Some su" using sample_catalog by blast
  moreover have "fst (attach_exclusive sample_env sample_io d2 7 1 5 ''w'' () su) = Inr (RespAttached 1 [] () su)"
    by (simp add: attach_exclusive_eq [OF p2] Let_def sample_io_def sample_pane_def retained_snapshot_def)
  ultimately obtain d3 where a: "attach sample_env sample_io d2 7 (Some 1) (sample_attacher 5 False) False =
      Some (Answers (Inr (RespAttached 1 [] () su)) d3)"
    using store_pane_same [OF p2]
    by (simp add: sample_attaches_in [OF f2] attach_pane_def Let_def answering_def sample_pane_def sample_attacher_def)
  have "ai_sent sample_io" by (simp add: sample_io_def)
  from late_grant_takes_a_held_pane [OF b r a this, of "()"] b r a show ?thesis
    by (auto simp: exclusive_attachment_def sample_attacher_def)
qed

end
