(* ===== verification/Mux_Secret.thy ===== *)
theory Mux_Secret
  imports Mux_Attach
begin

text \<open>
  Checking session secrets (\<open>crates/zmux/src/server/secret_check.rs\<close> and the delay of
  \<open>crates/zmux/src/auth.rs\<close>): the gate that admits the slow checks, the verifier read
  before a check and the outcome recorded after it, the refusal window, resumes of
  protected records, and what a request's secret proves.

  A check gives up the sessions lock while it runs, so it is modelled as the steps it
  makes under a lock; any number of checks run beside one another, the clock advances and sessions are protected
  again or ended between them.  Whether a secret matches a verifier is a parameter.
  Times are in milliseconds; the end of the clock, where \<open>checked_add\<close> fails, is not modelled.
\<close>

section \<open>The delay\<close>

definition FAILED_AUTHENTICATION_DELAY :: nat where
  "FAILED_AUTHENTICATION_DELAY = 1000"

definition MAX_FAILED_AUTHENTICATION_DELAY :: nat where
  "MAX_FAILED_AUTHENTICATION_DELAY = 30000"

definition failed_authentication_delay :: "u32 \<Rightarrow> nat" where
  "failed_authentication_delay failures =
     (let doublings = min (unat failures - 1) 31
      in min (FAILED_AUTHENTICATION_DELAY * 2 ^ doublings) MAX_FAILED_AUTHENTICATION_DELAY)"

section \<open>The gate\<close>

definition MAX_CONCURRENT_CHECKS :: nat where
  "MAX_CONCURRENT_CHECKS = 4"

definition MAX_VERIFIER_REPLACEMENTS :: nat where
  "MAX_VERIFIER_REPLACEMENTS = 2"

text \<open>\<open>None\<close>: the caller goes on waiting.\<close>

definition gate_enter :: "u64 set \<Rightarrow> u64 \<Rightarrow> u64 set option" where
  "gate_enter in_flight i =
     (if i \<in> in_flight \<or> MAX_CONCURRENT_CHECKS \<le> card in_flight then None else Some (insert i in_flight))"

definition gate_leave :: "u64 set \<Rightarrow> u64 \<Rightarrow> u64 set" where
  "gate_leave in_flight i = in_flight - {i}"

section \<open>A check\<close>

definition verifier_to_check :: "nat \<Rightarrow> ('t, 'j) daemon \<Rightarrow> u64 \<Rightarrow> secret_check + authentication" where
  "verifier_to_check now d i =
     (case find_session d i of
        None \<Rightarrow> Inl CheckNotApplicable
      | Some s \<Rightarrow>
          (case se_authentication s of
             None \<Rightarrow> Inl CheckNotApplicable
           | Some au \<Rightarrow>
               if (case se_refuse_until s of Some until \<Rightarrow> now < until | None \<Rightarrow> False) then Inl CheckFailed
               else Inr au))"

text \<open>The outcome is recorded; \<open>None\<close> where the verifier was replaced meanwhile.\<close>

definition record_check :: "nat \<Rightarrow> ('t, 'j) daemon \<Rightarrow> u64 \<Rightarrow> authentication \<Rightarrow> bool \<Rightarrow>
    secret_check option \<times> ('t, 'j) daemon" where
  "record_check now d i au verified =
     (case find_session d i of
        None \<Rightarrow> (Some CheckNotApplicable, d)
      | Some s \<Rightarrow>
          (case se_authentication s of
             None \<Rightarrow> (Some CheckNotApplicable, d)
           | Some current \<Rightarrow>
               if au_identity current \<noteq> au_identity au then (None, d)
               else if verified then
                 (Some (Verified (au_identity au)),
                  put_session d (s\<lparr>se_failed_authentications := 0, se_refuse_until := None\<rparr>))
               else
                 let failures = (if se_failed_authentications s = - 1 then - 1 else se_failed_authentications s + 1)
                 in (Some CheckFailed,
                     put_session d (s\<lparr>se_failed_authentications := failures,
                       se_refuse_until := Some (now + failed_authentication_delay failures)\<rparr>))))"

datatype phase = Waiting | InGate nat | Hashing authentication nat | Ended secret_check

record attempt =
  an_session :: u64
  an_secret :: string
  an_phase :: phase

text \<open>
  The daemon, the gate and the checks that were begun.  The failures that were counted,
  newest first, with the session, the verifier, the time and the end of the window, are kept for
  the statement only.
\<close>

record ('t, 'j) checks =
  ck_daemon :: "('t, 'j) daemon"
  ck_in_flight :: "u64 set"
  ck_now :: nat
  ck_attempts :: "nat \<rightharpoonup> attempt"
  ck_failures :: "(u64 \<times> nat \<times> nat \<times> nat) list"

definition set_phase :: "('t, 'j) checks \<Rightarrow> nat \<Rightarrow> attempt \<Rightarrow> phase \<Rightarrow> ('t, 'j) checks" where
  "set_phase w k a ph = w\<lparr>ck_attempts := (ck_attempts w)(k \<mapsto> a\<lparr>an_phase := ph\<rparr>)\<rparr>"

text \<open>Returning drops the ticket.\<close>

definition end_check :: "('t, 'j) checks \<Rightarrow> nat \<Rightarrow> attempt \<Rightarrow> secret_check \<Rightarrow> ('t, 'j) checks" where
  "end_check w k a outcome =
     (set_phase w k a (Ended outcome))\<lparr>ck_in_flight := gate_leave (ck_in_flight w) (an_session a)\<rparr>"

definition begin_check :: "('t, 'j) checks \<Rightarrow> nat \<Rightarrow> u64 \<Rightarrow> string \<Rightarrow> ('t, 'j) checks" where
  "begin_check w k i secret =
     set_phase w k \<lparr>an_session = i, an_secret = secret, an_phase = Waiting\<rparr>
       (case verifier_to_check (ck_now w) (ck_daemon w) i of Inl outcome \<Rightarrow> Ended outcome | Inr _ \<Rightarrow> Waiting)"

definition enter_check :: "('t, 'j) checks \<Rightarrow> nat \<Rightarrow> attempt \<Rightarrow> ('t, 'j) checks option" where
  "enter_check w k a =
     map_option (\<lambda>in_flight. (set_phase w k a (InGate (Suc MAX_VERIFIER_REPLACEMENTS)))\<lparr>ck_in_flight := in_flight\<rparr>)
       (gate_enter (ck_in_flight w) (an_session a))"

definition read_verifier :: "('t, 'j) checks \<Rightarrow> nat \<Rightarrow> attempt \<Rightarrow> nat \<Rightarrow> ('t, 'j) checks" where
  "read_verifier w k a tries =
     (case tries of
        0 \<Rightarrow> end_check w k a CheckFailed
      | Suc rest \<Rightarrow>
          (case verifier_to_check (ck_now w) (ck_daemon w) (an_session a) of
             Inl outcome \<Rightarrow> end_check w k a outcome
           | Inr au \<Rightarrow> set_phase w k a (Hashing au rest)))"

definition counted_failure :: "('t, 'j) checks \<Rightarrow> u64 \<Rightarrow> authentication \<Rightarrow> secret_check option \<Rightarrow> ('t, 'j) daemon \<Rightarrow>
    (u64 \<times> nat \<times> nat \<times> nat) list" where
  "counted_failure w i au outcome d' =
     (if outcome = Some CheckFailed then
        case Option.bind (find_session d' i) se_refuse_until of
          Some until \<Rightarrow> [(i, au_identity au, ck_now w, until)] | None \<Rightarrow> []
      else [])"

definition finish_check :: "(string \<Rightarrow> string \<Rightarrow> bool) \<Rightarrow> ('t, 'j) checks \<Rightarrow> nat \<Rightarrow> attempt \<Rightarrow> authentication \<Rightarrow> nat \<Rightarrow>
    ('t, 'j) checks" where
  "finish_check verify w k a au rest =
     (case record_check (ck_now w) (ck_daemon w) (an_session a) au (verify (au_verifier au) (an_secret a)) of
        (outcome, d') \<Rightarrow>
          let w1 = w\<lparr>ck_daemon := d', ck_failures := counted_failure w (an_session a) au outcome d' @ ck_failures w\<rparr>
          in case outcome of None \<Rightarrow> set_phase w1 k a (InGate rest) | Some out \<Rightarrow> end_check w1 k a out)"

section \<open>Checks side by side\<close>

inductive check_run :: "'t mux_env \<Rightarrow> (string \<Rightarrow> string \<Rightarrow> bool) \<Rightarrow> ('t, 'j) checks \<Rightarrow> bool" for ev verify where
  Start: "daemon_ok d \<Longrightarrow> list_all (\<lambda>s. \<forall>au. se_authentication s = Some au \<longrightarrow> au_identity au < dm_next_verifier d) (dm_sessions d) \<Longrightarrow>
    check_run ev verify \<lparr>ck_daemon = d, ck_in_flight = {}, ck_now = now, ck_attempts = Map.empty, ck_failures = []\<rparr>"
| Begin: "check_run ev verify w \<Longrightarrow> ck_attempts w k = None \<Longrightarrow> check_run ev verify (begin_check w k i secret)"
| Enter: "check_run ev verify w \<Longrightarrow> ck_attempts w k = Some a \<Longrightarrow> an_phase a = Waiting \<Longrightarrow> enter_check w k a = Some w' \<Longrightarrow>
    check_run ev verify w'"
| Read: "check_run ev verify w \<Longrightarrow> ck_attempts w k = Some a \<Longrightarrow> an_phase a = InGate tries \<Longrightarrow>
    check_run ev verify (read_verifier w k a tries)"
| Finish: "check_run ev verify w \<Longrightarrow> ck_attempts w k = Some a \<Longrightarrow> an_phase a = Hashing au rest \<Longrightarrow>
    check_run ev verify (finish_check verify w k a au rest)"
| Tick: "check_run ev verify w \<Longrightarrow> check_run ev verify (w\<lparr>ck_now := ck_now w + n\<rparr>)"
| Protect: "check_run ev verify w \<Longrightarrow> find_session (ck_daemon w) i = Some s \<Longrightarrow>
    protect_session ev (ck_daemon w) s v envelope peer = Inr (d1, s1) \<Longrightarrow>
    check_run ev verify (w\<lparr>ck_daemon := put_session d1 s1\<rparr>)"
| End: "check_run ev verify w \<Longrightarrow> kill (ck_daemon w) i peer pf = (Inr (), d') \<Longrightarrow> check_run ev verify (w\<lparr>ck_daemon := d'\<rparr>)"

section \<open>Resuming a record\<close>

record resume_failures =
  rf_count :: u32
  rf_refuse_until :: nat

record reported_backoff =
  rb_failed_authentications :: u32
  rb_refusing :: bool

datatype resume_check = ResumeVerified | ResumeRefused | ResumeFailed u32 nat

definition resume_refused :: "nat \<Rightarrow> (u64 \<rightharpoonup> resume_failures) \<Rightarrow> u64 \<Rightarrow> reported_backoff \<Rightarrow> bool" where
  "resume_refused now failures i reported \<longleftrightarrow>
     rb_refusing reported \<or> (case failures i of Some f \<Rightarrow> now < rf_refuse_until f | None \<Rightarrow> False)"

text \<open>Inside the gate: the second look, at \<open>now\<close>, and the outcome, recorded at \<open>after\<close>.\<close>

definition check_resume_secret :: "nat \<Rightarrow> nat \<Rightarrow> (u64 \<rightharpoonup> resume_failures) \<Rightarrow> u64 \<Rightarrow> bool \<Rightarrow> reported_backoff \<Rightarrow>
    resume_check \<times> (u64 \<rightharpoonup> resume_failures)" where
  "check_resume_secret now after failures i verified reported =
     (if resume_refused now failures i reported then (ResumeRefused, failures)
      else if verified then (ResumeVerified, failures(i := None))
      else
        let known = max (case failures i of Some f \<Rightarrow> rf_count f | None \<Rightarrow> 0) (rb_failed_authentications reported);
            count = (if known = - 1 then - 1 else known + 1);
            delay = failed_authentication_delay count
        in (ResumeFailed count (delay div 1000), failures(i \<mapsto> \<lparr>rf_count = count, rf_refuse_until = after + delay\<rparr>)))"

section \<open>What a secret proves\<close>

definition sessions_to_prove :: "('t, 'j) daemon \<Rightarrow> u32 option \<Rightarrow> (('t, 'j) session \<Rightarrow> bool) \<Rightarrow> u64 list" where
  "sessions_to_prove d peer selects =
     map se_id (filter (\<lambda>s. se_authentication s \<noteq> None \<and> \<not> session_identity_authorized s peer \<and> selects s) (dm_sessions d))"

text \<open>The checks that follow, one after the other, have the outcomes given.\<close>

definition prove_session_secret :: "('t, 'j) daemon \<Rightarrow> u32 option \<Rightarrow> bool \<Rightarrow> (('t, 'j) session \<Rightarrow> bool) \<Rightarrow>
    (u64 \<Rightarrow> secret_check) \<Rightarrow> secret_proof" where
  "prove_session_secret d peer has_secret selects outcome =
     (if \<not> has_secret then []
      else List.map_filter (\<lambda>i. case outcome i of Verified v \<Rightarrow> Some v | _ \<Rightarrow> None) (sessions_to_prove d peer selects))"

section \<open>The gate holds\<close>

definition in_gate :: "phase \<Rightarrow> bool" where
  "in_gate ph = (case ph of InGate _ \<Rightarrow> True | Hashing _ _ \<Rightarrow> True | _ \<Rightarrow> False)"

lemma in_gate_simps [simp]:
  "in_gate (InGate n)" "in_gate (Hashing au n)" "\<not> in_gate Waiting" "\<not> in_gate (Ended c)"
  by (simp_all add: in_gate_def)

definition gate_ok :: "u64 set \<Rightarrow> (nat \<rightharpoonup> attempt) \<Rightarrow> bool" where
  "gate_ok fl m \<longleftrightarrow> finite fl \<and> card fl \<le> MAX_CONCURRENT_CHECKS \<and>
     (\<forall>k a. m k = Some a \<and> in_gate (an_phase a) \<longrightarrow> an_session a \<in> fl) \<and>
     (\<forall>k l a b. m k = Some a \<and> m l = Some b \<and> in_gate (an_phase a) \<and> in_gate (an_phase b) \<and>
        an_session a = an_session b \<longrightarrow> k = l)"

lemma gate_okD:
  assumes "gate_ok fl m"
  shows "finite fl" "card fl \<le> MAX_CONCURRENT_CHECKS"
    "m k = Some a \<Longrightarrow> in_gate (an_phase a) \<Longrightarrow> an_session a \<in> fl"
    "m k = Some a \<Longrightarrow> m l = Some b \<Longrightarrow> in_gate (an_phase a) \<Longrightarrow> in_gate (an_phase b) \<Longrightarrow>
       an_session a = an_session b \<Longrightarrow> k = l"
  using assms unfolding gate_ok_def by blast+

lemma gate_okI:
  assumes "finite fl" "card fl \<le> MAX_CONCURRENT_CHECKS"
    and "\<And>k a. m k = Some a \<Longrightarrow> in_gate (an_phase a) \<Longrightarrow> an_session a \<in> fl"
    and "\<And>k l a b. m k = Some a \<Longrightarrow> m l = Some b \<Longrightarrow> in_gate (an_phase a) \<Longrightarrow> in_gate (an_phase b) \<Longrightarrow>
       an_session a = an_session b \<Longrightarrow> k = l"
  shows "gate_ok fl m"
  unfolding gate_ok_def using assms by blast

lemma gate_ok_outside: "gate_ok fl m \<Longrightarrow> m k = None \<Longrightarrow> \<not> in_gate (an_phase b) \<Longrightarrow> gate_ok fl (m(k \<mapsto> b))"
  by (auto simp: gate_ok_def)

lemma gate_ok_stays:
  assumes "gate_ok fl m" "m k = Some a" "in_gate (an_phase a)"
  shows "gate_ok fl (m(k \<mapsto> a\<lparr>an_phase := ph\<rparr>))"
  using gate_okD [OF assms(1)] assms(2,3) by (intro gate_okI) (auto split: if_splits)

lemma gate_ok_leaves:
  assumes "gate_ok fl m" "m k = Some a" "in_gate (an_phase a)" "\<not> in_gate ph"
  shows "gate_ok (gate_leave fl (an_session a)) (m(k \<mapsto> a\<lparr>an_phase := ph\<rparr>))"
proof -
  note ok = gate_okD [OF assms(1)]
  have "card (fl - {an_session a}) \<le> card fl" using ok(1) by (intro card_mono) auto
  moreover have "an_session b \<noteq> an_session a" if "m l = Some b" "in_gate (an_phase b)" "l \<noteq> k" for l b
    using ok(4) [OF that(1) assms(2) that(2) assms(3)] that(3) by blast
  ultimately show ?thesis
    using ok(1-3) assms(4) by (intro gate_okI) (auto simp: gate_leave_def split: if_splits intro: ok(4))
qed

lemma gate_ok_enters:
  assumes "gate_ok fl m" "m k = Some a" "\<not> in_gate (an_phase a)" "gate_enter fl (an_session a) = Some fl'"
  shows "gate_ok fl' (m(k \<mapsto> a\<lparr>an_phase := ph\<rparr>))"
proof -
  note ok = gate_okD [OF assms(1)]
  have fl: "an_session a \<notin> fl" "card fl < MAX_CONCURRENT_CHECKS" "fl' = insert (an_session a) fl"
    using assms(4) by (auto simp: gate_enter_def split: if_splits)
  have "an_session b \<noteq> an_session a" if "m l = Some b" "in_gate (an_phase b)" for l b
    using ok(3) [OF that] fl(1) by auto
  moreover have "card fl' \<le> MAX_CONCURRENT_CHECKS" "finite fl'" using ok(1) fl by auto
  ultimately show ?thesis
    using ok(3) fl(3) by (intro gate_okI) (fastforce split: if_splits intro: ok(4))+
qed

lemma gate_ok_bounds:
  assumes "gate_ok fl m"
  shows "finite {k. \<exists>a. m k = Some a \<and> in_gate (an_phase a)} \<and>
    card {k. \<exists>a. m k = Some a \<and> in_gate (an_phase a)} \<le> MAX_CONCURRENT_CHECKS"
proof -
  let ?K = "{k. \<exists>a. m k = Some a \<and> in_gate (an_phase a)}" and ?f = "\<lambda>k. an_session (the (m k))"
  have inj: "inj_on ?f ?K" using assms by (auto simp: inj_on_def gate_ok_def)
  have sub: "?f ` ?K \<subseteq> fl" using assms by (auto simp: gate_ok_def)
  have fin: "finite fl" and le: "card fl \<le> MAX_CONCURRENT_CHECKS" using assms by (simp_all add: gate_ok_def)
  have "finite ?K" using finite_subset [OF sub fin] inj by (rule finite_imageD)
  moreover have "card ?K = card (?f ` ?K)" using inj by (simp add: card_image)
  ultimately show ?thesis using card_mono [OF fin sub] le by simp
qed

section \<open>The windows hold\<close>

lemma delay_bounds:
  "FAILED_AUTHENTICATION_DELAY \<le> failed_authentication_delay n" "failed_authentication_delay n \<le> MAX_FAILED_AUTHENTICATION_DELAY"
  by (simp_all add: failed_authentication_delay_def Let_def FAILED_AUTHENTICATION_DELAY_def MAX_FAILED_AUTHENTICATION_DELAY_def)

lemma find_put_other: "se_id s \<noteq> j \<Longrightarrow> find_session (put_session d s) j = find_session d j"
proof -
  assume "se_id s \<noteq> j"
  then have "find (\<lambda>x. se_id x = j) (replace_first (\<lambda>x. se_id x = se_id s) s xs) = find (\<lambda>x. se_id x = j) xs" for xs
    by (induction xs) auto
  then show ?thesis by (simp add: find_session_def put_session_def)
qed

lemma kill_finds:
  "kill d i peer pf = (r, d') \<Longrightarrow> find_session d' j = Some s \<Longrightarrow> find_session d j = Some s"
  "kill d i peer pf = (r, d') \<Longrightarrow> dm_next_verifier d' = dm_next_verifier d"
proof -
  have "find (\<lambda>s. se_id s = j) (filter (\<lambda>s. se_id s \<noteq> i) xs) = (if i = j then None else find (\<lambda>s. se_id s = j) xs)" for xs :: "('a, 'b) session list"
    by (induction xs) auto
  then show "kill d i peer pf = (r, d') \<Longrightarrow> find_session d' j = Some s \<Longrightarrow> find_session d j = Some s"
    by (auto simp: kill_def find_session_def split: option.splits if_splits)
  show "kill d i peer pf = (r, d') \<Longrightarrow> dm_next_verifier d' = dm_next_verifier d"
    by (auto simp: kill_def split: option.splits if_splits)
qed

text \<open>What a session's verifier is, and until when it refuses.\<close>

definition guarded :: "('t, 'j) daemon \<Rightarrow> u64 \<Rightarrow> (nat \<times> nat option) option" where
  "guarded d i = Option.bind (find_session d i) (\<lambda>s. map_option (\<lambda>au. (au_identity au, se_refuse_until s)) (se_authentication s))"

lemma guarded_Some: "guarded d i = Some (v, r) \<longleftrightarrow>
  (\<exists>s au. find_session d i = Some s \<and> se_authentication s = Some au \<and> v = au_identity au \<and> r = se_refuse_until s)"
  by (auto simp: guarded_def bind_eq_Some_conv)

definition windows_ok :: "(u64 \<Rightarrow> (nat \<times> nat option) option) \<Rightarrow> nat \<Rightarrow> nat \<Rightarrow> (nat \<rightharpoonup> attempt) \<Rightarrow>
    (u64 \<times> nat \<times> nat \<times> nat) list \<Rightarrow> bool" where
  "windows_ok g nxt now m fs \<longleftrightarrow>
     (\<forall>i v r. g i = Some (v, r) \<longrightarrow> v < nxt) \<and>
     (\<forall>k a au n. m k = Some a \<longrightarrow> an_phase a = Hashing au n \<longrightarrow> au_identity au < nxt) \<and>
     (\<forall>k a au n t u. m k = Some a \<longrightarrow> an_phase a = Hashing au n \<longrightarrow>
        (an_session a, au_identity au, t, u) \<in> set fs \<longrightarrow> u \<le> now) \<and>
     (\<forall>i v t u. (i, v, t, u) \<in> set fs \<longrightarrow> v < nxt \<and> t + FAILED_AUTHENTICATION_DELAY \<le> u) \<and>
     (\<forall>i v t u r. (i, v, t, u) \<in> set fs \<longrightarrow> g i = Some (v, r) \<longrightarrow> u \<le> now \<or> (\<exists>w. r = Some w \<and> u \<le> w)) \<and>
     sorted_wrt (\<lambda>(i, v, t, u) (i', v', t', u'). i = i' \<and> v = v' \<longrightarrow> u' \<le> t) fs"

lemma windowsI:
  assumes "\<And>i v r. g i = Some (v, r) \<Longrightarrow> v < nxt"
    and "\<And>k a au n. m k = Some a \<Longrightarrow> an_phase a = Hashing au n \<Longrightarrow> au_identity au < nxt"
    and "\<And>k a au n t u. m k = Some a \<Longrightarrow> an_phase a = Hashing au n \<Longrightarrow> (an_session a, au_identity au, t, u) \<in> set fs \<Longrightarrow> u \<le> now"
    and "\<And>i v t u. (i, v, t, u) \<in> set fs \<Longrightarrow> v < nxt \<and> t + FAILED_AUTHENTICATION_DELAY \<le> u"
    and "\<And>i v t u r. (i, v, t, u) \<in> set fs \<Longrightarrow> g i = Some (v, r) \<Longrightarrow> u \<le> now \<or> (\<exists>w. r = Some w \<and> u \<le> w)"
    and "sorted_wrt (\<lambda>(i, v, t, u) (i', v', t', u'). i = i' \<and> v = v' \<longrightarrow> u' \<le> t) fs"
  shows "windows_ok g nxt now m fs"
  unfolding windows_ok_def
  by (intro conjI; (rule assms(6) | (intro allI impI, rule assms(1-5); assumption)))

lemma windowsD:
  assumes "windows_ok g nxt now m fs"
  shows "g i = Some (v, r) \<Longrightarrow> v < nxt"
    "m k = Some a \<Longrightarrow> an_phase a = Hashing au n \<Longrightarrow> au_identity au < nxt"
    "m k = Some a \<Longrightarrow> an_phase a = Hashing au n \<Longrightarrow> (an_session a, au_identity au, t, u) \<in> set fs \<Longrightarrow> u \<le> now"
    "(i, v, t, u) \<in> set fs \<Longrightarrow> v < nxt \<and> t + FAILED_AUTHENTICATION_DELAY \<le> u"
    "(i, v, t, u) \<in> set fs \<Longrightarrow> g i = Some (v, r) \<Longrightarrow> u \<le> now \<or> (\<exists>w. r = Some w \<and> u \<le> w)"
    "sorted_wrt (\<lambda>(i, v, t, u) (i', v', t', u'). i = i' \<and> v = v' \<longrightarrow> u' \<le> t) fs"
proof -
  note w = assms [unfolded windows_ok_def]
  show "g i = Some (v, r) \<Longrightarrow> v < nxt" by (rule w [THEN conjunct1, rule_format])
  note w = w [THEN conjunct2]
  show "m k = Some a \<Longrightarrow> an_phase a = Hashing au n \<Longrightarrow> au_identity au < nxt" by (rule w [THEN conjunct1, rule_format])
  note w = w [THEN conjunct2]
  show "m k = Some a \<Longrightarrow> an_phase a = Hashing au n \<Longrightarrow> (an_session a, au_identity au, t, u) \<in> set fs \<Longrightarrow> u \<le> now"
    by (rule w [THEN conjunct1, rule_format])
  note w = w [THEN conjunct2]
  show "(i, v, t, u) \<in> set fs \<Longrightarrow> v < nxt \<and> t + FAILED_AUTHENTICATION_DELAY \<le> u" using w [THEN conjunct1] by blast
  note w = w [THEN conjunct2]
  show "(i, v, t, u) \<in> set fs \<Longrightarrow> g i = Some (v, r) \<Longrightarrow> u \<le> now \<or> (\<exists>w. r = Some w \<and> u \<le> w)"
    using w [THEN conjunct1] by blast
  show "sorted_wrt (\<lambda>(i, v, t, u) (i', v', t', u'). i = i' \<and> v = v' \<longrightarrow> u' \<le> t) fs" by (rule w [THEN conjunct2])
qed

lemma windows_phase:
  assumes "windows_ok g nxt now m fs" "\<not> (\<exists>au n. an_phase b = Hashing au n)"
  shows "windows_ok g nxt now (m(k \<mapsto> b)) fs"
  using windowsD [OF assms(1)] assms(2) by (intro windowsI) (auto split: if_splits)

lemma windows_hashing:
  assumes "windows_ok g nxt now m fs" "g (an_session b) = Some (au_identity au, r)"
    and "\<And>w. r = Some w \<Longrightarrow> w \<le> now" "an_phase b = Hashing au n"
  shows "windows_ok g nxt now (m(k \<mapsto> b)) fs"
proof -
  note ok = windowsD [OF assms(1)]
  have "u \<le> now" if "(an_session b, au_identity au, t, u) \<in> set fs" for t u
    using ok(5) [OF that assms(2)] assms(3) by force
  then show ?thesis using ok ok(1) [OF assms(2)] assms(4) by (intro windowsI) (auto split: if_splits)
qed

lemma windows_guard:
  assumes "windows_ok g nxt now m fs" "nxt \<le> nxt'" "now \<le> now'"
    and g': "\<And>i v r. g' i = Some (v, r) \<Longrightarrow> v < nxt' \<and>
      (g i = Some (v, r) \<or> nxt \<le> v \<or> (\<forall>t u. (i, v, t, u) \<in> set fs \<longrightarrow> u \<le> now'))"
  shows "windows_ok g' nxt' now' m fs"
proof -
  note ok = windowsD [OF assms(1)]
  have win: "u \<le> now' \<or> (\<exists>w. r = Some w \<and> u \<le> w)" if "(i, v, t, u) \<in> set fs" "g' i = Some (v, r)" for i v t u r
  proof -
    from g' [OF that(2)] consider "g i = Some (v, r)" | "nxt \<le> v" | "\<forall>t u. (i, v, t, u) \<in> set fs \<longrightarrow> u \<le> now'" by blast
    then show ?thesis
    proof cases
      case 1
      then show ?thesis using ok(5) [OF that(1) 1] assms(3) by auto
    next
      case 2
      then show ?thesis using ok(4) [OF that(1)] by simp
    next
      case 3
      then show ?thesis using that(1) by blast
    qed
  qed
  have "u \<le> now'" if "m k = Some a" "an_phase a = Hashing au n" "(an_session a, au_identity au, t, u) \<in> set fs" for k a au n t u
    using ok(3) [OF that] assms(3) by simp
  moreover have "au_identity au < nxt'" if "m k = Some a" "an_phase a = Hashing au n" for k a au n
    using ok(2) [OF that] assms(2) by simp
  moreover have "v < nxt' \<and> t + FAILED_AUTHENTICATION_DELAY \<le> u" if "(i, v, t, u) \<in> set fs" for i v t u
    using ok(4) [OF that] assms(2) by simp
  ultimately show ?thesis using ok(6) g' win by (intro windowsI) simp_all
qed

lemma windows_failure:
  assumes "windows_ok g nxt now m fs" "v < nxt" "now + FAILED_AUTHENTICATION_DELAY \<le> u'"
    and others: "\<And>k a au n. m k = Some a \<Longrightarrow> an_phase a = Hashing au n \<Longrightarrow> an_session a \<noteq> i"
    and before: "\<And>t u. (i, v, t, u) \<in> set fs \<Longrightarrow> u \<le> now"
  shows "windows_ok (g(i \<mapsto> (v, Some u'))) nxt now m ((i, v, now, u') # fs)"
proof -
  note ok = windowsD [OF assms(1)]
  show ?thesis
  proof (rule windowsI)
    fix j w t u r assume in_fs: "(j, w, t, u) \<in> set ((i, v, now, u') # fs)" and "(g(i \<mapsto> (v, Some u'))) j = Some (w, r)"
    then show "u \<le> now \<or> (\<exists>w. r = Some w \<and> u \<le> w)" using ok(5) before by (fastforce split: if_splits)
  qed (use ok assms(2,3) others before in \<open>auto split: if_splits\<close>)
qed

definition checks_ok :: "('t, 'j) checks \<Rightarrow> bool" where
  "checks_ok w \<longleftrightarrow> gate_ok (ck_in_flight w) (ck_attempts w) \<and>
     windows_ok (guarded (ck_daemon w)) (dm_next_verifier (ck_daemon w)) (ck_now w) (ck_attempts w) (ck_failures w)"

lemma verifier_to_check_reads:
  "verifier_to_check now d i = Inr au \<Longrightarrow> \<exists>r. guarded d i = Some (au_identity au, r) \<and> (\<forall>w. r = Some w \<longrightarrow> w \<le> now)"
  by (auto simp: verifier_to_check_def guarded_def split: option.splits if_splits)

lemma guarded_put:
  assumes "find_session d i = Some s" "se_id s' = i"
  shows "guarded (put_session d s') = (guarded d)(i := map_option (\<lambda>au. (au_identity au, se_refuse_until s')) (se_authentication s'))"
proof
  fix j
  show "guarded (put_session d s') j = ((guarded d)(i := map_option (\<lambda>au. (au_identity au, se_refuse_until s')) (se_authentication s'))) j"
    using assms find_put_other [of s' j d] by (cases "j = i") (simp_all add: guarded_def)
qed

lemma put_session_next [simp]: "dm_next_verifier (put_session d s) = dm_next_verifier d"
  by (simp add: put_session_def)

text \<open>What recording an outcome does to the guard of the session.\<close>

lemma record_check_cases:
  assumes "record_check now d i au ok = (outcome, d')"
  obtains "outcome \<noteq> Some CheckFailed" "d' = d"
  | r where "outcome = Some (Verified (au_identity au))" "guarded d i = Some (au_identity au, r)"
      "guarded d' = (guarded d)(i \<mapsto> (au_identity au, None))" "dm_next_verifier d' = dm_next_verifier d"
  | r u where "outcome = Some CheckFailed" "guarded d i = Some (au_identity au, r)"
      "guarded d' = (guarded d)(i \<mapsto> (au_identity au, Some u))" "now + FAILED_AUTHENTICATION_DELAY \<le> u"
      "dm_next_verifier d' = dm_next_verifier d" "Option.bind (find_session d' i) se_refuse_until = Some u"
proof (cases "guarded d i")
  case None
  then have "outcome \<noteq> Some CheckFailed" "d' = d"
    using assms by (auto simp: record_check_def guarded_def split: option.splits)
  then show ?thesis by (rule that(1))
next
  case (Some g)
  then obtain s c where s: "find_session d i = Some s" "se_authentication s = Some c" "g = (au_identity c, se_refuse_until s)"
    by (cases g) (auto simp: guarded_Some)
  have id: "se_id s = i" using find_sessionD [OF s(1)] by simp
  show ?thesis
  proof (cases "au_identity c = au_identity au")
    case False
    then have "outcome \<noteq> Some CheckFailed" "d' = d" using assms s by (auto simp: record_check_def)
    then show ?thesis by (rule that(1))
  next
    case True
    show ?thesis
    proof (cases ok)
      case True
      then show ?thesis
        using that(2) assms s id \<open>au_identity c = au_identity au\<close> Some guarded_put [OF s(1)]
        by (auto simp: record_check_def)
    next
      case False
      let ?f = "if se_failed_authentications s = - 1 then - 1 else se_failed_authentications s + 1"
      let ?u = "now + failed_authentication_delay ?f"
      let ?s = "s\<lparr>se_failed_authentications := ?f, se_refuse_until := Some ?u\<rparr>"
      have r: "outcome = Some CheckFailed" "d' = put_session d ?s"
        using assms s False \<open>au_identity c = au_identity au\<close> by (simp_all add: record_check_def Let_def)
      have "guarded d' = (guarded d)(i \<mapsto> (au_identity au, Some ?u))"
        using guarded_put [OF s(1), of ?s] id s(2) \<open>au_identity c = au_identity au\<close> by (simp add: r(2))
      moreover have "guarded d i = Some (au_identity au, se_refuse_until s)"
        using Some s \<open>au_identity c = au_identity au\<close> by simp
      moreover have "find_session d' i = Some ?s" using s(1) id by (simp add: r(2))
      ultimately show ?thesis
        using that(3) [of "se_refuse_until s" ?u] r delay_bounds(1) [of ?f] by simp
    qed
  qed
qed

lemma checks_finish:
  assumes ok: "checks_ok w" and a: "ck_attempts w k = Some a" "an_phase a = Hashing au rest"
  shows "checks_ok (finish_check verify w k a au rest)"
proof -
  let ?i = "an_session a" and ?m = "ck_attempts w" and ?fl = "ck_in_flight w"
  note gate = conjunct1 [OF ok [unfolded checks_ok_def]] and win = conjunct2 [OF ok [unfolded checks_ok_def]]
  have ing: "in_gate (an_phase a)" using a(2) by simp
  have known: "u \<le> ck_now w" if "(?i, au_identity au, t, u) \<in> set (ck_failures w)" for t u
    by (rule windowsD(3) [OF win a that])
  have leave: "gate_ok (gate_leave ?fl ?i) (?m(k \<mapsto> a\<lparr>an_phase := Ended c\<rparr>))" for c
    by (rule gate_ok_leaves [OF gate a(1) ing]) simp
  have stay: "gate_ok ?fl (?m(k \<mapsto> a\<lparr>an_phase := InGate rest\<rparr>))" by (rule gate_ok_stays [OF gate a(1) ing])
  have phased: "windows_ok (guarded (ck_daemon w)) (dm_next_verifier (ck_daemon w)) (ck_now w) (?m(k \<mapsto> a\<lparr>an_phase := ph\<rparr>))
      (ck_failures w)" if "\<not> (\<exists>au n. ph = Hashing au n)" for ph
    by (rule windows_phase [OF win]) (use that in simp)
  obtain outcome d' where r: "record_check (ck_now w) (ck_daemon w) ?i au (verify (au_verifier au) (an_secret a)) = (outcome, d')"
    by fastforce
  from r show ?thesis
  proof (cases rule: record_check_cases)
    case 1
    then show ?thesis
      using r leave stay phased [of "InGate rest"] phased [of "Ended _"]
      by (cases outcome) (simp_all add: finish_check_def checks_ok_def end_check_def set_phase_def counted_failure_def)
  next
    case (2 g)
    have "windows_ok (guarded d') (dm_next_verifier d') (ck_now w) (?m(k \<mapsto> a\<lparr>an_phase := Ended (Verified (au_identity au))\<rparr>))
        (ck_failures w)"
      by (rule windows_guard [OF phased]) (use 2 known windowsD(1) [OF win] in \<open>auto split: if_splits\<close>)
    then show ?thesis
      using 2(1) r leave by (simp add: finish_check_def checks_ok_def end_check_def set_phase_def counted_failure_def)
  next
    case (3 g u)
    let ?m' = "?m(k \<mapsto> a\<lparr>an_phase := Ended CheckFailed\<rparr>)"
    have others: "an_session b \<noteq> ?i" if "?m' l = Some b" "an_phase b = Hashing au' n" for l b au' n
      using that gate_okD(4) [OF gate, of l b k a] a ing by (auto split: if_splits)
    have "windows_ok ((guarded (ck_daemon w))(?i \<mapsto> (au_identity au, Some u))) (dm_next_verifier (ck_daemon w)) (ck_now w) ?m'
        ((?i, au_identity au, ck_now w, u) # ck_failures w)"
      by (rule windows_failure [OF phased _ 3(4) others known]) (use windowsD(1) [OF win 3(2)] in simp_all)
    then show ?thesis
      using 3 r leave by (simp add: finish_check_def checks_ok_def end_check_def set_phase_def counted_failure_def)
  qed
qed

lemma checks_read:
  assumes ok: "checks_ok w" and a: "ck_attempts w k = Some a" "an_phase a = InGate tries"
  shows "checks_ok (read_verifier w k a tries)"
proof -
  note gate = conjunct1 [OF ok [unfolded checks_ok_def]] and win = conjunct2 [OF ok [unfolded checks_ok_def]]
  have ing: "in_gate (an_phase a)" using a(2) by simp
  have ended: "checks_ok (end_check w k a c)" for c
    using gate_ok_leaves [OF gate a(1) ing, of "Ended c"] windows_phase [OF win, of "a\<lparr>an_phase := Ended c\<rparr>" k]
    by (simp add: checks_ok_def end_check_def set_phase_def)
  show ?thesis
  proof (cases tries)
    case 0
    then show ?thesis using ended by (simp add: read_verifier_def)
  next
    case (Suc rest)
    show ?thesis
    proof (cases "verifier_to_check (ck_now w) (ck_daemon w) (an_session a)")
      case (Inl outcome)
      then show ?thesis using ended Suc by (simp add: read_verifier_def)
    next
      case (Inr au)
      then obtain r where r: "guarded (ck_daemon w) (an_session a) = Some (au_identity au, r)" "\<And>t. r = Some t \<Longrightarrow> t \<le> ck_now w"
        using verifier_to_check_reads by blast
      have "windows_ok (guarded (ck_daemon w)) (dm_next_verifier (ck_daemon w)) (ck_now w)
          ((ck_attempts w)(k \<mapsto> a\<lparr>an_phase := Hashing au rest\<rparr>)) (ck_failures w)"
        by (rule windows_hashing [OF win, of _ au r]) (use r in simp_all)
      then show ?thesis
        using gate_ok_stays [OF gate a(1) ing] Suc Inr by (simp add: read_verifier_def checks_ok_def set_phase_def)
    qed
  qed
qed

lemma protect_session_facts:
  assumes "protect_session ev d s v envelope peer = Inr (d1, s1)"
  shows "dm_sessions d1 = dm_sessions d \<and> dm_next_verifier d1 = Suc (dm_next_verifier d) \<and> se_id s1 = se_id s \<and>
    se_authentication s1 = Some \<lparr>au_identity = dm_next_verifier d, au_verifier = v\<rparr> \<and> se_refuse_until s1 = None"
  using assms by (auto simp: protect_session_def pin_protected_def Let_def split: if_splits option.splits)

lemma checks_protect:
  assumes ok: "checks_ok w" and f: "find_session (ck_daemon w) i = Some s"
    and p: "protect_session ev (ck_daemon w) s v envelope peer = Inr (d1, s1)"
  shows "checks_ok (w\<lparr>ck_daemon := put_session d1 s1\<rparr>)"
proof -
  note win = conjunct2 [OF ok [unfolded checks_ok_def]] and facts = protect_session_facts [OF p]
  have f1: "find_session d1 j = find_session (ck_daemon w) j" for j using facts by (simp add: find_session_def)
  then have "guarded d1 = guarded (ck_daemon w)" by (intro ext) (simp add: guarded_def)
  then have g: "guarded (put_session d1 s1) = (guarded (ck_daemon w))(i \<mapsto> (dm_next_verifier (ck_daemon w), None))"
    using guarded_put [of d1 i s s1] f f1 facts find_sessionD [OF f] by simp
  have "windows_ok (guarded (put_session d1 s1)) (dm_next_verifier (put_session d1 s1)) (ck_now w) (ck_attempts w) (ck_failures w)"
    by (rule windows_guard [OF win]) (use facts windowsD(1) [OF win] in \<open>auto simp: g less_Suc_eq split: if_splits\<close>)
  then show ?thesis using ok by (simp add: checks_ok_def)
qed

lemma check_run_ok: "check_run ev verify w \<Longrightarrow> checks_ok w"
proof (induction rule: check_run.induct)
  case (Start d now)
  then show ?case
    by (auto simp: checks_ok_def gate_ok_def windows_ok_def guarded_Some MAX_CONCURRENT_CHECKS_def list_all_iff dest: find_sessionD)
next
  case (Begin w k i secret)
  then show ?case
    by (auto simp: checks_ok_def begin_check_def set_phase_def intro!: gate_ok_outside windows_phase split: sum.splits)
next
  case (Enter w k a w')
  then show ?case
    by (auto simp: checks_ok_def enter_check_def set_phase_def intro!: gate_ok_enters windows_phase)
next
  case (Read w k a tries)
  then show ?case by (blast intro: checks_read)
next
  case (Finish w k a au rest)
  then show ?case by (blast intro: checks_finish)
next
  case (Tick w n)
  have "windows_ok g nxt (now + n) m fs" if "windows_ok g nxt now m fs" for g nxt now m fs
    by (rule windows_guard [OF that]) (use windowsD(1) [OF that] in auto)
  then show ?case using Tick.IH by (simp add: checks_ok_def)
next
  case (Protect w i s v envelope peer d1 s1)
  then show ?case by (blast intro: checks_protect)
next
  case (End w i peer pf d')
  have "guarded (ck_daemon w) j = Some x" if "guarded d' j = Some x" for j x
    using that kill_finds(1) [OF End.hyps(2)] by (cases x) (auto simp: guarded_Some)
  then have "windows_ok (guarded d') nxt now m fs" if "windows_ok (guarded (ck_daemon w)) nxt now m fs" for nxt now m fs
    using windowsD(1) [OF that] by (intro windows_guard [OF that]) blast+
  then show ?case using End.IH kill_finds(2) [OF End.hyps(2)] by (simp add: checks_ok_def)
qed

section \<open>A wrong secret\<close>

text \<open>An attempt on a session that is not refusing, with nothing else under way.\<close>

lemma wrong_secret_is_counted:
  assumes run: "check_run ev verify w" and f: "find_session (ck_daemon w) i = Some s" and au: "se_authentication s = Some au"
    and open_: "\<And>t. se_refuse_until s = Some t \<Longrightarrow> t \<le> ck_now w" and k: "ck_attempts w k = None" "ck_in_flight w = {}"
    and wrong: "\<not> verify (au_verifier au) secret" and n: "se_failed_authentications s \<noteq> - 1"
  obtains w' where "check_run ev verify w'"
    "ck_failures w' = (i, au_identity au, ck_now w, ck_now w + failed_authentication_delay (se_failed_authentications s + 1)) # ck_failures w"
    "find_session (ck_daemon w') i = Some (s\<lparr>se_failed_authentications := se_failed_authentications s + 1,
       se_refuse_until := Some (ck_now w + failed_authentication_delay (se_failed_authentications s + 1))\<rparr>)"
    "ck_now w' = ck_now w" "ck_in_flight w' = {}" "\<And>l. l \<noteq> k \<Longrightarrow> ck_attempts w' l = ck_attempts w l"
proof -
  let ?s = "s\<lparr>se_failed_authentications := se_failed_authentications s + 1,
       se_refuse_until := Some (ck_now w + failed_authentication_delay (se_failed_authentications s + 1))\<rparr>"
  let ?a = "\<lambda>ph. \<lparr>an_session = i, an_secret = secret, an_phase = ph\<rparr>"
  define w1 where "w1 = begin_check w k i secret"
  define w2 where "w2 = (set_phase w1 k (?a Waiting) (InGate 3))\<lparr>ck_in_flight := {i}\<rparr>"
  define w3 where "w3 = read_verifier w2 k (?a (InGate 3)) 3"
  define w4 where "w4 = finish_check verify w3 k (?a (Hashing au 2)) au 2"
  have v: "verifier_to_check (ck_now w) (ck_daemon w) i = Inr au"
    using f au open_ by (fastforce simp: verifier_to_check_def split: option.splits)
  have id: "se_id s = i" using find_sessionD [OF f] by simp
  have "check_run ev verify w1" unfolding w1_def by (rule Begin [OF run k(1)])
  moreover have w1: "ck_attempts w1 k = Some (?a Waiting)" "ck_in_flight w1 = {}" "ck_daemon w1 = ck_daemon w" "ck_now w1 = ck_now w"
    "ck_failures w1 = ck_failures w" using v k(2) by (simp_all add: w1_def begin_check_def set_phase_def)
  moreover have "enter_check w1 k (?a Waiting) = Some w2"
    using w1(2) by (simp add: enter_check_def gate_enter_def MAX_CONCURRENT_CHECKS_def MAX_VERIFIER_REPLACEMENTS_def w2_def)
  ultimately have "check_run ev verify w2" using Enter [of ev verify w1 k "?a Waiting" w2] by simp
  moreover have w2: "ck_attempts w2 k = Some (?a (InGate 3))" by (simp add: w2_def set_phase_def)
  ultimately have "check_run ev verify w3" unfolding w3_def using Read [of ev verify w2 k] by simp
  moreover have w3: "w3 = set_phase w2 k (?a (InGate 3)) (Hashing au 2)"
    using v w1 by (simp add: w3_def read_verifier_def w2_def set_phase_def numeral_3_eq_3 numeral_2_eq_2)
  then have "ck_attempts w3 k = Some (?a (Hashing au 2))" by (simp add: set_phase_def)
  ultimately have "check_run ev verify w4" unfolding w4_def using Finish [of ev verify w3 k] by simp
  moreover have "record_check (ck_now w) (ck_daemon w) i au False = (Some CheckFailed, put_session (ck_daemon w) ?s)"
    using f au n by (simp add: record_check_def Let_def)
  then have "w4 = end_check (w3\<lparr>ck_daemon := put_session (ck_daemon w) ?s,
      ck_failures := (i, au_identity au, ck_now w, ck_now w + failed_authentication_delay (se_failed_authentications s + 1)) # ck_failures w\<rparr>)
      k (?a (Hashing au 2)) CheckFailed"
    using w1 w3 wrong f id by (simp add: w4_def finish_check_def w2_def set_phase_def counted_failure_def)
  ultimately show ?thesis
    using that [of w4] w1 w3 f id
    by (simp add: end_check_def set_phase_def w2_def gate_leave_def) (simp add: w1_def begin_check_def set_phase_def)
qed

section \<open>Properties\<close>

text \<open>
  C19.  Guessing at a session's secret is rationed.  However many attempts are made side by
  side, and whatever sessions are protected again or ended meanwhile, two guesses that
  were counted against one verifier are at least a second apart, because the second came
  after the end of the refusal window the first one opened; at no moment do more than four
  checks run, and never two for one session.
\<close>

theorem guesses_are_rationed:
  assumes "check_run ev verify w"
  shows "(\<forall>a b. a < b \<and> b < length (ck_failures w) \<longrightarrow>
      (case (ck_failures w ! a, ck_failures w ! b) of
         ((i, v, t, u), (i', v', t', u')) \<Rightarrow>
           i = i' \<and> v = v' \<longrightarrow> t' + FAILED_AUTHENTICATION_DELAY \<le> u' \<and> u' \<le> t)) \<and>
    card {k. \<exists>a. ck_attempts w k = Some a \<and> in_gate (an_phase a)} \<le> MAX_CONCURRENT_CHECKS \<and>
    (\<forall>k l a b. ck_attempts w k = Some a \<and> ck_attempts w l = Some b \<and> in_gate (an_phase a) \<and> in_gate (an_phase b) \<and>
       an_session a = an_session b \<longrightarrow> k = l)"
proof -
  note ok = check_run_ok [OF assms, unfolded checks_ok_def]
  have "t' + FAILED_AUTHENTICATION_DELAY \<le> u' \<and> u' \<le> t"
    if "a < b" "b < length (ck_failures w)" "ck_failures w ! a = (i, v, t, u)" "ck_failures w ! b = (i, v, t', u')" for a b i v t u t' u'
    using windowsD(4) [OF conjunct2 [OF ok], of i v t' u'] sorted_wrt_nth_less [OF windowsD(6) [OF conjunct2 [OF ok]] that(1,2)]
      nth_mem [OF that(2)] that(3,4) by simp
  then show ?thesis
    using gate_ok_bounds [OF conjunct1 [OF ok]] gate_okD(4) [OF conjunct1 [OF ok]] by (auto split: prod.splits)
qed

theorem guesses_are_rationed_witness:
  "\<exists>w :: (unit, unit) checks. check_run sample_env (\<lambda>_ _. False) w \<and> ck_failures w = [(7, 0, 1000, 3000), (7, 0, 0, 1000)] \<and>
    (0 :: nat) + FAILED_AUTHENTICATION_DELAY \<le> 1000 \<and> (1000 :: nat) \<le> 1000"
proof -
  let ?au = "sample_authentication 0" and ?s = "sample_session AttNone (Some (sample_authentication 0))"
  let ?w = "\<lparr>ck_daemon = sample_daemon ?s, ck_in_flight = {}, ck_now = 0, ck_attempts = Map.empty, ck_failures = []\<rparr>"
  have d: "failed_authentication_delay 1 = 1000" "failed_authentication_delay 2 = 2000"
    by (simp_all add: failed_authentication_delay_def FAILED_AUTHENTICATION_DELAY_def MAX_FAILED_AUTHENTICATION_DELAY_def)
  have s: "se_failed_authentications ?s = 0" "se_refuse_until ?s = None" "se_authentication ?s = Some ?au" "au_identity ?au = 0"
    by (simp_all add: sample_session_def sample_authentication_def)
  have run: "check_run sample_env (\<lambda>_ _. False) ?w"
    by (rule Start [OF sample_daemon_ok]) (simp add: sample_daemon_def sample_authentication_def)
  have "\<exists>w1 :: (unit, unit) checks. check_run sample_env (\<lambda>_ _. False) w1 \<and> ck_failures w1 = [(7, 0, 0, 1000)] \<and> ck_now w1 = 0 \<and>
    find_session (ck_daemon w1) 7 = Some (?s\<lparr>se_failed_authentications := 1, se_refuse_until := Some 1000\<rparr>) \<and>
    ck_in_flight w1 = {} \<and> ck_attempts w1 2 = None"
    by (rule wrong_secret_is_counted [OF run, of 7 ?s ?au 0])
      (use sample_find [of AttNone "Some ?au"] s d in \<open>auto intro!: exI\<close>)
  then obtain w1 :: "(unit, unit) checks" where w1: "check_run sample_env (\<lambda>_ _. False) w1" "ck_failures w1 = [(7, 0, 0, 1000)]" "ck_now w1 = 0"
    "find_session (ck_daemon w1) 7 = Some (?s\<lparr>se_failed_authentications := 1, se_refuse_until := Some 1000\<rparr>)"
    "ck_in_flight w1 = {}" "ck_attempts w1 2 = None" by auto
  have run1: "check_run sample_env (\<lambda>_ _. False) (w1\<lparr>ck_now := ck_now w1 + 1000\<rparr>)" by (rule Tick [OF w1(1)])
  have "\<exists>w2 :: (unit, unit) checks. check_run sample_env (\<lambda>_ _. False) w2 \<and> ck_failures w2 = [(7, 0, 1000, 3000), (7, 0, 0, 1000)]"
    by (rule wrong_secret_is_counted [OF run1, of 7 "?s\<lparr>se_failed_authentications := 1, se_refuse_until := Some 1000\<rparr>" ?au 2])
      (auto simp: w1 s d intro!: exI)
  then obtain w2 :: "(unit, unit) checks" where w2: "check_run sample_env (\<lambda>_ _. False) w2" "ck_failures w2 = [(7, 0, 1000, 3000), (7, 0, 0, 1000)]"
    by auto
  have "\<forall>a b. a < b \<and> b < length (ck_failures w2) \<longrightarrow>
      (case (ck_failures w2 ! a, ck_failures w2 ! b) of
         ((i, v, t, u), (i', v', t', u')) \<Rightarrow> i = i' \<and> v = v' \<longrightarrow> t' + FAILED_AUTHENTICATION_DELAY \<le> u' \<and> u' \<le> t)"
    by (rule conjunct1 [OF guesses_are_rationed [OF w2(1)]])
  then have "(0 :: nat) + FAILED_AUTHENTICATION_DELAY \<le> 1000 \<and> (1000 :: nat) \<le> 1000"
    by (rule allE [of _ 0], elim allE [of _ 1]) (simp add: w2(2))
  then show ?thesis using w2 by blast
qed

end
