(* ===== verification/Mux_Batch.thy ===== *)
theory Mux_Batch
  imports Mux_Share
begin

text \<open>
  Batches: the request that turns a whole draft of a tab into new panes and one
  replacement of the layout, and the request that creates a shared session from a draft
  (\<open>crates/zmux/src/server/lifecycle.rs\<close>).

  Both look at the daemon, give the lock up while the processes start, and look again.  The processes are
  started by the operating system, which is the parameter \<open>start\<close>; the profiles of the host are the
  parameter \<open>has_profile\<close>.  Identifiers of panes and sessions come from counters.
\<close>

section \<open>Drafts\<close>

datatype draft_layout =
    DraftExisting u64
  | DraftNew u64
  | DraftSplit string u16 draft_layout draft_layout

datatype pane_ref = RefExisting u64 | RefDraft u64

text \<open>The command of a draft is present or absent, and so is its program.\<close>

record pane_draft =
  pd_draft_id :: u64
  pd_profile :: string
  pd_command :: "ustring option option"
  pd_size :: terminal_size
  pd_metadata :: bg_pane

record provisional_pane =
  pv_pane_id :: u64
  pv_pty :: pty
  pv_size :: terminal_size

record batch_request =
  br_session_id :: u64
  br_base_revision :: u64
  br_operation_id :: operation_id
  br_target_pane_id :: "u64 option"
  br_replacement :: draft_layout
  br_panes :: "pane_draft list"
  br_active_pane :: "pane_ref option"

record create_request =
  cq_operation_id :: operation_id
  cq_title :: string
  cq_replacement :: draft_layout
  cq_panes :: "pane_draft list"
  cq_active_pane :: "pane_ref option"
  cq_verifier :: "string option"

type_synonym starter = "pane_draft \<Rightarrow> u64 \<Rightarrow> pty option"

subsection \<open>Starting\<close>

text \<open>The identifier is taken whether or not the process starts.\<close>

definition start_shared_draft :: "starter \<Rightarrow> pane_draft \<Rightarrow> u64 \<Rightarrow> (mux_error + provisional_pane) \<times> u64" where
  "start_shared_draft start draft next_pane =
     (case start draft next_pane of
        None \<Rightarrow> Inl (NotStarted (pd_draft_id draft))
      | Some pty \<Rightarrow> Inr \<lparr>pv_pane_id = next_pane, pv_pty = pty, pv_size = pd_size draft\<rparr>, next_pane + 1)"

fun start_drafts :: "starter \<Rightarrow> pane_draft list \<Rightarrow> u64 \<Rightarrow> (mux_error + provisional_pane list) \<times> u64" where
  "start_drafts start [] next_pane = (Inr [], next_pane)"
| "start_drafts start (draft # drafts) next_pane =
     (case start_shared_draft start draft next_pane of
        (Inl e, next1) \<Rightarrow> (Inl e, next1)
      | (Inr pane, next1) \<Rightarrow> apfst (map_sum id ((#) pane)) (start_drafts start drafts next1))"

definition draft_mappings :: "pane_draft list \<Rightarrow> provisional_pane list \<Rightarrow> draft_mapping list" where
  "draft_mappings drafts provisional =
     map (\<lambda>(draft, pane). \<lparr>dm_draft_id = pd_draft_id draft, dm_pane_id = pv_pane_id pane\<rparr>) (zip drafts provisional)"

text \<open>\<open>collect::<HashMap<_, _>>()\<close>: the last entry of a key counts.\<close>

definition hash_map :: "('k \<times> 'v) list \<Rightarrow> 'k \<rightharpoonup> 'v" where
  "hash_map kvs = map_of (rev kvs)"

definition mapping_map :: "draft_mapping list \<Rightarrow> u64 \<rightharpoonup> u64" where
  "mapping_map ms = hash_map (map (\<lambda>m. (dm_draft_id m, dm_pane_id m)) ms)"

subsection \<open>Layouts of drafts\<close>

fun resolve_draft_layout :: "draft_layout \<Rightarrow> (u64 \<rightharpoonup> u64) \<Rightarrow> mux_error + bg_layout" where
  "resolve_draft_layout (DraftExisting i) m = Inr (BgPane i)"
| "resolve_draft_layout (DraftNew i) m = (case m i of None \<Rightarrow> Inl (UnknownDraft i) | Some j \<Rightarrow> Inr (BgPane j))"
| "resolve_draft_layout (DraftSplit ax r f s) m =
     (if \<not> (ax = ''horizontal'' \<or> ax = ''vertical'') then Inl (SharedError (InvalidAxis ax))
      else if \<not> (0 < r \<and> r < BACKGROUND_PANE_SPLIT_RATIO_SCALE) then Inl (SharedError InvalidLayoutRatio)
      else case resolve_draft_layout f m of
             Inl e \<Rightarrow> Inl e
           | Inr f' \<Rightarrow> (case resolve_draft_layout s m of Inl e \<Rightarrow> Inl e | Inr s' \<Rightarrow> Inr (BgSplit ax r f' s')))"

fun ensure_draft_layout :: "draft_layout \<Rightarrow> mux_error + unit" where
  "ensure_draft_layout (DraftExisting i) = Inl HeadlessExisting"
| "ensure_draft_layout (DraftNew i) = Inr ()"
| "ensure_draft_layout (DraftSplit ax r f s) =
     (case ensure_draft_layout f of Inl e \<Rightarrow> Inl e | Inr _ \<Rightarrow> ensure_draft_layout s)"

fun layout_pane_ids :: "bg_layout \<Rightarrow> u64 list \<Rightarrow> u64 list" where
  "layout_pane_ids (BgPane i) ids = ids @ [i]"
| "layout_pane_ids (BgSplit ax r f s) ids = layout_pane_ids s (layout_pane_ids f ids)"

fun replace_layout_target :: "bg_layout \<Rightarrow> u64 \<Rightarrow> bg_layout \<Rightarrow> bool \<times> bg_layout" where
  "replace_layout_target (BgPane i) target replacement =
     (if i = target then (True, replacement) else (False, BgPane i))"
| "replace_layout_target (BgSplit ax r f s) target replacement =
     (case replace_layout_target f target replacement of
        (True, f') \<Rightarrow> (True, BgSplit ax r f' s)
      | (False, f') \<Rightarrow> apsnd (BgSplit ax r f') (replace_layout_target s target replacement))"

section \<open>Batches on a session\<close>

subsection \<open>Committing\<close>

datatype 'j batch_commit =
    BatchApplied "'j shared_state" "u64 list" "draft_mapping list"
  | BatchRetry "'j shared_state" "draft_mapping list"
  | BatchConflict "'j shared_state"

text \<open>What was started for a request: the processes, their mapping and the layout with their panes in place.\<close>

record prepared_batch =
  pb_provisional :: "provisional_pane list"
  pb_mappings :: "draft_mapping list"
  pb_replacement :: bg_layout

text \<open>The whole layout is replaced, or one pane of it where it still is.\<close>

definition next_layout :: "batch_request \<Rightarrow> bg_layout \<Rightarrow> bg_layout \<Rightarrow> bg_layout option" where
  "next_layout rq replacement old_layout =
     (case br_target_pane_id rq of
        None \<Rightarrow> Some replacement
      | Some target \<Rightarrow>
          (case replace_layout_target old_layout target replacement of
             (found, l) \<Rightarrow> if found then Some l else None))"

definition referenced_pane :: "(u64 \<rightharpoonup> u64) \<Rightarrow> pane_ref option \<Rightarrow> u64 \<Rightarrow> mux_error + u64" where
  "referenced_pane m active current =
     (case active of
        Some (RefExisting i) \<Rightarrow> Inr i
      | Some (RefDraft i) \<Rightarrow> (case m i of None \<Rightarrow> Inl (UnknownDraft i) | Some j \<Rightarrow> Inr j)
      | None \<Rightarrow> Inr current)"

definition check_batch_layout :: "draft_mapping list \<Rightarrow> ('t, 'j) session \<Rightarrow> bg_layout \<Rightarrow> mux_error + unit" where
  "check_batch_layout mappings s l =
     (let next_ids = layout_pane_ids l []
      in if length (remdups_adj (sort next_ids)) \<noteq> length next_ids then Inl PaneTwice
         else if \<not> list_all (\<lambda>m. dm_pane_id m \<in> set next_ids) mappings then Inl DraftNotPlaced
         else if \<not> list_all (\<lambda>i. list_ex (\<lambda>p. pn_id p = i) (se_panes s) \<or>
                list_ex (\<lambda>m. dm_pane_id m = i) mappings) next_ids then Inl PaneNotHeld
         else Inr ())"

definition next_active_pane :: "batch_request \<Rightarrow> draft_mapping list \<Rightarrow> 'j shared_state \<Rightarrow> bg_layout \<Rightarrow> mux_error + u64" where
  "next_active_pane rq mappings st l =
     (case referenced_pane (mapping_map mappings) (br_active_pane rq) (pr_active_pane (ss_presentation st)) of
        Inl e \<Rightarrow> Inl e
      | Inr active \<Rightarrow> if active \<in> set (layout_pane_ids l []) then Inr active else Inl ActiveNotPlaced)"

definition started_metadata :: "pane_draft \<Rightarrow> provisional_pane \<Rightarrow> bg_pane" where
  "started_metadata draft pane = (pd_metadata draft)\<lparr>bp_id := pv_pane_id pane, bp_state := BgRunning, bp_exit := None\<rparr>"

definition started_pane :: "'t mux_env \<Rightarrow> provisional_pane \<Rightarrow> 't mux_pane" where
  "started_pane ev pane =
     \<lparr>pn_id = pv_pane_id pane, pn_pty = pv_pty pane, pn_attachment = AttShared [], pn_attachment_client_id = None,
      pn_size = pv_size pane,
      pn_retained = new_retained (ev_emulator ev) (ev_retention ev) (ts_columns (pv_size pane)) (ts_lines (pv_size pane)),
      pn_handed_over = None, pn_handover_waiters = 0, pn_exited = False, pn_exit_status = None,
      pn_pending_input = []\<rparr>"

definition install_batch :: "'t mux_env \<Rightarrow> batch_request \<Rightarrow> prepared_batch \<Rightarrow> ('t, 'j) session \<Rightarrow> 'j shared_state \<Rightarrow>
    bg_layout \<Rightarrow> u64 list \<Rightarrow> u64 \<Rightarrow> 'j shared_state \<times> ('t, 'j) session" where
  "install_batch ev rq b s st l removed active =
     (let started = zip (br_panes rq) (pb_provisional b);
          pr = ss_presentation st;
          pr1 = \<lparr>pr_layout = l, pr_active_pane = active,
                 pr_maximized_pane = (case pr_maximized_pane pr of
                    Some i \<Rightarrow> if i \<in> set removed then None else Some i | None \<Rightarrow> None),
                 pr_minimized_panes = filter (\<lambda>i. i \<notin> set removed) (pr_minimized_panes pr)\<rparr>;
          su = (ss_summary st)
            \<lparr>bs_panes := filter (\<lambda>p. bp_id p \<notin> set removed)
                (bs_panes (ss_summary st) @ map (\<lambda>(draft, pane). started_metadata draft pane) started),
             bs_layout := l, bs_active_pane := active\<rparr>;
          st1 = record_receipt
            (st\<lparr>ss_summary := su, ss_presentation := pr1, ss_revision := next_revision (ss_revision st),
                ss_last_operation_id := Some (br_operation_id rq)\<rparr>)
            \<lparr>re_operation_id = br_operation_id rq, re_mappings = pb_mappings b\<rparr>;
          s1 = clear_shared_size_reports (s\<lparr>se_panes := filter (\<lambda>p. pn_id p \<notin> set removed)
                (se_panes s @ map (started_pane ev) (map snd started))\<rparr>)
      in (st1, s1\<lparr>se_summary := ss_summary st1, se_state := ss_state st1, se_shared_state := Some st1\<rparr>))"

text \<open>What follows the repair: a retry, a conflict, a refusal, or the batch.\<close>

definition commit_normalized :: "'t mux_env \<Rightarrow> batch_request \<Rightarrow> prepared_batch \<Rightarrow> 'j shared_state \<Rightarrow> ('t, 'j) session \<Rightarrow>
    (mux_error + 'j batch_commit) \<times> ('t, 'j) session" where
  "commit_normalized ev rq b st s =
     (case find_receipt st (br_operation_id rq) of
        Some receipt \<Rightarrow> (Inr (BatchRetry st (re_mappings receipt)), s)
      | None \<Rightarrow>
          if br_target_pane_id rq = None \<and> ss_revision st \<noteq> br_base_revision rq then (Inr (BatchConflict st), s)
          else case next_layout rq (pb_replacement b) (pr_layout (ss_presentation st)) of
            None \<Rightarrow> (Inr (BatchConflict st), s)
          | Some l \<Rightarrow>
              (case check_batch_layout (pb_mappings b) s l of
                 Inl e \<Rightarrow> (Inl e, s)
               | Inr _ \<Rightarrow>
                   let removed = filter (\<lambda>i. i \<notin> set (layout_pane_ids l []))
                         (layout_pane_ids (pr_layout (ss_presentation st)) [])
                   in case next_active_pane rq (pb_mappings b) st l of
                        Inl e \<Rightarrow> (Inl e, s)
                      | Inr active \<Rightarrow>
                          (case install_batch ev rq b s st l removed active of
                             (st1, s1) \<Rightarrow> (Inr (BatchApplied st1 removed (pb_mappings b)), s1))))"

text \<open>The answer, the session and what the repair broadcast.\<close>

definition commit_shared_batch :: "'t mux_env \<Rightarrow> batch_request \<Rightarrow> prepared_batch \<Rightarrow> u32 option \<Rightarrow> secret_proof \<Rightarrow>
    ('t, 'j) session \<Rightarrow> ((mux_error + 'j batch_commit) \<times> ('t, 'j) session \<times> 'j effect list) option" where
  "commit_shared_batch ev rq b peer proofs s =
     (if \<not> session_control_authorized s peer proofs then Some (Inl (NotAuthorized (br_session_id rq)), s, [])
      else case normalize_shared_state s of
        None \<Rightarrow> None
      | Some (Inl e, s1, es) \<Rightarrow> Some (Inl e, s1, es)
      | Some (Inr st, s1, es) \<Rightarrow> (case commit_normalized ev rq b st s1 of (r, s2) \<Rightarrow> Some (r, s2, es)))"

text \<open>The answer to the client, and what the other clients are told.\<close>

definition batch_in :: "'t mux_env \<Rightarrow> batch_request \<Rightarrow> prepared_batch \<Rightarrow> client_id \<Rightarrow> u32 option \<Rightarrow> secret_proof \<Rightarrow>
    ('t, 'j) daemon \<Rightarrow> ('t, 'j) session \<Rightarrow> ('t, 'j) outcome" where
  "batch_in ev rq b client peer proofs d s =
     map_option (\<lambda>(r, s1, es).
         case r of
           Inl e \<Rightarrow> (Inl e, d, s1, es)
         | Inr (BatchRetry st mappings) \<Rightarrow> (Inr (RespBatch st mappings), d, s1, es)
         | Inr (BatchConflict st) \<Rightarrow> (Inr (RespConflict st), d, s1, es)
         | Inr (BatchApplied st removed mappings) \<Rightarrow>
             (Inr (RespBatch st mappings), d, s1,
              es @ [BroadcastPanesExcept client (br_session_id rq) (map dm_pane_id mappings) removed st,
                    PublishCatalog, WakeDrain]))
       (commit_shared_batch ev rq b peer proofs s)"

subsection \<open>The request\<close>

text \<open>The look before the processes are started: an answer, or \<open>Inr None\<close> to go on.\<close>

definition admit_batch :: "batch_request \<Rightarrow> u32 option \<Rightarrow> secret_proof \<Rightarrow> ('t, 'j) daemon \<Rightarrow>
    ((mux_error + 'j mux_response option) \<times> ('t, 'j) daemon) option" where
  "admit_batch rq peer proofs d =
     (if br_panes rq = [] then Some (Inl EmptyBatch, d)
      else if \<not> neighbours_differ (sort (map pd_draft_id (br_panes rq))) then Some (Inl DuplicateDrafts, d)
      else case find_session d (br_session_id rq) of
        None \<Rightarrow> Some (Inl (NoSuchSession (br_session_id rq)), d)
      | Some s \<Rightarrow>
          if \<not> se_offered s then Some (Inl (NotOffered (br_session_id rq)), d)
          else if \<not> session_control_authorized s peer proofs then Some (Inl (NotAuthorized (br_session_id rq)), d)
          else map_option (\<lambda>(r, s1, es).
              (case r of
                 Inl e \<Rightarrow> Inl e
               | Inr st \<Rightarrow> Inr (case find_receipt st (br_operation_id rq) of
                     Some receipt \<Rightarrow> Some (RespBatch st (re_mappings receipt))
                   | None \<Rightarrow> if br_target_pane_id rq = None \<and> ss_revision st \<noteq> br_base_revision rq
                              then Some (RespConflict st) else None),
               emit_effects (put_session d s1) es))
            (normalize_shared_state s))"

definition prepare_batch :: "starter \<Rightarrow> batch_request \<Rightarrow> u64 \<Rightarrow> (mux_error + prepared_batch) \<times> u64" where
  "prepare_batch start rq next_pane =
     (case start_drafts start (br_panes rq) next_pane of
        (Inl e, next1) \<Rightarrow> (Inl e, next1)
      | (Inr provisional, next1) \<Rightarrow>
          (let mappings = draft_mappings (br_panes rq) provisional
           in case resolve_draft_layout (br_replacement rq) (mapping_map mappings) of
                Inl e \<Rightarrow> Inl e
              | Inr l \<Rightarrow> Inr \<lparr>pb_provisional = provisional, pb_mappings = mappings, pb_replacement = l\<rparr>, next1))"

definition finish_batch :: "'t mux_env \<Rightarrow> batch_request \<Rightarrow> prepared_batch \<Rightarrow> client_id \<Rightarrow> u32 option \<Rightarrow> secret_proof \<Rightarrow>
    ('t, 'j) daemon \<Rightarrow> ((mux_error + 'j mux_response) \<times> ('t, 'j) daemon) option" where
  "finish_batch ev rq b client peer proofs d = on_session d (br_session_id rq) (batch_in ev rq b client peer proofs)"

text \<open>The request as a whole; \<open>meanwhile\<close> is what happens to the daemon while the processes start.\<close>

definition spawn_shared_batch :: "'t mux_env \<Rightarrow> starter \<Rightarrow> batch_request \<Rightarrow> client_id \<Rightarrow> u32 option \<Rightarrow> secret_proof \<Rightarrow>
    (('t, 'j) daemon \<Rightarrow> ('t, 'j) daemon) \<Rightarrow> u64 \<Rightarrow> ('t, 'j) daemon \<Rightarrow>
    ((mux_error + 'j mux_response) \<times> ('t, 'j) daemon \<times> u64) option" where
  "spawn_shared_batch ev start rq client peer proofs meanwhile next_pane d =
     (case admit_batch rq peer proofs d of
        None \<Rightarrow> None
      | Some (Inl e, d1) \<Rightarrow> Some (Inl e, d1, next_pane)
      | Some (Inr (Some answer), d1) \<Rightarrow> Some (Inr answer, d1, next_pane)
      | Some (Inr None, d1) \<Rightarrow>
          (case prepare_batch start rq next_pane of
             (Inl e, next1) \<Rightarrow> Some (Inl e, meanwhile d1, next1)
           | (Inr b, next1) \<Rightarrow>
               map_option (\<lambda>(answer, d2). (answer, d2, next1))
                 (finish_batch ev rq b client peer proofs (meanwhile d1))))"

section \<open>Creating a session\<close>

text \<open>\<open>char::is_whitespace\<close>: the characters \<open>str::trim\<close> takes off.\<close>

definition is_white_space :: "scalar \<Rightarrow> bool" where
  "is_white_space c \<longleftrightarrow> 9 \<le> c \<and> c \<le> 13 \<or> c \<in> {0x20, 0x85, 0xA0, 0x1680, 0x2028, 0x2029, 0x202F, 0x205F, 0x3000} \<or>
     0x2000 \<le> c \<and> c \<le> 0x200A"

definition validate_draft_process :: "(string \<Rightarrow> bool) \<Rightarrow> pane_draft \<Rightarrow> mux_error + unit" where
  "validate_draft_process has_profile draft =
     (if (case pd_command draft of
            Some program \<Rightarrow> (case program of None \<Rightarrow> True | Some p \<Rightarrow> list_all is_white_space p)
          | None \<Rightarrow> False) then Inl NoProgram
      else if pd_command draft = None \<and> pd_profile draft \<noteq> [] \<and> \<not> has_profile (pd_profile draft)
      then Inl (NoProfile (pd_profile draft))
      else if \<not> (0 < ts_columns (pd_size draft) \<and> 0 < ts_lines (pd_size draft)) then Inl NoSize
      else Inr ())"

fun first_error :: "('a \<Rightarrow> mux_error + unit) \<Rightarrow> 'a list \<Rightarrow> mux_error + unit" where
  "first_error f [] = Inr ()"
| "first_error f (x # xs) = (case f x of Inl e \<Rightarrow> Inl e | Inr _ \<Rightarrow> first_error f xs)"

text \<open>The drafts numbered from one, in the place of the panes that do not exist yet.\<close>

definition numbered_drafts :: "pane_draft list \<Rightarrow> u64 \<rightharpoonup> u64" where
  "numbered_drafts drafts = hash_map (zip (map pd_draft_id drafts) (map (\<lambda>i. of_nat (i + 1)) [0..<length drafts]))"

definition validate_create_layout :: "create_request \<Rightarrow> mux_error + unit" where
  "validate_create_layout rq =
     (case ensure_draft_layout (cq_replacement rq) of
        Inl e \<Rightarrow> Inl e
      | Inr _ \<Rightarrow>
          if \<not> neighbours_differ (sort (map pd_draft_id (cq_panes rq))) then Inl DuplicateDrafts
          else case resolve_draft_layout (cq_replacement rq) (numbered_drafts (cq_panes rq)) of
                 Inl e \<Rightarrow> Inl e
               | Inr l \<Rightarrow>
                   if sort (layout_pane_ids l []) \<noteq> map (\<lambda>i. of_nat (i + 1)) [0..<length (cq_panes rq)]
                   then Inl HeadlessIncomplete
                   else Inr ())"

definition validate_create_request :: "(string \<Rightarrow> bool) \<Rightarrow> create_request \<Rightarrow> mux_error + unit" where
  "validate_create_request has_profile rq =
     (if cq_panes rq = [] then Inl EmptyBatch
      else case validate_create_layout rq of
        Inl e \<Rightarrow> Inl e
      | Inr _ \<Rightarrow>
          (case cq_active_pane rq of
             Some (RefExisting i) \<Rightarrow> Inl HeadlessExisting
           | Some (RefDraft i) \<Rightarrow>
               if list_ex (\<lambda>p. pd_draft_id p = i) (cq_panes rq)
               then first_error (validate_draft_process has_profile) (cq_panes rq) else Inl (UnknownDraft i)
           | None \<Rightarrow> first_error (validate_draft_process has_profile) (cq_panes rq)))"

text \<open>The state of the session an earlier request with the same identifier created or edited.\<close>

definition answered_before :: "('t, 'j) daemon \<Rightarrow> operation_id \<Rightarrow> 'j shared_state option" where
  "answered_before d op = find (\<lambda>st. find_receipt st op \<noteq> None) (List.map_filter se_shared_state (dm_sessions d))"

definition created_active_pane :: "create_request \<Rightarrow> draft_mapping list \<Rightarrow> provisional_pane list \<Rightarrow> mux_error + u64" where
  "created_active_pane rq mappings provisional =
     (case cq_active_pane rq of
        Some (RefDraft i) \<Rightarrow> (case mapping_map mappings i of None \<Rightarrow> Inl (UnknownDraft i) | Some j \<Rightarrow> Inr j)
      | Some (RefExisting i) \<Rightarrow> Inl HeadlessExisting
      | None \<Rightarrow> (case provisional of [] \<Rightarrow> Inl EmptyBatch | p # _ \<Rightarrow> Inr (pv_pane_id p)))"

definition prepare_create :: "starter \<Rightarrow> create_request \<Rightarrow> u64 \<Rightarrow> (mux_error + prepared_batch \<times> u64) \<times> u64" where
  "prepare_create start rq next_pane =
     (case start_drafts start (cq_panes rq) next_pane of
        (Inl e, next1) \<Rightarrow> (Inl e, next1)
      | (Inr provisional, next1) \<Rightarrow>
          (let mappings = draft_mappings (cq_panes rq) provisional
           in case resolve_draft_layout (cq_replacement rq) (mapping_map mappings) of
                Inl e \<Rightarrow> Inl e
              | Inr l \<Rightarrow>
                  (case created_active_pane rq mappings provisional of
                     Inl e \<Rightarrow> Inl e
                   | Inr active \<Rightarrow>
                       Inr (\<lparr>pb_provisional = provisional, pb_mappings = mappings, pb_replacement = l\<rparr>, active)), next1))"

definition new_session :: "'t mux_env \<Rightarrow> create_request \<Rightarrow> prepared_batch \<Rightarrow> u64 \<Rightarrow> u64 \<Rightarrow> 'j \<Rightarrow> authentication option \<Rightarrow>
    ('t, 'j) session" where
  "new_session ev rq b active session_id null auth =
     (let started = zip (cq_panes rq) (pb_provisional b);
          su = \<lparr>bs_id = session_id, bs_title = cq_title rq, bs_authentication_required = (auth \<noteq> None),
                bs_active_pane = active, bs_layout = pb_replacement b,
                bs_panes = map (\<lambda>(draft, pane). started_metadata draft pane) started,
                bs_held = False, bs_scoped_to = None, bs_key_envelope = None\<rparr>;
          st = record_receipt
            ((new_shared_state session_id su null)\<lparr>ss_last_operation_id := Some (cq_operation_id rq)\<rparr>)
            \<lparr>re_operation_id = cq_operation_id rq, re_mappings = pb_mappings b\<rparr>
      in \<lparr>se_id = session_id, se_summary = ss_summary st, se_state = null, se_shared_state = Some st,
          se_authentication = auth, se_key_envelope = None, se_failed_authentications = 0, se_refuse_until = None,
          se_panes = map (started_pane ev) (map snd started),
          se_keep = True, se_offered = True, se_owner = None, se_sealed_to = None\<rparr>)"

text \<open>The second look: an earlier request has been answered meanwhile, or the session is made.\<close>

definition commit_create :: "'t mux_env \<Rightarrow> create_request \<Rightarrow> 'j \<Rightarrow> prepared_batch \<Rightarrow> u64 \<Rightarrow> u32 option \<Rightarrow> u64 \<Rightarrow>
    ('t, 'j) daemon \<Rightarrow> 'j mux_response \<times> ('t, 'j) daemon \<times> u64" where
  "commit_create ev rq null b active peer next_session d =
     (case answered_before d (cq_operation_id rq) of
        Some st \<Rightarrow> (RespCreated (ss_session_id st) st, d, next_session)
      | None \<Rightarrow>
          let auth = map_option (\<lambda>v. \<lparr>au_identity = dm_next_verifier d, au_verifier = v\<rparr>) (cq_verifier rq);
              d1 = (if cq_verifier rq = None then d else d\<lparr>dm_next_verifier := dm_next_verifier d + 1\<rparr>);
              s = new_session ev rq b active next_session null auth
          in case pin_protected (ev_running ev) d1 s peer of
               (d2, s1) \<Rightarrow>
                 (RespCreated next_session (shared_state_or_new s),
                  emit_effects (d2\<lparr>dm_sessions := dm_sessions d2 @ [s1]\<rparr>) [PublishCatalog, WakeDrain],
                  next_session + 1))"

definition create_shared :: "'t mux_env \<Rightarrow> (string \<Rightarrow> bool) \<Rightarrow> starter \<Rightarrow> create_request \<Rightarrow> 'j \<Rightarrow> u32 option \<Rightarrow>
    (('t, 'j) daemon \<Rightarrow> ('t, 'j) daemon) \<Rightarrow> u64 \<Rightarrow> u64 \<Rightarrow> ('t, 'j) daemon \<Rightarrow>
    (mux_error + 'j mux_response) \<times> ('t, 'j) daemon \<times> u64 \<times> u64" where
  "create_shared ev has_profile start rq null peer meanwhile next_pane next_session d =
     (case validate_create_request has_profile rq of
        Inl e \<Rightarrow> (Inl e, d, next_pane, next_session)
      | Inr _ \<Rightarrow>
          (case answered_before d (cq_operation_id rq) of
             Some st \<Rightarrow> (Inr (RespCreated (ss_session_id st) st), d, next_pane, next_session)
           | None \<Rightarrow>
               if (case cq_verifier rq of Some v \<Rightarrow> \<not> ev_accepts ev v | None \<Rightarrow> False)
               then (Inl BadVerifier, d, next_pane, next_session)
               else case prepare_create start rq next_pane of
                      (Inl e, next1) \<Rightarrow> (Inl e, meanwhile d, next1, next_session)
                    | (Inr (b, active), next1) \<Rightarrow>
                        (case commit_create ev rq null b active peer next_session (meanwhile d) of
                           (answer, d1, sessions1) \<Rightarrow> (Inr answer, d1, next1, sessions1))))"

section \<open>Layouts\<close>

lemma layout_pane_ids_eq [simp]: "layout_pane_ids l ids = ids @ bg_ids l"
  by (induction l arbitrary: ids) simp_all

lemma remdups_adj_sort_length: "length (remdups_adj (sort xs)) = length xs \<longleftrightarrow> distinct (xs :: u64 list)"
proof -
  have "length (remdups_adj xs) = length xs \<longleftrightarrow> distinct xs" if "sorted xs" for xs :: "u64 list"
    using that
  proof (induction xs rule: remdups_adj.induct)
    case (3 x y xs)
    have "length (remdups_adj (y # xs)) \<le> length (y # xs)" by (rule remdups_adj_length)
    with 3 show ?case by auto
  qed simp_all
  then show ?thesis by (metis distinct_sort length_sort sorted_sort)
qed

fun existing_panes :: "draft_layout \<Rightarrow> u64 list" where
  "existing_panes (DraftExisting i) = [i]"
| "existing_panes (DraftNew i) = []"
| "existing_panes (DraftSplit ax r f s) = existing_panes f @ existing_panes s"

lemma resolve_ok: "resolve_draft_layout l m = Inr r \<Longrightarrow> bg_ok r"
  by (induction l arbitrary: r) (auto split: option.splits if_splits sum.splits)

lemma resolve_ids: "resolve_draft_layout l m = Inr r \<Longrightarrow> set (bg_ids r) \<subseteq> set (existing_panes l) \<union> ran m"
  by (induction l arbitrary: r) (fastforce split: option.splits if_splits sum.splits intro: ranI)+

text \<open>A layout of drafts resolves under any numbering of the same drafts, to the same layout renumbered.\<close>

fun renumber_layout :: "(u64 \<Rightarrow> u64) \<Rightarrow> bg_layout \<Rightarrow> bg_layout" where
  "renumber_layout f (BgPane i) = BgPane (f i)"
| "renumber_layout f (BgSplit ax r a b) = BgSplit ax r (renumber_layout f a) (renumber_layout f b)"

lemma renumber_layout_ids [simp]: "bg_ids (renumber_layout f l) = map f (bg_ids l)"
  by (induction l) simp_all

lemma resolve_renumbered:
  assumes "resolve_draft_layout l m = Inr r" "ensure_draft_layout l = Inr ()"
  shows "resolve_draft_layout l (map_option f \<circ> m) = Inr (renumber_layout f r)"
  using assms by (induction l arbitrary: r) (auto split: option.splits if_splits sum.splits)

lemma replace_layout_target_result:
  "replace_layout_target l target rep = (found, l') \<Longrightarrow>
     found = (target \<in> set (bg_ids l)) \<and> (bg_ok l \<longrightarrow> bg_ok rep \<longrightarrow> bg_ok l') \<and>
     (\<not> found \<longrightarrow> l' = l) \<and> set (bg_ids l') \<subseteq> set (bg_ids l) \<union> set (bg_ids rep)"
proof (induction l arbitrary: found l')
  case (BgSplit ax r f s)
  obtain ff f' where f: "replace_layout_target f target rep = (ff, f')" by fastforce
  obtain fs s' where s: "replace_layout_target s target rep = (fs, s')" by fastforce
  show ?case using BgSplit.IH(1) [OF f] BgSplit.IH(2) [OF s] BgSplit.prems by (cases ff) (auto simp: f s)
qed (auto split: if_splits)

lemma next_layout_result:
  assumes "next_layout rq rep old = Some l" "bg_ok rep" "bg_ok old"
  shows "bg_ok l \<and> set (bg_ids l) \<subseteq> set (bg_ids old) \<union> set (bg_ids rep)"
  using assms replace_layout_target_result [of old _ rep]
  by (fastforce simp: next_layout_def split: option.splits prod.splits if_splits)

lemma check_batch_layout_ok:
  "check_batch_layout ms s l = Inr u \<longleftrightarrow>
     distinct (bg_ids l) \<and> dm_pane_id ` set ms \<subseteq> set (bg_ids l) \<and>
     set (bg_ids l) \<subseteq> pn_id ` set (se_panes s) \<union> dm_pane_id ` set ms"
  by (auto simp: check_batch_layout_def Let_def remdups_adj_sort_length list_all_iff list_ex_iff image_iff subset_iff)

section \<open>What was started\<close>

lemma start_drafts_length: "fst (start_drafts start drafts n) = Inr ps \<Longrightarrow> length ps = length drafts"
proof (induction drafts arbitrary: n ps)
  case (Cons draft drafts)
  show ?case
  proof (cases "fst (start_drafts start drafts (n + 1))")
    case (Inl e)
    then show ?thesis using Cons.prems by (simp add: start_shared_draft_def split: option.splits)
  next
    case (Inr ps')
    then show ?thesis using Cons.prems Cons.IH [OF Inr] by (auto simp: start_shared_draft_def split: option.splits)
  qed
qed simp

text \<open>The identifiers handed out: as many as there are drafts, one after the other.\<close>

definition next_ids :: "u64 \<Rightarrow> nat \<Rightarrow> u64 list" where
  "next_ids n k = map (\<lambda>i. n + of_nat i) [0..<k]"

lemma next_ids_Suc: "next_ids n (Suc k) = n # next_ids (n + 1) k"
  by (simp add: next_ids_def upt_conv_Cons map_Suc_upt [symmetric] algebra_simps del: upt_Suc)

lemma start_drafts_ids: "fst (start_drafts start drafts n) = Inr ps \<Longrightarrow> map pv_pane_id ps = next_ids n (length drafts)"
proof (induction drafts arbitrary: n ps)
  case (Cons draft drafts)
  show ?case
  proof (cases "fst (start_drafts start drafts (n + 1))")
    case (Inl e)
    then show ?thesis using Cons.prems by (simp add: start_shared_draft_def split: option.splits)
  next
    case (Inr ps')
    then show ?thesis
      using Cons.prems Cons.IH [OF Inr] by (auto simp: start_shared_draft_def next_ids_Suc split: option.splits)
  qed
qed (simp add: next_ids_def)

lemma unat_next_id: "unat n + k \<le> 2 ^ 64 \<Longrightarrow> i < k \<Longrightarrow> unat (n + of_nat i :: u64) = unat n + i"
proof -
  assume "unat n + k \<le> 2 ^ 64" "i < k"
  then have b: "i < 2 ^ LENGTH(64)" "unat n + i < 2 ^ LENGTH(64)" by simp_all
  have "unat (of_nat i :: u64) = i" using b(1) by (simp add: unat_of_nat)
  with b(2) show ?thesis by (simp add: unat_word_ariths)
qed

lemma next_ids_fresh:
  assumes "0 < n" "unat n + k \<le> 2 ^ 64"
  shows "distinct (next_ids n k) \<and> 0 \<notin> set (next_ids n k)"
proof -
  have i: "i < k \<Longrightarrow> unat (n + of_nat i) = unat n + i" for i by (rule unat_next_id [OF assms(2)])
  have "inj_on (\<lambda>i. n + of_nat i) {0..<k}"
    by (rule inj_onI) (metis i atLeastLessThan_iff add_left_cancel)
  moreover have "n + of_nat j \<noteq> 0" if "j < k" for j
  proof
    assume "n + of_nat j = 0"
    then have "unat n + j = 0" using i [OF that] by simp
    then show False using assms(1) by (simp add: unat_eq_zero)
  qed
  ultimately show ?thesis by (auto simp: next_ids_def distinct_map)
qed

lemma draft_mappings_ids:
  assumes "length ps = length drafts"
  shows "map dm_draft_id (draft_mappings drafts ps) = map pd_draft_id drafts"
    "map dm_pane_id (draft_mappings drafts ps) = map pv_pane_id ps"
  using assms by (induction drafts ps rule: list_induct2') (simp_all add: draft_mappings_def)

lemma mapping_map_ran: "ran (mapping_map ms) \<subseteq> dm_pane_id ` set ms"
proof
  fix j assume "j \<in> ran (mapping_map ms)"
  then obtain i where "map_of (rev (map (\<lambda>m. (dm_draft_id m, dm_pane_id m)) ms)) i = Some j"
    by (auto simp: ran_def mapping_map_def hash_map_def)
  then show "j \<in> dm_pane_id ` set ms" by (auto dest!: map_of_SomeD)
qed

text \<open>What \<open>prepare_batch\<close> hands to the second look.\<close>

lemma prepare_batch_result:
  assumes "prepare_batch start rq n = (Inr b, n')"
  shows "length (pb_provisional b) = length (br_panes rq)"
    "pb_mappings b = draft_mappings (br_panes rq) (pb_provisional b)"
    "map dm_pane_id (pb_mappings b) = map pv_pane_id (pb_provisional b)"
    "map dm_draft_id (pb_mappings b) = map pd_draft_id (br_panes rq)"
    "map pv_pane_id (pb_provisional b) = next_ids n (length (br_panes rq))"
    "bg_ok (pb_replacement b)"
    "set (bg_ids (pb_replacement b)) \<subseteq> set (existing_panes (br_replacement rq)) \<union> dm_pane_id ` set (pb_mappings b)"
proof -
  obtain ps where s: "start_drafts start (br_panes rq) n = (Inr ps, n')"
    using assms by (cases "start_drafts start (br_panes rq) n") (auto simp: prepare_batch_def Let_def split: sum.splits)
  have b: "pb_provisional b = ps" "pb_mappings b = draft_mappings (br_panes rq) ps"
    "resolve_draft_layout (br_replacement rq) (mapping_map (draft_mappings (br_panes rq) ps)) = Inr (pb_replacement b)"
    using assms by (auto simp: prepare_batch_def s Let_def split: sum.splits)
  have len: "length ps = length (br_panes rq)" by (rule start_drafts_length [of start _ n]) (simp add: s)
  show "length (pb_provisional b) = length (br_panes rq)"
    "pb_mappings b = draft_mappings (br_panes rq) (pb_provisional b)"
    "map dm_pane_id (pb_mappings b) = map pv_pane_id (pb_provisional b)"
    "map dm_draft_id (pb_mappings b) = map pd_draft_id (br_panes rq)"
    using b len by (simp_all add: draft_mappings_ids)
  show "map pv_pane_id (pb_provisional b) = next_ids n (length (br_panes rq))"
    by (rule start_drafts_ids [of start]) (simp add: s b)
  show "bg_ok (pb_replacement b)" by (rule resolve_ok [OF b(3)])
  show "set (bg_ids (pb_replacement b)) \<subseteq> set (existing_panes (br_replacement rq)) \<union> dm_pane_id ` set (pb_mappings b)"
    using resolve_ids [OF b(3)] mapping_map_ran [of "pb_mappings b"] b(2) by auto
qed

section \<open>Installing a batch\<close>

text \<open>What a batch brings to a session: panes the session does not have, each with an identifier of its own.\<close>

definition brings_new_panes :: "batch_request \<Rightarrow> prepared_batch \<Rightarrow> ('t, 'j) session \<Rightarrow> bool" where
  "brings_new_panes rq b s \<longleftrightarrow> length (pb_provisional b) = length (br_panes rq) \<and>
     dm_pane_id ` set (pb_mappings b) = pv_pane_id ` set (pb_provisional b) \<and>
     distinct (map pv_pane_id (pb_provisional b)) \<and> 0 \<notin> pv_pane_id ` set (pb_provisional b) \<and>
     pn_id ` set (se_panes s) \<inter> pv_pane_id ` set (pb_provisional b) = {} \<and> bg_ok (pb_replacement b)"

lemma started_pane_simps [simp]: "pn_id (started_pane ev p) = pv_pane_id p" "\<not> pn_exited (started_pane ev p)"
  by (simp_all add: started_pane_def)

lemma started_metadata_id [simp]: "bp_id (started_metadata d p) = pv_pane_id p"
  by (simp add: started_metadata_def)

lemma zip_started:
  assumes "length ps = length drafts"
  shows "map (bp_id \<circ> (\<lambda>(d, p). started_metadata d p)) (zip drafts ps) = map pv_pane_id ps"
    "map snd (zip drafts ps) = ps"
  using assms by (induction drafts ps rule: list_induct2') simp_all

lemma mset_filter_split:
  assumes "distinct xs" "distinct ys" "set ys = {x \<in> set xs. P x}"
  shows "mset ys = mset (filter P xs)"
  using assms by (intro iffD1 [OF set_eq_iff_mset_eq_distinct]) auto

lemma install_batch_sel:
  assumes "install_batch ev rq b s st l removed active = (st1, s2)"
  shows "se_shared_state s2 = Some st1" "se_summary s2 = ss_summary st1" "se_id s2 = se_id s" "se_offered s2 = se_offered s"
    "map (\<lambda>p. (pn_id p, pn_exited p)) (se_panes s2) = map (\<lambda>p. (pn_id p, pn_exited p))
       (filter (\<lambda>p. pn_id p \<notin> set removed) (se_panes s @ map (started_pane ev) (map snd (zip (br_panes rq) (pb_provisional b)))))"
    "ss_version st1 = ss_version st" "ss_session_id st1 = ss_session_id st" "ss_revision st1 = next_revision (ss_revision st)"
    "find_receipt st1 (br_operation_id rq) = Some \<lparr>re_operation_id = br_operation_id rq, re_mappings = pb_mappings b\<rparr>"
    "pr_layout (ss_presentation st1) = l" "pr_active_pane (ss_presentation st1) = active"
    "bs_layout (ss_summary st1) = l" "bs_active_pane (ss_summary st1) = active" "bs_id (ss_summary st1) = bs_id (ss_summary st)"
    "set (pr_minimized_panes (ss_presentation st1)) = set (pr_minimized_panes (ss_presentation st)) - set removed"
    "set_option (pr_maximized_pane (ss_presentation st1)) = set_option (pr_maximized_pane (ss_presentation st)) - set removed"
    "state_pane_ids st1 = filter (\<lambda>i. i \<notin> set removed) (state_pane_ids st @
       map (bp_id \<circ> (\<lambda>(d, p). started_metadata d p)) (zip (br_panes rq) (pb_provisional b)))"
proof -
  let ?s = "s\<lparr>se_panes := filter (\<lambda>p. pn_id p \<notin> set removed)
      (se_panes s @ map (started_pane ev) (map snd (zip (br_panes rq) (pb_provisional b))))\<rparr>"
  have same: "same_panes (se_panes ?s) (se_panes (clear_shared_size_reports ?s))" by (rule clear_reports_same)
  note i = assms [unfolded install_batch_def Let_def prod.inject]
  show "se_shared_state s2 = Some st1" "se_summary s2 = ss_summary st1" "se_id s2 = se_id s" "se_offered s2 = se_offered s"
    using i by (auto simp: clear_shared_size_reports_def)
  show "map (\<lambda>p. (pn_id p, pn_exited p)) (se_panes s2) = map (\<lambda>p. (pn_id p, pn_exited p))
       (filter (\<lambda>p. pn_id p \<notin> set removed) (se_panes s @ map (started_pane ev) (map snd (zip (br_panes rq) (pb_provisional b)))))"
    using same i by (auto simp: same_panes_def)
  show "ss_version st1 = ss_version st" "ss_session_id st1 = ss_session_id st" "ss_revision st1 = next_revision (ss_revision st)"
    "pr_layout (ss_presentation st1) = l" "pr_active_pane (ss_presentation st1) = active"
    "bs_layout (ss_summary st1) = l" "bs_active_pane (ss_summary st1) = active" "bs_id (ss_summary st1) = bs_id (ss_summary st)"
    "set (pr_minimized_panes (ss_presentation st1)) = set (pr_minimized_panes (ss_presentation st)) - set removed"
    using i by auto
  show "set_option (pr_maximized_pane (ss_presentation st1)) = set_option (pr_maximized_pane (ss_presentation st)) - set removed"
    using i by (cases "pr_maximized_pane (ss_presentation st)") (auto split: if_splits)
  show "find_receipt st1 (br_operation_id rq) = Some \<lparr>re_operation_id = br_operation_id rq, re_mappings = pb_mappings b\<rparr>"
    using i find_receipt_record [of _ "\<lparr>re_operation_id = br_operation_id rq, re_mappings = pb_mappings b\<rparr>"] by fastforce
  show "state_pane_ids st1 = filter (\<lambda>i. i \<notin> set removed) (state_pane_ids st @
       map (bp_id \<circ> (\<lambda>(d, p). started_metadata d p)) (zip (br_panes rq) (pb_provisional b)))"
    using i by (auto simp: filter_map comp_def state_pane_ids_def)
qed

lemma same_panes_ok:
  fixes s :: "('t, 'j) session" and ps :: "'t mux_pane list"
  assumes "map (\<lambda>p. (pn_id p, pn_exited p)) (se_panes s) = map (\<lambda>p. (pn_id p, pn_exited p)) ps"
  shows "map pn_id (se_panes s) = map pn_id ps" "live_pane_ids s = map pn_id (filter (\<lambda>p. \<not> pn_exited p) ps)"
  using same_panes_ids [of "se_panes s" ps] assms by (simp_all add: same_panes_def live_pane_ids_def)

text \<open>
  A session stays well formed; and when the layout places live and new panes only, and the removed panes are
  those it leaves out, nothing is left to repair.
\<close>

lemma install_batch_ok:
  assumes s: "settled s st" and new: "brings_new_panes rq b s" and l: "bg_ok l" "distinct (bg_ids l)"
    and i: "install_batch ev rq b s st l removed active = (st1, s2)"
  shows "session_ok s2"
proof -
  let ?ps = "pb_provisional b" and ?started = "map (started_pane ev) (pb_provisional b)"
  note sel = install_batch_sel [OF i]
  have z: "map snd (zip (br_panes rq) ?ps) = ?ps" using new by (simp add: brings_new_panes_def zip_started)
  have ids: "map pn_id (se_panes s2) = filter (\<lambda>i. i \<notin> set removed) (map pn_id (se_panes s) @ map pv_pane_id ?ps)"
    using same_panes_ok(1) [OF sel(5)] by (simp add: z filter_map comp_def)
  have "session_ok s" using s by (simp add: settled_def)
  then have "distinct (map pn_id (se_panes s) @ map pv_pane_id ?ps)" "0 \<notin> set (map pn_id (se_panes s) @ map pv_pane_id ?ps)"
    using new by (auto simp: session_ok_def brings_new_panes_def)
  then have "distinct (map pn_id (se_panes s2))" "0 \<notin> set (map pn_id (se_panes s2))"
    unfolding ids by (blast intro: distinct_filter, simp del: filter_append)
  moreover have "ss_session_id st = se_id s" "ss_version st = SHARED_SESSION_STATE_VERSION"
    using s settled_ids by (auto simp: settled_def)
  ultimately show ?thesis using sel l by (simp add: session_ok_def)
qed

lemma install_batch_settles:
  assumes s: "settled s st" and new: "brings_new_panes rq b s" and l: "bg_ok l" "distinct (bg_ids l)"
    and placed: "dm_pane_id ` set (pb_mappings b) \<subseteq> set (bg_ids l)"
    and live: "set (bg_ids l) \<subseteq> set (live_pane_ids s) \<union> dm_pane_id ` set (pb_mappings b)"
    and removed: "set removed = set (live_pane_ids s) - set (bg_ids l)" and active: "active \<in> set (bg_ids l)"
    and i: "install_batch ev rq b s st l removed active = (st1, s2)"
  shows "settled s2 st1 \<and> set (live_pane_ids s2) = set (bg_ids l)"
proof -
  let ?ps = "pb_provisional b"
  note sel = install_batch_sel [OF i]
  note n = new [unfolded brings_new_panes_def]
  have ok: "session_ok s2" by (rule install_batch_ok [OF s new l i])
  have z: "map snd (zip (br_panes rq) ?ps) = ?ps"
    "map (bp_id \<circ> (\<lambda>(d, p). started_metadata d p)) (zip (br_panes rq) ?ps) = map pv_pane_id ?ps"
    using n by (simp_all add: zip_started)
  have "live_pane_ids s2 = filter (\<lambda>i. i \<notin> set removed) (live_pane_ids s @ map pv_pane_id ?ps)"
    using same_panes_ok(2) [OF sel(5)] by (simp add: z live_pane_ids_def filter_map comp_def conj_commute)
  then have live2: "set (live_pane_ids s2) = (set (live_pane_ids s) \<union> pv_pane_id ` set ?ps) - set removed" by auto
  then have all: "set (live_pane_ids s2) = set (bg_ids l)" using n placed live removed by auto
  have st: "shared_ok st" "ss_version st = SHARED_SESSION_STATE_VERSION" using s by (simp_all add: settled_def)
  note sid = settled_ids [OF s]
  have ids1: "state_pane_ids st1 = filter (\<lambda>i. i \<notin> set removed) (state_pane_ids st @ map pv_pane_id ?ps)"
    using sel(17) by (simp add: z)
  have pr: "presents_panes st" by (rule shared_ok_presents [OF st(1)])
  have "set (live_pane_ids s) \<subseteq> pn_id ` set (se_panes s)" by (auto simp: live_pane_ids_def)
  then have d: "distinct (state_pane_ids st @ map pv_pane_id ?ps)" "0 \<notin> set (state_pane_ids st @ map pv_pane_id ?ps)"
    using pr n sid by (auto simp: presents_def)
  have set1: "set (state_pane_ids st1) = set (bg_ids l)"
    using live2 all sid unfolding ids1 by auto
  have dist1: "distinct (state_pane_ids st1)" "0 \<notin> set (state_pane_ids st1)"
    using d unfolding ids1 by (blast intro: distinct_filter, simp del: filter_append)
  have "mset (bg_ids l) = mset (state_pane_ids st1)"
    using set_eq_iff_mset_eq_distinct [OF l(2) dist1(1)] set1 by simp
  moreover have "set (pr_minimized_panes (ss_presentation st)) \<subseteq> set (live_pane_ids s)"
    "set_option (pr_maximized_pane (ss_presentation st)) \<subseteq> set (live_pane_ids s)"
    using pr sid by (simp_all add: presents_def)
  then have "set (pr_minimized_panes (ss_presentation st1)) \<subseteq> set (state_pane_ids st1)"
    "set_option (pr_maximized_pane (ss_presentation st1)) \<subseteq> set (state_pane_ids st1)"
    using sel(15,16) removed set1 by auto
  ultimately have "shared_ok st1"
    using dist1 l set1 active sel(10-13) by (simp add: shared_ok_def presents_def)
  moreover have "shows_live s2 (se_summary s2)"
    using shared_ok_summary [OF \<open>shared_ok st1\<close>] all set1 sid active sel(2,3,13,14) by (simp add: shows_live_def)
  ultimately show ?thesis using ok all sel(1,2,6) st by (simp add: settled_def)
qed

lemma brings_new_panes_repaired: "repaired_from s s1 \<Longrightarrow> brings_new_panes rq b s1 = brings_new_panes rq b s"
  using repaired_from_live [of s s1] by (simp add: brings_new_panes_def)

lemma prepared_brings_fresh_panes:
  assumes "prepare_batch start rq n = (Inr b, n')" "0 < n" "unat n + length (br_panes rq) \<le> 2 ^ 64"
    and fresh: "pn_id ` set (se_panes s) \<inter> set (next_ids n (length (br_panes rq))) = {}"
  shows "brings_new_panes rq b s"
proof -
  note p = prepare_batch_result [OF assms(1)]
  have "dm_pane_id ` set (pb_mappings b) = pv_pane_id ` set (pb_provisional b)"
    using arg_cong [OF p(3), of set] by simp
  moreover have "pv_pane_id ` set (pb_provisional b) = set (next_ids n (length (br_panes rq)))"
    using arg_cong [OF p(5), of set] by simp
  ultimately show ?thesis
    using p(1,5,6) fresh next_ids_fresh [OF assms(2,3)] by (simp add: brings_new_panes_def)
qed

lemma old_ids_fresh:
  assumes "unat n + k \<le> 2 ^ 64" "\<forall>p\<in>set ps. pn_id p < n"
  shows "pn_id ` set ps \<inter> set (next_ids n k) = {}"
proof -
  have "i < k \<Longrightarrow> n \<le> n + of_nat i" for i
    using unat_next_id [OF assms(1), of i] by (simp add: word_le_nat_alt)
  then have "\<forall>j\<in>set (next_ids n k). n \<le> j" by (auto simp: next_ids_def)
  then show ?thesis using assms(2) by fastforce
qed

lemma prepared_brings_new_panes:
  assumes "prepare_batch start rq n = (Inr b, n')" "0 < n" "unat n + length (br_panes rq) \<le> 2 ^ 64"
    and old: "\<forall>p\<in>set (se_panes s). pn_id p < n"
  shows "brings_new_panes rq b s"
  by (rule prepared_brings_fresh_panes [OF assms(1-3) old_ids_fresh [OF assms(3) old]])

text \<open>What a batch that is applied to a session leaves.\<close>

definition batch_done :: "batch_request \<Rightarrow> prepared_batch \<Rightarrow> ('t, 'j) session \<Rightarrow> ('t, 'j) session \<Rightarrow> 'j shared_state \<Rightarrow> bool" where
  "batch_done rq b s s' st \<longleftrightarrow> settled s' st \<and>
     set (bg_ids (pr_layout (ss_presentation st))) = set (live_pane_ids s') \<and>
     dm_pane_id ` set (pb_mappings b) \<subseteq> set (live_pane_ids s') \<and>
     set (live_pane_ids s') \<subseteq> set (live_pane_ids s) \<union> dm_pane_id ` set (pb_mappings b) \<and>
     find_receipt st (br_operation_id rq) = Some \<lparr>re_operation_id = br_operation_id rq, re_mappings = pb_mappings b\<rparr>"

text \<open>
  What every applied batch leaves, also when an existing pane of its draft has exited meanwhile: the live panes
  the layout leaves out are gone, all others and the drafts are there.
\<close>

definition batch_applied :: "batch_request \<Rightarrow> prepared_batch \<Rightarrow> ('t, 'j) session \<Rightarrow> ('t, 'j) session \<Rightarrow> 'j shared_state \<Rightarrow> bool" where
  "batch_applied rq b s s' st \<longleftrightarrow>
     (let l = bg_ids (pr_layout (ss_presentation st)); drafts = dm_pane_id ` set (pb_mappings b)
      in se_shared_state s' = Some st \<and> distinct l \<and> drafts \<subseteq> set l \<and> drafts \<subseteq> set (live_pane_ids s') \<and>
         pn_id ` set (se_panes s') = (pn_id ` set (se_panes s) - (set (live_pane_ids s) - set l)) \<union> drafts \<and>
         set l \<subseteq> pn_id ` set (se_panes s') \<and> (settled s' st \<longleftrightarrow> set l \<subseteq> set (live_pane_ids s')) \<and>
         find_receipt st (br_operation_id rq) = Some \<lparr>re_operation_id = br_operation_id rq, re_mappings = pb_mappings b\<rparr>)"

text \<open>The second look at a session in which nothing is left to repair.\<close>

lemma commit_normalized_applied:
  assumes "find_receipt st (br_operation_id rq) = None" "br_target_pane_id rq = None \<Longrightarrow> ss_revision st = br_base_revision rq"
    "next_layout rq (pb_replacement b) (pr_layout (ss_presentation st)) = Some l"
    "check_batch_layout (pb_mappings b) s l = Inr ()" "next_active_pane rq (pb_mappings b) st l = Inr active"
    "install_batch ev rq b s st l (filter (\<lambda>i. i \<notin> set (bg_ids l)) (bg_ids (pr_layout (ss_presentation st)))) active = (st1, s1)"
  shows "commit_normalized ev rq b st s = (Inr (BatchApplied st1 (filter (\<lambda>i. i \<notin> set (bg_ids l))
     (bg_ids (pr_layout (ss_presentation st)))) (pb_mappings b)), s1)"
  using assms by (auto simp: commit_normalized_def)

lemma commit_normalized_cases:
  obtains (applied) l active st1 s1 where "find_receipt st (br_operation_id rq) = None"
      "next_layout rq (pb_replacement b) (pr_layout (ss_presentation st)) = Some l"
      "check_batch_layout (pb_mappings b) s l = Inr ()" "next_active_pane rq (pb_mappings b) st l = Inr active"
      "install_batch ev rq b s st l (filter (\<lambda>i. i \<notin> set (bg_ids l)) (bg_ids (pr_layout (ss_presentation st)))) active = (st1, s1)"
      "commit_normalized ev rq b st s = (Inr (BatchApplied st1 (filter (\<lambda>i. i \<notin> set (bg_ids l))
         (bg_ids (pr_layout (ss_presentation st)))) (pb_mappings b)), s1)"
    | (retry) receipt where "find_receipt st (br_operation_id rq) = Some receipt"
      "commit_normalized ev rq b st s = (Inr (BatchRetry st (re_mappings receipt)), s)"
    | (conflict) "commit_normalized ev rq b st s = (Inr (BatchConflict st), s)"
    | (refused) e where "commit_normalized ev rq b st s = (Inl e, s)"
proof -
  note goals = that
  show ?thesis
  proof (cases "\<exists>l active. find_receipt st (br_operation_id rq) = None \<and>
      \<not> (br_target_pane_id rq = None \<and> ss_revision st \<noteq> br_base_revision rq) \<and>
      next_layout rq (pb_replacement b) (pr_layout (ss_presentation st)) = Some l \<and>
      check_batch_layout (pb_mappings b) s l = Inr () \<and> next_active_pane rq (pb_mappings b) st l = Inr active")
    case True
    then obtain l active where t: "find_receipt st (br_operation_id rq) = None"
      "br_target_pane_id rq = None \<Longrightarrow> ss_revision st = br_base_revision rq"
      "next_layout rq (pb_replacement b) (pr_layout (ss_presentation st)) = Some l"
      "check_batch_layout (pb_mappings b) s l = Inr ()" "next_active_pane rq (pb_mappings b) st l = Inr active" by auto
    obtain st1 s1 where "install_batch ev rq b s st l (filter (\<lambda>i. i \<notin> set (bg_ids l))
        (bg_ids (pr_layout (ss_presentation st)))) active = (st1, s1)" by fastforce
    then show ?thesis using applied [OF t(1,3-5)] commit_normalized_applied [OF t] by blast
  next
    case False
    show ?thesis
    proof (cases "find_receipt st (br_operation_id rq)")
      case None
      have "commit_normalized ev rq b st s = (Inr (BatchConflict st), s) \<or> (\<exists>e. commit_normalized ev rq b st s = (Inl e, s))"
      proof (cases "br_target_pane_id rq = None \<and> ss_revision st \<noteq> br_base_revision rq \<or>
          next_layout rq (pb_replacement b) (pr_layout (ss_presentation st)) = None")
        case True
        then show ?thesis using None by (auto simp: commit_normalized_def)
      next
        case usable: False
        then obtain l where l: "next_layout rq (pb_replacement b) (pr_layout (ss_presentation st)) = Some l" by auto
        have "isl (check_batch_layout (pb_mappings b) s l) \<or> isl (next_active_pane rq (pb_mappings b) st l)"
          using False None usable l by (cases "check_batch_layout (pb_mappings b) s l"; cases "next_active_pane rq (pb_mappings b) st l") auto
        then show ?thesis using None usable l by (auto simp: commit_normalized_def isl_def Let_def split: sum.split)
      qed
      then show ?thesis using conflict refused by blast
    qed (use retry in \<open>simp add: commit_normalized_def\<close>)
  qed
qed

lemma applied_batch_done:
  assumes s: "settled s st" and new: "brings_new_panes rq b s"
    and l: "next_layout rq (pb_replacement b) (pr_layout (ss_presentation st)) = Some l"
    and c: "check_batch_layout (pb_mappings b) s l = Inr ()" and a: "next_active_pane rq (pb_mappings b) st l = Inr active"
    and i: "install_batch ev rq b s st l (filter (\<lambda>i. i \<notin> set (bg_ids l)) (bg_ids (pr_layout (ss_presentation st)))) active = (st1, s1)"
  shows "session_ok s1 \<and> se_id s1 = se_id s \<and> batch_applied rq b s s1 st1 \<and>
    (set (bg_ids (pb_replacement b)) \<subseteq> set (live_pane_ids s) \<union> dm_pane_id ` set (pb_mappings b) \<longrightarrow> batch_done rq b s s1 st1)"
proof -
  have pr: "presents_panes st" using s shared_ok_presents by (auto simp: settled_def)
  have old: "set (bg_ids (pr_layout (ss_presentation st))) = set (live_pane_ids s)" "bg_ok (pr_layout (ss_presentation st))"
    using presents_layout_set [OF pr] settled_ids [OF s] pr by (simp_all add: presents_def)
  have nl: "bg_ok l" "set (bg_ids l) \<subseteq> set (live_pane_ids s) \<union> set (bg_ids (pb_replacement b))"
    using next_layout_result [OF l _ old(2)] new old(1) by (auto simp: brings_new_panes_def)
  have ck: "distinct (bg_ids l)" "dm_pane_id ` set (pb_mappings b) \<subseteq> set (bg_ids l)"
    using c by (simp_all add: check_batch_layout_ok)
  have act: "active \<in> set (bg_ids l)" using a by (auto simp: next_active_pane_def split: sum.splits if_splits)
  note sel = install_batch_sel [OF i]
  let ?removed = "filter (\<lambda>i. i \<notin> set (bg_ids l)) (bg_ids (pr_layout (ss_presentation st)))"
  have removed: "set ?removed = set (live_pane_ids s) - set (bg_ids l)" using old(1) by auto
  have settles: "settled s1 st1 \<and> set (live_pane_ids s1) = set (bg_ids l)"
    if "set (bg_ids l) \<subseteq> set (live_pane_ids s) \<union> dm_pane_id ` set (pb_mappings b)"
    by (rule install_batch_settles [OF s new nl(1) ck(1) ck(2) that removed act i])
  have drafts: "dm_pane_id ` set (pb_mappings b) = pv_pane_id ` set (pb_provisional b)"
    and z: "map snd (zip (br_panes rq) (pb_provisional b)) = pb_provisional b"
    using new by (simp_all add: brings_new_panes_def zip_started)
  have ids: "map pn_id (se_panes s1) = filter (\<lambda>i. i \<notin> set ?removed) (map pn_id (se_panes s) @ map pv_pane_id (pb_provisional b))"
    using same_panes_ok(1) [OF sel(5)] by (simp add: z filter_map comp_def)
  have panes: "pn_id ` set (se_panes s1) = (pn_id ` set (se_panes s) \<union> dm_pane_id ` set (pb_mappings b)) - set ?removed"
    using arg_cong [OF ids, of set] unfolding drafts by (simp add: set_diff_eq) blast
  have "live_pane_ids s1 = filter (\<lambda>i. i \<notin> set ?removed) (live_pane_ids s @ map pv_pane_id (pb_provisional b))"
    using same_panes_ok(2) [OF sel(5)] by (simp add: z live_pane_ids_def filter_map comp_def conj_commute)
  then have live: "set (live_pane_ids s1) = (set (live_pane_ids s) \<union> dm_pane_id ` set (pb_mappings b)) - set ?removed"
    unfolding drafts by auto
  have held: "set (bg_ids l) \<subseteq> pn_id ` set (se_panes s) \<union> dm_pane_id ` set (pb_mappings b)"
    using c by (simp add: check_batch_layout_ok)
  have "settled s1 st1 \<longleftrightarrow> set (bg_ids l) \<subseteq> set (live_pane_ids s1)"
  proof
    assume "settled s1 st1"
    then show "set (bg_ids l) \<subseteq> set (live_pane_ids s1)"
      using settled_ids [of s1 st1] presents_layout_set [OF shared_ok_presents [of st1]] sel(10) by (simp add: settled_def)
  next
    assume "set (bg_ids l) \<subseteq> set (live_pane_ids s1)"
    then show "settled s1 st1" using settles live by blast
  qed
  moreover have "dm_pane_id ` set (pb_mappings b) \<subseteq> set (live_pane_ids s1)" using ck(2) unfolding live removed by blast
  moreover have "pn_id ` set (se_panes s1) =
      (pn_id ` set (se_panes s) - (set (live_pane_ids s) - set (bg_ids l))) \<union> dm_pane_id ` set (pb_mappings b)"
    using ck(2) unfolding panes removed by blast
  moreover have "set (bg_ids l) \<subseteq> pn_id ` set (se_panes s1)" using held unfolding panes removed by blast
  ultimately have "batch_applied rq b s s1 st1" using sel(1,9,10) ck by (simp add: batch_applied_def Let_def)
  moreover have "batch_done rq b s s1 st1" if ex: "set (bg_ids (pb_replacement b)) \<subseteq> set (live_pane_ids s) \<union> dm_pane_id ` set (pb_mappings b)"
  proof -
    have sub: "set (bg_ids l) \<subseteq> set (live_pane_ids s) \<union> dm_pane_id ` set (pb_mappings b)" using nl(2) ex by blast
    show ?thesis using settles [OF sub] sel(9,10) ck(2) sub by (simp add: batch_done_def)
  qed
  moreover have "session_ok s1" by (rule install_batch_ok [OF s new nl(1) ck(1) i])
  ultimately show ?thesis using sel(3) by blast
qed

text \<open>A batch that is not applied leaves the panes, and answers as spawned only what an earlier request spawned.\<close>

definition batch_passed :: "batch_request \<Rightarrow> ('t, 'j) session \<Rightarrow> ('t, 'j) session \<Rightarrow> mux_error + 'j mux_response \<Rightarrow> bool" where
  "batch_passed rq s s' answer \<longleftrightarrow> se_panes s' = se_panes s \<and>
     (\<forall>st ms. answer = Inr (RespBatch st ms) \<longrightarrow> settled s' st \<and>
        map_option re_mappings (find_receipt st (br_operation_id rq)) = Some ms)"

lemma batch_in_result:
  assumes ok: "session_sound s" and new: "brings_new_panes rq b s"
  obtains answer s' es where "batch_in ev rq b client peer pf d s = Some (answer, d, s', es)" "session_sound s'" "session_ok s \<longrightarrow> session_ok s'"
    "se_id s' = se_id s"
    "batch_passed rq s s' answer \<or> (\<exists>st. answer = Inr (RespBatch st (pb_mappings b)) \<and> batch_applied rq b s s' st \<and>
       (set (bg_ids (pb_replacement b)) \<subseteq> set (live_pane_ids s) \<union> dm_pane_id ` set (pb_mappings b) \<longrightarrow> batch_done rq b s s' st))"
proof (cases "session_control_authorized s peer pf")
  case False
  then have "batch_in ev rq b client peer pf d s = Some (Inl (NotAuthorized (br_session_id rq)), d, s, [])"
    by (simp add: batch_in_def commit_shared_batch_def)
  then show ?thesis by (rule that) (use ok in \<open>simp_all add: batch_passed_def\<close>)
next
  case True
  obtain r s1 es where n: "normalize_shared_state s = Some (r, s1, es)" "session_sound s1" "repaired_from s s1"
    "\<And>st. r = Inr st \<Longrightarrow> settled s1 st" "session_ok s \<Longrightarrow> session_ok s1" using normalize_sound [OF ok] by metis
  have s1: "se_panes s1 = se_panes s" "se_id s1 = se_id s" "live_pane_ids s1 = live_pane_ids s"
    using repaired_from_live [OF n(3)] by simp_all
  show ?thesis
  proof (cases r)
    case (Inl e)
    then have "batch_in ev rq b client peer pf d s = Some (Inl e, d, s1, es)"
      using True n(1) by (simp add: batch_in_def commit_shared_batch_def)
    then show ?thesis by (rule that) (use n(2,5) s1 in \<open>simp_all add: batch_passed_def\<close>)
  next
    case (Inr st)
    note set = n(4) [OF Inr]
    have new1: "brings_new_panes rq b s1" using new brings_new_panes_repaired [OF n(3)] by blast
    have c: "commit_shared_batch ev rq b peer pf s = (case commit_normalized ev rq b st s1 of (r, s2) \<Rightarrow> Some (r, s2, es))"
      using True n(1) Inr by (simp add: commit_shared_batch_def)
    show ?thesis
    proof (cases rule: commit_normalized_cases [of st rq b s1 ev])
      case (applied l active st1 s2)
      note done_ = applied_batch_done [OF set new1 applied(2-5)]
      obtain es' where "batch_in ev rq b client peer pf d s = Some (Inr (RespBatch st1 (pb_mappings b)), d, s2, es')"
        by (simp add: batch_in_def c applied(6))
      then show ?thesis by (rule that) (use done_ s1 in \<open>simp_all add: batch_done_def batch_applied_def\<close>)
    next
      case (retry receipt)
      have "batch_in ev rq b client peer pf d s = Some (Inr (RespBatch st (re_mappings receipt)), d, s1, es)"
        by (simp add: batch_in_def c retry(2))
      then show ?thesis by (rule that) (use n(2,5) s1 retry(1) set in \<open>simp_all add: batch_passed_def\<close>)
    next
      case conflict
      have "batch_in ev rq b client peer pf d s = Some (Inr (RespConflict st), d, s1, es)"
        by (simp add: batch_in_def c conflict)
      then show ?thesis by (rule that) (use n(2,5) s1 in \<open>simp_all add: batch_passed_def\<close>)
    next
      case (refused e)
      have "batch_in ev rq b client peer pf d s = Some (Inl e, d, s1, es)"
        by (simp add: batch_in_def c refused)
      then show ?thesis by (rule that) (use n(2,5) s1 in \<open>simp_all add: batch_passed_def\<close>)
    qed
  qed
qed

text \<open>A batch whose layout is the whole tab, on a session in which nothing is left to repair.\<close>

lemma whole_tab_commits:
  assumes s: "settled s st" and new: "brings_new_panes rq b s" and open_: "session_control_authorized s peer pf"
    and rq: "br_target_pane_id rq = None" "ss_revision st = br_base_revision rq" "find_receipt st (br_operation_id rq) = None"
    and l: "distinct (bg_ids (pb_replacement b))" "dm_pane_id ` set (pb_mappings b) \<subseteq> set (bg_ids (pb_replacement b))"
      "set (bg_ids (pb_replacement b)) \<subseteq> set (live_pane_ids s) \<union> dm_pane_id ` set (pb_mappings b)"
    and a: "next_active_pane rq (pb_mappings b) st (pb_replacement b) = Inr active"
  obtains st1 s1 es where "batch_in ev rq b client peer pf d s = Some (Inr (RespBatch st1 (pb_mappings b)), d, s1, es)"
    "batch_done rq b s s1 st1" "pr_layout (ss_presentation st1) = pb_replacement b"
    "pr_active_pane (ss_presentation st1) = active" "ss_revision st1 = next_revision (ss_revision st)"
    "se_id s1 = se_id s" "se_offered s1 = se_offered s" "session_ok s1"
proof -
  let ?removed = "filter (\<lambda>i. i \<notin> set (bg_ids (pb_replacement b))) (bg_ids (pr_layout (ss_presentation st)))"
  obtain st1 s1 where i: "install_batch ev rq b s st (pb_replacement b) ?removed active = (st1, s1)" by fastforce
  note sel = install_batch_sel [OF i]
  have nl: "next_layout rq (pb_replacement b) (pr_layout (ss_presentation st)) = Some (pb_replacement b)"
    using rq(1) by (simp add: next_layout_def)
  have "set (live_pane_ids s) \<subseteq> pn_id ` set (se_panes s)" by (auto simp: live_pane_ids_def)
  then have ck: "check_batch_layout (pb_mappings b) s (pb_replacement b) = Inr ()"
    using l by (auto simp: check_batch_layout_ok)
  have c: "commit_normalized ev rq b st s = (Inr (BatchApplied st1 ?removed (pb_mappings b)), s1)"
    by (rule commit_normalized_applied [OF rq(3) rq(2) nl ck a i])
  note done_ = applied_batch_done [OF s new nl ck a i]
  obtain es where "batch_in ev rq b client peer pf d s = Some (Inr (RespBatch st1 (pb_mappings b)), d, s1, es)"
    using open_ by (simp add: batch_in_def commit_shared_batch_def normalize_settled [OF s] c)
  then show ?thesis by (rule that) (use done_ l sel in \<open>simp_all add: batch_done_def\<close>)
qed

text \<open>A request that has a receipt is answered before anything is started.\<close>

lemma answered_batch_starts_nothing:
  assumes f: "find_session d (br_session_id rq) = Some s" and s: "settled s st" "se_offered s"
    and auth: "session_control_authorized s peer pf"
    and rq: "br_panes rq \<noteq> []" "distinct (map pd_draft_id (br_panes rq))"
    and r: "find_receipt st (br_operation_id rq) = Some receipt"
  shows "spawn_shared_batch ev start rq client peer pf meanwhile n d = Some (Inr (RespBatch st (re_mappings receipt)), d, n)"
  using assms by (simp add: spawn_shared_batch_def admit_batch_def normalize_settled [OF s(1)])

text \<open>
  The second look takes an existing pane from all the panes of the session, the exited ones included, which
  the repaired summary no longer lists: the state then lays out a pane it does not have.
\<close>

lemma exited_pane_is_laid_out:
  assumes s: "settled s st" and new: "brings_new_panes rq b s" and open_: "session_control_authorized s peer pf"
    and rq: "br_target_pane_id rq = None" "ss_revision st = br_base_revision rq" "find_receipt st (br_operation_id rq) = None"
    and l: "distinct (bg_ids (pb_replacement b))" "dm_pane_id ` set (pb_mappings b) \<subseteq> set (bg_ids (pb_replacement b))"
      "set (bg_ids (pb_replacement b)) \<subseteq> pn_id ` set (se_panes s) \<union> dm_pane_id ` set (pb_mappings b)"
    and gone: "p \<in> set (se_panes s)" "pn_exited p" "pn_id p \<in> set (bg_ids (pb_replacement b))"
    and a: "next_active_pane rq (pb_mappings b) st (pb_replacement b) = Inr active"
  shows "\<exists>st1 s1 es. batch_in ev rq b client peer pf d s = Some (Inr (RespBatch st1 (pb_mappings b)), d, s1, es) \<and>
    se_shared_state s1 = Some st1 \<and> \<not> shared_ok st1"
proof -
  let ?removed = "filter (\<lambda>i. i \<notin> set (bg_ids (pb_replacement b))) (bg_ids (pr_layout (ss_presentation st)))"
  obtain st1 s1 where i: "install_batch ev rq b s st (pb_replacement b) ?removed active = (st1, s1)" by fastforce
  note sel = install_batch_sel [OF i]
  have "check_batch_layout (pb_mappings b) s (pb_replacement b) = Inr ()" using l by (simp add: check_batch_layout_ok)
  then have c: "commit_normalized ev rq b st s = (Inr (BatchApplied st1 ?removed (pb_mappings b)), s1)"
    using rq a i by (intro commit_normalized_applied) (simp_all add: next_layout_def)
  have ok: "session_ok s" using s by (simp add: settled_def)
  have "pn_id p \<notin> set (live_pane_ids s)"
    using ok gone(1,2) by (auto simp: session_ok_def live_pane_ids_def distinct_map dest: inj_onD)
  moreover have "pn_id p \<notin> pv_pane_id ` set (pb_provisional b)" using new gone(1) by (auto simp: brings_new_panes_def)
  moreover have "set (state_pane_ids st1) \<subseteq> set (live_pane_ids s) \<union> pv_pane_id ` set (pb_provisional b)"
    using sel(17) settled_ids [OF s] new by (auto simp: brings_new_panes_def dest: set_zip_rightD)
  ultimately have "pn_id p \<notin> set (state_pane_ids st1)" by blast
  then have "\<not> shared_ok st1"
    using gone(3) sel(10) presents_layout_set [OF shared_ok_presents [of st1]] by auto
  moreover have "\<exists>es. batch_in ev rq b client peer pf d s = Some (Inr (RespBatch st1 (pb_mappings b)), d, s1, es)"
    using open_ by (simp add: batch_in_def commit_shared_batch_def normalize_settled [OF s] c)
  ultimately show ?thesis using sel(1) by blast
qed

section \<open>What is created\<close>

lemma hash_map_distinct: "distinct (map fst kvs) \<Longrightarrow> hash_map kvs = map_of kvs"
  unfolding hash_map_def by (rule map_of_eqI) (auto simp: map_of_eq_Some_iff simp flip: rev_map)

lemma mapping_map_zip:
  assumes "distinct (map pd_draft_id drafts)" "length ps = length drafts"
  shows "mapping_map (draft_mappings drafts ps) = map_of (zip (map pd_draft_id drafts) (map pv_pane_id ps))"
proof -
  have "map (\<lambda>m. (dm_draft_id m, dm_pane_id m)) (draft_mappings drafts ps) = zip (map pd_draft_id drafts) (map pv_pane_id ps)"
    using assms(2) by (induction drafts ps rule: list_induct2') (simp_all add: draft_mappings_def)
  then show ?thesis
    using assms by (simp add: mapping_map_def hash_map_distinct)
qed

text \<open>The panes in the place of their numbers.\<close>

definition numbered_pane :: "provisional_pane list \<Rightarrow> u64 \<Rightarrow> u64" where
  "numbered_pane ps k = pv_pane_id (ps ! (unat k - 1))"

lemma numbered_panes:
  assumes "length ps < 2 ^ 64"
  shows "map (numbered_pane ps) (map (\<lambda>i. of_nat (i + 1)) [0..<length ps]) = map pv_pane_id ps"
proof -
  have "numbered_pane ps (of_nat (i + 1)) = pv_pane_id (ps ! i)" if "i < length ps" for i
  proof -
    have "unat (of_nat (i + 1) :: u64) = i + 1" using that assms by (simp only: unat_of_nat) simp
    then show ?thesis by (simp add: numbered_pane_def)
  qed
  then show ?thesis by (intro nth_equalityI) simp_all
qed

lemma mapping_is_numbered:
  assumes "distinct (map pd_draft_id drafts)" "length ps = length drafts" "length ps < 2 ^ 64"
  shows "mapping_map (draft_mappings drafts ps) = map_option (numbered_pane ps) \<circ> numbered_drafts drafts"
proof -
  let ?ns = "map (\<lambda>i. of_nat (i + 1) :: u64) [0..<length drafts]"
  have "mapping_map (draft_mappings drafts ps) = map_of (zip (map pd_draft_id drafts) (map (numbered_pane ps) ?ns))"
    using mapping_map_zip [OF assms(1,2)] numbered_panes [OF assms(3)] assms(2) by simp
  also have "\<dots> = map_option (numbered_pane ps) \<circ> map_of (zip (map pd_draft_id drafts) ?ns)"
    by (simp only: zip_map2 map_of_map)
  finally show ?thesis using assms(1) by (simp add: numbered_drafts_def hash_map_distinct)
qed

text \<open>A layout that was validated with numbers resolves with the panes, and places each of them once.\<close>

lemma validated_layout_resolves:
  assumes v: "validate_create_layout rq = Inr ()" and ps: "length ps = length (cq_panes rq)" "length ps < 2 ^ 64"
  obtains l where "resolve_draft_layout (cq_replacement rq) (mapping_map (draft_mappings (cq_panes rq) ps)) = Inr l"
    "mset (bg_ids l) = mset (map pv_pane_id ps)" "bg_ok l" "distinct (map pd_draft_id (cq_panes rq))"
proof -
  let ?ns = "map (\<lambda>i. of_nat (i + 1)) [0..<length (cq_panes rq)]"
  obtain l0 where l0: "ensure_draft_layout (cq_replacement rq) = Inr ()" "distinct (map pd_draft_id (cq_panes rq))"
    "resolve_draft_layout (cq_replacement rq) (numbered_drafts (cq_panes rq)) = Inr l0" "sort (bg_ids l0) = ?ns"
    using v by (auto simp: validate_create_layout_def split: sum.splits if_splits)
  let ?l = "renumber_layout (numbered_pane ps) l0"
  have r: "resolve_draft_layout (cq_replacement rq) (mapping_map (draft_mappings (cq_panes rq) ps)) = Inr ?l"
    unfolding mapping_is_numbered [OF l0(2) ps] by (rule resolve_renumbered [OF l0(3,1)])
  have "mset (bg_ids l0) = mset ?ns" using l0(4) by (metis mset_sort)
  then have "mset (bg_ids ?l) = mset (map (numbered_pane ps) ?ns)" by (simp only: renumber_layout_ids mset_map)
  also have "\<dots> = mset (map pv_pane_id ps)" using numbered_panes [OF ps(2)] ps(1) by simp
  finally show ?thesis using that r resolve_ok [OF r] l0(2) by blast
qed

lemma created_active_pane_found:
  assumes v: "validate_create_request has_profile rq = Inr ()" and d: "distinct (map pd_draft_id (cq_panes rq))"
    and ps: "length ps = length (cq_panes rq)"
  obtains active where "created_active_pane rq (draft_mappings (cq_panes rq) ps) ps = Inr active" "active \<in> pv_pane_id ` set ps"
proof -
  have ne: "cq_panes rq \<noteq> []" using v by (auto simp: validate_create_request_def)
  show ?thesis
  proof (cases "cq_active_pane rq")
    case None
    then show ?thesis using that ne ps by (cases ps) (auto simp: created_active_pane_def)
  next
    case (Some r)
    then obtain i where i: "r = RefDraft i" "i \<in> set (map pd_draft_id (cq_panes rq))"
      using v by (cases r) (auto simp: validate_create_request_def list_ex_iff split: sum.splits if_splits)
    then obtain j where "mapping_map (draft_mappings (cq_panes rq) ps) i = Some j"
      using mapping_map_zip [OF d ps] map_of_zip_is_Some [of "map pd_draft_id (cq_panes rq)" "map pv_pane_id ps" i] ps by auto
    moreover from this have "j \<in> pv_pane_id ` set ps"
      using mapping_map_zip [OF d ps] by (auto dest!: map_of_SomeD set_zip_rightD)
    ultimately show ?thesis using that Some i(1) by (auto simp: created_active_pane_def)
  qed
qed

lemma new_session_settled:
  assumes l: "mset (bg_ids (pb_replacement b)) = mset (map pv_pane_id (pb_provisional b))" "bg_ok (pb_replacement b)"
    and ps: "length (pb_provisional b) = length (cq_panes rq)" "distinct (map pv_pane_id (pb_provisional b))"
      "0 \<notin> pv_pane_id ` set (pb_provisional b)" "active \<in> pv_pane_id ` set (pb_provisional b)"
    and s: "s = new_session ev rq b active i null auth"
  shows "settled s (shared_state_or_new s) \<and> map pn_id (se_panes s) = map pv_pane_id (pb_provisional b) \<and>
    se_id s = i \<and> se_offered s \<and> se_keep s \<and> se_authentication s = auth \<and>
    se_shared_state s = Some (shared_state_or_new s) \<and>
    find_receipt (shared_state_or_new s) (cq_operation_id rq) =
      Some \<lparr>re_operation_id = cq_operation_id rq, re_mappings = pb_mappings b\<rparr>"
proof -
  obtain st where st: "se_shared_state s = Some st" by (simp add: s new_session_def Let_def)
  have z: "map snd (zip (cq_panes rq) (pb_provisional b)) = pb_provisional b"
    "map (bp_id \<circ> (\<lambda>(d, p). started_metadata d p)) (zip (cq_panes rq) (pb_provisional b)) = map pv_pane_id (pb_provisional b)"
    using ps(1) by (simp_all add: zip_started)
  have "se_panes s = map (started_pane ev) (pb_provisional b)"
    unfolding s new_session_def Let_def by (simp only: session.select_convs z(1))
  then have p: "map pn_id (se_panes s) = map pv_pane_id (pb_provisional b)" "list_all (\<lambda>p. \<not> pn_exited p) (se_panes s)"
    by (simp_all add: comp_def list_all_iff)
  have live: "live_pane_ids s = map pv_pane_id (pb_provisional b)"
    using p filter_True [of "se_panes s"] by (simp add: live_pane_ids_def list_all_iff)
  have f: "ss_summary st = se_summary s" "ss_version st = SHARED_SESSION_STATE_VERSION" "ss_session_id st = i"
    "pr_layout (ss_presentation st) = pb_replacement b" "bs_layout (se_summary s) = pb_replacement b"
    "pr_active_pane (ss_presentation st) = active" "bs_active_pane (se_summary s) = active"
    "pr_maximized_pane (ss_presentation st) = None" "pr_minimized_panes (ss_presentation st) = []"
    "bs_id (se_summary s) = i" "se_id s = i"
    using st by (auto simp: s new_session_def Let_def new_shared_state_def)
  have ids: "pane_id_list (se_summary s) = map pv_pane_id (pb_provisional b)"
    using z(2) by (auto simp: s new_session_def Let_def new_shared_state_def pane_id_list_def)
  have st_ids: "state_pane_ids st = map pv_pane_id (pb_provisional b)" using ids f(1) by (metis state_pane_ids_simps(7))
  have sh: "shared_ok st" using l ps f st_ids by (simp add: shared_ok_def presents_def)
  have "settled s st"
    using sh f st p(1) l ps ids live shared_ok_summary [OF sh]
    by (simp add: settled_def session_ok_def shows_live_def flip: set_map)
  moreover have "find_receipt st (cq_operation_id rq) = Some \<lparr>re_operation_id = cq_operation_id rq, re_mappings = pb_mappings b\<rparr>"
    using st find_receipt_record [of _ "\<lparr>re_operation_id = cq_operation_id rq, re_mappings = pb_mappings b\<rparr>"]
    by (auto simp: s new_session_def Let_def)
  ultimately show ?thesis
    using st p f by (simp add: shared_state_or_new_def) (simp add: s new_session_def Let_def)
qed

lemma prepare_create_result:
  assumes valid: "validate_create_request has_profile rq = Inr ()" and started: "start_drafts start (cq_panes rq) n = (Inr ps, n')"
    and ids: "0 < n" "unat n + length (cq_panes rq) \<le> 2 ^ 64"
  obtains b active where "prepare_create start rq n = (Inr (b, active), n')" "pb_provisional b = ps"
    "pb_mappings b = draft_mappings (cq_panes rq) ps"
    "mset (bg_ids (pb_replacement b)) = mset (map pv_pane_id (pb_provisional b))" "bg_ok (pb_replacement b)"
    "length (pb_provisional b) = length (cq_panes rq)" "distinct (map pv_pane_id (pb_provisional b))"
    "0 \<notin> pv_pane_id ` set (pb_provisional b)" "active \<in> pv_pane_id ` set (pb_provisional b)"
proof -
  have len: "length ps = length (cq_panes rq)" by (rule start_drafts_length [of start _ n]) (simp add: started)
  have "0 < unat n" using ids(1) by (simp add: word_less_nat_alt)
  then have small: "length ps < 2 ^ 64" using len ids(2) by simp
  have pids: "map pv_pane_id ps = next_ids n (length (cq_panes rq))" by (rule start_drafts_ids [of start]) (simp add: started)
  then have fresh: "distinct (map pv_pane_id ps)" "0 \<notin> pv_pane_id ` set ps"
    using next_ids_fresh [OF ids] by (simp, metis list.set_map)
  have "validate_create_layout rq = Inr ()" using valid by (auto simp: validate_create_request_def split: if_splits sum.splits)
  then obtain l where l: "resolve_draft_layout (cq_replacement rq) (mapping_map (draft_mappings (cq_panes rq) ps)) = Inr l"
    "mset (bg_ids l) = mset (map pv_pane_id ps)" "bg_ok l" "distinct (map pd_draft_id (cq_panes rq))"
    by (rule validated_layout_resolves [OF _ len small])
  obtain active where a: "created_active_pane rq (draft_mappings (cq_panes rq) ps) ps = Inr active" "active \<in> pv_pane_id ` set ps"
    by (rule created_active_pane_found [OF valid l(4) len])
  let ?b = "\<lparr>pb_provisional = ps, pb_mappings = draft_mappings (cq_panes rq) ps, pb_replacement = l\<rparr>"
  have "prepare_create start rq n = (Inr (?b, active), n')" by (simp add: prepare_create_def started l(1) a(1))
  then show ?thesis by (rule that) (use l len fresh a(2) in simp_all)
qed

lemma settled_sealed: "settled (s\<lparr>se_sealed_to := x\<rparr>) st = settled s st"
  by (simp add: settled_def session_ok_def shows_live_def live_pane_ids_def)

lemma pinned: "pin_protected running d s peer = (d', s') \<Longrightarrow> dm_sessions d' = dm_sessions d \<and> (\<exists>x. s' = s\<lparr>se_sealed_to := x\<rparr>)"
  by (auto simp: pin_protected_def Let_def split: if_splits option.splits intro: exI [of _ "se_sealed_to s"])

lemma find_appended: "find_session (d\<lparr>dm_sessions := ss @ [s]\<rparr>) j =
    or_else (find (\<lambda>s. se_id s = j) ss) (if se_id s = j then Some s else None)"
  by (simp add: find_session_def find_append)

lemma answered_before_appended:
  assumes "answered_before d op = None" "dm_sessions d' = dm_sessions d @ [s]" "se_shared_state s = Some st" "find_receipt st op \<noteq> None"
  shows "answered_before d' op = Some st"
proof -
  have "List.map_filter se_shared_state (dm_sessions d') = List.map_filter se_shared_state (dm_sessions d) @ [st]"
    using assms(2,3) by (simp add: List.map_filter_def)
  then show ?thesis using assms(1,4) by (simp add: answered_before_def find_append)
qed

lemma commit_create_result:
  assumes ok: "daemon_sound d" and none: "answered_before d (cq_operation_id rq) = None"
    and i: "i \<notin> se_id ` set (dm_sessions d)"
    and l: "mset (bg_ids (pb_replacement b)) = mset (map pv_pane_id (pb_provisional b))" "bg_ok (pb_replacement b)"
    and ps: "length (pb_provisional b) = length (cq_panes rq)" "distinct (map pv_pane_id (pb_provisional b))"
      "0 \<notin> pv_pane_id ` set (pb_provisional b)" "active \<in> pv_pane_id ` set (pb_provisional b)"
  obtains st d' s' where "commit_create ev rq null b active peer i d = (RespCreated i st, d', i + 1)" "daemon_sound d'"
    "daemon_ok d \<longrightarrow> daemon_ok d'"
    "find_session d' i = Some s'" "\<And>j. j \<noteq> i \<Longrightarrow> find_session d' j = find_session d j" "settled s' st"
    "map pn_id (se_panes s') = map pv_pane_id (pb_provisional b)" "se_offered s' \<and> se_keep s'"
    "se_authentication s' = None \<longleftrightarrow> cq_verifier rq = None"
    "find_receipt st (cq_operation_id rq) = Some \<lparr>re_operation_id = cq_operation_id rq, re_mappings = pb_mappings b\<rparr>"
    "answered_before d' (cq_operation_id rq) = Some st" "ss_session_id st = i"
proof -
  define auth where "auth = map_option (\<lambda>v. \<lparr>au_identity = dm_next_verifier d, au_verifier = v\<rparr>) (cq_verifier rq)"
  define d1 where "d1 = (if cq_verifier rq = None then d else d\<lparr>dm_next_verifier := dm_next_verifier d + 1\<rparr>)"
  define s where "s = new_session ev rq b active i null auth"
  note new = new_session_settled [OF l ps s_def]
  obtain d2 s1 where p: "pin_protected (ev_running ev) d1 s peer = (d2, s1)" by fastforce
  then obtain x where s1: "s1 = s\<lparr>se_sealed_to := x\<rparr>" "dm_sessions d2 = dm_sessions d1" using pinned by blast
  define d' where "d' = emit_effects (d2\<lparr>dm_sessions := dm_sessions d2 @ [s1]\<rparr>) [PublishCatalog, WakeDrain]"
  have d2: "dm_sessions d2 = dm_sessions d" using s1(2) by (simp add: d1_def)
  have c: "commit_create ev rq null b active peer i d = (RespCreated i (shared_state_or_new s), d', i + 1)"
    using none p by (simp add: commit_create_def auth_def d1_def s_def d'_def Let_def)
  have set: "settled s1 (shared_state_or_new s)" using new s1(1) by (simp add: settled_sealed)
  have id: "se_id s1 = i" "session_ok s1" using new s1(1) set by (simp_all add: settled_def)
  have fr: "find (\<lambda>s. se_id s = i) (dm_sessions d) = None" using i by (auto simp: find_None_iff)
  have "daemon_sound d'" "daemon_ok d \<longrightarrow> daemon_ok d'"
    using ok i id by (auto simp: d'_def daemon_ok_def daemon_sound_def d2)
  moreover have "find_session d' i = Some s1" using fr id by (simp add: d'_def find_appended d2)
  moreover have "find_session d' j = find_session d j" if "j \<noteq> i" for j
    using that id by (simp add: d'_def find_appended d2) (cases "find (\<lambda>s. se_id s = j) (dm_sessions d)", simp_all add: find_session_def)
  moreover have "answered_before d' (cq_operation_id rq) = Some (shared_state_or_new s)"
    by (rule answered_before_appended [OF none, of _ s1]) (use new s1(1) in \<open>simp_all add: d'_def d2\<close>)
  moreover have "ss_session_id (shared_state_or_new s) = i" using settled_ids [OF set] id by simp
  moreover have "se_authentication s1 = None \<longleftrightarrow> cq_verifier rq = None" using new s1(1) by (simp add: auth_def)
  ultimately show ?thesis using that c set new s1(1) by simp
qed

section \<open>Properties\<close>

definition sample_draft :: "u64 \<Rightarrow> pane_draft" where
  "sample_draft i = \<lparr>pd_draft_id = i, pd_profile = [], pd_command = None,
     pd_size = \<lparr>ts_columns = 80, ts_lines = 24, ts_cell_width = 0, ts_cell_height = 0\<rparr>, pd_metadata = sample_bg_pane 0\<rparr>"

definition sample_starter :: starter where
  "sample_starter draft i = Some \<lparr>pty_winsize = None, pty_accepted = [], pty_child_pid = 9\<rparr>"

text \<open>Keep pane 1, close panes 2 and 3, and put a new pane beside it.\<close>

definition sample_batch :: batch_request where
  "sample_batch = \<lparr>br_session_id = 7, br_base_revision = 0, br_operation_id = \<lparr>oi_client = ''a'', oi_sequence = 1\<rparr>,
     br_target_pane_id = None, br_replacement = DraftSplit ''horizontal'' 500 (DraftExisting 1) (DraftNew 10),
     br_panes = [sample_draft 10], br_active_pane = Some (RefDraft 10)\<rparr>"

definition sample_prepared :: prepared_batch where
  "sample_prepared = \<lparr>pb_provisional = [\<lparr>pv_pane_id = 4, pv_pty = \<lparr>pty_winsize = None, pty_accepted = [], pty_child_pid = 9\<rparr>,
       pv_size = pd_size (sample_draft 10)\<rparr>],
     pb_mappings = [\<lparr>dm_draft_id = 10, dm_pane_id = 4\<rparr>], pb_replacement = BgSplit ''horizontal'' 500 (BgPane 1) (BgPane 4)\<rparr>"

lemma sample_batch_simps [simp]:
  "br_session_id sample_batch = 7" "br_base_revision sample_batch = 0" "br_target_pane_id sample_batch = None"
  "existing_panes (br_replacement sample_batch) = [1]" "length (br_panes sample_batch) = 1" "br_panes sample_batch \<noteq> []"
  "map pd_draft_id (br_panes sample_batch) = [10]"
  by (simp_all add: sample_batch_def sample_draft_def)

lemma sample_prepared: "prepare_batch sample_starter sample_batch 4 = (Inr sample_prepared, 5)"
  by (simp add: prepare_batch_def sample_batch_def sample_draft_def start_shared_draft_def sample_starter_def draft_mappings_def
      mapping_map_def hash_map_def sample_prepared_def BACKGROUND_PANE_SPLIT_RATIO_SCALE_def)

lemma sample_ids: "pn_id ` set (se_panes (sample_session att auth)) = {1, 2, 3}"
  by (auto simp: sample_session_def sample_pane_def)

lemma sample_old: "\<forall>p\<in>set (se_panes (sample_session att auth)). pn_id p < 4"
proof
  fix p assume "p \<in> set (se_panes (sample_session att auth))"
  then have "pn_id p \<in> {1, 2, 3}" by (metis sample_ids image_eqI)
  then show "pn_id p < 4" by auto
qed

text \<open>
  C12.  A batch is applied whole or not at all, whatever happened to the daemon while its processes started: other
  requests, panes that exited, the end of the session.  The second look never panics.  When the session is gone it says so
  and changes nothing.  Otherwise either the panes of the session are those it had, and a batch that is answered
  as spawned is one with a receipt from before; or every draft is a live pane with its place in the new layout, exactly the live panes
  the layout leaves out are removed, every pane of the layout is a pane of the session, and the request has a receipt.  When the existing
  panes the draft names are still live the session then shows exactly the live panes of the
  layout; one that has exited meanwhile is laid out all the same, and the state is then, and only then, not consistent.
\<close>

theorem batch_is_whole_or_nothing:
  assumes "daemon_sound d" "prepare_batch start rq n = (Inr b, n')" "0 < n" "unat n + length (br_panes rq) \<le> 2 ^ 64"
    "\<forall>s\<in>set (dm_sessions d). pn_id ` set (se_panes s) \<inter> set (next_ids n (length (br_panes rq))) = {}"
  shows "\<exists>answer d'. finish_batch ev rq b client peer pf d = Some (answer, d') \<and> daemon_sound d' \<and> (daemon_ok d \<longrightarrow> daemon_ok d') \<and>
    (case find_session d (br_session_id rq) of
       None \<Rightarrow> answer = Inl (NoSuchSession (br_session_id rq)) \<and> d' = d
     | Some s \<Rightarrow> \<exists>s'. find_session d' (br_session_id rq) = Some s' \<and>
         (batch_passed rq s s' answer \<or>
          (\<exists>st. answer = Inr (RespBatch st (pb_mappings b)) \<and> batch_applied rq b s s' st \<and>
             (set (existing_panes (br_replacement rq)) \<subseteq> set (live_pane_ids s) \<longrightarrow> batch_done rq b s s' st))))"
proof (cases "find_session d (br_session_id rq)")
  case None
  then show ?thesis using assms(1) by (simp add: finish_batch_def on_session_def)
next
  case (Some s)
  have sub: "set (bg_ids (pb_replacement b)) \<subseteq> set (live_pane_ids s) \<union> dm_pane_id ` set (pb_mappings b)"
    if "set (existing_panes (br_replacement rq)) \<subseteq> set (live_pane_ids s)"
    using prepare_batch_result(7) [OF assms(2)] that by blast
  have new: "brings_new_panes rq b s"
    by (rule prepared_brings_fresh_panes [OF assms(2-4)]) (use assms(5) find_sessionD [OF Some] in blast)
  obtain answer s' es where r: "batch_in ev rq b client peer pf d s = Some (answer, d, s', es)" "session_sound s'"
    "session_ok s \<longrightarrow> session_ok s'" "se_id s' = se_id s"
    "batch_passed rq s s' answer \<or> (\<exists>st. answer = Inr (RespBatch st (pb_mappings b)) \<and> batch_applied rq b s s' st \<and>
       (set (bg_ids (pb_replacement b)) \<subseteq> set (live_pane_ids s) \<union> dm_pane_id ` set (pb_mappings b) \<longrightarrow> batch_done rq b s s' st))"
    by (rule batch_in_result [OF find_session_sound [OF assms(1) Some] new])
  have f: "finish_batch ev rq b client peer pf d = Some (answer, emit_effects (put_session d s') es)"
    using Some r(1) by (simp add: finish_batch_def on_session_def)
  have ok: "daemon_sound (put_session d s')" "daemon_ok d \<longrightarrow> daemon_ok (put_session d s')"
    using put_session_sound [OF assms(1) r(2)] put_session_ok r(3) find_session_ok Some by blast+
  have "find_session (put_session d s') (br_session_id rq) = Some s'" using Some r(4) find_sessionD [OF Some] by simp
  then show ?thesis using r(5) sub f ok Some by (auto 0 4)
qed

theorem batch_is_whole_or_nothing_witness:
  "\<exists>answer d' s'. finish_batch sample_env sample_batch sample_prepared ''v'' None [] (sample_daemon (sample_session AttNone None)) =
      Some (answer, d') \<and> daemon_ok d' \<and> find_session d' 7 = Some s' \<and>
      (batch_passed sample_batch (sample_session AttNone None) s' answer \<or>
       (\<exists>st. answer = Inr (RespBatch st (pb_mappings sample_prepared)) \<and>
          batch_done sample_batch sample_prepared (sample_session AttNone None) s' st))"
  using batch_is_whole_or_nothing [OF daemon_ok_sound [OF sample_daemon_ok] sample_prepared, of AttNone None sample_env "''v''" None "[]"]
    sample_find [of AttNone None] old_ids_fresh [OF _ sample_old, of 1 AttNone None] sample_daemon_ok [of AttNone None]
  by (auto simp: sample_live sample_daemon_def)

text \<open>
  C13.  A draft of a whole tab that was made for the current revision and places the live panes it keeps and each new
  pane once is carried out: the request answers with the mapping of its drafts, the session shows exactly the drafted
  layout, with the panes it leaves out gone, and the revision moves on by one.  Sent again by a peer that still may,
  the same request gets the same answer, starts no process and changes nothing.
\<close>

theorem drafted_tab_is_spawned:
  assumes ok: "daemon_ok d" and f: "find_session d (br_session_id rq) = Some s" and s: "settled s st"
    and admitted: "admit_batch rq peer pf d = Some (Inr None, d)" and whole: "br_target_pane_id rq = None"
    and prep: "prepare_batch start rq n = (Inr b, n')" and ids: "0 < n" "unat n + length (br_panes rq) \<le> 2 ^ 64"
      "\<forall>p\<in>set (se_panes s). pn_id p < n"
    and drafted: "distinct (bg_ids (pb_replacement b))" "dm_pane_id ` set (pb_mappings b) \<subseteq> set (bg_ids (pb_replacement b))"
      "set (existing_panes (br_replacement rq)) \<subseteq> set (live_pane_ids s)"
    and active: "next_active_pane rq (pb_mappings b) st (pb_replacement b) = Inr active"
  shows "\<exists>st' d' s'. spawn_shared_batch ev start rq client peer pf id n d = Some (Inr (RespBatch st' (pb_mappings b)), d', n') \<and>
    find_session d' (br_session_id rq) = Some s' \<and> batch_done rq b s s' st' \<and>
    pr_layout (ss_presentation st') = pb_replacement b \<and> ss_revision st' = next_revision (ss_revision st) \<and>
    map dm_draft_id (pb_mappings b) = map pd_draft_id (br_panes rq) \<and>
    (\<forall>m. session_control_authorized s' peer pf \<longrightarrow>
       spawn_shared_batch ev start rq client peer pf id m d' = Some (Inr (RespBatch st' (pb_mappings b)), d', m))"
proof -
  have adm: "br_panes rq \<noteq> []" "distinct (map pd_draft_id (br_panes rq))" "se_offered s" "session_control_authorized s peer pf"
    "find_receipt st (br_operation_id rq) = None" "ss_revision st = br_base_revision rq"
    using admitted f whole by (auto simp: admit_batch_def normalize_settled [OF s] split: if_splits option.splits)
  have sub: "set (bg_ids (pb_replacement b)) \<subseteq> set (live_pane_ids s) \<union> dm_pane_id ` set (pb_mappings b)"
    using prepare_batch_result(7) [OF prep] drafted(3) by blast
  obtain st' s' es where r: "batch_in ev rq b client peer pf d s = Some (Inr (RespBatch st' (pb_mappings b)), d, s', es)"
    "batch_done rq b s s' st'" "pr_layout (ss_presentation st') = pb_replacement b"
    "ss_revision st' = next_revision (ss_revision st)" "se_id s' = se_id s" "se_offered s' = se_offered s"
    using whole_tab_commits [OF s prepared_brings_new_panes [OF prep ids] adm(4) whole adm(6,5) drafted(1,2) sub active] by metis
  define d' where "d' = emit_effects (put_session d s') es"
  have f': "find_session d' (br_session_id rq) = Some s'"
    using f r(5) find_sessionD [OF f] by (simp add: d'_def)
  have "finish_batch ev rq b client peer pf d = Some (Inr (RespBatch st' (pb_mappings b)), d')"
    using f r(1) by (simp add: finish_batch_def on_session_def d'_def)
  then have "spawn_shared_batch ev start rq client peer pf id n d = Some (Inr (RespBatch st' (pb_mappings b)), d', n')"
    by (simp add: spawn_shared_batch_def admitted prep)
  moreover have "session_control_authorized s' peer pf \<Longrightarrow>
      spawn_shared_batch ev start rq client peer pf id m d' = Some (Inr (RespBatch st' (pb_mappings b)), d', m)" for m
    using answered_batch_starts_nothing [OF f' _ _ _ adm(1,2), of st'] r(2,6) adm(3) by (fastforce simp: batch_done_def)
  ultimately show ?thesis using f' r(2-4) prepare_batch_result(4) [OF prep] by blast
qed

theorem drafted_tab_is_spawned_witness:
  "\<exists>st' d' s'. spawn_shared_batch sample_env sample_starter sample_batch ''v'' None [] id 4 (sample_daemon (sample_session AttNone None)) =
      Some (Inr (RespBatch st' [\<lparr>dm_draft_id = 10, dm_pane_id = 4\<rparr>]), d', 5) \<and>
      find_session d' 7 = Some s' \<and> set (live_pane_ids s') = {1, 4}"
proof -
  let ?s = "sample_session AttNone None" and ?d = "sample_daemon (sample_session AttNone None)"
  have adm: "admit_batch sample_batch None [] ?d = Some (Inr None, ?d)"
    using sample_find [of AttNone None]
    by (simp add: admit_batch_def sample_open normalize_settled [OF sample_session_settled])
  have act: "next_active_pane sample_batch (pb_mappings sample_prepared) sample_state (pb_replacement sample_prepared) = Inr 4"
    by (simp add: next_active_pane_def referenced_pane_def sample_batch_def sample_prepared_def mapping_map_def hash_map_def)
  obtain st' d' s' where "spawn_shared_batch sample_env sample_starter sample_batch ''v'' None [] id 4 ?d =
      Some (Inr (RespBatch st' (pb_mappings sample_prepared)), d', 5)" "find_session d' 7 = Some s'"
    "batch_done sample_batch sample_prepared ?s s' st'" "pr_layout (ss_presentation st') = pb_replacement sample_prepared"
    using drafted_tab_is_spawned [OF sample_daemon_ok _ sample_session_settled adm _ sample_prepared _ _ sample_old _ _ _ act, of AttNone None sample_env "''v''"]
      sample_find [of AttNone None] by (auto simp: sample_live sample_prepared_def)
  then show ?thesis by (auto simp: batch_done_def sample_prepared_def)
qed

text \<open>
  C14.  A request to create a session that is valid never fails once its processes have started: it answers with a
  session that is offered and kept, protected exactly when it came with a verifier, in which nothing is left to
  repair and whose layout places exactly the panes that were started for it; no other session changes.  Sent again, it gets the same answer,
  starts nothing and creates nothing.
\<close>

theorem created_session_is_settled:
  assumes ok: "daemon_ok d" and valid: "validate_create_request has_profile rq = Inr ()"
    and none: "answered_before d (cq_operation_id rq) = None"
    and verifier: "\<forall>v\<in>set_option (cq_verifier rq). ev_accepts ev v"
    and started: "start_drafts start (cq_panes rq) n = (Inr ps, n')" and ids: "0 < n" "unat n + length (cq_panes rq) \<le> 2 ^ 64"
    and i: "i \<notin> se_id ` set (dm_sessions d)"
  shows "\<exists>st d' s'. create_shared ev has_profile start rq null peer id n i d = (Inr (RespCreated i st), d', n', i + 1) \<and>
    daemon_ok d' \<and> find_session d' i = Some s' \<and> (\<forall>j. j \<noteq> i \<longrightarrow> find_session d' j = find_session d j) \<and>
    settled s' st \<and> map pn_id (se_panes s') = map pv_pane_id ps \<and> se_offered s' \<and> se_keep s' \<and>
    (se_authentication s' = None \<longleftrightarrow> cq_verifier rq = None) \<and>
    find_receipt st (cq_operation_id rq) =
      Some \<lparr>re_operation_id = cq_operation_id rq, re_mappings = draft_mappings (cq_panes rq) ps\<rparr> \<and>
    (\<forall>m k. create_shared ev has_profile start rq null peer id m k d' = (Inr (RespCreated i st), d', m, k))"
proof -
  obtain b active where b: "prepare_create start rq n = (Inr (b, active), n')" "pb_provisional b = ps"
    "pb_mappings b = draft_mappings (cq_panes rq) ps"
    and c0: "mset (bg_ids (pb_replacement b)) = mset (map pv_pane_id (pb_provisional b))" "bg_ok (pb_replacement b)"
    "length (pb_provisional b) = length (cq_panes rq)" "distinct (map pv_pane_id (pb_provisional b))"
    "0 \<notin> pv_pane_id ` set (pb_provisional b)" "active \<in> pv_pane_id ` set (pb_provisional b)"
    by (rule prepare_create_result [OF valid started ids])
  obtain st d' s' where c: "commit_create ev rq null b active peer i d = (RespCreated i st, d', i + 1)" "daemon_ok d'"
    "find_session d' i = Some s'" "\<And>j. j \<noteq> i \<Longrightarrow> find_session d' j = find_session d j" "settled s' st"
    "map pn_id (se_panes s') = map pv_pane_id (pb_provisional b)" "se_offered s' \<and> se_keep s'"
    "se_authentication s' = None \<longleftrightarrow> cq_verifier rq = None"
    "find_receipt st (cq_operation_id rq) = Some \<lparr>re_operation_id = cq_operation_id rq, re_mappings = pb_mappings b\<rparr>"
    "answered_before d' (cq_operation_id rq) = Some st" "ss_session_id st = i"
    by (rule commit_create_result [OF daemon_ok_sound [OF ok] none i, of b active ev null peer]) (use c0 ok in simp_all)
  have "create_shared ev has_profile start rq null peer id n i d = (Inr (RespCreated i st), d', n', i + 1)"
    using verifier by (auto simp: create_shared_def valid none b(1) c(1) split: option.splits)
  moreover have "create_shared ev has_profile start rq null peer id m k d' = (Inr (RespCreated i st), d', m, k)" for m k
    by (simp add: create_shared_def valid c(10,11))
  ultimately show ?thesis using c(2-9) by (auto simp: b(2,3))
qed

definition sample_create :: create_request where
  "sample_create = \<lparr>cq_operation_id = \<lparr>oi_client = ''c'', oi_sequence = 1\<rparr>, cq_title = ''new'',
     cq_replacement = DraftSplit ''vertical'' 300 (DraftNew 20) (DraftNew 10),
     cq_panes = [sample_draft 10, sample_draft 20], cq_active_pane = Some (RefDraft 20), cq_verifier = Some ''v''\<rparr>"

lemma sample_create_valid: "validate_create_request (\<lambda>_. True) sample_create = Inr ()"
  by (simp add: validate_create_request_def validate_create_layout_def sample_create_def sample_draft_def numbered_drafts_def hash_map_def
      validate_draft_process_def BACKGROUND_PANE_SPLIT_RATIO_SCALE_def upt_conv_Cons word_less_nat_alt word_le_nat_alt)

theorem created_session_is_settled_witness:
  "\<exists>st d' s'. create_shared sample_env (\<lambda>_. True) sample_starter sample_create () None id 4 8
      (sample_daemon (sample_session AttNone None)) = (Inr (RespCreated 8 st), d', 6, 9) \<and> daemon_ok d' \<and>
      find_session d' 8 = Some s' \<and> settled s' st \<and> map pn_id (se_panes s') = [4, 5] \<and> se_authentication s' \<noteq> None"
proof -
  let ?p = "\<lambda>i. \<lparr>pv_pane_id = i, pv_pty = \<lparr>pty_winsize = None, pty_accepted = [], pty_child_pid = 9\<rparr>, pv_size = pd_size (sample_draft 10)\<rparr>"
  have st: "start_drafts sample_starter (cq_panes sample_create) 4 = (Inr [?p 4, ?p 5], 6)"
    by (simp add: sample_create_def start_shared_draft_def sample_starter_def sample_draft_def)
  have nb: "answered_before (sample_daemon (sample_session AttNone None)) (cq_operation_id sample_create) = None"
    by (simp add: answered_before_def sample_daemon_def sample_session_def List.map_filter_def)
  have "\<forall>v\<in>set_option (cq_verifier sample_create). ev_accepts sample_env v" "cq_verifier sample_create \<noteq> None"
    "unat (4 :: u64) + length (cq_panes sample_create) \<le> 2 ^ 64"
    "8 \<notin> se_id ` set (dm_sessions (sample_daemon (sample_session AttNone None)))"
    by (simp_all add: sample_create_def sample_env_def sample_daemon_def sample_session_def)
  then show ?thesis
    using created_session_is_settled [OF sample_daemon_ok sample_create_valid nb _ st _ _, of sample_env 8 "()" None] by fastforce
qed

end
