(* ===== verification/Mux_Steps.thy ===== *)
theory Mux_Steps
  imports Mux_Secret Mux_Batch
begin

text \<open>
  The daemon as a whole: every request, wake-up, read and sweep of the multiplexer is
  a step between daemons, in any order.  The contract of a request that works on one session is a
  locale, interpreted on the requests of \<open>Mux_Share\<close> and on the batches of \<open>Mux_Batch\<close>; what it promises
  carries over to the steps.
\<close>

lemma prune_answers:
  assumes "daemon_sound d"
  shows "\<exists>b d'. prune_exited_panes d = Some (b, d') \<and> daemon_sound d'"
  by (rule prune_result [OF assms]) simp

section \<open>What a request on a session promises\<close>

text \<open>
  A request that is admitted is answered, leaves a well-formed session well formed and
  itself, and touches no other session.
\<close>

locale session_handler =
  fixes admits :: "('t, 'j) session \<Rightarrow> bool"
    and handler :: "('t, 'j) daemon \<Rightarrow> ('t, 'j) session \<Rightarrow> ('t, 'j) outcome"
  assumes answers: "admits s \<Longrightarrow> session_sound s \<Longrightarrow> handler d s \<noteq> None"
    and keeps: "admits s \<Longrightarrow> session_sound s \<Longrightarrow> handler d s = Some (answer, d1, s1, es) \<Longrightarrow>
      session_sound s1 \<and> se_id s1 = se_id s \<and> dm_sessions d1 = dm_sessions d"
begin

lemma on_session_answers:
  assumes "\<And>s. find_session d i = Some s \<Longrightarrow> admits s" "daemon_sound d"
  shows "\<exists>answer d'. on_session d i handler = Some (answer, d') \<and> daemon_sound d'"
proof (cases "find_session d i")
  case None
  then show ?thesis using assms(2) by (simp add: on_session_def)
next
  case (Some s)
  have ok: "session_sound s" by (rule find_session_sound [OF assms(2) Some])
  then obtain answer d1 s1 es where h: "handler d s = Some (answer, d1, s1, es)"
    using answers [OF assms(1) [OF Some], of d] by (cases "handler d s") auto
  have s1: "session_sound s1" "dm_sessions d1 = dm_sessions d" using keeps [OF assms(1) [OF Some] ok h] by simp_all
  have "daemon_sound (put_session d1 s1)"
    by (rule put_session_sound) (use s1 assms(2) in \<open>simp_all add: daemon_sound_def\<close>)
  then show ?thesis using on_session_Some [of d i s handler, OF Some h] by simp
qed

lemma after_request_answers:
  assumes "\<And>s. find_session d i = Some s \<Longrightarrow> admits s" "daemon_sound d"
  shows "\<exists>answer d'. after_request before after (on_session d i handler) = Some (answer, d') \<and> daemon_sound d'"
proof -
  obtain answer d' where h: "on_session d i handler = Some (answer, d')" "daemon_sound d'"
    using on_session_answers [OF assms] by metis
  show ?thesis
  proof (cases answer)
    case (Inl e)
    then show ?thesis using h by (simp add: after_request_def)
  next
    case (Inr a)
    have "daemon_sound (emit_effects d' before)" using h(2) by simp
    from prune_answers [OF this] obtain changed d1 where
      "prune_exited_panes (emit_effects d' before) = Some (changed, d1)" "daemon_sound d1" by blast
    then show ?thesis using h Inr by (simp add: after_request_def)
  qed
qed

end

lemma session_handlerI:
  fixes handler :: "('t, 'j) daemon \<Rightarrow> ('t, 'j) session \<Rightarrow> ('t, 'j) outcome"
  assumes "\<And>d s. admits s \<Longrightarrow> session_sound s \<Longrightarrow> \<exists>answer d1 s1 es. handler d s = Some (answer, d1, s1, es) \<and>
    session_sound s1 \<and> se_id s1 = se_id s \<and> dm_sessions d1 = dm_sessions d"
  shows "session_handler admits handler"
proof
  fix d :: "('t, 'j) daemon" and s :: "('t, 'j) session" assume "admits s" "session_sound s"
  then show "handler d s \<noteq> None" using assms [of s d] by auto
next
  fix d d1 :: "('t, 'j) daemon" and s s1 :: "('t, 'j) session" and answer es
  assume "admits s" "session_sound s" "handler d s = Some (answer, d1, s1, es)"
  then show "session_sound s1 \<and> se_id s1 = se_id s \<and> dm_sessions d1 = dm_sessions d" using assms [of s d] by auto
qed

section \<open>The requests keep it\<close>

lemma session_sound_updates [simp]:
  "session_sound (s\<lparr>se_owner := x1\<rparr>) = session_sound s" "session_sound (s\<lparr>se_keep := x2\<rparr>) = session_sound s"
  "session_sound (s\<lparr>se_offered := x3\<rparr>) = session_sound s" "session_sound (s\<lparr>se_authentication := x4\<rparr>) = session_sound s"
  "session_sound (s\<lparr>se_key_envelope := x5\<rparr>) = session_sound s" "session_sound (s\<lparr>se_failed_authentications := x6\<rparr>) = session_sound s"
  "session_sound (s\<lparr>se_refuse_until := x7\<rparr>) = session_sound s" "session_sound (s\<lparr>se_sealed_to := x8\<rparr>) = session_sound s"
  by (simp_all add: session_sound_def)

lemma session_sound_unshared: "session_sound s \<Longrightarrow> session_sound (s\<lparr>se_shared_state := None\<rparr>)"
  by (simp add: session_sound_def)

lemma session_sound_required: "session_sound (s\<lparr>se_summary := (se_summary s)\<lparr>bs_authentication_required := b\<rparr>\<rparr>) = session_sound s"
  by (simp add: session_sound_def)

lemma session_sound_published: "session_sound s \<Longrightarrow> session_sound (publish_in s summary state)"
  by (simp add: session_sound_def publish_in_def)

lemma session_sound_panes: "session_sound s \<Longrightarrow> map pn_id ps = map pn_id (se_panes s) \<Longrightarrow> session_sound (s\<lparr>se_panes := ps\<rparr>)"
  by (simp add: session_sound_def flip: set_map)

lemma protect_keeps:
  assumes "protect_if_asked ev d s v envelope peer = Inr (d1, s1)"
  shows "dm_sessions d1 = dm_sessions d \<and> session_sound s1 = session_sound s \<and> se_id s1 = se_id s \<and>
    se_offered s1 = se_offered s \<and> se_owner s1 = se_owner s"
  using assms
  by (auto simp: protect_if_asked_def protect_session_def pin_protected_def Let_def split: option.splits if_splits)

lemma share_state_sound: "session_sound s \<Longrightarrow> session_sound (share_state s)"
  using shared_state_or_new_sound [of s] by (auto simp: share_state_def session_sound_def)

lemma reshare_answers:
  assumes ok: "session_sound s" and cont: "\<And>s1. session_sound s1 \<Longrightarrow> session_sound (fst (continue s1)) \<and> se_id (fst (continue s1)) = se_id s1"
  shows "\<exists>answer s1 es. reshare d s continue a = Some (answer, d, s1, es) \<and> session_sound s1 \<and> se_id s1 = se_id s"
proof -
  obtain r s' es where n: "normalize_shared_state (share_state s) = Some (r, s', es)" "session_sound s'" "repaired_from (share_state s) s'"
    using normalize_sound [OF share_state_sound [OF ok]] by metis
  have "se_id s' = se_id s" using repaired_from_live [OF n(3)] by (simp add: share_state_def)
  then show ?thesis using n cont [OF n(2)] by (cases r) (auto simp: reshare_def split: prod.splits)
qed

lemma release_panes_ids: "map pn_id (release_panes em client snaps ps) = map pn_id ps"
  by (induction ps arbitrary: snaps)
    (auto simp: seed_retained_screen_def split: option.splits attachment.splits)

lemma settle_id: "pn_id (fst (settle_shared_departure em enc i rvn q r)) = pn_id q"
  using settle_keeps [of em enc i rvn q r] by (metis keeps_pane_def prod.collapse)

lemma drop_viewers_ids: "pn_id (fst (drop_viewers ev i rvn leaves p)) = pn_id p"
  by (simp add: drop_viewers_def Let_def case_prod_unfold settle_id split: attachment.splits)

lemma edit_answers:
  assumes "session_sound s"
  shows "\<exists>answer d1 s1 es. apply_to_session rq peer pf d s = Some (answer, d1, s1, es) \<and> session_sound s1 \<and>
      se_id s1 = se_id s \<and> dm_sessions d1 = dm_sessions d"
  using apply_to_session_result [OF assms, of rq peer pf d] by metis

interpretation edits: session_handler "\<lambda>_. True" "apply_to_session rq peer pf"
  by (rule session_handlerI) (rule edit_answers)

lemma view_answers:
  assumes ok: "session_sound s"
  shows "\<exists>answer d1 s1 es. snapshot_in i peer pf d s = Some (answer, d1, s1, es) \<and> session_sound s1 \<and>
      se_id s1 = se_id s \<and> dm_sessions d1 = dm_sessions d"
proof -
  obtain r s' es where n: "normalize_shared_state s = Some (r, s', es)" "session_sound s'" "repaired_from s s'"
    using normalize_sound [OF ok] by metis
  then show ?thesis using ok repaired_from_live [OF n(3)] by (simp add: snapshot_in_def)
qed

interpretation views: session_handler "\<lambda>_. True" "snapshot_in i peer pf"
  by (rule session_handlerI) (rule view_answers)

interpretation leaves: session_handler "\<lambda>_. True" "leave_in ev i client peer pf"
  by unfold_locales
    (auto simp: leave_in_def Let_def drop_viewers_ids comp_def intro!: session_sound_panes split: if_splits)

lemma share_in_answers:
  fixes d :: "('a, 'b) daemon"
  assumes ok: "session_sound s"
  shows "\<exists>answer d1 s1 es. share_in ev i rq client peer pf d s = Some (answer, d1, s1, es) \<and> session_sound s1 \<and>
      se_id s1 = se_id s \<and> dm_sessions d1 = dm_sessions d"
  proof (cases "\<exists>e. share_in ev i rq client peer pf d s = Some (Inl e, d, s, [])")
    case False
    let ?s1 = "(publish_in s (sr_summary rq) (sr_state rq))\<lparr>se_offered := sr_offered rq\<rparr>"
    let ?s2 = "if sr_offered rq then ?s1 else ?s1\<lparr>se_owner := Some client\<rparr>"
    have s2: "session_sound ?s2" "se_id ?s2 = se_id s"
      using session_sound_published [OF ok] by (simp_all add: publish_in_def)
    show ?thesis
    proof (cases "protect_if_asked ev d ?s2 (sr_verifier rq) (sr_key_envelope rq) peer")
      case (Inl e)
      then show ?thesis using False s2 by (auto simp: share_in_def Let_def split: option.splits if_splits)
    next
      case (Inr ds)
      then obtain d1 s3 where p: "protect_if_asked ev d ?s2 (sr_verifier rq) (sr_key_envelope rq) peer = Inr (d1, s3)"
        by (cases ds) simp
      have s4: "session_sound (authentication_published s3)" "se_id (authentication_published s3) = se_id s" "dm_sessions d1 = dm_sessions d"
        using protect_keeps [OF p] s2 by (simp_all add: authentication_published_def session_sound_required)
      have "\<exists>answer s1 es. reshare d1 (authentication_published s3) (\<lambda>s. (s, [PublishCatalog, WakeDrain])) RespOk =
          Some (answer, d1, s1, es) \<and> session_sound s1 \<and> se_id s1 = se_id s"
        using reshare_answers [OF s4(1), of "\<lambda>s. (s, [PublishCatalog, WakeDrain])" d1 RespOk] s4(2) by simp
      then show ?thesis
        using False p s4 session_sound_unshared [OF s4(1)]
        by (auto simp: share_in_def Let_def split: option.splits if_splits)
    qed
  qed (use ok in auto)

interpretation shares: session_handler "\<lambda>_. True" "share_in ev i rq client peer pf"
  by (rule session_handlerI) (rule share_in_answers)

lemma detach_in_answers:
  fixes d :: "('a, 'b) daemon"
  assumes ok: "session_sound s"
  shows "\<exists>answer d1 s1 es. detach_in ev i rq snaps client peer d s = Some (answer, d1, s1, es) \<and> session_sound s1 \<and>
      se_id s1 = se_id s \<and> dm_sessions d1 = dm_sessions d"
  proof (cases "session_control_authorized s peer []")
    case True
    let ?s1 = "(publish_in s (dr_summary rq) (dr_state rq))\<lparr>se_keep := True\<rparr>"
    let ?s2 = "if se_offered ?s1 then ?s1 else ?s1\<lparr>se_owner := Some client\<rparr>"
    let ?release = "\<lambda>s :: ('a, 'b) session. s\<lparr>se_panes := release_panes (ev_emulator ev) client snaps (se_panes s)\<rparr>"
    have s2: "session_sound ?s2" "se_id ?s2 = se_id s"
      using session_sound_published [OF ok] by (simp_all add: publish_in_def)
    have rel: "session_sound s \<Longrightarrow> session_sound (?release s)" for s
      by (intro session_sound_panes) (simp_all add: release_panes_ids)
    show ?thesis
    proof (cases "protect_if_asked ev d ?s2 (dr_verifier rq) (dr_key_envelope rq) peer")
      case (Inl e)
      then show ?thesis using True s2 by (auto simp: detach_in_def Let_def)
    next
      case (Inr ds)
      then obtain d1 s3 where p: "protect_if_asked ev d ?s2 (dr_verifier rq) (dr_key_envelope rq) peer = Inr (d1, s3)"
        by (cases ds) simp
      have s4: "session_sound (authentication_published s3)" "se_id (authentication_published s3) = se_id s" "dm_sessions d1 = dm_sessions d"
        using protect_keeps [OF p] s2 by (simp_all add: authentication_published_def session_sound_required)
      have "\<exists>answer s1 es. reshare d1 (authentication_published s3) (\<lambda>s. (?release s, [])) RespDetached =
          Some (answer, d1, s1, es) \<and> session_sound s1 \<and> se_id s1 = se_id s"
        using reshare_answers [OF s4(1), of "\<lambda>s. (?release s, [])" d1 RespDetached] s4(2) rel by simp
      then show ?thesis
        using True p s4 rel [OF s4(1)] by (auto simp: detach_in_def Let_def)
    qed
  qed (use ok in \<open>simp add: detach_in_def\<close>)

interpretation detaches: session_handler "\<lambda>_. True" "detach_in ev i rq snaps client peer"
  by (rule session_handlerI) (rule detach_in_answers)

lemma scope_in_answers:
  assumes ok: "session_sound s"
  shows "\<exists>answer d1 s1 es. scope_in ev i shared verifier envelope peer pf stream_only d s = Some (answer, d1, s1, es) \<and>
    session_sound s1 \<and> se_id s1 = se_id s \<and> dm_sessions d1 = dm_sessions d"
proof (cases "\<exists>e. scope_in ev i shared verifier envelope peer pf stream_only d s = Some (Inl e, d, s, [])")
  case False
  then obtain d1 s1 where p: "protect_if_asked ev d s verifier envelope peer = Inr (d1, s1)"
    by (cases "protect_if_asked ev d s verifier envelope peer") (auto simp: scope_in_def split: if_splits)
  define s2 where "s2 = (if verifier = None then s1 else s1\<lparr>se_summary := (se_summary s1)\<lparr>bs_authentication_required := True\<rparr>\<rparr>)"
  have s2: "session_sound s2" "se_id s2 = se_id s" "dm_sessions d1 = dm_sessions d"
    using protect_keeps [OF p] ok by (simp_all add: session_sound_required s2_def)
  have on_screen: "\<not> list_ex (\<lambda>p. pn_attachment p \<noteq> AttNone) (se_panes s)"
    by (rule ccontr) (use False in \<open>simp add: scope_in_def\<close>)
  have allowed: "session_control_authorized s peer pf \<or>
      \<not> stream_only \<and> stranded_session_may_be_offered (ev_running ev) s shared (verifier \<noteq> None)"
    by (rule ccontr) (use False on_screen in \<open>simp add: scope_in_def\<close>)
  have "scope_in ev i shared verifier envelope peer pf stream_only d s =
     (if shared then reshare d1 (s2\<lparr>se_offered := True\<rparr>) (\<lambda>s. (s, [PublishCatalog])) RespOk
      else if \<not> (case se_owner s2 of Some owner \<Rightarrow> ev_running ev owner | None \<Rightarrow> False)
      then Some (Inl (NoWindowToScopeTo i), d1, s2, [])
      else Some (Inr RespOk, d1, s2\<lparr>se_offered := False, se_shared_state := None\<rparr>, [PublishCatalog]))"
    unfolding scope_in_def s2_def Let_def
    by (simp only: on_screen allowed p sum.case prod.case if_False if_True not_True_eq_False)
  moreover have "\<exists>answer s3 es. reshare d1 (s2\<lparr>se_offered := True\<rparr>) (\<lambda>s. (s, [PublishCatalog])) RespOk = Some (answer, d1, s3, es) \<and>
      session_sound s3 \<and> se_id s3 = se_id s"
    using reshare_answers [of "s2\<lparr>se_offered := True\<rparr>" "\<lambda>s. (s, [PublishCatalog])" d1 RespOk] s2 by simp
  moreover have "session_sound (s2\<lparr>se_offered := False, se_shared_state := None\<rparr>)"
    using session_sound_unshared [of "s2\<lparr>se_offered := False\<rparr>"] s2(1) by simp
  ultimately show ?thesis using s2 by auto
qed (use ok in auto)

interpretation scopes: session_handler "\<lambda>_. True" "scope_in ev i shared verifier envelope peer pf stream_only"
  by (rule session_handlerI) (rule scope_in_answers)

lemma batch_answers:
  assumes "brings_new_panes rq b s" "session_sound s"
  shows "\<exists>answer d1 s1 es. batch_in ev rq b client peer pf d s = Some (answer, d1, s1, es) \<and> session_sound s1 \<and>
      se_id s1 = se_id s \<and> dm_sessions d1 = dm_sessions d"
  using batch_in_result [OF assms(2,1), of ev client peer pf d] by metis

interpretation batches: session_handler "brings_new_panes rq b" "batch_in ev rq b client peer pf"
  by (rule session_handlerI) (rule batch_answers)

section \<open>The other steps keep it\<close>

lemma daemon_sound_sessions:
  assumes "daemon_sound d" "list_all2 (\<lambda>s s'. se_id s' = se_id s \<and> (session_sound s \<longrightarrow> session_sound s')) (dm_sessions d) ss"
    "dm_sessions d' = ss"
  shows "daemon_sound d'"
proof -
  have "map se_id ss = map se_id (dm_sessions d)" "list_all session_sound (dm_sessions d) \<Longrightarrow> list_all session_sound ss"
    using assms(2) by (induction rule: list_all2_induct) auto
  then show ?thesis using assms(1,3) by (simp add: daemon_sound_def)
qed

lemma daemon_sound_cong: "dm_sessions d' = dm_sessions d \<Longrightarrow> daemon_sound d' = daemon_sound d"
  by (simp add: daemon_sound_def)

lemma daemon_sound_filter: "daemon_sound d \<Longrightarrow> dm_sessions d' = filter P (dm_sessions d) \<Longrightarrow> daemon_sound d'"
  by (simp add: daemon_sound_def distinct_map_filter list_all_iff)

lemma put_pane_ok: "session_sound s \<Longrightarrow> session_sound (put_pane s q)"
  unfolding put_pane_def by (intro session_sound_panes) (simp_all add: replace_first_ids)

lemma store_pane_ok [simp]: "daemon_sound d \<Longrightarrow> daemon_sound (store_pane d i q)"
  by (auto simp: store_pane_def intro!: put_session_sound put_pane_ok dest: find_session_sound split: option.splits)

lemma next_attachment_ok [simp]: "daemon_sound (d\<lparr>dm_next_attachment := n\<rparr>) = daemon_sound d"
  by (simp add: daemon_sound_def)

lemma release_failed_ok [simp]: "daemon_sound d \<Longrightarrow> daemon_sound (release_failed_handover d i j c)"
  by (auto simp: release_failed_handover_def split: option.splits)

lemma attach_exclusive_ok: "daemon_sound d \<Longrightarrow> daemon_sound (snd (attach_exclusive ev io d i j pid c state summary))"
  by (auto simp: attach_exclusive_def on_pane_def Let_def split: option.splits)

lemma attach_shared_ok: "daemon_sound d \<Longrightarrow> daemon_sound (snd (attach_shared ev io d i j a state summary))"
  by (auto simp: attach_shared_def on_pane_def Let_def split: option.splits attachment.splits)

text \<open>The daemon an attach leaves, answered or waiting.\<close>

definition attached_daemon :: "('t, 'j) attaching \<Rightarrow> ('t, 'j) daemon" where
  "attached_daemon r = (case r of Answers _ d \<Rightarrow> d | Waits d \<Rightarrow> d)"

lemma attached_daemon_simps [simp]:
  "attached_daemon (Answers x d) = d" "attached_daemon (Waits d) = d" "attached_daemon (answering r) = snd r"
  by (simp_all add: attached_daemon_def answering_def)

lemma attach_pane_ok: "daemon_sound d \<Longrightarrow> daemon_sound (attached_daemon (attach_pane ev io d i a force state summary p))"
  by (auto simp: attach_pane_def Let_def intro!: attach_exclusive_ok attach_shared_ok split: attachment.splits)

lemma await_pane_ok: "daemon_sound d \<Longrightarrow> daemon_sound (attached_daemon (await_pane ev io d i a state summary p))"
  by (auto simp: await_pane_def Let_def intro!: attach_exclusive_ok attach_shared_ok split: attachment.splits)

lemma summary_answers: "session_sound s \<Longrightarrow> \<exists>su. catalog_summary s = Some su"
proof (cases "live_pane_ids s = []")
  case True
  then show ?thesis by (simp add: catalog_summary_def summary_from_daemon_panes_def Let_def)
next
  case False
  assume "session_sound s"
  from summary_from_daemon_panes_total [OF this False, of "shared_state_or_new s"]
  show ?thesis unfolding catalog_summary_def by (metis option.map(2))
qed

lemma attach_answers:
  assumes ok: "daemon_sound d" and f: "find_session d i = Some s"
  shows "\<exists>r. attach ev io d i pane_opt a force = Some r \<and> daemon_sound (attached_daemon r)"
proof -
  have s: "session_sound s" "se_id s = i" using find_session_sound [OF ok f] find_sessionD [OF f] by simp_all
  let ?n = "if se_offered s then normalize_shared_state s else Some (Inr (shared_state_or_new s), s, [])"
  have "\<exists>r s1 es. ?n = Some (r, s1, es) \<and> session_sound s1"
    using normalize_sound [OF s(1)] s(1) by (metis (full_types))
  then obtain r s1 es where n: "?n = Some (r, s1, es)" "session_sound s1" by blast
  obtain su where su: "catalog_summary s1 = Some su" using summary_answers [OF n(2)] ..
  have d1: "daemon_sound (emit_effects (put_session d s1) es)" using put_session_sound [OF ok n(2)] by simp
  show ?thesis
    using f n(1) su d1 attach_pane_ok [OF d1]
    by (cases r) (auto simp: attach_def Let_def split: sum.splits option.splits)
qed

lemma await_answers:
  assumes ok: "daemon_sound d"
  shows "\<exists>r. await_handover ev io d i j a = Some r \<and> daemon_sound (attached_daemon r)"
proof (cases "find_session d i")
  case None
  then show ?thesis using ok by (simp add: await_handover_def)
next
  case (Some s)
  then obtain su where "catalog_summary s = Some su" using summary_answers find_session_sound [OF ok] by blast
  then show ?thesis
    using Some ok await_pane_ok [OF ok] by (auto simp: await_handover_def split: option.splits)
qed

lemma released_ok: "session_sound s \<Longrightarrow> session_sound (s\<lparr>se_panes := map (\<lambda>p. if gone p then release_pane p else p) (se_panes s)\<rparr>)"
  by (intro session_sound_panes) (simp_all add: comp_def if_distrib [of pn_id])

lemma reclaim_answers:
  assumes "daemon_sound d"
  shows "\<exists>d'. reclaim_panes_from_departed_clients running d = Some d' \<and> daemon_sound d'"
proof -
  define departed where "departed = departed_holders running d"
  define gone :: "'a mux_pane \<Rightarrow> bool" where
    "gone = (\<lambda>p. case exclusive_holder p of Some h \<Rightarrow> h \<in> set departed | None \<Rightarrow> False)"
  define d1 where "d1 = d\<lparr>dm_sessions := map (\<lambda>s. s\<lparr>se_panes := map (\<lambda>p. if gone p then release_pane p else p) (se_panes s)\<rparr>) (dm_sessions d)\<rparr>"
  have "daemon_sound d1"
    by (rule daemon_sound_sessions [OF assms]) (auto simp: d1_def list_all2_map2 list_all2_same released_ok)
  then have d2: "daemon_sound (snd (take_abandoned_sessions d1))"
    by (rule daemon_sound_filter) (simp add: take_abandoned_sessions_def)
  define d3 where "d3 = (if list_ex (\<lambda>s. list_ex gone (se_panes s)) (dm_sessions d)
     then emit_effects (snd (take_abandoned_sessions d1)) [NotifyWaiters] else snd (take_abandoned_sessions d1))"
  have "daemon_sound d3" using d2 by (simp add: d3_def)
  then obtain b d4 where p: "prune_exited_panes d3 = Some (b, d4)" "daemon_sound d4" using prune_answers by blast
  have "reclaim_departed departed d = Some (emit_effects d4 [PublishCatalog])"
    using p(1) unfolding reclaim_departed_def Let_def gone_def [symmetric] d1_def [symmetric] d3_def [symmetric] by simp
  then show ?thesis
    using assms p(2) by (simp add: reclaim_panes_from_departed_clients_def departed_def Let_def)
qed

lemma viewer_gone_answers:
  assumes ok: "daemon_sound d"
  shows "\<exists>d'. remove_shared_attachment ev d i j att = Some d' \<and> daemon_sound d'"
proof -
  have "\<exists>b d'. prune_exited_panes (emit_effects (put_session d (put_pane s p)) es) = Some (b, d') \<and> daemon_sound d'"
    if "find_session d i = Some s" for s p es
    using prune_answers [of "emit_effects (put_session d (put_pane s p)) es"] put_session_sound [OF ok put_pane_ok [OF find_session_sound [OF ok that]]]
    by simp
  then show ?thesis using ok by (fastforce simp: remove_shared_attachment_def split: option.splits prod.splits)
qed

lemma admit_batch_answers:
  assumes ok: "daemon_sound d"
  shows "\<exists>r d'. admit_batch rq peer pf d = Some (r, d') \<and> daemon_sound d'"
proof (cases "find_session d (br_session_id rq)")
  case None
  then show ?thesis using ok by (simp add: admit_batch_def)
next
  case (Some s)
  obtain r s1 es where "normalize_shared_state s = Some (r, s1, es)" "session_sound s1"
    using normalize_sound [OF find_session_sound [OF ok Some]] by metis
  then show ?thesis using Some ok put_session_sound [OF ok] by (simp add: admit_batch_def)
qed

text \<open>What creating a session asks of the counters: they have not wrapped, and the session is new.\<close>

lemma commit_create_ok:
  assumes ok: "daemon_sound d" and valid: "validate_create_request has_profile rq = Inr ()"
    and prep: "prepare_create start rq n = (Inr (b, active), n')" and ids: "0 < n" "unat n + length (cq_panes rq) \<le> 2 ^ 64"
    and i: "i \<notin> se_id ` set (dm_sessions d)" and r: "commit_create ev rq null b active peer i d = (answer, d', i')"
  shows "daemon_sound d'"
proof (cases "answered_before d (cq_operation_id rq)")
  case None
  obtain ps where ps: "start_drafts start (cq_panes rq) n = (Inr ps, n')"
    using prep by (cases "start_drafts start (cq_panes rq) n") (auto simp: prepare_create_def Let_def split: sum.splits)
  obtain b0 active0 where b0: "prepare_create start rq n = (Inr (b0, active0), n')"
    and c: "mset (bg_ids (pb_replacement b0)) = mset (map pv_pane_id (pb_provisional b0))" "bg_ok (pb_replacement b0)"
    "length (pb_provisional b0) = length (cq_panes rq)" "distinct (map pv_pane_id (pb_provisional b0))"
    "0 \<notin> pv_pane_id ` set (pb_provisional b0)" "active0 \<in> pv_pane_id ` set (pb_provisional b0)"
    by (rule prepare_create_result [OF valid ps ids])
  have "b0 = b" "active0 = active" using prep b0 by simp_all
  then show ?thesis using commit_create_result [OF ok None i c, of ev null peer] r by (metis prod.inject)
qed (use ok r in \<open>simp add: commit_create_def\<close>)

lemma kill_ok: "daemon_sound d \<Longrightarrow> daemon_sound (snd (kill d i peer pf))"
  by (auto simp: kill_def intro: daemon_sound_filter split: option.splits)

lemma close_answers:
  assumes ok: "daemon_sound d"
  shows "\<exists>r d'. close_session_pane d i j claimed peer pf = Some (r, d') \<and> daemon_sound d'"
proof -
  have "\<exists>b d'. prune_exited_panes (emit_effects (snd (take_abandoned_sessions (put_session d (put_pane s p)))) es) = Some (b, d') \<and> daemon_sound d'"
    if "find_session d i = Some s" for s p es
  proof -
    have "daemon_sound (put_session d (put_pane s p))" by (rule put_session_sound [OF ok put_pane_ok [OF find_session_sound [OF ok that]]])
    then have "daemon_sound (snd (take_abandoned_sessions (put_session d (put_pane s p))))"
      by (rule daemon_sound_filter) (simp add: take_abandoned_sessions_def)
    then show ?thesis using prune_answers [of "emit_effects (snd (take_abandoned_sessions (put_session d (put_pane s p)))) es"] by simp
  qed
  then show ?thesis
    using ok by (fastforce simp: close_session_pane_def Let_def split: option.splits)
qed

lemma resize_ok: "daemon_sound d \<Longrightarrow> daemon_sound (snd (resize_pane ev d i j rvn c l peer pf))"
  by (auto simp: resize_pane_def intro!: put_session_sound put_pane_ok dest: find_session_sound split: option.splits)

lemma times_out_ok: "daemon_sound d \<Longrightarrow> daemon_sound (snd (handover_times_out d i j))"
  by (auto simp: handover_times_out_def split: option.splits)

lemma snapshot_ok: "daemon_sound d \<Longrightarrow> daemon_sound (snd (snapshot ev d i j bs c l claimed peer))"
  by (auto simp: snapshot_def Let_def split: option.splits attachment.splits)

lemma take_begin_ok: "daemon_sound d \<Longrightarrow> daemon_sound (snd (take_exclusive_begin d i j claimed peer c so))"
  by (auto simp: take_exclusive_begin_def split: option.splits attachment.splits)

lemma take_finish_ok: "daemon_sound d \<Longrightarrow> daemon_sound (snd (take_exclusive_finish ev io d i j claimed c null flushed))"
  by (auto simp: take_exclusive_finish_def Let_def split: option.splits)

lemma release_exclusive_ok: "daemon_sound d \<Longrightarrow> daemon_sound (snd (release_exclusive d i j claimed c peer))"
  by (auto simp: release_exclusive_def split: option.splits attachment.splits)

lemma serve_input_ok: "daemon_sound d \<Longrightarrow> serve_input answers d i j att bs = Some (r, d') \<Longrightarrow> daemon_sound d'"
  by (auto simp: serve_input_def split: option.splits attachment.splits)

lemma serve_resize_ok: "daemon_sound d \<Longrightarrow> daemon_sound (snd (serve_resize ev d i j att rvn c l))"
  by (auto simp: serve_resize_def Let_def split: option.splits)

lemma authorize_ok: "daemon_sound d \<Longrightarrow> authorize_pass d i a pf = Granted d' \<Longrightarrow> daemon_sound d'"
  by (erule authorize_pass_grants) (auto simp: claimed_by_def intro!: put_session_sound dest: find_session_sound)

lemma drain_panes_ids:
  "(\<And>p idle q es. f p = Some (idle, q, es) \<Longrightarrow> pn_id q = pn_id p) \<Longrightarrow> drain_panes f ps = Some (idle, qs, es) \<Longrightarrow>
   map pn_id qs = map pn_id ps"
  by (induction ps arbitrary: idle qs es) (fastforce split: bind_splits)+

lemma drain_sessions_ok:
  "drain_sessions ev io ss = Some (idle, ss', es) \<Longrightarrow>
   list_all2 (\<lambda>s s'. se_id s' = se_id s \<and> (session_sound s \<longrightarrow> session_sound s')) ss ss'"
proof (induction ss arbitrary: idle ss' es)
  case (Cons s ss)
  obtain x where x: "drain_session ev io s = Some x" using Cons.prems by (cases "drain_session ev io s") auto
  obtain y where y: "drain_sessions ev io ss = Some y" using Cons.prems x by (cases "drain_sessions ev io ss") (auto split: prod.splits)
  obtain idle1 s1 es1 idle2 ss2 es2 where *: "drain_session ev io s = Some (idle1, s1, es1)"
    "drain_sessions ev io ss = Some (idle2, ss2, es2)" by (metis x y prod_cases3)
  then have ss': "ss' = s1 # ss2" using Cons.prems by simp
  obtain ps where ps: "drain_panes (\<lambda>p. drain_pane ev (io (se_id s) (pn_id p)) (se_id s) (session_revision s) p) (se_panes s) =
      Some (idle1, ps, es1)" "s1 = s\<lparr>se_panes := ps\<rparr>"
    using *(1) by (auto simp: drain_session_def)
  have "map pn_id ps = map pn_id (se_panes s)"
    by (rule drain_panes_ids [OF _ ps(1)]) (auto simp: keeps_pane_def dest!: drain_pane_keeps)
  then show ?case using Cons.IH [OF *(2)] ss' ps(2) session_sound_panes by auto
qed simp

lemma sweep_ok: "daemon_sound d \<Longrightarrow> daemon_sound (snd (sweep_exits status d))"
proof -
  assume ok: "daemon_sound d"
  have "pn_id (snd (observe_pane_exit st i p)) = pn_id p" for st i and p :: "'a mux_pane"
    by (simp add: observe_pane_exit_def Let_def split: option.splits)
  then have "session_sound s \<longrightarrow> session_sound (snd (sweep_session status s))" for s :: "('a, 'b) session"
    by (auto simp: sweep_session_def Let_def intro!: session_sound_panes)
  moreover have "se_id (snd (sweep_session status s)) = se_id s" for s :: "('a, 'b) session"
    by (simp add: sweep_session_def Let_def)
  ultimately show ?thesis
    by (intro daemon_sound_sessions [OF ok, of "map (\<lambda>s. snd (sweep_session status s)) (dm_sessions d)"])
      (auto simp: sweep_exits_def Let_def list_all2_map2 list_all2_same comp_def)
qed

lemma drain_iteration_ok:
  assumes ok: "daemon_sound d" and r: "drain_iteration ev due status io d = Some (idle, d')"
  shows "daemon_sound d'"
proof -
  obtain missed d1 where m: "(if due then map_option (sweep_exits status) (reclaim_panes_from_departed_clients (ev_running ev) d)
      else Some ([], d)) = Some (missed, d1)"
    and r1: "Option.bind (drain_sessions ev io (dm_sessions d1)) (\<lambda>(idle, ss, es).
         let d2 = emit_effects (d1\<lparr>dm_sessions := ss\<rparr>) es
         in if missed = [] then Some (idle, d2)
            else map_option (\<lambda>(_, d3). (False, emit_effects d3 [PublishCatalog]))
                   (prune_exited_panes (emit_effects d2
                      (map (\<lambda>(session_id, pane_id, raw, sent). BroadcastExited session_id pane_id raw sent) missed)))) = Some (idle, d')"
    using r unfolding drain_iteration_def by (auto split: bind_splits)
  have d1: "daemon_sound d1"
    using m ok reclaim_answers [OF ok, of "ev_running ev"] sweep_ok [of _ status] by (auto split: if_splits dest!: arg_cong [of _ _ snd])
  obtain idle1 ss es where ss: "drain_sessions ev io (dm_sessions d1) = Some (idle1, ss, es)"
    using r1 by (auto split: bind_splits)
  have d2: "daemon_sound (d1\<lparr>dm_sessions := ss\<rparr>)" by (rule daemon_sound_sessions [OF d1 drain_sessions_ok [OF ss]]) simp
  define es' where "es' = map (\<lambda>(session_id, pane_id, raw, sent). BroadcastExited session_id pane_id raw sent :: 'b effect) missed"
  obtain b d3 where p: "prune_exited_panes (emit_effects (emit_effects (d1\<lparr>dm_sessions := ss\<rparr>) es) es') = Some (b, d3)" "daemon_sound d3"
    using prune_answers [of "emit_effects (emit_effects (d1\<lparr>dm_sessions := ss\<rparr>) es) es'"] d2 by auto
  then show ?thesis
    using r1 ss d2 by (cases "missed = []") (auto simp: Let_def simp flip: es'_def)
qed

section \<open>Steps of the daemon\<close>

text \<open>
  Every rule is one request, wake-up, read or sweep, with any arguments: what a request publishes of a
  session need not be well formed.  The identifiers of new panes and sessions come from counters that have not wrapped:
  the panes of a batch are new to every session, and the identifier of a session is new to the daemon.
\<close>

inductive daemon_step :: "('t, 'j) daemon \<Rightarrow> ('t, 'j) daemon \<Rightarrow> bool" where
  Edits: "apply_shared d rq peer pf = Some (r, d') \<Longrightarrow> daemon_step d d'"
| Views: "shared_snapshot d i peer pf = Some (r, d') \<Longrightarrow> daemon_step d d'"
| Admits: "admit_batch rq peer pf d = Some (r, d') \<Longrightarrow> daemon_step d d'"
| Batches: "prepare_batch start rq n = (Inr b, n') \<Longrightarrow> 0 < n \<Longrightarrow> unat n + length (br_panes rq) \<le> 2 ^ 64 \<Longrightarrow>
    \<forall>s\<in>set (dm_sessions d). pn_id ` set (se_panes s) \<inter> set (next_ids n (length (br_panes rq))) = {} \<Longrightarrow>
    finish_batch ev rq b client_name peer pf d = Some (answer, d') \<Longrightarrow> daemon_step d d'"
| Creates: "validate_create_request has_profile cq = Inr () \<Longrightarrow> prepare_create start cq n = (Inr (b, active), n') \<Longrightarrow>
    0 < n \<Longrightarrow> unat n + length (cq_panes cq) \<le> 2 ^ 64 \<Longrightarrow> i \<notin> se_id ` set (dm_sessions d) \<Longrightarrow>
    commit_create ev cq null b active peer i d = (created, d', i') \<Longrightarrow> daemon_step d d'"
| Shares: "share ev d i rq client peer pf = Some (r, d') \<Longrightarrow> daemon_step d d'"
| Detaches: "detach ev d i rq snaps client peer = Some (r, d') \<Longrightarrow> daemon_step d d'"
| Scopes: "set_session_scope ev d i shared verifier envelope peer pf stream_only = Some (r, d') \<Longrightarrow> daemon_step d d'"
| Leaves: "leave_shared ev d i client_name peer pf = Some (r, d') \<Longrightarrow> daemon_step d d'"
| Viewer_gone: "remove_shared_attachment ev d i j att = Some d' \<Longrightarrow> daemon_step d d'"
| Kills: "kill d i peer pf = (u, d') \<Longrightarrow> daemon_step d d'"
| Closes: "close_session_pane d i j claimed peer pf = Some (u, d') \<Longrightarrow> daemon_step d d'"
| Resizes: "resize_pane ev d i j rvn c l peer pf = (u, d') \<Longrightarrow> daemon_step d d'"
| Authorizes: "authorize_pass d i a proof_opt = Granted d' \<Longrightarrow> daemon_step d d'"
| Attaches: "attach ev io d i pane_opt a force = Some ag \<Longrightarrow> daemon_step d (attached_daemon ag)"
| Awaits: "await_handover ev io d i j a = Some ag \<Longrightarrow> daemon_step d (attached_daemon ag)"
| Times_out: "handover_times_out d i j = (r, d') \<Longrightarrow> daemon_step d d'"
| Snapshots: "snapshot ev d i j bs c l claimed peer = (r, d') \<Longrightarrow> daemon_step d d'"
| Takes: "take_exclusive_begin d i j claimed peer client_name stream_only = (rl, d') \<Longrightarrow> daemon_step d d'"
| Finishes: "take_exclusive_finish ev io d i j claimed client_name null flushed = (r, d') \<Longrightarrow> daemon_step d d'"
| Releases: "release_exclusive d i j claimed client_name peer = (r, d') \<Longrightarrow> daemon_step d d'"
| Types: "serve_input answers d i j att bs = Some (u, d') \<Longrightarrow> daemon_step d d'"
| Reports_size: "serve_resize ev d i j att rvn c l = (u, d') \<Longrightarrow> daemon_step d d'"
| Prunes: "prune_exited_panes d = Some (b, d') \<Longrightarrow> daemon_step d d'"
| Reclaims: "reclaim_panes_from_departed_clients running d = Some d' \<Longrightarrow> daemon_step d d'"
| Drains: "drain_iteration ev due status dio d = Some (b, d') \<Longrightarrow> daemon_step d d'"

lemma snd_ok: "r = (x, d') \<Longrightarrow> daemon_sound (snd r) \<Longrightarrow> daemon_sound d'"
  by simp

lemma daemon_step_ok:
  assumes "daemon_step d d'" "daemon_sound d"
  shows "daemon_sound d'"
  using assms
proof (induction rule: daemon_step.induct)
  case (Edits d rq peer pf r d')
  then show ?case using edits.on_session_answers [of d "rq_session_id rq" rq peer pf] by (auto simp: apply_shared_def)
next
  case (Views d i peer pf r d')
  then show ?case using views.on_session_answers [of d i i peer pf] by (auto simp: shared_snapshot_def)
next
  case (Admits rq peer pf d r d')
  then show ?case using admit_batch_answers [of d rq peer pf] by auto
next
  case (Batches start rq n b n' d ev client_name peer pf answer d')
  have "brings_new_panes rq b s" if "find_session d (br_session_id rq) = Some s" for s
    by (rule prepared_brings_fresh_panes [OF Batches(1-3)]) (use Batches(4) find_sessionD [OF that] in blast)
  then show ?case
    using batches.on_session_answers [of d "br_session_id rq" rq b ev client_name peer pf] Batches(5,6) by (auto simp: finish_batch_def)
next
  case (Creates has_profile cq start n b active n' i d ev null peer created d' i')
  show ?case by (rule commit_create_ok [OF Creates(7,1-6)])
next
  case (Shares ev d i rq client peer pf r d')
  then show ?case using shares.on_session_answers [of d i ev i rq client peer pf] by (auto simp: share_def)
next
  case (Detaches ev d i rq snaps client peer r d')
  then show ?case
    using detaches.after_request_answers [of d i "[]" "[PublishCatalog, WakeDrain]" ev i rq snaps client peer] by (auto simp: detach_def)
next
  case (Scopes ev d i shared verifier envelope peer pf stream_only r d')
  then show ?case
    using scopes.on_session_answers [of d i ev i shared verifier envelope peer pf stream_only] by (auto simp: set_session_scope_def)
next
  case (Leaves ev d i client_name peer pf r d')
  then show ?case
    using leaves.after_request_answers [of d i "[NotifyWaiters]" "[PublishCatalog, WakeDrain]" ev i client_name peer pf]
    by (auto simp: leave_shared_def)
next
  case (Viewer_gone ev d i j att d')
  then show ?case using viewer_gone_answers [of d ev i j att] by auto
next
  case (Closes d i j claimed peer pf u d')
  then show ?case using close_answers [of d i j claimed peer pf] by auto
next
  case (Attaches ev io d i pane_opt a force ag)
  then show ?case
    using attach_answers [of d i _ ev io pane_opt a force] by (cases "find_session d i") (auto simp: attach_def)
next
  case (Awaits ev io d i j a ag)
  then show ?case using await_answers [of d ev io i j a] by auto
next
  case (Prunes d b d')
  then show ?case using prune_answers [of d] by auto
next
  case (Reclaims running d d')
  then show ?case using reclaim_answers [of d running] by auto
qed (auto elim: snd_ok intro: kill_ok resize_ok times_out_ok snapshot_ok take_begin_ok take_finish_ok release_exclusive_ok
  serve_resize_ok dest: authorize_ok serve_input_ok drain_iteration_ok)

lemma reachable_ok: "daemon_step\<^sup>*\<^sup>* d d' \<Longrightarrow> daemon_sound d \<Longrightarrow> daemon_sound d'"
  by (induction rule: rtranclp_induct) (auto dest: daemon_step_ok)

section \<open>Properties\<close>

text \<open>The panes a batch brings are new to the session it is for.\<close>

definition brings_new_panes_to :: "('t, 'j) daemon \<Rightarrow> batch_request \<Rightarrow> prepared_batch \<Rightarrow> bool" where
  "brings_new_panes_to d rq b \<longleftrightarrow> (\<forall>s. find_session d (br_session_id rq) = Some s \<longrightarrow> brings_new_panes rq b s)"

text \<open>
  C10.  The daemon never gives up on a request.  After any sequence of requests, wake-ups, reads
  and sweeps, whatever layouts the requests publish, the identifiers of its sessions and of their panes are distinct and
  its shared states are of a version it knows; and then none of its handlers
  runs into one of its \<open>expect\<close>s: every request that works on a session is answered,
  and pruning and reclaiming panes come to an end in such a daemon again.  The panes a batch brings are taken to be new to the
  session, as the counter they come from makes them, and an attach to be to a session that is there, as its authorization has found it.
\<close>

theorem daemon_always_answers:
  assumes "daemon_step\<^sup>*\<^sup>* d0 d" "daemon_sound d0"
  shows "daemon_sound d \<and>
    apply_shared d rq peer pf \<noteq> None \<and> shared_snapshot d i peer pf \<noteq> None \<and>
    share ev d i sh client peer pf \<noteq> None \<and> detach ev d i de snaps client peer \<noteq> None \<and>
    set_session_scope ev d i shared verifier envelope peer pf stream_only \<noteq> None \<and>
    leave_shared ev d i client_name peer pf \<noteq> None \<and> close_session_pane d i j client peer pf \<noteq> None \<and>
    remove_shared_attachment ev d i j att \<noteq> None \<and> await_handover ev io d i j a \<noteq> None \<and>
    admit_batch bq peer pf d \<noteq> None \<and>
    (brings_new_panes_to d bq b \<longrightarrow> finish_batch ev bq b client_name peer pf d \<noteq> None) \<and>
    (find_session d i \<noteq> None \<longrightarrow> attach ev io d i pane_opt a force \<noteq> None) \<and>
    (\<exists>b d'. prune_exited_panes d = Some (b, d') \<and> daemon_sound d') \<and>
    (\<exists>d'. reclaim_panes_from_departed_clients running d = Some d' \<and> daemon_sound d')"
proof -
  have ok: "daemon_sound d" by (rule reachable_ok [OF assms(1,2)])
  have "apply_shared d rq peer pf \<noteq> None" "shared_snapshot d i peer pf \<noteq> None"
    using edits.on_session_answers [of d "rq_session_id rq" rq peer pf] views.on_session_answers [of d i i peer pf] ok
    by (auto simp: apply_shared_def shared_snapshot_def)
  moreover have "share ev d i sh client peer pf \<noteq> None" "detach ev d i de snaps client peer \<noteq> None"
    using shares.on_session_answers [OF _ ok, of i ev i sh client peer pf]
      detaches.after_request_answers [OF _ ok, of i "[]" "[PublishCatalog, WakeDrain]" ev i de snaps client peer]
    by (auto simp: share_def detach_def)
  moreover have "set_session_scope ev d i shared verifier envelope peer pf stream_only \<noteq> None"
    "leave_shared ev d i client_name peer pf \<noteq> None"
    using scopes.on_session_answers [of d i ev i shared verifier envelope peer pf stream_only]
      leaves.after_request_answers [of d i "[NotifyWaiters]" "[PublishCatalog, WakeDrain]" ev i client_name peer pf] ok
    by (auto simp: set_session_scope_def leave_shared_def)
  moreover have "finish_batch ev bq b client_name peer pf d \<noteq> None" if "brings_new_panes_to d bq b"
    using that batches.on_session_answers [of d "br_session_id bq" bq b ev client_name peer pf] ok
    by (auto simp: finish_batch_def brings_new_panes_to_def)
  moreover have "attach ev io d i pane_opt a force \<noteq> None" if "find_session d i \<noteq> None"
    using that attach_answers [OF ok, of i _ ev io pane_opt a force] by auto
  ultimately show ?thesis
    using ok close_answers [OF ok, of i j client peer pf] viewer_gone_answers [OF ok, of ev i j att]
      await_answers [OF ok, of ev io i j a] admit_batch_answers [OF ok, of bq peer pf] prune_answers [OF ok] reclaim_answers [OF ok, of running]
    by fastforce
qed

theorem daemon_always_answers_witness:
  "daemon_sound (sample_daemon (sample_session AttNone None)) \<and>
    daemon_step (sample_daemon (sample_session AttNone None)) (snd (kill (sample_daemon (sample_session AttNone None)) 7 None [])) \<and>
    apply_shared (snd (kill (sample_daemon (sample_session AttNone None)) 7 None [])) (sample_shared_request ''c'' (ClosePane 1)) None [] \<noteq> None"
proof -
  let ?d = "sample_daemon (sample_session AttNone None)"
  have step: "daemon_step ?d (snd (kill ?d 7 None []))" by (rule Kills) (rule prod.collapse [symmetric])
  have steps: "daemon_step\<^sup>*\<^sup>* ?d (snd (kill ?d 7 None []))" by (rule r_into_rtranclp, rule step)
  note always = daemon_always_answers [OF steps daemon_ok_sound [OF sample_daemon_ok], of "sample_shared_request ''c'' (ClosePane 1)" None "[]"]
  show ?thesis using step daemon_ok_sound [OF sample_daemon_ok [of AttNone None]] always [THEN conjunct2, THEN conjunct1] by simp
qed

text \<open>
  A stranger that also neither views a pane of the session nor has one handed over to it, in the name of
  the process its connection comes from.
\<close>

definition outsider :: "('t, 'j) session \<Rightarrow> u32 option \<Rightarrow> secret_proof \<Rightarrow> bool" where
  "outsider s peer pf \<longleftrightarrow> stranger s peer pf \<and>
     (\<forall>pid p. peer = Some pid \<longrightarrow> p \<in> set (se_panes s) \<longrightarrow>
        (\<forall>cs. pn_attachment p = AttShared cs \<longrightarrow> (\<forall>c\<in>set cs. sc_peer_process_id c \<noteq> Some pid)) \<and>
        (\<forall>h. pn_handed_over p = Some h \<longrightarrow> rh_client_process_id h \<noteq> pid))"

lemma holderI: "p \<in> set (se_panes s) \<Longrightarrow> pane_is_held_by p pid \<Longrightarrow> session_is_held_by s pid"
  by (auto simp: session_is_held_by_def list_ex_iff)

lemma stranger_batches:
  assumes f: "find_session d (br_session_id rq) = Some s" and s: "stranger s peer pf"
  shows "\<exists>e. admit_batch rq peer pf d = Some (Inl e, d)" "\<exists>e. finish_batch ev rq b client peer pf d = Some (Inl e, d)"
  using f stranger_refused [OF s]
  by (simp_all add: admit_batch_def finish_batch_def on_session_def batch_in_def commit_shared_batch_def)

lemma stranger_holds:
  assumes "stranger s peer pf" "find_pane s j = Some p" "caller_process_id s claimed peer = Some h"
  shows "\<not> pane_is_held_by p h"
proof -
  have "peer = Some h" using assms(1,3)
    by (auto simp: stranger_def caller_process_id_def verified_process_id_def bind_eq_Some_conv split: if_splits)
  then show ?thesis using assms(1) holderI [of p s h] find_paneD [OF assms(2)] by (auto simp: stranger_def)
qed

lemma stranger_screens:
  assumes f: "find_session d i = Some s" and s: "stranger s peer pf"
  shows "\<exists>e. snapshot ev d i j bs columns lines claimed peer = (Inl e, d)"
    "\<exists>e. release_exclusive d i j claimed client peer = (Inl e, d)"
proof -
  have "Some h \<noteq> caller_process_id s claimed peer"
    if "find_pane s j = Some p" "pn_attachment p = AttExclusive h \<or> pn_attachment p = AttRevoking h \<or> pn_attachment p = AttGranting h"
    for p h
    using stranger_holds [OF s that(1), of claimed h] that(2) by (auto simp: pane_is_held_by_def)
  then show "\<exists>e. snapshot ev d i j bs columns lines claimed peer = (Inl e, d)"
    "\<exists>e. release_exclusive d i j claimed client peer = (Inl e, d)"
    using f by (auto simp: snapshot_def release_exclusive_def Let_def split: option.splits attachment.splits)
qed

lemma outsider_takes_nothing:
  assumes f: "find_session d i = Some s" and s: "outsider s peer pf"
  shows "\<exists>e. take_exclusive_begin d i j claimed peer client stream_only = (Inl e, d)"
proof -
  have "\<not> is_sole_viewer cs caller"
    if "verified_process_id claimed peer = Some caller" "find_pane s j = Some p" "pn_attachment p = AttShared cs" for caller p cs
    using that s find_paneD [of s j p]
    by (auto simp: outsider_def is_sole_viewer_def verified_process_id_def bind_eq_Some_conv split: list.splits if_splits)
  then show ?thesis using f by (auto simp: take_exclusive_begin_def split: option.splits attachment.splits)
qed

lemma outsider_attaches_nothing:
  assumes f: "find_session d i = Some s" and s: "outsider s (at_peer_process_id a) pf"
    and p: "\<And>v. proof_opt = Some v \<Longrightarrow> v \<in> set pf"
  shows "authorize_pass d i a proof_opt = AsksSecret \<or> (\<exists>e. authorize_pass d i a proof_opt = Refused e)"
proof -
  have "\<not> answers_handover s pid" if "attacher_verified a = Some pid" for pid
  proof
    assume "answers_handover s pid"
    then obtain q where q: "q \<in> set (se_panes s)" "pane_is_held_by q pid \<or> (\<exists>h. pn_handed_over q = Some h \<and> rh_client_process_id h = pid)"
      by (auto simp: answers_handover_def list_ex_iff pane_is_held_by_def split: attachment.splits option.splits)
    have "at_peer_process_id a = Some pid"
      using that by (auto simp: attacher_verified_def verified_process_id_def bind_eq_Some_conv split: if_splits)
    then show False using s q holderI [OF q(1)] by (auto simp: outsider_def stranger_def)
  qed
  moreover obtain au where "se_authentication s = Some au" "au_identity au \<notin> set pf"
    using s by (auto simp: outsider_def stranger_def)
  ultimately show ?thesis using f p by (auto simp: authorize_pass_def Let_def split: option.splits)
qed

text \<open>
  C16.  A protected session is closed to strangers.  A peer that is not its owner, holds or views
  none of its panes and has not proved its secret changes nothing by asking to edit, leave, offer, detach, resize or end the session, to
  close a pane, to spawn a batch into it (at the first or at the second look), to replace a screen or to give a pane back: each is
  refused and the daemon stays exactly as it was.  Nor is it told the shared state or the states of
  the panes.  A change of scope is refused as well, save that a session whose owner is gone may be offered by a local
  client that brings no new verifier.  If it has no pane handed over to it either, it cannot take a pane, and its attach is
  refused or asked for the secret.  (Guessing a secret is a request apart, and counted.)
\<close>

theorem strangers_change_nothing:
  assumes "find_session d i = Some s" "stranger s peer pf"
  shows "(\<forall>rq. rq_session_id rq = i \<longrightarrow> (\<exists>e. apply_shared d rq peer pf = Some (Inl e, d))) \<and>
    (\<exists>e. shared_snapshot d i peer pf = Some (Inl e, d)) \<and>
    (\<forall>client. \<exists>e. leave_shared ev d i client peer pf = Some (Inl e, d)) \<and>
    (\<forall>rq pid. \<exists>e. share ev d i rq pid peer pf = Some (Inl e, d)) \<and>
    (\<forall>rq snaps pid. \<exists>e. detach ev d i rq snaps pid peer = Some (Inl e, d)) \<and>
    (\<forall>pane pid. \<exists>e. close_session_pane d i pane pid peer pf = Some (Inl e, d)) \<and>
    (\<exists>e. kill d i peer pf = (Inl e, d)) \<and>
    (\<forall>pane rvn columns lines. \<exists>e. resize_pane ev d i pane rvn columns lines peer pf = (Inl e, d)) \<and>
    (\<forall>rq. br_session_id rq = i \<longrightarrow> (\<exists>e. admit_batch rq peer pf d = Some (Inl e, d)) \<and>
       (\<forall>b client. \<exists>e. finish_batch ev rq b client peer pf d = Some (Inl e, d))) \<and>
    (\<forall>pane bs columns lines claimed. \<exists>e. snapshot ev d i pane bs columns lines claimed peer = (Inl e, d)) \<and>
    (\<forall>pane claimed client. \<exists>e. release_exclusive d i pane claimed client peer = (Inl e, d)) \<and>
    (\<forall>shared verifier envelope stream_only.
       stream_only \<or> verifier \<noteq> None \<or> \<not> shared \<or> (\<exists>owner. se_owner s = Some owner \<and> ev_running ev owner) \<longrightarrow>
       (\<exists>e. set_session_scope ev d i shared verifier envelope peer pf stream_only = Some (Inl e, d))) \<and>
    (\<forall>pane. (\<forall>s'\<in>set (dm_sessions d). list_ex (\<lambda>p. pn_id p = pane) (se_panes s') \<longrightarrow> s' = s) \<longrightarrow>
       pane_states d [pane] peer pf = [unknown_pane pane]) \<and>
    (outsider s peer pf \<longrightarrow>
       (\<forall>pane claimed client stream_only. \<exists>e. take_exclusive_begin d i pane claimed peer client stream_only = (Inl e, d)) \<and>
       (\<forall>a proof_opt. at_peer_process_id a = peer \<longrightarrow> (\<forall>v. proof_opt = Some v \<longrightarrow> v \<in> set pf) \<longrightarrow>
          authorize_pass d i a proof_opt = AsksSecret \<or> (\<exists>e. authorize_pass d i a proof_opt = Refused e)))"
proof -
  have "pane_states d [pane] peer pf = [unknown_pane pane]"
    if "\<forall>s'\<in>set (dm_sessions d). list_ex (\<lambda>p. pn_id p = pane) (se_panes s') \<longrightarrow> s' = s" for pane
    by (rule pane_states_hidden) (use that assms(2) in auto)
  moreover have "authorize_pass d i a proof_opt = AsksSecret \<or> (\<exists>e. authorize_pass d i a proof_opt = Refused e)"
    if "outsider s peer pf" "at_peer_process_id a = peer" "\<forall>v. proof_opt = Some v \<longrightarrow> v \<in> set pf" for a proof_opt
    by (rule outsider_attaches_nothing [OF assms(1)]) (use that in auto)
  ultimately show ?thesis
    by (intro conjI allI impI)
      (rule stranger_changes_nothing [OF assms] stranger_scope [OF assms] stranger_screens [OF assms] outsider_takes_nothing [OF assms(1)]
        stranger_batches [OF _ assms(2)]; use assms(1) in simp | blast)+
qed

theorem strangers_change_nothing_witness:
  "(\<exists>e. kill (sample_daemon (sample_session AttNone (Some \<lparr>au_identity = 0, au_verifier = ''v''\<rparr>))) 7 (Some 99) [] =
     (Inl e, sample_daemon (sample_session AttNone (Some \<lparr>au_identity = 0, au_verifier = ''v''\<rparr>)))) \<and>
   (\<exists>e. take_exclusive_begin (sample_daemon (sample_session AttNone (Some \<lparr>au_identity = 0, au_verifier = ''v''\<rparr>))) 7 1 99 (Some 99) ''c'' False =
     (Inl e, sample_daemon (sample_session AttNone (Some \<lparr>au_identity = 0, au_verifier = ''v''\<rparr>))))"
proof -
  let ?s = "sample_session AttNone (Some \<lparr>au_identity = 0, au_verifier = ''v''\<rparr>)"
  have s: "stranger ?s (Some 99) []"
    by (simp add: stranger_def) (simp add: sample_session_def session_is_held_by_def pane_is_held_by_def sample_pane_def)
  then have "outsider ?s (Some 99) []" by (auto simp: outsider_def sample_session_def sample_pane_def)
  with strangers_change_nothing [OF sample_find s, of sample_env] show ?thesis by blast
qed

end
