(* ===== verification/Spec2Isabelle.thy ===== *)
theory Spec2Isabelle
  imports
    Pane_Geometry Pane_Stack Text_Field Fuzzy_Match Tab_Steps
    Tftp_Delivery Tftp_Server Resource_Limits
    Console_Read Zosh_Escape
    Mux_Steps
begin

text \<open>
  \<^bold>\<open>A verification development for the Zetta terminal.\<close>

  Zetta is a terminal in Rust: an application whose tabs are trees of panes, a multiplexer
  daemon (\<open>zmux\<close>) that keeps terminals running and shares them between windows,
  a console server for Windows programs, a TFTP service and a Mosh endpoint.
  The development models the code of those parts that decides something, and leaves out the parts
  that draw, that talk to the operating system, or that are vendored (listed at the end).
  Paths are relative to the repository; a theory is named with the files it models.


  \<^bold>\<open>Conventions.\<close>
  A struct is a record and an enum a datatype with the source's constructors.  A function on
  \<open>&mut self\<close> returns the new value beside its result.  A panic (\<open>expect\<close>, an index or a slice
  out of range, an underflow that is checked) is \<open>None\<close>, a \<open>Result\<close> is a sum with the error on
  the left.  Fixed-width integers are words where they wrap or are compared at their width; a \<open>usize\<close>
  that counts elements in memory is a natural number.  A string is the list of its Unicode scalars and
  byte offsets are computed (\<open>Utf8\<close>).  A field no modelled operation uses is left out of its record.
  A lock that is held for a whole handler makes the handler one step; a handler that gives the lock
  up is one step for each time it holds it.  What the system, a peer or a third-party crate answers is an
  argument: a script of answers, a function, or a record of functions.


  \<^bold>\<open>Prelude.\<close>
  \<open>Prelude\<close> (words, \<open>Vec\<close> and iterator operations, the collections \<open>mset_keep\<close> and \<open>inv_keep\<close>),
  \<open>Utf8\<close> (\<open>String\<close>, \<open>char\<close>, \<open>from_utf8\<close> strict and lossy), \<open>Decimal\<close> (\<open>format!\<close> and \<open>parse\<close> of
  numbers), \<open>Floats\<close> (\<open>f32\<close> and \<open>f64\<close> with rounding to nearest even, infinities and NaN) and \<open>Cyclic\<close>
  (a selection that wraps, the locale \<open>cyclic_selection\<close>).


  \<^bold>\<open>Panes and tabs\<close> (\<open>src/pane\<close>, \<open>src/text_edit.rs\<close>, \<open>src/fuzzy_match.rs\<close>).
  \<open>Pane_Layout\<close> is the split tree of \<open>layout.rs\<close>, every operation of it; the operations that only rearrange
  share the contract \<open>layout_rearrangement\<close> (the same panes, still well formed), interpreted on
  rotating, moving, swapping and the two ways to resize.  \<open>Pane_Geometry\<close> shows what is drawn: directional focus goes
  to the nearest pane (in \<open>f32\<close>, as the code computes), and, in exact arithmetic, regions tile the unit square and rotation is a
  rotation.
  \<open>Pane_Stack\<close> is \<open>stack.rs\<close>.  \<open>Pane_Tab\<close> is \<open>tab.rs\<close> with the handlers of
  \<open>app/tabs.rs\<close> that split and close a pane; \<open>Tab_Invariant\<close> states when a tab is sound, when besides its active pane can be seen
  (\<open>tab_ok\<close>), and that operations keep both, \<open>Tab_Renumber\<close> treats \<open>reassign_ids\<close>, and \<open>Tab_Steps\<close> puts the operations, those on the stack
  of a pane included, into a step relation with reachability from a new tab.  Focus can be given to any pane, hidden or not: reachable
  tabs are sound and no operation panics, and the active pane can be seen while only visible panes were given the focus.
  What a shared session installs in a tab from the daemon's answers is not among the steps.
  \<open>Text_Field\<close> refines a zipper (locale \<open>zipper_refinement\<close>, interpreted on every editing key).
  \<open>Fuzzy_Match\<close> shows that the greedy walk matches exactly the subsequences.


  \<^bold>\<open>TFTP\<close> (\<open>crates/ztftp/src\<close>).
  \<open>Tftp_Packet\<close> is \<open>lib.rs\<close>, \<open>Tftp_Net\<close> the four retry loops of \<open>server.rs\<close> and \<open>client.rs\<close> over a socket that is a script of
  receives, \<open>Tftp_Transfer\<close> the four transfers over a file system that is a script,
  \<open>Tftp_Delivery\<close> their end-to-end theorems, \<open>Tftp_Server\<close> the dispatcher, whose slots for transfers are an
  interpretation of the locale \<open>slots\<close>.  A retry loop recurses on its script: each pass consumes an event, and running out of the script is
  \<open>None\<close>, a call that has not returned.  The termination property says when it does return:
  five time-outs for each packet are enough.  The packet number is a word of 16 bits and wraps; the two properties on stored files
  are about files of fewer than 65535 blocks, because beyond that a late packet can pass for another block.


  \<^bold>\<open>Resource limits\<close> (\<open>crates/zmux/src/server/ipc_limits.rs\<close>, \<open>retention.rs\<close>, \<open>src/pane.rs\<close>).
  \<open>Resource_Limits\<close> has the contract of a counter with a ceiling, \<open>budget\<close>, and of one that counts by ones,
  \<open>slots\<close> (a \<open>sublocale\<close> relates them); connection permits, the snapshot budget, the launch queue and the
  transfers of the TFTP server interpret them.


  \<^bold>\<open>Console server\<close> (\<open>crates/console-server/src\<close>).
  \<open>Console_History\<close> is \<open>history.rs\<close> with the requests of \<open>doskey.rs\<close> and \<open>info.rs\<close> on it, \<open>Console_Alias\<close> is \<open>alias.rs\<close>.
  \<open>Console_Layout\<close>, \<open>Console_Editor\<close> and \<open>Console_Redisplay\<close> are \<open>cooked.rs\<close>: laying a line out, the keys and popups, drawing.
  The two loops over rows are \<open>partial_function (option)\<close>, because they need not end: the termination
  property says that they do in two columns, and that a control character in one column keeps them running.
  \<open>Console_Input\<close> is the queue of \<open>input.rs\<close> and the raw and record reads of \<open>read.rs\<close>; \<open>Console_Read\<close>
  composes queue, editor, history and aliases into \<open>ReadConsole\<close>, and shows that a typed line is returned, remembered and delivered
  whole.  Parameters: column widths, lowercasing, code pages other than UTF-8, the virtual-terminal text of a key, the
  geometry of the screen after an echo.


  \<^bold>\<open>Mosh endpoint\<close> (\<open>crates/zosh/src\<close>).  \<open>Zosh_Escape\<close> is the escape key of \<open>escape.rs\<close>.


  \<^bold>\<open>Multiplexer\<close> (\<open>crates/zmux/src\<close> and \<open>src/background_session_ui\<close>), from the inside out.
  \<^item> \<open>Mux_Layout\<close>: the layout of a shared session (\<open>protocol.rs\<close>, \<open>messages.rs\<close>), the conversion from and to a
    window's layout (\<open>collaboration.rs\<close>); the daemon's rearrangements do what the window's do.
  \<^item> \<open>Mux_State\<close>: the canonical state of a shared session, its operations with validation, revisions and receipts
    (\<open>messages.rs\<close>).  \<open>Mux_Viewer\<close>: how a window names the change it owes (\<open>collaboration.rs\<close>).
    One refines the other: what a viewer names, the daemon carries out exactly, and each operation it names settles one of the differences
    between what it shows and what the daemon has.
  \<^item> \<open>Mux_Pane\<close>: retained screens, relays and their queues, sizes, queued input, departures and the exit of one pane
    (\<open>retention.rs\<close>, \<open>server.rs\<close>, \<open>server/sizing.rs\<close>, \<open>server/workers.rs\<close>).
  \<^item> \<open>Mux_Session\<close>: sessions, who may see and control one, the summary rebuilt from the live panes
    (\<open>server.rs\<close>, \<open>server/sealing.rs\<close>).  \<open>session_sound\<close> and \<open>daemon_sound\<close> hold whatever layouts clients publish;
    \<open>session_ok\<close> and \<open>daemon_ok\<close> say besides that the published layouts are well formed.
  \<^item> \<open>Mux_Share\<close>: the requests that edit, offer, detach, scope, leave, close, kill and resize, pruning and the sweep of
    abandoned sessions (\<open>server/lifecycle.rs\<close>, \<open>server/workers.rs\<close>).
  \<^item> \<open>Mux_Batch\<close>: the batch by which a window turns a whole draft of a tab into new panes and one replacement
    (\<open>server/lifecycle.rs\<close>), and the request that creates a session from a draft.
  \<^item> \<open>Mux_Drain\<close>: one pass of the thread that reads the panes nobody else reads (\<open>drain_loop\<close> of \<open>server/workers.rs\<close>).
  \<^item> \<open>Mux_Attach\<close>: attaching, handing a terminal over and back, snapshots, grants and releases (\<open>server/attachment.rs\<close>); the
    relation \<open>handover_run\<close> interleaves them.
  \<^item> \<open>Mux_Secret\<close>: the gate and the refusal window of secret checks (\<open>server/secret_check.rs\<close>, \<open>auth.rs\<close>); the relation
    \<open>check_run\<close> runs any number of them side by side, with a clock.
  \<^item> \<open>Mux_Steps\<close>: the daemon as a step relation, \<open>daemon_step\<close>, with a rule for every request, wake-up, read and sweep above.
    The contract of a request on one session is the locale \<open>session_handler\<close>, interpreted on editing, viewing,
    sharing, detaching, scoping, leaving and committing a batch.  What strangers can do is stated here, over all requests.

  The record \<open>mux_env\<close> holds what the daemon takes from elsewhere: the emulator that keeps a screen, the
  encoding of messages, which processes run, which verifiers are accepted and the retention setting.  The model is the Unix
  build without the feature \<open>session-persistence\<close>.  A request that answers and then takes the lock again only to prune is one
  step.  In \<open>daemon_step\<close> a request may publish any layout; the counters that number panes and sessions have not wrapped.


  \<^bold>\<open>Groups of lemmas.\<close>
  Each component has its invariant (\<open>wf_layout\<close>, \<open>stack_ok\<close>, \<open>tab_sound\<close>, \<open>history_ok\<close>, \<open>state_ok\<close>, \<open>session_ok\<close>,
  \<open>daemon_ok\<close>, \<open>daemon_sound\<close>) and a lemma for every operation that it is kept, collected in \<open>inv_keep\<close> or named after the operation; the
  functional lemmas of operations; and one or a few properties, each preceded by its number C1 to C40, stated
  for whole runs where the component is a state machine.  A property with hypotheses is followed by a witness that
  applies it to concrete values.


  \<^bold>\<open>What the model showed.\<close>
  Deleting the newest command and searching panics (\<open>search_after_delete_panics\<close>); a console of one column hangs on a control
  character (\<open>laying_out_ends\<close>); a share that is refused for its verifier leaves the session offered
  (\<open>refused_share_leaves_session_offered\<close>); the second half of a grant hands out a terminal that another client holds
  (\<open>late_grant_takes_a_held_pane\<close>); a batch can lay out a pane that has exited (\<open>exited_pane_is_laid_out\<close>); renumbering a tab
  can confuse the selection in a stack (\<open>renumbering_can_move_selection\<close>); the borders of neighbouring panes can differ by a rounding
  error (\<open>Pane_Geometry\<close>).


  \<^bold>\<open>Not modelled.\<close>
  The emulator, parser and Mosh crates (\<open>alacritty_terminal\<close>, \<open>vte\<close>, \<open>vt100\<close>, \<open>mosh_rs\<close>, \<open>moshcatty\<close>) and the
  window toolkit with its widgets (\<open>gpui\<close> and its platforms, \<open>ui\<close>, \<open>theme\<close>, \<open>settings\<close>) are
  forks of upstream projects.  \<open>crates/terminal\<close> and \<open>crates/terminal_view\<close> wrap the emulator in toolkit entities, and \<open>src/app\<close>
  and the rendering code is callbacks of the toolkit; the state they act on is modelled above.  The loop by which a window publishes its
  geometry, with its bounded retries and the installation of each answer over the window, is part of that.  The client and
  the remote host of the multiplexer, the client of \<open>zosh\<close>, the transport of the console server and the tools
  \<open>zhttp\<close>, \<open>zwt\<close> and \<open>zclip\<close> are blocking I/O over sockets, drivers and child processes.  Persistence and
  configuration are derived serialisation; the cryptography is third-party.  Starting a process is the operating system's: batches take what it
  answers as the parameter \<open>start\<close>, and the requests that start a single pane or open a window's session are left out.
\<close>

end
